(* ===== verification/Prelude.thy ===== *)
theory Prelude
  imports Main "HOL-Library.Word" "HOL-Library.Multiset"
begin

text \<open>
  Shared vocabulary of the development.

  \<^item> C programs that read and write memory are commands: functions from a state to either a
    \<open>fault\<close> or a result with the next state.  \<open>bnd\<close> sequences two commands and \<open>ret\<close> returns.
    \<open>Verify333\<close> is the assertion macro of CSE333.h, whose failure exits the process.
  \<^item> \<open>wp c Q s\<close> says that the command \<open>c\<close> returns normally from \<open>s\<close> and its result satisfies
    \<open>Q\<close>: total correctness, no fault, no exit, no exhausted fuel.  The rules of \<open>wp_simps\<close> push it
    through a command.
  \<^item> \<open>malloc_state\<close> is the part of the state that describes the C allocator: the next unused
    address and the outcomes of the coming calls.  An allocation may fail at any call; the empty
    list of outcomes means that every further call succeeds.
\<close>

unbundle bit_operations_syntax

section \<open>Faults and commands\<close>

datatype fault =
    VerifyFailure     \<comment> \<open>a \<open>Verify333\<close> or an \<open>assert\<close> failed: the process exits\<close>
  | MemFault          \<comment> \<open>access through NULL or through memory that is not an allocated object\<close>
  | SignedOverflow    \<comment> \<open>a signed operation left the range of its type\<close>
  | DivideByZero      \<comment> \<open>an integer division or remainder by zero\<close>
  | Exit int          \<comment> \<open>the program called \<open>exit\<close>\<close>
  | Panic             \<comment> \<open>the kernel called \<open>panic\<close>, which never returns\<close>
  | OutOfFuel         \<comment> \<open>the bound on the loop was reached: never a behaviour of the code\<close>

type_synonym ('s, 'a) cmd = "'s \<Rightarrow> fault + 'a \<times> 's"

definition ret :: "'a \<Rightarrow> ('s, 'a) cmd" where
  "ret x s = Inr (x, s)"

definition fail :: "fault \<Rightarrow> ('s, 'a) cmd" where
  "fail e s = Inl e"

definition bnd :: "('s, 'a) cmd \<Rightarrow> ('a \<Rightarrow> ('s, 'b) cmd) \<Rightarrow> ('s, 'b) cmd" where
  "bnd m f s = (case m s of Inl e \<Rightarrow> Inl e | Inr (x, t) \<Rightarrow> f x t)"

definition Verify333 :: "bool \<Rightarrow> ('s, unit) cmd" where
  "Verify333 b = (if b then ret () else fail VerifyFailure)"

section \<open>Weakest preconditions\<close>

named_theorems wp_simps \<open>rules that push wp through a command\<close>

definition wp :: "('s, 'a) cmd \<Rightarrow> ('a \<Rightarrow> 's \<Rightarrow> bool) \<Rightarrow> 's \<Rightarrow> bool" where
  "wp c Q s = (case c s of Inl _ \<Rightarrow> False | Inr (x, t) \<Rightarrow> Q x t)"

lemma wp_iff: "wp c Q s \<longleftrightarrow> (\<exists>x t. c s = Inr (x, t) \<and> Q x t)"
  by (auto simp: wp_def split: sum.splits)

lemma wp_ret [wp_simps]: "wp (ret x) Q = Q x"
  by (rule ext) (simp add: wp_def ret_def)

lemma wp_ret_expanded [wp_simps]: "wp (\<lambda>s. Inr (x, s)) Q s = Q x s"
  by (simp add: wp_def)

lemma wp_fail [wp_simps]: "wp (fail e) Q s = False"
  by (simp add: wp_def fail_def)

lemma wp_bnd [wp_simps]: "wp (bnd m f) Q = wp m (\<lambda>x. wp (f x) Q)"
  by (rule ext) (auto simp: wp_def bnd_def split: sum.splits)

lemma wp_Verify333 [wp_simps]: "wp (Verify333 b) Q = (\<lambda>s. b \<and> Q () s)"
  by (rule ext) (simp add: Verify333_def wp_ret wp_fail)

lemma wp_if [wp_simps]:
  "wp (if b then c else d) Q s = (if b then wp c Q s else wp d Q s)"
  by simp

lemma wp_mono: "wp c Q s \<Longrightarrow> (\<And>x t. Q x t \<Longrightarrow> R x t) \<Longrightarrow> wp c R s"
  by (auto simp: wp_iff)

lemma wp_Inr: "c s = Inr (x, t) \<Longrightarrow> wp c Q s = Q x t"
  by (simp add: wp_def)

lemma wp_result: "wp c (\<lambda>x t. x = r \<and> P t) s \<Longrightarrow> \<exists>t. c s = Inr (r, t) \<and> P t"
  by (auto simp: wp_iff)

text \<open>A command that faults, seen through a sequence.\<close>

lemma bnd_Inl: "m s = Inl e \<Longrightarrow> bnd m f s = Inl e"
  by (simp add: bnd_def)

lemma bnd_Inr: "m s = Inr (x, t) \<Longrightarrow> bnd m f s = f x t"
  by (simp add: bnd_def)

lemma ret_run: "ret x s = Inr (x, s)"
  by (simp add: ret_def)

lemma fail_run: "fail e s = Inl e"
  by (simp add: fail_def)

lemma Verify333_True [simp]: "Verify333 True = ret ()"
  by (simp add: Verify333_def)

lemma Verify333_False [simp]: "Verify333 False = fail VerifyFailure"
  by (simp add: Verify333_def)

lemma bnd_bnd: "bnd (bnd m f) g = bnd m (\<lambda>x. bnd (f x) g)"
  by (rule ext) (simp add: bnd_def split: sum.splits prod.splits)

lemma bnd_ret [simp]: "bnd (ret x) f = f x"
  by (rule ext) (simp add: bnd_def ret_run)

lemma bnd_fail [simp]: "bnd (fail e) f = fail e"
  by (rule ext) (simp add: bnd_def fail_run)

lemmas run_simps = ret_run fail_run

section \<open>Machine words\<close>

type_synonym HWSize_t = "32 word"

lemma unat_of_nat_32 [simp]: "n < 4294967296 \<Longrightarrow> unat (of_nat n :: 32 word) = n"
  by (simp add: unat_of_nat take_bit_nat_eq_self)

lemma of_nat_32_eq_0 [simp]: "n < 4294967296 \<Longrightarrow> (of_nat n = (0 :: 32 word)) = (n = 0)"
  by (simp add: word_unat_eq_iff)

lemma of_nat_32_eq_1 [simp]: "n < 4294967296 \<Longrightarrow> (of_nat n = (1 :: 32 word)) = (n = 1)"
  by (simp add: word_unat_eq_iff)

lemma Suc_of_nat_32_neq_0 [simp]: "n < 4294967295 \<Longrightarrow> 1 + of_nat n \<noteq> (0 :: 32 word)"
  using of_nat_32_eq_0 [of "Suc n"] by simp

lemma Suc_Suc_of_nat_32_neq_0 [simp]: "n < 4294967294 \<Longrightarrow> 2 + of_nat n \<noteq> (0 :: 32 word)"
  using of_nat_32_eq_0 [of "Suc (Suc n)"] by simp

lemma sint_of_nat_32: "n < 2 ^ 31 \<Longrightarrow> sint (of_nat n :: 32 word) = int n"
  by (simp add: signed_of_nat signed_take_bit_int_eq_self)

section \<open>The allocator of the C library\<close>

abbreviation NULL :: nat where
  "NULL \<equiv> 0"

record malloc_state =
  brk :: nat
  outcomes :: "bool list"

text \<open>
  A successful call hands out an address that was never handed out before; a failed one returns
  NULL.  The fields of the new object are written by the caller.
\<close>

definition malloc :: "('x malloc_state_scheme, nat) cmd" where
  "malloc s =
     (case outcomes s of
        [] \<Rightarrow> Inr (brk s, s\<lparr>brk := Suc (brk s)\<rparr>)
      | ok # rest \<Rightarrow>
          (if ok then Inr (brk s, s\<lparr>brk := Suc (brk s), outcomes := rest\<rparr>)
           else Inr (NULL, s\<lparr>outcomes := rest\<rparr>)))"

definition no_failures :: "'x malloc_state_scheme \<Rightarrow> bool" where
  "no_failures s \<longleftrightarrow> outcomes s = [] \<and> 0 < brk s"

lemma wp_malloc_ok [wp_simps]:
  "no_failures s \<Longrightarrow> wp malloc Q s = Q (brk s) (s\<lparr>brk := Suc (brk s)\<rparr>)"
  by (simp add: wp_def malloc_def no_failures_def)

lemma malloc_fails: "outcomes s = False # rest \<Longrightarrow> malloc s = Inr (NULL, s\<lparr>outcomes := rest\<rparr>)"
  by (simp add: malloc_def)

end
