(* ===== verification/LinkedList.thy ===== *)
theory LinkedList
  imports Prelude
begin

text \<open>
  The doubly linked list of uw\_cse333/hw/hw1/LinkedList.c at the level of its pointers.

  The state \<open>ll_heap\<close> holds the three kinds of objects the file allocates (nodes, list records,
  iterators), each in a map from addresses, and the payloads handed to the caller's free function,
  in call order.  Reading or writing an object that is not allocated is a \<open>MemFault\<close>, so a
  theorem that an operation returns also shows that it uses no dangling and no NULL pointer.
  A loop over the nodes carries a bound taken from the allocator (there are fewer nodes than
  addresses handed out); the theorems show that it is never reached.

  The fields \<open>next\<close>, \<open>prev\<close> of the C structure are \<open>nxt\<close>, \<open>prev\<close> here.
\<close>

section \<open>Data\<close>

record 'a LinkedListNode =
  payload :: 'a
  nxt :: nat
  prev :: nat

record LinkedListHead =
  num_elements :: HWSize_t
  head :: nat
  tail :: nat

record LLIterSt =
  it_list :: nat
  it_node :: nat

record 'a ll_heap = malloc_state +
  nodes :: "nat \<Rightarrow> 'a LinkedListNode option"
  heads :: "nat \<Rightarrow> LinkedListHead option"
  iters :: "nat \<Rightarrow> LLIterSt option"
  freed :: "'a list"

section \<open>Access to the objects\<close>

definition rd_node :: "nat \<Rightarrow> ('a ll_heap, 'a LinkedListNode) cmd" where
  "rd_node p h =
     (if p = NULL then Inl MemFault
      else case nodes h p of None \<Rightarrow> Inl MemFault | Some n \<Rightarrow> Inr (n, h))"

definition put_node :: "nat \<Rightarrow> 'a LinkedListNode \<Rightarrow> ('a ll_heap, unit) cmd" where
  "put_node p n h = Inr ((), h\<lparr>nodes := (nodes h)(p \<mapsto> n)\<rparr>)"

definition upd_node ::
    "nat \<Rightarrow> ('a LinkedListNode \<Rightarrow> 'a LinkedListNode) \<Rightarrow> ('a ll_heap, unit) cmd" where
  "upd_node p f = bnd (rd_node p) (\<lambda>n. put_node p (f n))"

definition free_node :: "nat \<Rightarrow> ('a ll_heap, unit) cmd" where
  "free_node p = bnd (rd_node p) (\<lambda>_ h. Inr ((), h\<lparr>nodes := (nodes h)(p := None)\<rparr>))"

definition rd_head :: "nat \<Rightarrow> ('a ll_heap, LinkedListHead) cmd" where
  "rd_head p h =
     (if p = NULL then Inl MemFault
      else case heads h p of None \<Rightarrow> Inl MemFault | Some l \<Rightarrow> Inr (l, h))"

definition put_head :: "nat \<Rightarrow> LinkedListHead \<Rightarrow> ('a ll_heap, unit) cmd" where
  "put_head p l h = Inr ((), h\<lparr>heads := (heads h)(p \<mapsto> l)\<rparr>)"

definition upd_head :: "nat \<Rightarrow> (LinkedListHead \<Rightarrow> LinkedListHead) \<Rightarrow> ('a ll_heap, unit) cmd" where
  "upd_head p f = bnd (rd_head p) (\<lambda>l. put_head p (f l))"

definition free_head :: "nat \<Rightarrow> ('a ll_heap, unit) cmd" where
  "free_head p = bnd (rd_head p) (\<lambda>_ h. Inr ((), h\<lparr>heads := (heads h)(p := None)\<rparr>))"

definition rd_iter :: "nat \<Rightarrow> ('a ll_heap, LLIterSt) cmd" where
  "rd_iter p h =
     (if p = NULL then Inl MemFault
      else case iters h p of None \<Rightarrow> Inl MemFault | Some i \<Rightarrow> Inr (i, h))"

definition put_iter :: "nat \<Rightarrow> LLIterSt \<Rightarrow> ('a ll_heap, unit) cmd" where
  "put_iter p i h = Inr ((), h\<lparr>iters := (iters h)(p \<mapsto> i)\<rparr>)"

definition free_iter :: "nat \<Rightarrow> ('a ll_heap, unit) cmd" where
  "free_iter p = bnd (rd_iter p) (\<lambda>_ h. Inr ((), h\<lparr>iters := (iters h)(p := None)\<rparr>))"

definition call_free :: "'a \<Rightarrow> ('a ll_heap, unit) cmd" where
  "call_free x h = Inr ((), h\<lparr>freed := freed h @ [x]\<rparr>)"

definition loop_bound :: "('a ll_heap, nat) cmd" where
  "loop_bound h = Inr (Suc (brk h), h)"

section \<open>Operations on lists\<close>

definition AllocateLinkedList :: "('a ll_heap, nat) cmd" where
  "AllocateLinkedList =
     bnd malloc (\<lambda>ll.
     if ll = NULL then ret NULL
     else bnd (put_head ll \<lparr>num_elements = 0, head = NULL, tail = NULL\<rparr>) (\<lambda>_.
          ret ll))"

text \<open>One round of the loop of \<open>FreeLinkedList\<close>, repeated until the list has no head.\<close>

fun FreeLinkedList_loop :: "nat \<Rightarrow> nat \<Rightarrow> ('a ll_heap, unit) cmd" where
  "FreeLinkedList_loop 0 list = fail OutOfFuel"
| "FreeLinkedList_loop (Suc fuel) list =
     bnd (rd_head list) (\<lambda>l.
     if head l = NULL then ret ()
     else bnd (rd_node (head l)) (\<lambda>n.
          bnd (call_free (payload n)) (\<lambda>_.
          bnd (if nxt n \<noteq> NULL then upd_node (nxt n) (prev_update (\<lambda>_. prev n)) else ret ()) (\<lambda>_.
          bnd (upd_head list (head_update (\<lambda>_. nxt n))) (\<lambda>_.
          bnd (free_node (head l)) (\<lambda>_.
          bnd (rd_head list) (\<lambda>l'.
          bnd (if head l' = NULL then upd_head list (tail_update (\<lambda>_. NULL)) else ret ()) (\<lambda>_.
          FreeLinkedList_loop fuel list))))))))"

definition FreeLinkedList :: "nat \<Rightarrow> nat \<Rightarrow> ('a ll_heap, unit) cmd" where
  "FreeLinkedList list payload_free_function =
     bnd (Verify333 (list \<noteq> NULL)) (\<lambda>_.
     bnd (Verify333 (payload_free_function \<noteq> NULL)) (\<lambda>_.
     bnd loop_bound (\<lambda>fuel.
     bnd (FreeLinkedList_loop fuel list) (\<lambda>_.
     bnd (upd_head list (num_elements_update (\<lambda>_. 0))) (\<lambda>_.
     free_head list)))))"

definition NumElementsInLinkedList :: "nat \<Rightarrow> ('a ll_heap, HWSize_t) cmd" where
  "NumElementsInLinkedList list =
     bnd (Verify333 (list \<noteq> NULL)) (\<lambda>_.
     bnd (rd_head list) (\<lambda>l.
     ret (num_elements l)))"

definition PushLinkedList :: "nat \<Rightarrow> 'a \<Rightarrow> ('a ll_heap, bool) cmd" where
  "PushLinkedList list x =
     bnd (Verify333 (list \<noteq> NULL)) (\<lambda>_.
     bnd malloc (\<lambda>ln.
     if ln = NULL then ret False
     else bnd (rd_head list) (\<lambda>l.
       if num_elements l = 0 then
         bnd (Verify333 (head l = NULL)) (\<lambda>_.
         bnd (Verify333 (tail l = NULL)) (\<lambda>_.
         bnd (put_node ln \<lparr>payload = x, nxt = NULL, prev = NULL\<rparr>) (\<lambda>_.
         bnd (put_head list \<lparr>num_elements = 1, head = ln, tail = ln\<rparr>) (\<lambda>_.
         ret True))))
       else
         bnd (Verify333 (head l \<noteq> NULL)) (\<lambda>_.
         bnd (Verify333 (tail l \<noteq> NULL)) (\<lambda>_.
         bnd (put_node ln \<lparr>payload = x, nxt = head l, prev = NULL\<rparr>) (\<lambda>_.
         bnd (upd_node (head l) (prev_update (\<lambda>_. ln))) (\<lambda>_.
         bnd (put_head list (l\<lparr>head := ln, num_elements := num_elements l + 1\<rparr>)) (\<lambda>_.
         ret True)))))))) "

text \<open>
  The out-parameter of \<open>PopLinkedList\<close> and \<open>SliceLinkedList\<close> is part of the result: \<open>None\<close> is the
  return value false, \<open>Some x\<close> is true with \<open>x\<close> stored through \<open>payload_ptr\<close>.
\<close>

definition PopLinkedList :: "nat \<Rightarrow> nat \<Rightarrow> ('a ll_heap, 'a option) cmd" where
  "PopLinkedList list payload_ptr =
     bnd (Verify333 (payload_ptr \<noteq> NULL)) (\<lambda>_.
     bnd (Verify333 (list \<noteq> NULL)) (\<lambda>_.
     bnd (rd_head list) (\<lambda>l.
     if num_elements l = 0 then ret None
     else
       bnd (rd_node (head l)) (\<lambda>n.
       bnd (if num_elements l = 1
            then upd_head list (\<lambda>l. l\<lparr>head := NULL, tail := NULL\<rparr>)
            else bnd (upd_head list (head_update (\<lambda>_. nxt n))) (\<lambda>_.
                 upd_node (nxt n) (prev_update (\<lambda>_. NULL)))) (\<lambda>_.
       bnd (upd_head list (num_elements_update (\<lambda>k. k - 1))) (\<lambda>_.
       bnd (free_node (head l)) (\<lambda>_.
       ret (Some (payload n)))))))))"

definition AppendLinkedList :: "nat \<Rightarrow> 'a \<Rightarrow> ('a ll_heap, bool) cmd" where
  "AppendLinkedList list x =
     bnd (Verify333 (list \<noteq> NULL)) (\<lambda>_.
     bnd malloc (\<lambda>ln.
     if ln = NULL then ret False
     else bnd (rd_head list) (\<lambda>l.
       if num_elements l = 0 then
         bnd (Verify333 (head l = NULL)) (\<lambda>_.
         bnd (Verify333 (tail l = NULL)) (\<lambda>_.
         bnd (put_node ln \<lparr>payload = x, nxt = NULL, prev = NULL\<rparr>) (\<lambda>_.
         bnd (put_head list \<lparr>num_elements = 1, head = ln, tail = ln\<rparr>) (\<lambda>_.
         ret True))))
       else
         bnd (upd_node (tail l) (nxt_update (\<lambda>_. ln))) (\<lambda>_.
         bnd (put_node ln \<lparr>payload = x, nxt = NULL, prev = tail l\<rparr>) (\<lambda>_.
         bnd (put_head list (l\<lparr>tail := ln, num_elements := num_elements l + 1\<rparr>)) (\<lambda>_.
         ret True))))))"

definition SliceLinkedList :: "nat \<Rightarrow> nat \<Rightarrow> ('a ll_heap, 'a option) cmd" where
  "SliceLinkedList list payload_ptr =
     bnd (Verify333 (payload_ptr \<noteq> NULL)) (\<lambda>_.
     bnd (Verify333 (list \<noteq> NULL)) (\<lambda>_.
     bnd (rd_head list) (\<lambda>l.
     if num_elements l = 0 then ret None
     else
       bnd (rd_node (tail l)) (\<lambda>n.
       bnd (if num_elements l = 1
            then upd_head list (\<lambda>l. l\<lparr>head := NULL, tail := NULL\<rparr>)
            else bnd (upd_head list (tail_update (\<lambda>_. prev n))) (\<lambda>_.
                 upd_node (prev n) (nxt_update (\<lambda>_. NULL)))) (\<lambda>_.
       bnd (upd_head list (num_elements_update (\<lambda>k. k - 1))) (\<lambda>_.
       bnd (free_node (tail l)) (\<lambda>_.
       ret (Some (payload n)))))))))"

text \<open>
  \<open>SortLinkedList\<close> is a bubble sort that exchanges payloads.  \<open>comparator_function\<close> is the caller's
  comparator; negating its result overflows a C \<open>int\<close> when it is the least one.
\<close>

definition negate_result :: "bool \<Rightarrow> int \<Rightarrow> ('a ll_heap, int) cmd" where
  "negate_result ascending r =
     (if ascending then (if r = - (2 ^ 31) then fail SignedOverflow else ret (r * -1)) else ret r)"

fun SortLinkedList_pass ::
    "nat \<Rightarrow> bool \<Rightarrow> ('a \<Rightarrow> 'a \<Rightarrow> int) \<Rightarrow> nat \<Rightarrow> bool \<Rightarrow> ('a ll_heap, bool) cmd" where
  "SortLinkedList_pass 0 ascending cmp curnode swapped = fail OutOfFuel"
| "SortLinkedList_pass (Suc fuel) ascending cmp curnode swapped =
     bnd (rd_node curnode) (\<lambda>c.
     if nxt c = NULL then ret swapped
     else
       bnd (rd_node (nxt c)) (\<lambda>d.
       bnd (negate_result ascending (cmp (payload c) (payload d))) (\<lambda>compare_result.
       if compare_result < 0 then
         bnd (upd_node curnode (payload_update (\<lambda>_. payload d))) (\<lambda>_.
         bnd (upd_node (nxt c) (payload_update (\<lambda>_. payload c))) (\<lambda>_.
         SortLinkedList_pass fuel ascending cmp (nxt c) True))
       else SortLinkedList_pass fuel ascending cmp (nxt c) swapped)))"

fun SortLinkedList_loop ::
    "nat \<Rightarrow> nat \<Rightarrow> bool \<Rightarrow> ('a \<Rightarrow> 'a \<Rightarrow> int) \<Rightarrow> nat \<Rightarrow> ('a ll_heap, unit) cmd" where
  "SortLinkedList_loop 0 fuel ascending cmp list = fail OutOfFuel"
| "SortLinkedList_loop (Suc rounds) fuel ascending cmp list =
     bnd (rd_head list) (\<lambda>l.
     bnd (SortLinkedList_pass fuel ascending cmp (head l) False) (\<lambda>swapped.
     if swapped then SortLinkedList_loop rounds fuel ascending cmp list else ret ()))"

definition SortLinkedList ::
    "nat \<Rightarrow> nat \<Rightarrow> ('a \<Rightarrow> 'a \<Rightarrow> int) \<Rightarrow> ('a ll_heap, unit) cmd" where
  "SortLinkedList list ascending comparator_function =
     bnd (Verify333 (list \<noteq> NULL)) (\<lambda>_.
     bnd (rd_head list) (\<lambda>l.
     if num_elements l < 2 then ret ()
     else bnd loop_bound (\<lambda>fuel.
          SortLinkedList_loop (fuel * fuel) fuel (ascending \<noteq> 0) comparator_function list)))"

section \<open>Operations on iterators\<close>

definition LLMakeIterator :: "nat \<Rightarrow> int \<Rightarrow> ('a ll_heap, nat) cmd" where
  "LLMakeIterator list pos =
     bnd (Verify333 (list \<noteq> NULL)) (\<lambda>_.
     bnd (Verify333 (pos = 0 \<or> pos = 1)) (\<lambda>_.
     bnd (NumElementsInLinkedList list) (\<lambda>k.
     if k = 0 then ret NULL
     else bnd malloc (\<lambda>li.
       if li = NULL then ret NULL
       else bnd (rd_head list) (\<lambda>l.
            bnd (put_iter li \<lparr>it_list = list, it_node = (if pos = 0 then head l else tail l)\<rparr>) (\<lambda>_.
            ret li))))))"

definition LLIteratorFree :: "nat \<Rightarrow> ('a ll_heap, unit) cmd" where
  "LLIteratorFree iter = bnd (Verify333 (iter \<noteq> NULL)) (\<lambda>_. free_iter iter)"

text \<open>The three checks every iterator operation starts with.\<close>

definition check_iter :: "nat \<Rightarrow> ('a ll_heap, LLIterSt) cmd" where
  "check_iter iter =
     bnd (Verify333 (iter \<noteq> NULL)) (\<lambda>_.
     bnd (rd_iter iter) (\<lambda>i.
     bnd (Verify333 (it_list i \<noteq> NULL)) (\<lambda>_.
     bnd (Verify333 (it_node i \<noteq> NULL)) (\<lambda>_.
     ret i))))"

definition LLIteratorHasNext :: "nat \<Rightarrow> ('a ll_heap, bool) cmd" where
  "LLIteratorHasNext iter =
     bnd (check_iter iter) (\<lambda>i.
     bnd (rd_node (it_node i)) (\<lambda>n.
     if nxt n = NULL then ret False else ret True))"

definition LLIteratorNext :: "nat \<Rightarrow> ('a ll_heap, bool) cmd" where
  "LLIteratorNext iter =
     bnd (check_iter iter) (\<lambda>i.
     bnd (LLIteratorHasNext iter) (\<lambda>b.
     if b then bnd (rd_node (it_node i)) (\<lambda>n.
               bnd (put_iter iter (i\<lparr>it_node := nxt n\<rparr>)) (\<lambda>_. ret True))
     else ret False))"

definition LLIteratorHasPrev :: "nat \<Rightarrow> ('a ll_heap, bool) cmd" where
  "LLIteratorHasPrev iter =
     bnd (check_iter iter) (\<lambda>i.
     bnd (rd_node (it_node i)) (\<lambda>n.
     if prev n = NULL then ret False else ret True))"

definition LLIteratorPrev :: "nat \<Rightarrow> ('a ll_heap, bool) cmd" where
  "LLIteratorPrev iter =
     bnd (check_iter iter) (\<lambda>i.
     bnd (LLIteratorHasPrev iter) (\<lambda>b.
     if b then bnd (rd_node (it_node i)) (\<lambda>n.
               bnd (put_iter iter (i\<lparr>it_node := prev n\<rparr>)) (\<lambda>_. ret True))
     else ret False))"

definition LLIteratorGetPayload :: "nat \<Rightarrow> ('a ll_heap, 'a) cmd" where
  "LLIteratorGetPayload iter =
     bnd (check_iter iter) (\<lambda>i.
     bnd (rd_node (it_node i)) (\<lambda>n.
     ret (payload n)))"

text \<open>
  The local variable \<open>payload\<close> of \<open>LLIteratorDelete\<close> has an address, so the pointer handed to
  \<open>PopLinkedList\<close> and \<open>SliceLinkedList\<close> is not NULL; a payload they did not store is read
  uninitialised.
\<close>

definition taken :: "'a option \<Rightarrow> ('a ll_heap, 'a) cmd" where
  "taken r = (case r of None \<Rightarrow> fail MemFault | Some x \<Rightarrow> ret x)"

definition LLIteratorDelete :: "nat \<Rightarrow> nat \<Rightarrow> ('a ll_heap, bool) cmd" where
  "LLIteratorDelete iter payload_free_function =
     bnd (check_iter iter) (\<lambda>i.
     bnd (rd_node (it_node i)) (\<lambda>n.
     if prev n = NULL \<and> nxt n = NULL then
       bnd (bnd (PopLinkedList (it_list i) 1) taken) (\<lambda>x.
       bnd (put_iter iter (i\<lparr>it_node := NULL\<rparr>)) (\<lambda>_.
       bnd (call_free x) (\<lambda>_.
       ret False)))
     else
       bnd (if prev n = NULL then
              bnd (bnd (PopLinkedList (it_list i) 1) taken) (\<lambda>x.
              bnd (rd_head (it_list i)) (\<lambda>l.
              bnd (put_iter iter (i\<lparr>it_node := head l\<rparr>)) (\<lambda>_. ret x)))
            else if nxt n = NULL then
              bnd (bnd (SliceLinkedList (it_list i) 1) taken) (\<lambda>x.
              bnd (rd_head (it_list i)) (\<lambda>l.
              bnd (put_iter iter (i\<lparr>it_node := tail l\<rparr>)) (\<lambda>_. ret x)))
            else
              bnd (upd_node (prev n) (nxt_update (\<lambda>_. nxt n))) (\<lambda>_.
              bnd (upd_node (nxt n) (prev_update (\<lambda>_. prev n))) (\<lambda>_.
              bnd (upd_head (it_list i) (num_elements_update (\<lambda>k. k - 1))) (\<lambda>_.
              bnd (free_node (it_node i)) (\<lambda>_.
              bnd (put_iter iter (i\<lparr>it_node := nxt n\<rparr>)) (\<lambda>_. ret (payload n))))))) (\<lambda>x.
       bnd (call_free x) (\<lambda>_.
       ret True))))"

definition LLIteratorInsertBefore :: "nat \<Rightarrow> 'a \<Rightarrow> ('a ll_heap, bool) cmd" where
  "LLIteratorInsertBefore iter x =
     bnd (check_iter iter) (\<lambda>i.
     bnd (rd_head (it_list i)) (\<lambda>l.
     if it_node i = head l then PushLinkedList (it_list i) x
     else
       bnd malloc (\<lambda>newnode.
       if newnode = NULL then ret False
       else
         bnd (rd_node (it_node i)) (\<lambda>n.
         bnd (put_node newnode \<lparr>payload = x, nxt = it_node i, prev = prev n\<rparr>) (\<lambda>_.
         bnd (upd_node (prev n) (nxt_update (\<lambda>_. newnode))) (\<lambda>_.
         bnd (upd_node (it_node i) (prev_update (\<lambda>_. newnode))) (\<lambda>_.
         bnd (upd_head (it_list i) (num_elements_update (\<lambda>k. k + 1))) (\<lambda>_.
         ret True))))))))"

section \<open>Weakest preconditions of the accesses\<close>

lemma wp_rd_node [wp_simps]:
  "wp (rd_node p) Q h =
     (p \<noteq> NULL \<and> (case nodes h p of None \<Rightarrow> False | Some n \<Rightarrow> Q n h))"
  by (auto simp: wp_def rd_node_def split: option.splits)

lemma wp_put_node [wp_simps]: "wp (put_node p n) Q h = Q () (h\<lparr>nodes := (nodes h)(p \<mapsto> n)\<rparr>)"
  by (simp add: wp_def put_node_def)

lemma wp_upd_node [wp_simps]:
  "wp (upd_node p f) Q h =
     (p \<noteq> NULL \<and> (case nodes h p of None \<Rightarrow> False
        | Some n \<Rightarrow> Q () (h\<lparr>nodes := (nodes h)(p \<mapsto> f n)\<rparr>)))"
  by (cases "nodes h p") (simp_all add: upd_node_def wp_bnd wp_rd_node wp_put_node)

lemma wp_free_node [wp_simps]:
  "wp (free_node p) Q h =
     (p \<noteq> NULL \<and> nodes h p \<noteq> None \<and> Q () (h\<lparr>nodes := (nodes h)(p := None)\<rparr>))"
  by (cases "nodes h p") (simp_all add: free_node_def wp_bnd wp_rd_node, simp add: wp_def)

lemma wp_rd_head [wp_simps]:
  "wp (rd_head p) Q h =
     (p \<noteq> NULL \<and> (case heads h p of None \<Rightarrow> False | Some l \<Rightarrow> Q l h))"
  by (auto simp: wp_def rd_head_def split: option.splits)

lemma wp_put_head [wp_simps]: "wp (put_head p l) Q h = Q () (h\<lparr>heads := (heads h)(p \<mapsto> l)\<rparr>)"
  by (simp add: wp_def put_head_def)

lemma wp_upd_head [wp_simps]:
  "wp (upd_head p f) Q h =
     (p \<noteq> NULL \<and> (case heads h p of None \<Rightarrow> False
        | Some l \<Rightarrow> Q () (h\<lparr>heads := (heads h)(p \<mapsto> f l)\<rparr>)))"
  by (cases "heads h p") (simp_all add: upd_head_def wp_bnd wp_rd_head wp_put_head)

lemma wp_free_head [wp_simps]:
  "wp (free_head p) Q h =
     (p \<noteq> NULL \<and> heads h p \<noteq> None \<and> Q () (h\<lparr>heads := (heads h)(p := None)\<rparr>))"
  by (cases "heads h p") (simp_all add: free_head_def wp_bnd wp_rd_head, simp add: wp_def)

lemma wp_rd_iter [wp_simps]:
  "wp (rd_iter p) Q h =
     (p \<noteq> NULL \<and> (case iters h p of None \<Rightarrow> False | Some i \<Rightarrow> Q i h))"
  by (auto simp: wp_def rd_iter_def split: option.splits)

lemma wp_put_iter [wp_simps]: "wp (put_iter p i) Q h = Q () (h\<lparr>iters := (iters h)(p \<mapsto> i)\<rparr>)"
  by (simp add: wp_def put_iter_def)

lemma wp_free_iter [wp_simps]:
  "wp (free_iter p) Q h =
     (p \<noteq> NULL \<and> iters h p \<noteq> None \<and> Q () (h\<lparr>iters := (iters h)(p := None)\<rparr>))"
  by (cases "iters h p") (simp_all add: free_iter_def wp_bnd wp_rd_iter, simp add: wp_def)

lemma wp_call_free [wp_simps]: "wp (call_free x) Q h = Q () (h\<lparr>freed := freed h @ [x]\<rparr>)"
  by (simp add: wp_def call_free_def)

lemma wp_loop_bound [wp_simps]: "wp loop_bound Q h = Q (Suc (brk h)) h"
  by (simp add: wp_def loop_bound_def)

lemma wp_taken [wp_simps]: "wp (taken r) Q h = (case r of None \<Rightarrow> False | Some x \<Rightarrow> Q x h)"
  by (cases r) (simp_all add: taken_def wp_ret wp_fail)

lemma wp_check_iter [wp_simps]:
  "wp (check_iter p) Q h =
     (p \<noteq> NULL \<and> (case iters h p of None \<Rightarrow> False
        | Some i \<Rightarrow> it_list i \<noteq> NULL \<and> it_node i \<noteq> NULL \<and> Q i h))"
  by (auto simp: check_iter_def wp_simps split: option.splits)

section \<open>Chains of nodes\<close>

text \<open>
  A chain is the list of the addresses of the nodes with their payloads.  \<open>dll N p ns q\<close>: in the
  node map \<open>N\<close> the nodes of \<open>ns\<close> are linked in both directions, the first one's \<open>prev\<close> is \<open>p\<close>,
  the last one's \<open>nxt\<close> is \<open>q\<close>.
\<close>

type_synonym 'a chain = "(nat \<times> 'a) list"

fun first_addr :: "'a chain \<Rightarrow> nat \<Rightarrow> nat" where
  "first_addr [] q = q"
| "first_addr ((a, x) # ns) q = a"

fun last_addr :: "'a chain \<Rightarrow> nat \<Rightarrow> nat" where
  "last_addr [] p = p"
| "last_addr ((a, x) # ns) p = last_addr ns a"

fun dll :: "(nat \<Rightarrow> 'a LinkedListNode option) \<Rightarrow> nat \<Rightarrow> 'a chain \<Rightarrow> nat \<Rightarrow> bool" where
  "dll N p [] q = True"
| "dll N p ((a, x) # ns) q =
     (N a = Some \<lparr>payload = x, nxt = first_addr ns q, prev = p\<rparr> \<and> dll N a ns q)"

lemma first_addr_append [simp]: "first_addr (ns @ ms) q = first_addr ns (first_addr ms q)"
  by (cases ns) auto

lemma last_addr_append [simp]: "last_addr (ns @ ms) p = last_addr ms (last_addr ns p)"
  by (induction ns arbitrary: p) auto

lemma dll_append [simp]:
  "dll N p (ns @ ms) q \<longleftrightarrow> dll N p ns (first_addr ms q) \<and> dll N (last_addr ns p) ms q"
  by (induction ns arbitrary: p) auto

lemma dll_upd_other [simp]:
  "a \<notin> fst ` set ns \<Longrightarrow> dll (N(a := v)) p ns q = dll N p ns q"
  by (induction ns arbitrary: p) auto

lemma dll_cong:
  "(\<And>a. a \<in> fst ` set ns \<Longrightarrow> N' a = N a) \<Longrightarrow> dll N' p ns q = dll N p ns q"
  by (induction ns arbitrary: p) auto

lemma first_addr_in: "ns \<noteq> [] \<Longrightarrow> first_addr ns q \<in> fst ` set ns"
  by (cases ns) auto

lemma last_addr_snoc: "ns \<noteq> [] \<Longrightarrow> last_addr ns p = fst (last ns)"
  by (induction ns arbitrary: p) (auto simp: neq_Nil_conv)

lemma last_addr_in: "ns \<noteq> [] \<Longrightarrow> last_addr ns p \<in> fst ` set ns"
  by (simp add: last_addr_snoc)

definition chain_ok :: "'a chain \<Rightarrow> nat \<Rightarrow> bool" where
  "chain_ok ns b \<longleftrightarrow> distinct (map fst ns) \<and> (\<forall>a \<in> fst ` set ns. 0 < a \<and> a < b)
     \<and> length ns < 2 ^ 32"

definition ll_rep :: "'a ll_heap \<Rightarrow> nat \<Rightarrow> 'a chain \<Rightarrow> bool" where
  "ll_rep h l ns \<longleftrightarrow>
     0 < l \<and> l < brk h \<and> chain_ok ns (brk h)
     \<and> heads h l = Some \<lparr>num_elements = of_nat (length ns), head = first_addr ns NULL,
                         tail = last_addr ns NULL\<rparr>
     \<and> dll (nodes h) NULL ns NULL"

text \<open>What an operation on the list \<open>l\<close> with the nodes \<open>ns\<close> leaves alone.\<close>

definition ll_frame :: "'a ll_heap \<Rightarrow> nat \<Rightarrow> 'a chain \<Rightarrow> 'a ll_heap \<Rightarrow> bool" where
  "ll_frame h l ns h' \<longleftrightarrow>
     brk h \<le> brk h'
     \<and> (\<forall>p. p < brk h \<longrightarrow> p \<notin> fst ` set ns \<longrightarrow> nodes h' p = nodes h p)
     \<and> (\<forall>p. p < brk h \<longrightarrow> p \<noteq> l \<longrightarrow> heads h' p = heads h p)"

lemma ll_rep_frame:
  assumes "ll_rep h l' ms" "ll_frame h l ns h'" "l' \<noteq> l" "fst ` set ms \<inter> fst ` set ns = {}"
  shows "ll_rep h' l' ms"
proof -
  have "nodes h' a = nodes h a" if "a \<in> fst ` set ms" for a
  proof -
    from that assms(4) have "a \<notin> fst ` set ns" by blast
    moreover from that assms(1) have "a < brk h" unfolding ll_rep_def chain_ok_def by blast
    ultimately show ?thesis using assms(2) by (simp add: ll_frame_def)
  qed
  then have "dll (nodes h') NULL ms NULL = dll (nodes h) NULL ms NULL"
    by (rule dll_cong)
  with assms(1-3) show ?thesis
    by (auto simp: ll_rep_def ll_frame_def chain_ok_def)
qed

lemma last_addr_pos:
  "ll_rep h l ((a, y) # ns) \<Longrightarrow> 0 < last_addr ns a"
  using last_addr_in [of "(a, y) # ns" 0] by (force simp: ll_rep_def chain_ok_def)

section \<open>Correctness of the list operations\<close>

lemma Push_spec:
  assumes "ll_rep h l ns" "no_failures h" "length ns + 1 < 2 ^ 32"
  shows "wp (PushLinkedList l x)
     (\<lambda>r h'. r \<and> ll_rep h' l ((brk h, x) # ns) \<and> no_failures h' \<and> ll_frame h l ns h' \<and> iters h' = iters h) h"
proof (cases ns)
  case Nil
  with assms show ?thesis
    by (simp add: PushLinkedList_def wp_simps ll_rep_def no_failures_def chain_ok_def ll_frame_def)
next
  case (Cons n ns')
  then obtain a y where ns: "ns = (a, y) # ns'" by (cases n) auto
  with assms have "brk h \<notin> fst ` set ns" "a \<notin> fst ` set ns'" "a \<noteq> brk h"
    by (auto simp: ll_rep_def chain_ok_def)
  with ns assms last_addr_pos[of h l a y ns'] show ?thesis
    by (auto simp: PushLinkedList_def wp_simps no_failures_def ll_frame_def ll_rep_def chain_ok_def)
qed

lemma Alloc_spec:
  assumes "no_failures h"
  shows "wp AllocateLinkedList
     (\<lambda>l h'. l = brk h \<and> ll_rep h' l [] \<and> no_failures h' \<and> ll_frame h l [] h' \<and> iters h' = iters h) h"
  using assms
  by (simp add: AllocateLinkedList_def wp_simps no_failures_def ll_rep_def chain_ok_def ll_frame_def)

lemma NumElements_spec:
  "ll_rep h l ns \<Longrightarrow> wp (NumElementsInLinkedList l) (\<lambda>k h'. k = of_nat (length ns) \<and> h' = h) h"
  by (simp add: NumElementsInLinkedList_def wp_simps ll_rep_def)

lemma Pop_empty: "ll_rep h l [] \<Longrightarrow> p \<noteq> NULL \<Longrightarrow> PopLinkedList l p h = Inr (None, h)"
  by (simp add: run_simps PopLinkedList_def bnd_def rd_head_def ll_rep_def)

lemma Pop_spec:
  assumes "ll_rep h l ((a, x) # ns)" "p \<noteq> NULL"
  shows "wp (PopLinkedList l p)
     (\<lambda>r h'. r = Some x \<and> ll_rep h' l ns \<and> nodes h' a = None \<and> brk h' = brk h \<and> outcomes h' = outcomes h
           \<and> ll_frame h l ((a, x) # ns) h' \<and> iters h' = iters h) h"
proof (cases ns)
  case Nil
  with assms show ?thesis
    by (simp add: PopLinkedList_def wp_simps ll_rep_def chain_ok_def ll_frame_def)
next
  case (Cons n ns')
  then obtain b y where ns: "ns = (b, y) # ns'" by (cases n) auto
  with assms show ?thesis
    by (auto simp: PopLinkedList_def wp_simps ll_rep_def chain_ok_def ll_frame_def)
qed

lemma Append_spec:
  assumes "ll_rep h l ns" "no_failures h" "length ns + 1 < 2 ^ 32"
  shows "wp (AppendLinkedList l x)
     (\<lambda>r h'. r \<and> ll_rep h' l (ns @ [(brk h, x)]) \<and> no_failures h' \<and> ll_frame h l ns h' \<and> iters h' = iters h) h"
proof (cases ns rule: rev_cases)
  case Nil
  with assms show ?thesis
    by (simp add: AppendLinkedList_def wp_simps ll_rep_def no_failures_def chain_ok_def ll_frame_def)
next
  case (snoc ns' n)
  then obtain a y where ns: "ns = ns' @ [(a, y)]" by (cases n) auto
  with assms have "brk h \<notin> fst ` set ns'" "a \<notin> fst ` set ns'" "a \<noteq> brk h"
    by (auto simp: ll_rep_def chain_ok_def)
  with ns assms show ?thesis
    by (auto simp: AppendLinkedList_def wp_simps no_failures_def ll_frame_def ll_rep_def chain_ok_def)
qed

lemma Slice_spec:
  assumes "ll_rep h l (ns @ [(a, x)])" "p \<noteq> NULL"
  shows "wp (SliceLinkedList l p)
     (\<lambda>r h'. r = Some x \<and> ll_rep h' l ns \<and> nodes h' a = None \<and> brk h' = brk h \<and> outcomes h' = outcomes h
           \<and> ll_frame h l (ns @ [(a, x)]) h' \<and> iters h' = iters h) h"
proof (cases ns rule: rev_cases)
  case Nil
  with assms show ?thesis
    by (simp add: SliceLinkedList_def wp_simps ll_rep_def chain_ok_def ll_frame_def)
next
  case (snoc ns' n)
  then obtain b y where ns: "ns = ns' @ [(b, y)]" by (cases n) auto
  with assms show ?thesis
    by (auto simp: SliceLinkedList_def wp_simps ll_rep_def chain_ok_def ll_frame_def)
qed

section \<open>Correctness of the iterator operations and of freeing a list\<close>

lemmas ll_defs = ll_rep_def chain_ok_def ll_frame_def

lemma brk_fresh: "ll_rep h l ns \<Longrightarrow> brk h \<notin> fst ` set ns"
  by (fastforce simp: ll_rep_def chain_ok_def)

text \<open>The iterator \<open>it\<close> stands on the node \<open>a\<close> of the list \<open>l\<close>.\<close>

definition iter_at :: "'a ll_heap \<Rightarrow> nat \<Rightarrow> nat \<Rightarrow> nat \<Rightarrow> bool" where
  "iter_at h it l a \<longleftrightarrow> it \<noteq> NULL \<and> it < brk h \<and> iters h it = Some \<lparr>it_list = l, it_node = a\<rparr>"

definition same_but_iters :: "'a ll_heap \<Rightarrow> 'a ll_heap \<Rightarrow> bool" where
  "same_but_iters h h' \<longleftrightarrow> nodes h' = nodes h \<and> heads h' = heads h \<and> freed h' = freed h
     \<and> brk h' = brk h \<and> outcomes h' = outcomes h"

definition same_but_nodes :: "'a ll_heap \<Rightarrow> 'a ll_heap \<Rightarrow> bool" where
  "same_but_nodes h h' \<longleftrightarrow> iters h' = iters h \<and> heads h' = heads h \<and> freed h' = freed h
     \<and> brk h' = brk h \<and> outcomes h' = outcomes h"

lemma MakeIterator_empty:
  "ll_rep h l [] \<Longrightarrow> pos = 0 \<or> pos = 1 \<Longrightarrow> LLMakeIterator l pos h = Inr (NULL, h)"
  by (auto simp: run_simps LLMakeIterator_def NumElementsInLinkedList_def bnd_def rd_head_def ll_rep_def)

lemma MakeIterator_spec:
  assumes "ll_rep h l ns" "ns \<noteq> []" "no_failures h" "pos = 0 \<or> pos = 1"
  shows "wp (LLMakeIterator l pos)
     (\<lambda>it h'. it = brk h \<and> iter_at h' it l (if pos = 0 then first_addr ns NULL else last_addr ns NULL)
        \<and> ll_rep h' l ns \<and> no_failures h' \<and> nodes h' = nodes h \<and> heads h' = heads h
        \<and> freed h' = freed h \<and> brk h' = Suc (brk h) \<and> (\<forall>j. j < brk h \<longrightarrow> iters h' j = iters h j)) h"
  using assms
  by (auto simp: LLMakeIterator_def NumElementsInLinkedList_def wp_simps no_failures_def ll_defs
      iter_at_def)

lemma IteratorNext_spec:
  assumes "ll_rep h l (us @ (a, x) # vs)" "iter_at h it l a"
  shows "wp (LLIteratorNext it)
     (\<lambda>r h'. r = (vs \<noteq> []) \<and> same_but_iters h h' \<and> iter_at h' it l (first_addr vs a)
        \<and> (\<forall>j. j \<noteq> it \<longrightarrow> iters h' j = iters h j)) h"
  using assms
  by (cases vs) (auto simp: LLIteratorNext_def LLIteratorHasNext_def same_but_iters_def wp_simps ll_defs iter_at_def)

lemma IteratorPrev_spec:
  assumes "ll_rep h l (us @ (a, x) # vs)" "iter_at h it l a"
  shows "wp (LLIteratorPrev it)
     (\<lambda>r h'. r = (us \<noteq> []) \<and> same_but_iters h h' \<and> iter_at h' it l (last_addr us a)
        \<and> (\<forall>j. j \<noteq> it \<longrightarrow> iters h' j = iters h j)) h"
  using assms
  by (cases us rule: rev_cases)
    (auto simp: LLIteratorPrev_def LLIteratorHasPrev_def same_but_iters_def wp_simps ll_defs iter_at_def)

lemma GetPayload_spec:
  assumes "ll_rep h l (us @ (a, x) # vs)" "iter_at h it l a"
  shows "LLIteratorGetPayload it h = Inr (x, h)"
proof -
  from assms have "wp (LLIteratorGetPayload it) (\<lambda>y h'. y = x \<and> h' = h) h"
    by (auto simp: LLIteratorGetPayload_def wp_simps ll_defs iter_at_def)
  then show ?thesis by (auto simp: wp_iff)
qed

lemma InsertBefore_spec:
  assumes "ll_rep h l (us @ (a, x) # vs)" "iter_at h it l a" "no_failures h"
    "length us + length vs + 2 < 2 ^ 32"
  shows "wp (LLIteratorInsertBefore it y)
     (\<lambda>r h'. r \<and> ll_rep h' l (us @ (brk h, y) # (a, x) # vs) \<and> iters h' = iters h \<and> no_failures h') h"
proof (cases us rule: rev_cases)
  case Nil
  with assms have "wp (PushLinkedList l y)
     (\<lambda>r h'. r \<and> ll_rep h' l ((brk h, y) # (a, x) # vs) \<and> iters h' = iters h \<and> no_failures h') h"
    by (intro wp_mono [OF Push_spec]) auto
  with Nil assms(1,2) show ?thesis
    by (auto simp: LLIteratorInsertBefore_def wp_simps ll_rep_def iter_at_def chain_ok_def)
next
  case (snoc us' u)
  then obtain b z where us: "us = us' @ [(b, z)]" by (cases u) auto
  from assms us have "a \<noteq> first_addr us' b"
    by (cases us') (auto simp: ll_defs)
  moreover from brk_fresh [OF assms(1)] us have "brk h \<notin> fst ` set us'" "brk h \<notin> fst ` set vs"
    by auto
  ultimately show ?thesis using assms us
    by (auto simp: LLIteratorInsertBefore_def wp_simps ll_defs iter_at_def no_failures_def
        less_Suc_eq)
qed

lemma IteratorDelete_spec:
  assumes "ll_rep h l (us @ (a, x) # vs)" "iter_at h it l a"
  shows "wp (LLIteratorDelete it f)
     (\<lambda>r h'. r = (us @ vs \<noteq> []) \<and> ll_rep h' l (us @ vs) \<and> nodes h' a = None
        \<and> freed h' = freed h @ [x]
        \<and> iter_at h' it l (if vs \<noteq> [] then first_addr vs NULL else last_addr us NULL)
        \<and> brk h' = brk h \<and> outcomes h' = outcomes h
        \<and> ll_frame h l (us @ (a, x) # vs) h') h"
proof (cases us rule: rev_cases; cases vs)
  assume "us = []" "vs = []"
  with assms show ?thesis
    by (auto simp: LLIteratorDelete_def PopLinkedList_def wp_simps ll_defs iter_at_def)
next
  fix v vs' assume v: "us = []" "vs = v # vs'"
  then show ?thesis using assms 
    by (cases v) (auto simp: LLIteratorDelete_def PopLinkedList_def wp_simps ll_defs iter_at_def)
next
  fix us' u assume v: "us = us' @ [u]" "vs = []"
  then show ?thesis using assms 
    by (cases u) (auto simp: LLIteratorDelete_def SliceLinkedList_def wp_simps ll_defs iter_at_def)
next
  fix us' u v vs' assume v: "us = us' @ [u]" "vs = v # vs'"
  then show ?thesis using assms 
    by (cases u; cases v) (auto simp: LLIteratorDelete_def wp_simps ll_defs iter_at_def)
qed

lemma chain_ok_length: "chain_ok ns b \<Longrightarrow> length ns \<le> b"
proof -
  assume ok: "chain_ok ns b"
  then have "card (set (map fst ns)) \<le> card {..<b}"
    by (intro card_mono) (auto simp: chain_ok_def)
  with ok show ?thesis by (simp add: chain_ok_def distinct_card del: set_map)
qed

lemma FreeLinkedList_loop_spec:
  assumes "l \<noteq> NULL" "heads h l = Some \<lparr>num_elements = k, head = first_addr ns NULL, tail = t\<rparr>"
    "dll (nodes h) NULL ns NULL" "distinct (map fst ns)" "0 \<notin> fst ` set ns" "length ns < fuel"
  shows "wp (FreeLinkedList_loop fuel l)
     (\<lambda>_ h'. heads h' l = Some \<lparr>num_elements = k, head = NULL, tail = (if ns = [] then t else NULL)\<rparr>
        \<and> (\<forall>p. p \<noteq> l \<longrightarrow> heads h' p = heads h p) \<and> freed h' = freed h @ map snd ns
        \<and> (\<forall>p. nodes h' p = (if p \<in> fst ` set ns then None else nodes h p))
        \<and> brk h' = brk h \<and> outcomes h' = outcomes h \<and> iters h' = iters h) h"
  using assms
proof (induction ns arbitrary: h fuel)
  case Nil
  then show ?case by (cases fuel) (auto simp: wp_simps)
next
  case (Cons n ns)
  obtain a x where n: "n = (a, x)" by (cases n) auto
  obtain fuel' where fuel: "fuel = Suc fuel'" "length ns < fuel'"
    using Cons.prems by (cases fuel) auto
  show ?case
  proof (cases ns)
    case Nil
    with Cons.prems n fuel show ?thesis
      by (cases fuel') (auto simp: wp_simps)
  next
    case (Cons m ms)
    obtain b y where m: "m = (b, y)" by (cases m) auto
    let ?h = "h\<lparr>freed := freed h @ [x],
        heads := (heads h)(l \<mapsto> \<lparr>num_elements = k, head = b, tail = t\<rparr>),
        nodes := (nodes h)(b \<mapsto> \<lparr>payload = y, nxt = first_addr ms NULL, prev = NULL\<rparr>, a := None)\<rparr>"
    have step: "wp (FreeLinkedList_loop fuel l) Q h = wp (FreeLinkedList_loop fuel' l) Q ?h" for Q
      using Cons.prems n m Cons fuel by (simp add: wp_simps)
    have IH: "wp (FreeLinkedList_loop fuel' l)
     (\<lambda>_ h'. heads h' l = Some \<lparr>num_elements = k, head = NULL, tail = (if ns = [] then t else NULL)\<rparr>
        \<and> (\<forall>p. p \<noteq> l \<longrightarrow> heads h' p = heads ?h p) \<and> freed h' = freed ?h @ map snd ns
        \<and> (\<forall>p. nodes h' p = (if p \<in> fst ` set ns then None else nodes ?h p))
        \<and> brk h' = brk ?h \<and> outcomes h' = outcomes ?h \<and> iters h' = iters ?h) ?h"
    proof (rule Cons.IH)
      from Cons.prems n m Cons show "dll (nodes ?h) NULL ns NULL"
        by (simp add: fun_upd_twist [of b a])
    qed (use Cons.prems n m Cons fuel in auto)
    show ?thesis unfolding step
      by (rule wp_mono [OF IH]) (use Cons.prems n m Cons in auto)
  qed
qed

declare FreeLinkedList_loop.simps [simp del]

lemma FreeLinkedList_spec:
  assumes "ll_rep h l ns" "f \<noteq> NULL"
  shows "wp (FreeLinkedList l f)
     (\<lambda>_ h'. heads h' l = None \<and> freed h' = freed h @ map snd ns
        \<and> (\<forall>a \<in> fst ` set ns. nodes h' a = None)
        \<and> ll_frame h l ns h' \<and> brk h' = brk h \<and> outcomes h' = outcomes h \<and> iters h' = iters h) h"
proof -
  have "length ns < Suc (brk h)" using assms(1) chain_ok_length[of ns "brk h"] by (simp add: ll_rep_def)
  with assms show ?thesis
    by (auto simp: FreeLinkedList_def wp_simps ll_defs intro!: wp_mono [OF FreeLinkedList_loop_spec])
qed

section \<open>Correctness of the sort\<close>

text \<open>The list function the sorting pass computes; \<open>c x y\<close> says that the two are exchanged.\<close>

fun bubble :: "('a \<Rightarrow> 'a \<Rightarrow> bool) \<Rightarrow> 'a list \<Rightarrow> bool \<Rightarrow> 'a list \<times> bool" where
  "bubble c [] s = ([], s)"
| "bubble c [x] s = ([x], s)"
| "bubble c (x # y # zs) s =
     (if c x y then (let (r, s') = bubble c (x # zs) True in (y # r, s'))
      else (let (r, s') = bubble c (y # zs) s in (x # r, s')))"

definition exchanges :: "bool \<Rightarrow> ('a \<Rightarrow> 'a \<Rightarrow> int) \<Rightarrow> 'a \<Rightarrow> 'a \<Rightarrow> bool" where
  "exchanges ascending cmp x y \<longleftrightarrow> (if ascending then cmp x y * -1 < 0 else cmp x y < 0)"

lemma length_bubble [simp]: "length (fst (bubble c xs s)) = length xs"
  by (induction c xs s rule: bubble.induct) (auto simp: split_beta)

lemma mset_bubble [simp]: "mset (fst (bubble c xs s)) = mset xs"
  by (induction c xs s rule: bubble.induct) (auto simp: split_beta)

lemma bubble_swapped: "snd (bubble c xs True)"
  by (induction c xs True rule: bubble.induct) (auto simp: split_beta)

text \<open>The number of inverted pairs drops in every pass that exchanged something.\<close>

fun inversions :: "('a \<Rightarrow> 'a \<Rightarrow> bool) \<Rightarrow> 'a list \<Rightarrow> nat" where
  "inversions lt [] = 0"
| "inversions lt (x # xs) = size (filter_mset (\<lambda>y. lt y x) (mset xs)) + inversions lt xs"

lemma inversions_le: "inversions lt xs \<le> length xs * length xs"
proof (induction xs)
  case (Cons x xs)
  have "size (filter_mset (\<lambda>y. lt y x) (mset xs)) \<le> length xs"
    by (metis size_filter_mset_lesseq size_mset)
  with Cons show ?case by simp
qed simp

locale sort_order =
  fixes lt :: "'a \<Rightarrow> 'a \<Rightarrow> bool"
  assumes asym: "lt x y \<Longrightarrow> \<not> lt y x"
    and neg_trans: "\<not> lt y x \<Longrightarrow> \<not> lt z y \<Longrightarrow> \<not> lt z x"
begin

lemma inversions_bubble: "inversions lt (fst (bubble (\<lambda>x y. lt y x) xs s)) \<le> inversions lt xs"
  and inversions_bubble_less:
    "\<not> s \<Longrightarrow> snd (bubble (\<lambda>x y. lt y x) xs s) \<Longrightarrow>
       inversions lt (fst (bubble (\<lambda>x y. lt y x) xs s)) < inversions lt xs"
  by (induction "\<lambda>x y. lt y x" xs s rule: bubble.induct)
    (auto simp: split_beta dest: asym)

lemma bubble_unchanged:
  "\<not> snd (bubble (\<lambda>x y. lt y x) xs s) \<Longrightarrow>
     fst (bubble (\<lambda>x y. lt y x) xs s) = xs \<and> sorted_wrt (\<lambda>x y. \<not> lt y x) xs"
proof (induction "\<lambda>x y. lt y x" xs s rule: bubble.induct)
  case (3 x y zs s)
  then show ?case
    by (auto simp: split_beta bubble_swapped split: if_splits) (use neg_trans in blast)
qed auto

end

lemma wp_negate_result [wp_simps]:
  "wp (negate_result asc r) Q h = ((asc \<longrightarrow> r \<noteq> - (2 ^ 31)) \<and> Q (if asc then r * -1 else r) h)"
  by (auto simp: negate_result_def wp_simps)

definition set_payloads :: "'a chain \<Rightarrow> 'a list \<Rightarrow> 'a chain" where
  "set_payloads ns xs = zip (map fst ns) xs"

lemma set_payloads_simps [simp]:
  "set_payloads [] xs = []" "set_payloads ((a, y) # ns) (x # xs) = (a, x) # set_payloads ns xs"
  by (simp_all add: set_payloads_def)

lemma first_addr_set_payloads [simp]:
  "length xs = length ns \<Longrightarrow> first_addr (set_payloads ns xs) q = first_addr ns q"
  by (cases ns; cases xs) auto

lemma last_addr_set_payloads [simp]:
  "length xs = length ns \<Longrightarrow> last_addr (set_payloads ns xs) q = last_addr ns q"
proof (induction ns arbitrary: xs q)
  case (Cons n ns) then show ?case by (cases n; cases xs) auto
qed simp

lemma map_fst_set_payloads [simp]:
  "length xs = length ns \<Longrightarrow> map fst (set_payloads ns xs) = map fst ns"
  by (simp add: set_payloads_def)

lemma map_snd_set_payloads [simp]:
  "length xs = length ns \<Longrightarrow> map snd (set_payloads ns xs) = xs"
  by (simp add: set_payloads_def)

lemma length_set_payloads [simp]:
  "length xs = length ns \<Longrightarrow> length (set_payloads ns xs) = length ns"
  by (simp add: set_payloads_def)

lemma set_payloads_eq_Nil [simp]:
  "length xs = length ns \<Longrightarrow> set_payloads ns xs = [] \<longleftrightarrow> ns = []"
  by (cases ns; cases xs) auto

lemma SortLinkedList_pass_spec:
  assumes "dll (nodes h) p ((a, x) # ns) NULL" "distinct (map fst ((a, x) # ns))"
    "0 \<notin> fst ` set ((a, x) # ns)" "length ns < fuel" "\<And>x y. asc \<Longrightarrow> cmp x y \<noteq> - (2 ^ 31)"
  shows "wp (SortLinkedList_pass fuel asc cmp a s)
     (\<lambda>r h'. r = snd (bubble (exchanges asc cmp) (x # map snd ns) s)
        \<and> dll (nodes h') p
            (set_payloads ((a, x) # ns) (fst (bubble (exchanges asc cmp) (x # map snd ns) s))) NULL
        \<and> (\<forall>q. q \<notin> fst ` set ((a, x) # ns) \<longrightarrow> nodes h' q = nodes h q)
        \<and> same_but_nodes h h') h"
  using assms(1-4)
proof (induction ns arbitrary: h p a x fuel s)
  case Nil
  then show ?case by (cases fuel) (auto simp: wp_simps same_but_nodes_def)
next
  case (Cons n ns)
  obtain b y where n: "n = (b, y)" by (cases n) auto
  obtain fuel' where fuel: "fuel = Suc fuel'" "length ns < fuel'"
    using Cons.prems by (cases fuel) auto
  let ?ex = "exchanges asc cmp x y"
  let ?h = "if ?ex then h\<lparr>nodes := (nodes h)
                (a \<mapsto> \<lparr>payload = y, nxt = b, prev = p\<rparr>,
                 b \<mapsto> \<lparr>payload = x, nxt = first_addr ns NULL, prev = a\<rparr>)\<rparr> else h"
  let ?z = "if ?ex then x else y"
  let ?s = "if ?ex then True else s"
  have step: "wp (SortLinkedList_pass fuel asc cmp a s) Q h
            = wp (SortLinkedList_pass fuel' asc cmp b ?s) Q ?h" for Q
    using Cons.prems n fuel assms(5) by (auto simp: wp_simps exchanges_def)
  have IH: "wp (SortLinkedList_pass fuel' asc cmp b ?s)
     (\<lambda>r h'. r = snd (bubble (exchanges asc cmp) (?z # map snd ns) ?s)
        \<and> dll (nodes h') a
            (set_payloads ((b, ?z) # ns) (fst (bubble (exchanges asc cmp) (?z # map snd ns) ?s))) NULL
        \<and> (\<forall>q. q \<notin> fst ` set ((b, ?z) # ns) \<longrightarrow> nodes h' q = nodes ?h q)
        \<and> same_but_nodes ?h h') ?h"
    by (rule Cons.IH) (use Cons.prems n fuel in auto)
  let ?r = "fst (bubble (exchanges asc cmp) (?z # map snd ns) ?s)"
  have "length ?r = Suc (length ns)"
    by simp
  then obtain r rs where r: "?r = r # rs" "length rs = length ns"
    by (cases ?r) auto
  have b: "fst (bubble (exchanges asc cmp) (x # map snd (n # ns)) s) = (if ?ex then y else x) # r # rs"
    "snd (bubble (exchanges asc cmp) (x # map snd (n # ns)) s)
      = snd (bubble (exchanges asc cmp) (?z # map snd ns) ?s)"
    using r n by (simp_all add: split_beta split: if_splits)
  show ?case unfolding step b
  proof (rule wp_mono [OF IH], unfold r, goal_cases)
    case (1 w h')
    with Cons.prems n r(2) show ?case
      by (cases ?ex) (simp_all add: same_but_nodes_def)
  qed
qed


lemma chain_ok_cong:
  assumes "map fst ns' = map fst ns"
  shows "chain_ok ns' b = chain_ok ns b"
proof -
  have "fst ` set ns' = fst ` set ns" "length ns' = length ns"
    using assms by (metis list.set_map, metis length_map)
  with assms show ?thesis by (simp add: chain_ok_def)
qed

lemma SortLinkedList_pass_rep:
  assumes "ll_rep h l ns" "ns \<noteq> []" "length ns \<le> fuel" "\<And>x y. asc \<Longrightarrow> cmp x y \<noteq> - (2 ^ 31)"
  defines "b \<equiv> bubble (exchanges asc cmp) (map snd ns) False"
  shows "wp (SortLinkedList_pass fuel asc cmp (first_addr ns NULL) False)
     (\<lambda>r h'. r = snd b \<and> ll_rep h' l (set_payloads ns (fst b)) \<and> ll_frame h l ns h'
        \<and> same_but_nodes h h') h"
proof -
  obtain a x ms where ns: "ns = (a, x) # ms" using assms(2) by (cases ns) auto
  have len: "length (fst b) = length ns" by (simp add: b_def)
  have ok: "chain_ok (set_payloads ns (fst b)) k = chain_ok ns k" for k
    using len by (intro chain_ok_cong) simp
  have P: "wp (SortLinkedList_pass fuel asc cmp a False)
     (\<lambda>r h'. r = snd b \<and> dll (nodes h') NULL (set_payloads ns (fst b)) NULL
        \<and> (\<forall>q. q \<notin> fst ` set ns \<longrightarrow> nodes h' q = nodes h q) \<and> same_but_nodes h h') h"
    unfolding b_def ns list.map snd_conv
    by (rule SortLinkedList_pass_spec) (use assms(1,3,4) ns in \<open>auto simp: ll_defs\<close>)
  have a: "first_addr ns NULL = a" by (simp add: ns)
  show ?thesis unfolding a
    by (rule wp_mono [OF P])
      (use assms(1) len in \<open>auto simp: ll_rep_def ok ll_frame_def same_but_nodes_def\<close>)
qed

context sort_order
begin

lemma SortLinkedList_loop_spec:
  assumes ex: "\<And>x y. exchanges asc cmp x y = lt y x" "\<And>x y. asc \<Longrightarrow> cmp x y \<noteq> - (2 ^ 31)"
    and "ll_rep h l ns" "ns \<noteq> []" "length ns \<le> fuel" "inversions lt (map snd ns) < rounds"
  shows "wp (SortLinkedList_loop rounds fuel asc cmp l)
     (\<lambda>_ h'. \<exists>ns'. ll_rep h' l ns' \<and> map fst ns' = map fst ns
        \<and> mset (map snd ns') = mset (map snd ns) \<and> sorted_wrt (\<lambda>x y. \<not> lt y x) (map snd ns')
        \<and> ll_frame h l ns h' \<and> same_but_nodes h h') h"
  using assms(3-)
proof (induction rounds arbitrary: h ns)
  case (Suc rounds)
  let ?b = "bubble (exchanges asc cmp) (map snd ns) False"
  let ?ns = "set_payloads ns (fst ?b)"
  have c: "exchanges asc cmp = (\<lambda>x y. lt y x)" using ex(1) by blast
  have len: "length (fst ?b) = length ns" by simp
  have run: "wp (SortLinkedList_loop (Suc rounds) fuel asc cmp l) Q h =
      wp (SortLinkedList_pass fuel asc cmp (first_addr ns NULL) False)
        (\<lambda>r. wp (if r then SortLinkedList_loop rounds fuel asc cmp l else ret ()) Q) h" for Q
    using Suc.prems(1) by (simp add: wp_bnd wp_rd_head ll_rep_def)
  show ?case unfolding run
  proof (rule wp_mono [OF SortLinkedList_pass_rep [OF Suc.prems(1-3) ex(2)]], assumption, goal_cases)
    case (1 r h')
    show ?case
    proof (cases "snd ?b")
      case True
      have "inversions lt (map snd ?ns) < rounds"
        using inversions_bubble_less [of False "map snd ns"] True Suc.prems(4) len by (simp add: c)
      then have "wp (SortLinkedList_loop rounds fuel asc cmp l)
       (\<lambda>_ h''. \<exists>ns'. ll_rep h'' l ns' \<and> map fst ns' = map fst ?ns
          \<and> mset (map snd ns') = mset (map snd ?ns) \<and> sorted_wrt (\<lambda>x y. \<not> lt y x) (map snd ns')
          \<and> ll_frame h' l ?ns h'' \<and> same_but_nodes h' h'') h'"
        using Suc.prems 1 len by (intro Suc.IH) simp_all
      moreover have "fst ` set ?ns = fst ` set ns"
        using len by (metis list.set_map map_fst_set_payloads)
      ultimately show ?thesis using 1 True len
        by (auto elim!: wp_mono simp: ll_frame_def same_but_nodes_def)
    next
      case False
      with bubble_unchanged [of "map snd ns" False]
      have "fst ?b = map snd ns" "sorted_wrt (\<lambda>x y. \<not> lt y x) (map snd ns)" by (simp_all add: c)
      with 1 False show ?thesis
        by (auto simp: wp_simps set_payloads_def zip_map_fst_snd)
    qed
  qed
qed simp

lemma SortLinkedList_spec:
  assumes ex: "\<And>x y. exchanges (ascending \<noteq> 0) cmp x y = lt y x"
      "\<And>x y. ascending \<noteq> 0 \<Longrightarrow> cmp x y \<noteq> - (2 ^ 31)"
    and rep: "ll_rep h l ns"
  shows "wp (SortLinkedList l ascending cmp)
     (\<lambda>_ h'. \<exists>ns'. ll_rep h' l ns' \<and> map fst ns' = map fst ns
        \<and> mset (map snd ns') = mset (map snd ns) \<and> sorted_wrt (\<lambda>x y. \<not> lt y x) (map snd ns')
        \<and> ll_frame h l ns h' \<and> same_but_nodes h h') h"
proof (cases "length ns < 2")
  case True
  then have "ns = [] \<or> (\<exists>n. ns = [n])" by (cases ns; cases "tl ns") auto
  with rep show ?thesis
    by (auto simp: SortLinkedList_def wp_simps ll_rep_def ll_frame_def same_but_nodes_def)
next
  case False
  have len: "length ns \<le> brk h" using rep chain_ok_length by (auto simp: ll_rep_def)
  from rep False have "\<not> (of_nat (length ns) :: 32 word) < 2"
    by (simp add: ll_rep_def chain_ok_def word_less_nat_alt)
  moreover have "inversions lt (map snd ns) < Suc (brk h) * Suc (brk h)"
    using inversions_le [of lt "map snd ns"] mult_le_mono [OF len len] by simp
  moreover have "wp (SortLinkedList l ascending cmp) Q h
      = wp (SortLinkedList_loop (Suc (brk h) * Suc (brk h)) (Suc (brk h)) (ascending \<noteq> 0) cmp l) Q h"
    if "\<not> (of_nat (length ns) :: 32 word) < 2" for Q
    using rep that unfolding SortLinkedList_def wp_simps by (simp add: ll_rep_def wp_simps)
  ultimately show ?thesis
    using SortLinkedList_loop_spec [OF ex rep, of "Suc (brk h)" "Suc (brk h) * Suc (brk h)"] False len
    by force
qed

end

section \<open>The contract of a double-ended list\<close>

text \<open>
  What a client of LinkedList.h relies on, with no mention of nodes: \<open>rep h l xs\<close> says that \<open>l\<close>
  holds the payloads \<open>xs\<close>, and \<open>cap\<close> bounds the number of elements.
\<close>

fun each :: "('x \<Rightarrow> ('s, bool) cmd) \<Rightarrow> 'x list \<Rightarrow> ('s, bool) cmd" where
  "each f [] = ret True"
| "each f (x # xs) = bnd (f x) (\<lambda>ok. if ok then each f xs else ret False)"

fun collect_times :: "nat \<Rightarrow> ('s, 'x option) cmd \<Rightarrow> ('s, 'x list) cmd" where
  "collect_times 0 c = ret []"
| "collect_times (Suc n) c =
     bnd c (\<lambda>r. case r of None \<Rightarrow> ret []
            | Some x \<Rightarrow> bnd (collect_times n c) (\<lambda>xs. ret (x # xs)))"

locale deque =
  fixes rep :: "'h \<Rightarrow> nat \<Rightarrow> 'a list \<Rightarrow> bool"
    and push append :: "nat \<Rightarrow> 'a \<Rightarrow> ('h, bool) cmd"
    and pop slice :: "nat \<Rightarrow> ('h, 'a option) cmd"
    and cap :: nat
  assumes push: "rep h l xs \<Longrightarrow> length xs + 1 < cap \<Longrightarrow> wp (push l x) (\<lambda>r h'. r \<and> rep h' l (x # xs)) h"
    and append: "rep h l xs \<Longrightarrow> length xs + 1 < cap \<Longrightarrow>
        wp (append l x) (\<lambda>r h'. r \<and> rep h' l (xs @ [x])) h"
    and pop: "rep h l (x # xs) \<Longrightarrow> wp (pop l) (\<lambda>r h'. r = Some x \<and> rep h' l xs) h"
    and slice: "rep h l (xs @ [x]) \<Longrightarrow> wp (slice l) (\<lambda>r h'. r = Some x \<and> rep h' l xs) h"
    and pop_empty: "rep h l [] \<Longrightarrow> pop l h = Inr (None, h)"
    and slice_empty: "rep h l [] \<Longrightarrow> slice l h = Inr (None, h)"
begin

lemma each_push:
  "rep h l ys \<Longrightarrow> length xs + length ys < cap \<Longrightarrow>
     wp (each (push l) xs) (\<lambda>r h'. r \<and> rep h' l (rev xs @ ys)) h"
proof (induction xs arbitrary: h ys)
  case (Cons x xs)
  show ?case
    unfolding each.simps wp_bnd
    by (rule wp_mono [OF push [OF Cons.prems(1)]]) (use Cons.prems Cons.IH in auto)
qed (simp add: wp_simps)

lemma each_append:
  "rep h l ys \<Longrightarrow> length xs + length ys < cap \<Longrightarrow>
     wp (each (append l) xs) (\<lambda>r h'. r \<and> rep h' l (ys @ xs)) h"
proof (induction xs arbitrary: h ys)
  case (Cons x xs)
  have "wp (each (append l) xs) (\<lambda>r h'. r \<and> rep h' l (ys @ x # xs)) h'"
    if "rep h' l (ys @ [x])" for h'
    using Cons.IH [OF that] Cons.prems(2) by simp
  then show ?case
    unfolding each.simps wp_bnd
    by (intro wp_mono [OF append [OF Cons.prems(1)]]) (use Cons.prems in auto)
qed (simp add: wp_simps)

lemma collect_pop:
  "rep h l (xs @ ys) \<Longrightarrow>
     wp (collect_times (length xs) (pop l)) (\<lambda>r h'. r = xs \<and> rep h' l ys) h"
proof (induction xs arbitrary: h)
  case (Cons x xs)
  show ?case
    unfolding collect_times.simps length_Cons wp_bnd
    by (rule wp_mono [OF pop [of h l x "xs @ ys"]])
      (use Cons.prems in \<open>auto simp: wp_simps intro!: wp_mono [OF Cons.IH]\<close>)
qed (simp add: wp_simps)

lemma fill_and_drain:
  assumes "rep h l []" "length xs + length ys < cap"
  shows "wp (bnd (each (push l) xs) (\<lambda>_. bnd (each (append l) ys) (\<lambda>_.
      collect_times (length xs + length ys) (pop l)))) (\<lambda>r h'. r = rev xs @ ys \<and> rep h' l []) h"
  unfolding wp_bnd
proof (rule wp_mono [OF each_push [OF assms(1)]], use assms(2) in simp, goal_cases)
  case (1 ok h1)
  then have "rep h1 l (rev xs)" by simp
  then show ?case
  proof (rule wp_mono [OF each_append], use assms(2) in simp, goal_cases)
    case (1 ok h2)
    then show ?case using collect_pop [of h2 l "rev xs @ ys" "[]"] by simp
  qed
qed

end

definition ll_holds :: "'a ll_heap \<Rightarrow> nat \<Rightarrow> 'a list \<Rightarrow> bool" where
  "ll_holds h l xs \<longleftrightarrow> no_failures h \<and> (\<exists>ns. ll_rep h l ns \<and> map snd ns = xs)"

interpretation ll: deque ll_holds PushLinkedList AppendLinkedList
  "\<lambda>l. PopLinkedList l 1" "\<lambda>l. SliceLinkedList l 1" "2 ^ 32"
proof (unfold_locales, goal_cases)
  case (1 h l xs x)
  then obtain ns where "ll_rep h l ns" "map snd ns = xs" "no_failures h" by (auto simp: ll_holds_def)
  with 1(2) show ?case
    by (intro wp_mono [OF Push_spec]) (auto simp: ll_holds_def)
next
  case (2 h l xs x)
  then obtain ns where "ll_rep h l ns" "map snd ns = xs" "no_failures h" by (auto simp: ll_holds_def)
  with 2(2) show ?case
    by (intro wp_mono [OF Append_spec]) (auto simp: ll_holds_def)
next
  case (3 h l x xs)
  then obtain a ns where "ll_rep h l ((a, x) # ns)" "map snd ns = xs" "no_failures h"
    by (auto simp: ll_holds_def map_eq_Cons_conv)
  then show ?case
    by (intro wp_mono [OF Pop_spec]) (auto simp: ll_holds_def no_failures_def)
next
  case (4 h l xs x)
  then obtain a ns where "ll_rep h l (ns @ [(a, x)])" "map snd ns = xs" "no_failures h"
    by (auto simp: ll_holds_def map_eq_append_conv)
  then show ?case
    by (intro wp_mono [OF Slice_spec]) (auto simp: ll_holds_def no_failures_def)
next
  case (5 h l)
  then show ?case by (auto simp: ll_holds_def intro: Pop_empty)
next
  case (6 h l)
  then show ?case by (auto simp: run_simps ll_holds_def SliceLinkedList_def bnd_def rd_head_def ll_rep_def)
qed

section \<open>The orders a comparator can sort by\<close>

interpretation asc_order: sort_order "\<lambda>x y. key x < key y" for key :: "'a \<Rightarrow> 'b :: linorder"
  by unfold_locales auto

interpretation desc_order: sort_order "\<lambda>x y. key y < key x" for key :: "'a \<Rightarrow> 'b :: linorder"
  by unfold_locales auto

lemma sorted_wrt_key: "sorted_wrt (\<lambda>x y. \<not> key y < key x) xs = sorted (map key xs)"
  for key :: "'a \<Rightarrow> 'b :: linorder"
  by (induction xs) auto

lemma sorted_wrt_key_rev:
  "sorted_wrt (\<lambda>x y. \<not> key x < key y) xs = sorted (rev (map key xs))"
  for key :: "'a \<Rightarrow> 'b :: linorder"
  by (induction xs) (auto simp: sorted_append)

definition compares_by :: "('a \<Rightarrow> 'a \<Rightarrow> int) \<Rightarrow> ('a \<Rightarrow> 'b :: linorder) \<Rightarrow> bool" where
  "compares_by cmp key \<longleftrightarrow>
     (\<forall>x y. - (2 ^ 31) < cmp x y \<and> (0 < cmp x y \<longleftrightarrow> key y < key x) \<and> (cmp x y < 0 \<longleftrightarrow> key x < key y))"

lemma SortLinkedList_by_key:
  assumes "ll_rep h l ns" "compares_by cmp key"
  shows "wp (SortLinkedList l ascending cmp)
     (\<lambda>_ h'. \<exists>ns'. ll_rep h' l ns' \<and> map fst ns' = map fst ns
        \<and> mset (map snd ns') = mset (map snd ns)
        \<and> (if ascending \<noteq> 0 then sorted (map key (map snd ns'))
           else sorted (rev (map key (map snd ns')))) \<and> same_but_nodes h h') h"
proof (cases "ascending \<noteq> 0")
  case True
  have ne: "cmp x y \<noteq> - (2 ^ 31)" for x y
    using assms(2) unfolding compares_by_def by (metis less_irrefl)
  show ?thesis
    by (rule wp_mono [OF asc_order.SortLinkedList_spec [where key = key, OF _ ne assms(1)]])
      (use True assms(2) in \<open>auto simp: exchanges_def compares_by_def sorted_wrt_key\<close>)
next
  case False
  show ?thesis
    by (rule wp_mono [OF desc_order.SortLinkedList_spec [where key = key, OF _ _ assms(1)]])
      (use False assms(2) in \<open>auto simp: exchanges_def compares_by_def sorted_wrt_key_rev\<close>)
qed

section \<open>Properties\<close>

text \<open>A list of three nodes with an iterator on the middle one.\<close>

definition ll_example :: "nat ll_heap" where
  "ll_example =
     \<lparr>brk = 10, outcomes = [],
      nodes = [1 \<mapsto> \<lparr>payload = 7, nxt = 2, prev = 0\<rparr>, 2 \<mapsto> \<lparr>payload = 5, nxt = 3, prev = 1\<rparr>,
               3 \<mapsto> \<lparr>payload = 6, nxt = 0, prev = 2\<rparr>],
      heads = [4 \<mapsto> \<lparr>num_elements = 3, head = 1, tail = 3\<rparr>],
      iters = [5 \<mapsto> \<lparr>it_list = 4, it_node = 2\<rparr>], freed = []\<rparr>"

lemma ll_example_rep:
  "ll_rep ll_example 4 ([(1, 7)] @ (2, 5) # [(3, 6)])" "no_failures ll_example"
  "iter_at ll_example 5 4 2"
  by (simp_all add: ll_example_def ll_rep_def chain_ok_def no_failures_def iter_at_def)

text \<open>
  C1: a new list filled by pushing \<open>xs\<close> at the front and appending \<open>ys\<close> at the back gives the
  elements back in the order \<open>rev xs @ ys\<close> when it is popped empty, and no step of the run exits
  or touches an object that is not allocated.
\<close>

theorem push_append_pop_order:
  assumes "no_failures h" and "length xs + length ys < 2 ^ 32"
  shows "\<exists>h'. bnd AllocateLinkedList (\<lambda>l.
               bnd (each (PushLinkedList l) xs) (\<lambda>_.
               bnd (each (AppendLinkedList l) ys) (\<lambda>_.
               collect_times (length xs + length ys) (PopLinkedList l 1)))) h
             = Inr (rev xs @ ys, h')"
proof -
  have "wp AllocateLinkedList (\<lambda>l h'. ll_holds h' l []) h"
    by (rule wp_mono [OF Alloc_spec [OF assms(1)]]) (auto simp: ll_holds_def)
  then have "wp (bnd AllocateLinkedList (\<lambda>l. bnd (each (PushLinkedList l) xs) (\<lambda>_.
      bnd (each (AppendLinkedList l) ys) (\<lambda>_.
      collect_times (length xs + length ys) (PopLinkedList l 1))))) (\<lambda>r h'. r = rev xs @ ys \<and> True) h"
    unfolding wp_bnd [of AllocateLinkedList]
    by (rule wp_mono) (rule wp_mono [OF ll.fill_and_drain [OF _ assms(2)]], auto)
  from wp_result [OF this] show ?thesis by blast
qed

theorem push_append_pop_order_witness:
  "\<exists>h'. bnd AllocateLinkedList (\<lambda>l.
        bnd (each (PushLinkedList l) [1, 2]) (\<lambda>_.
        bnd (each (AppendLinkedList l) [3]) (\<lambda>_.
        collect_times (length [1, 2 :: nat] + length [3 :: nat]) (PopLinkedList l 1)))) ll_example
      = Inr ([2, 1, 3], h')"
  using push_append_pop_order [OF ll_example_rep(2), of "[1, 2]" "[3]"]
  by (simp del: each.simps collect_times.simps)

text \<open>
  C2: \<open>LLIteratorDelete\<close> removes exactly the node under the iterator: the rest of the list is linked
  in both directions in the old order, the node is deallocated, its payload is handed to the free
  function once, the iterator moves to the successor, or to the last remaining element when there
  is none, and the result is false exactly when the list became empty.  Every other list whose
  nodes are different ones is unchanged.
\<close>

theorem iterator_delete_splices:
  assumes "ll_rep h l (us @ (a, x) # vs)" and "iter_at h it l a"
  shows "\<exists>h'. LLIteratorDelete it f h = Inr (us @ vs \<noteq> [], h')
      \<and> ll_rep h' l (us @ vs) \<and> nodes h' a = None \<and> freed h' = freed h @ [x]
      \<and> iter_at h' it l (if vs \<noteq> [] then first_addr vs NULL else last_addr us NULL)
      \<and> (\<forall>l' ms. l' \<noteq> l \<longrightarrow> fst ` set ms \<inter> fst ` set (us @ (a, x) # vs) = {} \<longrightarrow>
           ll_rep h l' ms \<longrightarrow> ll_rep h' l' ms)"
proof -
  from wp_result [OF IteratorDelete_spec [OF assms]]
  obtain h' where h': "LLIteratorDelete it f h = Inr (us @ vs \<noteq> [], h')"
      "ll_rep h' l (us @ vs)" "nodes h' a = None" "freed h' = freed h @ [x]"
      "iter_at h' it l (if vs \<noteq> [] then first_addr vs NULL else last_addr us NULL)"
      "ll_frame h l (us @ (a, x) # vs) h'"
    by blast
  then show ?thesis using ll_rep_frame [OF _ h'(6)] by blast
qed

theorem iterator_delete_splices_witness:
  "\<exists>h'. LLIteratorDelete 5 9 ll_example = Inr (True, h') \<and> ll_rep h' 4 [(1, 7), (3, 6)]
      \<and> nodes h' 2 = None \<and> freed h' = [5] \<and> iter_at h' 5 4 3"
  using iterator_delete_splices [OF ll_example_rep(1,3), of 9] by (auto simp: ll_example_def)

text \<open>
  \<open>LLIteratorInsertBefore\<close> puts the new payload right before the node under the iterator and
  leaves the iterator there.
\<close>

theorem iterator_insert_before:
  assumes "ll_rep h l (us @ (a, x) # vs)" and "iter_at h it l a" and "no_failures h"
    and "length us + length vs + 2 < 2 ^ 32"
  shows "\<exists>h'. LLIteratorInsertBefore it y h = Inr (True, h')
      \<and> ll_rep h' l (us @ (brk h, y) # (a, x) # vs) \<and> iters h' = iters h"
  using InsertBefore_spec [OF assms, of y] by (auto simp: wp_iff)

theorem iterator_insert_before_witness:
  "\<exists>h'. LLIteratorInsertBefore 5 8 ll_example = Inr (True, h')
      \<and> ll_rep h' 4 [(1, 7), (10, 8), (2, 5), (3, 6)]"
  using iterator_insert_before [OF ll_example_rep(1,3,2), of 8] by (auto simp: ll_example_def)

text \<open>
  C3: for a comparator that orders payloads by a key, \<open>SortLinkedList\<close> terminates, keeps the nodes
  and the links, and leaves the payloads a sorted rearrangement of the old ones: ascending when the
  flag is set, descending when it is zero.
\<close>

theorem sort_linked_list_sorts:
  assumes "ll_rep h l ns" and "compares_by cmp key"
  shows "\<exists>h' ns'. SortLinkedList l ascending cmp h = Inr ((), h') \<and> ll_rep h' l ns'
      \<and> map fst ns' = map fst ns \<and> mset (map snd ns') = mset (map snd ns)
      \<and> (if ascending \<noteq> 0 then sorted (map key (map snd ns'))
         else sorted (rev (map key (map snd ns'))))"
proof -
  obtain u h' ns' where "SortLinkedList l ascending cmp h = Inr (u, h')" "ll_rep h' l ns'" "map fst ns' = map fst ns"
      "mset (map snd ns') = mset (map snd ns)"
      "if ascending \<noteq> 0 then sorted (map key (map snd ns')) else sorted (rev (map key (map snd ns')))"
    using SortLinkedList_by_key [OF assms, of ascending] unfolding wp_iff by blast
  then show ?thesis by (intro exI [of _ h'] exI [of _ ns'] conjI) simp_all
qed

definition cmp_nat :: "nat \<Rightarrow> nat \<Rightarrow> int" where
  "cmp_nat x y = (if y < x then 1 else if x < y then -1 else 0)"

theorem sort_linked_list_sorts_witness:
  "\<exists>h' ns'. SortLinkedList 4 1 cmp_nat ll_example = Inr ((), h') \<and> ll_rep h' 4 ns'
      \<and> map fst ns' = [1, 2, 3] \<and> mset (map snd ns') = {#7, 5, 6#} \<and> sorted (map snd ns')"
  using sort_linked_list_sorts [OF ll_example_rep(1), of cmp_nat id 1]
  by (auto simp: compares_by_def cmp_nat_def)

text \<open>
  C4: \<open>FreeLinkedList\<close> hands every payload to the free function exactly once, in list order,
  deallocates every node and the list record, and leaves every other list alone.
\<close>

theorem free_linked_list_releases_all:
  assumes "ll_rep h l ns" and "f \<noteq> NULL"
  shows "\<exists>h'. FreeLinkedList l f h = Inr ((), h') \<and> freed h' = freed h @ map snd ns
      \<and> heads h' l = None \<and> (\<forall>a x. (a, x) \<in> set ns \<longrightarrow> nodes h' a = None)
      \<and> (\<forall>l' ms. l' \<noteq> l \<longrightarrow> fst ` set ms \<inter> fst ` set ns = {} \<longrightarrow> ll_rep h l' ms \<longrightarrow> ll_rep h' l' ms)"
proof -
  from FreeLinkedList_spec [OF assms]
  obtain h' where h': "FreeLinkedList l f h = Inr ((), h')" "heads h' l = None"
      "freed h' = freed h @ map snd ns" "\<forall>a \<in> fst ` set ns. nodes h' a = None" "ll_frame h l ns h'"
    by (auto simp: wp_iff)
  then show ?thesis using ll_rep_frame [OF _ h'(5)] by force
qed

theorem free_linked_list_releases_all_witness:
  "\<exists>h'. FreeLinkedList 4 9 ll_example = Inr ((), h') \<and> freed h' = [7, 5, 6] \<and> heads h' 4 = None
      \<and> nodes h' 1 = None \<and> nodes h' 2 = None \<and> nodes h' 3 = None"
  using free_linked_list_releases_all [OF ll_example_rep(1), of 9] by (auto simp: ll_example_def)

end
