(* ===== verification/HashTable.thy ===== *)
theory HashTable
  imports LinkedList
begin

text \<open>
  The chained hash table of uw\_cse333/hw/hw1/HashTable.c.

  A table is the record of HashTable\_priv.h with its bucket array; a bucket is the chain of a
  linked list (its node addresses with their payloads), which is what the theorems of
  \<open>LinkedList\<close> show a list record to stand for.  The payload of a node is the key/value pair it
  points to, an iterator is the address of the node it stands on.  The state of the commands is the
  allocator, so every \<open>malloc\<close> of the file can fail where the code calls it.

  \<open>ResizeHashtable\<close> and \<open>InsertHashTable\<close> call each other: growing inserts every element into the
  new table.  The depth of that recursion is bounded by the number of elements, which the bound of
  \<open>InsertHashTable\<close> uses.
\<close>

section \<open>Data\<close>

type_synonym HTKey_t = "64 word"

record 'v HTKeyValue =
  ht_key :: HTKey_t
  ht_value :: 'v

record 'v HashTableRecord =
  num_buckets :: HWSize_t
  ht_num_elements :: HWSize_t
  buckets :: "'v HTKeyValue chain list"

record HTIterRecord =
  is_valid :: bool
  bucket_num :: HWSize_t
  bucket_it :: nat

type_synonym 'a ht_cmd = "(malloc_state, 'a) cmd"

section \<open>Hash functions\<close>

definition FNV1_64_INIT :: "64 word" where
  "FNV1_64_INIT = 0xcbf29ce484222325"

definition FNV_64_PRIME :: "64 word" where
  "FNV_64_PRIME = 0x100000001b3"

definition FNV_step :: "64 word \<Rightarrow> 8 word \<Rightarrow> 64 word" where
  "FNV_step hval octet = (hval XOR ucast octet) * FNV_64_PRIME"

fun FNVHash64_loop :: "64 word \<Rightarrow> 8 word list \<Rightarrow> 64 word" where
  "FNVHash64_loop hval [] = hval"
| "FNVHash64_loop hval (octet # rest) = FNVHash64_loop (FNV_step hval octet) rest"

definition FNVHash64 :: "8 word list \<Rightarrow> HTKey_t" where
  "FNVHash64 buffer = FNVHash64_loop FNV1_64_INIT buffer"

fun FNVHashInt64_buf :: "nat \<Rightarrow> 64 word \<Rightarrow> 8 word list" where
  "FNVHashInt64_buf 0 hashme = []"
| "FNVHashInt64_buf (Suc n) hashme =
     ucast (hashme AND 0xFF) # FNVHashInt64_buf n (drop_bit 8 hashme)"

definition FNVHashInt64 :: "64 word \<Rightarrow> HTKey_t" where
  "FNVHashInt64 hashval = FNVHash64 (FNVHashInt64_buf 8 hashval)"

section \<open>Tables\<close>

fun AllocateHashTable_chains :: "nat \<Rightarrow> 'v HTKeyValue chain list option ht_cmd" where
  "AllocateHashTable_chains 0 = ret (Some [])"
| "AllocateHashTable_chains (Suc n) =
     bnd malloc (\<lambda>ll.
     if ll = NULL then ret None
     else bnd (AllocateHashTable_chains n) (\<lambda>r.
          ret (map_option (\<lambda>cs. [] # cs) r)))"

definition AllocateHashTable :: "HWSize_t \<Rightarrow> 'v HashTableRecord option ht_cmd" where
  "AllocateHashTable n =
     (if n = 0 then ret None
      else bnd malloc (\<lambda>ht.
        if ht = NULL then ret None
        else bnd malloc (\<lambda>bs.
          if bs = NULL then ret None
          else bnd (AllocateHashTable_chains (unat n)) (\<lambda>r.
            case r of None \<Rightarrow> ret None
            | Some cs \<Rightarrow> ret (Some \<lparr>num_buckets = n, ht_num_elements = 0, buckets = cs\<rparr>)))))"

text \<open>
  \<open>FreeHashTable\<close> pops every chain empty; the model gives the values handed to the caller's free
  function, in call order.
\<close>

fun FreeHashTable_chain :: "'v HTKeyValue chain \<Rightarrow> 'v list" where
  "FreeHashTable_chain [] = []"
| "FreeHashTable_chain ((a, kv) # c) = ht_value kv # FreeHashTable_chain c"

definition FreeHashTable :: "'v HashTableRecord \<Rightarrow> 'v list" where
  "FreeHashTable table = concat (map FreeHashTable_chain (buckets table))"

definition NumElementsInHashTable :: "'v HashTableRecord \<Rightarrow> HWSize_t" where
  "NumElementsInHashTable table = ht_num_elements table"

definition HashKeyToBucketNum :: "'v HashTableRecord \<Rightarrow> HTKey_t \<Rightarrow> HWSize_t ht_cmd" where
  "HashKeyToBucketNum ht k =
     (if num_buckets ht = 0 then fail DivideByZero
      else ret (ucast (k mod ucast (num_buckets ht))))"

definition chain_at :: "'v HashTableRecord \<Rightarrow> HWSize_t \<Rightarrow> 'v HTKeyValue chain ht_cmd" where
  "chain_at ht i =
     (if unat i < length (buckets ht) then ret (buckets ht ! unat i) else fail MemFault)"

definition set_chain ::
    "HWSize_t \<Rightarrow> 'v HTKeyValue chain \<Rightarrow> 'v HashTableRecord \<Rightarrow> 'v HashTableRecord" where
  "set_chain i c ht = ht\<lparr>buckets := (buckets ht)[unat i := c]\<rparr>"

text \<open>
  The walk of \<open>FindKVInHashTable\<close> along the chain, and the function itself: \<open>None\<close> is NULL, \<open>Some a\<close>
  an iterator on the node \<open>a\<close>.  When no iterator can be allocated, \<open>LLIteratorGetPayload\<close> is
  called on NULL and its assertion fails.
\<close>

fun find_node :: "'v HTKeyValue chain \<Rightarrow> HTKey_t \<Rightarrow> nat option" where
  "find_node [] k = None"
| "find_node ((a, kv) # c) k = (if ht_key kv = k then Some a else find_node c k)"

definition FindKVInHashTable :: "'v HTKeyValue chain \<Rightarrow> HTKey_t \<Rightarrow> nat option ht_cmd" where
  "FindKVInHashTable list k =
     (if length list = 0 then ret None
      else bnd malloc (\<lambda>iter.
           bnd (Verify333 (iter \<noteq> NULL)) (\<lambda>_.
           ret (find_node list k))))"

definition node_payload :: "'a chain \<Rightarrow> nat \<Rightarrow> 'a ht_cmd" where
  "node_payload c a = (case map_of c a of None \<Rightarrow> fail MemFault | Some x \<Rightarrow> ret x)"

fun chain_update :: "nat \<Rightarrow> 'a \<Rightarrow> 'a chain \<Rightarrow> 'a chain" where
  "chain_update a x [] = []"
| "chain_update a x ((b, y) # c) = (if b = a then (b, x) # c else (b, y) # chain_update a x c)"

fun chain_delete :: "nat \<Rightarrow> 'a chain \<Rightarrow> 'a chain" where
  "chain_delete a [] = []"
| "chain_delete a ((b, y) # c) = (if b = a then c else (b, y) # chain_delete a c)"

text \<open>\<open>AppendLinkedList\<close> on a chain: false, with the list unchanged, when the node cannot be allocated.\<close>

definition chain_append :: "'a chain \<Rightarrow> 'a \<Rightarrow> (bool \<times> 'a chain) ht_cmd" where
  "chain_append c x =
     bnd malloc (\<lambda>ln. if ln = NULL then ret (False, c) else ret (True, c @ [(ln, x)]))"

text \<open>
  The part of \<open>InsertHashTable\<close> after the call of \<open>ResizeHashtable\<close>.  The result is the return value,
  the table and the pair stored through \<open>oldkeyvalue\<close>, if any.
\<close>

definition insert_into ::
    "'v HashTableRecord \<Rightarrow> 'v HTKeyValue \<Rightarrow> (int \<times> 'v HashTableRecord \<times> 'v HTKeyValue option) ht_cmd" where
  "insert_into table newkeyvalue =
     bnd (HashKeyToBucketNum table (ht_key newkeyvalue)) (\<lambda>insertbucket.
     bnd (chain_at table insertbucket) (\<lambda>insertchain.
     bnd (FindKVInHashTable insertchain (ht_key newkeyvalue)) (\<lambda>location.
     case location of
       None \<Rightarrow>
         bnd malloc (\<lambda>p.
         bnd (Verify333 (p \<noteq> NULL)) (\<lambda>_.
         bnd (chain_append insertchain newkeyvalue) (\<lambda>(appended, c).
         ret (1, (set_chain insertbucket c table)\<lparr>ht_num_elements := ht_num_elements table + 1\<rparr>, None))))
     | Some a \<Rightarrow>
         bnd (node_payload insertchain a) (\<lambda>old.
         ret (2, set_chain insertbucket (chain_update a newkeyvalue insertchain) table, Some old)))))"

definition LookupHashTable ::
    "'v HashTableRecord \<Rightarrow> HTKey_t \<Rightarrow> (int \<times> 'v HTKeyValue option) ht_cmd" where
  "LookupHashTable table k =
     bnd (HashKeyToBucketNum table k) (\<lambda>insertbucket.
     bnd (chain_at table insertbucket) (\<lambda>insertchain.
     bnd (FindKVInHashTable insertchain k) (\<lambda>location.
     case location of
       None \<Rightarrow> ret (0, None)
     | Some a \<Rightarrow> bnd (node_payload insertchain a) (\<lambda>kv. ret (1, Some kv)))))"

definition RemoveFromHashTable ::
    "'v HashTableRecord \<Rightarrow> HTKey_t \<Rightarrow> (int \<times> 'v HashTableRecord \<times> 'v HTKeyValue option) ht_cmd" where
  "RemoveFromHashTable table k =
     bnd (HashKeyToBucketNum table k) (\<lambda>insertbucket.
     bnd (chain_at table insertbucket) (\<lambda>insertchain.
     bnd (FindKVInHashTable insertchain k) (\<lambda>location.
     case location of
       None \<Rightarrow> ret (0, table, None)
     | Some a \<Rightarrow>
         bnd (node_payload insertchain a) (\<lambda>kv.
         ret (1, (set_chain insertbucket (chain_delete a insertchain) table)
                   \<lparr>ht_num_elements := ht_num_elements table - 1\<rparr>, Some kv)))))"

section \<open>Iterators\<close>

text \<open>\<open>LLMakeIterator\<close> at the front of a chain: NULL when the chain is empty or \<open>malloc\<close> fails.\<close>

definition make_bucket_it :: "'a chain \<Rightarrow> nat ht_cmd" where
  "make_bucket_it c =
     (if c = [] then ret NULL
      else bnd malloc (\<lambda>li. if li = NULL then ret NULL else ret (first_addr c NULL)))"

text \<open>The first bucket from \<open>i\<close> on that is not empty; \<open>length bs\<close> if there is none.\<close>

fun next_nonempty :: "'a chain list \<Rightarrow> nat" where
  "next_nonempty [] = 0"
| "next_nonempty (c # cs) = (if length c > 0 then 0 else Suc (next_nonempty cs))"

text \<open>\<open>None\<close> is NULL.  In an invalid iterator \<open>bucket_num\<close> is not initialised and never read.\<close>

definition HashTableMakeIterator :: "'v HashTableRecord \<Rightarrow> HTIterRecord option ht_cmd" where
  "HashTableMakeIterator table =
     bnd malloc (\<lambda>iter.
     if iter = NULL then ret None
     else if ht_num_elements table = 0
     then ret (Some \<lparr>is_valid = False, bucket_num = 0, bucket_it = NULL\<rparr>)
     else
       let i = next_nonempty (buckets table) in
       bnd (Verify333 (i < unat (num_buckets table))) (\<lambda>_.
       bnd (make_bucket_it (buckets table ! i)) (\<lambda>it.
       if it = NULL then ret None
       else ret (Some \<lparr>is_valid = True, bucket_num = of_nat i, bucket_it = it\<rparr>))))"

text \<open>The node after \<open>a\<close>: \<open>Some NULL\<close> at the end, \<open>None\<close> when \<open>a\<close> is not on the chain.\<close>

fun chain_next :: "'a chain \<Rightarrow> nat \<Rightarrow> nat option" where
  "chain_next [] a = None"
| "chain_next ((b, x) # c) a = (if b = a then Some (first_addr c NULL) else chain_next c a)"

definition HTIteratorNext :: "'v HashTableRecord \<Rightarrow> HTIterRecord \<Rightarrow> (int \<times> HTIterRecord) ht_cmd" where
  "HTIteratorNext ht iter =
     (if \<not> is_valid iter then ret (0, iter)
      else bnd (Verify333 (bucket_it iter \<noteq> NULL)) (\<lambda>_.
        bnd (chain_at ht (bucket_num iter)) (\<lambda>c.
        case chain_next c (bucket_it iter) of
          None \<Rightarrow> fail MemFault
        | Some b \<Rightarrow>
            if b \<noteq> NULL then ret (1, iter\<lparr>bucket_it := b\<rparr>)
            else
              let k = bucket_num iter + 1 in
              if num_buckets ht \<le> k
              then ret (0, iter\<lparr>bucket_num := k, is_valid := False\<rparr>)
              else
                let j = unat k + next_nonempty (drop (unat k) (buckets ht)) in
                if j < unat (num_buckets ht)
                then bnd (make_bucket_it (buckets ht ! j)) (\<lambda>it.
                     ret (1, iter\<lparr>bucket_num := of_nat j, bucket_it := it\<rparr>))
                else ret (0, iter\<lparr>bucket_num := num_buckets ht, is_valid := False\<rparr>))))"

definition HTIteratorPastEnd :: "HTIterRecord \<Rightarrow> int" where
  "HTIteratorPastEnd iter =
     (if \<not> is_valid iter then 1 else if bucket_it iter \<noteq> NULL then 0 else 1)"

definition HTIteratorGet ::
    "'v HashTableRecord \<Rightarrow> HTIterRecord \<Rightarrow> (int \<times> 'v HTKeyValue option) ht_cmd" where
  "HTIteratorGet ht iter =
     (if \<not> is_valid iter then ret (0, None)
      else bnd (Verify333 (bucket_it iter \<noteq> NULL)) (\<lambda>_.
           bnd (chain_at ht (bucket_num iter)) (\<lambda>c.
           bnd (node_payload c (bucket_it iter)) (\<lambda>kv.
           ret (1, Some kv)))))"

text \<open>
  The entry under the iterator, removed by its key after the iterator has moved on.
\<close>

definition HTIteratorDelete ::
    "'v HashTableRecord \<Rightarrow> HTIterRecord \<Rightarrow>
       (int \<times> 'v HashTableRecord \<times> HTIterRecord \<times> 'v HTKeyValue option) ht_cmd" where
  "HTIteratorDelete ht iter =
     bnd (HTIteratorGet ht iter) (\<lambda>(res, kv).
     if res = 0 then ret (0, ht, iter, None)
     else bnd (HTIteratorNext ht iter) (\<lambda>(res, iter').
       let retval = (if res = 0 then 2 else 1) in
       case kv of None \<Rightarrow> fail MemFault
       | Some kv \<Rightarrow>
         bnd (RemoveFromHashTable ht (ht_key kv)) (\<lambda>(res, ht', keyvalue).
         bnd (Verify333 (res = 1)) (\<lambda>_.
         case keyvalue of None \<Rightarrow> fail MemFault
         | Some keyvalue \<Rightarrow>
           bnd (Verify333 (ht_key kv = ht_key keyvalue)) (\<lambda>_.
           bnd (Verify333 (ht_value kv = ht_value keyvalue)) (\<lambda>_.
           ret (retval, ht', iter', Some keyvalue)))))))"

definition HTIteratorFree :: "HTIterRecord \<Rightarrow> HTIterRecord" where
  "HTIteratorFree iter =
     (if bucket_it iter \<noteq> NULL then iter\<lparr>bucket_it := NULL\<rparr> else iter)\<lparr>is_valid := False\<rparr>"

section \<open>Growing the table\<close>

text \<open>
  The loop of \<open>ResizeHashtable\<close> with the insertion as a parameter: \<open>None\<close> when an insertion did not
  return 1.  \<open>n\<close> bounds the number of rounds.
\<close>

fun ResizeHashtable_loop ::
    "('v HashTableRecord \<Rightarrow> 'v HTKeyValue \<Rightarrow> (int \<times> 'v HashTableRecord \<times> 'v HTKeyValue option) ht_cmd) \<Rightarrow>
       nat \<Rightarrow> 'v HashTableRecord \<Rightarrow> HTIterRecord \<Rightarrow> 'v HashTableRecord \<Rightarrow> 'v HashTableRecord option ht_cmd" where
  "ResizeHashtable_loop ins 0 ht it newht = fail OutOfFuel"
| "ResizeHashtable_loop ins (Suc n) ht it newht =
     (if HTIteratorPastEnd it \<noteq> 0 then ret (Some newht)
      else bnd (HTIteratorGet ht it) (\<lambda>(r, item).
        bnd (Verify333 (r = 1)) (\<lambda>_.
        case item of None \<Rightarrow> fail MemFault
        | Some item \<Rightarrow>
          bnd (ins newht item) (\<lambda>(r, newht', _).
          if r \<noteq> 1 then ret None
          else bnd (HTIteratorNext ht it) (\<lambda>(_, it').
               ResizeHashtable_loop ins n ht it' newht')))))"

definition ResizeHashtable ::
    "('v HashTableRecord \<Rightarrow> 'v HTKeyValue \<Rightarrow> (int \<times> 'v HashTableRecord \<times> 'v HTKeyValue option) ht_cmd) \<Rightarrow>
       'v HashTableRecord \<Rightarrow> 'v HashTableRecord ht_cmd" where
  "ResizeHashtable ins ht =
     (if ht_num_elements ht < 3 * num_buckets ht then ret ht
      else bnd (AllocateHashTable (num_buckets ht * 9)) (\<lambda>r.
        case r of None \<Rightarrow> ret ht
        | Some newht \<Rightarrow>
          bnd (HashTableMakeIterator ht) (\<lambda>r.
          case r of None \<Rightarrow> ret ht
          | Some it \<Rightarrow>
            bnd (ResizeHashtable_loop ins (Suc (unat (ht_num_elements ht))) ht it newht) (\<lambda>r.
            case r of None \<Rightarrow> ret ht | Some grown \<Rightarrow> ret grown))))"

fun InsertHashTable_depth ::
    "nat \<Rightarrow> 'v HashTableRecord \<Rightarrow> 'v HTKeyValue \<Rightarrow>
       (int \<times> 'v HashTableRecord \<times> 'v HTKeyValue option) ht_cmd" where
  "InsertHashTable_depth 0 table newkeyvalue = fail OutOfFuel"
| "InsertHashTable_depth (Suc n) table newkeyvalue =
     bnd (ResizeHashtable (InsertHashTable_depth n) table) (\<lambda>table.
     insert_into table newkeyvalue)"

definition InsertHashTable ::
    "'v HashTableRecord \<Rightarrow> 'v HTKeyValue \<Rightarrow> (int \<times> 'v HashTableRecord \<times> 'v HTKeyValue option) ht_cmd" where
  "InsertHashTable table newkeyvalue =
     InsertHashTable_depth (unat (ht_num_elements table) + 2) table newkeyvalue"

section \<open>Well-formed tables and the map they stand for\<close>

definition bucket_of :: "HWSize_t \<Rightarrow> HTKey_t \<Rightarrow> nat" where
  "bucket_of nb k = unat k mod unat nb"

definition entries :: "'v HashTableRecord \<Rightarrow> 'v HTKeyValue list" where
  "entries t = concat (map (map snd) (buckets t))"

definition chain_wf :: "HWSize_t \<Rightarrow> nat \<Rightarrow> nat \<Rightarrow> 'v HTKeyValue chain \<Rightarrow> bool" where
  "chain_wf nb b i c \<longleftrightarrow> chain_ok c b \<and> distinct (map (ht_key \<circ> snd) c)
     \<and> (\<forall>kv \<in> snd ` set c. bucket_of nb (ht_key kv) = i)"

definition ht_wf :: "'v HashTableRecord \<Rightarrow> nat \<Rightarrow> bool" where
  "ht_wf t b \<longleftrightarrow> num_buckets t \<noteq> 0 \<and> length (buckets t) = unat (num_buckets t)
     \<and> (\<forall>i < length (buckets t). chain_wf (num_buckets t) b i (buckets t ! i))
     \<and> unat (ht_num_elements t) = length (entries t)"

definition chain_map :: "'v HTKeyValue chain \<Rightarrow> HTKey_t \<Rightarrow> 'v option" where
  "chain_map c = map_of (map (\<lambda>(a, kv). (ht_key kv, ht_value kv)) c)"

definition ht_map :: "'v HashTableRecord \<Rightarrow> HTKey_t \<Rightarrow> 'v option" where
  "ht_map t k = chain_map (buckets t ! bucket_of (num_buckets t) k) k"

definition ht_count :: "'v HashTableRecord \<Rightarrow> nat" where
  "ht_count t = length (entries t)"

text \<open>What a command may do to the allocator: it hands out addresses, nothing is taken back.\<close>

definition grown :: "malloc_state \<Rightarrow> malloc_state \<Rightarrow> bool" where
  "grown s s' \<longleftrightarrow> no_failures s' \<and> brk s \<le> brk s'"

lemma grown_refl [simp]: "no_failures s \<Longrightarrow> grown s s"
  by (simp add: grown_def)

lemma grown_trans [trans]: "grown s t \<Longrightarrow> grown t u \<Longrightarrow> grown s u"
  by (simp add: grown_def)

lemma grown_Suc [simp]: "no_failures s \<Longrightarrow> grown s (s\<lparr>brk := Suc (brk s)\<rparr>)"
  by (simp add: grown_def no_failures_def)

lemma no_failures_Suc [simp]: "no_failures s \<Longrightarrow> no_failures (s\<lparr>brk := Suc (brk s)\<rparr>)"
  by (simp add: no_failures_def)

lemma no_failures_brk: "no_failures s \<Longrightarrow> 0 < brk s"
  by (simp add: no_failures_def)

lemma chain_ok_mono: "chain_ok c b \<Longrightarrow> b \<le> b' \<Longrightarrow> chain_ok c b'"
  by (auto simp: chain_ok_def)

lemma chain_wf_mono: "chain_wf nb b i c \<Longrightarrow> b \<le> b' \<Longrightarrow> chain_wf nb b' i c"
  by (auto simp: chain_wf_def intro: chain_ok_mono)

lemma ht_wf_mono: "ht_wf t b \<Longrightarrow> b \<le> b' \<Longrightarrow> ht_wf t b'"
  by (auto simp: ht_wf_def intro: chain_wf_mono)

lemma ht_wf_grown: "ht_wf t (brk s) \<Longrightarrow> grown s s' \<Longrightarrow> ht_wf t (brk s')"
  by (auto simp: grown_def intro: ht_wf_mono)

lemma bucket_of_less [simp]: "nb \<noteq> 0 \<Longrightarrow> bucket_of nb k < unat nb"
  by (simp add: bucket_of_def unat_gt_0)

lemma bucket_num_unat:
  assumes "nb \<noteq> (0 :: HWSize_t)"
  shows "unat (ucast ((k :: HTKey_t) mod ucast nb) :: HWSize_t) = bucket_of nb k"
proof -
  have nb: "unat (ucast nb :: 64 word) = unat nb"
    by (simp add: unsigned_ucast_eq take_bit_nat_eq_self order_less_trans [OF unsigned_less])
  have "unat (k mod ucast nb) < unat nb"
    using assms by (simp add: unat_mod nb unat_gt_0)
  also have "unat nb < 2 ^ 32" using unsigned_less [of nb] by simp
  finally show ?thesis
    using nb by (simp add: bucket_of_def unsigned_ucast_eq unat_mod take_bit_nat_eq_self)
qed

lemma wp_bucket:
  assumes "ht_wf t b"
  shows "wp (bnd (HashKeyToBucketNum t k) (\<lambda>i. bnd (chain_at t i) (f i))) Q s \<longleftrightarrow>
     wp (f (ucast (k mod ucast (num_buckets t))) (buckets t ! bucket_of (num_buckets t) k)) Q s"
  using assms
  by (simp add: ht_wf_def HashKeyToBucketNum_def chain_at_def wp_simps bucket_num_unat)

section \<open>Chains\<close>

lemma chain_map_simps [simp]:
  "chain_map [] k = None"
  "chain_map ((a, kv) # c) k = (if k = ht_key kv then Some (ht_value kv) else chain_map c k)"
  by (auto simp: chain_map_def)

lemma chain_map_append [simp]:
  "chain_map (c @ d) k = (case chain_map c k of None \<Rightarrow> chain_map d k | Some v \<Rightarrow> Some v)"
  by (auto simp: chain_map_def map_add_def split: option.splits)

lemma find_node_None: "find_node c k = None \<longleftrightarrow> k \<notin> (ht_key \<circ> snd) ` set c"
  by (induction c k rule: find_node.induct) auto

lemma find_node_Some:
  "find_node c k = Some a \<Longrightarrow> \<exists>us kv vs. c = us @ (a, kv) # vs \<and> ht_key kv = k
     \<and> k \<notin> (ht_key \<circ> snd) ` set us"
proof (induction c k rule: find_node.induct)
  case (2 b kv c k)
  show ?case
  proof (cases "ht_key kv = k")
    case True then show ?thesis using 2 by (intro exI [of _ "[]"]) auto
  next
    case False
    with 2 obtain us kv' vs where "c = us @ (a, kv') # vs" "ht_key kv' = k" "k \<notin> (ht_key \<circ> snd) ` set us"
      by auto
    with False show ?thesis by (intro exI [of _ "(b, kv) # us"]) auto
  qed
qed simp

lemma chain_map_None: "chain_map c k = None \<longleftrightarrow> k \<notin> (ht_key \<circ> snd) ` set c"
  by (force simp: chain_map_def map_of_eq_None_iff)

lemma chain_update_mid:
  "a \<notin> fst ` set us \<Longrightarrow> chain_update a y (us @ (a, x) # vs) = us @ (a, y) # vs"
  by (induction us) auto

lemma chain_delete_mid: "a \<notin> fst ` set us \<Longrightarrow> chain_delete a (us @ (a, x) # vs) = us @ vs"
  by (induction us) auto

lemma chain_next_mid:
  "a \<notin> fst ` set us \<Longrightarrow> chain_next (us @ (a, x) # vs) a = Some (first_addr vs NULL)"
  by (induction us) auto

lemma chain_ok_mid: "chain_ok (us @ (a, x) # vs) b \<Longrightarrow> a \<notin> fst ` set us \<and> 0 < a"
  by (auto simp: chain_ok_def)

lemma map_of_mid: "a \<notin> fst ` set us \<Longrightarrow> map_of (us @ (a, x) # vs) a = Some x"
  by (induction us) auto

lemma node_payload_mid:
  "c = us @ (a, x) # vs \<Longrightarrow> a \<notin> fst ` set us \<Longrightarrow> node_payload c a = ret x"
  unfolding node_payload_def by (metis map_of_mid option.simps(5))

text \<open>The search of a chain, with what the walk finds.\<close>

lemma FindKV_spec:
  assumes "no_failures s"
  shows "wp (FindKVInHashTable c k) (\<lambda>r s'. r = find_node c k \<and> grown s s') s"
  using assms no_failures_brk [of s] by (auto simp: FindKVInHashTable_def wp_simps)

lemma wp_locate:
  assumes "ht_wf t b" and "no_failures s"
    and "\<And>s' i. grown s s' \<Longrightarrow> unat i = bucket_of (num_buckets t) k \<Longrightarrow>
      wp (g i (buckets t ! bucket_of (num_buckets t) k)
             (find_node (buckets t ! bucket_of (num_buckets t) k) k)) Q s'"
  shows "wp (bnd (HashKeyToBucketNum t k) (\<lambda>i. bnd (chain_at t i) (\<lambda>c.
           bnd (FindKVInHashTable c k) (g i c)))) Q s"
  unfolding wp_bucket [OF assms(1)] wp_bnd [of "FindKVInHashTable _ _"]
  using assms(1)
  by (intro wp_mono [OF FindKV_spec [OF assms(2)]])
    (auto intro!: assms(3) simp: bucket_num_unat ht_wf_def)

lemma find_node_absent: "chain_map c k = None \<Longrightarrow> find_node c k = None"
  by (simp add: chain_map_None find_node_None)

lemma find_node_present:
  assumes "chain_map c k = Some v" and "chain_ok c b"
  obtains us a kv vs where "find_node c k = Some a" and "c = us @ (a, kv) # vs" and "ht_key kv = k"
    and "ht_value kv = v" and "a \<notin> fst ` set us" and "chain_map us k = None"
proof -
  have "find_node c k \<noteq> None" using assms(1) chain_map_None [of c k] find_node_None [of c k] by simp
  then obtain a where a: "find_node c k = Some a" by blast
  from find_node_Some [OF a] obtain us kv vs where c: "c = us @ (a, kv) # vs" "ht_key kv = k"
      "k \<notin> (ht_key \<circ> snd) ` set us" by blast
  then have "chain_map us k = None" by (simp add: chain_map_None)
  moreover from this c(1,2) assms(1) have "ht_value kv = v" by auto
  moreover have "a \<notin> fst ` set us" using chain_ok_mid [of us a kv vs b] assms(2) c(1) by simp
  ultimately show thesis using that [OF a c(1,2)] by blast
qed

section \<open>Replacing one chain\<close>

lemma length_entries: "length (entries t) = sum_list (map length (buckets t))"
  by (simp add: entries_def length_concat comp_def)

definition put_chain :: "nat \<Rightarrow> 'v HTKeyValue chain \<Rightarrow> HWSize_t \<Rightarrow> 'v HashTableRecord \<Rightarrow> 'v HashTableRecord" where
  "put_chain i c n t = t\<lparr>buckets := (buckets t)[i := c], ht_num_elements := n\<rparr>"

lemma put_chain_num_buckets [simp]: "num_buckets (put_chain i c n t) = num_buckets t"
  by (simp add: put_chain_def)

lemma set_chain_put:
  "unat i = j \<Longrightarrow> (set_chain i c t)\<lparr>ht_num_elements := n\<rparr> = put_chain j c n t"
  "unat i = j \<Longrightarrow> set_chain i c t = put_chain j c (ht_num_elements t) t"
  by (simp_all add: set_chain_def put_chain_def)

lemma ht_count_put:
  assumes "ht_wf t b" and "i < unat (num_buckets t)"
  shows "ht_count (put_chain i c n t) + length (buckets t ! i) = ht_count t + length c"
proof -
  have i: "i < length (map length (buckets t))" using assms by (simp add: ht_wf_def)
  then have "length (buckets t ! i) \<le> sum_list (map length (buckets t))"
    using member_le_sum_list [of "map length (buckets t) ! i" "map length (buckets t)"] by simp
  then show ?thesis
    using sum_list_update [OF i, of "length c"] i
    by (simp add: ht_count_def length_entries put_chain_def map_update)
qed

lemma ht_wf_put:
  assumes wf: "ht_wf t b" and "b \<le> b'" and i: "i < unat (num_buckets t)"
    and c: "chain_wf (num_buckets t) b' i c"
    and n: "unat n + length (buckets t ! i) = ht_count t + length c"
  shows "ht_wf (put_chain i c n t) b'"
proof -
  have "ht_count (put_chain i c n t) = unat n" using ht_count_put [OF wf i, of c n] n by simp
  then show ?thesis
    using wf i c
    by (auto simp: ht_wf_def put_chain_def nth_list_update ht_count_def
        intro: chain_wf_mono [OF _ assms(2)])
qed

lemma ht_map_put:
  assumes "ht_wf t b" and "i < unat (num_buckets t)"
  shows "ht_map (put_chain i c n t) k =
     (if bucket_of (num_buckets t) k = i then chain_map c k else ht_map t k)"
  using assms by (auto simp: ht_map_def put_chain_def ht_wf_def)

lemma ht_map_put_upd:
  assumes "ht_wf t b"
    and "\<And>k'. chain_map c k' = (if k' = k then x else chain_map (buckets t ! bucket_of (num_buckets t) k) k')"
  shows "ht_map (put_chain (bucket_of (num_buckets t) k) c n t) = (ht_map t)(k := x)"
proof -
  have "bucket_of (num_buckets t) k < unat (num_buckets t)" using assms(1) by (simp add: ht_wf_def)
  from ht_map_put [OF assms(1) this] show ?thesis
    by (intro ext) (auto simp: assms(2) ht_map_def [of t])
qed

lemma chain_wf_other_bucket:
  "chain_wf nb b i c \<Longrightarrow> bucket_of nb k \<noteq> i \<Longrightarrow> chain_map c k = None"
  by (auto simp: chain_wf_def chain_map_None)

lemma ht_wf_chain: "ht_wf t b \<Longrightarrow> chain_wf (num_buckets t) b (bucket_of (num_buckets t) k)
     (buckets t ! bucket_of (num_buckets t) k)"
  by (simp add: ht_wf_def)

lemma ht_wf_nb: "ht_wf t b \<Longrightarrow> num_buckets t \<noteq> 0"
  by (simp add: ht_wf_def)

lemma ht_wf_ne: "ht_wf t b \<Longrightarrow> unat (ht_num_elements t) = ht_count t"
  by (simp add: ht_wf_def ht_count_def)

lemma ht_count_bound: "ht_wf t b \<Longrightarrow> ht_count t < 2 ^ 32"
  using unsigned_less [of "ht_num_elements t", where 'a = nat] by (simp add: ht_wf_ne)

lemma chain_length_le:
  assumes "ht_wf t b"
  shows "length (buckets t ! bucket_of (num_buckets t) k) \<le> ht_count t"
proof -
  have "bucket_of (num_buckets t) k < length (map length (buckets t))"
    using assms by (simp add: ht_wf_def)
  then show ?thesis
    using member_le_sum_list [of "map length (buckets t) ! bucket_of (num_buckets t) k"]
    by (simp add: ht_count_def length_entries)
qed

lemma chain_map_distinct:
  assumes "distinct (map (ht_key \<circ> snd) (us @ (a, kv) # vs))"
  shows "chain_map (us @ vs) k = (if k = ht_key kv then None else chain_map (us @ (a, kv) # vs) k)"
    and "ht_key kv' = ht_key kv \<Longrightarrow>
      chain_map (us @ (a, kv') # vs) k = (if k = ht_key kv then Some (ht_value kv') else chain_map (us @ (a, kv) # vs) k)"
proof -
  have "chain_map us (ht_key kv) = None" "chain_map vs (ht_key kv) = None"
    using assms by (auto simp: chain_map_None)
  then show "chain_map (us @ vs) k = (if k = ht_key kv then None else chain_map (us @ (a, kv) # vs) k)"
    and "ht_key kv' = ht_key kv \<Longrightarrow>
      chain_map (us @ (a, kv') # vs) k = (if k = ht_key kv then Some (ht_value kv') else chain_map (us @ (a, kv) # vs) k)"
    by (auto split: option.splits)
qed

section \<open>Lookup, insertion without growing, removal\<close>

lemma Lookup_spec:
  assumes wf: "ht_wf t (brk s)" and nf: "no_failures s"
  shows "wp (LookupHashTable t k)
     (\<lambda>r s'. grown s s' \<and> r = (case ht_map t k of None \<Rightarrow> (0, None)
                               | Some v \<Rightarrow> (1, Some \<lparr>ht_key = k, ht_value = v\<rparr>))) s"
proof -
  let ?c = "buckets t ! bucket_of (num_buckets t) k"
  have ok: "chain_ok ?c (brk s)" using ht_wf_chain [OF wf] by (simp add: chain_wf_def)
  show ?thesis
  proof (cases "ht_map t k")
    case None
    then have "find_node ?c k = None" by (simp add: ht_map_def find_node_absent)
    then show ?thesis
      unfolding LookupHashTable_def
      by (intro wp_locate [OF wf nf]) (simp add: wp_simps None)
  next
    case (Some v)
    then have "chain_map ?c k = Some v" by (simp add: ht_map_def)
    from find_node_present [OF this ok] obtain us a kv vs where f: "find_node ?c k = Some a"
      and c: "?c = us @ (a, kv) # vs" "ht_key kv = k" "ht_value kv = v" "a \<notin> fst ` set us"
      by metis
    have "node_payload ?c a = ret kv" using node_payload_mid [OF c(1,4)] .
    then show ?thesis
      unfolding LookupHashTable_def
      using c(2,3) by (intro wp_locate [OF wf nf]) (auto simp: wp_simps Some f)
  qed
qed

definition insert_post ::
    "'v HashTableRecord \<Rightarrow> 'v HTKeyValue \<Rightarrow> malloc_state \<Rightarrow>
       int \<times> 'v HashTableRecord \<times> 'v HTKeyValue option \<Rightarrow> malloc_state \<Rightarrow> bool" where
  "insert_post t kv s = (\<lambda>(r, t', old) s'. grown s s' \<and> ht_wf t' (brk s')
     \<and> ht_map t' = (ht_map t)(ht_key kv \<mapsto> ht_value kv)
     \<and> (case ht_map t (ht_key kv) of
          None \<Rightarrow> r = 1 \<and> old = None \<and> ht_count t' = Suc (ht_count t)
        | Some v \<Rightarrow> r = 2 \<and> old = Some \<lparr>ht_key = ht_key kv, ht_value = v\<rparr> \<and> ht_count t' = ht_count t))"

lemma chain_wf_append:
  assumes "chain_wf nb b i c" and "chain_map c (ht_key kv) = None" and "bucket_of nb (ht_key kv) = i"
    and "0 < b" and "length c + 1 < 2 ^ 32"
  shows "chain_wf nb (Suc b) i (c @ [(b, kv)])"
  using assms by (auto simp: chain_wf_def chain_map_None chain_ok_def)

lemma chain_wf_replace:
  "chain_wf nb b i (us @ (a, kv) # vs) \<Longrightarrow> ht_key kv' = ht_key kv \<Longrightarrow> chain_wf nb b i (us @ (a, kv') # vs)"
  by (auto simp: chain_wf_def chain_ok_def)

lemma chain_wf_remove: "chain_wf nb b i (us @ (a, kv) # vs) \<Longrightarrow> chain_wf nb b i (us @ vs)"
  by (auto simp: chain_wf_def chain_ok_def)

lemma insert_into_absent:
  assumes wf: "ht_wf t (brk s)" and nf: "no_failures s" and bound: "ht_count t + 1 < 2 ^ 32"
    and None: "ht_map t (ht_key kv) = None"
  shows "wp (insert_into t kv) (insert_post t kv s) s"
  unfolding insert_into_def
proof (rule wp_locate [OF wf nf], goal_cases)
  case (1 s' j)
  let ?k = "ht_key kv" and ?i = "bucket_of (num_buckets t) (ht_key kv)"
  let ?c = "buckets t ! ?i" and ?b = "Suc (brk s')"
  have cm: "chain_map ?c ?k = None" using None by (simp add: ht_map_def)
  have i: "?i < unat (num_buckets t)" using ht_wf_nb [OF wf] by simp
  have nf': "no_failures s'" using 1 by (simp add: grown_def)
  have wf': "ht_wf t ?b" using ht_wf_mono [OF wf, of ?b] 1 by (simp add: grown_def)
  have "chain_wf (num_buckets t) (Suc ?b) ?i (?c @ [(?b, kv)])"
    using chain_wf_append [OF ht_wf_chain [OF wf'] cm] chain_length_le [OF wf, of ?k] bound by simp
  then have put: "ht_wf (put_chain ?i (?c @ [(?b, kv)]) (ht_num_elements t + 1) t) (Suc ?b)"
    using ht_wf_put [OF wf' _ i] bound ht_wf_ne [OF wf]
    by (simp add: unat_plus_if_size word_size)
  have map: "ht_map (put_chain ?i (?c @ [(?b, kv)]) (ht_num_elements t + 1) t) = (ht_map t)(?k \<mapsto> ht_value kv)"
    by (rule ht_map_put_upd [OF wf]) (auto simp: cm split: option.splits)
  show ?case
    using nf' no_failures_brk [OF nf'] 1 put map None ht_count_put [OF wf i, of "?c @ [(?b, kv)]" "ht_num_elements t + 1"]
    by (simp add: find_node_absent [OF cm] wp_simps chain_append_def insert_post_def
        set_chain_put(1) grown_def no_failures_def)
qed

lemma insert_into_present:
  assumes wf: "ht_wf t (brk s)" and nf: "no_failures s" and Some: "ht_map t (ht_key kv) = Some v"
  shows "wp (insert_into t kv) (insert_post t kv s) s"
  unfolding insert_into_def
proof (rule wp_locate [OF wf nf], goal_cases)
  case (1 s' j)
  let ?k = "ht_key kv" and ?i = "bucket_of (num_buckets t) (ht_key kv)"
  let ?c = "buckets t ! ?i"
  have i: "?i < unat (num_buckets t)" using ht_wf_nb [OF wf] by simp
  have ok: "chain_ok ?c (brk s)" using ht_wf_chain [OF wf] by (simp add: chain_wf_def)
  have "chain_map ?c ?k = Some v" using Some by (simp add: ht_map_def)
  from find_node_present [OF this ok] obtain us a old vs where f: "find_node ?c ?k = Some a"
    and c: "?c = us @ (a, old) # vs" "ht_key old = ?k" "ht_value old = v" "a \<notin> fst ` set us"
    by metis
  have upd: "chain_update a kv ?c = us @ (a, kv) # vs" using c by (simp add: chain_update_mid)
  have wf': "ht_wf t (brk s')" using ht_wf_grown [OF wf] 1 by simp
  have put: "ht_wf (put_chain ?i (us @ (a, kv) # vs) (ht_num_elements t) t) (brk s')"
    using ht_wf_put [OF wf' _ i] chain_wf_replace [of _ _ _ us a old vs kv] ht_wf_chain [OF wf', of ?k] c
      ht_wf_ne [OF wf] by simp
  have "distinct (map (ht_key \<circ> snd) (us @ (a, old) # vs))"
    using ht_wf_chain [OF wf, of ?k] c(1) by (simp add: chain_wf_def)
  from chain_map_distinct(2) [OF this c(2) [symmetric]]
  have map: "ht_map (put_chain ?i (us @ (a, kv) # vs) (ht_num_elements t) t) = (ht_map t)(?k \<mapsto> ht_value kv)"
    by (intro ht_map_put_upd [OF wf]) (simp add: c)
  have "ht_count (put_chain ?i (us @ (a, kv) # vs) (ht_num_elements t) t) = ht_count t"
    using ht_count_put [OF wf i, of "us @ (a, kv) # vs"] c(1) by simp
  then show ?case
    using 1 put map Some c(2,3)
    by (auto simp: f wp_simps node_payload_mid [OF c(1,4)] upd insert_post_def set_chain_put(2))
qed

lemma insert_into_spec:
  assumes "ht_wf t (brk s)" and "no_failures s" and "ht_count t + 1 < 2 ^ 32"
  shows "wp (insert_into t kv) (insert_post t kv s) s"
  using insert_into_absent [OF assms] insert_into_present [OF assms(1,2)]
  by (cases "ht_map t (ht_key kv)") auto

section \<open>All entries of a table\<close>

abbreviation kv_pair :: "'v HTKeyValue \<Rightarrow> HTKey_t \<times> 'v" where
  "kv_pair kv \<equiv> (ht_key kv, ht_value kv)"

definition kv_map :: "'v HTKeyValue list \<Rightarrow> HTKey_t \<Rightarrow> 'v option" where
  "kv_map kvs = map_of (map kv_pair kvs)"

lemma kv_map_simps [simp]:
  "kv_map [] k = None"
  "kv_map (kv # kvs) k = (if k = ht_key kv then Some (ht_value kv) else kv_map kvs k)"
  by (auto simp: kv_map_def)

lemma kv_map_None: "kv_map kvs k = None \<longleftrightarrow> k \<notin> ht_key ` set kvs"
  by (force simp: kv_map_def map_of_eq_None_iff)

lemma chain_map_kv: "chain_map c = kv_map (map snd c)"
  by (rule ext, induction c) auto

lemma kv_map_mem:
  assumes "distinct (map ht_key kvs)"
  shows "kv_map kvs k = Some v \<longleftrightarrow> (\<exists>kv \<in> set kvs. ht_key kv = k \<and> ht_value kv = v)"
proof -
  have "distinct (map fst (map kv_pair kvs))" using assms by (simp add: comp_def)
  then show ?thesis unfolding kv_map_def by (subst map_of_eq_Some_iff) auto
qed

lemma chains_distinct:
  assumes "\<forall>i < length bs. chain_wf nb b (i + d) (bs ! i)"
  shows "distinct (map ht_key (concat (map (map snd) bs)))
     \<and> (\<forall>kv \<in> set (concat (map (map snd) bs)). d \<le> bucket_of nb (ht_key kv))"
  using assms
proof (induction bs arbitrary: d)
  case (Cons c bs)
  have c: "chain_wf nb b d c" using Cons.prems by force
  have "\<forall>i < length bs. chain_wf nb b (i + Suc d) (bs ! i)" using Cons.prems by force
  note IH = Cons.IH [OF this]
  have "distinct (map ht_key (map snd c))" "\<forall>kv \<in> snd ` set c. bucket_of nb (ht_key kv) = d"
    using c by (auto simp: chain_wf_def comp_def)
  then show ?case using IH by (fastforce simp: comp_def)
qed simp

lemma entries_distinct: "ht_wf t b \<Longrightarrow> distinct (map ht_key (entries t))"
  using chains_distinct [of "buckets t" "num_buckets t" b 0] by (simp add: ht_wf_def entries_def)

lemma entries_mem: "kv \<in> set (entries t) \<longleftrightarrow> (\<exists>i < length (buckets t). kv \<in> snd ` set (buckets t ! i))"
  by (simp add: entries_def) (metis in_set_conv_nth)

lemma ht_map_entries:
  assumes wf: "ht_wf t b"
  shows "ht_map t = kv_map (entries t)"
proof -
  have "ht_map t k = Some v \<longleftrightarrow> kv_map (entries t) k = Some v" for k v
  proof -
    let ?c = "buckets t ! bucket_of (num_buckets t) k"
    have "distinct (map ht_key (map snd ?c))"
      using ht_wf_chain [OF wf, of k] by (simp add: chain_wf_def comp_def)
    from kv_map_mem [OF this] have "ht_map t k = Some v \<longleftrightarrow> (\<exists>kv \<in> snd ` set ?c. ht_key kv = k \<and> ht_value kv = v)"
      by (auto simp: ht_map_def chain_map_kv)
    also have "\<dots> \<longleftrightarrow> (\<exists>kv \<in> set (entries t). ht_key kv = k \<and> ht_value kv = v)" (is "?L \<longleftrightarrow> ?R")
    proof
      have i: "bucket_of (num_buckets t) k < length (buckets t)" using wf by (simp add: ht_wf_def)
      assume ?L
      then obtain kv where "kv \<in> snd ` set ?c" "ht_key kv = k" "ht_value kv = v" by (rule bexE) simp
      moreover from this(1) i have "kv \<in> set (entries t)" unfolding entries_mem by (intro exI conjI)
      ultimately show ?R by (intro bexI conjI)
    next
      assume ?R
      then obtain i kv where "i < length (buckets t)" "kv \<in> snd ` set (buckets t ! i)"
          "ht_key kv = k" "ht_value kv = v"
        by (metis entries_mem)
      moreover from this have "bucket_of (num_buckets t) k = i"
        using wf by (auto simp: ht_wf_def chain_wf_def)
      ultimately show ?L by (intro bexI [of _ kv]) auto
    qed
    finally show ?thesis using kv_map_mem [OF entries_distinct [OF wf]] by simp
  qed
  then show ?thesis by (metis ext not_Some_eq)
qed

lemma ht_count_card:
  assumes "ht_wf t b"
  shows "ht_count t = card (dom (ht_map t))" and "finite (dom (ht_map t))"
proof -
  have "dom (ht_map t) = set (map ht_key (entries t))"
    by (force simp: dom_def ht_map_entries [OF assms] kv_map_None)
  then show "ht_count t = card (dom (ht_map t))" "finite (dom (ht_map t))"
    using distinct_card [OF entries_distinct [OF assms]] by (simp_all add: ht_count_def)
qed

section \<open>Allocation\<close>

lemma Allocate_chains_spec:
  assumes "no_failures s"
  shows "wp (AllocateHashTable_chains n) (\<lambda>r s'. r = Some (replicate n []) \<and> grown s s') s"
  using assms
proof (induction n arbitrary: s)
  case (Suc n)
  have "grown s s'" if "grown (s\<lparr>brk := Suc (brk s)\<rparr>) s'" for s'
    using that by (simp add: grown_def)
  then show ?case
    using Suc.prems no_failures_brk [OF Suc.prems]
      wp_mono [OF Suc.IH [OF no_failures_Suc [OF Suc.prems]]]
    by (auto simp: wp_simps intro!: wp_mono [OF Suc.IH [OF no_failures_Suc [OF Suc.prems]]])
qed (simp add: wp_simps)

definition empty_table :: "HWSize_t \<Rightarrow> 'v HashTableRecord" where
  "empty_table n = \<lparr>num_buckets = n, ht_num_elements = 0, buckets = replicate (unat n) []\<rparr>"

lemma empty_table_wf:
  assumes "n \<noteq> 0"
  shows "ht_wf (empty_table n) b" and "ht_map (empty_table n) = (\<lambda>_. None)"
    and "ht_count (empty_table n) = 0"
proof -
  show wf: "ht_wf (empty_table n) b"
    using assms by (auto simp: ht_wf_def empty_table_def chain_wf_def chain_ok_def entries_def)
  show "ht_map (empty_table n) = (\<lambda>_. None)"
    using assms by (auto simp: ht_map_def empty_table_def)
  show "ht_count (empty_table n) = 0"
    by (auto simp: ht_count_def entries_def empty_table_def)
qed

lemma Allocate_spec:
  assumes nf: "no_failures s"
  shows "wp (AllocateHashTable n)
     (\<lambda>r s'. grown s s' \<and> r = (if n = 0 then None else Some (empty_table n))) s"
proof (cases "n = 0")
  case False
  let ?s = "s\<lparr>brk := Suc (Suc (brk s))\<rparr>"
  have nf2: "no_failures ?s" "grown s ?s" using nf by (simp_all add: no_failures_def grown_def)
  show ?thesis
    using nf False nf2 no_failures_brk [OF nf]
    by (auto simp: AllocateHashTable_def wp_simps empty_table_def
        intro!: wp_mono [OF Allocate_chains_spec [OF nf2(1)]] intro: grown_trans)
qed (simp add: AllocateHashTable_def wp_simps nf)

section \<open>Iteration\<close>

definition tail_entries :: "'v HashTableRecord \<Rightarrow> nat \<Rightarrow> 'v HTKeyValue list" where
  "tail_entries t i = concat (map (map snd) (drop i (buckets t)))"

definition it_on :: "'v HashTableRecord \<Rightarrow> HTIterRecord \<Rightarrow> nat \<Rightarrow> 'v HTKeyValue chain \<Rightarrow> 'v HTKeyValue \<Rightarrow> 'v HTKeyValue chain \<Rightarrow> bool" where
  "it_on t it i us kv vs \<longleftrightarrow> is_valid it \<and> i < length (buckets t) \<and> bucket_num it = of_nat i
     \<and> buckets t ! i = us @ (bucket_it it, kv) # vs"

text \<open>The entries an iterator has still to visit, the one under it first.\<close>

definition remaining :: "'v HashTableRecord \<Rightarrow> HTIterRecord \<Rightarrow> 'v HTKeyValue list \<Rightarrow> bool" where
  "remaining t it rs \<longleftrightarrow>
     (if is_valid it
      then \<exists>i us kv vs. it_on t it i us kv vs \<and> rs = kv # map snd vs @ tail_entries t (Suc i)
      else rs = [])"

lemma next_nonempty_le: "next_nonempty bs \<le> length bs"
  by (induction bs) auto

lemma next_nonempty_nth: "next_nonempty bs < length bs \<Longrightarrow> bs ! next_nonempty bs \<noteq> []"
  by (induction bs) auto

lemma next_nonempty_drop:
  "concat (map f (drop (next_nonempty bs) bs)) = concat (map f bs)" if "f [] = []"
  using that by (induction bs) auto

lemma tail_entries_skip: "tail_entries t (i + next_nonempty (drop i (buckets t))) = tail_entries t i"
  using next_nonempty_drop [of "map snd" "drop i (buckets t)"] by (simp add: tail_entries_def add.commute)

lemma next_nonempty_concat_none:
  "next_nonempty bs = length bs \<Longrightarrow> concat (map (map f) bs) = []"
  by (induction bs) (auto split: if_splits)

lemma make_bucket_it_spec:
  assumes "no_failures s" and "c \<noteq> []"
  shows "wp (make_bucket_it c) (\<lambda>r s'. r = first_addr c NULL \<and> grown s s') s"
  using assms no_failures_brk [OF assms(1)] by (auto simp: make_bucket_it_def wp_simps)

lemma first_addr_it_on:
  assumes "i < length (buckets t)" and "buckets t ! i \<noteq> []"
    and "is_valid it" and "bucket_num it = of_nat i" and "bucket_it it = first_addr (buckets t ! i) NULL"
  shows "remaining t it (tail_entries t i)"
proof -
  obtain a kv vs where c: "buckets t ! i = (a, kv) # vs" using assms(2) by (metis list.exhaust prod.exhaust)
  have "tail_entries t i = map snd (buckets t ! i) @ tail_entries t (Suc i)"
    unfolding tail_entries_def Cons_nth_drop_Suc [OF assms(1), symmetric] by simp
  moreover have "it_on t it i [] kv vs" using assms c by (simp add: it_on_def)
  ultimately show ?thesis
    using assms(3) c by (auto simp: remaining_def)
qed

lemma HTMakeIterator_spec:
  assumes wf: "ht_wf t b" and nf: "no_failures s"
  shows "wp (HashTableMakeIterator t)
     (\<lambda>r s'. grown s s' \<and> (\<exists>it. r = Some it \<and> remaining t it (entries t))) s"
proof (cases "ht_num_elements t = 0")
  case True
  then have "entries t = []" using ht_wf_ne [OF wf] by (simp add: ht_count_def)
  then show ?thesis
    using True nf no_failures_brk [OF nf] by (auto simp: HashTableMakeIterator_def wp_simps remaining_def)
next
  case False
  let ?i = "next_nonempty (buckets t)"
  have ne: "entries t \<noteq> []" using ht_wf_ne [OF wf] False by (auto simp: ht_count_def unat_eq_0)
  have len: "length (buckets t) = unat (num_buckets t)" using wf by (simp add: ht_wf_def)
  have i: "?i < length (buckets t)"
    using next_nonempty_le [of "buckets t"] next_nonempty_concat_none [of "buckets t" snd] ne
    by (force simp: entries_def)
  have all: "entries t = tail_entries t ?i"
    using tail_entries_skip [of t 0] by (simp add: entries_def tail_entries_def)
  have pos: "first_addr (buckets t ! ?i) NULL \<noteq> NULL"
  proof -
    obtain a kv vs where "buckets t ! ?i = (a, kv) # vs"
      using next_nonempty_nth [OF i] by (metis list.exhaust prod.exhaust)
    then show ?thesis using wf i by (force simp: ht_wf_def chain_wf_def chain_ok_def)
  qed
  let ?it = "\<lparr>is_valid = True, bucket_num = of_nat ?i, bucket_it = first_addr (buckets t ! ?i) NULL\<rparr>"
  have "remaining t ?it (entries t)"
    unfolding all by (rule first_addr_it_on [OF i next_nonempty_nth [OF i]]) simp_all
  moreover have "wp (make_bucket_it (buckets t ! ?i)) (\<lambda>r s'. r = first_addr (buckets t ! ?i) NULL \<and> grown s s')
      (s\<lparr>brk := Suc (brk s)\<rparr>)"
    by (rule wp_mono [OF make_bucket_it_spec [OF no_failures_Suc [OF nf] next_nonempty_nth [OF i]]])
      (simp add: grown_def)
  ultimately show ?thesis
    using False nf no_failures_brk [OF nf] i len pos
    by (auto simp: HashTableMakeIterator_def wp_simps Let_def elim!: wp_mono)
qed

lemma it_on_addr:
  assumes "ht_wf t b" and "it_on t it i us kv vs"
  shows "bucket_it it \<notin> fst ` set us" and "0 < bucket_it it"
proof -
  have "chain_wf (num_buckets t) b i (buckets t ! i)" using assms unfolding ht_wf_def it_on_def by blast
  then have "chain_ok (buckets t ! i) b" by (simp add: chain_wf_def)
  then have "chain_ok (us @ (bucket_it it, kv) # vs) b" using assms(2) by (simp add: it_on_def)
  then show "bucket_it it \<notin> fst ` set us" "0 < bucket_it it" using chain_ok_mid [of us "bucket_it it" kv vs b] by simp_all
qed

lemma it_on_index:
  assumes "ht_wf t b" and "it_on t it i us kv vs"
  shows "unat (bucket_num it) = i" and "unat (bucket_num it + 1) = Suc i"
proof -
  have "Suc i < 2 ^ 32"
    using assms unsigned_less [of "num_buckets t", where 'a = nat] by (auto simp: it_on_def ht_wf_def)
  then show "unat (bucket_num it) = i" "unat (bucket_num it + 1) = Suc i"
    using assms(2) unat_of_nat_32 [of "Suc i"] by (simp_all add: it_on_def add.commute)
qed

lemma HTGet_spec:
  assumes wf: "ht_wf t b" and "remaining t it (r # rs)"
  shows "HTIteratorGet t it = ret (1, Some r)"
proof -
  from assms(2) obtain i us vs where on: "it_on t it i us r vs" and v: "is_valid it"
    by (auto simp: remaining_def split: if_splits)
  have "node_payload (buckets t ! i) (bucket_it it) = ret r"
    using on node_payload_mid [of _ us "bucket_it it" r vs] it_on_addr [OF wf on] by (simp add: it_on_def)
  then show ?thesis
    using on v it_on_addr [OF wf on] it_on_index(1) [OF wf on]
    by (simp add: HTIteratorGet_def chain_at_def it_on_def)
qed

lemma HTPastEnd_spec:
  assumes "ht_wf t b" and "remaining t it rs"
  shows "HTIteratorPastEnd it = (if rs = [] then 1 else 0)"
proof (cases "is_valid it")
  case True
  with assms(2) obtain i us kv vs where "it_on t it i us kv vs" "rs \<noteq> []" by (auto simp: remaining_def)
  with it_on_addr [OF assms(1) this(1)] True show ?thesis by (simp add: HTIteratorPastEnd_def)
qed (use assms in \<open>simp add: HTIteratorPastEnd_def remaining_def\<close>)

lemma HTNext_spec:
  assumes wf: "ht_wf t b" and rem: "remaining t it (r # rs)" and nf: "no_failures s"
  shows "wp (HTIteratorNext t it)
     (\<lambda>(res, it') s'. grown s s' \<and> remaining t it' rs \<and> res = (if rs = [] then 0 else 1)) s"
proof -
  from rem obtain i us vs where on: "it_on t it i us r vs" and v: "is_valid it"
      and rs: "rs = map snd vs @ tail_entries t (Suc i)"
    by (auto simp: remaining_def split: if_splits)
  note idx = it_on_index [OF wf on] and addr = it_on_addr [OF wf on]
  have c: "buckets t ! i = us @ (bucket_it it, r) # vs" and i: "i < length (buckets t)"
    using on by (auto simp: it_on_def)
  have len: "length (buckets t) = unat (num_buckets t)" using wf by (simp add: ht_wf_def)
  have "chain_next (us @ (bucket_it it, r) # vs) (bucket_it it) = Some (first_addr vs NULL)"
    using addr by (simp add: chain_next_mid)
  then have run: "HTIteratorNext t it =
      (if first_addr vs NULL \<noteq> NULL then ret (1, it\<lparr>bucket_it := first_addr vs NULL\<rparr>)
       else if unat (num_buckets t) \<le> Suc i
       then ret (0, it\<lparr>bucket_num := bucket_num it + 1, is_valid := False\<rparr>)
       else let j = Suc i + next_nonempty (drop (Suc i) (buckets t)) in
         if j < unat (num_buckets t)
         then bnd (make_bucket_it (buckets t ! j)) (\<lambda>p. ret (1, it\<lparr>bucket_num := of_nat j, bucket_it := p\<rparr>))
         else ret (0, it\<lparr>bucket_num := num_buckets t, is_valid := False\<rparr>))"
    using i c addr v by (simp add: HTIteratorNext_def chain_at_def idx Let_def word_le_nat_alt)
  show ?thesis
  proof (cases vs)
    case (Cons p vs')
    obtain a kv where p: "p = (a, kv)" by (cases p)
    have "it_on t (it\<lparr>bucket_it := a\<rparr>) i (us @ [(bucket_it it, r)]) kv vs'"
      using on Cons p by (simp add: it_on_def)
    moreover from it_on_addr(2) [OF wf this] have "0 < a" by simp
    ultimately show ?thesis
      using nf v unfolding run
      by (simp add: Cons p remaining_def rs wp_simps) (intro exI conjI, assumption, simp)
  next
    case Nil
    define j where "j = Suc i + next_nonempty (drop (Suc i) (buckets t))"
    note run = run [folded j_def]
    show ?thesis
    proof (cases "j < length (buckets t)")
      case True
      then have less: "next_nonempty (drop (Suc i) (buckets t)) < length (drop (Suc i) (buckets t))" by (simp add: j_def)
      have ne: "buckets t ! j \<noteq> []" using next_nonempty_nth [OF less] True by (simp add: j_def)
      have "tail_entries t (Suc i) = tail_entries t j" unfolding j_def by (rule tail_entries_skip [symmetric])
      then have "remaining t (it\<lparr>bucket_num := of_nat j, bucket_it := first_addr (buckets t ! j) NULL\<rparr>) rs"
        using first_addr_it_on [OF True ne, of "it\<lparr>bucket_num := of_nat j, bucket_it := first_addr (buckets t ! j) NULL\<rparr>"] v
        by (simp add: rs Nil)
      moreover have "\<not> unat (num_buckets t) \<le> Suc i" using True len by (simp add: j_def)
      moreover have "rs \<noteq> []" using calculation v by (auto simp: remaining_def)
      ultimately show ?thesis
        using True len unfolding run
        by (auto simp: Nil wp_bnd Let_def j_def [symmetric] intro!: wp_mono [OF make_bucket_it_spec [OF nf ne]] simp: wp_ret)
    next
      case False
      then have "next_nonempty (drop (Suc i) (buckets t)) = length (drop (Suc i) (buckets t))"
        using next_nonempty_le [of "drop (Suc i) (buckets t)"] i by (simp add: j_def)
      from next_nonempty_concat_none [OF this, of snd] have "rs = []" by (simp add: rs Nil tail_entries_def)
      then show ?thesis
        using False len nf unfolding run by (auto simp: Nil remaining_def wp_simps)
    qed
  qed
qed

section \<open>Growing and inserting\<close>

text \<open>The contract of an insertion function on tables of at most \<open>m\<close> elements.\<close>

definition inserts_upto ::
    "('v HashTableRecord \<Rightarrow> 'v HTKeyValue \<Rightarrow> (int \<times> 'v HashTableRecord \<times> 'v HTKeyValue option) ht_cmd) \<Rightarrow> nat \<Rightarrow> bool" where
  "inserts_upto ins m \<longleftrightarrow> (\<forall>t kv s. ht_wf t (brk s) \<longrightarrow> no_failures s \<longrightarrow> ht_count t \<le> m \<longrightarrow>
     ht_count t + 1 < 2 ^ 32 \<longrightarrow> wp (ins t kv) (insert_post t kv s) s)"

lemma Resize_loop_spec:
  assumes ins: "inserts_upto ins m" and wf: "ht_wf t b"
    and rem: "remaining t it rs" and fuel: "length rs < n" and nf: "no_failures s" and new: "ht_wf newt (brk s)"
    and fresh: "\<forall>kv \<in> set rs. ht_map newt (ht_key kv) = None" and dist: "distinct (map ht_key rs)"
    and "ht_count newt + length rs \<le> Suc m" and "ht_count newt + length rs < 2 ^ 32"
  shows "wp (ResizeHashtable_loop ins n t it newt)
     (\<lambda>r s'. grown s s' \<and> (\<exists>t'. r = Some t' \<and> ht_wf t' (brk s') \<and> ht_map t' = ht_map newt ++ kv_map rs
        \<and> ht_count t' = ht_count newt + length rs)) s"
  using rem fuel nf new fresh dist assms(9,10)
proof (induction n arbitrary: it rs s newt)
  case (Suc n)
  show ?case
  proof (cases rs)
    case Nil
    then have "kv_map rs = Map.empty" by (auto simp: kv_map_def)
    then show ?thesis using Suc.prems HTPastEnd_spec [OF wf Suc.prems(1)] Nil by (simp add: wp_simps)
  next
    case (Cons r rs')
    note rem' = Suc.prems(1) [unfolded Cons]
    have past: "HTIteratorPastEnd it = 0" using HTPastEnd_spec [OF wf rem'] by simp
    have step: "ResizeHashtable_loop ins (Suc n) t it newt =
        bnd (ins newt r) (\<lambda>(res, newt', _). if res \<noteq> 1 then ret None
          else bnd (HTIteratorNext t it) (\<lambda>(_, it'). ResizeHashtable_loop ins n t it' newt'))"
      by (simp add: past HTGet_spec [OF wf rem'])
    have "wp (ins newt r) (insert_post newt r s) s"
      using ins Suc.prems Cons by (simp add: inserts_upto_def)
    then show ?thesis
      unfolding step wp_bnd
    proof (rule wp_mono, goal_cases)
      case (1 x s1)
      obtain res newt' old where x: "x = (res, newt', old)" by (cases x)
      have none: "ht_map newt (ht_key r) = None" using Suc.prems(5) Cons by simp
      have new': "ht_wf newt' (brk s1)" "res = 1" "ht_map newt' = (ht_map newt)(ht_key r \<mapsto> ht_value r)"
          "ht_count newt' = Suc (ht_count newt)" and g: "grown s s1"
        using 1 none by (simp_all add: insert_post_def x)
      have nf1: "no_failures s1" using g by (simp add: grown_def)
      show ?case
        unfolding x prod.case new'(2) simp_thms if_False wp_bnd
      proof (rule wp_mono [OF HTNext_spec [OF wf rem' nf1]], goal_cases)
        case (1 y s2)
        obtain res2 it' where y: "y = (res2, it')" by (cases y)
        have g2: "grown s1 s2" and rem2: "remaining t it' rs'" using 1 by (simp_all add: y)
        have nf2: "no_failures s2" using g2 by (simp add: grown_def)
        have map: "ht_map newt' ++ kv_map rs' = ht_map newt ++ kv_map (r # rs')"
          using Suc.prems(6) Cons kv_map_None [of rs' "ht_key r"]
          by (auto simp: new' fun_eq_iff map_add_def split: option.splits)
        have fresh': "\<forall>kv \<in> set rs'. ht_map newt' (ht_key kv) = None"
          using Suc.prems(5,6) Cons by (auto simp: new' image_iff)
        show ?case
          unfolding y prod.case
          by (rule wp_mono [OF Suc.IH [OF rem2 _ nf2 ht_wf_grown [OF new'(1) g2] fresh']])
            (use Suc.prems g g2 new'(4) in \<open>auto simp: Cons map intro: grown_trans [OF g] grown_trans [OF g2]\<close>)
      qed
    qed
  qed
qed simp

lemma Resize_spec:
  assumes ins: "inserts_upto ins m" and wf: "ht_wf t (brk s)" and nf: "no_failures s" and m: "ht_count t \<le> Suc m"
  shows "wp (ResizeHashtable ins t)
     (\<lambda>t' s'. grown s s' \<and> ht_wf t' (brk s') \<and> ht_map t' = ht_map t \<and> ht_count t' = ht_count t) s"
proof (cases "ht_num_elements t < 3 * num_buckets t")
  case True
  then show ?thesis using wf nf by (simp add: ResizeHashtable_def wp_simps)
next
  case False
  let ?n = "num_buckets t * 9"
  let ?Q = "\<lambda>t' s'. grown s s' \<and> ht_wf t' (brk s') \<and> ht_map t' = ht_map t \<and> ht_count t' = ht_count t"
  show ?thesis
    unfolding ResizeHashtable_def if_not_P [OF False] wp_bnd
  proof (rule wp_mono [OF Allocate_spec [OF nf]], goal_cases)
    case (1 r s1)
    then have g1: "grown s s1" and nf1: "no_failures s1" by (auto simp: grown_def)
    note wf1 = ht_wf_grown [OF wf g1]
    show ?case
    proof (cases "?n = 0")
      case True
      then show ?thesis using 1 wf1 g1 by (simp add: wp_simps)
    next
      case n: False
      then have r: "r = Some (empty_table ?n)" using 1 by simp
      show ?thesis
        unfolding r option.case wp_bnd
      proof (rule wp_mono [OF HTMakeIterator_spec [OF wf1 nf1]], goal_cases)
        case (1 r s2)
        then obtain it where it: "r = Some it" "remaining t it (entries t)" and g2: "grown s1 s2" by blast
        have nf2: "no_failures s2" and g: "grown s s2" using g2 grown_trans [OF g1 g2] by (auto simp: grown_def)
        show ?case
          unfolding it(1) option.case wp_bnd
          by (rule wp_mono [OF Resize_loop_spec [OF ins wf it(2) _ nf2 empty_table_wf(1) [OF n]]])
            (use entries_distinct [OF wf] m ht_wf_ne [OF wf] ht_count_bound [OF wf] g in
              \<open>auto simp: wp_simps ht_count_def [of t] empty_table_wf [OF n] ht_map_entries [OF wf]
                intro: grown_trans [OF g]\<close>)
      qed
    qed
  qed
qed

lemma Insert_depth_spec: "inserts_upto (InsertHashTable_depth n) m" if "m + 2 \<le> n"
  using that
proof (induction n arbitrary: m)
  case (Suc n)
  note IH = Suc.IH and prems = Suc.prems
  show ?case
    unfolding inserts_upto_def
  proof (intro allI impI)
    fix t :: "'a HashTableRecord" and kv and s :: malloc_state
    assume wf: "ht_wf t (brk s)" and nf: "no_failures s" and m: "ht_count t \<le> m" and c: "ht_count t + 1 < 2 ^ 32"
    have "wp (ResizeHashtable (InsertHashTable_depth n) t)
       (\<lambda>t' s'. grown s s' \<and> ht_wf t' (brk s') \<and> ht_map t' = ht_map t \<and> ht_count t' = ht_count t) s"
    proof (cases m)
      case 0
      then have ne: "ht_num_elements t = 0" using m ht_wf_ne [OF wf] by (simp add: unat_eq_0)
      have "3 * num_buckets t \<noteq> 0"
      proof
        assume "3 * num_buckets t = 0"
        moreover have "(2863311531 * 3 :: HWSize_t) = 1" by simp
        then have "num_buckets t = 2863311531 * (3 * num_buckets t)"
          by (simp only: mult.assoc [symmetric] mult_1)
        ultimately have "num_buckets t = 0" by simp
        then show False using ht_wf_nb [OF wf] by simp
      qed
      then have "ht_num_elements t < 3 * num_buckets t" by (simp add: ne word_neq_0_conv)
      then show ?thesis using wf nf by (simp add: ResizeHashtable_def wp_simps)
    next
      case (Suc m')
      then have "m' + 2 \<le> n" using prems by simp
      from Resize_spec [OF IH [OF this] wf nf] show ?thesis using m Suc by simp
    qed
    then show "wp (InsertHashTable_depth (Suc n) t kv) (insert_post t kv s) s"
      unfolding InsertHashTable_depth.simps wp_bnd
    proof (rule wp_mono, goal_cases)
      case (1 t' s')
      then have "wp (insert_into t' kv) (insert_post t' kv s') s'"
        using c by (intro insert_into_spec) (auto simp: grown_def)
      then show ?case
        by (rule wp_mono) (use 1 in \<open>auto simp: insert_post_def split: option.splits intro: grown_trans [where s = s]\<close>)
    qed
  qed
qed simp

lemma Insert_spec:
  assumes "ht_wf t (brk s)" and "no_failures s" and "ht_count t + 1 < 2 ^ 32"
  shows "wp (InsertHashTable t kv) (insert_post t kv s) s"
proof -
  have "inserts_upto (InsertHashTable_depth (ht_count t + 2)) (ht_count t)"
    by (rule Insert_depth_spec) simp
  then show ?thesis using assms unfolding inserts_upto_def InsertHashTable_def ht_wf_ne [OF assms(1)] by blast
qed

section \<open>Removal\<close>

lemma tail_entries_put:
  "i < j \<Longrightarrow> tail_entries (put_chain i c n t) j = tail_entries t j"
  by (simp add: tail_entries_def put_chain_def)

lemma tail_entries_mem:
  "kv \<in> snd ` set (buckets t ! i) \<Longrightarrow> i < length (buckets t) \<Longrightarrow> j \<le> i \<Longrightarrow> kv \<in> set (tail_entries t j)"
proof -
  assume "kv \<in> snd ` set (buckets t ! i)" "i < length (buckets t)" "j \<le> i"
  moreover from this have "buckets t ! i \<in> set (drop j (buckets t))"
    by (intro in_set_conv_nth [THEN iffD2]) (auto intro!: exI [of _ "i - j"])
  ultimately show ?thesis by (auto simp: tail_entries_def intro!: bexI [of _ "buckets t ! i"])
qed

text \<open>Deleting an entry an iterator has already passed does not disturb the iterator.\<close>

lemma remaining_removed:
  assumes wf: "ht_wf t b" and c: "buckets t ! i = us @ (a, old) # vs" and i: "i < length (buckets t)"
    and rem: "remaining t it rs" and notin: "ht_key old \<notin> ht_key ` set rs"
  shows "remaining (put_chain i (us @ vs) n t) it rs"
proof (cases "is_valid it")
  case True
  with rem obtain i' us' kv' vs' where on: "it_on t it i' us' kv' vs'"
    and rs: "rs = kv' # map snd vs' @ tail_entries t (Suc i')" by (auto simp: remaining_def)
  have "\<not> Suc i' \<le> i"
    using tail_entries_mem [of old t i "Suc i'"] c i notin rs by auto
  then have tl: "tail_entries (put_chain i (us @ vs) n t) (Suc i') = tail_entries t (Suc i')"
    by (simp add: tail_entries_put)
  have "\<exists>us''. it_on (put_chain i (us @ vs) n t) it i' us'' kv' vs'"
  proof (cases "i' = i")
    case False
    then show ?thesis using on by (auto simp: it_on_def put_chain_def)
  next
    case eq: True
    have "us @ (a, old) # vs = us' @ (bucket_it it, kv') # vs'" using on c eq by (simp add: it_on_def)
    moreover have "old \<noteq> kv'" "(a, old) \<notin> set vs'" using notin rs by force+
    ultimately obtain ws where "us' = us @ (a, old) # ws" "vs = ws @ (bucket_it it, kv') # vs'"
      by (auto simp: append_eq_append_conv2 Cons_eq_append_conv append_eq_Cons_conv)
    then show ?thesis using on eq i by (auto simp: it_on_def put_chain_def)
  qed
  then obtain us'' where "it_on (put_chain i (us @ vs) n t) it i' us'' kv' vs'" by blast
  then show ?thesis unfolding remaining_def using True tl rs by (auto intro!: exI)
qed (use rem in \<open>auto simp: remaining_def\<close>)

definition remove_post ::
    "'v HashTableRecord \<Rightarrow> HTKey_t \<Rightarrow> malloc_state \<Rightarrow>
       int \<times> 'v HashTableRecord \<times> 'v HTKeyValue option \<Rightarrow> malloc_state \<Rightarrow> bool" where
  "remove_post t k s = (\<lambda>(r, t', old) s'. grown s s' \<and> ht_wf t' (brk s')
     \<and> ht_map t' = (ht_map t)(k := None)
     \<and> (case ht_map t k of
          None \<Rightarrow> r = 0 \<and> old = None \<and> t' = t
        | Some v \<Rightarrow> r = 1 \<and> old = Some \<lparr>ht_key = k, ht_value = v\<rparr> \<and> Suc (ht_count t') = ht_count t
            \<and> (\<forall>it rs. remaining t it rs \<longrightarrow> k \<notin> ht_key ` set rs \<longrightarrow> remaining t' it rs)))"

lemma Remove_absent:
  assumes wf: "ht_wf t (brk s)" and nf: "no_failures s" and None: "ht_map t k = None"
  shows "wp (RemoveFromHashTable t k) (remove_post t k s) s"
  unfolding RemoveFromHashTable_def
proof (rule wp_locate [OF wf nf], goal_cases)
  case (1 s' j)
  have "find_node (buckets t ! bucket_of (num_buckets t) k) k = None"
    using None by (simp add: ht_map_def find_node_absent)
  then show ?case
    using 1 ht_wf_grown [OF wf] None by (auto simp: remove_post_def wp_simps)
qed

lemma Remove_present:
  assumes wf: "ht_wf t (brk s)" and nf: "no_failures s" and Some: "ht_map t k = Some v"
  shows "wp (RemoveFromHashTable t k) (remove_post t k s) s"
  unfolding RemoveFromHashTable_def
proof (rule wp_locate [OF wf nf], goal_cases)
  case (1 s' j)
  let ?i = "bucket_of (num_buckets t) k"
  let ?c = "buckets t ! ?i" and ?n = "ht_num_elements t - 1"
  have i: "?i < unat (num_buckets t)" using ht_wf_nb [OF wf] by simp
  have ok: "chain_ok ?c (brk s)" using ht_wf_chain [OF wf] by (simp add: chain_wf_def)
  have "chain_map ?c k = Some v" using Some by (simp add: ht_map_def)
  from find_node_present [OF this ok] obtain us a old vs where f: "find_node ?c k = Some a"
    and c: "?c = us @ (a, old) # vs" "ht_key old = k" "ht_value old = v" "a \<notin> fst ` set us"
    by metis
  have del: "chain_delete a ?c = us @ vs" using c by (simp add: chain_delete_mid)
  have wf': "ht_wf t (brk s')" using ht_wf_grown [OF wf] 1 by simp
  have pos: "0 < ht_count t" using chain_length_le [OF wf, of k] c(1) by simp
  then have n: "Suc (unat ?n) = ht_count t"
    using ht_wf_ne [OF wf] by (metis Suc_pred' unat_minus_one unsigned_0 less_numeral_extra(3))
  then have put: "ht_wf (put_chain ?i (us @ vs) ?n t) (brk s')"
    using ht_wf_put [OF wf' _ i] chain_wf_remove [of _ _ _ us a old vs] ht_wf_chain [OF wf', of k] c by simp
  have "distinct (map (ht_key \<circ> snd) (us @ (a, old) # vs))"
    using ht_wf_chain [OF wf, of k] c(1) by (simp add: chain_wf_def)
  from chain_map_distinct(1) [OF this]
  have map: "ht_map (put_chain ?i (us @ vs) ?n t) = (ht_map t)(k := None)"
    by (intro ht_map_put_upd [OF wf]) (simp add: c(1,2))
  have "Suc (ht_count (put_chain ?i (us @ vs) ?n t)) = ht_count t"
    using ht_count_put [OF wf i, of "us @ vs" ?n] c(1) by simp
  moreover have "remaining (put_chain ?i (us @ vs) ?n t) it rs"
    if "remaining t it rs" "k \<notin> ht_key ` set rs" for it rs
    using remaining_removed [OF wf c(1)] c(2) that i wf by (simp add: ht_wf_def)
  ultimately show ?case
    using 1 put map Some c(2,3)
    by (auto simp: f wp_simps node_payload_mid [OF c(1,4)] del remove_post_def set_chain_put(1))
qed

lemma Remove_spec:
  assumes "ht_wf t (brk s)" and "no_failures s"
  shows "wp (RemoveFromHashTable t k) (remove_post t k s) s"
  using Remove_absent [OF assms] Remove_present [OF assms] by (cases "ht_map t k") auto

lemma remaining_suffix:
  assumes "remaining t it rs"
  shows "\<exists>ps. entries t = ps @ rs"
proof (cases "is_valid it")
  case True
  with assms obtain i us kv vs where on: "it_on t it i us kv vs"
    and rs: "rs = kv # map snd vs @ tail_entries t (Suc i)" by (auto simp: remaining_def)
  have i: "i < length (buckets t)" using on by (simp add: it_on_def)
  have "entries t = concat (map (map snd) (take i (buckets t) @ buckets t ! i # drop (Suc i) (buckets t)))"
    by (simp add: entries_def id_take_nth_drop [OF i, symmetric])
  then have "entries t = (concat (map (map snd) (take i (buckets t))) @ map snd us) @ rs"
    using on by (simp add: rs tail_entries_def it_on_def)
  then show ?thesis by blast
qed (use assms in \<open>simp add: remaining_def\<close>)

lemma HTIteratorDelete_spec:
  assumes wf: "ht_wf t (brk s)" and rem: "remaining t it (r # rs)" and nf: "no_failures s"
  shows "wp (HTIteratorDelete t it)
     (\<lambda>(res, t', it', old) s'. grown s s' \<and> res = (if rs = [] then 2 else 1) \<and> old = Some r
        \<and> ht_wf t' (brk s') \<and> ht_map t' = (ht_map t)(ht_key r := None) \<and> remaining t' it' rs) s"
proof -
  obtain ps where ps: "entries t = ps @ r # rs" using remaining_suffix [OF rem] by blast
  have key: "ht_key r \<notin> ht_key ` set rs" using entries_distinct [OF wf] by (simp add: ps)
  have here: "ht_map t (ht_key r) = Some (ht_value r)"
    using kv_map_mem [OF entries_distinct [OF wf]] by (auto simp: ht_map_entries [OF wf] ps)
  have run: "HTIteratorDelete t it = bnd (HTIteratorNext t it) (\<lambda>(res, it').
      bnd (RemoveFromHashTable t (ht_key r)) (\<lambda>(res', t', kv').
      bnd (Verify333 (res' = 1)) (\<lambda>_.
      case kv' of None \<Rightarrow> fail MemFault
      | Some kv' \<Rightarrow> bnd (Verify333 (ht_key r = ht_key kv')) (\<lambda>_.
          bnd (Verify333 (ht_value r = ht_value kv')) (\<lambda>_.
          ret (if res = 0 then 2 else 1, t', it', Some kv'))))))"
    by (simp add: HTIteratorDelete_def HTGet_spec [OF wf rem] Let_def)
  show ?thesis
    unfolding run wp_bnd [of "HTIteratorNext t it"]
  proof (rule wp_mono [OF HTNext_spec [OF wf rem nf]], goal_cases)
    case (1 x s1)
    obtain res it' where x: "x = (res, it')" by (cases x)
    have g1: "grown s s1" and rem1: "remaining t it' rs" and res: "res = (if rs = [] then 0 else 1)"
      using 1 by (simp_all add: x)
    have nf1: "no_failures s1" using g1 by (simp add: grown_def)
    show ?case
      unfolding x prod.case wp_bnd [of "RemoveFromHashTable _ _"]
      by (rule wp_mono [OF Remove_spec [OF ht_wf_grown [OF wf g1] nf1]])
        (use g1 rem1 key here in \<open>auto simp: remove_post_def wp_simps res intro: grown_trans\<close>)
  qed
qed

section \<open>The interface of a finite map\<close>

text \<open>
  What the clients of the table rely on, whatever the representation: \<open>valid\<close> is the invariant
  under the allocator state, \<open>contents\<close> the map, \<open>size_of\<close> the number of keys.
\<close>

locale finite_map_table =
  fixes valid :: "'t \<Rightarrow> malloc_state \<Rightarrow> bool"
    and contents :: "'t \<Rightarrow> 'k \<Rightarrow> 'v option"
    and size_of :: "'t \<Rightarrow> nat"
    and cap :: nat
    and look :: "'t \<Rightarrow> 'k \<Rightarrow> 'v option ht_cmd"
    and ins :: "'t \<Rightarrow> 'k \<Rightarrow> 'v \<Rightarrow> 't ht_cmd"
    and del :: "'t \<Rightarrow> 'k \<Rightarrow> 't ht_cmd"
  assumes look: "valid t s \<Longrightarrow> wp (look t k) (\<lambda>r s'. r = contents t k \<and> valid t s') s"
    and ins: "valid t s \<Longrightarrow> size_of t + 1 < cap \<Longrightarrow>
      wp (ins t k v) (\<lambda>t' s'. valid t' s' \<and> contents t' = (contents t)(k \<mapsto> v)) s"
    and del: "valid t s \<Longrightarrow> wp (del t k) (\<lambda>t' s'. valid t' s' \<and> contents t' = (contents t)(k := None)) s"
    and size: "valid t s \<Longrightarrow> finite (dom (contents t)) \<and> size_of t = card (dom (contents t))"
begin

primrec ins_all :: "('k \<times> 'v) list \<Rightarrow> 't \<Rightarrow> 't ht_cmd" where
  "ins_all [] t = ret t"
| "ins_all (kv # kvs) t = bnd (ins t (fst kv) (snd kv)) (ins_all kvs)"

lemma size_ins:
  assumes "valid t s" and "valid t' s'" and "contents t' = (contents t)(k \<mapsto> v)"
  shows "size_of t' \<le> Suc (size_of t)"
  using size [OF assms(1)] size [OF assms(2)] assms(3) by (simp add: card_insert_if)

lemma ins_all_spec:
  "valid t s \<Longrightarrow> size_of t + length kvs < cap \<Longrightarrow>
     wp (ins_all kvs t) (\<lambda>t' s'. valid t' s' \<and> contents t' = contents t ++ map_of (rev kvs)) s"
proof (induction kvs arbitrary: t s)
  case (Cons kv kvs)
  have "size_of t + 1 < cap" using Cons.prems(2) by simp
  show ?case
    unfolding ins_all.simps wp_bnd
  proof (rule wp_mono [OF ins [OF Cons.prems(1) \<open>size_of t + 1 < cap\<close>]], goal_cases)
    case (1 t' s')
    then have "size_of t' + length kvs < cap" using size_ins [OF Cons.prems(1), of t' s'] Cons.prems(2) by fastforce
    from 1 have "wp (ins_all kvs t') (\<lambda>t'' s''. valid t'' s'' \<and> contents t'' = contents t' ++ map_of (rev kvs)) s'"
      by (intro Cons.IH) (use \<open>size_of t' + length kvs < cap\<close> in auto)
    then show ?case
      by (rule wp_mono) (use 1 in \<open>auto simp: map_add_def fun_eq_iff split: option.splits\<close>)
  qed
qed (simp add: wp_simps)

lemma ins_del_look:
  assumes "valid t s" and "size_of t + 1 < cap"
  shows "wp (bnd (ins t k v) (\<lambda>t. bnd (del t k) (\<lambda>t. look t k'))) (\<lambda>r s'. r = (if k' = k then None else contents t k')) s"
  unfolding wp_bnd
  by (rule wp_mono [OF ins [OF assms]], rule wp_mono [OF del], blast, rule wp_mono [OF look], blast) auto

end

definition ht_look :: "'v HashTableRecord \<Rightarrow> HTKey_t \<Rightarrow> 'v option ht_cmd" where
  "ht_look t k = bnd (LookupHashTable t k) (\<lambda>(r, kv). ret (map_option ht_value kv))"

definition ht_ins :: "'v HashTableRecord \<Rightarrow> HTKey_t \<Rightarrow> 'v \<Rightarrow> 'v HashTableRecord ht_cmd" where
  "ht_ins t k v = bnd (InsertHashTable t \<lparr>ht_key = k, ht_value = v\<rparr>) (\<lambda>(r, t', old). ret t')"

definition ht_del :: "'v HashTableRecord \<Rightarrow> HTKey_t \<Rightarrow> 'v HashTableRecord ht_cmd" where
  "ht_del t k = bnd (RemoveFromHashTable t k) (\<lambda>(r, t', old). ret t')"

definition ht_valid :: "'v HashTableRecord \<Rightarrow> malloc_state \<Rightarrow> bool" where
  "ht_valid t s \<longleftrightarrow> ht_wf t (brk s) \<and> no_failures s"

lemma ht_valid_grown: "ht_valid t s \<Longrightarrow> grown s s' \<Longrightarrow> ht_valid t s'"
  using ht_wf_grown [of t s s'] by (simp add: ht_valid_def grown_def)

interpretation ht: finite_map_table ht_valid ht_map ht_count "2 ^ 32" ht_look ht_ins ht_del
proof (unfold_locales, goal_cases)
  case (1 t s k)
  then show ?case
    unfolding ht_look_def wp_bnd
    by (intro wp_mono [OF Lookup_spec])
      (auto simp: wp_simps ht_valid_def split: option.splits dest: ht_wf_grown simp: grown_def)
next
  case (2 t s k v)
  then show ?case
    unfolding ht_ins_def wp_bnd
    by (intro wp_mono [OF Insert_spec]) (auto simp: wp_simps ht_valid_def insert_post_def grown_def)
next
  case (3 t s k)
  then show ?case
    unfolding ht_del_def wp_bnd
    by (intro wp_mono [OF Remove_spec]) (auto simp: wp_simps ht_valid_def remove_post_def grown_def)
next
  case (4 t s)
  then show ?case using ht_count_card by (auto simp: ht_valid_def)
qed

section \<open>The hash function\<close>

lemma FNV_prime_inverse: "(0xce965057aff6957b :: 64 word) * FNV_64_PRIME = 1"
  by (simp add: FNV_64_PRIME_def)

lemma FNV_mult_inj: "x * FNV_64_PRIME = y * FNV_64_PRIME \<longleftrightarrow> x = y"
proof
  have inv: "z * FNV_64_PRIME * 0xce965057aff6957b = z" for z
  proof -
    have "z * FNV_64_PRIME * 0xce965057aff6957b = z * (0xce965057aff6957b * FNV_64_PRIME)"
      by (simp only: mult.assoc mult.commute [of FNV_64_PRIME "0xce965057aff6957b"])
    then show ?thesis by (simp only: FNV_prime_inverse mult_1_right)
  qed
  assume "x * FNV_64_PRIME = y * FNV_64_PRIME"
  then show "x = y" by (metis inv)
qed simp

lemma xor_right_cancel: "(a XOR c = b XOR c) \<longleftrightarrow> (a = (b :: 64 word))"
proof
  assume "a XOR c = b XOR c"
  then have "(a XOR c) XOR c = (b XOR c) XOR c" by simp
  then show "a = b" by (simp add: xor.assoc)
qed simp

lemma unat_octet: "unat (ucast (a :: 8 word) :: 64 word) = unat a"
  by (simp add: unsigned_ucast_eq take_bit_nat_eq_self order_less_trans [OF unsigned_less])

lemma FNV_step_state: "FNV_step h a = FNV_step h' a \<longleftrightarrow> h = h'"
  by (simp add: FNV_step_def FNV_mult_inj xor_right_cancel)

lemma FNV_step_octet: "FNV_step h a = FNV_step h b \<longleftrightarrow> a = b"
proof
  assume "FNV_step h a = FNV_step h b"
  then have "ucast a XOR h = ucast b XOR h" by (simp add: FNV_step_def FNV_mult_inj xor.commute)
  then show "a = b" using unat_octet [of a] unat_octet [of b] by (simp add: xor_right_cancel word_unat_eq_iff [of a])
qed simp

lemma FNVHash64_loop_state: "FNVHash64_loop h xs = FNVHash64_loop h' xs \<longleftrightarrow> h = h'"
  by (induction xs arbitrary: h h') (simp_all add: FNV_step_state)

lemma FNVHash64_loop_append:
  "FNVHash64_loop h (xs @ ys) = FNVHash64_loop (FNVHash64_loop h xs) ys"
  by (induction xs arbitrary: h) simp_all

lemma fnv_hash_octet_eq: "FNVHash64 (pre @ a # rest) = FNVHash64 (pre @ b # rest) \<longleftrightarrow> a = b"
  by (simp add: FNVHash64_def FNVHash64_loop_append FNVHash64_loop_state FNV_step_octet)

text \<open>
  \<open>FNVHash64\<close> tells apart any two buffers that differ in exactly one octet: two equal-length
  buffers with a common prefix and a common rest have the same hash only if they are equal.
\<close>

theorem fnv_hash_single_octet:
  "FNVHash64 (pre @ a # rest) = FNVHash64 (pre @ b # rest) \<longleftrightarrow> a = b"
  by (rule fnv_hash_octet_eq)

text \<open>The octets \<open>FNVHashInt64\<close> hashes are the little-endian octets of its argument.\<close>

lemma FNVHashInt64_buf_value:
  "foldr (\<lambda>b v. unat b + 256 * v) (FNVHashInt64_buf n x) 0 = unat x mod 256 ^ n"
proof (induction n arbitrary: x)
  case (Suc n)
  have "unat (ucast (x AND 0xFF) :: 8 word) = unat x mod 256"
  proof -
    have "x AND 0xFF = take_bit 8 x" by (simp add: take_bit_eq_mask mask_eq_exp_minus_1)
    then show ?thesis by (simp add: unsigned_ucast_eq unsigned_take_bit_eq take_bit_eq_mod unat_mod)
  qed
  moreover have "unat (drop_bit 8 x) = unat x div 256"
    by (simp add: unsigned_drop_bit_eq drop_bit_eq_div unat_div)
  ultimately show ?case
    using Suc.IH [of "drop_bit 8 x"] by (simp add: mod_mult2_eq mult.commute)
qed simp

lemma FNVHashInt64_buf_length [simp]: "length (FNVHashInt64_buf n x) = n"
  by (induction n arbitrary: x) simp_all

lemma FNVHashInt64_octets: "foldr (\<lambda>b v. unat b + 256 * v) (FNVHashInt64_buf 8 x) 0 = unat x"
proof -
  have "unat x < 256 ^ 8" using unsigned_less [of x, where 'a = nat] by simp
  then show ?thesis unfolding FNVHashInt64_buf_value by (rule mod_less)
qed

section \<open>Properties\<close>

text \<open>A small table used as the witness: three buckets, one entry with key 4.\<close>

definition ht_example :: "nat HashTableRecord" where
  "ht_example = \<lparr>num_buckets = 3, ht_num_elements = 1,
     buckets = [[], [(7, \<lparr>ht_key = 4, ht_value = 40\<rparr>)], []]\<rparr>"

definition ms_example :: malloc_state where
  "ms_example = \<lparr>brk = 20, outcomes = []\<rparr>"

lemma ht_example_wf:
  "ht_wf ht_example (brk ms_example)" "no_failures ms_example" "ht_count ht_example = 1"
  by (auto simp: ht_example_def ms_example_def ht_wf_def chain_wf_def chain_ok_def entries_def
      bucket_of_def no_failures_def nth_Cons' ht_count_def)

lemma ht_example_map: "ht_map ht_example = [4 \<mapsto> 40]"
  by (auto simp: ht_map_entries [OF ht_example_wf(1)] fun_eq_iff) (auto simp: ht_example_def entries_def)

text \<open>
  C5: on a well-formed table and with memory available, \<open>InsertHashTable\<close> returns, the new table is
  well formed and stands for the old map with the new binding, the return value and the pair stored
  in \<open>oldkeyvalue\<close> tell whether the key was there, and a later \<open>LookupHashTable\<close> of any key finds
  what the map says: growing the table on the way loses and duplicates nothing.
\<close>

theorem insert_lookup_hash_table:
  assumes "ht_wf t (brk s)" and "no_failures s" and "ht_count t + 1 < 2 ^ 32"
  shows "\<exists>t' s'. InsertHashTable t \<lparr>ht_key = k, ht_value = v\<rparr> s =
        Inr ((case ht_map t k of None \<Rightarrow> (1, t', None) | Some w \<Rightarrow> (2, t', Some \<lparr>ht_key = k, ht_value = w\<rparr>)), s')
      \<and> ht_wf t' (brk s') \<and> no_failures s' \<and> ht_map t' = (ht_map t)(k \<mapsto> v)
      \<and> unat (NumElementsInHashTable t') = card (dom (ht_map t'))
      \<and> (\<forall>j. \<exists>s''. LookupHashTable t' j s' =
          Inr ((case ((ht_map t)(k \<mapsto> v)) j of None \<Rightarrow> (0, None)
                | Some w \<Rightarrow> (1, Some \<lparr>ht_key = j, ht_value = w\<rparr>)), s''))"
proof -
  from Insert_spec [OF assms, of "\<lparr>ht_key = k, ht_value = v\<rparr>"] obtain t' s' where
    run: "InsertHashTable t \<lparr>ht_key = k, ht_value = v\<rparr> s =
        Inr ((case ht_map t k of None \<Rightarrow> (1, t', None) | Some w \<Rightarrow> (2, t', Some \<lparr>ht_key = k, ht_value = w\<rparr>)), s')"
    and wf: "ht_wf t' (brk s')" and nf: "no_failures s'" and map: "ht_map t' = (ht_map t)(k \<mapsto> v)"
    by (fastforce simp: wp_iff insert_post_def grown_def split: option.splits)
  moreover have "\<exists>s''. LookupHashTable t' j s' =
        Inr ((case ((ht_map t)(k \<mapsto> v)) j of None \<Rightarrow> (0, None)
              | Some w \<Rightarrow> (1, Some \<lparr>ht_key = j, ht_value = w\<rparr>)), s'')" for j
    using Lookup_spec [OF wf nf, of j] unfolding map wp_iff by auto
  moreover have "unat (NumElementsInHashTable t') = card (dom (ht_map t'))"
    by (simp add: NumElementsInHashTable_def ht_wf_ne [OF wf] ht_count_card [OF wf])
  ultimately show ?thesis by blast
qed

theorem insert_lookup_hash_table_witness:
  "\<exists>t' s'. InsertHashTable ht_example \<lparr>ht_key = 7, ht_value = 70\<rparr> ms_example = Inr ((1, t', None), s')
      \<and> ht_map t' = [4 \<mapsto> 40, 7 \<mapsto> 70]"
  using insert_lookup_hash_table [OF ht_example_wf(1,2), of 7 70]
  by (auto simp: ht_example_wf(3) ht_example_map)

text \<open>
  C6: \<open>RemoveFromHashTable\<close> returns 1 with the stored pair and unbinds the key when it is present,
  returns 0 and leaves the table as it is when it is absent, and keeps the table well formed.
\<close>

theorem remove_from_hash_table:
  assumes "ht_wf t (brk s)" and "no_failures s"
  shows "\<exists>t' s'. RemoveFromHashTable t k s =
        Inr ((case ht_map t k of None \<Rightarrow> (0, t, None) | Some w \<Rightarrow> (1, t', Some \<lparr>ht_key = k, ht_value = w\<rparr>)), s')
      \<and> ht_wf t' (brk s') \<and> ht_map t' = (ht_map t)(k := None)"
  using Remove_spec [OF assms, of k]
  by (fastforce simp: wp_iff remove_post_def split: option.splits)

theorem remove_from_hash_table_witness:
  "\<exists>t' s'. RemoveFromHashTable ht_example 4 ms_example = Inr ((1, t', Some \<lparr>ht_key = 4, ht_value = 40\<rparr>), s')
      \<and> ht_map t' = Map.empty"
  using remove_from_hash_table [OF ht_example_wf(1,2), of 4] by (auto simp: ht_example_map)

text \<open>The loop every client writes: read the entry under the iterator and advance until past the end.\<close>

fun iterate_all :: "nat \<Rightarrow> 'v HashTableRecord \<Rightarrow> HTIterRecord \<Rightarrow> 'v HTKeyValue list ht_cmd" where
  "iterate_all 0 t it = fail OutOfFuel"
| "iterate_all (Suc n) t it =
     (if HTIteratorPastEnd it \<noteq> 0 then ret []
      else bnd (HTIteratorGet t it) (\<lambda>(r, kv).
           case kv of None \<Rightarrow> fail MemFault
           | Some kv \<Rightarrow> bnd (HTIteratorNext t it) (\<lambda>(_, it').
               bnd (iterate_all n t it') (\<lambda>kvs. ret (kv # kvs)))))"

lemma kv_eta: "\<lparr>ht_key = ht_key kv, ht_value = ht_value kv\<rparr> = kv"
  by (cases kv) simp

lemma iterate_all_spec:
  "ht_wf t b \<Longrightarrow> remaining t it rs \<Longrightarrow> length rs < n \<Longrightarrow> no_failures s \<Longrightarrow>
     wp (iterate_all n t it) (\<lambda>r s'. r = rs \<and> grown s s') s"
proof (induction n arbitrary: it rs s)
  case (Suc n)
  show ?case
  proof (cases rs)
    case Nil
    then show ?thesis using Suc.prems HTPastEnd_spec [OF Suc.prems(1,2)] by (simp add: wp_simps)
  next
    case (Cons r rs')
    note rem = Suc.prems(2) [unfolded Cons]
    have step: "iterate_all (Suc n) t it = bnd (HTIteratorNext t it) (\<lambda>(_, it').
        bnd (iterate_all n t it') (\<lambda>kvs. ret (r # kvs)))"
      using HTPastEnd_spec [OF Suc.prems(1) rem] HTGet_spec [OF Suc.prems(1) rem] by simp
    show ?thesis
      unfolding step wp_bnd
    proof (rule wp_mono [OF HTNext_spec [OF Suc.prems(1) rem Suc.prems(4)]], goal_cases)
      case (1 x s1)
      obtain res it' where x: "x = (res, it')" by (cases x)
      have g: "grown s s1" "no_failures s1" "remaining t it' rs'" using 1 by (auto simp: x grown_def)
      show ?case
        unfolding x prod.case wp_bnd
        by (rule wp_mono [OF Suc.IH [OF Suc.prems(1) g(3) _ g(2)]])
          (use Suc.prems(3) Cons in \<open>auto simp: wp_simps intro: grown_trans [OF g(1)]\<close>)
    qed
  qed
qed simp

text \<open>
  C7: a loop from \<open>HashTableMakeIterator\<close> with \<open>HTIteratorGet\<close> and \<open>HTIteratorNext\<close> until
  \<open>HTIteratorPastEnd\<close> ends after as many rounds as there are elements and has then seen every binding of the
  table exactly once and nothing else.
\<close>

theorem iterator_visits_every_entry:
  assumes "ht_wf t (brk s)" and "no_failures s"
  shows "\<exists>kvs s'. bnd (HashTableMakeIterator t) (\<lambda>r. case r of None \<Rightarrow> fail MemFault
        | Some it \<Rightarrow> iterate_all (Suc (unat (NumElementsInHashTable t))) t it) s = Inr (kvs, s')
      \<and> distinct (map ht_key kvs) \<and> length kvs = unat (NumElementsInHashTable t)
      \<and> (\<forall>k v. ht_map t k = Some v \<longleftrightarrow> \<lparr>ht_key = k, ht_value = v\<rparr> \<in> set kvs)"
proof -
  let ?n = "Suc (unat (NumElementsInHashTable t))"
  have n: "unat (NumElementsInHashTable t) = length (entries t)"
    using ht_wf_ne [OF assms(1)] by (simp add: NumElementsInHashTable_def ht_count_def)
  have "wp (bnd (HashTableMakeIterator t) (\<lambda>r. case r of None \<Rightarrow> fail MemFault
        | Some it \<Rightarrow> iterate_all ?n t it)) (\<lambda>r s'. r = entries t) s"
    unfolding wp_bnd
    by (rule wp_mono [OF HTMakeIterator_spec [OF assms]])
      (use n in \<open>auto simp: grown_def simp del: iterate_all.simps
          intro!: wp_mono [OF iterate_all_spec [OF assms(1)]]\<close>)
  moreover have "ht_map t k = Some v \<longleftrightarrow> \<lparr>ht_key = k, ht_value = v\<rparr> \<in> set (entries t)" for k v
    by (auto simp: ht_map_entries [OF assms(1)] kv_map_mem [OF entries_distinct [OF assms(1)]]
        kv_eta intro: bexI [rotated])
  ultimately show ?thesis using entries_distinct [OF assms(1)] n by (auto simp: wp_iff)
qed

theorem iterator_visits_every_entry_witness:
  "\<exists>kvs s'. bnd (HashTableMakeIterator ht_example) (\<lambda>r. case r of None \<Rightarrow> fail MemFault
        | Some it \<Rightarrow> iterate_all (Suc (unat (NumElementsInHashTable ht_example))) ht_example it) ms_example
      = Inr (kvs, s') \<and> length kvs = 1"
  using iterator_visits_every_entry [OF ht_example_wf(1,2)]
  by (auto simp: NumElementsInHashTable_def ht_example_def)

text \<open>
  \<open>HTIteratorDelete\<close> removes exactly the entry under the iterator and returns it; the iterator
  stands on the entry that came next and has still the same entries to visit, in the new table. The
  result is 2 when the removed entry was the last one to visit and 1 otherwise.
\<close>

theorem iterator_delete_hash_table:
  assumes "ht_wf t (brk s)" and "remaining t it (r # rs)" and "no_failures s"
  shows "\<exists>t' it' s'. HTIteratorDelete t it s = Inr ((if rs = [] then 2 else 1, t', it', Some r), s')
      \<and> ht_wf t' (brk s') \<and> ht_map t' = (ht_map t)(ht_key r := None) \<and> remaining t' it' rs"
  using HTIteratorDelete_spec [OF assms] by (auto simp: wp_iff)

theorem iterator_delete_hash_table_witness:
  "\<exists>t' it' s'. HTIteratorDelete ht_example \<lparr>is_valid = True, bucket_num = 1, bucket_it = 7\<rparr> ms_example
        = Inr ((2, t', it', Some \<lparr>ht_key = 4, ht_value = 40\<rparr>), s') \<and> ht_map t' = Map.empty"
proof -
  have "remaining ht_example \<lparr>is_valid = True, bucket_num = 1, bucket_it = 7\<rparr> [\<lparr>ht_key = 4, ht_value = 40\<rparr>]"
    by (auto simp: remaining_def it_on_def ht_example_def tail_entries_def intro!: exI [of _ 1])
  from iterator_delete_hash_table [OF ht_example_wf(1) this ht_example_wf(2)]
  show ?thesis by (auto simp: ht_example_map)
qed

text \<open>
  when the second allocation of an insertion of a new key into an empty chain fails, the list node of
  the pair is never made, yet \<open>InsertHashTable\<close> returns 1 and counts the element: the pair is lost
  and the element count no longer matches the chains.
\<close>

theorem insert_loses_pair_on_failed_append:
  assumes "ht_wf t b" and "ht_num_elements t < 3 * num_buckets t"
    and "buckets t ! bucket_of (num_buckets t) (ht_key kv) = []"
    and "outcomes s = [True, False]" and "0 < brk s"
  shows "\<exists>s'. InsertHashTable t kv s = Inr ((1, t\<lparr>ht_num_elements := ht_num_elements t + 1\<rparr>, None), s')"
proof -
  let ?i = "ucast (ht_key kv mod ucast (num_buckets t)) :: HWSize_t"
  have i: "unat ?i = bucket_of (num_buckets t) (ht_key kv)" "num_buckets t \<noteq> 0"
    using assms(1) by (simp_all add: bucket_num_unat ht_wf_def)
  moreover have "unat ?i < length (buckets t)" using i assms(1) by (simp add: ht_wf_def)
  moreover have "(buckets t)[unat ?i := []] = buckets t" using assms(3) i by (metis list_update_id)
  ultimately show ?thesis
    using assms(2-5)
    by (simp add: InsertHashTable_def ResizeHashtable_def insert_into_def HashKeyToBucketNum_def
        chain_at_def FindKVInHashTable_def malloc_def chain_append_def bnd_def run_simps Verify333_def
        set_chain_def)
qed

theorem insert_loses_pair_on_failed_append_witness:
  "\<exists>s'. InsertHashTable ht_example \<lparr>ht_key = 3, ht_value = 30\<rparr> \<lparr>brk = 20, outcomes = [True, False]\<rparr>
      = Inr ((1, ht_example\<lparr>ht_num_elements := 2\<rparr>, None), s')"
  using insert_loses_pair_on_failed_append [OF ht_example_wf(1), of "\<lparr>ht_key = 3, ht_value = 30\<rparr>"
      "\<lparr>brk = 20, outcomes = [True, False]\<rparr>"]
  by (auto simp: ht_example_def bucket_of_def)

end
