(* ===== verification/DocTable.thy ===== *)
theory DocTable
  imports HashTable
begin

text \<open>
  The document table of uw\_cse333/hw/hw2/doctable.c: two hash tables, from document identifiers to
  names and from the FNV hash of a name to its identifier.  A C string is the list of its octets
  without the terminating zero.  Two names with the same hash share an entry of the second table,
  so the theorems name the absence of such a collision as a hypothesis.
\<close>

type_synonym cstring = "8 word list"
type_synonym DocID_t = "64 word"

record DocTableRecord =
  docid_to_docname :: "cstring HashTableRecord"
  docname_to_docid :: "DocID_t HashTableRecord"
  max_id :: DocID_t

definition AllocateDocTable :: "DocTableRecord ht_cmd" where
  "AllocateDocTable =
     bnd malloc (\<lambda>dt.
     bnd (Verify333 (dt \<noteq> NULL)) (\<lambda>_.
     bnd (AllocateHashTable 1024) (\<lambda>a.
     bnd (AllocateHashTable 1024) (\<lambda>b.
     case a of None \<Rightarrow> fail VerifyFailure
     | Some a \<Rightarrow> (case b of None \<Rightarrow> fail VerifyFailure
     | Some b \<Rightarrow> ret \<lparr>docid_to_docname = a, docname_to_docid = b, max_id = 0\<rparr>)))))"

text \<open>The values handed to \<open>free\<close>, in call order: the names, then the identifiers.\<close>

definition FreeDocTable :: "DocTableRecord \<Rightarrow> cstring list \<times> DocID_t list" where
  "FreeDocTable table = (FreeHashTable (docid_to_docname table), FreeHashTable (docname_to_docid table))"

definition DTNumDocsInDocTable :: "DocTableRecord \<Rightarrow> HWSize_t" where
  "DTNumDocsInDocTable table = NumElementsInHashTable (docid_to_docname table)"

definition DTLookupDocumentName :: "DocTableRecord \<Rightarrow> cstring \<Rightarrow> DocID_t ht_cmd" where
  "DTLookupDocumentName table docname =
     bnd (LookupHashTable (docname_to_docid table) (FNVHash64 docname)) (\<lambda>(res, kv).
     case kv of
       Some kv \<Rightarrow> if res = 1 then ret (ht_value kv) else ret 0
     | None \<Rightarrow> if res = 1 then fail MemFault else ret 0)"

definition DTLookupDocID :: "DocTableRecord \<Rightarrow> DocID_t \<Rightarrow> cstring option ht_cmd" where
  "DTLookupDocID table docid =
     bnd (Verify333 (docid \<noteq> 0)) (\<lambda>_.
     bnd (LookupHashTable (docid_to_docname table) docid) (\<lambda>(res, kv).
     case kv of
       Some kv \<Rightarrow> if res = 1 then ret (Some (ht_value kv)) else ret None
     | None \<Rightarrow> if res = 1 then fail MemFault else ret None))"

definition DTGetDocidTable :: "DocTableRecord \<Rightarrow> cstring HashTableRecord" where
  "DTGetDocidTable table = docid_to_docname table"

definition DTRegisterDocumentName :: "DocTableRecord \<Rightarrow> cstring \<Rightarrow> (DocID_t \<times> DocTableRecord) ht_cmd" where
  "DTRegisterDocumentName table docname =
     bnd malloc (\<lambda>docid.
     bnd malloc (\<lambda>doccopy.
     bnd (Verify333 (doccopy \<noteq> NULL)) (\<lambda>_.
     bnd (Verify333 (docid \<noteq> NULL)) (\<lambda>_.
     bnd (DTLookupDocumentName table docname) (\<lambda>res.
     if res \<noteq> 0 then ret (res, table)
     else
       let new_id = max_id table + 1 in
       bnd (InsertHashTable (docid_to_docname table) \<lparr>ht_key = new_id, ht_value = docname\<rparr>) (\<lambda>(r, names, _).
       bnd (Verify333 (r = 1)) (\<lambda>_.
       bnd (InsertHashTable (docname_to_docid table) \<lparr>ht_key = FNVHash64 docname, ht_value = new_id\<rparr>) (\<lambda>(r, ids, _).
       bnd (Verify333 (r = 1)) (\<lambda>_.
       ret (new_id, \<lparr>docid_to_docname = names, docname_to_docid = ids, max_id = new_id\<rparr>)))))))))) "

section \<open>Invariant\<close>

text \<open>
  Both tables are well formed, the identifiers in use are \<open>1 \<dots> max_id\<close>, and the second table
  maps exactly the hashes of the registered names to their identifiers.
\<close>

definition dt_names :: "DocTableRecord \<Rightarrow> DocID_t \<Rightarrow> cstring option" where
  "dt_names d = ht_map (docid_to_docname d)"

definition dt_ids :: "DocTableRecord \<Rightarrow> HTKey_t \<Rightarrow> DocID_t option" where
  "dt_ids d = ht_map (docname_to_docid d)"

definition dt_ok :: "DocTableRecord \<Rightarrow> malloc_state \<Rightarrow> bool" where
  "dt_ok d s \<longleftrightarrow> no_failures s \<and> ht_wf (docid_to_docname d) (brk s) \<and> ht_wf (docname_to_docid d) (brk s)
     \<and> (\<forall>i. dt_names d i \<noteq> None \<longleftrightarrow> 0 < i \<and> i \<le> max_id d)
     \<and> (\<forall>i n. dt_names d i = Some n \<longrightarrow> dt_ids d (FNVHash64 n) = Some i)
     \<and> (\<forall>k i. dt_ids d k = Some i \<longrightarrow> (\<exists>n. dt_names d i = Some n \<and> FNVHash64 n = k))
     \<and> unat (max_id d) = ht_count (docid_to_docname d) \<and> unat (max_id d) = ht_count (docname_to_docid d)"

lemma LookupDocumentName_spec:
  assumes "ht_wf (docname_to_docid d) (brk s)" and "no_failures s"
  shows "wp (DTLookupDocumentName d n) (\<lambda>r s'. grown s s' \<and>
      r = (case dt_ids d (FNVHash64 n) of None \<Rightarrow> 0 | Some i \<Rightarrow> i)) s"
  unfolding DTLookupDocumentName_def wp_bnd dt_ids_def
  by (rule wp_mono [OF Lookup_spec [OF assms]]) (auto simp: wp_simps split: option.splits)

lemma LookupDocID_spec:
  assumes "ht_wf (docid_to_docname d) (brk s)" and "no_failures s" and "i \<noteq> 0"
  shows "wp (DTLookupDocID d i) (\<lambda>r s'. grown s s' \<and> r = dt_names d i) s"
  using assms(3) unfolding DTLookupDocID_def wp_bnd [of "LookupHashTable _ _"] dt_names_def
  by (simp add: wp_bnd, intro wp_mono [OF Lookup_spec [OF assms(1,2)]]) (auto simp: wp_simps split: option.splits)

lemma dt_ok_grown: "dt_ok d s \<Longrightarrow> grown s s' \<Longrightarrow> dt_ok d s'"
  using ht_wf_grown [of "docid_to_docname d" s s'] ht_wf_grown [of "docname_to_docid d" s s']
  by (simp add: dt_ok_def grown_def)

lemma AllocateDocTable_spec:
  assumes "no_failures s"
  shows "wp AllocateDocTable (\<lambda>d s'. dt_ok d s' \<and> dt_names d = Map.empty) s"
proof -
  have nf: "no_failures (s\<lparr>brk := Suc (brk s)\<rparr>)" using assms by simp
  have "wp (AllocateHashTable 1024) (\<lambda>r. wp (AllocateHashTable 1024) (\<lambda>r' s'.
      r = Some (empty_table 1024 :: cstring HashTableRecord) \<and>
      r' = Some (empty_table 1024 :: DocID_t HashTableRecord) \<and> no_failures s')) (s\<lparr>brk := Suc (brk s)\<rparr>)"
    by (rule wp_mono [OF Allocate_spec [OF nf]], rule wp_mono [OF Allocate_spec]) (auto simp: grown_def)
  then have "wp (AllocateHashTable 1024) (\<lambda>r. wp (AllocateHashTable 1024) (\<lambda>r'. wp
      (case r of None \<Rightarrow> fail VerifyFailure
       | Some a \<Rightarrow> (case r' of None \<Rightarrow> fail VerifyFailure
       | Some b \<Rightarrow> ret \<lparr>docid_to_docname = a, docname_to_docid = b, max_id = 0\<rparr>))
      (\<lambda>d s'. dt_ok d s' \<and> dt_names d = Map.empty))) (s\<lparr>brk := Suc (brk s)\<rparr>)"
    by (rule wp_mono, elim wp_mono)
      (auto simp: wp_simps dt_ok_def empty_table_wf dt_names_def dt_ids_def word_gt_0)
  then show ?thesis
    using assms no_failures_brk [OF assms] by (simp add: AllocateDocTable_def wp_simps)
qed

lemma max_id_fresh:
  assumes "unat (max_id d) + 1 < 2 ^ 32"
  shows "unat (max_id d + 1) = unat (max_id d) + 1" and "0 < max_id d + 1"
    and "i \<le> max_id d + 1 \<longleftrightarrow> i \<le> max_id d \<or> i = max_id d + 1"
proof -
  show u: "unat (max_id d + 1) = unat (max_id d) + 1"
    using assms by (simp add: unat_plus_if_size word_size)
  show "0 < max_id d + 1" using u by (metis add_gr_0 unat_gt_0 word_neq_0_conv zero_less_one)
  show "i \<le> max_id d + 1 \<longleftrightarrow> i \<le> max_id d \<or> i = max_id d + 1"
    by (auto simp: word_le_nat_alt u word_unat_eq_iff [of i])
qed

lemma dt_ok_fresh:
  assumes "dt_ok d s" and "unat (max_id d) + 1 < 2 ^ 32"
  shows "dt_names d (max_id d + 1) = None" and "dt_ids d k \<noteq> Some (max_id d + 1)"
proof -
  have "\<not> max_id d + 1 \<le> max_id d" using max_id_fresh(1) [OF assms(2)] by (simp add: word_le_nat_alt)
  then show *: "dt_names d (max_id d + 1) = None" using assms(1) unfolding dt_ok_def by metis
  then show "dt_ids d k \<noteq> Some (max_id d + 1)"
    using assms(1) unfolding dt_ok_def by (metis option.distinct(1))
qed

text \<open>A new name: the invariant after the two insertions.\<close>

lemma dt_ok_insert:
  assumes ok: "dt_ok d s" and room: "unat (max_id d) + 1 < 2 ^ 32" and new: "dt_ids d (FNVHash64 n) = None"
    and g: "grown s s'"
    and names: "ht_wf names (brk s')" "ht_map names = (dt_names d)(max_id d + 1 \<mapsto> n)"
      "ht_count names = Suc (ht_count (docid_to_docname d))"
    and ids: "ht_wf ids (brk s')" "ht_map ids = (dt_ids d)(FNVHash64 n \<mapsto> max_id d + 1)"
      "ht_count ids = Suc (ht_count (docname_to_docid d))"
  shows "dt_ok \<lparr>docid_to_docname = names, docname_to_docid = ids, max_id = max_id d + 1\<rparr> s'"
proof -
  note m = max_id_fresh [OF room]
  note dt_ok_fresh [OF ok room]
  moreover have "FNVHash64 n' \<noteq> FNVHash64 n" if "dt_names d i = Some n'" for i n'
    using that ok new unfolding dt_ok_def by (metis option.distinct(1))
  ultimately show ?thesis
    using ok g names ids m(1,2) new
    by (auto simp: dt_ok_def dt_names_def [of "DocTableRecord_ext _ _ _ _"]
        dt_ids_def [of "DocTableRecord_ext _ _ _ _"] m(3) grown_def split: if_splits)
qed

definition registers :: "malloc_state \<Rightarrow> DocTableRecord \<Rightarrow> cstring \<Rightarrow> DocID_t \<times> DocTableRecord \<Rightarrow> malloc_state \<Rightarrow> bool" where
  "registers s d n = (\<lambda>(i, d') s'. grown s s' \<and> dt_ok d' s' \<and>
     (case dt_ids d (FNVHash64 n) of
        Some j \<Rightarrow> i = j \<and> d' = d
      | None \<Rightarrow> i = max_id d + 1 \<and> max_id d' = i \<and> dt_names d' = (dt_names d)(i \<mapsto> n)
          \<and> dt_ids d' = (dt_ids d)(FNVHash64 n \<mapsto> i)))"

lemma Register_spec:
  assumes ok: "dt_ok d s" and room: "unat (max_id d) + 1 < 2 ^ 32"
  shows "wp (DTRegisterDocumentName d n) (registers s d n) s"
proof -
  let ?s = "s\<lparr>brk := Suc (Suc (brk s))\<rparr>"
  have nf: "no_failures s" using ok by (simp add: dt_ok_def)
  have g0: "grown s ?s" using nf by (simp add: grown_def no_failures_def)
  have ok0: "dt_ok d ?s" by (rule dt_ok_grown [OF ok g0])
  have wf0: "ht_wf (docname_to_docid d) (brk ?s)" "no_failures ?s" using ok0 unfolding dt_ok_def by blast+
  have start: "wp (DTRegisterDocumentName d n) Q s = wp (bnd (DTLookupDocumentName d n) (\<lambda>res.
     if res \<noteq> 0 then ret (res, d)
     else
       bnd (InsertHashTable (docid_to_docname d) \<lparr>ht_key = max_id d + 1, ht_value = n\<rparr>) (\<lambda>(r, names, _).
       bnd (Verify333 (r = 1)) (\<lambda>_.
       bnd (InsertHashTable (docname_to_docid d) \<lparr>ht_key = FNVHash64 n, ht_value = max_id d + 1\<rparr>) (\<lambda>(r, ids, _).
       bnd (Verify333 (r = 1)) (\<lambda>_.
       ret (max_id d + 1, \<lparr>docid_to_docname = names, docname_to_docid = ids, max_id = max_id d + 1\<rparr>))))))) Q ?s" for Q
    using nf no_failures_brk [OF nf] by (simp add: DTRegisterDocumentName_def wp_bnd wp_malloc_ok Let_def wp_Verify333 wp_ret
        cong: if_cong)
  show ?thesis
    unfolding start wp_bnd [of "DTLookupDocumentName d n"]
  proof (rule wp_mono [OF LookupDocumentName_spec [OF wf0]], goal_cases)
    case (1 res s1)
    then have g1: "grown ?s s1" and ok1: "dt_ok d s1" using dt_ok_grown [OF ok0] by auto
    show ?case
    proof (cases "dt_ids d (FNVHash64 n)")
      case (Some i)
      then have "i \<noteq> 0" using ok by (fastforce simp: dt_ok_def)
      then show ?thesis using 1 Some ok1 grown_trans [OF g0 g1] by (simp add: wp_simps registers_def)
    next
      case None
      have c: "ht_count (docid_to_docname d) + 1 < 2 ^ 32" "ht_count (docname_to_docid d) + 1 < 2 ^ 32"
        using room ok by (auto simp: dt_ok_def)
      have wf1: "ht_wf (docid_to_docname d) (brk s1)" "ht_wf (docname_to_docid d) (brk s1)" and nf1: "no_failures s1"
        using ok1 by (auto simp: dt_ok_def)
      have fresh: "dt_names d (max_id d + 1) = None"
        by (rule dt_ok_fresh [OF ok room])
      have "wp (InsertHashTable (docid_to_docname d) \<lparr>ht_key = max_id d + 1, ht_value = n\<rparr>)
         (\<lambda>x s2. fst x = 1 \<and> wp (InsertHashTable (docname_to_docid d) \<lparr>ht_key = FNVHash64 n, ht_value = max_id d + 1\<rparr>)
           (\<lambda>y s'. fst y = 1 \<and> registers s d n (max_id d + 1,
              \<lparr>docid_to_docname = fst (snd x), docname_to_docid = fst (snd y), max_id = max_id d + 1\<rparr>) s') s2) s1"
      proof (rule wp_mono [OF Insert_spec [OF wf1(1) nf1 c(1)]], goal_cases)
        case (1 x s2)
        obtain r names old where x: "x = (r, names, old)" by (cases x)
        have n: "r = 1" "ht_wf names (brk s2)" "ht_map names = (dt_names d)(max_id d + 1 \<mapsto> n)"
            "ht_count names = Suc (ht_count (docid_to_docname d))" and g2: "grown s1 s2"
          using 1 fresh by (simp_all add: insert_post_def x dt_names_def)
        then have nf2: "no_failures s2" by (simp add: grown_def)
        show ?case
          unfolding x fst_conv snd_conv
        proof (intro conjI n(1), rule wp_mono [OF Insert_spec [OF ht_wf_grown [OF wf1(2) g2] nf2 c(2)]], goal_cases)
          case (1 y s3)
          obtain r' ids old' where y: "y = (r', ids, old')" by (cases y)
          have i: "r' = 1" "ht_wf ids (brk s3)" "ht_map ids = (dt_ids d)(FNVHash64 n \<mapsto> max_id d + 1)"
              "ht_count ids = Suc (ht_count (docname_to_docid d))" and g3: "grown s2 s3"
            using 1 None by (simp_all add: insert_post_def y dt_ids_def)
          have g: "grown s s3" using grown_trans [OF g0 grown_trans [OF g1 grown_trans [OF g2 g3]]] .
          from dt_ok_insert [OF ok room None g ht_wf_grown [OF n(2) g3] n(3,4) i(2-4)]
          show ?case using n i None g by (simp add: registers_def y dt_names_def dt_ids_def)
        qed
      qed
      then show ?thesis
        using 1 None by (simp add: wp_simps split_beta)
    qed
  qed
qed

section \<open>Properties\<close>

text \<open>
  registering a name returns an identifier under which \<open>DTLookupDocID\<close> finds that name and which
  \<open>DTLookupDocumentName\<close> returns for it; a name registered before keeps its identifier and leaves
  the table as it is, a new name gets the next one and every earlier name stays where it was.  The
  names hashed so far must not collide with the new one.
\<close>

theorem register_document_name:
  assumes "dt_ok d s" and "unat (max_id d) + 1 < 2 ^ 32"
    and "\<forall>i m. dt_names d i = Some m \<and> FNVHash64 m = FNVHash64 n \<longrightarrow> m = n"
  shows "\<exists>i d' s'. DTRegisterDocumentName d n s = Inr ((i, d'), s') \<and> dt_ok d' s' \<and> i \<noteq> 0
      \<and> dt_names d' = (dt_names d)(i \<mapsto> n)
      \<and> (if \<exists>j. dt_names d j = Some n then d' = d else i = max_id d + 1)
      \<and> (\<exists>s''. DTLookupDocID d' i s' = Inr (Some n, s''))
      \<and> (\<exists>s''. DTLookupDocumentName d' n s' = Inr (i, s''))"
proof -
  obtain i d' s' where run: "DTRegisterDocumentName d n s = Inr ((i, d'), s')" and r: "registers s d n (i, d') s'"
    using Register_spec [OF assms(1,2), of n] by (auto simp: wp_iff)
  have ok': "dt_ok d' s'" using r by (simp add: registers_def)
  then have wf: "ht_wf (docid_to_docname d') (brk s')" "ht_wf (docname_to_docid d') (brk s')" "no_failures s'"
    unfolding dt_ok_def by blast+
  have reg: "i \<noteq> 0 \<and> dt_names d' = (dt_names d)(i \<mapsto> n) \<and> dt_ids d' (FNVHash64 n) = Some i
      \<and> (if \<exists>j. dt_names d j = Some n then d' = d else i = max_id d + 1)"
  proof (cases "dt_ids d (FNVHash64 n)")
    case None
    then have "\<nexists>j. dt_names d j = Some n" using assms(1) unfolding dt_ok_def by (metis option.distinct(1))
    then show ?thesis using r None max_id_fresh(2) [OF assms(2)] by (simp add: registers_def word_gt_0)
  next
    case (Some j)
    then obtain m where "dt_names d j = Some m" "FNVHash64 m = FNVHash64 n" "0 < j"
      using assms(1) unfolding dt_ok_def by (metis option.distinct(1))
    then have "dt_names d j = Some n" using assms(3) by blast
    then show ?thesis using r Some \<open>0 < j\<close> by (auto simp: registers_def word_gt_0 fun_upd_idem)
  qed
  moreover have "\<exists>s''. DTLookupDocID d' i s' = Inr (Some n, s'')"
    using LookupDocID_spec [OF wf(1,3), of i] reg by (auto simp: wp_iff)
  moreover have "\<exists>s''. DTLookupDocumentName d' n s' = Inr (i, s'')"
    using LookupDocumentName_spec [OF wf(2,3), of n] reg by (auto simp: wp_iff)
  ultimately show ?thesis using run ok' by blast
qed

definition dt_example :: DocTableRecord where
  "dt_example = \<lparr>docid_to_docname = empty_table 2, docname_to_docid = empty_table 2, max_id = 0\<rparr>"

lemma dt_example_ok:
  "dt_ok dt_example ms_example" "dt_names dt_example = Map.empty" "max_id dt_example = 0"
  by (auto simp: dt_ok_def dt_example_def dt_names_def dt_ids_def empty_table_wf ht_example_wf(2) word_gt_0)

theorem register_document_name_witness:
  "\<exists>i d' s'. DTRegisterDocumentName dt_example [97, 98] ms_example = Inr ((i, d'), s')
      \<and> i = 1 \<and> dt_names d' = [1 \<mapsto> [97, 98]]"
  using register_document_name [OF dt_example_ok(1), of "[97, 98]"]
  by (auto simp: dt_example_ok(2,3))

text \<open>\<open>AllocateDocTable\<close> makes a table with no documents that satisfies the invariant.\<close>

theorem allocate_doc_table:
  assumes "no_failures s"
  shows "\<exists>d s'. AllocateDocTable s = Inr (d, s') \<and> dt_ok d s' \<and> DTNumDocsInDocTable d = 0"
proof -
  obtain d s' where "AllocateDocTable s = Inr (d, s')" "dt_ok d s'" "dt_names d = Map.empty"
    using AllocateDocTable_spec [OF assms] by (auto simp: wp_iff)
  moreover from this have "ht_count (docid_to_docname d) = 0"
    using ht_count_card(1) [of "docid_to_docname d" "brk s'"] by (simp add: dt_ok_def dt_names_def)
  ultimately show ?thesis
    using ht_wf_ne [of "docid_to_docname d" "brk s'"]
    by (auto simp: dt_ok_def DTNumDocsInDocTable_def NumElementsInHashTable_def unat_eq_0)
qed

theorem allocate_doc_table_witness:
  "\<exists>d s'. AllocateDocTable ms_example = Inr (d, s') \<and> DTNumDocsInDocTable d = 0"
  using allocate_doc_table [OF ht_example_wf(2)] by blast

end
