(* ===== verification/FileParser.thy ===== *)
theory FileParser
  imports DocTable
begin

text \<open>
  The word indexer of uw\_cse333/hw/hw2/fileparser.c.  The file content is a buffer of octets that
  ends with the zero \<open>ReadFile\<close> adds; \<open>LoopAndInsert\<close> lowers letters and writes string ends into
  it while it walks.  Pointers into the buffer are offsets.  A position list is the list of the
  payloads of its linked list; the \<open>malloc\<close> of its nodes can fail as everywhere.

  The result of \<open>ReadFile\<close>, NULL or the bytes of the file, is the argument of \<open>BuildWordHT\<close>; \<open>ReadFile\<close>
  itself is in the theory of the crawler, with the system calls.
\<close>

type_synonym DocPositionOffset_t = "32 word"

record WordPositions =
  wp_word :: cstring
  wp_positions :: "DocPositionOffset_t list"

section \<open>Characters\<close>

definition isalpha :: "8 word \<Rightarrow> bool" where
  "isalpha c \<longleftrightarrow> (65 \<le> c \<and> c \<le> 90) \<or> (97 \<le> c \<and> c \<le> 122)"

definition tolower :: "8 word \<Rightarrow> 8 word" where
  "tolower c = (if 65 \<le> c \<and> c \<le> 90 then c + 32 else c)"

section \<open>Writing through a value pointer\<close>

text \<open>
  A value of the table is reached through the pointer \<open>LookupHashTable\<close> returned and changed in
  place: the entry with that key changes its value, nothing else.
\<close>

definition update_value :: "HTKey_t \<Rightarrow> ('v \<Rightarrow> 'v) \<Rightarrow> 'v HashTableRecord \<Rightarrow> 'v HashTableRecord" where
  "update_value k f t = t\<lparr>buckets := map (map (\<lambda>(a, kv).
     (a, if ht_key kv = k then kv\<lparr>ht_value := f (ht_value kv)\<rparr> else kv))) (buckets t)\<rparr>"

section \<open>The parser\<close>

definition AddToHashtable ::
    "WordPositions HashTableRecord \<Rightarrow> cstring \<Rightarrow> DocPositionOffset_t \<Rightarrow> WordPositions HashTableRecord ht_cmd" where
  "AddToHashtable tab w pos =
     (let hashKey = FNVHash64 w in
      bnd (LookupHashTable tab hashKey) (\<lambda>(retval, kv).
      if retval = 1 then
        bnd malloc (\<lambda>ln.
        bnd (Verify333 (ln \<noteq> NULL)) (\<lambda>_.
        ret (update_value hashKey (\<lambda>e. e\<lparr>wp_positions := wp_positions e @ [pos]\<rparr>) tab)))
      else
        bnd malloc (\<lambda>newstr.
        bnd (if newstr = NULL then fail MemFault else ret ()) (\<lambda>_.
        bnd malloc (\<lambda>wp.
        bnd (if wp = NULL then fail MemFault else ret ()) (\<lambda>_.
        bnd malloc (\<lambda>ll.
        bnd (Verify333 (ll \<noteq> NULL)) (\<lambda>_.
        bnd malloc (\<lambda>ln.
        bnd (Verify333 (ln \<noteq> NULL)) (\<lambda>_.
        bnd (InsertHashTable tab \<lparr>ht_key = hashKey, ht_value = \<lparr>wp_word = w, wp_positions = [pos]\<rparr>\<rparr>) (\<lambda>(retval, tab', _).
        bnd (Verify333 (retval = 1)) (\<lambda>_.
        ret tab'))))))))))))"

definition char_at :: "cstring \<Rightarrow> nat \<Rightarrow> 8 word ht_cmd" where
  "char_at buf i = (if i < length buf then ret (buf ! i) else fail MemFault)"

text \<open>The C string that starts at an offset of the buffer.\<close>

definition cstr_at :: "cstring \<Rightarrow> nat \<Rightarrow> cstring" where
  "cstr_at buf i = takeWhile (\<lambda>c. c \<noteq> 0) (drop i buf)"

text \<open>
  The loop of \<open>LoopAndInsert\<close>; the first argument bounds the number of rounds, one per octet.
  The comparison \<open>curptr == '\0'\<close> compares the pointer with NULL and is never true, so \<open>ended\<close>
  stays false.
\<close>

fun LoopAndInsert_loop ::
    "nat \<Rightarrow> WordPositions HashTableRecord \<Rightarrow> cstring \<Rightarrow> nat \<Rightarrow> nat \<Rightarrow> WordPositions HashTableRecord ht_cmd" where
  "LoopAndInsert_loop 0 tab buf curptr wordstart = fail OutOfFuel"
| "LoopAndInsert_loop (Suc n) tab buf curptr wordstart =
     bnd (char_at buf curptr) (\<lambda>c.
     if c = 0 then ret tab
     else if isalpha c then LoopAndInsert_loop n tab (buf[curptr := tolower c]) (curptr + 1) wordstart
     else
       bnd (char_at buf wordstart) (\<lambda>w.
       if isalpha w then
         let buf' = buf[curptr := 0] in
         bnd (AddToHashtable tab (cstr_at buf' wordstart) (of_nat wordstart)) (\<lambda>tab'.
         LoopAndInsert_loop n tab' buf' (curptr + 1) (curptr + 1))
       else LoopAndInsert_loop n tab buf (curptr + 1) (curptr + 1)))"

definition LoopAndInsert :: "WordPositions HashTableRecord \<Rightarrow> cstring \<Rightarrow> WordPositions HashTableRecord ht_cmd" where
  "LoopAndInsert tab content = LoopAndInsert_loop (length content) tab content 0 0"

text \<open>
  \<open>file\<close> is what \<open>ReadFile\<close> gives: \<open>None\<close> for NULL, else the octets of the file, to which it adds
  the terminating zero.
\<close>

definition BuildWordHT :: "cstring option \<Rightarrow> WordPositions HashTableRecord option ht_cmd" where
  "BuildWordHT file =
     (case file of
        None \<Rightarrow> ret None
      | Some filecontent \<Rightarrow>
          if length filecontent = 0 then ret None
          else if \<exists>c \<in> set filecontent. c = 0 \<or> 0x7F < c then ret None
          else
            bnd (AllocateHashTable 64) (\<lambda>tab.
            case tab of None \<Rightarrow> fail MemFault
            | Some tab \<Rightarrow>
              bnd (LoopAndInsert tab (filecontent @ [0])) (\<lambda>tab.
              if NumElementsInHashTable tab = 0 then ret None else ret (Some tab))))"

definition FreeWordHT :: "WordPositions HashTableRecord \<Rightarrow> WordPositions list" where
  "FreeWordHT table = FreeHashTable table"

section \<open>The reference: the words of a text\<close>

text \<open>
  The maximal runs of letters that are followed by another character, lower case, each with the
  offset of its first letter.  \<open>run\<close> holds the letters of the current run, the last one first.
\<close>

fun words_of :: "nat \<Rightarrow> cstring \<Rightarrow> cstring \<Rightarrow> (cstring \<times> nat) list" where
  "words_of i run [] = []"
| "words_of i run (c # cs) =
     (if isalpha c then words_of (Suc i) (tolower c # run) cs
      else (if run = [] then [] else [(rev run, i - length run)]) @ words_of (Suc i) [] cs)"

definition occurrences :: "(cstring \<times> nat) list \<Rightarrow> cstring \<Rightarrow> DocPositionOffset_t list" where
  "occurrences ws w = map (of_nat \<circ> snd) (filter (\<lambda>p. fst p = w) ws)"

section \<open>In-place updates\<close>

lemma update_value_entries:
  "entries (update_value k f t) = map (\<lambda>kv. if ht_key kv = k then kv\<lparr>ht_value := f (ht_value kv)\<rparr> else kv) (entries t)"
  by (simp add: entries_def update_value_def map_concat comp_def split_beta)

lemma update_value_wf:
  assumes "ht_wf t b"
  shows "ht_wf (update_value k f t) b"
proof -
  let ?g = "\<lambda>(a, kv). (a, if ht_key kv = k then kv\<lparr>ht_value := f (ht_value kv)\<rparr> else kv)"
  have g: "chain_wf nb b i (map ?g c)" if "chain_wf nb b i c" for nb i c
  proof -
    have "map fst (map ?g c) = map fst c" "map (ht_key \<circ> snd) (map ?g c) = map (ht_key \<circ> snd) c"
      by (auto simp: split_beta)
    moreover have "fst ` set (map ?g c) = fst ` set c" by (force simp: split_beta)
    moreover have "(\<forall>kv \<in> snd ` set (map ?g c). bucket_of nb (ht_key kv) = i)"
      using that by (auto simp: chain_wf_def)
    ultimately show ?thesis using that by (simp only: chain_wf_def chain_ok_def length_map) blast
  qed
  have "length (entries (update_value k f t)) = length (entries t)" by (simp add: update_value_entries)
  then show ?thesis using assms g by (auto simp: ht_wf_def update_value_def)
qed

lemma update_value_map:
  assumes "ht_wf t b"
  shows "ht_map (update_value k f t) k' = (if k' = k then map_option f (ht_map t k) else ht_map t k')"
proof -
  have "kv_map (map (\<lambda>kv. if ht_key kv = k then kv\<lparr>ht_value := f (ht_value kv)\<rparr> else kv) es) k' =
      (if k' = k then map_option f (kv_map es k) else kv_map es k')" for es
    by (induction es) auto
  then show ?thesis
    unfolding ht_map_entries [OF assms] ht_map_entries [OF update_value_wf [OF assms]] update_value_entries .
qed

lemma update_value_count [simp]: "ht_count (update_value k f t) = ht_count t"
  by (simp add: ht_count_def update_value_entries)

section \<open>Adding a word\<close>

definition add_post ::
    "WordPositions HashTableRecord \<Rightarrow> cstring \<Rightarrow> DocPositionOffset_t \<Rightarrow> malloc_state \<Rightarrow>
       WordPositions HashTableRecord \<Rightarrow> malloc_state \<Rightarrow> bool" where
  "add_post t w pos s t' s' \<longleftrightarrow> grown s s' \<and> ht_wf t' (brk s')
     \<and> ht_map t' = (ht_map t)(FNVHash64 w \<mapsto>
          (case ht_map t (FNVHash64 w) of None \<Rightarrow> \<lparr>wp_word = w, wp_positions = [pos]\<rparr>
           | Some e \<Rightarrow> e\<lparr>wp_positions := wp_positions e @ [pos]\<rparr>))"

lemma AddToHashtable_spec:
  assumes wf: "ht_wf t (brk s)" and nf: "no_failures s" and room: "ht_count t + 1 < 2 ^ 32"
  shows "wp (AddToHashtable t w pos) (add_post t w pos s) s"
  unfolding AddToHashtable_def Let_def wp_bnd [of "LookupHashTable _ _"]
proof (rule wp_mono [OF Lookup_spec [OF wf nf]], goal_cases)
  case (1 x s1)
  then have g: "grown s s1" and nf1: "no_failures s1" by (auto simp: grown_def)
  show ?case
  proof (cases "ht_map t (FNVHash64 w)")
    case None
    let ?s = "s1\<lparr>brk := Suc (Suc (Suc (Suc (brk s1))))\<rparr>"
    have s: "no_failures ?s" "grown s1 ?s" using nf1 by (auto simp: grown_def no_failures_def)
    have g': "grown s ?s" by (rule grown_trans [OF g s(2)])
    have "wp (InsertHashTable t \<lparr>ht_key = FNVHash64 w, ht_value = \<lparr>wp_word = w, wp_positions = [pos]\<rparr>\<rparr>)
        (\<lambda>y s'. fst y = 1 \<and> add_post t w pos s (fst (snd y)) s') ?s"
      by (rule wp_mono [OF Insert_spec [OF ht_wf_grown [OF wf g'] s(1) room]])
        (auto simp: insert_post_def None add_post_def intro: grown_trans [OF g'])
    then show ?thesis
      using 1 None nf1 s by (simp add: wp_simps split_beta no_failures_def)
  next
    case (Some wp0)
    have "ht_map (update_value (FNVHash64 w) f t) = (ht_map t)(FNVHash64 w \<mapsto> f wp0)" for f
      by (rule ext) (simp add: update_value_map [OF wf] Some)
    moreover have "grown s (s1\<lparr>brk := Suc (brk s1)\<rparr>)" by (rule grown_trans [OF g]) (simp add: nf1)
    moreover from this have "ht_wf t (brk (s1\<lparr>brk := Suc (brk s1)\<rparr>))" by (rule ht_wf_grown [OF wf])
    ultimately show ?thesis
      using 1 Some nf1 no_failures_brk [OF nf1] update_value_wf
      by (auto simp: wp_simps split_beta add_post_def)
  qed
qed

section \<open>The loop adds exactly the words of the text\<close>

fun add_words ::
    "WordPositions HashTableRecord \<Rightarrow> (cstring \<times> nat) list \<Rightarrow> WordPositions HashTableRecord ht_cmd" where
  "add_words t [] = ret t"
| "add_words t ((w, p) # ws) = bnd (AddToHashtable t w (of_nat p)) (\<lambda>t'. add_words t' ws)"

lemma isalpha_nonzero: "isalpha c \<Longrightarrow> c \<noteq> 0"
  by (auto simp: isalpha_def word_le_nat_alt)

lemma isalpha_tolower: "isalpha c \<Longrightarrow> isalpha (tolower c)"
proof -
  have "65 \<le> c \<Longrightarrow> c \<le> 90 \<Longrightarrow> 97 \<le> c + 32 \<and> c + 32 \<le> 122"
    by (simp add: word_le_nat_alt unat_plus_if_size word_size)
  then show "isalpha c \<Longrightarrow> isalpha (tolower c)" by (auto simp: isalpha_def tolower_def)
qed

lemma LoopAndInsert_loop_words:
  assumes "length ts < n" and "\<forall>c \<in> set run. isalpha c" and "0 \<notin> set ts"
  shows "LoopAndInsert_loop n tab (pre @ rev run @ ts @ [0]) (length pre + length run) (length pre) =
     add_words tab (words_of (length pre + length run) run ts)"
  using assms
proof (induction ts arbitrary: n tab pre run)
  case Nil
  then show ?case by (cases n) (auto simp: char_at_def nth_append)
next
  case (Cons c ts)
  then obtain m where n: "n = Suc m" "length ts < m" by (cases n) auto
  let ?i = "length pre + length run"
  have at: "char_at (pre @ rev run @ (c # ts) @ [0]) ?i = ret c"
    by (simp add: char_at_def nth_append)
  show ?case
  proof (cases "isalpha c")
    case True
    have upd: "(pre @ rev run @ (c # ts) @ [0])[?i := tolower c] = pre @ rev (tolower c # run) @ ts @ [0]"
      by (simp add: list_update_append)
    show ?thesis
      using Cons.IH [OF n(2), of "tolower c # run" tab pre] Cons.prems True isalpha_tolower [OF True]
        isalpha_nonzero [OF True]
      by (simp only: n(1) LoopAndInsert_loop.simps at bnd_ret upd words_of.simps if_False if_True) simp
  next
    case False
    have c0: "c \<noteq> 0" using Cons.prems by auto
    show ?thesis
    proof (cases run)
      case Nil
      then show ?thesis
        using Cons.IH [OF n(2), of "[]" tab "pre @ [c]"] Cons.prems False c0
        by (simp add: n(1) char_at_def nth_append)
    next
      case (Cons d ds)
      have w: "char_at (pre @ rev run @ (c # ts) @ [0]) (length pre) = ret (hd (rev run))"
        using Cons by (simp add: char_at_def nth_append hd_append hd_conv_nth)
      have aw: "isalpha (hd (rev run))"
        using Cons.prems(2) \<open>run = d # ds\<close> hd_in_set [of "rev run"] by auto
      have upd: "(pre @ rev run @ (c # ts) @ [0])[?i := 0] = (pre @ rev run @ [0]) @ ts @ [0]"
        by (simp add: list_update_append)
      have "cstr_at ((pre @ rev run @ [0]) @ ts @ [0]) (length pre) = rev run"
      proof -
        have "\<forall>x \<in> set (rev run). x \<noteq> 0" using Cons.prems(2) isalpha_nonzero by auto
        then show ?thesis by (simp add: cstr_at_def takeWhile_append2 takeWhile_append)
      qed
      then have "LoopAndInsert_loop n tab (pre @ rev run @ (c # ts) @ [0]) ?i (length pre) =
          bnd (AddToHashtable tab (rev run) (of_nat (length pre))) (\<lambda>tab'.
          LoopAndInsert_loop m tab' ((pre @ rev run @ [0]) @ rev [] @ ts @ [0]) (?i + 1) (?i + 1))"
        using False c0
        by (simp only: n(1) LoopAndInsert_loop.simps at w bnd_ret upd aw if_False if_True Let_def
            rev.simps append_Nil)
      then show ?thesis
        using Cons.IH [OF n(2), of "[]" _ "pre @ rev run @ [0]"] Cons.prems False \<open>run = d # ds\<close>
        by simp
    qed
  qed
qed

section \<open>What the table holds\<close>

text \<open>The table holds exactly the words of \<open>ws\<close>, each with its positions in order.\<close>

definition indexes :: "WordPositions HashTableRecord \<Rightarrow> (cstring \<times> nat) list \<Rightarrow> bool" where
  "indexes t ws \<longleftrightarrow>
     (\<forall>w \<in> fst ` set ws. ht_map t (FNVHash64 w) = Some \<lparr>wp_word = w, wp_positions = occurrences ws w\<rparr>)
     \<and> (\<forall>k. k \<notin> FNVHash64 ` fst ` set ws \<longrightarrow> ht_map t k = None)"

lemma indexes_word:
  assumes "indexes t ws" and "w \<in> fst ` set ws"
  shows "ht_map t (FNVHash64 w) = Some \<lparr>wp_word = w, wp_positions = occurrences ws w\<rparr>"
  by (rule bspec [OF conjunct1 [OF assms(1) [unfolded indexes_def]] assms(2)])

lemma indexes_other: "indexes t ws \<Longrightarrow> k \<notin> FNVHash64 ` fst ` set ws \<Longrightarrow> ht_map t k = None"
  unfolding indexes_def by (drule conjunct2) simp

lemma occurrences_snoc:
  "occurrences (ws @ [(w, p)]) v = (if v = w then occurrences ws v @ [of_nat p] else occurrences ws v)"
  by (auto simp: occurrences_def)

lemma indexes_add:
  assumes ix: "indexes t ws" and inj: "inj_on FNVHash64 (fst ` set (ws @ [(w, p)]))"
    and post: "add_post t w (of_nat p) s t' s'"
  shows "indexes t' (ws @ [(w, p)])"
proof -
  have map: "ht_map t' = (ht_map t)(FNVHash64 w \<mapsto> \<lparr>wp_word = w, wp_positions = occurrences ws w @ [of_nat p]\<rparr>)"
  proof (cases "w \<in> fst ` set ws")
    case True
    then have "ht_map t (FNVHash64 w) = Some \<lparr>wp_word = w, wp_positions = occurrences ws w\<rparr>"
      by (rule indexes_word [OF ix])
    then show ?thesis using post by (simp add: add_post_def)
  next
    case False
    then have "FNVHash64 w \<notin> FNVHash64 ` fst ` set ws" using inj by (auto simp: inj_on_def)
    moreover have "occurrences ws w = []" using False by (force simp: occurrences_def filter_empty_conv)
    ultimately show ?thesis using ix post by (simp add: indexes_def add_post_def)
  qed
  have "FNVHash64 v \<noteq> FNVHash64 w" if "v \<in> fst ` set ws" "v \<noteq> w" for v
    using inj that by (auto simp: inj_on_def)
  then show ?thesis
    using ix unfolding indexes_def map by (auto simp: occurrences_snoc)
qed

lemma ht_count_indexes:
  assumes "ht_wf t b" and "indexes t ws"
  shows "ht_count t \<le> length ws"
proof -
  have "dom (ht_map t) \<subseteq> FNVHash64 ` fst ` set ws"
  proof
    fix k assume "k \<in> dom (ht_map t)"
    then have "ht_map t k \<noteq> None" by (simp add: domIff)
    then show "k \<in> FNVHash64 ` fst ` set ws" using assms(2) by (metis indexes_def)
  qed
  then have "card (dom (ht_map t)) \<le> card (FNVHash64 ` fst ` set ws)" by (simp add: card_mono)
  also have "\<dots> \<le> card (set ws)" by (metis card_image_le finite_imageI finite_set le_trans)
  also have "\<dots> \<le> length ws" by (rule card_length)
  finally show ?thesis by (simp add: ht_count_card(1) [OF assms(1)])
qed

lemma add_words_spec:
  assumes "ht_wf t (brk s)" and "no_failures s" and "indexes t vs" and "inj_on FNVHash64 (fst ` set (vs @ ws))"
    and "length vs + length ws < 2 ^ 32"
  shows "wp (add_words t ws) (\<lambda>t' s'. grown s s' \<and> ht_wf t' (brk s') \<and> indexes t' (vs @ ws)) s"
  using assms
proof (induction ws arbitrary: t s vs)
  case Nil
  then show ?case by (simp add: wp_simps)
next
  case (Cons wp0 ws)
  obtain w p where wp0: "wp0 = (w, p)" by (cases wp0)
  have room: "ht_count t + 1 < 2 ^ 32"
    using ht_count_indexes [OF Cons.prems(1,3)] Cons.prems(5) by simp
  have inj: "inj_on FNVHash64 (fst ` set (vs @ [(w, p)]))"
    by (rule inj_on_subset [OF Cons.prems(4)]) (auto simp: wp0)
  show ?case
    unfolding wp0 add_words.simps wp_bnd
  proof (rule wp_mono [OF AddToHashtable_spec [OF Cons.prems(1,2) room]], goal_cases)
    case (1 t' s')
    then have a: "ht_wf t' (brk s')" "no_failures s'" "grown s s'" by (auto simp: add_post_def grown_def)
    have "wp (add_words t' ws) (\<lambda>t'' s''. grown s' s'' \<and> ht_wf t'' (brk s'') \<and> indexes t'' ((vs @ [(w, p)]) @ ws)) s'"
      by (rule Cons.IH [OF a(1,2) indexes_add [OF Cons.prems(3) inj 1]]) (use Cons.prems(4,5) wp0 in auto)
    then show ?case by (rule wp_mono) (auto intro: grown_trans [OF a(3)])
  qed
qed

lemma length_words_of: "length (words_of i run ts) \<le> length ts"
  by (induction i run ts rule: words_of.induct) auto

lemma BuildWordHT_run:
  assumes "ts \<noteq> []" and "\<forall>c \<in> set ts. c \<noteq> 0 \<and> c \<le> 0x7F" and "no_failures s" and "length ts < 2 ^ 32"
    and "inj_on FNVHash64 (fst ` set (words_of 0 [] ts))"
  shows "wp (BuildWordHT (Some ts)) (\<lambda>r s'. grown s s' \<and> (case r of
       None \<Rightarrow> words_of 0 [] ts = []
     | Some t \<Rightarrow> words_of 0 [] ts \<noteq> [] \<and> ht_wf t (brk s') \<and> indexes t (words_of 0 [] ts))) s"
proof -
  have ascii: "\<not> (\<exists>c \<in> set ts. c = 0 \<or> 0x7F < c)" using assms(2) by (auto simp: not_less)
  have loop: "LoopAndInsert t (ts @ [0]) = add_words t (words_of 0 [] ts)" for t
    using LoopAndInsert_loop_words [of ts "length (ts @ [0])" "[]" t "[]"] assms(2)
    by (auto simp: LoopAndInsert_def)
  have start: "wp (BuildWordHT (Some ts)) Q s = wp (bnd (AllocateHashTable 64) (\<lambda>tab.
      case tab of None \<Rightarrow> fail MemFault
      | Some tab \<Rightarrow> bnd (add_words tab (words_of 0 [] ts)) (\<lambda>tab.
          if NumElementsInHashTable tab = 0 then ret None else ret (Some tab)))) Q s" for Q
    using assms(1) ascii by (simp add: BuildWordHT_def loop)
  show ?thesis
    unfolding start wp_bnd [of "AllocateHashTable 64"]
  proof (rule wp_mono [OF Allocate_spec [OF assms(3)]], goal_cases)
    case (1 r s1)
    then have r: "r = Some (empty_table 64)" and g: "grown s s1" and nf: "no_failures s1" by (simp_all add: grown_def)
    have ix: "indexes (empty_table 64) []" by (simp add: indexes_def empty_table_wf)
    show ?case
      unfolding r option.case wp_bnd
    proof (rule wp_mono [OF add_words_spec [OF empty_table_wf(1) nf ix]], goal_cases)
      case (4 t s2)
      then have wf: "ht_wf t (brk s2)" and ix: "indexes t (words_of 0 [] ts)" by auto
      have "NumElementsInHashTable t = 0 \<longleftrightarrow> dom (ht_map t) = {}"
        using ht_count_card [OF wf] ht_wf_ne [OF wf]
        by (auto simp: NumElementsInHashTable_def unat_eq_0 [symmetric] simp del: dom_eq_empty_conv)
      also have "\<dots> \<longleftrightarrow> words_of 0 [] ts = []"
        using ix by (cases "words_of 0 [] ts") (fastforce simp: indexes_def)+
      finally show ?case using wf ix grown_trans [OF g 4 [THEN conjunct1]] by (auto simp: wp_simps)
    qed (use assms(4,5) length_words_of [of 0 "[]" ts] in auto)
  qed
qed

section \<open>The reference finds words\<close>

text \<open>
  Every word of the reference is a maximal run of letters of the text in lower case, at its
  position, with the character that ends it.
\<close>

lemma words_of_sound:
  assumes "(w, p) \<in> set (words_of (length pre + length run) (rev (map tolower run)) ts)"
    and "\<forall>c \<in> set run. isalpha c" and "pre = [] \<or> \<not> isalpha (last pre)"
  shows "w \<noteq> [] \<and> p + length w < length (pre @ run @ ts)
     \<and> w = map tolower (take (length w) (drop p (pre @ run @ ts)))
     \<and> (\<forall>i < length w. isalpha ((pre @ run @ ts) ! (p + i)))
     \<and> \<not> isalpha ((pre @ run @ ts) ! (p + length w))
     \<and> (p = 0 \<or> \<not> isalpha ((pre @ run @ ts) ! (p - 1)))"
  using assms
proof (induction ts arbitrary: pre run)
  case (Cons c ts)
  show ?case
  proof (cases "isalpha c")
    case True
    then show ?thesis using Cons.IH [of pre "run @ [c]"] Cons.prems by simp
  next
    case False
    have rest: ?thesis if "(w, p) \<in> set (words_of (Suc (length pre + length run)) [] ts)"
      using Cons.IH [of "pre @ run @ [c]" "[]"] that False by simp
    show ?thesis
    proof (cases "run \<noteq> [] \<and> (w, p) = (map tolower run, length pre)")
      case True
      then show ?thesis
        using Cons.prems(2,3) False
        by (cases "pre = []") (auto simp: nth_append last_conv_nth)
    next
      case other: False
      then show ?thesis using rest Cons.prems(1) False by (auto simp: rev_map split: if_splits)
    qed
  qed
qed simp

section \<open>Properties\<close>

text \<open>
  C10: for an ASCII file whose words do not collide under the hash, \<open>BuildWordHT\<close> returns NULL
  exactly when the text has no word that is followed by another character, and otherwise a
  well-formed table that holds exactly these words, in lower case, each with the list of all its
  offsets in the file in increasing order of occurrence.
\<close>

theorem build_word_table:
  assumes "ts \<noteq> []" and "\<forall>c \<in> set ts. c \<noteq> 0 \<and> c \<le> 0x7F" and "no_failures s" and "length ts < 2 ^ 32"
    and "inj_on FNVHash64 (fst ` set (words_of 0 [] ts))"
  shows "\<exists>r s'. BuildWordHT (Some ts) s = Inr (r, s') \<and>
     (case r of None \<Rightarrow> words_of 0 [] ts = []
      | Some t \<Rightarrow> words_of 0 [] ts \<noteq> [] \<and> ht_wf t (brk s')
          \<and> (\<forall>k wp. ht_map t k = Some wp \<longleftrightarrow>
               (wp_word wp \<in> fst ` set (words_of 0 [] ts) \<and> k = FNVHash64 (wp_word wp)
                \<and> wp_positions wp = occurrences (words_of 0 [] ts) (wp_word wp))))"
proof -
  have eq: "ht_map t k = Some e \<longleftrightarrow> (wp_word e \<in> fst ` set ws \<and> k = FNVHash64 (wp_word e)
      \<and> wp_positions e = occurrences ws (wp_word e))" if ix: "indexes t ws" for t ws k e
  proof
    assume e: "ht_map t k = Some e"
    then obtain w where "w \<in> fst ` set ws" "k = FNVHash64 w"
      using indexes_other [OF ix, of k] by (metis imageE option.distinct(1))
    moreover from this have "ht_map t k = Some \<lparr>wp_word = w, wp_positions = occurrences ws w\<rparr>"
      using indexes_word [OF ix, of w] by simp
    ultimately show "wp_word e \<in> fst ` set ws \<and> k = FNVHash64 (wp_word e)
        \<and> wp_positions e = occurrences ws (wp_word e)" using e by force
  next
    assume e: "wp_word e \<in> fst ` set ws \<and> k = FNVHash64 (wp_word e) \<and> wp_positions e = occurrences ws (wp_word e)"
    then have "ht_map t k = Some \<lparr>wp_word = wp_word e, wp_positions = occurrences ws (wp_word e)\<rparr>"
      using indexes_word [OF ix, of "wp_word e"] by simp
    then show "ht_map t k = Some e" using e by (cases e) simp
  qed
  obtain r s' where run: "BuildWordHT (Some ts) s = Inr (r, s')"
    and post: "case r of None \<Rightarrow> words_of 0 [] ts = []
      | Some t \<Rightarrow> words_of 0 [] ts \<noteq> [] \<and> ht_wf t (brk s') \<and> indexes t (words_of 0 [] ts)"
    using BuildWordHT_run [OF assms] by (auto simp: wp_iff)
  show ?thesis
    by (intro exI conjI, rule run) (use post in \<open>auto simp: eq split: option.splits\<close>)
qed

text \<open>The text \<open>Ab a.\<close> in octets.\<close>

theorem build_word_table_witness:
  "\<exists>t s'. BuildWordHT (Some [65, 98, 32, 97, 46]) ms_example = Inr (Some t, s')
      \<and> ht_map t (FNVHash64 [97, 98]) = Some \<lparr>wp_word = [97, 98], wp_positions = [0]\<rparr>"
proof -
  let ?ts = "[65, 98, 32, 97, 46] :: cstring"
  have ws: "words_of 0 [] ?ts = [([97, 98], 0), ([97], 3)]"
    by (simp add: isalpha_def tolower_def word_le_nat_alt)
  have "FNVHash64 [97, 98] \<noteq> FNVHash64 [97]" by code_simp
  then have inj: "inj_on FNVHash64 (fst ` set (words_of 0 [] ?ts))"
    unfolding ws by auto
  have "\<forall>c \<in> set ?ts. c \<noteq> 0 \<and> c \<le> 0x7F" by (simp add: word_le_nat_alt)
  from build_word_table [OF _ this ht_example_wf(2) _ inj] obtain r s' where
    r: "BuildWordHT (Some ?ts) ms_example = Inr (r, s')"
      "case r of None \<Rightarrow> words_of 0 [] ?ts = []
      | Some t \<Rightarrow> words_of 0 [] ?ts \<noteq> [] \<and> ht_wf t (brk s')
          \<and> (\<forall>k wp. ht_map t k = Some wp \<longleftrightarrow>
               (wp_word wp \<in> fst ` set (words_of 0 [] ?ts) \<and> k = FNVHash64 (wp_word wp)
                \<and> wp_positions wp = occurrences (words_of 0 [] ?ts) (wp_word wp)))"
    by auto
  then show ?thesis unfolding ws by (auto simp: occurrences_def split: option.splits)
qed

lemma words_of_letters: "\<forall>c \<in> set ts. isalpha c \<Longrightarrow> words_of i run ts = []"
  by (induction ts arbitrary: i run) auto

lemma isalpha_ascii: "isalpha c \<Longrightarrow> c \<le> 0x7F"
  by (auto simp: isalpha_def word_le_nat_alt)

text \<open>
  a word that runs to the end of the file is never recorded: a file of letters only yields no
  table at all, although it is one word.
\<close>

theorem last_word_is_dropped:
  assumes "ts \<noteq> []" and "\<forall>c \<in> set ts. isalpha c" and "no_failures s" and "length ts < 2 ^ 32"
  shows "\<exists>s'. BuildWordHT (Some ts) s = Inr (None, s')"
  using BuildWordHT_run [OF assms(1) _ assms(3,4)] assms(2) isalpha_nonzero isalpha_ascii
  by (auto simp: wp_iff words_of_letters split: option.splits)

theorem last_word_is_dropped_witness: "\<exists>s'. BuildWordHT (Some [102, 111, 120]) ms_example = Inr (None, s')"
  by (rule last_word_is_dropped) (auto simp: isalpha_def word_le_nat_alt ht_example_wf(2))

end
