(* ===== verification/MemIndex.thy ===== *)
theory MemIndex
  imports FileParser
begin

text \<open>
  The in-memory inverted index of uw\_cse333/hw/hw2/memindex.c: a hash table from the hash of a word
  to the set of documents that contain it, itself a hash table from document identifiers to
  position lists.  The result list of a query is a linked list in the store of \<open>LinkedList\<close>, with
  its iterators; the hash tables share the allocator of that store (\<open>on_alloc\<close>).
\<close>

record WordDocSet =
  wds_word :: cstring
  docIDs :: "DocPositionOffset_t list HashTableRecord"

type_synonym MemIndex = "WordDocSet HashTableRecord"

record SearchResult =
  docid :: DocID_t
  rank :: HWSize_t

type_synonym 'a query_cmd = "(SearchResult ll_heap, 'a) cmd"

section \<open>Operations\<close>

definition MISearchListComparator :: "SearchResult \<Rightarrow> SearchResult \<Rightarrow> int" where
  "MISearchListComparator sr1 sr2 =
     (if rank sr1 > rank sr2 then 1 else if rank sr1 < rank sr2 then -1 else 0)"

definition AllocateMemIndex :: "MemIndex option ht_cmd" where
  "AllocateMemIndex = AllocateHashTable 128"

text \<open>The position lists released, per word set, in call order.\<close>

definition MIFree :: "WordDocSet \<Rightarrow> DocPositionOffset_t list list" where
  "MIFree wd = FreeHashTable (docIDs wd)"

definition FreeMemIndex :: "MemIndex \<Rightarrow> DocPositionOffset_t list list" where
  "FreeMemIndex index = concat (map MIFree (FreeHashTable index))"

definition MINumWordsInMemIndex :: "MemIndex \<Rightarrow> HWSize_t" where
  "MINumWordsInMemIndex index = NumElementsInHashTable index"

text \<open>The second half of \<open>MIAddPostingList\<close>: the document is added to the set of its word, in place.\<close>

definition MIAddPostingList_doc ::
    "MemIndex \<Rightarrow> HTKey_t \<Rightarrow> WordDocSet \<Rightarrow> DocID_t \<Rightarrow> DocPositionOffset_t list \<Rightarrow> (int \<times> MemIndex) ht_cmd" where
  "MIAddPostingList_doc index wordkey wds doc positions =
     bnd (LookupHashTable (docIDs wds) doc) (\<lambda>(res, hitkv).
     bnd (Verify333 (res = 0)) (\<lambda>_.
     bnd (InsertHashTable (docIDs wds) \<lparr>ht_key = doc, ht_value = positions\<rparr>) (\<lambda>(res, ids, _).
     bnd (Verify333 (res = 1)) (\<lambda>_.
     ret (1, update_value wordkey (docIDs_update (\<lambda>_. ids)) index)))))"

definition MIAddPostingList ::
    "MemIndex \<Rightarrow> cstring \<Rightarrow> DocID_t \<Rightarrow> DocPositionOffset_t list \<Rightarrow> (int \<times> MemIndex) ht_cmd" where
  "MIAddPostingList index w doc positions =
     (let wordkey = FNVHash64 w in
      bnd (LookupHashTable index wordkey) (\<lambda>(res, kv).
      bnd (if res = 0 then
             bnd malloc (\<lambda>wds.
             if wds = NULL then ret None
             else bnd (AllocateHashTable 32) (\<lambda>ids.
               case ids of None \<Rightarrow> fail VerifyFailure
               | Some ids \<Rightarrow>
                 let wds = \<lparr>wds_word = w, docIDs = ids\<rparr> in
                 bnd (InsertHashTable index \<lparr>ht_key = wordkey, ht_value = wds\<rparr>) (\<lambda>(res, index', _).
                 bnd (Verify333 (res = 1)) (\<lambda>_.
                 ret (Some (wds, index'))))))
           else case kv of None \<Rightarrow> fail MemFault
             | Some kv \<Rightarrow> ret (Some (ht_value kv, index))) (\<lambda>r.
      case r of None \<Rightarrow> ret (0, index)
      | Some (wds, index) \<Rightarrow> MIAddPostingList_doc index wordkey wds doc positions)))"

text \<open>A hash table operation run in a store that extends the allocator.\<close>

definition on_alloc :: "'a ht_cmd \<Rightarrow> 'a query_cmd" where
  "on_alloc c h =
     (case c (malloc_state.truncate h) of
        Inl e \<Rightarrow> Inl e
      | Inr (x, s) \<Rightarrow> Inr (x, h\<lparr>brk := brk s, outcomes := outcomes s\<rparr>))"

text \<open>Writing the structure an iterator's payload points to.\<close>

definition write_payload :: "nat \<Rightarrow> SearchResult \<Rightarrow> unit query_cmd" where
  "write_payload iter x =
     bnd (check_iter iter) (\<lambda>i. upd_node (it_node i) (payload_update (\<lambda>_. x)))"

text \<open>
  The first query word: every document of the set becomes a result.  An iterator over an empty set
  would leave \<open>kv\<close> as it was, and its value is no position list.
\<close>

fun MIProcessQuery_first ::
    "nat \<Rightarrow> DocPositionOffset_t list HashTableRecord \<Rightarrow> HTIterRecord \<Rightarrow> nat \<Rightarrow> unit query_cmd" where
  "MIProcessQuery_first 0 ids iter retlist = fail OutOfFuel"
| "MIProcessQuery_first (Suc n) ids iter retlist =
     bnd (on_alloc (HTIteratorGet ids iter)) (\<lambda>(res, kv).
     bnd malloc (\<lambda>sr.
     if sr = NULL then fail MemFault
     else case kv of None \<Rightarrow> fail MemFault
     | Some kv \<Rightarrow>
       bnd (PushLinkedList retlist \<lparr>docid = ht_key kv, rank = of_nat (length (ht_value kv))\<rparr>) (\<lambda>_.
       bnd (on_alloc (HTIteratorNext ids iter)) (\<lambda>(again, iter').
       if again \<noteq> 0 then MIProcessQuery_first n ids iter' retlist else ret ()))))"

text \<open>The loop over the results for a further query word; \<open>j\<close> counts the rounds left.\<close>

fun MIProcessQuery_inner ::
    "nat \<Rightarrow> DocPositionOffset_t list HashTableRecord \<Rightarrow> nat \<Rightarrow> unit query_cmd" where
  "MIProcessQuery_inner 0 ids llit = ret ()"
| "MIProcessQuery_inner (Suc j) ids llit =
     bnd (LLIteratorGetPayload llit) (\<lambda>rs.
     bnd (on_alloc (LookupHashTable ids (docid rs))) (\<lambda>(res, kv).
     bnd (if res = 0 then LLIteratorDelete llit 1
          else case kv of None \<Rightarrow> fail MemFault
          | Some kv \<Rightarrow>
            bnd (write_payload llit (rs\<lparr>rank := rank rs + of_nat (length (ht_value kv))\<rparr>)) (\<lambda>_.
            LLIteratorNext llit)) (\<lambda>_.
     MIProcessQuery_inner j ids llit)))"

text \<open>The further query words.  The result tells whether every one was in the index.\<close>

fun MIProcessQuery_words :: "MemIndex \<Rightarrow> cstring list \<Rightarrow> nat \<Rightarrow> bool query_cmd" where
  "MIProcessQuery_words index [] retlist = ret True"
| "MIProcessQuery_words index (q # qs) retlist =
     bnd (on_alloc (LookupHashTable index (FNVHash64 q))) (\<lambda>(res, kv).
     if res = 0 then bnd (FreeLinkedList retlist 1) (\<lambda>_. ret False)
     else case kv of None \<Rightarrow> fail MemFault
     | Some kv \<Rightarrow>
       bnd (LLMakeIterator retlist 0) (\<lambda>llit.
       bnd (NumElementsInLinkedList retlist) (\<lambda>ne.
       bnd (MIProcessQuery_inner (nat (sint ne)) (docIDs (ht_value kv)) llit) (\<lambda>_.
       bnd (LLIteratorFree llit) (\<lambda>_.
       MIProcessQuery_words index qs retlist)))))"

definition MIProcessQuery :: "MemIndex \<Rightarrow> cstring list \<Rightarrow> nat query_cmd" where
  "MIProcessQuery index query =
     (case query of [] \<Rightarrow> ret NULL
      | q # qs \<Rightarrow>
        bnd AllocateLinkedList (\<lambda>retlist.
        bnd (on_alloc (LookupHashTable index (FNVHash64 q))) (\<lambda>(res, kv).
        if res = 0 then bnd (FreeLinkedList retlist 1) (\<lambda>_. ret NULL)
        else case kv of None \<Rightarrow> fail MemFault
        | Some kv \<Rightarrow>
          bnd (on_alloc (HashTableMakeIterator (docIDs (ht_value kv)))) (\<lambda>it.
          case it of None \<Rightarrow> fail VerifyFailure
          | Some it \<Rightarrow>
            bnd (MIProcessQuery_first (unat (ht_num_elements (docIDs (ht_value kv))))
                   (docIDs (ht_value kv)) it retlist) (\<lambda>_.
            if qs = [] then bnd (SortLinkedList retlist 0 MISearchListComparator) (\<lambda>_. ret retlist)
            else bnd (MIProcessQuery_words index qs retlist) (\<lambda>ok.
              if \<not> ok then ret NULL
              else bnd (NumElementsInLinkedList retlist) (\<lambda>n.
                if n = 0 then bnd (FreeLinkedList retlist 1) (\<lambda>_. ret NULL)
                else bnd (SortLinkedList retlist 0 MISearchListComparator) (\<lambda>_. ret retlist))))))))"

section \<open>Invariant and abstraction\<close>

definition mi_ok :: "MemIndex \<Rightarrow> nat \<Rightarrow> bool" where
  "mi_ok index b \<longleftrightarrow> ht_wf index b \<and> (\<forall>k wds. ht_map index k = Some wds \<longrightarrow>
     ht_wf (docIDs wds) b \<and> 0 < ht_count (docIDs wds) \<and> FNVHash64 (wds_word wds) = k)"

text \<open>The documents of a word with their positions; \<open>None\<close> for a word that is not indexed.\<close>

definition postings :: "MemIndex \<Rightarrow> cstring \<Rightarrow> (DocID_t \<Rightarrow> DocPositionOffset_t list option) option" where
  "postings index w = map_option (\<lambda>wds. ht_map (docIDs wds)) (ht_map index (FNVHash64 w))"

lemma mi_ok_mono: "mi_ok index b \<Longrightarrow> b \<le> b' \<Longrightarrow> mi_ok index b'"
  by (auto simp: mi_ok_def intro: ht_wf_mono)

section \<open>Running table operations in the store\<close>

lemma wp_on_alloc:
  assumes "wp c (\<lambda>x s'. grown (malloc_state.truncate h) s' \<and> P x) (malloc_state.truncate h)" and "no_failures h"
    and "\<And>x b. P x \<Longrightarrow> brk h \<le> b \<Longrightarrow> Q x (h\<lparr>brk := b\<rparr>)"
  shows "wp (on_alloc c) Q h"
proof -
  obtain x s' where run: "c (malloc_state.truncate h) = Inr (x, s')"
    and g: "grown (malloc_state.truncate h) s'" and P: "P x"
    using assms(1) by (auto simp: wp_iff)
  have "h\<lparr>brk := brk s', outcomes := outcomes s'\<rparr> = h\<lparr>brk := brk s'\<rparr>"
    using g assms(2) by (cases h) (simp add: grown_def no_failures_def)
  moreover have "brk h \<le> brk s'" using g by (simp add: grown_def malloc_state.truncate_def)
  ultimately have "Q x (h\<lparr>brk := brk s', outcomes := outcomes s'\<rparr>)" using assms(3) [OF P] by simp
  then show ?thesis by (simp add: wp_def on_alloc_def run)
qed

lemma truncate_simps [simp]:
  "brk (malloc_state.truncate h) = brk h" "no_failures (malloc_state.truncate h) = no_failures h"
  by (simp_all add: malloc_state.truncate_def no_failures_def)

lemma ll_rep_brk: "ll_rep h l ns \<Longrightarrow> brk h \<le> b \<Longrightarrow> ll_rep (h\<lparr>brk := b\<rparr>) l ns"
  by (auto simp: ll_rep_def intro: chain_ok_mono)

lemma iter_at_brk: "iter_at h it l a \<Longrightarrow> brk h \<le> b \<Longrightarrow> iter_at (h\<lparr>brk := b\<rparr>) it l a"
  by (simp add: iter_at_def)

lemma no_failures_set_brk: "no_failures h \<Longrightarrow> brk h \<le> b \<Longrightarrow> no_failures (h\<lparr>brk := b\<rparr>)"
  by (simp add: no_failures_def)

section \<open>The result list of a query\<close>

definition result_of :: "DocPositionOffset_t list HTKeyValue \<Rightarrow> SearchResult" where
  "result_of kv = \<lparr>docid = ht_key kv, rank = of_nat (length (ht_value kv))\<rparr>"

lemma MIProcessQuery_first_spec:
  assumes "ht_wf ids b" and "b \<le> brk h" and "remaining ids it (r # rs)" and "ll_rep h l ns"
    and "no_failures h" and "length rs < n" and "length ns + length rs + 1 < 2 ^ 32"
  shows "wp (MIProcessQuery_first n ids it l) (\<lambda>_ h'. no_failures h' \<and> brk h \<le> brk h' \<and>
     (\<exists>ns'. ll_rep h' l ns' \<and> map snd ns' = rev (map result_of (r # rs)) @ map snd ns)) h"
  using assms
proof (induction n arbitrary: h it r rs ns)
  case (Suc n)
  let ?h1 = "h\<lparr>brk := Suc (brk h)\<rparr>"
  have get: "on_alloc (HTIteratorGet ids it) h = Inr ((1, Some r), h)"
    using HTGet_spec [OF Suc.prems(1,3)] by (cases h) (simp add: on_alloc_def ret_run malloc_state.truncate_def)
  have step: "wp (MIProcessQuery_first (Suc n) ids it l) Q h =
      wp (bnd (PushLinkedList l (result_of r)) (\<lambda>_. bnd (on_alloc (HTIteratorNext ids it)) (\<lambda>(again, it').
         if again \<noteq> 0 then MIProcessQuery_first n ids it' l else ret ()))) Q ?h1" for Q
    using Suc.prems(5) no_failures_brk [OF Suc.prems(5)]
    by (simp add: wp_bnd wp_Inr [of "on_alloc (HTIteratorGet ids it)", OF get] wp_malloc_ok result_of_def)
  have rep1: "ll_rep ?h1 l ns" by (rule ll_rep_brk [OF Suc.prems(4)]) simp
  have nf1: "no_failures ?h1" using Suc.prems(5) by simp
  have "length ns + 1 < 2 ^ 32" using Suc.prems(7) by simp
  note push = Push_spec [OF rep1 nf1 this, of "result_of r"]
  show ?case
    unfolding step wp_bnd
  proof (rule wp_mono [OF push], goal_cases)
    case (1 u h2)
    let ?ns = "(brk ?h1, result_of r) # ns"
    have rep2: "ll_rep h2 l ?ns" and nf2: "no_failures h2" and le2: "brk h \<le> brk h2"
      using 1 by (auto simp: ll_frame_def)
    have wf2: "ht_wf ids (brk h2)" by (rule ht_wf_mono [OF Suc.prems(1)]) (use Suc.prems(2) le2 in simp)
    have nft: "no_failures (malloc_state.truncate h2)" using nf2 by simp
    show ?case
    proof (rule wp_on_alloc [OF _ nf2])
      show "wp (HTIteratorNext ids it) (\<lambda>x s'. grown (malloc_state.truncate h2) s' \<and>
          (remaining ids (snd x) rs \<and> fst x = (if rs = [] then 0 else 1))) (malloc_state.truncate h2)"
        by (rule wp_mono [OF HTNext_spec [OF wf2 Suc.prems(3) nft]]) auto
    next
      fix x b assume x: "remaining ids (snd x) rs \<and> fst x = (if rs = [] then 0 else (1 :: int))" and b: "brk h2 \<le> b"
      note rep3 = ll_rep_brk [OF rep2 b] and nf3 = no_failures_set_brk [OF nf2 b]
      show "wp (case x of (again, it') \<Rightarrow> if again \<noteq> 0 then MIProcessQuery_first n ids it' l else ret ())
          (\<lambda>_ h'. no_failures h' \<and> brk h \<le> brk h' \<and>
            (\<exists>ns'. ll_rep h' l ns' \<and> map snd ns' = rev (map result_of (r # rs)) @ map snd ns)) (h2\<lparr>brk := b\<rparr>)"
      proof (cases rs)
        case Nil
        then show ?thesis using x rep3 nf3 le2 b by (auto simp: wp_simps split_beta intro!: exI [of _ ?ns])
      next
        case (Cons r' rs')
        have "wp (MIProcessQuery_first n ids (snd x) l) (\<lambda>_ h'. no_failures h' \<and> brk (h2\<lparr>brk := b\<rparr>) \<le> brk h' \<and>
            (\<exists>ns'. ll_rep h' l ns' \<and> map snd ns' = rev (map result_of (r' # rs')) @ map snd ?ns)) (h2\<lparr>brk := b\<rparr>)"
          by (rule Suc.IH) (use Suc.prems x Cons rep3 nf3 le2 b in auto)
        then show ?thesis using x Cons le2 b by (auto simp: split_beta elim!: wp_mono)
      qed
    qed
  qed
qed simp

text \<open>A further word keeps the results whose document has the word and adds to their rank.\<close>

definition refine :: "(DocID_t \<Rightarrow> DocPositionOffset_t list option) \<Rightarrow> SearchResult list \<Rightarrow> SearchResult list" where
  "refine m rs = map (\<lambda>sr. sr\<lparr>rank := rank sr + of_nat (length (the (m (docid sr))))\<rparr>)
     (filter (\<lambda>sr. m (docid sr) \<noteq> None) rs)"

lemma write_payload_spec:
  assumes "ll_rep h l (us @ (a, x) # vs)" and "iter_at h it l a"
  shows "wp (write_payload it y) (\<lambda>_ h'. ll_rep h' l (us @ (a, y) # vs) \<and> iter_at h' it l a
     \<and> same_but_nodes h h') h"
  using assms by (auto simp: write_payload_def wp_simps ll_defs iter_at_def same_but_nodes_def)

lemma MIProcessQuery_inner_spec:
  assumes "ht_wf ids b" and "b \<le> brk h" and "ll_rep h l (us @ vs)" and "no_failures h"
    and "vs \<noteq> [] \<longrightarrow> iter_at h it l (first_addr vs NULL)" and "iters h it \<noteq> None" and "it \<noteq> NULL"
  shows "wp (MIProcessQuery_inner (length vs) ids it) (\<lambda>_ h'. no_failures h' \<and> brk h \<le> brk h' \<and> iters h' it \<noteq> None
     \<and> (\<exists>vs'. ll_rep h' l (us @ vs') \<and> map snd vs' = refine (ht_map ids) (map snd vs))) h"
  using assms
proof (induction vs arbitrary: h us)
  case Nil
  then show ?case by (auto simp: wp_simps refine_def intro!: exI [of _ "[]"])
next
  case (Cons v vs)
  obtain a x where v: "v = (a, x)" by (cases v)
  have rep: "ll_rep h l (us @ (a, x) # vs)" and at: "iter_at h it l a" using Cons.prems by (auto simp: v)
  have wf: "ht_wf ids (brk (malloc_state.truncate h))" using ht_wf_mono [OF Cons.prems(1,2)] by simp
  have nft: "no_failures (malloc_state.truncate h)" using Cons.prems(4) by simp
  let ?R = "\<lambda>h'. no_failures h' \<and> brk h \<le> brk h' \<and> iters h' it \<noteq> None
     \<and> (\<exists>vs'. ll_rep h' l (us @ vs') \<and> map snd vs' = refine (ht_map ids) (map snd (v # vs)))"
  have step: "wp (MIProcessQuery_inner (length (v # vs)) ids it) (\<lambda>_. ?R) h =
      wp (on_alloc (LookupHashTable ids (docid x))) (\<lambda>p. wp
       (if fst p = 0 then LLIteratorDelete it 1
        else case snd p of None \<Rightarrow> fail MemFault
          | Some kv \<Rightarrow> bnd (write_payload it (x\<lparr>rank := rank x + of_nat (length (ht_value kv))\<rparr>)) (\<lambda>_.
            LLIteratorNext it)) (\<lambda>_. wp (MIProcessQuery_inner (length vs) ids it) (\<lambda>_. ?R))) h"
    by (simp add: wp_bnd wp_Inr [of "LLIteratorGetPayload it", OF GetPayload_spec [OF rep at]] split_beta)
  show ?case
    unfolding step
  proof (rule wp_on_alloc [OF _ Cons.prems(4)])
    show "wp (LookupHashTable ids (docid x)) (\<lambda>r s'. grown (malloc_state.truncate h) s' \<and>
        r = (case ht_map ids (docid x) of None \<Rightarrow> (0, None)
             | Some e \<Rightarrow> (1, Some \<lparr>ht_key = docid x, ht_value = e\<rparr>))) (malloc_state.truncate h)"
      by (rule Lookup_spec [OF wf nft])
  next
    fix r b' assume r: "r = (case ht_map ids (docid x) of None \<Rightarrow> (0 :: int, None)
             | Some e \<Rightarrow> (1, Some \<lparr>ht_key = docid x, ht_value = e\<rparr>))" and b': "brk h \<le> b'"
    let ?h = "h\<lparr>brk := b'\<rparr>"
    note rep' = ll_rep_brk [OF rep b'] and at' = iter_at_brk [OF at b'] and nf' = no_failures_set_brk [OF Cons.prems(4) b']
    show "wp
       (if fst r = 0 then LLIteratorDelete it 1
        else case snd r of None \<Rightarrow> fail MemFault
          | Some kv \<Rightarrow> bnd (write_payload it (x\<lparr>rank := rank x + of_nat (length (ht_value kv))\<rparr>)) (\<lambda>_.
            LLIteratorNext it)) (\<lambda>_. wp (MIProcessQuery_inner (length vs) ids it) (\<lambda>_. ?R)) ?h"
    proof (cases "ht_map ids (docid x)")
      case None
      have "wp (LLIteratorDelete it 1) (\<lambda>_. wp (MIProcessQuery_inner (length vs) ids it) (\<lambda>_. ?R)) ?h"
      proof (rule wp_mono [OF IteratorDelete_spec [OF rep' at']], goal_cases)
        case (1 u h2)
        have "wp (MIProcessQuery_inner (length vs) ids it) (\<lambda>_ h'. no_failures h' \<and> brk h2 \<le> brk h' \<and> iters h' it \<noteq> None
           \<and> (\<exists>vs'. ll_rep h' l (us @ vs') \<and> map snd vs' = refine (ht_map ids) (map snd vs))) h2"
          by (rule Cons.IH [OF Cons.prems(1)]) (use 1 Cons.prems(2) b' nf' in \<open>auto simp: iter_at_def no_failures_def\<close>)
        then show ?case
          by (rule wp_mono) (use 1 b' None in \<open>auto simp: refine_def v\<close>)
      qed
      then show ?thesis using r None by simp
    next
      case (Some e)
      let ?x = "x\<lparr>rank := rank x + of_nat (length e)\<rparr>"
      have "wp (write_payload it ?x) (\<lambda>_. wp (LLIteratorNext it) (\<lambda>_. wp (MIProcessQuery_inner (length vs) ids it) (\<lambda>_. ?R))) ?h"
      proof (rule wp_mono [OF write_payload_spec [OF rep' at', of ?x]], goal_cases)
        case (1 u h2)
        then have rep2: "ll_rep h2 l (us @ (a, ?x) # vs)" and at2: "iter_at h2 it l a" by auto
        show ?case
        proof (rule wp_mono [OF IteratorNext_spec [OF rep2 at2]], goal_cases)
          case (1 u3 h3)
          have b3: "brk h3 = b'" "no_failures h3"
            using \<open>ll_rep h2 l _ \<and> iter_at h2 it l a \<and> same_but_nodes ?h h2\<close> 1 nf'
            by (auto simp: same_but_nodes_def same_but_iters_def no_failures_def)
          have rep3: "ll_rep h3 l ((us @ [(a, ?x)]) @ vs)"
            using rep2 1 by (simp add: ll_rep_def same_but_iters_def)
          have fa: "vs \<noteq> [] \<longrightarrow> first_addr vs a = first_addr vs NULL" by (cases vs) auto
          have "wp (MIProcessQuery_inner (length vs) ids it) (\<lambda>_ h'. no_failures h' \<and> brk h3 \<le> brk h' \<and> iters h' it \<noteq> None
             \<and> (\<exists>vs'. ll_rep h' l ((us @ [(a, ?x)]) @ vs') \<and> map snd vs' = refine (ht_map ids) (map snd vs))) h3"
            by (rule Cons.IH [OF Cons.prems(1) _ rep3]) (use 1 Cons.prems(2) b' b3 fa in \<open>auto simp: iter_at_def\<close>)
          then show ?case
          proof (rule wp_mono, goal_cases)
            case (1 u4 h4)
            then obtain vs' where "ll_rep h4 l (us @ (a, ?x) # vs')" "map snd vs' = refine (ht_map ids) (map snd vs)"
              by auto
            then show ?case
              using 1 b' b3 Some by (auto simp: refine_def v intro!: exI [of _ "(a, ?x) # vs'"])
          qed
        qed
      qed
      then show ?thesis using r Some by (simp add: wp_bnd)
    qed
  qed
qed

fun refine_all :: "MemIndex \<Rightarrow> cstring list \<Rightarrow> SearchResult list \<Rightarrow> SearchResult list" where
  "refine_all index [] rs = rs"
| "refine_all index (q # qs) rs = refine_all index qs (refine (the (postings index q)) rs)"

text \<open>There is a result left whenever a further word is processed.\<close>

fun never_empty :: "MemIndex \<Rightarrow> cstring list \<Rightarrow> SearchResult list \<Rightarrow> bool" where
  "never_empty index [] rs = True"
| "never_empty index (q # qs) rs = (rs \<noteq> [] \<and> never_empty index qs (refine (the (postings index q)) rs))"

lemma length_refine: "length (refine m rs) \<le> length rs"
  by (simp add: refine_def)

lemma lookup_word:
  assumes "mi_ok index b" and "b \<le> brk h" and "no_failures h" and "postings index q = Some m"
  obtains wds where "ht_wf (docIDs wds) b" and "m = ht_map (docIDs wds)" and "0 < ht_count (docIDs wds)"
    and "wp (LookupHashTable index (FNVHash64 q)) (\<lambda>r s'. grown (malloc_state.truncate h) s'
       \<and> r = (1, Some \<lparr>ht_key = FNVHash64 q, ht_value = wds\<rparr>)) (malloc_state.truncate h)"
proof -
  obtain wds where w: "ht_map index (FNVHash64 q) = Some wds" "m = ht_map (docIDs wds)"
    using assms(4) by (auto simp: postings_def)
  have wf: "ht_wf index (brk (malloc_state.truncate h))" and nft: "no_failures (malloc_state.truncate h)"
    using ht_wf_mono [OF _ assms(2)] assms(1,3) by (auto simp: mi_ok_def)
  show thesis
    using that [of wds] assms(1) w Lookup_spec [OF wf nft, of "FNVHash64 q"] by (simp add: mi_ok_def)
qed

lemma MIProcessQuery_words_spec:
  assumes "mi_ok index b" and "b \<le> brk h" and "ll_rep h l ns" and "no_failures h" and "length ns < 2 ^ 31"
    and "\<forall>q \<in> set qs. postings index q \<noteq> None" and "never_empty index qs (map snd ns)"
  shows "wp (MIProcessQuery_words index qs l) (\<lambda>ok h'. ok \<and> no_failures h' \<and> b \<le> brk h'
     \<and> (\<exists>ns'. ll_rep h' l ns' \<and> map snd ns' = refine_all index qs (map snd ns))) h"
  using assms
proof (induction qs arbitrary: h ns)
  case Nil
  then show ?case by (auto simp: wp_simps)
next
  case (Cons q qs)
  obtain m where m: "postings index q = Some m" using Cons.prems(6) by auto
  obtain wds where wds: "ht_wf (docIDs wds) b" "m = ht_map (docIDs wds)"
    and look: "wp (LookupHashTable index (FNVHash64 q)) (\<lambda>r s'. grown (malloc_state.truncate h) s'
       \<and> r = (1, Some \<lparr>ht_key = FNVHash64 q, ht_value = wds\<rparr>)) (malloc_state.truncate h)"
    using lookup_word [OF Cons.prems(1,2,4) m] by metis
  let ?R = "\<lambda>ok h'. ok \<and> no_failures h' \<and> b \<le> brk h' \<and> (\<exists>ns'. ll_rep h' l ns' \<and> map snd ns' = refine_all index (q # qs) (map snd ns))"
  show ?case
    unfolding MIProcessQuery_words.simps wp_bnd [of "on_alloc _"]
  proof (rule wp_on_alloc [OF look Cons.prems(4)])
    fix r b' assume r: "r = (1 :: int, Some \<lparr>ht_key = FNVHash64 q, ht_value = wds\<rparr>)" and b': "brk h \<le> b'"
    let ?h = "h\<lparr>brk := b'\<rparr>"
    have ns: "ns \<noteq> []" using Cons.prems(7) by auto
    note rep1 = ll_rep_brk [OF Cons.prems(3) b'] and nf1 = no_failures_set_brk [OF Cons.prems(4) b']
    have "wp (LLMakeIterator l 0) (\<lambda>it. wp (NumElementsInLinkedList l) (\<lambda>ne.
        wp (MIProcessQuery_inner (nat (sint ne)) (docIDs wds) it) (\<lambda>_.
        wp (LLIteratorFree it) (\<lambda>_. wp (MIProcessQuery_words index qs l) ?R)))) ?h"
    proof (rule wp_mono [OF MakeIterator_spec [OF rep1 ns nf1]], simp, goal_cases)
      case (1 it h2)
      then have rep2: "ll_rep h2 l ns" and nf2: "no_failures h2" and le2: "b' \<le> brk h2"
        and at2: "iter_at h2 it l (first_addr ns NULL)" by auto
      have le: "b \<le> brk h2" using Cons.prems(2) b' le2 by simp
      have rounds: "nat (sint (of_nat (length ns) :: HWSize_t)) = length ns"
        using Cons.prems(5) by (simp add: sint_of_nat_32)
      have "wp (MIProcessQuery_inner (length ns) (docIDs wds) it) (\<lambda>_ h'. no_failures h' \<and> brk h2 \<le> brk h' \<and> iters h' it \<noteq> None
          \<and> (\<exists>vs'. ll_rep h' l ([] @ vs') \<and> map snd vs' = refine (ht_map (docIDs wds)) (map snd ns))) h2"
        by (rule MIProcessQuery_inner_spec [OF wds(1) le _ nf2]) (use rep2 at2 in \<open>auto simp: iter_at_def\<close>)
      then have "wp (MIProcessQuery_inner (length ns) (docIDs wds) it) (\<lambda>_.
          wp (LLIteratorFree it) (\<lambda>_. wp (MIProcessQuery_words index qs l) ?R)) h2"
      proof (rule wp_mono, goal_cases)
        case (1 u h3)
        then obtain vs' where rep3: "ll_rep h3 l vs'" and vs': "map snd vs' = refine m (map snd ns)"
          and h3: "no_failures h3" "brk h2 \<le> brk h3" "iters h3 it \<noteq> None" by (auto simp: wds(2))
        let ?h3 = "h3\<lparr>iters := (iters h3)(it := None)\<rparr>"
        have "length vs' < 2 ^ 31"
          using length_refine [of m "map snd ns"] Cons.prems(5) vs' by (metis le_less_trans length_map)
        then have "wp (MIProcessQuery_words index qs l) (\<lambda>ok h'. ok \<and> no_failures h' \<and> b \<le> brk h'
           \<and> (\<exists>ns'. ll_rep h' l ns' \<and> map snd ns' = refine_all index qs (map snd vs'))) ?h3"
          by (intro Cons.IH [OF Cons.prems(1)])
            (use le h3 rep3 Cons.prems(6,7) m vs' in \<open>auto simp: no_failures_def ll_rep_def\<close>)
        then show ?case
          using h3 at2 by (auto simp: LLIteratorFree_def wp_simps iter_at_def vs' m elim!: wp_mono)
      qed
      then show ?case
        by (intro wp_mono [OF NumElements_spec [OF rep2]]) (simp add: rounds)
    qed
    then show "wp (case r of (res, kv) \<Rightarrow>
       if res = 0 then bnd (FreeLinkedList l 1) (\<lambda>_. ret False)
       else case kv of None \<Rightarrow> fail MemFault
         | Some kv \<Rightarrow>
           bnd (LLMakeIterator l 0) (\<lambda>llit.
           bnd (NumElementsInLinkedList l) (\<lambda>ne.
           bnd (MIProcessQuery_inner (nat (sint ne)) (docIDs (ht_value kv)) llit) (\<lambda>_.
           bnd (LLIteratorFree llit) (\<lambda>_.
           MIProcessQuery_words index qs l))))) ?R ?h"
      by (simp add: r wp_bnd)
  qed
qed

section \<open>What the results are\<close>

definition hits :: "MemIndex \<Rightarrow> cstring \<Rightarrow> DocID_t \<Rightarrow> DocPositionOffset_t list option" where
  "hits index w d = (case postings index w of None \<Rightarrow> None | Some m \<Rightarrow> m d)"

definition hit_count :: "MemIndex \<Rightarrow> DocID_t \<Rightarrow> cstring \<Rightarrow> HWSize_t" where
  "hit_count index d w = of_nat (length (the (hits index w d)))"

lemma hits_Some [simp]: "postings index w = Some m \<Longrightarrow> hits index w d = m d"
  by (simp add: hits_def)

lemma refine_mem:
  "sr \<in> set (refine m rs) \<longleftrightarrow> (\<exists>sr0 \<in> set rs. m (docid sr0) \<noteq> None
     \<and> sr = sr0\<lparr>rank := rank sr0 + of_nat (length (the (m (docid sr0))))\<rparr>)"
  by (auto simp: refine_def)

lemma refine_bex:
  "(\<exists>sr \<in> set (refine m rs). P sr) \<longleftrightarrow> (\<exists>sr0 \<in> set rs. m (docid sr0) \<noteq> None
     \<and> P (sr0\<lparr>rank := rank sr0 + of_nat (length (the (m (docid sr0))))\<rparr>))"
  by (auto simp: refine_def)

lemma refine_all_mem:
  assumes "\<forall>w \<in> set qs. postings index w \<noteq> None"
  shows "sr \<in> set (refine_all index qs rs) \<longleftrightarrow> (\<exists>sr0 \<in> set rs. (\<forall>w \<in> set qs. hits index w (docid sr0) \<noteq> None)
     \<and> sr = sr0\<lparr>rank := rank sr0 + (\<Sum>w\<leftarrow>qs. hit_count index (docid sr0) w)\<rparr>)"
  using assms
proof (induction qs arbitrary: rs)
  case (Cons q qs)
  then obtain m where m: "postings index q = Some m" by auto
  have "sr \<in> set (refine_all index (q # qs) rs) \<longleftrightarrow>
      (\<exists>sr0 \<in> set (refine m rs). (\<forall>w \<in> set qs. hits index w (docid sr0) \<noteq> None)
        \<and> sr = sr0\<lparr>rank := rank sr0 + (\<Sum>w\<leftarrow>qs. hit_count index (docid sr0) w)\<rparr>)"
    using Cons.IH [of "refine m rs"] Cons.prems m by simp
  then show ?case by (simp add: refine_bex m hit_count_def add.assoc conj_assoc)
qed auto

lemma refine_docids: "map docid (refine m rs) = filter (\<lambda>d. m d \<noteq> None) (map docid rs)"
  by (induction rs) (auto simp: refine_def)

lemma refine_all_distinct: "distinct (map docid rs) \<Longrightarrow> distinct (map docid (refine_all index qs rs))"
  by (induction qs arbitrary: rs) (simp_all add: refine_docids)

lemma never_empty_common:
  assumes "sr \<in> set rs" and "\<forall>w \<in> set (butlast qs). hits index w (docid sr) \<noteq> None"
    and "\<forall>w \<in> set qs. postings index w \<noteq> None"
  shows "never_empty index qs rs"
  using assms
proof (induction qs arbitrary: rs sr)
  case (Cons q qs)
  obtain m where m: "postings index q = Some m" using Cons.prems(3) by auto
  have "never_empty index qs (refine m rs)"
  proof (cases "qs = []")
    case False
    then have "m (docid sr) \<noteq> None" using Cons.prems(2) m by simp
    then have "sr\<lparr>rank := rank sr + of_nat (length (the (m (docid sr))))\<rparr> \<in> set (refine m rs)"
      using Cons.prems(1) by (auto simp: refine_mem)
    then show ?thesis using Cons.IH Cons.prems(2,3) False by fastforce
  qed simp
  then show ?case using Cons.prems(1) m by (cases rs) auto
qed simp

lemma compares_by_rank: "compares_by MISearchListComparator rank"
  by (auto simp: compares_by_def MISearchListComparator_def)

text \<open>The results of the first word, before the further ones.\<close>

definition first_results :: "DocPositionOffset_t list HashTableRecord \<Rightarrow> SearchResult list" where
  "first_results ids = rev (map result_of (entries ids))"

lemma first_results_mem:
  assumes "ht_wf ids b"
  shows "sr \<in> set (first_results ids) \<longleftrightarrow>
     (\<exists>ps. ht_map ids (docid sr) = Some ps \<and> rank sr = of_nat (length ps))"
    and "distinct (map docid (first_results ids))" and "length (first_results ids) = ht_count ids"
proof -
  have mem: "ht_map ids k = Some ps \<longleftrightarrow> (\<exists>kv \<in> set (entries ids). ht_key kv = k \<and> ht_value kv = ps)" for k ps
    by (simp add: ht_map_entries [OF assms] kv_map_mem [OF entries_distinct [OF assms]])
  show "sr \<in> set (first_results ids) \<longleftrightarrow> (\<exists>ps. ht_map ids (docid sr) = Some ps \<and> rank sr = of_nat (length ps))"
    by (cases sr) (auto simp: first_results_def result_of_def mem)
  have "map docid (first_results ids) = rev (map ht_key (entries ids))"
    by (simp add: first_results_def result_of_def rev_map comp_def)
  then show "distinct (map docid (first_results ids))" using entries_distinct [OF assms] by simp
  show "length (first_results ids) = ht_count ids" by (simp add: first_results_def ht_count_def)
qed

text \<open>A query up to the end of its first word.\<close>

definition after_first :: "MemIndex \<Rightarrow> cstring list \<Rightarrow> nat \<Rightarrow> nat query_cmd" where
  "after_first index qs retlist =
     (if qs = [] then bnd (SortLinkedList retlist 0 MISearchListComparator) (\<lambda>_. ret retlist)
      else bnd (MIProcessQuery_words index qs retlist) (\<lambda>ok.
        if \<not> ok then ret NULL
        else bnd (NumElementsInLinkedList retlist) (\<lambda>n.
          if n = 0 then bnd (FreeLinkedList retlist 1) (\<lambda>_. ret NULL)
          else bnd (SortLinkedList retlist 0 MISearchListComparator) (\<lambda>_. ret retlist))))"

lemma MIProcessQuery_start:
  assumes "mi_ok index b" and "b \<le> brk h" and "no_failures h" and "postings index q = Some m"
  shows "\<exists>ids l ns h'. MIProcessQuery index (q # qs) h = after_first index qs l h'
     \<and> ht_wf ids b \<and> m = ht_map ids \<and> 0 < ht_count ids
     \<and> ll_rep h' l ns \<and> map snd ns = first_results ids \<and> no_failures h' \<and> b \<le> brk h'"
proof -
  have "wp AllocateLinkedList (\<lambda>l h'. ll_rep h' l [] \<and> no_failures h' \<and> brk h \<le> brk h') h"
    by (rule wp_mono [OF Alloc_spec [OF assms(3)]]) (auto simp: ll_frame_def)
  then obtain l h1 where alloc: "AllocateLinkedList h = Inr (l, h1)"
    and h1: "ll_rep h1 l []" "no_failures h1" "brk h \<le> brk h1" by (auto simp: wp_iff)
  have le1: "b \<le> brk h1" using assms(2) h1(3) by simp
  obtain wds where wds: "ht_wf (docIDs wds) b" "m = ht_map (docIDs wds)" "0 < ht_count (docIDs wds)"
    and look: "wp (LookupHashTable index (FNVHash64 q)) (\<lambda>r s'. grown (malloc_state.truncate h1) s'
       \<and> r = (1, Some \<lparr>ht_key = FNVHash64 q, ht_value = wds\<rparr>)) (malloc_state.truncate h1)"
    using lookup_word [OF assms(1) le1 h1(2) assms(4)] by metis
  let ?ids = "docIDs wds"
  have "wp (on_alloc (LookupHashTable index (FNVHash64 q))) (\<lambda>r h'. r = (1, Some \<lparr>ht_key = FNVHash64 q, ht_value = wds\<rparr>)
      \<and> ll_rep h' l [] \<and> no_failures h' \<and> b \<le> brk h') h1"
    by (rule wp_on_alloc [OF look h1(2)])
      (use h1 le1 ll_rep_brk no_failures_set_brk in \<open>auto intro: order_trans\<close>)
  then obtain h2 where run2: "on_alloc (LookupHashTable index (FNVHash64 q)) h1 =
      Inr ((1, Some \<lparr>ht_key = FNVHash64 q, ht_value = wds\<rparr>), h2)"
    and h2: "ll_rep h2 l []" "no_failures h2" "b \<le> brk h2" by (auto simp: wp_iff)
  have wf2: "ht_wf ?ids (brk (malloc_state.truncate h2))" "no_failures (malloc_state.truncate h2)"
    using ht_wf_mono [OF wds(1) h2(3)] h2(2) by simp_all
  have "wp (on_alloc (HashTableMakeIterator ?ids)) (\<lambda>r h'. \<exists>it. r = Some it \<and> remaining ?ids it (entries ?ids)
      \<and> ll_rep h' l [] \<and> no_failures h' \<and> b \<le> brk h') h2"
    by (rule wp_on_alloc [OF HTMakeIterator_spec [OF wf2] h2(2)])
      (use h2 ll_rep_brk no_failures_set_brk in \<open>auto intro: order_trans\<close>)
  then obtain it h3 where run3: "on_alloc (HashTableMakeIterator ?ids) h2 = Inr (Some it, h3)"
    and h3: "remaining ?ids it (entries ?ids)" "ll_rep h3 l []" "no_failures h3" "b \<le> brk h3"
    by (auto simp: wp_iff)
  obtain r rs where es: "entries ?ids = r # rs" using wds(3) by (cases "entries ?ids") (auto simp: ht_count_def)
  have n: "unat (ht_num_elements ?ids) = length (r # rs)" "length (r # rs) < 2 ^ 32"
    using ht_wf_ne [OF wds(1)] ht_count_bound [OF wds(1)] es by (simp_all add: ht_count_def)
  have "wp (MIProcessQuery_first (unat (ht_num_elements ?ids)) ?ids it l) (\<lambda>_ h'. no_failures h' \<and> brk h3 \<le> brk h'
      \<and> (\<exists>ns'. ll_rep h' l ns' \<and> map snd ns' = rev (map result_of (r # rs)) @ map snd ([] :: SearchResult chain))) h3"
    by (rule MIProcessQuery_first_spec [OF wds(1) h3(4) _ h3(2,3)]) (use h3(1) es n in auto)
  then obtain h4 ns where run4: "MIProcessQuery_first (unat (ht_num_elements ?ids)) ?ids it l h3 = Inr ((), h4)"
    and h4: "no_failures h4" "brk h3 \<le> brk h4" "ll_rep h4 l ns" "map snd ns = first_results ?ids"
    by (auto simp: wp_iff first_results_def es)
  have "MIProcessQuery index (q # qs) h = after_first index qs l h4"
    by (simp add: MIProcessQuery_def after_first_def bnd_def alloc run2 run3 run4)
  moreover have "b \<le> brk h4" using h3(4) h4(2) by simp
  ultimately show ?thesis using wds h4(1,3,4) by blast
qed

lemma refined_first_mem:
  assumes "\<forall>w \<in> set qs. postings index w \<noteq> None" and "ht_wf ids b" and "postings index q = Some (ht_map ids)"
  shows "sr \<in> set (refine_all index qs (first_results ids)) \<longleftrightarrow>
     (\<forall>w \<in> set (q # qs). hits index w (docid sr) \<noteq> None)
     \<and> rank sr = (\<Sum>w\<leftarrow>q # qs. hit_count index (docid sr) w)"
    (is "?L \<longleftrightarrow> ?R")
proof -
  note mem = refine_all_mem [OF assms(1)] and fr = first_results_mem(1) [OF assms(2)]
  show ?thesis
  proof
    assume ?L
    then obtain sr0 where sr0: "sr0 \<in> set (first_results ids)" "\<forall>w \<in> set qs. hits index w (docid sr0) \<noteq> None"
      and sr: "sr = sr0\<lparr>rank := rank sr0 + (\<Sum>w\<leftarrow>qs. hit_count index (docid sr0) w)\<rparr>"
      unfolding mem by blast
    from sr0(1) obtain ps where "ht_map ids (docid sr0) = Some ps" "rank sr0 = of_nat (length ps)"
      unfolding fr by blast
    then show ?R using sr0(2) assms(3) by (simp add: sr hit_count_def)
  next
    assume R: ?R
    let ?sr0 = "\<lparr>docid = docid sr, rank = hit_count index (docid sr) q\<rparr>"
    have "?sr0 \<in> set (first_results ids)" using R assms(3) by (auto simp: fr hit_count_def)
    moreover have "sr = ?sr0\<lparr>rank := rank ?sr0 + (\<Sum>w\<leftarrow>qs. hit_count index (docid ?sr0) w)\<rparr>"
      using R by (cases sr) simp
    moreover have "\<forall>w \<in> set qs. hits index w (docid ?sr0) \<noteq> None" using R by simp
    ultimately show ?L unfolding mem by (intro bexI [of _ ?sr0] conjI)
  qed
qed

lemma refined_first_empty:
  assumes "\<forall>w \<in> set qs. postings index w \<noteq> None" and "ht_wf ids b" and "postings index q = Some (ht_map ids)"
  shows "refine_all index qs (first_results ids) = [] \<longleftrightarrow> \<not> (\<exists>d. \<forall>w \<in> set (q # qs). hits index w d \<noteq> None)"
proof -
  note mem = refined_first_mem [OF assms]
  let ?rs = "refine_all index qs (first_results ids)"
  have "\<lparr>docid = d, rank = (\<Sum>w\<leftarrow>q # qs. hit_count index d w)\<rparr> \<in> set ?rs"
    if "\<forall>w \<in> set (q # qs). hits index w d \<noteq> None" for d
    by (subst mem) (use that in simp)
  then have "?rs = [] \<Longrightarrow> \<not> (\<exists>d. \<forall>w \<in> set (q # qs). hits index w d \<noteq> None)" by fastforce
  moreover have "?rs = []" if "\<not> (\<exists>d. \<forall>w \<in> set (q # qs). hits index w d \<noteq> None)"
    using mem that by (metis last_in_set)
  ultimately show ?thesis by blast
qed

lemma sort_results:
  assumes "ll_rep h l ns"
  shows "wp (bnd (SortLinkedList l 0 MISearchListComparator) (\<lambda>_. ret l)) (\<lambda>r h'. r = l \<and>
     (\<exists>ns'. ll_rep h' l ns' \<and> mset (map snd ns') = mset (map snd ns) \<and> sorted (rev (map rank (map snd ns'))))
     \<and> same_but_nodes h h') h"
  unfolding wp_bnd
  by (rule wp_mono [OF SortLinkedList_by_key [OF assms compares_by_rank]]) (auto simp: wp_simps)

lemma after_first_spec:
  assumes "mi_ok index b" and "b \<le> brk h" and "ll_rep h l ns" and "no_failures h" and "length ns < 2 ^ 31"
    and "\<forall>q \<in> set qs. postings index q \<noteq> None" and "never_empty index qs (map snd ns)"
    and "ns \<noteq> []"
  shows "wp (after_first index qs l) (\<lambda>r h'. no_failures h' \<and> b \<le> brk h' \<and> (if refine_all index qs (map snd ns) = [] then r = NULL
     else \<exists>ns'. ll_rep h' r ns' \<and> mset (map snd ns') = mset (refine_all index qs (map snd ns))
       \<and> sorted (rev (map rank (map snd ns'))))) h"
proof (cases "qs = []")
  case True
  then show ?thesis
    unfolding after_first_def if_P [OF True]
    by (intro wp_mono [OF sort_results [OF assms(3)]])
      (use assms(2,4,8) in \<open>auto simp: same_but_nodes_def no_failures_def\<close>)
next
  case False
  show ?thesis
    unfolding after_first_def if_not_P [OF False] wp_bnd [of "MIProcessQuery_words _ _ _"]
  proof (rule wp_mono [OF MIProcessQuery_words_spec [OF assms(1-7)]], goal_cases)
    case (1 ok h2)
    then obtain ns2 where ok: ok and rep2: "ll_rep h2 l ns2" and ns2: "map snd ns2 = refine_all index qs (map snd ns)"
        and h2: "no_failures h2" "b \<le> brk h2"
      by blast
    have len: "length ns2 < 4294967296" using rep2 by (simp add: ll_rep_def chain_ok_def)
    have zero: "of_nat (length ns2) = (0 :: HWSize_t) \<longleftrightarrow> ns2 = []" using len by simp
    have "wp (if of_nat (length ns2) = (0 :: HWSize_t) then bnd (FreeLinkedList l 1) (\<lambda>_. ret NULL)
        else bnd (SortLinkedList l 0 MISearchListComparator) (\<lambda>_. ret l))
        (\<lambda>r h'. no_failures h' \<and> b \<le> brk h' \<and> (if refine_all index qs (map snd ns) = [] then r = NULL
           else \<exists>ns'. ll_rep h' r ns' \<and> mset (map snd ns') = mset (refine_all index qs (map snd ns))
             \<and> sorted (rev (map rank (map snd ns'))))) h2"
    proof (cases "ns2 = []")
      case True
      then have "refine_all index qs (map snd ns) = []" using ns2 by simp
      then show ?thesis
        using True h2 by (simp add: wp_bnd) (rule wp_mono [OF FreeLinkedList_spec [OF rep2]], simp_all add: wp_simps no_failures_def)
    next
      case False
      then have ne: "refine_all index qs (map snd ns) \<noteq> []" using ns2 by (metis map_is_Nil_conv)
      show ?thesis
        unfolding zero if_not_P [OF False] if_not_P [OF ne] ns2 [symmetric]
        by (rule wp_mono [OF sort_results [OF rep2]]) (use False h2 in \<open>auto simp: same_but_nodes_def no_failures_def\<close>)
    qed
    then show ?case
      using ok by (simp only: not_True_eq_False if_False wp_bnd [of "NumElementsInLinkedList l"])
        (rule wp_mono [OF NumElements_spec [OF rep2]], simp)
  qed
qed

lemma MIProcessQuery_run:
  assumes ok: "mi_ok index b" and le: "b \<le> brk h" and nf: "no_failures h"
    and words: "\<forall>w \<in> set (q # qs). postings index w \<noteq> None"
    and common: "\<exists>d. \<forall>w \<in> set (q # butlast qs). hits index w d \<noteq> None"
    and few: "card {d. hits index q d \<noteq> None} < 2 ^ 31"
  shows "\<exists>l h'. MIProcessQuery index (q # qs) h = Inr (l, h') \<and> no_failures h' \<and> b \<le> brk h' \<and>
     (if \<exists>d. \<forall>w \<in> set (q # qs). hits index w d \<noteq> None
      then \<exists>ns. ll_rep h' l ns \<and> distinct (map docid (map snd ns)) \<and> sorted (rev (map rank (map snd ns)))
         \<and> (\<forall>sr. sr \<in> set (map snd ns) \<longleftrightarrow> (\<forall>w \<in> set (q # qs). hits index w (docid sr) \<noteq> None)
              \<and> rank sr = (\<Sum>w\<leftarrow>q # qs. hit_count index (docid sr) w))
      else l = NULL)"
proof -
  obtain m where m: "postings index q = Some m" using words by auto
  obtain ids l ns h1 where start: "MIProcessQuery index (q # qs) h = after_first index qs l h1"
    and ids: "ht_wf ids b" "m = ht_map ids" "0 < ht_count ids"
    and h1: "ll_rep h1 l ns" "map snd ns = first_results ids" "no_failures h1" "b \<le> brk h1"
    using MIProcessQuery_start [OF ok le nf m] by blast
  note fr = first_results_mem [OF ids(1)]
  have hq: "hits index q d = ht_map ids d" for d using m ids(2) by simp
  have len: "length ns = ht_count ids" by (metis fr(3) h1(2) length_map)
  have "ht_count ids = card {d. hits index q d \<noteq> None}" using ht_count_card(1) [OF ids(1)] by (simp add: hq dom_def)
  with few len have short: "length ns < 2 ^ 31" by simp
  have ne: "ns \<noteq> []" using len ids(3) by auto
  have words': "\<forall>w \<in> set qs. postings index w \<noteq> None" using words by simp
  obtain d where d: "hits index q d \<noteq> None" "\<forall>w \<in> set (butlast qs). hits index w d \<noteq> None" using common by auto
  then obtain ps where "ht_map ids d = Some ps" by (auto simp: hq)
  then have "\<lparr>docid = d, rank = of_nat (length ps)\<rparr> \<in> set (map snd ns)" unfolding h1(2) fr(1) by simp
  from never_empty_common [OF this _ words'] d(2) have never: "never_empty index qs (map snd ns)" by simp
  let ?rs = "refine_all index qs (map snd ns)"
  have mem: "sr \<in> set ?rs \<longleftrightarrow> (\<forall>w \<in> set (q # qs). hits index w (docid sr) \<noteq> None)
       \<and> rank sr = (\<Sum>w\<leftarrow>q # qs. hit_count index (docid sr) w)" for sr
    by (rule refined_first_mem [OF words' ids(1) m [unfolded ids(2)], folded h1(2)])
  have dist: "distinct (map docid ?rs)" using refine_all_distinct fr(2) by (simp add: h1(2))
  have empty: "?rs = [] \<longleftrightarrow> \<not> (\<exists>d. \<forall>w \<in> set (q # qs). hits index w d \<noteq> None)"
    by (rule refined_first_empty [OF words' ids(1) m [unfolded ids(2)], folded h1(2)])
  obtain l' h' where run: "after_first index qs l h1 = Inr (l', h')"
    and h': "no_failures h'" "b \<le> brk h'" and post: "if ?rs = [] then l' = NULL
     else \<exists>ns'. ll_rep h' l' ns' \<and> mset (map snd ns') = mset ?rs \<and> sorted (rev (map rank (map snd ns')))"
    using after_first_spec [OF ok h1(4,1,3) short words' never ne] unfolding wp_iff by blast
  show ?thesis
  proof (cases "?rs = []")
    case True
    then have none: "\<not> (\<exists>d. \<forall>w \<in> set (q # qs). hits index w d \<noteq> None)" using empty by simp
    show ?thesis unfolding if_not_P [OF none] using start run post h' True by simp
  next
    case False
    then obtain ns' where ns': "ll_rep h' l' ns'" "mset (map snd ns') = mset ?rs" "sorted (rev (map rank (map snd ns')))"
      using post by auto
    have "distinct (map docid (map snd ns'))"
      using dist ns'(2) by (metis mset_eq_imp_distinct_iff mset_map)
    moreover have "set (map snd ns') = set ?rs" using ns'(2) by (metis set_mset_mset)
    moreover have some: "\<exists>d. \<forall>w \<in> set (q # qs). hits index w d \<noteq> None" using False empty by simp
    ultimately have "ll_rep h' l' ns' \<and> distinct (map docid (map snd ns')) \<and> sorted (rev (map rank (map snd ns')))
         \<and> (\<forall>sr. sr \<in> set (map snd ns') \<longleftrightarrow> (\<forall>w \<in> set (q # qs). hits index w (docid sr) \<noteq> None)
              \<and> rank sr = (\<Sum>w\<leftarrow>q # qs. hit_count index (docid sr) w))"
      using ns' mem by (simp only: simp_thms)
    then show ?thesis unfolding if_P [OF some] using start run h' by metis
  qed
qed

section \<open>Properties\<close>


text \<open>A store without lists and an index of the word \<open>a\<close>, which occurs in document 1 at offset 7.\<close>

definition heap_example :: "SearchResult ll_heap" where
  "heap_example = \<lparr>brk = 20, outcomes = [], nodes = Map.empty, heads = Map.empty, iters = Map.empty, freed = []\<rparr>"

definition docs_example :: "DocPositionOffset_t list HashTableRecord" where
  "docs_example = \<lparr>num_buckets = 1, ht_num_elements = 1, buckets = [[(5, \<lparr>ht_key = 1, ht_value = [7]\<rparr>)]]\<rparr>"

definition index_example :: MemIndex where
  "index_example = \<lparr>num_buckets = 1, ht_num_elements = 1,
     buckets = [[(3, \<lparr>ht_key = FNVHash64 [97], ht_value = \<lparr>wds_word = [97], docIDs = docs_example\<rparr>\<rparr>)]]\<rparr>"

lemma docs_example_wf: "ht_wf docs_example 20" "ht_map docs_example = [1 \<mapsto> [7]]" "ht_count docs_example = 1"
  by (auto simp: docs_example_def ht_wf_def chain_wf_def chain_ok_def entries_def bucket_of_def
      ht_map_def ht_count_def)

lemma index_example_map: "ht_map index_example = [FNVHash64 [97] \<mapsto> \<lparr>wds_word = [97], docIDs = docs_example\<rparr>]"
  by (auto simp: index_example_def ht_map_def bucket_of_def)

lemma index_example_ok: "mi_ok index_example 20"
proof -
  have "ht_wf index_example 20"
    by (auto simp: index_example_def ht_wf_def chain_wf_def chain_ok_def entries_def bucket_of_def)
  then show ?thesis by (auto simp: mi_ok_def index_example_map docs_example_wf split: if_splits)
qed

lemma index_example_hits:
  "postings index_example [97] = Some [1 \<mapsto> [7]]" "hits index_example [97] = [1 \<mapsto> [7]]"
  by (auto simp: postings_def index_example_map docs_example_wf hits_def)


section \<open>Adding postings\<close>

lemma AddPosting_doc_spec:
  assumes wf: "ht_wf index (brk s)" and wds: "ht_map index k = Some wds" and docs: "ht_wf (docIDs wds) (brk s)"
    and nf: "no_failures s" and room: "ht_count (docIDs wds) + 1 < 2 ^ 32" and new: "ht_map (docIDs wds) d = None"
  shows "wp (MIAddPostingList_doc index k wds d ps) (\<lambda>(r, index') s'. r = 1 \<and> grown s s' \<and>
     (\<exists>ids. ht_wf ids (brk s') \<and> ht_map ids = (ht_map (docIDs wds))(d \<mapsto> ps) \<and> 0 < ht_count ids
       \<and> ht_wf index' (brk s') \<and> ht_map index' = (ht_map index)(k \<mapsto> wds\<lparr>docIDs := ids\<rparr>))) s"
  unfolding MIAddPostingList_doc_def wp_bnd [of "LookupHashTable _ _"]
proof (rule wp_mono [OF Lookup_spec [OF docs nf]], goal_cases)
  case (1 x s1)
  then have x: "x = (0, None)" and g1: "grown s s1" and nf1: "no_failures s1" using new by (auto simp: grown_def)
  have "wp (InsertHashTable (docIDs wds) \<lparr>ht_key = d, ht_value = ps\<rparr>) (\<lambda>y s'. fst y = 1 \<and> grown s s'
      \<and> ht_wf (fst (snd y)) (brk s') \<and> ht_map (fst (snd y)) = (ht_map (docIDs wds))(d \<mapsto> ps) \<and> 0 < ht_count (fst (snd y))
      \<and> ht_wf index (brk s')) s1"
    by (rule wp_mono [OF Insert_spec [OF ht_wf_grown [OF docs g1] nf1 room]])
      (auto simp: insert_post_def new intro: grown_trans [OF g1] ht_wf_grown [OF ht_wf_grown [OF wf g1]])
  moreover have "ht_map (update_value k f index) = (ht_map index)(k \<mapsto> f wds)" for f
    by (rule ext) (simp add: update_value_map [OF wf] wds)
  ultimately show ?case
    by (simp add: x wp_simps split_beta) (elim wp_mono, auto intro: update_value_wf)
qed

definition posting_post ::
    "malloc_state \<Rightarrow> MemIndex \<Rightarrow> HTKey_t \<Rightarrow> DocID_t \<Rightarrow> DocPositionOffset_t list \<Rightarrow> WordDocSet \<Rightarrow> int \<times> MemIndex \<Rightarrow> malloc_state \<Rightarrow> bool" where
  "posting_post s index k d ps wds = (\<lambda>(r, index') s'. r = 1 \<and> grown s s' \<and> mi_ok index' (brk s') \<and>
     (\<exists>ids. ht_map ids = (ht_map (docIDs wds))(d \<mapsto> ps) \<and> ht_map index' = (ht_map index)(k \<mapsto> wds\<lparr>docIDs := ids\<rparr>)))"

lemma AddPosting_tail:
  assumes ok: "mi_ok index (brk s)" and g: "grown s s1" and wf: "ht_wf index1 (brk s1)"
    and map: "ht_map index1 = (ht_map index)(k \<mapsto> wds)" and key: "FNVHash64 (wds_word wds) = k"
    and docs: "ht_wf (docIDs wds) (brk s1)" and room: "ht_count (docIDs wds) + 1 < 2 ^ 32"
    and new: "ht_map (docIDs wds) d = None"
  shows "wp (MIAddPostingList_doc index1 k wds d ps) (posting_post s index k d ps wds) s1"
proof -
  have other: "mi_ok index (brk s2)" if "grown s1 s2" for s2
    using mi_ok_mono [OF ok] g that by (simp add: grown_def)
  have nf: "no_failures s1" using g by (simp add: grown_def)
  have k: "ht_map index1 k = Some wds" by (simp add: map)
  show ?thesis
  proof (rule wp_mono [OF AddPosting_doc_spec [OF wf k docs nf room new]], goal_cases)
    case (1 x s2)
    obtain r index' where x: "x = (r, index')" by (cases x)
    obtain ids where ids: "r = 1" "grown s1 s2" "ht_wf ids (brk s2)" "ht_map ids = (ht_map (docIDs wds))(d \<mapsto> ps)"
        "0 < ht_count ids" "ht_wf index' (brk s2)" "ht_map index' = (ht_map index)(k \<mapsto> wds\<lparr>docIDs := ids\<rparr>)"
      using 1 by (auto simp: x map)
    then have "mi_ok index' (brk s2)" using other [OF ids(2)] key by (auto simp: mi_ok_def)
    then show ?case using ids grown_trans [OF g ids(2)] by (auto simp: posting_post_def x)
  qed
qed

lemma AddPosting_known:
  assumes ok: "mi_ok index (brk s)" and nf: "no_failures s" and wds: "ht_map index (FNVHash64 w) = Some wds"
    and new: "ht_map (docIDs wds) d = None" and room: "ht_count (docIDs wds) + 1 < 2 ^ 32"
  shows "wp (MIAddPostingList index w d ps) (posting_post s index (FNVHash64 w) d ps wds) s"
  unfolding MIAddPostingList_def Let_def wp_bnd [of "LookupHashTable _ _"]
proof (rule wp_mono [OF Lookup_spec], goal_cases)
  case (3 x s1)
  then have g1: "grown s s1" and x: "x = (1, Some \<lparr>ht_key = FNVHash64 w, ht_value = wds\<rparr>)" by (auto simp: wds)
  have "ht_wf index (brk s)" using ok by (simp add: mi_ok_def)
  then have "wp (MIAddPostingList_doc index (FNVHash64 w) wds d ps) (posting_post s index (FNVHash64 w) d ps wds) s1"
    using ok wds by (intro AddPosting_tail [OF ok g1 _ _ _ _ room new])
      (auto simp: mi_ok_def fun_upd_idem intro: ht_wf_grown [OF _ g1])
  then show ?case by (simp add: x)
qed (use ok nf in \<open>auto simp: mi_ok_def\<close>)

lemma AddPosting_first:
  assumes ok: "mi_ok index (brk s)" and nf: "no_failures s" and none: "ht_map index (FNVHash64 w) = None"
    and room: "ht_count index + 1 < 2 ^ 32"
  shows "wp (MIAddPostingList index w d ps)
     (posting_post s index (FNVHash64 w) d ps \<lparr>wds_word = w, docIDs = empty_table 32\<rparr>) s"
  unfolding MIAddPostingList_def Let_def wp_bnd [of "LookupHashTable _ _"]
proof (rule wp_mono [OF Lookup_spec], goal_cases)
  case (3 x s1)
  let ?k = "FNVHash64 w" and ?wds = "\<lparr>wds_word = w, docIDs = empty_table 32\<rparr>"
  let ?s = "s1\<lparr>brk := Suc (brk s1)\<rparr>"
  have wf: "ht_wf index (brk s)" using ok by (simp add: mi_ok_def)
  have g1: "grown s s1" and nf1: "no_failures s1" and x: "x = (0, None)" using 3 none by (auto simp: grown_def)
  have s: "no_failures ?s" "grown s ?s" using grown_trans [OF g1] nf1 by simp_all
  have "wp (AllocateHashTable 32) (\<lambda>r s2. r = Some (empty_table 32 :: DocPositionOffset_t list HashTableRecord) \<and>
      wp (InsertHashTable index \<lparr>ht_key = ?k, ht_value = ?wds\<rparr>) (\<lambda>y s'. fst y = 1
        \<and> wp (MIAddPostingList_doc (fst (snd y)) ?k ?wds d ps) (posting_post s index ?k d ps ?wds) s') s2) ?s"
  proof (rule wp_mono [OF Allocate_spec [OF s(1)]], goal_cases)
    case (1 r s2)
    then have g2: "grown s s2" and nf2: "no_failures s2" using grown_trans [OF s(2)] by (auto simp: grown_def)
    have "wp (InsertHashTable index \<lparr>ht_key = ?k, ht_value = ?wds\<rparr>) (\<lambda>y s'. fst y = 1
        \<and> wp (MIAddPostingList_doc (fst (snd y)) ?k ?wds d ps) (posting_post s index ?k d ps ?wds) s') s2"
      by (rule wp_mono [OF Insert_spec [OF ht_wf_grown [OF wf g2] nf2 room]])
        (auto simp: insert_post_def none empty_table_wf intro!: AddPosting_tail [OF ok] intro: grown_trans [OF g2])
    then show ?case using 1 by simp
  qed
  then show ?case
    using nf1 no_failures_brk [OF nf1]
    by (simp add: x wp_simps) (elim wp_mono, auto simp: wp_simps split_beta)
qed (use ok nf in \<open>auto simp: mi_ok_def\<close>)

text \<open>The words that the sets of the index carry.\<close>

definition stored_words :: "MemIndex \<Rightarrow> cstring set" where
  "stored_words index = {w. \<exists>k wds. ht_map index k = Some wds \<and> wds_word wds = w}"

lemma stored_words_update:
  "v \<in> stored_words index' \<Longrightarrow> ht_map index' = (ht_map index)(k \<mapsto> wds) \<Longrightarrow> v = wds_word wds \<or> v \<in> stored_words index"
  by (auto simp: stored_words_def split: if_splits)

lemma AddPosting_run:
  assumes ok: "mi_ok index (brk s)" and nf: "no_failures s" and new: "hits index w d = None"
    and room: "ht_count index + 1 < 2 ^ 32"
      "\<forall>wds. ht_map index (FNVHash64 w) = Some wds \<longrightarrow> ht_count (docIDs wds) + 1 < 2 ^ 32"
  shows "wp (MIAddPostingList index w d ps) (\<lambda>(r, index') s'. r = 1 \<and> grown s s' \<and> mi_ok index' (brk s')
      \<and> dom (ht_map index') = insert (FNVHash64 w) (dom (ht_map index))
      \<and> stored_words index' \<subseteq> insert w (stored_words index)
      \<and> (\<forall>v. postings index' v = (if FNVHash64 v = FNVHash64 w
           then Some ((case postings index w of None \<Rightarrow> Map.empty | Some m \<Rightarrow> m)(d \<mapsto> ps)) else postings index v))) s"
proof (cases "ht_map index (FNVHash64 w)")
  case None
  show ?thesis
    by (rule wp_mono [OF AddPosting_first [OF ok nf None room(1), of d ps]])
      (auto simp: posting_post_def postings_def empty_table_wf None split: if_splits dest: stored_words_update)
next
  case (Some wds)
  then have stored: "wds_word wds \<in> stored_words index" by (auto simp: stored_words_def)
  from Some have new': "ht_map (docIDs wds) d = None" "ht_count (docIDs wds) + 1 < 2 ^ 32"
    using new room(2) by (auto simp: hits_def postings_def)
  show ?thesis
    by (rule wp_mono [OF AddPosting_known [OF ok nf Some new', of ps]])
      (use stored in \<open>auto simp: posting_post_def postings_def Some split: if_splits dest: stored_words_update\<close>)
qed

text \<open>
  adding a posting for a document the word has no entry for returns 1 and makes the document
  the only new one of that word, with the given positions; every word with another hash keeps its
  documents, and the index stays well formed.
\<close>

theorem add_posting_list:
  assumes ok: "mi_ok index (brk s)" and nf: "no_failures s" and new: "hits index w d = None"
    and room: "ht_count index + 1 < 2 ^ 32"
      "\<forall>wds. ht_map index (FNVHash64 w) = Some wds \<longrightarrow> ht_count (docIDs wds) + 1 < 2 ^ 32"
  shows "\<exists>index' s'. MIAddPostingList index w d ps s = Inr ((1, index'), s') \<and> mi_ok index' (brk s')
      \<and> (\<forall>v. postings index' v = (if FNVHash64 v = FNVHash64 w
           then Some ((case postings index w of None \<Rightarrow> Map.empty | Some m \<Rightarrow> m)(d \<mapsto> ps)) else postings index v))"
  using AddPosting_run [OF assms, of ps] unfolding wp_iff by blast

theorem add_posting_list_witness:
  "\<exists>index' s'. MIAddPostingList index_example [97] 2 [4] ms_example = Inr ((1, index'), s')
      \<and> postings index' [97] = Some [1 \<mapsto> [7], 2 \<mapsto> [4]]"
proof -
  have "ht_count index_example = 1" by (simp add: index_example_def ht_count_def entries_def)
  then have "\<exists>index' s'. MIAddPostingList index_example [97] 2 [4] ms_example = Inr ((1, index'), s') \<and> mi_ok index' (brk s')
      \<and> (\<forall>v. postings index' v = (if FNVHash64 v = FNVHash64 [97]
           then Some ((case postings index_example [97] of None \<Rightarrow> Map.empty | Some m \<Rightarrow> m)(2 \<mapsto> [4])) else postings index_example v))"
    by (intro add_posting_list)
      (use index_example_ok in \<open>auto simp: ms_example_def no_failures_def index_example_hits index_example_map docs_example_wf\<close>)
  then show ?thesis by (auto simp: index_example_hits)
qed

section \<open>A query that ends the process\<close>

lemma words_append:
  "MIProcessQuery_words index (ps @ qs) l =
     bnd (MIProcessQuery_words index ps l) (\<lambda>ok. if ok then MIProcessQuery_words index qs l else ret False)"
proof (induction ps)
  case (Cons p ps)
  then show ?case
    by (simp add: bnd_bnd split_def if_distrib [of "\<lambda>c. bnd c _"] option.case_distrib [of "\<lambda>c. bnd c _"]
        cong: if_cong option.case_cong)
qed simp

lemma words_no_results:
  assumes "mi_ok index b" and "b \<le> brk h" and "ll_rep h l []" and "no_failures h" and "postings index q \<noteq> None"
  shows "MIProcessQuery_words index (q # qs) l h = Inl VerifyFailure"
proof -
  obtain m where "postings index q = Some m" using assms(5) by blast
  then obtain wds where look: "wp (LookupHashTable index (FNVHash64 q)) (\<lambda>r s'. grown (malloc_state.truncate h) s'
       \<and> r = (1, Some \<lparr>ht_key = FNVHash64 q, ht_value = wds\<rparr>)) (malloc_state.truncate h)"
    using lookup_word [OF assms(1,2,4)] by metis
  have "wp (on_alloc (LookupHashTable index (FNVHash64 q))) (\<lambda>r h'. r = (1, Some \<lparr>ht_key = FNVHash64 q, ht_value = wds\<rparr>)
      \<and> ll_rep h' l []) h"
    by (rule wp_on_alloc [OF look assms(4)]) (use ll_rep_brk [OF assms(3)] in auto)
  then obtain h1 where run: "on_alloc (LookupHashTable index (FNVHash64 q)) h =
      Inr ((1, Some \<lparr>ht_key = FNVHash64 q, ht_value = wds\<rparr>), h1)" and rep: "ll_rep h1 l []"
    by (auto simp: wp_iff)
  have it: "LLMakeIterator l 0 h1 = Inr (NULL, h1)" by (rule MakeIterator_empty [OF rep]) simp
  have n: "NumElementsInLinkedList l h1 = Inr (0, h1)"
    using NumElements_spec [OF rep] by (auto simp: wp_iff)
  show ?thesis
    by (simp add: bnd_def [of "on_alloc _"] run, simp add: bnd_def it n run_simps LLIteratorFree_def)
qed

section \<open>Queries with words that are not indexed\<close>

lemma AllocateLinkedList_run:
  assumes "no_failures h"
  shows "\<exists>l h'. AllocateLinkedList h = Inr (l, h') \<and> ll_rep h' l [] \<and> no_failures h' \<and> brk h \<le> brk h'"
proof -
  have "wp AllocateLinkedList (\<lambda>l h'. ll_rep h' l [] \<and> no_failures h' \<and> brk h \<le> brk h') h"
    by (rule wp_mono [OF Alloc_spec [OF assms]]) (auto simp: ll_frame_def)
  then show ?thesis by (auto simp: wp_iff)
qed

lemma lookup_missing:
  assumes "mi_ok index b" and "b \<le> brk h" and "no_failures h" and "postings index q = None" and "ll_rep h l ns"
  shows "\<exists>h'. on_alloc (LookupHashTable index (FNVHash64 q)) h = Inr ((0, None), h') \<and> no_failures h' \<and> b \<le> brk h' \<and> ll_rep h' l ns"
proof -
  have wf: "ht_wf index (brk (malloc_state.truncate h))" and nft: "no_failures (malloc_state.truncate h)"
    using ht_wf_mono [OF _ assms(2)] assms(1,3) by (auto simp: mi_ok_def)
  have none: "ht_map index (FNVHash64 q) = None" using assms(4) by (simp add: postings_def)
  have "wp (LookupHashTable index (FNVHash64 q)) (\<lambda>x s'. grown (malloc_state.truncate h) s' \<and> x = (0, None)) (malloc_state.truncate h)"
    by (rule wp_mono [OF Lookup_spec [OF wf nft]]) (simp add: none)
  then have "wp (on_alloc (LookupHashTable index (FNVHash64 q))) (\<lambda>x h'. x = (0, None) \<and> no_failures h' \<and> b \<le> brk h' \<and> ll_rep h' l ns) h"
    by (rule wp_on_alloc [OF _ assms(3)]) (use assms ll_rep_brk no_failures_set_brk in \<open>auto intro: order_trans\<close>)
  then show ?thesis by (auto simp: wp_iff)
qed

lemma free_results:
  assumes "ll_rep h l ns" and "no_failures h" and "b \<le> brk h"
  shows "\<exists>h'. FreeLinkedList l 1 h = Inr ((), h') \<and> no_failures h' \<and> b \<le> brk h'"
  using FreeLinkedList_spec [OF assms(1), of 1] assms(2,3) unfolding wp_iff by (auto simp: no_failures_def)

lemma words_missing:
  assumes "mi_ok index b" and "b \<le> brk h" and "no_failures h" and "postings index q = None" and "ll_rep h l ns"
  shows "\<exists>h'. MIProcessQuery_words index (q # qs) l h = Inr (False, h') \<and> no_failures h' \<and> b \<le> brk h'"
proof -
  obtain h1 where h1: "on_alloc (LookupHashTable index (FNVHash64 q)) h = Inr ((0, None), h1)" "no_failures h1" "b \<le> brk h1" "ll_rep h1 l ns"
    using lookup_missing [OF assms] by blast
  obtain h2 where "FreeLinkedList l 1 h1 = Inr ((), h2)" "no_failures h2" "b \<le> brk h2" using free_results [OF h1(4,2,3)] by blast
  then show ?thesis by (simp add: bnd_def h1(1) ret_run)
qed

lemma MIProcessQuery_first_missing:
  assumes "mi_ok index b" and "b \<le> brk h" and "no_failures h" and "postings index q = None"
  shows "\<exists>h'. MIProcessQuery index (q # qs) h = Inr (NULL, h') \<and> no_failures h' \<and> b \<le> brk h'"
proof -
  obtain l h1 where h1: "AllocateLinkedList h = Inr (l, h1)" "ll_rep h1 l []" "no_failures h1" "brk h \<le> brk h1"
    using AllocateLinkedList_run [OF assms(3)] by blast
  have le: "b \<le> brk h1" using assms(2) h1(4) by simp
  obtain h2 where h2: "on_alloc (LookupHashTable index (FNVHash64 q)) h1 = Inr ((0, None), h2)" "no_failures h2" "b \<le> brk h2" "ll_rep h2 l []"
    using lookup_missing [OF assms(1) le h1(3) assms(4) h1(2)] by blast
  obtain h3 where "FreeLinkedList l 1 h2 = Inr ((), h3)" "no_failures h3" "b \<le> brk h3" using free_results [OF h2(4,2,3)] by blast
  then show ?thesis by (simp add: MIProcessQuery_def bnd_def h1(1) h2(1) ret_run)
qed

lemma MIProcessQuery_later_missing:
  assumes ok: "mi_ok index b" and le: "b \<le> brk h" and nf: "no_failures h"
    and words: "\<forall>v \<in> set (q # ps). postings index v \<noteq> None" and none: "postings index w = None"
    and common: "\<exists>d. \<forall>v \<in> set (butlast (q # ps)). hits index v d \<noteq> None"
    and few: "card {d. hits index q d \<noteq> None} < 2 ^ 31"
  shows "\<exists>h'. MIProcessQuery index (q # ps @ w # qs) h = Inr (NULL, h') \<and> no_failures h' \<and> b \<le> brk h'"
proof -
  obtain m where m: "postings index q = Some m" using words by auto
  obtain ids l ns h1 where start: "MIProcessQuery index (q # ps @ w # qs) h = after_first index (ps @ w # qs) l h1"
    and ids: "ht_wf ids b" "m = ht_map ids" "0 < ht_count ids"
    and h1: "ll_rep h1 l ns" "map snd ns = first_results ids" "no_failures h1" "b \<le> brk h1"
    using MIProcessQuery_start [OF ok le nf m] by blast
  note fr = first_results_mem [OF ids(1)]
  have hq: "hits index q d = ht_map ids d" for d using m ids(2) by simp
  have len: "length ns = ht_count ids" by (metis fr(3) h1(2) length_map)
  have "ht_count ids = card {d. hits index q d \<noteq> None}" using ht_count_card(1) [OF ids(1)] by (simp add: hq dom_def)
  with few len have short: "length ns < 2 ^ 31" by simp
  have words': "\<forall>w \<in> set ps. postings index w \<noteq> None" using words by simp
  have never: "never_empty index ps (map snd ns)"
  proof (cases "ps = []")
    case False
    then obtain d where d: "hits index q d \<noteq> None" "\<forall>w \<in> set (butlast ps). hits index w d \<noteq> None" using common by auto
    then obtain p where "ht_map ids d = Some p" by (auto simp: hq)
    then have "\<lparr>docid = d, rank = of_nat (length p)\<rparr> \<in> set (map snd ns)" unfolding h1(2) fr(1) by simp
    from never_empty_common [OF this _ words'] d(2) show ?thesis by simp
  qed simp
  obtain h2 ns2 where h2: "MIProcessQuery_words index ps l h1 = Inr (True, h2)" "no_failures h2" "b \<le> brk h2" "ll_rep h2 l ns2"
    using MIProcessQuery_words_spec [OF ok h1(4,1,3) short words' never] unfolding wp_iff by auto
  obtain h3 where h3: "MIProcessQuery_words index (w # qs) l h2 = Inr (False, h3)" "no_failures h3" "b \<le> brk h3"
    using words_missing [OF ok h2(3,2) none h2(4)] by blast
  have "MIProcessQuery_words index (ps @ w # qs) l h1 = Inr (False, h3)"
    unfolding words_append by (simp add: bnd_def h2(1) h3(1) del: MIProcessQuery_words.simps)
  then show ?thesis using h3(2,3) by (simp add: start after_first_def bnd_def ret_run)
qed

text \<open>
  A query is answered by the documents that contain all its words.  It is safe when the indexed words
  before the first missing one, but for the last of them, have a document in common.
\<close>

definition query_safe :: "MemIndex \<Rightarrow> cstring list \<Rightarrow> bool" where
  "query_safe index ws \<longleftrightarrow> (\<exists>d. \<forall>w \<in> set (butlast (takeWhile (\<lambda>w. postings index w \<noteq> None) ws)). hits index w d \<noteq> None)"

definition answers :: "MemIndex \<Rightarrow> cstring list \<Rightarrow> SearchResult \<Rightarrow> bool" where
  "answers index ws sr \<longleftrightarrow> ws \<noteq> [] \<and> (\<forall>w \<in> set ws. hits index w (docid sr) \<noteq> None) \<and> rank sr = (\<Sum>w\<leftarrow>ws. hit_count index (docid sr) w)"

lemma answers_ex: "(\<exists>sr. answers index ws sr) \<longleftrightarrow> ws \<noteq> [] \<and> (\<exists>d. \<forall>w \<in> set ws. hits index w d \<noteq> None)"
proof
  assume "ws \<noteq> [] \<and> (\<exists>d. \<forall>w \<in> set ws. hits index w d \<noteq> None)"
  then obtain d where "ws \<noteq> []" "\<forall>w \<in> set ws. hits index w d \<noteq> None" by blast
  then have "answers index ws \<lparr>docid = d, rank = (\<Sum>w\<leftarrow>ws. hit_count index d w)\<rparr>" by (simp add: answers_def)
  then show "\<exists>sr. answers index ws sr" by blast
qed (auto simp: answers_def)

lemma MIProcessQuery_total:
  assumes ok: "mi_ok index b" and le: "b \<le> brk h" and nf: "no_failures h" and safe: "query_safe index ws"
    and few: "\<forall>w \<in> set ws. card {d. hits index w d \<noteq> None} < 2 ^ 31"
  shows "\<exists>l h'. MIProcessQuery index ws h = Inr (l, h') \<and> no_failures h' \<and> b \<le> brk h' \<and>
     (if \<exists>sr. answers index ws sr
      then \<exists>ns. ll_rep h' l ns \<and> distinct (map docid (map snd ns)) \<and> sorted (rev (map rank (map snd ns)))
         \<and> (\<forall>sr. sr \<in> set (map snd ns) \<longleftrightarrow> answers index ws sr)
      else l = NULL)"
proof (cases "\<forall>w \<in> set ws. postings index w \<noteq> None")
  case True
  then have common: "\<exists>d. \<forall>w \<in> set (butlast ws). hits index w d \<noteq> None" using safe by (simp add: query_safe_def takeWhile_eq_all_conv [THEN iffD2])
  show ?thesis
  proof (cases ws)
    case Nil
    then show ?thesis using nf le by (simp add: MIProcessQuery_def ret_run answers_def)
  next
    case (Cons q qs)
    obtain m where m: "postings index q = Some m" using True Cons by auto
    obtain d0 where "m d0 \<noteq> None"
    proof -
      obtain wds where w: "ht_map index (FNVHash64 q) = Some wds" "m = ht_map (docIDs wds)" using m by (auto simp: postings_def)
      then have wds: "ht_wf (docIDs wds) b" "0 < ht_count (docIDs wds)" using ok by (auto simp: mi_ok_def)
      then have "dom m \<noteq> {}" using ht_count_card [OF wds(1)] w(2) by auto
      then show thesis using that by (auto simp del: dom_eq_empty_conv)
    qed
    then have c: "\<exists>d. \<forall>w \<in> set (q # butlast qs). hits index w d \<noteq> None"
      using common m Cons by (cases "qs = []") auto
    have f: "card {d. hits index q d \<noteq> None} < 2 ^ 31" using few Cons by simp
    note MIProcessQuery_run [OF ok le nf True [unfolded Cons] c f]
    moreover have "answers index ws sr \<longleftrightarrow> (\<forall>w \<in> set (q # qs). hits index w (docid sr) \<noteq> None)
        \<and> rank sr = (\<Sum>w\<leftarrow>q # qs. hit_count index (docid sr) w)" for sr by (simp add: answers_def Cons)
    moreover have "(\<exists>sr. answers index ws sr) \<longleftrightarrow> (\<exists>d. \<forall>w \<in> set (q # qs). hits index w d \<noteq> None)" unfolding answers_ex by (simp add: Cons)
    ultimately show ?thesis by (simp only: Cons)
  qed
next
  case False
  let ?ps = "takeWhile (\<lambda>w. postings index w \<noteq> None) ws"
  obtain w qs where ws: "ws = ?ps @ w # qs" "postings index w = None"
  proof -
    have "dropWhile (\<lambda>w. postings index w \<noteq> None) ws \<noteq> []" using False by (auto simp: dropWhile_eq_Nil_conv)
    then obtain w qs where d: "dropWhile (\<lambda>w. postings index w \<noteq> None) ws = w # qs" by (cases "dropWhile (\<lambda>w. postings index w \<noteq> None) ws") auto
    then have "\<not> postings index w \<noteq> None" using hd_dropWhile [of "\<lambda>w. postings index w \<noteq> None" ws] by (metis list.distinct(1) list.sel(1))
    then have none: "postings index w = None" by blast
    have "ws = ?ps @ w # qs" unfolding d [symmetric] by (rule takeWhile_dropWhile_id [symmetric])
    then show thesis using none by (rule that)
  qed
  have all: "\<forall>v \<in> set ?ps. postings index v \<noteq> None" by (auto dest: set_takeWhileD)
  have "w \<in> set ws" by (subst ws(1)) simp
  moreover have "hits index w d = None" for d using ws(2) by (simp add: hits_def)
  ultimately have no: "\<not> (\<exists>sr. answers index ws sr)" by (auto simp: answers_def)
  have "\<exists>h'. MIProcessQuery index ws h = Inr (NULL, h') \<and> no_failures h' \<and> b \<le> brk h'"
  proof (cases ?ps)
    case Nil
    have "ws = w # qs" by (rule ws(1) [unfolded Nil append_Nil])
    then show ?thesis using MIProcessQuery_first_missing [OF ok le nf ws(2), of qs] by simp
  next
    case (Cons q ps)
    have "\<exists>d. \<forall>v \<in> set (butlast (q # ps)). hits index v d \<noteq> None" using safe unfolding query_safe_def Cons .
    moreover have "\<forall>v \<in> set (q # ps). postings index v \<noteq> None" using all unfolding Cons .
    moreover have "card {d. hits index q d \<noteq> None} < 2 ^ 31" using few Cons by (metis list.set_intros(1) set_takeWhileD)
    ultimately have "\<exists>h'. MIProcessQuery index (q # ps @ w # qs) h = Inr (NULL, h') \<and> no_failures h' \<and> b \<le> brk h'"
      using MIProcessQuery_later_missing [OF ok le nf _ ws(2)] by blast
    moreover have "ws = q # ps @ w # qs" using ws(1) Cons by (metis append_Cons)
    ultimately show ?thesis by simp
  qed
  then show ?thesis using no by auto
qed

text \<open>
  C10: a query of three or more indexed words whose first two have no document in common does not
  return: the result list is empty when the third word is processed, \<open>LLMakeIterator\<close> gives NULL for
  it and \<open>LLIteratorFree\<close> fails its assertion, which exits the process.
\<close>

theorem query_without_common_document_exits:
  assumes ok: "mi_ok index b" and le: "b \<le> brk h" and nf: "no_failures h"
    and words: "postings index q \<noteq> None" "postings index r \<noteq> None" "postings index t \<noteq> None"
    and none: "\<forall>d. hits index q d = None \<or> hits index r d = None" and few: "card {d. hits index q d \<noteq> None} < 2 ^ 31"
  shows "MIProcessQuery index (q # r # t # qs) h = Inl VerifyFailure"
proof -
  obtain m where m: "postings index q = Some m" using words by auto
  obtain ids l ns h1 where start: "MIProcessQuery index (q # r # t # qs) h = after_first index (r # t # qs) l h1"
    and ids: "ht_wf ids b" "m = ht_map ids" "0 < ht_count ids"
    and h1: "ll_rep h1 l ns" "map snd ns = first_results ids" "no_failures h1" "b \<le> brk h1"
    using MIProcessQuery_start [OF ok le nf m] by blast
  have len: "length ns = ht_count ids" by (metis first_results_mem(3) [OF ids(1)] h1(2) length_map)
  have "ht_count ids = card {d. hits index q d \<noteq> None}"
    using ht_count_card(1) [OF ids(1)] m ids(2) by (simp add: dom_def)
  with few len have short: "length ns < 2 ^ 31" by simp
  have "map snd ns \<noteq> []" using len ids(3) by auto
  then have ne: "never_empty index [r] (map snd ns)" by simp
  have pr: "\<forall>w \<in> set [r]. postings index w \<noteq> None" using words by simp
  have "refine_all index [r] (map snd ns) = []"
    unfolding h1(2) refined_first_empty [OF pr ids(1) m [unfolded ids(2)]] using none by auto
  moreover obtain h2 ns2 where run: "MIProcessQuery_words index [r] l h1 = Inr (True, h2)"
    and h2: "no_failures h2" "b \<le> brk h2" "ll_rep h2 l ns2" "map snd ns2 = refine_all index [r] (map snd ns)"
    using MIProcessQuery_words_spec [OF ok h1(4,1,3) short pr ne] unfolding wp_iff by auto
  ultimately have "ll_rep h2 l []" by simp
  note words_no_results [OF ok h2(2) this h2(1) words(3), of qs]
  moreover have "MIProcessQuery_words index ([r] @ t # qs) l h1 = MIProcessQuery_words index (t # qs) l h2"
    unfolding words_append by (simp add: bnd_def run del: MIProcessQuery_words.simps)
  ultimately show ?thesis by (simp add: start after_first_def bnd_def del: MIProcessQuery_words.simps)
qed

text \<open>An index of two words, one per document.\<close>

definition index_two :: MemIndex where
  "index_two = \<lparr>num_buckets = 1, ht_num_elements = 2,
     buckets = [[(3, \<lparr>ht_key = FNVHash64 [97], ht_value = \<lparr>wds_word = [97], docIDs = docs_example\<rparr>\<rparr>),
       (4, \<lparr>ht_key = FNVHash64 [98], ht_value = \<lparr>wds_word = [98],
          docIDs = \<lparr>num_buckets = 1, ht_num_elements = 1, buckets = [[(6, \<lparr>ht_key = 2, ht_value = [8]\<rparr>)]]\<rparr>\<rparr>\<rparr>)]]\<rparr>"

lemma index_two_ok: "mi_ok index_two 20" "hits index_two [97] = [1 \<mapsto> [7]]" "hits index_two [98] = [2 \<mapsto> [8]]"
  "postings index_two [97] \<noteq> None" "postings index_two [98] \<noteq> None"
proof -
  let ?d = "\<lparr>num_buckets = 1, ht_num_elements = 1, buckets = [[(6, \<lparr>ht_key = 2, ht_value = [8]\<rparr>)]]\<rparr>
      :: DocPositionOffset_t list HashTableRecord"
  have ne: "FNVHash64 [97] \<noteq> FNVHash64 [98]" using fnv_hash_octet_eq [of "[]" 97 "[]" 98] by simp
  have d: "ht_wf ?d 20" "ht_map ?d = [2 \<mapsto> [8]]" "ht_count ?d = 1"
    by (auto simp: ht_wf_def chain_wf_def chain_ok_def entries_def bucket_of_def ht_map_def ht_count_def)
  have map: "ht_map index_two = [FNVHash64 [97] \<mapsto> \<lparr>wds_word = [97], docIDs = docs_example\<rparr>,
      FNVHash64 [98] \<mapsto> \<lparr>wds_word = [98], docIDs = ?d\<rparr>]"
    using ne by (auto simp: index_two_def ht_map_def bucket_of_def)
  have "ht_wf index_two 20"
    using ne by (auto simp: index_two_def ht_wf_def chain_wf_def chain_ok_def entries_def bucket_of_def)
  then show "mi_ok index_two 20"
    using d by (auto simp: mi_ok_def map docs_example_wf split: if_splits)
  show "hits index_two [97] = [1 \<mapsto> [7]]" "hits index_two [98] = [2 \<mapsto> [8]]"
    "postings index_two [97] \<noteq> None" "postings index_two [98] \<noteq> None"
    using ne by (auto simp: hits_def postings_def map docs_example_wf d)
qed

theorem query_without_common_document_exits_witness:
  "MIProcessQuery index_two [[97], [98], [97]] heap_example = Inl VerifyFailure"
  by (rule query_without_common_document_exits [OF index_two_ok(1)])
    (use index_two_ok in \<open>auto simp: heap_example_def no_failures_def\<close>)

end
