(* ===== verification/FileCrawler.thy ===== *)
theory FileCrawler
  imports MemIndex
begin

text \<open>
  The crawler of uw\_cse333/hw/hw2/filecrawler.c, with \<open>ReadFile\<close> of fileparser.c: it walks a directory
  tree, reads every regular file, and enters the words of the file into the document table and the
  inverted index.

  The operating system is an argument: what the calls on a path answer.  The answers do not change
  during a crawl.  \<open>read\<close> answers with the elements of a list: some bytes, no bytes at the end of the
  file, an error that asks to try again (\<open>EAGAIN\<close>, \<open>EINTR\<close>) or another error.
\<close>

section \<open>The operating system\<close>

datatype file_kind = Regular | Directory | Special

datatype read_result = Read_data cstring | Read_retry | Read_error

record filesystem =
  fs_stat :: "cstring \<Rightarrow> (file_kind \<times> nat) option"
  fs_open :: "cstring \<Rightarrow> bool"
  fs_reads :: "cstring \<Rightarrow> read_result list"
  fs_opendir :: "cstring \<Rightarrow> cstring list option"
  fs_closedir :: "cstring \<Rightarrow> int"

section \<open>Reading a file\<close>

text \<open>
  \<open>got\<close> is what the buffer holds, \<open>left_to_read\<close> what is missing.  A read past the last answer gives no
  bytes.  The assertion of the source is about \<open>left_to_read\<close>, which is positive in the loop.
\<close>

fun ReadFile_loop :: "read_result list \<Rightarrow> nat \<Rightarrow> cstring \<Rightarrow> cstring option ht_cmd" where
  "ReadFile_loop [] left_to_read got = (if left_to_read > 0 then fail VerifyFailure else ret (Some got))"
| "ReadFile_loop (r # rs) left_to_read got =
     (if left_to_read > 0 then
        (case r of
           Read_retry \<Rightarrow> ReadFile_loop rs left_to_read got
         | Read_error \<Rightarrow> ret None
         | Read_data bs \<Rightarrow>
             let bs = take left_to_read bs in
             if bs = [] then fail VerifyFailure
             else ReadFile_loop rs (left_to_read - length bs) (got @ bs))
      else ret (Some got))"

text \<open>The size is stored in 32 bits, and the terminating zero is put at that offset.\<close>

definition ReadFile :: "filesystem \<Rightarrow> cstring \<Rightarrow> cstring option ht_cmd" where
  "ReadFile fs filename =
     (case fs_stat fs filename of
        None \<Rightarrow> ret None
      | Some (kind, st_size) \<Rightarrow>
          if kind \<noteq> Regular then ret None
          else if \<not> fs_open fs filename then ret None
          else bnd malloc (\<lambda>buf.
            if buf = NULL then ret None
            else bnd (ReadFile_loop (fs_reads fs filename) st_size []) (\<lambda>r.
              ret (map_option (take (unat (of_nat st_size :: HWSize_t))) r))))"

section \<open>Entering a file\<close>

type_synonym crawl = "DocTableRecord \<times> MemIndex"

fun HandleFile_loop ::
    "nat \<Rightarrow> WordPositions HashTableRecord \<Rightarrow> HTIterRecord \<Rightarrow> DocID_t \<Rightarrow> MemIndex \<Rightarrow>
       (WordPositions HashTableRecord \<times> HTIterRecord \<times> MemIndex) ht_cmd" where
  "HandleFile_loop 0 tab it docID index = fail OutOfFuel"
| "HandleFile_loop (Suc n) tab it docID index =
     (if NumElementsInHashTable tab > 0 then
        bnd (HTIteratorDelete tab it) (\<lambda>(res, tab, it, kv).
        case kv of
          None \<Rightarrow> fail MemFault
        | Some kv \<Rightarrow>
            bnd (MIAddPostingList index (wp_word (ht_value kv)) docID (wp_positions (ht_value kv))) (\<lambda>(res, index).
            bnd (Verify333 (res = 1)) (\<lambda>_.
            HandleFile_loop n tab it docID index)))
      else ret (tab, it, index))"

text \<open>
  The loop deletes an element in every round.  At the end the iterator and the table, then empty, are
  freed; an iterator that could not be made fails the assertion of \<open>HTIteratorDelete\<close>.
\<close>

definition HandleFile :: "filesystem \<Rightarrow> cstring \<Rightarrow> crawl \<Rightarrow> crawl ht_cmd" where
  "HandleFile fs fpath = (\<lambda>(doctable, index).
     bnd (ReadFile fs fpath) (\<lambda>file.
     bnd (BuildWordHT file) (\<lambda>tab.
     case tab of
       None \<Rightarrow> ret (doctable, index)
     | Some tab \<Rightarrow>
         bnd (DTRegisterDocumentName doctable fpath) (\<lambda>(docID, doctable).
         bnd (Verify333 (docID \<noteq> 0)) (\<lambda>_.
         bnd (HashTableMakeIterator tab) (\<lambda>it.
         case it of
           None \<Rightarrow> fail VerifyFailure
         | Some it \<Rightarrow>
             bnd (HandleFile_loop (Suc (unat (NumElementsInHashTable tab))) tab it docID index) (\<lambda>(tab, it, index).
             ret (doctable, index))))))))"

section \<open>Walking the tree\<close>

definition strncmp_equal :: "cstring \<Rightarrow> cstring \<Rightarrow> nat \<Rightarrow> bool" where
  "strncmp_equal s t n \<longleftrightarrow> take n (s @ [0]) = take n (t @ [0])"

text \<open>The full name; for an empty directory name the source reads the byte before the string.\<close>

definition newfile_name :: "cstring \<Rightarrow> cstring \<Rightarrow> cstring ht_cmd" where
  "newfile_name dirpath d_name =
     bnd malloc (\<lambda>newfile.
     bnd (Verify333 (newfile \<noteq> NULL)) (\<lambda>_.
     if dirpath = [] then fail MemFault
     else if last dirpath = 0x2F then ret (dirpath @ d_name)
     else ret (dirpath @ [0x2F] @ d_name)))"

text \<open>
  The third argument is what \<open>readdir_r\<close> has still to give: names, then the end of the directory or an
  error, which both return.  The first argument bounds the depth of the recursion.
\<close>

fun HandleDir :: "nat \<Rightarrow> filesystem \<Rightarrow> cstring \<Rightarrow> cstring list \<Rightarrow> crawl \<Rightarrow> crawl ht_cmd" where
  "HandleDir 0 fs dirpath d st = fail OutOfFuel"
| "HandleDir (Suc n) fs dirpath [] st = ret st"
| "HandleDir (Suc n) fs dirpath (d_name # d) st =
     (if strncmp_equal d_name [0x2E] 1 then HandleDir (Suc n) fs dirpath d st
      else if strncmp_equal d_name [0x2E, 0x2E] 2 then HandleDir (Suc n) fs dirpath d st
      else
        bnd (newfile_name dirpath d_name) (\<lambda>newfile.
        bnd (case fs_stat fs newfile of
               None \<Rightarrow> ret st
             | Some (kind, _) \<Rightarrow>
                 if kind = Regular then HandleFile fs newfile st
                 else if kind = Directory then
                   (case fs_opendir fs newfile of
                      None \<Rightarrow> ret st
                    | Some d2 \<Rightarrow> HandleDir n fs newfile d2 st)
                 else ret st) (\<lambda>st.
        HandleDir (Suc n) fs dirpath d st)))"

definition CrawlFileTree :: "nat \<Rightarrow> filesystem \<Rightarrow> cstring \<Rightarrow> crawl option ht_cmd" where
  "CrawlFileTree n fs rootdir =
     (case fs_stat fs rootdir of
        None \<Rightarrow> ret None
      | Some (kind, _) \<Rightarrow>
          if kind \<noteq> Directory then ret None
          else (case fs_opendir fs rootdir of
            None \<Rightarrow> ret None
          | Some rd \<Rightarrow>
              bnd AllocateDocTable (\<lambda>doctable.
              bnd AllocateMemIndex (\<lambda>index.
              case index of
                None \<Rightarrow> fail VerifyFailure
              | Some index \<Rightarrow>
                  bnd (HandleDir n fs rootdir rd (doctable, index)) (\<lambda>st.
                  bnd (Verify333 (fs_closedir fs rootdir = 0)) (\<lambda>_.
                  ret (Some st)))))))"

section \<open>What a file is\<close>

text \<open>
  Documented behaviour of \<open>read\<close>: every call gives at least one of the next bytes of the file, or asks to
  try again.
\<close>

fun serves :: "read_result list \<Rightarrow> cstring \<Rightarrow> bool" where
  "serves [] ts = (ts = [])"
| "serves (r # rs) ts = (ts = [] \<or>
     (case r of
        Read_retry \<Rightarrow> serves rs ts
      | Read_error \<Rightarrow> False
      | Read_data bs \<Rightarrow> bs \<noteq> [] \<and> take (length bs) ts = bs \<and> serves rs (drop (length bs) ts)))"

text \<open>A regular file with a text, or one that cannot be opened.\<close>

fun file_gives :: "filesystem \<Rightarrow> cstring \<Rightarrow> cstring option \<Rightarrow> bool" where
  "file_gives fs p None = (\<not> fs_open fs p)"
| "file_gives fs p (Some ts) =
     (fs_stat fs p = Some (Regular, length ts) \<and> fs_open fs p \<and> serves (fs_reads fs p) ts \<and> length ts < 2 ^ 32)"

lemma ReadFile_loop_serves: "serves rs ts \<Longrightarrow> ReadFile_loop rs (length ts) got = ret (Some (got @ ts))"
proof (induction rs arbitrary: ts got)
  case (Cons r rs)
  show ?case
  proof (cases "ts = []")
    case False
    show ?thesis
    proof (cases r)
      case (Read_data bs)
      then have bs: "bs \<noteq> []" "take (length bs) ts = bs" "serves rs (drop (length bs) ts)" using Cons.prems False by auto
      have "length bs \<le> length ts" using bs(2) by (metis length_take min.cobounded1)
      then have "take (length ts) bs = bs" by simp
      moreover have "ReadFile_loop rs (length ts - length bs) (got @ bs) = ret (Some (got @ ts))"
        using Cons.IH [OF bs(3), of "got @ bs"] bs(2) append_take_drop_id [of "length bs" ts] by simp
      ultimately show ?thesis using Read_data False bs(1) by simp
    qed (use Cons False in auto)
  qed simp
qed auto

lemma ReadFile_run:
  assumes "file_gives fs p c" and "no_failures s"
  shows "wp (ReadFile fs p) (\<lambda>r s'. grown s s' \<and> r = c) s"
proof (cases c)
  case None
  then show ?thesis using assms by (auto simp: ReadFile_def wp_simps split: option.splits)
next
  case (Some ts)
  then have ts: "fs_stat fs p = Some (Regular, length ts)" "fs_open fs p" "serves (fs_reads fs p) ts" "length ts < 2 ^ 32" using assms(1) by auto
  then show ?thesis using assms(2) no_failures_brk [OF assms(2)] Some
    by (simp add: ReadFile_def wp_simps ReadFile_loop_serves)
qed

text \<open>The words that are entered for a file.\<close>

definition doc_words :: "cstring option \<Rightarrow> (cstring \<times> nat) list" where
  "doc_words c = (case c of None \<Rightarrow> [] | Some ts \<Rightarrow> if \<exists>b \<in> set ts. b = 0 \<or> 0x7F < b then [] else words_of 0 [] ts)"

lemma BuildWordHT_total:
  assumes "no_failures s" and "\<forall>ts. c = Some ts \<longrightarrow> length ts < 2 ^ 32" and "inj_on FNVHash64 (fst ` set (doc_words c))"
  shows "wp (BuildWordHT c) (\<lambda>r s'. grown s s' \<and> (case r of
       None \<Rightarrow> doc_words c = []
     | Some t \<Rightarrow> doc_words c \<noteq> [] \<and> ht_wf t (brk s') \<and> indexes t (doc_words c))) s"
proof (cases "\<exists>ts. c = Some ts \<and> ts \<noteq> [] \<and> \<not> (\<exists>b \<in> set ts. b = 0 \<or> 0x7F < b)")
  case True
  then obtain ts where ts: "c = Some ts" "ts \<noteq> []" "\<not> (\<exists>b \<in> set ts. b = 0 \<or> 0x7F < b)" by blast
  have w: "doc_words c = words_of 0 [] ts" unfolding doc_words_def ts(1) option.case if_not_P [OF ts(3)] ..
  have "\<forall>b \<in> set ts. b \<noteq> 0 \<and> b \<le> 0x7F" using ts(3) by (meson not_le)
  then show ?thesis unfolding w unfolding ts(1) using assms(2) ts(1) by (intro BuildWordHT_run [OF ts(2) _ assms(1) _ assms(3) [unfolded w]]) auto
next
  case False
  then have "BuildWordHT c = ret None" by (auto simp: BuildWordHT_def split: option.splits)
  moreover have "doc_words c = []" using False by (auto simp: doc_words_def split: option.splits)
  ultimately show ?thesis using assms(1) by (simp add: wp_simps)
qed

section \<open>Entering the words of a file\<close>

text \<open>The identifiers in the index are those up to \<open>n\<close>.\<close>

definition docs_upto :: "MemIndex \<Rightarrow> DocID_t \<Rightarrow> bool" where
  "docs_upto index n \<longleftrightarrow> (\<forall>v m d. postings index v = Some m \<and> m d \<noteq> None \<longrightarrow> 0 < d \<and> d \<le> n)"

lemma docs_upto_count:
  assumes "mi_ok index b" and "docs_upto index n" and "ht_map index k = Some wds"
  shows "ht_count (docIDs wds) \<le> unat n"
proof -
  have k: "FNVHash64 (wds_word wds) = k" "ht_wf (docIDs wds) b" using assms(1,3) by (auto simp: mi_ok_def)
  have "postings index (wds_word wds) = Some (ht_map (docIDs wds))" using assms(3) k by (simp add: postings_def)
  then have "dom (ht_map (docIDs wds)) \<subseteq> {d. 0 < d \<and> d \<le> n}" using assms(2) by (auto simp: docs_upto_def)
  moreover have "unat ` {d. 0 < d \<and> d \<le> n} \<subseteq> {0<..unat n}" by (auto simp: word_le_nat_alt unat_gt_0)
  ultimately have "unat ` dom (ht_map (docIDs wds)) \<subseteq> {0<..unat n}" by blast
  then have "card (unat ` dom (ht_map (docIDs wds))) \<le> unat n" by (metis card_greaterThanAtMost card_mono diff_zero finite_greaterThanAtMost)
  moreover have "inj_on unat (dom (ht_map (docIDs wds)))" by (rule inj_onI) (simp add: word_unat_eq_iff)
  ultimately show ?thesis using ht_count_card(1) [OF k(2)] card_image by metis
qed

lemma ht_count_dom_insert:
  assumes "ht_wf t b" and "ht_wf t' b'" and "dom (ht_map t') = insert k (dom (ht_map t))"
  shows "ht_count t' \<le> Suc (ht_count t)"
  using ht_count_card [OF assms(1)] ht_count_card [OF assms(2)] assms(3) card_insert_le_m1 card_insert_if [of "dom (ht_map t)" k] by simp

text \<open>The postings of a word after a table of words has been entered for a document.\<close>

definition entered :: "(HTKey_t \<Rightarrow> WordPositions option) \<Rightarrow> DocID_t \<Rightarrow> MemIndex \<Rightarrow> cstring \<Rightarrow> (DocID_t \<Rightarrow> DocPositionOffset_t list option) option" where
  "entered ws d index v = (case ws (FNVHash64 v) of
       None \<Rightarrow> postings index v
     | Some e \<Rightarrow> Some ((case postings index v of None \<Rightarrow> Map.empty | Some m \<Rightarrow> m)(d \<mapsto> wp_positions e)))"

lemma postings_hash: "FNVHash64 v = FNVHash64 w \<Longrightarrow> postings index v = postings index w"
  by (simp add: postings_def)

lemma HandleFile_loop_run:
  assumes "ht_wf tab (brk s)" and "remaining tab it rs" and "ht_map tab = kv_map rs" and "distinct (map ht_key rs)"
    and "mi_ok index (brk s)" and "no_failures s" and "docs_upto index d" and "0 < d" and "unat d + 1 < 2 ^ 32"
    and "\<forall>kv \<in> set rs. ht_key kv = FNVHash64 (wp_word (ht_value kv)) \<and> hits index (wp_word (ht_value kv)) d = None"
    and "ht_count index + length rs < 2 ^ 32"
  shows "wp (HandleFile_loop (Suc (length rs)) tab it d index) (\<lambda>(tab', it', index') s'. grown s s' \<and> mi_ok index' (brk s') \<and> docs_upto index' d
     \<and> dom (ht_map index') = dom (ht_map index) \<union> ht_key ` set rs
     \<and> stored_words index' \<subseteq> stored_words index \<union> (wp_word \<circ> ht_value) ` set rs \<and> (\<forall>v. postings index' v = entered (kv_map rs) d index v)) s"
  using assms
proof (induction rs arbitrary: tab it s index)
  case Nil
  have "ht_count tab = 0" using ht_count_card(1) [OF Nil(1)] Nil(3) by (simp add: dom_def)
  then have "NumElementsInHashTable tab = 0" using ht_wf_ne [OF Nil(1)] by (simp add: NumElementsInHashTable_def unat_eq_0 [symmetric])
  then show ?case using Nil by (simp add: wp_simps entered_def)
next
  case (Cons r rs)
  let ?w = "wp_word (ht_value r)" and ?ps = "wp_positions (ht_value r)"
  have "ht_map tab (ht_key r) \<noteq> None" using Cons.prems(3) by simp
  then have "0 < ht_count tab" using ht_count_card [OF Cons.prems(1)] by (auto simp: card_gt_0_iff)
  then have ne: "NumElementsInHashTable tab > 0" using ht_wf_ne [OF Cons.prems(1)] by (simp add: NumElementsInHashTable_def word_less_nat_alt)
  have key: "ht_key r = FNVHash64 ?w" "hits index ?w d = None" using Cons.prems(10) by auto
  have distinct: "ht_key r \<notin> ht_key ` set rs" using Cons.prems(4) by simp
  show ?case
    unfolding length_Cons HandleFile_loop.simps(2) [of "Suc (length rs)"] if_P [OF ne] wp_bnd [of "HTIteratorDelete _ _"]
  proof (rule wp_mono [OF HTIteratorDelete_spec [OF Cons.prems(1,2,6)]], goal_cases)
    case (1 x s1)
    obtain res tab1 it1 old where x: "x = (res, tab1, it1, old)" by (cases x) auto
    have s1: "grown s s1" "old = Some r" "ht_wf tab1 (brk s1)" "ht_map tab1 = (ht_map tab)(ht_key r := None)" "remaining tab1 it1 rs"
      using 1 by (auto simp: x)
    have nf1: "no_failures s1" and ok1: "mi_ok index (brk s1)" using s1(1) mi_ok_mono [OF Cons.prems(5)] by (auto simp: grown_def)
    have tab1: "ht_map tab1 = kv_map rs"
      using s1(4) Cons.prems(3) kv_map_None [THEN iffD2, OF distinct] by (auto simp: fun_eq_iff)
    have room: "ht_count index + 1 < 2 ^ 32" "\<forall>wds. ht_map index (FNVHash64 ?w) = Some wds \<longrightarrow> ht_count (docIDs wds) + 1 < 2 ^ 32"
      using Cons.prems(9,11) docs_upto_count [OF ok1 Cons.prems(7)] by fastforce+
    have "wp (MIAddPostingList index ?w d ?ps) (\<lambda>y. wp (bnd (Verify333 (fst y = 1)) (\<lambda>_. HandleFile_loop (Suc (length rs)) tab1 it1 d (snd y)))
        (\<lambda>(tab', it', index') s'. grown s s' \<and> mi_ok index' (brk s') \<and> docs_upto index' d
         \<and> dom (ht_map index') = dom (ht_map index) \<union> ht_key ` set (r # rs)
         \<and> stored_words index' \<subseteq> stored_words index \<union> (wp_word \<circ> ht_value) ` set (r # rs) \<and> (\<forall>v. postings index' v = entered (kv_map (r # rs)) d index v))) s1"
    proof (rule wp_mono [OF AddPosting_run [OF ok1 nf1 key(2) room]], goal_cases)
      case (1 y s2)
      obtain res2 index2 where y: "y = (res2, index2)" by (cases y)
      have s2: "res2 = 1" "grown s1 s2" "mi_ok index2 (brk s2)" "dom (ht_map index2) = insert (FNVHash64 ?w) (dom (ht_map index))"
        "stored_words index2 \<subseteq> insert ?w (stored_words index)"
        and p2: "\<And>v. postings index2 v = (if FNVHash64 v = FNVHash64 ?w
           then Some ((case postings index ?w of None \<Rightarrow> Map.empty | Some m \<Rightarrow> m)(d \<mapsto> ?ps)) else postings index v)"
        using 1 by (auto simp: y)
      have p2': "postings index2 v = (if FNVHash64 v = FNVHash64 ?w
           then Some ((case postings index v of None \<Rightarrow> Map.empty | Some m \<Rightarrow> m)(d \<mapsto> ?ps)) else postings index v)" for v
        using p2 [of v] postings_hash [of v ?w index] by simp
      have wf: "ht_wf tab1 (brk s2)" using ht_wf_grown [OF s1(3) s2(2)] .
      have nf2: "no_failures s2" using s2(2) by (simp add: grown_def)
      have upto: "docs_upto index2 d"
        unfolding docs_upto_def
      proof (intro allI impI)
        fix v m e assume v: "postings index2 v = Some m \<and> m e \<noteq> None"
        show "0 < e \<and> e \<le> d"
        proof (cases "e = d \<or> postings index v = None")
          case True
          then show ?thesis using v Cons.prems(8) p2' [of v] by (auto split: if_splits)
        next
          case False
          then obtain m0 where m0: "postings index v = Some m0" by auto
          then have "m0 e \<noteq> None" using v False p2' [of v] by (auto split: if_splits)
          then show ?thesis using m0 Cons.prems(7) unfolding docs_upto_def by blast
        qed
      qed
      have other: "\<forall>kv \<in> set rs. ht_key kv = FNVHash64 (wp_word (ht_value kv)) \<and> hits index2 (wp_word (ht_value kv)) d = None"
      proof
        fix kv assume kv: "kv \<in> set rs"
        then have k: "ht_key kv = FNVHash64 (wp_word (ht_value kv))" "hits index (wp_word (ht_value kv)) d = None" using Cons.prems(10) by auto
        have "ht_key kv \<noteq> ht_key r" using kv distinct by (metis imageI)
        then have "postings index2 (wp_word (ht_value kv)) = postings index (wp_word (ht_value kv))" using k(1) key(1) p2 by simp
        then show "ht_key kv = FNVHash64 (wp_word (ht_value kv)) \<and> hits index2 (wp_word (ht_value kv)) d = None" using k by (simp add: hits_def)
      qed
      have "ht_count index2 \<le> Suc (ht_count index)"
        using ht_count_dom_insert [OF _ _ s2(4)] s2(3) Cons.prems(5) by (auto simp: mi_ok_def)
      then have "wp (HandleFile_loop (Suc (length rs)) tab1 it1 d index2) (\<lambda>(tab', it', index') s'. grown s2 s' \<and> mi_ok index' (brk s') \<and> docs_upto index' d
         \<and> dom (ht_map index') = dom (ht_map index2) \<union> ht_key ` set rs
         \<and> stored_words index' \<subseteq> stored_words index2 \<union> (wp_word \<circ> ht_value) ` set rs \<and> (\<forall>v. postings index' v = entered (kv_map rs) d index2 v)) s2"
        using Cons.prems(4,8,9,11) by (intro Cons.IH [OF wf s1(5) tab1 _ s2(3) nf2 upto _ _ other]) auto
      moreover have "entered (kv_map rs) d index2 v = entered (kv_map (r # rs)) d index v" for v
      proof (cases "FNVHash64 v = FNVHash64 ?w")
        case True
        then have "kv_map rs (FNVHash64 v) = None" using distinct key(1) by (simp add: kv_map_None)
        then show ?thesis using True key(1) p2' [of v] by (simp add: entered_def)
      next
        case False
        then have same: "postings index2 v = postings index v" using p2' [of v] by simp
        show ?thesis unfolding entered_def same using False key(1) by simp
      qed
      ultimately show ?case
        using s2(1,4,5) key(1) grown_trans [OF s1(1) s2(2)] by (simp add: y wp_simps del: HandleFile_loop.simps) (elim wp_mono, auto intro: grown_trans)
    qed
    then show ?case by (simp add: x s1(2) wp_bnd split_beta del: HandleFile_loop.simps)
  qed
qed

section \<open>What has been crawled\<close>

text \<open>
  A document is a path with the words of its text; the identifiers are the places in the list, from
  1 on.  \<open>W\<close> is a set of words without collisions under the hash.
\<close>

type_synonym document = "cstring \<times> (cstring \<times> nat) list"

definition found :: "document list \<Rightarrow> cstring \<Rightarrow> DocID_t \<Rightarrow> DocPositionOffset_t list option" where
  "found docs w d =
     (if d \<noteq> 0 \<and> unat d \<le> length docs \<and> w \<in> fst ` set (snd (docs ! (unat d - 1)))
      then Some (occurrences (snd (docs ! (unat d - 1))) w) else None)"

definition words_in :: "document list \<Rightarrow> cstring set" where
  "words_in docs = (\<Union>doc \<in> set docs. fst ` set (snd doc))"

definition crawled :: "cstring set \<Rightarrow> document list \<Rightarrow> crawl \<Rightarrow> malloc_state \<Rightarrow> bool" where
  "crawled W docs = (\<lambda>(dt, index) s. dt_ok dt s \<and> mi_ok index (brk s) \<and> unat (max_id dt) = length docs
     \<and> (\<forall>i<length docs. dt_names dt (of_nat (Suc i)) = Some (fst (docs ! i)))
     \<and> docs_upto index (max_id dt) \<and> dom (ht_map index) = FNVHash64 ` words_in docs
     \<and> stored_words index \<subseteq> words_in docs
     \<and> (\<forall>w \<in> W. \<forall>d. hits index w d = found docs w d))"

lemma place_bound: "d \<noteq> 0 \<Longrightarrow> unat d \<le> n \<Longrightarrow> unat d - Suc 0 < n" for d :: DocID_t
  using unat_gt_0 [of d] by linarith

lemma found_mem: "found docs w d \<noteq> None \<Longrightarrow> w \<in> words_in docs"
  by (auto simp: found_def words_in_def place_bound split: if_splits intro!: bexI [of _ "docs ! (unat d - 1)"])

lemma found_last:
  assumes "length docs + 1 < 2 ^ 64" and "unat n = length docs + 1"
  shows "found (docs @ [(p, ws)]) w d = (if d = n then (if w \<in> fst ` set ws then Some (occurrences ws w) else None) else found docs w d)"
proof (cases "d = n")
  case True
  then have "d \<noteq> 0" "unat d - 1 = length docs" using assms by auto
  then show ?thesis using True assms by (simp add: found_def)
next
  case False
  then have "unat d \<noteq> length docs + 1" using assms(2) by (metis word_unat_eq_iff)
  then have "unat d \<le> length (docs @ [(p, ws)]) \<longleftrightarrow> unat d \<le> length docs" by auto
  moreover have "d \<noteq> 0 \<Longrightarrow> unat d \<le> length docs \<Longrightarrow> (docs @ [(p, ws)]) ! (unat d - 1) = docs ! (unat d - 1)"
    by (subst nth_append) (simp add: place_bound)
  ultimately show ?thesis using False by (auto simp: found_def)
qed

lemma crawled_grown: "crawled W docs st s \<Longrightarrow> grown s s' \<Longrightarrow> crawled W docs st s'"
  by (auto simp: crawled_def intro: dt_ok_grown mi_ok_mono simp: grown_def [of s s'])

lemma crawled_ids:
  assumes "crawled W docs (dt, index) s" and "dt_ids dt k = Some i"
  shows "\<exists>p \<in> fst ` set docs. FNVHash64 p = k"
proof -
  have ok: "dt_ok dt s" and n: "unat (max_id dt) = length docs" and names: "\<forall>i<length docs. dt_names dt (of_nat (Suc i)) = Some (fst (docs ! i))"
    using assms(1) by (auto simp: crawled_def)
  obtain p where p: "dt_names dt i = Some p" "FNVHash64 p = k" using ok assms(2) unfolding dt_ok_def by blast
  then have i: "0 < i" "i \<le> max_id dt" using ok by (auto simp: dt_ok_def)
  define j where "j = unat i - 1"
  have "i \<noteq> 0" using i(1) by auto
  then have "Suc j = unat i" using unat_gt_0 [of i] by (simp add: j_def)
  then have j: "j < length docs" "of_nat (Suc j) = i" using i(2) n by (auto simp: word_le_nat_alt simp del: of_nat_Suc)
  then have "p = fst (docs ! j)" using names p(1) by auto
  then show ?thesis using p(2) j(1) by auto
qed

text \<open>An index counts no more words than the documents have.\<close>

lemma words_in_card: "card (FNVHash64 ` words_in docs) \<le> (\<Sum>doc\<leftarrow>docs. length (snd doc))"
proof -
  have fin: "finite (words_in docs)" by (simp add: words_in_def)
  have "card (words_in docs) \<le> (\<Sum>doc\<leftarrow>docs. length (snd doc))"
  proof (induction docs)
    case (Cons doc docs)
    have "words_in (doc # docs) = fst ` set (snd doc) \<union> words_in docs" by (auto simp: words_in_def)
    then have "card (words_in (doc # docs)) \<le> card (fst ` set (snd doc)) + card (words_in docs)" by (simp add: card_Un_le)
    moreover have "card (fst ` set (snd doc)) \<le> length (snd doc)" by (metis card_length length_map list.set_map)
    ultimately show ?case using Cons by simp
  qed (simp add: words_in_def)
  then show ?thesis using card_image_le [OF fin, of FNVHash64] by simp
qed

lemma indexes_entries:
  assumes "ht_wf t b" and "indexes t ws" and "kv \<in> set (entries t)"
  shows "\<exists>w \<in> fst ` set ws. ht_key kv = FNVHash64 w \<and> ht_value kv = \<lparr>wp_word = w, wp_positions = occurrences ws w\<rparr>"
proof -
  have "ht_map t (ht_key kv) = Some (ht_value kv)"
    unfolding ht_map_entries [OF assms(1)] using kv_map_mem [OF entries_distinct [OF assms(1)]] assms(3) by blast
  moreover from this obtain w where "w \<in> fst ` set ws" "ht_key kv = FNVHash64 w" using indexes_other [OF assms(2), of "ht_key kv"] by force
  ultimately show ?thesis using indexes_word [OF assms(2)] by force
qed

lemma indexes_dom:
  assumes "ht_wf t b" and "indexes t ws"
  shows "ht_key ` set (entries t) = FNVHash64 ` fst ` set ws"
proof -
  have "ht_map t k = None \<longleftrightarrow> k \<notin> FNVHash64 ` fst ` set ws" for k
    using indexes_other [OF assms(2), of k] indexes_word [OF assms(2)] by (cases "k \<in> FNVHash64 ` fst ` set ws") auto
  then show ?thesis unfolding ht_map_entries [OF assms(1)] kv_map_None by blast
qed

text \<open>Entering the table of a new document.\<close>

lemma crawled_enter:
  assumes cr: "crawled W docs (dt, index) s" and W: "inj_on FNVHash64 W" "words_in docs \<subseteq> W" "fst ` set ws \<subseteq> W"
    and t: "ht_wf t b" "indexes t ws" and small: "length docs + 1 < 2 ^ 32" and g: "grown s s'"
    and dt': "dt_ok dt' s'" "max_id dt' = max_id dt + 1" "dt_names dt' = (dt_names dt)(max_id dt + 1 \<mapsto> p)"
    and index': "mi_ok index' (brk s')" "docs_upto index' (max_id dt + 1)" "dom (ht_map index') = dom (ht_map index) \<union> ht_key ` set (entries t)"
      "\<forall>v. postings index' v = entered (kv_map (entries t)) (max_id dt + 1) index v"
      "stored_words index' \<subseteq> stored_words index \<union> (wp_word \<circ> ht_value) ` set (entries t)"
  shows "crawled W (docs @ [(p, ws)]) (dt', index') s'"
proof -
  have n: "unat (max_id dt) = length docs" and names: "\<forall>i<length docs. dt_names dt (of_nat (Suc i)) = Some (fst (docs ! i))"
    and dom: "dom (ht_map index) = FNVHash64 ` words_in docs" and hits: "\<forall>w \<in> W. \<forall>d. hits index w d = found docs w d"
    using cr by (auto simp: crawled_def)
  have n': "unat (max_id dt + 1) = length docs + 1" using max_id_fresh(1) [of dt] small n by simp
  have names': "dt_names dt' (of_nat (Suc i)) = Some (fst ((docs @ [(p, ws)]) ! i))" if i: "i < length docs + 1" for i
  proof (cases "i = length docs")
    case True
    then have "(of_nat (Suc i) :: DocID_t) = max_id dt + 1" using n' by (metis Suc_eq_plus1 of_nat_unat ucast_id)
    then show ?thesis using True by (simp add: dt'(3) del: of_nat_Suc)
  next
    case False
    then have "i < length docs" using i by simp
    moreover have "unat (of_nat (Suc i) :: DocID_t) = Suc i" using i small by (simp add: unat_of_nat take_bit_nat_eq_self del: of_nat_Suc)
    then have "(of_nat (Suc i) :: DocID_t) \<noteq> max_id dt + 1" using n' False by (metis Suc_eq_plus1 Suc_inject)
    ultimately show ?thesis using names by (simp add: dt'(3) nth_append del: of_nat_Suc)
  qed
  have "hits index' w d = found (docs @ [(p, ws)]) w d" if w: "w \<in> W" for w d
  proof (cases "w \<in> fst ` set ws")
    case True
    then have "kv_map (entries t) (FNVHash64 w) = Some \<lparr>wp_word = w, wp_positions = occurrences ws w\<rparr>"
      using indexes_word [OF t(2) True] by (simp add: ht_map_entries [OF t(1)])
    then have "hits index' w d = (if d = max_id dt + 1 then Some (occurrences ws w) else hits index w d)"
      using index'(4) by (auto simp: hits_def entered_def split: option.splits)
    then show ?thesis using hits w True small by (subst found_last [of _ "max_id dt + 1"]) (simp_all add: n')
  next
    case False
    have "FNVHash64 w \<notin> FNVHash64 ` fst ` set ws"
    proof
      assume "FNVHash64 w \<in> FNVHash64 ` fst ` set ws"
      then obtain v where v: "v \<in> fst ` set ws" "FNVHash64 w = FNVHash64 v" by blast
      then have "w = v" using W(1,3) w by (meson inj_onD subsetD)
      then show False using v(1) False by simp
    qed
    then have "kv_map (entries t) (FNVHash64 w) = None" using indexes_dom [OF t] by (simp add: kv_map_None)
    then have "hits index' w d = hits index w d" using index'(4) by (simp add: hits_def entered_def)
    moreover have "found docs w (max_id dt + 1) = None" using n' by (simp add: found_def)
    ultimately show ?thesis using hits w False small by (subst found_last [of _ "max_id dt + 1"]) (auto simp: n')
  qed
  moreover have "stored_words index' \<subseteq> words_in docs \<union> fst ` set ws"
  proof -
    have "stored_words index \<subseteq> words_in docs" using cr by (simp add: crawled_def)
    moreover have "wp_word (ht_value kv) \<in> fst ` set ws" if "kv \<in> set (entries t)" for kv
      using indexes_entries [OF t that] by force
    ultimately show ?thesis using index'(5) by auto
  qed
  moreover have "words_in (docs @ [(p, ws)]) = words_in docs \<union> fst ` set ws" by (auto simp: words_in_def)
  ultimately show ?thesis
    using dt'(1,2) index'(1,2,3) n' names' dom indexes_dom [OF t] by (simp add: crawled_def image_Un)
qed

lemma crawled_fresh:
  assumes "crawled W docs (dt, index) s" and "\<forall>q \<in> fst ` set docs. FNVHash64 q \<noteq> FNVHash64 p"
  shows "dt_ids dt (FNVHash64 p) = None"
proof (rule ccontr)
  assume "dt_ids dt (FNVHash64 p) \<noteq> None"
  then obtain i where "dt_ids dt (FNVHash64 p) = Some i" by blast
  then show False using crawled_ids [OF assms(1)] assms(2) by blast
qed

text \<open>The loop on the table of a new document, which has been registered already.\<close>

lemma HandleFile_loop_crawled:
  assumes cr: "crawled W docs (dt, index) s" and W: "inj_on FNVHash64 W" "words_in docs \<subseteq> W" "fst ` set ws \<subseteq> W"
    and t: "ht_wf t (brk s)" "indexes t ws" "remaining t it (entries t)"
    and small: "length docs + 2 < 2 ^ 32" and total: "(\<Sum>doc\<leftarrow>docs. length (snd doc)) + length ws < 2 ^ 32"
    and dt': "dt_ok dt' s" "max_id dt' = max_id dt + 1" "dt_names dt' = (dt_names dt)(max_id dt + 1 \<mapsto> p)"
  shows "wp (HandleFile_loop (Suc (unat (NumElementsInHashTable t))) t it (max_id dt + 1) index)
     (\<lambda>(_, _, index') s'. grown s s' \<and> crawled W (docs @ [(p, ws)]) (dt', index') s') s"
proof -
  let ?i = "max_id dt + 1"
  have ok: "mi_ok index (brk s)" and upto: "docs_upto index (max_id dt)" and dom: "dom (ht_map index) = FNVHash64 ` words_in docs"
    and hits: "\<forall>w \<in> W. \<forall>d. hits index w d = found docs w d" and n: "unat (max_id dt) = length docs" and nf: "no_failures s"
    using cr by (auto simp: crawled_def dt_ok_def)
  have one: "length docs + 1 < 2 ^ 32" using small by simp
  note fresh = max_id_fresh [of dt, unfolded n, OF one]
  have upto': "docs_upto index ?i" using upto fresh(3) unfolding docs_upto_def by blast
  have new: "\<forall>kv \<in> set (entries t). ht_key kv = FNVHash64 (wp_word (ht_value kv)) \<and> hits index (wp_word (ht_value kv)) ?i = None"
  proof
    fix kv assume "kv \<in> set (entries t)"
    then obtain w where w: "w \<in> fst ` set ws" "ht_key kv = FNVHash64 w" "wp_word (ht_value kv) = w"
      using indexes_entries [OF t(1,2), of kv] by force
    have "found docs w ?i = None" using fresh(1) by (simp add: found_def)
    then show "ht_key kv = FNVHash64 (wp_word (ht_value kv)) \<and> hits index (wp_word (ht_value kv)) ?i = None" using w hits W(3) by auto
  qed
  have "ht_wf index (brk s)" using ok by (simp add: mi_ok_def)
  then have "ht_count index \<le> (\<Sum>doc\<leftarrow>docs. length (snd doc))" using ht_count_card(1) words_in_card [of docs] dom by metis
  moreover have "length (entries t) \<le> length ws" using ht_count_indexes [OF t(1,2)] by (simp add: ht_count_def)
  ultimately have room: "ht_count index + length (entries t) < 2 ^ 32" using total by linarith
  have small': "unat ?i + 1 < 2 ^ 32" using fresh(1) small by simp
  have num: "unat (NumElementsInHashTable t) = length (entries t)" using ht_wf_ne [OF t(1)] by (simp add: NumElementsInHashTable_def ht_count_def)
  show ?thesis
    unfolding num
  proof (rule wp_mono [OF HandleFile_loop_run [OF t(1,3) ht_map_entries [OF t(1)] entries_distinct [OF t(1)] ok nf upto' fresh(2) small' new room]], goal_cases)
    case (1 y s')
    obtain tab' it' index' where y: "y = (tab', it', index')" by (cases y)
    have y': "grown s s'" "mi_ok index' (brk s')" "docs_upto index' ?i" "dom (ht_map index') = dom (ht_map index) \<union> ht_key ` set (entries t)"
      "\<forall>v. postings index' v = entered (kv_map (entries t)) ?i index v"
      "stored_words index' \<subseteq> stored_words index \<union> (wp_word \<circ> ht_value) ` set (entries t)" using 1 by (auto simp: y)
    have "crawled W (docs @ [(p, ws)]) (dt', index') s'"
      using crawled_enter [OF cr W t(1,2) one y'(1) dt_ok_grown [OF dt'(1) y'(1)] dt'(2,3) y'(2-6)] .
    then show ?case using y'(1) by (simp add: y)
  qed
qed

lemma HandleFile_enter:
  assumes cr: "crawled W docs (dt, index) s" and W: "inj_on FNVHash64 W" "words_in docs \<subseteq> W" "fst ` set ws \<subseteq> W"
    and t: "ht_wf t (brk s)" "indexes t ws" and new: "\<forall>q \<in> fst ` set docs. FNVHash64 q \<noteq> FNVHash64 p"
    and small: "length docs + 2 < 2 ^ 32" and total: "(\<Sum>doc\<leftarrow>docs. length (snd doc)) + length ws < 2 ^ 32"
  shows "wp (bnd (DTRegisterDocumentName dt p) (\<lambda>(docID, dt).
       bnd (Verify333 (docID \<noteq> 0)) (\<lambda>_.
       bnd (HashTableMakeIterator t) (\<lambda>it.
       case it of None \<Rightarrow> fail VerifyFailure
       | Some it \<Rightarrow>
           bnd (HandleFile_loop (Suc (unat (NumElementsInHashTable t))) t it docID index) (\<lambda>(tab, it, index).
           ret (dt, index)))))) (\<lambda>st s'. grown s s' \<and> crawled W (docs @ [(p, ws)]) st s') s"
proof -
  have ok: "dt_ok dt s" and n: "unat (max_id dt) = length docs" using cr by (auto simp: crawled_def)
  have room: "unat (max_id dt) + 1 < 2 ^ 32" using small n by simp
  show ?thesis
    unfolding wp_bnd [of "DTRegisterDocumentName _ _"]
  proof (rule wp_mono [OF Register_spec [OF ok room]], goal_cases)
    case (1 x s1)
    obtain i dt1 where x: "x = (i, dt1)" by (cases x)
    have s1: "grown s s1" "dt_ok dt1 s1" "i = max_id dt + 1" "max_id dt1 = i" "dt_names dt1 = (dt_names dt)(i \<mapsto> p)"
      using 1 crawled_fresh [OF cr new] by (auto simp: x registers_def)
    have nf1: "no_failures s1" using s1(1) by (simp add: grown_def)
    have t1: "ht_wf t (brk s1)" by (rule ht_wf_grown [OF t(1) s1(1)])
    have "wp (HashTableMakeIterator t) (\<lambda>r. wp (case r of None \<Rightarrow> fail VerifyFailure
       | Some it \<Rightarrow> bnd (HandleFile_loop (Suc (unat (NumElementsInHashTable t))) t it i index) (\<lambda>(tab, it, index). ret (dt1, index)))
         (\<lambda>st s'. grown s s' \<and> crawled W (docs @ [(p, ws)]) st s')) s1"
    proof (rule wp_mono [OF HTMakeIterator_spec [OF t1 nf1]], goal_cases)
      case (1 r s2)
      then obtain it where r: "r = Some it" and rem: "remaining t it (entries t)" and g: "grown s1 s2" by blast
      have g2: "grown s s2" by (rule grown_trans [OF s1(1) g])
      have dt2: "dt_ok dt1 s2" "max_id dt1 = max_id dt + 1" "dt_names dt1 = (dt_names dt)(max_id dt + 1 \<mapsto> p)"
        using dt_ok_grown [OF s1(2) g] s1(3-5) by simp_all
      show ?case
        unfolding r option.case wp_bnd s1(3)
        by (rule wp_mono [OF HandleFile_loop_crawled [OF crawled_grown [OF cr g2] W ht_wf_grown [OF t1 g] t(2) rem small total dt2]])
          (auto simp: wp_simps intro: grown_trans [OF g2])
    qed
    moreover have "i \<noteq> 0" using max_id_fresh(2) [OF room] s1(3) by auto
    ultimately show ?case unfolding x prod.case wp_bnd [of "Verify333 _"] wp_Verify333 wp_bnd [of "HashTableMakeIterator _"] by blast
  qed
qed

lemma HandleFile_run:
  assumes cr: "crawled W docs (dt, index) s" and W: "inj_on FNVHash64 W" "words_in docs \<subseteq> W" "fst ` set (doc_words c) \<subseteq> W"
    and gives: "file_gives fs p c" and new: "\<forall>q \<in> fst ` set docs. FNVHash64 q \<noteq> FNVHash64 p"
    and small: "length docs + 2 < 2 ^ 32" and total: "(\<Sum>doc\<leftarrow>docs. length (snd doc)) + length (doc_words c) < 2 ^ 32"
  shows "wp (HandleFile fs p (dt, index)) (\<lambda>st s'. grown s s' \<and>
     crawled W (docs @ (if doc_words c = [] then [] else [(p, doc_words c)])) st s') s"
proof -
  have nf: "no_failures s" using cr by (auto simp: crawled_def dt_ok_def)
  have inj: "inj_on FNVHash64 (fst ` set (doc_words c))" by (rule inj_on_subset [OF W(1,3)])
  have len: "\<forall>ts. c = Some ts \<longrightarrow> length ts < 2 ^ 32" using gives by auto
  show ?thesis
    unfolding HandleFile_def prod.case wp_bnd [of "ReadFile _ _"]
  proof (rule wp_mono [OF ReadFile_run [OF gives nf]], goal_cases)
    case (1 r s1)
    then have g1: "grown s s1" "r = c" "no_failures s1" by (auto simp: grown_def)
    show ?case
      unfolding g1(2) wp_bnd [of "BuildWordHT _"]
    proof (rule wp_mono [OF BuildWordHT_total [OF g1(3) len inj]], goal_cases)
      case (1 r s2)
      then have g2: "grown s s2" using grown_trans [OF g1(1)] by blast
      note cr2 = crawled_grown [OF cr g2]
      show ?case
      proof (cases r)
        case None
        then show ?thesis using 1 g2 cr2 by (simp add: wp_simps)
      next
        case (Some t)
        then have t: "ht_wf t (brk s2)" "indexes t (doc_words c)" "doc_words c \<noteq> []" using 1 by auto
        show ?thesis
          unfolding Some option.case if_not_P [OF t(3)]
          by (rule wp_mono [OF HandleFile_enter [OF cr2 W t(1,2) new small total]]) (auto intro: grown_trans [OF g2])
      qed
    qed
  qed
qed

section \<open>The files of a tree\<close>

text \<open>
  The regular files below a directory in the order in which they are met; names that begin with a dot
  are left out.  No value: the tree is deeper than the bound.
\<close>

definition path_join :: "cstring \<Rightarrow> cstring \<Rightarrow> cstring" where
  "path_join dir name = (if last dir = 0x2F then dir @ name else dir @ [0x2F] @ name)"

definition join_files :: "cstring list option \<Rightarrow> cstring list option \<Rightarrow> cstring list option" where
  "join_files a b = (case a of None \<Rightarrow> None | Some ps \<Rightarrow> map_option ((@) ps) b)"

fun tree_files :: "nat \<Rightarrow> filesystem \<Rightarrow> cstring \<Rightarrow> cstring list \<Rightarrow> cstring list option" where
  "tree_files 0 fs dir names = None"
| "tree_files (Suc n) fs dir [] = Some []"
| "tree_files (Suc n) fs dir (name # names) =
     (if take 1 name = [0x2E] then tree_files (Suc n) fs dir names
      else join_files
        (case map_option fst (fs_stat fs (path_join dir name)) of
           Some Regular \<Rightarrow> Some [path_join dir name]
         | Some Directory \<Rightarrow>
             (case fs_opendir fs (path_join dir name) of None \<Rightarrow> Some [] | Some sub \<Rightarrow> tree_files n fs (path_join dir name) sub)
         | _ \<Rightarrow> Some [])
        (tree_files (Suc n) fs dir names))"

definition documents :: "(cstring \<Rightarrow> cstring option) \<Rightarrow> cstring list \<Rightarrow> document list" where
  "documents c ps = filter (\<lambda>doc. snd doc \<noteq> []) (map (\<lambda>p. (p, doc_words (c p))) ps)"

definition word_total :: "document list \<Rightarrow> nat" where
  "word_total docs = (\<Sum>doc\<leftarrow>docs. length (snd doc))"

text \<open>
  What the crawler relies on for files still to come after some documents: they have the given
  texts, the hash separates their words and all paths, and the numbers of documents and words fit
  into 32 bits.
\<close>

definition crawlable :: "filesystem \<Rightarrow> cstring set \<Rightarrow> (cstring \<Rightarrow> cstring option) \<Rightarrow> document list \<Rightarrow> cstring list \<Rightarrow> bool" where
  "crawlable fs W c docs ps \<longleftrightarrow> inj_on FNVHash64 W \<and> words_in docs \<subseteq> W
     \<and> (\<forall>p \<in> set ps. file_gives fs p (c p) \<and> fst ` set (doc_words (c p)) \<subseteq> W)
     \<and> distinct (map FNVHash64 (map fst docs @ ps)) \<and> length docs + length ps + 1 < 2 ^ 32
     \<and> word_total docs + word_total (documents c ps) < 2 ^ 32"

lemma documents_simps [simp]:
  "documents c [] = []" "documents c (p # ps) = (if doc_words (c p) = [] then [] else [(p, doc_words (c p))]) @ documents c ps"
  "documents c (ps @ qs) = documents c ps @ documents c qs"
  by (simp_all add: documents_def)

lemma word_total_simps [simp]:
  "word_total [] = 0" "word_total (d # ds) = length (snd d) + word_total ds" "word_total (ds @ es) = word_total ds + word_total es"
  by (simp_all add: word_total_def)

lemma words_in_append [simp]: "words_in (ds @ es) = words_in ds \<union> words_in es"
  by (simp add: words_in_def)

lemma documents_paths: "map fst (documents c ps) = filter (\<lambda>p. doc_words (c p) \<noteq> []) ps"
  by (induction ps) auto

lemma words_in_documents: "\<forall>p \<in> set ps. fst ` set (doc_words (c p)) \<subseteq> W \<Longrightarrow> words_in (documents c ps) \<subseteq> W"
  by (fastforce simp: words_in_def documents_def)

lemma crawlable_append:
  assumes "crawlable fs W c docs (ps @ qs)"
  shows "crawlable fs W c docs ps" and "crawlable fs W c (docs @ documents c ps) qs"
proof -
  have len: "length (documents c ps) \<le> length ps" by (simp add: documents_def le_trans [OF length_filter_le])
  have d: "distinct (map FNVHash64 (map fst docs @ ps @ qs))" using assms by (simp add: crawlable_def)
  then have "distinct (map FNVHash64 (map fst docs @ ps))" unfolding map_append distinct_append set_append by blast
  then show "crawlable fs W c docs ps" using assms by (auto simp: crawlable_def)
  have "distinct (map FNVHash64 (map fst docs @ filter (\<lambda>p. doc_words (c p) \<noteq> []) ps @ qs))"
    using d distinct_map_filter [of FNVHash64 ps] unfolding map_append distinct_append set_append set_map set_filter by blast
  then have "distinct (map FNVHash64 (map fst (docs @ documents c ps) @ qs))" by (simp add: documents_paths)
  then show "crawlable fs W c (docs @ documents c ps) qs"
    using assms len words_in_documents [of ps c W] by (auto simp: crawlable_def)
qed

lemma HandleFile_crawls:
  assumes "crawled W docs st s" and "crawlable fs W c docs [p]"
  shows "wp (HandleFile fs p st) (\<lambda>st' s'. grown s s' \<and> crawled W (docs @ documents c [p]) st' s') s"
proof -
  obtain dt index where st: "st = (dt, index)" by (cases st)
  have "FNVHash64 p \<notin> FNVHash64 ` fst ` set docs" using assms(2) by (simp add: crawlable_def image_image)
  then have "\<forall>q \<in> fst ` set docs. FNVHash64 q \<noteq> FNVHash64 p" by (metis imageI)
  moreover have "inj_on FNVHash64 W" "words_in docs \<subseteq> W" "fst ` set (doc_words (c p)) \<subseteq> W" "file_gives fs p (c p)"
    "length docs + 2 < 2 ^ 32" "(\<Sum>doc\<leftarrow>docs. length (snd doc)) + length (doc_words (c p)) < 2 ^ 32"
    using assms(2) by (auto simp: crawlable_def word_total_def split: if_splits)
  ultimately show ?thesis using HandleFile_run [OF assms(1) [unfolded st]] unfolding st by simp
qed

lemma newfile_name_run:
  "no_failures s \<Longrightarrow> dir \<noteq> [] \<Longrightarrow> wp (newfile_name dir name) (\<lambda>p s'. grown s s' \<and> p = path_join dir name) s"
  using no_failures_brk [of s] by (simp add: newfile_name_def path_join_def wp_simps)

lemma path_join_ne: "dir \<noteq> [] \<Longrightarrow> path_join dir name \<noteq> []"
  by (simp add: path_join_def)

lemma strncmp_dot: "strncmp_equal name [0x2E] 1 \<longleftrightarrow> take 1 name = [0x2E]" "strncmp_equal name [0x2E, 0x2E] 2 \<Longrightarrow> take 1 name = [0x2E]"
  by (cases name; auto simp: strncmp_equal_def)+

lemma HandleDir_run:
  "tree_files n fs dir names = Some ps \<Longrightarrow> dir \<noteq> [] \<Longrightarrow> crawled W docs st s \<Longrightarrow> crawlable fs W c docs ps \<Longrightarrow>
   wp (HandleDir n fs dir names st) (\<lambda>st' s'. grown s s' \<and> crawled W (docs @ documents c ps) st' s') s"
proof (induction n fs dir names arbitrary: ps docs st s rule: tree_files.induct)
  case (2 n fs dir)
  then show ?case by (auto simp: wp_simps crawled_def dt_ok_def split: prod.splits)
next
  case (3 n fs dir name names)
  let ?p = "path_join dir name"
  have nf: "no_failures s" using "3.prems"(3) by (auto simp: crawled_def dt_ok_def split: prod.splits)
  show ?case
  proof (cases "take 1 name = [0x2E]")
    case True
    then have "strncmp_equal name [0x2E] 1" by (simp only: strncmp_dot)
    then show ?thesis using "3.IH"(1) "3.prems" True by simp
  next
    case False
    note IH2 = "3.IH"(2) [OF False] and IH3 = "3.IH"(3) [OF False]
    let ?here = "case map_option fst (fs_stat fs ?p) of Some Regular \<Rightarrow> Some [?p]
        | Some Directory \<Rightarrow> (case fs_opendir fs ?p of None \<Rightarrow> Some [] | Some sub \<Rightarrow> tree_files n fs ?p sub)
        | _ \<Rightarrow> Some []"
    obtain qs rs where qs: "?here = Some qs" and rs: "tree_files (Suc n) fs dir names = Some rs" and ps: "ps = qs @ rs"
      using "3.prems"(1) False by (auto simp: join_files_def split: option.splits)
    note cq = crawlable_append [OF "3.prems"(4) [unfolded ps]]
    have run: "wp (HandleDir (Suc n) fs dir (name # names) st) Q s = wp (newfile_name dir name) (\<lambda>newfile.
        wp (case fs_stat fs newfile of None \<Rightarrow> ret st
             | Some (kind, _) \<Rightarrow>
                 if kind = Regular then HandleFile fs newfile st
                 else if kind = Directory then
                   (case fs_opendir fs newfile of None \<Rightarrow> ret st | Some d2 \<Rightarrow> HandleDir n fs newfile d2 st)
                 else ret st) (\<lambda>st. wp (HandleDir (Suc n) fs dir names st) Q)) s" for Q
    proof -
      have "\<not> strncmp_equal name [0x2E] 1" "\<not> strncmp_equal name [0x2E, 0x2E] 2" using False strncmp_dot by blast+
      then show ?thesis by (simp add: wp_bnd)
    qed
    show ?thesis
      unfolding run
    proof (rule wp_mono [OF newfile_name_run [OF nf "3.prems"(2)]], goal_cases)
      case (1 newfile s1)
      then have g1: "grown s s1" and newfile: "newfile = ?p" by auto
      have cr1: "crawled W docs st s1" and nf1: "no_failures s1" using crawled_grown [OF "3.prems"(3) g1] g1 by (auto simp: grown_def)
      have here: "wp (case fs_stat fs ?p of None \<Rightarrow> ret st
             | Some (kind, _) \<Rightarrow>
                 if kind = Regular then HandleFile fs ?p st
                 else if kind = Directory then
                   (case fs_opendir fs ?p of None \<Rightarrow> ret st | Some d2 \<Rightarrow> HandleDir n fs ?p d2 st)
                 else ret st) (\<lambda>st' s'. grown s1 s' \<and> crawled W (docs @ documents c qs) st' s') s1"
      proof (cases "\<exists>size. fs_stat fs ?p = Some (Regular, size)")
        case True
        then have q: "qs = [?p]" using qs by auto
        from True show ?thesis using HandleFile_crawls [OF cr1 cq(1) [unfolded q]] q by (auto simp del: documents_simps)
      next
        case notreg: False
        show ?thesis
        proof (cases "\<exists>size sub. fs_stat fs ?p = Some (Directory, size) \<and> fs_opendir fs ?p = Some sub")
          case True
          then obtain size sub where sub: "fs_stat fs ?p = Some (Directory, size)" "fs_opendir fs ?p = Some sub" by blast
          then have k: "map_option fst (fs_stat fs ?p) = Some Directory" "tree_files n fs ?p sub = Some qs" using qs by simp_all
          then show ?thesis using sub IH2 [OF k(1) refl sub(2) k(2) path_join_ne [OF "3.prems"(2)] cr1 cq(1)] by simp
        next
          case False
          then have "qs = []" using qs notreg by (auto split: option.splits prod.splits file_kind.splits)
          then show ?thesis using False notreg cr1 nf1 by (auto simp: wp_simps split: option.splits file_kind.splits)
        qed
      qed
      show ?case
        unfolding newfile
      proof (rule wp_mono [OF here], goal_cases)
        case (1 st2 s2)
        show ?case
          by (rule wp_mono [OF IH3 [OF rs "3.prems"(2) _ cq(2)]]) (use 1 g1 in \<open>auto simp: ps intro: grown_trans\<close>)
      qed
    qed
  qed
qed simp

section \<open>Crawling\<close>

lemma CrawlFileTree_run:
  assumes nf: "no_failures s" and dir: "fs_stat fs root = Some (Directory, z)" "fs_opendir fs root = Some names" "fs_closedir fs root = 0" "root \<noteq> []"
    and tree: "tree_files n fs root names = Some ps" "crawlable fs W c [] ps"
  shows "wp (CrawlFileTree n fs root) (\<lambda>r s'. \<exists>st. r = Some st \<and> crawled W (documents c ps) st s') s"
proof -
  have start: "wp (CrawlFileTree n fs root) Q s = wp AllocateDocTable (\<lambda>dt. wp AllocateMemIndex (\<lambda>index. wp (case index of
      None \<Rightarrow> fail VerifyFailure
    | Some index \<Rightarrow> bnd (HandleDir n fs root names (dt, index)) (\<lambda>st. ret (Some st))) Q)) s" for Q
    using dir by (simp add: CrawlFileTree_def wp_bnd)
  show ?thesis
    unfolding start
  proof (rule wp_mono [OF AllocateDocTable_spec [OF nf]], goal_cases)
    case (1 dt s1)
    then have nf1: "no_failures s1" and ok1: "dt_ok dt s1" and none: "dt_names dt = Map.empty" by (auto simp: dt_ok_def)
    show ?case
      unfolding AllocateMemIndex_def
    proof (rule wp_mono [OF Allocate_spec [OF nf1]], goal_cases)
      case (1 r s2)
      then have g: "grown s1 s2" and r: "r = Some (empty_table 128)" by auto
      have zero: "max_id dt = 0"
      proof (rule ccontr)
        assume "max_id dt \<noteq> 0"
        then have "dt_names dt (max_id dt) \<noteq> None" using ok1 unfolding dt_ok_def by (metis order_refl word_gt_0)
        then show False using none by simp
      qed
      have "mi_ok (empty_table 128) (brk s2)" by (auto simp: mi_ok_def empty_table_wf)
      moreover have "postings (empty_table 128) v = None" for v by (simp add: postings_def empty_table_wf)
      ultimately have "crawled W [] (dt, empty_table 128) s2"
        using dt_ok_grown [OF ok1 g] zero by (auto simp: crawled_def docs_upto_def words_in_def stored_words_def found_def hits_def empty_table_wf unat_eq_0)
      then show ?case
        unfolding r option.case wp_bnd by (rule wp_mono [OF HandleDir_run [OF tree(1) dir(4) _ tree(2)]]) (auto simp: wp_simps)
    qed
  qed
qed

text \<open>A root that is no directory, or that cannot be opened, is reported by the result 0, and nothing is allocated.\<close>

lemma crawl_needs_directory:
  "(case fs_stat fs root of Some (Directory, _) \<Rightarrow> fs_opendir fs root = None | _ \<Rightarrow> True) \<Longrightarrow> CrawlFileTree n fs root s = Inr (None, s)"
  by (auto simp: CrawlFileTree_def ret_run split: option.splits prod.splits file_kind.splits)

section \<open>Properties\<close>

text \<open>
  C40: crawling a directory tree registers every readable ASCII file with a word, in the order of the
  walk, under the identifiers from 1 on, and makes an index that has, for every word and document, exactly
  the positions of the word in the text of the file.  The files can be read in pieces of any size and
  with interruptions.  The hash must separate the words and the paths.
\<close>

theorem crawl_indexes_tree:
  assumes "no_failures s" and "fs_stat fs root = Some (Directory, z)" and "fs_opendir fs root = Some names"
    and "fs_closedir fs root = 0" and "root \<noteq> []"
    and "tree_files n fs root names = Some ps" and "crawlable fs W c [] ps"
  shows "\<exists>dt index s'. CrawlFileTree n fs root s = Inr (Some (dt, index), s') \<and> dt_ok dt s' \<and> mi_ok index (brk s')
     \<and> unat (max_id dt) = length (documents c ps)
     \<and> (\<forall>i<length (documents c ps). dt_names dt (of_nat (Suc i)) = Some (fst (documents c ps ! i)))
     \<and> (\<forall>w \<in> W. \<forall>d. hits index w d = found (documents c ps) w d)"
proof -
  obtain st s' where "CrawlFileTree n fs root s = Inr (Some st, s')" "crawled W (documents c ps) st s'"
    using CrawlFileTree_run [OF assms] unfolding wp_iff by blast
  then show ?thesis by (cases st) (auto simp: crawled_def)
qed

text \<open>
  A tree with a hidden file, a file \<open>d/a\<close> with the text \<open>Ab a.\<close> that is read in two pieces, and an empty
  directory.
\<close>

definition fs_example :: filesystem where
  "fs_example = \<lparr>fs_stat = [[0x64] \<mapsto> (Directory, 0), [0x64, 0x2F, 0x61] \<mapsto> (Regular, 5), [0x64, 0x2F, 0x62] \<mapsto> (Directory, 0)],
     fs_open = (\<lambda>p. True), fs_reads = (\<lambda>p. [Read_data [65, 98], Read_retry, Read_data [32, 97, 46]]),
     fs_opendir = [[0x64] \<mapsto> [[0x2E], [0x2E, 0x78], [0x61], [0x62]], [0x64, 0x2F, 0x62] \<mapsto> []], fs_closedir = (\<lambda>p. 0)\<rparr>"

lemma fs_example_files: "tree_files 2 fs_example [0x64] [[0x2E], [0x2E, 0x78], [0x61], [0x62]] = Some [[0x64, 0x2F, 0x61]]"
  by code_simp

lemma fs_example_words: "doc_words (Some [65, 98, 32, 97, 46]) = [([97, 98], 0), ([97], 3)]"
  by (simp add: doc_words_def isalpha_def tolower_def word_le_nat_alt word_less_nat_alt)

lemma fs_example_documents: "documents (\<lambda>p. Some [65, 98, 32, 97, 46]) [[0x64, 0x2F, 0x61]] = [([0x64, 0x2F, 0x61], [([97, 98], 0), ([97], 3)])]"
  by (simp add: fs_example_words)

lemma fs_example_crawlable:
  "crawlable fs_example {[97, 98], [97]} (\<lambda>p. Some [65, 98, 32, 97, 46]) [] [[0x64, 0x2F, 0x61]]"
proof -
  have "FNVHash64 [97, 98] \<noteq> FNVHash64 [97]" by code_simp
  then have "inj_on FNVHash64 {[97, 98], [97]}" by auto
  moreover have "file_gives fs_example [0x64, 0x2F, 0x61] (Some [65, 98, 32, 97, 46])" by (simp add: fs_example_def)
  ultimately show ?thesis unfolding crawlable_def fs_example_documents by (simp add: fs_example_words words_in_def)
qed

theorem crawl_indexes_tree_witness:
  "\<exists>dt index s'. CrawlFileTree 2 fs_example [0x64] ms_example = Inr (Some (dt, index), s')
     \<and> dt_names dt 1 = Some [0x64, 0x2F, 0x61] \<and> hits index [97] 1 = Some [3]"
proof -
  have d: "fs_stat fs_example [0x64] = Some (Directory, 0)" "fs_opendir fs_example [0x64] = Some [[0x2E], [0x2E, 0x78], [0x61], [0x62]]"
    "fs_closedir fs_example [0x64] = 0" by (simp_all add: fs_example_def)
  have "found [([0x64, 0x2F, 0x61], [([97, 98], 0), ([97], 3)])] [97] 1 = Some [3]" by (simp add: found_def occurrences_def)
  then show ?thesis
    using crawl_indexes_tree [OF ht_example_wf(2) d _ fs_example_files fs_example_crawlable] unfolding fs_example_documents by auto
qed

end
