(* ===== verification/SearchShell.thy ===== *)
theory SearchShell
  imports FileCrawler
begin

text \<open>
  The search program of uw\_cse333/hw/hw2/searchshell.c on top of the crawler, the document table and the
  index: it crawls a directory and answers every line of its input with the documents that contain
  all words of the line.

  The lines that \<open>getline\<close> gives are an argument, each as the string up to its end.  An answer is a list
  of pairs of a document name and a rank, one for each printed line.
\<close>

section \<open>Splitting a line\<close>

definition is_delim :: "8 word \<Rightarrow> bool" where
  "is_delim c \<longleftrightarrow> c = 0x20 \<or> c = 0x0A"

text \<open>\<open>strtok_r\<close> of the C library for the delimiters of the program: a token and what is left for the next call.\<close>

definition strtok_r :: "cstring \<Rightarrow> (cstring \<times> cstring) option" where
  "strtok_r s =
     (let s = dropWhile is_delim s in
      if s = [] then None else Some (takeWhile (\<lambda>c. \<not> is_delim c) s, tl (dropWhile (\<lambda>c. \<not> is_delim c) s)))"

lemma strtok_r_shorter: "strtok_r s = Some (w, rest) \<Longrightarrow> length rest < length s"
proof -
  assume a: "strtok_r s = Some (w, rest)"
  let ?s = "dropWhile is_delim s"
  have s: "?s \<noteq> []" "rest = tl (dropWhile (\<lambda>c. \<not> is_delim c) ?s)" using a by (auto simp: strtok_r_def Let_def split: if_splits)
  have "length rest \<le> length ?s - 1" using length_dropWhile_le [of "\<lambda>c. \<not> is_delim c" ?s] by (simp add: s(2))
  moreover have "length ?s \<le> length s" "0 < length ?s" using s(1) by (simp_all add: length_dropWhile_le)
  ultimately show "length rest < length s" by linarith
qed

text \<open>The array of words has 32 elements.\<close>

function split_query :: "cstring \<Rightarrow> cstring list \<Rightarrow> cstring list query_cmd" where
  "split_query line ws =
     (case strtok_r line of
        None \<Rightarrow> ret ws
      | Some (w, rest) \<Rightarrow> if length ws < 32 then split_query rest (ws @ [w]) else fail MemFault)"
  by pat_completeness auto
termination by (relation "measure (\<lambda>(line, ws). length line)") (auto simp: strtok_r_shorter)

declare split_query.simps [simp del]

section \<open>Answering a query\<close>

type_synonym shown = "cstring \<times> HWSize_t"

text \<open>A document without a name would be printed through the null pointer.\<close>

fun print_results :: "nat \<Rightarrow> DocTableRecord \<Rightarrow> nat \<Rightarrow> shown list query_cmd" where
  "print_results 0 dt it = fail OutOfFuel"
| "print_results (Suc n) dt it =
     bnd (LLIteratorGetPayload it) (\<lambda>result.
     bnd (on_alloc (DTLookupDocID dt (docid result))) (\<lambda>name.
     case name of
       None \<Rightarrow> fail MemFault
     | Some name \<Rightarrow>
         bnd (LLIteratorNext it) (\<lambda>more.
         if more then bnd (print_results n dt it) (\<lambda>out. ret ((name, rank result) # out))
         else ret [(name, rank result)])))"

definition answer_line :: "DocTableRecord \<Rightarrow> MemIndex \<Rightarrow> cstring \<Rightarrow> shown list query_cmd" where
  "answer_line dt idx line =
     bnd (split_query line []) (\<lambda>ws.
     bnd (MIProcessQuery idx ws) (\<lambda>llres.
     if llres \<noteq> NULL then
       bnd (LLMakeIterator llres 0) (\<lambda>it.
       bnd loop_bound (\<lambda>n.
       bnd (print_results n dt it) (\<lambda>out.
       bnd (LLIteratorFree it) (\<lambda>_.
       bnd (FreeLinkedList llres 1) (\<lambda>_.
       ret out)))))
     else ret []))"

fun answer_lines :: "DocTableRecord \<Rightarrow> MemIndex \<Rightarrow> cstring list \<Rightarrow> shown list query_cmd" where
  "answer_lines dt idx [] = ret []"
| "answer_lines dt idx (line # lines) =
     bnd (answer_line dt idx line) (\<lambda>out. bnd (answer_lines dt idx lines) (\<lambda>outs. ret (out @ outs)))"

text \<open>
  The result is the exit status, the answers and what is released at the end.  The arguments of the
  program are the program name and the directory.
\<close>

definition search_main ::
    "nat \<Rightarrow> filesystem \<Rightarrow> cstring list \<Rightarrow> cstring list \<Rightarrow>
       (int \<times> shown list \<times> ((cstring list \<times> DocID_t list) \<times> DocPositionOffset_t list list) option) query_cmd" where
  "search_main n fs argv lines =
     (if length argv \<noteq> 2 then fail (Exit (- 1))
      else
        bnd (on_alloc (CrawlFileTree n fs (argv ! 1))) (\<lambda>res.
        case res of
          None \<Rightarrow> ret (1, [], None)
        | Some (dt, idx) \<Rightarrow>
            bnd (answer_lines dt idx lines) (\<lambda>out.
            ret (0, out, Some (FreeDocTable dt, FreeMemIndex idx)))))"

section \<open>The words of a query\<close>

function query_words :: "cstring \<Rightarrow> cstring list" where
  "query_words [] = []"
| "query_words (c # cs) =
     (if is_delim c then query_words cs else (c # takeWhile (\<lambda>c. \<not> is_delim c) cs) # query_words (dropWhile (\<lambda>c. \<not> is_delim c) cs))"
  by pat_completeness auto
termination by (relation "measure length") (auto simp: le_imp_less_Suc length_dropWhile_le)

lemma query_words_rest: "query_words (tl (dropWhile (\<lambda>c. \<not> is_delim c) s)) = query_words (dropWhile (\<lambda>c. \<not> is_delim c) s)"
proof (cases "dropWhile (\<lambda>c. \<not> is_delim c) s")
  case (Cons c cs)
  then have "is_delim c" using hd_dropWhile [of "\<lambda>c. \<not> is_delim c" s] by simp
  then show ?thesis using Cons by simp
qed (simp del: dropWhile_eq_Nil_conv)

lemma query_words_strtok:
  "query_words s = (case strtok_r s of None \<Rightarrow> [] | Some (w, rest) \<Rightarrow> w # query_words rest)"
proof (induction s)
  case (Cons c cs)
  show ?case
  proof (cases "is_delim c")
    case True
    then have "strtok_r (c # cs) = strtok_r cs" by (simp add: strtok_r_def)
    then show ?thesis using Cons True by simp
  next
    case False
    then show ?thesis using query_words_rest [of cs] by (simp add: strtok_r_def)
  qed
qed (simp add: strtok_r_def)

lemma split_query_run:
  "length ws + length (query_words line) \<le> 32 \<Longrightarrow> split_query line ws = ret (ws @ query_words line)"
proof (induction line ws rule: split_query.induct)
  case (1 line ws)
  show ?case
  proof (cases "strtok_r line")
    case None
    then show ?thesis using query_words_strtok [of line] by (subst split_query.simps) simp
  next
    case (Some p)
    then obtain w rest where p: "strtok_r line = Some (w, rest)" by (cases p) simp
    have q: "query_words line = w # query_words rest" using query_words_strtok [of line] p by simp
    then have "split_query rest (ws @ [w]) = ret ((ws @ [w]) @ query_words rest)" using "1.IH" [OF p refl] "1.prems" by simp
    then show ?thesis using "1.prems" q p by (subst split_query.simps) simp
  qed
qed

text \<open>A line with more than 32 words writes past the end of the array.\<close>

lemma split_query_overflow:
  "length ws \<le> 32 \<Longrightarrow> 32 < length ws + length (query_words line) \<Longrightarrow> split_query line ws = fail MemFault"
proof (induction line ws rule: split_query.induct)
  case (1 line ws)
  show ?case
  proof (cases "strtok_r line")
    case None
    then show ?thesis using query_words_strtok [of line] "1.prems" by simp
  next
    case (Some p)
    then obtain w rest where p: "strtok_r line = Some (w, rest)" by (cases p) simp
    have q: "query_words line = w # query_words rest" using query_words_strtok [of line] p by simp
    show ?thesis
    proof (cases "length ws < 32")
      case True
      then have "split_query rest (ws @ [w]) = fail MemFault" using "1.IH" [OF p refl] "1.prems" q by simp
      then show ?thesis using True p by (subst split_query.simps) simp
    next
      case False
      then show ?thesis using p by (subst split_query.simps) simp
    qed
  qed
qed

section \<open>Printing the results\<close>

definition shown_result :: "DocTableRecord \<Rightarrow> SearchResult \<Rightarrow> shown" where
  "shown_result dt sr = (the (dt_names dt (docid sr)), rank sr)"

lemma lookup_name:
  assumes "ht_wf (docid_to_docname dt) b" and "b \<le> brk h" and "no_failures h" and "d \<noteq> 0"
    and "\<And>b'. brk h \<le> b' \<Longrightarrow> Q (dt_names dt d) (h\<lparr>brk := b'\<rparr>)"
  shows "wp (on_alloc (DTLookupDocID dt d)) Q h"
proof (rule wp_on_alloc [where P = "\<lambda>x. x = dt_names dt d"])
  show "wp (DTLookupDocID dt d) (\<lambda>x s'. grown (malloc_state.truncate h) s' \<and> x = dt_names dt d) (malloc_state.truncate h)"
    using ht_wf_mono [OF assms(1,2)] assms(3,4) by (intro LookupDocID_spec) simp_all
qed (use assms(3,5) in auto)

lemma print_results_run:
  assumes "ht_wf (docid_to_docname dt) b" and "b \<le> brk h" and "no_failures h" and "ll_rep h l (us @ vs)" and "vs \<noteq> []"
    and "iter_at h it l (first_addr vs NULL)" and "length vs \<le> n" and "\<forall>sr \<in> set (map snd vs). docid sr \<noteq> 0 \<and> dt_names dt (docid sr) \<noteq> None"
  shows "wp (print_results n dt it) (\<lambda>out h'. no_failures h' \<and> brk h \<le> brk h' \<and> ll_rep h' l (us @ vs) \<and> iters h' it \<noteq> None
     \<and> out = map (shown_result dt) (map snd vs)) h"
  using assms
proof (induction vs arbitrary: us h n)
  case (Cons v vs)
  obtain a x where v: "v = (a, x)" by (cases v)
  obtain m where n: "n = Suc m" "length vs \<le> m" using Cons.prems(7) by (cases n) auto
  have rep: "ll_rep h l (us @ (a, x) # vs)" and at: "iter_at h it l a" using Cons.prems by (auto simp: v)
  obtain name where name: "dt_names dt (docid x) = Some name" "docid x \<noteq> 0" using Cons.prems(8) by (auto simp: v)
  have step: "wp (print_results n dt it) Q h = wp (on_alloc (DTLookupDocID dt (docid x))) (\<lambda>r. wp (case r of
       None \<Rightarrow> fail MemFault
     | Some name \<Rightarrow> bnd (LLIteratorNext it) (\<lambda>more.
         if more then bnd (print_results m dt it) (\<lambda>out. ret ((name, rank x) # out)) else ret [(name, rank x)])) Q) h" for Q
    by (simp add: n(1) wp_bnd wp_Inr [of "LLIteratorGetPayload it", OF GetPayload_spec [OF rep at]])
  show ?case
    unfolding step
  proof (rule lookup_name [OF Cons.prems(1-3) name(2)])
    fix b' assume b': "brk h \<le> b'"
    let ?h = "h\<lparr>brk := b'\<rparr>"
    note rep' = ll_rep_brk [OF rep b'] and at' = iter_at_brk [OF at b'] and nf' = no_failures_set_brk [OF Cons.prems(3) b']
    show "wp (case dt_names dt (docid x) of None \<Rightarrow> fail MemFault
       | Some name \<Rightarrow> bnd (LLIteratorNext it) (\<lambda>more.
         if more then bnd (print_results m dt it) (\<lambda>out. ret ((name, rank x) # out)) else ret [(name, rank x)]))
       (\<lambda>out h'. no_failures h' \<and> brk h \<le> brk h' \<and> ll_rep h' l (us @ v # vs) \<and> iters h' it \<noteq> None
         \<and> out = map (shown_result dt) (map snd (v # vs))) ?h"
      unfolding name(1) option.case wp_bnd [of "LLIteratorNext _"]
    proof (rule wp_mono [OF IteratorNext_spec [OF rep' at']], goal_cases)
      case (1 more h2)
      then have more: "more = (vs \<noteq> [])" and same: "same_but_iters ?h h2" and at2: "iter_at h2 it l (first_addr vs a)" by auto
      have rep2: "ll_rep h2 l (us @ (a, x) # vs)" "no_failures h2" "brk h2 = b'"
        using rep' nf' same by (auto simp: ll_rep_def same_but_iters_def no_failures_def)
      show ?case
      proof (cases "vs = []")
        case True
        then show ?thesis using more rep2 at2 b' name(1) by (simp add: wp_simps v shown_result_def iter_at_def)
      next
        case False
        have fa: "first_addr vs a = first_addr vs NULL" using False by (cases vs) auto
        have "wp (print_results m dt it) (\<lambda>out h'. no_failures h' \<and> brk h2 \<le> brk h' \<and> ll_rep h' l ((us @ [(a, x)]) @ vs) \<and> iters h' it \<noteq> None
            \<and> out = map (shown_result dt) (map snd vs)) h2"
          by (rule Cons.IH [OF Cons.prems(1)]) (use Cons.prems(2,8) b' rep2 at2 fa False n(2) in \<open>auto simp: v\<close>)
        then show ?thesis using False more
          by (simp add: wp_simps) (elim wp_mono, use rep2(3) b' name(1) in \<open>auto simp: v shown_result_def\<close>)
      qed
    qed
  qed
qed simp

lemma answer_line_run:
  assumes ok: "mi_ok idx b" "ht_wf (docid_to_docname dt) b" and le: "b \<le> brk h" and nf: "no_failures h"
    and short: "length (query_words line) \<le> 32" and safe: "query_safe idx (query_words line)"
    and few: "\<forall>w \<in> set (query_words line). card {d. hits idx w d \<noteq> None} < 2 ^ 31"
    and names: "\<forall>sr. answers idx (query_words line) sr \<longrightarrow> docid sr \<noteq> 0 \<and> dt_names dt (docid sr) \<noteq> None"
  shows "wp (answer_line dt idx line) (\<lambda>out h'. no_failures h' \<and> b \<le> brk h' \<and> (\<exists>srs. out = map (shown_result dt) srs
     \<and> distinct (map docid srs) \<and> sorted (rev (map rank srs)) \<and> (\<forall>sr. sr \<in> set srs \<longleftrightarrow> answers idx (query_words line) sr))) h"
proof -
  let ?ws = "query_words line"
  obtain l h1 where q: "MIProcessQuery idx ?ws h = Inr (l, h1)" and h1: "no_failures h1" "b \<le> brk h1"
    and post: "if \<exists>sr. answers idx ?ws sr
      then \<exists>ns. ll_rep h1 l ns \<and> distinct (map docid (map snd ns)) \<and> sorted (rev (map rank (map snd ns)))
         \<and> (\<forall>sr. sr \<in> set (map snd ns) \<longleftrightarrow> answers idx ?ws sr)
      else l = NULL"
    using MIProcessQuery_total [OF ok(1) le nf safe few] by blast
  have start: "wp (answer_line dt idx line) Q h = wp (if l \<noteq> NULL then
       bnd (LLMakeIterator l 0) (\<lambda>it. bnd loop_bound (\<lambda>n. bnd (print_results n dt it) (\<lambda>out.
       bnd (LLIteratorFree it) (\<lambda>_. bnd (FreeLinkedList l 1) (\<lambda>_. ret out))))) else ret []) Q h1" for Q
    using split_query_run [of "[]" line] short by (simp add: answer_line_def wp_bnd [of "MIProcessQuery _ _"] wp_Inr [of "MIProcessQuery _ _", OF q])
  show ?thesis
  proof (cases "\<exists>sr. answers idx ?ws sr")
    case False
    then have "l = NULL" using post by (simp only: if_False)
    then show ?thesis unfolding start using h1 False by (auto simp: wp_simps)
  next
    case True
    then obtain ns where ns: "ll_rep h1 l ns" "distinct (map docid (map snd ns))" "sorted (rev (map rank (map snd ns)))"
      "\<forall>sr. sr \<in> set (map snd ns) \<longleftrightarrow> answers idx ?ws sr" using post by (simp only: if_True) blast
    have "ns \<noteq> []" using True ns(4) by auto
    have l: "l \<noteq> NULL" using ns(1) by (simp add: ll_rep_def)
    have "wp (LLMakeIterator l 0) (\<lambda>it. wp loop_bound (\<lambda>n. wp (print_results n dt it) (\<lambda>out.
       wp (LLIteratorFree it) (\<lambda>_. wp (FreeLinkedList l 1) (\<lambda>_ h'. no_failures h' \<and> b \<le> brk h' \<and> out = map (shown_result dt) (map snd ns)))))) h1"
    proof (rule wp_mono [OF MakeIterator_spec [OF ns(1) \<open>ns \<noteq> []\<close> h1(1)]], simp, goal_cases)
      case (1 it h2)
      then have h2: "iter_at h2 it l (first_addr ns NULL)" "ll_rep h2 l ns" "no_failures h2" "b \<le> brk h2" using h1(2) by auto
      have len: "length ns \<le> Suc (brk h2)" using h2(2) chain_ok_length [of ns "brk h2"] by (simp add: ll_rep_def)
      have "wp (print_results (Suc (brk h2)) dt it) (\<lambda>out h'. no_failures h' \<and> brk h2 \<le> brk h' \<and> ll_rep h' l ([] @ ns) \<and> iters h' it \<noteq> None
          \<and> out = map (shown_result dt) (map snd ns)) h2"
        by (rule print_results_run [OF ok(2) h2(4,3)]) (use h2 \<open>ns \<noteq> []\<close> len names ns(4) in auto)
      then have "wp (print_results (Suc (brk h2)) dt it) (\<lambda>out. wp (LLIteratorFree it) (\<lambda>_. wp (FreeLinkedList l 1)
          (\<lambda>_ h'. no_failures h' \<and> b \<le> brk h' \<and> out = map (shown_result dt) (map snd ns)))) h2"
      proof (rule wp_mono, goal_cases)
        case (1 out h3)
        let ?h3 = "h3\<lparr>iters := (iters h3)(it := None)\<rparr>"
        have rep3: "ll_rep ?h3 l ns" using 1 by (simp add: ll_rep_def)
        have "it \<noteq> NULL" using h2(1) by (simp add: iter_at_def)
        moreover have "wp (FreeLinkedList l 1) (\<lambda>_ h'. no_failures h' \<and> b \<le> brk h' \<and> out = map (shown_result dt) (map snd ns)) ?h3"
          by (rule wp_mono [OF FreeLinkedList_spec [OF rep3]]) (use 1 h2(4) in \<open>auto simp: no_failures_def\<close>)
        ultimately show ?case using 1 by (auto simp: LLIteratorFree_def wp_simps)
      qed
      then show ?case by (simp add: wp_def loop_bound_def del: print_results.simps)
    qed
    then have "wp (answer_line dt idx line) (\<lambda>out h'. no_failures h' \<and> b \<le> brk h' \<and> out = map (shown_result dt) (map snd ns)) h"
      unfolding start if_P [OF l] wp_bnd wp_ret .
    then show ?thesis by (rule wp_mono) (use ns(2-4) in blast)
  qed
qed

section \<open>Answers in terms of documents\<close>

definition has_word :: "document \<Rightarrow> cstring \<Rightarrow> bool" where
  "has_word doc w \<longleftrightarrow> w \<in> fst ` set (snd doc)"

definition doc_rank :: "document \<Rightarrow> cstring list \<Rightarrow> HWSize_t" where
  "doc_rank doc ws = (\<Sum>w\<leftarrow>ws. of_nat (length (occurrences (snd doc) w)))"

text \<open>
  The documents with all words, each once, by decreasing rank.  A line is safe when the words before
  the first unknown one, but for the last of them, are in one document.
\<close>

definition doc_answers :: "document list \<Rightarrow> cstring list \<Rightarrow> shown list \<Rightarrow> bool" where
  "doc_answers docs ws out \<longleftrightarrow> distinct (map fst out) \<and> sorted (rev (map snd out))
     \<and> set out = (\<lambda>doc. (fst doc, doc_rank doc ws)) ` {doc \<in> set docs. ws \<noteq> [] \<and> (\<forall>w \<in> set ws. has_word doc w)}"

definition safe_words :: "document list \<Rightarrow> cstring list \<Rightarrow> bool" where
  "safe_words docs ws \<longleftrightarrow> (let ps = butlast (takeWhile (\<lambda>w. \<exists>doc \<in> set docs. has_word doc w) ws)
     in ps = [] \<or> (\<exists>doc \<in> set docs. \<forall>w \<in> set ps. has_word doc w))"

definition doc_of :: "document list \<Rightarrow> DocID_t \<Rightarrow> document" where
  "doc_of docs d = docs ! (unat d - 1)"

definition doc_id :: "document list \<Rightarrow> DocID_t \<Rightarrow> bool" where
  "doc_id docs d \<longleftrightarrow> d \<noteq> 0 \<and> unat d \<le> length docs"

lemma found_doc: "found docs w d = (if doc_id docs d \<and> has_word (doc_of docs d) w then Some (occurrences (snd (doc_of docs d)) w) else None)"
  by (simp add: found_def doc_id_def doc_of_def has_word_def)

lemma doc_of_mem: "doc_id docs d \<Longrightarrow> doc_of docs d \<in> set docs"
  by (simp add: doc_of_def doc_id_def place_bound)

lemma doc_of_ex:
  assumes "doc \<in> set docs" and "length docs < 2 ^ 31"
  obtains d where "doc_id docs d" and "doc_of docs d = doc"
proof -
  obtain i where i: "i < length docs" "docs ! i = doc" using assms(1) by (auto simp: in_set_conv_nth)
  have u: "unat (of_nat (Suc i) :: DocID_t) = Suc i" using i(1) assms(2) by (simp add: unat_of_nat take_bit_nat_eq_self del: of_nat_Suc)
  then have "doc_id docs (of_nat (Suc i))" using i(1) by (auto simp: doc_id_def simp del: of_nat_Suc)
  moreover have "doc_of docs (of_nat (Suc i)) = doc" using i(2) u by (simp add: doc_of_def del: of_nat_Suc)
  ultimately show thesis by (rule that)
qed

lemma doc_of_inj: "distinct (map fst docs) \<Longrightarrow> doc_id docs d \<Longrightarrow> doc_id docs e \<Longrightarrow> fst (doc_of docs d) = fst (doc_of docs e) \<Longrightarrow> d = e"
proof -
  assume a: "distinct (map fst docs)" "doc_id docs d" "doc_id docs e" "fst (doc_of docs d) = fst (doc_of docs e)"
  have b: "unat d - 1 < length docs" "unat e - 1 < length docs" using a(2,3) by (simp_all add: doc_id_def place_bound)
  then have "unat d - 1 = unat e - 1" using a(1,4) nth_eq_iff_index_eq [OF a(1)] by (simp add: doc_of_def)
  moreover have "0 < unat d" "0 < unat e" using a(2,3) by (simp_all add: doc_id_def unat_gt_0)
  ultimately have "unat d = unat e" by linarith
  then show "d = e" by (simp add: word_unat_eq_iff)
qed

lemma doc_ids_card: "card {d. doc_id docs d} \<le> length docs"
proof -
  have "unat ` {d. doc_id docs d} \<subseteq> {0<..length docs}" by (auto simp: doc_id_def unat_gt_0)
  then have "card (unat ` {d. doc_id docs d}) \<le> length docs" by (metis card_greaterThanAtMost card_mono diff_zero finite_greaterThanAtMost)
  moreover have "inj_on unat {d. doc_id docs d}" by (rule inj_onI) (simp add: word_unat_eq_iff)
  ultimately show ?thesis using card_image by metis
qed

lemma crawled_name: "crawled W docs (dt, index) s \<Longrightarrow> doc_id docs d \<Longrightarrow> dt_names dt d = Some (fst (doc_of docs d))"
proof -
  assume a: "crawled W docs (dt, index) s" "doc_id docs d"
  define i where "i = unat d - 1"
  have "0 < unat d" using a(2) by (simp add: doc_id_def unat_gt_0)
  then have "Suc i = unat d" by (simp add: i_def)
  then have "i < length docs" "of_nat (Suc i) = d" using a(2) by (auto simp: doc_id_def simp del: of_nat_Suc)
  then show ?thesis using a(1) by (auto simp: crawled_def doc_of_def i_def simp del: of_nat_Suc)
qed

lemma crawled_postings:
  assumes "crawled W docs (dt, index) s" and "inj_on FNVHash64 W" and "words_in docs \<subseteq> W" and "w \<in> W"
  shows "postings index w \<noteq> None \<longleftrightarrow> (\<exists>doc \<in> set docs. has_word doc w)"
proof -
  have "dom (ht_map index) = FNVHash64 ` words_in docs" using assms(1) by (auto simp: crawled_def)
  then have "postings index w \<noteq> None \<longleftrightarrow> FNVHash64 w \<in> FNVHash64 ` words_in docs" by (auto simp: postings_def dom_def)
  also have "\<dots> \<longleftrightarrow> w \<in> words_in docs" using inj_on_image_mem_iff [OF assms(2,4,3)] .
  also have "\<dots> \<longleftrightarrow> (\<exists>doc \<in> set docs. has_word doc w)" by (simp add: words_in_def has_word_def)
  finally show ?thesis .
qed

lemma crawled_answers:
  assumes "crawled W docs (dt, index) s" and "set ws \<subseteq> W"
  shows "answers index ws sr \<longleftrightarrow> ws \<noteq> [] \<and> doc_id docs (docid sr) \<and> (\<forall>w \<in> set ws. has_word (doc_of docs (docid sr)) w) \<and> rank sr = doc_rank (doc_of docs (docid sr)) ws"
proof -
  let ?d = "docid sr"
  have h: "hits index w ?d = found docs w ?d" if "w \<in> set ws" for w using assms that by (auto simp: crawled_def)
  have all: "(\<forall>w \<in> set ws. hits index w ?d \<noteq> None) \<longleftrightarrow> (\<forall>w \<in> set ws. doc_id docs ?d \<and> has_word (doc_of docs ?d) w)"
    using h by (auto simp: found_doc)
  have "(\<Sum>w\<leftarrow>ws. hit_count index ?d w) = doc_rank (doc_of docs ?d) ws" if "\<forall>w \<in> set ws. doc_id docs ?d \<and> has_word (doc_of docs ?d) w"
    unfolding doc_rank_def hit_count_def using h that by (intro arg_cong [where f = sum_list] map_cong) (auto simp: found_doc)
  then show ?thesis unfolding answers_def all by (cases ws) auto
qed

lemma crawled_safe:
  assumes cr: "crawled W docs (dt, index) s" and W: "inj_on FNVHash64 W" "words_in docs \<subseteq> W" "set ws \<subseteq> W"
    and safe: "safe_words docs ws" and len: "length docs < 2 ^ 31"
  shows "query_safe index ws"
proof -
  let ?ps = "butlast (takeWhile (\<lambda>w. \<exists>doc \<in> set docs. has_word doc w) ws)"
  have tw: "takeWhile (\<lambda>w. postings index w \<noteq> None) ws = takeWhile (\<lambda>w. \<exists>doc \<in> set docs. has_word doc w) ws"
    using crawled_postings [OF cr W(1,2)] W(3) by (intro takeWhile_cong) auto
  show ?thesis
  proof (cases "?ps = []")
    case False
    then obtain doc where doc: "doc \<in> set docs" "\<forall>w \<in> set ?ps. has_word doc w" using safe by (auto simp: safe_words_def Let_def)
    obtain d where d: "doc_id docs d" "doc_of docs d = doc" using doc_of_ex [OF doc(1) len] by blast
    have "hits index w d \<noteq> None" if w: "w \<in> set ?ps" for w
    proof -
      have "w \<in> W" using w W(3) by (meson in_set_butlastD set_takeWhileD subsetD)
      then show ?thesis using cr doc(2) d w by (auto simp: crawled_def found_doc)
    qed
    then show ?thesis unfolding query_safe_def tw by blast
  next
    case True
    then show ?thesis unfolding query_safe_def tw by simp
  qed
qed

lemma answers_documents:
  assumes cr: "crawled W docs (dt, index) s" and W: "set ws \<subseteq> W" and dist: "distinct (map fst docs)" and len: "length docs < 2 ^ 31"
    and srs: "distinct (map docid srs)" "sorted (rev (map rank srs))" "\<forall>sr. sr \<in> set srs \<longleftrightarrow> answers index ws sr"
  shows "doc_answers docs ws (map (shown_result dt) srs)"
proof -
  note a = crawled_answers [OF cr W]
  have s: "shown_result dt sr = (fst (doc_of docs (docid sr)), doc_rank (doc_of docs (docid sr)) ws)" if "sr \<in> set srs" for sr
    using that srs(3) a [of sr] crawled_name [OF cr] by (simp add: shown_result_def)
  have "inj_on (\<lambda>sr. fst (doc_of docs (docid sr))) (set srs)"
  proof (rule inj_onI)
    fix x y assume xy: "x \<in> set srs" "y \<in> set srs" "fst (doc_of docs (docid x)) = fst (doc_of docs (docid y))"
    then have "docid x = docid y" using doc_of_inj [OF dist] srs(3) a by blast
    then show "x = y" using srs(1) xy(1,2) by (simp add: distinct_map inj_on_def)
  qed
  then have "distinct (map (\<lambda>sr. fst (doc_of docs (docid sr))) srs)" using srs(1) by (simp add: distinct_map)
  moreover have names: "map fst (map (shown_result dt) srs) = map (\<lambda>sr. fst (doc_of docs (docid sr))) srs" using s by simp
  ultimately have "distinct (map fst (map (shown_result dt) srs))" unfolding names by simp
  moreover have "map snd (map (shown_result dt) srs) = map rank srs" by (simp add: shown_result_def)
  moreover have "set (map (shown_result dt) srs) = (\<lambda>doc. (fst doc, doc_rank doc ws)) ` {doc \<in> set docs. ws \<noteq> [] \<and> (\<forall>w \<in> set ws. has_word doc w)}" (is "_ = ?R")
  proof (intro equalityI subsetI)
    fix x assume "x \<in> set (map (shown_result dt) srs)"
    then obtain sr where sr: "sr \<in> set srs" "x = shown_result dt sr" by auto
    then show "x \<in> ?R" using s [OF sr(1)] srs(3) a [of sr] doc_of_mem by auto
  next
    fix x assume "x \<in> ?R"
    then obtain doc where doc: "doc \<in> set docs" "ws \<noteq> []" "\<forall>w \<in> set ws. has_word doc w" "x = (fst doc, doc_rank doc ws)" by auto
    obtain d where d: "doc_id docs d" "doc_of docs d = doc" using doc_of_ex [OF doc(1) len] by blast
    let ?sr = "\<lparr>docid = d, rank = doc_rank doc ws\<rparr>"
    have "?sr \<in> set srs" using srs(3) a [of ?sr] doc d by simp
    moreover have "shown_result dt ?sr = x" using s [OF calculation] d doc(4) by simp
    ultimately show "x \<in> set (map (shown_result dt) srs)" by force
  qed
  ultimately show ?thesis using srs(2) unfolding doc_answers_def by (simp only: simp_thms)
qed

section \<open>A session\<close>

lemma documents_distinct: "crawlable fs W c [] ps \<Longrightarrow> distinct (map fst (documents c ps))"
proof -
  assume "crawlable fs W c [] ps"
  then have "distinct ps" by (simp add: crawlable_def distinct_map)
  then show ?thesis by (simp add: documents_paths)
qed

text \<open>What a session relies on for each line.\<close>

definition line_ok :: "cstring set \<Rightarrow> document list \<Rightarrow> cstring \<Rightarrow> bool" where
  "line_ok W docs line \<longleftrightarrow> length (query_words line) \<le> 32 \<and> set (query_words line) \<subseteq> W \<and> safe_words docs (query_words line)"

lemma answer_line_documents:
  assumes cr: "crawled W docs (dt, idx) s" and W: "inj_on FNVHash64 W" "words_in docs \<subseteq> W" and dist: "distinct (map fst docs)" and len: "length docs < 2 ^ 31"
    and le: "brk s \<le> brk h" and nf: "no_failures h" and line: "line_ok W docs line"
  shows "wp (answer_line dt idx line) (\<lambda>out h'. no_failures h' \<and> brk s \<le> brk h' \<and> doc_answers docs (query_words line) out) h"
proof -
  let ?ws = "query_words line"
  have ws: "length ?ws \<le> 32" "set ?ws \<subseteq> W" "safe_words docs ?ws" using line by (auto simp: line_ok_def)
  have ok: "mi_ok idx (brk s)" "ht_wf (docid_to_docname dt) (brk s)" using cr by (auto simp: crawled_def dt_ok_def)
  have "card {d. hits idx w d \<noteq> None} < 2 ^ 31" if w: "w \<in> set ?ws" for w
  proof -
    have "hits idx w d = found docs w d" for d using cr ws(2) w by (auto simp: crawled_def)
    then have sub: "{d. hits idx w d \<noteq> None} \<subseteq> {d. doc_id docs d}" by (auto simp: found_doc split: if_splits)
    have "finite {d. doc_id docs d}" by simp
    then have "card {d. hits idx w d \<noteq> None} \<le> length docs" using card_mono [OF _ sub] doc_ids_card [of docs] by linarith
    then show ?thesis using len by simp
  qed
  moreover have "docid sr \<noteq> 0 \<and> dt_names dt (docid sr) \<noteq> None" if "answers idx ?ws sr" for sr
    using that crawled_answers [OF cr ws(2)] crawled_name [OF cr] by (auto simp: doc_id_def)
  ultimately show ?thesis
    by (intro wp_mono [OF answer_line_run [OF ok le nf ws(1) crawled_safe [OF cr W ws(2,3) len]]])
      (auto intro: answers_documents [OF cr ws(2) dist len])
qed

lemma answer_lines_run:
  assumes cr: "crawled W docs (dt, idx) s" and W: "inj_on FNVHash64 W" "words_in docs \<subseteq> W" and dist: "distinct (map fst docs)" and len: "length docs < 2 ^ 31"
    and "brk s \<le> brk h" and "no_failures h" and "\<forall>line \<in> set lines. line_ok W docs line"
  shows "wp (answer_lines dt idx lines) (\<lambda>out h'. \<exists>outs. out = concat outs \<and> list_all2 (\<lambda>line. doc_answers docs (query_words line)) lines outs) h"
  using assms(6-)
proof (induction lines arbitrary: h)
  case (Cons line lines)
  have ok: "line_ok W docs line" using Cons.prems(3) by simp
  show ?case
    unfolding answer_lines.simps wp_bnd [of "answer_line _ _ _"]
  proof (rule wp_mono [OF answer_line_documents [OF assms(1-5) Cons.prems(1,2) ok]], goal_cases)
    case (1 out h1)
    then have "wp (answer_lines dt idx lines) (\<lambda>t h'. \<exists>outs. t = concat outs \<and> list_all2 (\<lambda>line. doc_answers docs (query_words line)) lines outs) h1"
      using Cons.prems(3) by (intro Cons.IH) auto
    then show ?case
      unfolding wp_bnd wp_ret
    proof (rule wp_mono, elim exE conjE)
      fix t outs assume "t = concat outs" "list_all2 (\<lambda>line. doc_answers docs (query_words line)) lines outs"
      then show "\<exists>outs. out @ t = concat outs \<and> list_all2 (\<lambda>line. doc_answers docs (query_words line)) (line # lines) outs"
        using 1 by (intro exI [of _ "out # outs"]) simp
    qed
  qed
qed (simp add: wp_simps)

lemma wp_on_alloc_crawl:
  assumes "wp c (\<lambda>x s'. P x s' \<and> no_failures s') (malloc_state.truncate h)"
    and "\<And>x s'. P x s' \<Longrightarrow> no_failures s' \<Longrightarrow> Q x (h\<lparr>brk := brk s', outcomes := outcomes s'\<rparr>)"
  shows "wp (on_alloc c) Q h"
  using assms by (auto simp: wp_iff on_alloc_def)

section \<open>Properties\<close>



end
