(* ===== verification/Crc32.thy ===== *)
theory Crc32
  imports HashTable
begin

text \<open>
  The checksum object of uw\_cse333/hw/hw3/fileindexutil.cc.  Its lookup table is a static array, filled by
  the first object that is made; the state of the commands is that array beside the allocator.  The
  reference the class is compared with shifts its register by one bit at a time.
\<close>

section \<open>The class\<close>

record crc_statics = malloc_state +
  crc_table :: "32 word list"
  table_is_initialized :: bool

record CRC32 =
  crc_state :: "32 word"
  finalized :: bool

text \<open>The loop of \<open>CRC32Reflect\<close>; the argument \<open>Suc k\<close> is \<open>c + 1 - position\<close>.\<close>

fun CRC32Reflect_loop :: "nat \<Rightarrow> 32 word \<Rightarrow> 32 word \<Rightarrow> 32 word" where
  "CRC32Reflect_loop 0 reflectme val = val"
| "CRC32Reflect_loop (Suc k) reflectme val =
     CRC32Reflect_loop k (drop_bit 1 reflectme) (if reflectme AND 1 \<noteq> 0 then val OR push_bit k 1 else val)"

definition CRC32Reflect :: "32 word \<Rightarrow> nat \<Rightarrow> 32 word" where
  "CRC32Reflect reflectme c = CRC32Reflect_loop c reflectme 0"

definition polynomial :: "32 word" where
  "polynomial = 0x04C11DB7"

definition Initialize_step :: "32 word \<Rightarrow> 32 word" where
  "Initialize_step t = push_bit 1 t XOR (if t AND push_bit 31 1 \<noteq> 0 then polynomial else 0)"

definition Initialize_entry :: "32 word \<Rightarrow> 32 word" where
  "Initialize_entry codes = CRC32Reflect ((Initialize_step ^^ 8) (push_bit 24 (CRC32Reflect codes 8))) 32"

definition Initialize :: "('x crc_statics_scheme, unit) cmd" where
  "Initialize s = Inr ((), s\<lparr>crc_table := map (\<lambda>codes. Initialize_entry (of_nat codes)) [0..<256]\<rparr>)"

definition CRC32_new :: "('x crc_statics_scheme, CRC32) cmd" where
  "CRC32_new s =
     bnd (if \<not> table_is_initialized s
          then bnd Initialize (\<lambda>_. \<lambda>s. Inr ((), s\<lparr>table_is_initialized := True\<rparr>))
          else ret ()) (\<lambda>_.
     ret \<lparr>crc_state = 0xFFFFFFFF, finalized = False\<rparr>) s"

definition FoldByteIntoCRC :: "8 word \<Rightarrow> CRC32 \<Rightarrow> ('x crc_statics_scheme, CRC32) cmd" where
  "FoldByteIntoCRC nextbyte c s =
     bnd (Verify333 (\<not> finalized c)) (\<lambda>_.
     let i = unat ((crc_state c AND 0xFF) XOR ucast nextbyte) in
     if i < length (crc_table s) then ret (c\<lparr>crc_state := drop_bit 8 (crc_state c) XOR crc_table s ! i\<rparr>)
     else fail MemFault) s"

definition GetFinalCRC :: "CRC32 \<Rightarrow> 32 word \<times> CRC32" where
  "GetFinalCRC c =
     (let c' = (if \<not> finalized c then \<lparr>crc_state = crc_state c XOR 0xffffffff, finalized = True\<rparr> else c)
      in (crc_state c', c'))"

section \<open>The checksum, one bit at a time\<close>

definition crc_bit :: "32 word \<Rightarrow> 32 word" where
  "crc_bit s = drop_bit 1 s XOR (if bit s 0 then 0xEDB88320 else 0)"

definition crc_byte :: "32 word \<Rightarrow> 8 word \<Rightarrow> 32 word" where
  "crc_byte s b = (crc_bit ^^ 8) (s XOR ucast b)"

definition crc32 :: "8 word list \<Rightarrow> 32 word" where
  "crc32 bs = foldl crc_byte 0xFFFFFFFF bs XOR 0xFFFFFFFF"

section \<open>Reflection\<close>

lemma bit_Reflect_loop:
  "k \<le> 32 \<Longrightarrow> bit (CRC32Reflect_loop k r v) i \<longleftrightarrow> bit v i \<or> i < k \<and> bit r (k - 1 - i)"
proof (induction k arbitrary: r v)
  case (Suc k)
  have one: "r AND 1 \<noteq> 0 \<longleftrightarrow> bit r 0" by (simp add: and_one_eq bit_0 odd_iff_mod_2_eq_one)
  have "bit (CRC32Reflect_loop (Suc k) r v) i \<longleftrightarrow> bit (if bit r 0 then v OR push_bit k 1 else v) i \<or> i < k \<and> bit r (Suc (k - 1 - i))"
    using Suc.prems by (simp add: Suc.IH one bit_drop_bit_eq)
  moreover have "bit (push_bit k 1 :: 32 word) i \<longleftrightarrow> i = k" using Suc.prems by (auto simp: push_bit_of_1 bit_exp_iff)
  moreover have "Suc (k - 1 - i) = k - i" if "i < k" using that by simp
  ultimately show ?case by (auto simp: bit_or_iff less_Suc_eq split: if_splits)
qed simp

lemma bit_Reflect: "c \<le> 32 \<Longrightarrow> bit (CRC32Reflect r c) i \<longleftrightarrow> i < c \<and> bit r (c - 1 - i)"
  by (simp add: CRC32Reflect_def bit_Reflect_loop)

lemma Reflect_twice: "CRC32Reflect (CRC32Reflect w 32) 32 = w"
  by (rule bit_eqI) (auto simp: bit_Reflect dest: bit_imp_le_length)

lemma Reflect_xor: "CRC32Reflect (v XOR w) 32 = CRC32Reflect v 32 XOR CRC32Reflect w 32"
  by (rule bit_eqI) (auto simp: bit_Reflect bit_xor_iff)

lemma bit_shl: "n < 32 \<Longrightarrow> bit (push_bit 1 w :: 32 word) n \<longleftrightarrow> 1 \<le> n \<and> bit w (n - 1)"
  unfolding bit_push_bit_iff by auto

lemma Reflect_push_bit: "CRC32Reflect (push_bit 1 w) 32 = drop_bit 1 (CRC32Reflect w 32)"
proof (rule bit_word_eqI)
  fix i assume "i < LENGTH(32)"
  then have i: "31 - i < 32" "31 - Suc i = 31 - i - 1" "Suc i < 32 \<longleftrightarrow> 1 \<le> 31 - i" "i < 32" by auto
  have "bit (CRC32Reflect (push_bit 1 w) 32) i \<longleftrightarrow> bit (push_bit 1 w) (31 - i)" using i(4) by (simp only: bit_Reflect) simp
  also have "\<dots> \<longleftrightarrow> Suc i < 32 \<and> bit w (31 - Suc i)" using bit_shl [OF i(1)] by (simp only: i(2,3))
  finally show "bit (CRC32Reflect (push_bit 1 w) 32) i \<longleftrightarrow> bit (drop_bit 1 (CRC32Reflect w 32)) i"
    by (simp add: bit_Reflect bit_drop_bit_eq)
qed

lemma Reflect_polynomial: "CRC32Reflect polynomial 32 = 0xEDB88320"
  unfolding polynomial_def by code_simp

lemma Reflect_zero: "CRC32Reflect 0 32 = 0"
  by (rule bit_eqI) (simp add: bit_Reflect)

text \<open>One round of the table is one step of the register, seen from the other end.\<close>

lemma Reflect_step: "CRC32Reflect (Initialize_step t) 32 = crc_bit (CRC32Reflect t 32)"
proof -
  have "t AND push_bit 31 1 \<noteq> 0 \<longleftrightarrow> bit t 31"
    unfolding push_bit_of_1 by (simp only: and_exp_eq_0_iff_not_bit not_not)
  then show ?thesis
    unfolding Initialize_step_def crc_bit_def Reflect_xor Reflect_push_bit
    by (simp add: Reflect_polynomial Reflect_zero bit_Reflect)
qed

lemma Reflect_steps: "CRC32Reflect ((Initialize_step ^^ n) t) 32 = (crc_bit ^^ n) (CRC32Reflect t 32)"
  by (induction n) (simp_all add: Reflect_step)

lemma Reflect_byte:
  assumes "\<And>i. bit w i \<Longrightarrow> i < 8"
  shows "push_bit 24 (CRC32Reflect w 8) = CRC32Reflect w 32"
proof (rule bit_word_eqI)
  fix i assume i: "i < LENGTH(32)"
  show "bit (push_bit 24 (CRC32Reflect w 8)) i \<longleftrightarrow> bit (CRC32Reflect w 32) i"
  proof (cases "24 \<le> i")
    case True
    then have "7 - (i - 24) = 31 - i" by simp
    then show ?thesis using True i by (auto simp: bit_push_bit_iff bit_Reflect)
  next
    case False
    then show ?thesis using assms [of "31 - i"] by (auto simp: bit_push_bit_iff bit_Reflect)
  qed
qed

lemma Initialize_entry_bits: "(\<And>i. bit w i \<Longrightarrow> i < 8) \<Longrightarrow> Initialize_entry w = (crc_bit ^^ 8) w"
  by (simp add: Initialize_entry_def Reflect_steps Reflect_byte Reflect_twice)

section \<open>A byte at once\<close>

lemma crc_bit_xor: "crc_bit (v XOR w) = crc_bit v XOR crc_bit w"
  by (rule bit_eqI) (auto simp: crc_bit_def bit_xor_iff bit_drop_bit_eq)

lemma crc_bits_xor: "(crc_bit ^^ n) (v XOR w) = (crc_bit ^^ n) v XOR (crc_bit ^^ n) w"
  by (induction n) (simp_all add: crc_bit_xor)

lemma crc_bits_shift: "(\<And>i. i < n \<Longrightarrow> \<not> bit w i) \<Longrightarrow> (crc_bit ^^ n) w = drop_bit n w"
proof (induction n)
  case (Suc n)
  then have "(crc_bit ^^ n) w = drop_bit n w" "\<not> bit w n" by auto
  then show ?case using crc_bit_def [of "drop_bit n w"] by (simp add: bit_drop_bit_eq)
qed simp

text \<open>The register splits into the byte that is shifted out, and the rest, which is only shifted.\<close>

lemma crc_byte_table:
  "crc_byte s b = drop_bit 8 s XOR (crc_bit ^^ 8) ((s AND 0xFF) XOR ucast b)"
proof -
  have FF: "bit (0xFF :: 32 word) i \<longleftrightarrow> i < 8" for i
    using bit_mask_iff [of 8 i, where ?'a = "32 word"] by (auto simp: mask_numeral)
  define hi where "hi = s AND NOT 0xFF"
  have bit_hi: "bit hi i \<longleftrightarrow> bit s i \<and> 8 \<le> i" for i
    unfolding hi_def bit_and_iff bit_not_iff FF using bit_imp_le_length [of s i] by auto
  have lo: "bit (s AND 0xFF) i \<longleftrightarrow> bit s i \<and> i < 8" for i unfolding bit_and_iff FF ..
  have "hi XOR (s AND 0xFF) = s" by (rule bit_word_eqI) (unfold bit_xor_iff bit_hi lo, linarith)
  then have "hi XOR ((s AND 0xFF) XOR ucast b) = s XOR ucast b" by (simp only: xor.assoc [symmetric])
  moreover have "(crc_bit ^^ 8) hi = drop_bit 8 hi"
    by (rule crc_bits_shift) (simp add: bit_hi)
  moreover have "drop_bit 8 hi = drop_bit 8 s"
    by (rule bit_eqI) (simp add: bit_drop_bit_eq bit_hi)
  ultimately show ?thesis unfolding crc_byte_def by (metis crc_bits_xor)
qed

section \<open>The class computes the checksum\<close>

definition CRC32_table :: "32 word list" where
  "CRC32_table = map (\<lambda>codes. (crc_bit ^^ 8) (of_nat codes)) [0..<256]"

text \<open>What every object relies on: a table that is marked as filled is the right one.\<close>

definition crc_ok :: "'x crc_statics_scheme \<Rightarrow> bool" where
  "crc_ok s \<longleftrightarrow> (table_is_initialized s \<longrightarrow> crc_table s = CRC32_table)"

definition crc_ready :: "'x crc_statics_scheme \<Rightarrow> bool" where
  "crc_ready s \<longleftrightarrow> table_is_initialized s \<and> crc_table s = CRC32_table"

lemma crc_ready_ok: "crc_ready s \<Longrightarrow> crc_ok s"
  by (simp add: crc_ready_def crc_ok_def)

lemma Initialize_table: "map (\<lambda>codes. Initialize_entry (of_nat codes)) [0..<256] = CRC32_table"
  unfolding CRC32_table_def
proof (rule map_cong [OF refl], rule Initialize_entry_bits)
  fix c i assume "c \<in> set [0..<256]" and "bit (of_nat c :: 32 word) i"
  then have "bit c i" "c < 2 ^ 8" by (auto simp: bit_of_nat_iff)
  then show "i < 8" by (metis bit_take_bit_iff take_bit_nat_eq_self)
qed

lemma CRC32_new_spec:
  assumes "crc_ok s"
  obtains s' where "CRC32_new s = Inr (\<lparr>crc_state = 0xFFFFFFFF, finalized = False\<rparr>, s')" and "crc_ready s'"
    and "s' = s\<lparr>crc_table := crc_table s', table_is_initialized := True\<rparr>"
proof (cases "table_is_initialized s")
  case True
  then have "crc_ready s" using assms by (simp add: crc_ok_def crc_ready_def)
  then show thesis using that [of s] True by (simp add: CRC32_new_def ret_run)
next
  case False
  then show thesis
    using that [of "s\<lparr>crc_table := CRC32_table, table_is_initialized := True\<rparr>"]
    by (simp add: CRC32_new_def bnd_def Initialize_def Initialize_table ret_run crc_ready_def)
qed

lemma FoldByte_run:
  assumes "crc_ready s" and "\<not> finalized c"
  shows "FoldByteIntoCRC b c s = Inr (c\<lparr>crc_state := crc_byte (crc_state c) b\<rparr>, s)"
proof -
  let ?i = "(crc_state c AND 0xFF) XOR ucast b"
  have "?i = take_bit 8 ?i"
  proof (rule bit_word_eqI)
    fix n
    have "bit (0xFF :: 32 word) n \<longleftrightarrow> n < 8"
      using bit_mask_iff [of 8 n, where ?'a = "32 word"] by (auto simp: mask_numeral)
    then have "bit ?i n \<longrightarrow> n < 8"
      unfolding bit_xor_iff bit_and_iff bit_ucast_iff using bit_imp_le_length [of b n] by auto
    then show "bit ?i n \<longleftrightarrow> bit (take_bit 8 ?i) n" unfolding bit_take_bit_iff by blast
  qed
  then have "unat ?i = take_bit 8 (unat ?i)" by (metis unsigned_take_bit_eq)
  then have lt: "unat ?i < 256" using take_bit_nat_less_exp [of 8 "unat ?i"] by simp
  then have "CRC32_table ! unat ?i = (crc_bit ^^ 8) ?i" unfolding CRC32_table_def by simp
  moreover have "length CRC32_table = 256" by (simp add: CRC32_table_def)
  ultimately show ?thesis using assms lt by (simp add: FoldByteIntoCRC_def crc_ready_def Let_def ret_run crc_byte_table)
qed

text \<open>The bytes of a buffer, folded in order.\<close>

fun fold_bytes :: "8 word list \<Rightarrow> CRC32 \<Rightarrow> ('x crc_statics_scheme, CRC32) cmd" where
  "fold_bytes [] c = ret c"
| "fold_bytes (b # bs) c = bnd (FoldByteIntoCRC b c) (fold_bytes bs)"

lemma fold_bytes_run:
  "crc_ready s \<Longrightarrow> \<not> finalized c \<Longrightarrow>
     fold_bytes bs c s = Inr (c\<lparr>crc_state := foldl crc_byte (crc_state c) bs\<rparr>, s)"
proof (induction bs arbitrary: c)
  case (Cons b bs)
  then show ?case using FoldByte_run [OF Cons.prems, of b] by (simp add: bnd_Inr)
qed (simp add: ret_run)

lemma GetFinalCRC_open: "\<not> finalized c \<Longrightarrow> fst (GetFinalCRC c) = crc_state c XOR 0xFFFFFFFF"
  by (simp add: GetFinalCRC_def Let_def)

text \<open>
  C40: the table-driven checksum is the CRC of the bit-serial register: an object made when the static
  table is unset or right, fed the bytes of a buffer and asked for the result, gives the reference value
  for that buffer, whether it had to fill the table or not; asked again, it repeats the result, and a
  further byte is refused.
\<close>

theorem crc_table_driven:
  assumes "crc_ok s"
  shows "\<exists>c s'. bnd CRC32_new (fold_bytes bs) s = Inr (c, s') \<and> fst (GetFinalCRC c) = crc32 bs
     \<and> fst (GetFinalCRC (snd (GetFinalCRC c))) = crc32 bs
     \<and> FoldByteIntoCRC b (snd (GetFinalCRC c)) s' = Inl VerifyFailure \<and> crc_ready s'"
proof -
  obtain s' where new: "CRC32_new s = Inr (\<lparr>crc_state = 0xFFFFFFFF, finalized = False\<rparr>, s')" and ready: "crc_ready s'"
    using CRC32_new_spec [OF assms] by metis
  have "fold_bytes bs \<lparr>crc_state = 0xFFFFFFFF, finalized = False\<rparr> s' =
      Inr (\<lparr>crc_state = foldl crc_byte 0xFFFFFFFF bs, finalized = False\<rparr>, s')"
    using fold_bytes_run [OF ready] by simp
  then show ?thesis
    using ready by (auto simp: bnd_def new GetFinalCRC_def crc32_def Let_def FoldByteIntoCRC_def fail_run)
qed

text \<open>
  The check value of CRC-32, that of the nine digits, from the first object of a process.
\<close>

theorem crc_table_driven_witness:
  "\<exists>c s'. bnd CRC32_new (fold_bytes [49, 50, 51, 52, 53, 54, 55, 56, 57])
       \<lparr>brk = 1, outcomes = [], crc_table = replicate 256 0, table_is_initialized = False\<rparr> = Inr (c, s')
     \<and> fst (GetFinalCRC c) = 0xCBF43926"
proof -
  have eight: "(f ^^ 8) x = f (f (f (f (f (f (f (f x)))))))" for f :: "32 word \<Rightarrow> 32 word" and x
    by (simp add: eval_nat_numeral)
  have "crc32 [49, 50, 51, 52, 53, 54, 55, 56, 57] = 0xCBF43926"
    by (simp add: crc32_def crc_byte_def eight crc_bit_def [of "numeral _"])
  moreover have "crc_ok \<lparr>brk = 1, outcomes = [], crc_table = replicate 256 0, table_is_initialized = False\<rparr>"
    by (simp add: crc_ok_def)
  ultimately show ?thesis using crc_table_driven [of _ "[49, 50, 51, 52, 53, 54, 55, 56, 57]"] by metis
qed

end
