(* ===== verification/IndexLayout.thy ===== *)
theory IndexLayout
  imports MemIndex Crc32
begin

text \<open>
  The layout of the index files of uw\_cse333/hw/hw3 (filelayout.h and the byte order macros of
  fileindexutil.h): the structures that are stored, their conversion to network order, and the
  operations of the C library on a file.

  The host is little-endian.  A file is the list of its bytes with an offset, which the handles that
  \<open>FileDup\<close> makes share, as the descriptors that \<open>dup\<close> makes do; a handle is the name of its file.
  \<open>cf_io\<close> holds the outcomes of the coming library calls: a failing call carries the number of items it
  still transfers, and the empty list means that every further call succeeds.
\<close>

section \<open>Bytes of words\<close>

definition le_bytes :: "nat \<Rightarrow> 'a :: len word \<Rightarrow> 8 word list" where
  "le_bytes n w = map (\<lambda>i. ucast (drop_bit (8 * i) w)) [0..<n]"

fun le_word :: "8 word list \<Rightarrow> 'a :: len word" where
  "le_word [] = 0"
| "le_word (b # bs) = ucast b OR push_bit 8 (le_word bs)"

definition htonl :: "32 word \<Rightarrow> 32 word" where
  "htonl x = le_word (rev (le_bytes 4 x))"

definition htons :: "16 word \<Rightarrow> 16 word" where
  "htons x = le_word (rev (le_bytes 2 x))"

definition ntohl :: "32 word \<Rightarrow> 32 word" where
  "ntohl x = le_word (rev (le_bytes 4 x))"

definition ntohs :: "16 word \<Rightarrow> 16 word" where
  "ntohs x = le_word (rev (le_bytes 2 x))"

definition ntohll :: "64 word \<Rightarrow> 64 word" where
  "ntohll x = push_bit 32 (ucast (ntohl (ucast (drop_bit 32 (push_bit 32 x))))) OR ucast (ntohl (ucast (drop_bit 32 x)))"

definition htonll :: "64 word \<Rightarrow> 64 word" where
  "htonll x = ntohll x"

lemma length_le_bytes [simp]: "length (le_bytes n w) = n"
  by (simp add: le_bytes_def)

lemma bit_le_bytes: "i < n \<Longrightarrow> bit (le_bytes n w ! i) j \<longleftrightarrow> j < 8 \<and> bit w (8 * i + j)"
  by (auto simp: le_bytes_def bit_ucast_iff bit_drop_bit_eq dest: bit_imp_le_length)

lemma bit_le_word: "bit (le_word bs :: 'a :: len word) i \<longleftrightarrow> i < LENGTH('a) \<and> i div 8 < length bs \<and> bit (bs ! (i div 8)) (i mod 8)"
proof (induction bs arbitrary: i)
  case (Cons b bs)
  show ?case
  proof (cases "i < 8")
    case True
    then show ?thesis by (auto simp: bit_or_iff bit_ucast_iff bit_push_bit_iff)
  next
    case False
    then have "i div 8 = Suc ((i - 8) div 8)" "(i - 8) mod 8 = i mod 8" by (simp_all add: div_if le_mod_geq)
    moreover have "\<not> bit b i" using False bit_imp_le_length [of b i] by auto
    ultimately show ?thesis using False Cons [of "i - 8"] by (auto simp: bit_or_iff bit_ucast_iff bit_push_bit_iff)
  qed
qed simp

lemma le_word_bytes: "LENGTH('a) = 8 * n \<Longrightarrow> le_word (le_bytes n w) = w" for w :: "'a :: len word"
proof (rule bit_eqI)
  fix i assume a: "LENGTH('a) = 8 * n"
  have "bit (le_bytes n w ! (i div 8)) (i mod 8) \<longleftrightarrow> bit w i" if "i div 8 < n"
    using bit_le_bytes [OF that, of w "i mod 8"] by simp
  moreover have "i div 8 < n" if "i < LENGTH('a)" using that a by (simp add: less_mult_imp_div_less mult.commute)
  ultimately show "bit (le_word (le_bytes n w) :: 'a word) i \<longleftrightarrow> bit w i"
    by (auto simp: bit_le_word dest: bit_imp_le_length)
qed

lemma le_bytes_word: "length bs = n \<Longrightarrow> 8 * n \<le> LENGTH('a) \<Longrightarrow> le_bytes n (le_word bs :: 'a :: len word) = bs"
proof (rule nth_equalityI)
  fix i assume a: "length bs = n" "8 * n \<le> LENGTH('a)" "i < length (le_bytes n (le_word bs :: 'a word))"
  then have i: "i < n" by simp
  show "le_bytes n (le_word bs :: 'a word) ! i = bs ! i"
  proof (rule bit_eqI)
    fix j
    show "bit (le_bytes n (le_word bs :: 'a word) ! i) j \<longleftrightarrow> bit (bs ! i) j"
    proof (cases "j < 8")
      case True
      then show ?thesis using i a(1,2) by (simp add: bit_le_bytes bit_le_word)
    next
      case False
      then show ?thesis using i bit_imp_le_length [of "bs ! i" j] by (auto simp: bit_le_bytes)
    qed
  qed
qed simp

lemma le_bytes_append:
  "le_bytes 8 (push_bit 32 (ucast a) OR ucast b :: 64 word) = le_bytes 4 b @ le_bytes 4 a" for a b :: "32 word"
proof (rule nth_equalityI)
  fix i assume "i < length (le_bytes 8 (push_bit 32 (ucast a) OR ucast b :: 64 word))"
  then have i: "i < 8" by simp
  show "le_bytes 8 (push_bit 32 (ucast a) OR ucast b :: 64 word) ! i = (le_bytes 4 b @ le_bytes 4 a) ! i"
  proof (rule bit_eqI)
    fix j
    show "bit (le_bytes 8 (push_bit 32 (ucast a) OR ucast b :: 64 word) ! i) j \<longleftrightarrow> bit ((le_bytes 4 b @ le_bytes 4 a) ! i) j"
    proof (cases "i < 4")
      case True
      then show ?thesis using i by (auto simp: nth_append bit_le_bytes bit_or_iff bit_push_bit_iff bit_ucast_iff dest: bit_imp_le_length)
    next
      case False
      then have "8 * i + j - 32 = 8 * (i - 4) + j" by simp
      moreover have "\<not> bit b (8 * i + j)" using False bit_imp_le_length [of b "8 * i + j"] by auto
      ultimately show ?thesis using False i by (auto simp: nth_append bit_le_bytes bit_or_iff bit_push_bit_iff bit_ucast_iff dest: bit_imp_le_length)
    qed
  qed
qed simp

text \<open>Network order: the most significant byte first.\<close>

definition be :: "nat \<Rightarrow> 'a :: len word \<Rightarrow> 8 word list" where
  "be n w = rev (le_bytes n w)"

lemma length_be [simp]: "length (be n w) = n"
  by (simp add: be_def)

lemma le_bytes_htonl [simp]: "le_bytes 4 (htonl x) = be 4 x"
  unfolding htonl_def be_def by (rule le_bytes_word) simp_all

lemma le_bytes_htons [simp]: "le_bytes 2 (htons x) = be 2 x"
  unfolding htons_def be_def by (rule le_bytes_word) simp_all

lemma ntohl_be [simp]: "ntohl (le_word (be 4 x)) = x"
proof -
  have "le_bytes 4 (le_word (be 4 x) :: 32 word) = be 4 x" by (rule le_bytes_word) simp_all
  then show ?thesis unfolding ntohl_def by (simp add: be_def le_word_bytes)
qed

lemma ntohs_be [simp]: "ntohs (le_word (be 2 x)) = x"
proof -
  have "le_bytes 2 (le_word (be 2 x) :: 16 word) = be 2 x" by (rule le_bytes_word) simp_all
  then show ?thesis unfolding ntohs_def by (simp add: be_def le_word_bytes)
qed

lemma le_bytes_halves: "le_bytes 8 x = le_bytes 4 (ucast (drop_bit 32 (push_bit 32 x)) :: 32 word) @ le_bytes 4 (ucast (drop_bit 32 x) :: 32 word)" for x :: "64 word"
proof -
  have "push_bit 32 (ucast (ucast (drop_bit 32 x) :: 32 word)) OR ucast (ucast (drop_bit 32 (push_bit 32 x)) :: 32 word) = x"
    by (rule bit_eqI) (auto simp: bit_or_iff bit_push_bit_iff bit_ucast_iff bit_drop_bit_eq dest: bit_imp_le_length)
  then show ?thesis using le_bytes_append [of "ucast (drop_bit 32 x)" "ucast (drop_bit 32 (push_bit 32 x))"] by simp
qed

lemma le_bytes_htonll [simp]: "le_bytes 8 (htonll x) = be 8 x"
proof -
  have "le_bytes 4 (ntohl y) = be 4 y" for y unfolding ntohl_def be_def by (rule le_bytes_word) simp_all
  then show ?thesis unfolding htonll_def ntohll_def le_bytes_append be_def [of 8] le_bytes_halves [of x] rev_append by (simp only: be_def)
qed

lemma ntohll_be [simp]: "ntohll (le_word (be 8 x)) = x"
proof -
  have "le_bytes 8 (le_word (be 8 x) :: 64 word) = be 8 x" by (rule le_bytes_word) simp_all
  then have "le_bytes 8 (ntohll (le_word (be 8 x))) = le_bytes 8 x" using le_bytes_htonll [of "le_word (be 8 x)"] by (simp add: htonll_def be_def)
  then have "le_word (le_bytes 8 (ntohll (le_word (be 8 x)))) = (le_word (le_bytes 8 x) :: 64 word)" by simp
  then show ?thesis by (simp add: le_word_bytes)
qed

section \<open>Stored structures\<close>

record IndexFileHeader =
  magic_number :: "32 word"
  checksum :: "32 word"
  doctable_size :: HWSize_t
  index_size :: HWSize_t

type_synonym IndexFileOffset_t = "32 word"

record bucket_rec =
  chain_len :: HWSize_t
  bucket_position :: IndexFileOffset_t

record doctable_element_header =
  dte_docid :: DocID_t
  filename_len :: "16 word"

record worddocset_header =
  word_len :: "16 word"
  doctable_len :: HWSize_t

record docid_element_header =
  die_docid :: DocID_t
  num_positions :: HWSize_t

text \<open>The conversions between host and disk format, structure by structure.\<close>

definition IndexFileHeader_toDiskFormat :: "IndexFileHeader \<Rightarrow> IndexFileHeader" where
  "IndexFileHeader_toDiskFormat h =
     \<lparr>magic_number = htonl (magic_number h), checksum = htonl (checksum h),
      doctable_size = htonl (doctable_size h), index_size = htonl (index_size h)\<rparr>"

definition IndexFileHeader_toHostFormat :: "IndexFileHeader \<Rightarrow> IndexFileHeader" where
  "IndexFileHeader_toHostFormat h =
     \<lparr>magic_number = ntohl (magic_number h), checksum = ntohl (checksum h),
      doctable_size = ntohl (doctable_size h), index_size = ntohl (index_size h)\<rparr>"

definition bucket_rec_toDiskFormat :: "bucket_rec \<Rightarrow> bucket_rec" where
  "bucket_rec_toDiskFormat r = \<lparr>chain_len = htonl (chain_len r), bucket_position = htonl (bucket_position r)\<rparr>"

definition bucket_rec_toHostFormat :: "bucket_rec \<Rightarrow> bucket_rec" where
  "bucket_rec_toHostFormat r = \<lparr>chain_len = ntohl (chain_len r), bucket_position = ntohl (bucket_position r)\<rparr>"

definition doctable_element_header_toDiskFormat :: "doctable_element_header \<Rightarrow> doctable_element_header" where
  "doctable_element_header_toDiskFormat h = \<lparr>dte_docid = htonll (dte_docid h), filename_len = htons (filename_len h)\<rparr>"

definition doctable_element_header_toHostFormat :: "doctable_element_header \<Rightarrow> doctable_element_header" where
  "doctable_element_header_toHostFormat h = \<lparr>dte_docid = ntohll (dte_docid h), filename_len = ntohs (filename_len h)\<rparr>"

definition worddocset_header_toDiskFormat :: "worddocset_header \<Rightarrow> worddocset_header" where
  "worddocset_header_toDiskFormat h = \<lparr>word_len = htons (word_len h), doctable_len = htonl (doctable_len h)\<rparr>"

definition worddocset_header_toHostFormat :: "worddocset_header \<Rightarrow> worddocset_header" where
  "worddocset_header_toHostFormat h = \<lparr>word_len = ntohs (word_len h), doctable_len = ntohl (doctable_len h)\<rparr>"

definition docid_element_header_toDiskFormat :: "docid_element_header \<Rightarrow> docid_element_header" where
  "docid_element_header_toDiskFormat h = \<lparr>die_docid = htonll (die_docid h), num_positions = htonl (num_positions h)\<rparr>"

definition docid_element_header_toHostFormat :: "docid_element_header \<Rightarrow> docid_element_header" where
  "docid_element_header_toHostFormat h = \<lparr>die_docid = ntohll (die_docid h), num_positions = ntohl (num_positions h)\<rparr>"

text \<open>
  The memory of a structure: the structures are packed, so each field directly follows the one before it.  The structures
  with one field (\<open>BucketListHeader\<close>, \<open>element_position_rec\<close>, \<open>docid_element_position\<close>) are that field.
\<close>

definition IndexFileHeader_mem :: "IndexFileHeader \<Rightarrow> 8 word list" where
  "IndexFileHeader_mem h = le_bytes 4 (magic_number h) @ le_bytes 4 (checksum h)
     @ le_bytes 4 (doctable_size h) @ le_bytes 4 (index_size h)"

definition IndexFileHeader_of :: "8 word list \<Rightarrow> IndexFileHeader" where
  "IndexFileHeader_of m = \<lparr>magic_number = le_word (take 4 m), checksum = le_word (take 4 (drop 4 m)),
     doctable_size = le_word (take 4 (drop 8 m)), index_size = le_word (take 4 (drop 12 m))\<rparr>"

definition bucket_rec_mem :: "bucket_rec \<Rightarrow> 8 word list" where
  "bucket_rec_mem r = le_bytes 4 (chain_len r) @ le_bytes 4 (bucket_position r)"

definition bucket_rec_of :: "8 word list \<Rightarrow> bucket_rec" where
  "bucket_rec_of m = \<lparr>chain_len = le_word (take 4 m), bucket_position = le_word (drop 4 m)\<rparr>"

definition doctable_element_header_mem :: "doctable_element_header \<Rightarrow> 8 word list" where
  "doctable_element_header_mem h = le_bytes 8 (dte_docid h) @ le_bytes 2 (filename_len h)"

definition doctable_element_header_of :: "8 word list \<Rightarrow> doctable_element_header" where
  "doctable_element_header_of m = \<lparr>dte_docid = le_word (take 8 m), filename_len = le_word (drop 8 m)\<rparr>"

definition worddocset_header_mem :: "worddocset_header \<Rightarrow> 8 word list" where
  "worddocset_header_mem h = le_bytes 2 (word_len h) @ le_bytes 4 (doctable_len h)"

definition worddocset_header_of :: "8 word list \<Rightarrow> worddocset_header" where
  "worddocset_header_of m = \<lparr>word_len = le_word (take 2 m), doctable_len = le_word (drop 2 m)\<rparr>"

definition docid_element_header_mem :: "docid_element_header \<Rightarrow> 8 word list" where
  "docid_element_header_mem h = le_bytes 8 (die_docid h) @ le_bytes 4 (num_positions h)"

definition docid_element_header_of :: "8 word list \<Rightarrow> docid_element_header" where
  "docid_element_header_of m = \<lparr>die_docid = le_word (take 8 m), num_positions = le_word (drop 8 m)\<rparr>"

named_theorems disk_image \<open>the bytes of a structure in disk format, and the structure they are read back as\<close>

lemma IndexFileHeader_disk [disk_image]:
  "IndexFileHeader_mem (IndexFileHeader_toDiskFormat h) =
     be 4 (magic_number h) @ be 4 (checksum h) @ be 4 (doctable_size h) @ be 4 (index_size h)"
  by (simp add: IndexFileHeader_mem_def IndexFileHeader_toDiskFormat_def)

lemma IndexFileHeader_read [disk_image]:
  "IndexFileHeader_toHostFormat (IndexFileHeader_of (be 4 a @ be 4 b @ be 4 c @ be 4 d)) =
     \<lparr>magic_number = a, checksum = b, doctable_size = c, index_size = d\<rparr>"
  by (simp add: IndexFileHeader_toHostFormat_def IndexFileHeader_of_def)

lemma bucket_rec_disk [disk_image]:
  "bucket_rec_mem (bucket_rec_toDiskFormat r) = be 4 (chain_len r) @ be 4 (bucket_position r)"
  by (simp add: bucket_rec_mem_def bucket_rec_toDiskFormat_def)

lemma bucket_rec_read [disk_image]:
  "bucket_rec_toHostFormat (bucket_rec_of (be 4 n @ be 4 p)) = \<lparr>chain_len = n, bucket_position = p\<rparr>"
  by (simp add: bucket_rec_toHostFormat_def bucket_rec_of_def)

lemma doctable_element_header_disk [disk_image]:
  "doctable_element_header_mem (doctable_element_header_toDiskFormat h) = be 8 (dte_docid h) @ be 2 (filename_len h)"
  by (simp add: doctable_element_header_mem_def doctable_element_header_toDiskFormat_def)

lemma doctable_element_header_read [disk_image]:
  "doctable_element_header_toHostFormat (doctable_element_header_of (be 8 d @ be 2 n)) = \<lparr>dte_docid = d, filename_len = n\<rparr>"
  by (simp add: doctable_element_header_toHostFormat_def doctable_element_header_of_def)

lemma worddocset_header_disk [disk_image]:
  "worddocset_header_mem (worddocset_header_toDiskFormat h) = be 2 (word_len h) @ be 4 (doctable_len h)"
  by (simp add: worddocset_header_mem_def worddocset_header_toDiskFormat_def)

lemma worddocset_header_read [disk_image]:
  "worddocset_header_toHostFormat (worddocset_header_of (be 2 n @ be 4 l)) = \<lparr>word_len = n, doctable_len = l\<rparr>"
  by (simp add: worddocset_header_toHostFormat_def worddocset_header_of_def)

lemma docid_element_header_disk [disk_image]:
  "docid_element_header_mem (docid_element_header_toDiskFormat h) = be 8 (die_docid h) @ be 4 (num_positions h)"
  by (simp add: docid_element_header_mem_def docid_element_header_toDiskFormat_def)

lemma docid_element_header_read [disk_image]:
  "docid_element_header_toHostFormat (docid_element_header_of (be 8 d @ be 4 n)) = \<lparr>die_docid = d, num_positions = n\<rparr>"
  by (simp add: docid_element_header_toHostFormat_def docid_element_header_of_def)

section \<open>Files\<close>

record cfs = crc_statics +
  cf_bytes :: "cstring \<Rightarrow> 8 word list option"
  cf_pos :: "cstring \<Rightarrow> nat"
  cf_io :: "nat option list"

type_synonym 'a file_cmd = "(cfs, 'a) cmd"

text \<open>The outcome of the next call: \<open>None\<close> is success.\<close>

definition next_io :: "nat option file_cmd" where
  "next_io s = (case cf_io s of [] \<Rightarrow> Inr (None, s) | r # rest \<Rightarrow> Inr (r, s\<lparr>cf_io := rest\<rparr>))"

definition fseek :: "cstring \<Rightarrow> nat \<Rightarrow> int file_cmd" where
  "fseek f off =
     bnd next_io (\<lambda>r. case r of None \<Rightarrow> (\<lambda>s. Inr (0, s\<lparr>cf_pos := (cf_pos s)(f := off)\<rparr>)) | Some _ \<Rightarrow> ret (-1))"

text \<open>Writing at an offset: a gap between the end of the file and the offset reads as zeros.\<close>

definition put_bytes :: "nat \<Rightarrow> 8 word list \<Rightarrow> 8 word list \<Rightarrow> 8 word list" where
  "put_bytes p bs B =
     (if bs = [] then B else take p B @ replicate (p - length B) 0 @ bs @ drop (p + length bs) B)"

text \<open>\<open>fwrite\<close> of \<open>n\<close> items of \<open>sz\<close> bytes returns the number of items written, \<open>fread\<close> that of the items read.\<close>

definition fwrite :: "cstring \<Rightarrow> nat \<Rightarrow> nat \<Rightarrow> 8 word list \<Rightarrow> nat file_cmd" where
  "fwrite f sz n bs =
     (if sz = 0 \<or> n = 0 then ret 0
      else bnd next_io (\<lambda>r s.
        case cf_bytes s f of None \<Rightarrow> Inl MemFault
        | Some B \<Rightarrow>
          let k = (case r of None \<Rightarrow> n | Some k \<Rightarrow> min k (n - 1)) in
          Inr (k, s\<lparr>cf_bytes := (cf_bytes s)(f \<mapsto> put_bytes (cf_pos s f) (take (k * sz) bs) B),
                    cf_pos := (cf_pos s)(f := cf_pos s f + k * sz)\<rparr>)))"

definition fread :: "cstring \<Rightarrow> nat \<Rightarrow> nat \<Rightarrow> (nat \<times> 8 word list) file_cmd" where
  "fread f sz n =
     (if sz = 0 \<or> n = 0 then ret (0, [])
      else bnd next_io (\<lambda>r s.
        case cf_bytes s f of None \<Rightarrow> Inl MemFault
        | Some B \<Rightarrow>
          let k = min ((length B - cf_pos s f) div sz) (case r of None \<Rightarrow> n | Some k \<Rightarrow> min k (n - 1)) in
          Inr ((k, take (k * sz) (drop (cf_pos s f) B)), s\<lparr>cf_pos := (cf_pos s)(f := cf_pos s f + k * sz)\<rparr>)))"

text \<open>\<open>fopen\<close> in the modes wb+ and rb, and \<open>unlink\<close>.\<close>

definition fopen_wb :: "cstring \<Rightarrow> bool file_cmd" where
  "fopen_wb f =
     bnd next_io (\<lambda>r. case r of
       None \<Rightarrow> (\<lambda>s. Inr (True, s\<lparr>cf_bytes := (cf_bytes s)(f \<mapsto> []), cf_pos := (cf_pos s)(f := 0)\<rparr>))
     | Some _ \<Rightarrow> ret False)"

definition fopen_rb :: "cstring \<Rightarrow> bool file_cmd" where
  "fopen_rb f =
     bnd next_io (\<lambda>r s. if r = None \<and> cf_bytes s f \<noteq> None then Inr (True, s\<lparr>cf_pos := (cf_pos s)(f := 0)\<rparr>)
                        else Inr (False, s))"

definition unlink :: "cstring \<Rightarrow> unit file_cmd" where
  "unlink f s = Inr ((), s\<lparr>cf_bytes := (cf_bytes s)(f := None)\<rparr>)"

definition FileDup :: "cstring \<Rightarrow> cstring file_cmd" where
  "FileDup f =
     bnd next_io (\<lambda>newfd.
     bnd (Verify333 (newfd = None)) (\<lambda>_.
     bnd next_io (\<lambda>retfile.
     bnd (Verify333 (retfile = None)) (\<lambda>_.
     ret f))))"

section \<open>What is stored where\<close>

definition has :: "8 word list \<Rightarrow> nat \<Rightarrow> 8 word list \<Rightarrow> bool" where
  "has B a bs \<longleftrightarrow> a + length bs \<le> length B \<and> take (length bs) (drop a B) = bs"

text \<open>The bytes outside of \<open>R\<close> are kept, and the file does not grow past \<open>u\<close>.\<close>

definition changed :: "8 word list \<Rightarrow> 8 word list \<Rightarrow> nat set \<Rightarrow> nat \<Rightarrow> bool" where
  "changed B B' R u \<longleftrightarrow> length B \<le> length B' \<and> length B' \<le> max (length B) u
     \<and> (\<forall>i < length B. i \<notin> R \<longrightarrow> B' ! i = B ! i)"

lemma has_nth: "has B a bs \<longleftrightarrow> a + length bs \<le> length B \<and> (\<forall>i < length bs. B ! (a + i) = bs ! i)"
  by (auto simp: has_def list_eq_iff_nth_eq)

lemma has_append [simp]: "has B a (xs @ ys) \<longleftrightarrow> has B a xs \<and> has B (a + length xs) ys"
  unfolding has_def length_append take_add by (auto simp: append_eq_append_conv add.commute add.assoc)

lemma has_length: "has B a bs \<Longrightarrow> a + length bs \<le> length B"
  by (simp add: has_def)

lemma has_changed:
  assumes "has B a bs" and "changed B B' R u" and "{a..<a + length bs} \<inter> R = {}"
  shows "has B' a bs"
proof -
  have "a + i \<notin> R" if "i < length bs" for i using assms(3) that by (auto simp: disjoint_iff)
  then show ?thesis using assms(1,2) by (auto simp: has_nth changed_def)
qed

lemma changed_refl [simp]: "changed B B R u"
  by (simp add: changed_def)

lemma changed_trans:
  assumes "changed B B' R u" and "changed B' B'' S v" and "R \<union> S \<subseteq> T" and "u \<le> w" and "v \<le> w"
  shows "changed B B'' T w"
proof -
  have "i \<notin> R \<and> i \<notin> S" if "i \<notin> T" for i using that assms(3) by blast
  then show ?thesis using assms(1,2,4,5) unfolding changed_def by auto
qed

lemma changed_put: "changed B (put_bytes p bs B) {p..<p + length bs} (p + length bs)"
  by (auto simp: changed_def put_bytes_def nth_append)

lemma has_put: "bs \<noteq> [] \<Longrightarrow> has (put_bytes p bs B) p bs"
proof -
  assume "bs \<noteq> []"
  then have "put_bytes p bs B = (take p B @ replicate (p - length B) 0) @ bs @ drop (p + length bs) B"
    by (simp add: put_bytes_def)
  moreover have "length (take p B @ replicate (p - length B) 0) = p" by simp
  ultimately show ?thesis unfolding has_def by (metis append_eq_conv_conj le_add1 length_append add_le_mono order_refl)
qed

section \<open>Library calls that succeed\<close>

definition io_ok :: "cfs \<Rightarrow> bool" where
  "io_ok s \<longleftrightarrow> no_failures s \<and> cf_io s = []"

definition at_pos :: "cstring \<Rightarrow> nat \<Rightarrow> cfs \<Rightarrow> cfs" where
  "at_pos f p s = s\<lparr>cf_pos := (cf_pos s)(f := p)\<rparr>"

lemma at_pos_simps [simp]:
  "cf_pos (at_pos f p s) f = p" "cf_bytes (at_pos f p s) = cf_bytes s" "io_ok (at_pos f p s) = io_ok s"
  "crc_ready (at_pos f p s) = crc_ready s" "crc_ok (at_pos f p s) = crc_ok s"
  "crc_table (at_pos f p s) = crc_table s" "table_is_initialized (at_pos f p s) = table_is_initialized s"
  by (simp_all add: at_pos_def io_ok_def crc_ready_def crc_ok_def no_failures_def)

lemma at_pos_twice [simp]: "at_pos f p (at_pos f q s) = at_pos f p s"
  by (cases s) (simp add: at_pos_def)

lemma at_pos_same: "cf_pos s f = p \<Longrightarrow> at_pos f p s = s"
  by (simp add: at_pos_def fun_upd_idem)

lemma fseek_ok: "io_ok s \<Longrightarrow> fseek f off s = Inr (0, at_pos f off s)"
  by (simp add: fseek_def next_io_def io_ok_def bnd_def at_pos_def)

lemma fwrite_ok:
  assumes "io_ok s" and "cf_bytes s f = Some B" and "length bs = n * sz"
  shows "fwrite f sz n bs s = Inr (if sz = 0 then 0 else n,
     at_pos f (cf_pos s f + length bs) (s\<lparr>cf_bytes := (cf_bytes s)(f \<mapsto> put_bytes (cf_pos s f) bs B)\<rparr>))"
  using assms by (auto simp: fwrite_def next_io_def io_ok_def bnd_def ret_run put_bytes_def at_pos_def fun_upd_idem)

lemma fread_ok:
  assumes "io_ok s" and "cf_bytes s f = Some B" and "has B (cf_pos s f) bs" and "length bs = n * sz" and "sz \<noteq> 0"
  shows "fread f sz n s = Inr ((n, bs), at_pos f (cf_pos s f + length bs) s)"
proof -
  have "n * sz \<le> length B - cf_pos s f" using assms(3,4) by (simp add: has_def le_diff_conv2)
  then have "n \<le> (length B - cf_pos s f) div sz" using assms(5) by (simp add: less_eq_div_iff_mult_less_eq)
  then have "min ((length B - cf_pos s f) div sz) n = n" by simp
  then show ?thesis
    using assms by (auto simp: fread_def next_io_def io_ok_def bnd_def ret_run has_def at_pos_def fun_upd_idem)
qed

lemma FileDup_ok: "io_ok s \<Longrightarrow> FileDup f s = Inr (f, s)"
  by (simp add: FileDup_def next_io_def io_ok_def bnd_def ret_run)

lemma io_ok_upd [simp]:
  "io_ok (s\<lparr>cf_bytes := b\<rparr>) = io_ok s" "io_ok (s\<lparr>cf_pos := p\<rparr>) = io_ok s" "io_ok (s\<lparr>crc_table := t\<rparr>) = io_ok s"
  "io_ok (s\<lparr>table_is_initialized := i\<rparr>) = io_ok s"
  by (simp_all add: io_ok_def no_failures_def)

lemma io_ok_malloc [simp]: "io_ok s \<Longrightarrow> io_ok (s\<lparr>brk := Suc (brk s)\<rparr>)"
  by (simp add: io_ok_def no_failures_def)

lemma crc_ready_upd [simp]: "crc_ready (s\<lparr>cf_bytes := b\<rparr>) = crc_ready s"
  by (simp add: crc_ready_def)

definition contents :: "cfs \<Rightarrow> cstring \<Rightarrow> 8 word list" where
  "contents s f = (case cf_bytes s f of None \<Rightarrow> [] | Some B \<Rightarrow> B)"

lemma contents_Some [simp]: "cf_bytes s f = Some B \<Longrightarrow> contents s f = B"
  by (simp add: contents_def)

text \<open>
  What a writer does to the files: only the bytes \<open>R\<close> of \<open>f\<close> change, and \<open>f\<close> does not grow past \<open>u\<close>.
\<close>

definition wrote :: "cstring \<Rightarrow> cfs \<Rightarrow> cfs \<Rightarrow> nat set \<Rightarrow> nat \<Rightarrow> bool" where
  "wrote f s s' R u \<longleftrightarrow> io_ok s' \<and> crc_table s' = crc_table s \<and> table_is_initialized s' = table_is_initialized s
     \<and> cf_bytes s f \<noteq> None \<and> cf_bytes s' f \<noteq> None \<and> (\<forall>g. g \<noteq> f \<longrightarrow> cf_bytes s' g = cf_bytes s g)
     \<and> changed (contents s f) (contents s' f) R u"

lemma wrote_trans:
  assumes "wrote f s s' R u" and "wrote f s' s'' S v" and "R \<union> S \<subseteq> T" and "u \<le> w" and "v \<le> w"
  shows "wrote f s s'' T w"
  using assms changed_trans [OF _ _ assms(3-5)] by (auto simp: wrote_def)

lemma wrote_weaken: "wrote f s s' R u \<Longrightarrow> R \<subseteq> T \<Longrightarrow> u \<le> w \<Longrightarrow> wrote f s s' T w"
  using changed_trans [OF _ changed_refl [of _ R u], of _ _ R u T w] by (auto simp: wrote_def)

lemma wrote_changed: "wrote f s s' R u \<Longrightarrow> changed (contents s f) (contents s' f) R u"
  by (simp add: wrote_def)

lemma wrote_has: "has (contents s f) a bs \<Longrightarrow> wrote f s s' R u \<Longrightarrow> {a..<a + length bs} \<inter> R = {} \<Longrightarrow> has (contents s' f) a bs"
  by (rule has_changed [OF _ wrote_changed])

lemma wrote_io: "wrote f s s' R u \<Longrightarrow> io_ok s'" "wrote f s s' R u \<Longrightarrow> cf_bytes s' f \<noteq> None"
  by (simp_all add: wrote_def)

lemma wrote_refl: "io_ok s \<Longrightarrow> cf_bytes s f \<noteq> None \<Longrightarrow> wrote f s s R u"
  by (simp add: wrote_def)

lemma wrote_brk: "io_ok s \<Longrightarrow> cf_bytes s f \<noteq> None \<Longrightarrow> wrote f s (s\<lparr>brk := Suc (brk s)\<rparr>) R u"
  by (simp add: wrote_def contents_def)

lemma wp_malloc_io: "io_ok s \<Longrightarrow> wp malloc Q s = Q (brk s) (s\<lparr>brk := Suc (brk s)\<rparr>)" "io_ok s \<Longrightarrow> brk s \<noteq> NULL"
  by (auto simp: io_ok_def wp_malloc_ok no_failures_def)

text \<open>Seeking and writing one structure.\<close>

lemma seek_write:
  assumes "io_ok s" and "cf_bytes s f \<noteq> None" and "length bs = n * sz" and "bs \<noteq> []"
    and "\<And>s'. wrote f s s' {off..<off + length bs} (off + length bs) \<Longrightarrow> has (contents s' f) off bs \<Longrightarrow> cf_pos s' f = off + length bs \<Longrightarrow> wp (c n) Q s'"
  shows "wp (fseek f off) (\<lambda>r. wp (if r \<noteq> 0 then d else bnd (fwrite f sz n bs) c) Q) s"
proof -
  obtain B where B: "cf_bytes s f = Some B" using assms(2) by auto
  let ?s = "at_pos f off s"
  let ?t = "at_pos f (off + length bs) (?s\<lparr>cf_bytes := (cf_bytes s)(f \<mapsto> put_bytes off bs B)\<rparr>)"
  have "sz \<noteq> 0" using assms(3,4) by (cases sz) auto
  have "io_ok ?s" using assms(1) by simp
  note w = fwrite_ok [OF this _ assms(3), of f B]
  have "wp (c n) Q ?t"
    by (rule assms(5)) (use assms(1,4) B in \<open>auto simp: wrote_def changed_put has_put contents_def\<close>)
  then show ?thesis
    using w B \<open>sz \<noteq> 0\<close> by (simp add: wp_Inr [of "fseek f off", OF fseek_ok [OF assms(1)]] wp_bnd wp_Inr [of "fwrite f sz n bs"])
qed

lemma write_here:
  assumes "io_ok s" and "cf_bytes s f \<noteq> None" and "length bs = n * sz" and "bs \<noteq> []"
    and "\<And>s'. wrote f s s' {cf_pos s f..<cf_pos s f + length bs} (cf_pos s f + length bs) \<Longrightarrow> has (contents s' f) (cf_pos s f) bs
       \<Longrightarrow> cf_pos s' f = cf_pos s f + length bs \<Longrightarrow> wp (c n) Q s'"
  shows "wp (fwrite f sz n bs) (\<lambda>r. wp (c r) Q) s"
proof -
  obtain B where B: "cf_bytes s f = Some B" using assms(2) by auto
  have "sz \<noteq> 0" using assms(3,4) by (cases sz) auto
  have "wp (c n) Q (at_pos f (cf_pos s f + length bs) (s\<lparr>cf_bytes := (cf_bytes s)(f \<mapsto> put_bytes (cf_pos s f) bs B)\<rparr>))"
    by (rule assms(5)) (use assms(1,4) B in \<open>auto simp: wrote_def changed_put has_put contents_def\<close>)
  then show ?thesis using \<open>sz \<noteq> 0\<close> by (simp add: wp_Inr [of "fwrite f sz n bs", OF fwrite_ok [OF assms(1) B assms(3)]])
qed

end
