(* ===== verification/IndexWriter.thy ===== *)
theory IndexWriter
  imports IndexLayout
begin

text \<open>
  The writer of index files, uw\_cse333/hw/hw3/fileindexwriter.cc.  A hash table is stored as its number of
  buckets, an array of bucket records, and the buckets; a bucket is the array of the offsets of its
  elements and the elements.  The function that stores an element is an argument, as in the code.

  Offsets and sizes are 32-bit words.  A call of the library that fails makes the function that called
  it return 0; the loops over buckets and elements do not look at that 0.
\<close>

section \<open>Operations\<close>

definition WriteBucketRecord ::
    "cstring \<Rightarrow> 'v HTKeyValue chain \<Rightarrow> IndexFileOffset_t \<Rightarrow> IndexFileOffset_t \<Rightarrow> HWSize_t file_cmd" where
  "WriteBucketRecord f li br_offset b_offset =
     (let br = bucket_rec_toDiskFormat \<lparr>chain_len = of_nat (length li), bucket_position = b_offset\<rparr> in
      bnd (fseek f (unat br_offset)) (\<lambda>res.
      if res \<noteq> 0 then ret 0
      else bnd (fwrite f 8 1 (bucket_rec_mem br)) (\<lambda>n.
        if n \<noteq> 1 then ret 0 else ret 8)))"

text \<open>The loop over a chain; the elements are written after the array of their offsets.\<close>

fun WriteBucket_loop ::
    "cstring \<Rightarrow> (IndexFileOffset_t \<Rightarrow> 'v HTKeyValue \<Rightarrow> HWSize_t file_cmd) \<Rightarrow> 'v HTKeyValue chain
      \<Rightarrow> IndexFileOffset_t \<Rightarrow> HWSize_t \<Rightarrow> HWSize_t \<Rightarrow> HWSize_t file_cmd" where
  "WriteBucket_loop f fn [] offset nextelpos bucketlen = ret bucketlen"
| "WriteBucket_loop f fn ((a, kv) # li) offset nextelpos bucketlen =
     bnd (fseek f (unat offset)) (\<lambda>res.
     if res \<noteq> 0 then ret 0
     else bnd (fwrite f 4 1 (le_bytes 4 (htonl nextelpos))) (\<lambda>n.
       if n \<noteq> 1 then ret 0
       else bnd (fn nextelpos kv) (\<lambda>ellen.
         WriteBucket_loop f fn li (offset + 4) (nextelpos + ellen) (bucketlen + ellen))))"

definition WriteBucket ::
    "cstring \<Rightarrow> 'v HTKeyValue chain \<Rightarrow> IndexFileOffset_t
      \<Rightarrow> (IndexFileOffset_t \<Rightarrow> 'v HTKeyValue \<Rightarrow> HWSize_t file_cmd) \<Rightarrow> HWSize_t file_cmd" where
  "WriteBucket f li offset fn =
     (let chainlen_ho = of_nat (length li); bucketlen = 4 * chainlen_ho; nextelpos = offset + bucketlen in
      if chainlen_ho > 0 then
        bnd malloc (\<lambda>it.
        bnd (Verify333 (it \<noteq> NULL)) (\<lambda>_.
        WriteBucket_loop f fn li offset nextelpos bucketlen))
      else ret bucketlen)"

text \<open>The loop over the buckets gives the offset after the last one; \<open>n\<close> counts the rounds left.\<close>

fun WriteHashTable_loop ::
    "cstring \<Rightarrow> (IndexFileOffset_t \<Rightarrow> 'v HTKeyValue \<Rightarrow> HWSize_t file_cmd) \<Rightarrow> nat \<Rightarrow> 'v HTKeyValue chain list
      \<Rightarrow> IndexFileOffset_t \<Rightarrow> IndexFileOffset_t \<Rightarrow> IndexFileOffset_t file_cmd" where
  "WriteHashTable_loop f fn 0 bs next_bucket_rec_offset next_bucket_offset = ret next_bucket_offset"
| "WriteHashTable_loop f fn (Suc n) [] next_bucket_rec_offset next_bucket_offset = fail MemFault"
| "WriteHashTable_loop f fn (Suc n) (li # bs) next_bucket_rec_offset next_bucket_offset =
     bnd (WriteBucketRecord f li next_bucket_rec_offset next_bucket_offset) (\<lambda>res.
     if length li = 0
     then WriteHashTable_loop f fn n bs (next_bucket_rec_offset + res) next_bucket_offset
     else bnd (WriteBucket f li next_bucket_offset fn) (\<lambda>res'.
       WriteHashTable_loop f fn n bs (next_bucket_rec_offset + res) (next_bucket_offset + res')))"

definition WriteHashTable ::
    "cstring \<Rightarrow> 'v HashTableRecord \<Rightarrow> IndexFileOffset_t
      \<Rightarrow> (IndexFileOffset_t \<Rightarrow> 'v HTKeyValue \<Rightarrow> HWSize_t file_cmd) \<Rightarrow> HWSize_t file_cmd" where
  "WriteHashTable f ht offset fn =
     bnd (fseek f (unat offset)) (\<lambda>res.
     if res \<noteq> 0 then ret 0
     else bnd (fwrite f 4 1 (le_bytes 4 (htonl (num_buckets ht)))) (\<lambda>n.
       if n \<noteq> 1 then ret 0
       else
         let next_bucket_rec_offset = offset + 4;
             next_bucket_offset = next_bucket_rec_offset + num_buckets ht * 8 in
         bnd (WriteHashTable_loop f fn (unat (num_buckets ht)) (buckets ht) next_bucket_rec_offset next_bucket_offset)
           (\<lambda>next. ret (next - offset))))"

definition WriteDocidDocnameFn :: "cstring \<Rightarrow> IndexFileOffset_t \<Rightarrow> cstring HTKeyValue \<Rightarrow> HWSize_t file_cmd" where
  "WriteDocidDocnameFn f offset kv =
     (let slen_ho = of_nat (length (ht_value kv)) :: 16 word;
          header = doctable_element_header_toDiskFormat \<lparr>dte_docid = ht_key kv, filename_len = slen_ho\<rparr> in
      bnd (fseek f (unat offset)) (\<lambda>res.
      if res \<noteq> 0 then ret 0
      else bnd (fwrite f 10 1 (doctable_element_header_mem header)) (\<lambda>n.
        if n \<noteq> 1 then ret 0
        else bnd (fwrite f 1 (unat slen_ho) (take (unat slen_ho) (ht_value kv))) (\<lambda>n.
          if n \<noteq> unat slen_ho then ret 0 else ret (10 + ucast slen_ho)))))"

definition WriteDocTable :: "cstring \<Rightarrow> DocTableRecord \<Rightarrow> IndexFileOffset_t \<Rightarrow> HWSize_t file_cmd" where
  "WriteDocTable f dt offset = WriteHashTable f (DTGetDocidTable dt) offset (WriteDocidDocnameFn f)"

text \<open>The positions of a document; \<open>None\<close> is the early return.\<close>

fun WriteDocPositionListFn_loop ::
    "cstring \<Rightarrow> DocPositionOffset_t list \<Rightarrow> HWSize_t \<Rightarrow> HWSize_t option file_cmd" where
  "WriteDocPositionListFn_loop f [] len = ret (Some len)"
| "WriteDocPositionListFn_loop f (p # positions) len =
     bnd (fwrite f 4 1 (le_bytes 4 (htonl p))) (\<lambda>n.
     if n \<noteq> 1 then ret None else WriteDocPositionListFn_loop f positions (len + 4))"

text \<open>
  No iterator can be made for an empty list of positions.  The final comparison, whose right-hand side
  is computed in 64 bits, ends the program by \<open>abort\<close>.
\<close>

definition WriteDocPositionListFn ::
    "cstring \<Rightarrow> IndexFileOffset_t \<Rightarrow> DocPositionOffset_t list HTKeyValue \<Rightarrow> HWSize_t file_cmd" where
  "WriteDocPositionListFn f offset kv =
     (let positions = ht_value kv; num_pos_ho = of_nat (length positions) :: HWSize_t;
          header = docid_element_header_toDiskFormat \<lparr>die_docid = ht_key kv, num_positions = num_pos_ho\<rparr> in
      bnd (fseek f (unat offset)) (\<lambda>res.
      if res \<noteq> 0 then ret 0
      else bnd (fwrite f 12 1 (docid_element_header_mem header)) (\<lambda>n.
        if n \<noteq> 1 then ret 0
        else bnd (if num_pos_ho = 0 then ret NULL else malloc) (\<lambda>it.
          bnd (Verify333 (it \<noteq> NULL)) (\<lambda>_.
          bnd (WriteDocPositionListFn_loop f positions 12) (\<lambda>r.
          case r of None \<Rightarrow> ret 0
          | Some len \<Rightarrow>
            if unat len \<noteq> 12 + 4 * unat num_pos_ho then fail VerifyFailure else ret len))))))"

definition WriteWordDocSetFn :: "cstring \<Rightarrow> IndexFileOffset_t \<Rightarrow> WordDocSet HTKeyValue \<Rightarrow> HWSize_t file_cmd" where
  "WriteWordDocSetFn f offset kv =
     (let wds = ht_value kv; wordlen_ho = of_nat (length (wds_word wds)) :: 16 word in
      bnd (WriteHashTable f (docIDs wds) (offset + 6 + ucast wordlen_ho) (WriteDocPositionListFn f)) (\<lambda>htlen_ho.
      let header = worddocset_header_toDiskFormat \<lparr>word_len = wordlen_ho, doctable_len = htlen_ho\<rparr> in
      bnd (fseek f (unat offset)) (\<lambda>res.
      if res \<noteq> 0 then ret 0
      else bnd (fwrite f 6 1 (worddocset_header_mem header)) (\<lambda>n.
        if n \<noteq> 1 then ret 0
        else bnd (fwrite f (unat wordlen_ho) 1 (take (unat wordlen_ho) (wds_word wds))) (\<lambda>n.
          if n \<noteq> 1 then ret 0 else ret (6 + ucast wordlen_ho + htlen_ho))))))"

definition WriteMemIndex :: "cstring \<Rightarrow> MemIndex \<Rightarrow> IndexFileOffset_t \<Rightarrow> HWSize_t file_cmd" where
  "WriteMemIndex f mi offset = WriteHashTable f mi offset (WriteWordDocSetFn f)"

definition MAGIC_NUMBER :: "32 word" where
  "MAGIC_NUMBER = 0xCAFEF00D"

text \<open>The checksum is folded over the bytes of both tables, read back one by one.\<close>

fun WriteHeader_loop :: "cstring \<Rightarrow> nat \<Rightarrow> CRC32 \<Rightarrow> CRC32 option file_cmd" where
  "WriteHeader_loop f 0 crcobj = ret (Some crcobj)"
| "WriteHeader_loop f (Suc n) crcobj =
     bnd (fread f 1 1) (\<lambda>(k, bs).
     if k \<noteq> 1 then ret None
     else bnd (FoldByteIntoCRC (hd bs) crcobj) (\<lambda>crcobj. WriteHeader_loop f n crcobj))"

definition WriteHeader :: "cstring \<Rightarrow> HWSize_t \<Rightarrow> HWSize_t \<Rightarrow> HWSize_t file_cmd" where
  "WriteHeader f doct_size memidx_size =
     (let cslen = doct_size + memidx_size in
      bnd CRC32_new (\<lambda>crcobj.
      bnd (fseek f 16) (\<lambda>res.
      if res \<noteq> 0 then ret 0
      else bnd (WriteHeader_loop f (unat cslen) crcobj) (\<lambda>r.
        case r of None \<Rightarrow> ret 0
        | Some crcobj \<Rightarrow>
          let header = IndexFileHeader_toDiskFormat
                \<lparr>magic_number = MAGIC_NUMBER, checksum = fst (GetFinalCRC crcobj),
                 doctable_size = doct_size, index_size = memidx_size\<rparr> in
          bnd (fseek f 0) (\<lambda>res.
          if res \<noteq> 0 then ret 0
          else bnd (fwrite f 16 1 (IndexFileHeader_mem header)) (\<lambda>n.
            if n \<noteq> 1 then ret 0
            else bnd next_io (\<lambda>r.
              bnd (Verify333 (r = None)) (\<lambda>_.
              ret 16))))))))"

definition WriteIndex :: "MemIndex \<Rightarrow> DocTableRecord \<Rightarrow> cstring \<Rightarrow> HWSize_t file_cmd" where
  "WriteIndex mi dt filename =
     bnd (fopen_wb filename) (\<lambda>ok.
     if \<not> ok then ret 0
     else bnd (WriteDocTable filename dt 16) (\<lambda>dtres.
       if dtres = 0 then bnd (unlink filename) (\<lambda>_. ret 0)
       else bnd (WriteMemIndex filename mi (16 + dtres)) (\<lambda>mires.
         if mires = 0 then bnd (unlink filename) (\<lambda>_. ret 0)
         else bnd (WriteHeader filename dtres mires) (\<lambda>headerres.
           if headerres = 0 then bnd (unlink filename) (\<lambda>_. ret 0)
           else ret (dtres + mires + headerres)))))"

section \<open>Where a table is stored\<close>

definition chain_size :: "('v HTKeyValue \<Rightarrow> nat) \<Rightarrow> 'v HTKeyValue chain \<Rightarrow> nat" where
  "chain_size esize c = 4 * length c + (\<Sum>p \<leftarrow> c. esize (snd p))"

definition table_size :: "('v HTKeyValue \<Rightarrow> nat) \<Rightarrow> 'v HashTableRecord \<Rightarrow> nat" where
  "table_size esize t = 4 + 8 * length (buckets t) + (\<Sum>c \<leftarrow> buckets t. chain_size esize c)"

lemma chain_size_Nil [simp]: "chain_size esize [] = 0"
  by (simp add: chain_size_def)

text \<open>A chain: the array of offsets at \<open>arr\<close>, the elements from \<open>pos\<close> on.\<close>

fun elems_at ::
    "('v HTKeyValue \<Rightarrow> nat) \<Rightarrow> (8 word list \<Rightarrow> nat \<Rightarrow> 'v HTKeyValue \<Rightarrow> bool) \<Rightarrow> 8 word list
      \<Rightarrow> nat \<Rightarrow> nat \<Rightarrow> 'v HTKeyValue chain \<Rightarrow> bool" where
  "elems_at esize at B arr pos [] = True"
| "elems_at esize at B arr pos ((a, kv) # c) =
     (has B arr (be 4 (of_nat pos :: 32 word)) \<and> at B pos kv \<and> elems_at esize at B (arr + 4) (pos + esize kv) c)"

text \<open>The buckets: their records from \<open>rcd\<close> on, the chains from \<open>pos\<close> on.\<close>

fun buckets_at ::
    "('v HTKeyValue \<Rightarrow> nat) \<Rightarrow> (8 word list \<Rightarrow> nat \<Rightarrow> 'v HTKeyValue \<Rightarrow> bool) \<Rightarrow> 8 word list
      \<Rightarrow> nat \<Rightarrow> nat \<Rightarrow> 'v HTKeyValue chain list \<Rightarrow> bool" where
  "buckets_at esize at B rcd pos [] = True"
| "buckets_at esize at B rcd pos (c # cs) =
     (has B rcd (be 4 (of_nat (length c) :: 32 word) @ be 4 (of_nat pos :: 32 word))
      \<and> elems_at esize at B pos (pos + 4 * length c) c
      \<and> buckets_at esize at B (rcd + 8) (pos + chain_size esize c) cs)"

definition table_at ::
    "('v HTKeyValue \<Rightarrow> nat) \<Rightarrow> (8 word list \<Rightarrow> nat \<Rightarrow> 'v HTKeyValue \<Rightarrow> bool) \<Rightarrow> 8 word list
      \<Rightarrow> nat \<Rightarrow> 'v HashTableRecord \<Rightarrow> bool" where
  "table_at esize at B off t \<longleftrightarrow> has B off (be 4 (num_buckets t))
     \<and> buckets_at esize at B (off + 4) (off + 4 + 8 * length (buckets t)) (buckets t)"

lemma unat_add_32: "unat x + n < 2 ^ 32 \<Longrightarrow> unat (x + of_nat n :: 32 word) = unat x + n" for x :: "32 word"
  by (simp add: unat_plus_if_size word_size)

lemma WriteBucketRecord_spec:
  assumes "io_ok s" and "cf_bytes s f \<noteq> None"
  shows "wp (WriteBucketRecord f c rcd pos) (\<lambda>r s'. r = 8 \<and> wrote f s s' {unat rcd..<unat rcd + 8} (unat rcd + 8)
     \<and> has (contents s' f) (unat rcd) (be 4 (of_nat (length c) :: 32 word) @ be 4 pos)) s"
  unfolding WriteBucketRecord_def Let_def wp_bnd [of "fseek _ _"] disk_image bucket_rec.simps
  by (rule seek_write [OF assms]) (auto simp: wp_simps be_def le_bytes_def)

text \<open>
  A kind of element: its size, and what it means for one to be stored at an offset.  That depends on
  the bytes it occupies only.
\<close>

locale element_layout =
  fixes esize :: "'v HTKeyValue \<Rightarrow> nat"
    and at :: "8 word list \<Rightarrow> nat \<Rightarrow> 'v HTKeyValue \<Rightarrow> bool"
  assumes at_changed: "at B i kv \<Longrightarrow> changed B B' R u \<Longrightarrow> {i..<i + esize kv} \<inter> R = {} \<Longrightarrow> at B' i kv"
    and at_length: "at B i kv \<Longrightarrow> i + esize kv \<le> length B"
begin

lemma elems_at_changed:
  assumes "elems_at esize at B arr pos c" and "changed B B' R u"
    and "({arr..<arr + 4 * length c} \<union> {pos..<pos + (\<Sum>p \<leftarrow> c. esize (snd p))}) \<inter> R = {}"
  shows "elems_at esize at B' arr pos c"
  using assms
proof (induction c arbitrary: arr pos)
  case (Cons p c)
  obtain a kv where p: "p = (a, kv)" by (cases p)
  have "{arr + 4..<arr + 4 + 4 * length c} \<union> {pos + esize kv..<pos + esize kv + (\<Sum>p \<leftarrow> c. esize (snd p))}
      \<subseteq> {arr..<arr + 4 * length (p # c)} \<union> {pos..<pos + (\<Sum>p \<leftarrow> p # c. esize (snd p))}"
    by (auto simp: p)
  then have "({arr + 4..<arr + 4 + 4 * length c} \<union> {pos + esize kv..<pos + esize kv + (\<Sum>p \<leftarrow> c. esize (snd p))}) \<inter> R = {}"
    using Cons.prems(3) by blast
  note IH = Cons.IH [OF _ Cons.prems(2) this]
  have "{arr..<arr + length (be 4 (of_nat pos :: 32 word))} \<inter> R = {}" "{pos..<pos + esize kv} \<inter> R = {}"
    using Cons.prems(3) by (auto simp: p disjoint_iff)
  then show ?case using Cons.prems(1) IH by (auto simp: p intro!: has_changed [OF _ Cons.prems(2)] at_changed [OF _ Cons.prems(2)])
qed simp

lemma buckets_at_changed:
  assumes "buckets_at esize at B rcd pos cs" and "changed B B' R u"
    and "({rcd..<rcd + 8 * length cs} \<union> {pos..<pos + (\<Sum>c \<leftarrow> cs. chain_size esize c)}) \<inter> R = {}"
  shows "buckets_at esize at B' rcd pos cs"
  using assms
proof (induction cs arbitrary: rcd pos)
  case (Cons c cs)
  have "{rcd + 8..<rcd + 8 + 8 * length cs} \<union> {pos + chain_size esize c..<pos + chain_size esize c + (\<Sum>c \<leftarrow> cs. chain_size esize c)}
      \<subseteq> {rcd..<rcd + 8 * length (c # cs)} \<union> {pos..<pos + (\<Sum>c \<leftarrow> c # cs. chain_size esize c)}" by auto
  then have "({rcd + 8..<rcd + 8 + 8 * length cs} \<union> {pos + chain_size esize c..<pos + chain_size esize c + (\<Sum>c \<leftarrow> cs. chain_size esize c)}) \<inter> R = {}"
    using Cons.prems(3) by blast
  note IH = Cons.IH [OF _ Cons.prems(2) this]
  have "{rcd..<rcd + 8} \<inter> R = {}"
      "({pos..<pos + 4 * length c} \<union> {pos + 4 * length c..<pos + 4 * length c + (\<Sum>p \<leftarrow> c. esize (snd p))}) \<inter> R = {}"
    using Cons.prems(3) by (auto simp: chain_size_def disjoint_iff)
  moreover have "has B rcd (be 4 (of_nat (length c) :: 32 word) @ be 4 (of_nat pos :: 32 word))" using Cons.prems(1) by simp
  ultimately show ?case
    using Cons.prems(1) IH elems_at_changed [OF _ Cons.prems(2)] has_changed [OF _ Cons.prems(2), of rcd]
    by (simp del: has_append)
qed simp

lemma table_at_changed:
  assumes "table_at esize at B off t" and "changed B B' R u" and "{off..<off + table_size esize t} \<inter> R = {}"
  shows "table_at esize at B' off t"
proof -
  have "{off..<off + length (be 4 (num_buckets t))} \<inter> R = {}"
      "({off + 4..<off + 4 + 8 * length (buckets t)} \<union> {off + 4 + 8 * length (buckets t)..<
        off + 4 + 8 * length (buckets t) + (\<Sum>c \<leftarrow> buckets t. chain_size esize c)}) \<inter> R = {}"
    using assms(3) by (auto simp: table_size_def disjoint_iff)
  then show ?thesis
    using assms(1) has_changed [OF _ assms(2)] buckets_at_changed [OF _ assms(2)] by (simp add: table_at_def)
qed

end

text \<open>
  A function that stores elements of a kind: it returns the size, writes there only, and the element is
  stored afterwards.
\<close>

locale element_writer = element_layout esize at
  for esize :: "'v HTKeyValue \<Rightarrow> nat" and at :: "8 word list \<Rightarrow> nat \<Rightarrow> 'v HTKeyValue \<Rightarrow> bool" +
  fixes f :: cstring
    and fn :: "IndexFileOffset_t \<Rightarrow> 'v HTKeyValue \<Rightarrow> HWSize_t file_cmd"
    and valid :: "'v HTKeyValue \<Rightarrow> bool"
  assumes fn_writes: "valid kv \<Longrightarrow> io_ok s \<Longrightarrow> cf_bytes s f \<noteq> None \<Longrightarrow> unat off + esize kv < 2 ^ 32 \<Longrightarrow>
      wp (fn off kv) (\<lambda>r s'. r = of_nat (esize kv) \<and> wrote f s s' {unat off..<unat off + esize kv} (unat off + esize kv)
        \<and> at (contents s' f) (unat off) kv) s"
begin

lemma WriteBucket_loop_spec:
  assumes "io_ok s" and "cf_bytes s f \<noteq> None" and "\<forall>p \<in> set c. valid (snd p)"
    and "unat off + 4 * length c \<le> unat pos" and "unat pos + (\<Sum>p \<leftarrow> c. esize (snd p)) < 2 ^ 32"
  shows "wp (WriteBucket_loop f fn c off pos len) (\<lambda>r s'. r = len + of_nat (\<Sum>p \<leftarrow> c. esize (snd p))
     \<and> wrote f s s' ({unat off..<unat off + 4 * length c} \<union> {unat pos..<unat pos + (\<Sum>p \<leftarrow> c. esize (snd p))})
         (unat pos + (\<Sum>p \<leftarrow> c. esize (snd p)))
     \<and> elems_at esize at (contents s' f) (unat off) (unat pos) c
     \<and> (c \<noteq> [] \<longrightarrow> unat pos + (\<Sum>p \<leftarrow> c. esize (snd p)) \<le> length (contents s' f))) s"
  using assms
proof (induction c arbitrary: s off pos len)
  case Nil
  then show ?case by (simp add: wp_simps wrote_refl)
next
  case (Cons p c)
  obtain a kv where p: "p = (a, kv)" by (cases p)
  let ?n = "\<Sum>p \<leftarrow> c. esize (snd p)"
  have off: "unat (off + 4) = unat off + 4" using unat_add_32 [of off 4] Cons.prems(4,5) by simp
  have pos: "unat (pos + of_nat (esize kv)) = unat pos + esize kv" by (rule unat_add_32) (use Cons.prems(5) in \<open>simp add: p\<close>)
  let ?Q = "\<lambda>r s'. r = len + of_nat (\<Sum>p \<leftarrow> p # c. esize (snd p))
     \<and> wrote f s s' ({unat off..<unat off + 4 * length (p # c)} \<union> {unat pos..<unat pos + (\<Sum>p \<leftarrow> p # c. esize (snd p))})
         (unat pos + (\<Sum>p \<leftarrow> p # c. esize (snd p)))
     \<and> elems_at esize at (contents s' f) (unat off) (unat pos) (p # c)
     \<and> (p # c \<noteq> [] \<longrightarrow> unat pos + (\<Sum>p \<leftarrow> p # c. esize (snd p)) \<le> length (contents s' f))"
  have "wp (fseek f (unat off)) (\<lambda>r. wp (if r \<noteq> 0 then ret 0
     else bnd (fwrite f 4 1 (le_bytes 4 (htonl pos))) (\<lambda>n.
       if n \<noteq> 1 then ret 0
       else bnd (fn pos kv) (\<lambda>ellen.
         WriteBucket_loop f fn c (off + 4) (pos + ellen) (len + ellen)))) ?Q) s"
  proof (rule seek_write [OF Cons.prems(1,2)])
    fix s1 assume w1: "wrote f s s1 {unat off..<unat off + length (le_bytes 4 (htonl pos))} (unat off + length (le_bytes 4 (htonl pos)))"
      and h1: "has (contents s1 f) (unat off) (le_bytes 4 (htonl pos))"
    have "wp (fn pos kv) (\<lambda>r. wp (WriteBucket_loop f fn c (off + 4) (pos + r) (len + r)) ?Q) s1"
    proof (rule wp_mono [OF fn_writes [OF _ wrote_io [OF w1]]], goal_cases)
      case (3 r s2)
      then have r: "r = of_nat (esize kv)" and w2: "wrote f s1 s2 {unat pos..<unat pos + esize kv} (unat pos + esize kv)"
        and at2: "at (contents s2 f) (unat pos) kv" by auto
      have h2: "has (contents s2 f) (unat off) (be 4 pos)"
        by (rule wrote_has [OF _ w2]) (use h1 Cons.prems(4) in auto)
      show ?case
        unfolding r
      proof (rule wp_mono [OF Cons.IH [OF wrote_io [OF w2]]], goal_cases)
        case (4 x s3)
        then have x: "x = len + of_nat (esize kv) + of_nat ?n"
          and w3: "wrote f s2 s3 ({unat off + 4..<unat off + 4 + 4 * length c} \<union> {unat pos + esize kv..<unat pos + esize kv + ?n})
             (unat pos + esize kv + ?n)"
          and e3: "elems_at esize at (contents s3 f) (unat off + 4) (unat pos + esize kv) c"
          by (auto simp: off pos)
        have "wrote f s s2 ({unat off..<unat off + 4} \<union> {unat pos..<unat pos + esize kv}) (unat pos + esize kv)"
          by (rule wrote_trans [OF w1 w2]) (use Cons.prems(4) in auto)
        then have "wrote f s s3 ({unat off..<unat off + 4 * length (p # c)} \<union> {unat pos..<unat pos + (\<Sum>p \<leftarrow> p # c. esize (snd p))})
            (unat pos + (\<Sum>p \<leftarrow> p # c. esize (snd p)))"
          by (rule wrote_trans [OF _ w3]) (use Cons.prems(4) in \<open>auto simp: p\<close>)
        moreover have "has (contents s3 f) (unat off) (be 4 pos)"
          by (rule wrote_has [OF h2 w3]) (use Cons.prems(4) in \<open>auto simp: disjoint_iff\<close>)
        moreover have at3: "at (contents s3 f) (unat pos) kv"
          by (rule at_changed [OF at2 wrote_changed [OF w3]]) (use Cons.prems(4) in \<open>auto simp: disjoint_iff\<close>)
        moreover have "unat pos + esize kv + ?n \<le> length (contents s3 f)"
          using 4 at_length [OF at3] by (cases c) (auto simp: pos)
        ultimately show ?case using x e3 by (simp add: p)
      qed (use Cons.prems off pos in \<open>auto simp: p\<close>)
    qed (use Cons.prems in \<open>auto simp: p\<close>)
    then show "wp (if (1 :: nat) \<noteq> 1 then ret 0 else bnd (fn pos kv) (\<lambda>ellen.
         WriteBucket_loop f fn c (off + 4) (pos + ellen) (len + ellen))) ?Q s1" by (simp add: wp_bnd)
  qed (simp_all add: le_bytes_def)
  then show ?case by (simp add: p wp_bnd)
qed

lemma WriteBucket_spec:
  assumes "io_ok s" and "cf_bytes s f \<noteq> None" and "\<forall>p \<in> set c. valid (snd p)" and "c \<noteq> []"
    and "unat off + chain_size esize c < 2 ^ 32"
  shows "wp (WriteBucket f c off fn) (\<lambda>r s'. r = of_nat (chain_size esize c)
     \<and> wrote f s s' {unat off..<unat off + chain_size esize c} (unat off + chain_size esize c)
     \<and> elems_at esize at (contents s' f) (unat off) (unat off + 4 * length c) c
     \<and> unat off + chain_size esize c \<le> length (contents s' f)) s"
proof -
  let ?s = "s\<lparr>brk := Suc (brk s)\<rparr>"
  have len: "length c < 4294967296" "unat off + 4 * length c < 2 ^ 32" using assms(5) by (simp_all add: chain_size_def)
  have pos: "unat (off + 4 * of_nat (length c)) = unat off + 4 * length c"
    using unat_add_32 [OF len(2)] by simp
  have n: "of_nat (length c) \<noteq> (0 :: 32 word)" using len(1) assms(4) by simp
  have "wp (WriteBucket_loop f fn c off (off + 4 * of_nat (length c)) (4 * of_nat (length c))) (\<lambda>r s'. r = of_nat (chain_size esize c)
     \<and> wrote f s s' {unat off..<unat off + chain_size esize c} (unat off + chain_size esize c)
     \<and> elems_at esize at (contents s' f) (unat off) (unat off + 4 * length c) c
     \<and> unat off + chain_size esize c \<le> length (contents s' f)) ?s"
  proof (rule wp_mono [OF WriteBucket_loop_spec], goal_cases)
    case (6 r s')
    then have w: "wrote f ?s s' ({unat off..<unat off + 4 * length c} \<union>
        {unat off + 4 * length c..<unat off + 4 * length c + (\<Sum>p \<leftarrow> c. esize (snd p))})
        (unat off + 4 * length c + (\<Sum>p \<leftarrow> c. esize (snd p)))" by (simp only: pos)
    have "wrote f s s' {unat off..<unat off + chain_size esize c} (unat off + chain_size esize c)"
      by (rule wrote_trans [OF wrote_brk [OF assms(1,2), of "{}" 0] w]) (auto simp: chain_size_def)
    then show ?case using 6 assms(4) by (simp add: pos chain_size_def)
  qed (use assms in \<open>auto simp: pos chain_size_def\<close>)
  then show ?thesis
    using n wp_malloc_io(2) [OF assms(1)]
    by (simp add: WriteBucket_def Let_def wp_bnd wp_malloc_io(1) [OF assms(1)] wp_Verify333 word_gt_0)
qed

lemma WriteHashTable_loop_spec:
  assumes "io_ok s" and "cf_bytes s f \<noteq> None" and "\<forall>c \<in> set cs. \<forall>p \<in> set c. valid (snd p)"
    and "unat rcd + 8 * length cs \<le> unat pos" and "unat pos + (\<Sum>c \<leftarrow> cs. chain_size esize c) < 2 ^ 32"
  shows "wp (WriteHashTable_loop f fn (length cs) cs rcd pos) (\<lambda>r s'. r = pos + of_nat (\<Sum>c \<leftarrow> cs. chain_size esize c)
     \<and> wrote f s s' ({unat rcd..<unat rcd + 8 * length cs} \<union> {unat pos..<unat pos + (\<Sum>c \<leftarrow> cs. chain_size esize c)})
         (unat pos + (\<Sum>c \<leftarrow> cs. chain_size esize c))
     \<and> buckets_at esize at (contents s' f) (unat rcd) (unat pos) cs
     \<and> (cs \<noteq> [] \<longrightarrow> unat rcd + 8 * length cs \<le> length (contents s' f))
     \<and> ((\<Sum>c \<leftarrow> cs. chain_size esize c) \<noteq> 0 \<longrightarrow> unat pos + (\<Sum>c \<leftarrow> cs. chain_size esize c) \<le> length (contents s' f))) s"
  using assms
proof (induction cs arbitrary: s rcd pos)
  case Nil
  then show ?case by (simp add: wp_simps wrote_refl)
next
  case (Cons c cs)
  let ?n = "\<Sum>c \<leftarrow> cs. chain_size esize c"
  let ?Q = "\<lambda>r s'. r = pos + of_nat (\<Sum>c \<leftarrow> c # cs. chain_size esize c)
     \<and> wrote f s s' ({unat rcd..<unat rcd + 8 * length (c # cs)} \<union> {unat pos..<unat pos + (\<Sum>c \<leftarrow> c # cs. chain_size esize c)})
         (unat pos + (\<Sum>c \<leftarrow> c # cs. chain_size esize c))
     \<and> buckets_at esize at (contents s' f) (unat rcd) (unat pos) (c # cs)
     \<and> (c # cs \<noteq> [] \<longrightarrow> unat rcd + 8 * length (c # cs) \<le> length (contents s' f))
     \<and> ((\<Sum>c \<leftarrow> c # cs. chain_size esize c) \<noteq> 0 \<longrightarrow> unat pos + (\<Sum>c \<leftarrow> c # cs. chain_size esize c) \<le> length (contents s' f))"
  have rcd: "unat (rcd + 8) = unat rcd + 8" using unat_add_32 [of rcd 8] Cons.prems(4,5) by simp
  have pos: "unat (pos + of_nat (chain_size esize c)) = unat pos + chain_size esize c"
    by (rule unat_add_32) (use Cons.prems(5) in simp)
  have rest: "wp (WriteHashTable_loop f fn (length cs) cs (rcd + 8) (pos + of_nat (chain_size esize c))) ?Q s2"
    if w: "wrote f s s2 ({unat rcd..<unat rcd + 8} \<union> {unat pos..<unat pos + chain_size esize c}) (unat pos + chain_size esize c)"
      and h: "has (contents s2 f) (unat rcd) (be 4 (of_nat (length c) :: 32 word) @ be 4 pos)"
      and e: "elems_at esize at (contents s2 f) (unat pos) (unat pos + 4 * length c) c"
      and l: "c \<noteq> [] \<longrightarrow> unat pos + chain_size esize c \<le> length (contents s2 f)" for s2
  proof (rule wp_mono [OF Cons.IH [OF wrote_io [OF w]]], goal_cases)
    case (4 r s3)
    then have r: "r = pos + of_nat (chain_size esize c) + of_nat ?n"
      and w3: "wrote f s2 s3 ({unat rcd + 8..<unat rcd + 8 + 8 * length cs} \<union>
          {unat pos + chain_size esize c..<unat pos + chain_size esize c + ?n}) (unat pos + chain_size esize c + ?n)"
      and b3: "buckets_at esize at (contents s3 f) (unat rcd + 8) (unat pos + chain_size esize c) cs"
      and l3: "cs \<noteq> [] \<longrightarrow> unat rcd + 8 + 8 * length cs \<le> length (contents s3 f)"
        "?n \<noteq> 0 \<longrightarrow> unat pos + chain_size esize c + ?n \<le> length (contents s3 f)"
      by (auto simp: rcd pos)
    have h3: "has (contents s3 f) (unat rcd) (be 4 (of_nat (length c) :: 32 word) @ be 4 pos)"
      by (rule wrote_has [OF h w3]) (use Cons.prems(4) in \<open>auto simp: disjoint_iff\<close>)
    have e3: "elems_at esize at (contents s3 f) (unat pos) (unat pos + 4 * length c) c"
      by (rule elems_at_changed [OF e wrote_changed [OF w3]]) (use Cons.prems(4) in \<open>auto simp: disjoint_iff chain_size_def\<close>)
    have "length (contents s2 f) \<le> length (contents s3 f)" using wrote_changed [OF w3] by (simp add: changed_def)
    then have l': "chain_size esize c + ?n \<noteq> 0 \<longrightarrow> unat pos + (chain_size esize c + ?n) \<le> length (contents s3 f)"
      using l l3(2) chain_size_Nil by (cases "c = []"; cases "?n = 0") (auto simp del: sum_list_eq_0_iff)
    have "unat rcd + 8 * length (c # cs) \<le> length (contents s3 f)"
      using l3(1) has_length [OF h3] by (cases "cs = []") auto
    moreover have "wrote f s s3 ({unat rcd..<unat rcd + 8 * length (c # cs)} \<union> {unat pos..<unat pos + (\<Sum>c \<leftarrow> c # cs. chain_size esize c)})
         (unat pos + (\<Sum>c \<leftarrow> c # cs. chain_size esize c))"
      by (rule wrote_trans [OF w w3]) auto
    ultimately show ?case using r h3 e3 b3 l' by simp
  qed (use Cons.prems rcd pos in auto)
  have first: "wp (WriteBucketRecord f c rcd pos) (\<lambda>res. wp (if length c = 0
       then WriteHashTable_loop f fn (length cs) cs (rcd + res) pos
       else bnd (WriteBucket f c pos fn) (\<lambda>res'. WriteHashTable_loop f fn (length cs) cs (rcd + res) (pos + res'))) ?Q) s"
  proof (rule wp_mono [OF WriteBucketRecord_spec [OF Cons.prems(1,2)]], goal_cases)
    case (1 res s1)
    then have w1: "wrote f s s1 {unat rcd..<unat rcd + 8} (unat rcd + 8)"
      and h1: "has (contents s1 f) (unat rcd) (be 4 (of_nat (length c) :: 32 word) @ be 4 pos)" and res: "res = 8" by auto
    show ?case
    proof (cases "c = []")
      case True
      have "wrote f s s1 ({unat rcd..<unat rcd + 8} \<union> {unat pos..<unat pos + chain_size esize c}) (unat pos + chain_size esize c)"
        by (rule wrote_weaken [OF w1]) (use Cons.prems(4) in auto)
      from rest [OF this h1] show ?thesis using True res by (simp add: chain_size_def)
    next
      case False
      have "wp (WriteBucket f c pos fn) (\<lambda>res'. wp (WriteHashTable_loop f fn (length cs) cs (rcd + 8) (pos + res')) ?Q) s1"
      proof (rule wp_mono [OF WriteBucket_spec [OF wrote_io [OF w1]]], goal_cases)
        case (4 r s2)
        then have w2: "wrote f s1 s2 {unat pos..<unat pos + chain_size esize c} (unat pos + chain_size esize c)" by simp
        have "has (contents s2 f) (unat rcd) (be 4 (of_nat (length c) :: 32 word) @ be 4 pos)"
          by (rule wrote_has [OF h1 w2]) (use Cons.prems(4) in auto)
        moreover have "wrote f s s2 ({unat rcd..<unat rcd + 8} \<union> {unat pos..<unat pos + chain_size esize c}) (unat pos + chain_size esize c)"
          by (rule wrote_trans [OF w1 w2]) (use Cons.prems(4) in auto)
        ultimately show ?case using rest 4 by (simp del: has_append)
      qed (use Cons.prems False in auto)
      then show ?thesis using False res by (simp add: wp_bnd)
    qed
  qed
  then show ?case by (simp add: wp_bnd)
qed

lemma WriteHashTable_spec:
  assumes "io_ok s" and "cf_bytes s f \<noteq> None" and "\<forall>c \<in> set (buckets t). \<forall>p \<in> set c. valid (snd p)"
    and "length (buckets t) = unat (num_buckets t)" and "num_buckets t \<noteq> 0" and "unat off + table_size esize t < 2 ^ 32"
  shows "wp (WriteHashTable f t off fn) (\<lambda>r s'. r = of_nat (table_size esize t)
     \<and> wrote f s s' {unat off..<unat off + table_size esize t} (unat off + table_size esize t)
     \<and> table_at esize at (contents s' f) (unat off) t
     \<and> unat off + table_size esize t \<le> length (contents s' f)) s"
  unfolding WriteHashTable_def Let_def wp_bnd [of "fseek _ _"]
proof (rule seek_write [OF assms(1,2)])
  let ?n = "\<Sum>c \<leftarrow> buckets t. chain_size esize c"
  let ?b = "length (buckets t)"
  have nb: "num_buckets t = of_nat ?b" using assms(4) by simp
  have sz: "table_size esize t = 4 + 8 * ?b + ?n" by (simp add: table_size_def)
  have rcd: "unat (off + 4) = unat off + 4" using unat_add_32 [of off 4] assms(6) sz by simp
  have "unat (off + 4 + of_nat (8 * ?b)) = unat (off + 4) + 8 * ?b" by (rule unat_add_32) (use assms(6) sz rcd in simp)
  then have pos: "unat (off + 4 + num_buckets t * 8) = unat off + 4 + 8 * ?b" using rcd nb by (simp add: mult.commute)
  have ne: "buckets t \<noteq> []" using assms(4,5) by (auto simp: unat_eq_zero)
  fix s1 assume w1: "wrote f s s1 {unat off..<unat off + length (le_bytes 4 (htonl (num_buckets t)))} (unat off + length (le_bytes 4 (htonl (num_buckets t))))"
    and h1: "has (contents s1 f) (unat off) (le_bytes 4 (htonl (num_buckets t)))"
  have "wp (WriteHashTable_loop f fn ?b (buckets t) (off + 4) (off + 4 + num_buckets t * 8)) (\<lambda>r s'. r - off = of_nat (table_size esize t)
     \<and> wrote f s s' {unat off..<unat off + table_size esize t} (unat off + table_size esize t)
     \<and> table_at esize at (contents s' f) (unat off) t
     \<and> unat off + table_size esize t \<le> length (contents s' f)) s1"
  proof (rule wp_mono [OF WriteHashTable_loop_spec [OF wrote_io [OF w1]]], goal_cases)
    case (4 r s2)
    then have w2: "wrote f s1 s2 ({unat off + 4..<unat off + 4 + 8 * ?b} \<union>
        {unat off + 4 + 8 * ?b..<unat off + 4 + 8 * ?b + ?n}) (unat off + 4 + 8 * ?b + ?n)"
      and r: "r = off + 4 + num_buckets t * 8 + of_nat ?n"
      and b: "buckets_at esize at (contents s2 f) (unat off + 4) (unat off + 4 + 8 * ?b) (buckets t)"
      and l: "unat off + 4 + 8 * ?b \<le> length (contents s2 f)"
        "?n \<noteq> 0 \<longrightarrow> unat off + 4 + 8 * ?b + ?n \<le> length (contents s2 f)"
      using ne by (auto simp: rcd pos)
    have "has (contents s2 f) (unat off) (be 4 (num_buckets t))"
      by (rule wrote_has [OF _ w2]) (use h1 in \<open>auto simp: disjoint_iff\<close>)
    moreover have "wrote f s s2 {unat off..<unat off + table_size esize t} (unat off + table_size esize t)"
      by (rule wrote_trans [OF w1 w2]) (auto simp: sz)
    moreover have "r - off = of_nat (table_size esize t)" using r by (simp add: sz nb mult.commute)
    moreover have "unat off + table_size esize t \<le> length (contents s2 f)" using l by (cases "?n = 0") (auto simp: sz simp del: sum_list_eq_0_iff)
    ultimately show ?case using b by (simp add: table_at_def)
  qed (use assms sz rcd pos in auto)
  then show "wp (if (1 :: nat) \<noteq> 1 then ret 0
         else bnd (WriteHashTable_loop f fn (unat (num_buckets t)) (buckets t) (off + 4) (off + 4 + num_buckets t * 8))
           (\<lambda>next. ret (next - off)))
      (\<lambda>r s'. r = of_nat (table_size esize t)
     \<and> wrote f s s' {unat off..<unat off + table_size esize t} (unat off + table_size esize t)
     \<and> table_at esize at (contents s' f) (unat off) t
     \<and> unat off + table_size esize t \<le> length (contents s' f)) s1"
    by (simp add: wp_bnd wp_ret assms(4))
qed (simp_all add: le_bytes_def)

end

section \<open>The three kinds of elements\<close>

text \<open>A document of the document table: its identifier, the length of its name, the name.\<close>

definition docname_size :: "cstring HTKeyValue \<Rightarrow> nat" where
  "docname_size kv = 10 + length (ht_value kv)"

definition docname_valid :: "cstring HTKeyValue \<Rightarrow> bool" where
  "docname_valid kv \<longleftrightarrow> length (ht_value kv) < 2 ^ 16"

definition docname_at :: "8 word list \<Rightarrow> nat \<Rightarrow> cstring HTKeyValue \<Rightarrow> bool" where
  "docname_at B i kv \<longleftrightarrow> has B i ((be 8 (ht_key kv) @ be 2 (of_nat (length (ht_value kv)) :: 16 word)) @ ht_value kv)"

lemma docname_writes:
  assumes v: "docname_valid kv" and io: "io_ok s" "cf_bytes s f \<noteq> None"
  shows "wp (WriteDocidDocnameFn f off kv) (\<lambda>r s'. r = of_nat (docname_size kv)
      \<and> wrote f s s' {unat off..<unat off + docname_size kv} (unat off + docname_size kv)
      \<and> docname_at (contents s' f) (unat off) kv) s"
proof -
  let ?w = "ht_value kv"
  let ?h = "be 8 (ht_key kv) @ be 2 (of_nat (length ?w) :: 16 word)"
  let ?Q = "\<lambda>r s'. r = (of_nat (docname_size kv) :: 32 word)
      \<and> wrote f s s' {unat off..<unat off + docname_size kv} (unat off + docname_size kv)
      \<and> docname_at (contents s' f) (unat off) kv"
  have len: "unat (of_nat (length ?w) :: 16 word) = length ?w"
    using v by (simp add: docname_valid_def unat_of_nat take_bit_nat_eq_self)
  then have size: "10 + ucast (of_nat (length ?w) :: 16 word) = (of_nat (docname_size kv) :: 32 word)"
    by (simp add: docname_size_def unsigned_of_nat)
  show ?thesis
    unfolding WriteDocidDocnameFn_def Let_def wp_bnd [of "fseek _ _"] disk_image doctable_element_header.simps len size
  proof (rule seek_write [OF io])
    fix s1 assume w1: "wrote f s s1 {unat off..<unat off + length ?h} (unat off + length ?h)"
      and h1: "has (contents s1 f) (unat off) ?h" and p1: "cf_pos s1 f = unat off + length ?h"
    have "wp (fwrite f 1 (length ?w) ?w) (\<lambda>n. wp (if n \<noteq> length ?w then ret 0 else ret (of_nat (docname_size kv))) ?Q) s1"
    proof (cases "?w = []")
      case True
      then show ?thesis using w1 h1 by (simp add: fwrite_def wp_simps docname_size_def docname_at_def has_def [of _ _ "[]"])
    next
      case False
      show ?thesis
      proof (rule write_here [OF wrote_io [OF w1] _ False])
        fix s2 assume w2: "wrote f s1 s2 {cf_pos s1 f..<cf_pos s1 f + length ?w} (cf_pos s1 f + length ?w)"
          and h2: "has (contents s2 f) (cf_pos s1 f) ?w"
        have "wrote f s s2 {unat off..<unat off + docname_size kv} (unat off + docname_size kv)"
          by (rule wrote_trans [OF w1 w2]) (auto simp: p1 docname_size_def)
        moreover have "has (contents s2 f) (unat off) ?h"
          by (rule wrote_has [OF h1 w2]) (auto simp: p1 disjoint_iff)
        ultimately show "wp (if length ?w \<noteq> length ?w then ret 0 else ret (of_nat (docname_size kv))) ?Q s2"
          using h2 p1 by (simp add: wp_simps docname_at_def ac_simps)
      qed simp
    qed
    then show "wp (if (1 :: nat) \<noteq> 1 then ret 0 else bnd (fwrite f 1 (length ?w) (take (length ?w) ?w)) (\<lambda>n.
          if n \<noteq> length ?w then ret 0 else ret (of_nat (docname_size kv)))) ?Q s1" by (simp add: wp_bnd)
  qed (simp_all add: be_def le_bytes_def)
qed

interpretation docname: element_writer docname_size docname_at f "WriteDocidDocnameFn f" docname_valid for f
proof unfold_locales
  fix kv s and off :: IndexFileOffset_t
  assume "docname_valid kv" "io_ok s" "cf_bytes s f \<noteq> None"
  then show "wp (WriteDocidDocnameFn f off kv) (\<lambda>r s'. r = of_nat (docname_size kv)
      \<and> wrote f s s' {unat off..<unat off + docname_size kv} (unat off + docname_size kv)
      \<and> docname_at (contents s' f) (unat off) kv) s" by (rule docname_writes)
next
  fix B B' R u i kv
  assume "docname_at B i kv" "changed B B' R u" "{i..<i + docname_size kv} \<inter> R = {}"
  then show "docname_at B' i kv"
    using has_changed [of B i _ B' R u] unfolding docname_at_def docname_size_def by (simp del: has_append add: add.assoc)
next
  fix B i kv assume "docname_at B i kv"
  then show "i + docname_size kv \<le> length B" using has_length unfolding docname_at_def docname_size_def by fastforce
qed

text \<open>A document of the index: its identifier, the number of positions, the positions.\<close>

definition docpos_size :: "DocPositionOffset_t list HTKeyValue \<Rightarrow> nat" where
  "docpos_size kv = 12 + 4 * length (ht_value kv)"

definition docpos_valid :: "DocPositionOffset_t list HTKeyValue \<Rightarrow> bool" where
  "docpos_valid kv \<longleftrightarrow> ht_value kv \<noteq> []"

definition docpos_at :: "8 word list \<Rightarrow> nat \<Rightarrow> DocPositionOffset_t list HTKeyValue \<Rightarrow> bool" where
  "docpos_at B i kv \<longleftrightarrow> has B i ((be 8 (ht_key kv) @ be 4 (of_nat (length (ht_value kv)) :: 32 word)) @ concat (map (be 4) (ht_value kv)))"

lemma length_positions [simp]: "length (concat (map (be 4) ps)) = 4 * length ps"
  by (induction ps) simp_all

lemma WriteDocPositionListFn_loop_spec:
  assumes "io_ok s" and "cf_bytes s f \<noteq> None" and "cf_pos s f = p"
  shows "wp (WriteDocPositionListFn_loop f ps len) (\<lambda>r s'. r = Some (len + of_nat (4 * length ps))
     \<and> wrote f s s' {p..<p + 4 * length ps} (p + 4 * length ps) \<and> (ps \<noteq> [] \<longrightarrow> has (contents s' f) p (concat (map (be 4) ps)))) s"
  using assms
proof (induction ps arbitrary: s p len)
  case Nil
  then show ?case by (simp add: wp_simps wrote_refl)
next
  case (Cons x ps)
  let ?b = "le_bytes 4 (htonl x)"
  let ?Q = "\<lambda>r s'. r = Some (len + of_nat (4 * length (x # ps)))
     \<and> wrote f s s' {p..<p + 4 * length (x # ps)} (p + 4 * length (x # ps))
     \<and> (x # ps \<noteq> [] \<longrightarrow> has (contents s' f) p (concat (map (be 4) (x # ps))))"
  have "wp (fwrite f 4 1 ?b) (\<lambda>n. wp (if n \<noteq> 1 then ret None else WriteDocPositionListFn_loop f ps (len + 4)) ?Q) s"
  proof (rule write_here [OF Cons.prems(1,2)])
    fix s1 assume w1: "wrote f s s1 {cf_pos s f..<cf_pos s f + length ?b} (cf_pos s f + length ?b)"
      and h1: "has (contents s1 f) (cf_pos s f) ?b" and p1: "cf_pos s1 f = cf_pos s f + length ?b"
    have "wp (WriteDocPositionListFn_loop f ps (len + 4)) ?Q s1"
    proof (rule wp_mono [OF Cons.IH [OF wrote_io [OF w1] p1]], goal_cases)
      case (1 r s2)
      then have r: "r = Some (len + 4 + of_nat (4 * length ps))" and w2: "wrote f s1 s2 {p + 4..<p + 4 + 4 * length ps} (p + 4 + 4 * length ps)"
        and h2: "ps \<noteq> [] \<longrightarrow> has (contents s2 f) (p + 4) (concat (map (be 4) ps))" by (auto simp: Cons.prems(3))
      have "wrote f s s2 {p..<p + 4 * length (x # ps)} (p + 4 * length (x # ps))"
        by (rule wrote_trans [OF w1 w2]) (auto simp: Cons.prems(3))
      moreover have h: "has (contents s2 f) p (be 4 x)"
        by (rule wrote_has [OF _ w2]) (use h1 in \<open>auto simp: Cons.prems(3) disjoint_iff\<close>)
      moreover have "has (contents s2 f) (p + 4) (concat (map (be 4) ps))"
        using h2 has_length [OF h] by (cases "ps = []") (auto simp: has_def)
      ultimately show ?case using r by simp
    qed
    then show "wp (if (1 :: nat) \<noteq> 1 then ret None else WriteDocPositionListFn_loop f ps (len + 4)) ?Q s1" by simp
  qed (simp_all add: be_def le_bytes_def)
  then show ?case by (simp add: wp_bnd)
qed

lemma docpos_writes:
  assumes v: "docpos_valid kv" and io: "io_ok s" "cf_bytes s f \<noteq> None" and room: "unat off + docpos_size kv < 2 ^ 32"
  shows "wp (WriteDocPositionListFn f off kv) (\<lambda>r s'. r = of_nat (docpos_size kv)
      \<and> wrote f s s' {unat off..<unat off + docpos_size kv} (unat off + docpos_size kv)
      \<and> docpos_at (contents s' f) (unat off) kv) s"
  unfolding WriteDocPositionListFn_def Let_def wp_bnd [of "fseek _ _"] disk_image docid_element_header.simps
proof (rule seek_write [OF io])
  let ?ps = "ht_value kv"
  let ?h = "be 8 (ht_key kv) @ be 4 (of_nat (length ?ps) :: 32 word)"
  let ?Q = "\<lambda>r s'. r = of_nat (docpos_size kv)
      \<and> wrote f s s' {unat off..<unat off + docpos_size kv} (unat off + docpos_size kv)
      \<and> docpos_at (contents s' f) (unat off) kv"
  have len: "12 + 4 * length ?ps < 4294967296" and ne: "?ps \<noteq> []" using room v by (auto simp: docpos_size_def docpos_valid_def)
  then have len': "length ?ps < 4294967296" by simp
  have u: "unat (12 + of_nat (4 * length ?ps) :: 32 word) = 12 + 4 * length ?ps"
    using unat_of_nat_32 [OF len] by simp
  fix s1 assume w1: "wrote f s s1 {unat off..<unat off + length ?h} (unat off + length ?h)"
    and h1: "has (contents s1 f) (unat off) ?h" and p1: "cf_pos s1 f = unat off + length ?h"
  let ?s1 = "s1\<lparr>brk := Suc (brk s1)\<rparr>"
  have io1: "io_ok ?s1" "cf_bytes ?s1 f \<noteq> None" "cf_pos ?s1 f = unat off + 12" using wrote_io [OF w1] p1 by auto
  have "wp (WriteDocPositionListFn_loop f ?ps 12) (\<lambda>r. wp (case r of None \<Rightarrow> ret 0
          | Some len \<Rightarrow> if unat len \<noteq> 12 + 4 * length ?ps then fail VerifyFailure else ret len) ?Q) ?s1"
  proof (rule wp_mono [OF WriteDocPositionListFn_loop_spec [OF io1]], goal_cases)
    case (1 r s2)
    then have r: "r = Some (12 + of_nat (4 * length ?ps))"
      and w2: "wrote f ?s1 s2 {unat off + 12..<unat off + 12 + 4 * length ?ps} (unat off + 12 + 4 * length ?ps)"
      and h2: "has (contents s2 f) (unat off + 12) (concat (map (be 4) ?ps))" using ne by auto
    note w12 = wrote_trans [OF wrote_brk [OF wrote_io [OF w1], of "{}" 0] w2 subset_refl]
    have "wrote f s s2 {unat off..<unat off + docpos_size kv} (unat off + docpos_size kv)"
      by (rule wrote_trans [OF w1 w12]) (auto simp: docpos_size_def)
    moreover have "has (contents s2 f) (unat off) ?h"
      by (rule wrote_has [OF h1 w12]) (auto simp: disjoint_iff)
    ultimately show ?case using r u h2 by (simp add: wp_simps docpos_at_def docpos_size_def ac_simps)
  qed
  then show "wp (if (1 :: nat) \<noteq> 1 then ret 0
        else bnd (if of_nat (length ?ps) = (0 :: 32 word) then ret NULL else malloc) (\<lambda>it.
          bnd (Verify333 (it \<noteq> NULL)) (\<lambda>_.
          bnd (WriteDocPositionListFn_loop f ?ps 12) (\<lambda>r.
          case r of None \<Rightarrow> ret 0
          | Some len \<Rightarrow>
            if unat len \<noteq> 12 + 4 * unat (of_nat (length ?ps) :: 32 word) then fail VerifyFailure else ret len)))) ?Q s1"
    using ne len' wp_malloc_io [OF wrote_io(1) [OF w1]] by (simp add: wp_bnd wp_Verify333)
qed (simp_all add: be_def le_bytes_def)

interpretation docpos: element_writer docpos_size docpos_at f "WriteDocPositionListFn f" docpos_valid for f
proof unfold_locales
  fix kv s and off :: IndexFileOffset_t
  assume "docpos_valid kv" "io_ok s" "cf_bytes s f \<noteq> None" "unat off + docpos_size kv < 2 ^ 32"
  then show "wp (WriteDocPositionListFn f off kv) (\<lambda>r s'. r = of_nat (docpos_size kv)
      \<and> wrote f s s' {unat off..<unat off + docpos_size kv} (unat off + docpos_size kv)
      \<and> docpos_at (contents s' f) (unat off) kv) s" by (rule docpos_writes)
next
  fix B B' R u i kv
  assume "docpos_at B i kv" "changed B B' R u" "{i..<i + docpos_size kv} \<inter> R = {}"
  then show "docpos_at B' i kv"
    using has_changed [of B i _ B' R u] unfolding docpos_at_def docpos_size_def by (simp del: has_append add: add.assoc)
next
  fix B i kv assume "docpos_at B i kv"
  then show "i + docpos_size kv \<le> length B" using has_length unfolding docpos_at_def docpos_size_def by fastforce
qed

text \<open>A word of the index: its length, the size of the table of its documents, the word, the table.\<close>

definition wordset_size :: "WordDocSet HTKeyValue \<Rightarrow> nat" where
  "wordset_size kv = 6 + length (wds_word (ht_value kv)) + table_size docpos_size (docIDs (ht_value kv))"

text \<open>What every table needs to be written.\<close>

definition table_valid :: "('v HTKeyValue \<Rightarrow> bool) \<Rightarrow> 'v HashTableRecord \<Rightarrow> bool" where
  "table_valid valid t \<longleftrightarrow> num_buckets t \<noteq> 0 \<and> length (buckets t) = unat (num_buckets t)
     \<and> (\<forall>c \<in> set (buckets t). \<forall>p \<in> set c. valid (snd p))"

definition wordset_valid :: "WordDocSet HTKeyValue \<Rightarrow> bool" where
  "wordset_valid kv \<longleftrightarrow> wds_word (ht_value kv) \<noteq> [] \<and> length (wds_word (ht_value kv)) < 2 ^ 16
     \<and> table_valid docpos_valid (docIDs (ht_value kv))"

definition wordset_at :: "8 word list \<Rightarrow> nat \<Rightarrow> WordDocSet HTKeyValue \<Rightarrow> bool" where
  "wordset_at B i kv \<longleftrightarrow>
     has B i ((be 2 (of_nat (length (wds_word (ht_value kv))) :: 16 word)
        @ be 4 (of_nat (table_size docpos_size (docIDs (ht_value kv))) :: 32 word)) @ wds_word (ht_value kv))
     \<and> table_at docpos_size docpos_at B (i + 6 + length (wds_word (ht_value kv))) (docIDs (ht_value kv))
     \<and> i + wordset_size kv \<le> length B"

lemma wordset_writes:
  assumes v: "wordset_valid kv" and io: "io_ok s" "cf_bytes s f \<noteq> None" and room: "unat off + wordset_size kv < 2 ^ 32"
  shows "wp (WriteWordDocSetFn f off kv) (\<lambda>r s'. r = of_nat (wordset_size kv)
      \<and> wrote f s s' {unat off..<unat off + wordset_size kv} (unat off + wordset_size kv)
      \<and> wordset_at (contents s' f) (unat off) kv) s"
proof -
  let ?w = "wds_word (ht_value kv)" and ?t = "docIDs (ht_value kv)"
  let ?n = "table_size docpos_size ?t"
  let ?h = "be 2 (of_nat (length ?w) :: 16 word) @ be 4 (of_nat ?n :: 32 word)"
  let ?a = "unat off + 6 + length ?w"
  let ?Q = "\<lambda>r s'. r = of_nat (wordset_size kv)
      \<and> wrote f s s' {unat off..<unat off + wordset_size kv} (unat off + wordset_size kv)
      \<and> wordset_at (contents s' f) (unat off) kv"
  have ne: "?w \<noteq> []" and len: "unat (of_nat (length ?w) :: 16 word) = length ?w"
    and t: "num_buckets ?t \<noteq> 0" "length (buckets ?t) = unat (num_buckets ?t)" "\<forall>c \<in> set (buckets ?t). \<forall>p \<in> set c. docpos_valid (snd p)"
    using v by (auto simp: wordset_valid_def table_valid_def unat_of_nat take_bit_nat_eq_self)
  have uc: "ucast (of_nat (length ?w) :: 16 word) = (of_nat (length ?w) :: 32 word)" using len by (simp add: unsigned_of_nat)
  have sz: "wordset_size kv = 6 + length ?w + ?n" by (simp add: wordset_size_def)
  have a: "unat (off + 6 + of_nat (length ?w)) = ?a"
    using unat_add_32 [of off "6 + length ?w"] room by (simp add: sz add.assoc)
  have room': "unat (off + 6 + of_nat (length ?w)) + ?n < 2 ^ 32" unfolding a using room sz by linarith
  have step: "wp (bnd (fseek f (unat off)) (\<lambda>res.
      if res \<noteq> 0 then ret 0
      else bnd (fwrite f 6 1 ?h) (\<lambda>n.
        if n \<noteq> 1 then ret 0
        else bnd (fwrite f (length ?w) 1 ?w) (\<lambda>n.
          if n \<noteq> 1 then ret 0 else ret (6 + of_nat (length ?w) + of_nat ?n))))) ?Q s1"
    if w1: "wrote f s s1 {?a..<?a + ?n} (?a + ?n)" and t1: "table_at docpos_size docpos_at (contents s1 f) ?a ?t"
      and l1: "?a + ?n \<le> length (contents s1 f)" for s1
    unfolding wp_bnd [of "fseek _ _"]
  proof (rule seek_write [OF wrote_io [OF w1]])
    fix s2 assume w2: "wrote f s1 s2 {unat off..<unat off + length ?h} (unat off + length ?h)"
      and h2: "has (contents s2 f) (unat off) ?h" and p2: "cf_pos s2 f = unat off + length ?h"
    have "wp (fwrite f (length ?w) 1 ?w) (\<lambda>n. wp (if n \<noteq> 1 then ret 0 else ret (6 + of_nat (length ?w) + of_nat ?n)) ?Q) s2"
    proof (rule write_here [OF wrote_io [OF w2] _ ne])
      fix s3 assume w3: "wrote f s2 s3 {cf_pos s2 f..<cf_pos s2 f + length ?w} (cf_pos s2 f + length ?w)"
        and h3: "has (contents s3 f) (cf_pos s2 f) ?w"
      have w23: "wrote f s1 s3 {unat off..<?a} ?a" by (rule wrote_trans [OF w2 w3]) (auto simp: p2)
      have "wrote f s s3 {unat off..<unat off + wordset_size kv} (unat off + wordset_size kv)"
        by (rule wrote_trans [OF w1 w23]) (auto simp: sz)
      moreover have "has (contents s3 f) (unat off) ?h" by (rule wrote_has [OF h2 w3]) (auto simp: p2)
      moreover have "table_at docpos_size docpos_at (contents s3 f) ?a ?t"
        by (rule docpos.table_at_changed [OF t1 wrote_changed [OF w23]]) auto
      moreover have "unat off + wordset_size kv \<le> length (contents s3 f)"
        using l1 wrote_changed [OF w23] by (simp add: changed_def sz)
      ultimately show "wp (if (1 :: nat) \<noteq> 1 then ret 0 else ret (6 + of_nat (length ?w) + of_nat ?n)) ?Q s3"
        using h3 p2 by (simp add: wp_simps wordset_at_def sz ac_simps)
    qed simp_all
    then show "wp (if (1 :: nat) \<noteq> 1 then ret 0 else bnd (fwrite f (length ?w) 1 ?w) (\<lambda>n.
          if n \<noteq> 1 then ret 0 else ret (6 + of_nat (length ?w) + of_nat ?n))) ?Q s2" by (simp add: wp_bnd)
  qed (simp_all add: be_def le_bytes_def)
  have "wp (WriteHashTable f ?t (off + 6 + of_nat (length ?w)) (WriteDocPositionListFn f)) (\<lambda>r. wp (bnd (fseek f (unat off)) (\<lambda>res.
      if res \<noteq> 0 then ret 0
      else bnd (fwrite f 6 1 (be 2 (of_nat (length ?w) :: 16 word) @ be 4 r)) (\<lambda>n.
        if n \<noteq> 1 then ret 0
        else bnd (fwrite f (length ?w) 1 ?w) (\<lambda>n.
          if n \<noteq> 1 then ret 0 else ret (6 + of_nat (length ?w) + r))))) ?Q) s"
    by (rule wp_mono [OF docpos.WriteHashTable_spec [OF io t(3,2,1) room']], unfold a) (use step in auto)
  then show ?thesis
    unfolding WriteWordDocSetFn_def Let_def wp_bnd [of "WriteHashTable _ _ _ _"] disk_image worddocset_header.simps len uc take_all [OF order_refl] .
qed

interpretation wordset: element_writer wordset_size wordset_at f "WriteWordDocSetFn f" wordset_valid for f
proof unfold_locales
  fix kv s and off :: IndexFileOffset_t
  assume "wordset_valid kv" "io_ok s" "cf_bytes s f \<noteq> None" "unat off + wordset_size kv < 2 ^ 32"
  then show "wp (WriteWordDocSetFn f off kv) (\<lambda>r s'. r = of_nat (wordset_size kv)
      \<and> wrote f s s' {unat off..<unat off + wordset_size kv} (unat off + wordset_size kv)
      \<and> wordset_at (contents s' f) (unat off) kv) s" by (rule wordset_writes)
next
  fix B B' R u i kv
  assume *: "wordset_at B i kv" "changed B B' R u" "{i..<i + wordset_size kv} \<inter> R = {}"
  let ?w = "wds_word (ht_value kv)" and ?t = "docIDs (ht_value kv)"
  have "{i..<i + (6 + length ?w)} \<inter> R = {}" "{i + 6 + length ?w..<i + 6 + length ?w + table_size docpos_size ?t} \<inter> R = {}"
    using *(3) by (auto simp: wordset_size_def disjoint_iff)
  then show "wordset_at B' i kv"
    using *(1,2) has_changed [of B i _ B' R u] docpos.table_at_changed [OF _ *(2)]
    unfolding wordset_at_def by (simp del: has_append add: add.assoc changed_def)
next
  fix B i kv assume "wordset_at B i kv"
  then show "i + wordset_size kv \<le> length B" by (simp add: wordset_at_def)
qed

section \<open>The file\<close>

lemma WriteHeader_loop_run:
  assumes "io_ok s" and "crc_ready s" and "\<not> finalized c" and "cf_bytes s f = Some B" and "has B (cf_pos s f) bs"
  shows "WriteHeader_loop f (length bs) c s =
     Inr (Some (c\<lparr>crc_state := foldl crc_byte (crc_state c) bs\<rparr>), at_pos f (cf_pos s f + length bs) s)"
  using assms
proof (induction bs arbitrary: s c)
  case (Cons b bs)
  let ?s = "at_pos f (cf_pos s f + 1) s"
  have "has B (cf_pos s f) ([b] @ bs)" using Cons.prems(5) by simp
  then have h: "has B (cf_pos s f) [b]" "has B (cf_pos s f + 1) bs" unfolding has_append by simp_all
  have "fread f 1 1 s = Inr ((1, [b]), ?s)" using fread_ok [OF Cons.prems(1,4) h(1), of 1 1] by simp
  moreover have "FoldByteIntoCRC b c ?s = Inr (c\<lparr>crc_state := crc_byte (crc_state c) b\<rparr>, ?s)"
    by (rule FoldByte_run) (use Cons.prems in simp_all)
  moreover have "WriteHeader_loop f (length bs) (c\<lparr>crc_state := crc_byte (crc_state c) b\<rparr>) ?s =
      Inr (Some (c\<lparr>crc_state := foldl crc_byte (crc_byte (crc_state c) b) bs\<rparr>), at_pos f (cf_pos s f + 1 + length bs) s)"
    using Cons.IH [of ?s "c\<lparr>crc_state := crc_byte (crc_state c) b\<rparr>"] Cons.prems h(2) by simp
  ultimately show ?case by (simp add: bnd_def)
qed (simp add: ret_run at_pos_same)

definition header_bytes :: "8 word list \<Rightarrow> nat \<Rightarrow> nat \<Rightarrow> 8 word list" where
  "header_bytes body d m = be 4 MAGIC_NUMBER @ be 4 (crc32 body) @ be 4 (of_nat d :: 32 word) @ be 4 (of_nat m :: 32 word)"

lemma length_header_bytes [simp]: "length (header_bytes body d m) = 16"
  by (simp add: header_bytes_def)

lemma WriteHeader_spec:
  assumes "io_ok s" and "crc_ok s" and "cf_bytes s f = Some B" and "length B = 16 + d + m" and "d + m < 2 ^ 32"
  shows "wp (WriteHeader f (of_nat d) (of_nat m)) (\<lambda>r s'. r = 16 \<and> io_ok s' \<and> crc_ready s'
     \<and> (\<exists>B'. cf_bytes s' = (cf_bytes s)(f \<mapsto> B') \<and> changed B B' {0..<16} 16 \<and> has B' 0 (header_bytes (drop 16 B) d m))) s"
proof -
  let ?c = "\<lparr>crc_state = 0xFFFFFFFF, finalized = False\<rparr>" and ?bs = "drop 16 B"
  let ?c' = "\<lparr>crc_state = foldl crc_byte 0xFFFFFFFF ?bs, finalized = False\<rparr>"
  obtain s1 where new: "CRC32_new s = Inr (?c, s1)" and ready: "crc_ready s1"
    and s1: "s1 = s\<lparr>crc_table := crc_table s1, table_is_initialized := True\<rparr>"
    using CRC32_new_spec [OF assms(2)] by metis
  have io1: "io_ok s1" "cf_bytes s1 = cf_bytes s" using assms(1) arg_cong [OF s1, of io_ok] arg_cong [OF s1, of cf_bytes] by simp_all
  let ?s2 = "at_pos f 16 s1"
  let ?s3 = "at_pos f (16 + (length B - 16)) s1"
  have len: "unat (of_nat d + of_nat m :: 32 word) = length B - 16" using assms(4,5) unat_of_nat_32 [of "d + m"] by simp
  have "has B 16 ?bs" using assms(4) by (simp add: has_def)
  then have loop: "WriteHeader_loop f (length B - 16) ?c ?s2 = Inr (Some ?c', ?s3)"
    using WriteHeader_loop_run [of ?s2 ?c f B ?bs] io1 ready assms(3) by simp
  have hdr: "IndexFileHeader_mem (IndexFileHeader_toDiskFormat \<lparr>magic_number = MAGIC_NUMBER, checksum = fst (GetFinalCRC ?c'),
      doctable_size = of_nat d, index_size = of_nat m\<rparr>) = header_bytes ?bs d m"
    by (simp add: disk_image header_bytes_def GetFinalCRC_open crc32_def)
  let ?Q = "\<lambda>r s'. r = (16 :: 32 word) \<and> io_ok s' \<and> crc_ready s'
     \<and> (\<exists>B'. cf_bytes s' = (cf_bytes s)(f \<mapsto> B') \<and> changed B B' {0..<16} 16 \<and> has B' 0 (header_bytes (drop 16 B) d m))"
  have "wp (fseek f 0) (\<lambda>res. wp (if res \<noteq> 0 then ret 0
          else bnd (fwrite f 16 1 (IndexFileHeader_mem (IndexFileHeader_toDiskFormat \<lparr>magic_number = MAGIC_NUMBER,
              checksum = fst (GetFinalCRC ?c'), doctable_size = of_nat d, index_size = of_nat m\<rparr>))) (\<lambda>n.
            if n \<noteq> 1 then ret 0 else bnd next_io (\<lambda>r. bnd (Verify333 (r = None)) (\<lambda>_. ret 16)))) ?Q) ?s3"
    unfolding hdr
  proof (rule seek_write)
    fix s4 assume w: "wrote f ?s3 s4 {0..<0 + length (header_bytes ?bs d m)} (0 + length (header_bytes ?bs d m))"
      and h: "has (contents s4 f) 0 (header_bytes ?bs d m)"
    obtain B' where B': "cf_bytes s4 f = Some B'" using w by (auto simp: wrote_def)
    have "cf_bytes s4 = (cf_bytes s)(f \<mapsto> B')" using w B' io1(2) by (auto simp: wrote_def)
    moreover have "changed B B' {0..<16} 16" using wrote_changed [OF w] B' assms(3) io1(2) by (simp add: contents_def)
    moreover have "crc_ready s4" using w ready by (simp add: wrote_def crc_ready_def)
    ultimately show "wp (if (1 :: nat) \<noteq> 1 then ret 0 else bnd next_io (\<lambda>r. bnd (Verify333 (r = None)) (\<lambda>_. ret 16))) ?Q s4"
      using h B' wrote_io(1) [OF w] by (auto simp: wp_def bnd_def next_io_def io_ok_def ret_run intro!: exI [of _ B'])
  qed (use io1 assms(3) in \<open>auto simp: header_bytes_def be_def le_bytes_def\<close>)
  then show ?thesis
    unfolding WriteHeader_def Let_def wp_bnd
    by (simp add: wp_Inr [of CRC32_new, OF new] wp_Inr [of "fseek f 16", OF fseek_ok [OF io1(1)]] wp_bnd len
        wp_Inr [of "WriteHeader_loop f _ _", OF loop])
qed

text \<open>An index file: header, document table, index.\<close>

definition index_file :: "8 word list \<Rightarrow> DocTableRecord \<Rightarrow> MemIndex \<Rightarrow> bool" where
  "index_file B dt mi \<longleftrightarrow>
     (let d = table_size docname_size (docid_to_docname dt); m = table_size wordset_size mi in
      length B = 16 + d + m \<and> has B 0 (header_bytes (drop 16 B) d m)
      \<and> table_at docname_size docname_at B 16 (docid_to_docname dt)
      \<and> table_at wordset_size wordset_at B (16 + d) mi)"

definition index_fits :: "DocTableRecord \<Rightarrow> MemIndex \<Rightarrow> bool" where
  "index_fits dt mi \<longleftrightarrow> table_valid docname_valid (docid_to_docname dt) \<and> table_valid wordset_valid mi
     \<and> 16 + table_size docname_size (docid_to_docname dt) + table_size wordset_size mi < 2 ^ 32"

lemma table_size_pos: "0 < table_size esize t"
  by (simp add: table_size_def)

lemma WriteIndex_spec:
  assumes "io_ok s" and "crc_ok s" and "index_fits dt mi"
  shows "wp (WriteIndex mi dt f) (\<lambda>r s'.
     r = of_nat (16 + table_size docname_size (docid_to_docname dt) + table_size wordset_size mi) \<and> io_ok s' \<and> crc_ready s'
     \<and> (\<exists>B. cf_bytes s' = (cf_bytes s)(f \<mapsto> B) \<and> index_file B dt mi)) s"
proof -
  let ?t = "docid_to_docname dt"
  let ?d = "table_size docname_size ?t" and ?m = "table_size wordset_size mi"
  let ?Q = "\<lambda>r s'. r = (of_nat (16 + ?d + ?m) :: 32 word) \<and> io_ok s' \<and> crc_ready s'
     \<and> (\<exists>B. cf_bytes s' = (cf_bytes s)(f \<mapsto> B) \<and> index_file B dt mi)"
  have t: "num_buckets ?t \<noteq> 0" "length (buckets ?t) = unat (num_buckets ?t)" "\<forall>c \<in> set (buckets ?t). \<forall>p \<in> set c. docname_valid (snd p)"
    and mi: "num_buckets mi \<noteq> 0" "length (buckets mi) = unat (num_buckets mi)" "\<forall>c \<in> set (buckets mi). \<forall>p \<in> set c. wordset_valid (snd p)"
    and sz: "16 + ?d + ?m < 2 ^ 32" using assms(3) by (auto simp: index_fits_def table_valid_def)
  have d: "unat (16 + of_nat ?d :: 32 word) = 16 + ?d" using unat_of_nat_32 [of "16 + ?d"] sz by simp
  have ne: "of_nat ?d \<noteq> (0 :: 32 word)" "of_nat ?m \<noteq> (0 :: 32 word)"
    using sz table_size_pos [of docname_size ?t] table_size_pos [of wordset_size mi] by simp_all
  let ?s = "at_pos f 0 (s\<lparr>cf_bytes := (cf_bytes s)(f \<mapsto> [])\<rparr>)"
  have opened: "fopen_wb f s = Inr (True, ?s)" using assms(1) by (simp add: fopen_wb_def next_io_def io_ok_def bnd_def at_pos_def)
  have io: "io_ok ?s" "cf_bytes ?s f \<noteq> None" "crc_ok ?s" using assms(1,2) by (simp_all add: crc_ok_def)
  have last: "wp (bnd (WriteHeader f (of_nat ?d) (of_nat ?m)) (\<lambda>headerres.
      if headerres = 0 then bnd (unlink f) (\<lambda>_. ret 0) else ret (of_nat ?d + of_nat ?m + headerres))) ?Q s2"
    if w: "wrote f ?s s2 {16..<16 + ?d + ?m} (16 + ?d + ?m)" and t1: "table_at docname_size docname_at (contents s2 f) 16 ?t"
      and t2: "table_at wordset_size wordset_at (contents s2 f) (16 + ?d) mi" and l: "16 + ?d + ?m \<le> length (contents s2 f)" for s2
  proof -
    obtain B where B: "cf_bytes s2 f = Some B" using w by (auto simp: wrote_def)
    have len: "length B = 16 + ?d + ?m" using l B wrote_changed [OF w] by (auto simp: changed_def contents_def)
    have crc: "crc_ok s2" using w io(3) by (simp add: wrote_def crc_ok_def)
    have others: "(cf_bytes s2)(f \<mapsto> B') = (cf_bytes s)(f \<mapsto> B')" for B' using w by (auto simp: wrote_def)
    have room: "?d + ?m < 2 ^ 32" using sz by linarith
    show ?thesis
      unfolding wp_bnd
    proof (rule wp_mono [OF WriteHeader_spec [OF wrote_io(1) [OF w] crc B len room]], goal_cases)
      case (1 r s3)
      then obtain B' where B': "cf_bytes s3 = (cf_bytes s2)(f \<mapsto> B')" and c: "changed B B' {0..<16} 16"
        and h: "has B' 0 (header_bytes (drop 16 B) ?d ?m)" by blast
      have "length B' = length B" using c len by (auto simp: changed_def)
      moreover from this c have "drop 16 B' = drop 16 B" by (auto simp: changed_def intro!: nth_equalityI)
      moreover have "table_at docname_size docname_at B' 16 ?t"
        by (rule docname.table_at_changed [OF _ c]) (use t1 B in auto)
      moreover have "table_at wordset_size wordset_at B' (16 + ?d) mi"
        by (rule wordset.table_at_changed [OF _ c]) (use t2 B in auto)
      ultimately have "index_file B' dt mi" using h len by (simp add: index_file_def Let_def)
      then show ?case using 1 B' others by (auto simp: wp_ret)
    qed
  qed
  have mid: "wp (bnd (WriteMemIndex f mi (16 + of_nat ?d)) (\<lambda>mires.
         if mires = 0 then bnd (unlink f) (\<lambda>_. ret 0)
         else bnd (WriteHeader f (of_nat ?d) mires) (\<lambda>headerres.
           if headerres = 0 then bnd (unlink f) (\<lambda>_. ret 0)
           else ret (of_nat ?d + mires + headerres)))) ?Q s1"
    if w1: "wrote f ?s s1 {16..<16 + ?d} (16 + ?d)" and t1: "table_at docname_size docname_at (contents s1 f) 16 ?t" for s1
    unfolding WriteMemIndex_def wp_bnd [of "WriteHashTable _ _ _ _"]
  proof (rule wp_mono [OF wordset.WriteHashTable_spec [OF wrote_io [OF w1] mi(3,2,1)]], goal_cases)
    case (2 r s2)
    then have w2: "wrote f s1 s2 {16 + ?d..<16 + ?d + ?m} (16 + ?d + ?m)"
      and t2: "table_at wordset_size wordset_at (contents s2 f) (16 + ?d) mi"
      and l: "16 + ?d + ?m \<le> length (contents s2 f)" and r: "r = of_nat ?m" by (simp_all only: d)
    have w: "wrote f ?s s2 {16..<16 + ?d + ?m} (16 + ?d + ?m)" by (rule wrote_trans [OF w1 w2]) auto
    have "table_at docname_size docname_at (contents s2 f) 16 ?t"
      by (rule docname.table_at_changed [OF t1 wrote_changed [OF w2]]) auto
    from last [OF w this t2 l] show ?case using ne unfolding r by simp
  qed (use sz d in simp)
  have "wp (WriteDocTable f dt 16) (\<lambda>dtres. wp (if dtres = 0 then bnd (unlink f) (\<lambda>_. ret 0)
       else bnd (WriteMemIndex f mi (16 + dtres)) (\<lambda>mires.
         if mires = 0 then bnd (unlink f) (\<lambda>_. ret 0)
         else bnd (WriteHeader f dtres mires) (\<lambda>headerres.
           if headerres = 0 then bnd (unlink f) (\<lambda>_. ret 0)
           else ret (dtres + mires + headerres)))) ?Q) ?s"
    unfolding WriteDocTable_def DTGetDocidTable_def
  proof (rule wp_mono [OF docname.WriteHashTable_spec [OF io(1,2) t(3,2,1)]], goal_cases)
    case (2 r s1)
    then have r: "r = of_nat ?d" and w: "wrote f ?s s1 {16..<16 + ?d} (16 + ?d)"
      and t1: "table_at docname_size docname_at (contents s1 f) 16 ?t" by simp_all
    from mid [OF w t1] show ?case using ne unfolding r by simp
  qed (use sz in simp)
  then show ?thesis unfolding WriteIndex_def wp_bnd [of "fopen_wb f"] by (simp add: wp_Inr [of "fopen_wb f", OF opened] wp_bnd)
qed

end
