(* ===== verification/IndexReader.thy ===== *)
theory IndexReader
  imports IndexWriter
begin

text \<open>
  The readers of index files, uw\_cse333/hw/hw3/HashTableReader.cc, DocTableReader.cc,
  DocIDTableReader.cc, IndexTableReader.cc and FileIndexReader.cc.  The three table readers are subclasses
  of \<open>HashTableReader\<close> without fields of their own, so they share its record.
\<close>

section \<open>Operations\<close>

record HashTableReader =
  htr_file :: cstring
  htr_offset :: IndexFileOffset_t
  htr_num_buckets :: HWSize_t

text \<open>The calls that the readers verify: a seek, and the reading of one structure.\<close>

definition verified_seek :: "cstring \<Rightarrow> nat \<Rightarrow> unit file_cmd" where
  "verified_seek f off = bnd (fseek f off) (\<lambda>res. Verify333 (res = 0))"

definition verified_read :: "cstring \<Rightarrow> nat \<Rightarrow> 8 word list file_cmd" where
  "verified_read f sz = bnd (fread f sz 1) (\<lambda>(n, bs). bnd (Verify333 (n = 1)) (\<lambda>_. ret bs))"

definition HashTableReader_new :: "cstring \<Rightarrow> IndexFileOffset_t \<Rightarrow> HashTableReader file_cmd" where
  "HashTableReader_new f offset =
     bnd (verified_seek f (unat offset)) (\<lambda>_.
     bnd (verified_read f 4) (\<lambda>bs.
     ret \<lparr>htr_file = f, htr_offset = offset, htr_num_buckets = ntohl (le_word bs)\<rparr>))"

definition HashTableReader_copy :: "HashTableReader \<Rightarrow> HashTableReader file_cmd" where
  "HashTableReader_copy rhs = bnd (FileDup (htr_file rhs)) (\<lambda>f. ret (rhs\<lparr>htr_file := f\<rparr>))"

text \<open>The assignment of a reader to itself keeps its handle; another one is closed first.\<close>

definition HashTableReader_assign :: "bool \<Rightarrow> HashTableReader \<Rightarrow> HashTableReader \<Rightarrow> HashTableReader file_cmd" where
  "HashTableReader_assign same this rhs =
     (if same then ret this
      else bnd next_io (\<lambda>closed.
           bnd (Verify333 (closed = None)) (\<lambda>_.
           bnd (FileDup (htr_file rhs)) (\<lambda>f.
           ret (rhs\<lparr>htr_file := f\<rparr>)))))"

text \<open>Reading \<open>n\<close> 32-bit values, each appended to the list that is returned.\<close>

fun read_words :: "cstring \<Rightarrow> nat \<Rightarrow> 32 word list file_cmd" where
  "read_words f 0 = ret []"
| "read_words f (Suc n) =
     bnd (verified_read f 4) (\<lambda>bs.
     bnd (read_words f n) (\<lambda>rest.
     ret (ntohl (le_word bs) # rest)))"

definition LookupElementPositions :: "HashTableReader \<Rightarrow> HTKey_t \<Rightarrow> IndexFileOffset_t list file_cmd" where
  "LookupElementPositions r hashKey =
     (if htr_num_buckets r = 0 then fail DivideByZero
      else
        let bucket_num = ucast (hashKey mod ucast (htr_num_buckets r)) :: HWSize_t;
            bucketrec_offset = htr_offset r + 4 + 8 * bucket_num in
        bnd (verified_seek (htr_file r) (unat bucketrec_offset)) (\<lambda>_.
        bnd (verified_read (htr_file r) 8) (\<lambda>bs.
        let b_rec = bucket_rec_toHostFormat (bucket_rec_of bs) in
        if chain_len b_rec = 0 then ret []
        else bnd (verified_seek (htr_file r) (unat (bucket_position b_rec))) (\<lambda>_.
             read_words (htr_file r) (unat (chain_len b_rec))))))"

text \<open>Characters read one at a time into a string stream.\<close>

fun read_chars :: "cstring \<Rightarrow> nat \<Rightarrow> cstring file_cmd" where
  "read_chars f 0 = ret []"
| "read_chars f (Suc n) =
     bnd (verified_read f 1) (\<lambda>bs.
     bnd (read_chars f n) (\<lambda>rest.
     ret (bs @ rest)))"

fun DocTableReader_scan :: "cstring \<Rightarrow> DocID_t \<Rightarrow> IndexFileOffset_t list \<Rightarrow> cstring option file_cmd" where
  "DocTableReader_scan f doc [] = ret None"
| "DocTableReader_scan f doc (next_offset # elements) =
     bnd (verified_seek f (unat next_offset)) (\<lambda>_.
     bnd (verified_read f 10) (\<lambda>bs.
     let header = doctable_element_header_toHostFormat (doctable_element_header_of bs) in
     if dte_docid header = doc
     then bnd (read_chars f (unat (filename_len header))) (\<lambda>name. ret (Some name))
     else DocTableReader_scan f doc elements))"

definition DocTableReader_LookupDocID :: "HashTableReader \<Rightarrow> DocID_t \<Rightarrow> cstring option file_cmd" where
  "DocTableReader_LookupDocID r doc =
     bnd (LookupElementPositions r doc) (\<lambda>elements.
     if elements = [] then ret None else DocTableReader_scan (htr_file r) doc elements)"

fun DocIDTableReader_scan :: "cstring \<Rightarrow> DocID_t \<Rightarrow> IndexFileOffset_t list \<Rightarrow> DocPositionOffset_t list option file_cmd" where
  "DocIDTableReader_scan f doc [] = ret None"
| "DocIDTableReader_scan f doc (next_offset # elements) =
     bnd (verified_seek f (unat next_offset)) (\<lambda>_.
     bnd (verified_read f 12) (\<lambda>bs.
     let header = docid_element_header_toHostFormat (docid_element_header_of bs) in
     if die_docid header = doc
     then bnd (read_words f (unat (num_positions header))) (\<lambda>ps. ret (Some ps))
     else DocIDTableReader_scan f doc elements))"

definition DocIDTableReader_LookupDocID :: "HashTableReader \<Rightarrow> DocID_t \<Rightarrow> DocPositionOffset_t list option file_cmd" where
  "DocIDTableReader_LookupDocID r doc =
     bnd (LookupElementPositions r doc) (\<lambda>elements.
     if elements = [] then ret None else DocIDTableReader_scan (htr_file r) doc elements)"

text \<open>
  The two loops of \<open>GetDocIDList\<close>, over the elements of a bucket and over the buckets.  The offsets are
  added in 64 bits, so they do not wrap.  The first argument counts the rounds left.
\<close>

fun GetDocIDList_chain :: "nat \<Rightarrow> cstring \<Rightarrow> nat \<Rightarrow> docid_element_header list file_cmd" where
  "GetDocIDList_chain 0 f off = ret []"
| "GetDocIDList_chain (Suc n) f off =
     bnd (verified_seek f off) (\<lambda>_.
     bnd (verified_read f 4) (\<lambda>bs.
     bnd (verified_seek f (unat (ntohl (le_word bs)))) (\<lambda>_.
     bnd (verified_read f 12) (\<lambda>bs.
     let doc_el = docid_element_header_toHostFormat (docid_element_header_of bs) in
     bnd (GetDocIDList_chain n f (off + 4)) (\<lambda>rest.
     ret (doc_el # rest))))))"

fun GetDocIDList_loop :: "nat \<Rightarrow> cstring \<Rightarrow> nat \<Rightarrow> docid_element_header list file_cmd" where
  "GetDocIDList_loop 0 f off = ret []"
| "GetDocIDList_loop (Suc n) f off =
     bnd (verified_seek f off) (\<lambda>_.
     bnd (verified_read f 8) (\<lambda>bs.
     let b_rec = bucket_rec_toHostFormat (bucket_rec_of bs) in
     bnd (GetDocIDList_chain (unat (chain_len b_rec)) f (unat (bucket_position b_rec))) (\<lambda>els.
     bnd (GetDocIDList_loop n f (off + 8)) (\<lambda>rest.
     ret (els @ rest)))))"

definition GetDocIDList :: "HashTableReader \<Rightarrow> docid_element_header list file_cmd" where
  "GetDocIDList r = GetDocIDList_loop (unat (htr_num_buckets r)) (htr_file r) (4 + unat (htr_offset r))"

fun LookupWord_scan :: "cstring \<Rightarrow> cstring \<Rightarrow> IndexFileOffset_t list \<Rightarrow> HashTableReader option file_cmd" where
  "LookupWord_scan f w [] = ret None"
| "LookupWord_scan f w (next_offset # elements) =
     bnd (verified_seek f (unat next_offset)) (\<lambda>_.
     bnd (verified_read f 6) (\<lambda>bs.
     let header = worddocset_header_toHostFormat (worddocset_header_of bs) in
     if unat (word_len header) \<noteq> length w then LookupWord_scan f w elements
     else bnd (read_chars f (unat (word_len header))) (\<lambda>ss.
       if w = ss
       then bnd (FileDup f) (\<lambda>fdup.
            bnd (HashTableReader_new fdup (next_offset + 6 + ucast (word_len header))) (\<lambda>ditr.
            ret (Some ditr)))
       else LookupWord_scan f w elements)))"

definition LookupWord :: "HashTableReader \<Rightarrow> cstring \<Rightarrow> HashTableReader option file_cmd" where
  "LookupWord r w =
     bnd (LookupElementPositions r (FNVHash64 w)) (\<lambda>elements.
     if elements = [] then ret None else LookupWord_scan (htr_file r) w elements)"

record FileIndexReader =
  fir_file :: cstring
  fir_header :: IndexFileHeader

text \<open>
  The loop that recomputes the checksum reads up to 512 bytes at a time.  A read that gives nothing
  leaves it where it is: the bound is only reached by such a loop without end.
\<close>

fun FileIndexReader_validate :: "nat \<Rightarrow> cstring \<Rightarrow> HWSize_t \<Rightarrow> CRC32 \<Rightarrow> CRC32 file_cmd" where
  "FileIndexReader_validate 0 f left_to_read crcobj = (if left_to_read = 0 then ret crcobj else fail OutOfFuel)"
| "FileIndexReader_validate (Suc n) f left_to_read crcobj =
     (if left_to_read = 0 then ret crcobj
      else bnd (fread f 1 512) (\<lambda>(nread, buf).
           bnd (fold_bytes buf crcobj) (\<lambda>crcobj.
           FileIndexReader_validate n f (left_to_read - of_nat nread) crcobj)))"

definition FileIndexReader_new :: "cstring \<Rightarrow> bool \<Rightarrow> FileIndexReader file_cmd" where
  "FileIndexReader_new filename validate =
     bnd (fopen_rb filename) (\<lambda>ok.
     bnd (Verify333 ok) (\<lambda>_.
     bnd (verified_read filename 16) (\<lambda>bs.
     let header = IndexFileHeader_toHostFormat (IndexFileHeader_of bs) in
     bnd (Verify333 (magic_number header = MAGIC_NUMBER)) (\<lambda>_.
     bnd next_io (\<lambda>stat.
     bnd (Verify333 (stat = None)) (\<lambda>_ s.
     bnd (Verify333 (of_nat (length (contents s filename)) = 16 + doctable_size header + index_size header)) (\<lambda>_.
     bnd (if validate then
            bnd CRC32_new (\<lambda>crcobj.
            let left_to_read = doctable_size header + index_size header in
            bnd (FileIndexReader_validate (unat left_to_read) filename left_to_read crcobj) (\<lambda>crcobj.
            Verify333 (fst (GetFinalCRC crcobj) = checksum header)))
          else ret ()) (\<lambda>_.
     ret \<lparr>fir_file = filename, fir_header = header\<rparr>)) s))))))"

definition FileIndexReader_delete :: "FileIndexReader \<Rightarrow> unit file_cmd" where
  "FileIndexReader_delete r = bnd next_io (\<lambda>closed. Verify333 (closed = None))"

definition GetDocTableReader :: "FileIndexReader \<Rightarrow> HashTableReader file_cmd" where
  "GetDocTableReader r = bnd (FileDup (fir_file r)) (\<lambda>fdup. HashTableReader_new fdup 16)"

definition GetIndexTableReader :: "FileIndexReader \<Rightarrow> HashTableReader file_cmd" where
  "GetIndexTableReader r =
     bnd (FileDup (fir_file r)) (\<lambda>fdup. HashTableReader_new fdup (16 + doctable_size (fir_header r)))"

section \<open>Reading back what is stored\<close>

lemma verified_seek_run: "io_ok s \<Longrightarrow> verified_seek f off s = Inr ((), at_pos f off s)"
  by (simp add: verified_seek_def bnd_def fseek_ok ret_run)

lemma verified_read_run:
  assumes "io_ok s" and "cf_bytes s f = Some B" and "has B (cf_pos s f) bs" and "length bs = sz" and "sz \<noteq> 0"
  shows "verified_read f sz s = Inr (bs, at_pos f (cf_pos s f + sz) s)"
  using fread_ok [OF assms(1-3), of 1 sz] assms(4,5) by (simp add: verified_read_def bnd_def ret_run)

text \<open>A seek followed by the reading of one structure.\<close>

lemma seek_read:
  assumes "has B off bs" and "io_ok s" and "cf_bytes s f = Some B" and "length bs = sz" and "sz \<noteq> 0"
  shows "bnd (verified_seek f off) (\<lambda>_. bnd (verified_read f sz) c) s = c bs (at_pos f (off + sz) s)"
  using verified_read_run [of "at_pos f off s" f B bs sz] assms by (simp add: bnd_def verified_seek_run)

lemma read_words_run:
  assumes "io_ok s" and "cf_bytes s f = Some B" and "has B (cf_pos s f) (concat (map (be 4) ws))"
  shows "read_words f (length ws) s = Inr (ws, at_pos f (cf_pos s f + 4 * length ws) s)"
  using assms
proof (induction ws arbitrary: s)
  case (Cons w ws)
  let ?s = "at_pos f (cf_pos s f + 4) s"
  have h: "has B (cf_pos s f) (be 4 w)" "has B (cf_pos s f + 4) (concat (map (be 4) ws))" using Cons.prems(3) by simp_all
  have "verified_read f 4 s = Inr (be 4 w, ?s)" by (rule verified_read_run [OF Cons.prems(1,2) h(1)]) simp_all
  moreover have "read_words f (length ws) ?s = Inr (ws, at_pos f (cf_pos s f + 4 + 4 * length ws) s)"
    using Cons.IH [of ?s] Cons.prems h(2) by simp
  ultimately show ?case by (simp add: bnd_def ret_run add.assoc)
qed (simp add: ret_run at_pos_same)

lemma read_chars_run:
  assumes "io_ok s" and "cf_bytes s f = Some B" and "has B (cf_pos s f) w"
  shows "read_chars f (length w) s = Inr (w, at_pos f (cf_pos s f + length w) s)"
  using assms
proof (induction w arbitrary: s)
  case (Cons a w)
  let ?s = "at_pos f (cf_pos s f + 1) s"
  have h: "has B (cf_pos s f) [a]" "has B (cf_pos s f + 1) w" using Cons.prems(3) has_append [of B "cf_pos s f" "[a]" w] by simp_all
  have "verified_read f 1 s = Inr ([a], ?s)" by (rule verified_read_run [OF Cons.prems(1,2) h(1)]) simp_all
  moreover have "read_chars f (length w) ?s = Inr (w, at_pos f (cf_pos s f + 1 + length w) s)"
    using Cons.IH [of ?s] Cons.prems h(2) by simp
  ultimately show ?case by (simp add: bnd_def ret_run)
qed (simp add: ret_run at_pos_same)

lemma buckets_at_nth:
  "buckets_at esize at B rcd pos cs \<Longrightarrow> i < length cs \<Longrightarrow>
     \<exists>p. has B (rcd + 8 * i) (be 4 (of_nat (length (cs ! i)) :: 32 word) @ be 4 (of_nat p :: 32 word))
       \<and> elems_at esize at B p (p + 4 * length (cs ! i)) (cs ! i)"
proof (induction cs arbitrary: rcd pos i)
  case (Cons c cs)
  show ?case
  proof (cases i)
    case 0
    then show ?thesis using Cons.prems by auto
  next
    case (Suc j)
    then show ?thesis using Cons.IH [of "rcd + 8" "pos + chain_size esize c" j] Cons.prems by (simp add: add.assoc)
  qed
qed simp

text \<open>A reader that stands for a table of the file.\<close>

definition reads :: "HashTableReader \<Rightarrow> cstring \<Rightarrow> nat \<Rightarrow> 'v HashTableRecord \<Rightarrow> bool" where
  "reads r f off t \<longleftrightarrow> htr_file r = f \<and> unat (htr_offset r) = off \<and> htr_num_buckets r = num_buckets t"

lemma HashTableReader_new_run:
  assumes "io_ok s" and "cf_bytes s f = Some B" and "table_at esize at B (unat off) t"
  shows "\<exists>r p. HashTableReader_new f off s = Inr (r, at_pos f p s) \<and> reads r f (unat off) t"
proof -
  have h: "has B (unat off) (be 4 (num_buckets t))" using assms(3) by (simp add: table_at_def)
  have "HashTableReader_new f off s =
      Inr (\<lparr>htr_file = f, htr_offset = off, htr_num_buckets = num_buckets t\<rparr>, at_pos f (unat off + 4) s)"
    unfolding HashTableReader_new_def by (subst seek_read [OF h assms(1,2)]) (simp_all add: ret_run)
  then show ?thesis by (auto simp: reads_def)
qed

text \<open>A table of a file with its reader.\<close>

definition served :: "('v HTKeyValue \<Rightarrow> nat) \<Rightarrow> (8 word list \<Rightarrow> nat \<Rightarrow> 'v HTKeyValue \<Rightarrow> bool) \<Rightarrow> ('v HTKeyValue \<Rightarrow> bool)
    \<Rightarrow> cfs \<Rightarrow> HashTableReader \<Rightarrow> 'v HashTableRecord \<Rightarrow> bool" where
  "served esize at valid s r t \<longleftrightarrow> io_ok s \<and> table_valid valid t \<and>
     (\<exists>B off. cf_bytes s (htr_file r) = Some B \<and> length B < 2 ^ 32 \<and> off + table_size esize t \<le> length B
        \<and> table_at esize at B off t \<and> reads r (htr_file r) off t)"

lemma served_at_pos [simp]: "served esize at valid (at_pos f p s) r t = served esize at valid s r t"
  by (simp add: served_def)

context element_layout
begin

lemma elems_at_offsets:
  assumes "elems_at esize at B arr pos c" and "length B < 2 ^ 32"
  shows "\<exists>os :: 32 word list. (c \<noteq> [] \<longrightarrow> has B arr (concat (map (be 4) os))) \<and> list_all2 (\<lambda>q p. at B (unat q) (snd p)) os c"
  using assms
proof (induction c arbitrary: arr pos)
  case (Cons p c)
  obtain a kv where p: "p = (a, kv)" by (cases p)
  obtain os :: "32 word list" where os: "c \<noteq> [] \<longrightarrow> has B (arr + 4) (concat (map (be 4) os))" "list_all2 (\<lambda>q p. at B (unat q) (snd p)) os c"
    using Cons.IH [of "arr + 4" "pos + esize kv"] Cons.prems by (auto simp: p)
  have h: "has B arr (be 4 (of_nat pos :: 32 word))" and at: "at B pos kv" using Cons.prems(1) by (simp_all add: p)
  have "unat (of_nat pos :: 32 word) = pos" using at_length [OF at] Cons.prems(2) by simp
  then have "list_all2 (\<lambda>q p. at B (unat q) (snd p)) (of_nat pos # os) (p # c)" using at os(2) by (simp add: p)
  moreover have "has B (arr + 4) (concat (map (be 4) os))"
    using os has_length [OF h] by (cases "c = []") (auto simp: has_def)
  ultimately show ?case using h by (intro exI [of _ "of_nat pos # os"]) simp
qed simp

lemma LookupElementPositions_run:
  assumes "io_ok s" and "cf_bytes s f = Some B" and "length B < 2 ^ 32" and "table_at esize at B off t" and "reads r f off t"
    and "num_buckets t \<noteq> 0" and "length (buckets t) = unat (num_buckets t)"
  shows "\<exists>os p. LookupElementPositions r k s = Inr (os, at_pos f p s)
     \<and> list_all2 (\<lambda>q p. at B (unat q) (snd p)) os (buckets t ! bucket_of (num_buckets t) k)"
proof -
  let ?i = "bucket_of (num_buckets t) k"
  let ?c = "buckets t ! ?i"
  let ?w = "ucast (k mod ucast (num_buckets t)) :: 32 word"
  have i: "?i < length (buckets t)" using assms(6,7) by simp
  obtain p where h: "has B (off + 4 + 8 * ?i) (be 4 (of_nat (length ?c) :: 32 word) @ be 4 (of_nat p :: 32 word))"
    and e: "elems_at esize at B p (p + 4 * length ?c) ?c"
    using buckets_at_nth [OF _ i] assms(4) unfolding table_at_def by blast
  have le: "off + 4 + 8 * ?i + 8 \<le> length B" using has_length [OF h] by simp
  have w: "unat ?w = ?i" by (rule bucket_num_unat [OF assms(6)])
  have "of_nat (4 + 8 * unat ?w) = 4 + 8 * ?w" by simp
  moreover have "unat (htr_offset r + of_nat (4 + 8 * unat ?w)) = unat (htr_offset r) + (4 + 8 * unat ?w)"
    by (rule unat_add_32) (use le assms(3,5) w in \<open>simp add: reads_def\<close>)
  ultimately have off: "unat (htr_offset r + 4 + 8 * ?w) = off + 4 + 8 * ?i"
    using assms(5) w by (simp only: reads_def add.assoc)
  obtain os :: "32 word list" where os: "?c \<noteq> [] \<longrightarrow> has B p (concat (map (be 4) os))" "list_all2 (\<lambda>q p. at B (unat q) (snd p)) os ?c"
    using elems_at_offsets [OF e assms(3)] by blast
  have len: "length os = length ?c" using os(2) by (rule list_all2_lengthD)
  have rf: "htr_file r = f" "htr_num_buckets r = num_buckets t" using assms(5) by (simp_all add: reads_def)
  let ?s = "at_pos f (off + 4 + 8 * ?i + 8) s"
  have read: "LookupElementPositions r k s = (if of_nat (length ?c) = (0 :: 32 word) then ret []
      else bnd (verified_seek f (unat (of_nat p :: 32 word))) (\<lambda>_. read_words f (unat (of_nat (length ?c) :: 32 word)))) ?s"
    unfolding LookupElementPositions_def Let_def rf if_not_P [OF assms(6)] off
    by (subst seek_read [OF h assms(1,2)]) (simp_all add: disk_image)
  show ?thesis
  proof (cases "?c = []")
    case True
    then show ?thesis using read os(2) by (auto simp: ret_run)
  next
    case False
    then have le: "p + 4 * length ?c \<le> length B" using os(1) has_length [of B p "concat (map (be 4) os)"] len by simp
    then have c: "length ?c < 4294967296" and p: "unat (of_nat p :: 32 word) = p" using assms(3) by simp_all
    have "read_words f (length os) (at_pos f p s) = Inr (os, at_pos f (p + 4 * length os) s)"
      using read_words_run [of "at_pos f p s" f B os] assms(1,2) os(1) False by simp
    then show ?thesis
      using read os(2) c False p len assms(1) by (auto simp: bnd_def verified_seek_run)
  qed
qed

lemma served_lookup:
  assumes "served esize at valid s r t"
  obtains B os p where "io_ok s" and "cf_bytes s (htr_file r) = Some B" and "length B < 2 ^ 32"
    and "LookupElementPositions r k s = Inr (os, at_pos (htr_file r) p s)"
    and "list_all2 (\<lambda>q p. at B (unat q) (snd p)) os (buckets t ! bucket_of (num_buckets t) k)"
    and "\<forall>p \<in> set (buckets t ! bucket_of (num_buckets t) k). valid (snd p)"
proof -
  obtain B off where B: "io_ok s" "cf_bytes s (htr_file r) = Some B" "length B < 2 ^ 32"
    "table_at esize at B off t" "reads r (htr_file r) off t"
    and t: "num_buckets t \<noteq> 0" "length (buckets t) = unat (num_buckets t)" "\<forall>c \<in> set (buckets t). \<forall>p \<in> set c. valid (snd p)"
    using assms by (auto simp: served_def table_valid_def)
  have "bucket_of (num_buckets t) k < length (buckets t)" using t by simp
  then have "\<forall>p \<in> set (buckets t ! bucket_of (num_buckets t) k). valid (snd p)" using t(3) nth_mem by blast
  then show thesis using that LookupElementPositions_run [OF B t(1,2), of k] B by blast
qed

end

section \<open>Lookups\<close>

lemma DocTableReader_scan_run:
  assumes "io_ok s" and "cf_bytes s f = Some B" and "list_all2 (\<lambda>q p. docname_at B (unat q) (snd p)) os c"
    and "\<forall>p \<in> set c. docname_valid (snd p)"
  shows "\<exists>p. DocTableReader_scan f d os s = Inr (chain_map c d, at_pos f p s)"
  using assms
proof (induction os arbitrary: s c)
  case Nil
  then show ?case by (auto simp: ret_run intro: exI [of _ "cf_pos s f"] at_pos_same [symmetric])
next
  case (Cons q os)
  obtain a kv c' where c: "c = (a, kv) # c'" using Cons.prems(3) by (cases c) auto
  let ?w = "ht_value kv"
  let ?h = "be 8 (ht_key kv) @ be 2 (of_nat (length ?w) :: 16 word)"
  let ?s = "at_pos f (unat q + 10) s"
  have at: "has B (unat q) ?h" "has B (unat q + 10) ?w" using Cons.prems(3) by (auto simp: c docname_at_def ac_simps)
  have len: "unat (of_nat (length ?w) :: 16 word) = length ?w"
    using Cons.prems(4) by (simp add: c docname_valid_def unat_of_nat take_bit_nat_eq_self)
  have step: "DocTableReader_scan f d (q # os) s =
      (if ht_key kv = d then bnd (read_chars f (length ?w)) (\<lambda>name. ret (Some name)) else DocTableReader_scan f d os) ?s"
    unfolding DocTableReader_scan.simps by (subst seek_read [OF at(1) Cons.prems(1,2)]) (simp_all add: disk_image len Let_def)
  show ?case
  proof (cases "ht_key kv = d")
    case True
    have "read_chars f (length ?w) ?s = Inr (?w, at_pos f (unat q + 10 + length ?w) s)"
      using read_chars_run [of ?s f B ?w] Cons.prems(1,2) at(2) by simp
    then show ?thesis using step True by (auto simp: c bnd_def ret_run)
  next
    case False
    have "\<exists>p. DocTableReader_scan f d os ?s = Inr (chain_map c' d, at_pos f p ?s)"
      by (rule Cons.IH) (use Cons.prems in \<open>auto simp: c\<close>)
    then show ?thesis using step False by (auto simp: c)
  qed
qed

lemma DocTableReader_LookupDocID_run:
  assumes "served docname_size docname_at docname_valid s r t"
  shows "\<exists>p. DocTableReader_LookupDocID r d s = Inr (ht_map t d, at_pos (htr_file r) p s)"
proof -
  let ?c = "buckets t ! bucket_of (num_buckets t) d" and ?f = "htr_file r"
  obtain B os p where B: "io_ok s" "cf_bytes s ?f = Some B" and os: "LookupElementPositions r d s = Inr (os, at_pos ?f p s)"
    "list_all2 (\<lambda>q p. docname_at B (unat q) (snd p)) os ?c" and v: "\<forall>p \<in> set ?c. docname_valid (snd p)"
    using docname.served_lookup [OF assms, of d] by metis
  have "\<exists>p'. DocTableReader_scan ?f d os (at_pos ?f p s) = Inr (chain_map ?c d, at_pos ?f p' (at_pos ?f p s))"
    by (rule DocTableReader_scan_run [OF _ _ os(2) v]) (use B in simp_all)
  then show ?thesis
    using os by (cases "os = []") (auto simp: DocTableReader_LookupDocID_def bnd_def ht_map_def ret_run)
qed

lemma DocIDTableReader_scan_run:
  assumes "io_ok s" and "cf_bytes s f = Some B" and "length B < 2 ^ 32"
    and "list_all2 (\<lambda>q p. docpos_at B (unat q) (snd p)) os c"
  shows "\<exists>p. DocIDTableReader_scan f d os s = Inr (chain_map c d, at_pos f p s)"
  using assms
proof (induction os arbitrary: s c)
  case Nil
  then show ?case by (auto simp: ret_run intro: exI [of _ "cf_pos s f"] at_pos_same [symmetric])
next
  case (Cons q os)
  obtain a kv c' where c: "c = (a, kv) # c'" using Cons.prems(4) by (cases c) auto
  let ?ps = "ht_value kv"
  let ?h = "be 8 (ht_key kv) @ be 4 (of_nat (length ?ps) :: 32 word)"
  let ?s = "at_pos f (unat q + 12) s"
  have at: "has B (unat q) ?h" "has B (unat q + 12) (concat (map (be 4) ?ps))"
    using Cons.prems(4) by (auto simp: c docpos_at_def ac_simps)
  have len: "unat (of_nat (length ?ps) :: 32 word) = length ?ps" using has_length [OF at(2)] Cons.prems(3) by simp
  have step: "DocIDTableReader_scan f d (q # os) s =
      (if ht_key kv = d then bnd (read_words f (length ?ps)) (\<lambda>ps. ret (Some ps)) else DocIDTableReader_scan f d os) ?s"
    unfolding DocIDTableReader_scan.simps by (subst seek_read [OF at(1) Cons.prems(1,2)]) (simp_all add: disk_image len Let_def)
  show ?case
  proof (cases "ht_key kv = d")
    case True
    have "read_words f (length ?ps) ?s = Inr (?ps, at_pos f (unat q + 12 + 4 * length ?ps) s)"
      using read_words_run [of ?s f B ?ps] Cons.prems(1,2) at(2) by simp
    then show ?thesis using step True by (auto simp: c bnd_def ret_run)
  next
    case False
    have "\<exists>p. DocIDTableReader_scan f d os ?s = Inr (chain_map c' d, at_pos f p ?s)"
      by (rule Cons.IH) (use Cons.prems in \<open>auto simp: c\<close>)
    then show ?thesis using step False by (auto simp: c)
  qed
qed

lemma DocIDTableReader_LookupDocID_run:
  assumes "served docpos_size docpos_at docpos_valid s r t"
  shows "\<exists>p. DocIDTableReader_LookupDocID r d s = Inr (ht_map t d, at_pos (htr_file r) p s)"
proof -
  let ?c = "buckets t ! bucket_of (num_buckets t) d" and ?f = "htr_file r"
  obtain B os p where B: "io_ok s" "cf_bytes s ?f = Some B" "length B < 2 ^ 32"
    and os: "LookupElementPositions r d s = Inr (os, at_pos ?f p s)" "list_all2 (\<lambda>q p. docpos_at B (unat q) (snd p)) os ?c"
    using docpos.served_lookup [OF assms, of d] by metis
  have "\<exists>p'. DocIDTableReader_scan ?f d os (at_pos ?f p s) = Inr (chain_map ?c d, at_pos ?f p' (at_pos ?f p s))"
    by (rule DocIDTableReader_scan_run [OF _ _ B(3) os(2)]) (use B in simp_all)
  then show ?thesis
    using os by (cases "os = []") (auto simp: DocIDTableReader_LookupDocID_def bnd_def ht_map_def ret_run)
qed

text \<open>The words of a bucket are compared, so a word with the hash of an indexed one is not found.\<close>

definition word_found :: "cfs \<Rightarrow> cstring \<Rightarrow> (nat \<times> WordDocSet HTKeyValue) option \<Rightarrow> HashTableReader option \<Rightarrow> bool" where
  "word_found s f e r = (case e of None \<Rightarrow> r = None
     | Some q \<Rightarrow> \<exists>r'. r = Some r' \<and> htr_file r' = f \<and> served docpos_size docpos_at docpos_valid s r' (docIDs (ht_value (snd q))))"

lemma word_found_at_pos [simp]: "word_found (at_pos g p s) f e r = word_found s f e r"
  by (cases e) (simp_all add: word_found_def)

lemma LookupWord_scan_run:
  assumes "io_ok s" and "cf_bytes s f = Some B" and "length B < 2 ^ 32"
    and "list_all2 (\<lambda>q p. wordset_at B (unat q) (snd p)) os c" and "\<forall>p \<in> set c. wordset_valid (snd p)"
  shows "\<exists>p r. LookupWord_scan f w os s = Inr (r, at_pos f p s) \<and> word_found s f (find (\<lambda>q. wds_word (ht_value (snd q)) = w) c) r"
  using assms
proof (induction os arbitrary: s c)
  case Nil
  then show ?case by (auto simp: ret_run word_found_def intro: exI [of _ "cf_pos s f"] at_pos_same [symmetric])
next
  case (Cons q os)
  obtain a kv c' where c: "c = (a, kv) # c'" using Cons.prems(4) by (cases c) auto
  let ?w = "wds_word (ht_value kv)" and ?t = "docIDs (ht_value kv)"
  let ?h = "be 2 (of_nat (length ?w) :: 16 word) @ be 4 (of_nat (table_size docpos_size ?t) :: 32 word)"
  let ?s = "at_pos f (unat q + 6) s"
  have at: "has B (unat q) ?h" "has B (unat q + 6) ?w" "table_at docpos_size docpos_at B (unat q + 6 + length ?w) ?t"
    and fits: "unat q + 6 + length ?w + table_size docpos_size ?t \<le> length B"
    using Cons.prems(4) by (auto simp: c wordset_at_def wordset_size_def ac_simps)
  have len: "unat (of_nat (length ?w) :: 16 word) = length ?w" and t: "table_valid docpos_valid ?t"
    using Cons.prems(5) by (auto simp: c wordset_valid_def unat_of_nat take_bit_nat_eq_self)
  have le: "unat q + 6 + length ?w < 2 ^ 32" using has_length [OF at(2)] Cons.prems(3) by simp
  have off: "unat (q + 6 + ucast (of_nat (length ?w) :: 16 word)) = unat q + 6 + length ?w"
    using unat_add_32 [of q "6 + length ?w"] le len by (simp add: unsigned_of_nat add.assoc)
  have IH: "\<exists>p r. LookupWord_scan f w os (at_pos f p' s) = Inr (r, at_pos f p s)
      \<and> word_found s f (find (\<lambda>q. wds_word (ht_value (snd q)) = w) c') r" for p'
    using Cons.IH [of "at_pos f p' s" c'] Cons.prems by (simp add: c)
  have chars: "read_chars f (length ?w) ?s = Inr (?w, at_pos f (unat q + 6 + length ?w) s)"
    using read_chars_run [of ?s f B ?w] Cons.prems(1,2) at(2) by simp
  have step: "LookupWord_scan f w (q # os) s =
      (if length ?w \<noteq> length w then LookupWord_scan f w os
       else bnd (read_chars f (length ?w)) (\<lambda>ss. if w = ss
         then bnd (FileDup f) (\<lambda>fdup. bnd (HashTableReader_new fdup (q + 6 + ucast (of_nat (length ?w) :: 16 word))) (\<lambda>ditr. ret (Some ditr)))
         else LookupWord_scan f w os)) ?s"
    unfolding LookupWord_scan.simps
    by (subst seek_read [OF at(1) Cons.prems(1,2)], simp, simp) (unfold disk_image Let_def worddocset_header.simps len, rule refl)
  show ?case
  proof (cases "?w = w")
    case True
    let ?s' = "at_pos f (unat q + 6 + length ?w) s"
    obtain r p where r: "HashTableReader_new f (q + 6 + ucast (of_nat (length ?w) :: 16 word)) ?s' = Inr (r, at_pos f p ?s')"
      and rd: "reads r f (unat q + 6 + length ?w) ?t"
      using HashTableReader_new_run [of ?s' f B docpos_size docpos_at "q + 6 + ucast (of_nat (length ?w) :: 16 word)" ?t] Cons.prems(1,2) at(3)
      unfolding off by auto
    have "served docpos_size docpos_at docpos_valid s r ?t" "htr_file r = f"
      using rd Cons.prems(1-3) at(3) t fits by (auto simp: served_def reads_def)
    then show ?thesis
      using step chars r True Cons.prems(1) by (auto simp: c bnd_def FileDup_ok ret_run word_found_def)
  next
    case False
    then show ?thesis using step chars IH by (auto simp: c bnd_def)
  qed
qed

lemma LookupWord_run:
  assumes "served wordset_size wordset_at wordset_valid s r t"
  shows "\<exists>p x. LookupWord r w s = Inr (x, at_pos (htr_file r) p s)
     \<and> word_found s (htr_file r) (find (\<lambda>q. wds_word (ht_value (snd q)) = w) (buckets t ! bucket_of (num_buckets t) (FNVHash64 w))) x"
proof -
  let ?k = "FNVHash64 w"
  let ?c = "buckets t ! bucket_of (num_buckets t) ?k" and ?f = "htr_file r"
  obtain B os p where B: "io_ok s" "cf_bytes s ?f = Some B" "length B < 2 ^ 32" and os: "LookupElementPositions r ?k s = Inr (os, at_pos ?f p s)"
    "list_all2 (\<lambda>q p. wordset_at B (unat q) (snd p)) os ?c" and v: "\<forall>p \<in> set ?c. wordset_valid (snd p)"
    using wordset.served_lookup [OF assms, of ?k] by metis
  have "\<exists>p' x. LookupWord_scan ?f w os (at_pos ?f p s) = Inr (x, at_pos ?f p' (at_pos ?f p s))
      \<and> word_found (at_pos ?f p s) ?f (find (\<lambda>q. wds_word (ht_value (snd q)) = w) ?c) x"
    by (rule LookupWord_scan_run [OF _ _ B(3) os(2) v]) (use B in simp_all)
  then show ?thesis
    using os by (cases "os = []") (auto simp: LookupWord_def bnd_def ret_run)
qed

section \<open>The documents of a word\<close>

definition doc_header :: "DocPositionOffset_t list HTKeyValue \<Rightarrow> docid_element_header" where
  "doc_header kv = \<lparr>die_docid = ht_key kv, num_positions = of_nat (length (ht_value kv))\<rparr>"

lemma GetDocIDList_chain_run:
  assumes "io_ok s" and "cf_bytes s f = Some B" and "length B < 2 ^ 32" and "elems_at docpos_size docpos_at B arr pos c"
  shows "\<exists>p. GetDocIDList_chain (length c) f arr s = Inr (map (doc_header \<circ> snd) c, at_pos f p s)"
  using assms
proof (induction c arbitrary: s arr pos)
  case Nil
  then show ?case by (auto simp: ret_run intro: exI [of _ "cf_pos s f"] at_pos_same [symmetric])
next
  case (Cons p c)
  obtain a kv where p: "p = (a, kv)" by (cases p)
  have h: "has B arr (be 4 (of_nat pos :: 32 word))" and at: "docpos_at B pos kv" using Cons.prems(4) by (simp_all add: p)
  have pos: "unat (of_nat pos :: 32 word) = pos" using docpos.at_length [OF at] Cons.prems(3) by (simp add: docpos_size_def)
  have h': "has B pos (be 8 (ht_key kv) @ be 4 (of_nat (length (ht_value kv)) :: 32 word))"
    using at by (simp add: docpos_at_def)
  let ?s = "at_pos f (pos + 12) s"
  have step: "GetDocIDList_chain (length (p # c)) f arr s = bnd (GetDocIDList_chain (length c) f (arr + 4)) (\<lambda>rest. ret (doc_header kv # rest)) ?s"
    unfolding list.size add_Suc_right add_0_right GetDocIDList_chain.simps
    apply (subst seek_read [OF h Cons.prems(1,2)], simp, simp)
    apply (unfold ntohl_be pos)
    apply (subst seek_read [OF h'])
        apply (simp_all add: Cons.prems(1,2) disk_image doc_header_def Let_def)
    done
  obtain p' where "GetDocIDList_chain (length c) f (arr + 4) ?s = Inr (map (doc_header \<circ> snd) c, at_pos f p' ?s)"
    using Cons.IH [of ?s "arr + 4" "pos + docpos_size kv"] Cons.prems by (auto simp: p)
  then show ?case using step by (auto simp: p bnd_def ret_run)
qed

lemma GetDocIDList_loop_run:
  assumes "io_ok s" and "cf_bytes s f = Some B" and "length B < 2 ^ 32" and "buckets_at docpos_size docpos_at B rcd pos cs"
    and "pos + (\<Sum>c \<leftarrow> cs. chain_size docpos_size c) \<le> length B"
  shows "\<exists>p. GetDocIDList_loop (length cs) f rcd s = Inr (map doc_header (concat (map (map snd) cs)), at_pos f p s)"
  using assms
proof (induction cs arbitrary: s rcd pos)
  case Nil
  then show ?case by (auto simp: ret_run intro: exI [of _ "cf_pos s f"] at_pos_same [symmetric])
next
  case (Cons c cs)
  have h: "has B rcd (be 4 (of_nat (length c) :: 32 word) @ be 4 (of_nat pos :: 32 word))"
    and e: "elems_at docpos_size docpos_at B pos (pos + 4 * length c) c" using Cons.prems(4) by simp_all
  have le: "pos + chain_size docpos_size c + (\<Sum>c \<leftarrow> cs. chain_size docpos_size c) \<le> length B" using Cons.prems(5) by simp
  then have u: "unat (of_nat pos :: 32 word) = pos" "unat (of_nat (length c) :: 32 word) = length c"
    using Cons.prems(3) by (simp_all add: chain_size_def)
  let ?s = "at_pos f (rcd + 8) s"
  have step: "GetDocIDList_loop (length (c # cs)) f rcd s = bnd (GetDocIDList_chain (length c) f pos) (\<lambda>els.
      bnd (GetDocIDList_loop (length cs) f (rcd + 8)) (\<lambda>rest. ret (els @ rest))) ?s"
    unfolding list.size add_Suc_right add_0_right GetDocIDList_loop.simps
    by (subst seek_read [OF h Cons.prems(1,2)], simp, simp) (unfold disk_image Let_def bucket_rec.simps u, rule refl)
  obtain p1 where c: "GetDocIDList_chain (length c) f pos ?s = Inr (map (doc_header \<circ> snd) c, at_pos f p1 ?s)"
    using GetDocIDList_chain_run [OF _ _ Cons.prems(3) e, of ?s f] Cons.prems(1,2) by auto
  obtain p2 where "GetDocIDList_loop (length cs) f (rcd + 8) (at_pos f p1 s) = Inr (map doc_header (concat (map (map snd) cs)), at_pos f p2 s)"
    using Cons.IH [of "at_pos f p1 s" "rcd + 8" "pos + chain_size docpos_size c"] Cons.prems le by auto
  then show ?case using step c by (auto simp: bnd_def ret_run)
qed

lemma GetDocIDList_run:
  assumes "served docpos_size docpos_at docpos_valid s r t"
  shows "\<exists>p. GetDocIDList r s = Inr (map doc_header (entries t), at_pos (htr_file r) p s)"
proof -
  obtain B off where B: "io_ok s" "cf_bytes s (htr_file r) = Some B" "length B < 2 ^ 32"
    "table_at docpos_size docpos_at B off t" "reads r (htr_file r) off t" "off + table_size docpos_size t \<le> length B"
    and t: "num_buckets t \<noteq> 0" "length (buckets t) = unat (num_buckets t)"
    using assms by (auto simp: served_def table_valid_def)
  have "\<exists>p. GetDocIDList_loop (length (buckets t)) (htr_file r) (off + 4) s = Inr (map doc_header (concat (map (map snd) (buckets t))), at_pos (htr_file r) p s)"
    by (rule GetDocIDList_loop_run [OF B(1-3)]) (use B(4,6) in \<open>auto simp: table_at_def table_size_def\<close>)
  then show ?thesis using B(5) t by (simp add: GetDocIDList_def reads_def entries_def add.commute)
qed

section \<open>Opening an index\<close>

text \<open>What reading leaves as it was.\<close>

definition same_files :: "cfs \<Rightarrow> cfs \<Rightarrow> bool" where
  "same_files s s' \<longleftrightarrow> io_ok s' \<and> crc_ok s' \<and> cf_bytes s' = cf_bytes s"

lemma same_files_at_pos [simp]: "same_files s (at_pos f p s') = same_files s s'"
  by (simp add: same_files_def)

lemma validate_run:
  assumes "io_ok s" and "crc_ready s" and "\<not> finalized c" and "cf_bytes s f = Some B" and "length B < 2 ^ 32"
    and "cf_pos s f \<le> length B" and "length B - cf_pos s f \<le> n"
  shows "\<exists>p. FileIndexReader_validate n f (of_nat (length B - cf_pos s f)) c s =
     Inr (c\<lparr>crc_state := foldl crc_byte (crc_state c) (drop (cf_pos s f) B)\<rparr>, at_pos f p s)"
  using assms
proof (induction n arbitrary: s c)
  case 0
  then show ?case by (auto simp: ret_run intro: exI [of _ "cf_pos s f"] at_pos_same [symmetric])
next
  case (Suc n)
  let ?p = "cf_pos s f"
  let ?m = "length B - ?p"
  have m: "of_nat ?m = (0 :: 32 word) \<longleftrightarrow> ?m = 0" by (rule of_nat_32_eq_0) (use Suc.prems(5) in simp)
  show ?case
  proof (cases "?m = 0")
    case True
    then show ?thesis using m by (auto simp: ret_run intro: exI [of _ "cf_pos s f"] at_pos_same [symmetric])
  next
    case False
    let ?k = "min ?m 512"
    let ?buf = "take ?k (drop ?p B)"
    let ?c = "c\<lparr>crc_state := foldl crc_byte (crc_state c) ?buf\<rparr>"
    let ?s = "at_pos f (?p + ?k) s"
    have split: "?buf @ drop (?p + ?k) B = drop ?p B"
      using append_take_drop_id [of ?k "drop ?p B"] by (simp add: add.commute)
    have rest: "foldl crc_byte (foldl crc_byte (crc_state c) ?buf) (drop (?p + ?k) B) = foldl crc_byte (crc_state c) (drop ?p B)"
      unfolding foldl_append [symmetric] by (rule arg_cong [OF split])
    have left: "of_nat ?m - of_nat ?k = (of_nat (length B - cf_pos ?s f) :: 32 word)"
      unfolding at_pos_simps by (simp only: of_nat_diff [OF min.cobounded1] diff_diff_left [symmetric])
    have "\<exists>p. FileIndexReader_validate n f (of_nat (length B - cf_pos ?s f)) ?c ?s =
        Inr (?c\<lparr>crc_state := foldl crc_byte (crc_state ?c) (drop (cf_pos ?s f) B)\<rparr>, at_pos f p ?s)"
      by (rule Suc.IH) (use Suc.prems False in \<open>auto simp: min_def\<close>)
    then obtain p where "FileIndexReader_validate n f (of_nat ?m - of_nat ?k) ?c ?s =
        Inr (c\<lparr>crc_state := foldl crc_byte (crc_state c) (drop ?p B)\<rparr>, at_pos f p s)"
      unfolding left using rest by auto
    moreover have "fread f 1 512 s = Inr ((?k, ?buf), ?s)"
      using Suc.prems(1,4) by (simp add: fread_def next_io_def io_ok_def bnd_def at_pos_def Let_def)
    moreover have "fold_bytes ?buf c ?s = Inr (?c, ?s)" by (rule fold_bytes_run) (use Suc.prems in simp_all)
    ultimately show ?thesis using m False by (auto simp: bnd_def simp del: of_nat_diff)
  qed
qed

lemma FileIndexReader_new_spec:
  assumes "io_ok s" and "crc_ok s" and "cf_bytes s f = Some B" and "index_file B dt mi" and "index_fits dt mi"
  shows "wp (FileIndexReader_new f validate) (\<lambda>r s'. same_files s s' \<and> fir_file r = f
     \<and> doctable_size (fir_header r) = of_nat (table_size docname_size (docid_to_docname dt))) s"
proof -
  let ?d = "table_size docname_size (docid_to_docname dt)" and ?m = "table_size wordset_size mi"
  let ?h = "\<lparr>magic_number = MAGIC_NUMBER, checksum = crc32 (drop 16 B), doctable_size = of_nat ?d, index_size = of_nat ?m\<rparr>"
  let ?start = "at_pos f 0 s" and ?s = "at_pos f 16 s"
  have len: "length B = 16 + ?d + ?m" "length B < 2 ^ 32" and h: "has B 0 (header_bytes (drop 16 B) ?d ?m)"
    using assms(4,5) by (auto simp: index_file_def index_fits_def Let_def)
  have opened: "fopen_rb f s = Inr (True, ?start)" using assms(1,3) by (simp add: fopen_rb_def next_io_def io_ok_def bnd_def at_pos_def)
  have read: "verified_read f 16 ?start = Inr (header_bytes (drop 16 B) ?d ?m, ?s)"
    using verified_read_run [of ?start f B "header_bytes (drop 16 B) ?d ?m" 16] assms(1,3) h by simp
  have hdr: "IndexFileHeader_toHostFormat (IndexFileHeader_of (header_bytes (drop 16 B) ?d ?m)) = ?h"
    by (simp only: header_bytes_def disk_image)
  have stat: "next_io ?s = Inr (None, ?s)" using assms(1) by (simp add: next_io_def io_ok_def at_pos_def)
  have left: "of_nat ?d + of_nat ?m = (of_nat (length B - 16) :: 32 word)" "unat (of_nat (length B - 16) :: 32 word) = length B - 16"
    using len unat_of_nat_32 [of "length B - 16"] by simp_all
  have check: "wp (bnd CRC32_new (\<lambda>crcobj. bnd (FileIndexReader_validate (length B - 16) f (of_nat (length B - 16)) crcobj) (\<lambda>crcobj.
      Verify333 (fst (GetFinalCRC crcobj) = crc32 (drop 16 B))))) (\<lambda>_ s'. same_files s s') ?s"
  proof -
    have "crc_ok ?s" using assms(2) by simp
    from CRC32_new_spec [OF this] obtain s1 where new: "CRC32_new ?s = Inr (\<lparr>crc_state = 0xFFFFFFFF, finalized = False\<rparr>, s1)"
      and ready: "crc_ready s1" and s1: "s1 = ?s\<lparr>crc_table := crc_table s1, table_is_initialized := True\<rparr>" by blast
    have s1': "io_ok s1" "cf_bytes s1 = cf_bytes s" "cf_pos s1 f = 16"
      using assms(1) arg_cong [OF s1, of io_ok] arg_cong [OF s1, of cf_bytes] arg_cong [OF s1, of cf_pos] by simp_all
    obtain p where "FileIndexReader_validate (length B - 16) f (of_nat (length B - 16)) \<lparr>crc_state = 0xFFFFFFFF, finalized = False\<rparr> s1 =
        Inr (\<lparr>crc_state = foldl crc_byte 0xFFFFFFFF (drop 16 B), finalized = False\<rparr>, at_pos f p s1)"
      using validate_run [of s1 "\<lparr>crc_state = 0xFFFFFFFF, finalized = False\<rparr>" f B "length B - 16"] s1' ready assms(3) len by auto
    then show ?thesis
      using new s1' crc_ready_ok [OF ready]
      by (simp add: wp_def bnd_def GetFinalCRC_open crc32_def ret_run same_files_def)
  qed
  have "wp (if validate then bnd CRC32_new (\<lambda>crcobj.
            bnd (FileIndexReader_validate (length B - 16) f (of_nat (length B - 16)) crcobj) (\<lambda>crcobj.
            Verify333 (fst (GetFinalCRC crcobj) = crc32 (drop 16 B))))
          else ret ()) (\<lambda>_ s'. same_files s s') ?s"
    using check assms(1,2) by (cases validate) (auto simp: wp_ret same_files_def)
  then obtain s' where run: "(if validate then bnd CRC32_new (\<lambda>crcobj.
            bnd (FileIndexReader_validate (length B - 16) f (of_nat (length B - 16)) crcobj) (\<lambda>crcobj.
            Verify333 (fst (GetFinalCRC crcobj) = crc32 (drop 16 B))))
          else ret ()) ?s = Inr ((), s')" and same: "same_files s s'" by (auto simp: wp_iff)
  have size: "of_nat (length (contents ?s f)) = 16 + of_nat ?d + (of_nat ?m :: 32 word)" using assms(3) len by simp
  have "FileIndexReader_new f validate s = Inr (\<lparr>fir_file = f, fir_header = ?h\<rparr>, s')"
  proof (cases validate)
    case True
    then show ?thesis
      using run size by (simp add: FileIndexReader_new_def Let_def bnd_def opened read hdr stat left ret_run)
  next
    case False
    then have "s' = ?s" using run by (simp add: ret_run)
    then show ?thesis
      using size False by (simp add: FileIndexReader_new_def Let_def bnd_def opened read hdr stat ret_run)
  qed
  then show ?thesis using same by (simp add: wp_def)
qed

lemma served_tables:
  assumes "io_ok s" and "cf_bytes s f = Some B" and "index_file B dt mi" and "index_fits dt mi"
    and "fir_file r = f" and "doctable_size (fir_header r) = of_nat (table_size docname_size (docid_to_docname dt))"
  shows "\<exists>p t. GetDocTableReader r s = Inr (t, at_pos f p s) \<and> htr_file t = f
       \<and> served docname_size docname_at docname_valid s t (docid_to_docname dt)"
    and "\<exists>p t. GetIndexTableReader r s = Inr (t, at_pos f p s) \<and> htr_file t = f
       \<and> served wordset_size wordset_at wordset_valid s t mi"
proof -
  let ?d = "table_size docname_size (docid_to_docname dt)"
  have len: "length B = 16 + ?d + table_size wordset_size mi" "length B < 2 ^ 32"
    and t: "table_at docname_size docname_at B 16 (docid_to_docname dt)" "table_at wordset_size wordset_at B (16 + ?d) mi"
    and v: "table_valid docname_valid (docid_to_docname dt)" "table_valid wordset_valid mi"
    using assms(3,4) by (auto simp: index_file_def index_fits_def Let_def)
  have u: "unat (16 + of_nat ?d :: 32 word) = 16 + ?d" using unat_of_nat_32 [of "16 + ?d"] len by simp
  have "\<exists>t p. HashTableReader_new f 16 s = Inr (t, at_pos f p s) \<and> reads t f (unat (16 :: 32 word)) (docid_to_docname dt)"
    by (rule HashTableReader_new_run [OF assms(1,2)]) (use t(1) in simp)
  then show "\<exists>p t. GetDocTableReader r s = Inr (t, at_pos f p s) \<and> htr_file t = f
       \<and> served docname_size docname_at docname_valid s t (docid_to_docname dt)"
    using assms(1,2,5) len t(1) v(1) by (auto simp: GetDocTableReader_def bnd_def FileDup_ok served_def reads_def)
  have "\<exists>t p. HashTableReader_new f (16 + of_nat ?d) s = Inr (t, at_pos f p s) \<and> reads t f (unat (16 + of_nat ?d :: 32 word)) mi"
    by (rule HashTableReader_new_run [OF assms(1,2)]) (use t(2) u in simp)
  then show "\<exists>p t. GetIndexTableReader r s = Inr (t, at_pos f p s) \<and> htr_file t = f
       \<and> served wordset_size wordset_at wordset_valid s t mi"
    using assms(1,2,5,6) len t(2) v(2) u by (auto simp: GetIndexTableReader_def bnd_def FileDup_ok served_def reads_def)
qed

section \<open>The round trip\<close>

text \<open>What the index of a file says of a word and a document: the words themselves are compared.\<close>

definition word_docs :: "MemIndex \<Rightarrow> cstring \<Rightarrow> DocPositionOffset_t list HashTableRecord option" where
  "word_docs mi w = (case ht_map mi (FNVHash64 w) of None \<Rightarrow> None
     | Some wds \<Rightarrow> if wds_word wds = w then Some (docIDs wds) else None)"

lemma find_word:
  assumes "mi_ok mi b"
  shows "map_option (docIDs \<circ> ht_value \<circ> snd) (find (\<lambda>q. wds_word (ht_value (snd q)) = w)
     (buckets mi ! bucket_of (num_buckets mi) (FNVHash64 w))) = word_docs mi w"
proof -
  let ?c = "buckets mi ! bucket_of (num_buckets mi) (FNVHash64 w)"
  have wf: "ht_wf mi b" using assms by (simp add: mi_ok_def)
  have i: "bucket_of (num_buckets mi) (FNVHash64 w) < length (buckets mi)" using wf by (simp add: ht_wf_def)
  have entry: "ht_map mi (ht_key (snd p)) = Some (ht_value (snd p))" if "p \<in> set ?c" for p
  proof -
    have "snd p \<in> set (entries mi)" using that i entries_mem [of "snd p" mi] by auto
    then show ?thesis using kv_map_mem [OF entries_distinct [OF wf]] ht_map_entries [OF wf] by metis
  qed
  have key: "ht_key (snd p) = FNVHash64 (wds_word (ht_value (snd p)))" if "p \<in> set ?c" for p
    using entry [OF that] assms unfolding mi_ok_def by metis
  show ?thesis
  proof (cases "find (\<lambda>q. wds_word (ht_value (snd q)) = w) ?c")
    case None
    then have no: "\<forall>p \<in> set ?c. wds_word (ht_value (snd p)) \<noteq> w" unfolding find_None_iff by blast
    have "wds_word wds \<noteq> w" if "ht_map mi (FNVHash64 w) = Some wds" for wds
    proof -
      have "kv_map (map snd ?c) (FNVHash64 w) = Some wds" using that by (simp add: ht_map_def chain_map_kv)
      moreover have "distinct (map ht_key (map snd ?c))" using ht_wf_chain [OF wf] by (simp add: chain_wf_def comp_def)
      ultimately obtain p where "p \<in> set ?c" "ht_value (snd p) = wds" using kv_map_mem by fastforce
      then show ?thesis using no by blast
    qed
    then show ?thesis using None by (auto simp: word_docs_def split: option.splits)
  next
    case (Some p)
    then have "p \<in> set ?c" "wds_word (ht_value (snd p)) = w" by (auto simp: find_Some_iff)
    then show ?thesis using Some entry [of p] key [of p] by (simp add: word_docs_def)
  qed
qed

text \<open>A query for one word and one document, as \<open>QueryProcessor\<close> composes the readers.\<close>

definition lookup_posting :: "HashTableReader \<Rightarrow> cstring \<Rightarrow> DocID_t \<Rightarrow> DocPositionOffset_t list option file_cmd" where
  "lookup_posting itr w d =
     bnd (LookupWord itr w) (\<lambda>ditr.
     case ditr of None \<Rightarrow> ret None | Some ditr \<Rightarrow> DocIDTableReader_LookupDocID ditr d)"

lemma LookupWord_docs:
  assumes "served wordset_size wordset_at wordset_valid s r mi" and "mi_ok mi b"
  shows "\<exists>p x. LookupWord r w s = Inr (x, at_pos (htr_file r) p s)
     \<and> (case word_docs mi w of None \<Rightarrow> x = None
        | Some t \<Rightarrow> \<exists>r'. x = Some r' \<and> htr_file r' = htr_file r \<and> served docpos_size docpos_at docpos_valid s r' t)"
proof -
  obtain p x where run: "LookupWord r w s = Inr (x, at_pos (htr_file r) p s)"
    and f: "word_found s (htr_file r) (find (\<lambda>q. wds_word (ht_value (snd q)) = w) (buckets mi ! bucket_of (num_buckets mi) (FNVHash64 w))) x"
    using LookupWord_run [OF assms(1)] by blast
  show ?thesis
    using f find_word [OF assms(2), of w, symmetric]
    by (intro exI [of _ p] exI [of _ x] conjI run) (auto simp: word_found_def split: option.splits)
qed

lemma lookup_posting_run:
  assumes "served wordset_size wordset_at wordset_valid s r mi" and "mi_ok mi b"
  shows "\<exists>p. lookup_posting r w d s = Inr (Option.bind (word_docs mi w) (\<lambda>t. ht_map t d), at_pos (htr_file r) p s)"
proof -
  obtain p x where run: "LookupWord r w s = Inr (x, at_pos (htr_file r) p s)"
    and x: "case word_docs mi w of None \<Rightarrow> x = None
        | Some t \<Rightarrow> \<exists>r'. x = Some r' \<and> htr_file r' = htr_file r \<and> served docpos_size docpos_at docpos_valid s r' t"
    using LookupWord_docs [OF assms] by blast
  show ?thesis
  proof (cases "word_docs mi w")
    case None
    then show ?thesis using run x by (auto simp: lookup_posting_def bnd_def ret_run)
  next
    case (Some t)
    then obtain r' where r': "x = Some r'" "htr_file r' = htr_file r" "served docpos_size docpos_at docpos_valid s r' t" using x by auto
    obtain p' where "DocIDTableReader_LookupDocID r' d (at_pos (htr_file r) p s) = Inr (ht_map t d, at_pos (htr_file r') p' (at_pos (htr_file r) p s))"
      using DocIDTableReader_LookupDocID_run [of "at_pos (htr_file r) p s" r' t d] r'(3) by auto
    then show ?thesis using run r' Some by (auto simp: lookup_posting_def bnd_def)
  qed
qed

text \<open>Writing an index, opening the file and making the two readers.\<close>

definition write_and_open :: "MemIndex \<Rightarrow> DocTableRecord \<Rightarrow> cstring \<Rightarrow> bool \<Rightarrow> (HWSize_t \<times> HashTableReader \<times> HashTableReader) file_cmd" where
  "write_and_open mi dt f validate =
     bnd (WriteIndex mi dt f) (\<lambda>n.
     bnd (FileIndexReader_new f validate) (\<lambda>fir.
     bnd (GetDocTableReader fir) (\<lambda>dtr.
     bnd (GetIndexTableReader fir) (\<lambda>itr.
     ret (n, dtr, itr)))))"

text \<open>
  C37: what is written is read back.  For a document table and an index that fit the format (names and words
  of at most 65535 bytes, no empty word or position list, less than 4 GB in all), \<open>WriteIndex\<close> returns the
  size of the file, whose checksum and sizes the reader then accepts, validated or not; every document
  identifier is looked up to its name in the file, and every word and document to the list of positions
  that the in-memory index holds for that very word; other files are not touched.
\<close>

theorem index_file_roundtrip:
  assumes "io_ok s" and "crc_ok s" and "index_fits dt mi" and "mi_ok mi b"
  shows "\<exists>n dtr itr s'. write_and_open mi dt f validate s = Inr ((n, dtr, itr), s')
     \<and> unat n = 16 + table_size docname_size (docid_to_docname dt) + table_size wordset_size mi
     \<and> length (contents s' f) = unat n \<and> (\<forall>g. g \<noteq> f \<longrightarrow> cf_bytes s' g = cf_bytes s g)
     \<and> (\<forall>d. \<exists>t. DocTableReader_LookupDocID dtr d s' = Inr (dt_names dt d, t) \<and> same_files s' t)
     \<and> (\<forall>w d. \<exists>t. lookup_posting itr w d s' = Inr (Option.bind (word_docs mi w) (\<lambda>docs. ht_map docs d), t) \<and> same_files s' t)"
proof -
  let ?n = "16 + table_size docname_size (docid_to_docname dt) + table_size wordset_size mi"
  have fits: "unat (of_nat ?n :: 32 word) = ?n" by (rule unat_of_nat_32) (use assms(3) in \<open>simp add: index_fits_def\<close>)
  obtain s1 B where w: "WriteIndex mi dt f s = Inr (of_nat ?n, s1)" and io1: "io_ok s1" "crc_ready s1"
    and B: "cf_bytes s1 = (cf_bytes s)(f \<mapsto> B)" "index_file B dt mi"
    using WriteIndex_spec [OF assms(1-3), of f] unfolding wp_iff by blast
  have Bf: "cf_bytes s1 f = Some B" using B(1) by simp
  obtain fir s2 where o: "FileIndexReader_new f validate s1 = Inr (fir, s2)" and same: "same_files s1 s2"
    and fir: "fir_file fir = f" "doctable_size (fir_header fir) = of_nat (table_size docname_size (docid_to_docname dt))"
    using FileIndexReader_new_spec [OF io1(1) crc_ready_ok [OF io1(2)] Bf B(2) assms(3)] unfolding wp_iff by blast
  have s2: "io_ok s2" "crc_ok s2" "cf_bytes s2 f = Some B" using same Bf by (simp_all add: same_files_def)
  obtain p dtr where d: "GetDocTableReader fir s2 = Inr (dtr, at_pos f p s2)" "htr_file dtr = f"
    "served docname_size docname_at docname_valid s2 dtr (docid_to_docname dt)"
    using served_tables(1) [OF s2(1,3) B(2) assms(3) fir] by blast
  obtain p' itr where i: "GetIndexTableReader fir (at_pos f p s2) = Inr (itr, at_pos f p' (at_pos f p s2))" "htr_file itr = f"
    "served wordset_size wordset_at wordset_valid (at_pos f p s2) itr mi"
    using served_tables(2) [of "at_pos f p s2", OF _ _ B(2) assms(3) fir] s2 by auto
  let ?s = "at_pos f p' s2"
  have run: "write_and_open mi dt f validate s = Inr ((of_nat ?n, dtr, itr), ?s)"
    using w o d(1) i(1) by (simp add: write_and_open_def bnd_def ret_run)
  have len: "length (contents ?s f) = unat (of_nat ?n :: 32 word)"
    using s2(3) B(2) fits by (simp only: index_file_def Let_def contents_def at_pos_simps option.case)
  have others: "cf_bytes ?s g = cf_bytes s g" if "g \<noteq> f" for g using that same B(1) by (simp add: same_files_def)
  have names: "\<exists>t. DocTableReader_LookupDocID dtr d ?s = Inr (dt_names dt d, t) \<and> same_files ?s t" for d
    using DocTableReader_LookupDocID_run [of ?s dtr "docid_to_docname dt" d] \<open>served docname_size _ _ _ _ _\<close> s2
    by (auto simp: dt_names_def same_files_def)
  have docs: "\<exists>t. lookup_posting itr w d ?s = Inr (Option.bind (word_docs mi w) (\<lambda>docs. ht_map docs d), t) \<and> same_files ?s t" for w d
    using lookup_posting_run [of ?s itr mi b w d] i(3) assms(4) s2 by (auto simp: same_files_def)
  show ?thesis
    by (rule exI [of _ "of_nat ?n"], rule exI [of _ dtr], rule exI [of _ itr], rule exI [of _ ?s])
      (intro conjI allI impI run fits len others names docs)
qed

text \<open>One document \<open>a.t\<close> with the word \<open>hi\<close> at two positions, written to the file \<open>ix\<close>.\<close>

definition small_table :: "'v HTKeyValue \<Rightarrow> 'v HashTableRecord" where
  "small_table kv = \<lparr>num_buckets = 1, ht_num_elements = 1, buckets = [[(1, kv)]]\<rparr>"

definition small_names :: DocTableRecord where
  "small_names = \<lparr>docid_to_docname = small_table \<lparr>ht_key = 1, ht_value = [97, 46, 116]\<rparr>,
     docname_to_docid = small_table \<lparr>ht_key = FNVHash64 [97, 46, 116], ht_value = 1\<rparr>, max_id = 1\<rparr>"

definition small_index :: MemIndex where
  "small_index = small_table \<lparr>ht_key = FNVHash64 [104, 105],
     ht_value = \<lparr>wds_word = [104, 105], docIDs = small_table \<lparr>ht_key = 1, ht_value = [0, 7]\<rparr>\<rparr>\<rparr>"

definition no_file :: cfs where
  "no_file = \<lparr>brk = 2, outcomes = [], crc_table = [], table_is_initialized = False, cf_bytes = Map.empty, cf_pos = (\<lambda>_. 0), cf_io = []\<rparr>"

lemma small_table_wf: "ht_wf (small_table kv) 2" "ht_map (small_table kv) = (\<lambda>k. if k = ht_key kv then Some (ht_value kv) else None)"
  "ht_count (small_table kv) = 1"
  by (auto simp: small_table_def ht_wf_def entries_def chain_wf_def chain_ok_def bucket_of_def ht_map_def ht_count_def)

lemma small_fits: "index_fits small_names small_index"
  by (simp add: index_fits_def table_valid_def small_names_def small_index_def small_table_def docname_valid_def wordset_valid_def
      docpos_valid_def table_size_def chain_size_def docname_size_def wordset_size_def docpos_size_def)

lemma small_ok: "mi_ok small_index 2"
  unfolding mi_ok_def small_index_def by (auto simp: small_table_wf split: if_splits)

theorem index_file_roundtrip_witness:
  "\<exists>n dtr itr s'. write_and_open small_index small_names [105, 120] True no_file = Inr ((n, dtr, itr), s') \<and> unat n = 105
     \<and> (\<exists>t. DocTableReader_LookupDocID dtr 1 s' = Inr (Some [97, 46, 116], t))
     \<and> (\<exists>t. lookup_posting itr [104, 105] 1 s' = Inr (Some [0, 7], t))"
proof -
  have s: "io_ok no_file" "crc_ok no_file" by (simp_all add: no_file_def io_ok_def crc_ok_def no_failures_def)
  have name: "dt_names small_names 1 = Some [97, 46, 116]" by (simp add: dt_names_def small_names_def small_table_wf)
  have docs: "Option.bind (word_docs small_index [104, 105]) (\<lambda>docs. ht_map docs 1) = Some [0, 7]"
    by (simp add: word_docs_def small_index_def small_table_wf)
  have size: "16 + table_size docname_size (docid_to_docname small_names) + table_size wordset_size small_index = 105"
    by (simp add: small_names_def small_index_def small_table_def table_size_def chain_size_def docname_size_def wordset_size_def docpos_size_def)
  obtain n dtr itr s' where run: "write_and_open small_index small_names [105, 120] True no_file = Inr ((n, dtr, itr), s')"
      and n: "unat n = 16 + table_size docname_size (docid_to_docname small_names) + table_size wordset_size small_index"
      and d: "\<forall>d. \<exists>t. DocTableReader_LookupDocID dtr d s' = Inr (dt_names small_names d, t) \<and> same_files s' t"
      and i: "\<forall>w d. \<exists>t. lookup_posting itr w d s' = Inr (Option.bind (word_docs small_index w) (\<lambda>docs. ht_map docs d), t) \<and> same_files s' t"
    using index_file_roundtrip [OF s small_fits small_ok, of "[105, 120]" True] by (elim exE conjE)
  have "unat n = 105" "\<exists>t. DocTableReader_LookupDocID dtr 1 s' = Inr (Some [97, 46, 116], t)"
      "\<exists>t. lookup_posting itr [104, 105] 1 s' = Inr (Some [0, 7], t)"
    using n size d [rule_format, of 1] i [rule_format, of "[104, 105]" 1] by (auto simp: name docs)
  with run show ?thesis by blast
qed
end
