(* ===== verification/QueryProcessor.thy ===== *)
theory QueryProcessor
  imports IndexReader
begin

text \<open>
  Queries against index files: uw\_cse333/hw/hw3/QueryProcessor.cc.  A \<open>std::map\<close> is the list of its pairs in
  the order of its keys.  \<open>std::sort\<close> leaves the order of results of the same rank open, so it is an
  argument of the model, with its contract as a hypothesis.
\<close>

section \<open>Operations\<close>

record QueryResult =
  document_name :: cstring
  qr_rank :: HWSize_t

text \<open>The pairs of readers, one per index file.\<close>

type_synonym QueryProcessor = "(HashTableReader \<times> HashTableReader) list"

fun QueryProcessor_open :: "cstring list \<Rightarrow> bool \<Rightarrow> QueryProcessor file_cmd" where
  "QueryProcessor_open [] validate = ret []"
| "QueryProcessor_open (name # indexlist) validate =
     bnd (FileIndexReader_new name validate) (\<lambda>fir.
     bnd (GetDocTableReader fir) (\<lambda>dtr.
     bnd (GetIndexTableReader fir) (\<lambda>itr.
     bnd (FileIndexReader_delete fir) (\<lambda>_.
     bnd (QueryProcessor_open indexlist validate) (\<lambda>rest.
     ret ((dtr, itr) # rest))))))"

definition QueryProcessor_new :: "cstring list \<Rightarrow> bool \<Rightarrow> QueryProcessor file_cmd" where
  "QueryProcessor_new indexlist validate =
     bnd (Verify333 (length indexlist > 0)) (\<lambda>_. QueryProcessor_open indexlist validate)"

type_synonym rank_map = "(cstring \<times> HWSize_t) list"

fun map_set :: "cstring \<Rightarrow> HWSize_t \<Rightarrow> rank_map \<Rightarrow> rank_map" where
  "map_set k v [] = [(k, v)]"
| "map_set k v ((k', v') # m) =
     (if k = k' then (k, v) # m
      else if ord_class.lexordp k k' then (k, v) # (k', v') # m
      else (k', v') # map_set k v m)"

definition map_at :: "cstring \<Rightarrow> rank_map \<Rightarrow> HWSize_t" where
  "map_at k m = (case map_of m k of None \<Rightarrow> 0 | Some v \<Rightarrow> v)"

text \<open>
  The loop over the documents of a word: \<open>first\<close> tells whether it is the first word.  There
  \<open>ranks[docname]\<close> creates an entry 0 in a map that is thrown away.
\<close>

fun ProcessQuery_docs ::
    "HashTableReader \<Rightarrow> bool \<Rightarrow> rank_map \<Rightarrow> docid_element_header list \<Rightarrow> rank_map \<Rightarrow> rank_map file_cmd" where
  "ProcessQuery_docs dReader first ranks [] tmpranks = ret tmpranks"
| "ProcessQuery_docs dReader first ranks (h # dilist) tmpranks =
     bnd (DocTableReader_LookupDocID dReader (die_docid h)) (\<lambda>found.
     case found of None \<Rightarrow> fail VerifyFailure
     | Some docname \<Rightarrow>
       ProcessQuery_docs dReader first ranks dilist
         (if first \<or> num_positions h > 0 \<and> map_of ranks docname \<noteq> None
          then map_set docname (map_at docname ranks + num_positions h) tmpranks else tmpranks))"

fun ProcessQuery_words ::
    "HashTableReader \<Rightarrow> HashTableReader \<Rightarrow> bool \<Rightarrow> cstring list \<Rightarrow> rank_map \<Rightarrow> rank_map file_cmd" where
  "ProcessQuery_words dReader iReader first [] ranks = ret ranks"
| "ProcessQuery_words dReader iReader first (w # query) ranks =
     bnd (LookupWord iReader w) (\<lambda>diReader.
     case diReader of None \<Rightarrow> ret []
     | Some diReader \<Rightarrow>
       bnd (GetDocIDList diReader) (\<lambda>dilist.
       if dilist = [] then ret []
       else bnd (ProcessQuery_docs dReader first ranks dilist []) (\<lambda>tmpranks.
            ProcessQuery_words dReader iReader False query tmpranks)))"

fun ProcessQuery_indexes :: "QueryProcessor \<Rightarrow> cstring list \<Rightarrow> QueryResult list file_cmd" where
  "ProcessQuery_indexes [] query = ret []"
| "ProcessQuery_indexes ((dReader, iReader) # readers) query =
     bnd (ProcessQuery_words dReader iReader True query []) (\<lambda>ranks.
     bnd (ProcessQuery_indexes readers query) (\<lambda>rest.
     ret (map (\<lambda>(n, r). \<lparr>document_name = n, qr_rank = r\<rparr>) ranks @ rest)))"

definition ProcessQuery :: "(QueryResult list \<Rightarrow> QueryResult list) \<Rightarrow> QueryProcessor \<Rightarrow> cstring list \<Rightarrow> QueryResult list file_cmd" where
  "ProcessQuery std_sort qp query =
     bnd (Verify333 (length query > 0)) (\<lambda>_.
     bnd (ProcessQuery_indexes qp query) (\<lambda>finalresult.
     ret (std_sort finalresult)))"

section \<open>The map of ranks\<close>

definition rank_map_ok :: "rank_map \<Rightarrow> bool" where
  "rank_map_ok m \<longleftrightarrow> sorted_wrt ord_class.lexordp (map fst m)"

lemma lexordp_cstring:
  fixes a b c :: cstring
  shows "\<not> ord_class.lexordp a a" and "ord_class.lexordp a b \<Longrightarrow> ord_class.lexordp b c \<Longrightarrow> ord_class.lexordp a c"
    and "a \<noteq> b \<Longrightarrow> \<not> ord_class.lexordp a b \<Longrightarrow> ord_class.lexordp b a"
  using lexordp_irreflexive' lexordp_trans lexordp_linear by (metis, metis, metis)

lemma map_set_keys: "fst ` set (map_set k v m) = insert k (fst ` set m)"
  by (induction k v m rule: map_set.induct) (auto simp: insert_commute simp del: image_eqI)

lemma map_set_ok: "rank_map_ok m \<Longrightarrow> rank_map_ok (map_set k v m)"
proof (induction m)
  case (Cons p m)
  obtain k' v' where p: "p = (k', v')" by (cases p)
  have ok: "rank_map_ok m" and below: "\<forall>x \<in> fst ` set m. ord_class.lexordp k' x"
    using Cons.prems by (auto simp: p rank_map_ok_def)
  show ?case
  proof (cases "k = k'")
    case True
    then show ?thesis using Cons.prems by (simp add: p rank_map_ok_def)
  next
    case False
    then show ?thesis
      using Cons ok below map_set_keys [of k v m] lexordp_cstring(2) [of k k'] lexordp_cstring(3) [of k k']
      by (auto simp: p rank_map_ok_def)
  qed
qed (simp add: rank_map_ok_def)

lemma map_set_lookup: "rank_map_ok m \<Longrightarrow> map_of (map_set k v m) = (map_of m)(k \<mapsto> v)"
proof (induction m)
  case (Cons p m)
  obtain k' v' where p: "p = (k', v')" by (cases p)
  have ok: "rank_map_ok m" using Cons.prems by (simp add: p rank_map_ok_def)
  then show ?case using Cons.IH by (auto simp: p fun_upd_twist)
qed simp

lemma rank_map_distinct: "rank_map_ok m \<Longrightarrow> distinct (map fst m)"
  unfolding rank_map_ok_def by (induction m) (auto simp: lexordp_cstring(1))

section \<open>What a query means\<close>

text \<open>The positions of a word in a document.\<close>

definition posts :: "MemIndex \<Rightarrow> cstring \<Rightarrow> DocID_t \<Rightarrow> DocPositionOffset_t list option" where
  "posts mi w d = Option.bind (word_docs mi w) (\<lambda>t. ht_map t d)"

definition times_in :: "MemIndex \<Rightarrow> cstring \<Rightarrow> DocID_t \<Rightarrow> HWSize_t" where
  "times_in mi w d = of_nat (length (the (posts mi w d)))"

text \<open>The documents with all the words, under their names, ranked by the number of occurrences.\<close>

definition ranked :: "DocTableRecord \<Rightarrow> MemIndex \<Rightarrow> cstring list \<Rightarrow> cstring \<Rightarrow> HWSize_t \<Rightarrow> bool" where
  "ranked dt mi query n r \<longleftrightarrow> (\<exists>d. dt_names dt d = Some n \<and> (\<forall>w \<in> set query. posts mi w d \<noteq> None)
     \<and> r = (\<Sum>w \<leftarrow> query. times_in mi w d))"

definition query_results :: "DocTableRecord \<Rightarrow> MemIndex \<Rightarrow> cstring list \<Rightarrow> QueryResult set" where
  "query_results dt mi query = {q. ranked dt mi query (document_name q) (qr_rank q)}"

text \<open>An index whose documents are in its document table, each under a name of its own.\<close>

definition index_ok :: "DocTableRecord \<Rightarrow> MemIndex \<Rightarrow> nat \<Rightarrow> bool" where
  "index_ok dt mi b \<longleftrightarrow> mi_ok mi b \<and> index_fits dt mi
     \<and> (\<forall>d d' n. dt_names dt d = Some n \<and> dt_names dt d' = Some n \<longrightarrow> d = d')
     \<and> (\<forall>w d. posts mi w d \<noteq> None \<longrightarrow> dt_names dt d \<noteq> None)"

section \<open>Sizes\<close>

lemma esize_le_chain: "p \<in> set c \<Longrightarrow> esize (snd p) \<le> chain_size esize c"
proof -
  assume "p \<in> set c"
  then have "esize (snd p) \<le> (\<Sum>p \<leftarrow> c. esize (snd p))" by (intro member_le_sum_list) auto
  then show ?thesis by (simp add: chain_size_def)
qed

lemma esize_le_table: "kv \<in> set (entries t) \<Longrightarrow> esize kv \<le> table_size esize t"
proof -
  assume "kv \<in> set (entries t)"
  then obtain c p where c: "c \<in> set (buckets t)" "p \<in> set c" "snd p = kv" by (auto simp: entries_def)
  have "chain_size esize c \<le> (\<Sum>c \<leftarrow> buckets t. chain_size esize c)" using c(1) by (intro member_le_sum_list) auto
  then show ?thesis using esize_le_chain [OF c(2), of esize] c(3) by (simp add: table_size_def)
qed

lemma table_valid_entries: "table_valid valid t \<Longrightarrow> kv \<in> set (entries t) \<Longrightarrow> valid kv"
  by (fastforce simp: table_valid_def entries_def)

lemma ht_map_entry: "ht_wf t b \<Longrightarrow> ht_map t k = Some v \<longleftrightarrow> (\<exists>kv \<in> set (entries t). ht_key kv = k \<and> ht_value kv = v)"
  using kv_map_mem [OF entries_distinct] ht_map_entries by metis

text \<open>The documents of a word: their table is well formed, and a document has at least one position.\<close>

lemma word_docs_wf:
  assumes "mi_ok mi b" and "index_fits dt mi" and "word_docs mi w = Some t"
  shows "ht_wf t b" and "entries t \<noteq> []"
    and "\<And>kv. kv \<in> set (entries t) \<Longrightarrow> ht_value kv \<noteq> [] \<and> length (ht_value kv) < 4294967296"
proof -
  obtain wds where wds: "ht_map mi (FNVHash64 w) = Some wds" "t = docIDs wds"
    using assms(3) by (auto simp: word_docs_def split: option.splits if_splits)
  show wf: "ht_wf t b" using assms(1) wds by (auto simp: mi_ok_def)
  have "0 < ht_count t" using assms(1) wds by (auto simp: mi_ok_def)
  then show "entries t \<noteq> []" by (auto simp: ht_count_def)
  have "ht_wf mi b" using assms(1) by (simp add: mi_ok_def)
  then obtain e where e: "e \<in> set (entries mi)" "docIDs (ht_value e) = t" using wds ht_map_entry by metis
  have fits: "table_valid wordset_valid mi" "table_size wordset_size mi < 4294967296" using assms(2) by (auto simp: index_fits_def)
  fix kv assume kv: "kv \<in> set (entries t)"
  have "table_valid docpos_valid t" using table_valid_entries [OF fits(1) e(1)] e(2) by (simp add: wordset_valid_def)
  then have "ht_value kv \<noteq> []" using table_valid_entries [of docpos_valid t kv] kv by (auto simp: docpos_valid_def)
  moreover have "docpos_size kv < 4294967296"
    using esize_le_table [OF kv, of docpos_size] esize_le_table [OF e(1), of wordset_size] fits(2) e(2) by (simp add: wordset_size_def)
  ultimately show "ht_value kv \<noteq> [] \<and> length (ht_value kv) < 4294967296" by (simp add: docpos_size_def)
qed

section \<open>The documents of one word\<close>

text \<open>What the loop computes, with the names looked up.\<close>

definition add_doc :: "(DocID_t \<Rightarrow> cstring option) \<Rightarrow> bool \<Rightarrow> rank_map \<Rightarrow> docid_element_header \<Rightarrow> rank_map \<Rightarrow> rank_map" where
  "add_doc names first ranks h tmp =
     (let n = the (names (die_docid h)) in
      if first \<or> num_positions h > 0 \<and> map_of ranks n \<noteq> None then map_set n (map_at n ranks + num_positions h) tmp else tmp)"

lemma ProcessQuery_docs_run:
  assumes "served docname_size docname_at docname_valid s r t" and "\<forall>h \<in> set hs. ht_map t (die_docid h) \<noteq> None"
  shows "\<exists>p. ProcessQuery_docs r first ranks hs tmp s = Inr (fold (add_doc (ht_map t) first ranks) hs tmp, at_pos (htr_file r) p s)"
  using assms
proof (induction hs arbitrary: s tmp)
  case Nil
  then show ?case by (auto simp: ret_run intro: exI [of _ "cf_pos s (htr_file r)"] at_pos_same [symmetric])
next
  case (Cons h hs)
  obtain n where n: "ht_map t (die_docid h) = Some n" using Cons.prems(2) by auto
  obtain p where p: "DocTableReader_LookupDocID r (die_docid h) s = Inr (Some n, at_pos (htr_file r) p s)"
    using DocTableReader_LookupDocID_run [OF Cons.prems(1), of "die_docid h"] n by auto
  obtain p' where "ProcessQuery_docs r first ranks hs (add_doc (ht_map t) first ranks h tmp) (at_pos (htr_file r) p s) =
      Inr (fold (add_doc (ht_map t) first ranks) hs (add_doc (ht_map t) first ranks h tmp), at_pos (htr_file r) p' s)"
    using Cons.IH [of "at_pos (htr_file r) p s"] Cons.prems by auto
  moreover have "ProcessQuery_docs r first ranks (h # hs) tmp s =
      ProcessQuery_docs r first ranks hs (add_doc (ht_map t) first ranks h tmp) (at_pos (htr_file r) p s)"
    using p by (simp add: bnd_def add_doc_def Let_def n)
  ultimately show ?case by auto
qed

lemma add_docs:
  fixes names :: "DocID_t \<Rightarrow> cstring option"
  assumes "rank_map_ok tmp" and "distinct (map die_docid hs)" and "\<forall>h \<in> set hs. names (die_docid h) \<noteq> None"
    and inj: "\<And>d d' n. names d = Some n \<Longrightarrow> names d' = Some n \<Longrightarrow> d = d'"
  shows "rank_map_ok (fold (add_doc names first ranks) hs tmp) \<and>
     (map_of (fold (add_doc names first ranks) hs tmp) n = Some r \<longleftrightarrow>
       (\<exists>h \<in> set hs. names (die_docid h) = Some n \<and> (first \<or> num_positions h > 0 \<and> map_of ranks n \<noteq> None)
          \<and> r = map_at n ranks + num_positions h)
       \<or> (\<forall>h \<in> set hs. names (die_docid h) = Some n \<longrightarrow> \<not> (first \<or> num_positions h > 0 \<and> map_of ranks n \<noteq> None))
          \<and> map_of tmp n = Some r)"
  using assms(1-3)
proof (induction hs arbitrary: tmp)
  case (Cons h hs)
  let ?tmp = "add_doc names first ranks h tmp"
  obtain m where m: "names (die_docid h) = Some m" using Cons.prems(3) by auto
  have ok: "rank_map_ok ?tmp" using Cons.prems(1) by (simp add: add_doc_def Let_def map_set_ok)
  have later: "names (die_docid h') \<noteq> Some m" if "h' \<in> set hs" for h'
    using inj [OF m, of "die_docid h'"] that Cons.prems(2) by auto
  have look: "map_of ?tmp n = (if n = m \<and> (first \<or> num_positions h > 0 \<and> map_of ranks m \<noteq> None)
      then Some (map_at m ranks + num_positions h) else map_of tmp n)"
    using m Cons.prems(1) by (auto simp: add_doc_def Let_def map_set_lookup)
  have "distinct (map die_docid hs)" "\<forall>h \<in> set hs. names (die_docid h) \<noteq> None" using Cons.prems by auto
  note IH = Cons.IH [OF ok this, unfolded look]
  show ?case using IH later by (cases "n = m") (auto simp: m)
qed simp

section \<open>The words of a query\<close>

definition ranks_for :: "DocTableRecord \<Rightarrow> MemIndex \<Rightarrow> cstring list \<Rightarrow> rank_map \<Rightarrow> bool" where
  "ranks_for dt mi ws ranks \<longleftrightarrow> rank_map_ok ranks \<and> (\<forall>n r. map_of ranks n = Some r \<longleftrightarrow> ranked dt mi ws n r)"

lemma ranked_snoc:
  assumes "word_docs mi w = Some t"
  shows "ranked dt mi (ws @ [w]) n r \<longleftrightarrow> (\<exists>d ps. dt_names dt d = Some n \<and> ht_map t d = Some ps
     \<and> (\<forall>w \<in> set ws. posts mi w d \<noteq> None) \<and> r = (\<Sum>w \<leftarrow> ws. times_in mi w d) + of_nat (length ps))"
proof -
  have "posts mi w d = ht_map t d" for d using assms by (simp add: posts_def)
  then show ?thesis unfolding ranked_def times_in_def by (auto simp: add.commute)
qed

lemma ranked_missing: "word_docs mi w = None \<Longrightarrow> w \<in> set ws \<Longrightarrow> \<not> ranked dt mi ws n r"
  by (force simp: ranked_def posts_def)

lemma docs_named:
  assumes ok: "index_ok dt mi b" and t: "word_docs mi w = Some t"
  shows "\<forall>h \<in> set (map doc_header (entries t)). dt_names dt (die_docid h) \<noteq> None"
proof -
  have wf: "ht_wf t b" using word_docs_wf(1) [OF _ _ t] ok by (auto simp: index_ok_def)
  have "posts mi w (ht_key kv) \<noteq> None" if "kv \<in> set (entries t)" for kv
    using ht_map_entry [OF wf, of "ht_key kv" "ht_value kv"] that t by (auto simp: posts_def)
  then have "dt_names dt (ht_key kv) \<noteq> None" if "kv \<in> set (entries t)" for kv
    using ok that unfolding index_ok_def by metis
  then show ?thesis by (simp add: doc_header_def)
qed

lemma word_step:
  assumes ok: "index_ok dt mi b" and t: "word_docs mi w = Some t" and "first \<longleftrightarrow> ws = []"
    and "ws = [] \<Longrightarrow> ranks = []" and "ws \<noteq> [] \<Longrightarrow> ranks_for dt mi ws ranks"
  shows "ranks_for dt mi (ws @ [w]) (fold (add_doc (dt_names dt) first ranks) (map doc_header (entries t)) [])"
proof -
  let ?hs = "map doc_header (entries t)"
  have fits: "mi_ok mi b" "index_fits dt mi" using ok by (simp_all add: index_ok_def)
  note wf = word_docs_wf [OF fits t]
  have inj: "d = d'" if "dt_names dt d = Some n" "dt_names dt d' = Some n" for d d' n
    using ok that unfolding index_ok_def by metis
  have dist: "distinct (map die_docid ?hs)" using entries_distinct [OF wf(1)] by (simp add: comp_def doc_header_def)
  note dom = docs_named [OF ok t]
  have "rank_map_ok []" by (simp add: rank_map_ok_def)
  note loop = add_docs [where first = first and ranks = ranks, OF this dist dom inj]
  have "(\<exists>h \<in> set ?hs. dt_names dt (die_docid h) = Some n \<and> (first \<or> num_positions h > 0 \<and> map_of ranks n \<noteq> None)
      \<and> r = map_at n ranks + num_positions h) \<longleftrightarrow> ranked dt mi (ws @ [w]) n r" for n r
  proof -
    have pos: "num_positions (doc_header kv) > 0" if "kv \<in> set (entries t)" for kv
      using wf(3) [OF that] by (simp add: doc_header_def word_gt_0)
    have old: "first \<or> map_of ranks n \<noteq> None \<longleftrightarrow> (\<forall>w \<in> set ws. posts mi w d \<noteq> None)"
        "(\<forall>w \<in> set ws. posts mi w d \<noteq> None) \<Longrightarrow> map_at n ranks = (\<Sum>w \<leftarrow> ws. times_in mi w d)"
      if n: "dt_names dt d = Some n" for d
    proof -
      have "ranked dt mi ws n r \<longleftrightarrow> (\<forall>w \<in> set ws. posts mi w d \<noteq> None) \<and> r = (\<Sum>w \<leftarrow> ws. times_in mi w d)" for r
        unfolding ranked_def using n inj [OF _ n] by blast
      then have char: "map_of ranks n = Some r \<longleftrightarrow> (\<forall>w \<in> set ws. posts mi w d \<noteq> None) \<and> r = (\<Sum>w \<leftarrow> ws. times_in mi w d)" if "ws \<noteq> []" for r
        using assms(5) [OF that] by (simp add: ranks_for_def)
      show "first \<or> map_of ranks n \<noteq> None \<longleftrightarrow> (\<forall>w \<in> set ws. posts mi w d \<noteq> None)"
      proof (cases "ws = []")
        case False
        then have "map_of ranks n \<noteq> None \<longleftrightarrow> (\<exists>r. map_of ranks n = Some r)" "\<not> first" using assms(3) by simp_all
        then show ?thesis unfolding char [OF False] by blast
      qed (simp add: assms(3))
      show "map_at n ranks = (\<Sum>w \<leftarrow> ws. times_in mi w d)" if "\<forall>w \<in> set ws. posts mi w d \<noteq> None"
      proof (cases "ws = []")
        case False
        then have "map_of ranks n = Some (\<Sum>w \<leftarrow> ws. times_in mi w d)" unfolding char [OF False] using that by blast
        then show ?thesis by (simp add: map_at_def)
      qed (simp add: assms(4) map_at_def)
    qed
    have "(\<exists>h \<in> set ?hs. dt_names dt (die_docid h) = Some n \<and> (first \<or> num_positions h > 0 \<and> map_of ranks n \<noteq> None)
        \<and> r = map_at n ranks + num_positions h) \<longleftrightarrow> (\<exists>kv \<in> set (entries t). dt_names dt (ht_key kv) = Some n
        \<and> (first \<or> map_of ranks n \<noteq> None) \<and> r = map_at n ranks + of_nat (length (ht_value kv)))"
      using pos by (auto simp: doc_header_def)
    also have "\<dots> \<longleftrightarrow> (\<exists>d ps. dt_names dt d = Some n \<and> ht_map t d = Some ps
        \<and> (first \<or> map_of ranks n \<noteq> None) \<and> r = map_at n ranks + of_nat (length ps))"
      unfolding ht_map_entry [OF wf(1)] by blast
    also have "\<dots> \<longleftrightarrow> ranked dt mi (ws @ [w]) n r" unfolding ranked_snoc [OF t] using old by metis
    finally show ?thesis .
  qed
  then show ?thesis using loop by (auto simp: ranks_for_def)
qed

lemma ProcessQuery_words_run:
  assumes "index_ok dt mi b" and "served docname_size docname_at docname_valid s dtr (docid_to_docname dt)"
    and "served wordset_size wordset_at wordset_valid s itr mi" and "htr_file dtr = f" and "htr_file itr = f"
    and "first \<longleftrightarrow> ws = []" and "ws = [] \<Longrightarrow> ranks = []" and "ws \<noteq> [] \<Longrightarrow> ranks_for dt mi ws ranks" and "ws @ query \<noteq> []"
  shows "\<exists>p x. ProcessQuery_words dtr itr first query ranks s = Inr (x, at_pos f p s) \<and> ranks_for dt mi (ws @ query) x"
  using assms(2-)
proof (induction query arbitrary: s first ws ranks)
  case Nil
  then show ?case by (auto simp: ret_run intro: exI [of _ "cf_pos s f"] at_pos_same [symmetric])
next
  case (Cons w query)
  have fits: "mi_ok mi b" "index_fits dt mi" using assms(1) by (simp_all add: index_ok_def)
  obtain p x where look: "LookupWord itr w s = Inr (x, at_pos f p s)" and x: "case word_docs mi w of None \<Rightarrow> x = None
        | Some t \<Rightarrow> \<exists>r'. x = Some r' \<and> htr_file r' = f \<and> served docpos_size docpos_at docpos_valid s r' t"
    using LookupWord_docs [OF Cons.prems(2) fits(1), of w] Cons.prems(4) by blast
  show ?case
  proof (cases "word_docs mi w")
    case None
    then have "ranks_for dt mi (ws @ w # query) []"
      using ranked_missing [OF None, of "ws @ w # query"] by (auto simp: ranks_for_def rank_map_ok_def)
    then show ?thesis using look x None by (auto simp: bnd_def ret_run)
  next
    case (Some t)
    then obtain r' where r': "x = Some r'" "htr_file r' = f" "served docpos_size docpos_at docpos_valid s r' t" using x by auto
    let ?tmp = "fold (add_doc (dt_names dt) first ranks) (map doc_header (entries t)) []"
    have step: "ranks_for dt mi (ws @ [w]) ?tmp"
      by (rule word_step [OF assms(1) Some]) (use Cons.prems in auto)
    note wf = word_docs_wf [OF fits Some]
    obtain p1 where l: "GetDocIDList r' (at_pos f p s) = Inr (map doc_header (entries t), at_pos f p1 s)"
      using GetDocIDList_run [of "at_pos f p s" r' t] r'(2,3) by auto
    have "\<forall>h \<in> set (map doc_header (entries t)). ht_map (docid_to_docname dt) (die_docid h) \<noteq> None"
      using docs_named [OF assms(1) Some] by (simp only: dt_names_def)
    from ProcessQuery_docs_run [OF _ this, of "at_pos f p1 s" dtr first ranks "[]"] Cons.prems(1,3)
    obtain p2 where dl: "ProcessQuery_docs dtr first ranks (map doc_header (entries t)) [] (at_pos f p1 s) = Inr (?tmp, at_pos f p2 s)"
      by (auto simp: dt_names_def)
    have "\<exists>p x. ProcessQuery_words dtr itr False query ?tmp (at_pos f p2 s) = Inr (x, at_pos f p (at_pos f p2 s))
        \<and> ranks_for dt mi ((ws @ [w]) @ query) x"
      by (rule Cons.IH) (use Cons.prems step in auto)
    then show ?thesis using look r'(1) l dl wf(2) by (auto simp: bnd_def)
  qed
qed

section \<open>Several indexes\<close>

text \<open>A file that holds an index, and a pair of readers for it.\<close>

definition indexed :: "cfs \<Rightarrow> cstring \<times> DocTableRecord \<times> MemIndex \<Rightarrow> bool" where
  "indexed s = (\<lambda>(f, dt, mi). \<exists>B b. cf_bytes s f = Some B \<and> index_file B dt mi \<and> index_ok dt mi b)"

definition readers_of :: "cfs \<Rightarrow> HashTableReader \<times> HashTableReader \<Rightarrow> cstring \<times> DocTableRecord \<times> MemIndex \<Rightarrow> bool" where
  "readers_of s = (\<lambda>(dtr, itr) (f, dt, mi). htr_file dtr = f \<and> htr_file itr = f \<and> (\<exists>b. index_ok dt mi b)
     \<and> served docname_size docname_at docname_valid s dtr (docid_to_docname dt)
     \<and> served wordset_size wordset_at wordset_valid s itr mi)"

lemma served_same: "same_files s s' \<Longrightarrow> io_ok s \<Longrightarrow> served esize at valid s' r t = served esize at valid s r t"
  by (simp add: served_def same_files_def)

lemma same_files_trans: "same_files s s' \<Longrightarrow> same_files s' s'' \<Longrightarrow> same_files s s''"
  by (simp add: same_files_def)

lemma readers_same: "same_files s s' \<Longrightarrow> io_ok s \<Longrightarrow> readers_of s' = readers_of s"
  by (intro ext) (auto simp: readers_of_def served_same)

lemma indexed_same: "same_files s s' \<Longrightarrow> indexed s' = indexed s"
  by (intro ext) (auto simp: indexed_def same_files_def)

lemma QueryProcessor_open_run:
  assumes "io_ok s" and "crc_ok s" and "\<forall>x \<in> set idx. indexed s x"
  shows "\<exists>qp s'. QueryProcessor_open (map fst idx) validate s = Inr (qp, s') \<and> same_files s s' \<and> list_all2 (readers_of s') qp idx"
  using assms
proof (induction idx arbitrary: s)
  case Nil
  then show ?case by (simp add: ret_run same_files_def)
next
  case (Cons x idx)
  obtain f dt mi where x: "x = (f, dt, mi)" by (cases x)
  obtain B b where B: "cf_bytes s f = Some B" "index_file B dt mi" and ok: "index_ok dt mi b"
    using Cons.prems(3) by (auto simp: indexed_def x)
  have fits: "index_fits dt mi" using ok by (simp add: index_ok_def)
  obtain fir s1 where new: "FileIndexReader_new f validate s = Inr (fir, s1)" and same: "same_files s s1"
    and fir: "fir_file fir = f" "doctable_size (fir_header fir) = of_nat (table_size docname_size (docid_to_docname dt))"
    using FileIndexReader_new_spec [OF Cons.prems(1,2) B fits, of validate] by (auto simp: wp_iff)
  have s1: "io_ok s1" "crc_ok s1" "cf_bytes s1 f = Some B" using same B by (simp_all add: same_files_def)
  obtain p dtr where d: "GetDocTableReader fir s1 = Inr (dtr, at_pos f p s1)" "htr_file dtr = f"
      "served docname_size docname_at docname_valid s1 dtr (docid_to_docname dt)"
    using served_tables(1) [OF s1(1,3) B(2) fits fir] by blast
  obtain q itr where i: "GetIndexTableReader fir (at_pos f p s1) = Inr (itr, at_pos f q s1)" "htr_file itr = f"
      "served wordset_size wordset_at wordset_valid s1 itr mi"
    using served_tables(2) [of "at_pos f p s1", OF _ _ B(2) fits fir] s1 by auto
  let ?s = "at_pos f q s1"
  have del: "FileIndexReader_delete fir ?s = Inr ((), ?s)"
    using s1(1) by (simp add: FileIndexReader_delete_def bnd_def next_io_def io_ok_def at_pos_def ret_run)
  have "same_files s ?s" using same by simp
  then obtain qp s' where rest: "QueryProcessor_open (map fst idx) validate ?s = Inr (qp, s')" "same_files ?s s'" "list_all2 (readers_of s') qp idx"
    using Cons.IH [of ?s] Cons.prems(3) s1 indexed_same by (metis at_pos_simps(3,5) list.set_intros(2))
  have "readers_of s' (dtr, itr) x"
    using d(2,3) i(2,3) ok s1(1) by (auto simp: readers_of_def x served_same [OF rest(2)])
  moreover have "QueryProcessor_open (map fst (x # idx)) validate s = Inr ((dtr, itr) # qp, s')"
    using new d(1) i(1) del rest(1) by (simp add: x bnd_def ret_run)
  moreover have "same_files s s'" using same_files_trans [OF \<open>same_files s ?s\<close> rest(2)] .
  ultimately show ?case using rest(3) by auto
qed

lemma ranks_results:
  assumes "ranks_for dt mi query x"
  shows "mset (map (\<lambda>(n, r). \<lparr>document_name = n, qr_rank = r\<rparr>) x) = mset_set (query_results dt mi query)"
proof -
  let ?f = "\<lambda>(n, r). \<lparr>document_name = n, qr_rank = r\<rparr>"
  have dist: "distinct (map fst x)" using assms rank_map_distinct by (simp add: ranks_for_def)
  have "inj ?f" by (auto simp: inj_def)
  then have "inj_on ?f (set x)" by (rule inj_on_subset) simp
  then have "distinct (map ?f x)" using dist by (simp add: distinct_map)
  moreover have "q \<in> set (map ?f x) \<longleftrightarrow> q \<in> query_results dt mi query" for q
  proof -
    have "q \<in> set (map ?f x) \<longleftrightarrow> (document_name q, qr_rank q) \<in> set x"
      by (cases q) (force simp: image_iff)
    also have "\<dots> \<longleftrightarrow> map_of x (document_name q) = Some (qr_rank q)" using map_of_eq_Some_iff [OF dist] by simp
    finally show ?thesis using assms by (simp add: ranks_for_def query_results_def)
  qed
  then have "set (map ?f x) = query_results dt mi query" by blast
  ultimately show ?thesis by (metis mset_set_set)
qed

lemma ProcessQuery_indexes_run:
  assumes "io_ok s" and "crc_ok s" and "list_all2 (readers_of s) qp idx" and "query \<noteq> []"
  shows "\<exists>rs s'. ProcessQuery_indexes qp query s = Inr (rs, s') \<and> same_files s s'
     \<and> mset rs = (\<Sum>(f, dt, mi) \<leftarrow> idx. mset_set (query_results dt mi query))"
  using assms
proof (induction qp arbitrary: s idx)
  case Nil
  then show ?case by (simp add: ret_run same_files_def)
next
  case (Cons r qp)
  obtain dtr itr where r: "r = (dtr, itr)" by (cases r)
  obtain f dt mi idx' where idx: "idx = (f, dt, mi) # idx'" using Cons.prems(3) by (cases idx) auto
  obtain b where ok: "index_ok dt mi b" and rd: "served docname_size docname_at docname_valid s dtr (docid_to_docname dt)"
      "served wordset_size wordset_at wordset_valid s itr mi" "htr_file dtr = f" "htr_file itr = f"
    using Cons.prems(3) by (auto simp: readers_of_def r idx)
  obtain p x where x: "ProcessQuery_words dtr itr True query [] s = Inr (x, at_pos f p s)" "ranks_for dt mi query x"
    using ProcessQuery_words_run [OF ok rd, of True "[]" "[]" query] Cons.prems(4) by auto
  have same: "same_files s (at_pos f p s)" using Cons.prems(1,2) by (simp add: same_files_def)
  obtain rs s' where rest: "ProcessQuery_indexes qp query (at_pos f p s) = Inr (rs, s')" "same_files (at_pos f p s) s'"
    "mset rs = (\<Sum>(f, dt, mi) \<leftarrow> idx'. mset_set (query_results dt mi query))"
    using Cons.IH [of "at_pos f p s" idx'] Cons.prems readers_same [OF same Cons.prems(1)] by (auto simp: idx)
  show ?case
    using x rest same_files_trans [OF same rest(2)] ranks_results [OF x(2)]
    by (simp add: r idx bnd_def ret_run)
qed


lemma small_index_ok: "index_ok small_names small_index 2"
proof -
  have "d = 1" if "posts small_index w d \<noteq> None" for w d
    using that by (auto simp: posts_def word_docs_def small_index_def small_table_wf split: if_splits option.splits)
  then show ?thesis
    using small_ok small_fits by (auto simp: index_ok_def dt_names_def small_names_def small_table_wf split: if_splits)
qed

lemma small_results: "query_results small_names small_index [[104, 105]] = {\<lparr>document_name = [97, 46, 116], qr_rank = 2\<rparr>}"
proof -
  have "posts small_index [104, 105] d = (if d = 1 then Some [0, 7] else None)" for d
    by (simp add: posts_def word_docs_def small_index_def small_table_wf)
  then have "ranked small_names small_index [[104, 105]] n r \<longleftrightarrow> n = [97, 46, 116] \<and> r = 2" for n r
    by (auto simp: ranked_def times_in_def dt_names_def small_names_def small_table_wf split: if_splits)
  then show ?thesis by (auto simp: query_results_def)
qed

lemma rev_sort_sorts:
  "mset (rev (sort_key qr_rank rs)) = mset rs \<and> sorted_wrt (\<lambda>a b. qr_rank b \<le> qr_rank a) (rev (sort_key qr_rank rs))"
proof -
  have "sorted_wrt (\<lambda>a b. qr_rank a \<le> qr_rank b) (sort_key qr_rank rs)"
    using sorted_sort_key [of qr_rank rs] by (simp add: sorted_wrt_map)
  then show ?thesis by (simp add: sorted_wrt_rev)
qed


section \<open>The file against the memory\<close>

text \<open>A word that is indexed under the very word, and not under another one with the same hash.\<close>

definition exact :: "MemIndex \<Rightarrow> cstring \<Rightarrow> bool" where
  "exact mi w \<longleftrightarrow> (\<forall>wds. ht_map mi (FNVHash64 w) = Some wds \<longrightarrow> wds_word wds = w)"

lemma exact_posts: "exact mi w \<Longrightarrow> posts mi w d = hits mi w d"
  by (auto simp: exact_def posts_def word_docs_def hits_def postings_def split: option.splits)

definition named_result :: "DocTableRecord \<Rightarrow> SearchResult \<Rightarrow> QueryResult" where
  "named_result dt sr = \<lparr>document_name = the (dt_names dt (docid sr)), qr_rank = rank sr\<rparr>"

lemma query_results_answers:
  assumes "index_ok dt mi b" and "query \<noteq> []" and "\<forall>w \<in> set query. exact mi w"
  shows "query_results dt mi query = named_result dt ` {sr. answers mi query sr}"
proof -
  have p: "posts mi w d = hits mi w d" if "w \<in> set query" for w d using exact_posts assms(3) that by blast
  then have sum: "(\<Sum>w \<leftarrow> query. times_in mi w d) = (\<Sum>w \<leftarrow> query. hit_count mi d w)" for d
    by (intro arg_cong [where f = sum_list] map_cong refl) (simp add: times_in_def hit_count_def)
  have named: "dt_names dt d \<noteq> None" if "\<forall>w \<in> set query. posts mi w d \<noteq> None" for d
    using assms(1,2) that unfolding index_ok_def by (metis list.set_intros(1) neq_Nil_conv)
  have "q \<in> query_results dt mi query \<longleftrightarrow> (\<exists>sr. answers mi query sr \<and> q = named_result dt sr)" for q
  proof
    assume "q \<in> query_results dt mi query"
    then obtain d where d: "dt_names dt d = Some (document_name q)" "\<forall>w \<in> set query. posts mi w d \<noteq> None"
      "qr_rank q = (\<Sum>w \<leftarrow> query. hit_count mi d w)" by (auto simp: query_results_def ranked_def sum)
    then have "answers mi query \<lparr>docid = d, rank = qr_rank q\<rparr>" using assms(2) p by (auto simp: answers_def)
    moreover have "q = named_result dt \<lparr>docid = d, rank = qr_rank q\<rparr>" using d(1) by (simp add: named_result_def)
    ultimately show "\<exists>sr. answers mi query sr \<and> q = named_result dt sr" by blast
  next
    assume "\<exists>sr. answers mi query sr \<and> q = named_result dt sr"
    then obtain sr where sr: "answers mi query sr" "q = named_result dt sr" by blast
    then have "\<forall>w \<in> set query. posts mi w (docid sr) \<noteq> None" using p by (auto simp: answers_def)
    then show "q \<in> query_results dt mi query"
      using sr named by (auto simp: query_results_def ranked_def sum named_result_def answers_def)
  qed
  then show ?thesis by blast
qed



end
