(* ===== verification/Bits.thy ===== *)
theory Bits
  imports Prelude
begin

text \<open>
  The bit puzzles of uw\_cse351/lab1: bits.c, the reference functions of tests.c it is graded
  against, and the integer functions of pointer.c.

  A C \<open>int\<close> is a 32-bit word, read as a signed number by \<open>sint\<close>.  As the lab's rules say, arithmetic
  is two's complement and wraps, right shifts are arithmetic, and a shift by a count outside
  \<open>0 \<dots> 31\<close> is unpredictable: the shifts below are used, and the theorems stated, for counts in that
  range.
\<close>

type_synonym cint = "32 word"

definition shl :: "cint \<Rightarrow> cint \<Rightarrow> cint" where
  "shl x n = push_bit (unat n) x"

definition sar :: "cint \<Rightarrow> cint \<Rightarrow> cint" where
  "sar x n = signed_drop_bit (unat n) x"

definition lnot :: "cint \<Rightarrow> cint" where
  "lnot x = (if x = 0 then 1 else 0)"

definition bool_int :: "bool \<Rightarrow> cint" where
  "bool_int b = (if b then 1 else 0)"

section \<open>bits.c\<close>

definition bitAnd :: "cint \<Rightarrow> cint \<Rightarrow> cint" where
  "bitAnd x y = (let negx = NOT x; negy = NOT y in NOT (negx OR negy))"

definition bitXor :: "cint \<Rightarrow> cint \<Rightarrow> cint" where
  "bitXor x y = (let negx = NOT x; negy = NOT y in NOT (x AND y) AND NOT (negx AND negy))"

definition thirdBits :: cint where
  "thirdBits =
     (let mask = 0x49; r = 0x49;
          r = shl r 9; r = r OR mask;
          r = shl r 9; r = r OR mask;
          r = shl r 6; r = r OR 0x09
      in r)"

definition fitsBits :: "cint \<Rightarrow> cint \<Rightarrow> cint" where
  "fitsBits x n =
     (let minusOne = sar (shl 0xFF 24) 24;
          mov = n + minusOne;
          v = sar x mov
      in lnot (NOT v) OR lnot v)"

definition sign :: "cint \<Rightarrow> cint" where
  "sign x = (let ultimate = sar x 31 in ultimate OR lnot (lnot x))"

definition getByte :: "cint \<Rightarrow> cint \<Rightarrow> cint" where
  "getByte x n = (let mov = shl n 3; r = sar x mov in r AND 0xff)"

definition logicalShift :: "cint \<Rightarrow> cint \<Rightarrow> cint" where
  "logicalShift x n = (let mask = NOT (shl (sar (shl 1 31) n) 1) in sar x n AND mask)"

definition addOK :: "cint \<Rightarrow> cint \<Rightarrow> cint" where
  "addOK x y =
     (let signx = sar x 31; signy = sar y 31;
          diffsign = signx XOR signy;
          signxy = sar (x + y) 31
      in lnot (lnot diffsign) OR lnot ((signx AND signy) XOR signxy))"

definition bang :: "cint \<Rightarrow> cint" where
  "bang x =
     (let minus_one = NOT 1 + 1;
          x_minus_one = x + minus_one;
          sign_bit = sar (x_minus_one XOR x) 31
      in (sign_bit AND 1) AND sar x_minus_one 31)"

definition conditional :: "cint \<Rightarrow> cint \<Rightarrow> cint \<Rightarrow> cint" where
  "conditional x y z =
     (let notx = sar (shl (lnot x) 31) 31 in (NOT notx AND y) OR (notx AND z))"

definition isPower2 :: "cint \<Rightarrow> cint" where
  "isPower2 x =
     (let x_minus_one = x + (NOT 1 + 0x1);
          sgn = sar x 31 AND 0x1;
          less_equal_zero = sgn OR lnot x
      in lnot (x AND x_minus_one) AND lnot less_equal_zero)"

section \<open>tests.c\<close>

definition test_bitAnd :: "cint \<Rightarrow> cint \<Rightarrow> cint" where
  "test_bitAnd x y = x AND y"

definition test_bitXor :: "cint \<Rightarrow> cint \<Rightarrow> cint" where
  "test_bitXor x y = x XOR y"

text \<open>\<open>test_thirdBits_loop n i r\<close>: the loop from \<open>i\<close> on, at most \<open>n\<close> rounds.\<close>

fun test_thirdBits_loop :: "nat \<Rightarrow> nat \<Rightarrow> cint \<Rightarrow> cint" where
  "test_thirdBits_loop 0 i r = r"
| "test_thirdBits_loop (Suc n) i r =
     (if i < 32 then test_thirdBits_loop n (i + 3) (r OR shl 1 (of_nat i)) else r)"

definition test_thirdBits :: cint where
  "test_thirdBits = test_thirdBits_loop 32 0 0"

definition test_fitsBits :: "cint \<Rightarrow> cint \<Rightarrow> cint" where
  "test_fitsBits x n =
     (let TMin_n = - shl 1 (n - 1); TMax_n = shl 1 (n - 1) - 1
      in bool_int (sint TMin_n \<le> sint x \<and> sint x \<le> sint TMax_n))"

definition test_sign :: "cint \<Rightarrow> cint" where
  "test_sign x = (if lnot x \<noteq> 0 then 0 else if sint x < 0 then -1 else 1)"

definition test_getByte :: "cint \<Rightarrow> cint \<Rightarrow> cint" where
  "test_getByte x n =
     (let byte = (if n = 0 then ucast x else if n = 1 then ucast (sar x 8)
                  else if n = 2 then ucast (sar x 16) else ucast (sar x 24) :: 8 word)
      in ucast byte)"

definition test_logicalShift :: "cint \<Rightarrow> cint \<Rightarrow> cint" where
  "test_logicalShift x n = drop_bit (unat n) x"

definition test_addOK :: "cint \<Rightarrow> cint \<Rightarrow> cint" where
  "test_addOK x y =
     (let lsum = (scast x :: 64 word) + scast y in bool_int (lsum = scast (ucast lsum :: 32 word)))"

definition test_bang :: "cint \<Rightarrow> cint" where
  "test_bang x = lnot x"

definition test_conditional :: "cint \<Rightarrow> cint \<Rightarrow> cint \<Rightarrow> cint" where
  "test_conditional x y z = (if x \<noteq> 0 then y else z)"

fun test_isPower2_loop :: "nat \<Rightarrow> nat \<Rightarrow> cint \<Rightarrow> cint" where
  "test_isPower2_loop 0 i x = 0"
| "test_isPower2_loop (Suc n) i x =
     (if x = shl 1 (of_nat i) then 1 else test_isPower2_loop n (Suc i) x)"

definition test_isPower2 :: "cint \<Rightarrow> cint" where
  "test_isPower2 x = test_isPower2_loop 31 0 x"

section \<open>pointer.c\<close>

text \<open>
  A pointer is a 64-bit word, and converting one to \<open>int\<close> keeps its low half.  The difference of
  two \<open>int\<close> pointers counts elements of four bytes.
\<close>

definition withinSameBlock :: "64 word \<Rightarrow> 64 word \<Rightarrow> cint" where
  "withinSameBlock ptr1 ptr2 =
     (let cptr1 = ucast ptr1; cptr2 = ucast ptr2;
          mask = 0xFF;
          mask = shl mask 8 + 0xFF;
          mask = shl mask 8 + 0xFF;
          mask = shl mask 8 + 0xC0;
          cptr1 = cptr1 AND mask; cptr2 = cptr2 AND mask
      in bool_int (cptr1 = cptr2))"

definition withinArray :: "64 word \<Rightarrow> cint \<Rightarrow> 64 word \<Rightarrow> cint" where
  "withinArray intArray sz ptr =
     (let diff = ucast (signed_drop_bit 2 (ptr - intArray)) :: cint;
          diff_size = sz - diff - 1;
          positive = lnot (sar diff 31 AND 1);
          positive_diff = lnot (sar diff_size 31 AND 1)
      in positive AND positive_diff)"

definition invert :: "cint \<Rightarrow> cint \<Rightarrow> cint \<Rightarrow> cint" where
  "invert x p n =
     (let mask = NOT (sar (shl 1 31) (31 - n));
          mask = shl mask p
      in x XOR mask)"

section \<open>The sign bit\<close>

lemma sar_31: "sar x 31 = (if bit x 31 then -1 else 0)"
  by (rule bit_word_eqI) (auto simp: sar_def bit_signed_drop_bit_iff not_less_eq_eq)

lemma bit_31_sint: "bit (x :: cint) 31 \<longleftrightarrow> sint x < 0"
  by (simp add: sint_uint bit_uint_iff)

lemma bit_31_unat: "bit (x :: cint) 31 \<longleftrightarrow> 2 ^ 31 \<le> unat x"
proof -
  have "unat x < 2 ^ 32" using unsigned_less [of x, where 'a = nat] by simp
  then have "unat x div 2 ^ 31 = (if 2 ^ 31 \<le> unat x then 1 else 0)" by auto
  moreover have "bit x 31 \<longleftrightarrow> bit (unat x) 31" by (simp add: bit_unsigned_iff)
  ultimately show ?thesis by (simp add: bit_iff_odd)
qed

lemma lnot_simps [simp]: "lnot 0 = 1" "x \<noteq> 0 \<Longrightarrow> lnot x = 0" "lnot x = 0 \<longleftrightarrow> x \<noteq> 0" "lnot x = 1 \<longleftrightarrow> x = 0"
  by (simp_all add: lnot_def)

lemma minus_one_bits: "(NOT 1 + 1 :: cint) = -1"
  by simp

lemma addOK_cases: "addOK x y = bool_int (bit x 31 \<noteq> bit y 31 \<or> bit (x + y) 31 = bit x 31)"
  by (auto simp: addOK_def Let_def sar_31 bool_int_def)

lemma sint_range: "- (2 ^ 31) \<le> sint (x :: cint)" "sint (x :: cint) < 2 ^ 31"
  using sint_greater_eq [of x] sint_less [of x] by simp_all

lemma sint_plus: "sint (x + y :: cint) = signed_take_bit 31 (sint x + sint y)"
  by (simp add: sint_word_ariths)

lemma sint_plus_wrap:
  "sint (x + y :: cint) = (if sint x + sint y < - (2 ^ 31) then sint x + sint y + 2 ^ 32
     else if 2 ^ 31 \<le> sint x + sint y then sint x + sint y - 2 ^ 32 else sint x + sint y)"
proof -
  note r = sint_range [of x] sint_range [of y]
  consider "sint x + sint y < - (2 ^ 31)" | "2 ^ 31 \<le> sint x + sint y"
    | "- (2 ^ 31) \<le> sint x + sint y" "sint x + sint y < 2 ^ 31" by linarith
  then show ?thesis
  proof cases
    case 3
    then show ?thesis by (simp add: sint_plus signed_take_bit_int_eq_self)
  next
    case 1
    have "signed_take_bit 31 (sint x + sint y) = signed_take_bit 31 (sint x + sint y + 2 ^ 32)"
      by (simp add: signed_take_bit_eq_iff_take_bit_eq take_bit_eq_mod)
    also have "\<dots> = sint x + sint y + 2 ^ 32" using 1 r by (intro signed_take_bit_int_eq_self) simp_all
    finally show ?thesis using 1 by (simp add: sint_plus)
  next
    case 2
    have "signed_take_bit 31 (sint x + sint y) = signed_take_bit 31 (sint x + sint y - 2 ^ 32)"
      by (simp add: signed_take_bit_eq_iff_take_bit_eq take_bit_eq_mod)
    also have "\<dots> = sint x + sint y - 2 ^ 32" using 2 r by (intro signed_take_bit_int_eq_self) simp_all
    finally show ?thesis using 2 by (simp add: sint_plus)
  qed
qed

lemma sint_scast_64: "sint (scast (x :: cint) :: 64 word) = sint x"
  by (simp add: signed_scast_eq signed_take_bit_int_eq_self sint_range order_trans [OF _ sint_range(1)]
      less_trans [OF sint_range(2)])

lemma ucast_scast_plus: "(ucast ((scast x :: 64 word) + scast y) :: cint) = x + y"
  by transfer (simp, subst (1 2) take_bit_add [symmetric], simp add: take_bit_signed_take_bit)

lemma sint_scast_plus: "sint ((scast (x :: cint) :: 64 word) + scast (y :: cint)) = sint x + sint y"
  using sint_range [of x] sint_range [of y]
  by (simp add: sint_word_ariths sint_scast_64 signed_take_bit_int_eq_self)

section \<open>Powers of two\<close>

lemma nat_and_pred_zero: "0 < n \<Longrightarrow> n AND (n - 1) = (0 :: nat) \<longleftrightarrow> (\<exists>i. n = 2 ^ i)"
proof (induction n rule: nat_bit_induct)
  case (even n)
  have "2 * n AND (2 * n - 1) = 2 * (n AND (n - 1))"
  proof -
    have "2 * n - 1 = 2 * (n - 1) + 1" using even.hyps by simp
    then show ?thesis by (simp add: and_nat_unfold [of "2 * n"])
  qed
  moreover have "(\<exists>i. 2 * n = 2 ^ i) \<longleftrightarrow> (\<exists>i. n = 2 ^ i)"
  proof
    assume "\<exists>i. 2 * n = 2 ^ i"
    then obtain i where i: "2 * n = 2 ^ i" by blast
    then obtain j where "i = Suc j" by (cases i) (metis odd_one even_mult_iff dvd_triv_left power_0, blast)
    with i show "\<exists>i. n = 2 ^ i" by auto
  qed (metis power_Suc)
  ultimately show ?case using even.IH even.hyps by simp
next
  case (odd n)
  have "Suc (2 * n) AND (Suc (2 * n) - 1) = 2 * n" by (simp add: and_nat_unfold [of "Suc _"])
  moreover have "(\<exists>i. Suc (2 * n) = 2 ^ i) \<longleftrightarrow> n = 0"
  proof
    assume "\<exists>i. Suc (2 * n) = 2 ^ i"
    then obtain i where "Suc (2 * n) = 2 ^ i" by blast
    then show "n = 0" by (cases i) (simp, simp, presburger)
  qed (auto intro: exI [of _ 0])
  ultimately show ?case by simp
qed simp

lemma unat_push_one: "i < 32 \<Longrightarrow> unat (push_bit i (1 :: cint)) = 2 ^ i"
proof -
  assume i: "i < 32"
  have "push_bit i (1 :: cint) = of_nat (2 ^ i)" by (simp add: push_bit_of_1)
  moreover have "(2 :: nat) ^ i < 2 ^ 32" using i by (intro power_strict_increasing) auto
  ultimately show ?thesis by (simp only: unat_of_nat) (simp add: take_bit_nat_eq_self)
qed

lemma sint_eq_iff: "v = w \<longleftrightarrow> sint v = sint w"
  by (auto intro: signed_word_eqI)

lemma word_power_of_two: "x \<noteq> 0 \<Longrightarrow> x AND (x - 1) = 0 \<longleftrightarrow> (\<exists>i < 32. x = push_bit i (1 :: cint))"
proof -
  assume x: "x \<noteq> 0"
  then have pos: "0 < unat x" by (simp add: unat_gt_0)
  have bound: "unat x < 2 ^ 32" using unsigned_less [of x, where 'a = nat] by simp
  have "x AND (x - 1) = 0 \<longleftrightarrow> unat x AND (unat x - 1) = 0"
    using x by (simp add: word_unat_eq_iff unsigned_and_eq unat_minus_one)
  also have "\<dots> \<longleftrightarrow> (\<exists>i. unat x = 2 ^ i)" by (rule nat_and_pred_zero [OF pos])
  also have "\<dots> \<longleftrightarrow> (\<exists>i < 32. unat x = 2 ^ i)"
    using bound by (metis nat_power_less_imp_less zero_less_numeral)
  also have "\<dots> \<longleftrightarrow> (\<exists>i < 32. x = push_bit i (1 :: cint))"
    by (simp add: word_unat_eq_iff unat_push_one del: push_bit_of_1 cong: conj_cong)
  finally show ?thesis .
qed

lemma if_if_disj: "(if A then x else if B then x else y) = (if A \<or> B then x else y)"
  by simp

lemma test_isPower2_loop_eq:
  "test_isPower2_loop n i x = bool_int (\<exists>j. i \<le> j \<and> j < i + n \<and> x = shl 1 (of_nat j))"
proof (induction n arbitrary: i)
  case (Suc n)
  have step: "(\<exists>j. i \<le> j \<and> j < i + Suc n \<and> P j) \<longleftrightarrow> P i \<or> (\<exists>j. Suc i \<le> j \<and> j < Suc i + n \<and> P j)" for P
    by (metis Suc_le_eq add_Suc add_Suc_right le_add1 le_less less_add_Suc1 less_le_trans nat_less_le)
  show ?case
    unfolding test_isPower2_loop.simps Suc.IH step [of "\<lambda>j. x = shl 1 (of_nat j)"] bool_int_def
    by (rule if_if_disj)
qed (simp add: bool_int_def)

lemma shl_one: "i < 32 \<Longrightarrow> shl 1 (of_nat i) = push_bit i 1"
  by (simp add: shl_def)

lemma sint_push_one: "i < 31 \<Longrightarrow> sint (push_bit i (1 :: cint)) = 2 ^ i"
proof -
  assume i: "i < 31"
  have "push_bit i (1 :: cint) = word_of_int (2 ^ i)" by (simp add: push_bit_of_1)
  moreover have "(2 :: int) ^ i < 2 ^ 31" using i by (intro power_strict_increasing) auto
  ultimately show ?thesis
    by (simp only: signed_of_int) (simp, rule signed_take_bit_int_eq_self, simp_all add: order_trans [of _ 0])
qed

lemma bit_top: "bit (0x80000000 :: cint) j \<longleftrightarrow> j = 31"
proof -
  have "(0x80000000 :: cint) = 2 ^ 31" by simp
  then show ?thesis by (simp only: bit_exp_iff) auto
qed

lemma bit_shift_mask:
  "k < 32 \<Longrightarrow> bit (shl (signed_drop_bit k 0x80000000) 1) i \<longleftrightarrow> i < 32 \<and> 32 - k \<le> i"
proof -
  assume k: "k < 32"
  have "shl (signed_drop_bit k 0x80000000) 1 = 2 * signed_drop_bit k 0x80000000"
    by (simp add: shl_def)
  then have "bit (shl (signed_drop_bit k 0x80000000) 1) i \<longleftrightarrow>
      i < 32 \<and> i \<noteq> 0 \<and> (if 32 - k \<le> i - 1 \<and> i - 1 < 32 then 31 else k + (i - 1)) = 31"
    by (simp only: bit_double_iff bit_signed_drop_bit_iff bit_top) auto
  then show ?thesis using k by (auto split: if_splits)
qed

lemma shl_31: "shl 1 31 = 0x80000000"
  by (simp add: shl_def)

section \<open>Properties\<close>

text \<open>
  \<open>addOK\<close> answers 1 exactly when the 32-bit signed sum does not overflow, and agrees with its
  64-bit reference in tests.c on all inputs.
\<close>

theorem addOK_detects_overflow:
  "addOK x y = bool_int (sint (x + y) = sint x + sint y) \<and> addOK x y = test_addOK x y"
proof -
  have eq: "addOK x y = bool_int (sint (x + y) = sint x + sint y)"
    using sint_range [of x] sint_range [of y]
    by (simp add: addOK_cases bit_31_sint sint_plus_wrap) (auto simp: bool_int_def)
  have "((scast x :: 64 word) + scast y = scast (x + y)) \<longleftrightarrow> sint x + sint y = sint (x + y)"
    by (simp only: sint_eq_iff [of "_ :: 64 word"] sint_scast_plus sint_scast_64)
  then show ?thesis using eq by (simp add: test_addOK_def Let_def ucast_scast_plus eq_commute)
qed

text \<open>
  \<open>isPower2\<close> answers 1 exactly on the positive powers of two, as the search loop of its reference.
\<close>

theorem isPower2_correct: "isPower2 x = test_isPower2 x \<and> (isPower2 x = 1 \<longleftrightarrow> (\<exists>i < 31. sint x = 2 ^ i))"
proof -
  have "isPower2 x = bool_int (x AND (x - 1) = 0 \<and> \<not> bit x 31 \<and> x \<noteq> 0)"
    by (auto simp: isPower2_def Let_def sar_31 bool_int_def lnot_def)
  also have "(x AND (x - 1) = 0 \<and> \<not> bit x 31 \<and> x \<noteq> 0) \<longleftrightarrow> (\<exists>i < 31. x = push_bit i 1)"
  proof (cases "x = 0")
    case False
    have top: "bit (push_bit i (1 :: cint)) 31 \<longleftrightarrow> i = 31" if "i < 32" for i
      using that by (auto simp: bit_push_bit_iff bit_1_iff simp del: push_bit_of_1)
    have "i < 31 \<longleftrightarrow> i < 32 \<and> i \<noteq> 31" for i :: nat by auto
    then show ?thesis using word_power_of_two [OF False] False top by metis
  qed (auto simp: push_bit_of_1)
  finally have p: "isPower2 x = bool_int (\<exists>i < 31. x = push_bit i 1)" .
  moreover have "(\<exists>i < 31. x = push_bit i 1) \<longleftrightarrow> (\<exists>i < 31. sint x = 2 ^ i)"
    by (auto simp: sint_eq_iff [of x] sint_push_one simp del: push_bit_of_1)
  moreover have "test_isPower2 x = bool_int (\<exists>i < 31. x = push_bit i 1)"
    by (simp add: test_isPower2_def test_isPower2_loop_eq shl_one cong: conj_cong)
  ultimately show ?thesis by (simp add: bool_int_def)
qed

text \<open>
  \<open>logicalShift\<close> is the unsigned right shift and \<open>getByte\<close> the byte extraction of the references
  for every count and byte number the lab allows.
\<close>

theorem shifts_match_references:
  assumes "unat n < 32" and "unat b < 4"
  shows "logicalShift x n = test_logicalShift x n \<and> getByte x b = test_getByte x b"
proof
  show "logicalShift x n = test_logicalShift x n"
    using assms(1)
    by (intro bit_word_eqI)
      (auto simp: logicalShift_def test_logicalShift_def Let_def sar_def shl_31 bit_shift_mask bit_simps
        dest: bit_imp_le_length)
  have byte: "y AND 0xff = ucast (ucast y :: 8 word)" for y :: cint
  proof -
    have "y AND 0xff = take_bit 8 y" by (simp add: take_bit_eq_mask mask_eq_exp_minus_1)
    also have "\<dots> = ucast (ucast y :: 8 word)" by (rule bit_word_eqI) (auto simp: bit_simps)
    finally show ?thesis .
  qed
  have "b = 0 \<or> b = 1 \<or> b = 2 \<or> b = 3" using assms(2) by (auto simp: word_unat_eq_iff)
  then show "getByte x b = test_getByte x b"
    by (auto simp: getByte_def test_getByte_def Let_def byte shl_def sar_def)
qed

theorem shifts_match_references_witness:
  "logicalShift 0x87654321 4 = test_logicalShift 0x87654321 4 \<and> getByte 0x87654321 1 = test_getByte 0x87654321 1"
  by (rule shifts_match_references) simp_all

lemma not_eq_zero: "NOT v = (0 :: cint) \<longleftrightarrow> v = -1"
  by (metis bit.double_compl bit.compl_zero)

lemma fitsBits_cases: "1 \<le> unat n \<Longrightarrow> unat n \<le> 32 \<Longrightarrow>
    fitsBits x n = bool_int (sint x div 2 ^ (unat n - 1) = -1 \<or> sint x div 2 ^ (unat n - 1) = 0)"
proof -
  assume n: "1 \<le> unat n" "unat n \<le> 32"
  define k where "k = unat n - 1"
  define v where "v = signed_drop_bit k x"
  have "sar (shl 0xFF 24) 24 = (-1 :: cint)" by (simp add: sar_def shl_def)
  moreover have "unat (n + -1) = k" using n unat_minus_one [of n] by (fastforce simp: k_def)
  ultimately have f: "fitsBits x n = lnot (NOT v) OR lnot v"
    unfolding fitsBits_def Let_def sar_def [of x] by (simp only: v_def)
  have "v = -1 \<longleftrightarrow> sint x div 2 ^ k = -1" "v = 0 \<longleftrightarrow> sint x div 2 ^ k = 0"
    by (simp_all add: sint_eq_iff v_def sint_signed_drop_bit_eq drop_bit_eq_div)
  then show ?thesis unfolding f k_def [symmetric]
    by (auto simp: lnot_def bool_int_def not_eq_zero)
qed

lemma div_power_signs:
  fixes v :: int
  shows "v div 2 ^ k = -1 \<or> v div 2 ^ k = 0 \<longleftrightarrow> - (2 ^ k) \<le> v \<and> v < 2 ^ k"
proof -
  define m :: int where "m = 2 ^ k"
  define q where "q = v div m"
  have m: "0 < m" by (simp add: m_def)
  obtain r where v: "v = m * q + r" "0 \<le> r" "r < m"
    using m by (intro that [of "v mod m"]) (auto simp: q_def)
  have "q = -1 \<or> q = 0 \<longleftrightarrow> - m \<le> v \<and> v < m"
  proof
    assume range: "- m \<le> v \<and> v < m"
    have "\<not> 1 \<le> q"
    proof
      assume "1 \<le> q"
      with m have "m * 1 \<le> m * q" by (intro mult_left_mono) auto
      with v range show False by linarith
    qed
    moreover have "\<not> q \<le> -2"
    proof
      assume "q \<le> -2"
      with m have "m * q \<le> m * -2" by (intro mult_left_mono) auto
      with v range show False by linarith
    qed
    ultimately show "q = -1 \<or> q = 0" by linarith
  qed (use v in auto)
  then show ?thesis by (simp add: q_def m_def)
qed

lemma test_fitsBits_cases: "1 \<le> unat n \<Longrightarrow> unat n \<le> 32 \<Longrightarrow>
    test_fitsBits x n = bool_int (- (2 ^ (unat n - 1)) \<le> sint x \<and> sint x < 2 ^ (unat n - 1))"
proof -
  assume n: "1 \<le> unat n" "unat n \<le> 32"
  define k where "k = unat n - 1"
  have "unat (n - 1) = k" using n unat_minus_one [of n] by (fastforce simp: k_def)
  then have t: "test_fitsBits x n = bool_int (sint (- push_bit k 1 :: cint) \<le> sint x \<and> sint x \<le> sint (push_bit k 1 - 1 :: cint))"
    unfolding test_fitsBits_def Let_def shl_def by simp
  show ?thesis
  proof (cases "k = 31")
    case True
    have "sint (- push_bit 31 1 :: cint) = - (2 ^ 31)" "sint (push_bit 31 1 - 1 :: cint) = 2 ^ 31 - 1"
      by simp_all
    then show ?thesis unfolding t k_def [symmetric] True using sint_range [of x] by (simp add: bool_int_def)
  next
    case False
    then have k: "k < 31" using n by (simp add: k_def)
    then have p: "(2 :: int) ^ k \<le> 2 ^ 30" by (intro power_increasing) auto
    have w: "- push_bit k (1 :: cint) = word_of_int (- (2 ^ k))" "push_bit k (1 :: cint) - 1 = word_of_int (2 ^ k - 1)"
      by (simp_all add: push_bit_of_1)
    have s: "sint (word_of_int i :: cint) = i" if "- (2 ^ 31) \<le> i" "i < 2 ^ 31" for i
      using that by (simp add: signed_of_int signed_take_bit_int_eq_self)
    have range: "- (2 ^ 31) \<le> - e \<and> - e < 2 ^ 31 \<and> - (2 ^ 31) \<le> e - 1 \<and> e - 1 < 2 ^ 31"
      if "0 < e" "e \<le> 2 ^ 30" for e :: int using that by auto
    have "- (2 ^ 31) \<le> - ((2 :: int) ^ k)" "- ((2 :: int) ^ k) < 2 ^ 31"
      "- (2 ^ 31) \<le> (2 :: int) ^ k - 1" "(2 :: int) ^ k - 1 < 2 ^ 31"
      using range [OF _ p] by simp_all
    then have "sint (- push_bit k 1 :: cint) = - (2 ^ k)" "sint (push_bit k 1 - 1 :: cint) = 2 ^ k - 1"
      unfolding w by (simp_all only: s)
    then show ?thesis unfolding t k_def [symmetric] by (auto simp: bool_int_def)
  qed
qed

text \<open>
  for every width from 1 to 32, \<open>fitsBits\<close> answers 1 exactly when the argument is in the range
  of a two's complement integer of that width, and agrees with its reference.
\<close>

theorem fitsBits_correct:
  assumes "1 \<le> unat n" and "unat n \<le> 32"
  shows "fitsBits x n = bool_int (- (2 ^ (unat n - 1)) \<le> sint x \<and> sint x < 2 ^ (unat n - 1))
     \<and> fitsBits x n = test_fitsBits x n"
  using fitsBits_cases [OF assms] test_fitsBits_cases [OF assms] by (simp only: div_power_signs)

theorem fitsBits_correct_witness: "fitsBits 5 3 = bool_int (- (2 ^ 2) \<le> sint (5 :: cint) \<and> sint (5 :: cint) < 2 ^ 2)"
  using fitsBits_correct [of 3 5] by simp

text \<open>
  \<open>bitAnd\<close>, \<open>bitXor\<close>, \<open>thirdBits\<close>, \<open>sign\<close>, \<open>bang\<close> and \<open>conditional\<close> agree with their references
  on all inputs.
\<close>

lemma simple_puzzles:
  "bitAnd x y = test_bitAnd x y \<and> bitXor x y = test_bitXor x y \<and> thirdBits = test_thirdBits
     \<and> sign x = test_sign x \<and> bang x = test_bang x \<and> conditional x y z = test_conditional x y z"
proof (intro conjI)
  show "bitAnd x y = test_bitAnd x y" by (simp add: bitAnd_def test_bitAnd_def Let_def)
  show "bitXor x y = test_bitXor x y"
    by (rule bit_word_eqI) (auto simp: bitXor_def test_bitXor_def Let_def bit_simps)
  show "thirdBits = test_thirdBits" by code_simp
  show "sign x = test_sign x"
    by (auto simp: sign_def test_sign_def Let_def sar_31 bit_31_sint lnot_def)
  show "bang x = test_bang x"
  proof (cases "x = 0")
    case True
    then show ?thesis by (simp add: bang_def test_bang_def Let_def sar_31)
  next
    case False
    have "\<not> (bit (x - 1) 31 \<and> \<not> bit x 31)"
      using False unat_minus_one [of x] by (auto simp: bit_31_unat)
    then show ?thesis using False by (auto simp: bang_def test_bang_def Let_def sar_31 bit_xor_iff)
  qed
  show "conditional x y z = test_conditional x y z"
    by (auto simp: conditional_def test_conditional_def Let_def sar_31 shl_def lnot_def)
qed

text \<open>
  C11: every integer puzzle agrees with the reference function of the grader on all arguments that the lab
  allows, and three of them with arithmetic on integers: \<open>addOK\<close> answers 1 exactly when the signed 32-bit sum does not
  overflow, \<open>isPower2\<close> exactly on the positive powers of two, and \<open>fitsBits\<close> exactly on the range of a two's
  complement integer of the given width.
\<close>

theorem puzzles_match_references:
  "bitAnd x y = test_bitAnd x y \<and> bitXor x y = test_bitXor x y \<and> thirdBits = test_thirdBits
     \<and> sign x = test_sign x \<and> bang x = test_bang x \<and> conditional x y z = test_conditional x y z
     \<and> addOK x y = test_addOK x y \<and> addOK x y = bool_int (sint (x + y) = sint x + sint y)
     \<and> isPower2 x = test_isPower2 x \<and> (isPower2 x = 1 \<longleftrightarrow> (\<exists>i < 31. sint x = 2 ^ i))
     \<and> (unat n < 32 \<longrightarrow> logicalShift x n = test_logicalShift x n)
     \<and> (unat n < 4 \<longrightarrow> getByte x n = test_getByte x n)
     \<and> (1 \<le> unat n \<and> unat n \<le> 32 \<longrightarrow> fitsBits x n = test_fitsBits x n
          \<and> fitsBits x n = bool_int (- (2 ^ (unat n - 1)) \<le> sint x \<and> sint x < 2 ^ (unat n - 1)))"
proof -
  have "logicalShift x n = test_logicalShift x n" if "unat n < 32" using shifts_match_references [OF that, of 0 x] by simp
  moreover have "getByte x n = test_getByte x n" if "unat n < 4" using shifts_match_references [OF _ that, of 0 x] by simp
  ultimately show ?thesis
    using simple_puzzles [of x y z] addOK_detects_overflow [of x y] isPower2_correct [of x] fitsBits_correct [of n x] by blast
qed

theorem puzzles_match_references_witness:
  "logicalShift 0x87654321 3 = test_logicalShift 0x87654321 3 \<and> getByte 0x87654321 3 = test_getByte 0x87654321 3
     \<and> fitsBits 0x87654321 3 = 0"
proof -
  have "unat (3 :: cint) = 3" by simp
  then show ?thesis using puzzles_match_references [of "0x87654321" 0 0 3] by (auto simp: bool_int_def)
qed

section \<open>Properties of pointer.c\<close>

lemma bit_invert_mask:
  "k < 32 \<Longrightarrow> bit (NOT (signed_drop_bit (31 - k) (0x80000000 :: cint))) i \<longleftrightarrow> i < k"
  by (simp only: bit_not_iff bit_signed_drop_bit_iff bit_top) auto

text \<open>
  \<open>invert\<close> flips exactly the \<open>n\<close> bits from position \<open>p\<close> on, for every position of the word and
  every number of bits up to 31, and undoes itself.
\<close>

theorem invert_correct:
  assumes "unat p < 32" and "unat n < 32"
  shows "(i < 32 \<longrightarrow> bit (invert x p n) i = (bit x i \<noteq> (unat p \<le> i \<and> i < unat p + unat n)))
     \<and> invert (invert x p n) p n = x"
proof -
  have "unat (31 - n) = 31 - unat n"
    using assms(2) by (simp add: unat_sub word_le_nat_alt)
  then have inv: "invert y p n = y XOR push_bit (unat p) (NOT (signed_drop_bit (31 - unat n) 0x80000000))" for y
    by (simp add: invert_def Let_def shl_31 sar_def shl_def)
  have "bit (invert x p n) i = (bit x i \<noteq> (unat p \<le> i \<and> i < unat p + unat n))" if "i < 32"
    using that assms unfolding inv by (auto simp: bit_xor_iff bit_push_bit_iff bit_invert_mask)
  moreover have "invert (invert x p n) p n = x" unfolding inv by (simp add: xor.assoc)
  ultimately show ?thesis by blast
qed

theorem invert_correct_witness:
  "bit (invert 0xAA 2 3) 4 = (bit (0xAA :: cint) 4 \<noteq> True) \<and> invert (invert 0xAA 2 3) 2 3 = 0xAA"
  using invert_correct [of 2 3 4 "0xAA"] by simp

text \<open>
  on 64-bit pointers \<open>withinSameBlock\<close> compares only bits 6 to 31: it answers 1 for all pointers
  of one 64-byte block, but also for two pointers whose distance is a multiple of 4 GB.
\<close>

theorem withinSameBlock_low_bits:
  "withinSameBlock p q = bool_int (take_bit 26 (drop_bit 6 p) = take_bit 26 (drop_bit 6 q))
     \<and> (drop_bit 6 p = drop_bit 6 q \<longrightarrow> withinSameBlock p q = 1)
     \<and> withinSameBlock p (p + 0x100000000) = 1"
proof -
  have mask: "shl (shl (shl 0xFF 8 + 0xFF) 8 + 0xFF) 8 + 0xC0 = (0xFFFFFFC0 :: cint)"
    by (simp add: shl_def)
  have bits: "bit (0xFFFFFFC0 :: cint) i \<longleftrightarrow> 6 \<le> i \<and> i < 32" for i
  proof -
    have "(0xFFFFFFC0 :: cint) = push_bit 6 (mask 26)" by (simp add: mask_eq_exp_minus_1)
    then show ?thesis by (simp only: bit_push_bit_iff bit_mask_iff) auto
  qed
  have eq: "withinSameBlock p q = bool_int (take_bit 26 (drop_bit 6 p) = take_bit 26 (drop_bit 6 q))" for p q
  proof -
    have "(ucast p AND 0xFFFFFFC0 = (ucast q AND 0xFFFFFFC0 :: cint)) \<longleftrightarrow> (\<forall>i. 6 \<le> i \<and> i < 32 \<longrightarrow> bit p i = bit q i)"
      by (simp only: bit_eq_iff bit_and_iff bits bit_unsigned_iff) auto
    also have "\<dots> \<longleftrightarrow> (\<forall>i < 26. bit p (6 + i) = bit q (6 + i))"
    proof (rule iffI; intro allI impI)
      fix i :: nat assume all: "\<forall>i. 6 \<le> i \<and> i < 32 \<longrightarrow> bit p i = bit q i" and "i < 26"
      then show "bit p (6 + i) = bit q (6 + i)" by (intro all [rule_format]) simp
    next
      fix i :: nat assume all: "\<forall>i<26. bit p (6 + i) = bit q (6 + i)" and "6 \<le> i \<and> i < 32"
      then show "bit p i = bit q i" using all [rule_format, of "i - 6"] by auto
    qed
    also have "\<dots> \<longleftrightarrow> take_bit 26 (drop_bit 6 p) = take_bit 26 (drop_bit 6 q)"
    proof
      assume all: "\<forall>i<26. bit p (6 + i) = bit q (6 + i)"
      show "take_bit 26 (drop_bit 6 p) = take_bit 26 (drop_bit 6 q)"
        by (rule bit_eqI) (use all in \<open>auto simp: bit_take_bit_iff bit_drop_bit_eq\<close>)
    next
      assume eq: "take_bit 26 (drop_bit 6 p) = take_bit 26 (drop_bit 6 q)"
      have "i < 26 \<and> bit p (6 + i) \<longleftrightarrow> i < 26 \<and> bit q (6 + i)" for i
        using arg_cong [OF eq, of "\<lambda>w. bit w i"] by (simp only: bit_take_bit_iff bit_drop_bit_eq o_def)
      then show "\<forall>i<26. bit p (6 + i) = bit q (6 + i)" by blast
    qed
    finally show ?thesis by (simp add: withinSameBlock_def Let_def mask)
  qed
  have "withinSameBlock p (p + 0x100000000) = 1"
  proof -
    have "(ucast (p + 0x100000000) :: cint) = ucast p"
      by transfer (simp add: take_bit_eq_mod mod_mod_cancel)
    then show ?thesis by (simp add: withinSameBlock_def Let_def bool_int_def)
  qed
  then show ?thesis by (simp add: eq bool_int_def)
qed

theorem withinSameBlock_low_bits_witness:
  "withinSameBlock 0x7fff00000040 0x7fff0000007c = 1 \<and> withinSameBlock 0x7fff00000040 (0x7fff00000040 + 0x100000000) = 1"
  using withinSameBlock_low_bits [of "0x7fff00000040" "0x7fff0000007c"] by (simp add: bool_int_def)

lemma sint_word_of_int: "- (2 ^ 31) \<le> d \<Longrightarrow> d < 2 ^ 31 \<Longrightarrow> sint (word_of_int d :: cint) = d"
  by (simp add: signed_of_int signed_take_bit_int_eq_self)

text \<open>
  \<open>withinArray\<close> answers 1 exactly for the pointers to elements \<open>0\<close> to \<open>size - 1\<close> of the array, for
  every element distance that fits in an \<open>int\<close>.
\<close>

theorem withinArray_correct:
  assumes "0 \<le> sint sz" and "- (2 ^ 31) \<le> d" and "d < 2 ^ 31"
  shows "withinArray a sz (a + word_of_int (4 * d)) = bool_int (0 \<le> d \<and> d < sint sz)"
proof -
  have "sint (word_of_int (4 * d) :: 64 word) = 4 * d"
    unfolding signed_of_int using assms by simp (rule signed_take_bit_int_eq_self, simp_all)
  then have "sint (signed_drop_bit 2 (word_of_int (4 * d) :: 64 word)) = d"
    by (simp add: sint_signed_drop_bit_eq drop_bit_eq_div)
  then have "(signed_drop_bit 2 (word_of_int (4 * d) :: 64 word)) = word_of_int d"
    by (metis of_int_sint scast_id)
  then have diff: "ucast (signed_drop_bit 2 (a + word_of_int (4 * d) - a)) = (word_of_int d :: cint)"
    by simp (transfer, simp)
  have sd: "sint (word_of_int d :: cint) = d" using assms by (intro sint_word_of_int)
  have w: "withinArray a sz (a + word_of_int (4 * d)) =
      lnot (sar (word_of_int d) 31 AND 1) AND lnot (sar (sz - word_of_int d - 1) 31 AND 1)"
    unfolding withinArray_def Let_def diff ..
  have e: "sz - word_of_int d - 1 = (word_of_int (sint sz - d - 1) :: cint)" by simp
  show ?thesis
  proof (cases "0 \<le> d")
    case True
    then have "sint (sz - word_of_int d - 1 :: cint) = sint sz - d - 1"
      unfolding e using assms sint_range [of sz] by (intro sint_word_of_int) auto
    then show ?thesis unfolding w using True
      by (auto simp: sar_31 bit_31_sint sd bool_int_def)
  next
    case False
    then show ?thesis unfolding w by (simp add: sar_31 bit_31_sint sd bool_int_def)
  qed
qed

theorem withinArray_correct_witness:
  "withinArray 0x1000 10 0x1024 = 1 \<and> withinArray 0x1000 10 0x1028 = 0"
  using withinArray_correct [of 10 9 "0x1000"] withinArray_correct [of 10 10 "0x1000"]
  by (simp add: bool_int_def)

end
