(* ===== verification/JosString.thy ===== *)
theory JosString
  imports Prelude
begin

text \<open>
  The string library of the JOS kernel, mit6.828/lab/lib/string.c.

  Memory is a partial map from 32-bit addresses to bytes; reading or writing an address that is not
  mapped is a \<open>MemFault\<close>.  Address arithmetic wraps.  The loops that run to a terminating zero take
  the number of rounds they may run as their first argument and fail with \<open>OutOfFuel\<close> beyond it: in
  a memory without a zero byte the C loop does not end.  The theorems show that any bound above the
  length of the string is enough.

  \<open>memset\<close> and \<open>memmove\<close> are inline assembly; \<open>rep_stosb\<close>, \<open>rep_stosl\<close>, \<open>rep_movsb\<close> and
  \<open>rep_movsl\<close> are the repeated x86 string instructions they use, the first argument the count in the
  register \<open>ecx\<close>, the direction flag chosen by the caller.  \<open>memset_c\<close> and \<open>memmove_c\<close> are the portable
  versions in the same file.
\<close>

type_synonym vaddr = "32 word"
type_synonym byte = "8 word"
type_synonym jmem = "vaddr \<rightharpoonup> byte"

definition ld :: "vaddr \<Rightarrow> (jmem, byte) cmd" where
  "ld a m = (case m a of None \<Rightarrow> Inl MemFault | Some b \<Rightarrow> Inr (b, m))"

definition st :: "vaddr \<Rightarrow> byte \<Rightarrow> (jmem, unit) cmd" where
  "st a b m = (case m a of None \<Rightarrow> Inl MemFault | Some _ \<Rightarrow> Inr ((), m(a \<mapsto> b)))"

text \<open>A 32-bit word in memory, least significant byte first.\<close>

definition ld32 :: "vaddr \<Rightarrow> (jmem, 32 word) cmd" where
  "ld32 a =
     bnd (ld a) (\<lambda>b0. bnd (ld (a + 1)) (\<lambda>b1. bnd (ld (a + 2)) (\<lambda>b2. bnd (ld (a + 3)) (\<lambda>b3.
     ret (ucast b0 OR push_bit 8 (ucast b1) OR push_bit 16 (ucast b2) OR push_bit 24 (ucast b3))))))"

definition st32 :: "vaddr \<Rightarrow> 32 word \<Rightarrow> (jmem, unit) cmd" where
  "st32 a w =
     bnd (st a (ucast w)) (\<lambda>_. bnd (st (a + 1) (ucast (drop_bit 8 w))) (\<lambda>_.
     bnd (st (a + 2) (ucast (drop_bit 16 w))) (\<lambda>_. st (a + 3) (ucast (drop_bit 24 w)))))"

section \<open>Strings\<close>

fun strlen_loop :: "nat \<Rightarrow> vaddr \<Rightarrow> 32 word \<Rightarrow> (jmem, 32 word) cmd" where
  "strlen_loop 0 s n = fail OutOfFuel"
| "strlen_loop (Suc k) s n =
     bnd (ld s) (\<lambda>c. if c \<noteq> 0 then strlen_loop k (s + 1) (n + 1) else ret n)"

definition strlen :: "nat \<Rightarrow> vaddr \<Rightarrow> (jmem, 32 word) cmd" where
  "strlen k s = strlen_loop k s 0"

fun strnlen_loop :: "nat \<Rightarrow> vaddr \<Rightarrow> 32 word \<Rightarrow> (jmem, 32 word) cmd" where
  "strnlen_loop 0 s n = ret n"
| "strnlen_loop (Suc sz) s n =
     bnd (ld s) (\<lambda>c. if c \<noteq> 0 then strnlen_loop sz (s + 1) (n + 1) else ret n)"

definition strnlen :: "vaddr \<Rightarrow> 32 word \<Rightarrow> (jmem, 32 word) cmd" where
  "strnlen s sz = strnlen_loop (unat sz) s 0"

fun strcpy_loop :: "nat \<Rightarrow> vaddr \<Rightarrow> vaddr \<Rightarrow> (jmem, unit) cmd" where
  "strcpy_loop 0 dst src = fail OutOfFuel"
| "strcpy_loop (Suc k) dst src =
     bnd (ld src) (\<lambda>c. bnd (st dst c) (\<lambda>_.
       if c \<noteq> 0 then strcpy_loop k (dst + 1) (src + 1) else ret ()))"

definition strcpy :: "nat \<Rightarrow> vaddr \<Rightarrow> vaddr \<Rightarrow> (jmem, vaddr) cmd" where
  "strcpy k dst src = bnd (strcpy_loop k dst src) (\<lambda>_. ret dst)"

definition strcat :: "nat \<Rightarrow> vaddr \<Rightarrow> vaddr \<Rightarrow> (jmem, vaddr) cmd" where
  "strcat k dst src =
     bnd (strlen k dst) (\<lambda>len. bnd (strcpy k (dst + len) src) (\<lambda>_. ret dst))"

fun strncpy_loop :: "nat \<Rightarrow> vaddr \<Rightarrow> vaddr \<Rightarrow> (jmem, unit) cmd" where
  "strncpy_loop 0 dst src = ret ()"
| "strncpy_loop (Suc n) dst src =
     bnd (ld src) (\<lambda>c. bnd (st dst c) (\<lambda>_. bnd (ld src) (\<lambda>c'.
       strncpy_loop n (dst + 1) (if c' \<noteq> 0 then src + 1 else src))))"

definition strncpy :: "vaddr \<Rightarrow> vaddr \<Rightarrow> 32 word \<Rightarrow> (jmem, vaddr) cmd" where
  "strncpy dst src sz = bnd (strncpy_loop (unat sz) dst src) (\<lambda>_. ret dst)"

text \<open>\<open>strlcpy_loop n\<close>: the loop entered with \<open>size = n + 1\<close>; it returns \<open>dst\<close>.\<close>

fun strlcpy_loop :: "nat \<Rightarrow> vaddr \<Rightarrow> vaddr \<Rightarrow> (jmem, vaddr) cmd" where
  "strlcpy_loop 0 dst src = ret dst"
| "strlcpy_loop (Suc n) dst src =
     bnd (ld src) (\<lambda>c. if c \<noteq> 0 then bnd (st dst c) (\<lambda>_. strlcpy_loop n (dst + 1) (src + 1)) else ret dst)"

definition strlcpy :: "vaddr \<Rightarrow> vaddr \<Rightarrow> 32 word \<Rightarrow> (jmem, 32 word) cmd" where
  "strlcpy dst src sz =
     bnd (if 0 < sz then bnd (strlcpy_loop (unat (sz - 1)) dst src) (\<lambda>d. bnd (st d 0) (\<lambda>_. ret d)) else ret dst)
       (\<lambda>d. ret (d - dst))"

fun strcmp :: "nat \<Rightarrow> vaddr \<Rightarrow> vaddr \<Rightarrow> (jmem, int) cmd" where
  "strcmp 0 p q = fail OutOfFuel"
| "strcmp (Suc k) p q =
     bnd (ld p) (\<lambda>c. if c = 0 then bnd (ld q) (\<lambda>d. ret (uint c - uint d))
       else bnd (ld q) (\<lambda>d. if c = d then strcmp k (p + 1) (q + 1) else ret (uint c - uint d)))"

fun strncmp_loop :: "nat \<Rightarrow> vaddr \<Rightarrow> vaddr \<Rightarrow> (jmem, int) cmd" where
  "strncmp_loop 0 p q = ret 0"
| "strncmp_loop (Suc n) p q =
     bnd (ld p) (\<lambda>c. if c = 0 then bnd (ld q) (\<lambda>d. ret (uint c - uint d))
       else bnd (ld q) (\<lambda>d. if c = d then strncmp_loop n (p + 1) (q + 1) else ret (uint c - uint d)))"

definition strncmp :: "vaddr \<Rightarrow> vaddr \<Rightarrow> 32 word \<Rightarrow> (jmem, int) cmd" where
  "strncmp p q n = strncmp_loop (unat n) p q"

fun strchr :: "nat \<Rightarrow> vaddr \<Rightarrow> byte \<Rightarrow> (jmem, vaddr) cmd" where
  "strchr 0 s c = fail OutOfFuel"
| "strchr (Suc k) s c =
     bnd (ld s) (\<lambda>b. if b \<noteq> 0 then if b = c then ret s else strchr k (s + 1) c else ret 0)"

fun strfind :: "nat \<Rightarrow> vaddr \<Rightarrow> byte \<Rightarrow> (jmem, vaddr) cmd" where
  "strfind 0 s c = fail OutOfFuel"
| "strfind (Suc k) s c =
     bnd (ld s) (\<lambda>b. if b \<noteq> 0 then if b = c then ret s else strfind k (s + 1) c else ret s)"

section \<open>Memory blocks\<close>

fun rep_stosb :: "nat \<Rightarrow> vaddr \<Rightarrow> byte \<Rightarrow> (jmem, unit) cmd" where
  "rep_stosb 0 d al = ret ()"
| "rep_stosb (Suc n) d al = bnd (st d al) (\<lambda>_. rep_stosb n (d + 1) al)"

fun rep_stosl :: "nat \<Rightarrow> vaddr \<Rightarrow> 32 word \<Rightarrow> (jmem, unit) cmd" where
  "rep_stosl 0 d eax = ret ()"
| "rep_stosl (Suc n) d eax = bnd (st32 d eax) (\<lambda>_. rep_stosl n (d + 4) eax)"

text \<open>The step is \<open>1\<close> or \<open>4\<close> with the direction flag clear and \<open>-1\<close> or \<open>-4\<close> with it set.\<close>

fun rep_movsb :: "nat \<Rightarrow> vaddr \<Rightarrow> vaddr \<Rightarrow> vaddr \<Rightarrow> (jmem, unit) cmd" where
  "rep_movsb 0 step d s = ret ()"
| "rep_movsb (Suc n) step d s = bnd (ld s) (\<lambda>b. bnd (st d b) (\<lambda>_. rep_movsb n step (d + step) (s + step)))"

fun rep_movsl :: "nat \<Rightarrow> vaddr \<Rightarrow> vaddr \<Rightarrow> vaddr \<Rightarrow> (jmem, unit) cmd" where
  "rep_movsl 0 step d s = ret ()"
| "rep_movsl (Suc n) step d s = bnd (ld32 s) (\<lambda>w. bnd (st32 d w) (\<lambda>_. rep_movsl n step (d + step) (s + step)))"

text \<open>The remainder of an \<open>int\<close> by 4 is zero for the same words as the unsigned one.\<close>

definition memset :: "vaddr \<Rightarrow> 32 word \<Rightarrow> 32 word \<Rightarrow> (jmem, vaddr) cmd" where
  "memset v c n =
     (if n = 0 then ret v
      else if sint v mod 4 = 0 \<and> n mod 4 = 0 then
        (let c = c AND 0xFF; c = push_bit 24 c OR push_bit 16 c OR push_bit 8 c OR c
         in bnd (rep_stosl (unat (n div 4)) v c) (\<lambda>_. ret v))
      else bnd (rep_stosb (unat n) v (ucast c)) (\<lambda>_. ret v))"

definition memmove :: "vaddr \<Rightarrow> vaddr \<Rightarrow> 32 word \<Rightarrow> (jmem, vaddr) cmd" where
  "memmove dst src n =
     (let s = src; d = dst in
      if s < d \<and> d < s + n then
        (let s = s + n; d = d + n in
         if sint s mod 4 = 0 \<and> sint d mod 4 = 0 \<and> n mod 4 = 0
         then bnd (rep_movsl (unat (n div 4)) (- 4) (d - 4) (s - 4)) (\<lambda>_. ret dst)
         else bnd (rep_movsb (unat n) (- 1) (d - 1) (s - 1)) (\<lambda>_. ret dst))
      else
        (if sint s mod 4 = 0 \<and> sint d mod 4 = 0 \<and> n mod 4 = 0
         then bnd (rep_movsl (unat (n div 4)) 4 d s) (\<lambda>_. ret dst)
         else bnd (rep_movsb (unat n) 1 d s) (\<lambda>_. ret dst)))"

text \<open>The portable versions.  \<open>m\<close> is an \<open>int\<close>: no byte is written for \<open>n\<close> above its range.\<close>

fun memset_c_loop :: "nat \<Rightarrow> vaddr \<Rightarrow> byte \<Rightarrow> (jmem, unit) cmd" where
  "memset_c_loop 0 p c = ret ()"
| "memset_c_loop (Suc m) p c = bnd (st p c) (\<lambda>_. memset_c_loop m (p + 1) c)"

definition memset_c :: "vaddr \<Rightarrow> 32 word \<Rightarrow> 32 word \<Rightarrow> (jmem, vaddr) cmd" where
  "memset_c v c n = bnd (memset_c_loop (nat (sint n)) v (ucast c)) (\<lambda>_. ret v)"

fun memmove_c_down :: "nat \<Rightarrow> vaddr \<Rightarrow> vaddr \<Rightarrow> (jmem, unit) cmd" where
  "memmove_c_down 0 d s = ret ()"
| "memmove_c_down (Suc n) d s = bnd (ld (s - 1)) (\<lambda>b. bnd (st (d - 1) b) (\<lambda>_. memmove_c_down n (d - 1) (s - 1)))"

fun memmove_c_up :: "nat \<Rightarrow> vaddr \<Rightarrow> vaddr \<Rightarrow> (jmem, unit) cmd" where
  "memmove_c_up 0 d s = ret ()"
| "memmove_c_up (Suc n) d s = bnd (ld s) (\<lambda>b. bnd (st d b) (\<lambda>_. memmove_c_up n (d + 1) (s + 1)))"

definition memmove_c :: "vaddr \<Rightarrow> vaddr \<Rightarrow> 32 word \<Rightarrow> (jmem, vaddr) cmd" where
  "memmove_c dst src n =
     (if src < dst \<and> dst < src + n then bnd (memmove_c_down (unat n) (dst + n) (src + n)) (\<lambda>_. ret dst)
      else bnd (memmove_c_up (unat n) dst src) (\<lambda>_. ret dst))"

definition memcpy :: "vaddr \<Rightarrow> vaddr \<Rightarrow> 32 word \<Rightarrow> (jmem, vaddr) cmd" where
  "memcpy dst src n = memmove dst src n"

fun memcmp_loop :: "nat \<Rightarrow> vaddr \<Rightarrow> vaddr \<Rightarrow> (jmem, int) cmd" where
  "memcmp_loop 0 s1 s2 = ret 0"
| "memcmp_loop (Suc n) s1 s2 =
     bnd (ld s1) (\<lambda>a. bnd (ld s2) (\<lambda>b. if a \<noteq> b then ret (uint a - uint b) else memcmp_loop n (s1 + 1) (s2 + 1)))"

definition memcmp :: "vaddr \<Rightarrow> vaddr \<Rightarrow> 32 word \<Rightarrow> (jmem, int) cmd" where
  "memcmp v1 v2 n = memcmp_loop (unat n) v1 v2"

fun memfind_loop :: "nat \<Rightarrow> vaddr \<Rightarrow> vaddr \<Rightarrow> byte \<Rightarrow> (jmem, vaddr) cmd" where
  "memfind_loop 0 s ends c = (if s < ends then fail OutOfFuel else ret s)"
| "memfind_loop (Suc k) s ends c =
     (if s < ends then bnd (ld s) (\<lambda>b. if b = c then ret s else memfind_loop k (s + 1) ends c) else ret s)"

definition memfind :: "vaddr \<Rightarrow> 32 word \<Rightarrow> 32 word \<Rightarrow> (jmem, vaddr) cmd" where
  "memfind s c n = memfind_loop (unat n) s (s + n) (ucast c)"

section \<open>Numbers\<close>

fun skip_blanks :: "nat \<Rightarrow> vaddr \<Rightarrow> (jmem, vaddr) cmd" where
  "skip_blanks 0 s = fail OutOfFuel"
| "skip_blanks (Suc k) s = bnd (ld s) (\<lambda>c. if c = 0x20 \<or> c = 0x09 then skip_blanks k (s + 1) else ret s)"

definition strtol_dig :: "byte \<Rightarrow> int option" where
  "strtol_dig c =
     (if 0x30 \<le> c \<and> c \<le> 0x39 then Some (uint c - 0x30)
      else if 0x61 \<le> c \<and> c \<le> 0x7A then Some (uint c - 0x61 + 10)
      else if 0x41 \<le> c \<and> c \<le> 0x5A then Some (uint c - 0x41 + 10)
      else None)"

definition long_range :: "int \<Rightarrow> bool" where
  "long_range v \<longleftrightarrow> - (2 ^ 31) \<le> v \<and> v < 2 ^ 31"

definition checked :: "int \<Rightarrow> ('s, int) cmd" where
  "checked v = (if long_range v then ret v else fail SignedOverflow)"

fun strtol_digits :: "nat \<Rightarrow> vaddr \<Rightarrow> int \<Rightarrow> int \<Rightarrow> (jmem, int \<times> vaddr) cmd" where
  "strtol_digits 0 s base val = fail OutOfFuel"
| "strtol_digits (Suc k) s base val =
     bnd (ld s) (\<lambda>c.
       case strtol_dig c of
         None \<Rightarrow> ret (val, s)
       | Some dig \<Rightarrow>
           if dig \<ge> base then ret (val, s)
           else bnd (checked (val * base)) (\<lambda>v. bnd (checked (v + dig)) (\<lambda>v. strtol_digits k (s + 1) base v)))"

text \<open>The base prefix: \<open>s[1]\<close> is read only when \<open>s[0]\<close> is a zero digit.\<close>

definition strtol_prefix :: "vaddr \<Rightarrow> int \<Rightarrow> (jmem, vaddr \<times> int) cmd" where
  "strtol_prefix s base =
     bnd (ld s) (\<lambda>c0.
     bnd (if (base = 0 \<or> base = 16) \<and> c0 = 0x30 then bnd (ld (s + 1)) (\<lambda>c1. ret (c1 = 0x78)) else ret False)
       (\<lambda>hex.
          if hex then ret (s + 2, 16)
          else if base = 0 \<and> c0 = 0x30 then ret (s + 1, 8)
          else if base = 0 then ret (s, 10)
          else ret (s, base)))"

definition strtol :: "nat \<Rightarrow> vaddr \<Rightarrow> vaddr \<Rightarrow> int \<Rightarrow> (jmem, int) cmd" where
  "strtol k s endptr base =
     bnd (skip_blanks k s) (\<lambda>s.
     bnd (ld s) (\<lambda>c.
     let neg = (c = 0x2D); s = (if c = 0x2B \<or> c = 0x2D then s + 1 else s) in
     bnd (strtol_prefix s base) (\<lambda>(s, base).
     bnd (strtol_digits k s base 0) (\<lambda>(val, s).
     bnd (if endptr \<noteq> 0 then st32 endptr s else ret ()) (\<lambda>_.
     if neg then checked (- val) else ret val)))))"

section \<open>Regions of memory\<close>

lemma wp_ld [wp_simps]: "wp (ld a) Q m \<longleftrightarrow> (\<exists>b. m a = Some b \<and> Q b m)"
  by (simp add: wp_def ld_def split: option.splits)

lemma wp_st [wp_simps]: "wp (st a b) Q m \<longleftrightarrow> m a \<noteq> None \<and> Q () (m(a \<mapsto> b))"
  by (simp add: wp_def st_def split: option.splits)

text \<open>
  \<open>bytes_at m a bs\<close>: the bytes \<open>bs\<close> stand from \<open>a\<close> on; \<open>overwrite m a bs\<close>: the memory after writing
  them; \<open>region m a n\<close>: the \<open>n\<close> bytes from \<open>a\<close> on.
\<close>

fun bytes_at :: "jmem \<Rightarrow> vaddr \<Rightarrow> byte list \<Rightarrow> bool" where
  "bytes_at m a [] = True"
| "bytes_at m a (b # bs) = (m a = Some b \<and> bytes_at m (a + 1) bs)"

definition overwrite :: "jmem \<Rightarrow> vaddr \<Rightarrow> byte list \<Rightarrow> jmem" where
  "overwrite m a bs = (\<lambda>x. if unat (x - a) < length bs then Some (bs ! unat (x - a)) else m x)"

fun region :: "jmem \<Rightarrow> vaddr \<Rightarrow> nat \<Rightarrow> byte list" where
  "region m a 0 = []"
| "region m a (Suc n) = the (m a) # region m (a + 1) n"

fun mapped :: "jmem \<Rightarrow> vaddr \<Rightarrow> nat \<Rightarrow> bool" where
  "mapped m a 0 = True"
| "mapped m a (Suc n) = (m a \<noteq> None \<and> mapped m (a + 1) n)"

definition str_at :: "jmem \<Rightarrow> vaddr \<Rightarrow> byte list \<Rightarrow> bool" where
  "str_at m a s \<longleftrightarrow> bytes_at m a (s @ [0]) \<and> 0 \<notin> set s"

lemma str_at_Nil [simp]: "str_at m a [] \<longleftrightarrow> m a = Some 0"
  by (simp add: str_at_def)

lemma str_at_Cons [simp]: "str_at m a (c # s) \<longleftrightarrow> m a = Some c \<and> c \<noteq> 0 \<and> str_at m (a + 1) s"
  by (auto simp: str_at_def)

lemma length_region [simp]: "length (region m a n) = n"
  by (induction n arbitrary: a) auto

lemma overwrite_Nil [simp]: "overwrite m a [] = m"
  by (simp add: overwrite_def)

text \<open>Wrap-around distance from \<open>a\<close>, one byte on.\<close>

lemma unat_diff_Suc: "x \<noteq> a \<Longrightarrow> unat (x - a) = Suc (unat (x - (a + 1 :: vaddr)))"
proof -
  assume "x \<noteq> a"
  then have "x - a \<noteq> 0" by simp
  then have "unat (x - a) = Suc (unat (x - a - 1))" using unat_minus_one [of "x - a"] unat_gt_0 [of "x - a"] by simp
  then show ?thesis by (simp add: diff_diff_eq)
qed

lemma unat_minus_1_max: "unat (x - (x + 1 :: vaddr)) = 2 ^ 32 - 1"
  by (simp add: unsigned_minus_1_eq_mask mask_eq_exp_minus_1)

lemma overwrite_Cons:
  assumes "length bs < 2 ^ 32"
  shows "overwrite m a (b # bs) = overwrite (m(a \<mapsto> b)) (a + 1) bs"
proof
  fix x show "overwrite m a (b # bs) x = overwrite (m(a \<mapsto> b)) (a + 1) bs x"
    using assms unat_minus_1_max [of a] unat_diff_Suc [of x a] by (cases "x = a") (auto simp: overwrite_def)
qed

lemma bytes_at_overwrite: "length bs \<le> 2 ^ 32 \<Longrightarrow> bytes_at (overwrite m a bs) a bs"
proof -
  have gen: "(\<And>i. i < length bs \<Longrightarrow> M (a + of_nat i) = Some (bs ! i)) \<Longrightarrow> bytes_at M a bs" for M a
  proof (induction bs arbitrary: a)
    case (Cons b bs)
    have "M a = Some b" using Cons.prems [of 0] by simp
    moreover have "bytes_at M (a + 1) bs"
      by (rule Cons.IH) (use Cons.prems [of "Suc _"] in \<open>simp add: add.assoc\<close>)
    ultimately show ?case by simp
  qed simp
  assume "length bs \<le> 2 ^ 32"
  then show ?thesis by (intro gen) (simp add: overwrite_def)
qed

lemma overwrite_outside: "\<not> unat (x - a) < length bs \<Longrightarrow> overwrite m a bs x = m x"
  by (simp add: overwrite_def)

lemma mapped_iff: "mapped m a n \<longleftrightarrow> (\<forall>i < n. m (a + of_nat i) \<noteq> None)"
proof (induction n arbitrary: a)
  case (Suc n)
  have "(\<forall>i < Suc n. m (a + of_nat i) \<noteq> None) \<longleftrightarrow> m a \<noteq> None \<and> (\<forall>i < n. m (a + 1 + of_nat i) \<noteq> None)"
    unfolding All_less_Suc2 by (simp add: add.assoc)
  then show ?case by (simp add: Suc.IH)
qed simp

lemma mapped_upd: "mapped m a n \<Longrightarrow> mapped (m(x \<mapsto> b)) a n"
  by (simp add: mapped_iff)

lemma mapped_mono: "mapped m a n \<Longrightarrow> k \<le> n \<Longrightarrow> mapped m a k"
  by (simp add: mapped_iff)

lemma bytes_at_mapped: "bytes_at m a bs \<Longrightarrow> mapped m a (length bs)"
  by (induction bs arbitrary: a) auto

lemma bytes_at_iff: "bytes_at m a bs \<longleftrightarrow> (\<forall>i < length bs. m (a + of_nat i) = Some (bs ! i))"
proof (induction bs arbitrary: a)
  case (Cons b bs)
  have "(\<forall>i < Suc (length bs). m (a + of_nat i) = Some ((b # bs) ! i)) \<longleftrightarrow>
      m a = Some b \<and> (\<forall>i < length bs. m (a + 1 + of_nat i) = Some (bs ! i))"
    unfolding All_less_Suc2 by (simp add: add.assoc)
  then show ?case by (simp add: Cons.IH)
qed simp

lemma bytes_at_append: "bytes_at m a (xs @ ys) \<longleftrightarrow> bytes_at m a xs \<and> bytes_at m (a + of_nat (length xs)) ys"
  by (induction xs arbitrary: a) (auto simp: add.assoc)

lemma bytes_at_region: "mapped m a n \<Longrightarrow> bytes_at m a (region m a n)"
  by (induction n arbitrary: a) auto

lemma region_eqI: "bytes_at m a bs \<Longrightarrow> region m a (length bs) = bs"
  by (induction bs arbitrary: a) auto

section \<open>Reading strings\<close>

lemma strlen_loop_spec: "str_at m a s \<Longrightarrow> length s < k \<Longrightarrow> strlen_loop k a n m = Inr (n + of_nat (length s), m)"
proof (induction s arbitrary: k a n)
  case (Cons c s)
  then obtain k' where "k = Suc k'" by (cases k) auto
  then show ?case using Cons by (simp add: bnd_def ld_def algebra_simps)
qed (case_tac k; simp add: bnd_def ld_def ret_run)+

lemma strlen_spec: "str_at m a s \<Longrightarrow> length s < k \<Longrightarrow> strlen k a m = Inr (of_nat (length s), m)"
  by (simp add: strlen_def strlen_loop_spec)

lemma strnlen_loop_spec: "bytes_at m a s \<Longrightarrow> 0 \<notin> set s \<Longrightarrow> length s = k \<or> length s < k \<and> m (a + of_nat (length s)) = Some 0 \<Longrightarrow>
    strnlen_loop k a n m = Inr (n + of_nat (length s), m)"
proof (induction s arbitrary: k a n)
  case Nil
  then show ?case by (cases k) (auto simp: bnd_def ld_def ret_run)
next
  case (Cons c s)
  then obtain k' where k: "k = Suc k'" by (cases k) auto
  have "strnlen_loop k' (a + 1) (n + 1) m = Inr (n + 1 + of_nat (length s), m)"
    by (rule Cons.IH) (use Cons.prems k in \<open>auto simp: add.assoc\<close>)
  then show ?case using Cons.prems k by (simp add: bnd_def ld_def algebra_simps)
qed

lemma uint_pos: "0 < uint (d :: byte) \<longleftrightarrow> d \<noteq> 0"
  by (metis uint_0_eq word_gt_0 word_less_def)

lemma strcmp_spec:
  "str_at m p s \<Longrightarrow> str_at m q t \<Longrightarrow> length s < k \<Longrightarrow>
    \<exists>r. strcmp k p q m = Inr (r, m) \<and> (r = 0 \<longleftrightarrow> s = t) \<and> (r < 0 \<longleftrightarrow> (s, t) \<in> lexord {(a, b). a < b})"
proof (induction s arbitrary: t k p q)
  case Nil
  then obtain k' where "k = Suc k'" by (cases k) auto
  then show ?case using Nil by (cases t) (auto simp: bnd_def ld_def ret_run uint_pos uint_0_iff)
next
  case (Cons c s)
  then obtain k' where k: "k = Suc k'" by (cases k) auto
  show ?case
  proof (cases t)
    case Nil
    then show ?thesis using Cons.prems k by (auto simp: bnd_def ld_def ret_run uint_0_iff)
  next
    case t: (Cons d t')
    show ?thesis
    proof (cases "c = d")
      case True
      then show ?thesis using Cons.IH [of "p + 1" "q + 1" t' k'] Cons.prems k t by (auto simp: bnd_def ld_def)
    next
      case False
      then have "uint c \<noteq> uint d" by (metis word_uint_eq_iff)
      then show ?thesis using Cons.prems k t False by (auto simp: bnd_def ld_def ret_run word_less_def)
    qed
  qed
qed

lemma strchr_spec: "str_at m a s \<Longrightarrow> length s < k \<Longrightarrow> c \<noteq> 0 \<Longrightarrow>
   strchr k a c m = Inr (if c \<in> set s then a + of_nat (length (takeWhile (\<lambda>b. b \<noteq> c) s)) else 0, m)"
proof (induction s arbitrary: k a)
  case Nil
  then show ?case by (cases k) (auto simp: bnd_def ld_def ret_run)
next
  case (Cons b s)
  then obtain k' where "k = Suc k'" by (cases k) auto
  then show ?case using Cons by (auto simp: bnd_def ld_def ret_run algebra_simps)
qed

lemma strfind_spec: "str_at m a s \<Longrightarrow> length s < k \<Longrightarrow>
   strfind k a c m = Inr (a + of_nat (length (takeWhile (\<lambda>b. b \<noteq> c) s)), m)"
proof (induction s arbitrary: k a)
  case Nil
  then show ?case by (cases k) (auto simp: bnd_def ld_def ret_run)
next
  case (Cons b s)
  then obtain k' where "k = Suc k'" by (cases k) auto
  then show ?case using Cons by (auto simp: bnd_def ld_def ret_run algebra_simps)
qed

section \<open>Copying\<close>

text \<open>A byte-wise copy upwards is right when no byte is overwritten before it is read.\<close>

definition up_safe :: "vaddr \<Rightarrow> vaddr \<Rightarrow> nat \<Rightarrow> bool" where
  "up_safe d s n \<longleftrightarrow> (\<forall>i < n. \<forall>j < i. d + of_nat j \<noteq> s + of_nat i)"

lemma up_safe_Suc: "up_safe d s (Suc n) \<Longrightarrow> up_safe (d + 1) (s + 1) n \<and> (\<forall>i < n. d \<noteq> s + 1 + of_nat i)"
proof -
  assume safe: "up_safe d s (Suc n)"
  have "d + 1 + of_nat j \<noteq> s + 1 + of_nat i" if "i < n" "j < i" for i j
    using safe [unfolded up_safe_def, rule_format, of "Suc i" "Suc j"] that by (simp add: algebra_simps)
  moreover have "d \<noteq> s + 1 + of_nat i" if "i < n" for i
    using safe [unfolded up_safe_def, rule_format, of "Suc i" 0] that by (simp add: algebra_simps)
  ultimately show ?thesis by (simp add: up_safe_def)
qed

lemma region_upd: "(\<forall>i < n. x \<noteq> a + of_nat i) \<Longrightarrow> region (m(x \<mapsto> b)) a n = region m a n"
proof (induction n arbitrary: a)
  case (Suc n)
  then have "x \<noteq> a" "\<forall>i < n. x \<noteq> a + 1 + of_nat i" by (auto simp: All_less_Suc2 add.assoc)
  then show ?case using Suc.IH by simp
qed simp

lemma rep_movsb_up: "n \<le> 2 ^ 32 \<Longrightarrow> mapped m s n \<Longrightarrow> mapped m d n \<Longrightarrow> up_safe d s n \<Longrightarrow>
   rep_movsb n 1 d s m = Inr ((), overwrite m d (region m s n))"
proof (induction n arbitrary: d s m)
  case (Suc n)
  obtain b where b: "m s = Some b" "mapped m (s + 1) n" using Suc.prems by auto
  have safe: "up_safe (d + 1) (s + 1) n" "\<forall>i < n. d \<noteq> s + 1 + of_nat i" using up_safe_Suc Suc.prems by auto
  define m' where "m' = m(d \<mapsto> b)"
  have mapped': "mapped m' (s + 1) n" "mapped m' (d + 1) n"
    unfolding m'_def by (rule mapped_upd, use Suc.prems in simp)+
  have "rep_movsb n 1 (d + 1) (s + 1) m' = Inr ((), overwrite m' (d + 1) (region m' (s + 1) n))"
    by (rule Suc.IH) (use Suc.prems b safe mapped' in simp_all)
  moreover have "overwrite m d (region m s (Suc n)) = overwrite m' (d + 1) (region m (s + 1) n)"
    using Suc.prems b by (simp add: overwrite_Cons m'_def)
  moreover have "region m' (s + 1) n = region m (s + 1) n"
    using safe by (simp add: region_upd m'_def)
  ultimately show ?case using Suc.prems b by (auto simp: bnd_def ld_def st_def m'_def)
qed (simp add: ret_run)

text \<open>The portable loops are the byte-wise instructions.\<close>

lemma memmove_c_up_eq: "memmove_c_up n d s = rep_movsb n 1 d s"
  by (induction n arbitrary: d s) simp_all

lemma memmove_c_down_eq: "memmove_c_down n d s = rep_movsb n (- 1) (d - 1) (s - 1)"
  by (induction n arbitrary: d s) simp_all

lemma memset_c_loop_eq: "memset_c_loop n p c = rep_stosb n p c"
  by (induction n arbitrary: p) simp_all

text \<open>Downwards, the last byte first.\<close>

definition down_safe :: "vaddr \<Rightarrow> vaddr \<Rightarrow> nat \<Rightarrow> bool" where
  "down_safe d s n \<longleftrightarrow> (\<forall>j < n. \<forall>i < j. d + of_nat j \<noteq> s + of_nat i)"

lemma region_snoc: "region m a (Suc n) = region m a n @ [the (m (a + of_nat n))]"
proof (induction n arbitrary: a)
  case (Suc n)
  have "region m a (Suc (Suc n)) = the (m a) # region m (a + 1) (Suc n)" by simp
  also have "\<dots> = the (m a) # region m (a + 1) n @ [the (m (a + 1 + of_nat n))]" by (simp only: Suc.IH)
  finally show ?case by (simp add: add.assoc)
qed simp

lemma offset_eq: "unat (x - a) = n \<Longrightarrow> x = a + (of_nat n :: vaddr)"
  by (metis add.commute diff_add_cancel of_nat_unat ucast_id)

lemma overwrite_upd_after:
  assumes "length bs < 2 ^ 32"
  shows "overwrite (m(a + of_nat (length bs) \<mapsto> b)) a bs = overwrite m a (bs @ [b])"
proof
  fix x
  consider "unat (x - a) < length bs" | "x = a + of_nat (length bs)" | "length bs < unat (x - a)"
    using offset_eq [of x a "length bs"] by linarith
  then show "overwrite (m(a + of_nat (length bs) \<mapsto> b)) a bs x = overwrite m a (bs @ [b]) x"
    using assms by cases (auto simp: overwrite_def nth_append)
qed

lemma mapped_snoc: "mapped m a (Suc n) \<longleftrightarrow> mapped m a n \<and> m (a + of_nat n) \<noteq> None"
  by (auto simp: mapped_iff less_Suc_eq)

lemma rep_movsb_down: "n \<le> 2 ^ 32 \<Longrightarrow> mapped m s n \<Longrightarrow> mapped m d n \<Longrightarrow> down_safe d s n \<Longrightarrow>
   rep_movsb n (- 1) (d + of_nat n - 1) (s + of_nat n - 1) m = Inr ((), overwrite m d (region m s n))"
proof (induction n arbitrary: m)
  case (Suc n)
  obtain b where b: "m (s + of_nat n) = Some b" "mapped m s n" using Suc.prems(2) unfolding mapped_snoc by auto
  have d: "m (d + of_nat n) \<noteq> None" "mapped m d n" using Suc.prems(3) unfolding mapped_snoc by auto
  define m' where "m' = m(d + of_nat n \<mapsto> b)"
  have mapped': "mapped m' s n" "mapped m' d n"
    unfolding m'_def by (rule mapped_upd, use b d in simp)+
  have same: "region m' s n = region m s n"
    unfolding m'_def by (rule region_upd) (use Suc.prems(4) in \<open>auto simp: down_safe_def\<close>)
  have "rep_movsb n (- 1) (d + of_nat n - 1) (s + of_nat n - 1) m' = Inr ((), overwrite m' d (region m' s n))"
    by (rule Suc.IH) (use Suc.prems mapped' in \<open>simp_all add: down_safe_def\<close>)
  moreover have "overwrite m' d (region m s n) = overwrite m d (region m s (Suc n))"
    unfolding m'_def region_snoc using overwrite_upd_after [of "region m s n" m d b] Suc.prems(1) b by simp
  ultimately show ?case using b d same by (auto simp: bnd_def ld_def st_def m'_def algebra_simps)
qed (simp add: ret_run)

section \<open>Four bytes at a time\<close>

lemma unat_offset_diff:
  assumes "k < 2 ^ 32"
  shows "unat (x - (a + of_nat k :: vaddr)) =
    (if k \<le> unat (x - a) then unat (x - a) - k else 2 ^ 32 + unat (x - a) - k)"
proof -
  define w where "w = x - a"
  have k: "unat (of_nat k :: vaddr) = k" using assms by simp
  have "x - (a + of_nat k) = w - of_nat k" by (simp add: w_def)
  moreover have "unat (w - of_nat k) = (if k \<le> unat w then unat w - k else 2 ^ 32 + unat w - k)"
    using unat_sub_if' [of w "of_nat k"] unfolding k by (cases "k \<le> unat w") simp_all
  ultimately show ?thesis by (simp only: w_def)
qed

lemma overwrite_append:
  assumes "length xs + length ys < 2 ^ 32"
  shows "overwrite m a (xs @ ys) = overwrite (overwrite m a xs) (a + of_nat (length xs)) ys"
    and "overwrite m a (xs @ ys) = overwrite (overwrite m (a + of_nat (length xs)) ys) a xs"
proof -
  have k: "length xs < 2 ^ 32" using assms by simp
  note off = unat_offset_diff [OF k]
  show "overwrite m a (xs @ ys) = overwrite (overwrite m a xs) (a + of_nat (length xs)) ys"
    by (rule ext) (use assms in \<open>auto simp: overwrite_def off nth_append\<close>)
  show "overwrite m a (xs @ ys) = overwrite (overwrite m (a + of_nat (length xs)) ys) a xs"
    by (rule ext) (use assms in \<open>auto simp: overwrite_def off nth_append\<close>)
qed

lemma region_append: "region m a (k + n) = region m a k @ region m (a + of_nat k) n"
  by (induction k arbitrary: a) (simp_all add: add.assoc)

lemma mapped_append: "mapped m a (k + n) \<longleftrightarrow> mapped m a k \<and> mapped m (a + of_nat k) n"
  by (induction k arbitrary: a) (simp_all add: add.assoc)

lemma mapped_overwrite: "mapped m a n \<Longrightarrow> mapped (overwrite m d bs) a n"
  by (simp add: mapped_iff overwrite_def)

lemma region_overwrite:
  assumes "\<And>i j. i < n \<Longrightarrow> j < length bs \<Longrightarrow> d + of_nat j \<noteq> a + of_nat i"
  shows "region (overwrite m d bs) a n = region m a n"
proof -
  have "overwrite m d bs (a + of_nat i) = m (a + of_nat i)" if "i < n" for i
    using assms [OF that, of "unat (a + of_nat i - d)"] offset_eq [of "a + of_nat i" d]
    by (metis overwrite_outside)
  then show ?thesis
  proof (induction n arbitrary: a)
    case (Suc n)
    have "overwrite m d bs a = m a" using Suc.prems [of 0] by simp
    moreover have "region (overwrite m d bs) (a + 1) n = region m (a + 1) n"
      by (rule Suc.IH) (use Suc.prems [of "Suc _"] in \<open>simp add: add.assoc\<close>)
    ultimately show ?case by simp
  qed simp
qed

lemma four_bytes_of_word:
  fixes b0 b1 b2 b3 :: byte
  defines "w \<equiv> ucast b0 OR push_bit 8 (ucast b1) OR push_bit 16 (ucast b2) OR push_bit 24 (ucast b3) :: 32 word"
  shows "ucast w = b0" "ucast (drop_bit 8 w) = b1" "ucast (drop_bit 16 w) = b2" "ucast (drop_bit 24 w) = b3"
  unfolding w_def by (rule bit_word_eqI; auto simp: bit_simps dest: bit_imp_le_length)+

lemma region_4: "region m a 4 = [the (m a), the (m (a + 1)), the (m (a + 2)), the (m (a + 3))]"
  by (simp add: numeral_eq_Suc add.commute)

lemma mapped_4: "mapped m a 4 \<longleftrightarrow> m a \<noteq> None \<and> m (a + 1) \<noteq> None \<and> m (a + 2) \<noteq> None \<and> m (a + 3) \<noteq> None"
  by (simp add: numeral_eq_Suc add.commute)

lemma overwrite_4: "overwrite m a [b0, b1, b2, b3] = m(a \<mapsto> b0, a + 1 \<mapsto> b1, a + 2 \<mapsto> b2, a + 3 \<mapsto> b3)"
  by (simp add: overwrite_Cons add.commute)

lemma st32_spec: "mapped m d 4 \<Longrightarrow>
   st32 d w m = Inr ((), overwrite m d [ucast w, ucast (drop_bit 8 w), ucast (drop_bit 16 w), ucast (drop_bit 24 w)])"
  by (auto simp: mapped_4 st32_def bnd_def st_def overwrite_4)

lemma ld32_spec: "mapped m s 4 \<Longrightarrow> \<exists>w. ld32 s m = Inr (w, m) \<and>
    [ucast w, ucast (drop_bit 8 w), ucast (drop_bit 16 w), ucast (drop_bit 24 w)] = region m s 4"
proof -
  assume "mapped m s 4"
  then obtain b0 b1 b2 b3 where b: "m s = Some b0" "m (s + 1) = Some b1" "m (s + 2) = Some b2" "m (s + 3) = Some b3"
    by (auto simp: mapped_4)
  define w :: "32 word" where
    "w = ucast b0 OR push_bit 8 (ucast b1) OR push_bit 16 (ucast b2) OR push_bit 24 (ucast b3)"
  have "ld32 s m = Inr (w, m)" using b by (simp add: ld32_def bnd_def ld_def ret_run w_def)
  moreover have "region m s 4 = [b0, b1, b2, b3]" using b by (simp add: region_4)
  ultimately show ?thesis unfolding w_def using four_bytes_of_word [of b0 b1 b2 b3] by metis
qed

lemma movsl_step: "mapped m s 4 \<Longrightarrow> mapped m d 4 \<Longrightarrow>
   bnd (ld32 s) (\<lambda>w. bnd (st32 d w) f) m = f () (overwrite m d (region m s 4))"
  using ld32_spec [of m s] by (auto simp: bnd_def st32_spec)

lemma rep_movsl_up: "4 * n < 2 ^ 32 \<Longrightarrow> mapped m s (4 * n) \<Longrightarrow> mapped m d (4 * n) \<Longrightarrow> up_safe d s (4 * n) \<Longrightarrow>
   rep_movsl n 4 d s m = Inr ((), overwrite m d (region m s (4 * n)))"
proof (induction n arbitrary: d s m)
  case (Suc n)
  define m' where "m' = overwrite m d (region m s 4)"
  have split: "mapped m s 4" "mapped m (s + 4) (4 * n)" "mapped m d 4" "mapped m (d + 4) (4 * n)"
    using Suc.prems(2,3) mapped_append [of m s 4 "4 * n"] mapped_append [of m d 4 "4 * n"] by simp_all
  have safe: "d + of_nat j \<noteq> s + of_nat i" if "j < i" "i < 4 + 4 * n" for i j
    using Suc.prems(4) that by (auto simp: up_safe_def)
  have same: "region m' (s + 4) (4 * n) = region m (s + 4) (4 * n)"
    unfolding m'_def by (rule region_overwrite) (use safe [of _ "4 + _"] in \<open>simp add: add.assoc\<close>)
  have up: "up_safe (d + 4) (s + 4) (4 * n)"
    unfolding up_safe_def using safe [of "4 + _" "4 + _"] by (simp add: add.assoc)
  have "rep_movsl n 4 (d + 4) (s + 4) m' = Inr ((), overwrite m' (d + 4) (region m' (s + 4) (4 * n)))"
    by (rule Suc.IH) (use Suc.prems(1) split up in \<open>simp_all add: m'_def mapped_overwrite\<close>)
  also have "overwrite m' (d + 4) (region m' (s + 4) (4 * n)) = overwrite m d (region m s (4 + 4 * n))"
    using Suc.prems(1) overwrite_append(1) [of "region m s 4" "region m (s + 4) (4 * n)" m d]
    by (simp only: same) (simp add: m'_def region_append)
  finally show ?case using split by (simp add: movsl_step m'_def)
qed (simp add: ret_run)

lemma rep_movsl_down: "4 * n < 2 ^ 32 \<Longrightarrow> mapped m s (4 * n) \<Longrightarrow> mapped m d (4 * n) \<Longrightarrow> down_safe d s (4 * n) \<Longrightarrow>
   rep_movsl n (- 4) (d + of_nat (4 * n) - 4) (s + of_nat (4 * n) - 4) m = Inr ((), overwrite m d (region m s (4 * n)))"
proof (induction n arbitrary: m)
  case (Suc n)
  define s' d' where "s' = s + of_nat (4 * n)" and "d' = d + of_nat (4 * n)"
  define m' where "m' = overwrite m d' (region m s' 4)"
  have split: "mapped m s (4 * n)" "mapped m s' 4" "mapped m d (4 * n)" "mapped m d' 4"
    using Suc.prems(2,3) mapped_append [of m s "4 * n" 4] mapped_append [of m d "4 * n" 4]
    by (simp_all add: s'_def d'_def add.commute)
  have safe: "d + of_nat j \<noteq> s + of_nat i" if "i < j" "j < 4 * n + 4" for i j
    using Suc.prems(4) that by (auto simp: down_safe_def)
  have same: "region m' s (4 * n) = region m s (4 * n)"
    unfolding m'_def d'_def
    by (rule region_overwrite) (use safe [of _ "4 * n + _"] in \<open>simp add: add.assoc\<close>)
  have down: "down_safe d s (4 * n)" using Suc.prems(4) by (auto simp: down_safe_def)
  have "rep_movsl n (- 4) (d + of_nat (4 * n) - 4) (s + of_nat (4 * n) - 4) m' =
      Inr ((), overwrite m' d (region m' s (4 * n)))"
    by (rule Suc.IH) (use Suc.prems(1) split down in \<open>simp_all add: m'_def mapped_overwrite\<close>)
  also have "overwrite m' d (region m' s (4 * n)) = overwrite m d (region m s (4 * n + 4))"
    using Suc.prems(1) overwrite_append(2) [of "region m s (4 * n)" "region m s' 4" m d]
    by (simp only: same) (simp add: m'_def region_append [of m s "4 * n"] s'_def d'_def)
  finally have rest: "rep_movsl n (- 4) (d' - 4) (s' - 4) m' = Inr ((), overwrite m d (region m s (4 * n + 4)))"
    by (simp only: s'_def d'_def)
  have "rep_movsl (Suc n) (- 4) d' s' m = rep_movsl n (- 4) (d' - 4) (s' - 4) m'"
    using split by (simp add: movsl_step m'_def)
  moreover have "d + of_nat (4 * Suc n) - 4 = d'" "s + of_nat (4 * Suc n) - 4 = s'"
    by (simp_all add: s'_def d'_def)
  ultimately show ?case using rest by (simp add: add.commute)
qed (simp add: ret_run)

lemma rep_stosb_spec: "n < 2 ^ 32 \<Longrightarrow> mapped m d n \<Longrightarrow> rep_stosb n d b m = Inr ((), overwrite m d (replicate n b))"
proof (induction n arbitrary: d m)
  case (Suc n)
  have "rep_stosb n (d + 1) b (m(d \<mapsto> b)) = Inr ((), overwrite (m(d \<mapsto> b)) (d + 1) (replicate n b))"
    by (rule Suc.IH, use Suc.prems in simp, rule mapped_upd, use Suc.prems in simp)
  then show ?case using Suc.prems by (auto simp: bnd_def st_def overwrite_Cons)
qed (simp add: ret_run)

lemma rep_stosl_spec:
  assumes w: "[ucast w, ucast (drop_bit 8 w), ucast (drop_bit 16 w), ucast (drop_bit 24 w)] = replicate 4 b"
  shows "4 * n < 2 ^ 32 \<Longrightarrow> mapped m d (4 * n) \<Longrightarrow> rep_stosl n d w m = Inr ((), overwrite m d (replicate (4 * n) b))"
proof (induction n arbitrary: d m)
  case (Suc n)
  define m' where "m' = overwrite m d (replicate 4 b)"
  have split: "mapped m d 4" "mapped m (d + 4) (4 * n)"
    using Suc.prems(2) mapped_append [of m d 4 "4 * n"] by simp_all
  have "rep_stosl n (d + 4) w m' = Inr ((), overwrite m' (d + 4) (replicate (4 * n) b))"
    by (rule Suc.IH) (use Suc.prems(1) split in \<open>simp_all add: m'_def mapped_overwrite\<close>)
  also have "overwrite m' (d + 4) (replicate (4 * n) b) = overwrite m d (replicate (4 + 4 * n) b)"
    using Suc.prems(1) overwrite_append(1) [of "replicate 4 b" "replicate (4 * n) b" m d]
    by (simp add: m'_def replicate_add)
  finally show ?case using split w by (simp add: bnd_def st32_spec m'_def)
qed (simp add: ret_run)

lemma fill_word:
  fixes c :: "32 word"
  defines "c' \<equiv> c AND 0xFF"
  defines "w \<equiv> push_bit 24 c' OR push_bit 16 c' OR push_bit 8 c' OR c'"
  shows "[ucast w, ucast (drop_bit 8 w), ucast (drop_bit 16 w), ucast (drop_bit 24 w)] = replicate 4 (ucast c :: byte)"
proof -
  have low: "(0xFF :: 32 word) = mask 8" by (simp add: mask_eq_exp_minus_1)
  have "ucast w = (ucast c :: byte)" "ucast (drop_bit 8 w) = (ucast c :: byte)"
    "ucast (drop_bit 16 w) = (ucast c :: byte)" "ucast (drop_bit 24 w) = (ucast c :: byte)"
    unfolding w_def c'_def low by (rule bit_word_eqI; auto simp: bit_simps)+
  then show ?thesis by (simp add: numeral_eq_Suc)
qed

lemma words_of_bytes: "n mod 4 = 0 \<Longrightarrow> 4 * unat (n div 4 :: 32 word) = unat n"
proof -
  assume "n mod 4 = 0"
  then have "unat n mod 4 = 0" using unat_mod [of n 4] by simp
  then show ?thesis by (simp add: unat_div) presburger
qed

section \<open>Writing strings\<close>

lemma overwrite_same: "bytes_at m a bs \<Longrightarrow> overwrite m a bs = m"
proof
  fix x assume at: "bytes_at m a bs"
  show "overwrite m a bs x = m x"
    using at [unfolded bytes_at_iff, rule_format, of "unat (x - a)"] offset_eq [of x a, OF refl]
    by (auto simp: overwrite_def)
qed

text \<open>\<open>apart d k s l\<close>: the \<open>k\<close> bytes from \<open>d\<close> on and the \<open>l\<close> bytes from \<open>s\<close> on do not overlap.\<close>

definition apart :: "vaddr \<Rightarrow> nat \<Rightarrow> vaddr \<Rightarrow> nat \<Rightarrow> bool" where
  "apart d k s l \<longleftrightarrow> (\<forall>j < k. \<forall>i < l. d + of_nat j \<noteq> s + of_nat i)"

lemma apart_Suc_left: "apart d (Suc k) s l \<Longrightarrow> apart (d + 1) k s l \<and> (\<forall>i < l. d \<noteq> s + of_nat i)"
  unfolding apart_def All_less_Suc2 by (simp add: add.assoc)

lemma apart_Suc_right: "apart d k s (Suc l) \<Longrightarrow> apart d k (s + 1) l"
  unfolding apart_def All_less_Suc2 by (simp add: add.assoc)

lemma bytes_at_upd: "\<forall>i < length bs. x \<noteq> a + of_nat i \<Longrightarrow> bytes_at (m(x \<mapsto> b)) a bs = bytes_at m a bs"
  by (auto simp: bytes_at_iff)

lemma str_at_upd: "\<forall>i < Suc (length s). x \<noteq> a + of_nat i \<Longrightarrow> str_at (m(x \<mapsto> b)) a s = str_at m a s"
  by (simp add: str_at_def bytes_at_upd)

lemma strcpy_loop_spec:
  "str_at m src s \<Longrightarrow> length s < k \<Longrightarrow> Suc (length s) < 2 ^ 32 \<Longrightarrow> mapped m dst (Suc (length s)) \<Longrightarrow>
   apart dst (Suc (length s)) src (Suc (length s)) \<Longrightarrow> strcpy_loop k dst src m = Inr ((), overwrite m dst (s @ [0]))"
proof (induction s arbitrary: k dst src m)
  case Nil
  then show ?case by (cases k) (auto simp: bnd_def ld_def st_def ret_run overwrite_Cons fun_upd_def)
next
  case (Cons c s)
  then obtain k' where k: "k = Suc k'" by (cases k) auto
  define m' where "m' = m(dst \<mapsto> c)"
  have ap: "apart (dst + 1) (Suc (length s)) (src + 1) (Suc (length s))" "\<forall>i < Suc (length s). dst \<noteq> src + 1 + of_nat i"
    using Cons.prems(5) apart_Suc_left apart_Suc_right by (simp_all, blast+)
  have str: "str_at m' (src + 1) s" using Cons.prems(1) str_at_upd [OF ap(2)] by (simp add: m'_def)
  have mp: "mapped m' (dst + 1) (Suc (length s))"
    unfolding m'_def by (rule mapped_upd) (use Cons.prems(4) in simp)
  have "strcpy_loop k' (dst + 1) (src + 1) m' = Inr ((), overwrite m' (dst + 1) (s @ [0]))"
    by (rule Cons.IH [OF str _ _ mp ap(1)]) (use Cons.prems k in simp_all)
  then show ?case using Cons.prems k by (auto simp: bnd_def ld_def st_def m'_def overwrite_Cons)
qed

lemma strncpy_loop_spec:
  "str_at m src s \<Longrightarrow> n < 2 ^ 32 \<Longrightarrow> mapped m dst n \<Longrightarrow> apart dst n src (Suc (length s)) \<Longrightarrow>
   strncpy_loop n dst src m = Inr ((), overwrite m dst (take n (s @ replicate n 0)))"
proof (induction n arbitrary: dst src s m)
  case (Suc n)
  have ap: "apart (dst + 1) n src (Suc (length s))" "\<forall>i < Suc (length s). dst \<noteq> src + of_nat i"
    using apart_Suc_left [OF Suc.prems(4)] by auto
  have self: "dst \<noteq> src" using ap(2) [rule_format, of 0] by simp
  have mp: "mapped (m(dst \<mapsto> c)) (dst + 1) n" for c by (rule mapped_upd) (use Suc.prems(3) in simp)
  show ?case
  proof (cases s)
    case Nil
    have "strncpy_loop n (dst + 1) src (m(dst \<mapsto> 0)) = Inr ((), overwrite (m(dst \<mapsto> 0)) (dst + 1) (take n ([] @ replicate n 0)))"
      by (rule Suc.IH [OF _ _ mp]) (use Suc.prems ap Nil self in auto)
    then show ?thesis using Suc.prems Nil self by (auto simp: bnd_def ld_def st_def overwrite_Cons)
  next
    case (Cons c t)
    have str: "str_at (m(dst \<mapsto> c)) (src + 1) t"
    proof -
      have "\<forall>i < Suc (length t). dst \<noteq> src + 1 + of_nat i"
        using ap(2) [rule_format, of "Suc _"] Cons by (simp add: add.assoc)
      then show ?thesis using Suc.prems(1) Cons by (simp add: str_at_upd)
    qed
    have "strncpy_loop n (dst + 1) (src + 1) (m(dst \<mapsto> c)) =
        Inr ((), overwrite (m(dst \<mapsto> c)) (dst + 1) (take n (t @ replicate n 0)))"
      by (rule Suc.IH [OF str _ mp]) (use Suc.prems ap(1) Cons apart_Suc_right in \<open>simp_all\<close>)
    then show ?thesis using Suc.prems Cons self
      by (auto simp: bnd_def ld_def st_def overwrite_Cons take_replicate min_def replicate_append_same [symmetric])
  qed
qed (simp add: ret_run)

lemma strlcpy_loop_spec:
  "str_at m src s \<Longrightarrow> n < 2 ^ 32 \<Longrightarrow> mapped m dst n \<Longrightarrow> apart dst n src (Suc (length s)) \<Longrightarrow>
   strlcpy_loop n dst src m = Inr (dst + of_nat (length (take n s)), overwrite m dst (take n s))"
proof (induction n arbitrary: dst src s m)
  case (Suc n)
  have ap: "apart (dst + 1) n src (Suc (length s))" "\<forall>i < Suc (length s). dst \<noteq> src + of_nat i"
    using apart_Suc_left [OF Suc.prems(4)] by auto
  show ?case
  proof (cases s)
    case Nil
    then show ?thesis using Suc.prems by (auto simp: bnd_def ld_def ret_run)
  next
    case (Cons c t)
    have mp: "mapped (m(dst \<mapsto> c)) (dst + 1) n" by (rule mapped_upd) (use Suc.prems(3) in simp)
    have "\<forall>i < Suc (length t). dst \<noteq> src + 1 + of_nat i"
      using ap(2) [rule_format, of "Suc _"] Cons by (simp add: add.assoc)
    then have str: "str_at (m(dst \<mapsto> c)) (src + 1) t" using Suc.prems(1) Cons by (simp add: str_at_upd)
    have "strlcpy_loop n (dst + 1) (src + 1) (m(dst \<mapsto> c)) =
        Inr (dst + 1 + of_nat (length (take n t)), overwrite (m(dst \<mapsto> c)) (dst + 1) (take n t))"
      by (rule Suc.IH [OF str _ mp]) (use Suc.prems ap(1) Cons apart_Suc_right in \<open>simp_all\<close>)
    then show ?thesis using Suc.prems Cons
      by (auto simp: bnd_def ld_def st_def overwrite_Cons add.assoc)
  qed
qed (simp add: ret_run)

section \<open>Numbers\<close>

text \<open>The value of a digit string, most significant digit first.\<close>

definition digits_value :: "int \<Rightarrow> int \<Rightarrow> byte list \<Rightarrow> int" where
  "digits_value base val ds = foldl (\<lambda>v c. v * base + the (strtol_dig c)) val ds"

definition is_digit :: "int \<Rightarrow> byte \<Rightarrow> bool" where
  "is_digit base c \<longleftrightarrow> (case strtol_dig c of None \<Rightarrow> False | Some dig \<Rightarrow> dig < base)"

lemma strtol_dig_nonneg: "strtol_dig c = Some dig \<Longrightarrow> 0 \<le> dig"
  by (auto simp: strtol_dig_def word_le_def split: if_splits)

lemma digits_value_ge: "0 < base \<Longrightarrow> 0 \<le> val \<Longrightarrow> \<forall>c \<in> set ds. is_digit base c \<Longrightarrow> val \<le> digits_value base val ds"
proof (induction ds arbitrary: val)
  case (Cons c ds)
  then obtain dig where dig: "strtol_dig c = Some dig" "0 \<le> dig"
    by (auto simp: is_digit_def strtol_dig_nonneg split: option.splits)
  have "val * 1 \<le> val * base" using Cons.prems by (intro mult_left_mono) auto
  then have step: "val \<le> val * base + dig" using dig by simp
  also have "\<dots> \<le> digits_value base (val * base + dig) ds"
    using Cons.prems dig step by (intro Cons.IH) auto
  finally show ?case using dig by (simp add: digits_value_def)
qed (simp add: digits_value_def)

lemma strtol_digits_spec:
  assumes base: "0 < base"
  shows "bytes_at m a (ds @ [e]) \<Longrightarrow> \<forall>c \<in> set ds. is_digit base c \<Longrightarrow> \<not> is_digit base e \<Longrightarrow> length ds < k \<Longrightarrow>
    0 \<le> val \<Longrightarrow> digits_value base val ds < 2 ^ 31 \<Longrightarrow>
    strtol_digits k a base val m = Inr ((digits_value base val ds, a + of_nat (length ds)), m)"
proof (induction ds arbitrary: a k val)
  case Nil
  then show ?case
    by (cases k) (auto simp: bnd_def ld_def ret_run is_digit_def digits_value_def split: option.splits)
next
  case (Cons c ds)
  then obtain k' where k: "k = Suc k'" by (cases k) auto
  obtain dig where dig: "strtol_dig c = Some dig" "dig < base" "0 \<le> dig"
    using Cons.prems(2) by (auto simp: is_digit_def strtol_dig_nonneg split: option.splits)
  define v where "v = val * base + dig"
  have pos: "0 \<le> val * base" using Cons.prems(5) base by simp
  have val_eq: "digits_value base val (c # ds) = digits_value base v ds" using dig by (simp add: digits_value_def v_def)
  have "v \<le> digits_value base v ds"
    using Cons.prems(2) base pos dig by (intro digits_value_ge) (auto simp: v_def)
  then have v: "0 \<le> v" "v < 2 ^ 31" using Cons.prems(6) val_eq pos dig by (auto simp: v_def)
  have "strtol_digits k' (a + 1) base v m = Inr ((digits_value base v ds, a + 1 + of_nat (length ds)), m)"
    by (rule Cons.IH) (use Cons.prems k v val_eq in auto)
  moreover have "checked (val * base) m = Inr (val * base, m)" "checked v m = Inr (v, m)"
    using v pos dig by (simp_all add: checked_def long_range_def ret_run v_def)
  ultimately show ?case
    using Cons.prems(1) k dig val_eq by (simp add: bnd_def ld_def v_def [symmetric] add.assoc)
qed

lemma skip_blanks_spec: "bytes_at m a (ws @ [c]) \<Longrightarrow> set ws \<subseteq> {0x20, 0x09} \<Longrightarrow> c \<noteq> 0x20 \<Longrightarrow> c \<noteq> 0x09 \<Longrightarrow> length ws < k \<Longrightarrow>
   skip_blanks k a m = Inr (a + of_nat (length ws), m)"
proof (induction ws arbitrary: a k)
  case Nil
  then show ?case by (cases k) (auto simp: bnd_def ld_def ret_run)
next
  case (Cons w ws)
  then obtain k' where "k = Suc k'" by (cases k) auto
  then show ?case using Cons by (auto simp: bnd_def ld_def add.assoc)
qed

section \<open>Properties\<close>

text \<open>
  the assembly \<open>memset\<close> fills exactly the \<open>n\<close> bytes from \<open>v\<close> on with the low byte of \<open>c\<close>, word-wise
  or byte-wise, and equals the portable version for every \<open>n\<close> in the range of an \<open>int\<close>.
\<close>

theorem memset_fills:
  assumes "mapped m v (unat n)"
  shows "memset v c n m = Inr (v, overwrite m v (replicate (unat n) (ucast c)))
    \<and> (0 \<le> sint n \<longrightarrow> memset_c v c n m = memset v c n m)"
proof -
  have n: "unat n < 2 ^ 32" using unsigned_less [of n, where 'a = nat] by simp
  have bytes: "rep_stosb (unat n) v (ucast c) m = Inr ((), overwrite m v (replicate (unat n) (ucast c)))"
    by (rule rep_stosb_spec [OF n assms])
  have fill: "memset v c n m = Inr (v, overwrite m v (replicate (unat n) (ucast c)))"
  proof (cases "n = 0 \<or> \<not> (sint v mod 4 = 0 \<and> n mod 4 = 0)")
    case True
    moreover have "bnd (rep_stosb (unat n) v (ucast c)) (\<lambda>_. ret v) m = Inr (v, overwrite m v (replicate (unat n) (ucast c)))"
      using bytes by (simp add: bnd_def ret_run)
    moreover have "n = 0 \<Longrightarrow> ret v m = Inr (v, overwrite m v (replicate (unat n) (ucast c)))" by (simp add: ret_run)
    ultimately show ?thesis unfolding memset_def by presburger
  next
    case False
    then have "4 * unat (n div 4) = unat n" by (intro words_of_bytes) metis
    note words = rep_stosl_spec [OF fill_word, of "unat (n div 4)" m v c, unfolded this, OF n assms]
    have "memset v c n m = bnd (rep_stosl (unat (n div 4)) v
       (push_bit 24 (c AND 0xFF) OR push_bit 16 (c AND 0xFF) OR push_bit 8 (c AND 0xFF) OR c AND 0xFF)) (\<lambda>_. ret v) m"
      using False unfolding memset_def Let_def by presburger
    then show ?thesis unfolding bnd_def words by (simp add: ret_run)
  qed
  have "nat (sint n) = unat n" if "0 \<le> sint n"
    using that uint_sint [of n] sint_less [of n] by (simp add: take_bit_int_eq_self unat_eq_nat_uint)
  then show ?thesis using fill bytes by (auto simp: memset_c_def memset_c_loop_eq bnd_def ret_run)
qed

lemma copy_safe:
  assumes "unat s + n < 2 ^ 32" and "unat d + n < 2 ^ 32"
  shows "s < d \<and> d < s + of_nat n \<Longrightarrow> down_safe d s n" and "\<not> (s < d \<and> d < s + of_nat n) \<Longrightarrow> up_safe d s n"
proof -
  have off: "unat (s + of_nat i) = unat s + i" "unat (d + of_nat i) = unat d + i" if "i \<le> n" for i
    using assms that by (simp_all add: unat_word_ariths)
  have neq: "d + of_nat j = s + of_nat i \<longleftrightarrow> unat d + j = unat s + i" if "i < n" "j < n" for i j
    using that by (simp add: word_unat_eq_iff off)
  show "down_safe d s n" if "s < d \<and> d < s + of_nat n"
    using that neq by (auto simp: down_safe_def word_less_nat_alt)
  show "up_safe d s n" if "\<not> (s < d \<and> d < s + of_nat n)"
    unfolding up_safe_def
  proof (intro allI impI)
    fix i j assume "i < n" "j < i"
    then show "d + of_nat j \<noteq> s + of_nat i" using neq [of i j] that off(1) [of n] by (auto simp: word_less_nat_alt)
  qed
qed

lemma memmove_run:
  assumes "unat src + unat n < 2 ^ 32" and "unat dst + unat n < 2 ^ 32"
    and "mapped m src (unat n)" and "mapped m dst (unat n)"
  shows "memmove dst src n m = Inr (dst, overwrite m dst (region m src (unat n)))"
    and "memmove_c dst src n m = Inr (dst, overwrite m dst (region m src (unat n)))"
proof -
  define k where "k = unat n"
  have n: "n = of_nat k" "k < 2 ^ 32" "unat n = k"
    using assms(1) unsigned_less [of n, where 'a = nat] by (simp_all add: k_def)
  note safe = copy_safe [OF assms(1,2), folded k_def, folded n(1)]
  have words: "4 * unat (n div 4) = k" if "n mod 4 = 0" using words_of_bytes [OF that] by (simp add: k_def)
  have m: "mapped m src k" "mapped m dst k" using assms(3,4) by (simp_all add: k_def)
  let ?r = "Inr ((), overwrite m dst (region m src k)) :: fault + unit \<times> jmem"
  have b: "rep_movsb k 1 dst src m = ?r" if "\<not> (src < dst \<and> dst < src + n)"
    by (rule rep_movsb_up) (use n m safe that in simp_all)
  have l: "rep_movsl (unat (n div 4)) 4 dst src m = ?r" if "\<not> (src < dst \<and> dst < src + n)" "n mod 4 = 0"
    using rep_movsl_up [of "unat (n div 4)" m src dst] words [OF that(2)] n m safe that(1) by simp
  have bd: "rep_movsb k (- 1) (dst + n - 1) (src + n - 1) m = ?r" if "src < dst \<and> dst < src + n"
    using rep_movsb_down [of k m src dst] n m safe(1) [OF that] by simp
  have ldn: "rep_movsl (unat (n div 4)) (- 4) (dst + n - 4) (src + n - 4) m = ?r"
    if "src < dst \<and> dst < src + n" "n mod 4 = 0"
    by (rule rep_movsl_down [of "unat (n div 4)" m src dst, unfolded words [OF that(2)], folded n(1), OF n(2) m safe(1) [OF that(1)]])
  show "memmove dst src n m = Inr (dst, overwrite m dst (region m src (unat n)))"
    unfolding memmove_def Let_def n(3) using b l bd ldn by (auto simp: bnd_def ret_run)
  show "memmove_c dst src n m = Inr (dst, overwrite m dst (region m src (unat n)))"
    unfolding memmove_c_def n(3) memmove_c_up_eq memmove_c_down_eq using b bd by (auto simp: bnd_def ret_run)
qed

text \<open>
  C13: \<open>memmove\<close> copies the \<open>n\<close> bytes that stood at \<open>src\<close> to \<open>dst\<close> and changes nothing else, whatever
  way the regions overlap and whichever of its four instruction sequences runs, and equals the
  portable version, for regions that end below the top of the address space.
\<close>

theorem memmove_copies:
  assumes "unat src + unat n < 2 ^ 32" and "unat dst + unat n < 2 ^ 32"
    and "mapped m src (unat n)" and "mapped m dst (unat n)"
  shows "memmove dst src n m = Inr (dst, overwrite m dst (region m src (unat n)))
    \<and> bytes_at (overwrite m dst (region m src (unat n))) dst (region m src (unat n))
    \<and> memmove_c dst src n m = memmove dst src n m"
  using memmove_run [OF assms] assms(1) by (simp add: bytes_at_overwrite)

text \<open>
  C15: \<open>strlen\<close>, \<open>strchr\<close>, \<open>strfind\<close> and \<open>strcmp\<close> end on zero-terminated strings, leave memory as it
  is, and give the length, the first occurrence of a character, and the lexicographic order.
\<close>

theorem string_readers:
  assumes "str_at m a s" and "str_at m b t" and "length s < k" and "c \<noteq> 0"
  shows "strlen k a m = Inr (of_nat (length s), m)
    \<and> strchr k a c m = Inr (if c \<in> set s then a + of_nat (length (takeWhile (\<lambda>x. x \<noteq> c) s)) else 0, m)
    \<and> strfind k a c m = Inr (a + of_nat (length (takeWhile (\<lambda>x. x \<noteq> c) s)), m)
    \<and> (\<exists>r. strcmp k a b m = Inr (r, m) \<and> (r = 0 \<longleftrightarrow> s = t) \<and> (r < 0 \<longleftrightarrow> (s, t) \<in> lexord {(x, y). x < y}))"
  using strlen_spec strchr_spec strfind_spec strcmp_spec assms by simp

definition string_example :: jmem where
  "string_example =
     [0x100 \<mapsto> 0x61, 0x101 \<mapsto> 0x62, 0x102 \<mapsto> 0, 0x103 \<mapsto> 0x63, 0x104 \<mapsto> 0, 0x105 \<mapsto> 0, 0x106 \<mapsto> 0, 0x107 \<mapsto> 0]"

lemma string_example_at: "str_at string_example 0x100 [0x61, 0x62]" "str_at string_example 0x103 [0x63]"
  by (simp_all add: string_example_def)

theorem string_readers_witness: "strlen 3 0x100 string_example = Inr (2, string_example)"
  using string_readers [OF string_example_at, of 3 1] by simp



lemma digit_not_special: "is_digit base c \<Longrightarrow> c \<noteq> 0x20 \<and> c \<noteq> 0x09 \<and> c \<noteq> 0x2B \<and> c \<noteq> 0x2D"
  by (auto simp: is_digit_def strtol_dig_def)



theorem memset_fills_witness:
  "memset 0x104 0xAB 3 string_example = Inr (0x104, overwrite string_example 0x104 (replicate 3 0xAB))"
proof -
  have "mapped string_example 0x104 (unat (3 :: 32 word))"
    by (simp add: string_example_def) (simp add: numeral_eq_Suc)
  from memset_fills [OF this, of "0xAB"] show ?thesis by simp
qed

theorem memmove_copies_witness:
  "memmove 0x101 0x100 4 string_example = Inr (0x101, overwrite string_example 0x101 [0x61, 0x62, 0, 0x63])"
proof -
  have "mapped string_example 0x100 (unat (4 :: 32 word))" "mapped string_example 0x101 (unat (4 :: 32 word))"
    by (simp_all add: mapped_4 string_example_def)
  from memmove_copies [OF _ _ this] show ?thesis by (simp add: region_4) (simp add: string_example_def)
qed

lemma memcmp_loop_spec: "bytes_at m a xs \<Longrightarrow> bytes_at m b ys \<Longrightarrow> length xs = n \<Longrightarrow> length ys = n \<Longrightarrow>
   \<exists>r. memcmp_loop n a b m = Inr (r, m) \<and> (r = 0 \<longleftrightarrow> xs = ys) \<and> (r < 0 \<longleftrightarrow> (xs, ys) \<in> lexord {(x, y). x < y})"
proof (induction n arbitrary: a b xs ys)
  case (Suc n)
  then obtain x xs' y ys' where xy: "xs = x # xs'" "ys = y # ys'" by (cases xs; cases ys) auto
  have "uint x = uint y \<longleftrightarrow> x = y" by (metis word_uint_eq_iff)
  then show ?case using Suc.IH [of "a + 1" xs' "b + 1" ys'] Suc.prems xy
    by (cases "x = y") (auto simp: bnd_def ld_def ret_run word_less_def)
qed (simp add: ret_run)

lemma memfind_loop_spec: "bytes_at m a xs \<Longrightarrow> unat a + length xs < 2 ^ 32 \<Longrightarrow> length xs \<le> k \<Longrightarrow>
   memfind_loop k a (a + of_nat (length xs)) c m = Inr (a + of_nat (length (takeWhile (\<lambda>b. b \<noteq> c) xs)), m)"
proof (induction xs arbitrary: a k)
  case Nil
  then show ?case by (cases k) (simp_all add: ret_run)
next
  case (Cons x xs)
  then obtain k' where k: "k = Suc k'" by (cases k) auto
  have "unat (a + of_nat (length (x # xs))) = unat a + length (x # xs)" "unat (a + 1) = unat a + 1"
    using Cons.prems(2) by (simp_all add: unat_word_ariths del: of_nat_Suc)
  then have less: "a < a + of_nat (length (x # xs))" and next_a: "unat (a + 1) + length xs < 2 ^ 32"
    using Cons.prems(2) by (simp_all add: word_less_nat_alt del: of_nat_Suc)
  have ends: "a + of_nat (length (x # xs)) = a + 1 + of_nat (length xs)" by (simp add: add.assoc)
  show ?case
    using Cons.IH [OF _ next_a, of k'] Cons.prems k less
    unfolding ends by (auto simp: bnd_def ld_def ret_run add.assoc)
qed

text \<open>
  on blocks of \<open>n\<close> bytes \<open>memcmp\<close> gives the lexicographic order of the unsigned bytes and
  \<open>memfind\<close> the first occurrence of a byte or the end of the block.
\<close>

theorem memory_readers:
  assumes "bytes_at m a xs" and "bytes_at m b ys" and "length xs = unat n" and "length ys = unat n"
    and "unat a + unat n < 2 ^ 32"
  shows "(\<exists>r. memcmp a b n m = Inr (r, m) \<and> (r = 0 \<longleftrightarrow> xs = ys) \<and> (r < 0 \<longleftrightarrow> (xs, ys) \<in> lexord {(x, y). x < y}))
    \<and> memfind a c n m = Inr (a + of_nat (length (takeWhile (\<lambda>b. b \<noteq> ucast c) xs)), m)"
  using memcmp_loop_spec [OF assms(1-4)] memfind_loop_spec [OF assms(1), of "unat n" "ucast c"] assms(3,5)
  by (simp add: memcmp_def memfind_def)

theorem memory_readers_witness: "memfind 0x100 0x62 2 string_example = Inr (0x101, string_example)"
  using memory_readers [of string_example "0x100" "[0x61, 0x62]" "0x100" "[0x61, 0x62]" 2 "0x62"]
  by (simp add: string_example_def)

end
