(* ===== verification/Printfmt.thy ===== *)
theory Printfmt
  imports JosString
begin

text \<open>
  The formatted output of the JOS kernel, mit6.828/lab/lib/printfmt.c.

  The state is the memory of \<open>JosString\<close> with whatever \<open>putch\<close> keeps behind its second argument.  A
  \<open>va_list\<close> is the list of the 32-bit words that are left on the stack; taking a word that was not
  passed is a \<open>MemFault\<close>.  \<open>lit\<close> gives the addresses of the string literals.  \<open>int\<close> values are
  mathematical integers, checked at every operation that can leave their range.  A \<open>char\<close> is signed.
  The loops over the format and over strings take the number of rounds as an argument.
\<close>

type_synonym 'p pstate = "jmem \<times> 'p"
type_synonym 'p putch = "int \<Rightarrow> ('p pstate, unit) cmd"
type_synonym va_list = "32 word list"

definition in_mem :: "(jmem, 'a) cmd \<Rightarrow> ('p pstate, 'a) cmd" where
  "in_mem c s = (case c (fst s) of Inl e \<Rightarrow> Inl e | Inr (x, m) \<Rightarrow> Inr (x, (m, snd s)))"

section \<open>Numbers\<close>

definition E_INVAL :: int where
  "E_INVAL = 3"

definition MAXERROR :: int where
  "MAXERROR = 8"

definition error_string :: "int \<Rightarrow> string option" where
  "error_string e =
     (if e = 1 then Some ''unspecified error''
      else if e = 2 then Some ''bad environment''
      else if e = E_INVAL then Some ''invalid parameter''
      else if e = 4 then Some ''out of memory''
      else if e = 5 then Some ''out of environments''
      else if e = 6 then Some ''segmentation fault''
      else None)"

fun put_times :: "'p putch \<Rightarrow> nat \<Rightarrow> int \<Rightarrow> ('p pstate, unit) cmd" where
  "put_times putch 0 c = ret ()"
| "put_times putch (Suc n) c = bnd (putch c) (\<lambda>_. put_times putch n c)"

definition digit_char :: "nat \<Rightarrow> int" where
  "digit_char d = of_char (''0123456789abcdef'' ! d)"

text \<open>The recursion divides by \<open>base\<close>: it faults for base 0 and does not end for base 1.\<close>

function printnum :: "'p putch \<Rightarrow> nat \<Rightarrow> nat \<Rightarrow> int \<Rightarrow> int \<Rightarrow> ('p pstate, unit) cmd" where
  "printnum putch num base width padc =
     (if base = 0 then fail DivideByZero
      else if base = 1 \<and> num \<ge> 1 then fail OutOfFuel
      else
        bnd (if num \<ge> base then bnd (checked (width - 1)) (\<lambda>w. printnum putch (num div base) base w padc)
             else bnd (checked (width - 1)) (\<lambda>w. put_times putch (nat w) padc)) (\<lambda>_.
        putch (digit_char (num mod base))))"
  by pat_completeness auto
termination
  by (relation "measure (\<lambda>(putch, num, base, width, padc). num)") (auto intro!: div_less_dividend)

declare printnum.simps [simp del]

definition va_word :: "va_list \<Rightarrow> ('s, 32 word \<times> va_list) cmd" where
  "va_word ap = (case ap of [] \<Rightarrow> fail MemFault | w # ap \<Rightarrow> ret (w, ap))"

definition va_long_long :: "va_list \<Rightarrow> ('s, 64 word \<times> va_list) cmd" where
  "va_long_long ap =
     bnd (va_word ap) (\<lambda>(lo, ap). bnd (va_word ap) (\<lambda>(hi, ap). ret (ucast lo OR push_bit 32 (ucast hi), ap)))"

definition getuint :: "va_list \<Rightarrow> nat \<Rightarrow> ('s, 64 word \<times> va_list) cmd" where
  "getuint ap lflag =
     (if lflag \<ge> 2 then va_long_long ap
      else if lflag \<noteq> 0 then bnd (va_word ap) (\<lambda>(w, ap). ret (ucast w, ap))
      else bnd (va_word ap) (\<lambda>(w, ap). ret (ucast w, ap)))"

definition getint :: "va_list \<Rightarrow> nat \<Rightarrow> ('s, 64 word \<times> va_list) cmd" where
  "getint ap lflag =
     (if lflag \<ge> 2 then va_long_long ap
      else if lflag \<noteq> 0 then bnd (va_word ap) (\<lambda>(w, ap). ret (scast w, ap))
      else bnd (va_word ap) (\<lambda>(w, ap). ret (scast w, ap)))"

section \<open>Formatting\<close>

text \<open>Text up to the next percent sign: the address after it, or None at the end of the format.\<close>

fun print_text :: "'p putch \<Rightarrow> nat \<Rightarrow> vaddr \<Rightarrow> ('p pstate, vaddr option) cmd" where
  "print_text putch 0 fmt = fail OutOfFuel"
| "print_text putch (Suc k) fmt =
     bnd (in_mem (ld fmt)) (\<lambda>ch.
     if ch \<noteq> 0x25 then
       (if ch = 0 then ret None
        else bnd (putch (uint ch)) (\<lambda>_. print_text putch k (fmt + 1)))
     else ret (Some (fmt + 1)))"

record directive =
  padc :: int
  width :: int
  precision :: int
  lflag :: nat
  altflag :: bool

definition no_flags :: directive where
  "no_flags = \<lparr>padc = 0x20, width = - 1, precision = - 1, lflag = 0, altflag = False\<rparr>"

fun scan_number :: "nat \<Rightarrow> vaddr \<Rightarrow> byte \<Rightarrow> int \<Rightarrow> ('p pstate, int \<times> vaddr) cmd" where
  "scan_number 0 fmt ch prec = fail OutOfFuel"
| "scan_number (Suc k) fmt ch prec =
     bnd (checked (prec * 10)) (\<lambda>p.
     bnd (checked (p + uint ch)) (\<lambda>p.
     bnd (checked (p - 0x30)) (\<lambda>p.
     bnd (in_mem (ld fmt)) (\<lambda>ch.
     if sint ch < 0x30 \<or> sint ch > 0x39 then ret (p, fmt)
     else scan_number k (fmt + 1) ch p))))"

definition process_precision :: "int \<Rightarrow> directive \<Rightarrow> directive" where
  "process_precision prec dir =
     (if width dir < 0 then dir\<lparr>width := prec, precision := - 1\<rparr> else dir\<lparr>precision := prec\<rparr>)"

text \<open>The part of the switch that goes back to \<open>reswitch\<close>; it ends at the conversion character.\<close>

fun reswitch :: "nat \<Rightarrow> vaddr \<Rightarrow> directive \<Rightarrow> va_list \<Rightarrow> ('p pstate, byte \<times> vaddr \<times> directive \<times> va_list) cmd" where
  "reswitch 0 fmt dir ap = fail OutOfFuel"
| "reswitch (Suc k) fmt dir ap =
     bnd (in_mem (ld fmt)) (\<lambda>ch.
     let fmt = fmt + 1 in
     if ch = 0x2D then reswitch k fmt (dir\<lparr>padc := 0x2D\<rparr>) ap
     else if ch = 0x30 then reswitch k fmt (dir\<lparr>padc := 0x30\<rparr>) ap
     else if 0x31 \<le> ch \<and> ch \<le> 0x39 then
       bnd (scan_number k fmt ch 0) (\<lambda>(prec, fmt). reswitch k fmt (process_precision prec dir) ap)
     else if ch = 0x2A then
       bnd (va_word ap) (\<lambda>(w, ap). reswitch k fmt (process_precision (sint w) dir) ap)
     else if ch = 0x2E then
       reswitch k fmt (if width dir < 0 then dir\<lparr>width := 0\<rparr> else dir) ap
     else if ch = 0x23 then reswitch k fmt (dir\<lparr>altflag := True\<rparr>) ap
     else if ch = 0x6C then reswitch k fmt (dir\<lparr>lflag := lflag dir + 1\<rparr>) ap
     else ret (ch, fmt, dir, ap))"

text \<open>The characters of a string, with the width and the precision left.\<close>

fun put_string :: "'p putch \<Rightarrow> bool \<Rightarrow> nat \<Rightarrow> vaddr \<Rightarrow> int \<Rightarrow> int \<Rightarrow> ('p pstate, int) cmd" where
  "put_string putch alt 0 p prec wid = fail OutOfFuel"
| "put_string putch alt (Suc k) p prec wid =
     bnd (in_mem (ld p)) (\<lambda>b.
     let ch = sint b in
     if ch \<noteq> 0 \<and> (prec < 0 \<or> prec - 1 \<ge> 0) then
       bnd (if alt \<and> (ch < 0x20 \<or> ch > 0x7E) then putch 0x3F else putch ch) (\<lambda>_.
       bnd (checked (wid - 1)) (\<lambda>wid.
       put_string putch alt k (p + 1) (if prec < 0 then prec else prec - 1) wid))
     else ret wid)"

fun back_to_percent :: "nat \<Rightarrow> vaddr \<Rightarrow> ('p pstate, vaddr) cmd" where
  "back_to_percent 0 fmt = fail OutOfFuel"
| "back_to_percent (Suc k) fmt =
     bnd (in_mem (ld (fmt - 1))) (\<lambda>b. if b \<noteq> 0x25 then back_to_percent k (fmt - 1) else ret fmt)"

text \<open>
  The conversions.  \<open>pf\<close> is \<open>printfmt\<close>, which the error messages are printed with; the result is where
  the format goes on and the arguments that are left.
\<close>

definition vconvert :: "'p putch \<Rightarrow> (string \<Rightarrow> vaddr) \<Rightarrow> nat \<Rightarrow> (vaddr \<Rightarrow> va_list \<Rightarrow> ('p pstate, unit) cmd) \<Rightarrow>
    byte \<Rightarrow> vaddr \<Rightarrow> directive \<Rightarrow> va_list \<Rightarrow> ('p pstate, vaddr \<times> va_list) cmd" where
  "vconvert putch lit k pf ch fmt dir ap =
     (if ch = 0x63 then
        bnd (va_word ap) (\<lambda>(w, ap). bnd (putch (sint w)) (\<lambda>_. ret (fmt, ap)))
      else if ch = 0x65 then
        bnd (va_word ap) (\<lambda>(w, ap).
        bnd (if sint w < 0 then checked (- sint w) else ret (sint w)) (\<lambda>err.
        bnd (if err \<ge> MAXERROR \<or> error_string err = None then pf (lit ''error %d'') [word_of_int err]
             else pf (lit ''%s'') [lit (the (error_string err))]) (\<lambda>_.
        ret (fmt, ap))))
      else if ch = 0x73 then
        bnd (va_word ap) (\<lambda>(p, ap).
        let p = (if p = 0 then lit ''(null)'' else p) in
        bnd (if width dir > 0 \<and> padc dir \<noteq> 0x2D then
               bnd (in_mem (strnlen p (word_of_int (precision dir)))) (\<lambda>n.
               bnd (checked (width dir - sint n)) (\<lambda>w.
               bnd (put_times putch (nat w) (padc dir)) (\<lambda>_. ret (min w 0))))
             else ret (width dir)) (\<lambda>w.
        bnd (put_string putch (altflag dir) k p (precision dir) w) (\<lambda>w.
        bnd (put_times putch (nat w) 0x20) (\<lambda>_.
        ret (fmt, ap)))))
      else if ch = 0x64 then
        bnd (getint ap (lflag dir)) (\<lambda>(num, ap).
        bnd (if sint num < 0 then
               bnd (putch 0x2D) (\<lambda>_. if sint num = - (2 ^ 63) then fail SignedOverflow else ret (- num))
             else ret num) (\<lambda>num.
        bnd (printnum putch (unat num) 10 (width dir) (padc dir)) (\<lambda>_. ret (fmt, ap))))
      else if ch = 0x75 then
        bnd (getuint ap (lflag dir)) (\<lambda>(num, ap).
        bnd (printnum putch (unat num) 10 (width dir) (padc dir)) (\<lambda>_. ret (fmt, ap)))
      else if ch = 0x6F then
        bnd (putch 0x58) (\<lambda>_. bnd (putch 0x58) (\<lambda>_. bnd (putch 0x58) (\<lambda>_. ret (fmt, ap))))
      else if ch = 0x70 then
        bnd (putch 0x30) (\<lambda>_. bnd (putch 0x78) (\<lambda>_.
        bnd (va_word ap) (\<lambda>(w, ap).
        bnd (printnum putch (unat w) 16 (width dir) (padc dir)) (\<lambda>_. ret (fmt, ap)))))
      else if ch = 0x78 then
        bnd (getuint ap (lflag dir)) (\<lambda>(num, ap).
        bnd (printnum putch (unat num) 16 (width dir) (padc dir)) (\<lambda>_. ret (fmt, ap)))
      else if ch = 0x25 then
        bnd (putch (uint ch)) (\<lambda>_. ret (fmt, ap))
      else
        bnd (putch 0x25) (\<lambda>_. bnd (back_to_percent k (fmt - 1)) (\<lambda>fmt. ret (fmt, ap))))"

fun vprintfmt :: "'p putch \<Rightarrow> (string \<Rightarrow> vaddr) \<Rightarrow> nat \<Rightarrow> vaddr \<Rightarrow> va_list \<Rightarrow> ('p pstate, unit) cmd" where
  "vprintfmt putch lit 0 fmt ap = fail OutOfFuel"
| "vprintfmt putch lit (Suc k) fmt ap =
     bnd (print_text putch k fmt) (\<lambda>r.
     case r of
       None \<Rightarrow> ret ()
     | Some fmt \<Rightarrow>
         bnd (reswitch k fmt no_flags ap) (\<lambda>(ch, fmt, dir, ap).
         bnd (vconvert putch lit k (vprintfmt putch lit k) ch fmt dir ap) (\<lambda>(fmt, ap).
         vprintfmt putch lit k fmt ap)))"

definition printfmt :: "'p putch \<Rightarrow> (string \<Rightarrow> vaddr) \<Rightarrow> nat \<Rightarrow> vaddr \<Rightarrow> va_list \<Rightarrow> ('p pstate, unit) cmd" where
  "printfmt putch lit k fmt args = vprintfmt putch lit k fmt args"

section \<open>Printing into a buffer\<close>

record sprintbuf =
  buf :: vaddr
  ebuf :: vaddr
  cnt :: int

definition sprintputch :: "sprintbuf putch" where
  "sprintputch ch =
     bnd (\<lambda>(m, b). if long_range (cnt b + 1) then Inr ((), (m, b\<lparr>cnt := cnt b + 1\<rparr>)) else Inl SignedOverflow) (\<lambda>_.
     (\<lambda>(m, b). if buf b < ebuf b
       then bnd (in_mem (st (buf b) (word_of_int ch))) (\<lambda>_ (m, b). Inr ((), (m, b\<lparr>buf := buf b + 1\<rparr>))) (m, b)
       else Inr ((), (m, b))))"

definition vsnprintf :: "(string \<Rightarrow> vaddr) \<Rightarrow> nat \<Rightarrow> vaddr \<Rightarrow> 32 word \<Rightarrow> vaddr \<Rightarrow> va_list \<Rightarrow> (jmem, int) cmd" where
  "vsnprintf lit k bf n fmt ap m =
     (if bf = 0 \<or> sint n < 1 then Inr (- E_INVAL, m)
      else
        (case vprintfmt sprintputch lit k fmt ap (m, \<lparr>buf = bf, ebuf = bf + n - 1, cnt = 0\<rparr>) of
           Inl e \<Rightarrow> Inl e
         | Inr (_, (m, b)) \<Rightarrow> bnd (st (buf b) 0) (\<lambda>_. ret (cnt b)) m))"

definition snprintf :: "(string \<Rightarrow> vaddr) \<Rightarrow> nat \<Rightarrow> vaddr \<Rightarrow> 32 word \<Rightarrow> vaddr \<Rightarrow> va_list \<Rightarrow> (jmem, int) cmd" where
  "snprintf lit k bf n fmt args = vsnprintf lit k bf n fmt args"

section \<open>The contract of an output function\<close>

text \<open>
  \<open>prints E l c r out\<close>: from a state in which \<open>pre\<close> has been put out, \<open>c\<close> returns \<open>r\<close> after putting out
  \<open>out\<close>, as long as that stays within \<open>l\<close> characters.  \<open>E\<close> relates what was put out to the state.
\<close>

definition prints :: "(int list \<Rightarrow> 's \<Rightarrow> bool) \<Rightarrow> nat \<Rightarrow> ('s, 'a) cmd \<Rightarrow> 'a \<Rightarrow> int list \<Rightarrow> bool" where
  "prints E l c r out \<longleftrightarrow> (\<forall>pre s. E pre s \<longrightarrow> length pre + length out \<le> l \<longrightarrow> (\<exists>s'. c s = Inr (r, s') \<and> E (pre @ out) s'))"

lemma prints_ret [intro]: "prints E l (ret x) x []"
  by (simp add: prints_def ret_run)

lemma prints_bnd: "prints E l c x o1 \<Longrightarrow> prints E l (f x) r o2 \<Longrightarrow> out = o1 @ o2 \<Longrightarrow> prints E l (bnd c f) r out"
  unfolding prints_def
proof (intro allI impI)
  fix pre s
  assume c: "\<forall>pre s. E pre s \<longrightarrow> length pre + length o1 \<le> l \<longrightarrow> (\<exists>s'. c s = Inr (x, s') \<and> E (pre @ o1) s')"
    and f: "\<forall>pre s. E pre s \<longrightarrow> length pre + length o2 \<le> l \<longrightarrow> (\<exists>s'. f x s = Inr (r, s') \<and> E (pre @ o2) s')"
    and "out = o1 @ o2" "E pre s" "length pre + length out \<le> l"
  then obtain s1 where s1: "c s = Inr (x, s1)" "E (pre @ o1) s1" by (metis add_leD1 add.assoc length_append)
  moreover obtain s2 where "f x s1 = Inr (r, s2)" "E ((pre @ o1) @ o2) s2"
    using f s1(2) \<open>out = o1 @ o2\<close> \<open>length pre + length out \<le> l\<close> by (metis add.assoc length_append)
  ultimately show "\<exists>s'. bnd c f s = Inr (r, s') \<and> E (pre @ out) s'" using \<open>out = o1 @ o2\<close> by (simp add: bnd_Inr)
qed

lemma prints_then_ret: "prints E l c x out \<Longrightarrow> prints E l (bnd c (\<lambda>_. ret r)) r out"
  by (rule prints_bnd) auto

lemma checked_ok: "long_range v \<Longrightarrow> checked v = ret v"
  by (simp add: checked_def)

text \<open>A reader of memory, when it only needs what the memory keeps throughout.\<close>

locale sink =
  fixes putch :: "'p putch" and emitted :: "int list \<Rightarrow> 'p pstate \<Rightarrow> bool" and ro :: jmem and limit :: nat
  assumes emitted_ro: "emitted cs s \<Longrightarrow> ro \<subseteq>\<^sub>m fst s"
    and putch_emits: "emitted cs s \<Longrightarrow> length cs < limit \<Longrightarrow> \<exists>s'. putch c s = Inr ((), s') \<and> emitted (cs @ [c]) s'"
begin

lemma put: "prints emitted limit (putch c) () [c]"
  using putch_emits by (auto simp: prints_def)

lemma put_times: "prints emitted limit (put_times putch n c) () (replicate n c)"
proof (induction n)
  case (Suc n)
  show ?case using prints_bnd [OF put, of "\<lambda>_. put_times putch n c"] Suc.IH by simp
qed (simp add: prints_ret)

lemma put_after: "prints emitted limit c x out \<Longrightarrow> prints emitted limit (bnd c (\<lambda>_. putch d)) () (out @ [d])"
  by (rule prints_bnd [OF _ put]) auto

lemma reader:
  assumes "\<And>m. ro \<subseteq>\<^sub>m m \<Longrightarrow> c m = Inr (x, m)"
  shows "prints emitted limit (in_mem c) x []"
  using assms emitted_ro by (auto simp: prints_def in_mem_def)

lemma load: "ro a = Some b \<Longrightarrow> prints emitted limit (in_mem (ld a)) b []"
  by (rule reader) (auto simp: ld_def map_le_def dom_def split: option.split)

lemma load_then: "ro a = Some b \<Longrightarrow> prints emitted limit (f b) r out \<Longrightarrow> prints emitted limit (bnd (in_mem (ld a)) f) r out"
  by (rule prints_bnd [OF load]) simp_all

lemma put_then: "prints emitted limit (f ()) r out \<Longrightarrow> prints emitted limit (bnd (putch c) f) r (c # out)"
  by (rule prints_bnd [OF put]) simp_all

end

section \<open>Numerals\<close>

function digits :: "nat \<Rightarrow> nat \<Rightarrow> nat list" where
  "digits b n = (if n < b \<or> b < 2 then [n] else digits b (n div b) @ [n mod b])"
  by pat_completeness auto
termination
  by (relation "measure snd") (auto intro!: div_less_dividend)

declare digits.simps [simp del]

definition field :: "nat \<Rightarrow> bool \<Rightarrow> nat \<Rightarrow> nat \<Rightarrow> int list" where
  "field b z w n = replicate (w - length (digits b n)) (if z then 0x30 else 0x20) @ map digit_char (digits b n)"

lemma digits_not_Nil [simp]: "digits b n \<noteq> []"
  by (subst digits.simps) simp

lemma digits_value: "foldl (\<lambda>v d. v * b + d) 0 (digits b n) = n"
proof (induction b n rule: digits.induct)
  case (1 b n)
  then show ?case by (subst digits.simps) simp
qed

lemma digits_less: "2 \<le> b \<Longrightarrow> d \<in> set (digits b n) \<Longrightarrow> d < b"
proof (induction b n rule: digits.induct)
  case (1 b n)
  then show ?case by (subst (asm) digits.simps) (auto split: if_splits)
qed

lemma digits_leading: "0 < n \<Longrightarrow> hd (digits b n) \<noteq> 0"
proof (induction b n rule: digits.induct)
  case (1 b n)
  show ?case
  proof (cases "n < b \<or> b < 2")
    case False
    then have "0 < n div b" by (simp add: div_greater_zero_iff)
    then show ?thesis using 1 False by (subst digits.simps) simp
  qed (use 1 in \<open>simp add: digits.simps\<close>)
qed

lemma digits_length: "2 \<le> b \<Longrightarrow> n < b ^ k \<Longrightarrow> 0 < k \<Longrightarrow> length (digits b n) \<le> k"
proof (induction k arbitrary: n)
  case (Suc k)
  show ?case
  proof (cases "n < b \<or> b < 2")
    case False
    then have "0 < k" using Suc.prems(2) by (cases k) auto
    moreover have "n div b < b ^ k" using Suc.prems by (simp add: less_mult_imp_div_less mult.commute)
    ultimately have "length (digits b (n div b)) \<le> k" using Suc by blast
    then show ?thesis using False by (subst digits.simps) simp
  qed (simp add: digits.simps)
qed simp

context sink
begin

lemma printnum_prints:
  "2 \<le> b \<Longrightarrow> - (2 ^ 31) \<le> w - int (length (digits b n)) \<Longrightarrow> w < 2 ^ 31 \<Longrightarrow>
   prints emitted limit (printnum putch n b w c) () (replicate (nat w - length (digits b n)) c @ map digit_char (digits b n))"
proof (induction n arbitrary: w rule: less_induct)
  case (less n)
  have unf: "printnum putch n b w c =
        bnd (if n \<ge> b then bnd (checked (w - 1)) (\<lambda>w. printnum putch (n div b) b w c)
             else bnd (checked (w - 1)) (\<lambda>w. put_times putch (nat w) c)) (\<lambda>_.
        putch (digit_char (n mod b)))"
    using less.prems(1) by (subst printnum.simps) simp
  have l: "1 \<le> length (digits b n)" by (simp add: Suc_le_eq)
  then have r: "long_range (w - 1)" using less.prems by (simp add: long_range_def)
  show ?case
  proof (cases "n < b")
    case True
    then have d: "digits b n = [n]" "n mod b = n" by (simp_all add: digits.simps)
    have e: "nat (w - 1) = nat w - 1" by simp
    have "prints emitted limit (put_times putch (nat (w - 1)) c) () (replicate (nat w - 1) c)"
      using put_times [of "nat (w - 1)" c] by (simp only: e)
    then show ?thesis unfolding unf using True d put_after by (simp add: checked_ok [OF r])
  next
    case False
    then have d: "digits b n = digits b (n div b) @ [n mod b]" using less.prems(1) by (subst digits.simps) simp
    have "n div b < n" using False less.prems(1) by (simp add: div_less_dividend)
    moreover have "- (2 ^ 31) \<le> w - 1 - int (length (digits b (n div b)))" using less.prems(2) d by simp
    ultimately have "prints emitted limit (printnum putch (n div b) b (w - 1) c) ()
        (replicate (nat (w - 1) - length (digits b (n div b))) c @ map digit_char (digits b (n div b)))"
      using less.IH [of "n div b" "w - 1"] less.prems by simp
    moreover have "nat (w - 1) - length (digits b (n div b)) = nat w - length (digits b n)" using d by simp
    ultimately have "prints emitted limit (printnum putch (n div b) b (w - 1) c) ()
        (replicate (nat w - length (digits b n)) c @ map digit_char (digits b (n div b)))" by simp
    from put_after [OF this, of "digit_char (n mod b)"] show ?thesis
      unfolding unf using False d by (simp add: checked_ok [OF r])
  qed
qed

end

section \<open>What a format means\<close>

text \<open>
  A format is a list of items, each with the arguments it takes.  \<open>render\<close> is how the item is written in
  the format, \<open>args\<close> what it takes from the argument list, \<open>shown\<close> what should appear.  Width 0 and
  precision 0 stand for none.
\<close>

datatype number = Int32 "32 word" | Long32 "32 word" | LongLong "64 word"

datatype item =
    Plain byte
  | Percent
  | Character "32 word"
  | Decimal bool nat number
  | Unsigned bool nat number
  | Hexadecimal bool nat number
  | Pointer bool nat "32 word"
  | Str bool bool nat nat vaddr "byte list"
  | Error "32 word"

definition dig :: "nat \<Rightarrow> byte" where
  "dig d = of_nat (0x30 + d)"

definition wd :: "nat \<Rightarrow> byte list" where
  "wd w = (if w = 0 then [] else map dig (digits 10 w))"

fun longs :: "number \<Rightarrow> byte list" where
  "longs (Int32 v) = []"
| "longs (Long32 v) = [0x6C]"
| "longs (LongLong v) = [0x6C, 0x6C]"

fun num_args :: "number \<Rightarrow> va_list" where
  "num_args (Int32 v) = [v]"
| "num_args (Long32 v) = [v]"
| "num_args (LongLong v) = [ucast v, ucast (drop_bit 32 v)]"

fun signed_value :: "number \<Rightarrow> int" where
  "signed_value (Int32 v) = sint v"
| "signed_value (Long32 v) = sint v"
| "signed_value (LongLong v) = sint v"

fun unsigned_value :: "number \<Rightarrow> nat" where
  "unsigned_value (Int32 v) = unat v"
| "unsigned_value (Long32 v) = unat v"
| "unsigned_value (LongLong v) = unat v"

definition num_flags :: "bool \<Rightarrow> nat \<Rightarrow> byte list" where
  "num_flags z w = (if z then [0x30] else []) @ wd w"

fun render :: "item \<Rightarrow> byte list" where
  "render (Plain b) = [b]"
| "render Percent = [0x25, 0x25]"
| "render (Character c) = [0x25, 0x63]"
| "render (Decimal z w v) = 0x25 # num_flags z w @ longs v @ [0x64]"
| "render (Unsigned z w v) = 0x25 # num_flags z w @ longs v @ [0x75]"
| "render (Hexadecimal z w v) = 0x25 # num_flags z w @ longs v @ [0x78]"
| "render (Pointer z w v) = 0x25 # num_flags z w @ [0x70]"
| "render (Str left alt w prec p s) =
     0x25 # (if left then [0x2D] else []) @ (if alt then [0x23] else []) @ wd w @ (if prec = 0 then [] else 0x2E # wd prec) @ [0x73]"
| "render (Error e) = [0x25, 0x65]"

fun args :: "item \<Rightarrow> va_list" where
  "args (Plain b) = []"
| "args Percent = []"
| "args (Character c) = [c]"
| "args (Decimal z w v) = num_args v"
| "args (Unsigned z w v) = num_args v"
| "args (Hexadecimal z w v) = num_args v"
| "args (Pointer z w v) = [v]"
| "args (Str left alt w prec p s) = [p]"
| "args (Error e) = [e]"

definition ascii :: "string \<Rightarrow> byte list" where
  "ascii = map of_char"

definition signed_field :: "bool \<Rightarrow> nat \<Rightarrow> int \<Rightarrow> int list" where
  "signed_field z w i = (if i < 0 then [0x2D] else []) @ field 10 z w (nat \<bar>i\<bar>)"

definition str_field :: "bool \<Rightarrow> bool \<Rightarrow> nat \<Rightarrow> nat \<Rightarrow> byte list \<Rightarrow> int list" where
  "str_field left alt w prec s =
     (let cs = map (\<lambda>b. if alt \<and> (sint b < 0x20 \<or> sint b > 0x7E) then 0x3F else sint b) (if prec = 0 then s else take prec s);
          blanks = replicate (w - length cs) 0x20
      in if left then cs @ blanks else blanks @ cs)"

definition error_text :: "int \<Rightarrow> int list" where
  "error_text e =
     (case error_string \<bar>e\<bar> of
        Some s \<Rightarrow> map sint (ascii s)
      | None \<Rightarrow> map sint (ascii ''error '') @ signed_field False 0 \<bar>e\<bar>)"

fun shown :: "item \<Rightarrow> int list" where
  "shown (Plain b) = [uint b]"
| "shown Percent = [0x25]"
| "shown (Character c) = [sint c]"
| "shown (Decimal z w v) = signed_field z w (signed_value v)"
| "shown (Unsigned z w v) = field 10 z w (unsigned_value v)"
| "shown (Hexadecimal z w v) = field 16 z w (unsigned_value v)"
| "shown (Pointer z w v) = [0x30, 0x78] @ field 16 z w (unat v)"
| "shown (Str left alt w prec p s) = str_field left alt w prec (if p = 0 then ascii ''(null)'' else s)"
| "shown (Error e) = error_text (sint e)"

text \<open>
  What the memory has to provide, and the sizes the scanner can read without overflow.  The most
  negative error code and the most negative long long cannot be negated.
\<close>

definition size_ok :: "nat \<Rightarrow> bool" where
  "size_ok w \<longleftrightarrow> w < 2 ^ 30"

definition error_words :: "jmem \<Rightarrow> (string \<Rightarrow> vaddr) \<Rightarrow> bool" where
  "error_words m lit \<longleftrightarrow> str_at m (lit ''error %d'') (ascii ''error %d'') \<and> str_at m (lit ''%s'') (ascii ''%s'')
     \<and> (\<forall>e \<in> {1..6}. lit (the (error_string e)) \<noteq> 0 \<and> str_at m (lit (the (error_string e))) (ascii (the (error_string e))))"

fun item_ok :: "jmem \<Rightarrow> (string \<Rightarrow> vaddr) \<Rightarrow> item \<Rightarrow> bool" where
  "item_ok m lit (Plain b) = (b \<noteq> 0 \<and> b \<noteq> 0x25)"
| "item_ok m lit Percent = True"
| "item_ok m lit (Character c) = True"
| "item_ok m lit (Decimal z w v) = (size_ok w \<and> signed_value v \<noteq> - (2 ^ 63))"
| "item_ok m lit (Unsigned z w v) = size_ok w"
| "item_ok m lit (Hexadecimal z w v) = size_ok w"
| "item_ok m lit (Pointer z w v) = size_ok w"
| "item_ok m lit (Str left alt w prec p s) =
     (size_ok w \<and> size_ok prec \<and> (if p = 0 then str_at m (lit ''(null)'') (ascii ''(null)'') else str_at m p s \<and> size_ok (length s)))"
| "item_ok m lit (Error e) = (sint e \<noteq> - (2 ^ 31) \<and> error_words m lit)"

fun item_size :: "item \<Rightarrow> nat" where
  "item_size (Str left alt w prec p s) = length s + 8"
| "item_size (Error e) = 40"
| "item_size _ = 0"

section \<open>Scanning a directive\<close>

lemma digit_byte: "d < 10 \<Longrightarrow> uint (dig d) = 0x30 + int d \<and> sint (dig d) = 0x30 + int d"
proof -
  assume "d < 10"
  then have "d \<in> {0, 1, 2, 3, 4, 5, 6, 7, 8, 9}" by auto
  then show ?thesis by (auto simp: dig_def)
qed

lemma bytes_at_ro: "ro \<subseteq>\<^sub>m m \<Longrightarrow> bytes_at ro a bs \<Longrightarrow> bytes_at m a bs"
  by (auto simp: bytes_at_iff map_le_def dom_def)

lemma foldl_digits_mono: "v \<le> foldl (\<lambda>v d. v * 10 + d) v ds" for v :: nat
proof (induction ds arbitrary: v)
  case (Cons d ds)
  have "v \<le> v * 10 + d" by simp
  then show ?case using Cons.IH [of "v * 10 + d"] by (simp only: foldl_Cons)
qed simp

context sink
begin

text \<open>After the first digit \<open>d\<close>, the digits \<open>ds\<close> and a character that is none.\<close>

lemma scan_number_prints:
  "bytes_at ro fmt (map dig ds @ [c]) \<Longrightarrow> \<forall>d \<in> set (d # ds). d < 10 \<Longrightarrow> sint c < 0x30 \<or> sint c > 0x39 \<Longrightarrow>
   length ds < k \<Longrightarrow> foldl (\<lambda>v d. v * 10 + d) v (d # ds) < 2 ^ 30 \<Longrightarrow>
   prints emitted limit (scan_number k fmt (dig d) (int v))
     (int (foldl (\<lambda>v d. v * 10 + d) v (d # ds)), fmt + of_nat (length ds)) []"
proof (induction ds arbitrary: fmt d v k)
  case Nil
  obtain k' where k: "k = Suc k'" using Nil.prems(4) by (cases k) auto
  have "long_range (int v * 10)" "long_range (int v * 10 + (0x30 + int d))" "long_range (int v * 10 + int d)"
    using Nil.prems(2,5) by (auto simp: long_range_def)
  then have "scan_number k fmt (dig d) (int v) =
      (bnd (in_mem (ld fmt)) (\<lambda>ch. if sint ch < 0x30 \<or> sint ch > 0x39 then ret (int v * 10 + int d, fmt)
        else scan_number k' (fmt + 1) ch (int v * 10 + int d)) :: ('p pstate, int \<times> vaddr) cmd)"
    using digit_byte [of d] Nil.prems(2) k by (simp add: checked_ok)
  moreover have "ro fmt = Some c" using Nil.prems(1) by simp
  ultimately show ?case using Nil.prems(3) by (simp add: load_then prints_ret)
next
  case (Cons e ds)
  obtain k' where k: "k = Suc k'" using Cons.prems(4) by (cases k) auto
  have de: "d < 10" "e < 10" using Cons.prems(2) by auto
  have le: "v * 10 + d < 2 ^ 30" using foldl_digits_mono [of "(v * 10 + d) * 10 + e" ds] Cons.prems(5) by simp
  then have "long_range (int v * 10)" "long_range (int v * 10 + (0x30 + int d))" "long_range (int v * 10 + int d)"
    using de by (auto simp: long_range_def)
  then have "scan_number k fmt (dig d) (int v) =
      (bnd (in_mem (ld fmt)) (\<lambda>ch. if sint ch < 0x30 \<or> sint ch > 0x39 then ret (int v * 10 + int d, fmt)
        else scan_number k' (fmt + 1) ch (int v * 10 + int d)) :: ('p pstate, int \<times> vaddr) cmd)"
    using digit_byte [OF de(1)] k by (simp add: checked_ok)
  moreover have "ro fmt = Some (dig e)" using Cons.prems(1) by simp
  moreover have "prints emitted limit (scan_number k' (fmt + 1) (dig e) (int (v * 10 + d)))
     (int (foldl (\<lambda>v d. v * 10 + d) (v * 10 + d) (e # ds)), fmt + 1 + of_nat (length ds)) []"
    by (rule Cons.IH) (use Cons.prems k in simp_all)
  ultimately show ?case
    using digit_byte [OF de(2)] de(2) by (simp add: load_then add.assoc)
qed

end

lemma wd_cases:
  assumes "0 < w"
  obtains d ds where "wd w = dig d # map dig ds" "d \<noteq> 0" "\<forall>e \<in> set (d # ds). e < 10" "foldl (\<lambda>v d. v * 10 + d) 0 (d # ds) = w"
proof -
  obtain d ds where d: "digits 10 w = d # ds" by (cases "digits 10 w") auto
  have "wd w = dig d # map dig ds" using assms d by (simp add: wd_def)
  moreover have "d \<noteq> 0" using digits_leading [OF assms, of 10] d by simp
  moreover have "\<forall>e \<in> set (d # ds). e < 10" using digits_less [of 10 _ w] d by simp
  moreover have "foldl (\<lambda>v d. v * 10 + d) 0 (d # ds) = w" using digits_value [of 10 w] d by simp
  ultimately show thesis by (rule that)
qed

lemma dig_range: "d \<noteq> 0 \<Longrightarrow> d < 10 \<Longrightarrow> 0x31 \<le> dig d \<and> dig d \<le> 0x39 \<and> dig d \<noteq> 0x2D \<and> dig d \<noteq> 0x30"
proof -
  assume "d \<noteq> 0" "d < 10"
  then have "d \<in> {1, 2, 3, 4, 5, 6, 7, 8, 9}" by auto
  then show ?thesis by (auto simp: dig_def)
qed

context sink
begin

lemma reswitch_steps:
  "ro fmt = Some 0x2D \<Longrightarrow> prints emitted limit (reswitch k (fmt + 1) (dir\<lparr>padc := 0x2D\<rparr>) ap) r out \<Longrightarrow> prints emitted limit (reswitch (Suc k) fmt dir ap) r out"
  "ro fmt = Some 0x30 \<Longrightarrow> prints emitted limit (reswitch k (fmt + 1) (dir\<lparr>padc := 0x30\<rparr>) ap) r out \<Longrightarrow> prints emitted limit (reswitch (Suc k) fmt dir ap) r out"
  "ro fmt = Some 0x2E \<Longrightarrow> prints emitted limit (reswitch k (fmt + 1) (if width dir < 0 then dir\<lparr>width := 0\<rparr> else dir) ap) r out \<Longrightarrow> prints emitted limit (reswitch (Suc k) fmt dir ap) r out"
  "ro fmt = Some 0x23 \<Longrightarrow> prints emitted limit (reswitch k (fmt + 1) (dir\<lparr>altflag := True\<rparr>) ap) r out \<Longrightarrow> prints emitted limit (reswitch (Suc k) fmt dir ap) r out"
  "ro fmt = Some 0x6C \<Longrightarrow> prints emitted limit (reswitch k (fmt + 1) (dir\<lparr>lflag := lflag dir + 1\<rparr>) ap) r out \<Longrightarrow> prints emitted limit (reswitch (Suc k) fmt dir ap) r out"
  by (simp_all add: load_then)

lemma reswitch_end:
  "ro fmt = Some ch \<Longrightarrow> ch \<in> {0x63, 0x65, 0x73, 0x64, 0x75, 0x6F, 0x70, 0x78, 0x25} \<Longrightarrow> prints emitted limit (reswitch (Suc k) fmt dir ap) (ch, fmt + 1, dir, ap) []"
  by (auto intro!: load_then)

lemma reswitch_wd:
  assumes w: "0 < w" "size_ok w" and fmt: "bytes_at ro fmt (wd w @ [c])" "sint c < 0x30 \<or> sint c > 0x39" and k: "length (wd w) \<le> k"
    and rest: "prints emitted limit (reswitch k (fmt + of_nat (length (wd w))) (process_precision (int w) dir) ap) r out"
  shows "prints emitted limit (reswitch (Suc k) fmt dir ap) r out"
proof -
  obtain d ds where d: "wd w = dig d # map dig ds" "d \<noteq> 0" "\<forall>e \<in> set (d # ds). e < 10" "foldl (\<lambda>v d. v * 10 + d) 0 (d # ds) = w"
    using wd_cases [OF w(1)] .
  have r: "0x31 \<le> dig d \<and> dig d \<le> 0x39 \<and> dig d \<noteq> 0x2D \<and> dig d \<noteq> 0x30" using dig_range d(2,3) by simp
  have "ro fmt = Some (dig d)" "bytes_at ro (fmt + 1) (map dig ds @ [c])" using fmt(1) d(1) by simp_all
  moreover have "prints emitted limit (scan_number k (fmt + 1) (dig d) (int 0)) (int w, fmt + 1 + of_nat (length ds)) []"
    unfolding d(4) [symmetric] by (rule scan_number_prints) (use calculation d fmt(2) k w(2) in \<open>simp_all add: size_ok_def\<close>)
  then have "prints emitted limit (bnd (scan_number k (fmt + 1) (dig d) (int 0)) (\<lambda>(prec, fmt). reswitch k fmt (process_precision prec dir) ap)) r out"
    by (rule prints_bnd [where ?o2.0 = out]) (use rest d(1) in \<open>simp_all add: add.assoc\<close>)
  ultimately show ?thesis using r by (simp add: load_then)
qed

end

definition num_dir :: "bool \<Rightarrow> nat \<Rightarrow> nat \<Rightarrow> directive" where
  "num_dir z w l = \<lparr>padc = (if z then 0x30 else 0x20), width = (if w = 0 then - 1 else int w), precision = - 1, lflag = l, altflag = False\<rparr>"

definition str_dir :: "bool \<Rightarrow> bool \<Rightarrow> nat \<Rightarrow> nat \<Rightarrow> directive" where
  "str_dir left alt w prec = \<lparr>padc = (if left then 0x2D else 0x20), width = (if w = 0 then if prec = 0 then - 1 else 0 else int w),
     precision = (if prec = 0 then - 1 else int prec), lflag = 0, altflag = alt\<rparr>"

definition conversion :: "byte \<Rightarrow> bool" where
  "conversion ch \<longleftrightarrow> ch \<in> {0x63, 0x65, 0x73, 0x64, 0x75, 0x6F, 0x70, 0x78, 0x25}"

lemma conversion_no_digit: "conversion ch \<Longrightarrow> sint ch < 0x30 \<or> sint ch > 0x39"
  by (auto simp: conversion_def)

context sink
begin

lemma reswitch_conversion:
  "bytes_at ro fmt [ch] \<Longrightarrow> conversion ch \<Longrightarrow> 0 < k \<Longrightarrow> prints emitted limit (reswitch k fmt dir ap) (ch, fmt + 1, dir, ap) []"
  using reswitch_end [of fmt ch "k - 1" dir ap] by (cases k) (simp_all add: conversion_def)

lemma reswitch_longs:
  assumes "bytes_at ro fmt (longs v @ [ch])" "conversion ch" "length (longs v) < k"
  shows "prints emitted limit (reswitch k fmt dir ap) (ch, fmt + of_nat (length (longs v @ [ch])), dir\<lparr>lflag := lflag dir + length (longs v)\<rparr>, ap) []"
proof (cases v)
  case (Int32 x)
  then show ?thesis using reswitch_conversion assms by simp
next
  case (Long32 x)
  obtain k' where k: "k = Suc k'" "0 < k'" using assms(3) Long32 by (cases k) auto
  have "prints emitted limit (reswitch k' (fmt + 1) (dir\<lparr>lflag := lflag dir + 1\<rparr>) ap) (ch, fmt + 1 + 1, dir\<lparr>lflag := lflag dir + 1\<rparr>, ap) []"
    by (rule reswitch_conversion) (use assms k Long32 in simp_all)
  then show ?thesis using reswitch_steps(5) [of fmt k' dir] assms(1) k Long32 by (simp add: add.assoc)
next
  case (LongLong x)
  obtain k' where k: "k = Suc (Suc k')" "0 < k'" using assms(3) LongLong by (cases k; cases "k - 1") auto
  have "prints emitted limit (reswitch k' (fmt + 1 + 1) (dir\<lparr>lflag := lflag dir + 2\<rparr>) ap) (ch, fmt + 1 + 1 + 1, dir\<lparr>lflag := lflag dir + 2\<rparr>, ap) []"
    by (rule reswitch_conversion) (use assms k LongLong in simp_all)
  then have "prints emitted limit (reswitch (Suc k') (fmt + 1) (dir\<lparr>lflag := lflag dir + 1\<rparr>) ap) (ch, fmt + 1 + 1 + 1, dir\<lparr>lflag := lflag dir + 2\<rparr>, ap) []"
    by (intro reswitch_steps(5)) (use assms(1) LongLong in simp_all)
  then show ?thesis using reswitch_steps(5) [of fmt "Suc k'" dir] assms(1) k LongLong by (simp add: add.assoc)
qed

lemma reswitch_number:
  assumes fmt: "bytes_at ro fmt (num_flags z w @ longs v @ [ch])" and ch: "conversion ch" and w: "size_ok w"
    and k: "length (num_flags z w @ longs v @ [ch]) \<le> k"
  shows "prints emitted limit (reswitch k fmt no_flags ap) (ch, fmt + of_nat (length (num_flags z w @ longs v @ [ch])), num_dir z w (length (longs v)), ap) []"
proof -
  let ?rest = "longs v @ [ch]"
  have c: "\<exists>c cs. ?rest = c # cs \<and> (sint c < 0x30 \<or> sint c > 0x39)" using conversion_no_digit [OF ch] by (cases v) auto
  have wid: "prints emitted limit (reswitch j a (no_flags\<lparr>padc := p\<rparr>) ap)
        (ch, a + of_nat (length (wd w @ ?rest)), no_flags\<lparr>padc := p, width := if w = 0 then - 1 else int w, lflag := length (longs v)\<rparr>, ap) []"
    if a: "bytes_at ro a (wd w @ ?rest)" "length (wd w @ ?rest) \<le> j" for a j p
  proof (cases "w = 0")
    case True
    then have "wd w = []" by (simp add: wd_def)
    moreover have "no_flags\<lparr>padc := p, width := - 1, lflag := length (longs v)\<rparr> = no_flags\<lparr>padc := p, lflag := lflag (no_flags\<lparr>padc := p\<rparr>) + length (longs v)\<rparr>"
      by (simp add: no_flags_def)
    ultimately show ?thesis using reswitch_longs [of a v ch j "no_flags\<lparr>padc := p\<rparr>" ap] a ch True by simp
  next
    case False
    let ?d = "no_flags\<lparr>padc := p, width := int w\<rparr>"
    obtain c cs where cc: "?rest = c # cs" "sint c < 0x30 \<or> sint c > 0x39" using c by blast
    obtain j' where j: "j = Suc j'" using a(2) by (cases j) auto
    have "wd w \<noteq> []" using False by (simp add: wd_def)
    then have lw: "1 \<le> length (wd w)" by (simp add: Suc_le_eq)
    have "prints emitted limit (reswitch j' (a + of_nat (length (wd w))) ?d ap)
        (ch, a + of_nat (length (wd w)) + of_nat (length ?rest), ?d\<lparr>lflag := lflag ?d + length (longs v)\<rparr>, ap) []"
      by (rule reswitch_longs) (use a ch j lw in \<open>simp_all add: bytes_at_append\<close>)
    moreover have "process_precision (int w) (no_flags\<lparr>padc := p\<rparr>) = ?d" by (simp add: process_precision_def no_flags_def)
    moreover have "bytes_at ro a (wd w @ [c])" using a(1) cc(1) by (simp add: bytes_at_append)
    ultimately have "prints emitted limit (reswitch j a (no_flags\<lparr>padc := p\<rparr>) ap)
        (ch, a + of_nat (length (wd w)) + of_nat (length ?rest), ?d\<lparr>lflag := lflag ?d + length (longs v)\<rparr>, ap) []"
      unfolding j by (intro reswitch_wd [OF _ w _ cc(2)]) (use False a(2) j in simp_all)
    then show ?thesis using False by (simp add: no_flags_def ac_simps)
  qed
  have dir: "no_flags\<lparr>padc := p, width := if w = 0 then - 1 else int w, lflag := length (longs v)\<rparr> = num_dir z w (length (longs v))"
    if "p = (if z then 0x30 else 0x20)" for p
    using that by (simp add: no_flags_def num_dir_def)
  show ?thesis
  proof (cases z)
    case True
    obtain k' where k': "k = Suc k'" using k by (cases k) auto
    have "prints emitted limit (reswitch k' (fmt + 1) (no_flags\<lparr>padc := 0x30\<rparr>) ap)
        (ch, fmt + 1 + of_nat (length (wd w @ ?rest)), num_dir z w (length (longs v)), ap) []"
      using wid [of "fmt + 1" k' "0x30"] fmt k k' True dir [of "0x30"] by (simp add: num_flags_def)
    then show ?thesis using reswitch_steps(2) [of fmt k' no_flags] fmt k' True by (simp add: num_flags_def add.assoc)
  next
    case False
    have "no_flags\<lparr>padc := 0x20\<rparr> = no_flags" by (simp add: no_flags_def)
    then show ?thesis using wid [of fmt k "0x20"] fmt k False dir [of "0x20"] by (simp add: num_flags_def)
  qed
qed

end

declare reswitch.simps [simp del]

context sink
begin

lemma reswitch_width:
  assumes "bytes_at ro fmt (wd w @ c # cs)" "sint c < 0x30 \<or> sint c > 0x39" "size_ok w" "length (wd w) < k" "0 < w"
    and "prints emitted limit (reswitch (k - 1) (fmt + of_nat (length (wd w))) (process_precision (int w) dir) ap) r out"
  shows "prints emitted limit (reswitch k fmt dir ap) r out"
proof -
  have "bytes_at ro fmt (wd w @ [c])" using assms(1) by (simp add: bytes_at_append)
  moreover obtain k' where "k = Suc k'" using assms(4) by (cases k) auto
  ultimately show ?thesis using reswitch_wd [of w fmt c k' dir ap r out] assms by simp
qed

lemma reswitch_precision:
  assumes "bytes_at ro fmt ((if prec = 0 then [] else 0x2E # wd prec) @ [0x73])" "size_ok prec"
    "length (if prec = 0 then [] else 0x2E # wd prec) < k" "precision dir = - 1"
  shows "prints emitted limit (reswitch k fmt dir ap) (0x73, fmt + of_nat (length ((if prec = 0 then [] else 0x2E # wd prec) @ [0x73])),
    dir\<lparr>width := if prec \<noteq> 0 \<and> width dir < 0 then 0 else width dir, precision := if prec = 0 then - 1 else int prec\<rparr>, ap) []"
proof (cases "prec = 0")
  case True
  have e: "dir\<lparr>precision := - 1\<rparr> = dir" using assms(4) by (cases dir) simp
  show ?thesis using reswitch_conversion [of fmt "0x73" k dir ap] assms True by (simp add: conversion_def e)
next
  case False
  let ?d = "if width dir < 0 then dir\<lparr>width := 0\<rparr> else dir"
  obtain k' where k: "k = Suc k'" using assms(3) by (cases k) auto
  have b: "ro fmt = Some 0x2E" "bytes_at ro (fmt + 1) (wd prec @ [0x73])" using assms(1) False by simp_all
  have "wd prec \<noteq> []" using False by (simp add: wd_def)
  then have l: "0 < k' - 1" using assms(3) k False by (cases "wd prec") auto
  have "process_precision (int prec) ?d = ?d\<lparr>precision := int prec\<rparr>" by (simp add: process_precision_def)
  moreover have "prints emitted limit (reswitch (k' - 1) (fmt + 1 + of_nat (length (wd prec))) (?d\<lparr>precision := int prec\<rparr>) ap)
      (0x73, fmt + 1 + of_nat (length (wd prec)) + 1, ?d\<lparr>precision := int prec\<rparr>, ap) []"
    by (rule reswitch_conversion) (use b(2) assms(3) False k l in \<open>auto simp: bytes_at_append conversion_def\<close>)
  ultimately have "prints emitted limit (reswitch k' (fmt + 1) ?d ap) (0x73, fmt + 1 + of_nat (length (wd prec)) + 1, ?d\<lparr>precision := int prec\<rparr>, ap) []"
    by (intro reswitch_width [OF b(2) _ assms(2)]) (use False assms(3) k in simp_all)
  from reswitch_steps(3) [OF b(1) this] show ?thesis using k False by (simp add: ac_simps split: if_splits)
qed

lemma reswitch_string:
  assumes fmt: "bytes_at ro fmt (tl (render (Str left alt w prec p s)))" and sz: "size_ok w" "size_ok prec"
    and k: "length (tl (render (Str left alt w prec p s))) \<le> k"
  shows "prints emitted limit (reswitch k fmt no_flags ap) (0x73, fmt + of_nat (length (tl (render (Str left alt w prec p s)))), str_dir left alt w prec, ap) []"
proof -
  let ?pr = "(if prec = 0 then [] else 0x2E # wd prec) @ [0x73 :: byte]"
  let ?out = "(0x73 :: byte, fmt + of_nat (length (tl (render (Str left alt w prec p s)))), str_dir left alt w prec, ap)"
  let ?n1 = "length (if left then [0x2D :: byte] else [])" and ?n2 = "length (if alt then [0x23 :: byte] else [])"
  let ?d1 = "if left then no_flags\<lparr>padc := 0x2D\<rparr> else no_flags"
  let ?d2 = "if alt then ?d1\<lparr>altflag := True\<rparr> else ?d1"
  let ?a1 = "fmt + of_nat ?n1" let ?a2 = "?a1 + of_nat ?n2"
  have len: "length (tl (render (Str left alt w prec p s))) = ?n1 + ?n2 + length (wd w) + length ?pr" by simp
  have b: "bytes_at ro ?a2 (wd w @ ?pr)" using fmt by (auto simp: bytes_at_append)
  have d2: "precision ?d2 = - 1" "width ?d2 = - 1" by (simp_all add: no_flags_def)
  have 3: "prints emitted limit (reswitch j ?a2 ?d2 ap) ?out []" if j: "length (wd w) + length ?pr \<le> j" for j
  proof (cases "w = 0")
    case True
    then have "wd w = []" by (simp add: wd_def)
    moreover have "?d2\<lparr>width := if prec \<noteq> 0 \<and> width ?d2 < 0 then 0 else width ?d2, precision := if prec = 0 then - 1 else int prec\<rparr> = str_dir left alt w prec"
      using True by (simp add: str_dir_def no_flags_def)
    ultimately show ?thesis using reswitch_precision [of ?a2 prec j ?d2 ap] b j sz(2) d2(1) len by (simp add: ac_simps split del: if_split)
  next
    case False
    let ?d3 = "?d2\<lparr>width := int w\<rparr>"
    have d3: "process_precision (int w) ?d2 = ?d3" "precision ?d3 = - 1" "width ?d3 = int w"
      using d2 False by (simp_all add: process_precision_def no_flags_def)
    have "?d3\<lparr>width := if prec \<noteq> 0 \<and> width ?d3 < 0 then 0 else width ?d3, precision := if prec = 0 then - 1 else int prec\<rparr> = str_dir left alt w prec"
      using False by (simp add: str_dir_def no_flags_def)
    moreover have l: "1 \<le> length (wd w)" using False by (simp add: wd_def Suc_le_eq)
    moreover have "bytes_at ro (?a2 + of_nat (length (wd w))) ?pr" using b by (simp only: bytes_at_append)
    ultimately have r: "prints emitted limit (reswitch (j - 1) (?a2 + of_nat (length (wd w))) ?d3 ap) ?out []"
      using reswitch_precision [of "?a2 + of_nat (length (wd w))" prec "j - 1" ?d3 ap] j sz(2) d3(2) len by (simp add: ac_simps split del: if_split)
    obtain c cs where c: "?pr = c # cs" "sint c < 0x30 \<or> sint c > 0x39" by (cases "prec = 0") simp_all
    show ?thesis
      by (rule reswitch_width [of _ w c cs]) (use b c sz(1) j r d3(1) False in \<open>simp_all split del: if_split\<close>)
  qed
  have 2: "prints emitted limit (reswitch j ?a1 ?d1 ap) ?out []" if j: "?n2 + length (wd w) + length ?pr \<le> j" for j
  proof (cases alt)
    case True
    obtain j' where "j = Suc j'" using j True by (cases j) auto
    moreover have "ro ?a1 = Some 0x23" using fmt True by (auto simp: bytes_at_append)
    ultimately show ?thesis using reswitch_steps(4) [of ?a1 j' ?d1 ap ?out] 3 [of j'] j True by (simp split del: if_split)
  qed (use 3 [of j] j in simp)
  show ?thesis
  proof (cases left)
    case True
    obtain j' where "k = Suc j'" using k len True by (cases k) auto
    moreover have "ro fmt = Some 0x2D" using fmt True by simp
    ultimately show ?thesis using reswitch_steps(1) [of fmt j' no_flags ap ?out] 2 [of j'] k len True by simp
  qed (use 2 [of k] k len in simp)
qed

end

section \<open>The conversions\<close>

lemma va_word_Cons [simp]: "va_word (w # ap) = ret (w, ap)"
  by (simp add: va_word_def)

lemma split_64: "ucast (ucast v :: 32 word) OR push_bit 32 (ucast (ucast (drop_bit 32 v) :: 32 word)) = (v :: 64 word)"
  by (rule bit_word_eqI) (auto simp: bit_simps)

fun sval :: "number \<Rightarrow> 64 word" where
  "sval (Int32 v) = scast v"
| "sval (Long32 v) = scast v"
| "sval (LongLong v) = v"

fun uval :: "number \<Rightarrow> 64 word" where
  "uval (Int32 v) = ucast v"
| "uval (Long32 v) = ucast v"
| "uval (LongLong v) = v"

lemma getint_number: "getint (num_args v @ ap) (length (longs v)) = ret (sval v, ap)"
  by (cases v) (simp_all add: getint_def va_long_long_def split_64)

lemma getuint_number: "getuint (num_args v @ ap) (length (longs v)) = ret (uval v, ap)"
  by (cases v) (simp_all add: getuint_def va_long_long_def split_64)

lemma sint_sval: "sint (sval v) = signed_value v"
  by (cases v) (simp_all add: sint_up_scast is_up.rep_eq)

lemma unat_uval: "unat (uval v) = unsigned_value v"
proof -
  have "unat (ucast x :: 64 word) = unat x" for x :: "32 word"
    using unsigned_less [of x, where ?'a = nat] by (simp add: unsigned_ucast_eq take_bit_nat_eq_self)
  then show ?thesis by (cases v) simp_all
qed

lemma unat_nonneg: "0 \<le> sint w \<Longrightarrow> unat w = nat (sint w)" for w :: "64 word"
  using sint_lt [of w] by (simp add: nat_uint_eq [symmetric] uint_sint take_bit_int_eq_self)

definition str_char :: "bool \<Rightarrow> byte \<Rightarrow> int" where
  "str_char alt b = (if alt \<and> (sint b < 0x20 \<or> sint b > 0x7E) then 0x3F else sint b)"

definition cut_str :: "int \<Rightarrow> byte list \<Rightarrow> byte list" where
  "cut_str prec s = (if prec < 0 then s else take (nat prec) s)"

lemma cut_str_Cons: "cut_str prec (b # s) = (if prec = 0 then [] else b # cut_str (if prec < 0 then prec else prec - 1) s)"
  by (cases "nat prec") (auto simp: cut_str_def nat_diff_distrib')

context sink
begin

lemma put_string_prints:
  "str_at ro p s \<Longrightarrow> length (cut_str prec s) < k \<Longrightarrow> long_range wid \<Longrightarrow> - (2 ^ 31) \<le> wid - int (length (cut_str prec s)) \<Longrightarrow>
   prints emitted limit (put_string putch alt k p prec wid) (wid - int (length (cut_str prec s))) (map (str_char alt) (cut_str prec s))"
proof (induction s arbitrary: p prec k wid)
  case Nil
  then obtain k' where "k = Suc k'" by (cases k) auto
  then show ?case using Nil by (simp add: load_then prints_ret cut_str_def)
next
  case (Cons b s)
  obtain k' where k: "k = Suc k'" using Cons.prems(2) by (cases k) auto
  have b: "ro p = Some b" "b \<noteq> 0" "str_at ro (p + 1) s" using Cons.prems(1) by simp_all
  have nz: "sint b \<noteq> 0" using b(2) by (simp add: signed_eq_0_iff)
  show ?case
  proof (cases "prec = 0")
    case True
    then show ?thesis using k b by (simp add: load_then prints_ret cut_str_def)
  next
    case False
    let ?prec = "if prec < 0 then prec else prec - 1"
    have c: "cut_str prec (b # s) = b # cut_str ?prec s" using False by (simp add: cut_str_Cons)
    have lr: "long_range (wid - 1)" using Cons.prems(3,4) c by (simp add: long_range_def)
    have "prints emitted limit (put_string putch alt k' (p + 1) ?prec (wid - 1)) (wid - 1 - int (length (cut_str ?prec s))) (map (str_char alt) (cut_str ?prec s))"
      by (rule Cons.IH) (use b(3) Cons.prems(2,4) k c lr in simp_all)
    then have "prints emitted limit (bnd (putch (str_char alt b)) (\<lambda>_. bnd (checked (wid - 1)) (\<lambda>wid. put_string putch alt k' (p + 1) ?prec wid)))
        (wid - int (length (cut_str prec (b # s)))) (str_char alt b # map (str_char alt) (cut_str ?prec s))"
      by (intro put_then) (simp add: checked_ok [OF lr] c diff_diff_eq)
    moreover have "prec < 0 \<or> prec - 1 \<ge> 0" using False by auto
    moreover have "(if alt \<and> (sint b < 0x20 \<or> sint b > 0x7E) then putch 0x3F else putch (sint b)) = putch (str_char alt b)"
      by (auto simp: str_char_def)
    ultimately show ?thesis unfolding k put_string.simps(2) by (intro load_then [OF b(1)]) (simp add: nz c Let_def)
  qed
qed

lemma vconvert_char: "prints emitted limit (vconvert putch lit k pf 0x63 fmt dir (c # ap)) (fmt, ap) [sint c]"
  by (simp add: vconvert_def put_then prints_ret)

lemma vconvert_percent: "prints emitted limit (vconvert putch lit k pf 0x25 fmt dir ap) (fmt, ap) [0x25]"
  by (simp add: vconvert_def put_then prints_ret)

lemma field_prints:
  assumes "size_ok w" "b = 10 \<or> b = 16" "n < 2 ^ 64"
  shows "prints emitted limit (printnum putch n b (width (num_dir z w l)) (padc (num_dir z w l))) () (field b z w n)"
proof -
  have b: "2 \<le> b" "b ^ 64 \<ge> 2 ^ 64" using assms(2) by auto
  then have "length (digits b n) \<le> 64" using digits_length [of b n 64] assms(3) by simp
  moreover have "1 \<le> length (digits b n)" by (simp add: Suc_le_eq)
  ultimately show ?thesis
    using printnum_prints [OF b(1), of "width (num_dir z w l)" n "padc (num_dir z w l)"] assms(1)
    by (auto simp: num_dir_def field_def size_ok_def split: if_splits)
qed

lemma vconvert_unsigned:
  assumes "size_ok w"
  shows "prints emitted limit (vconvert putch lit k pf 0x75 fmt (num_dir z w (length (longs v))) (num_args v @ ap)) (fmt, ap) (field 10 z w (unsigned_value v))"
    and "prints emitted limit (vconvert putch lit k pf 0x78 fmt (num_dir z w (length (longs v))) (num_args v @ ap)) (fmt, ap) (field 16 z w (unsigned_value v))"
proof -
  have l: "lflag (num_dir z w l) = l" for l by (simp add: num_dir_def)
  have f: "prints emitted limit (printnum putch (unat (uval v)) b (width (num_dir z w l)) (padc (num_dir z w l))) () (field b z w (unat (uval v)))" if "b = 10 \<or> b = 16" for b l
    using field_prints [OF assms that] unsigned_less [of "uval v"] by simp
  show "prints emitted limit (vconvert putch lit k pf 0x75 fmt (num_dir z w (length (longs v))) (num_args v @ ap)) (fmt, ap) (field 10 z w (unsigned_value v))"
    "prints emitted limit (vconvert putch lit k pf 0x78 fmt (num_dir z w (length (longs v))) (num_args v @ ap)) (fmt, ap) (field 16 z w (unsigned_value v))"
    by (auto simp: vconvert_def l getuint_number unat_uval [symmetric] intro!: prints_bnd [OF f] prints_ret)
qed

lemma vconvert_pointer:
  assumes "size_ok w"
  shows "prints emitted limit (vconvert putch lit k pf 0x70 fmt (num_dir z w 0) (v # ap)) (fmt, ap) ([0x30, 0x78] @ field 16 z w (unat v))"
proof -
  have "unat v < 2 ^ 64" using unsigned_less [of v, where ?'a = nat] by simp
  from field_prints [OF assms _ this, of 16 z 0] show ?thesis
    by (simp add: vconvert_def put_then prints_then_ret)
qed

lemma vconvert_signed:
  assumes "size_ok w" "signed_value v \<noteq> - (2 ^ 63)"
  shows "prints emitted limit (vconvert putch lit k pf 0x64 fmt (num_dir z w (length (longs v))) (num_args v @ ap)) (fmt, ap) (signed_field z w (signed_value v))"
proof -
  let ?n = "sval v"
  have l: "lflag (num_dir z w l) = l" for l by (simp add: num_dir_def)
  have f: "prints emitted limit (printnum putch (unat m) 10 (width (num_dir z w l)) (padc (num_dir z w l))) () (field 10 z w (unat m))" for m :: "64 word" and l
    using field_prints [OF assms(1), of 10 "unat m"] unsigned_less [of m, where ?'a = nat] by simp
  show ?thesis
  proof (cases "sint ?n < 0")
    case True
    have "sint (- ?n) = - sint ?n" using assms(2) sint_sval [of v] sint_range_size [of ?n] by (simp add: sint_word_ariths(4) wsst_TYs signed_take_bit_int_eq_self)
    then have u: "unat (- ?n) = nat (- sint ?n)" using True unat_nonneg [of "- ?n"] by simp
    have "prints emitted limit (bnd (putch 0x2D) (\<lambda>_. if sint ?n = - (2 ^ 63) then fail SignedOverflow else ret (- ?n))) (- ?n) [0x2D]"
      using assms(2) sint_sval [of v] by (intro put_then) (simp add: prints_ret)
    then have "prints emitted limit (bnd (bnd (putch 0x2D) (\<lambda>_. if sint ?n = - (2 ^ 63) then fail SignedOverflow else ret (- ?n)))
        (\<lambda>num. bnd (printnum putch (unat num) 10 (width (num_dir z w (length (longs v)))) (padc (num_dir z w (length (longs v))))) (\<lambda>_. ret (fmt, ap))))
        (fmt, ap) ([0x2D] @ field 10 z w (unat (- ?n)))"
      by (rule prints_bnd [where ?o2.0 = "field 10 z w (unat (- ?n))"]) (use prints_then_ret [OF f, of "- ?n"] in simp_all)
    then show ?thesis using True u sint_sval [of v] by (simp add: vconvert_def getint_number l signed_field_def)
  next
    case False
    then have "unat ?n = nat (sint ?n)" using unat_nonneg by simp
    then show ?thesis using False sint_sval [of v]
      prints_then_ret [OF f, of ?n] by (simp add: vconvert_def getint_number l signed_field_def)
  qed
qed

lemma strnlen_reads:
  assumes "str_at ro p s" "size_ok (length s)" "size_ok prec"
  shows "prints emitted limit (in_mem (strnlen p (word_of_int (if prec = 0 then - 1 else int prec)))) (of_nat (length (cut_str (if prec = 0 then - 1 else int prec) s))) []"
proof (rule reader)
  fix m assume "ro \<subseteq>\<^sub>m m"
  then have b: "bytes_at m p (s @ [0])" "0 \<notin> set s" using assms(1) bytes_at_ro by (auto simp: str_at_def)
  let ?c = "cut_str (if prec = 0 then - 1 else int prec) s"
  let ?n = "unat (word_of_int (if prec = 0 then - 1 else int prec) :: 32 word)"
  have n: "?n = (if prec = 0 then 2 ^ 32 - 1 else prec)"
    using assms(3) by (simp add: size_ok_def unsigned_minus_1_eq_mask mask_eq_exp_minus_1)
  have c: "?c = (if prec = 0 then s else take prec s)" by (simp add: cut_str_def)
  have "bytes_at m p ?c" "0 \<notin> set ?c" using b c by (auto simp: bytes_at_iff nth_append dest: in_set_takeD)
  moreover have "length ?c = ?n \<or> length ?c < ?n \<and> m (p + of_nat (length ?c)) = Some 0"
  proof (cases "prec = 0 \<or> length s < prec")
    case True
    then have "?c = s" using c by auto
    moreover have "m (p + of_nat (length s)) = Some 0" using b(1) by (simp add: bytes_at_append)
    ultimately show ?thesis using True n assms(2) by (auto simp: size_ok_def)
  next
    case False
    then show ?thesis using c n by simp
  qed
  ultimately show "strnlen p (word_of_int (if prec = 0 then - 1 else int prec)) m = Inr (of_nat (length ?c), m)"
    using strnlen_loop_spec [of m p ?c ?n 0] by (simp add: strnlen_def)
qed

lemma vconvert_string:
  assumes p: "str_at ro (if p = 0 then lit ''(null)'' else p) s" and sz: "size_ok (length s)" "size_ok w" "size_ok prec" and k: "length s < k"
  shows "prints emitted limit (vconvert putch lit k pf 0x73 fmt (str_dir left alt w prec) (p # ap)) (fmt, ap) (str_field left alt w prec s)"
proof -
  let ?p = "if p = 0 then lit ''(null)'' else p" and ?d = "str_dir left alt w prec"
  let ?prec = "if prec = 0 then - 1 else int prec"
  define t where "t = cut_str ?prec s"
  let ?blanks = "w - length t" and ?cs = "map (str_char alt) t"
  define w1 where "w1 = (if width ?d > 0 \<and> \<not> left then min (width ?d - int (length t)) 0 else width ?d)"
  have c: "length t \<le> length s" by (simp add: t_def cut_str_def)
  have pr: "precision ?d = ?prec" "altflag ?d = alt" "width ?d > 0 \<longleftrightarrow> w > 0" "w > 0 \<Longrightarrow> width ?d = int w" "padc ?d = (if left then 0x2D else 0x20)"
    "- 1 \<le> width ?d" "width ?d < 2 ^ 30" using sz by (auto simp: str_dir_def size_ok_def)
  have sint_c: "sint (of_nat (length t) :: 32 word) = int (length t)"
    using c sz(1) by (simp add: size_ok_def signed_of_nat signed_take_bit_int_eq_self)
  have first: "prints emitted limit
      (if width ?d > 0 \<and> padc ?d \<noteq> 0x2D then
               bnd (in_mem (strnlen ?p (word_of_int (precision ?d)))) (\<lambda>n.
               bnd (checked (width ?d - sint n)) (\<lambda>w.
               bnd (put_times putch (nat w) (padc ?d)) (\<lambda>_. ret (min w 0))))
             else ret (width ?d)) w1 (if left then [] else replicate ?blanks 0x20)"
  proof (cases "width ?d > 0 \<and> \<not> left")
    case True
    have lr: "long_range (int w - int (length t))" using c sz by (auto simp: long_range_def size_ok_def)
    have "prints emitted limit (bnd (put_times putch (nat (int w - int (length t))) 0x20) (\<lambda>_. ret (min (int w - int (length t)) 0)))
        (min (int w - int (length t)) 0) (replicate (nat (int w - int (length t))) 0x20)" by (rule prints_then_ret [OF put_times])
    moreover have "nat (int w - int (length t)) = ?blanks" by simp
    ultimately have "prints emitted limit (bnd (checked (width ?d - sint (of_nat (length t) :: 32 word))) (\<lambda>w. bnd (put_times putch (nat w) (padc ?d)) (\<lambda>_. ret (min w 0))))
        w1 (replicate ?blanks 0x20)" using True pr by (simp add: sint_c checked_ok [OF lr] w1_def cong: if_cong)
    then have "prints emitted limit (bnd (in_mem (strnlen ?p (word_of_int ?prec))) (\<lambda>n.
        bnd (checked (width ?d - sint n)) (\<lambda>w. bnd (put_times putch (nat w) (padc ?d)) (\<lambda>_. ret (min w 0))))) w1 (replicate ?blanks 0x20)"
      by (rule prints_bnd [OF strnlen_reads [OF p sz(1,3), folded t_def]]) simp
    then show ?thesis using True pr by simp
  next
    case False
    moreover have "left \<or> w = 0" using False pr(3) by auto
    ultimately show ?thesis using pr by (auto simp: w1_def intro: prints_ret)
  qed
  have w1: "long_range w1" "- (2 ^ 31) \<le> w1 - int (length t)"
    using pr(6,7) c sz(1) by (auto simp: w1_def long_range_def size_ok_def min_def)
  have second: "prints emitted limit (put_string putch (altflag ?d) k ?p (precision ?d) w1) (w1 - int (length t)) ?cs"
    using put_string_prints [OF p, of ?prec k w1 alt, folded t_def] w1 c k pr by simp
  have third: "prints emitted limit (bnd (put_times putch (nat (w1 - int (length t))) 0x20) (\<lambda>_. ret (fmt, ap))) (fmt, ap) (if left then replicate ?blanks 0x20 else [])"
  proof -
    have "nat (w1 - int (length t)) = (if left then ?blanks else 0)"
      using pr by (cases "w > 0") (auto simp: w1_def min_def str_dir_def)
    then show ?thesis using prints_then_ret [OF put_times [of "nat (w1 - int (length t))" "0x20"]] by (simp split: if_splits)
  qed
  have "str_field left alt w prec s = (if left then [] else replicate ?blanks 0x20) @ ?cs @ (if left then replicate ?blanks 0x20 else [])"
    by (simp add: str_field_def Let_def str_char_def [abs_def] t_def cut_str_def)
  moreover have "prints emitted limit (bnd (put_string putch (altflag ?d) k ?p (precision ?d) w1) (\<lambda>w. bnd (put_times putch (nat w) 0x20) (\<lambda>_. ret (fmt, ap))))
      (fmt, ap) (?cs @ (if left then replicate ?blanks 0x20 else []))"
    by (rule prints_bnd [OF second]) (use third in simp_all)
  moreover have "vconvert putch lit k pf 0x73 fmt ?d (p # ap) =
      bnd (if width ?d > 0 \<and> padc ?d \<noteq> 0x2D then
               bnd (in_mem (strnlen ?p (word_of_int (precision ?d)))) (\<lambda>n.
               bnd (checked (width ?d - sint n)) (\<lambda>w.
               bnd (put_times putch (nat w) (padc ?d)) (\<lambda>_. ret (min w 0))))
             else ret (width ?d)) (\<lambda>w. bnd (put_string putch (altflag ?d) k ?p (precision ?d) w) (\<lambda>w.
        bnd (put_times putch (nat w) 0x20) (\<lambda>_. ret (fmt, ap))))"
    by (simp add: vconvert_def Let_def)
  ultimately show ?thesis by (simp only: prints_bnd [OF first])
qed

text \<open>What follows the percent sign of a directive, up to the end of the format.\<close>

definition vprintfmt_rest :: "(string \<Rightarrow> vaddr) \<Rightarrow> nat \<Rightarrow> va_list \<Rightarrow> vaddr option \<Rightarrow> ('p pstate, unit) cmd" where
  "vprintfmt_rest lit k ap r =
     (case r of
       None \<Rightarrow> ret ()
     | Some fmt \<Rightarrow>
         bnd (reswitch k fmt no_flags ap) (\<lambda>(ch, fmt, dir, ap).
         bnd (vconvert putch lit k (vprintfmt putch lit k) ch fmt dir ap) (\<lambda>(fmt, ap).
         vprintfmt putch lit k fmt ap)))"

lemma vprintfmt_unfold: "vprintfmt putch lit (Suc k) fmt ap = bnd (print_text putch k fmt) (vprintfmt_rest lit k ap)"
  by (simp add: vprintfmt_rest_def [abs_def])

lemma directive_prints:
  assumes fmt: "ro fmt = Some 0x25" and sw: "prints emitted limit (reswitch k (fmt + 1) no_flags ap) (ch, fmt', dir, ap') []"
    and cv: "prints emitted limit (vconvert putch lit k (vprintfmt putch lit k) ch fmt' dir ap') (fmt', ap'') out"
    and rest: "prints emitted limit (vprintfmt putch lit k fmt' ap'') () out'"
  shows "prints emitted limit (bnd (print_text putch (Suc j) fmt) (vprintfmt_rest lit k ap)) () (out @ out')"
proof -
  have "prints emitted limit (bnd (vconvert putch lit k (vprintfmt putch lit k) ch fmt' dir ap') (\<lambda>(fmt, ap). vprintfmt putch lit k fmt ap)) () (out @ out')"
    by (rule prints_bnd [OF cv, where ?o2.0 = out']) (use rest in simp_all)
  then have "prints emitted limit (vprintfmt_rest lit k ap (Some (fmt + 1))) () (out @ out')"
    unfolding vprintfmt_rest_def option.case
    by (intro prints_bnd [OF sw, where ?o2.0 = "out @ out'"]) simp_all
  moreover have "prints emitted limit (print_text putch (Suc j) fmt) (Some (fmt + 1)) []"
    by (simp add: load_then [OF fmt] prints_ret)
  ultimately show ?thesis by (auto intro: prints_bnd)
qed

text \<open>One directive; an error message is printed with the format functions, so it comes as a premise.\<close>

definition error_prints :: "(string \<Rightarrow> vaddr) \<Rightarrow> nat \<Rightarrow> 32 word \<Rightarrow> bool" where
  "error_prints lit k w \<longleftrightarrow> (\<forall>fmt dir ap. prints emitted limit (vconvert putch lit k (vprintfmt putch lit k) 0x65 fmt dir (w # ap)) (fmt, ap) (error_text (sint w)))"

lemma item_prints:
  assumes ok: "item_ok ro lit it" and fmt: "bytes_at ro fmt (render it)" and k: "length (render it) + item_size it \<le> k"
    and plain: "\<And>b. it \<noteq> Plain b" and err: "\<And>w. it = Error w \<Longrightarrow> error_prints lit k w"
  shows "\<exists>ch dir. prints emitted limit (reswitch k (fmt + 1) no_flags (args it @ ap)) (ch, fmt + of_nat (length (render it)), dir, args it @ ap) []
    \<and> prints emitted limit (vconvert putch lit k (vprintfmt putch lit k) ch (fmt + of_nat (length (render it))) dir (args it @ ap)) (fmt + of_nat (length (render it)), ap) (shown it)"
    (is "\<exists>ch dir. ?P ch dir")
proof -
  have simple: "prints emitted limit (reswitch k (fmt + 1) no_flags ap') (ch, fmt + 2, no_flags, ap') []"
    if "bytes_at ro (fmt + 1) [ch]" "conversion ch" for ch ap'
    using reswitch_conversion [OF that, of k no_flags ap'] k plain by (cases it) (auto simp: add.assoc)
  have number: "prints emitted limit (reswitch k (fmt + 1) no_flags ap') (ch, fmt + of_nat (length (render it)), num_dir z w (length (longs v)), ap') []"
    if r: "render it = 0x25 # num_flags z w @ longs v @ [ch]" and "conversion ch" "size_ok w" for z w v ch ap'
  proof -
    have "bytes_at ro (fmt + 1) (num_flags z w @ longs v @ [ch])" "length (num_flags z w @ longs v @ [ch]) \<le> k" using fmt k r by simp_all
    from reswitch_number [OF this(1) that(2,3) this(2), of ap'] show ?thesis using r by (simp add: ac_simps)
  qed
  show ?thesis
  proof (cases it)
    case (Plain b)
    then show ?thesis using plain by blast
  next
    case Percent
    have "?P 0x25 no_flags" using simple [of "0x25"] fmt Percent vconvert_percent by (simp add: conversion_def)
    then show ?thesis by blast
  next
    case (Character c)
    have "?P 0x63 no_flags" using simple [of "0x63"] fmt Character vconvert_char by (simp add: conversion_def)
    then show ?thesis by blast
  next
    case (Decimal z w v)
    have "?P 0x64 (num_dir z w (length (longs v)))" using number [of z w v "0x64"] ok Decimal vconvert_signed [of w v] by (simp add: conversion_def)
    then show ?thesis by blast
  next
    case (Unsigned z w v)
    have "?P 0x75 (num_dir z w (length (longs v)))" using number [of z w v "0x75"] ok Unsigned vconvert_unsigned(1) [of w] by (simp add: conversion_def)
    then show ?thesis by blast
  next
    case (Hexadecimal z w v)
    have "?P 0x78 (num_dir z w (length (longs v)))" using number [of z w v "0x78"] ok Hexadecimal vconvert_unsigned(2) [of w] by (simp add: conversion_def)
    then show ?thesis by blast
  next
    case (Pointer z w v)
    have "?P 0x70 (num_dir z w 0)" using number [of z w "Int32 v" "0x70"] ok Pointer vconvert_pointer [of w] by (simp add: conversion_def)
    then show ?thesis by blast
  next
    case (Str left alt w prec p s)
    let ?r = "tl (render (Str left alt w prec p s))" and ?s = "if p = 0 then ascii ''(null)'' else s"
    have r: "render it = 0x25 # ?r" using Str by simp
    have b: "bytes_at ro (fmt + 1) ?r" "length ?r \<le> k" using fmt k unfolding r by simp_all
    have n: "fmt + 1 + of_nat (length ?r) = fmt + of_nat (length (render it))" unfolding r by (simp add: add.assoc)
    have "prints emitted limit (reswitch k (fmt + 1) no_flags ap') (0x73, fmt + of_nat (length (render it)), str_dir left alt w prec, ap') []" for ap'
      unfolding n [symmetric] by (rule reswitch_string [OF b(1) _ _ b(2)]) (use ok Str in simp_all)
    moreover have "str_at ro (if p = 0 then lit ''(null)'' else p) ?s" "size_ok (length ?s)" "length ?s < k" "size_ok w" "size_ok prec"
      using ok Str k by (auto simp: size_ok_def ascii_def)
    ultimately have "?P 0x73 (str_dir left alt w prec)" using Str vconvert_string by (simp del: render.simps)
    then show ?thesis by blast
  next
    case (Error w)
    have "?P 0x65 no_flags" using simple [of "0x65"] fmt Error err by (simp add: conversion_def error_prints_def)
    then show ?thesis by blast
  qed
qed

lemma items_print:
  "\<forall>it \<in> set items. item_ok ro lit it \<and> item_size it \<le> B \<Longrightarrow> (\<And>w k. Error w \<in> set items \<Longrightarrow> B \<le> k \<Longrightarrow> error_prints lit k w) \<Longrightarrow>
   bytes_at ro fmt (concat (map render items) @ [0]) \<Longrightarrow> length (concat (map render items)) + B < j \<Longrightarrow> length (concat (map render items)) + B < k \<Longrightarrow>
   prints emitted limit (bnd (print_text putch j fmt) (vprintfmt_rest lit k (concat (map args items) @ ap))) () (concat (map shown items))"
proof (induction items arbitrary: fmt j k)
  case Nil
  obtain j' where "j = Suc j'" using Nil.prems(4) by (cases j) auto
  then have "prints emitted limit (print_text putch j fmt) None []" using Nil.prems(3) by (simp add: load_then prints_ret)
  then show ?case by (rule prints_bnd) (simp_all add: vprintfmt_rest_def prints_ret)
next
  case (Cons it items)
  let ?n = "length (render it)"
  obtain j' where j: "j = Suc j'" using Cons.prems(4) by (cases j) auto
  have ok: "item_ok ro lit it" "item_size it \<le> B" using Cons.prems(1) by auto
  have fmt: "bytes_at ro fmt (render it)" "bytes_at ro (fmt + of_nat ?n) (concat (map render items) @ [0])"
    using Cons.prems(3) by (simp_all add: bytes_at_append)
  have IH: "prints emitted limit (bnd (print_text putch j' (fmt + of_nat ?n)) (vprintfmt_rest lit k' (concat (map args items) @ ap))) () (concat (map shown items))"
    if "length (concat (map render items)) + B < j'" "length (concat (map render items)) + B < k'" for j' k'
    by (rule Cons.IH) (use Cons.prems(1,2) fmt(2) that in auto)
  show ?case
  proof (cases "\<exists>b. it = Plain b")
    case True
    then obtain b where b: "it = Plain b" by blast
    then have m: "ro fmt = Some b" "b \<noteq> 0" "b \<noteq> 0x25" using fmt ok by simp_all
    have "print_text putch j fmt = bnd (in_mem (ld fmt)) (\<lambda>ch. if ch \<noteq> 0x25 then (if ch = 0 then ret None
        else bnd (putch (uint ch)) (\<lambda>_. print_text putch j' (fmt + 1))) else ret (Some (fmt + 1)))" by (simp add: j)
    moreover have "prints emitted limit (bnd (putch (uint b)) (\<lambda>_. bnd (print_text putch j' (fmt + 1)) (vprintfmt_rest lit k (concat (map args items) @ ap)))) ()
        (uint b # concat (map shown items))"
      using IH [of j' k] Cons.prems(4,5) j b by (intro put_then) simp
    ultimately show ?thesis using m(2,3) b by (simp add: bnd_bnd load_then [OF m(1)])
  next
    case False
    obtain k' where k: "k = Suc k'" using Cons.prems(5) by (cases k) auto
    have n: "2 \<le> ?n" using False by (cases it) (auto simp: Suc_le_eq)
    have e: "it = Error w \<Longrightarrow> error_prints lit k w" for w using Cons.prems(2) [of w k] Cons.prems(5) by simp
    obtain ch dir where it: "prints emitted limit (reswitch k (fmt + 1) no_flags (args it @ concat (map args items) @ ap)) (ch, fmt + of_nat ?n, dir, args it @ concat (map args items) @ ap) []"
      "prints emitted limit (vconvert putch lit k (vprintfmt putch lit k) ch (fmt + of_nat ?n) dir (args it @ concat (map args items) @ ap)) (fmt + of_nat ?n, concat (map args items) @ ap) (shown it)"
      using item_prints [OF ok(1) fmt(1) _ _ e, of "concat (map args items) @ ap"] False ok(2) Cons.prems(5) by auto
    have f: "ro fmt = Some 0x25" using fmt(1) False by (cases it) auto
    have "prints emitted limit (vprintfmt putch lit k (fmt + of_nat ?n) (concat (map args items) @ ap)) () (concat (map shown items))"
      unfolding k vprintfmt_unfold using IH [of k' k'] Cons.prems(5) n k by simp
    from directive_prints [OF f it this, of j'] show ?thesis unfolding j by simp
  qed
qed

lemma items_without_error:
  assumes "\<forall>it \<in> set items. item_ok ro lit it \<and> item_size it \<le> B" "\<forall>w. Error w \<notin> set items"
    "bytes_at ro fmt (concat (map render items) @ [0])" "Suc (length (concat (map render items)) + B) < k"
  shows "prints emitted limit (vprintfmt putch lit k fmt (concat (map args items))) () (concat (map shown items))"
proof -
  obtain k' where k: "k = Suc k'" using assms(4) by (cases k) auto
  show ?thesis unfolding k vprintfmt_unfold
    using items_print [OF assms(1) _ assms(3), of k' k' "[]"] assms(2,4) k by simp
qed

lemma error_message_prints:
  assumes m: "error_words ro lit" and w: "sint w \<noteq> - (2 ^ 31)" and k: "40 \<le> k"
  shows "error_prints lit k w"
proof -
  let ?e = "\<bar>sint w\<bar>"
  have r: "long_range (- sint w)" using w sint_ge [of w] sint_lt [of w] by (simp add: long_range_def)
  have lit: "str_at ro (lit ''error %d'') (ascii ''error %d'')" "str_at ro (lit ''%s'') (ascii ''%s'')" using m by (simp_all add: error_words_def)
  have msg: "lit (the (error_string e)) \<noteq> 0" "str_at ro (lit (the (error_string e))) (ascii (the (error_string e)))" if "e \<in> {1..6}" for e
    using m that by (simp_all add: error_words_def)
  have some: "?e < MAXERROR \<and> ?e \<in> {1..6}" if "error_string ?e \<noteq> None"
    using that by (auto simp: error_string_def MAXERROR_def E_INVAL_def split: if_splits)
  have print: "prints emitted limit (if ?e \<ge> MAXERROR \<or> error_string ?e = None then vprintfmt putch lit k (lit ''error %d'') [word_of_int ?e]
             else vprintfmt putch lit k (lit ''%s'') [lit (the (error_string ?e))]) () (error_text (sint w))"
  proof (cases "error_string ?e")
    case None
    let ?items = "map Plain (ascii ''error '') @ [Decimal False 0 (Int32 (word_of_int ?e))]"
    have s: "sint (word_of_int ?e :: 32 word) = ?e" using r sint_lt [of w] by (simp add: signed_of_int signed_take_bit_int_eq_self long_range_def abs_if)
    have "prints emitted limit (vprintfmt putch lit k (lit ''error %d'') (concat (map args ?items))) () (concat (map shown ?items))"
      by (rule items_without_error [where B = 0]) (use lit(1) k s in \<open>auto simp: ascii_def str_at_def num_flags_def wd_def size_ok_def\<close>)
    then show ?thesis using None s by (simp add: error_text_def ascii_def)
  next
    case (Some str)
    let ?items = "[Str False False 0 0 (lit str) (ascii str)]"
    have e: "?e \<in> {1..6}" "?e < MAXERROR" using some Some by auto
    have len: "length str \<le> 19" using Some by (auto simp: error_string_def split: if_splits)
    have "prints emitted limit (vprintfmt putch lit k (lit ''%s'') (concat (map args ?items))) () (concat (map shown ?items))"
      by (rule items_without_error [where B = "length str + 8"])
        (use lit(2) msg [OF e(1)] k Some len in \<open>auto simp: ascii_def str_at_def wd_def size_ok_def\<close>)
    then show ?thesis using Some e(2) msg(1) [OF e(1)] by (simp add: error_text_def str_field_def)
  qed
  show ?thesis
    unfolding error_prints_def
  proof (intro allI)
    fix fmt dir ap
    have "(if sint w < 0 then checked (- sint w) else ret (sint w)) = (ret ?e :: ('p pstate, int) cmd)"
      using r by (simp add: checked_ok)
    then show "prints emitted limit (vconvert putch lit k (vprintfmt putch lit k) 0x65 fmt dir (w # ap)) (fmt, ap) (error_text (sint w))"
      using prints_then_ret [OF print] by (simp add: vconvert_def split del: if_split)
  qed
qed

text \<open>The format functions put out what the format means.\<close>

lemma vprintfmt_prints:
  assumes "\<forall>it \<in> set items. item_ok ro lit it \<and> item_size it \<le> B"
    "bytes_at ro fmt (concat (map render items) @ [0])" "Suc (length (concat (map render items)) + B) < k"
  shows "prints emitted limit (vprintfmt putch lit k fmt (concat (map args items))) () (concat (map shown items))"
proof -
  obtain k' where k: "k = Suc k'" using assms(3) by (cases k) auto
  have "error_prints lit j w" if "Error w \<in> set items" "B \<le> j" for w j
    using error_message_prints [of lit w j] assms(1) that by force
  then show ?thesis unfolding k vprintfmt_unfold
    using items_print [OF assms(1) _ assms(2), of k' k' "[]"] assms(3) k by simp
qed

end

section \<open>The buffer as an output\<close>

definition outside :: "jmem \<Rightarrow> vaddr \<Rightarrow> nat \<Rightarrow> jmem" where
  "outside m bf n = (\<lambda>x. if unat (x - bf) < n then None else m x)"

definition buffer_holds :: "jmem \<Rightarrow> vaddr \<Rightarrow> nat \<Rightarrow> int list \<Rightarrow> sprintbuf pstate \<Rightarrow> bool" where
  "buffer_holds m0 bf n cs s \<longleftrightarrow>
     0 < n \<and> n < 2 ^ 31 \<and> unat bf + n \<le> 2 ^ 32 \<and> mapped m0 bf n \<and>
     fst s = overwrite m0 bf (map word_of_int (take (n - 1) cs)) \<and>
     snd s = \<lparr>buf = bf + of_nat (min (length cs) (n - 1)), ebuf = bf + of_nat (n - 1), cnt = int (length cs)\<rparr>"

lemma overwrite_single: "overwrite m a [b] = m(a \<mapsto> b)"
  by (auto simp: overwrite_def fun_eq_iff unsigned_eq_0_iff)

lemma overwrite_snoc: "Suc (length bs) < 2 ^ 32 \<Longrightarrow> (overwrite m a bs)(a + of_nat (length bs) \<mapsto> b) = overwrite m a (bs @ [b])"
  using overwrite_append(1) [of bs "[b]" m a] by (simp add: overwrite_single)

lemma mapped_overwrite_at: "mapped m a n \<Longrightarrow> i < n \<Longrightarrow> overwrite m a bs (a + of_nat i) \<noteq> None"
  using mapped_overwrite [of m a n a bs] by (simp add: mapped_iff)

lemma buffer_pointers:
  assumes "unat (bf :: vaddr) + n \<le> 2 ^ 32" "i < n" "j < n"
  shows "bf + of_nat i < bf + of_nat j \<longleftrightarrow> i < j"
proof -
  have "unat (bf + of_nat k) = unat bf + k" if "k < n" for k
    using assms(1) that unat_add_lem [of bf "of_nat k"] by simp
  then show ?thesis using assms by (simp add: word_less_nat_alt)
qed

interpretation buffer: sink sprintputch "buffer_holds m0 bf n" "outside m0 bf n" "2 ^ 31 - 1" for m0 bf n
proof
  fix cs s
  assume e: "buffer_holds m0 bf n cs s"
  have "outside m0 bf n x = Some b \<Longrightarrow> fst s x = Some b" for x b
    using e by (auto simp: buffer_holds_def outside_def overwrite_def split: if_splits)
  then show "outside m0 bf n \<subseteq>\<^sub>m fst s" by (auto simp: map_le_def dom_def)
next
  fix cs s c
  assume e: "buffer_holds m0 bf n cs s" and l: "length cs < 2 ^ 31 - 1"
  let ?t = "map word_of_int (take (n - 1) cs) :: byte list" and ?i = "min (length cs) (n - 1)"
  have n: "0 < n" "n < 2 ^ 31" "unat bf + n \<le> 2 ^ 32" "mapped m0 bf n" using e by (simp_all add: buffer_holds_def)
  obtain m b where s: "s = (m, b)" by (cases s)
  have m: "m = overwrite m0 bf ?t" and b: "b = \<lparr>buf = bf + of_nat ?i, ebuf = bf + of_nat (n - 1), cnt = int (length cs)\<rparr>"
    using e s by (simp_all add: buffer_holds_def)
  have lr: "long_range (cnt b + 1)" using l b by (simp add: long_range_def)
  show "\<exists>s'. sprintputch c s = Inr ((), s') \<and> buffer_holds m0 bf n (cs @ [c]) s'"
  proof (cases "length cs < n - 1")
    case True
    have i: "?i = length cs" "length ?t = length cs" using True by simp_all
    have "m (bf + of_nat (length cs)) \<noteq> None" unfolding m using mapped_overwrite_at [OF n(4)] True by simp
    then obtain old where old: "m (bf + of_nat (length cs)) = Some old" by blast
    have "bf + of_nat (length cs) < bf + of_nat (n - 1)" using buffer_pointers [OF n(3), of "length cs" "n - 1"] True n(1) by simp
    then have "sprintputch c s = Inr ((), (m(bf + of_nat (length cs) \<mapsto> word_of_int c), \<lparr>buf = bf + of_nat (length cs) + 1, ebuf = bf + of_nat (n - 1), cnt = int (length cs) + 1\<rparr>))"
      using lr old i by (simp add: s b sprintputch_def bnd_def in_mem_def st_def ret_run)
    moreover have "m(bf + of_nat (length cs) \<mapsto> word_of_int c) = overwrite m0 bf (?t @ [word_of_int c])"
      unfolding m using overwrite_snoc [of ?t m0 bf "word_of_int c"] i(2) l by simp
    ultimately show ?thesis using n True by (simp add: buffer_holds_def add.assoc add.commute)
  next
    case False
    then have "buf b = ebuf b" using b by (simp add: min_def)
    then have "sprintputch c s = Inr ((), (m, b\<lparr>cnt := cnt b + 1\<rparr>))" using lr by (simp add: s sprintputch_def bnd_def)
    then show ?thesis using n m b False by (simp add: buffer_holds_def)
  qed
qed

section \<open>Properties\<close>

text \<open>
  C25: \<open>snprintf\<close> writes what the format means, cut off at the size of the buffer, ends it with a zero
  byte inside the buffer and returns the length of the whole text.  The format and the strings lie
  outside the buffer; their directives are numbers in base 10 and 16 with sign, zero padding, width and
  the sizes int, long and long long, pointers, characters, strings with width, precision, left
  adjustment and replacement of unprintable characters, and error codes.
\<close>

theorem snprintf_prints_format:
  assumes buf: "bf \<noteq> 0" "0 < n" "n < 2 ^ 31" "unat bf + n \<le> 2 ^ 32" "mapped m bf n"
    and items: "\<forall>it \<in> set items. item_ok (outside m bf n) lit it \<and> item_size it \<le> B"
    and fmt: "bytes_at (outside m bf n) fmt (concat (map render items) @ [0])"
    and k: "Suc (length (concat (map render items)) + B) < k"
    and len: "length (concat (map shown items)) < 2 ^ 31"
  shows "snprintf lit k bf (of_nat n) fmt (concat (map args items)) m =
    Inr (int (length (concat (map shown items))), overwrite m bf (map word_of_int (take (n - 1) (concat (map shown items))) @ [0]))"
proof -
  let ?out = "concat (map shown items)" let ?t = "map word_of_int (take (n - 1) ?out) :: byte list"
  have n: "sint (of_nat n :: 32 word) = int n" using buf(3) by (simp add: signed_of_nat signed_take_bit_int_eq_self)
  let ?s = "(m, \<lparr>buf = bf, ebuf = bf + of_nat n - 1, cnt = 0\<rparr>)"
  have "buffer_holds m bf n [] ?s" using buf by (simp add: buffer_holds_def add.commute of_nat_diff)
  then obtain m' b where run: "vprintfmt sprintputch lit k fmt (concat (map args items)) ?s = Inr ((), (m', b))" and h: "buffer_holds m bf n ?out (m', b)"
    using buffer.vprintfmt_prints [OF items fmt k, unfolded prints_def] len by force
  have m': "m' = overwrite m bf ?t" "buf b = bf + of_nat (length ?t)" "cnt b = int (length ?out)" using h by (simp_all add: buffer_holds_def)
  have "length ?t < n" using buf(2) by auto
  then obtain old where "m' (bf + of_nat (length ?t)) = Some old" unfolding m'(1) using mapped_overwrite_at [OF buf(5)] by (metis not_None_eq)
  moreover have "m'(bf + of_nat (length ?t) \<mapsto> 0) = overwrite m bf (?t @ [0])" unfolding m'(1) using overwrite_snoc [of ?t m bf 0] buf(3) by simp
  ultimately show ?thesis
    unfolding snprintf_def vsnprintf_def using buf(1,2) run n m'(2,3) by (simp add: bnd_def st_def ret_run)
qed

definition format_example :: jmem where
  "format_example = overwrite (overwrite Map.empty 0x200 [0x6E, 0x3D, 0x25, 0x33, 0x64, 0]) 0x100 (replicate 6 0)"

theorem snprintf_prints_format_witness:
  "snprintf (\<lambda>_. 0) 20 0x100 6 0x200 [- 42] format_example = Inr (6, overwrite format_example 0x100 [0x6E, 0x3D, 0x2D, 0x20, 0x34, 0])"
proof -
  let ?items = "[Plain 0x6E, Plain 0x3D, Decimal False 3 (Int32 (- 42))]"
  have r: "concat (map render ?items) = [0x6E, 0x3D, 0x25, 0x33, 0x64]" by code_simp
  have m: "mapped format_example 0x100 6"
    using bytes_at_mapped [OF bytes_at_overwrite [of "replicate 6 0" _ "0x100"]] by (simp add: format_example_def)
  have f: "bytes_at (outside format_example 0x100 6) 0x200 (concat (map render ?items) @ [0])"
    unfolding r by (simp add: format_example_def outside_def overwrite_def nth_Cons')
  have i: "\<forall>it \<in> set ?items. item_ok (outside format_example 0x100 6) (\<lambda>_. 0) it \<and> item_size it \<le> 0"
    by (simp add: size_ok_def)
  have s: "concat (map shown ?items) = [0x6E, 0x3D, 0x2D, 0x20, 0x34, 0x32]" by code_simp
  have "snprintf (\<lambda>_. 0) 20 0x100 (of_nat 6) 0x200 (concat (map args ?items)) format_example =
      Inr (int (length (concat (map shown ?items))), overwrite format_example 0x100 (map word_of_int (take (6 - 1) (concat (map shown ?items))) @ [0]))"
    by (rule snprintf_prints_format [OF _ _ _ _ m i f]) (simp_all add: r s del: concat.simps list.map)
  then show ?thesis unfolding s by simp
qed

end
