(* ===== verification/Console.thy ===== *)
theory Console
  imports Printfmt Paging
begin

text \<open>
  The console of the JOS kernel, mit6.828/lab: kern/console.c with kern/printf.c and lib/readline.c.

  The devices are an environment: \<open>port_in p n\<close> is the byte that the \<open>n\<close>-th read of port \<open>p\<close> returns, and
  what is written to ports is kept in order in \<open>outs\<close>.  The display memory is part of the memory of
  \<open>JosString\<close>, so that scrolling is the modelled \<open>memmove\<close>.  \<open>answers\<close> tells whether there is memory
  behind the colour display at all; where there is none a store is lost and a load finds the idle bus.
  The static variables of the three files are the other fields; the line buffer of \<open>readline\<close> is in
  memory, its address an argument.  Loops that wait for a device run a number of rounds given as an
  argument.
\<close>

type_synonym port = "16 word"

record console =
  port_in :: "port \<Rightarrow> nat \<Rightarrow> byte"
  reads :: "port \<Rightarrow> nat"
  outs :: "(port \<times> byte) list"
  answers :: bool
  serial_exists :: bool
  addr_6845 :: port
  crt_buf :: vaddr
  crt_pos :: "16 word"
  shift :: "32 word"
  cons_buf :: "byte list"
  rpos :: "32 word"
  wpos :: "32 word"

type_synonym 'a kcmd = "(console pstate, 'a) cmd"

definition get :: "(console \<Rightarrow> 'a) \<Rightarrow> 'a kcmd" where
  "get f s = Inr (f (snd s), s)"

definition upd :: "(console \<Rightarrow> console) \<Rightarrow> unit kcmd" where
  "upd f s = Inr ((), (fst s, f (snd s)))"

section \<open>inc/x86.h\<close>

definition inb :: "port \<Rightarrow> byte kcmd" where
  "inb p = bnd (get (\<lambda>c. port_in c p (reads c p))) (\<lambda>b. bnd (upd (\<lambda>c. c\<lparr>reads := (reads c)(p := Suc (reads c p))\<rparr>)) (\<lambda>_. ret b))"

definition outb :: "port \<Rightarrow> byte \<Rightarrow> unit kcmd" where
  "outb p b = upd (\<lambda>c. c\<lparr>outs := outs c @ [(p, b)]\<rparr>)"

section \<open>Serial and parallel port\<close>

definition delay :: "unit kcmd" where
  "delay = bnd (inb 0x84) (\<lambda>_. bnd (inb 0x84) (\<lambda>_. bnd (inb 0x84) (\<lambda>_. bnd (inb 0x84) (\<lambda>_. ret ()))))"

definition COM1 :: port where "COM1 = 0x3F8"
definition COM_RX :: port where "COM_RX = 0"
definition COM_TX :: port where "COM_TX = 0"
definition COM_DLL :: port where "COM_DLL = 0"
definition COM_DLM :: port where "COM_DLM = 1"
definition COM_IER :: port where "COM_IER = 1"
definition COM_IER_RDI :: byte where "COM_IER_RDI = 0x01"
definition COM_IIR :: port where "COM_IIR = 2"
definition COM_FCR :: port where "COM_FCR = 2"
definition COM_LCR :: port where "COM_LCR = 3"
definition COM_LCR_DLAB :: byte where "COM_LCR_DLAB = 0x80"
definition COM_LCR_WLEN8 :: byte where "COM_LCR_WLEN8 = 0x03"
definition COM_MCR :: port where "COM_MCR = 4"
definition COM_LSR :: port where "COM_LSR = 5"
definition COM_LSR_DATA :: byte where "COM_LSR_DATA = 0x01"
definition COM_LSR_TXRDY :: byte where "COM_LSR_TXRDY = 0x20"

definition serial_proc_data :: "int kcmd" where
  "serial_proc_data =
     bnd (inb (COM1 + COM_LSR)) (\<lambda>st.
     if st AND COM_LSR_DATA = 0 then ret (- 1)
     else bnd (inb (COM1 + COM_RX)) (\<lambda>b. ret (uint b)))"

text \<open>The loops that wait for an output device, \<open>n\<close> the rounds that are left.\<close>

fun wait_ready :: "nat \<Rightarrow> port \<Rightarrow> byte \<Rightarrow> unit kcmd" where
  "wait_ready 0 p rdy = bnd (inb p) (\<lambda>_. ret ())"
| "wait_ready (Suc n) p rdy =
     bnd (inb p) (\<lambda>st. if st AND rdy = 0 then bnd delay (\<lambda>_. wait_ready n p rdy) else ret ())"

definition serial_putc :: "32 word \<Rightarrow> unit kcmd" where
  "serial_putc c =
     bnd (wait_ready 12800 (COM1 + COM_LSR) COM_LSR_TXRDY) (\<lambda>_.
     outb (COM1 + COM_TX) (ucast c))"

definition serial_init :: "unit kcmd" where
  "serial_init =
     bnd (outb (COM1 + COM_FCR) 0) (\<lambda>_.
     bnd (outb (COM1 + COM_LCR) COM_LCR_DLAB) (\<lambda>_.
     bnd (outb (COM1 + COM_DLL) (of_nat (115200 div 9600))) (\<lambda>_.
     bnd (outb (COM1 + COM_DLM) 0) (\<lambda>_.
     bnd (outb (COM1 + COM_LCR) (COM_LCR_WLEN8 AND NOT COM_LCR_DLAB)) (\<lambda>_.
     bnd (outb (COM1 + COM_MCR) 0) (\<lambda>_.
     bnd (outb (COM1 + COM_IER) COM_IER_RDI) (\<lambda>_.
     bnd (inb (COM1 + COM_LSR)) (\<lambda>st.
     bnd (upd (\<lambda>c. c\<lparr>serial_exists := (st \<noteq> 0xFF)\<rparr>)) (\<lambda>_.
     bnd (inb (COM1 + COM_IIR)) (\<lambda>_.
     bnd (inb (COM1 + COM_RX)) (\<lambda>_.
     ret ())))))))))))"

definition lpt_putc :: "32 word \<Rightarrow> unit kcmd" where
  "lpt_putc c =
     bnd (wait_ready 12800 (0x378 + 1) 0x80) (\<lambda>_.
     bnd (outb (0x378 + 0) (ucast c)) (\<lambda>_.
     bnd (outb (0x378 + 2) (0x08 OR 0x04 OR 0x01)) (\<lambda>_.
     outb (0x378 + 2) 0x08)))"

section \<open>Text display\<close>

definition MONO_BASE :: port where "MONO_BASE = 0x3B4"
definition MONO_BUF :: vaddr where "MONO_BUF = 0xB0000"
definition CGA_BASE :: port where "CGA_BASE = 0x3D4"
definition CGA_BUF :: vaddr where "CGA_BUF = 0xB8000"
definition CRT_ROWS :: nat where "CRT_ROWS = 25"
definition CRT_COLS :: nat where "CRT_COLS = 80"
definition CRT_SIZE :: nat where "CRT_SIZE = CRT_ROWS * CRT_COLS"

definition ld16 :: "vaddr \<Rightarrow> (jmem, 16 word) cmd" where
  "ld16 a = bnd (ld a) (\<lambda>b0. bnd (ld (a + 1)) (\<lambda>b1. ret (ucast b0 OR push_bit 8 (ucast b1))))"

definition st16 :: "vaddr \<Rightarrow> 16 word \<Rightarrow> (jmem, unit) cmd" where
  "st16 a w = bnd (st a (ucast w)) (\<lambda>_. st (a + 1) (ucast (drop_bit 8 w)))"

text \<open>The accesses through the volatile pointer to the colour display.\<close>

definition probe_ld :: "vaddr \<Rightarrow> 16 word kcmd" where
  "probe_ld a = bnd (get answers) (\<lambda>present. if present then in_mem (ld16 a) else ret 0xFFFF)"

definition probe_st :: "vaddr \<Rightarrow> 16 word \<Rightarrow> unit kcmd" where
  "probe_st a w = bnd (get answers) (\<lambda>present. if present then in_mem (st16 a w) else ret ())"

definition cga_init :: "unit kcmd" where
  "cga_init =
     (let cp = KERNBASE + CGA_BUF in
      bnd (probe_ld cp) (\<lambda>was.
      bnd (probe_st cp 0xA55A) (\<lambda>_.
      bnd (probe_ld cp) (\<lambda>now.
      bnd (if now \<noteq> 0xA55A then bnd (upd (\<lambda>c. c\<lparr>addr_6845 := MONO_BASE\<rparr>)) (\<lambda>_. ret (KERNBASE + MONO_BUF))
           else bnd (probe_st cp was) (\<lambda>_. bnd (upd (\<lambda>c. c\<lparr>addr_6845 := CGA_BASE\<rparr>)) (\<lambda>_. ret cp))) (\<lambda>cp.
      bnd (get addr_6845) (\<lambda>addr.
      bnd (outb addr 14) (\<lambda>_.
      bnd (inb (addr + 1)) (\<lambda>hi.
      bnd (outb addr 15) (\<lambda>_.
      bnd (inb (addr + 1)) (\<lambda>lo.
      upd (\<lambda>c. c\<lparr>crt_buf := cp, crt_pos := push_bit 8 (ucast hi) OR ucast lo\<rparr>)))))))))))"

definition put_cell :: "16 word \<Rightarrow> 16 word \<Rightarrow> unit kcmd" where
  "put_cell i w = bnd (get crt_buf) (\<lambda>a. in_mem (st16 (a + 2 * ucast i) w))"

fun blank_cells :: "nat \<Rightarrow> 16 word \<Rightarrow> unit kcmd" where
  "blank_cells 0 i = ret ()"
| "blank_cells (Suc n) i = bnd (put_cell i (0x0700 OR 0x20)) (\<lambda>_. blank_cells n (i + 1))"

definition scroll :: "unit kcmd" where
  "scroll =
     bnd (get crt_buf) (\<lambda>a.
     bnd (in_mem (memmove a (a + 2 * of_nat CRT_COLS) (of_nat ((CRT_SIZE - CRT_COLS) * 2)))) (\<lambda>_.
     bnd (blank_cells CRT_COLS (of_nat (CRT_SIZE - CRT_COLS))) (\<lambda>_.
     upd (\<lambda>c. c\<lparr>crt_pos := crt_pos c - of_nat CRT_COLS\<rparr>))))"

definition cga_finish :: "unit kcmd" where
  "cga_finish =
     bnd (get crt_pos) (\<lambda>pos.
     bnd (if pos \<ge> of_nat CRT_SIZE then scroll else ret ()) (\<lambda>_.
     bnd (get addr_6845) (\<lambda>addr.
     bnd (get crt_pos) (\<lambda>pos.
     bnd (outb addr 14) (\<lambda>_.
     bnd (outb (addr + 1) (ucast (drop_bit 8 pos))) (\<lambda>_.
     bnd (outb addr 15) (\<lambda>_.
     outb (addr + 1) (ucast pos))))))))"

text \<open>A tab calls \<open>cons_putc\<close>, which is the first argument.\<close>

definition cga_putc :: "(32 word \<Rightarrow> unit kcmd) \<Rightarrow> 32 word \<Rightarrow> unit kcmd" where
  "cga_putc putc c =
     (let c = (if c AND NOT 0xFF = 0 then c OR 0x0700 else c); ch = c AND 0xFF in
      bnd (if ch = 0x08 then
             bnd (get crt_pos) (\<lambda>pos.
             if pos > 0 then
               bnd (upd (\<lambda>k. k\<lparr>crt_pos := pos - 1\<rparr>)) (\<lambda>_. put_cell (pos - 1) (ucast (c AND NOT 0xFF OR 0x20)))
             else ret ())
           else if ch = 0x0A then
             bnd (upd (\<lambda>k. k\<lparr>crt_pos := crt_pos k + of_nat CRT_COLS\<rparr>)) (\<lambda>_.
             upd (\<lambda>k. k\<lparr>crt_pos := crt_pos k - crt_pos k mod of_nat CRT_COLS\<rparr>))
           else if ch = 0x0D then
             upd (\<lambda>k. k\<lparr>crt_pos := crt_pos k - crt_pos k mod of_nat CRT_COLS\<rparr>)
           else if ch = 0x09 then
             bnd (putc 0x20) (\<lambda>_. bnd (putc 0x20) (\<lambda>_. bnd (putc 0x20) (\<lambda>_. bnd (putc 0x20) (\<lambda>_. putc 0x20))))
           else
             bnd (get crt_pos) (\<lambda>pos.
             bnd (upd (\<lambda>k. k\<lparr>crt_pos := pos + 1\<rparr>)) (\<lambda>_. put_cell pos (ucast c)))) (\<lambda>_.
      cga_finish))"

text \<open>The space a tab stands for is no tab, so the nesting is at most two deep.\<close>

fun cons_putc_depth :: "nat \<Rightarrow> 32 word \<Rightarrow> unit kcmd" where
  "cons_putc_depth 0 c = fail OutOfFuel"
| "cons_putc_depth (Suc d) c =
     bnd (serial_putc c) (\<lambda>_. bnd (lpt_putc c) (\<lambda>_. cga_putc (cons_putc_depth d) c))"

definition cons_putc :: "32 word \<Rightarrow> unit kcmd" where
  "cons_putc = cons_putc_depth 2"

definition cputchar :: "32 word \<Rightarrow> unit kcmd" where
  "cputchar c = cons_putc c"

section \<open>kern/printf.c\<close>

text \<open>\<open>*cnt++\<close> moves the pointer and leaves the count alone.\<close>

definition putch :: "console putch" where
  "putch ch = cputchar (word_of_int ch)"

definition vcprintf :: "(string \<Rightarrow> vaddr) \<Rightarrow> nat \<Rightarrow> vaddr \<Rightarrow> va_list \<Rightarrow> int kcmd" where
  "vcprintf lit k fmt ap = bnd (vprintfmt putch lit k fmt ap) (\<lambda>_. ret 0)"

definition cprintf :: "(string \<Rightarrow> vaddr) \<Rightarrow> nat \<Rightarrow> vaddr \<Rightarrow> va_list \<Rightarrow> int kcmd" where
  "cprintf lit k fmt ap = vcprintf lit k fmt ap"

section \<open>Keyboard\<close>

definition NO :: byte where "NO = 0"
definition SHIFT :: byte where "SHIFT = push_bit 0 1"
definition CTL :: byte where "CTL = push_bit 1 1"
definition ALT :: byte where "ALT = push_bit 2 1"
definition CAPSLOCK :: byte where "CAPSLOCK = push_bit 3 1"
definition NUMLOCK :: byte where "NUMLOCK = push_bit 4 1"
definition SCROLLLOCK :: byte where "SCROLLLOCK = push_bit 5 1"
definition E0ESC :: byte where "E0ESC = push_bit 6 1"

definition KEY_HOME :: byte where "KEY_HOME = 0xE0"
definition KEY_END :: byte where "KEY_END = 0xE1"
definition KEY_UP :: byte where "KEY_UP = 0xE2"
definition KEY_DN :: byte where "KEY_DN = 0xE3"
definition KEY_LF :: byte where "KEY_LF = 0xE4"
definition KEY_RT :: byte where "KEY_RT = 0xE5"
definition KEY_PGUP :: byte where "KEY_PGUP = 0xE6"
definition KEY_PGDN :: byte where "KEY_PGDN = 0xE7"
definition KEY_INS :: byte where "KEY_INS = 0xE8"
definition KEY_DEL :: byte where "KEY_DEL = 0xE9"

definition KBSTATP :: port where "KBSTATP = 0x64"
definition KBS_DIB :: byte where "KBS_DIB = 0x01"
definition KBDATAP :: port where "KBDATAP = 0x60"

definition shiftcode :: "byte list" where
  "shiftcode =
    (replicate 256 0)
     [0x1D := CTL,
      0x2A := SHIFT,
      0x36 := SHIFT,
      0x38 := ALT,
      0x9D := CTL,
      0xB8 := ALT]"

definition togglecode :: "byte list" where
  "togglecode =
    (replicate 256 0)
     [0x3A := CAPSLOCK,
      0x45 := NUMLOCK,
      0x46 := SCROLLLOCK]"

definition normalmap :: "byte list" where
  "normalmap =
    ([NO, 0x1B, 0x31, 0x32, 0x33, 0x34, 0x35, 0x36,
      0x37, 0x38, 0x39, 0x30, 0x2D, 0x3D, 0x08, 0x09,
      0x71, 0x77, 0x65, 0x72, 0x74, 0x79, 0x75, 0x69,
      0x6F, 0x70, 0x5B, 0x5D, 0x0A, NO, 0x61, 0x73,
      0x64, 0x66, 0x67, 0x68, 0x6A, 0x6B, 0x6C, 0x3B,
      0x27, 0x60, NO, 0x5C, 0x7A, 0x78, 0x63, 0x76,
      0x62, 0x6E, 0x6D, 0x2C, 0x2E, 0x2F, NO, 0x2A,
      NO, 0x20, NO, NO, NO, NO, NO, NO,
      NO, NO, NO, NO, NO, NO, NO, 0x37,
      0x38, 0x39, 0x2D, 0x34, 0x35, 0x36, 0x2B, 0x31,
      0x32, 0x33, 0x30, 0x2E, NO, NO, NO, NO] @ replicate 168 0)
     [0xC7 := KEY_HOME,
      0x9C := 0x0A,
      0xB5 := 0x2F,
      0xC8 := KEY_UP,
      0xC9 := KEY_PGUP,
      0xCB := KEY_LF,
      0xCD := KEY_RT,
      0xCF := KEY_END,
      0xD0 := KEY_DN,
      0xD1 := KEY_PGDN,
      0xD2 := KEY_INS,
      0xD3 := KEY_DEL]"

definition shiftmap :: "byte list" where
  "shiftmap =
    ([NO, 0x1B, 0x21, 0x40, 0x23, 0x24, 0x25, 0x5E,
      0x26, 0x2A, 0x28, 0x29, 0x5F, 0x2B, 0x08, 0x09,
      0x51, 0x57, 0x45, 0x52, 0x54, 0x59, 0x55, 0x49,
      0x4F, 0x50, 0x7B, 0x7D, 0x0A, NO, 0x41, 0x53,
      0x44, 0x46, 0x47, 0x48, 0x4A, 0x4B, 0x4C, 0x3A,
      0x22, 0x7E, NO, 0x7C, 0x5A, 0x58, 0x43, 0x56,
      0x42, 0x4E, 0x4D, 0x3C, 0x3E, 0x3F, NO, 0x2A,
      NO, 0x20, NO, NO, NO, NO, NO, NO,
      NO, NO, NO, NO, NO, NO, NO, 0x37,
      0x38, 0x39, 0x2D, 0x34, 0x35, 0x36, 0x2B, 0x31,
      0x32, 0x33, 0x30, 0x2E, NO, NO, NO, NO] @ replicate 168 0)
     [0xC7 := KEY_HOME,
      0x9C := 0x0A,
      0xB5 := 0x2F,
      0xC8 := KEY_UP,
      0xC9 := KEY_PGUP,
      0xCB := KEY_LF,
      0xCD := KEY_RT,
      0xCF := KEY_END,
      0xD0 := KEY_DN,
      0xD1 := KEY_PGDN,
      0xD2 := KEY_INS,
      0xD3 := KEY_DEL]"

definition ctlmap :: "byte list" where
  "ctlmap =
    ([NO, NO, NO, NO, NO, NO, NO, NO,
      NO, NO, NO, NO, NO, NO, NO, NO,
      0x51 - 0x40, 0x57 - 0x40, 0x45 - 0x40, 0x52 - 0x40, 0x54 - 0x40, 0x59 - 0x40, 0x55 - 0x40, 0x49 - 0x40,
      0x4F - 0x40, 0x50 - 0x40, NO, NO, 0x0D, NO, 0x41 - 0x40, 0x53 - 0x40,
      0x44 - 0x40, 0x46 - 0x40, 0x47 - 0x40, 0x48 - 0x40, 0x4A - 0x40, 0x4B - 0x40, 0x4C - 0x40, NO,
      NO, NO, NO, 0x5C - 0x40, 0x5A - 0x40, 0x58 - 0x40, 0x43 - 0x40, 0x56 - 0x40,
      0x42 - 0x40, 0x4E - 0x40, 0x4D - 0x40, NO, NO, 0x2F - 0x40, NO, NO] @ replicate 200 0)
     [0x97 := KEY_HOME,
      0xB5 := 0x2F - 0x40,
      0xC8 := KEY_UP,
      0xC9 := KEY_PGUP,
      0xCB := KEY_LF,
      0xCD := KEY_RT,
      0xCF := KEY_END,
      0xD0 := KEY_DN,
      0xD1 := KEY_PGDN,
      0xD2 := KEY_INS,
      0xD3 := KEY_DEL]"

definition charcode :: "byte list list" where
  "charcode = [normalmap, shiftmap, ctlmap, ctlmap]"

text \<open>
  What \<open>kbd_proc_data\<close> does with a byte from the keyboard and the modifiers: the new modifiers, and the
  character, 0 when the byte does not complete one.
\<close>

definition kbd_decode :: "byte \<Rightarrow> 32 word \<Rightarrow> 32 word \<times> int" where
  "kbd_decode data sh =
     (if data = 0xE0 then (sh OR ucast E0ESC, 0)
      else if data AND 0x80 \<noteq> 0 then
        (let data = (if sh AND ucast E0ESC \<noteq> 0 then data else data AND 0x7F)
         in (sh AND NOT (ucast (shiftcode ! unat data) OR ucast E0ESC), 0))
      else
        (let (data, sh) = (if sh AND ucast E0ESC \<noteq> 0 then (data OR 0x80, sh AND NOT (ucast E0ESC)) else (data, sh));
             sh = sh OR ucast (shiftcode ! unat data);
             sh = sh XOR ucast (togglecode ! unat data);
             c = uint (charcode ! unat (sh AND ucast (CTL OR SHIFT)) ! unat data);
             c = (if sh AND ucast CAPSLOCK \<noteq> 0 then
                    (if 0x61 \<le> c \<and> c \<le> 0x7A then c + (0x41 - 0x61)
                     else if 0x41 \<le> c \<and> c \<le> 0x5A then c + (0x61 - 0x41) else c)
                  else c)
         in (sh, c)))"

definition kbd_proc_data :: "(string \<Rightarrow> vaddr) \<Rightarrow> nat \<Rightarrow> int kcmd" where
  "kbd_proc_data lit k =
     bnd (inb KBSTATP) (\<lambda>st.
     if st AND KBS_DIB = 0 then ret (- 1)
     else
       bnd (inb KBDATAP) (\<lambda>data.
       bnd (get shift) (\<lambda>sh.
       let (sh, c) = kbd_decode data sh in
       bnd (upd (\<lambda>k. k\<lparr>shift := sh\<rparr>)) (\<lambda>_.
       bnd (if data \<noteq> 0xE0 \<and> data AND 0x80 = 0 \<and> NOT sh AND ucast (CTL OR ALT) = 0 \<and> c = uint KEY_DEL then
              bnd (cprintf lit k (lit (''Rebooting!'' @ [CHR 0x0A])) []) (\<lambda>_. outb 0x92 0x3)
            else ret ()) (\<lambda>_.
       ret c)))))"

section \<open>Console input\<close>

definition CONSBUFSIZE :: nat where "CONSBUFSIZE = 512"

definition cons_store :: "byte \<Rightarrow> unit kcmd" where
  "cons_store b =
     bnd (get wpos) (\<lambda>w.
     if unat w < CONSBUFSIZE then
       upd (\<lambda>c. c\<lparr>cons_buf := (cons_buf c)[unat w := b], wpos := (if w + 1 = of_nat CONSBUFSIZE then 0 else w + 1)\<rparr>)
     else fail MemFault)"

fun cons_intr :: "nat \<Rightarrow> int kcmd \<Rightarrow> unit kcmd" where
  "cons_intr 0 proc = fail OutOfFuel"
| "cons_intr (Suc k) proc =
     bnd proc (\<lambda>c.
     if c \<noteq> - 1 then
       bnd (if c = 0 then ret () else cons_store (word_of_int c)) (\<lambda>_. cons_intr k proc)
     else ret ())"

definition serial_intr :: "nat \<Rightarrow> unit kcmd" where
  "serial_intr k = bnd (get serial_exists) (\<lambda>e. if e then cons_intr k serial_proc_data else ret ())"

definition kbd_intr :: "(string \<Rightarrow> vaddr) \<Rightarrow> nat \<Rightarrow> unit kcmd" where
  "kbd_intr lit k = cons_intr k (kbd_proc_data lit k)"

definition kbd_init :: "unit kcmd" where
  "kbd_init = ret ()"

text \<open>The part of \<open>cons_getc\<close> that takes a character out of the buffer.\<close>

definition cons_take :: "int kcmd" where
  "cons_take =
     bnd (get rpos) (\<lambda>r. bnd (get wpos) (\<lambda>w.
     if r \<noteq> w then
       (if unat r < CONSBUFSIZE then
          bnd (get (\<lambda>c. cons_buf c ! unat r)) (\<lambda>b.
          bnd (upd (\<lambda>c. c\<lparr>rpos := (if r + 1 = of_nat CONSBUFSIZE then 0 else r + 1)\<rparr>)) (\<lambda>_.
          ret (uint b)))
        else fail MemFault)
     else ret 0))"

definition cons_getc :: "(string \<Rightarrow> vaddr) \<Rightarrow> nat \<Rightarrow> int kcmd" where
  "cons_getc lit k = bnd (serial_intr k) (\<lambda>_. bnd (kbd_intr lit k) (\<lambda>_. cons_take))"

definition cons_init :: "(string \<Rightarrow> vaddr) \<Rightarrow> nat \<Rightarrow> unit kcmd" where
  "cons_init lit k =
     bnd cga_init (\<lambda>_. bnd kbd_init (\<lambda>_. bnd serial_init (\<lambda>_.
     bnd (get serial_exists) (\<lambda>e.
     if \<not> e then bnd (cprintf lit k (lit (''Serial port does not exist!'' @ [CHR 0x0A])) []) (\<lambda>_. ret ()) else ret ()))))"

fun getchar :: "(string \<Rightarrow> vaddr) \<Rightarrow> nat \<Rightarrow> nat \<Rightarrow> int kcmd" where
  "getchar lit k 0 = fail OutOfFuel"
| "getchar lit k (Suc n) = bnd (cons_getc lit k) (\<lambda>c. if c = 0 then getchar lit k n else ret c)"

definition iscons :: "int \<Rightarrow> int" where
  "iscons fdnum = 1"

section \<open>lib/readline.c\<close>

definition BUFLEN :: int where "BUFLEN = 1024"

text \<open>\<open>gc\<close> is \<open>getchar\<close>, \<open>line\<close> the address of the static buffer.\<close>

fun readline_loop :: "(string \<Rightarrow> vaddr) \<Rightarrow> nat \<Rightarrow> int kcmd \<Rightarrow> bool \<Rightarrow> vaddr \<Rightarrow> nat \<Rightarrow> int \<Rightarrow> vaddr kcmd" where
  "readline_loop lit k gc echoing line 0 i = fail OutOfFuel"
| "readline_loop lit k gc echoing line (Suc n) i =
     bnd gc (\<lambda>c.
     if c < 0 then
       bnd (cprintf lit k (lit (''read error: %e'' @ [CHR 0x0A])) [word_of_int c]) (\<lambda>_. ret 0)
     else if (c = 0x08 \<or> c = 0x7F) \<and> i > 0 then
       bnd (if echoing then cputchar 0x08 else ret ()) (\<lambda>_.
       readline_loop lit k gc echoing line n (i - 1))
     else if c \<ge> 0x20 \<and> i < BUFLEN - 1 then
       bnd (if echoing then cputchar (word_of_int c) else ret ()) (\<lambda>_.
       bnd (in_mem (st (line + word_of_int i) (word_of_int c))) (\<lambda>_.
       readline_loop lit k gc echoing line n (i + 1)))
     else if c = 0x0A \<or> c = 0x0D then
       bnd (if echoing then cputchar 0x0A else ret ()) (\<lambda>_.
       bnd (in_mem (st (line + word_of_int i) 0)) (\<lambda>_.
       ret line))
     else readline_loop lit k gc echoing line n i)"

definition readline :: "(string \<Rightarrow> vaddr) \<Rightarrow> nat \<Rightarrow> int kcmd \<Rightarrow> vaddr \<Rightarrow> nat \<Rightarrow> vaddr \<Rightarrow> vaddr kcmd" where
  "readline lit k gc line n prompt =
     bnd (if prompt \<noteq> 0 then bnd (cprintf lit k (lit ''%s'') [prompt]) (\<lambda>_. ret ()) else ret ()) (\<lambda>_.
     readline_loop lit k gc (iscons 0 \<noteq> 0) line n 0)"

end
