(* ===== verification/ConsoleScreen.thy ===== *)
theory ConsoleScreen
  imports Console
begin

text \<open>
  The display of the JOS console (mit6.828/lab/kern/console.c) as a terminal: rows of cells and a
  cursor.  The display memory is \<open>disp m a cells\<close>, a memory \<open>m\<close> in which the cells stand from \<open>a\<close> on; every
  output operation keeps that form, and what it does to the cells is what the terminal does.
\<close>

section \<open>Cells in memory\<close>

definition wbytes :: "16 word \<Rightarrow> byte list" where
  "wbytes w = [ucast w, ucast (drop_bit 8 w)]"

definition disp :: "jmem \<Rightarrow> vaddr \<Rightarrow> 16 word list \<Rightarrow> jmem" where
  "disp m a cells = overwrite m a (concat (map wbytes cells))"

lemma length_wbytes [simp]: "length (concat (map wbytes cs)) = 2 * length cs"
  by (induction cs) (simp_all add: wbytes_def)

lemma take_wbytes: "take (2 * i) (concat (map wbytes cs)) = concat (map wbytes (take i cs))"
proof (induction cs arbitrary: i)
  case (Cons c cs)
  then show ?case by (cases i) (simp_all add: wbytes_def)
qed simp

lemma drop_wbytes: "drop (2 * i) (concat (map wbytes cs)) = concat (map wbytes (drop i cs))"
proof (induction cs arbitrary: i)
  case (Cons c cs)
  then show ?case by (cases i) (simp_all add: wbytes_def)
qed simp

lemma overwrite_inside:
  assumes "k + length ys \<le> length xs" "length xs < 2 ^ 32"
  shows "overwrite (overwrite m a xs) (a + of_nat k) ys = overwrite m a (take k xs @ ys @ drop (k + length ys) xs)"
proof
  fix x
  have k: "k < 2 ^ 32" using assms by simp
  let ?d = "unat (x - a)"
  have d: "?d < 2 ^ 32" using unsigned_less [of "x - a", where 'a = nat] by simp
  show "overwrite (overwrite m a xs) (a + of_nat k) ys x = overwrite m a (take k xs @ ys @ drop (k + length ys) xs) x"
  proof (cases "k \<le> ?d")
    case True
    then have "unat (x - (a + of_nat k)) = ?d - k" using unat_offset_diff [OF k] by simp
    then show ?thesis using True assms by (auto simp: overwrite_def nth_append)
  next
    case False
    then have "unat (x - (a + of_nat k)) = 2 ^ 32 + ?d - k" using unat_offset_diff [OF k] by simp
    then show ?thesis using False assms by (auto simp: overwrite_def nth_append)
  qed
qed

lemma region_inside:
  assumes "k + n \<le> length xs" "length xs < 2 ^ 32"
  shows "region (overwrite m a xs) (a + of_nat k) n = take n (drop k xs)"
proof -
  have "bytes_at (overwrite m a xs) a (take k xs @ take n (drop k xs) @ drop (k + n) xs)"
    using bytes_at_overwrite [of xs m a] assms by (simp add: take_add [symmetric] flip: append_assoc)
  then have "bytes_at (overwrite m a xs) (a + of_nat k) (take n (drop k xs))"
    using assms by (simp add: bytes_at_append min_absorb2)
  from region_eqI [OF this] show ?thesis using assms by simp
qed

lemma st16_run: "m a \<noteq> None \<Longrightarrow> m (a + 1) \<noteq> None \<Longrightarrow> st16 a w m = Inr ((), overwrite m a (wbytes w))"
  using overwrite_Cons [of "[ucast (drop_bit 8 w)]" m a "ucast w"]
  by (auto simp: st16_def st_def bnd_def wbytes_def overwrite_single)

lemma disp_mapped: "j < 2 * length cells \<Longrightarrow> length cells < 2 ^ 31 \<Longrightarrow> disp m a cells (a + of_nat j) \<noteq> None"
  using bytes_at_overwrite [of "concat (map wbytes cells)" m a] by (auto simp: disp_def bytes_at_iff)

lemma disp_update:
  assumes "i < length cells" "length cells < 2 ^ 31"
  shows "st16 (a + of_nat (2 * i)) w (disp m a cells) = Inr ((), disp m a (cells[i := w]))"
proof -
  have "disp m a cells (a + of_nat (2 * i)) \<noteq> None" "disp m a cells (a + of_nat (2 * i) + 1) \<noteq> None"
    using disp_mapped [of "2 * i" cells m a] disp_mapped [of "2 * i + 1" cells m a] assms by (simp_all add: ac_simps)
  moreover have "overwrite (disp m a cells) (a + of_nat (2 * i)) (wbytes w) = disp m a (cells[i := w])"
  proof -
    have "2 * i + 2 = 2 * Suc i" by simp
    then show ?thesis
      unfolding disp_def using assms overwrite_inside [of "2 * i" "wbytes w" "concat (map wbytes cells)" m a]
      by (simp add: upd_conv_take_nth_drop take_wbytes drop_wbytes wbytes_def del: mult_Suc_right)
  qed
  ultimately show ?thesis by (simp add: st16_run)
qed

lemma unat_add_small: "unat (a :: vaddr) + k < 2 ^ 32 \<Longrightarrow> unat (a + of_nat k) = unat a + k"
  by (simp add: unat_word_ariths)

lemma disp_move:
  assumes "unat a + 2 * length cells < 2 ^ 32" "k < length cells"
  shows "memmove a (a + 2 * of_nat k) (of_nat ((length cells - k) * 2)) (disp m a cells) = Inr (a, disp m a (drop k cells @ drop (length cells - k) cells))"
proof -
  let ?n = "(length cells - k) * 2" and ?m = "disp m a cells"
  have u: "unat (of_nat ?n :: 32 word) = ?n" by (rule unat_of_nat_32) (use assms in simp)
  have src: "unat (a + of_nat (2 * k)) = unat a + 2 * k" by (rule unat_add_small) (use assms in simp)
  have len: "length cells < 2 ^ 31" using assms by simp
  have "mapped ?m a ?n" using disp_mapped [OF _ len, of _ m a] assms(2) by (auto simp: mapped_iff)
  moreover have "?m (a + of_nat (2 * k) + of_nat i) \<noteq> None" if "i < ?n" for i
    using disp_mapped [of "2 * k + i" cells m a] len that by (simp add: ac_simps)
  then have "mapped ?m (a + of_nat (2 * k)) ?n" unfolding mapped_iff by blast
  ultimately have "memmove a (a + of_nat (2 * k)) (of_nat ?n) ?m = Inr (a, overwrite ?m a (region ?m (a + of_nat (2 * k)) ?n))"
    using memmove_run(1) [of "a + of_nat (2 * k)" "of_nat ?n" a ?m] u src assms by simp
  moreover have "region ?m (a + of_nat (2 * k)) ?n = concat (map wbytes (drop k cells))"
    unfolding disp_def using region_inside [of "2 * k" ?n "concat (map wbytes cells)" m a] assms by (simp add: drop_wbytes)
  moreover have "overwrite ?m a (concat (map wbytes (drop k cells))) = disp m a (drop k cells @ drop (length cells - k) cells)"
    unfolding disp_def using overwrite_inside [of 0 "concat (map wbytes (drop k cells))" "concat (map wbytes cells)" m a] assms
      drop_wbytes [of "length cells - k" cells] by simp
  ultimately show ?thesis by simp
qed

section \<open>The terminal\<close>

type_synonym terminal = "16 word list list \<times> nat \<times> nat"

definition blank :: "16 word" where
  "blank = 0x0720"

fun line_feed :: "terminal \<Rightarrow> terminal" where
  "line_feed (rows, r, c) = (if r + 1 < CRT_ROWS then (rows, r + 1, c) else (tl rows @ [replicate CRT_COLS blank], r, c))"

fun term_put :: "16 word \<Rightarrow> terminal \<Rightarrow> terminal" where
  "term_put w (rows, r, c) =
     (let rows = rows[r := (rows ! r)[c := w]] in
      if c + 1 < CRT_COLS then (rows, r, c + 1) else line_feed (rows, r, 0))"

fun term_back :: "16 word \<Rightarrow> terminal \<Rightarrow> terminal" where
  "term_back w (rows, r, c) =
     (if c > 0 then (rows[r := (rows ! r)[c - 1 := w]], r, c - 1)
      else if r > 0 then (rows[r - 1 := (rows ! (r - 1))[CRT_COLS - 1 := w]], r - 1, CRT_COLS - 1)
      else (rows, r, c))"

definition attributed :: "32 word \<Rightarrow> 32 word" where
  "attributed c = (if c AND NOT 0xFF = 0 then c OR 0x0700 else c)"

definition term_putc :: "32 word \<Rightarrow> terminal \<Rightarrow> terminal" where
  "term_putc c t =
     (let c = attributed c; ch = c AND 0xFF in
      if ch = 0x08 then term_back (ucast (c AND NOT 0xFF OR 0x20)) t
      else if ch = 0x0A then line_feed (case t of (rows, r, _) \<Rightarrow> (rows, r, 0))
      else if ch = 0x0D then (case t of (rows, r, _) \<Rightarrow> (rows, r, 0))
      else if ch = 0x09 then (term_put blank ^^ 5) t
      else term_put (ucast c) t)"

text \<open>The same on one list of cells, with the cursor as an index into it.\<close>

definition feed :: "16 word list \<times> nat \<Rightarrow> 16 word list \<times> nat" where
  "feed d = (case d of (cells, pos) \<Rightarrow>
     if pos \<ge> CRT_SIZE then (drop CRT_COLS cells @ replicate CRT_COLS blank, pos - CRT_COLS) else (cells, pos))"

definition rows_of :: "16 word list \<Rightarrow> 16 word list list" where
  "rows_of cells = map (\<lambda>r. take CRT_COLS (drop (CRT_COLS * r) cells)) [0..<CRT_ROWS]"

definition term_of :: "16 word list \<Rightarrow> nat \<Rightarrow> terminal" where
  "term_of cells pos = (rows_of cells, pos div CRT_COLS, pos mod CRT_COLS)"

lemma crt_sizes [simp]: "CRT_COLS = 80" "CRT_ROWS = 25" "CRT_SIZE = 2000"
  by (simp_all add: CRT_SIZE_def CRT_COLS_def CRT_ROWS_def)

lemma length_rows_of [simp]: "length (rows_of cells) = 25"
  by (simp add: rows_of_def)

lemma rows_of_nth: "r < 25 \<Longrightarrow> rows_of cells ! r = take 80 (drop (80 * r) cells)"
  by (simp add: rows_of_def)

lemma rows_of_update:
  assumes "length cells = 2000" "pos < 2000"
  shows "rows_of (cells[pos := w]) = (rows_of cells)[pos div 80 := (rows_of cells ! (pos div 80))[pos mod 80 := w]]"
proof (rule nth_equalityI)
  fix r assume "r < length (rows_of (cells[pos := w]))"
  then have r: "r < 25" by simp
  have p: "pos = 80 * (pos div 80) + pos mod 80" "pos mod 80 < 80" "pos div 80 < 25" using assms by simp_all
  show "rows_of (cells[pos := w]) ! r = (rows_of cells)[pos div 80 := (rows_of cells ! (pos div 80))[pos mod 80 := w]] ! r"
  proof (rule nth_equalityI)
    show "length (rows_of (cells[pos := w]) ! r) = length ((rows_of cells)[pos div 80 := (rows_of cells ! (pos div 80))[pos mod 80 := w]] ! r)"
      using r p(3) by (simp add: rows_of_nth nth_list_update)
  next
    fix j assume "j < length (rows_of (cells[pos := w]) ! r)"
    then have j: "j < 80" "80 * r + j < 2000" using r assms by (simp_all add: rows_of_nth)
    have "80 * r + j = pos \<longleftrightarrow> r = pos div 80 \<and> j = pos mod 80" using p j(1) by (metis Euclidean_Rings.div_eq_0_iff add.right_neutral div_mult_self4 mod_less mod_mult_self4 zero_neq_numeral)
    then show "rows_of (cells[pos := w]) ! r ! j = (rows_of cells)[pos div 80 := (rows_of cells ! (pos div 80))[pos mod 80 := w]] ! r ! j"
      using r j p assms by (auto simp: rows_of_nth nth_list_update)
  qed
qed simp

lemma rows_of_scroll:
  assumes "length cells = 2000"
  shows "rows_of (drop 80 cells @ replicate 80 b) = tl (rows_of cells) @ [replicate 80 b]"
proof (rule nth_equalityI)
  fix r assume "r < length (rows_of (drop 80 cells @ replicate 80 b))"
  then have r: "r < 25" by simp
  show "rows_of (drop 80 cells @ replicate 80 b) ! r = (tl (rows_of cells) @ [replicate 80 b]) ! r"
  proof (cases "r = 24")
    case True
    then show ?thesis using assms by (simp add: rows_of_nth nth_append)
  next
    case False
    then have "80 * r + 80 \<le> 1920" "r < 24" using r by simp_all
    then show ?thesis using assms r by (simp add: rows_of_nth nth_append nth_tl add.commute)
  qed
qed simp

lemma term_of_feed:
  assumes "length cells = 2000" "pos < 2080"
  shows "feed (cells, pos) = (cells', pos') \<Longrightarrow> length cells' = 2000 \<and> pos' < 2000 \<and>
    term_of cells' pos' = (if pos < 2000 then term_of cells pos else (tl (rows_of cells) @ [replicate 80 blank], 24, pos mod 80))"
proof -
  assume f: "feed (cells, pos) = (cells', pos')"
  show ?thesis
  proof (cases "pos < 2000")
    case False
    have "pos div 80 = 25" "(pos - 80) div 80 = 24" using False assms by (auto intro!: div_nat_eqI)
    moreover have "(pos - 80) mod 80 = pos mod 80" using calculation False by (simp add: modulo_nat_def)
    ultimately show ?thesis using f assms False by (auto simp: feed_def term_of_def rows_of_scroll)
  qed (use f assms in \<open>auto simp: feed_def\<close>)
qed

lemma term_put_flat:
  assumes "length cells = 2000" "pos < 2000"
  shows "term_put w (term_of cells pos) = (case feed (cells[pos := w], pos + 1) of (cells', pos') \<Rightarrow> term_of cells' pos')"
proof -
  obtain cells' pos' where f: "feed (cells[pos := w], pos + 1) = (cells', pos')" by (cases "feed (cells[pos := w], pos + 1)")
  have t: "term_of cells' pos' = (if pos + 1 < 2000 then term_of (cells[pos := w]) (pos + 1) else (tl (rows_of (cells[pos := w])) @ [replicate 80 blank], 24, (pos + 1) mod 80))"
    using term_of_feed [of "cells[pos := w]" "pos + 1" cells' pos'] f assms by simp
  have p: "pos = 80 * (pos div 80) + pos mod 80" "pos mod 80 < 80" "pos div 80 < 25" using assms by simp_all
  show ?thesis
  proof (cases "pos mod 80 + 1 < 80")
    case True
    have "(pos + 1) div 80 = pos div 80" using True by (simp add: div_Suc mod_Suc)
    moreover have "(pos + 1) mod 80 = pos mod 80 + 1" using True by (simp add: mod_Suc)
    moreover have "pos + 1 < 2000" using p True by linarith
    ultimately show ?thesis using f t True assms by (simp add: term_of_def rows_of_update)
  next
    case False
    then have "pos mod 80 = 79" using p(2) by simp
    then have n: "pos + 1 = 80 * (pos div 80 + 1)" using p(1) by simp
    have d: "(pos + 1) div 80 = pos div 80 + 1" "(pos + 1) mod 80 = 0" using \<open>pos mod 80 = 79\<close> by (simp_all add: div_Suc mod_Suc)
    have "pos + 1 < 2000 \<longleftrightarrow> pos div 80 + 1 < 25" by (subst n) simp
    moreover have "pos div 80 = 24" if "\<not> pos div 80 + 1 < 25" using that p(3) by simp
    ultimately show ?thesis using f t False assms d by (simp add: term_of_def rows_of_update)
  qed
qed

section \<open>Running the output functions\<close>

lemma get_bnd [simp]: "bnd (get f) g (m, c) = g (f c) (m, c)"
  by (simp add: bnd_def get_def)

lemma upd_bnd [simp]: "bnd (upd f) g (m, c) = g () (m, f c)"
  by (simp add: bnd_def upd_def)

lemma upd_run [simp]: "upd f (m, c) = Inr ((), (m, f c))"
  by (simp add: upd_def)

lemma outb_bnd [simp]: "bnd (outb p b) g (m, c) = g () (m, c\<lparr>outs := outs c @ [(p, b)]\<rparr>)"
  by (simp add: outb_def)

lemma outb_run [simp]: "outb p b (m, c) = Inr ((), (m, c\<lparr>outs := outs c @ [(p, b)]\<rparr>))"
  by (simp add: outb_def)

lemma inb_bnd [simp]: "bnd (inb p) g (m, c) = g (port_in c p (reads c p)) (m, c\<lparr>reads := (reads c)(p := Suc (reads c p))\<rparr>)"
  by (simp add: bnd_def inb_def get_def upd_def ret_run)

lemma wait_ready_run: "\<exists>r. wait_ready n p b (m, c) = Inr ((), (m, c\<lparr>reads := r\<rparr>))"
proof (induction n arbitrary: c)
  case 0
  show ?case by (simp add: ret_run) blast
next
  case (Suc n)
  let ?c = "c\<lparr>reads := (reads c)(p := Suc (reads c p))\<rparr>"
  show ?case
  proof (cases "port_in c p (reads c p) AND b = 0")
    case True
    have "\<exists>r. delay (m, ?c) = Inr ((), (m, c\<lparr>reads := r\<rparr>))" by (simp add: delay_def ret_run) blast
    then obtain r where r: "delay (m, ?c) = Inr ((), (m, c\<lparr>reads := r\<rparr>))" by blast
    obtain r' where "wait_ready n p b (m, c\<lparr>reads := r\<rparr>) = Inr ((), (m, c\<lparr>reads := r, reads := r'\<rparr>))" using Suc.IH by blast
    then show ?thesis using True by (auto simp: bnd_Inr [of delay, OF r])
  next
    case False
    then show ?thesis by (simp add: ret_run) blast
  qed
qed

lemma serial_putc_run: "\<exists>r. serial_putc w (m, c) = Inr ((), (m, c\<lparr>reads := r, outs := outs c @ [(0x3F8, ucast w)]\<rparr>))"
proof -
  obtain r where "wait_ready 12800 (COM1 + COM_LSR) COM_LSR_TXRDY (m, c) = Inr ((), (m, c\<lparr>reads := r\<rparr>))" using wait_ready_run by blast
  then show ?thesis by (auto simp: serial_putc_def bnd_Inr [of "wait_ready _ _ _"] COM1_def COM_TX_def)
qed

lemma lpt_putc_run: "\<exists>r. lpt_putc w (m, c) = Inr ((), (m, c\<lparr>reads := r, outs := outs c @ [(0x378, ucast w), (0x37A, 0x0D), (0x37A, 0x08)]\<rparr>))"
proof -
  obtain r where "wait_ready 12800 (0x378 + 1) 0x80 (m, c) = Inr ((), (m, c\<lparr>reads := r\<rparr>))" using wait_ready_run by blast
  then show ?thesis by (auto simp: lpt_putc_def bnd_Inr [of "wait_ready _ _ _"])
qed

definition on_screen :: "vaddr \<Rightarrow> 16 word list \<Rightarrow> bool" where
  "on_screen a cells \<longleftrightarrow> length cells = 2000 \<and> unat a + 4000 < 2 ^ 32"

lemma put_cell_run:
  assumes "on_screen (crt_buf c) cells" "unat i < 2000"
  shows "put_cell i w (disp m (crt_buf c) cells, c) = Inr ((), (disp m (crt_buf c) (cells[unat i := w]), c))"
proof -
  have "crt_buf c + 2 * ucast i = crt_buf c + of_nat (2 * unat i)" by (simp add: unsigned_ucast_eq)
  then show ?thesis using assms disp_update [of "unat i" cells "crt_buf c" w m]
    by (simp add: put_cell_def in_mem_def on_screen_def)
qed

lemma blank_cells_run:
  "on_screen (crt_buf c) cells \<Longrightarrow> unat i + n \<le> 2000 \<Longrightarrow>
   blank_cells n i (disp m (crt_buf c) cells, c) = Inr ((), (disp m (crt_buf c) (take (unat i) cells @ replicate n blank @ drop (unat i + n) cells), c))"
proof (induction n arbitrary: i cells)
  case 0
  then show ?case by (simp add: ret_run)
next
  case (Suc n)
  let ?cells = "cells[unat i := blank]"
  have i: "unat (i + 1) = Suc (unat i)" using Suc.prems(2) by (simp add: unat_word_ariths)
  have l: "length cells = 2000" using Suc.prems(1) by (simp add: on_screen_def)
  have "put_cell i 0x0720 (disp m (crt_buf c) cells, c) = Inr ((), (disp m (crt_buf c) ?cells, c))"
    using put_cell_run [OF Suc.prems(1), of i "0x0720" m] Suc.prems(2) by (simp add: blank_def)
  moreover have "blank_cells n (i + 1) (disp m (crt_buf c) ?cells, c) =
      Inr ((), (disp m (crt_buf c) (take (unat (i + 1)) ?cells @ replicate n blank @ drop (unat (i + 1) + n) ?cells), c))"
    by (rule Suc.IH) (use Suc.prems i in \<open>simp_all add: on_screen_def\<close>)
  moreover have "take (unat (i + 1)) ?cells = take (unat i) cells @ [blank]"
    using i l Suc.prems(2) by (simp add: take_Suc_conv_app_nth)
  moreover have "drop (unat (i + 1) + n) ?cells = drop (unat i + Suc n) cells" using i by simp
  ultimately show ?case by (simp add: bnd_Inr [of "put_cell _ _"])
qed

lemma scroll_run:
  assumes "on_screen (crt_buf c) cells"
  shows "scroll (disp m (crt_buf c) cells, c) = Inr ((), (disp m (crt_buf c) (drop 80 cells @ replicate 80 blank), c\<lparr>crt_pos := crt_pos c - 80\<rparr>))"
proof -
  let ?a = "crt_buf c" and ?cells = "drop 80 cells @ drop 1920 cells"
  have l: "length cells = 2000" "unat ?a + 2 * length cells < 2 ^ 32" using assms by (simp_all add: on_screen_def)
  have "memmove ?a (?a + 2 * of_nat 80) (of_nat 3840) (disp m ?a cells) = Inr (?a, disp m ?a ?cells)"
    using disp_move [OF l(2), of 80 m] l(1) by simp
  then have "in_mem (memmove ?a (?a + 2 * of_nat CRT_COLS) (of_nat ((CRT_SIZE - CRT_COLS) * 2))) (disp m ?a cells, c) = Inr (?a, (disp m ?a ?cells, c))"
    by (simp add: in_mem_def)
  moreover have "blank_cells CRT_COLS (of_nat (CRT_SIZE - CRT_COLS)) (disp m ?a ?cells, c) = Inr ((), (disp m ?a (drop 80 cells @ replicate 80 blank), c))"
    using blank_cells_run [of c ?cells 1920 80 m] assms l(1) by (simp add: on_screen_def)
  ultimately show ?thesis by (simp add: scroll_def bnd_Inr [of "in_mem _"] bnd_Inr [of "blank_cells _ _"] del: crt_sizes) simp
qed

definition cursor :: "port \<Rightarrow> nat \<Rightarrow> (port \<times> byte) list" where
  "cursor addr pos = [(addr, 14), (addr + 1, ucast (drop_bit 8 (of_nat pos :: 16 word))), (addr, 15), (addr + 1, ucast (of_nat pos :: 16 word))]"

lemma unat_16 [simp]: "n < 65536 \<Longrightarrow> unat (of_nat n :: 16 word) = n"
  by (simp add: unat_of_nat take_bit_nat_eq_self)

lemma cga_finish_run:
  assumes scr: "on_screen (crt_buf c) cells" and pos: "crt_pos c = of_nat pos" "pos < 2080" and f: "feed (cells, pos) = (cells', pos')"
  shows "cga_finish (disp m (crt_buf c) cells, c) =
    Inr ((), (disp m (crt_buf c) cells', c\<lparr>crt_pos := of_nat pos', outs := outs c @ cursor (addr_6845 c) pos'\<rparr>))"
proof (cases "pos < 2000")
  case True
  then have "\<not> (2000 :: 16 word) \<le> of_nat pos" "cells' = cells" "pos' = pos" using f by (simp_all add: word_le_nat_alt feed_def)
  then show ?thesis using pos(1) by (simp add: cga_finish_def cursor_def)
next
  case False
  then have "(2000 :: 16 word) \<le> of_nat pos" "cells' = drop 80 cells @ replicate 80 blank" "pos' = pos - 80"
    using f pos(2) by (auto simp: word_le_nat_alt feed_def)
  moreover have "of_nat pos - 80 = (of_nat (pos - 80) :: 16 word)" using False by (simp add: of_nat_diff)
  ultimately show ?thesis using scroll_run [OF scr, of m] pos(1) by (simp add: cga_finish_def cursor_def bnd_Inr [of scroll])
qed

lemma column_0: "(of_nat pos - of_nat pos mod of_nat 80 :: 16 word) = of_nat (80 * (pos div 80))" if "pos < 65536"
proof -
  have "(of_nat pos mod of_nat 80 :: 16 word) = of_nat (pos mod 80)"
    using that by (simp add: word_unat_eq_iff unat_mod)
  then have "(of_nat pos - of_nat pos mod of_nat 80 :: 16 word) = of_nat (pos - pos mod 80)" by (simp add: of_nat_diff)
  also have "pos - pos mod 80 = 80 * (pos div 80)" by (simp add: minus_mod_eq_mult_div)
  finally show ?thesis .
qed

lemma term_of_column_0: "term_of cells (80 * (pos div 80)) = (case term_of cells pos of (rows, r, c) \<Rightarrow> (rows, r, 0))"
  by (simp add: term_of_def)

lemma term_back_flat:
  assumes "length cells = 2000" "pos < 2000"
  shows "term_back w (term_of cells pos) = (if pos = 0 then term_of cells pos else term_of (cells[pos - 1 := w]) (pos - 1))"
proof (cases "pos mod 80 = 0")
  case True
  show ?thesis
  proof (cases "pos = 0")
    case False
    then obtain q where q: "pos = 80 * Suc q" using True by (metis mult_is_0 mod_0_imp_dvd dvdE not0_implies_Suc)
    have "(pos - 1) div 80 = q" "(pos - 1) mod 80 = 79" using q by (auto simp: modulo_nat_def intro!: div_nat_eqI)
    then show ?thesis using q assms by (simp add: term_of_def rows_of_update)
  qed (simp add: term_of_def)
next
  case False
  then obtain p where p: "pos = Suc p" by (cases pos) auto
  then have "p div 80 = pos div 80" "p mod 80 = pos mod 80 - 1" using False by (auto simp: div_Suc mod_Suc split: if_splits)
  then show ?thesis using p assms False by (simp add: term_of_def rows_of_update)
qed

lemma line_feed_flat:
  assumes "length cells = 2000" "pos < 2000" "feed (cells, 80 * ((pos + 80) div 80)) = (cells', pos')"
  shows "term_of cells' pos' = line_feed (case term_of cells pos of (rows, r, c) \<Rightarrow> (rows, r, 0))"
proof -
  have d: "(pos + 80) div 80 = Suc (pos div 80)" "pos div 80 < 25" using assms(2) by simp_all
  have "80 * Suc (pos div 80) < 2080" using d(2) by simp
  then have "term_of cells' pos' = (if 80 * Suc (pos div 80) < 2000 then term_of cells (80 * Suc (pos div 80)) else (tl (rows_of cells) @ [replicate 80 blank], 24, 0))"
    using term_of_feed [OF assms(1) _ assms(3)] d(1) by simp
  then show ?thesis using d by (auto simp: term_of_def)
qed

section \<open>Putting out a character\<close>

lemma cga_putc_run:
  assumes scr: "on_screen (crt_buf c) cells" and pos: "unat (crt_pos c) < 2000" and nt: "attributed w AND 0xFF \<noteq> 0x09"
  shows "\<exists>cells' pos'. cga_putc f w (disp m (crt_buf c) cells, c) =
      Inr ((), (disp m (crt_buf c) cells', c\<lparr>crt_pos := of_nat pos', outs := outs c @ cursor (addr_6845 c) pos'\<rparr>))
    \<and> on_screen (crt_buf c) cells' \<and> pos' < 2000 \<and> term_of cells' pos' = term_putc w (term_of cells (unat (crt_pos c)))"
proof -
  define p where "p = unat (crt_pos c)"
  have p: "crt_pos c = of_nat p" "p < 2000" using pos by (simp_all add: p_def)
  have l: "length cells = 2000" using scr by (simp add: on_screen_def)
  let ?a = "crt_buf c" and ?w = "attributed w"
  let ?ch = "?w AND 0xFF"
  define first where "first = (if ?ch = 0x08 then
             bnd (get crt_pos) (\<lambda>pos.
             if pos > 0 then
               bnd (upd (\<lambda>k. k\<lparr>crt_pos := pos - 1\<rparr>)) (\<lambda>_. put_cell (pos - 1) (ucast (?w AND NOT 0xFF OR 0x20)))
             else ret ())
           else if ?ch = 0x0A then
             bnd (upd (\<lambda>k. k\<lparr>crt_pos := crt_pos k + of_nat CRT_COLS\<rparr>)) (\<lambda>_.
             upd (\<lambda>k. k\<lparr>crt_pos := crt_pos k - crt_pos k mod of_nat CRT_COLS\<rparr>))
           else if ?ch = 0x0D then
             upd (\<lambda>k. k\<lparr>crt_pos := crt_pos k - crt_pos k mod of_nat CRT_COLS\<rparr>)
           else
             bnd (get crt_pos) (\<lambda>pos.
             bnd (upd (\<lambda>k. k\<lparr>crt_pos := pos + 1\<rparr>)) (\<lambda>_. put_cell pos (ucast ?w))))"
  have cga: "cga_putc f w = bnd first (\<lambda>_. cga_finish)"
    unfolding cga_putc_def attributed_def [symmetric] Let_def first_def using nt by simp
  have go: ?thesis if run: "first (disp m ?a cells, c) = Inr ((), (disp m ?a cells1, c\<lparr>crt_pos := of_nat p1\<rparr>))"
    and c1: "length cells1 = 2000" "p1 < 2080" and t: "\<And>cells' pos'. feed (cells1, p1) = (cells', pos') \<Longrightarrow> term_of cells' pos' = term_putc w (term_of cells p)" for cells1 p1
  proof -
    obtain cells' pos' where f: "feed (cells1, p1) = (cells', pos')" by (cases "feed (cells1, p1)")
    have scr1: "on_screen ?a cells1" using scr c1(1) by (simp add: on_screen_def)
    have "cga_finish (disp m ?a cells1, c\<lparr>crt_pos := of_nat p1\<rparr>) = Inr ((), (disp m ?a cells', c\<lparr>crt_pos := of_nat pos', outs := outs c @ cursor (addr_6845 c) pos'\<rparr>))"
      using cga_finish_run [of "c\<lparr>crt_pos := of_nat p1\<rparr>" cells1 p1 cells' pos' m] scr1 c1(2) f by simp
    moreover have "length cells' = 2000 \<and> pos' < 2000" using term_of_feed [OF c1 f] by simp
    moreover have "cga_putc f w (disp m ?a cells, c) = cga_finish (disp m ?a cells1, c\<lparr>crt_pos := of_nat p1\<rparr>)"
      unfolding cga by (rule bnd_Inr [of first, OF run])
    ultimately show ?thesis using t [OF f] scr by (auto simp: on_screen_def p_def)
  qed
  have put: "put_cell (of_nat q) v (disp m ?a cells, c\<lparr>crt_pos := x\<rparr>) = Inr ((), (disp m ?a (cells[q := v]), c\<lparr>crt_pos := x\<rparr>))" if "q < 2000" for q v x
    using put_cell_run [of "c\<lparr>crt_pos := x\<rparr>" cells "of_nat q" v m] scr that by simp
  consider (bs0) "?ch = 0x08" "p = 0" | (bs) "?ch = 0x08" "p \<noteq> 0" | (lf) "?ch = 0x0A" | (cr) "?ch = 0x0D" | (char) "?ch \<noteq> 0x08" "?ch \<noteq> 0x0A" "?ch \<noteq> 0x0D"
    by blast
  then show ?thesis
  proof cases
    case bs0
    then show ?thesis using p l by (intro go [of cells 0]) (simp_all add: first_def ret_run term_putc_def term_back_flat feed_def)
  next
    case bs
    have q: "of_nat p - 1 = (of_nat (p - 1) :: 16 word)" "(0 :: 16 word) < of_nat p" using bs(2) p by (simp_all add: of_nat_diff word_less_nat_alt)
    show ?thesis
      by (rule go [of "cells[p - 1 := ucast (?w AND NOT 0xFF OR 0x20)]" "p - 1"])
        (use bs p l q put [of "p - 1"] in \<open>simp_all add: first_def term_putc_def Let_def term_back_flat feed_def split: if_splits\<close>)
  next
    case lf
    have c0: "(of_nat p + 80 - (of_nat p + 80) mod 80 :: 16 word) = of_nat (80 * ((p + 80) div 80))" using column_0 [of "p + 80"] p(2) by simp
    show ?thesis
      by (rule go [of cells "80 * ((p + 80) div 80)"]) (use lf p l c0 line_feed_flat [OF l p(2)] in \<open>simp_all add: first_def term_putc_def Let_def\<close>)
  next
    case cr
    have c0: "(of_nat p - of_nat p mod 80 :: 16 word) = of_nat (80 * (p div 80))" using column_0 [of p] p(2) by simp
    have "80 * (p div 80) < 2000" using p(2) by (metis div_times_less_eq_dividend le_less_trans mult.commute)
    then show ?thesis
      by (intro go [of cells "80 * (p div 80)"]) (use cr p l c0 term_of_column_0 in \<open>simp_all add: first_def term_putc_def Let_def feed_def\<close>)
  next
    case char
    have "put_cell (of_nat p) (ucast ?w) (disp m ?a cells, c\<lparr>crt_pos := of_nat p + 1\<rparr>) = Inr ((), (disp m ?a (cells[p := ucast ?w]), c\<lparr>crt_pos := of_nat p + 1\<rparr>))"
      by (rule put [OF p(2)])
    then show ?thesis
      using char p l nt term_put_flat [OF l p(2), of "ucast ?w"]
      by (intro go [of "cells[p := ucast ?w]" "p + 1"]) (simp_all add: first_def term_putc_def Let_def add.commute)
  qed
qed

text \<open>
  The terminal \<open>t\<close> is on display: the cells from \<open>a\<close> on in an otherwise unchanged memory \<open>m\<close>, and the
  cursor.  \<open>serial_out\<close> is what went to the serial port.
\<close>

definition shows_terminal :: "jmem \<Rightarrow> vaddr \<Rightarrow> terminal \<Rightarrow> console pstate \<Rightarrow> bool" where
  "shows_terminal m a t s \<longleftrightarrow>
     (\<exists>cells. fst s = disp m a cells \<and> on_screen a cells \<and> t = term_of cells (unat (crt_pos (snd s)))) \<and>
     crt_buf (snd s) = a \<and> unat (crt_pos (snd s)) < 2000 \<and> addr_6845 (snd s) \<in> {MONO_BASE, CGA_BASE}"

definition serial_out :: "console \<Rightarrow> byte list" where
  "serial_out c = map snd (filter (\<lambda>e. fst e = 0x3F8) (outs c))"

definition output_only :: "console \<Rightarrow> console \<Rightarrow> bool" where
  "output_only c c' \<longleftrightarrow> c' = c\<lparr>reads := reads c', outs := outs c', crt_pos := crt_pos c'\<rparr>"

definition serial_text :: "32 word \<Rightarrow> byte list" where
  "serial_text w = ucast w # (if attributed w AND 0xFF = 0x09 then replicate 5 0x20 else [])"

lemma output_only_trans: "output_only c d \<Longrightarrow> output_only d e \<Longrightarrow> output_only c e"
  by (cases c; cases d; cases e) (simp add: output_only_def)

lemma cursor_not_serial: "addr \<in> {MONO_BASE, CGA_BASE} \<Longrightarrow> filter (\<lambda>e. fst e = 0x3F8) (cursor addr pos) = []"
  by (auto simp: cursor_def MONO_BASE_def CGA_BASE_def)

lemma cons_putc_depth_run:
  assumes t: "shows_terminal m a t s" and nt: "attributed w AND 0xFF \<noteq> 0x09"
  shows "\<exists>s'. cons_putc_depth (Suc d) w s = Inr ((), s') \<and> shows_terminal m a (term_putc w t) s'
    \<and> output_only (snd s) (snd s') \<and> serial_out (snd s') = serial_out (snd s) @ [ucast w]"
proof -
  obtain c cells where s: "s = (disp m a cells, c)" "crt_buf c = a" "on_screen a cells" "unat (crt_pos c) < 2000" "t = term_of cells (unat (crt_pos c))"
    "addr_6845 c \<in> {MONO_BASE, CGA_BASE}" using t by (cases s) (auto simp: shows_terminal_def)
  obtain r1 where r1: "serial_putc w (disp m a cells, c) = Inr ((), (disp m a cells, c\<lparr>reads := r1, outs := outs c @ [(0x3F8, ucast w)]\<rparr>))"
    using serial_putc_run by blast
  let ?c1 = "c\<lparr>reads := r1, outs := outs c @ [(0x3F8, ucast w)]\<rparr>"
  obtain r2 where r2: "lpt_putc w (disp m a cells, ?c1) = Inr ((), (disp m a cells, ?c1\<lparr>reads := r2, outs := outs ?c1 @ [(0x378, ucast w), (0x37A, 0x0D), (0x37A, 0x08)]\<rparr>))"
    using lpt_putc_run by blast
  define c2 where "c2 = ?c1\<lparr>reads := r2, outs := outs ?c1 @ [(0x378, ucast w), (0x37A, 0x0D), (0x37A, 0x08)]\<rparr>"
  have c2: "crt_buf c2 = a" "crt_pos c2 = crt_pos c" "addr_6845 c2 = addr_6845 c" by (simp_all add: c2_def s(2))
  obtain cells' pos' where g: "cga_putc (cons_putc_depth d) w (disp m a cells, c2) = Inr ((), (disp m a cells', c2\<lparr>crt_pos := of_nat pos', outs := outs c2 @ cursor (addr_6845 c) pos'\<rparr>))"
    "on_screen a cells'" "pos' < 2000" "term_of cells' pos' = term_putc w t"
    using cga_putc_run [of c2 cells w "cons_putc_depth d" m] s(3-5) nt c2 by auto
  let ?s' = "(disp m a cells', c2\<lparr>crt_pos := of_nat pos', outs := outs c2 @ cursor (addr_6845 c) pos'\<rparr>)"
  have "cons_putc_depth (Suc d) w s = Inr ((), ?s')"
    unfolding s(1) cons_putc_depth.simps bnd_Inr [of "serial_putc w", OF r1] bnd_Inr [of "lpt_putc w", OF r2] c2_def [symmetric] by (rule g(1))
  moreover have "shows_terminal m a (term_putc w t) ?s'" using g s(6) c2 by (auto simp: shows_terminal_def)
  moreover have "output_only (snd s) (snd ?s')" by (simp add: s(1) output_only_def c2_def)
  moreover have "serial_out (snd ?s') = serial_out (snd s) @ [ucast w]" using cursor_not_serial [OF s(6)] by (simp add: s(1) serial_out_def c2_def)
  ultimately show ?thesis by blast
qed

lemma spaces_run:
  assumes "shows_terminal m a t s"
  shows "\<exists>s'. put_times (\<lambda>_. cons_putc_depth (Suc d) 0x20) n x s = Inr ((), s') \<and> shows_terminal m a ((term_put blank ^^ n) t) s'
    \<and> output_only (snd s) (snd s') \<and> serial_out (snd s') = serial_out (snd s) @ replicate n 0x20"
  using assms
proof (induction n arbitrary: s t)
  case 0
  then show ?case by (auto simp: ret_run output_only_def)
next
  case (Suc n)
  have sp: "attributed 0x20 AND 0xFF = 0x20" "ucast (attributed 0x20) = blank" "ucast (0x20 :: 32 word) = (0x20 :: byte)" by (simp_all add: attributed_def blank_def)
  obtain s1 where s1: "cons_putc_depth (Suc d) 0x20 s = Inr ((), s1)" "shows_terminal m a (term_put blank t) s1" "output_only (snd s) (snd s1)"
    "serial_out (snd s1) = serial_out (snd s) @ [0x20]"
    using cons_putc_depth_run [OF Suc.prems, of "0x20" d] sp by (auto simp: term_putc_def Let_def)
  obtain s2 where s2: "put_times (\<lambda>_. cons_putc_depth (Suc d) 0x20) n x s1 = Inr ((), s2)" "shows_terminal m a ((term_put blank ^^ n) (term_put blank t)) s2"
    "output_only (snd s1) (snd s2)" "serial_out (snd s2) = serial_out (snd s1) @ replicate n 0x20"
    using Suc.IH [OF s1(2)] by blast
  have "put_times (\<lambda>_. cons_putc_depth (Suc d) 0x20) (Suc n) x s = Inr ((), s2)"
    using s2(1) by (simp only: put_times.simps bnd_Inr [of "cons_putc_depth (Suc d) 0x20", OF s1(1)])
  moreover have "(term_put blank ^^ Suc n) t = (term_put blank ^^ n) (term_put blank t)" by (simp add: funpow_swap1)
  ultimately show ?case using s2 s1(3,4) output_only_trans by auto
qed

lemma bnd_ret_right: "bnd c ret = c"
  by (rule ext) (auto simp: bnd_def ret_run split: sum.split)

lemma five_times: "put_times p 5 x = bnd (p x) (\<lambda>_. bnd (p x) (\<lambda>_. bnd (p x) (\<lambda>_. bnd (p x) (\<lambda>_. p x))))"
  by (simp add: numeral_eq_Suc bnd_ret_right)

lemma cga_finish_still:
  assumes "shows_terminal m a t s"
  shows "\<exists>s'. cga_finish s = Inr ((), s') \<and> shows_terminal m a t s' \<and> output_only (snd s) (snd s') \<and> serial_out (snd s') = serial_out (snd s)"
proof -
  obtain c cells where s: "s = (disp m a cells, c)" "crt_buf c = a" "on_screen a cells" "unat (crt_pos c) < 2000" "t = term_of cells (unat (crt_pos c))"
    "addr_6845 c \<in> {MONO_BASE, CGA_BASE}" using assms by (cases s) (auto simp: shows_terminal_def)
  let ?s' = "(disp m a cells, c\<lparr>outs := outs c @ cursor (addr_6845 c) (unat (crt_pos c))\<rparr>)"
  have "cga_finish s = Inr ((), ?s')"
    using cga_finish_run [of c cells "unat (crt_pos c)" cells "unat (crt_pos c)" m] s by (simp add: feed_def)
  moreover have "shows_terminal m a t ?s'" using s by (auto simp: shows_terminal_def)
  moreover have "output_only (snd s) (snd ?s') \<and> serial_out (snd ?s') = serial_out (snd s)"
    using cursor_not_serial [OF s(6)] by (simp add: s(1) output_only_def serial_out_def)
  ultimately show ?thesis by blast
qed

lemma cons_putc_run:
  assumes t: "shows_terminal m a t s"
  shows "\<exists>s'. cons_putc w s = Inr ((), s') \<and> shows_terminal m a (term_putc w t) s'
    \<and> output_only (snd s) (snd s') \<and> serial_out (snd s') = serial_out (snd s) @ serial_text w"
proof (cases "attributed w AND 0xFF = 0x09")
  case False
  then show ?thesis using cons_putc_depth_run [OF t, of w "Suc 0"] by (simp add: cons_putc_def serial_text_def numeral_2_eq_2 del: cons_putc_depth.simps)
next
  case tab: True
  let ?p = "cons_putc_depth (Suc 0)"
  obtain m1 c where s: "s = (m1, c)" by (cases s)
  obtain r1 where r1: "serial_putc w (m1, c) = Inr ((), (m1, c\<lparr>reads := r1, outs := outs c @ [(0x3F8, ucast w)]\<rparr>))" using serial_putc_run by blast
  let ?c1 = "c\<lparr>reads := r1, outs := outs c @ [(0x3F8, ucast w)]\<rparr>"
  obtain r2 where r2: "lpt_putc w (m1, ?c1) = Inr ((), (m1, ?c1\<lparr>reads := r2, outs := outs ?c1 @ [(0x378, ucast w), (0x37A, 0x0D), (0x37A, 0x08)]\<rparr>))"
    using lpt_putc_run by blast
  let ?s2 = "(m1, ?c1\<lparr>reads := r2, outs := outs ?c1 @ [(0x378, ucast w), (0x37A, 0x0D), (0x37A, 0x08)]\<rparr>)"
  have s2: "shows_terminal m a t ?s2" using t s by (simp add: shows_terminal_def)
  have o2: "output_only (snd s) (snd ?s2)" "serial_out (snd ?s2) = serial_out (snd s) @ [ucast w]" by (simp_all add: s output_only_def serial_out_def)
  obtain s3 where s3: "put_times (\<lambda>_. ?p 0x20) 5 0 ?s2 = Inr ((), s3)" "shows_terminal m a ((term_put blank ^^ 5) t) s3"
    "output_only (snd ?s2) (snd s3)" "serial_out (snd s3) = serial_out (snd ?s2) @ replicate 5 0x20"
    using spaces_run [OF s2, of 0 5 0] by blast
  obtain s4 where s4: "cga_finish s3 = Inr ((), s4)" "shows_terminal m a ((term_put blank ^^ 5) t) s4" "output_only (snd s3) (snd s4)" "serial_out (snd s4) = serial_out (snd s3)"
    using cga_finish_still [OF s3(2)] by blast
  have "cga_putc ?p w = bnd (put_times (\<lambda>_. ?p 0x20) 5 0) (\<lambda>_. cga_finish)"
    unfolding cga_putc_def attributed_def [symmetric] Let_def tab by (simp add: five_times del: cons_putc_depth.simps)
  then have "cga_putc ?p w ?s2 = Inr ((), s4)" by (simp only: bnd_Inr [of "put_times (\<lambda>_. ?p 0x20) 5 0", OF s3(1)] s4(1))
  then have "cons_putc w s = Inr ((), s4)"
    unfolding s cons_putc_def numeral_2_eq_2 cons_putc_depth.simps(2) [of "Suc 0"] bnd_Inr [of "serial_putc w", OF r1] bnd_Inr [of "lpt_putc w", OF r2] .
  moreover have "term_putc w t = (term_put blank ^^ 5) t" by (simp add: term_putc_def Let_def tab)
  moreover have "output_only (snd s) (snd s4)" using o2(1) s3(3) s4(3) output_only_trans by blast
  moreover have "serial_out (snd s4) = serial_out (snd s) @ serial_text w" using o2(2) s3(4) s4(4) by (simp add: serial_text_def tab)
  ultimately show ?thesis using s4(2) by (intro exI [of _ s4]) simp
qed

section \<open>The console as an output\<close>

definition term_text :: "int list \<Rightarrow> terminal \<Rightarrow> terminal" where
  "term_text cs t = fold (\<lambda>c. term_putc (word_of_int c)) cs t"

definition console_shows :: "jmem \<Rightarrow> vaddr \<Rightarrow> terminal \<Rightarrow> console \<Rightarrow> int list \<Rightarrow> console pstate \<Rightarrow> bool" where
  "console_shows m a t c cs s \<longleftrightarrow> unat a + 4000 < 2 ^ 32 \<and> shows_terminal m a (term_text cs t) s \<and> output_only c (snd s)
     \<and> serial_out (snd s) = serial_out c @ concat (map (\<lambda>c. serial_text (word_of_int c)) cs)"

interpretation screen: sink putch "console_shows m a t c" "outside m a 4000" n for m a t c n
proof
  fix cs s
  assume s: "console_shows m a t c cs s"
  then obtain cells where cells: "fst s = disp m a cells" "on_screen a cells" by (auto simp: console_shows_def shows_terminal_def)
  have "outside m a 4000 x = Some b \<Longrightarrow> fst s x = Some b" for x b
    using cells by (auto simp: outside_def disp_def overwrite_def on_screen_def split: if_splits)
  then show "outside m a 4000 \<subseteq>\<^sub>m fst s" by (auto simp: map_le_def dom_def)
next
  fix cs s ch
  assume s: "console_shows m a t c cs s"
  then have s': "shows_terminal m a (term_text cs t) s" "output_only c (snd s)" by (simp_all add: console_shows_def)
  obtain s' where "cons_putc (word_of_int ch) s = Inr ((), s')" "shows_terminal m a (term_putc (word_of_int ch) (term_text cs t)) s'"
    "output_only (snd s) (snd s')" "serial_out (snd s') = serial_out (snd s) @ serial_text (word_of_int ch)"
    using cons_putc_run [OF s'(1)] by blast
  then show "\<exists>s'. putch ch s = Inr ((), s') \<and> console_shows m a t c (cs @ [ch]) s'"
    using s s'(2) output_only_trans by (auto simp: console_shows_def putch_def cputchar_def term_text_def)
qed

lemma cprintf_run:
  assumes "shows_terminal m a t s" "\<forall>it \<in> set items. item_ok (outside m a 4000) lit it \<and> item_size it \<le> B"
    "bytes_at (outside m a 4000) fmt (concat (map render items) @ [0])" "Suc (length (concat (map render items)) + B) < k"
  shows "\<exists>s'. cprintf lit k fmt (concat (map args items)) s = Inr (0, s') \<and> shows_terminal m a (term_text (concat (map shown items)) t) s'
    \<and> output_only (snd s) (snd s')
    \<and> serial_out (snd s') = serial_out (snd s) @ concat (map (\<lambda>c. serial_text (word_of_int c)) (concat (map shown items)))"
proof -
  have "unat a + 4000 < 2 ^ 32" using assms(1) by (auto simp: shows_terminal_def on_screen_def)
  then have s0: "console_shows m a t (snd s) [] s" using assms(1) by (simp add: console_shows_def term_text_def output_only_def)
  have "prints (console_shows m a t (snd s)) (length (concat (map shown items))) (vprintfmt putch lit k fmt (concat (map args items))) () (concat (map shown items))"
    by (rule screen.vprintfmt_prints [OF assms(2-4)])
  from this [unfolded prints_def, rule_format, OF s0]
  obtain s' where "vprintfmt putch lit k fmt (concat (map args items)) s = Inr ((), s')" "console_shows m a t (snd s) (concat (map shown items)) s'"
    by auto
  then show ?thesis by (auto simp: cprintf_def vcprintf_def bnd_def ret_run console_shows_def)
qed

section \<open>Properties\<close>

text \<open>
  C26: \<open>cons_putc\<close> implements a terminal of 25 rows and 80 columns: writing a character, carriage return,
  line feed, backspace across line ends and tabs, and scrolling when the cursor leaves the last row.  It
  writes no memory outside the display, sends the character to the serial port, ends even when no
  device ever gets ready, and leaves the input side of the console alone.
\<close>

theorem cons_putc_refines_terminal:
  assumes "shows_terminal m a t s"
  shows "\<exists>s'. cons_putc w s = Inr ((), s') \<and> shows_terminal m a (term_putc w t) s'
    \<and> output_only (snd s) (snd s') \<and> serial_out (snd s') = serial_out (snd s) @ serial_text w"
  using assms by (rule cons_putc_run)

definition idle_console :: console where
  "idle_console = \<lparr>port_in = (\<lambda>_ _. 0), reads = (\<lambda>_. 0), outs = [], answers = True, serial_exists = True, addr_6845 = CGA_BASE,
     crt_buf = KERNBASE + CGA_BUF, crt_pos = 0, shift = 0, cons_buf = replicate CONSBUFSIZE 0, rpos = 0, wpos = 0\<rparr>"

definition blank_screen :: "console pstate" where
  "blank_screen = (disp Map.empty (KERNBASE + CGA_BUF) (replicate 2000 blank), idle_console)"

lemma blank_screen_shows: "shows_terminal Map.empty (KERNBASE + CGA_BUF) (term_of (replicate 2000 blank) 0) blank_screen"
  by (auto simp: shows_terminal_def blank_screen_def idle_console_def on_screen_def KERNBASE_def CGA_BUF_def)

theorem cons_putc_refines_terminal_witness:
  "\<exists>s'. cons_putc 0x41 blank_screen = Inr ((), s')
    \<and> shows_terminal Map.empty (KERNBASE + CGA_BUF) (term_putc 0x41 (term_of (replicate 2000 blank) 0)) s'
    \<and> output_only (snd blank_screen) (snd s') \<and> serial_out (snd s') = serial_out (snd blank_screen) @ serial_text 0x41"
  by (rule cons_putc_refines_terminal [OF blank_screen_shows])

text \<open>
  C27: \<open>cprintf\<close> shows on the terminal what its format means, for every format made of the directives of
  \<open>snprintf\<close>, and sends the same text to the serial port.  It always returns 0 instead of the number of
  characters, because \<open>putch\<close> increments the pointer to its counter.
\<close>

theorem cprintf_shows_format:
  assumes "shows_terminal m a t s" "\<forall>it \<in> set items. item_ok (outside m a 4000) lit it \<and> item_size it \<le> B"
    "bytes_at (outside m a 4000) fmt (concat (map render items) @ [0])" "Suc (length (concat (map render items)) + B) < k"
  shows "\<exists>s'. cprintf lit k fmt (concat (map args items)) s = Inr (0, s') \<and> shows_terminal m a (term_text (concat (map shown items)) t) s'
    \<and> output_only (snd s) (snd s')
    \<and> serial_out (snd s') = serial_out (snd s) @ concat (map (\<lambda>c. serial_text (word_of_int c)) (concat (map shown items)))"
  using assms by (rule cprintf_run)

definition hello_format :: jmem where
  "hello_format = overwrite Map.empty 0x1000 [0x25, 0x64, 0x0A, 0]"

theorem cprintf_shows_format_witness:
  "\<exists>s'. cprintf (\<lambda>_. 0) 10 0x1000 [- 7] (disp hello_format (KERNBASE + CGA_BUF) (replicate 2000 blank), idle_console) = Inr (0, s')
    \<and> shows_terminal hello_format (KERNBASE + CGA_BUF) (term_text [0x2D, 0x37, 0x0A] (term_of (replicate 2000 blank) 0)) s'"
proof -
  let ?items = "[Decimal False 0 (Int32 (- 7)), Plain 0x0A]" and ?a = "KERNBASE + CGA_BUF"
  have t: "shows_terminal hello_format ?a (term_of (replicate 2000 blank) 0) (disp hello_format ?a (replicate 2000 blank), idle_console)"
    by (auto simp: shows_terminal_def idle_console_def on_screen_def KERNBASE_def CGA_BUF_def)
  have r: "concat (map render ?items) = [0x25, 0x64, 0x0A]" and s: "concat (map shown ?items) = [0x2D, 0x37, 0x0A]" and g: "concat (map args ?items) = [- 7]"
    by code_simp+
  have i: "\<forall>it \<in> set ?items. item_ok (outside hello_format ?a 4000) (\<lambda>_. 0) it \<and> item_size it \<le> 0" by (simp add: size_ok_def)
  have f: "bytes_at (outside hello_format ?a 4000) 0x1000 (concat (map render ?items) @ [0])"
    unfolding r by (simp add: hello_format_def outside_def overwrite_def KERNBASE_def CGA_BUF_def nth_Cons')
  from cprintf_shows_format [OF t i f, of 10] show ?thesis unfolding r s g by auto
qed

end
