(* ===== verification/ConsoleInput.thy ===== *)
theory ConsoleInput
  imports ConsoleScreen
begin

text \<open>
  The input side of the JOS console (mit6.828/lab/kern/console.c, lib/readline.c): the circular buffer as
  a queue, the two devices that fill it, and the line editor that empties it.

  \<open>fifo\<close> is what the rest of the kernel relies on about the buffer and \<open>input_device\<close> what the polling loop
  relies on about a device; the serial port and the keyboard are its two interpretations.
  \<open>line_source\<close> is what \<open>readline\<close> relies on about \<open>getchar\<close>.
\<close>

section \<open>The circular buffer\<close>

definition queued :: "console \<Rightarrow> nat" where
  "queued c = (unat (wpos c) + CONSBUFSIZE - unat (rpos c)) mod CONSBUFSIZE"

definition queue :: "console pstate \<Rightarrow> byte list" where
  "queue s = map (\<lambda>i. cons_buf (snd s) ! ((unat (rpos (snd s)) + i) mod CONSBUFSIZE)) [0..<queued (snd s)]"

definition ring_ok :: "console pstate \<Rightarrow> bool" where
  "ring_ok s \<longleftrightarrow> length (cons_buf (snd s)) = CONSBUFSIZE \<and> unat (rpos (snd s)) < CONSBUFSIZE \<and> unat (wpos (snd s)) < CONSBUFSIZE"

text \<open>What the buffer is not: the memory and the other variables of the console.\<close>

definition besides_ring :: "console pstate \<Rightarrow> jmem \<times> console" where
  "besides_ring s = (fst s, (snd s)\<lparr>cons_buf := [], rpos := 0, wpos := 0\<rparr>)"

locale fifo =
  fixes ok :: "'s \<Rightarrow> bool" and contents :: "'s \<Rightarrow> byte list" and rest :: "'s \<Rightarrow> 'r" and cap :: nat
    and enq :: "byte \<Rightarrow> ('s, unit) cmd" and deq :: "('s, int) cmd"
  assumes enq_law: "ok s \<Longrightarrow> length (contents s) < cap \<Longrightarrow>
      \<exists>s'. enq b s = Inr ((), s') \<and> ok s' \<and> contents s' = contents s @ [b] \<and> rest s' = rest s"
    and deq_empty: "ok s \<Longrightarrow> contents s = [] \<Longrightarrow> deq s = Inr (0, s)"
    and deq_law: "ok s \<Longrightarrow> contents s = b # bs \<Longrightarrow> \<exists>s'. deq s = Inr (uint b, s') \<and> ok s' \<and> contents s' = bs \<and> rest s' = rest s"
begin

lemma deq_head:
  assumes "ok s"
  shows "\<exists>s'. deq s = Inr (case contents s of [] \<Rightarrow> 0 | b # _ \<Rightarrow> uint b, s') \<and> ok s' \<and> contents s' = tl (contents s) \<and> rest s' = rest s"
  using assms deq_empty [of s] deq_law [of s] by (cases "contents s") auto

end

lemma unat_next: "unat w < 512 \<Longrightarrow> unat (if w + 1 = (512 :: 32 word) then 0 else w + 1) = (unat w + 1) mod 512"
proof -
  assume w: "unat w < 512"
  then have u: "unat (w + 1) = unat w + 1" by (simp add: unat_word_ariths)
  then have "w + 1 = 512 \<longleftrightarrow> unat w + 1 = 512" by (simp add: word_unat_eq_iff)
  then show ?thesis using u w by auto
qed

lemma queued_less: "queued c < 512"
  by (simp add: queued_def CONSBUFSIZE_def)

lemma ring_offset: "(r + (w + 512 - r) mod 512) mod 512 = w" if "r < 512" "w < (512 :: nat)"
  using that by (simp add: mod_simps)

lemma ring_distinct: "(r + i) mod 512 \<noteq> (r + j) mod 512" if "i < j" "j < (512 :: nat)"
proof
  assume "(r + i) mod 512 = (r + j) mod 512"
  then have "512 dvd r + j - (r + i)" using mod_eq_dvd_iff_nat [of "r + i" "r + j" 512] that(1) by simp
  then show False using that by (auto dest: dvd_imp_le)
qed

lemma queued_store: "(Suc w mod 512 + 512 - r) mod 512 = Suc ((w + 512 - r) mod 512)" if "(w + 512 - r) mod 512 < 511" "r < 512" "w < (512 :: nat)"
proof -
  have "(Suc w mod 512 + 512 - r) mod 512 = (Suc w mod 512 + (512 - r)) mod 512" using that(2) by simp
  also have "\<dots> = Suc (w + (512 - r)) mod 512" by (simp add: mod_simps)
  also have "w + (512 - r) = w + 512 - r" using that(2) by simp
  finally show ?thesis using that(1) by (simp add: mod_Suc)
qed

lemma queued_take: "(w + 512 - Suc r mod 512) mod 512 = (w + 512 - r) mod 512 - 1" if "r \<noteq> w" "r < 512" "w < (512 :: nat)"
proof (cases "r < w")
  case True
  then have "(w + 512 - r) mod 512 = w - r" "Suc r mod 512 = Suc r" using that by (simp_all add: mod_if)
  then show ?thesis using True that by (simp add: mod_if)
next
  case False
  then have "w + 512 - r < 512" using that by simp
  then show ?thesis using that by (auto simp: mod_Suc)
qed

lemma cons_store_run:
  assumes ok: "ring_ok s" and room: "length (queue s) < 511"
  shows "\<exists>s'. cons_store b s = Inr ((), s') \<and> ring_ok s' \<and> queue s' = queue s @ [b] \<and> besides_ring s' = besides_ring s"
proof -
  obtain m c where s: "s = (m, c)" by (cases s)
  let ?w = "wpos c" and ?r = "unat (rpos c)"
  define c' where "c' = c\<lparr>cons_buf := (cons_buf c)[unat ?w := b], wpos := (if ?w + 1 = 512 then 0 else ?w + 1)\<rparr>"
  have c: "length (cons_buf c) = 512" "?r < 512" "unat ?w < 512" using ok by (simp_all add: s ring_ok_def CONSBUFSIZE_def)
  have n: "queued c < 511" using room by (simp add: s queue_def)
  have c': "unat (wpos c') = (unat ?w + 1) mod 512" "cons_buf c' = (cons_buf c)[unat ?w := b]" "rpos c' = rpos c"
    using unat_next [OF c(3)] by (simp_all add: c'_def)
  have q': "queued c' = Suc (queued c)" using queued_store [of "unat ?w" ?r] n c c' by (simp add: queued_def CONSBUFSIZE_def)
  have last: "(?r + queued c) mod 512 = unat ?w" using ring_offset [OF c(2,3)] by (simp add: queued_def CONSBUFSIZE_def)
  have "unat ?w \<noteq> (?r + i) mod 512" if "i < queued c" for i using ring_distinct [OF that, of ?r] n last by simp
  then have "queue (m, c') = queue (m, c) @ [b]" using c last by (simp add: queue_def q' c' CONSBUFSIZE_def)
  moreover have "cons_store b s = Inr ((), (m, c'))" using c(3) by (simp add: s c'_def cons_store_def CONSBUFSIZE_def)
  moreover have "ring_ok (m, c')" using c c' by (simp add: ring_ok_def CONSBUFSIZE_def)
  moreover have "besides_ring (m, c') = besides_ring s" by (simp add: s c'_def besides_ring_def)
  ultimately show ?thesis using s by blast
qed

lemma cons_take_run:
  assumes ok: "ring_ok s" and q: "queue s = b # bs"
  shows "\<exists>s'. cons_take s = Inr (uint b, s') \<and> ring_ok s' \<and> queue s' = bs \<and> besides_ring s' = besides_ring s"
proof -
  obtain m c where s: "s = (m, c)" by (cases s)
  let ?r = "rpos c" and ?w = "unat (wpos c)"
  define c' where "c' = c\<lparr>rpos := (if ?r + 1 = 512 then 0 else ?r + 1)\<rparr>"
  have c: "length (cons_buf c) = 512" "unat ?r < 512" "?w < 512" using ok by (simp_all add: s ring_ok_def CONSBUFSIZE_def)
  have n: "queued c > 0" using q by (cases "queued c") (auto simp: s queue_def)
  then have rw: "unat ?r \<noteq> ?w" by (auto simp: queued_def CONSBUFSIZE_def)
  have c': "unat (rpos c') = (unat ?r + 1) mod 512" "cons_buf c' = cons_buf c" "wpos c' = wpos c"
    using unat_next [OF c(2)] by (simp_all add: c'_def)
  have q': "queued c' = queued c - 1" using queued_take [OF rw c(2,3)] c' by (simp add: queued_def CONSBUFSIZE_def)
  have "[0..<queued c] = 0 # map Suc [0..<queued c']" unfolding q' using n by (simp add: upt_conv_Cons map_Suc_upt)
  then have "queue (m, c) = cons_buf c ! unat ?r # queue (m, c')" using c(2) by (simp add: queue_def c' CONSBUFSIZE_def mod_simps)
  then have h: "cons_buf c ! unat ?r = b" "queue (m, c') = bs" using q s by auto
  have "cons_take s = Inr (uint b, (m, c'))"
    using rw c(2) h(1) by (auto simp: s c'_def cons_take_def CONSBUFSIZE_def ret_run)
  moreover have "ring_ok (m, c')" using c c' by (simp add: ring_ok_def CONSBUFSIZE_def)
  moreover have "besides_ring (m, c') = besides_ring s" by (simp add: s c'_def besides_ring_def)
  ultimately show ?thesis using h(2) by blast
qed

lemma cons_take_empty: "ring_ok s \<Longrightarrow> queue s = [] \<Longrightarrow> cons_take s = Inr (0, s)"
proof -
  assume ok: "ring_ok s" and q: "queue s = []"
  obtain m c where s: "s = (m, c)" by (cases s)
  have "(unat (wpos c) + 512 - unat (rpos c)) mod 512 = 0" using q by (simp add: s queue_def queued_def CONSBUFSIZE_def)
  then have "unat (rpos c) = unat (wpos c)" using ring_offset [of "unat (rpos c)" "unat (wpos c)"] ok by (simp add: s ring_ok_def CONSBUFSIZE_def)
  then show ?thesis by (simp add: s cons_take_def ret_run word_unat_eq_iff)
qed

text \<open>A buffer of 512 bytes holds 511 characters: storing one more makes it look empty.\<close>

interpretation ring: fifo ring_ok queue besides_ring "CONSBUFSIZE - 1" cons_store cons_take
  by unfold_locales (use cons_store_run cons_take_run cons_take_empty in \<open>simp_all add: CONSBUFSIZE_def\<close>)

section \<open>The devices\<close>

definition same_ring :: "console pstate \<Rightarrow> console pstate \<Rightarrow> bool" where
  "same_ring s s' \<longleftrightarrow> cons_buf (snd s') = cons_buf (snd s) \<and> rpos (snd s') = rpos (snd s) \<and> wpos (snd s') = wpos (snd s)"

lemma same_ring_queue: "same_ring s s' \<Longrightarrow> queue s' = queue s \<and> (ring_ok s' \<longleftrightarrow> ring_ok s)"
  by (simp add: same_ring_def queue_def queued_def ring_ok_def)

text \<open>The characters among the values that a device routine returned.\<close>

definition chars :: "int list \<Rightarrow> byte list" where
  "chars vs = map word_of_int (filter (\<lambda>v. v \<noteq> 0) vs)"

lemma chars_Cons: "chars (v # vs) = chars [v] @ chars vs"
  by (simp add: chars_def)

text \<open>
  \<open>pending vs s\<close>: the routine is about to return the values \<open>vs\<close> and then to report that there is nothing
  more; \<open>frame\<close> bounds what it changes, \<open>final\<close> holds at the end.
\<close>

locale input_device = fifo ring_ok queue besides_ring "CONSBUFSIZE - 1" cons_store cons_take +
  fixes proc :: "int kcmd" and pending :: "int list \<Rightarrow> console pstate \<Rightarrow> bool"
    and frame :: "console pstate \<Rightarrow> console pstate \<Rightarrow> bool" and final :: "console pstate \<Rightarrow> bool"
  assumes quiet: "pending [] s \<Longrightarrow> \<exists>s'. proc s = Inr (- 1, s') \<and> same_ring s s' \<and> frame s s' \<and> final s'"
    and busy: "pending (v # vs) s \<Longrightarrow> \<exists>s'. v \<noteq> - 1 \<and> proc s = Inr (v, s') \<and> same_ring s s' \<and> frame s s' \<and> pending vs s'"
    and apart: "besides_ring s' = besides_ring s \<Longrightarrow> frame s s' \<and> (pending vs s \<longrightarrow> pending vs s')"
    and frame_trans: "frame s s' \<Longrightarrow> frame s' s'' \<Longrightarrow> frame s s''"
begin

lemma cons_intr_drains:
  "ring_ok s \<Longrightarrow> pending vs s \<Longrightarrow> length (queue s @ chars vs) < CONSBUFSIZE \<Longrightarrow> length vs < k \<Longrightarrow>
   \<exists>s'. cons_intr k proc s = Inr ((), s') \<and> ring_ok s' \<and> queue s' = queue s @ chars vs \<and> frame s s' \<and> final s'"
proof (induction vs arbitrary: s k)
  case Nil
  then obtain k' where k: "k = Suc k'" by (cases k) auto
  obtain s' where s': "proc s = Inr (- 1, s')" "same_ring s s'" "frame s s'" "final s'" using quiet [OF Nil.prems(2)] by blast
  show ?case using same_ring_queue [OF s'(2)] Nil.prems(1) s'(3,4) by (auto simp: k bnd_Inr [of proc, OF s'(1)] ret_run chars_def)
next
  case (Cons v vs)
  then obtain k' where k: "k = Suc k'" by (cases k) auto
  obtain s1 where s1: "v \<noteq> - 1" "proc s = Inr (v, s1)" "same_ring s s1" "frame s s1" "pending vs s1" using busy [OF Cons.prems(2)] by blast
  have q1: "queue s1 = queue s" "ring_ok s1" using same_ring_queue [OF s1(3)] Cons.prems(1) by simp_all
  have "\<exists>s2. (if v = 0 then ret () else cons_store (word_of_int v)) s1 = Inr ((), s2) \<and> ring_ok s2 \<and> queue s2 = queue s @ chars [v] \<and> besides_ring s2 = besides_ring s1"
  proof (cases "v = 0")
    case True
    then show ?thesis using q1 by (simp add: ret_run chars_def)
  next
    case False
    then have "length (queue s1) < CONSBUFSIZE - 1" using Cons.prems(3) q1(1) by (simp add: chars_def)
    from enq_law [OF q1(2) this, of "word_of_int v"] show ?thesis using False q1(1) by (auto simp: chars_def)
  qed
  then obtain s2 where s2: "(if v = 0 then ret () else cons_store (word_of_int v)) s1 = Inr ((), s2)" "ring_ok s2" "queue s2 = queue s @ chars [v]"
    "besides_ring s2 = besides_ring s1" by blast
  have p2: "pending vs s2" "frame s1 s2" using apart [OF s2(4)] s1(5) by blast+
  have "length (queue s2 @ chars vs) < CONSBUFSIZE" "length vs < k'" using Cons.prems(3,4) s2(3) by (simp_all add: k chars_Cons [of v vs])
  then obtain s' where s': "cons_intr k' proc s2 = Inr ((), s')" "ring_ok s'" "queue s' = queue s2 @ chars vs" "frame s2 s'" "final s'"
    using Cons.IH [OF s2(2) p2(1)] by blast
  have "cons_intr k proc s = Inr ((), s')"
    using s1(1) s'(1) by (simp add: k bnd_Inr [of proc, OF s1(2)] bnd_Inr [of "if v = 0 then ret () else cons_store (word_of_int v)", OF s2(1)] del: if_split)
  moreover have "frame s s'" using frame_trans s1(4) p2(2) s'(4) by blast
  moreover have "queue s' = queue s @ chars (v # vs)" using s'(3) s2(3) by (simp add: chars_Cons [of v vs])
  ultimately show ?case using s'(2,5) by blast
qed

end

text \<open>
  The device delivers the bytes \<open>bs\<close>: the next reads of its status port have the ready bit set, those of
  its data port give the bytes, and then the bit is clear.
\<close>

definition arriving :: "port \<Rightarrow> port \<Rightarrow> byte list \<Rightarrow> console \<Rightarrow> bool" where
  "arriving status data bs c \<longleftrightarrow>
     (\<forall>i<length bs. port_in c status (reads c status + i) AND 1 \<noteq> 0 \<and> port_in c data (reads c data + i) = bs ! i) \<and>
     port_in c status (reads c status + length bs) AND 1 = 0"

definition polls :: "port set \<Rightarrow> console pstate \<Rightarrow> console pstate \<Rightarrow> bool" where
  "polls P s s' \<longleftrightarrow> fst s' = fst s \<and> snd s' = (snd s)\<lparr>reads := reads (snd s'), shift := shift (snd s'),
       cons_buf := cons_buf (snd s'), rpos := rpos (snd s'), wpos := wpos (snd s')\<rparr>
     \<and> (\<forall>p. p \<notin> P \<longrightarrow> reads (snd s') p = reads (snd s) p)"

lemma uint_not_minus: "uint b \<noteq> - 1"
proof -
  have "0 \<le> uint b" by simp
  then show ?thesis by linarith
qed

lemma arriving_Cons:
  assumes "arriving status data (b # bs) c" "status \<noteq> data"
  shows "port_in c status (reads c status) AND 1 \<noteq> 0" "port_in c data (reads c data) = b"
    and "arriving status data bs (c\<lparr>reads := (reads c)(status := Suc (reads c status), data := Suc (reads c data))\<rparr>)"
proof -
  have a: "port_in c status (reads c status + i) AND 1 \<noteq> 0 \<and> port_in c data (reads c data + i) = (b # bs) ! i" if "i < Suc (length bs)" for i
    using assms(1) that by (simp add: arriving_def)
  show "port_in c status (reads c status) AND 1 \<noteq> 0" "port_in c data (reads c data) = b" using a [of 0] by simp_all
  show "arriving status data bs (c\<lparr>reads := (reads c)(status := Suc (reads c status), data := Suc (reads c data))\<rparr>)"
    using a [of "Suc i" for i] assms by (auto simp: arriving_def)
qed

lemma arriving_Nil: "arriving status data [] c \<Longrightarrow> port_in c status (reads c status) AND 1 = 0"
  by (simp add: arriving_def)

lemma polls_refl [simp]: "polls P s s"
  by (simp add: polls_def)

lemma polls_trans: "polls P s s' \<Longrightarrow> polls P s' s'' \<Longrightarrow> polls P s s''"
  by (cases "snd s"; cases "snd s'"; cases "snd s''") (simp add: polls_def)

lemma besides_ring_polls: "besides_ring s' = besides_ring s \<Longrightarrow> polls P s s'"
  by (cases "snd s"; cases "snd s'") (simp add: besides_ring_def polls_def)

lemma besides_ring_eqs: "besides_ring s' = besides_ring s \<Longrightarrow> fst s' = fst s \<and> port_in (snd s') = port_in (snd s) \<and> reads (snd s') = reads (snd s) \<and> shift (snd s') = shift (snd s)"
  by (cases "snd s"; cases "snd s'") (simp add: besides_ring_def)

lemma besides_ring_arriving: "besides_ring s' = besides_ring s \<Longrightarrow> arriving p d bs (snd s') = arriving p d bs (snd s)"
  by (drule besides_ring_eqs) (simp add: arriving_def)

definition serial_pending :: "int list \<Rightarrow> console pstate \<Rightarrow> bool" where
  "serial_pending vs s \<longleftrightarrow> (\<exists>bs. vs = map uint bs \<and> arriving (COM1 + COM_LSR) (COM1 + COM_RX) bs (snd s))"

definition serial_frame :: "console pstate \<Rightarrow> console pstate \<Rightarrow> bool" where
  "serial_frame s s' \<longleftrightarrow> polls {COM1 + COM_LSR, COM1 + COM_RX} s s' \<and> shift (snd s') = shift (snd s)"

lemma serial_proc_quiet:
  "serial_pending [] s \<Longrightarrow> \<exists>s'. serial_proc_data s = Inr (- 1, s') \<and> same_ring s s' \<and> serial_frame s s'"
  by (cases s) (auto simp: serial_pending_def serial_proc_data_def COM_LSR_DATA_def ret_run same_ring_def serial_frame_def polls_def dest: arriving_Nil)

lemma serial_proc_busy:
  assumes "serial_pending (v # vs) s"
  shows "\<exists>s'. v \<noteq> - 1 \<and> serial_proc_data s = Inr (v, s') \<and> same_ring s s' \<and> serial_frame s s' \<and> serial_pending vs s'"
proof -
  obtain m c where s: "s = (m, c)" by (cases s)
  obtain b bs where v: "v = uint b" "vs = map uint bs" "arriving (COM1 + COM_LSR) (COM1 + COM_RX) (b # bs) c"
    using assms by (auto simp: serial_pending_def s)
  let ?p = "COM1 + COM_LSR" and ?d = "COM1 + COM_RX"
  let ?c' = "c\<lparr>reads := (reads c)(?p := Suc (reads c ?p), ?d := Suc (reads c ?d))\<rparr>"
  have ne: "?p \<noteq> ?d" by (simp add: COM_LSR_def COM_RX_def)
  have "serial_proc_data s = Inr (v, (m, ?c'))"
    using arriving_Cons(1,2) [OF v(3) ne] ne v(1) by (simp add: s serial_proc_data_def COM_LSR_DATA_def ret_run)
  moreover have "serial_pending vs (m, ?c')" using arriving_Cons(3) [OF v(3) ne] v(2) by (auto simp: serial_pending_def)
  moreover have "v \<noteq> - 1" unfolding v(1) by (rule uint_not_minus)
  moreover have "same_ring s (m, ?c')" "serial_frame s (m, ?c')" by (simp_all add: s same_ring_def serial_frame_def polls_def)
  ultimately show ?thesis by blast
qed

interpretation serial: input_device serial_proc_data serial_pending serial_frame "\<lambda>_. True"
proof unfold_locales
  show "\<exists>s'. serial_proc_data s = Inr (- 1, s') \<and> same_ring s s' \<and> serial_frame s s' \<and> True" if "serial_pending [] s" for s
    using serial_proc_quiet [OF that] by simp
  show "\<exists>s'. v \<noteq> - 1 \<and> serial_proc_data s = Inr (v, s') \<and> same_ring s s' \<and> serial_frame s s' \<and> serial_pending vs s'"
    if "serial_pending (v # vs) s" for v vs s using that by (rule serial_proc_busy)
  show "serial_frame s s' \<and> (serial_pending vs s \<longrightarrow> serial_pending vs s')" if "besides_ring s' = besides_ring s" for s s' vs
    using besides_ring_polls [OF that] besides_ring_eqs [OF that] besides_ring_arriving [OF that] by (simp add: serial_frame_def serial_pending_def)
  show "serial_frame s s''" if "serial_frame s s'" "serial_frame s' s''" for s s' s''
    using that polls_trans [of _ s s' s''] by (simp add: serial_frame_def)
qed

text \<open>
  The keyboard: what a sequence of bytes means, the modifiers at the end, and whether control, alt and
  delete are pressed on the way, which resets the machine.
\<close>

fun kbd_decodes :: "byte list \<Rightarrow> 32 word \<Rightarrow> int list \<times> 32 word" where
  "kbd_decodes [] sh = ([], sh)"
| "kbd_decodes (d # ds) sh = (case kbd_decode d sh of (sh1, v) \<Rightarrow> case kbd_decodes ds sh1 of (vs, sh2) \<Rightarrow> (v # vs, sh2))"

definition resets :: "byte \<Rightarrow> 32 word \<Rightarrow> bool" where
  "resets d sh \<longleftrightarrow> (case kbd_decode d sh of (sh1, v) \<Rightarrow>
     d \<noteq> 0xE0 \<and> d AND 0x80 = 0 \<and> NOT sh1 AND ucast (CTL OR ALT) = 0 \<and> v = uint KEY_DEL)"

fun no_reset :: "byte list \<Rightarrow> 32 word \<Rightarrow> bool" where
  "no_reset [] sh \<longleftrightarrow> True"
| "no_reset (d # ds) sh \<longleftrightarrow> \<not> resets d sh \<and> no_reset ds (fst (kbd_decode d sh))"

lemma kbd_decode_range: "0 \<le> snd (kbd_decode d sh) \<and> snd (kbd_decode d sh) < 256"
proof -
  have "0 \<le> uint (b :: byte) \<and> uint b < 256" for b using uint_bounded [of b] by simp
  then show ?thesis by (auto simp: kbd_decode_def Let_def split: prod.splits)
qed

definition kbd_pending :: "32 word \<Rightarrow> int list \<Rightarrow> console pstate \<Rightarrow> bool" where
  "kbd_pending sh' vs s \<longleftrightarrow> (\<exists>ds. arriving KBSTATP KBDATAP ds (snd s) \<and> kbd_decodes ds (shift (snd s)) = (vs, sh') \<and> no_reset ds (shift (snd s)))"

lemma kbd_proc_quiet:
  "kbd_pending sh' [] s \<Longrightarrow> \<exists>s'. kbd_proc_data lit k s = Inr (- 1, s') \<and> same_ring s s' \<and> polls {KBSTATP, KBDATAP} s s' \<and> shift (snd s') = sh'"
proof -
  assume p: "kbd_pending sh' [] s"
  then obtain ds where ds: "arriving KBSTATP KBDATAP ds (snd s)" "kbd_decodes ds (shift (snd s)) = ([], sh')" by (auto simp: kbd_pending_def)
  have "ds = []" using ds(2) by (cases ds) (auto split: prod.splits)
  then show ?thesis using ds arriving_Nil [of KBSTATP KBDATAP "snd s"]
    by (cases s) (auto simp: kbd_proc_data_def KBS_DIB_def ret_run same_ring_def polls_def)
qed

lemma kbd_proc_busy:
  assumes "kbd_pending sh' (v # vs) s"
  shows "\<exists>s'. v \<noteq> - 1 \<and> kbd_proc_data lit k s = Inr (v, s') \<and> same_ring s s' \<and> polls {KBSTATP, KBDATAP} s s' \<and> kbd_pending sh' vs s'"
proof -
  obtain m c where s: "s = (m, c)" by (cases s)
  obtain ds0 where ds0: "arriving KBSTATP KBDATAP ds0 c" "kbd_decodes ds0 (shift c) = (v # vs, sh')" "no_reset ds0 (shift c)"
    using assms by (auto simp: kbd_pending_def s)
  then obtain d ds where d: "ds0 = d # ds" by (cases ds0) auto
  obtain sh1 where sh1: "kbd_decode d (shift c) = (sh1, v)" "kbd_decodes ds sh1 = (vs, sh')" using ds0(2) by (auto simp: d split: prod.splits)
  let ?c' = "c\<lparr>reads := (reads c)(KBSTATP := Suc (reads c KBSTATP), KBDATAP := Suc (reads c KBDATAP)), shift := sh1\<rparr>"
  have ne: "KBSTATP \<noteq> KBDATAP" by (simp add: KBSTATP_def KBDATAP_def)
  have a: "arriving KBSTATP KBDATAP (d # ds) c" using ds0(1) d by simp
  have "\<not> (d \<noteq> 0xE0 \<and> d AND 0x80 = 0 \<and> NOT sh1 AND ucast (CTL OR ALT) = 0 \<and> v = uint KEY_DEL)" using ds0(3) sh1(1) by (simp add: d resets_def)
  then have "kbd_proc_data lit k s = Inr (v, (m, ?c'))"
    using arriving_Cons(1,2) [OF a ne] ne sh1(1) by (auto simp: s kbd_proc_data_def KBS_DIB_def ret_run)
  moreover have "arriving KBSTATP KBDATAP ds ?c'" using arriving_Cons(3) [OF a ne] by (simp add: arriving_def)
  then have "kbd_pending sh' vs (m, ?c')" using sh1 ds0(3) by (auto simp: kbd_pending_def d)
  moreover have "v \<noteq> - 1" using kbd_decode_range [of d "shift c"] sh1(1) by simp
  moreover have "same_ring s (m, ?c')" "polls {KBSTATP, KBDATAP} s (m, ?c')" by (simp_all add: s same_ring_def polls_def)
  ultimately show ?thesis by blast
qed

interpretation keyboard: input_device "kbd_proc_data lit k" "kbd_pending sh'" "polls {KBSTATP, KBDATAP}" "\<lambda>s. shift (snd s) = sh'" for lit k sh'
proof unfold_locales
  show "\<exists>s'. kbd_proc_data lit k s = Inr (- 1, s') \<and> same_ring s s' \<and> polls {KBSTATP, KBDATAP} s s' \<and> shift (snd s') = sh'" if "kbd_pending sh' [] s" for s
    using that by (rule kbd_proc_quiet)
  show "\<exists>s'. v \<noteq> - 1 \<and> kbd_proc_data lit k s = Inr (v, s') \<and> same_ring s s' \<and> polls {KBSTATP, KBDATAP} s s' \<and> kbd_pending sh' vs s'"
    if "kbd_pending sh' (v # vs) s" for v vs s using that by (rule kbd_proc_busy)
  show "polls {KBSTATP, KBDATAP} s s' \<and> (kbd_pending sh' vs s \<longrightarrow> kbd_pending sh' vs s')" if "besides_ring s' = besides_ring s" for s s' vs
    using besides_ring_polls [OF that] besides_ring_eqs [OF that] besides_ring_arriving [OF that] by (simp add: kbd_pending_def)
  show "polls {KBSTATP, KBDATAP} s s''" if "polls {KBSTATP, KBDATAP} s s'" "polls {KBSTATP, KBDATAP} s' s''" for s s' s''
    using that by (rule polls_trans)
qed

section \<open>Taking characters\<close>

text \<open>
  Everything that waits: what is queued, then what the serial port has, then what the keyboard has.
\<close>

definition input :: "byte list \<Rightarrow> byte list \<Rightarrow> console pstate \<Rightarrow> byte list" where
  "input sb kb s = queue s @ (if serial_exists (snd s) then chars (map uint sb) else []) @ chars (fst (kbd_decodes kb (shift (snd s))))"

definition devices :: "byte list \<Rightarrow> byte list \<Rightarrow> console \<Rightarrow> bool" where
  "devices sb kb c \<longleftrightarrow> (serial_exists c \<longrightarrow> arriving (COM1 + COM_LSR) (COM1 + COM_RX) sb c) \<and> arriving KBSTATP KBDATAP kb c \<and> no_reset kb (shift c)"

lemma polls_eqs: "polls P s s' \<Longrightarrow> fst s' = fst s \<and> port_in (snd s') = port_in (snd s) \<and> serial_exists (snd s') = serial_exists (snd s)"
  by (cases "snd s"; cases "snd s'") (simp add: polls_def)

lemma polls_reads: "polls P s s' \<Longrightarrow> p \<notin> P \<Longrightarrow> reads (snd s') p = reads (snd s) p"
  by (simp add: polls_def)

lemma polls_arriving: "polls P s s' \<Longrightarrow> p \<notin> P \<Longrightarrow> d \<notin> P \<Longrightarrow> arriving p d bs (snd s') = arriving p d bs (snd s)"
  using polls_eqs [of P s s'] polls_reads [of P s s'] by (simp add: arriving_def)

lemma polls_mono: "polls P s s' \<Longrightarrow> P \<subseteq> Q \<Longrightarrow> polls Q s s'"
  by (auto simp: polls_def)

lemma serial_intr_run:
  assumes "ring_ok s" "serial_exists (snd s) \<longrightarrow> arriving (COM1 + COM_LSR) (COM1 + COM_RX) sb (snd s)"
    and "length (queue s @ (if serial_exists (snd s) then chars (map uint sb) else [])) < CONSBUFSIZE" "length sb < k"
  shows "\<exists>s'. serial_intr k s = Inr ((), s') \<and> ring_ok s' \<and> queue s' = queue s @ (if serial_exists (snd s) then chars (map uint sb) else []) \<and> serial_frame s s'"
proof (cases "serial_exists (snd s)")
  case True
  then have "serial_pending (map uint sb) s" using assms(2) by (auto simp: serial_pending_def)
  then show ?thesis using serial.cons_intr_drains [of s "map uint sb" k] True assms by (cases s) (simp add: serial_intr_def)
qed (use assms(1) in \<open>cases s; simp add: serial_intr_def ret_run serial_frame_def\<close>)

lemma cons_getc_run:
  assumes ok: "ring_ok s" and dev: "devices sb kb (snd s)" and fits: "length (input sb kb s) < CONSBUFSIZE" and k: "length sb < k" "length kb < k"
  shows "\<exists>s'. cons_getc lit k s = Inr (case input sb kb s of [] \<Rightarrow> 0 | b # _ \<Rightarrow> uint b, s') \<and> ring_ok s' \<and> queue s' = tl (input sb kb s)
    \<and> polls {COM1 + COM_LSR, COM1 + COM_RX, KBSTATP, KBDATAP} s s' \<and> shift (snd s') = snd (kbd_decodes kb (shift (snd s)))"
proof -
  let ?P = "{COM1 + COM_LSR, COM1 + COM_RX, KBSTATP, KBDATAP}"
  obtain vs sh' where vs: "kbd_decodes kb (shift (snd s)) = (vs, sh')" by (cases "kbd_decodes kb (shift (snd s))")
  have len: "length ds = length (fst (kbd_decodes ds sh))" for ds sh by (induction ds arbitrary: sh) (simp_all add: split_def)
  obtain s1 where s1: "serial_intr k s = Inr ((), s1)" "ring_ok s1" "queue s1 = queue s @ (if serial_exists (snd s) then chars (map uint sb) else [])" "serial_frame s s1"
    using serial_intr_run [OF ok, of sb k] dev fits k(1) by (auto simp: devices_def input_def)
  have f1: "polls {COM1 + COM_LSR, COM1 + COM_RX} s s1" "shift (snd s1) = shift (snd s)" using s1(4) by (simp_all add: serial_frame_def)
  have "arriving KBSTATP KBDATAP kb (snd s1)"
    using polls_arriving [OF f1(1), of KBSTATP KBDATAP kb] dev by (simp add: devices_def KBSTATP_def KBDATAP_def COM1_def COM_LSR_def COM_RX_def)
  then have "kbd_pending sh' vs s1" using dev vs f1(2) by (auto simp: kbd_pending_def devices_def)
  moreover have "length vs < k" using k(2) len [of kb "shift (snd s)"] vs by simp
  moreover have q: "queue s1 @ chars vs = input sb kb s" by (simp add: input_def s1(3) vs)
  ultimately obtain s2 where s2: "cons_intr k (kbd_proc_data lit k) s1 = Inr ((), s2)" "ring_ok s2" "queue s2 = input sb kb s" "polls {KBSTATP, KBDATAP} s1 s2" "shift (snd s2) = sh'"
    using keyboard.cons_intr_drains [OF s1(2), of sh' vs k lit k] fits by auto
  obtain s3 where s3: "cons_take s2 = Inr (case input sb kb s of [] \<Rightarrow> 0 | b # _ \<Rightarrow> uint b, s3)" "ring_ok s3" "queue s3 = tl (input sb kb s)" "besides_ring s3 = besides_ring s2"
    using ring.deq_head [OF s2(2)] s2(3) by auto
  have "cons_getc lit k s = Inr (case input sb kb s of [] \<Rightarrow> 0 | b # _ \<Rightarrow> uint b, s3)"
    unfolding cons_getc_def kbd_intr_def bnd_Inr [of "serial_intr k", OF s1(1)] bnd_Inr [of "cons_intr k _", OF s2(1)] by (rule s3(1))
  moreover have "polls ?P s s3"
    using polls_trans [OF polls_mono [OF f1(1)] polls_trans [OF polls_mono [OF s2(4)] besides_ring_polls [OF s3(4)]]] by auto
  moreover have "shift (snd s3) = snd (kbd_decodes kb (shift (snd s)))" using besides_ring_eqs [OF s3(4)] s2(5) vs by simp
  ultimately show ?thesis using s3(2,3) by blast
qed

section \<open>Waiting for a character\<close>

text \<open>Nothing arrives, however often the devices are asked.\<close>

definition idle :: "console \<Rightarrow> bool" where
  "idle c \<longleftrightarrow> (\<forall>n. port_in c (COM1 + COM_LSR) n AND 1 = 0 \<and> port_in c KBSTATP n AND 1 = 0)"

lemma idle_devices: "idle c \<Longrightarrow> devices [] [] c"
  by (simp add: idle_def devices_def arriving_def)

lemma idle_input: "input [] [] s = queue s"
  by (simp add: input_def chars_def)

lemma idle_getc:
  assumes "ring_ok s" "idle (snd s)" "0 < k"
  shows "\<exists>s'. cons_getc lit k s = Inr (case queue s of [] \<Rightarrow> 0 | b # _ \<Rightarrow> uint b, s') \<and> ring_ok s' \<and> queue s' = tl (queue s)
    \<and> polls {COM1 + COM_LSR, COM1 + COM_RX, KBSTATP, KBDATAP} s s' \<and> shift (snd s') = shift (snd s)"
  using cons_getc_run [OF assms(1) idle_devices [OF assms(2)], of k lit] assms(3) queued_less [of "snd s"]
  by (simp add: idle_input) (simp add: queue_def CONSBUFSIZE_def)

lemma quiet_poll:
  assumes "ring_ok (m, c)" "queue (m, c) = []" "serial_exists c" "port_in c (COM1 + COM_LSR) (reads c (COM1 + COM_LSR)) AND 1 = 0" "port_in c KBSTATP (reads c KBSTATP) AND 1 = 0"
  shows "cons_getc lit (Suc k) (m, c) =
    Inr (0, (m, c\<lparr>reads := (reads c)(COM1 + COM_LSR := Suc (reads c (COM1 + COM_LSR)), KBSTATP := Suc (reads c KBSTATP))\<rparr>))"
proof -
  let ?c1 = "c\<lparr>reads := (reads c)(COM1 + COM_LSR := Suc (reads c (COM1 + COM_LSR)))\<rparr>"
  let ?c2 = "c\<lparr>reads := (reads c)(COM1 + COM_LSR := Suc (reads c (COM1 + COM_LSR)), KBSTATP := Suc (reads c KBSTATP))\<rparr>"
  have ne: "KBSTATP \<noteq> COM1 + COM_LSR" by (simp add: KBSTATP_def COM1_def COM_LSR_def)
  have "serial_proc_data (m, c) = Inr (- 1, (m, ?c1))" using assms(4) by (simp add: serial_proc_data_def COM_LSR_DATA_def ret_run)
  then have 1: "serial_intr (Suc k) (m, c) = Inr ((), (m, ?c1))" using assms(3) by (simp add: serial_intr_def bnd_Inr [of serial_proc_data] ret_run)
  have "kbd_proc_data lit (Suc k) (m, ?c1) = Inr (- 1, (m, ?c2))" using assms(5) ne by (simp add: kbd_proc_data_def KBS_DIB_def ret_run)
  then have 2: "kbd_intr lit (Suc k) (m, ?c1) = Inr ((), (m, ?c2))" by (simp add: kbd_intr_def bnd_Inr [of "kbd_proc_data _ _"] ret_run)
  have "same_ring (m, c) (m, ?c2)" by (simp add: same_ring_def)
  then have "cons_take (m, ?c2) = Inr (0, (m, ?c2))" using same_ring_queue [of "(m, c)" "(m, ?c2)"] assms(1,2) cons_take_empty by simp
  then show ?thesis by (simp add: cons_getc_def bnd_Inr [of "serial_intr _", OF 1] bnd_Inr [of "kbd_intr _ _", OF 2])
qed

text \<open>The serial port stays silent for \<open>n\<close> reads of its status port and then delivers \<open>bs\<close>.\<close>

definition arriving_after :: "nat \<Rightarrow> byte list \<Rightarrow> console \<Rightarrow> bool" where
  "arriving_after n bs c \<longleftrightarrow> (\<forall>i<n. port_in c (COM1 + COM_LSR) (reads c (COM1 + COM_LSR) + i) AND 1 = 0) \<and>
     arriving (COM1 + COM_LSR) (COM1 + COM_RX) bs (c\<lparr>reads := (reads c)(COM1 + COM_LSR := reads c (COM1 + COM_LSR) + n)\<rparr>)"

lemma arriving_after_Suc:
  assumes "arriving_after (Suc n) bs c" "p \<noteq> COM1 + COM_RX" "p \<noteq> COM1 + COM_LSR"
  shows "port_in c (COM1 + COM_LSR) (reads c (COM1 + COM_LSR)) AND 1 = 0"
    and "arriving_after n bs (c\<lparr>reads := (reads c)(COM1 + COM_LSR := Suc (reads c (COM1 + COM_LSR)), p := x)\<rparr>)"
proof -
  have a: "port_in c (COM1 + COM_LSR) (reads c (COM1 + COM_LSR) + i) AND 1 = 0" if "i < Suc n" for i using assms(1) that by (simp add: arriving_after_def)
  show "port_in c (COM1 + COM_LSR) (reads c (COM1 + COM_LSR)) AND 1 = 0" using a [of 0] by simp
  show "arriving_after n bs (c\<lparr>reads := (reads c)(COM1 + COM_LSR := Suc (reads c (COM1 + COM_LSR)), p := x)\<rparr>)"
    using a [of "Suc i" for i] assms by (auto simp: arriving_after_def arriving_def)
qed

definition keyboard_silent :: "console \<Rightarrow> bool" where
  "keyboard_silent c \<longleftrightarrow> (\<forall>n. port_in c KBSTATP n AND 1 = 0)"

lemma getchar_run:
  "ring_ok s \<Longrightarrow> queue s = [] \<Longrightarrow> serial_exists (snd s) \<Longrightarrow> keyboard_silent (snd s) \<Longrightarrow> arriving_after n (b # bs) (snd s) \<Longrightarrow>
   b \<noteq> 0 \<Longrightarrow> Suc (length bs) < CONSBUFSIZE \<Longrightarrow> Suc (length bs) < k \<Longrightarrow> n < j \<Longrightarrow>
   \<exists>s'. getchar lit k j s = Inr (uint b, s') \<and> ring_ok s' \<and> queue s' = chars (map uint bs) \<and> fst s' = fst s \<and> outs (snd s') = outs (snd s)"
proof (induction n arbitrary: s j)
  case 0
  then obtain j' where j: "j = Suc j'" by (cases j) auto
  have "devices (b # bs) [] (snd s)" using 0 by (simp add: devices_def keyboard_silent_def arriving_after_def arriving_def)
  moreover have i: "input (b # bs) [] s = b # chars (map uint bs)" using 0 uint_0_iff [of b] by (simp add: input_def chars_def)
  moreover have "length (chars (map uint bs)) \<le> length bs" by (simp add: chars_def)
  ultimately obtain s' where s': "cons_getc lit k s = Inr (uint b, s')" "ring_ok s'" "queue s' = chars (map uint bs)"
    "polls {COM1 + COM_LSR, COM1 + COM_RX, KBSTATP, KBDATAP} s s'"
    using cons_getc_run [OF 0(1), of "b # bs" "[]" k lit] 0(7,8) by auto
  have "outs (snd s') = outs (snd s) \<and> fst s' = fst s" using s'(4) by (cases "snd s"; cases "snd s'") (simp add: polls_def)
  then show ?case using 0(6) uint_0_iff [of b] s'(2,3) by (intro exI [of _ s']) (simp add: j bnd_Inr [of "cons_getc lit k", OF s'(1)] ret_run)
next
  case (Suc n)
  obtain j' where j: "j = Suc j'" "n < j'" using Suc.prems(9) by (cases j) auto
  obtain k' where k: "k = Suc k'" using Suc.prems(8) by (cases k) auto
  obtain m c where s: "s = (m, c)" by (cases s)
  have ne: "KBSTATP \<noteq> COM1 + COM_LSR" "KBSTATP \<noteq> COM1 + COM_RX" by (simp_all add: KBSTATP_def COM1_def COM_LSR_def COM_RX_def)
  let ?c2 = "c\<lparr>reads := (reads c)(COM1 + COM_LSR := Suc (reads c (COM1 + COM_LSR)), KBSTATP := Suc (reads c KBSTATP))\<rparr>"
  have a: "arriving_after (Suc n) (b # bs) c" using Suc.prems(5) s by simp
  have p: "cons_getc lit k s = Inr (0, (m, ?c2))"
    unfolding s k by (rule quiet_poll) (use Suc.prems(1-4) s arriving_after_Suc(1) [OF a ne(2,1)] in \<open>simp_all add: keyboard_silent_def\<close>)
  have r: "same_ring s (m, ?c2)" by (simp add: same_ring_def s)
  have "\<exists>s'. getchar lit k j' (m, ?c2) = Inr (uint b, s') \<and> ring_ok s' \<and> queue s' = chars (map uint bs) \<and> fst s' = fst (m, ?c2) \<and> outs (snd s') = outs (snd (m, ?c2))"
    by (rule Suc.IH) (use Suc.prems same_ring_queue [OF r] arriving_after_Suc(2) [OF a ne(2,1)] j(2) s in \<open>simp_all add: keyboard_silent_def\<close>)
  then show ?case by (simp add: j(1) bnd_Inr [of "cons_getc lit k", OF p [unfolded s]] s)
qed

section \<open>Editing a line\<close>

text \<open>
  The line editor on lists: the line so far and the characters typed give the line, what the terminal
  is sent meanwhile, and the characters left.
\<close>

fun edited :: "int list \<Rightarrow> int list \<Rightarrow> (int list \<times> int list \<times> int list) option" where
  "edited l [] = None"
| "edited l (c # cs) =
     (if (c = 0x08 \<or> c = 0x7F) \<and> l \<noteq> [] then map_option (\<lambda>(l', es, r). (l', 0x08 # es, r)) (edited (butlast l) cs)
      else if c \<ge> 0x20 \<and> length l < 1023 then map_option (\<lambda>(l', es, r). (l', c # es, r)) (edited (l @ [c]) cs)
      else if c = 0x0A \<or> c = 0x0D then Some (l, [0x0A], cs)
      else edited l cs)"

lemma polls_terminal: "polls P s s' \<Longrightarrow> shows_terminal m a t s \<Longrightarrow> shows_terminal m a t s'"
  by (cases "snd s"; cases "snd s'") (auto simp: polls_def shows_terminal_def)

lemma disp_upd:
  assumes "\<not> unat (x - a) < 2 * length cells"
  shows "disp (m(x \<mapsto> b)) a cells = (disp m a cells)(x \<mapsto> b)"
  using assms by (auto simp: disp_def overwrite_def fun_eq_iff)

lemma shows_terminal_st:
  assumes "shows_terminal m a t s" "m x \<noteq> None" "4000 \<le> unat (x - a)"
  shows "\<exists>s'. in_mem (st x b) s = Inr ((), s') \<and> shows_terminal (m(x \<mapsto> b)) a t s' \<and> snd s' = snd s"
proof -
  obtain cells where c: "fst s = disp m a cells" "on_screen a cells" "t = term_of cells (unat (crt_pos (snd s)))" using assms(1) by (auto simp: shows_terminal_def)
  have l: "\<not> unat (x - a) < 2 * length cells" using assms(3) c(2) by (simp add: on_screen_def)
  then have "fst s x \<noteq> None" using assms(2) c(1) by (simp add: disp_def overwrite_def)
  then have "in_mem (st x b) s = Inr ((), ((fst s)(x \<mapsto> b), snd s))" by (auto simp: in_mem_def st_def)
  moreover have "shows_terminal (m(x \<mapsto> b)) a t ((fst s)(x \<mapsto> b), snd s)"
    using assms(1) c disp_upd [OF l, of m b] unfolding shows_terminal_def by (intro conjI exI [of _ cells]) simp_all
  ultimately show ?thesis by auto
qed

text \<open>
  The memory \<open>m'\<close> is \<open>m\<close> but for the line buffer, where the line \<open>l\<close> stands.
\<close>

definition line_in :: "jmem \<Rightarrow> vaddr \<Rightarrow> jmem \<Rightarrow> byte list \<Rightarrow> bool" where
  "line_in m line m' l \<longleftrightarrow> mapped m' line 1024 \<and> bytes_at m' line l \<and> outside m' line 1024 = outside m line 1024"

lemma line_in_snoc:
  assumes "line_in m line m' l" "length l < 1024"
  shows "line_in m line (m'(line + of_nat (length l) \<mapsto> b)) (l @ [b])"
proof -
  let ?x = "line + of_nat (length l)"
  have x: "unat (?x - line) = length l" using assms(2) by (simp add: unat_of_nat_32)
  then have "outside (m'(?x \<mapsto> b)) line 1024 = outside m' line 1024" using assms(2) by (auto simp: outside_def)
  moreover have "?x \<noteq> line + of_nat i" if "i < length l" for i
  proof
    assume "?x = line + of_nat i"
    then have "unat (of_nat (length l) :: 32 word) = unat (of_nat i :: 32 word)" by simp
    then show False using that assms(2) by simp
  qed
  then have "bytes_at (m'(?x \<mapsto> b)) line l" using assms(1) by (subst bytes_at_upd) (auto simp: line_in_def)
  ultimately show ?thesis using assms by (auto simp: line_in_def bytes_at_append mapped_iff)
qed

lemma line_in_butlast: "line_in m line m' l \<Longrightarrow> line_in m line m' (butlast l)"
  by (auto simp: line_in_def bytes_at_iff nth_butlast)

text \<open>\<open>waiting cs s\<close>: the source will return the characters \<open>cs\<close>, whatever is put out meanwhile.\<close>

locale line_source =
  fixes gc :: "int kcmd" and waiting :: "int list \<Rightarrow> console pstate \<Rightarrow> bool"
  assumes gc_next: "waiting (c # cs) s \<Longrightarrow> \<exists>s'. 0 < c \<and> c < 256 \<and> gc s = Inr (c, s') \<and> waiting cs s' \<and> polls UNIV s s'"
    and gc_keeps: "waiting cs s \<Longrightarrow> output_only (snd s) (snd s') \<Longrightarrow> waiting cs s'"
begin

lemma echo_step:
  assumes "waiting cs s" "shows_terminal m a t s"
  shows "\<exists>s'. cputchar w s = Inr ((), s') \<and> waiting cs s' \<and> shows_terminal m a (term_putc w t) s'"
  using cons_putc_run [OF assms(2), of w] gc_keeps [OF assms(1)] by (auto simp: cputchar_def)

lemma store_step:
  assumes "waiting cs s" "shows_terminal m' a t s" "line_in m line m' (map word_of_int l)" "length l < 1024"
    "\<forall>i<1024. 4000 \<le> unat (line + of_nat i - a)"
  shows "\<exists>s'. in_mem (st (line + word_of_int (int (length l))) b) s = Inr ((), s') \<and> waiting cs s'
    \<and> shows_terminal (m'(line + of_nat (length l) \<mapsto> b)) a t s' \<and> line_in m line (m'(line + of_nat (length l) \<mapsto> b)) (map word_of_int l @ [b])"
proof -
  have "m' (line + of_nat (length l)) \<noteq> None" using assms(3,4) by (simp add: line_in_def mapped_iff)
  from shows_terminal_st [OF assms(2) this, of b] obtain s' where s': "in_mem (st (line + of_nat (length l)) b) s = Inr ((), s')"
    "shows_terminal (m'(line + of_nat (length l) \<mapsto> b)) a t s'" "snd s' = snd s" using assms(4,5) by blast
  have "waiting cs s'" using gc_keeps [OF assms(1), of s'] s'(3) by (simp add: output_only_def)
  then show ?thesis using s' line_in_snoc [OF assms(3), of b] assms(4) by simp
qed

lemma readline_loop_edits:
  "waiting cs s \<Longrightarrow> shows_terminal m' a t s \<Longrightarrow> line_in m line m' (map word_of_int l) \<Longrightarrow> length l < 1024 \<Longrightarrow>
   \<forall>i<1024. 4000 \<le> unat (line + of_nat i - a) \<Longrightarrow> edited l cs = Some (l', es, r) \<Longrightarrow> length cs \<le> n \<Longrightarrow>
   \<exists>s' m''. readline_loop lit k gc True line n (int (length l)) s = Inr (line, s') \<and> waiting r s' \<and> shows_terminal m'' a (term_text es t) s'
     \<and> line_in m line m'' (map word_of_int l' @ [0])"
proof (induction cs arbitrary: s m' t l n es)
  case (Cons c cs)
  obtain n' where n: "n = Suc n'" "length cs \<le> n'" using Cons.prems(7) by (cases n) auto
  obtain s1 where s1: "0 < c" "c < 256" "gc s = Inr (c, s1)" "waiting cs s1" "polls UNIV s s1" using gc_next [OF Cons.prems(1)] by blast
  have t1: "shows_terminal m' a t s1" using polls_terminal [OF s1(5) Cons.prems(2)] .
  note run = bnd_Inr [of gc, OF s1(3)]
  consider (del) "c = 0x08 \<or> c = 0x7F" "l \<noteq> []" | (add) "\<not> ((c = 0x08 \<or> c = 0x7F) \<and> l \<noteq> [])" "c \<ge> 0x20" "length l < 1023"
    | (enter) "\<not> ((c = 0x08 \<or> c = 0x7F) \<and> l \<noteq> [])" "\<not> (c \<ge> 0x20 \<and> length l < 1023)" "c = 0x0A \<or> c = 0x0D"
    | (skip) "\<not> ((c = 0x08 \<or> c = 0x7F) \<and> l \<noteq> [])" "\<not> (c \<ge> 0x20 \<and> length l < 1023)" "\<not> (c = 0x0A \<or> c = 0x0D)" by blast
  then show ?case
  proof cases
    case del
    obtain es' where e: "edited (butlast l) cs = Some (l', es', r)" "es = 0x08 # es'" using Cons.prems(6) del by auto
    obtain s2 where s2: "cputchar 0x08 s1 = Inr ((), s2)" "waiting cs s2" "shows_terminal m' a (term_putc 0x08 t) s2" using echo_step [OF s1(4) t1] by blast
    have "line_in m line m' (map word_of_int (butlast l))" using line_in_butlast [OF Cons.prems(3)] by (simp add: map_butlast)
    moreover have "length (butlast l) < 1024" using Cons.prems(4) by simp
    ultimately
    obtain s' m'' where s': "readline_loop lit k gc True line n' (int (length (butlast l))) s2 = Inr (line, s')" "waiting r s'"
      "shows_terminal m'' a (term_text es' (term_putc 0x08 t)) s'" "line_in m line m'' (map word_of_int l' @ [0])"
      using Cons.IH [OF s2(2,3) _ _ Cons.prems(5) e(1) n(2)] by blast
    have "int (length (butlast l)) = int (length l) - 1" using del(2) by (cases l) auto
    then have "readline_loop lit k gc True line n (int (length l)) s = Inr (line, s')"
      using s1(1) del s'(1) by (simp add: n(1) run bnd_Inr [of "cputchar _", OF s2(1)])
    then show ?thesis using s' e(2) by (auto simp: term_text_def)
  next
    case add
    obtain es' where e: "edited (l @ [c]) cs = Some (l', es', r)" "es = c # es'" using Cons.prems(6) add by auto
    obtain s2 where s2: "cputchar (word_of_int c) s1 = Inr ((), s2)" "waiting cs s2" "shows_terminal m' a (term_putc (word_of_int c) t) s2"
      using echo_step [OF s1(4) t1] by blast
    let ?m = "m'(line + of_nat (length l) \<mapsto> word_of_int c)"
    obtain s3 where s3: "in_mem (st (line + word_of_int (int (length l))) (word_of_int c)) s2 = Inr ((), s3)" "waiting cs s3"
      "shows_terminal ?m a (term_putc (word_of_int c) t) s3" "line_in m line ?m (map word_of_int (l @ [c]))"
      using store_step [OF s2(2,3) Cons.prems(3-5), of "word_of_int c"] by auto
    from Cons.IH [OF s3(2-4) _ Cons.prems(5) e(1) n(2)] add(3)
    obtain s' m'' where s': "readline_loop lit k gc True line n' (int (length (l @ [c]))) s3 = Inr (line, s')" "waiting r s'"
      "shows_terminal m'' a (term_text es' (term_putc (word_of_int c) t)) s'" "line_in m line m'' (map word_of_int l' @ [0])" by auto
    have "readline_loop lit k gc True line n (int (length l)) s = Inr (line, s')"
      using s1(1) add s'(1)
      by (auto simp: n(1) run BUFLEN_def add.commute bnd_Inr [of "cputchar _", OF s2(1)] bnd_Inr [of "in_mem _", OF s3(1) [simplified]])
    then show ?thesis using s' e(2) by (auto simp: term_text_def)
  next
    case enter
    then have e: "l' = l" "es = [0x0A]" "r = cs" using Cons.prems(6) by auto
    obtain s2 where s2: "cputchar 0x0A s1 = Inr ((), s2)" "waiting cs s2" "shows_terminal m' a (term_putc 0x0A t) s2" using echo_step [OF s1(4) t1] by blast
    let ?m = "m'(line + of_nat (length l) \<mapsto> 0)"
    obtain s3 where s3: "in_mem (st (line + word_of_int (int (length l))) 0) s2 = Inr ((), s3)" "waiting cs s3"
      "shows_terminal ?m a (term_putc 0x0A t) s3" "line_in m line ?m (map word_of_int l @ [0])"
      using store_step [OF s2(2,3) Cons.prems(3-5), of 0] by auto
    have "readline_loop lit k gc True line n (int (length l)) s = Inr (line, s3)"
      using s1(1) enter
      by (auto simp: n(1) run BUFLEN_def ret_run bnd_Inr [of "cputchar _", OF s2(1)] bnd_Inr [of "in_mem _", OF s3(1) [simplified]])
    then show ?thesis using s3 e by (auto simp: term_text_def)
  next
    case skip
    then have e: "edited l cs = Some (l', es, r)" using Cons.prems(6) by auto
    from Cons.IH [OF s1(4) t1 Cons.prems(3-5) e n(2)] show ?thesis using s1(1) skip by (auto simp: n(1) run BUFLEN_def)
  qed
qed simp

end

text \<open>Queued characters while the devices are idle are such a source.\<close>

definition idle_waiting :: "nat \<Rightarrow> nat \<Rightarrow> int list \<Rightarrow> console pstate \<Rightarrow> bool" where
  "idle_waiting k j cs s \<longleftrightarrow> 0 < k \<and> 0 < j \<and> ring_ok s \<and> idle (snd s) \<and> map uint (queue s) = cs \<and> 0 \<notin> set (queue s)"

lemma output_only_ring: "output_only (snd s) (snd s') \<Longrightarrow> same_ring s s' \<and> port_in (snd s') = port_in (snd s)"
  by (cases "snd s"; cases "snd s'") (simp add: output_only_def same_ring_def)

interpretation typed: line_source "getchar lit k j" "idle_waiting k j" for lit k j
proof
  fix c cs s
  assume w: "idle_waiting k j (c # cs) s"
  then obtain j' where j: "j = Suc j'" by (cases j) (auto simp: idle_waiting_def)
  obtain b bs where q: "queue s = b # bs" "c = uint b" "cs = map uint bs" "b \<noteq> 0" "0 \<notin> set bs" using w by (cases "queue s") (auto simp: idle_waiting_def)
  obtain s' where s': "cons_getc lit k s = Inr (uint b, s')" "ring_ok s'" "queue s' = bs" "polls {COM1 + COM_LSR, COM1 + COM_RX, KBSTATP, KBDATAP} s s'"
    using idle_getc [of s k lit] w q(1) by (auto simp: idle_waiting_def)
  have b: "0 < uint b" "uint b < 256" using uint_0_iff [of b] q(4) uint_bounded [of b] by (simp_all add: less_le)
  then have "getchar lit k j s = Inr (c, s')" using q(2) by (simp add: j bnd_Inr [of "cons_getc lit k", OF s'(1)] ret_run)
  moreover have "idle_waiting k j cs s'" using w q(3,5) s'(2,3) polls_eqs [OF s'(4)] by (simp add: idle_waiting_def idle_def)
  moreover have "polls UNIV s s'" using s'(4) by (rule polls_mono) simp
  ultimately show "\<exists>s'. 0 < c \<and> c < 256 \<and> getchar lit k j s = Inr (c, s') \<and> idle_waiting k j cs s' \<and> polls UNIV s s'" using b q(2) by auto
next
  fix cs and s s' :: "console pstate"
  assume "idle_waiting k j cs s" "output_only (snd s) (snd s')"
  then show "idle_waiting k j cs s'" using output_only_ring [of s s'] same_ring_queue [of s s'] by (simp add: idle_waiting_def idle_def)
qed

definition prompt_text :: "(string \<Rightarrow> vaddr) \<Rightarrow> nat \<Rightarrow> jmem \<Rightarrow> vaddr \<Rightarrow> byte list \<Rightarrow> bool" where
  "prompt_text lit k ro prompt p \<longleftrightarrow> (if prompt = 0 then p = []
     else str_at ro prompt p \<and> size_ok (length p) \<and> str_at ro (lit ''%s'') (ascii ''%s'') \<and> length p + 11 < k)"

lemma prompt_run:
  assumes "shows_terminal m a t s" "prompt_text lit k (outside m a 4000) prompt p"
  shows "\<exists>s'. (if prompt \<noteq> 0 then bnd (cprintf lit k (lit ''%s'') [prompt]) (\<lambda>_. ret ()) else ret ()) s = Inr ((), s')
    \<and> shows_terminal m a (term_text (map sint p) t) s' \<and> output_only (snd s) (snd s')"
proof (cases "prompt = 0")
  case True
  then show ?thesis using assms by (auto simp: prompt_text_def term_text_def output_only_def ret_run)
next
  case False
  let ?it = "Str False False 0 0 prompt p"
  have r: "concat (map render [?it]) = [0x25, 0x73]" "concat (map args [?it]) = [prompt]" by (simp_all add: wd_def)
  have sh: "concat (map shown [?it]) = map sint p" using False by (simp add: str_field_def)
  have ok: "\<forall>it \<in> set [?it]. item_ok (outside m a 4000) lit it \<and> item_size it \<le> length p + 8"
    using assms(2) False by (simp add: prompt_text_def size_ok_def)
  have f: "bytes_at (outside m a 4000) (lit ''%s'') (concat (map render [?it]) @ [0])"
    unfolding r using assms(2) False by (simp add: prompt_text_def str_at_def ascii_def)
  obtain s' where "cprintf lit k (lit ''%s'') [prompt] s = Inr (0, s')" "shows_terminal m a (term_text (map sint p) t) s'" "output_only (snd s) (snd s')"
    using cprintf_run [OF assms(1) ok f, of k] assms(2) False unfolding r sh by (auto simp: prompt_text_def)
  then show ?thesis using False by (simp add: bnd_Inr [of "cprintf _ _ _ _"] ret_run)
qed

lemma edited_text:
  "\<forall>c \<in> set cs. 0x20 \<le> c \<and> c \<noteq> 0x7F \<Longrightarrow> length l + length cs \<le> 1023 \<Longrightarrow> edited l (cs @ 0x0A # r) = Some (l @ cs, cs @ [0x0A], r)"
  by (induction cs arbitrary: l) auto

lemma edited_bounded: "edited l cs = Some (l', es, r) \<Longrightarrow> length l \<le> 1023 \<Longrightarrow> length l' \<le> 1023"
  by (induction l cs arbitrary: es rule: edited.induct) (auto split: if_splits)

lemma readline_run:
  assumes "shows_terminal m a t s" "ring_ok s" "idle (snd s)" "0 \<notin> set (queue s)" "edited [] (map uint (queue s)) = Some (l, es, r)"
    "mapped m line 1024" "\<forall>i<1024. 4000 \<le> unat (line + of_nat i - a)" "prompt_text lit k (outside m a 4000) prompt p"
    "0 < k" "0 < j" "length (queue s) \<le> n"
  shows "\<exists>s' m'. readline lit k (getchar lit k j) line n prompt s = Inr (line, s') \<and> shows_terminal m' a (term_text (map sint p @ es) t) s'
    \<and> bytes_at m' line (map word_of_int l @ [0]) \<and> outside m' line 1024 = outside m line 1024 \<and> map uint (queue s') = r \<and> length l < 1024"
proof -
  obtain s1 where s1: "(if prompt \<noteq> 0 then bnd (cprintf lit k (lit ''%s'') [prompt]) (\<lambda>_. ret ()) else ret ()) s = Inr ((), s1)"
    "shows_terminal m a (term_text (map sint p) t) s1" "output_only (snd s) (snd s1)"
    using prompt_run [OF assms(1,8)] by blast
  have "idle_waiting k j (map uint (queue s)) s1"
    using output_only_ring [OF s1(3)] same_ring_queue [of s s1] assms(2-4,9,10) by (simp add: idle_waiting_def idle_def)
  moreover have "line_in m line m (map word_of_int [])" using assms(6) by (simp add: line_in_def)
  ultimately obtain s' m' where s': "readline_loop lit k (getchar lit k j) True line n (int (length [])) s1 = Inr (line, s')" "idle_waiting k j r s'"
    "shows_terminal m' a (term_text es (term_text (map sint p) t)) s'" "line_in m line m' (map word_of_int l @ [0])"
    using typed.readline_loop_edits [OF _ s1(2) _ _ assms(7,5), of k j m n lit k lit] assms(11) by auto
  have "readline lit k (getchar lit k j) line n prompt s = Inr (line, s')"
    using s'(1) unfolding readline_def bnd_Inr [of "if prompt \<noteq> 0 then _ else _", OF s1(1)] by (simp add: iscons_def)
  moreover have "length l < 1024" using edited_bounded [OF assms(5)] by simp
  ultimately show ?thesis using s'(2-4) by (auto simp: term_text_def line_in_def idle_waiting_def)
qed

section \<open>Keys\<close>

definition only_modifiers :: "32 word \<Rightarrow> bool" where
  "only_modifiers sh \<longleftrightarrow> sh AND NOT 0x7F = 0"

lemma only_modifiers_ops [simp]:
  "only_modifiers a \<Longrightarrow> only_modifiers (a AND b)"
  "only_modifiers a \<Longrightarrow> only_modifiers b \<Longrightarrow> only_modifiers (a OR b)"
  "only_modifiers a \<Longrightarrow> only_modifiers b \<Longrightarrow> only_modifiers (a XOR b)"
  unfolding only_modifiers_def by (auto simp: bit_eq_iff bit_and_iff bit_or_iff bit_xor_iff)

lemma code_modifiers: "only_modifiers (ucast (shiftcode ! i))" "only_modifiers (ucast (togglecode ! i))" if "i < 256"
proof -
  have "list_all (\<lambda>b. only_modifiers (ucast b)) shiftcode" "list_all (\<lambda>b. only_modifiers (ucast b)) togglecode" by code_simp+
  moreover have "length shiftcode = 256" "length togglecode = 256" by (simp_all add: shiftcode_def togglecode_def)
  ultimately show "only_modifiers (ucast (shiftcode ! i))" "only_modifiers (ucast (togglecode ! i))"
    using that by (simp_all add: list_all_length)
qed

lemma kbd_decode_modifiers:
  assumes "only_modifiers sh"
  shows "only_modifiers (fst (kbd_decode d sh))"
proof -
  have "unat (x :: byte) < 256" for x using unsigned_less [of x, where 'a = nat] by simp
  moreover have "only_modifiers (ucast E0ESC)" by (simp add: E0ESC_def only_modifiers_def)
  ultimately show ?thesis using assms code_modifiers unfolding kbd_decode_def by (auto simp: Let_def split: prod.splits)
qed

definition letter_keys :: "byte list" where
  "letter_keys = [0x10, 0x11, 0x12, 0x13, 0x14, 0x15, 0x16, 0x17, 0x18, 0x19, 0x1E, 0x1F, 0x20, 0x21, 0x22, 0x23, 0x24, 0x25, 0x26,
     0x2C, 0x2D, 0x2E, 0x2F, 0x30, 0x31, 0x32]"

definition letter :: "byte \<Rightarrow> int" where
  "letter d = uint (normalmap ! unat d)"

lemma letter_key_codes:
  assumes "d \<in> set letter_keys"
  shows "0x61 \<le> letter d \<and> letter d \<le> 0x7A \<and> d \<noteq> 0xE0 \<and> d AND 0x80 = 0 \<and> shiftcode ! unat d = 0 \<and> togglecode ! unat d = 0
    \<and> uint (shiftmap ! unat d) = letter d - 0x20 \<and> uint (ctlmap ! unat d) = letter d - 0x60"
proof -
  have "list_all (\<lambda>d. 0x61 \<le> letter d \<and> letter d \<le> 0x7A \<and> d \<noteq> 0xE0 \<and> d AND 0x80 = 0 \<and> shiftcode ! unat d = 0 \<and> togglecode ! unat d = 0
    \<and> uint (shiftmap ! unat d) = letter d - 0x20 \<and> uint (ctlmap ! unat d) = letter d - 0x60) letter_keys" by code_simp
  then show ?thesis using assms by (auto simp: list_all_iff)
qed

lemma table_choice:
  "charcode ! unat (sh AND ucast (CTL OR SHIFT)) = (if sh AND ucast CTL \<noteq> 0 then ctlmap else if sh AND ucast SHIFT \<noteq> 0 then shiftmap else normalmap)"
  for sh :: "32 word"
proof -
  have c: "ucast (CTL OR SHIFT) = (3 :: 32 word)" "ucast CTL = (2 :: 32 word)" "ucast SHIFT = (1 :: 32 word)" by (simp_all add: CTL_def SHIFT_def)
  have b: "sh AND 3 = (if bit sh 1 then 2 else 0) OR (if bit sh 0 then 1 else 0)" "sh AND 2 \<noteq> 0 \<longleftrightarrow> bit sh 1" "sh AND 1 \<noteq> 0 \<longleftrightarrow> bit sh 0"
  proof -
    have "bit (3 :: 32 word) n \<longleftrightarrow> n < 2" if "n < 32" for n using bit_mask_iff [of 2 n, where 'a = "32 word"] that by (simp add: mask_eq_exp_minus_1)
    moreover have "bit (2 :: 32 word) n \<longleftrightarrow> n = 1" if "n < 32" for n using bit_exp_iff [of 1 n, where 'a = "32 word"] that by simp
    ultimately show "sh AND 3 = (if bit sh 1 then 2 else 0) OR (if bit sh 0 then 1 else 0)"
      by (intro bit_word_eqI) (auto simp: bit_and_iff bit_or_iff bit_1_iff less_2_cases_iff intro!: gr0I)
    show "sh AND 2 \<noteq> 0 \<longleftrightarrow> bit sh 1" "sh AND 1 \<noteq> 0 \<longleftrightarrow> bit sh 0"
      using and_exp_eq_0_iff_not_bit [of sh 1] and_exp_eq_0_iff_not_bit [of sh 0] by simp_all
  qed
  then show ?thesis unfolding c b by (auto simp: charcode_def)
qed

lemma kbd_letter:
  assumes "d \<in> set letter_keys" "sh AND ucast E0ESC = 0"
  shows "kbd_decode d sh = (sh,
    if sh AND ucast CTL \<noteq> 0 then letter d - 0x60
    else if (sh AND ucast SHIFT \<noteq> 0) \<noteq> (sh AND ucast CAPSLOCK \<noteq> 0) then letter d - 0x20
    else letter d)"
  using letter_key_codes [OF assms(1)] assms(2) unfolding kbd_decode_def table_choice Let_def letter_def by auto

section \<open>Properties\<close>

text \<open>
  C28: Console input is first in, first out.  \<open>cons_getc\<close> polls both devices and returns the oldest
  character: first what the buffer holds, then what the serial port has received, then the keys pressed
  on the keyboard, translated with the modifiers as they change; 0 when there is none.  What remains is
  queued in the same order, memory and output are untouched.  The buffer must have room for all of it,
  511 characters.
\<close>

theorem cons_getc_in_order:
  assumes "ring_ok s" "devices sb kb (snd s)" "length (input sb kb s) < CONSBUFSIZE" "length sb < k" "length kb < k"
  shows "\<exists>s'. cons_getc lit k s = Inr (case input sb kb s of [] \<Rightarrow> 0 | b # _ \<Rightarrow> uint b, s') \<and> ring_ok s' \<and> queue s' = tl (input sb kb s)
    \<and> polls {COM1 + COM_LSR, COM1 + COM_RX, KBSTATP, KBDATAP} s s' \<and> shift (snd s') = snd (kbd_decodes kb (shift (snd s)))"
  using assms by (rule cons_getc_run)

text \<open>The serial port has received \<open>x\<close>; on the keyboard shift is held while the key A is pressed.\<close>

definition both_devices :: console where
  "both_devices = idle_console\<lparr>port_in := (\<lambda>p n. if p = 0x3FD then (if n = 0 then 1 else 0) else if p = 0x3F8 then 0x78
     else if p = 0x64 then (if n < 2 then 1 else 0) else if p = 0x60 then [0x2A, 0x1E] ! n else 0)\<rparr>"

theorem cons_getc_in_order_witness:
  "\<exists>s'. cons_getc (\<lambda>_. 0) 3 (Map.empty, both_devices) = Inr (0x78, s') \<and> ring_ok s' \<and> queue s' = [0x41]
    \<and> shift (snd s') = 1"
proof -
  have dec: "kbd_decodes [0x2A, 0x1E] 0 = ([0, 0x41], 1)" by code_simp
  have sh: "shift both_devices = 0" "serial_exists both_devices" by (simp_all add: both_devices_def idle_console_def)
  have ok: "ring_ok (Map.empty, both_devices)" by (simp add: ring_ok_def both_devices_def idle_console_def CONSBUFSIZE_def)
  have "queue (Map.empty, both_devices) = []" by (simp add: queue_def queued_def both_devices_def idle_console_def CONSBUFSIZE_def)
  then have i: "input [0x78] [0x2A, 0x1E] (Map.empty, both_devices) = [0x78, 0x41]" by (simp add: input_def sh dec chars_def del: kbd_decodes.simps)
  have nr: "no_reset [0x2A, 0x1E] 0" by code_simp
  have d: "devices [0x78] [0x2A, 0x1E] both_devices"
    unfolding devices_def sh using nr by (simp add: arriving_def both_devices_def idle_console_def COM1_def COM_LSR_def COM_RX_def KBSTATP_def KBDATAP_def less_2_cases_iff)
  from cons_getc_in_order [of "(Map.empty, both_devices)" "[0x78]" "[0x2A, 0x1E]" 3 "\<lambda>_. 0"] show ?thesis
    using ok d by (auto simp: i sh dec CONSBUFSIZE_def simp del: kbd_decodes.simps)
qed

text \<open>
  C29: \<open>getchar\<close> waits: while nothing has arrived it keeps polling, and once the serial port has received
  something, after any number of silent polls, it returns the first byte received and leaves the others
  in the queue.
\<close>

theorem getchar_returns_first_arrival:
  assumes "ring_ok s" "queue s = []" "serial_exists (snd s)" "keyboard_silent (snd s)" "arriving_after n (b # bs) (snd s)"
    "b \<noteq> 0" "Suc (length bs) < CONSBUFSIZE" "Suc (length bs) < k" "n < j"
  shows "\<exists>s'. getchar lit k j s = Inr (uint b, s') \<and> ring_ok s' \<and> queue s' = chars (map uint bs) \<and> fst s' = fst s \<and> outs (snd s') = outs (snd s)"
  using assms by (rule getchar_run)

definition late_byte :: console where
  "late_byte = idle_console\<lparr>port_in := (\<lambda>p n. if p = 0x3FD then (if n = 40 then 1 else 0) else if p = 0x3F8 then 0x78 else 0)\<rparr>"

theorem getchar_returns_first_arrival_witness:
  "\<exists>s'. getchar (\<lambda>_. 0) 2 41 (Map.empty, late_byte) = Inr (0x78, s') \<and> queue s' = []"
proof -
  have "ring_ok (Map.empty, late_byte)" "queue (Map.empty, late_byte) = []" "serial_exists late_byte" "keyboard_silent late_byte" "arriving_after 40 [0x78] late_byte"
    by (simp_all add: ring_ok_def queue_def queued_def keyboard_silent_def arriving_after_def arriving_def late_byte_def idle_console_def CONSBUFSIZE_def
      COM1_def COM_LSR_def COM_RX_def KBSTATP_def)
  then show ?thesis
    using getchar_returns_first_arrival [of "(Map.empty, late_byte)" 40 "0x78" "[]" 2 41 "\<lambda>_. 0"] by (auto simp: CONSBUFSIZE_def chars_def)
qed

text \<open>
  C31: \<open>kbd_proc_data\<close> only ever returns -1 or a byte, and keeps the modifiers within the seven bits that
  have a meaning.  The letter keys give the letter, in upper case when exactly one of shift and caps
  lock is on, and the control character while control is held.
\<close>

theorem kbd_decode_keys:
  assumes "only_modifiers sh"
  shows "only_modifiers (fst (kbd_decode d sh)) \<and> 0 \<le> snd (kbd_decode d sh) \<and> snd (kbd_decode d sh) < 256
    \<and> (d \<in> set letter_keys \<and> sh AND ucast E0ESC = 0 \<longrightarrow> 0x61 \<le> letter d \<and> letter d \<le> 0x7A \<and> kbd_decode d sh = (sh,
        if sh AND ucast CTL \<noteq> 0 then letter d - 0x60
        else if (sh AND ucast SHIFT \<noteq> 0) \<noteq> (sh AND ucast CAPSLOCK \<noteq> 0) then letter d - 0x20
        else letter d))"
  using kbd_decode_modifiers [OF assms] kbd_decode_range [of d sh] letter_key_codes [of d] kbd_letter [of d sh] by blast

theorem kbd_decode_keys_witness:
  "only_modifiers 8 \<and> letter 0x1E = 0x61 \<and> kbd_decode 0x1E 8 = (8, 0x41)"
proof -
  have l: "letter 0x1E = 0x61" by code_simp
  have "only_modifiers 8" by (simp add: only_modifiers_def)
  from kbd_decode_keys [OF this, of "0x1E"] show ?thesis
    using l \<open>only_modifiers 8\<close> by (simp add: letter_keys_def E0ESC_def CTL_def SHIFT_def CAPSLOCK_def)
qed


text \<open>The user typed \<open>hj\<close>, a backspace, \<open>i\<close> and return.\<close>

definition typed_hi :: console where
  "typed_hi = idle_console\<lparr>cons_buf := [0x68, 0x6A, 0x08, 0x69, 0x0D] @ replicate 507 0, wpos := 5\<rparr>"

definition line_buffer :: jmem where
  "line_buffer = overwrite Map.empty 0x1000 (replicate 1024 0)"


end
