(* ===== verification/Monitor.thy ===== *)
theory Monitor
  imports ConsoleInput "HOL-Library.Signed_Division"
begin

text \<open>
  The kernel monitor of JOS, mit6.828/lab/kern/monitor.c, and the parts of kern/init.c that use it: a
  command line is split into words in place, the first word is looked up among the commands, and the
  command prints its answer on the console.

  The function pointers of the command table are the values of \<open>command_fn\<close>; the symbols of the linker
  are a record.  A command line is in the memory of \<open>JosString\<close>.  \<open>k\<close> bounds the scans of strings, \<open>j\<close> the
  loops over the line.
\<close>

section \<open>The commands\<close>

datatype command_fn = Mon_help | Mon_kerninfo

record Command =
  cmd_name :: string
  cmd_desc :: string
  cmd_func :: command_fn

definition commands :: "Command list" where
  "commands =
    [\<lparr>cmd_name = ''help'', cmd_desc = ''Display this list of commands'', cmd_func = Mon_help\<rparr>,
     \<lparr>cmd_name = ''kerninfo'', cmd_desc = ''Display information about the kernel'', cmd_func = Mon_kerninfo\<rparr>]"

definition NCOMMANDS :: nat where
  "NCOMMANDS = length commands"

fun mon_help_loop :: "(string \<Rightarrow> vaddr) \<Rightarrow> nat \<Rightarrow> Command list \<Rightarrow> unit kcmd" where
  "mon_help_loop lit k [] = ret ()"
| "mon_help_loop lit k (c # cs) =
     bnd (cprintf lit k (lit (''%s - %s'' @ [CHR 0x0A])) [lit (cmd_name c), lit (cmd_desc c)]) (\<lambda>_. mon_help_loop lit k cs)"

definition mon_help :: "(string \<Rightarrow> vaddr) \<Rightarrow> nat \<Rightarrow> vaddr list \<Rightarrow> vaddr \<Rightarrow> int kcmd" where
  "mon_help lit k argv tf = bnd (mon_help_loop lit k commands) (\<lambda>_. ret 0)"

record linker_symbols =
  sym_start :: vaddr
  sym_entry :: vaddr
  sym_etext :: vaddr
  sym_edata :: vaddr
  sym_end :: vaddr

definition mon_kerninfo :: "(string \<Rightarrow> vaddr) \<Rightarrow> nat \<Rightarrow> linker_symbols \<Rightarrow> vaddr list \<Rightarrow> vaddr \<Rightarrow> int kcmd" where
  "mon_kerninfo lit k sy argv tf =
     bnd (cprintf lit k (lit (''Special kernel symbols:'' @ [CHR 0x0A])) []) (\<lambda>_.
     bnd (cprintf lit k (lit (''  _start                  %08x (phys)'' @ [CHR 0x0A])) [sym_start sy]) (\<lambda>_.
     bnd (cprintf lit k (lit (''  entry  %08x (virt)  %08x (phys)'' @ [CHR 0x0A])) [sym_entry sy, sym_entry sy - KERNBASE]) (\<lambda>_.
     bnd (cprintf lit k (lit (''  etext  %08x (virt)  %08x (phys)'' @ [CHR 0x0A])) [sym_etext sy, sym_etext sy - KERNBASE]) (\<lambda>_.
     bnd (cprintf lit k (lit (''  edata  %08x (virt)  %08x (phys)'' @ [CHR 0x0A])) [sym_edata sy, sym_edata sy - KERNBASE]) (\<lambda>_.
     bnd (cprintf lit k (lit (''  end    %08x (virt)  %08x (phys)'' @ [CHR 0x0A])) [sym_end sy, sym_end sy - KERNBASE]) (\<lambda>_.
     bnd (case ROUNDUP (sym_end sy - sym_entry sy) 1024 of Inl e \<Rightarrow> fail e | Inr r \<Rightarrow> ret (word_of_int (sint r sdiv 1024))) (\<lambda>kb.
     bnd (cprintf lit k (lit (''Kernel executable memory footprint: %dKB'' @ [CHR 0x0A])) [kb]) (\<lambda>_.
     ret 0))))))))"

definition mon_backtrace :: "vaddr list \<Rightarrow> vaddr \<Rightarrow> int kcmd" where
  "mon_backtrace argv tf = ret 0"

fun run_func :: "(string \<Rightarrow> vaddr) \<Rightarrow> nat \<Rightarrow> linker_symbols \<Rightarrow> command_fn \<Rightarrow> vaddr list \<Rightarrow> vaddr \<Rightarrow> int kcmd" where
  "run_func lit k sy Mon_help argv tf = mon_help lit k argv tf"
| "run_func lit k sy Mon_kerninfo argv tf = mon_kerninfo lit k sy argv tf"

section \<open>The command interpreter\<close>

definition WHITESPACE :: string where
  "WHITESPACE = [CHR 0x09, CHR 0x0D, CHR 0x0A, CHR 0x20]"

definition MAX_ARGS :: nat where "MAX_ARGS = 16"

fun gobble :: "(string \<Rightarrow> vaddr) \<Rightarrow> nat \<Rightarrow> nat \<Rightarrow> vaddr \<Rightarrow> (jmem, vaddr) cmd" where
  "gobble lit k 0 bufp = fail OutOfFuel"
| "gobble lit k (Suc j) bufp =
     bnd (ld bufp) (\<lambda>b.
     if b = 0 then ret bufp
     else bnd (strchr k (lit WHITESPACE) b) (\<lambda>p.
       if p \<noteq> 0 then bnd (st bufp 0) (\<lambda>_. gobble lit k j (bufp + 1)) else ret bufp))"

fun scan_arg :: "(string \<Rightarrow> vaddr) \<Rightarrow> nat \<Rightarrow> nat \<Rightarrow> vaddr \<Rightarrow> (jmem, vaddr) cmd" where
  "scan_arg lit k 0 bufp = fail OutOfFuel"
| "scan_arg lit k (Suc j) bufp =
     bnd (ld bufp) (\<lambda>b.
     if b = 0 then ret bufp
     else bnd (strchr k (lit WHITESPACE) b) (\<lambda>p. if p = 0 then scan_arg lit k j (bufp + 1) else ret bufp))"

text \<open>\<open>argv\<close> holds the arguments saved so far; no value means that there were too many.\<close>

fun split_args :: "(string \<Rightarrow> vaddr) \<Rightarrow> nat \<Rightarrow> nat \<Rightarrow> vaddr \<Rightarrow> vaddr list \<Rightarrow> vaddr list option kcmd" where
  "split_args lit k 0 bufp argv = fail OutOfFuel"
| "split_args lit k (Suc j) bufp argv =
     bnd (in_mem (gobble lit k (Suc j) bufp)) (\<lambda>bufp.
     bnd (in_mem (ld bufp)) (\<lambda>b.
     if b = 0 then ret (Some argv)
     else if length argv = MAX_ARGS - 1 then
       bnd (cprintf lit k (lit (''Too many arguments (max %d)'' @ [CHR 0x0A])) [of_nat MAX_ARGS]) (\<lambda>_. ret None)
     else bnd (in_mem (scan_arg lit k (Suc j) bufp)) (\<lambda>next. split_args lit k j next (argv @ [bufp]))))"

fun find_command :: "(string \<Rightarrow> vaddr) \<Rightarrow> nat \<Rightarrow> vaddr \<Rightarrow> Command list \<Rightarrow> command_fn option kcmd" where
  "find_command lit k arg [] = ret None"
| "find_command lit k arg (c # cs) =
     bnd (in_mem (strcmp k arg (lit (cmd_name c)))) (\<lambda>r. if r = 0 then ret (Some (cmd_func c)) else find_command lit k arg cs)"

definition run_command :: "(string \<Rightarrow> vaddr) \<Rightarrow> nat \<Rightarrow> nat \<Rightarrow> linker_symbols \<Rightarrow> vaddr \<Rightarrow> vaddr \<Rightarrow> int kcmd" where
  "run_command lit k j sy bufp tf =
     bnd (split_args lit k j bufp []) (\<lambda>args.
     case args of
       None \<Rightarrow> ret 0
     | Some [] \<Rightarrow> ret 0
     | Some (arg0 # rest) \<Rightarrow>
         bnd (find_command lit k arg0 commands) (\<lambda>f.
         case f of
           Some func \<Rightarrow> run_func lit k sy func (arg0 # rest) tf
         | None \<Rightarrow> bnd (cprintf lit k (lit (''Unknown command '' @ [CHR 0x27] @ ''%s'' @ [CHR 0x27, CHR 0x0A])) [arg0]) (\<lambda>_. ret 0)))"

text \<open>\<open>n\<close> rounds of the loop; \<open>line\<close> is the buffer of \<open>readline\<close>, \<open>i\<close> the bound on its loop.\<close>

definition monitor_round :: "(string \<Rightarrow> vaddr) \<Rightarrow> nat \<Rightarrow> nat \<Rightarrow> linker_symbols \<Rightarrow> int kcmd \<Rightarrow> vaddr \<Rightarrow> vaddr \<Rightarrow> bool kcmd" where
  "monitor_round lit k j sy gc line tf =
     bnd (readline lit k gc line j (lit ''K> '')) (\<lambda>bufp.
     if bufp \<noteq> 0 then bnd (run_command lit k j sy bufp tf) (\<lambda>r. ret (r \<ge> 0)) else ret True)"

fun monitor_loop :: "nat \<Rightarrow> (string \<Rightarrow> vaddr) \<Rightarrow> nat \<Rightarrow> nat \<Rightarrow> linker_symbols \<Rightarrow> int kcmd \<Rightarrow> vaddr \<Rightarrow> vaddr \<Rightarrow> unit kcmd" where
  "monitor_loop 0 lit k j sy gc line tf = fail OutOfFuel"
| "monitor_loop (Suc n) lit k j sy gc line tf =
     bnd (monitor_round lit k j sy gc line tf) (\<lambda>go. if go then monitor_loop n lit k j sy gc line tf else ret ())"

definition monitor :: "nat \<Rightarrow> (string \<Rightarrow> vaddr) \<Rightarrow> nat \<Rightarrow> nat \<Rightarrow> linker_symbols \<Rightarrow> int kcmd \<Rightarrow> vaddr \<Rightarrow> vaddr \<Rightarrow> unit kcmd" where
  "monitor n lit k j sy gc line tf =
     bnd (cprintf lit k (lit (''Welcome to the JOS kernel monitor!'' @ [CHR 0x0A])) []) (\<lambda>_.
     bnd (cprintf lit k (lit (''Type '' @ [CHR 0x27] @ ''help'' @ [CHR 0x27] @ '' for a list of commands.'' @ [CHR 0x0A])) []) (\<lambda>_.
     monitor_loop n lit k j sy gc line tf))"

section \<open>kern/init.c\<close>

text \<open>The loop \<open>while (1) monitor(NULL)\<close>, \<open>n\<close> calls with \<open>n\<close> rounds each.\<close>

fun monitor_forever :: "nat \<Rightarrow> nat \<Rightarrow> (string \<Rightarrow> vaddr) \<Rightarrow> nat \<Rightarrow> nat \<Rightarrow> linker_symbols \<Rightarrow> int kcmd \<Rightarrow> vaddr \<Rightarrow> unit kcmd" where
  "monitor_forever 0 n lit k j sy gc line = fail OutOfFuel"
| "monitor_forever (Suc i) n lit k j sy gc line = bnd (monitor n lit k j sy gc line 0) (\<lambda>_. monitor_forever i n lit k j sy gc line)"

text \<open>The recursion ends at 0; \<open>x\<close> is not negative where it is called.\<close>

fun test_backtrace :: "(string \<Rightarrow> vaddr) \<Rightarrow> nat \<Rightarrow> nat \<Rightarrow> unit kcmd" where
  "test_backtrace lit k 0 =
     bnd (cprintf lit k (lit (''entering test_backtrace %d'' @ [CHR 0x0A])) [0]) (\<lambda>_.
     bnd (mon_backtrace [] 0) (\<lambda>_.
     bnd (cprintf lit k (lit (''leaving test_backtrace %d'' @ [CHR 0x0A])) [0]) (\<lambda>_. ret ())))"
| "test_backtrace lit k (Suc x) =
     bnd (cprintf lit k (lit (''entering test_backtrace %d'' @ [CHR 0x0A])) [of_nat (Suc x)]) (\<lambda>_.
     bnd (test_backtrace lit k x) (\<lambda>_.
     bnd (cprintf lit k (lit (''leaving test_backtrace %d'' @ [CHR 0x0A])) [of_nat (Suc x)]) (\<lambda>_. ret ())))"

text \<open>
  Clearing the uninitialised data also clears the static variables of the console, which are not in
  the memory of the model.
\<close>

definition clear_statics :: "console \<Rightarrow> console" where
  "clear_statics c = c\<lparr>serial_exists := False, addr_6845 := 0, crt_buf := 0, crt_pos := 0, shift := 0,
     cons_buf := replicate CONSBUFSIZE 0, rpos := 0, wpos := 0\<rparr>"

definition i386_init :: "nat \<Rightarrow> (string \<Rightarrow> vaddr) \<Rightarrow> nat \<Rightarrow> nat \<Rightarrow> linker_symbols \<Rightarrow> int kcmd \<Rightarrow> vaddr \<Rightarrow> unit kcmd" where
  "i386_init n lit k j sy gc line =
     bnd (in_mem (memset (sym_edata sy) 0 (sym_end sy - sym_edata sy))) (\<lambda>_.
     bnd (upd clear_statics) (\<lambda>_.
     bnd (cons_init lit k) (\<lambda>_.
     bnd (cprintf lit k (lit (''6828 decimal is %o octal!'' @ [CHR 0x0A])) [6828]) (\<lambda>_.
     bnd (test_backtrace lit k 5) (\<lambda>_.
     monitor_forever n n lit k j sy gc line)))))"

text \<open>
  \<open>panicstr\<close> is an argument and, after the call, \<open>fmt\<close>; the monitor is entered in any case.
\<close>

definition panic_message :: "(string \<Rightarrow> vaddr) \<Rightarrow> nat \<Rightarrow> vaddr \<Rightarrow> vaddr \<Rightarrow> 32 word \<Rightarrow> vaddr \<Rightarrow> va_list \<Rightarrow> vaddr kcmd" where
  "panic_message lit k panicstr file line fmt ap =
     (if panicstr \<noteq> 0 then ret panicstr
      else bnd (cprintf lit k (lit ''kernel panic at %s:%d: '') [file, line]) (\<lambda>_.
           bnd (vcprintf lit k fmt ap) (\<lambda>_.
           bnd (cprintf lit k (lit [CHR 0x0A]) []) (\<lambda>_. ret fmt))))"

definition panic :: "nat \<Rightarrow> (string \<Rightarrow> vaddr) \<Rightarrow> nat \<Rightarrow> nat \<Rightarrow> linker_symbols \<Rightarrow> int kcmd \<Rightarrow> vaddr \<Rightarrow> vaddr \<Rightarrow> vaddr \<Rightarrow> 32 word \<Rightarrow> vaddr \<Rightarrow> va_list \<Rightarrow> unit kcmd" where
  "panic n lit k j sy gc buffer panicstr file line fmt ap =
     bnd (panic_message lit k panicstr file line fmt ap) (\<lambda>_. monitor_forever n n lit k j sy gc buffer)"

definition warn :: "(string \<Rightarrow> vaddr) \<Rightarrow> nat \<Rightarrow> vaddr \<Rightarrow> 32 word \<Rightarrow> vaddr \<Rightarrow> va_list \<Rightarrow> unit kcmd" where
  "warn lit k file line fmt ap =
     bnd (cprintf lit k (lit ''kernel warning at %s:%d: '') [file, line]) (\<lambda>_.
     bnd (vcprintf lit k fmt ap) (\<lambda>_.
     bnd (cprintf lit k (lit [CHR 0x0A]) []) (\<lambda>_. ret ())))"


section \<open>Splitting a line\<close>

definition is_ws :: "byte \<Rightarrow> bool" where
  "is_ws b \<longleftrightarrow> b \<in> set (ascii WHITESPACE)"

lemma word_removed: "length (dropWhile (\<lambda>b. \<not> is_ws b) (dropWhile is_ws s)) < length s" if r: "dropWhile is_ws s \<noteq> []"
proof -
  obtain b t where b: "dropWhile is_ws s = b # t" using r by (cases "dropWhile is_ws s") auto
  then have "\<not> is_ws b" using hd_dropWhile [OF r] by simp
  then have "length (dropWhile (\<lambda>b. \<not> is_ws b) (dropWhile is_ws s)) \<le> length t" using b by (simp add: length_dropWhile_le)
  also have "length t < length s" using b length_dropWhile_le [of is_ws s] by simp
  finally show ?thesis .
qed

text \<open>The words of a line, each with its offset, and the line with blanks replaced by null bytes.\<close>

function words :: "byte list \<Rightarrow> (nat \<times> byte list) list" where
  "words s =
     (let n = length (takeWhile is_ws s); r = dropWhile is_ws s; w = takeWhile (\<lambda>b. \<not> is_ws b) r
      in if r = [] then [] else (n, w) # map (\<lambda>(i, v). (n + length w + i, v)) (words (dropWhile (\<lambda>b. \<not> is_ws b) r)))"
  by pat_completeness auto
termination by (relation "measure length") (auto simp: word_removed)

declare words.simps [simp del]

definition blanked :: "byte list \<Rightarrow> byte list" where
  "blanked s = map (\<lambda>b. if is_ws b then 0 else b) s"

lemma words_Nil [simp]: "words [] = []"
  by (simp add: words.simps)

lemma blanked_append: "blanked (xs @ ys) = blanked xs @ blanked ys"
  by (simp add: blanked_def)

lemma blanked_ws: "blanked (takeWhile is_ws s) = replicate (length (takeWhile is_ws s)) 0"
  by (auto simp: blanked_def map_replicate_const [symmetric] dest: set_takeWhileD)

lemma blanked_word: "blanked (takeWhile (\<lambda>b. \<not> is_ws b) s) = takeWhile (\<lambda>b. \<not> is_ws b) s"
  by (auto simp: blanked_def intro!: map_idI dest: set_takeWhileD)

text \<open>The literal \<open>WHITESPACE\<close> in memory that the command line does not reach.\<close>

definition ws_lit :: "jmem \<Rightarrow> (string \<Rightarrow> vaddr) \<Rightarrow> bool" where
  "ws_lit ro lit \<longleftrightarrow> str_at ro (lit WHITESPACE) (ascii WHITESPACE) \<and> (\<forall>i<4. lit WHITESPACE + of_nat i \<noteq> 0)"

lemma str_at_ro: "ro \<subseteq>\<^sub>m m \<Longrightarrow> str_at ro a s \<Longrightarrow> str_at m a s"
  by (auto simp: str_at_def intro: bytes_at_ro)

lemma strchr_ws:
  assumes "ws_lit ro lit" "ro \<subseteq>\<^sub>m m" "4 < k" "b \<noteq> 0"
  shows "\<exists>p. strchr k (lit WHITESPACE) b m = Inr (p, m) \<and> (p \<noteq> 0 \<longleftrightarrow> is_ws b)"
proof -
  have l: "length (ascii WHITESPACE) = 4" by (simp add: ascii_def WHITESPACE_def)
  have "strchr k (lit WHITESPACE) b m = Inr (if b \<in> set (ascii WHITESPACE) then lit WHITESPACE + of_nat (length (takeWhile (\<lambda>c. c \<noteq> b) (ascii WHITESPACE))) else 0, m)"
    using strchr_spec [OF str_at_ro [OF assms(2)], of "lit WHITESPACE" "ascii WHITESPACE" k b] assms l by (simp add: ws_lit_def)
  moreover have "length (takeWhile (\<lambda>c. c \<noteq> b) (ascii WHITESPACE)) < 4" if "b \<in> set (ascii WHITESPACE)"
    using that l length_takeWhile_le [of "\<lambda>c. c \<noteq> b" "ascii WHITESPACE"] takeWhile_eq_take [of "\<lambda>c. c \<noteq> b" "ascii WHITESPACE"]
      takeWhile_eq_all_conv [of "\<lambda>c. c \<noteq> b" "ascii WHITESPACE"] by (metis le_neq_implies_less take_all_iff)
  ultimately show ?thesis using assms(1) by (auto simp: is_ws_def ws_lit_def)
qed

lemma ro_store: "ro \<subseteq>\<^sub>m m \<Longrightarrow> ro x = None \<Longrightarrow> ro \<subseteq>\<^sub>m m(x \<mapsto> b)"
  by (auto simp: map_le_def dom_def)

lemma gobble_run:
  "ws_lit ro lit \<Longrightarrow> 4 < k \<Longrightarrow> ro \<subseteq>\<^sub>m m \<Longrightarrow> str_at m a s \<Longrightarrow> \<forall>i<length s. ro (a + of_nat i) = None \<Longrightarrow> length s < j \<Longrightarrow> Suc (length s) < 2 ^ 32 \<Longrightarrow>
   gobble lit k j a m = Inr (a + of_nat (length (takeWhile is_ws s)), overwrite m a (replicate (length (takeWhile is_ws s)) 0))"
proof (induction s arbitrary: a j m)
  case Nil
  then obtain j' where "j = Suc j'" by (cases j) auto
  then show ?case using Nil by (simp add: bnd_def ld_def ret_run)
next
  case (Cons b s)
  obtain j' where j: "j = Suc j'" using Cons.prems(6) by (cases j) auto
  obtain p where p: "strchr k (lit WHITESPACE) b m = Inr (p, m)" "p \<noteq> 0 \<longleftrightarrow> is_ws b" using strchr_ws [OF Cons.prems(1,3,2)] Cons.prems(4) by auto
  have ld: "ld a m = Inr (b, m)" "st a 0 m = Inr ((), m(a \<mapsto> 0))" using Cons.prems(4) by (simp_all add: ld_def st_def)
  show ?case
  proof (cases "is_ws b")
    case True
    have dis: "\<forall>i<Suc (length s). a \<noteq> a + 1 + of_nat i"
    proof (intro allI impI)
      fix i assume "i < Suc (length s)"
      then have "(of_nat (Suc i) :: 32 word) \<noteq> 0" using Cons.prems(7) by (subst of_nat_32_eq_0) auto
      then show "a \<noteq> a + 1 + of_nat i" by (simp add: add.assoc)
    qed
    have ro: "ro a = None" "\<forall>i<length s. ro (a + 1 + of_nat i) = None" using Cons.prems(5) [rule_format, of 0] Cons.prems(5) [rule_format, of "Suc i" for i] by (simp_all add: add.assoc)
    have st: "str_at (m(a \<mapsto> 0)) (a + 1) s" using Cons.prems(4) str_at_upd [OF dis, of m 0] by simp
    have "gobble lit k j' (a + 1) (m(a \<mapsto> 0)) = Inr (a + 1 + of_nat (length (takeWhile is_ws s)), overwrite (m(a \<mapsto> 0)) (a + 1) (replicate (length (takeWhile is_ws s)) 0))"
      by (intro Cons.IH Cons.prems(1,2) ro_store [OF Cons.prems(3) ro(1)] st ro(2)) (use Cons.prems(6,7) j in simp_all)
    moreover have "length (replicate (length (takeWhile is_ws s)) 0) < 2 ^ 32" using Cons.prems(7) length_takeWhile_le [of is_ws s] by simp
    ultimately show ?thesis using Cons.prems(4) True p
      by (simp add: j bnd_Inr [of "ld a", OF ld(1)] bnd_Inr [of "strchr _ _ _", OF p(1)] bnd_Inr [of "st _ _", OF ld(2)] overwrite_Cons add.assoc)
  next
    case False
    then show ?thesis using Cons.prems(4) p by (simp add: j bnd_Inr [of "ld a", OF ld(1)] bnd_Inr [of "strchr _ _ _", OF p(1)] ret_run)
  qed
qed

lemma scan_arg_run:
  "ws_lit ro lit \<Longrightarrow> 4 < k \<Longrightarrow> ro \<subseteq>\<^sub>m m \<Longrightarrow> str_at m a s \<Longrightarrow> length s < j \<Longrightarrow>
   scan_arg lit k j a m = Inr (a + of_nat (length (takeWhile (\<lambda>b. \<not> is_ws b) s)), m)"
proof (induction s arbitrary: a j)
  case Nil
  then obtain j' where "j = Suc j'" by (cases j) auto
  then show ?case using Nil by (simp add: bnd_def ld_def ret_run)
next
  case (Cons b s)
  obtain j' where j: "j = Suc j'" using Cons.prems(5) by (cases j) auto
  obtain p where p: "strchr k (lit WHITESPACE) b m = Inr (p, m)" "p \<noteq> 0 \<longleftrightarrow> is_ws b" using strchr_ws [OF Cons.prems(1,3,2)] Cons.prems(4) by auto
  have ld: "ld a m = Inr (b, m)" using Cons.prems(4) by (simp add: ld_def)
  show ?case using Cons.IH [OF Cons.prems(1-3), of "a + 1" j'] Cons.prems(4,5) p(2)
    by (cases "is_ws b") (simp_all add: j bnd_Inr [of "ld a", OF ld] bnd_Inr [of "strchr _ _ _", OF p(1)] ret_run add.assoc)
qed


lemma ro_overwrite:
  assumes "ro \<subseteq>\<^sub>m m" "\<forall>i<length bs. ro (a + of_nat i) = None"
  shows "ro \<subseteq>\<^sub>m overwrite m a bs"
proof -
  have "ro x = None" if "unat (x - a) < length bs" for x
  proof -
    have "x = a + of_nat (unat (x - a))" by simp
    then show ?thesis using assms(2) that by metis
  qed
  then show ?thesis using assms(1) by (force simp: map_le_def overwrite_def dom_def)
qed

text \<open>Blanking the blanks before the next word, and what stands behind them.\<close>

lemma blank_prefix:
  assumes "str_at m a s" "Suc (length s) < 2 ^ 32"
  defines "n \<equiv> length (takeWhile is_ws s)" and "r \<equiv> dropWhile is_ws s"
  shows "str_at (overwrite m a (replicate n 0)) (a + of_nat n) r"
    and "n + length r = length s" "blanked s = replicate n 0 @ blanked r"
proof -
  have s: "s = takeWhile is_ws s @ r" by (simp add: r_def)
  show n: "n + length r = length s" unfolding n_def r_def by (metis length_append takeWhile_dropWhile_id)
  show "blanked s = replicate n 0 @ blanked r" unfolding n_def by (subst s) (simp only: blanked_append blanked_ws)
  have "bytes_at m (a + of_nat n) (r @ [0])" using assms(1) s unfolding n_def by (metis append.assoc bytes_at_append str_at_def)
  moreover have l: "length (replicate n 0) + length (r @ [0]) < 2 ^ 32" using n assms(2) by simp
  ultimately have "overwrite m a (replicate n 0 @ (r @ [0])) = overwrite m a (replicate n 0)"
    using overwrite_append(2) [OF l, of m a] by (simp add: overwrite_same)
  moreover have "bytes_at (overwrite m a (replicate n 0 @ (r @ [0]))) a (replicate n 0 @ (r @ [0]))" using l by (intro bytes_at_overwrite) simp
  ultimately have "bytes_at (overwrite m a (replicate n 0)) (a + of_nat n) (r @ [0])" by (simp add: bytes_at_append)
  moreover have "0 \<notin> set r" using assms(1) by (auto simp: r_def str_at_def dest: set_dropWhileD)
  ultimately show "str_at (overwrite m a (replicate n 0)) (a + of_nat n) r" by (simp add: str_at_def)
qed

lemma str_at_head: "str_at m a s \<Longrightarrow> m a = Some (hd (s @ [0]))"
  by (cases s) auto

lemma words_step:
  assumes "dropWhile is_ws s \<noteq> []"
  shows "words s = (length (takeWhile is_ws s), takeWhile (\<lambda>b. \<not> is_ws b) (dropWhile is_ws s)) #
    map (\<lambda>(i, v). (length (takeWhile is_ws s) + length (takeWhile (\<lambda>b. \<not> is_ws b) (dropWhile is_ws s)) + i, v)) (words (dropWhile (\<lambda>b. \<not> is_ws b) (dropWhile is_ws s)))"
  using assms by (subst words.simps) (simp add: Let_def)

text \<open>
  One round: the blanks before the next word are overwritten; \<open>r\<close> is the rest of the line from there, \<open>w\<close>
  the word and \<open>r'\<close> what follows it.
\<close>

lemma split_args_step:
  fixes m :: jmem
  assumes lit: "ws_lit ro lit" "4 < k" "ro \<subseteq>\<^sub>m m" and line: "str_at m a s" "\<forall>i<length s. ro (a + of_nat i) = None" "length s < Suc j'" "Suc (length s) < 2 ^ 32"
  defines "n \<equiv> length (takeWhile is_ws s)" and "r \<equiv> dropWhile is_ws s"
  defines "w \<equiv> takeWhile (\<lambda>b. \<not> is_ws b) r" and "r' \<equiv> dropWhile (\<lambda>b. \<not> is_ws b) r"
  defines "m1 \<equiv> overwrite m a (replicate n 0)" and "a1 \<equiv> a + of_nat n"
  defines "a2 \<equiv> a1 + of_nat (length w)"
  shows "split_args lit k (Suc j') a argv (m, c) = (if r = [] then Inr (Some argv, (overwrite m a (blanked s), c))
      else if length argv = MAX_ARGS - 1 then bnd (cprintf lit k (lit (''Too many arguments (max %d)'' @ [CHR 0x0A])) [of_nat MAX_ARGS]) (\<lambda>_. ret None) (m1, c)
      else split_args lit k j' a2 (argv @ [a1]) (m1, c))"
    and "ro \<subseteq>\<^sub>m m1" "str_at m1 a2 r'" "\<forall>i<length r'. ro (a2 + of_nat i) = None" "blanked s = replicate n 0 @ w @ blanked r'"
    and "\<And>bs. length bs \<le> length r' \<Longrightarrow> overwrite m1 a2 bs = overwrite m a (replicate n 0 @ w @ bs)" "n + length w + length r' = length s"
proof -
  have r: "r = w @ r'" by (simp add: w_def r'_def)
  have r1: "str_at m1 a1 r" "n + length r = length s" "blanked s = replicate n 0 @ blanked r"
    using blank_prefix [OF line(1,4)] unfolding m1_def a1_def n_def r_def by auto
  show len: "n + length w + length r' = length s" using r1(2) r by simp
  show b: "blanked s = replicate n 0 @ w @ blanked r'" using r1(3) by (simp add: r blanked_append) (simp add: w_def blanked_word)
  show ro1: "ro \<subseteq>\<^sub>m m1" unfolding m1_def using line(2) len by (intro ro_overwrite lit(3)) simp
  show "\<forall>i<length r'. ro (a2 + of_nat i) = None"
    using line(2) [rule_format, of "n + length w + i" for i] len by (simp add: a2_def a1_def add.assoc)
  have w: "bytes_at m1 a1 w" and "bytes_at m1 a2 (r' @ [0])" and "0 \<notin> set r" using r1(1) by (simp_all add: r a2_def str_at_def bytes_at_append)
  then show "str_at m1 a2 r'" by (simp add: str_at_def r)
  show "overwrite m1 a2 bs = overwrite m a (replicate n 0 @ w @ bs)" if "length bs \<le> length r'" for bs
  proof -
    have "overwrite m a (replicate n 0 @ (w @ bs)) = overwrite m1 a1 (w @ bs)"
      using overwrite_append(1) [of "replicate n 0" "w @ bs" m a] len line(4) that by (simp add: m1_def a1_def)
    also have "\<dots> = overwrite m1 a2 bs" using overwrite_append(1) [of w bs m1 a1] overwrite_same [OF w] len line(4) that by (simp add: a2_def)
    finally show ?thesis by simp
  qed
  have "gobble lit k (Suc j') a m = Inr (a1, m1)" unfolding a1_def m1_def n_def by (rule gobble_run [OF lit line])
  then have g: "in_mem (gobble lit k (Suc j') a) (m, c) = Inr (a1, (m1, c))" by (simp add: in_mem_def del: gobble.simps)
  have e: "r = [] \<Longrightarrow> overwrite m a (blanked s) = m1" using r1(3) by (simp add: m1_def blanked_def)
  have ld: "in_mem (ld a1) (m1, c) = Inr (hd (r @ [0]), (m1, c))" using str_at_head [OF r1(1)] by (simp add: in_mem_def ld_def)
  have sc: "in_mem (scan_arg lit k (Suc j') a1) (m1, c) = Inr (a2, (m1, c))"
    using scan_arg_run [OF lit(1,2) ro1 r1(1), of "Suc j'"] r1(2) line(3) by (simp add: in_mem_def a2_def w_def del: scan_arg.simps)
  have z: "hd (r @ [0]) = 0 \<longleftrightarrow> r = []" using r1(1) by (cases r) (auto simp: str_at_def)
  show "split_args lit k (Suc j') a argv (m, c) = (if r = [] then Inr (Some argv, (overwrite m a (blanked s), c))
      else if length argv = MAX_ARGS - 1 then bnd (cprintf lit k (lit (''Too many arguments (max %d)'' @ [CHR 0x0A])) [of_nat MAX_ARGS]) (\<lambda>_. ret None) (m1, c)
      else split_args lit k j' a2 (argv @ [a1]) (m1, c))"
    using z e by (simp add: bnd_Inr [of "in_mem (gobble lit k (Suc j') a)", OF g] ret_run bnd_Inr [of "in_mem (ld a1)", OF ld]
      bnd_Inr [of "in_mem (scan_arg lit k (Suc j') a1)", OF sc] del: gobble.simps scan_arg.simps)
qed

declare split_args.simps [simp del]

lemma split_args_run:
  assumes ws: "ws_lit ro lit" "4 < k"
  shows "ro \<subseteq>\<^sub>m m \<Longrightarrow> str_at m a s \<Longrightarrow> \<forall>i<length s. ro (a + of_nat i) = None \<Longrightarrow> length s < j \<Longrightarrow> Suc (length s) < 2 ^ 32 \<Longrightarrow>
    length argv + length (words s) < MAX_ARGS \<Longrightarrow>
    split_args lit k j a argv (m, c) = Inr (Some (argv @ map (\<lambda>(i, w). a + of_nat i) (words s)), (overwrite m a (blanked s), c))"
proof (induction s arbitrary: a j m argv rule: words.induct)
  case (1 s)
  let ?n = "length (takeWhile is_ws s)" and ?w = "takeWhile (\<lambda>b. \<not> is_ws b) (dropWhile is_ws s)" and ?r' = "dropWhile (\<lambda>b. \<not> is_ws b) (dropWhile is_ws s)"
  let ?a2 = "a + of_nat ?n + of_nat (length ?w)"
  obtain j' where j: "j = Suc j'" using "1.prems"(4) by (cases j) auto
  note step = split_args_step [OF ws "1.prems"(1-3) "1.prems"(4) [unfolded j] "1.prems"(5)]
  show ?case
  proof (cases "dropWhile is_ws s = []")
    case True
    then have "words s = []" by (subst words.simps) simp
    then show ?thesis using step(1) [of argv c] True j by simp
  next
    case False
    have "length ?r' < j'" "Suc (length ?r') < 2 ^ 32" using word_removed [OF False] "1.prems"(4,5) j by simp_all
    then have "split_args lit k j' ?a2 (argv @ [a + of_nat ?n]) (overwrite m a (replicate ?n 0), c) =
        Inr (Some ((argv @ [a + of_nat ?n]) @ map (\<lambda>(i, w). ?a2 + of_nat i) (words ?r')), (overwrite (overwrite m a (replicate ?n 0)) ?a2 (blanked ?r'), c))"
      using "1.prems"(6) words_step [OF False] by (intro "1.IH" [OF refl refl refl False] step(2-4)) auto
    moreover have "overwrite (overwrite m a (replicate ?n 0)) ?a2 (blanked ?r') = overwrite m a (blanked s)"
      using step(5) step(6) [of "blanked ?r'"] by (simp add: blanked_def)
    moreover have "map (\<lambda>(i, w). a + of_nat i) (words s) = (a + of_nat ?n) # map (\<lambda>(i, w). ?a2 + of_nat i) (words ?r')"
      by (simp add: words_step [OF False] split_def o_def add.assoc)
    moreover have "length argv \<noteq> MAX_ARGS - 1" using "1.prems"(6) words_step [OF False] by simp
    ultimately show ?thesis using step(1) [of argv c] False j by (simp del: dropWhile_eq_Nil_conv)
  qed
qed

lemma split_args_too_many:
  assumes ws: "ws_lit ro lit" "4 < k"
  shows "ro \<subseteq>\<^sub>m m \<Longrightarrow> str_at m a s \<Longrightarrow> \<forall>i<length s. ro (a + of_nat i) = None \<Longrightarrow> length s < j \<Longrightarrow> Suc (length s) < 2 ^ 32 \<Longrightarrow>
    length argv < MAX_ARGS \<Longrightarrow> length argv + length (words s) \<ge> MAX_ARGS \<Longrightarrow>
    \<exists>bs. length bs \<le> length s \<and> split_args lit k j a argv (m, c) =
      bnd (cprintf lit k (lit (''Too many arguments (max %d)'' @ [CHR 0x0A])) [of_nat MAX_ARGS]) (\<lambda>_. ret None) (overwrite m a bs, c)"
proof (induction s arbitrary: a j m argv rule: words.induct)
  case (1 s)
  let ?n = "length (takeWhile is_ws s)" and ?w = "takeWhile (\<lambda>b. \<not> is_ws b) (dropWhile is_ws s)" and ?r' = "dropWhile (\<lambda>b. \<not> is_ws b) (dropWhile is_ws s)"
  let ?a2 = "a + of_nat ?n + of_nat (length ?w)"
  obtain j' where j: "j = Suc j'" using "1.prems"(4) by (cases j) auto
  note step = split_args_step [OF ws "1.prems"(1-3) "1.prems"(4) [unfolded j] "1.prems"(5)]
  have ne: "dropWhile is_ws s \<noteq> []"
  proof
    assume "dropWhile is_ws s = []"
    then have "words s = []" by (subst words.simps) simp
    then show False using "1.prems"(6,7) by simp
  qed
  show ?case
  proof (cases "length argv = MAX_ARGS - 1")
    case True
    then show ?thesis using step(1) [of argv c] ne j step(7) by (intro exI [of _ "replicate ?n 0"]) (simp del: dropWhile_eq_Nil_conv)
  next
    case False
    have "length ?r' < j'" "Suc (length ?r') < 2 ^ 32" "Suc (length argv) < MAX_ARGS" using word_removed [OF ne] "1.prems"(4-6) j False by simp_all
    then obtain bs where bs: "length bs \<le> length ?r'" "split_args lit k j' ?a2 (argv @ [a + of_nat ?n]) (overwrite m a (replicate ?n 0), c) =
        bnd (cprintf lit k (lit (''Too many arguments (max %d)'' @ [CHR 0x0A])) [of_nat MAX_ARGS]) (\<lambda>_. ret None) (overwrite (overwrite m a (replicate ?n 0)) ?a2 bs, c)"
      using "1.IH" [OF refl refl refl ne step(2-4), of j' "argv @ [a + of_nat ?n]"] "1.prems"(6,7) words_step [OF ne] False by auto
    then show ?thesis using step(1) [of argv c] ne j False step(6) [OF bs(1)] step(7) by (intro exI [of _ "replicate ?n 0 @ ?w @ bs"]) (simp del: dropWhile_eq_Nil_conv)
  qed
qed


text \<open>After the split every word is a string of its own.\<close>

lemma blanked_word_at:
  "(i, v) \<in> set (words s) \<Longrightarrow> \<exists>u z. blanked s @ [0] = u @ v @ 0 # z \<and> length u = i \<and> set v \<subseteq> set s \<and> length v \<le> length s"
proof (induction s arbitrary: i v rule: words.induct)
  case (1 s)
  let ?n = "length (takeWhile is_ws s)" and ?r = "dropWhile is_ws s"
  let ?w = "takeWhile (\<lambda>b. \<not> is_ws b) ?r" and ?r' = "dropWhile (\<lambda>b. \<not> is_ws b) ?r"
  have ne: "?r \<noteq> []"
  proof
    assume "?r = []"
    then have "words s = []" by (subst words.simps) simp
    then show False using "1.prems" by simp
  qed
  have s: "s = takeWhile is_ws s @ ?w @ ?r'" by simp
  have b: "blanked s = replicate ?n 0 @ ?w @ blanked ?r'" by (subst s) (simp only: blanked_append blanked_ws blanked_word)
  have sub: "set ?w \<subseteq> set s" "set ?r' \<subseteq> set s" by (auto dest: set_takeWhileD set_dropWhileD)
  have len: "length ?w \<le> length s" "length ?r' \<le> length s"
    by (rule order_trans [OF length_takeWhile_le length_dropWhile_le], rule order_trans [OF length_dropWhile_le length_dropWhile_le])
  consider (here) "(i, v) = (?n, ?w)" | (later) i' where "(i', v) \<in> set (words ?r')" "i = ?n + length ?w + i'"
    using "1.prems" words_step [OF ne] by auto
  then show ?case
  proof cases
    case here
    have "\<exists>z. blanked ?r' @ [0] = 0 # z"
    proof (cases "?r' = []")
      case False
      then have "is_ws (hd ?r')" using hd_dropWhile by blast
      then show ?thesis using False by (cases ?r') (simp_all add: blanked_def)
    qed (simp add: blanked_def del: dropWhile_eq_Nil_conv)
    then obtain z where "blanked ?r' @ [0] = 0 # z" by blast
    then show ?thesis using b here sub(1) len(1) by (intro exI [of _ "replicate ?n 0"] exI [of _ z]) auto
  next
    case later
    then obtain u z where "blanked ?r' @ [0] = u @ v @ 0 # z" "length u = i'" "set v \<subseteq> set ?r'" "length v \<le> length ?r'"
      using "1.IH" [OF refl refl refl ne] by blast
    then show ?thesis using b later(2) sub(2) len(2) by (intro exI [of _ "replicate ?n 0 @ ?w @ u"] exI [of _ z]) auto
  qed
qed

lemma words_in_memory:
  assumes "str_at m a s" "Suc (length s) < 2 ^ 32" "(i, v) \<in> set (words s)"
  shows "str_at (overwrite m a (blanked s)) (a + of_nat i) v" "length v \<le> length s" "i + length v \<le> length s"
proof -
  let ?m = "overwrite m a (blanked s)"
  obtain u z where u: "blanked s @ [0] = u @ v @ 0 # z" "length u = i" "set v \<subseteq> set s" "length v \<le> length s" using blanked_word_at [OF assms(3)] by blast
  have l: "length (blanked s) = length s" by (simp add: blanked_def)
  have "m (a + of_nat (length s)) = Some 0" using assms(1) by (simp add: str_at_def bytes_at_append)
  moreover have "unat (a + of_nat (length s) - a) = length s" using assms(2) by simp
  ultimately have "bytes_at ?m a (blanked s @ [0])" using bytes_at_overwrite [of "blanked s" m a] assms(2) l by (simp add: bytes_at_append overwrite_def)
  then have "bytes_at ?m (a + of_nat i) (v @ [0])" unfolding u(1) using u(2) by (simp add: bytes_at_append)
  then show "str_at ?m (a + of_nat i) v" using u(3) assms(1) by (auto simp: str_at_def)
  show "length v \<le> length s" by (rule u(4))
  have "length (blanked s @ [0]) = length (u @ v @ 0 # z)" using u(1) by simp
  then show "i + length v \<le> length s" using u(2) l by simp
qed

section \<open>Answers\<close>

definition msg :: "string \<Rightarrow> int list" where
  "msg s = map uint (ascii s)"

definition plain :: "string \<Rightarrow> item list" where
  "plain s = map (\<lambda>c. Plain (of_char c)) s"

definition monitor_strings :: "string list" where
  "monitor_strings = [''%s - %s'' @ [CHR 0x0A], ''help'', ''kerninfo'', ''Display this list of commands'', ''Display information about the kernel'',
     ''Special kernel symbols:'' @ [CHR 0x0A], ''  _start                  %08x (phys)'' @ [CHR 0x0A], ''  entry  %08x (virt)  %08x (phys)'' @ [CHR 0x0A],
     ''  etext  %08x (virt)  %08x (phys)'' @ [CHR 0x0A], ''  edata  %08x (virt)  %08x (phys)'' @ [CHR 0x0A], ''  end    %08x (virt)  %08x (phys)'' @ [CHR 0x0A],
     ''Kernel executable memory footprint: %dKB'' @ [CHR 0x0A], ''Too many arguments (max %d)'' @ [CHR 0x0A],
     ''Unknown command '' @ [CHR 0x27] @ ''%s'' @ [CHR 0x27, CHR 0x0A]]"

definition hex8 :: "vaddr \<Rightarrow> int list" where
  "hex8 v = field 16 True 8 (unat v)"

definition symbol_line :: "string \<Rightarrow> vaddr \<Rightarrow> int list" where
  "symbol_line name v = msg name @ hex8 v @ msg '' (virt)  '' @ hex8 (v - KERNBASE) @ msg ('' (phys)'' @ [CHR 0x0A])"

definition footprint :: "linker_symbols \<Rightarrow> 32 word" where
  "footprint sy = (let x = sym_end sy - sym_entry sy + 1024 - 1 in word_of_int (sint (x - x mod 1024) sdiv 1024))"

definition help_text :: "int list" where
  "help_text = concat (map (\<lambda>c. msg (cmd_name c) @ msg '' - '' @ msg (cmd_desc c) @ [0x0A]) commands)"

definition kerninfo_text :: "linker_symbols \<Rightarrow> int list" where
  "kerninfo_text sy = msg (''Special kernel symbols:'' @ [CHR 0x0A]) @ msg ''  _start                  '' @ hex8 (sym_start sy) @ msg ('' (phys)'' @ [CHR 0x0A])
     @ symbol_line ''  entry  '' (sym_entry sy) @ symbol_line ''  etext  '' (sym_etext sy) @ symbol_line ''  edata  '' (sym_edata sy) @ symbol_line ''  end    '' (sym_end sy)
     @ msg ''Kernel executable memory footprint: '' @ signed_field False 0 (sint (footprint sy)) @ msg (''KB'' @ [CHR 0x0A])"

text \<open>What the monitor answers to a first word, and to a line of the words \<open>ws\<close>.\<close>

definition answer :: "linker_symbols \<Rightarrow> byte list \<Rightarrow> int list" where
  "answer sy w =
     (if w = ascii ''help'' then help_text
      else if w = ascii ''kerninfo'' then kerninfo_text sy
      else msg (''Unknown command '' @ [CHR 0x27]) @ map sint w @ msg [CHR 0x27, CHR 0x0A])"

definition reply :: "linker_symbols \<Rightarrow> byte list list \<Rightarrow> int list" where
  "reply sy ws =
     (if length ws \<ge> MAX_ARGS then msg (''Too many arguments (max 16)'' @ [CHR 0x0A])
      else case ws of [] \<Rightarrow> [] | w # _ \<Rightarrow> answer sy w)"

lemma plain_simps [simp]:
  "concat (map render (plain s)) = ascii s" "concat (map args (plain s)) = []" "concat (map shown (plain s)) = msg s" "(\<forall>it \<in> set (plain s). item_size it \<le> B)"
  by (induction s) (simp_all add: plain_def ascii_def msg_def)

definition fits :: "jmem \<Rightarrow> (string \<Rightarrow> vaddr) \<Rightarrow> nat \<Rightarrow> item list \<Rightarrow> bool" where
  "fits m lit B items \<longleftrightarrow> (\<forall>it \<in> set items. item_ok m lit it \<and> item_size it \<le> B)"

lemma fits_append [intro]: "fits m lit B xs \<Longrightarrow> fits m lit B ys \<Longrightarrow> fits m lit B (xs @ ys)"
  by (auto simp: fits_def)

lemma fits_plain [intro]: "list_all (\<lambda>b. b \<noteq> 0 \<and> b \<noteq> 0x25) (ascii s) \<Longrightarrow> fits m lit B (plain s)"
  by (auto simp: fits_def plain_def ascii_def list_all_iff)

text \<open>A format of the monitor, its items and what they print.\<close>

lemma cprintf_literal:
  assumes t: "shows_terminal m a t s" and ro: "ro \<subseteq>\<^sub>m outside m a 4000" "str_at ro (lit f) (ascii f)"
    and items: "concat (map render items) = ascii f" "\<forall>it \<in> set items. item_ok (outside m a 4000) lit it \<and> item_size it \<le> B" "Suc (length f + B) < k"
  shows "\<exists>s'. cprintf lit k (lit f) (concat (map args items)) s = Inr (0, s') \<and> shows_terminal m a (term_text (concat (map shown items)) t) s' \<and> output_only (snd s) (snd s')"
proof -
  have "bytes_at (outside m a 4000) (lit f) (concat (map render items) @ [0])" using str_at_ro [OF ro] by (simp add: items(1) str_at_def)
  moreover have "length (ascii f) = length f" by (simp add: ascii_def)
  ultimately show ?thesis using cprintf_run [OF t items(2), of "lit f" k] items(1,3) by auto
qed

definition says :: "jmem \<Rightarrow> vaddr \<Rightarrow> int kcmd \<Rightarrow> int list \<Rightarrow> bool" where
  "says m a c cs \<longleftrightarrow> (\<forall>t s. shows_terminal m a t s \<longrightarrow>
     (\<exists>s'. c s = Inr (0, s') \<and> shows_terminal m a (term_text cs t) s' \<and> output_only (snd s) (snd s')))"

lemma says_literal:
  assumes "ro \<subseteq>\<^sub>m outside m a 4000" "str_at ro (lit f) (ascii f)"
    "concat (map render items) = ascii f" "\<forall>it \<in> set items. item_ok (outside m a 4000) lit it \<and> item_size it \<le> B" "Suc (length f + B) < k"
    "vs = concat (map args items)" "cs = concat (map shown items)"
  shows "says m a (cprintf lit k (lit f) vs) cs"
  unfolding says_def using cprintf_literal [OF _ assms(1-5)] assms(6,7) by blast

lemma says_bnd: "says m a c cs \<Longrightarrow> says m a d ds \<Longrightarrow> es = cs @ ds \<Longrightarrow> says m a (bnd c (\<lambda>_. d)) es"
  unfolding says_def
proof (intro allI impI)
  fix t s
  assume c: "\<forall>t s. shows_terminal m a t s \<longrightarrow> (\<exists>s'. c s = Inr (0, s') \<and> shows_terminal m a (term_text cs t) s' \<and> output_only (snd s) (snd s'))"
    and d: "\<forall>t s. shows_terminal m a t s \<longrightarrow> (\<exists>s'. d s = Inr (0, s') \<and> shows_terminal m a (term_text ds t) s' \<and> output_only (snd s) (snd s'))"
    and "es = cs @ ds" "shows_terminal m a t s"
  then obtain s1 where s1: "c s = Inr (0, s1)" "shows_terminal m a (term_text cs t) s1" "output_only (snd s) (snd s1)" by blast
  then obtain s2 where "d s1 = Inr (0, s2)" "shows_terminal m a (term_text ds (term_text cs t)) s2" "output_only (snd s1) (snd s2)" using d by blast
  then show "\<exists>s'. bnd c (\<lambda>_. d) s = Inr (0, s') \<and> shows_terminal m a (term_text es t) s' \<and> output_only (snd s) (snd s')"
    using s1 output_only_trans \<open>es = cs @ ds\<close> by (auto simp: bnd_Inr [of c, OF s1(1)] term_text_def)
qed

lemma says_ret: "says m a (ret 0) []"
  by (auto simp: says_def ret_run term_text_def output_only_def)

text \<open>The string literals of the monitor are in read-only memory.\<close>

definition literals_in :: "jmem \<Rightarrow> (string \<Rightarrow> vaddr) \<Rightarrow> bool" where
  "literals_in ro lit \<longleftrightarrow> (\<forall>f \<in> set monitor_strings. str_at ro (lit f) (ascii f) \<and> lit f \<noteq> 0) \<and> ws_lit ro lit"

lemma literal_at: "literals_in ro lit \<Longrightarrow> f \<in> set monitor_strings \<Longrightarrow> str_at ro (lit f) (ascii f)"
  by (simp add: literals_in_def)


lemma msg_sint: "list_all (\<lambda>b. b < 0x80) (ascii s) \<Longrightarrow> map sint (ascii s) = msg s"
proof -
  have "sint b = uint b" if "b < 0x80" for b :: byte
  proof -
    have "uint b < 128" using that by (simp add: word_less_def)
    moreover have "0 \<le> uint b" by simp
    ultimately have "- 128 \<le> uint b" "uint b < 128" by linarith+
    then show ?thesis by (simp add: sint_uint signed_take_bit_int_eq_self)
  qed
  then show "list_all (\<lambda>b. b < 0x80) (ascii s) \<Longrightarrow> map sint (ascii s) = msg s" by (simp add: msg_def list_all_iff)
qed

text \<open>Every format of the monitor as items.\<close>

definition str_items :: "vaddr \<Rightarrow> byte list \<Rightarrow> item list" where
  "str_items p w = [Str False False 0 0 p w]"

definition hex_items :: "vaddr \<Rightarrow> item list" where
  "hex_items v = [Hexadecimal True 8 (Int32 v)]"

definition dec_items :: "32 word \<Rightarrow> item list" where
  "dec_items v = [Decimal False 0 (Int32 v)]"

lemma items_render [simp]:
  "concat (map render (str_items p w)) = ascii ''%s''" "concat (map render (hex_items v)) = ascii ''%08x''" "concat (map render (dec_items v)) = ascii ''%d''"
  unfolding str_items_def hex_items_def dec_items_def by code_simp+

lemma items_args [simp]:
  "concat (map args (str_items p w)) = [p]" "concat (map args (hex_items v)) = [v]" "concat (map args (dec_items v)) = [v]"
  by (simp_all add: str_items_def hex_items_def dec_items_def)

lemma items_shown [simp]:
  "p \<noteq> 0 \<Longrightarrow> concat (map shown (str_items p w)) = map sint w" "concat (map shown (hex_items v)) = hex8 v" "concat (map shown (dec_items v)) = signed_field False 0 (sint v)"
  by (simp_all add: str_items_def hex_items_def dec_items_def str_field_def hex8_def)

lemma fits_str [intro]: "str_at m p w \<Longrightarrow> p \<noteq> 0 \<Longrightarrow> size_ok (length w) \<Longrightarrow> length w + 8 \<le> B \<Longrightarrow> fits m lit B (str_items p w)"
  by (simp add: fits_def str_items_def size_ok_def)

lemma fits_hex [intro]: "fits m lit B (hex_items v)"
  by (simp add: fits_def hex_items_def size_ok_def)

lemma fits_dec [intro]: "fits m lit B (dec_items v)"
proof -
  have "sint v \<noteq> - 9223372036854775808" using sint_ge [of v] by simp
  then show ?thesis by (simp add: fits_def dec_items_def size_ok_def)
qed

lemma says_items:
  assumes "ro \<subseteq>\<^sub>m outside m a 4000" "literals_in ro lit" "f \<in> set monitor_strings" "ascii f = concat (map render items)"
    "fits (outside m a 4000) lit B items" "B + 60 < k" "length f < 60"
    "vs = concat (map args items)" "cs = concat (map shown items)"
  shows "says m a (cprintf lit k (lit f) vs) cs"
  using assms by (intro says_literal [OF assms(1) literal_at [OF assms(2,3)] _ assms(5) [unfolded fits_def]]) simp_all

lemma ascii_append: "ascii (xs @ ys) = ascii xs @ ascii ys"
  by (simp add: ascii_def)

lemma says_symbol:
  assumes "ro \<subseteq>\<^sub>m outside m a 4000" "literals_in ro lit" "60 < k" "f \<in> set monitor_strings" "f = name @ ''%08x (virt)  %08x (phys)'' @ [CHR 0x0A]"
    "list_all (\<lambda>b. b \<noteq> 0 \<and> b \<noteq> 0x25) (ascii name)" "length name = 9"
  shows "says m a (cprintf lit k (lit f) [v, v - KERNBASE]) (symbol_line name v)"
proof -
  let ?items = "plain name @ hex_items v @ plain '' (virt)  '' @ hex_items (v - KERNBASE) @ plain ('' (phys)'' @ [CHR 0x0A])"
  have "list_all (\<lambda>b. b \<noteq> 0 \<and> b \<noteq> 0x25) (ascii '' (virt)  '')" "list_all (\<lambda>b. b \<noteq> 0 \<and> b \<noteq> 0x25) (ascii ('' (phys)'' @ [CHR 0x0A]))" by code_simp+
  then have ok: "fits (outside m a 4000) lit 0 ?items" using assms(6) by (intro fits_append fits_plain fits_hex)
  show ?thesis
    by (rule says_items [OF assms(1,2,4) _ ok]) (use assms(3,7) in \<open>simp_all add: assms(5) ascii_append symbol_line_def del: append_Cons\<close>, simp add: ascii_def)
qed

lemma says_kerninfo:
  assumes ro: "ro \<subseteq>\<^sub>m outside m a 4000" "literals_in ro lit" and k: "60 < k"
  shows "says m a (mon_kerninfo lit k sy argv tf) (kerninfo_text sy)"
proof -
  have 1: "says m a (cprintf lit k (lit (''Special kernel symbols:'' @ [CHR 0x0A])) []) (msg (''Special kernel symbols:'' @ [CHR 0x0A]))"
  proof -
    have "list_all (\<lambda>b. b \<noteq> 0 \<and> b \<noteq> 0x25) (ascii (''Special kernel symbols:'' @ [CHR 0x0A]))" by code_simp
    then have "fits (outside m a 4000) lit 0 (plain (''Special kernel symbols:'' @ [CHR 0x0A]))" by (rule fits_plain)
    from says_items [OF ro _ _ this] show ?thesis using k by (simp add: monitor_strings_def)
  qed
  have 2: "says m a (cprintf lit k (lit (''  _start                  %08x (phys)'' @ [CHR 0x0A])) [v]) (msg ''  _start                  '' @ hex8 v @ msg ('' (phys)'' @ [CHR 0x0A]))" for v
  proof -
    have "list_all (\<lambda>b. b \<noteq> 0 \<and> b \<noteq> 0x25) (ascii ''  _start                  '')" "list_all (\<lambda>b. b \<noteq> 0 \<and> b \<noteq> 0x25) (ascii ('' (phys)'' @ [CHR 0x0A]))" by code_simp+
    then have "fits (outside m a 4000) lit 0 (plain ''  _start                  '' @ hex_items v @ plain ('' (phys)'' @ [CHR 0x0A]))" by (intro fits_append fits_plain fits_hex)
    from says_items [OF ro _ _ this] show ?thesis using k by (simp add: monitor_strings_def ascii_def)
  qed
  have 3: "says m a (cprintf lit k (lit (''Kernel executable memory footprint: %dKB'' @ [CHR 0x0A])) [v])
      (msg ''Kernel executable memory footprint: '' @ signed_field False 0 (sint v) @ msg (''KB'' @ [CHR 0x0A]))" for v
  proof -
    have "list_all (\<lambda>b. b \<noteq> 0 \<and> b \<noteq> 0x25) (ascii ''Kernel executable memory footprint: '')" "list_all (\<lambda>b. b \<noteq> 0 \<and> b \<noteq> 0x25) (ascii (''KB'' @ [CHR 0x0A]))" by code_simp+
    then have "fits (outside m a 4000) lit 0 (plain ''Kernel executable memory footprint: '' @ dec_items v @ plain (''KB'' @ [CHR 0x0A]))" by (intro fits_append fits_plain fits_dec)
    from says_items [OF ro _ _ this] show ?thesis using k by (simp add: monitor_strings_def ascii_def)
  qed
  have n: "list_all (\<lambda>b. b \<noteq> 0 \<and> b \<noteq> 0x25) (ascii name)" if "name \<in> {''  entry  '', ''  etext  '', ''  edata  '', ''  end    ''}" for name
    using that by (elim insertE emptyE) (simp, code_simp)+
  have round: "(case ROUNDUP (sym_end sy - sym_entry sy) 1024 of Inl e \<Rightarrow> fail e | Inr r \<Rightarrow> ret (word_of_int (sint r sdiv 1024))) = (ret (footprint sy) :: 32 word kcmd)"
    by (simp add: ROUNDUP_def ROUNDDOWN_def footprint_def Let_def)
  show ?thesis
    unfolding mon_kerninfo_def round bnd_ret kerninfo_text_def
    by (rule says_bnd [OF 1], rule says_bnd [OF 2], (rule says_bnd, rule says_symbol [OF ro k], (simp add: monitor_strings_def)[], simp, rule n, simp, simp)+, rule says_bnd [OF 3 says_ret]) simp_all
qed


lemma says_help_line:
  assumes ro: "ro \<subseteq>\<^sub>m outside m a 4000" "literals_in ro lit" "120 < k"
    and c: "cmd_name c \<in> set monitor_strings" "cmd_desc c \<in> set monitor_strings" "list_all (\<lambda>b. b < 0x80) (ascii (cmd_name c))" "list_all (\<lambda>b. b < 0x80) (ascii (cmd_desc c))"
      "length (cmd_name c) \<le> 40" "length (cmd_desc c) \<le> 40"
  shows "says m a (cprintf lit k (lit (''%s - %s'' @ [CHR 0x0A])) [lit (cmd_name c), lit (cmd_desc c)]) (msg (cmd_name c) @ msg '' - '' @ msg (cmd_desc c) @ [0x0A])"
proof -
  have l: "length (ascii s) = length s" for s by (simp add: ascii_def)
  have p: "str_at (outside m a 4000) (lit f) (ascii f)" "lit f \<noteq> 0" if "f \<in> set monitor_strings" for f
    using that str_at_ro [OF ro(1)] ro(2) by (simp_all add: literals_in_def)
  have "list_all (\<lambda>b. b \<noteq> 0 \<and> b \<noteq> 0x25) (ascii '' - '')" "list_all (\<lambda>b. b \<noteq> 0 \<and> b \<noteq> 0x25) (ascii [CHR 0x0A])" by code_simp+
  then have "fits (outside m a 4000) lit 50 (str_items (lit (cmd_name c)) (ascii (cmd_name c)) @ plain '' - '' @ str_items (lit (cmd_desc c)) (ascii (cmd_desc c)) @ plain [CHR 0x0A])"
    using c p by (intro fits_append fits_plain fits_str) (simp_all add: l size_ok_def)
  from says_items [OF ro(1,2) _ _ this, of "''%s - %s'' @ [CHR 0x0A]" k] show ?thesis
    using ro(3) c p msg_sint by (simp add: monitor_strings_def ascii_def) (simp add: msg_def ascii_def)
qed

lemma says_help:
  assumes "ro \<subseteq>\<^sub>m outside m a 4000" "literals_in ro lit" "120 < k"
  shows "says m a (mon_help lit k argv tf) help_text"
proof -
  have "list_all (\<lambda>c. list_all (\<lambda>b. b < 0x80) (ascii (cmd_name c)) \<and> list_all (\<lambda>b. b < 0x80) (ascii (cmd_desc c)) \<and> length (cmd_name c) \<le> 40 \<and> length (cmd_desc c) \<le> 40) commands" by code_simp
  then have "says m a (cprintf lit k (lit (''%s - %s'' @ [CHR 0x0A])) [lit (cmd_name c), lit (cmd_desc c)]) (msg (cmd_name c) @ msg '' - '' @ msg (cmd_desc c) @ [0x0A])"
    if "c \<in> set commands" for c
    using that by (intro says_help_line [OF assms]) (auto simp: list_all_iff commands_def monitor_strings_def)
  then have line: "says m a (cprintf lit k (lit (''%s - %s'' @ [CHR 0x0A])) [lit (cmd_name c), lit (cmd_desc c)]) (msg (cmd_name c) @ msg '' - '' @ msg (cmd_desc c) @ [0x0A])"
    if "c \<in> set cs" "set cs \<subseteq> set commands" for c cs using that by blast
  have "says m a (bnd (mon_help_loop lit k cs) (\<lambda>_. ret 0)) (concat (map (\<lambda>c. msg (cmd_name c) @ msg '' - '' @ msg (cmd_desc c) @ [0x0A]) cs))" if "set cs \<subseteq> set commands" for cs
    using that
  proof (induction cs)
    case Nil
    show ?case by (simp add: says_ret)
  next
    case (Cons c cs)
    have "says m a (bnd (mon_help_loop lit k cs) (\<lambda>_. ret 0)) (concat (map (\<lambda>c. msg (cmd_name c) @ msg '' - '' @ msg (cmd_desc c) @ [0x0A]) cs))" using Cons by simp
    from says_bnd [OF line [OF _ Cons.prems, of c] this refl] show ?case by (simp add: bnd_bnd)
  qed
  then show ?thesis by (simp add: mon_help_def help_text_def)
qed

lemma says_unknown:
  assumes "ro \<subseteq>\<^sub>m outside m a 4000" "literals_in ro lit" "length w + 120 < k" "size_ok (length w)" "str_at (outside m a 4000) p w" "p \<noteq> 0"
  shows "says m a (cprintf lit k (lit (''Unknown command '' @ [CHR 0x27] @ ''%s'' @ [CHR 0x27, CHR 0x0A])) [p]) (msg (''Unknown command '' @ [CHR 0x27]) @ map sint w @ msg [CHR 0x27, CHR 0x0A])"
proof -
  have "list_all (\<lambda>b. b \<noteq> 0 \<and> b \<noteq> 0x25) (ascii (''Unknown command '' @ [CHR 0x27]))" "list_all (\<lambda>b. b \<noteq> 0 \<and> b \<noteq> 0x25) (ascii [CHR 0x27, CHR 0x0A])" by code_simp+
  then have "fits (outside m a 4000) lit (length w + 8) (plain (''Unknown command '' @ [CHR 0x27]) @ str_items p w @ plain [CHR 0x27, CHR 0x0A])"
    using assms(4-6) by (intro fits_append fits_plain fits_str) simp_all
  from says_items [OF assms(1,2) _ _ this] show ?thesis using assms(3,6) by (simp add: monitor_strings_def ascii_def)
qed

lemma says_too_many:
  assumes "ro \<subseteq>\<^sub>m outside m a 4000" "literals_in ro lit" "60 < k"
  shows "says m a (cprintf lit k (lit (''Too many arguments (max %d)'' @ [CHR 0x0A])) [of_nat MAX_ARGS]) (msg (''Too many arguments (max 16)'' @ [CHR 0x0A]))"
proof -
  have "list_all (\<lambda>b. b \<noteq> 0 \<and> b \<noteq> 0x25) (ascii ''Too many arguments (max '')" "list_all (\<lambda>b. b \<noteq> 0 \<and> b \<noteq> 0x25) (ascii ('')'' @ [CHR 0x0A]))" by code_simp+
  then have "fits (outside m a 4000) lit 0 (plain ''Too many arguments (max '' @ dec_items 16 @ plain ('')'' @ [CHR 0x0A]))" by (intro fits_append fits_plain fits_dec)
  moreover have "msg (''Too many arguments (max 16)'' @ [CHR 0x0A]) = msg ''Too many arguments (max '' @ signed_field False 0 (sint (16 :: 32 word)) @ msg ('')'' @ [CHR 0x0A])" by code_simp
  ultimately show ?thesis using says_items [OF assms(1,2), where items = "plain ''Too many arguments (max '' @ dec_items 16 @ plain ('')'' @ [CHR 0x0A])"] assms(3)
    by (simp add: monitor_strings_def ascii_def MAX_ARGS_def)
qed


section \<open>Running a line\<close>

text \<open>The line is outside the display, not at address 0, and the literals are outside the line.\<close>

definition line_apart :: "jmem \<Rightarrow> vaddr \<Rightarrow> vaddr \<Rightarrow> nat \<Rightarrow> bool" where
  "line_apart ro a line n \<longleftrightarrow> (\<forall>i\<le>n. 4000 \<le> unat (line + of_nat i - a) \<and> ro (line + of_nat i) = None \<and> line + of_nat i \<noteq> 0)"

lemma in_region: "unat (x - a) < n \<Longrightarrow> \<exists>i<n. x = a + of_nat i" for x a :: vaddr
  by (intro exI [of _ "unat (x - a)"]) simp

lemma shows_terminal_overwrite:
  assumes "shows_terminal m a t s" "\<forall>i<length bs. 4000 \<le> unat (line + of_nat i - a)"
  shows "shows_terminal (overwrite m line bs) a t (overwrite (fst s) line bs, snd s)"
proof -
  obtain cells where c: "fst s = disp m a cells" "on_screen a cells" "t = term_of cells (unat (crt_pos (snd s)))" using assms(1) by (auto simp: shows_terminal_def)
  have "\<not> unat (x - a) < 4000" if "unat (x - line) < length bs" for x using in_region [OF that] assms(2) by auto
  then have "overwrite (fst s) line bs = disp (overwrite m line bs) a cells" using c(1,2) by (auto simp: fun_eq_iff disp_def overwrite_def on_screen_def)
  then show ?thesis using assms(1) c(2,3) unfolding shows_terminal_def by (intro conjI exI [of _ cells]) simp_all
qed

lemma ro_after:
  assumes "ro \<subseteq>\<^sub>m outside m a 4000" "line_apart ro a line n" "length bs \<le> n"
  shows "ro \<subseteq>\<^sub>m outside (overwrite m line bs) a 4000"
proof -
  have "ro x = None" if "unat (x - line) < length bs" for x
    using in_region [OF that] assms(2,3) unfolding line_apart_def by (metis less_imp_le order_trans)
  then show ?thesis using assms(1) by (force simp: map_le_def outside_def overwrite_def dom_def)
qed

lemma outside_shown: "shows_terminal m a t s \<Longrightarrow> outside m a 4000 \<subseteq>\<^sub>m fst s"
  by (auto simp: shows_terminal_def map_le_def dom_def outside_def disp_def overwrite_def on_screen_def)

lemma str_at_outside:
  assumes "str_at m p w" "\<forall>i\<le>length w. 4000 \<le> unat (p + of_nat i - a)"
  shows "str_at (outside m a 4000) p w"
proof -
  have "\<not> unat (p + of_nat i - a) < 4000" if "i < Suc (length w)" for i using assms(2) that by (simp add: not_less)
  then show ?thesis using assms(1) by (auto simp: str_at_def bytes_at_iff outside_def)
qed

lemma find_command_run:
  assumes "str_at (fst s) arg w" "length w < k" "\<forall>c \<in> set cs. str_at (fst s) (lit (cmd_name c)) (ascii (cmd_name c))"
  shows "find_command lit k arg cs s = Inr (map_option cmd_func (find (\<lambda>c. w = ascii (cmd_name c)) cs), s)"
  using assms(3)
proof (induction cs)
  case (Cons c cs)
  obtain r where "strcmp k arg (lit (cmd_name c)) (fst s) = Inr (r, fst s)" "r = 0 \<longleftrightarrow> w = ascii (cmd_name c)"
    using strcmp_spec [OF assms(1) _ assms(2), of "lit (cmd_name c)" "ascii (cmd_name c)"] Cons.prems by auto
  then show ?case using Cons by (simp add: bnd_def in_mem_def ret_run)
qed (simp add: ret_run)

lemma says_answer:
  assumes ro: "ro \<subseteq>\<^sub>m outside m a 4000" "literals_in ro lit" and w: "length w + 120 < k" "size_ok (length w)" "str_at (outside m a 4000) arg w" "arg \<noteq> 0"
  shows "says m a (bnd (find_command lit k arg commands) (\<lambda>f. case f of Some func \<Rightarrow> run_func lit k sy func argv tf
     | None \<Rightarrow> bnd (cprintf lit k (lit (''Unknown command '' @ [CHR 0x27] @ ''%s'' @ [CHR 0x27, CHR 0x0A])) [arg]) (\<lambda>_. ret 0))) (answer sy w)"
proof -
  have run: "find_command lit k arg commands s = Inr (map_option cmd_func (find (\<lambda>c. w = ascii (cmd_name c)) commands), s)" if t: "shows_terminal m a t s" for s t
  proof (rule find_command_run)
    show "str_at (fst s) arg w" using str_at_ro [OF outside_shown [OF t] w(3)] .
    show "\<forall>c \<in> set commands. str_at (fst s) (lit (cmd_name c)) (ascii (cmd_name c))"
      using str_at_ro [OF map_le_trans [OF ro(1) outside_shown [OF t]]] literal_at [OF ro(2)] by (auto simp: commands_def monitor_strings_def)
  qed (use w(1) in simp)
  have go: "says m a (bnd (find_command lit k arg commands) g) cs" if "says m a (g (map_option cmd_func (find (\<lambda>c. w = ascii (cmd_name c)) commands))) cs" for g cs
    using that run unfolding says_def by (auto simp: bnd_Inr [of "find_command _ _ _ _", OF run])
  have k: "120 < k" "60 < k" using w(1) by simp_all
  have ne: "ascii ''kerninfo'' \<noteq> ascii ''help''" by code_simp
  show ?thesis
    by (rule go) (use says_help [OF ro k(1)] says_kerninfo [OF ro k(2)] says_bnd [OF says_unknown [OF ro w] says_ret refl] ne in \<open>auto simp: answer_def commands_def\<close>)
qed

lemma run_command_run:
  assumes t: "shows_terminal m a t s" and line: "str_at m line l" "length l < 2 ^ 30" "length l < j" "length l + 120 < k"
    and ro: "ro \<subseteq>\<^sub>m outside m a 4000" "literals_in ro lit" "line_apart ro a line (length l)"
  shows "\<exists>s' bs. run_command lit k j sy line tf s = Inr (0, s') \<and> length bs \<le> length l
    \<and> shows_terminal (overwrite m line bs) a (term_text (reply sy (map snd (words l))) t) s' \<and> output_only (snd s) (snd s')"
proof -
  have clear: "\<forall>i<length l. 4000 \<le> unat (line + of_nat i - a)" "\<forall>i<length l. ro (line + of_nat i) = None" using ro(3) by (simp_all add: line_apart_def)
  have ws: "ws_lit ro lit" "4 < k" using ro(2) line(4) by (simp_all add: literals_in_def)
  have f: "ro \<subseteq>\<^sub>m fst s" "str_at (fst s) line l" "Suc (length l) < 2 ^ 32"
    using map_le_trans [OF ro(1) outside_shown [OF t]] str_at_ro [OF outside_shown [OF t] str_at_outside [OF line(1)]] ro(3) line(2) by (auto simp: line_apart_def)
  have go: ?thesis if "length bs \<le> length l" "run_command lit k j sy line tf s = c (overwrite (fst s) line bs, snd s)"
    "ro \<subseteq>\<^sub>m outside (overwrite m line bs) a 4000 \<Longrightarrow> says (overwrite m line bs) a c (reply sy (map snd (words l)))" for bs c
    using that shows_terminal_overwrite [OF t, of bs line] ro_after [OF ro(1,3) that(1)] clear(1) unfolding says_def by fastforce
  show ?thesis
  proof (cases "length (words l) \<ge> MAX_ARGS")
    case True
    let ?c = "cprintf lit k (lit (''Too many arguments (max %d)'' @ [CHR 0x0A])) [of_nat MAX_ARGS]"
    obtain bs where bs: "length bs \<le> length l" "split_args lit k j line [] s = bnd ?c (\<lambda>_. ret None) (overwrite (fst s) line bs, snd s)"
      using split_args_too_many [OF ws f(1,2) clear(2) line(3) f(3), of "[]" "snd s"] True by (auto simp: MAX_ARGS_def)
    show ?thesis
    proof (rule go [OF bs(1)])
      show "run_command lit k j sy line tf s = bnd ?c (\<lambda>_. ret 0) (overwrite (fst s) line bs, snd s)"
        using bs(2) by (simp add: run_command_def bnd_def ret_run split: sum.splits)
      show "says (overwrite m line bs) a (bnd ?c (\<lambda>_. ret 0)) (reply sy (map snd (words l)))" if "ro \<subseteq>\<^sub>m outside (overwrite m line bs) a 4000"
        using says_bnd [OF says_too_many [OF that ro(2)] says_ret refl] line(4) True by (simp add: reply_def)
    qed
  next
    case False
    let ?s = "(overwrite (fst s) line (blanked l), snd s)"
    have lb: "length (blanked l) \<le> length l" by (simp add: blanked_def)
    have sp: "split_args lit k j line [] s = Inr (Some (map (\<lambda>(i, w). line + of_nat i) (words l)), ?s)"
      using split_args_run [OF ws f(1,2) clear(2) line(3) f(3), of "[]" "snd s"] False by simp
    show ?thesis
    proof (cases "words l")
      case Nil
      have "run_command lit k j sy line tf s = ret 0 ?s" by (simp add: run_command_def bnd_Inr [of "split_args _ _ _ _ _", OF sp] Nil)
      then show ?thesis by (rule go [OF lb]) (simp add: reply_def Nil MAX_ARGS_def says_ret)
    next
      case (Cons iw rest)
      obtain i w where iw: "iw = (i, w)" by (cases iw)
      then have "(i, w) \<in> set (words l)" using Cons by simp
      note wm = words_in_memory [OF line(1) f(3) this]
      have p: "line + of_nat i \<noteq> 0" "\<forall>n\<le>length w. 4000 \<le> unat (line + of_nat i + of_nat n - a)"
        using ro(3) wm(3) unfolding line_apart_def by (metis le_add1 order_trans, metis (no_types, lifting) add.assoc add_le_mono le_refl of_nat_add order_trans)
      have w: "length w + 120 < k" "size_ok (length w)" using wm(2) line(2,4) by (simp_all add: size_ok_def)
      show ?thesis
      proof (rule go [OF lb])
        show "run_command lit k j sy line tf s = bnd (find_command lit k (line + of_nat i) commands) (\<lambda>f. case f of
            Some func \<Rightarrow> run_func lit k sy func (map (\<lambda>(i, w). line + of_nat i) (words l)) tf
          | None \<Rightarrow> bnd (cprintf lit k (lit (''Unknown command '' @ [CHR 0x27] @ ''%s'' @ [CHR 0x27, CHR 0x0A])) [line + of_nat i]) (\<lambda>_. ret 0)) ?s"
          unfolding run_command_def bnd_Inr [of "split_args lit k j line []", OF sp] by (simp only: Cons iw list.map prod.case option.case list.case)
        have "reply sy (map snd (words l)) = answer sy w" using False Cons iw by (simp add: reply_def)
        then show "ro \<subseteq>\<^sub>m outside (overwrite m line (blanked l)) a 4000 \<Longrightarrow> says (overwrite m line (blanked l)) a (bnd (find_command lit k (line + of_nat i) commands) (\<lambda>f. case f of
            Some func \<Rightarrow> run_func lit k sy func (map (\<lambda>(i, w). line + of_nat i) (words l)) tf
          | None \<Rightarrow> bnd (cprintf lit k (lit (''Unknown command '' @ [CHR 0x27] @ ''%s'' @ [CHR 0x27, CHR 0x0A])) [line + of_nat i]) (\<lambda>_. ret 0))) (reply sy (map snd (words l)))"
          by (simp only:) (rule says_answer [OF _ ro(2) w str_at_outside [OF wm(1) p(2)] p(1)])
      qed
    qed
  qed
qed


section \<open>A round of the monitor\<close>

lemma edited_typed: "edited l cs = Some (l', es, r) \<Longrightarrow> c \<in> set l' \<Longrightarrow> c \<in> set l \<or> c \<in> set cs \<and> 0x20 \<le> c"
  by (induction l cs arbitrary: es rule: edited.induct) (auto split: if_splits dest: in_set_butlastD)

lemma typed_line:
  fixes q :: "byte list"
  assumes "edited [] (map uint q) = Some (l, es, r)" "bytes_at m a (map word_of_int l @ [0])"
  shows "str_at m a (map word_of_int l)"
proof -
  have "word_of_int c \<noteq> (0 :: byte)" if c: "c \<in> set l" for c
  proof -
    obtain b :: byte where b: "c = uint b" "0x20 \<le> c" using edited_typed [OF assms(1) c] by auto
    then show ?thesis by auto
  qed
  then show ?thesis using assms(2) by (auto simp: str_at_def)
qed

lemma ro_elsewhere:
  assumes "ro \<subseteq>\<^sub>m outside m a 4000" "outside m' line 1024 = outside m line 1024" "line_apart ro a line 1024"
  shows "ro \<subseteq>\<^sub>m outside m' a 4000"
proof -
  have n: "ro x = None" if "unat (x - line) < 1024" for x using in_region [OF that] assms(3) by (auto simp: line_apart_def)
  have "m' x = m x" if "\<not> unat (x - line) < 1024" for x using assms(2) [THEN fun_cong, of x] that by (simp add: outside_def)
  then have "outside m' a 4000 x = outside m a 4000 x" if "ro x \<noteq> None" for x using that n [of x] by (cases "unat (x - line) < 1024") (simp_all add: outside_def)
  then show ?thesis using assms(1) by (auto simp: map_le_def dom_def)
qed

lemma outside_overwrite: "length bs \<le> n \<Longrightarrow> outside (overwrite m a bs) a n = outside m a n"
  by (auto simp: outside_def overwrite_def)

lemma line_apart_shorter: "line_apart ro a line n \<Longrightarrow> k \<le> n \<Longrightarrow> line_apart ro a line k"
  by (simp add: line_apart_def)

lemma monitor_round_run:
  assumes t: "shows_terminal m a t s" and inp: "ring_ok s" "idle (snd s)" "0 \<notin> set (queue s)" "edited [] (map uint (queue s)) = Some (l, es, r)"
    and line: "mapped m line 1024" "line_apart ro a line 1024" and ro: "ro \<subseteq>\<^sub>m outside m a 4000" "literals_in ro lit"
      "str_at ro (lit ''K> '') (ascii ''K> '')" "lit ''K> '' \<noteq> 0" "str_at ro (lit ''%s'') (ascii ''%s'')"
    and fuel: "2000 < k" "0 < g" "1024 \<le> j" "length (queue s) \<le> j"
  shows "\<exists>s' m'. monitor_round lit k j sy (getchar lit k g) line tf s = Inr (True, s')
    \<and> shows_terminal m' a (term_text (msg ''K> '' @ es @ reply sy (map snd (words (map word_of_int l)))) t) s'
    \<and> outside m' line 1024 = outside m line 1024 \<and> map uint (queue s') = r"
proof -
  have pr: "prompt_text lit k (outside m a 4000) (lit ''K> '') (ascii ''K> '')"
    using ro(4) str_at_ro [OF ro(1,3)] str_at_ro [OF ro(1,5)] fuel(1) unfolding prompt_text_def by (simp add: size_ok_def ascii_def)
  have clear: "\<forall>i<1024. 4000 \<le> unat (line + of_nat i - a)" "line \<noteq> 0"
    using line(2) [unfolded line_apart_def, rule_format, of 0] line(2) by (simp_all add: line_apart_def)
  obtain s1 m1 where s1: "readline lit k (getchar lit k g) line j (lit ''K> '') s = Inr (line, s1)" "shows_terminal m1 a (term_text (map sint (ascii ''K> '') @ es) t) s1"
    "bytes_at m1 line (map word_of_int l @ [0])" "outside m1 line 1024 = outside m line 1024" "map uint (queue s1) = r" "length l < 1024"
    using readline_run [OF t inp line(1) clear(1) pr _ fuel(2,4)] fuel(1) by auto
  note str = typed_line [OF inp(4) s1(3)] and ro1 = ro_elsewhere [OF ro(1) s1(4) line(2)]
  obtain s2 bs where s2: "run_command lit k j sy line tf s1 = Inr (0, s2)" "length bs \<le> length (map word_of_int l :: byte list)"
    "shows_terminal (overwrite m1 line bs) a (term_text (reply sy (map snd (words (map word_of_int l)))) (term_text (map sint (ascii ''K> '') @ es) t)) s2" "output_only (snd s1) (snd s2)"
    using run_command_run [OF s1(2) str _ _ _ ro1 ro(2), of j k sy tf] line_apart_shorter [OF line(2), of "length l"] s1(6) fuel(1,3) by auto
  have "monitor_round lit k j sy (getchar lit k g) line tf s = Inr (True, s2)"
    using clear(2) by (simp add: monitor_round_def bnd_Inr [of "readline _ _ _ _ _ _", OF s1(1)] bnd_Inr [of "run_command _ _ _ _ _ _", OF s2(1)] ret_run)
  moreover have "map sint (ascii ''K> '') = msg ''K> ''" by code_simp
  moreover have "outside (overwrite m1 line bs) line 1024 = outside m line 1024" using outside_overwrite [of bs 1024 m1 line] s2(2) s1(4,6) by simp
  moreover have "queue s2 = queue s1" using output_only_ring [OF s2(4)] same_ring_queue by blast
  ultimately show ?thesis using s2(3) s1(5) by (auto simp: term_text_def)
qed


text \<open>
  No command asks the monitor to exit: the result of a command is never negative, so that the monitor
  goes on as long as there are rounds.
\<close>

lemma bnd_InrE: "bnd c f s = Inr r \<Longrightarrow> (\<And>x s'. c s = Inr (x, s') \<Longrightarrow> f x s' = Inr r \<Longrightarrow> P) \<Longrightarrow> P"
  by (auto simp: bnd_def split: sum.splits)

lemma run_func_result: "run_func lit k sy f argv tf s = Inr (r, s') \<Longrightarrow> r = 0"
  by (cases f) (auto simp: mon_help_def mon_kerninfo_def ret_run elim!: bnd_InrE)

lemma run_command_result: "run_command lit k j sy a tf s = Inr (r, s') \<Longrightarrow> r = 0"
  unfolding run_command_def
  by (elim bnd_InrE) (auto simp: ret_run run_func_result split: option.splits list.splits elim!: bnd_InrE)

lemma monitor_round_goes_on: "monitor_round lit k j sy gc line tf s = Inr (go, s') \<Longrightarrow> go"
  unfolding monitor_round_def by (elim bnd_InrE) (auto simp: ret_run dest: run_command_result split: if_splits elim!: bnd_InrE)

lemma monitor_never_returns: "monitor n lit k j sy gc line tf s \<noteq> Inr r"
proof -
  have "monitor_loop n lit k j sy gc line tf s \<noteq> Inr r" for s
  proof (induction n arbitrary: s)
    case (Suc n)
    then show ?case by (auto dest: monitor_round_goes_on elim!: bnd_InrE)
  qed (simp add: fail_def)
  then show ?thesis by (auto simp: monitor_def elim!: bnd_InrE)
qed

section \<open>The boot test\<close>

text \<open>The calls of \<open>test_backtrace\<close> announce themselves on the way down and, in reverse, on the way up.\<close>

definition note_line :: "string \<Rightarrow> nat \<Rightarrow> int list" where
  "note_line s x = msg (s @ '' test_backtrace '') @ signed_field False 0 (int x) @ [0x0A]"

definition backtrace_text :: "nat \<Rightarrow> int list" where
  "backtrace_text x = concat (map (note_line ''entering'') (rev [0..<Suc x])) @ concat (map (note_line ''leaving'') [0..<Suc x])"

lemma says_backtrace:
  assumes ro: "ro \<subseteq>\<^sub>m outside m a 4000" "\<forall>s \<in> {''entering'', ''leaving''}. str_at ro (lit (s @ '' test_backtrace %d'' @ [CHR 0x0A])) (ascii (s @ '' test_backtrace %d'' @ [CHR 0x0A]))" "40 < k"
  shows "x < 2 ^ 31 \<Longrightarrow> says m a (bnd (test_backtrace lit k x) (\<lambda>_. ret 0)) (backtrace_text x)"
proof -
  have line: "says m a (cprintf lit k (lit (s @ '' test_backtrace %d'' @ [CHR 0x0A])) [of_nat x]) (note_line s x)" if s: "s \<in> {''entering'', ''leaving''}" and x: "x < 2 ^ 31" for s x
  proof -
    have "list_all (\<lambda>b. b \<noteq> 0 \<and> b \<noteq> 0x25) (ascii ''entering test_backtrace '')" "list_all (\<lambda>b. b \<noteq> 0 \<and> b \<noteq> 0x25) (ascii ''leaving test_backtrace '')"
      "list_all (\<lambda>b. b \<noteq> 0 \<and> b \<noteq> 0x25) (ascii [CHR 0x0A])" by code_simp+
    then have "fits (outside m a 4000) lit 0 (plain (s @ '' test_backtrace '') @ dec_items (of_nat x) @ plain [CHR 0x0A])"
      using s by (intro fits_append fits_plain fits_dec) auto
    moreover have "msg [CHR 0x0A] = [0x0A]" by code_simp
    ultimately show ?thesis
      using s ro(3) sint_of_nat_32 [OF x] bspec [OF ro(2) s]
      by (intro says_literal [where ro = ro and lit = lit and f = "s @ '' test_backtrace %d'' @ [CHR 0x0A]" and items = "plain (s @ '' test_backtrace '') @ dec_items (of_nat x) @ plain [CHR 0x0A]" and B = 0] ro(1))
        (auto simp: fits_def note_line_def ascii_append, auto simp: ascii_def)
  qed
  show "x < 2 ^ 31 \<Longrightarrow> says m a (bnd (test_backtrace lit k x) (\<lambda>_. ret 0)) (backtrace_text x)"
  proof (induction x)
    case 0
    have "says m a (bnd (cprintf lit k (lit (''entering'' @ '' test_backtrace %d'' @ [CHR 0x0A])) [of_nat 0])
        (\<lambda>_. bnd (cprintf lit k (lit (''leaving'' @ '' test_backtrace %d'' @ [CHR 0x0A])) [of_nat 0]) (\<lambda>_. ret 0))) (backtrace_text 0)"
      by (rule says_bnd [OF line says_bnd [OF line says_ret refl]]) (simp_all add: backtrace_text_def)
    then show ?case by (simp add: bnd_bnd mon_backtrace_def)
  next
    case (Suc x)
    have e: "says m a (cprintf lit k (lit (''entering'' @ '' test_backtrace %d'' @ [CHR 0x0A])) [of_nat (Suc x)]) (note_line ''entering'' (Suc x))"
      by (rule line) (use Suc.prems in simp_all)
    have l: "says m a (cprintf lit k (lit (''leaving'' @ '' test_backtrace %d'' @ [CHR 0x0A])) [of_nat (Suc x)]) (note_line ''leaving'' (Suc x))"
      by (rule line) (use Suc.prems in simp_all)
    have i: "says m a (bnd (test_backtrace lit k x) (\<lambda>_. ret 0)) (backtrace_text x)" using Suc by simp
    have "says m a (bnd (cprintf lit k (lit (''entering'' @ '' test_backtrace %d'' @ [CHR 0x0A])) [of_nat (Suc x)]) (\<lambda>_. bnd (bnd (test_backtrace lit k x) (\<lambda>_. ret 0) :: int kcmd)
        (\<lambda>_. bnd (cprintf lit k (lit (''leaving'' @ '' test_backtrace %d'' @ [CHR 0x0A])) [of_nat (Suc x)]) (\<lambda>_. ret 0)))) (backtrace_text (Suc x))"
      by (rule says_bnd [OF e says_bnd [OF i says_bnd [OF l says_ret refl] refl]]) (simp add: backtrace_text_def)
    then show ?case by (simp add: bnd_bnd)
  qed
qed

section \<open>Properties\<close>

text \<open>
  C34: A round of the kernel monitor: with a line typed on the console, the terminal shows the prompt, what
  was typed and the answer to the words of the line: the list of commands for \<open>help\<close>, the symbols of the
  kernel for \<open>kerninfo\<close>, a message that names the word for any other, nothing for an empty line and an
  error for more than fifteen words.  The monitor then goes on with the characters after the line, and
  no memory but the line buffer and the display has changed.
\<close>

theorem monitor_round_answers:
  assumes "shows_terminal m a t s" "ring_ok s" "idle (snd s)" "0 \<notin> set (queue s)" "edited [] (map uint (queue s)) = Some (l, es, r)"
    "mapped m line 1024" "line_apart ro a line 1024" "ro \<subseteq>\<^sub>m outside m a 4000" "literals_in ro lit"
    "str_at ro (lit ''K> '') (ascii ''K> '')" "lit ''K> '' \<noteq> 0" "str_at ro (lit ''%s'') (ascii ''%s'')"
    "2000 < k" "0 < g" "1024 \<le> j" "length (queue s) \<le> j"
  shows "\<exists>s' m'. monitor_round lit k j sy (getchar lit k g) line tf s = Inr (True, s')
    \<and> shows_terminal m' a (term_text (msg ''K> '' @ es @ reply sy (map snd (words (map word_of_int l)))) t) s'
    \<and> outside m' line 1024 = outside m line 1024 \<and> map uint (queue s') = r"
  using assms by (rule monitor_round_run)

text \<open>A kernel image: the literals in slots of 64 bytes, and a console on which \<open>help\<close> was typed.\<close>

definition image_strings :: "string list" where
  "image_strings = monitor_strings @ [WHITESPACE, ''K> '', ''%s'']"

definition image_lit :: "string \<Rightarrow> vaddr" where
  "image_lit f = 0x2000 + of_nat (64 * length (takeWhile (\<lambda>g. g \<noteq> f) image_strings))"

definition kimage :: jmem where
  "kimage x = (let d = unat (x - 0x2000) in
     if d div 64 < length image_strings \<and> d mod 64 < length (ascii (image_strings ! (d div 64)) @ [0])
     then Some ((ascii (image_strings ! (d div 64)) @ [0]) ! (d mod 64)) else None)"

lemma slot_of: "x \<in> set xs \<Longrightarrow> length (takeWhile (\<lambda>y. y \<noteq> x) xs) < length xs \<and> xs ! length (takeWhile (\<lambda>y. y \<noteq> x) xs) = x"
  by (induction xs) auto

lemma slot_offset: "n < 61 \<Longrightarrow> i < 17 \<Longrightarrow> unat (0x2000 + of_nat (64 * i) + of_nat n - 0x2000 :: vaddr) = 64 * i + n"
  using unat_of_nat_32 [of "64 * i + n"] by simp

lemma image_str_at:
  assumes "f \<in> set image_strings"
  shows "str_at kimage (image_lit f) (ascii f)" "\<forall>n<61. image_lit f + of_nat n \<noteq> 0"
proof -
  let ?i = "length (takeWhile (\<lambda>g. g \<noteq> f) image_strings)"
  have i: "?i < length image_strings" "image_strings ! ?i = f" using slot_of [OF assms] by auto
  have "list_all (\<lambda>f. length (ascii f) < 60 \<and> list_all (\<lambda>b. b \<noteq> 0) (ascii f)) image_strings" "length image_strings = 17" by code_simp+
  then have f: "length (ascii f) < 60" "0 \<notin> set (ascii f)" "?i < 17" using assms i(1) by (auto simp: list_all_iff)
  have "kimage (image_lit f + of_nat n) = Some ((ascii f @ [0]) ! n)" if "n < length (ascii f @ [0])" for n
  proof -
    have n: "n < 61" using that f(1) by simp
    have "(64 * ?i + n) div 64 = ?i" "(64 * ?i + n) mod 64 = n" using n by simp_all
    then show ?thesis using that i slot_offset [OF n f(3)] by (simp add: kimage_def image_lit_def Let_def)
  qed
  then show "str_at kimage (image_lit f) (ascii f)" using f(2) by (auto simp: str_at_def bytes_at_iff)
  show "\<forall>n<61. image_lit f + of_nat n \<noteq> 0"
  proof (intro allI impI)
    fix n :: nat assume n: "n < 61"
    have "unat (0x2000 + of_nat (64 * ?i + n) :: vaddr) = 0x2000 + (64 * ?i + n)" using n f(3) by (intro unat_add_small [of "0x2000", simplified]) simp
    then show "image_lit f + of_nat n \<noteq> 0" by (auto simp: image_lit_def add.assoc)
  qed
qed

definition image_state :: "console pstate" where
  "image_state = (disp (overwrite kimage 0x1000 (replicate 1024 0)) (KERNBASE + CGA_BUF) (replicate 2000 blank),
     idle_console\<lparr>cons_buf := [0x68, 0x65, 0x6C, 0x70, 0x0D] @ replicate 507 0, wpos := 5\<rparr>)"

lemma unat_offset: "b < 2 ^ 31 \<Longrightarrow> i < 2 ^ 31 \<Longrightarrow> unat (of_nat b + of_nat i :: vaddr) = b + i"
  using unat_add_small [of "of_nat b" i] by simp

lemma image_domain: "kimage x \<noteq> None \<Longrightarrow> \<exists>i<1088. x = 0x2000 + of_nat i"
proof -
  assume "kimage x \<noteq> None"
  moreover have "length image_strings = 17" by code_simp
  ultimately have "unat (x - 0x2000) div 64 < 17" by (auto simp: kimage_def Let_def split: if_splits)
  then have "unat (x - 0x2000) < 1088" by simp
  then show ?thesis by (rule in_region)
qed

lemma screen_distance: "(b :: vaddr) + of_nat i - (KERNBASE + CGA_BUF) = (b + 0x0FF48000) + of_nat i"
proof -
  have "KERNBASE + CGA_BUF = - 0x0FF48000" by (simp add: KERNBASE_def CGA_BUF_def)
  then show ?thesis by simp
qed

lemma image_apart: "line_apart kimage (KERNBASE + CGA_BUF) 0x1000 1024"
  unfolding line_apart_def
proof (intro allI impI conjI)
  fix i :: nat assume i: "i \<le> 1024"
  have u: "unat (0x1000 + of_nat i :: vaddr) = 0x1000 + i" using unat_offset [of "0x1000" i] i by simp
  show "4000 \<le> unat (0x1000 + of_nat i - (KERNBASE + CGA_BUF))" unfolding screen_distance using unat_offset [of "0x0FF49000" i] i by simp
  show "0x1000 + of_nat i \<noteq> (0 :: vaddr)" using u by auto
  show "kimage (0x1000 + of_nat i) = None"
  proof (rule ccontr)
    assume "kimage (0x1000 + of_nat i) \<noteq> None"
    then obtain k where "k < 1088" "0x1000 + of_nat i = (0x2000 + of_nat k :: vaddr)" using image_domain by blast
    then show False using u unat_offset [of "0x2000" k] i by simp
  qed
qed

lemma image_kept: "kimage \<subseteq>\<^sub>m outside (overwrite kimage 0x1000 (replicate 1024 0)) (KERNBASE + CGA_BUF) 4000"
proof -
  have "\<not> unat (x - (KERNBASE + CGA_BUF)) < 4000 \<and> \<not> unat (x - 0x1000) < 1024" if ix: "kimage x \<noteq> None" for x
  proof -
    obtain i where i: "i < 1088" "x = 0x2000 + of_nat i" using image_domain [OF ix] by blast
    have "unat (x - (KERNBASE + CGA_BUF)) = 0x0FF4A000 + i" unfolding i(2) screen_distance using unat_offset [of "0x0FF4A000" i] i(1) by simp
    moreover have "unat (x - 0x1000) = 0x1000 + i" using unat_offset [of "0x1000" i] i by simp
    ultimately show ?thesis by simp
  qed
  then show ?thesis by (auto simp: map_le_def outside_def overwrite_def dom_def)
qed

theorem monitor_round_answers_witness:
  "\<exists>s' m'. monitor_round image_lit 2001 1024 \<lparr>sym_start = 0x10000C, sym_entry = 0xF010000C, sym_etext = 0xF0101871, sym_edata = 0xF0112300, sym_end = 0xF0112944\<rparr> (getchar image_lit 2001 1) 0x1000 0 image_state = Inr (True, s')
    \<and> shows_terminal m' (KERNBASE + CGA_BUF) (term_text (msg ''K> '' @ [0x68, 0x65, 0x6C, 0x70, 0x0A] @ help_text) (term_of (replicate 2000 blank) 0)) s' \<and> queue s' = []"
proof -
  let ?a = "KERNBASE + CGA_BUF" and ?m = "overwrite kimage 0x1000 (replicate 1024 0)"
  let ?sy = "\<lparr>sym_start = 0x10000C, sym_entry = 0xF010000C, sym_etext = 0xF0101871, sym_edata = 0xF0112300, sym_end = 0xF0112944\<rparr>"
  have t: "shows_terminal ?m ?a (term_of (replicate 2000 blank) 0) image_state"
    by (auto simp: shows_terminal_def image_state_def idle_console_def on_screen_def KERNBASE_def CGA_BUF_def)
  have q: "queue image_state = [0x68, 0x65, 0x6C, 0x70, 0x0D]" by (simp add: queue_def queued_def image_state_def idle_console_def CONSBUFSIZE_def upt_rec)
  have "length ([0x68, 0x65, 0x6C, 0x70, 0x0D] @ replicate 507 (0 :: byte)) = 512" by simp
  then have r: "ring_ok image_state" "idle (snd image_state)" by (simp_all add: ring_ok_def idle_def image_state_def idle_console_def CONSBUFSIZE_def)
  have e: "edited [] (map uint (queue image_state)) = Some ([0x68, 0x65, 0x6C, 0x70], [0x68, 0x65, 0x6C, 0x70, 0x0A], [])" unfolding q by simp
  have m: "mapped ?m 0x1000 1024" using bytes_at_mapped [OF bytes_at_overwrite [of "replicate 1024 0" kimage "0x1000"]] by simp
  have ws: "\<forall>i<4. image_lit WHITESPACE + of_nat i \<noteq> 0" using image_str_at(2) [of WHITESPACE] by (simp add: image_strings_def)
  have nz: "f \<in> set image_strings \<Longrightarrow> image_lit f \<noteq> 0" for f using image_str_at(2) [rule_format, of f 0] by simp
  have l: "literals_in kimage image_lit" using image_str_at(1) ws nz by (simp add: literals_in_def ws_lit_def image_strings_def)
  have "reply ?sy (map snd (words (map word_of_int [0x68, 0x65, 0x6C, 0x70]))) = help_text" by code_simp
  then show ?thesis
    using monitor_round_answers [OF t r _ e m image_apart image_kept l, of 2001 1 1024 ?sy 0] q nz [of "''K> ''"] image_str_at(1) [of "''K> ''"] image_str_at(1) [of "''%s''"]
    by (auto simp: image_strings_def)
qed

end
