(* ===== verification/Kdebug.thy ===== *)
theory Kdebug
  imports JosString Paging "HOL-Library.Signed_Division"
begin

text \<open>
  The debugging information of the JOS kernel, mit6.828/lab/kern/kdebug.c with inc/stab.h: the search for
  the symbol table entry that contains an address, and what \<open>debuginfo_eip\<close> reports about it.

  The table of the linker is a list of entries; an access outside of it is a fault.  The string table
  is in the memory of \<open>JosString\<close>, between two addresses that are arguments.
\<close>

section \<open>inc/stab.h\<close>

record Stab =
  n_strx :: "32 word"
  n_type :: byte
  n_other :: byte
  n_desc :: "16 word"
  n_value :: vaddr

definition N_FUN :: int where "N_FUN = 0x24"
definition N_SO :: int where "N_SO = 0x64"
definition N_SOL :: int where "N_SOL = 0x84"
definition N_PSYM :: int where "N_PSYM = 0xA0"

section \<open>inc/memlayout.h\<close>

definition KSTACKTOP :: vaddr where "KSTACKTOP = KERNBASE"
definition MMIOLIM :: vaddr where "MMIOLIM = KSTACKTOP - PTSIZE"
definition MMIOBASE :: vaddr where "MMIOBASE = MMIOLIM - PTSIZE"
definition ULIM :: vaddr where "ULIM = MMIOBASE"

section \<open>The search\<close>

definition stab_at :: "Stab list \<Rightarrow> int \<Rightarrow> fault + Stab" where
  "stab_at stabs i = (if 0 \<le> i \<and> i < int (length stabs) then Inr (stabs ! nat i) else Inl MemFault)"

function stab_scan :: "Stab list \<Rightarrow> int \<Rightarrow> int \<Rightarrow> int \<Rightarrow> fault + int" where
  "stab_scan stabs type l m =
     (if m \<ge> l then
        (case stab_at stabs m of
           Inl e \<Rightarrow> Inl e
         | Inr s \<Rightarrow> if uint (n_type s) \<noteq> type then stab_scan stabs type l (m - 1) else Inr m)
      else Inr m)"
  by pat_completeness auto
termination by (relation "measure (\<lambda>(stabs, type, l, m). nat (m - l + 1))") auto

declare stab_scan.simps [simp del]

text \<open>
  The loop keeps \<open>l\<close>, \<open>r\<close>, the address, the two bounds of the region and \<open>any_matches\<close>.  An exact match
  continues from the same entry with the next address: then that entry is no exact match any more.
\<close>

definition exact_at :: "Stab list \<Rightarrow> int \<Rightarrow> int \<Rightarrow> int \<Rightarrow> vaddr \<Rightarrow> bool" where
  "exact_at stabs type l r addr \<longleftrightarrow>
     (case stab_scan stabs type l ((l + r) sdiv 2) of Inl e \<Rightarrow> False
      | Inr m \<Rightarrow> (case stab_at stabs m of Inl e \<Rightarrow> False | Inr s \<Rightarrow> n_value s = addr))"

lemma midpoint: "l \<le> r \<Longrightarrow> l \<le> (l + r) sdiv 2 \<and> (l + r) sdiv 2 \<le> r" for l r :: int
  unfolding signed_divide_int_def by (auto simp: sgn_if abs_if)

lemma stab_scan_le: "stab_scan stabs type l m = Inr m' \<Longrightarrow> m' \<le> m"
  by (induction stabs type l m rule: stab_scan.induct) (subst (asm) stab_scan.simps, force split: if_splits sum.splits)

function stab_search :: "Stab list \<Rightarrow> int \<Rightarrow> int \<Rightarrow> int \<Rightarrow> vaddr \<Rightarrow> int \<Rightarrow> int \<Rightarrow> bool \<Rightarrow> fault + int \<times> int \<times> bool" where
  "stab_search stabs type l r addr rl rr any_matches =
     (if l \<le> r then
        let true_m = (l + r) sdiv 2 in
        (case stab_scan stabs type l true_m of
           Inl e \<Rightarrow> Inl e
         | Inr m \<Rightarrow>
             if m < l then stab_search stabs type (true_m + 1) r addr rl rr any_matches
             else
               (case stab_at stabs m of
                  Inl e \<Rightarrow> Inl e
                | Inr s \<Rightarrow>
                    if n_value s < addr then stab_search stabs type (true_m + 1) r addr m rr True
                    else if n_value s > addr then stab_search stabs type l (m - 1) addr rl (m - 1) True
                    else stab_search stabs type m r (addr + 1) m rr True))
      else Inr (rl, rr, any_matches))"
  by pat_completeness auto
termination
proof (relation "measure (\<lambda>(stabs, type, l, r, addr, rl, rr, a). nat (2 * (r - l + 1)) + of_bool (exact_at stabs type l r addr))")
  fix stabs type l r addr rl rr any_matches true_m m s
  assume lr: "l \<le> r" "true_m = (l + r) sdiv 2" "stab_scan stabs type l true_m = Inr m" "\<not> m < l" "stab_at stabs m = Inr (s :: Stab)"
    "\<not> n_value s < addr" "\<not> addr < n_value s"
  have m: "l \<le> m" "m \<le> true_m" "true_m \<le> r" using lr stab_scan_le midpoint [of l r] by auto
  have v: "n_value s = addr" using lr(6,7) by simp
  then have e: "exact_at stabs type l r addr" using lr by (simp add: exact_at_def)
  have "\<not> exact_at stabs type l r (addr + 1)" using lr v by (simp add: exact_at_def)
  then show "((stabs, type, m, r, addr + 1, m, rr, True), stabs, type, l, r, addr, rl, rr, any_matches)
    \<in> measure (\<lambda>(stabs, type, l, r, addr, rl, rr, a). nat (2 * (r - l + 1)) + of_bool (exact_at stabs type l r addr))"
    using m e by (cases "m = l") (auto split: if_splits)
next
  fix stabs type addr rl rr any_matches and l r true_m m :: int
  assume "l \<le> r" "true_m = (l + r) sdiv 2"
  then show "((stabs, type, true_m + 1, r, addr, rl, rr, any_matches), stabs, type, l, r, addr, rl, rr, any_matches)
    \<in> measure (\<lambda>(stabs, type, l, r, addr, rl, rr, a). nat (2 * (r - l + 1)) + of_bool (exact_at stabs type l r addr))"
    using midpoint [of l r] by auto
next
  fix stabs type addr rl rr any_matches and l r true_m m :: int
  assume "l \<le> r" "true_m = (l + r) sdiv 2"
  then show "((stabs, type, true_m + 1, r, addr, m, rr, True), stabs, type, l, r, addr, rl, rr, any_matches)
    \<in> measure (\<lambda>(stabs, type, l, r, addr, rl, rr, a). nat (2 * (r - l + 1)) + of_bool (exact_at stabs type l r addr))"
    using midpoint [of l r] by auto
next
  fix stabs type addr rl rr any_matches and l r true_m m :: int
  assume "l \<le> r" "true_m = (l + r) sdiv 2" "stab_scan stabs type l true_m = Inr m"
  then show "((stabs, type, l, m - 1, addr, rl, m - 1, True), stabs, type, l, r, addr, rl, rr, any_matches)
    \<in> measure (\<lambda>(stabs, type, l, r, addr, rl, rr, a). nat (2 * (r - l + 1)) + of_bool (exact_at stabs type l r addr))"
    using midpoint [of l r] stab_scan_le by fastforce
qed simp

declare stab_search.simps [simp del]

function stab_rightmost :: "Stab list \<Rightarrow> int \<Rightarrow> int \<Rightarrow> int \<Rightarrow> fault + int" where
  "stab_rightmost stabs type l rl =
     (if l > rl then
        (case stab_at stabs l of
           Inl e \<Rightarrow> Inl e
         | Inr s \<Rightarrow> if uint (n_type s) \<noteq> type then stab_rightmost stabs type (l - 1) rl else Inr l)
      else Inr l)"
  by pat_completeness auto
termination by (relation "measure (\<lambda>(stabs, type, l, rl). nat (l - rl))") auto

declare stab_rightmost.simps [simp del]

definition stab_binsearch :: "Stab list \<Rightarrow> int \<Rightarrow> int \<Rightarrow> int \<Rightarrow> vaddr \<Rightarrow> fault + int \<times> int" where
  "stab_binsearch stabs region_left region_right type addr =
     (case stab_search stabs type region_left region_right addr region_left region_right False of
        Inl e \<Rightarrow> Inl e
      | Inr (rl, rr, any_matches) \<Rightarrow>
          if \<not> any_matches then Inr (rl, rl - 1)
          else (case stab_rightmost stabs type rr rl of Inl e \<Rightarrow> Inl e | Inr l \<Rightarrow> Inr (l, rr)))"

section \<open>debuginfo\_eip\<close>

record Eipdebuginfo =
  eip_file :: vaddr
  eip_line :: int
  eip_fn_name :: vaddr
  eip_fn_namelen :: int
  eip_fn_addr :: vaddr
  eip_fn_narg :: int

definition from_table :: "fault + 'a \<Rightarrow> (jmem, 'a) cmd" where
  "from_table r = (case r of Inl e \<Rightarrow> fail e | Inr x \<Rightarrow> ret x)"

function stab_file :: "Stab list \<Rightarrow> int \<Rightarrow> int \<Rightarrow> fault + int" where
  "stab_file stabs lfile lline =
     (if lline \<ge> lfile then
        (case stab_at stabs lline of
           Inl e \<Rightarrow> Inl e
         | Inr s \<Rightarrow> if uint (n_type s) \<noteq> N_SOL \<and> (uint (n_type s) \<noteq> N_SO \<or> n_value s = 0) then stab_file stabs lfile (lline - 1) else Inr lline)
      else Inr lline)"
  by pat_completeness auto
termination by (relation "measure (\<lambda>(stabs, lfile, lline). nat (lline - lfile + 1))") auto

function stab_params :: "Stab list \<Rightarrow> int \<Rightarrow> int \<Rightarrow> int \<Rightarrow> fault + int" where
  "stab_params stabs lline rfun narg =
     (if lline < rfun then
        (case stab_at stabs lline of
           Inl e \<Rightarrow> Inl e
         | Inr s \<Rightarrow> if uint (n_type s) = N_PSYM then stab_params stabs (lline + 1) rfun (narg + 1) else Inr narg)
      else Inr narg)"
  by pat_completeness auto
termination by (relation "measure (\<lambda>(stabs, lline, rfun, narg). nat (rfun - lline))") auto

declare stab_file.simps [simp del]
declare stab_params.simps [simp del]

text \<open>
  \<open>k\<close> bounds the scan of a name.  The address relative to the function is computed and never used: the
  search for the line number is not there.
\<close>

definition debuginfo_eip :: "(string \<Rightarrow> vaddr) \<Rightarrow> nat \<Rightarrow> Stab list \<Rightarrow> vaddr \<Rightarrow> vaddr \<Rightarrow> vaddr \<Rightarrow> (jmem, int \<times> Eipdebuginfo) cmd" where
  "debuginfo_eip lit k stabs stabstr stabstr_end addr =
     (let info = \<lparr>eip_file = lit ''<unknown>'', eip_line = 0, eip_fn_name = lit ''<unknown>'', eip_fn_namelen = 9, eip_fn_addr = addr, eip_fn_narg = 0\<rparr> in
      if addr < ULIM then fail Panic
      else bnd (if stabstr_end \<le> stabstr then ret True else bnd (ld (stabstr_end - 1)) (\<lambda>b. ret (b \<noteq> 0))) (\<lambda>invalid.
      if invalid then ret (- 1, info)
      else bnd (from_table (stab_binsearch stabs 0 (int (length stabs) - 1) N_SO addr)) (\<lambda>(lfile, rfile).
      if lfile = 0 then ret (- 1, info)
      else bnd (from_table (stab_binsearch stabs lfile rfile N_FUN addr)) (\<lambda>(lfun, rfun).
      bnd (if lfun \<le> rfun then
             bnd (from_table (stab_at stabs lfun)) (\<lambda>s.
             let info = (if n_strx s < stabstr_end - stabstr then info\<lparr>eip_fn_name := stabstr + n_strx s\<rparr> else info)
             in ret (info\<lparr>eip_fn_addr := n_value s\<rparr>, lfun))
           else ret (info\<lparr>eip_fn_addr := addr\<rparr>, lfile)) (\<lambda>(info, lline).
      bnd (strfind k (eip_fn_name info) 0x3A) (\<lambda>colon.
      let info = info\<lparr>eip_fn_namelen := sint (colon - eip_fn_name info)\<rparr> in
      bnd (from_table (stab_file stabs lfile lline)) (\<lambda>lline.
      bnd (if lline \<ge> lfile then
             bnd (from_table (stab_at stabs lline)) (\<lambda>s.
             ret (if n_strx s < stabstr_end - stabstr then info\<lparr>eip_file := stabstr + n_strx s\<rparr> else info))
           else ret info) (\<lambda>info.
      bnd (if lfun < rfun then from_table (stab_params stabs (lfun + 1) rfun (eip_fn_narg info)) else ret (eip_fn_narg info)) (\<lambda>narg.
      ret (0, info\<lparr>eip_fn_narg := narg\<rparr>))))))))))"

section \<open>What the search finds\<close>

definition of_type :: "Stab list \<Rightarrow> int \<Rightarrow> int \<Rightarrow> bool" where
  "of_type stabs type i \<longleftrightarrow> uint (n_type (stabs ! nat i)) = type"

definition value_at :: "Stab list \<Rightarrow> int \<Rightarrow> vaddr" where
  "value_at stabs i = n_value (stabs ! nat i)"

text \<open>The entries of a type in a region, and the region of the one that contains the address.\<close>

definition entries :: "Stab list \<Rightarrow> int \<Rightarrow> int \<Rightarrow> int \<Rightarrow> int list" where
  "entries stabs type L R = filter (of_type stabs type) [L..R]"

definition containing :: "Stab list \<Rightarrow> int \<Rightarrow> int \<Rightarrow> int \<Rightarrow> vaddr \<Rightarrow> int \<times> int" where
  "containing stabs type L R addr =
     (let es = entries stabs type L R; below = filter (\<lambda>i. value_at stabs i \<le> addr) es; above = filter (\<lambda>i. value_at stabs i > addr) es
      in if es = [] then (L, L - 1)
         else if below = [] then (min L (hd above - 1), hd above - 1)
         else (last below, if above = [] then R else hd above - 1))"

definition ordered :: "Stab list \<Rightarrow> int \<Rightarrow> int \<Rightarrow> int \<Rightarrow> bool" where
  "ordered stabs type L R \<longleftrightarrow> 0 \<le> L \<and> R < int (length stabs) \<and>
     (\<forall>i j. L \<le> i \<and> i \<le> j \<and> j \<le> R \<and> of_type stabs type i \<and> of_type stabs type j \<longrightarrow> value_at stabs i \<le> value_at stabs j)"

lemma stab_at_in: "0 \<le> i \<Longrightarrow> i < int (length stabs) \<Longrightarrow> stab_at stabs i = Inr (stabs ! nat i)"
  by (simp add: stab_at_def)

lemma stab_scan_run:
  assumes "0 \<le> l" "m < int (length stabs)" "l \<le> m + 1"
  shows "\<exists>m'. stab_scan stabs type l m = Inr m' \<and> l - 1 \<le> m' \<and> m' \<le> m \<and> (l \<le> m' \<longrightarrow> of_type stabs type m') \<and> (\<forall>i. m' < i \<and> i \<le> m \<longrightarrow> \<not> of_type stabs type i)"
  using assms
proof (induction stabs type l m rule: stab_scan.induct)
  case (1 stabs type l m)
  show ?case
  proof (cases "m \<ge> l \<and> \<not> of_type stabs type m")
    case True
    then have "\<exists>m'. stab_scan stabs type l (m - 1) = Inr m' \<and> l - 1 \<le> m' \<and> m' \<le> m - 1 \<and> (l \<le> m' \<longrightarrow> of_type stabs type m')
        \<and> (\<forall>i. m' < i \<and> i \<le> m - 1 \<longrightarrow> \<not> of_type stabs type i)"
      using "1.IH" [OF _ stab_at_in] "1.prems" by (auto simp: of_type_def)
    then obtain m' where m': "stab_scan stabs type l (m - 1) = Inr m'" "l - 1 \<le> m'" "m' \<le> m - 1" "l \<le> m' \<longrightarrow> of_type stabs type m'"
      "\<forall>i. m' < i \<and> i \<le> m - 1 \<longrightarrow> \<not> of_type stabs type i" by blast
    moreover have "stab_scan stabs type l m = Inr m'"
      using True "1.prems" m'(1) by (subst stab_scan.simps) (simp add: stab_at_in of_type_def)
    moreover have "\<not> of_type stabs type i" if "m' < i" "i \<le> m" for i using m'(5) True that by (cases "i = m") auto
    ultimately show ?thesis by auto
  next
    case False
    then have "stab_scan stabs type l m = Inr m" using "1.prems" by (subst stab_scan.simps) (auto simp: stab_at_in of_type_def)
    then show ?thesis using False "1.prems" by auto
  qed
qed

text \<open>
  What the loop knows: entries before \<open>l\<close> are not above the address, entries after \<open>r\<close> are, and right
  after \<open>r\<close> there is an entry or the end of the region.
\<close>

definition bracket :: "Stab list \<Rightarrow> int \<Rightarrow> int \<Rightarrow> int \<Rightarrow> vaddr \<Rightarrow> int \<Rightarrow> int \<Rightarrow> int \<Rightarrow> bool \<Rightarrow> bool" where
  "bracket stabs type L R addr l r rl any \<longleftrightarrow>
     L \<le> l \<and> l \<le> r + 1 \<and> r \<le> R \<and>
     (\<forall>i. L \<le> i \<and> i < l \<and> of_type stabs type i \<longrightarrow> value_at stabs i \<le> addr) \<and>
     (\<forall>i. r < i \<and> i \<le> R \<and> of_type stabs type i \<longrightarrow> addr < value_at stabs i) \<and>
     (r = R \<or> of_type stabs type (r + 1)) \<and>
     (rl = L \<or> L \<le> rl \<and> rl \<le> r \<and> of_type stabs type rl \<and> value_at stabs rl \<le> addr) \<and>
     (if any then \<exists>i. L \<le> i \<and> i \<le> R \<and> of_type stabs type i else r = R \<and> (\<forall>i. L \<le> i \<and> i < l \<longrightarrow> \<not> of_type stabs type i))"

lemma succ_word: "a \<noteq> - 1 \<Longrightarrow> unat (a + 1) = Suc (unat a)" for a :: vaddr
proof -
  assume "a \<noteq> - 1"
  then have "unat a \<noteq> unat (- 1 :: vaddr)" by (simp only: word_unat_eq_iff not_False_eq_True)
  then have "Suc (unat a) < 2 ^ 32" using unsigned_less [of a, where 'a = nat] by (simp add: unsigned_minus_1_eq_mask mask_eq_exp_minus_1)
  then show ?thesis by (simp add: unat_word_ariths)
qed

lemma bracket_skip:
  assumes "bracket stabs type L R addr l r rl any" "l \<le> r" "l \<le> t + 1" "t \<le> r" "\<forall>i. l - 1 < i \<and> i \<le> t \<longrightarrow> \<not> of_type stabs type i"
  shows "bracket stabs type L R addr (t + 1) r rl any"
proof -
  have "\<not> of_type stabs type i" if "l \<le> i" "i < t + 1" for i using assms(5) that by simp
  then show ?thesis using assms(1-4) unfolding bracket_def by (smt (verit))
qed

lemma bracket_low:
  assumes "bracket stabs type L R addr l r rl any" "l \<le> m" "m \<le> t" "t \<le> r" "of_type stabs type m" "value_at stabs m \<le> addr"
    "\<forall>i. m < i \<and> i \<le> t \<longrightarrow> \<not> of_type stabs type i" "ordered stabs type L R"
  shows "bracket stabs type L R addr (t + 1) r m True" "bracket stabs type L R addr m r m True"
proof -
  have b: "L \<le> l" "r \<le> R" using assms(1) by (simp_all add: bracket_def)
  have low: "value_at stabs i \<le> addr" if "L \<le> i" "i \<le> t" "of_type stabs type i" for i
  proof -
    have "i \<le> m" using that assms(7) by force
    then have "value_at stabs i \<le> value_at stabs m" using assms(2-5,8) that b unfolding ordered_def by (meson order_trans)
    then show ?thesis using assms(6) by simp
  qed
  show "bracket stabs type L R addr (t + 1) r m True" "bracket stabs type L R addr m r m True"
    using assms(1-6) b low unfolding bracket_def by (auto intro!: exI [of _ m])
qed

lemma bracket_high:
  assumes "bracket stabs type L R addr l r rl any" "l \<le> m" "m \<le> r" "of_type stabs type m" "addr < value_at stabs m" "ordered stabs type L R"
  shows "bracket stabs type L R addr l (m - 1) rl True"
proof -
  have b: "L \<le> l" "r \<le> R" "rl = L \<or> L \<le> rl \<and> rl \<le> r \<and> of_type stabs type rl \<and> value_at stabs rl \<le> addr" using assms(1) by (simp_all add: bracket_def)
  have high: "addr < value_at stabs i" if "m \<le> i" "i \<le> R" "of_type stabs type i" for i
  proof -
    have "value_at stabs m \<le> value_at stabs i" using assms(2,4,6) that b unfolding ordered_def by (meson order_trans)
    then show ?thesis using assms(5) by simp
  qed
  have "rl \<le> m - 1" if "rl \<noteq> L"
  proof (rule ccontr)
    assume "\<not> rl \<le> m - 1"
    then have "addr < value_at stabs rl" using high [of rl] that b by auto
    then show False using that b(3) leD by blast
  qed
  then show ?thesis using assms(1-4) b high unfolding bracket_def by (auto intro!: exI [of _ m])
qed

text \<open>No entry is one past the address: the loop would take it for the entry that contains it.\<close>

definition apart :: "Stab list \<Rightarrow> int \<Rightarrow> int \<Rightarrow> int \<Rightarrow> vaddr \<Rightarrow> bool" where
  "apart stabs type L R addr \<longleftrightarrow> addr \<noteq> - 1 \<and> (\<forall>i. L \<le> i \<and> i \<le> R \<and> of_type stabs type i \<longrightarrow> value_at stabs i \<noteq> addr + 1)"

lemma stab_search_run:
  "bracket stabs type L R a0 l r rl any \<Longrightarrow> ordered stabs type L R \<Longrightarrow> a = a0 \<or> a = a0 + 1 \<Longrightarrow> apart stabs type L R a0 \<Longrightarrow> rr = r \<Longrightarrow>
   \<exists>r' rl' any'. stab_search stabs type l r a rl rr any = Inr (rl', r', any') \<and> bracket stabs type L R a0 (r' + 1) r' rl' any'"
proof (induction stabs type l r a rl rr any rule: stab_search.induct)
  case (1 stabs type l r a rl rr any)
  let ?t = "(l + r) sdiv 2"
  note b = "1.prems"(1)
  have range: "0 \<le> L" "L \<le> l" "l \<le> r + 1" "r \<le> R" "R < int (length stabs)" using b "1.prems"(2) by (auto simp: bracket_def ordered_def)
  show ?case
  proof (cases "l \<le> r")
    case False
    then have "l = r + 1" using range by simp
    then show ?thesis using b "1.prems"(5) False by (subst stab_search.simps) auto
  next
    case lr: True
    have t: "l \<le> ?t" "?t \<le> r" using midpoint [OF lr] by simp_all
    have "0 \<le> l" "?t < int (length stabs)" "l \<le> ?t + 1" using range t by simp_all
    then obtain m where m: "stab_scan stabs type l ?t = Inr m" "l - 1 \<le> m" "m \<le> ?t" "l \<le> m \<longrightarrow> of_type stabs type m" "\<forall>i. m < i \<and> i \<le> ?t \<longrightarrow> \<not> of_type stabs type i"
      using stab_scan_run by blast
    show ?thesis
    proof (cases "m < l")
      case True
      then have "m = l - 1" using m(2) by simp
      then have "bracket stabs type L R a0 (?t + 1) r rl any" using bracket_skip [OF b lr _ t(2)] m(5) t(1) by simp
      then show ?thesis using "1.IH"(1) [OF lr refl m(1) True _ "1.prems"(2-5)] lr m(1) True by (subst stab_search.simps) simp
    next
      case ml: False
      have s: "stab_at stabs m = Inr (stabs ! nat m)" using ml range t m(3) by (intro stab_at_in) simp_all
      have ty: "of_type stabs type m" and mR: "L \<le> m" "m \<le> R" "m \<le> r" using m(3,4) ml range t by auto
      have a: "unat (a0 + 1) = Suc (unat a0)" and ne: "value_at stabs m \<noteq> a0 + 1" using "1.prems"(4) succ_word mR ty by (auto simp: apart_def)
      consider (lt) "value_at stabs m < a" | (gt) "a < value_at stabs m" | (eq) "value_at stabs m = a" by (meson linorder_cases)
      then show ?thesis
      proof cases
        case lt
        then have "value_at stabs m \<le> a0" using "1.prems"(3) a by (auto simp: word_less_nat_alt word_le_nat_alt)
        then have "bracket stabs type L R a0 (?t + 1) r m True" using bracket_low(1) [OF b _ m(3) t(2) ty _ m(5) "1.prems"(2)] ml by simp
        then show ?thesis using "1.IH"(2) [OF lr refl m(1) ml s _ _ "1.prems"(2-5)] lr m(1) ml s lt by (subst stab_search.simps) (simp add: value_at_def)
      next
        case gt
        then have "a0 < value_at stabs m" using "1.prems"(3) a by (auto simp: word_less_nat_alt)
        then have "bracket stabs type L R a0 l (m - 1) rl True" using bracket_high [OF b _ mR(3) ty _ "1.prems"(2)] ml by simp
        moreover have "\<not> n_value (stabs ! nat m) < a" "a < n_value (stabs ! nat m)" using gt by (auto simp: value_at_def)
        ultimately show ?thesis using "1.IH"(3) [OF lr refl m(1) ml s _ _ _ "1.prems"(2-4) refl] lr m(1) ml s by (subst stab_search.simps) simp
      next
        case eq
        then have a0: "a = a0" using "1.prems"(3) ne by simp
        then have "bracket stabs type L R a0 m r m True" using bracket_low(2) [OF b _ m(3) t(2) ty _ m(5) "1.prems"(2)] ml eq by simp
        moreover have "\<not> n_value (stabs ! nat m) < a" "\<not> a < n_value (stabs ! nat m)" using eq by (auto simp: value_at_def)
        moreover have "a + 1 = a0 \<or> a + 1 = a0 + 1" using a0 by simp
        ultimately show ?thesis using "1.IH"(4) [OF lr refl m(1) ml s _ _ _ "1.prems"(2) _ "1.prems"(4,5)] lr m(1) ml s by (subst stab_search.simps) simp
      qed
    qed
  qed
qed

lemma stab_rightmost_run:
  assumes "0 \<le> rl" "l < int (length stabs)" "rl \<le> l"
  shows "\<exists>l'. stab_rightmost stabs type l rl = Inr l' \<and> rl \<le> l' \<and> l' \<le> l \<and> (rl < l' \<longrightarrow> of_type stabs type l') \<and> (\<forall>i. l' < i \<and> i \<le> l \<longrightarrow> \<not> of_type stabs type i)"
  using assms
proof (induction stabs type l rl rule: stab_rightmost.induct)
  case (1 stabs type l rl)
  show ?case
  proof (cases "l > rl \<and> \<not> of_type stabs type l")
    case True
    then obtain l' where l': "stab_rightmost stabs type (l - 1) rl = Inr l'" "rl \<le> l'" "l' \<le> l - 1" "rl < l' \<longrightarrow> of_type stabs type l'"
      "\<forall>i. l' < i \<and> i \<le> l - 1 \<longrightarrow> \<not> of_type stabs type i"
      using "1.IH" [OF _ stab_at_in] "1.prems" by (auto simp: of_type_def)
    moreover have "stab_rightmost stabs type l rl = Inr l'"
      using True "1.prems" l'(1) by (subst stab_rightmost.simps) (simp add: stab_at_in of_type_def)
    moreover have "\<not> of_type stabs type i" if "l' < i" "i \<le> l" for i using l'(5) True that by (cases "i = l") auto
    ultimately show ?thesis by auto
  next
    case False
    then have "stab_rightmost stabs type l rl = Inr l" using "1.prems" by (subst stab_rightmost.simps) (auto simp: stab_at_in of_type_def)
    then show ?thesis using False "1.prems" by auto
  qed
qed

lemma last_filter_upto:
  assumes "L \<le> i" "i \<le> R" "P i" "\<And>j. i < j \<Longrightarrow> j \<le> R \<Longrightarrow> \<not> P j"
  shows "last (filter P [L..R]) = i"
proof -
  have "[L..R] = [L..i] @ [i + 1..R]" using assms(1,2) by (rule upto_split2)
  moreover have "filter P [i + 1..R] = []" using assms(4) by (auto simp: filter_empty_conv)
  moreover have "[L..i] = [L..i - 1] @ [i]" using assms(1) by (rule upto_rec2)
  ultimately show ?thesis using assms(3) by simp
qed

lemma hd_filter_upto:
  assumes "L \<le> i" "i \<le> R" "P i" "\<And>j. L \<le> j \<Longrightarrow> j < i \<Longrightarrow> \<not> P j"
  shows "hd (filter P [L..R]) = i"
proof -
  have "[L..R] = [L..i - 1] @ [i..R]" using assms(1,2) by (rule upto_split1)
  moreover have "filter P [L..i - 1] = []" using assms(4) by (auto simp: filter_empty_conv)
  moreover have "[i..R] = i # [i + 1..R]" using assms(2) by (rule upto_rec1)
  ultimately show ?thesis using assms(3) by simp
qed

lemma stab_rightmost_past: "l < rl \<Longrightarrow> stab_rightmost stabs type l rl = Inr l"
  by (subst stab_rightmost.simps) simp

lemma bracket_containing:
  assumes b: "bracket stabs type L R addr (r + 1) r rl True"
    and l: "rl \<le> r \<longrightarrow> rl \<le> l \<and> l \<le> r \<and> (rl < l \<longrightarrow> of_type stabs type l) \<and> (\<forall>i. l < i \<and> i \<le> r \<longrightarrow> \<not> of_type stabs type i)" "r < rl \<longrightarrow> l = r"
  shows "containing stabs type L R addr = (l, r)"
proof -
  let ?below = "\<lambda>i. of_type stabs type i \<and> value_at stabs i \<le> addr" and ?above = "\<lambda>i. of_type stabs type i \<and> addr < value_at stabs i"
  have low: "\<And>i. L \<le> i \<Longrightarrow> i \<le> r \<Longrightarrow> of_type stabs type i \<Longrightarrow> value_at stabs i \<le> addr"
    and high: "\<And>i. r < i \<Longrightarrow> i \<le> R \<Longrightarrow> of_type stabs type i \<Longrightarrow> addr < value_at stabs i"
    and nxt: "r = R \<or> of_type stabs type (r + 1)" and rl: "rl = L \<or> L \<le> rl \<and> rl \<le> r \<and> of_type stabs type rl" and lr: "L \<le> r + 1" "r \<le> R"
    and ex: "\<exists>i. L \<le> i \<and> i \<le> R \<and> of_type stabs type i"
    using b by (auto simp: bracket_def)
  have es: "entries stabs type L R \<noteq> []" using ex by (auto simp: entries_def filter_empty_conv)
  have f: "filter (\<lambda>i. value_at stabs i \<le> addr) (entries stabs type L R) = filter ?below [L..R]"
    "filter (\<lambda>i. addr < value_at stabs i) (entries stabs type L R) = filter ?above [L..R]"
    by (simp_all add: entries_def conj_commute)
  have above: "filter ?above [L..R] = [] \<longleftrightarrow> r = R" "r \<noteq> R \<Longrightarrow> hd (filter ?above [L..R]) = r + 1"
  proof -
    have n: "\<not> ?above j" if "L \<le> j" "j < r + 1" for j using low [of j] that by auto
    show "hd (filter ?above [L..R]) = r + 1" if "r \<noteq> R" by (rule hd_filter_upto) (use n nxt that lr high in auto)
    show "filter ?above [L..R] = [] \<longleftrightarrow> r = R" using n nxt lr high [of "r + 1"] by (force simp: filter_empty_conv)
  qed
  show ?thesis
  proof (cases "filter ?below [L..R] = []")
    case True
    then have none: "\<not> of_type stabs type i" if "L \<le> i" "i \<le> r" for i using low that lr by (auto simp: filter_empty_conv)
    then have "r \<noteq> R" using ex by auto
    moreover have "l = min L r" using none rl l lr by (cases "rl \<le> r") (auto simp: min_def)
    ultimately show ?thesis using True above es by (simp add: containing_def f)
  next
    case False
    then obtain i where i: "L \<le> i" "i \<le> R" "?below i" by (auto simp: filter_empty_conv)
    have ir: "i \<le> r" using high [of i] i by (meson not_le leD)
    have "rl \<le> r" using rl ir i(1) by auto
    then have l': "rl \<le> l" "l \<le> r" "rl < l \<longrightarrow> of_type stabs type l" "\<forall>i. l < i \<and> i \<le> r \<longrightarrow> \<not> of_type stabs type i" using l(1) by auto
    have "of_type stabs type l"
    proof (cases "rl < l")
      case False
      then have "l = rl" using l'(1) by simp
      moreover have "i \<le> l" using l'(4) ir i(3) by (meson not_le)
      ultimately show ?thesis using rl i by (auto)
    qed (use l'(3) in simp)
    moreover have "L \<le> l" using rl l'(1) by auto
    ultimately have "last (filter ?below [L..R]) = l"
      using low [of l] l' high lr by (intro last_filter_upto) (auto simp: not_le intro: leI)
    then show ?thesis using False above es by (simp add: containing_def f)
  qed
qed

lemma stab_binsearch_run:
  assumes "ordered stabs type L R" "apart stabs type L R addr" "L \<le> R + 1"
  shows "stab_binsearch stabs L R type addr = Inr (containing stabs type L R addr)"
proof -
  have "bracket stabs type L R addr L R L False" using assms(3) by (auto simp: bracket_def)
  then obtain r rl any where s: "stab_search stabs type L R addr L R False = Inr (rl, r, any)" "bracket stabs type L R addr (r + 1) r rl any"
    using stab_search_run [OF _ assms(1) _ assms(2), of L R L False addr R] by auto
  have range: "0 \<le> L" "r \<le> R" "R < int (length stabs)" "L \<le> r + 1" "L \<le> rl" using s(2) assms(1) by (auto simp: bracket_def ordered_def)
  show ?thesis
  proof (cases any)
    case False
    then have "rl = L" "entries stabs type L R = []" using s(2) by (auto simp: bracket_def entries_def filter_empty_conv)
    then show ?thesis using False by (simp add: stab_binsearch_def s(1) containing_def)
  next
    case True
    obtain l where l: "stab_rightmost stabs type r rl = Inr l" "rl \<le> r \<longrightarrow> rl \<le> l \<and> l \<le> r \<and> (rl < l \<longrightarrow> of_type stabs type l) \<and> (\<forall>i. l < i \<and> i \<le> r \<longrightarrow> \<not> of_type stabs type i)"
      "r < rl \<longrightarrow> l = r"
      using stab_rightmost_run [of rl r stabs type] stab_rightmost_past [of r rl stabs type] range by (cases "rl \<le> r") auto
    then show ?thesis using bracket_containing [OF s(2) [unfolded True [THEN eqTrueI]] l(2,3)] True by (simp add: stab_binsearch_def s(1))
  qed
qed

section \<open>What is reported\<close>

definition names_file :: "Stab list \<Rightarrow> int \<Rightarrow> bool" where
  "names_file stabs i \<longleftrightarrow> of_type stabs N_SOL i \<or> of_type stabs N_SO i \<and> value_at stabs i \<noteq> 0"

lemma stab_file_run:
  assumes "0 \<le> lf" "i < int (length stabs)" "lf \<le> i" "filter (names_file stabs) [lf..i] \<noteq> []"
  shows "stab_file stabs lf i = Inr (last (filter (names_file stabs) [lf..i]))"
  using assms
proof (induction stabs lf i rule: stab_file.induct)
  case (1 stabs lf i)
  have up: "[lf..i] = [lf..i - 1] @ [i]" using "1.prems"(3) by (rule upto_rec2)
  have s: "stab_at stabs i = Inr (stabs ! nat i)" using "1.prems" by (intro stab_at_in) simp_all
  have c: "(uint (n_type (stabs ! nat i)) \<noteq> N_SOL \<and> (uint (n_type (stabs ! nat i)) \<noteq> N_SO \<or> n_value (stabs ! nat i) = 0)) = (\<not> names_file stabs i)"
    by (auto simp: names_file_def of_type_def value_at_def)
  show ?case
  proof (cases "names_file stabs i")
    case True
    then show ?thesis using "1.prems" s up c by (subst stab_file.simps) auto
  next
    case False
    then have more: "filter (names_file stabs) [lf..i - 1] \<noteq> []" using "1.prems"(4) up by simp
    then have "lf \<le> i - 1" by (auto simp: filter_empty_conv)
    then have "stab_file stabs lf (i - 1) = Inr (last (filter (names_file stabs) [lf..i - 1]))"
      using "1.IH" [OF "1.prems"(3) s] "1.prems" False more c by auto
    then show ?thesis using "1.prems" s False up c by (subst stab_file.simps) auto
  qed
qed

lemma stab_params_run:
  assumes "0 \<le> i" "r < int (length stabs)"
  shows "stab_params stabs i r n = Inr (n + int (length (takeWhile (of_type stabs N_PSYM) [i..r - 1])))"
  using assms
proof (induction stabs i r n rule: stab_params.induct)
  case (1 stabs i r n)
  show ?case
  proof (cases "i < r")
    case True
    then have s: "stab_at stabs i = Inr (stabs ! nat i)" using "1.prems" by (intro stab_at_in) simp_all
    have "[i..r - 1] = i # [i + 1..r - 1]" using True by (intro upto_rec1) simp
    then show ?thesis using "1.IH" [OF True s] "1.prems" True s by (subst stab_params.simps) (auto simp: of_type_def [symmetric])
  qed (subst stab_params.simps, simp)
qed

lemma containing_below:
  assumes "containing stabs type L R addr = (l, r)" "L \<le> i" "i \<le> R" "of_type stabs type i" "value_at stabs i \<le> addr"
  shows "L \<le> l" "i \<le> l" "l \<le> R" "r \<le> R" "of_type stabs type l" "value_at stabs l \<le> addr"
proof -
  let ?below = "filter (\<lambda>i. value_at stabs i \<le> addr) (entries stabs type L R)"
  have i: "i \<in> set ?below" using assms(2-5) by (simp add: entries_def)
  then have ne: "?below \<noteq> []" "entries stabs type L R \<noteq> []" by (metis empty_iff list.set(1), metis empty_iff filter.simps(1) list.set(1))
  then have l: "l = last ?below" and r: "r = R \<or> r = hd (filter (\<lambda>i. addr < value_at stabs i) (entries stabs type L R)) - 1 \<and> filter (\<lambda>i. addr < value_at stabs i) (entries stabs type L R) \<noteq> []"
    using assms(1) by (auto simp: containing_def Let_def split: if_splits)
  then have "l \<in> set ?below" using ne(1) last_in_set by blast
  then show "L \<le> l" "l \<le> R" "of_type stabs type l" "value_at stabs l \<le> addr" by (auto simp: entries_def)
  have "sorted ?below" unfolding entries_def by (intro sorted_wrt_filter sorted_upto)
  then show "i \<le> l" unfolding l using i by (metis in_set_conv_nth last_conv_nth length_greater_0_conv ne(1) sorted_nth_mono One_nat_def Suc_leI Suc_pred diff_less less_Suc_eq_le zero_less_one)
  show "r \<le> R" using r hd_in_set by (force simp: entries_def)
qed

lemma from_table_Inr [simp]: "from_table (Inr x) = ret x"
  by (simp add: from_table_def)

section \<open>Properties\<close>

text \<open>
  C32: \<open>stab_binsearch\<close> ends on every table, and finds what its comment says: the left end of the result is
  the last entry of the type at or below the address, the right end lies right before the first one
  above it.  The entries of the type have to be in the order of their addresses, and none may be
  exactly one past the address searched for.
\<close>

theorem stab_binsearch_finds_entry:
  assumes "ordered stabs type L R" "apart stabs type L R addr" "L \<le> R + 1"
  shows "stab_binsearch stabs L R type addr = Inr (containing stabs type L R addr)"
  using assms by (rule stab_binsearch_run)

definition source_file :: "vaddr \<Rightarrow> Stab" where
  "source_file a = \<lparr>n_strx = 1, n_type = 0x64, n_other = 0, n_desc = 0, n_value = a\<rparr>"

definition func :: "vaddr \<Rightarrow> Stab" where
  "func a = \<lparr>n_strx = 5, n_type = 0x24, n_other = 0, n_desc = 0, n_value = a\<rparr>"

definition param :: Stab where
  "param = \<lparr>n_strx = 9, n_type = 0xA0, n_other = 0, n_desc = 0, n_value = 8\<rparr>"

definition table_example :: "Stab list" where
  "table_example = [param, source_file 0xF0100000, func 0xF0100000, param, param, func 0xF0100040, param, source_file 0xF0100100]"

lemma orderedI:
  assumes "0 \<le> L" "R < int (length stabs)" "sorted (map (value_at stabs) (entries stabs type L R))"
  shows "ordered stabs type L R"
proof -
  let ?es = "entries stabs type L R"
  have d: "sorted_wrt (<) ?es" unfolding entries_def by (intro sorted_wrt_filter sorted_wrt_upto)
  have "value_at stabs i \<le> value_at stabs j" if ij: "i \<in> set ?es" "j \<in> set ?es" "i \<le> j" for i j
  proof -
    obtain p q where p: "p < length ?es" "?es ! p = i" and q: "q < length ?es" "?es ! q = j" using ij(1,2) by (auto simp: in_set_conv_nth)
    have "p \<le> q" using sorted_wrt_nth_less [OF d, of q p] p q ij(3) by (meson not_le)
    then show ?thesis using sorted_nth_mono [OF assms(3), of p q] p q by simp
  qed
  then show ?thesis using assms(1,2) by (auto simp: ordered_def entries_def)
qed

theorem stab_binsearch_finds_entry_witness:
  "stab_binsearch table_example 1 6 N_FUN 0xF0100043 = Inr (5, 6)"
proof -
  have "sorted (map (value_at table_example) (entries table_example N_FUN 1 6))" by code_simp
  then have o: "ordered table_example N_FUN 1 6" by (intro orderedI) (simp_all add: table_example_def)
  have "list_all (\<lambda>i. of_type table_example N_FUN i \<longrightarrow> value_at table_example i \<noteq> 0xF0100044) [1..6]" by code_simp
  then have a: "apart table_example N_FUN 1 6 0xF0100043" by (auto simp: apart_def list_all_iff)
  have "containing table_example N_FUN 1 6 0xF0100043 = (5, 6)" by code_simp
  then show ?thesis using stab_binsearch_finds_entry [OF o a] by simp
qed

lemma neighbours_confuse_search:
  "stab_binsearch [func 10, func 11, func 12] 0 2 N_FUN 11 = Inr (2, 2)" "containing [func 10, func 11, func 12] N_FUN 0 2 11 = (1, 1)"
  by code_simp+

lemma containing_le:
  assumes "containing stabs type L R addr = (l, r)" "ordered stabs type L R" "L \<le> i" "i \<le> R" "of_type stabs type i" "value_at stabs i \<le> addr"
  shows "l \<le> r"
proof -
  let ?above = "filter (\<lambda>i. addr < value_at stabs i) (entries stabs type L R)"
  note l = containing_below [OF assms(1,3-6)]
  have "filter (\<lambda>i. value_at stabs i \<le> addr) (entries stabs type L R) \<noteq> []" "entries stabs type L R \<noteq> []"
    using assms(3-6) by (auto simp: entries_def filter_empty_conv)
  then have r: "r = (if ?above = [] then R else hd ?above - 1)" using assms(1) by (auto simp: containing_def Let_def split: if_splits)
  show ?thesis
  proof (cases "?above = []")
    case False
    then have "hd ?above \<in> set ?above" by (rule hd_in_set)
    then have j: "L \<le> hd ?above" "hd ?above \<le> R" "of_type stabs type (hd ?above)" "addr < value_at stabs (hd ?above)" by (auto simp: entries_def)
    then have "\<not> hd ?above \<le> l" using assms(2) l(3,5,6) unfolding ordered_def by (meson leD le_less_trans)
    then show ?thesis using r False by simp
  qed (use r l(3) in simp)
qed



definition strings_example :: jmem where
  "strings_example = overwrite Map.empty 0x1000 [0, 0x61, 0x2E, 0x63, 0, 0x66, 0x3A, 0x46, 0x31, 0]"


end
