(* ===== verification/Mm.thy ===== *)
theory Mm
  imports Prelude
begin

text \<open>
  The explicit free list allocator of uw\_cse351/lab5: mm.c on the simulated memory of memlib.c.

  Pointers and \<open>size_t\<close> values are natural numbers below \<open>2 ^ 64\<close>; \<open>add64\<close>, \<open>sub64\<close> and \<open>mult64\<close> wrap as
  the 64-bit operations do.  The memory is a function from the address of an aligned 8-byte word to
  its contents, which are arbitrary until written.  Reading or writing a word that is not aligned or
  not between \<open>mem_start_brk\<close> and \<open>mem_brk\<close> is a \<open>MemFault\<close>.  \<open>exit(n)\<close> is the fault \<open>Exit n\<close>.

  The page size of the system, which \<open>mem_pagesize\<close> asks for, is an argument.  The loops along the
  free list and along the blocks may run as many rounds as the heap has words and fail with
  \<open>OutOfFuel\<close> beyond: the theorems show that this never happens on a well-formed heap.
\<close>

definition add64 :: "nat \<Rightarrow> nat \<Rightarrow> nat" where
  "add64 a b = (a + b) mod 2 ^ 64"

definition sub64 :: "nat \<Rightarrow> nat \<Rightarrow> nat" where
  "sub64 a b = (a + 2 ^ 64 - b) mod 2 ^ 64"

definition mult64 :: "nat \<Rightarrow> nat \<Rightarrow> nat" where
  "mult64 a b = (a * b) mod 2 ^ 64"

section \<open>memlib.c\<close>

record mm_state =
  cell :: "nat \<Rightarrow> nat"
  mem_start_brk :: nat
  mem_brk :: nat
  mem_max_addr :: nat

definition MAX_HEAP :: nat where
  "MAX_HEAP = 20 * 2 ^ 20"

text \<open>\<open>mem_init p\<close>: \<open>p\<close> is what the system's \<open>malloc(MAX_HEAP)\<close> returned.\<close>

definition mem_init :: "nat \<Rightarrow> (mm_state, unit) cmd" where
  "mem_init p s =
     (if p = NULL then Inl (Exit 1)
      else Inr ((), s\<lparr>mem_start_brk := p, mem_max_addr := add64 p MAX_HEAP, mem_brk := p\<rparr>))"

definition mem_reset_brk :: "(mm_state, unit) cmd" where
  "mem_reset_brk s = Inr ((), s\<lparr>mem_brk := mem_start_brk s\<rparr>)"

definition mem_sbrk :: "nat \<Rightarrow> (mm_state, nat) cmd" where
  "mem_sbrk incr s =
     (let old_brk = mem_brk s in
      if mem_max_addr s < add64 (mem_brk s) incr then Inr (2 ^ 64 - 1, s)
      else Inr (old_brk, s\<lparr>mem_brk := add64 (mem_brk s) incr\<rparr>))"

definition mem_heap_lo :: "mm_state \<Rightarrow> nat" where
  "mem_heap_lo s = mem_start_brk s"

definition mem_heap_hi :: "mm_state \<Rightarrow> nat" where
  "mem_heap_hi s = sub64 (mem_brk s) 1"

definition mem_heapsize :: "mm_state \<Rightarrow> nat" where
  "mem_heapsize s = sub64 (mem_brk s) (mem_start_brk s)"

section \<open>mm.c: words, blocks and tags\<close>

definition valid_word :: "mm_state \<Rightarrow> nat \<Rightarrow> bool" where
  "valid_word s a \<longleftrightarrow> a mod 8 = 0 \<and> mem_start_brk s \<le> a \<and> a + 8 \<le> mem_brk s"

definition rd :: "nat \<Rightarrow> (mm_state, nat) cmd" where
  "rd a s = (if valid_word s a then Inr (cell s a, s) else Inl MemFault)"

definition wr :: "nat \<Rightarrow> nat \<Rightarrow> (mm_state, unit) cmd" where
  "wr a v s = (if valid_word s a then Inr ((), s\<lparr>cell := (cell s)(a := v)\<rparr>) else Inl MemFault)"

definition heap_words :: "mm_state \<Rightarrow> nat" where
  "heap_words s = (mem_brk s - mem_start_brk s) div 8"

definition POINTER_ADD :: "nat \<Rightarrow> nat \<Rightarrow> nat" where
  "POINTER_ADD p x = add64 p x"

definition POINTER_SUB :: "nat \<Rightarrow> nat \<Rightarrow> nat" where
  "POINTER_SUB p x = sub64 p x"

definition WORD_SIZE :: nat where
  "WORD_SIZE = 8"

text \<open>A \<open>BlockInfo\<close> is three words: \<open>sizeAndTags\<close>, \<open>next\<close> and \<open>prev\<close>, at the offsets 0, 8 and 16.\<close>

definition sizeof_BlockInfo :: nat where
  "sizeof_BlockInfo = 24"

definition MIN_BLOCK_SIZE :: nat where
  "MIN_BLOCK_SIZE = sizeof_BlockInfo + WORD_SIZE"

definition ALIGNMENT :: nat where
  "ALIGNMENT = 8"

definition SIZE :: "nat \<Rightarrow> nat" where
  "SIZE x = x AND (2 ^ 64 - ALIGNMENT)"

definition TAG_USED :: nat where
  "TAG_USED = 1"

definition TAG_PRECEDING_USED :: nat where
  "TAG_PRECEDING_USED = 2"

text \<open>The complement of a tag, as a \<open>size_t\<close>.\<close>

definition mask_out :: "nat \<Rightarrow> nat" where
  "mask_out t = 2 ^ 64 - 1 - t"

definition get_head :: "(mm_state, nat) cmd" where
  "get_head s = rd (mem_heap_lo s) s"

definition set_head :: "nat \<Rightarrow> (mm_state, unit) cmd" where
  "set_head p s = wr (mem_heap_lo s) p s"

abbreviation get_tags :: "nat \<Rightarrow> (mm_state, nat) cmd" where
  "get_tags b \<equiv> rd b"

abbreviation set_tags :: "nat \<Rightarrow> nat \<Rightarrow> (mm_state, unit) cmd" where
  "set_tags b v \<equiv> wr b v"

definition get_next :: "nat \<Rightarrow> (mm_state, nat) cmd" where
  "get_next b = rd (b + 8)"

definition set_next :: "nat \<Rightarrow> nat \<Rightarrow> (mm_state, unit) cmd" where
  "set_next b v = wr (b + 8) v"

definition get_prev :: "nat \<Rightarrow> (mm_state, nat) cmd" where
  "get_prev b = rd (b + 16)"

definition set_prev :: "nat \<Rightarrow> nat \<Rightarrow> (mm_state, unit) cmd" where
  "set_prev b v = wr (b + 16) v"

section \<open>mm.c: the free list\<close>

fun searchFreeList_loop :: "nat \<Rightarrow> nat \<Rightarrow> nat \<Rightarrow> (mm_state, nat) cmd" where
  "searchFreeList_loop 0 reqSize freeBlock = fail OutOfFuel"
| "searchFreeList_loop (Suc k) reqSize freeBlock =
     (if freeBlock \<noteq> NULL then
        bnd (get_tags freeBlock) (\<lambda>t.
          if SIZE t \<ge> reqSize then ret freeBlock
          else bnd (get_next freeBlock) (\<lambda>n. searchFreeList_loop k reqSize n))
      else ret NULL)"

definition searchFreeList :: "nat \<Rightarrow> (mm_state, nat) cmd" where
  "searchFreeList reqSize s =
     bnd get_head (\<lambda>freeBlock. searchFreeList_loop (Suc (heap_words s)) reqSize freeBlock) s"

definition insertFreeBlock :: "nat \<Rightarrow> (mm_state, unit) cmd" where
  "insertFreeBlock freeBlock =
     bnd get_head (\<lambda>oldHead.
     bnd (set_next freeBlock oldHead) (\<lambda>_.
     bnd (if oldHead \<noteq> NULL then
            bnd (get_prev oldHead) (\<lambda>p.
            bnd (set_prev freeBlock p) (\<lambda>_.
            set_prev oldHead freeBlock))
          else ret ()) (\<lambda>_.
     set_head freeBlock)))"

definition removeFreeBlock :: "nat \<Rightarrow> (mm_state, unit) cmd" where
  "removeFreeBlock freeBlock =
     bnd (get_next freeBlock) (\<lambda>nextFree.
     bnd (get_prev freeBlock) (\<lambda>prevFree.
     bnd (if nextFree \<noteq> NULL then set_prev nextFree prevFree else ret ()) (\<lambda>_.
     bnd get_head (\<lambda>head.
       if freeBlock = head then set_head nextFree
       else if prevFree \<noteq> NULL then set_next prevFree nextFree
       else ret ()))))"

text \<open>The two loops of \<open>coalesceFreeBlock\<close>, with the running size; they return the cursor and the size.\<close>

fun coalesce_preceding :: "nat \<Rightarrow> nat \<Rightarrow> nat \<Rightarrow> (mm_state, nat \<times> nat) cmd" where
  "coalesce_preceding 0 blockCursor newSize = fail OutOfFuel"
| "coalesce_preceding (Suc k) blockCursor newSize =
     bnd (get_tags blockCursor) (\<lambda>t.
       if t AND TAG_PRECEDING_USED = 0 then
         bnd (rd (POINTER_SUB blockCursor WORD_SIZE)) (\<lambda>b.
         let sz = SIZE b; freeBlock = POINTER_SUB blockCursor sz in
         bnd (removeFreeBlock freeBlock) (\<lambda>_.
         coalesce_preceding k freeBlock (add64 newSize sz)))
       else ret (blockCursor, newSize))"

fun coalesce_following :: "nat \<Rightarrow> nat \<Rightarrow> nat \<Rightarrow> (mm_state, nat \<times> nat) cmd" where
  "coalesce_following 0 blockCursor newSize = fail OutOfFuel"
| "coalesce_following (Suc k) blockCursor newSize =
     bnd (get_tags blockCursor) (\<lambda>t.
       if t AND TAG_USED = 0 then
         (let sz = SIZE t in
          bnd (removeFreeBlock blockCursor) (\<lambda>_.
          coalesce_following k (POINTER_ADD blockCursor sz) (add64 newSize sz)))
       else ret (blockCursor, newSize))"

definition coalesceFreeBlock :: "nat \<Rightarrow> (mm_state, unit) cmd" where
  "coalesceFreeBlock oldBlock s =
     bnd (get_tags oldBlock) (\<lambda>t.
     let oldSize = SIZE t in
     bnd (coalesce_preceding (Suc (heap_words s)) oldBlock oldSize) (\<lambda>(newBlock, newSize).
     bnd (coalesce_following (Suc (heap_words s)) (POINTER_ADD oldBlock oldSize) newSize) (\<lambda>(blockCursor, newSize).
       if newSize \<noteq> oldSize then
         bnd (removeFreeBlock oldBlock) (\<lambda>_.
         bnd (set_tags newBlock (newSize OR TAG_PRECEDING_USED)) (\<lambda>_.
         bnd (wr (POINTER_SUB blockCursor WORD_SIZE) (newSize OR TAG_PRECEDING_USED)) (\<lambda>_.
         insertFreeBlock newBlock)))
       else ret ()))) s"

definition requestMoreSpace :: "nat \<Rightarrow> nat \<Rightarrow> (mm_state, unit) cmd" where
  "requestMoreSpace pagesize reqSize =
     (let numPages = sub64 (add64 reqSize pagesize) 1 div pagesize;
          totalSize = mult64 numPages pagesize in
      bnd (mem_sbrk totalSize) (\<lambda>mem_sbrk_result.
        if mem_sbrk_result = 2 ^ 64 - 1 then fail (Exit 0)
        else
          (let newBlock = POINTER_SUB mem_sbrk_result WORD_SIZE in
           bnd (get_tags newBlock) (\<lambda>t.
           let prevLastWordMask = t AND TAG_PRECEDING_USED in
           bnd (set_tags newBlock (totalSize OR prevLastWordMask)) (\<lambda>_.
           bnd (set_tags (POINTER_ADD newBlock (sub64 totalSize WORD_SIZE)) (totalSize OR prevLastWordMask)) (\<lambda>_.
           bnd (wr (POINTER_ADD newBlock totalSize) TAG_USED) (\<lambda>_.
           bnd (insertFreeBlock newBlock) (\<lambda>_.
           coalesceFreeBlock newBlock)))))))) "

definition mm_init :: "(mm_state, int) cmd" where
  "mm_init s =
     (let initSize = WORD_SIZE + MIN_BLOCK_SIZE + WORD_SIZE in
      bnd (mem_sbrk initSize) (\<lambda>mem_sbrk_result.
        if mem_sbrk_result = 2 ^ 64 - 1 then fail (Exit 1)
        else (\<lambda>s.
          let firstFreeBlock = POINTER_ADD (mem_heap_lo s) WORD_SIZE;
              totalSize = initSize - WORD_SIZE - WORD_SIZE in
          bnd (set_tags firstFreeBlock (totalSize OR TAG_PRECEDING_USED)) (\<lambda>_.
          bnd (set_next firstFreeBlock NULL) (\<lambda>_.
          bnd (set_prev firstFreeBlock NULL) (\<lambda>_.
          bnd (wr (POINTER_ADD firstFreeBlock (totalSize - WORD_SIZE)) (totalSize OR TAG_PRECEDING_USED)) (\<lambda>_.
          bnd (wr (POINTER_SUB (mem_heap_hi s) (WORD_SIZE - 1)) TAG_USED) (\<lambda>_.
          bnd (set_head firstFreeBlock) (\<lambda>_. ret 0)))))) s)) s)"

section \<open>mm.c: the interface\<close>

text \<open>The block size for a request, header included: the common code of \<open>mm_malloc\<close> and \<open>mm_realloc\<close>.\<close>

definition request_size :: "nat \<Rightarrow> nat" where
  "request_size sz =
     (let sz = add64 sz WORD_SIZE in
      if sz \<le> MIN_BLOCK_SIZE then MIN_BLOCK_SIZE
      else mult64 ALIGNMENT (sub64 (add64 sz ALIGNMENT) 1 div ALIGNMENT))"

text \<open>The part of \<open>mm_malloc\<close> after the search: taking the block off the list and splitting it.\<close>

definition mm_malloc_take :: "nat \<Rightarrow> nat \<Rightarrow> (mm_state, nat) cmd" where
  "mm_malloc_take reqSize ptrFreeBlock =
     bnd (get_tags ptrFreeBlock) (\<lambda>t.
     let precedingBlockUseTag = t AND TAG_PRECEDING_USED; blockSize = SIZE t in
     bnd (removeFreeBlock ptrFreeBlock) (\<lambda>_.
     bnd (if sub64 blockSize reqSize \<ge> MIN_BLOCK_SIZE then
            bnd (set_tags ptrFreeBlock (reqSize OR precedingBlockUseTag)) (\<lambda>_.
            bnd (get_tags ptrFreeBlock) (\<lambda>t.
            bnd (set_tags ptrFreeBlock (t OR TAG_USED)) (\<lambda>_.
            bnd (wr (POINTER_ADD ptrFreeBlock reqSize) (sub64 blockSize reqSize OR TAG_PRECEDING_USED)) (\<lambda>_.
            bnd (wr (POINTER_ADD ptrFreeBlock (sub64 blockSize WORD_SIZE))
                   (sub64 blockSize reqSize OR TAG_PRECEDING_USED)) (\<lambda>_.
            insertFreeBlock (POINTER_ADD ptrFreeBlock reqSize))))))
          else
            (let nextBlock = POINTER_ADD ptrFreeBlock blockSize in
             bnd (get_tags nextBlock) (\<lambda>n.
             bnd (set_tags nextBlock (n OR TAG_PRECEDING_USED)) (\<lambda>_.
             bnd (get_tags ptrFreeBlock) (\<lambda>t.
             set_tags ptrFreeBlock (t OR TAG_USED)))))) (\<lambda>_.
     ret (POINTER_ADD ptrFreeBlock WORD_SIZE))))"

definition mm_malloc :: "nat \<Rightarrow> nat \<Rightarrow> (mm_state, nat) cmd" where
  "mm_malloc pagesize sz =
     (if sz = 0 then ret NULL
      else
        (let reqSize = request_size sz in
         bnd (searchFreeList reqSize) (\<lambda>p.
         bnd (if p = NULL then bnd (requestMoreSpace pagesize reqSize) (\<lambda>_. searchFreeList reqSize)
              else ret p) (\<lambda>ptrFreeBlock.
         mm_malloc_take reqSize ptrFreeBlock))))"

definition mm_free :: "nat \<Rightarrow> (mm_state, unit) cmd" where
  "mm_free ptr =
     (let blockInfo = POINTER_SUB ptr WORD_SIZE in
      bnd (get_tags blockInfo) (\<lambda>t.
      let payloadSize = SIZE t; followingBlock = POINTER_ADD blockInfo payloadSize in
      bnd (get_tags followingBlock) (\<lambda>f.
      bnd (set_tags followingBlock (f AND mask_out TAG_PRECEDING_USED)) (\<lambda>_.
      bnd (get_tags blockInfo) (\<lambda>t.
      bnd (set_tags blockInfo (t AND mask_out TAG_USED)) (\<lambda>_.
      bnd (get_tags blockInfo) (\<lambda>t.
      bnd (wr (POINTER_ADD blockInfo (sub64 payloadSize WORD_SIZE)) t) (\<lambda>_.
      bnd (insertFreeBlock blockInfo) (\<lambda>_.
      coalesceFreeBlock blockInfo)))))))))"

text \<open>\<open>memcpy\<close> of \<open>n\<close> bytes between two aligned addresses: whole words, then the low bytes of a last one.\<close>

fun memcpy_words :: "nat \<Rightarrow> nat \<Rightarrow> nat \<Rightarrow> (mm_state, unit) cmd" where
  "memcpy_words 0 d s = ret ()"
| "memcpy_words (Suc n) d s = bnd (rd s) (\<lambda>w. bnd (wr d w) (\<lambda>_. memcpy_words n (d + 8) (s + 8)))"

definition mm_memcpy :: "nat \<Rightarrow> nat \<Rightarrow> nat \<Rightarrow> (mm_state, unit) cmd" where
  "mm_memcpy d s n =
     bnd (memcpy_words (n div 8) d s) (\<lambda>_.
     if n mod 8 = 0 then ret ()
     else
       (let d = d + 8 * (n div 8); s = s + 8 * (n div 8); k = 8 * (n mod 8) in
        bnd (rd s) (\<lambda>w. bnd (rd d) (\<lambda>v. wr d (v div 2 ^ k * 2 ^ k + w mod 2 ^ k)))))"

text \<open>The two parts of \<open>mm_realloc\<close> that work in place; the first one returns the block's new size.\<close>

definition mm_realloc_combine :: "nat \<Rightarrow> nat \<Rightarrow> nat \<Rightarrow> nat \<Rightarrow> (mm_state, nat) cmd" where
  "mm_realloc_combine blockInfo old_size reqSize precedingBlockUseTag =
     (if old_size < reqSize then
        (let nextBlock = POINTER_ADD blockInfo old_size in
         bnd (get_tags nextBlock) (\<lambda>n.
           if n AND TAG_USED = 0 then
             (let addSize = SIZE n in
              if add64 old_size addSize \<ge> reqSize then
                bnd (removeFreeBlock nextBlock) (\<lambda>_.
                let old_size = add64 old_size addSize in
                bnd (set_tags blockInfo (old_size OR precedingBlockUseTag)) (\<lambda>_.
                bnd (get_tags blockInfo) (\<lambda>t.
                bnd (set_tags blockInfo (t OR TAG_USED)) (\<lambda>_.
                bnd (set_tags nextBlock 0) (\<lambda>_.
                let nextnextBlock = POINTER_ADD blockInfo old_size in
                bnd (get_tags nextnextBlock) (\<lambda>n.
                bnd (set_tags nextnextBlock (n OR TAG_PRECEDING_USED)) (\<lambda>_.
                ret old_size)))))))
              else ret old_size)
           else ret old_size))
      else ret old_size)"

definition mm_realloc_split :: "nat \<Rightarrow> nat \<Rightarrow> nat \<Rightarrow> nat \<Rightarrow> (mm_state, unit) cmd" where
  "mm_realloc_split blockInfo old_size reqSize precedingBlockUseTag =
     (if sub64 old_size reqSize \<ge> MIN_BLOCK_SIZE then
        bnd (set_tags blockInfo (reqSize OR precedingBlockUseTag)) (\<lambda>_.
        bnd (get_tags blockInfo) (\<lambda>t.
        bnd (set_tags blockInfo (t OR TAG_USED)) (\<lambda>_.
        bnd (wr (POINTER_ADD blockInfo reqSize) (sub64 old_size reqSize OR TAG_PRECEDING_USED)) (\<lambda>_.
        bnd (wr (POINTER_ADD blockInfo (sub64 old_size WORD_SIZE)) (sub64 old_size reqSize OR TAG_PRECEDING_USED)) (\<lambda>_.
        bnd (insertFreeBlock (POINTER_ADD blockInfo reqSize)) (\<lambda>_.
        let nextBlock = POINTER_ADD blockInfo old_size in
        bnd (get_tags nextBlock) (\<lambda>n.
        set_tags nextBlock (n AND mask_out TAG_PRECEDING_USED))))))))
      else ret ())"

definition mm_realloc :: "nat \<Rightarrow> nat \<Rightarrow> nat \<Rightarrow> (mm_state, nat) cmd" where
  "mm_realloc pagesize ptr sz =
     (let blockInfo = POINTER_SUB ptr WORD_SIZE in
      bnd (get_tags blockInfo) (\<lambda>t.
      let old_size = SIZE t; copy_size = sub64 old_size WORD_SIZE in
      if ptr = NULL then mm_malloc pagesize sz
      else if sz = 0 then bnd (mm_free ptr) (\<lambda>_. ret NULL)
      else
        (let reqSize = request_size sz in
         if reqSize = old_size then ret ptr
         else
           bnd (get_tags blockInfo) (\<lambda>t.
           let precedingBlockUseTag = t AND TAG_PRECEDING_USED in
           bnd (mm_realloc_combine blockInfo old_size reqSize precedingBlockUseTag) (\<lambda>old_size.
           if reqSize \<le> old_size then
             bnd (mm_realloc_split blockInfo old_size reqSize precedingBlockUseTag) (\<lambda>_. ret ptr)
           else
             bnd (mm_malloc pagesize sz) (\<lambda>new_ptr.
               if new_ptr = NULL then ret NULL
               else
                 bnd (mm_memcpy new_ptr ptr (if sz < copy_size then sz else copy_size)) (\<lambda>_.
                 bnd (mm_free ptr) (\<lambda>_. ret new_ptr)))))))) "

text \<open>
  \<open>examine_heap\<close> prints the head of the free list and one line per block; the model returns both.  The
  arguments of a line are the block, its size and the two tags, and for a free block its \<open>next\<close> and \<open>prev\<close>.
\<close>

datatype heap_line = ALLOCATED nat nat nat nat | FREE nat nat nat nat nat nat

fun examine_heap_loop :: "nat \<Rightarrow> nat \<Rightarrow> (mm_state, heap_line list) cmd" where
  "examine_heap_loop 0 block s = fail OutOfFuel s"
| "examine_heap_loop (Suc k) block s =
     bnd (get_tags block) (\<lambda>t.
       if SIZE t \<noteq> 0 \<and> block < mem_heap_hi s then
         bnd (if t AND TAG_USED \<noteq> 0 then ret (ALLOCATED block (SIZE t) (t AND TAG_PRECEDING_USED) (t AND TAG_USED))
              else bnd (get_next block) (\<lambda>n. bnd (get_prev block) (\<lambda>p.
                ret (FREE block (SIZE t) (t AND TAG_PRECEDING_USED) (t AND TAG_USED) n p)))) (\<lambda>line.
         bnd (examine_heap_loop k (POINTER_ADD block (SIZE t))) (\<lambda>rest. ret (line # rest)))
       else ret []) s"

definition examine_heap :: "(mm_state, nat \<times> heap_line list) cmd" where
  "examine_heap s =
     bnd get_head (\<lambda>free_list_head.
     bnd (examine_heap_loop (Suc (heap_words s)) (POINTER_ADD (mem_heap_lo s) WORD_SIZE)) (\<lambda>lines.
     ret (free_list_head, lines))) s"

definition mm_check :: int where
  "mm_check = 0"

section \<open>Sizes and tags\<close>

text \<open>A header is a multiple of 8 with two tag bits below: bitwise operations act on both parts.\<close>

lemma take_bit_3: "b < 8 \<Longrightarrow> take_bit 3 b = (b :: nat)"
  by (simp add: take_bit_eq_mod)

lemma bit_8: "b < 8 \<Longrightarrow> bit (8 * a + b :: nat) n \<longleftrightarrow> (if n < 3 then bit b n else bit a (n - 3))"
proof -
  assume b: "b < 8"
  have low: "n < 3" if "bit b n" for n
    using that take_bit_3 [OF b] by (metis bit_take_bit_iff)
  have "push_bit 3 a + b = push_bit 3 a OR b"
    by (intro disjunctive_add) (use low in \<open>auto simp: bit_push_bit_iff not_le\<close>)
  then have "8 * a + b = push_bit 3 a OR b" by (simp add: push_bit_eq_mult mult.commute)
  then show ?thesis using low by (auto simp: bit_or_iff bit_push_bit_iff)
qed

lemma bit_lt_8: "b < 8 \<Longrightarrow> c < 8 \<Longrightarrow> (b AND c :: nat) < 8 \<and> (b OR c :: nat) < 8"
proof -
  assume "b < 8" "c < 8"
  then have "take_bit 3 (b AND c) = b AND c" "take_bit 3 (b OR c) = b OR c" by (simp_all add: take_bit_3)
  then show ?thesis using take_bit_nat_less_exp [of 3 "b AND c"] take_bit_nat_less_exp [of 3 "b OR c"] by simp
qed

lemma and_8: "b < 8 \<Longrightarrow> d < 8 \<Longrightarrow> (8 * a + b) AND (8 * c + d) = 8 * (a AND c) + (b AND d :: nat)"
  by (rule bit_eqI) (simp add: bit_and_iff bit_8 bit_lt_8)

lemma or_8: "b < 8 \<Longrightarrow> d < 8 \<Longrightarrow> (8 * a + b) OR (8 * c + d) = 8 * (a OR c) + (b OR d :: nat)"
  by (rule bit_eqI) (simp add: bit_or_iff bit_8 bit_lt_8)

lemma and_mask_61: "q < 2 ^ 61 \<Longrightarrow> q AND (2 ^ 61 - 1) = (q :: nat)"
  using take_bit_eq_mask [of 61 q] by (simp add: take_bit_nat_eq_self mask_eq_exp_minus_1)

definition header :: "nat \<Rightarrow> bool \<Rightarrow> bool \<Rightarrow> nat" where
  "header sz pu u = sz + 2 * of_bool pu + of_bool u"

lemma header_8: "header (8 * q) pu u = 8 * q + (2 * of_bool pu + of_bool u)"
  by (simp add: header_def)

lemma tag_lt_8: "2 * of_bool pu + of_bool u < (8 :: nat)"
  by (cases pu; cases u) simp_all

lemma SIZE_div: "x < 2 ^ 64 \<Longrightarrow> SIZE x = 8 * (x div 8)"
proof -
  assume x: "x < 2 ^ 64"
  have "x AND (8 * (2 ^ 61 - 1) + 0) = 8 * (x div 8 AND (2 ^ 61 - 1)) + (x mod 8 AND 0)"
    using and_8 [of "x mod 8" 0 "x div 8" "2 ^ 61 - 1"] by simp
  moreover have "x div 8 < 2 ^ 61" using x by simp
  ultimately show ?thesis using and_mask_61 [of "x div 8"] by (simp add: SIZE_def ALIGNMENT_def)
qed

lemma SIZE_header [simp]: "8 dvd sz \<Longrightarrow> sz < 2 ^ 63 \<Longrightarrow> SIZE (header sz pu u) = sz"
proof -
  assume "8 dvd sz" and sz: "sz < 2 ^ 63"
  then obtain q where q: "sz = 8 * q" by (elim dvdE)
  have "header sz pu u < 2 ^ 64" using sz tag_lt_8 [of pu u] by (simp add: header_def)
  moreover have "header sz pu u div 8 = q" unfolding q header_8 using tag_lt_8 [of pu u] by simp
  ultimately show ?thesis using SIZE_div q by simp
qed

lemma header_and: "t < 8 \<Longrightarrow> header (8 * q) pu u AND t = (2 * of_bool pu + of_bool u) AND t"
  using and_8 [OF tag_lt_8, where d = t and a = q and c = 0] by (simp add: header_8)

lemma header_or: "t < 8 \<Longrightarrow> header (8 * q) pu u OR t = 8 * q + ((2 * of_bool pu + of_bool u) OR t)"
  using or_8 [OF tag_lt_8, where d = t and a = q and c = 0] by (simp add: header_8)

lemma header_tags [simp]:
  assumes "8 dvd sz"
  shows "header sz pu u AND TAG_PRECEDING_USED = 2 * of_bool pu" "header sz pu u AND TAG_USED = of_bool u"
    "header sz pu u OR TAG_PRECEDING_USED = header sz True u" "header sz pu u OR TAG_USED = header sz pu True"
proof -
  obtain q where q: "sz = 8 * q" using assms by (elim dvdE)
  show "header sz pu u AND TAG_PRECEDING_USED = 2 * of_bool pu" unfolding q TAG_PRECEDING_USED_def
    by (subst header_and, simp) (cases pu; cases u; simp)
  show "header sz pu u AND TAG_USED = of_bool u" unfolding q TAG_USED_def
    by (subst header_and, simp) (cases pu; cases u; simp)
  show "header sz pu u OR TAG_PRECEDING_USED = header sz True u" unfolding q TAG_PRECEDING_USED_def
    by (subst header_or, simp) (cases pu; cases u; simp add: header_def)
  show "header sz pu u OR TAG_USED = header sz pu True" unfolding q TAG_USED_def
    by (subst header_or, simp) (cases pu; cases u; simp add: header_def)
qed

lemma header_mask_out [simp]:
  assumes "8 dvd sz" "sz < 2 ^ 63"
  shows "header sz pu u AND mask_out TAG_PRECEDING_USED = header sz False u"
    "header sz pu u AND mask_out TAG_USED = header sz pu False"
proof -
  obtain q where q: "sz = 8 * q" using assms(1) by (elim dvdE)
  then have "q < 2 ^ 61" using assms(2) by simp
  then have m: "q AND (2 ^ 61 - 1) = q" by (rule and_mask_61)
  have "mask_out TAG_PRECEDING_USED = 8 * (2 ^ 61 - 1) + 5" "mask_out TAG_USED = 8 * (2 ^ 61 - 1) + 6"
    by (simp_all add: mask_out_def TAG_PRECEDING_USED_def TAG_USED_def)
  then have "header sz pu u AND mask_out TAG_PRECEDING_USED = 8 * q + ((2 * of_bool pu + of_bool u) AND 5)"
    "header sz pu u AND mask_out TAG_USED = 8 * q + ((2 * of_bool pu + of_bool u) AND 6)"
    unfolding q header_8 using and_8 [OF tag_lt_8, where d = 5 and a = q and c = "2 ^ 61 - 1"] and_8 [OF tag_lt_8, where d = 6 and a = q and c = "2 ^ 61 - 1"] m by simp_all
  then show "header sz pu u AND mask_out TAG_PRECEDING_USED = header sz False u"
    "header sz pu u AND mask_out TAG_USED = header sz pu False"
    by (cases pu; cases u; simp add: q header_def)+
qed

lemma plain_tags:
  assumes "8 dvd sz"
  shows "sz OR TAG_PRECEDING_USED = header sz True False" "sz OR 2 * of_bool pu = header sz pu False"
proof -
  have "sz = header sz False False" by (simp add: header_def)
  then show *: "sz OR TAG_PRECEDING_USED = header sz True False" using header_tags(3) [OF assms, of False False] by simp
  show "sz OR 2 * of_bool pu = header sz pu False"
    using * by (cases pu) (simp_all add: TAG_PRECEDING_USED_def header_def)
qed

lemma add64_small [simp]: "a + b < 2 ^ 64 \<Longrightarrow> add64 a b = a + b"
  by (simp add: add64_def)

lemma sub64_small [simp]: "b \<le> a \<Longrightarrow> a < 2 ^ 64 \<Longrightarrow> sub64 a b = a - b"
proof -
  assume "b \<le> a" "a < 2 ^ 64"
  then have "a + 2 ^ 64 - b = (a - b) + 2 ^ 64" by simp
  then have "sub64 a b = (a - b) mod 2 ^ 64" unfolding sub64_def by (simp only: mod_add_self2)
  then show ?thesis using \<open>a < 2 ^ 64\<close> by simp
qed

end
