(* ===== verification/MmHeap.thy ===== *)
theory MmHeap
  imports Mm
begin

text \<open>
  Correctness of the allocator of uw\_cse351/lab5.

  The heap between \<open>mem_start_brk\<close> and \<open>mem_brk\<close> is seen as a list of blocks, each a size and whether
  it is used, and the free list as the list of the addresses of free blocks.  \<open>seg\<close> says that the
  blocks stand in memory with their headers and boundary tags, \<open>dl\<close> that the addresses are linked
  through \<open>next\<close> and \<open>prev\<close>; the \<open>prev\<close> field of the head is not constrained, as the code never sets
  it.  \<open>mm_inv\<close> puts both together.
\<close>

section \<open>The free list in memory\<close>

fun dl :: "(nat \<Rightarrow> nat) \<Rightarrow> nat option \<Rightarrow> nat \<Rightarrow> nat list \<Rightarrow> nat \<Rightarrow> bool" where
  "dl h pr p [] q = (p = q)"
| "dl h pr p (f # fs) q =
     (p = f \<and> (case pr of None \<Rightarrow> True | Some r \<Rightarrow> h (f + 16) = r) \<and> dl h (Some f) (h (f + 8)) fs q)"

definition dl_prev :: "nat option \<Rightarrow> nat list \<Rightarrow> nat option" where
  "dl_prev pr xs = (if xs = [] then pr else Some (last xs))"

lemma dl_append: "dl h pr p (xs @ ys) q \<longleftrightarrow> (\<exists>r. dl h pr p xs r \<and> dl h (dl_prev pr xs) r ys q)"
  by (induction xs arbitrary: pr p) (auto simp: dl_prev_def)

lemma dl_cong: "(\<And>f. f \<in> set fs \<Longrightarrow> h' (f + 8) = h (f + 8) \<and> h' (f + 16) = h (f + 16)) \<Longrightarrow> dl h pr p fs q \<Longrightarrow> dl h' pr p fs q"
proof (induction fs arbitrary: pr p)
  case (Cons f fs)
  then show ?case by (auto split: option.splits)
qed simp

lemma dl_head: "dl h pr p (f # fs) q \<Longrightarrow> p = f"
  by simp

lemma dl_None: "dl h pr p fs q \<Longrightarrow> dl h None p fs q"
  by (cases fs) auto

text \<open>
  The addresses of the list are at least four words apart and lie above the word that holds the head,
  so that no two of the words \<open>head\<close>, \<open>next\<close> and \<open>prev\<close> are the same.
\<close>

definition spaced :: "nat \<Rightarrow> nat set \<Rightarrow> bool" where
  "spaced lo F \<longleftrightarrow> (\<forall>f \<in> F. lo + 8 \<le> f) \<and> (\<forall>f \<in> F. \<forall>g \<in> F. f < g \<longrightarrow> f + 32 \<le> g)"

definition links :: "nat set \<Rightarrow> nat set" where
  "links F = (\<lambda>f. f + 8) ` F \<union> (\<lambda>f. f + 16) ` F"

lemma spaced_mono: "spaced lo F \<Longrightarrow> G \<subseteq> F \<Longrightarrow> spaced lo G"
  unfolding spaced_def by blast

lemma links_mono: "F \<subseteq> G \<Longrightarrow> links F \<subseteq> links G"
  unfolding links_def by blast

lemma spaced_neq: "spaced lo F \<Longrightarrow> f \<in> F \<Longrightarrow> g \<in> F \<Longrightarrow> f \<noteq> g \<Longrightarrow>
   f + 8 \<noteq> g + 8 \<and> f + 8 \<noteq> g + 16 \<and> f + 16 \<noteq> g + 8 \<and> f + 16 \<noteq> g + 16"
proof -
  assume "spaced lo F" "f \<in> F" "g \<in> F" "f \<noteq> g"
  then have "f + 32 \<le> g \<or> g + 32 \<le> f" unfolding spaced_def by (meson linorder_neqE_nat)
  then show ?thesis by linarith
qed

lemma spaced_lo: "spaced lo F \<Longrightarrow> f \<in> F \<Longrightarrow> lo < f \<and> lo \<noteq> f + 8 \<and> lo \<noteq> f + 16"
  unfolding spaced_def by force

definition linkable :: "mm_state \<Rightarrow> nat set \<Rightarrow> bool" where
  "linkable s F \<longleftrightarrow> valid_word s (mem_start_brk s) \<and> (\<forall>f \<in> F. valid_word s (f + 8) \<and> valid_word s (f + 16))"

lemma wp_rd [wp_simps]: "wp (rd a) Q s \<longleftrightarrow> valid_word s a \<and> Q (cell s a) s"
  by (simp add: wp_def rd_def)

lemma wp_wr [wp_simps]: "wp (wr a v) Q s \<longleftrightarrow> valid_word s a \<and> Q () (s\<lparr>cell := (cell s)(a := v)\<rparr>)"
  by (simp add: wp_def wr_def)

lemma valid_word_cell [simp]: "valid_word (s\<lparr>cell := h\<rparr>) a = valid_word s a"
  by (simp add: valid_word_def)

lemma linkable_cell [simp]: "linkable (s\<lparr>cell := h\<rparr>) F = linkable s F"
  by (simp add: linkable_def)

lemmas field_defs = get_next_def set_next_def get_prev_def set_prev_def

lemma wp_get_head [wp_simps]: "wp get_head Q s \<longleftrightarrow> valid_word s (mem_start_brk s) \<and> Q (cell s (mem_start_brk s)) s"
  by (simp add: wp_def get_head_def rd_def mem_heap_lo_def)

lemma wp_set_head [wp_simps]:
  "wp (set_head p) Q s \<longleftrightarrow> valid_word s (mem_start_brk s) \<and> Q () (s\<lparr>cell := (cell s)(mem_start_brk s := p)\<rparr>)"
  by (simp add: wp_def set_head_def wr_def mem_heap_lo_def)

lemma wp_ex: "wp c (\<lambda>_ t. \<exists>h. t = s\<lparr>cell := h\<rparr> \<and> P h) s \<Longrightarrow> \<exists>r h. c s = Inr (r, s\<lparr>cell := h\<rparr>) \<and> P h"
  by (auto simp: wp_iff)

text \<open>Both operations change nothing but the head and the links of the list.\<close>

definition relinked :: "nat \<Rightarrow> nat set \<Rightarrow> (nat \<Rightarrow> nat) \<Rightarrow> (nat \<Rightarrow> nat) \<Rightarrow> bool" where
  "relinked lo F h h' \<longleftrightarrow> (\<forall>x. x \<noteq> lo \<longrightarrow> x \<notin> links F \<longrightarrow> h' x = h x)"

lemma remove_list:
  assumes sp: "spaced lo (set (xs @ f # ys))" and dist: "distinct (xs @ f # ys)"
    and dl: "dl h None (h lo) (xs @ f # ys) 0"
    and h1: "h1 = (if h (f + 8) \<noteq> 0 then h(h (f + 8) + 16 := h (f + 16)) else h)"
    and h2: "h2 = (if f = h1 lo then h1(lo := h (f + 8)) else if h (f + 16) \<noteq> 0 then h1(h (f + 16) + 8 := h (f + 8)) else h1)"
  shows "dl h2 None (h2 lo) (xs @ ys) 0" and "relinked lo (set (xs @ f # ys)) h h2"
proof -
  let ?n = "h (f + 8)"
  obtain r where xs: "dl h None (h lo) xs f" and pr: "case dl_prev None xs of None \<Rightarrow> True | Some r \<Rightarrow> h (f + 16) = r"
    and ys: "dl h (Some f) ?n ys 0"
    using dl by (auto simp: dl_append)
  have lo: "lo < g" "lo \<noteq> g + 8" "lo \<noteq> g + 16" if "g \<in> set (xs @ f # ys)" for g
    using spaced_lo [OF sp that] by auto
  have neq: "g + 8 \<noteq> k + 8 \<and> g + 8 \<noteq> k + 16 \<and> g + 16 \<noteq> k + 8 \<and> g + 16 \<noteq> k + 16"
    if "g \<in> set (xs @ f # ys)" "k \<in> set (xs @ f # ys)" "g \<noteq> k" for g k
    using spaced_neq [OF sp that] .
  have n: "?n = 0 \<longleftrightarrow> ys = []" using ys lo [of ?n] by (cases ys) auto
  have n_in: "?n \<in> set ys" if "ys \<noteq> []" using ys that by (cases ys) auto
  have h1_lo: "h1 lo = h lo" using h1 n n_in lo by auto
  have h1_xs: "h1 (g + 8) = h (g + 8) \<and> h1 (g + 16) = h (g + 16)" if "g \<in> set xs" for g
  proof -
    have "g \<noteq> ?n" if "ys \<noteq> []" using dist n_in [OF that] \<open>g \<in> set xs\<close> by auto
    then show ?thesis using h1 n n_in neq [of g ?n] that by auto
  qed
  have ys1: "dl h1 (dl_prev None xs) ?n ys 0"
  proof (cases ys)
    case (Cons y ys')
    then have y: "?n = y" "y \<noteq> 0" "dl h (Some y) (h (y + 8)) ys' 0" using ys n by auto
    have "dl h1 (Some y) (h (y + 8)) ys' 0"
      by (rule dl_cong [OF _ y(3)]) (use h1 y neq [of _ y] dist Cons in auto)
    moreover have "h1 (y + 8) = h (y + 8)" "h1 (y + 16) = h (f + 16)" using h1 y by auto
    ultimately show ?thesis using pr Cons y by (auto split: option.splits)
  qed (use ys in simp)
  show "dl h2 None (h2 lo) (xs @ ys) 0"
  proof (cases xs rule: rev_cases)
    case Nil
    then have f: "f = h lo" using xs by simp
    then have "h2 = h1(lo := ?n)" using h2 h1_lo by simp
    moreover have "dl (h1(lo := ?n)) None ?n ys 0"
      by (rule dl_cong [OF _ dl_None [OF ys1]]) (use lo in auto)
    ultimately show ?thesis using Nil by simp
  next
    case (snoc xs' p)
    then have p: "h (f + 16) = p" "p \<noteq> 0" using pr lo [of p] by (auto simp: dl_prev_def)
    have "h lo \<in> set xs" using xs snoc by (cases xs') auto
    then have "f \<noteq> h1 lo" using dist h1_lo by auto
    then have h2': "h2 = h1(p + 8 := ?n)" using h2 p by simp
    have xs': "dl h None (h lo) xs' p" "h (p + 8) = f" "case dl_prev None xs' of None \<Rightarrow> True | Some r \<Rightarrow> h (p + 16) = r"
      using xs snoc by (auto simp: dl_append)
    have "dl h2 None (h lo) xs' p"
      by (rule dl_cong [OF _ xs'(1)]) (use h2' h1_xs neq [of _ p] dist snoc in auto)
    moreover have "h2 (p + 8) = ?n" "h2 (p + 16) = h (p + 16)" using h2' h1_xs [of p] snoc by auto
    ultimately have "dl h2 None (h lo) xs ?n" using xs'(3) snoc by (auto simp: dl_append split: option.splits)
    moreover have "dl h2 (dl_prev None xs) ?n ys 0"
      by (rule dl_cong [OF _ ys1]) (use h2' neq [of _ p] dist snoc in auto)
    moreover have "h2 lo = h lo" using h2' h1_lo lo [of p] snoc by auto
    ultimately show ?thesis by (auto simp: dl_append)
  qed
  have "h (f + 16) \<in> set xs" if "f \<noteq> h1 lo" using pr xs h1_lo that by (cases "xs = []") (auto simp: dl_prev_def)
  then have "h (f + 16) + 8 \<in> links (set (xs @ f # ys))" if "f \<noteq> h1 lo" using that by (auto simp: links_def)
  moreover have "?n + 16 \<in> links (set (xs @ f # ys))" if "?n \<noteq> 0" using that n n_in by (auto simp: links_def)
  ultimately show "relinked lo (set (xs @ f # ys)) h h2"
    unfolding relinked_def h1 h2 by auto
qed

lemma removeFreeBlock_run:
  assumes sp: "spaced (mem_start_brk s) (set fs)" and dist: "distinct fs" and f: "f \<in> set fs"
    and dl: "dl (cell s) None (cell s (mem_start_brk s)) fs 0" and val: "linkable s (set fs)"
  shows "\<exists>h. removeFreeBlock f s = Inr ((), s\<lparr>cell := h\<rparr>) \<and> dl h None (h (mem_start_brk s)) (remove1 f fs) 0
     \<and> relinked (mem_start_brk s) (set fs) (cell s) h"
proof -
  obtain xs ys where fs: "fs = xs @ f # ys" "f \<notin> set xs" using f by (meson split_list_first)
  let ?lo = "mem_start_brk s" and ?h = "cell s"
  define h1 where "h1 = (if ?h (f + 8) \<noteq> 0 then ?h(?h (f + 8) + 16 := ?h (f + 16)) else ?h)"
  define h2 where "h2 = (if f = h1 ?lo then h1(?lo := ?h (f + 8)) else if ?h (f + 16) \<noteq> 0 then h1(?h (f + 16) + 8 := ?h (f + 8)) else h1)"
  note spec = remove_list [OF sp [unfolded fs] dist [unfolded fs] dl [unfolded fs] h1_def h2_def]
  have next_in: "?h (f + 8) \<noteq> 0 \<Longrightarrow> ?h (f + 8) \<in> set fs"
    using dl fs by (cases ys) (auto simp: dl_append)
  have prev_in: "f \<noteq> ?h ?lo \<Longrightarrow> ?h (f + 16) \<in> set fs"
    using dl fs by (cases xs rule: rev_cases) (auto simp: dl_append dl_prev_def)
  have sep: "?lo \<noteq> ?h (f + 8) + 16" if "?h (f + 8) \<noteq> 0" using next_in [OF that] spaced_lo [OF sp] by auto
  then have "h1 ?lo = ?h ?lo" by (auto simp: h1_def)
  then have run: "removeFreeBlock f s = Inr ((), s\<lparr>cell := h2\<rparr>)"
    using val f next_in prev_in sep
    by (auto simp: removeFreeBlock_def bnd_def field_defs rd_def wr_def ret_run get_head_def set_head_def mem_heap_lo_def
        linkable_def h1_def h2_def)
  then show ?thesis using spec fs by (intro exI [of _ h2]) (simp add: remove1_append)
qed

lemma insertFreeBlock_run:
  assumes sp: "spaced (mem_start_brk s) (insert f (set fs))" and f: "f \<notin> set fs" and dist: "distinct fs"
    and dl: "dl (cell s) None (cell s (mem_start_brk s)) fs 0" and val: "linkable s (insert f (set fs))"
  shows "\<exists>h. insertFreeBlock f s = Inr ((), s\<lparr>cell := h\<rparr>) \<and> dl h None (h (mem_start_brk s)) (f # fs) 0
     \<and> relinked (mem_start_brk s) (insert f (set fs)) (cell s) h"
proof -
  let ?lo = "mem_start_brk s" and ?h = "cell s"
  let ?o = "?h ?lo"
  define h1 where "h1 = ?h(f + 8 := ?o)"
  define h2 where "h2 = (if ?o \<noteq> 0 then h1(f + 16 := h1 (?o + 16), ?o + 16 := f) else h1)"
  define h3 where "h3 = h2(?lo := f)"
  have o_in: "?o \<in> set fs" if "?o \<noteq> 0" using dl that by (cases fs) auto
  have lo: "?lo < g" "?lo \<noteq> g + 8" "?lo \<noteq> g + 16" if "g \<in> insert f (set fs)" for g
    using spaced_lo [OF sp that] by auto
  have run: "insertFreeBlock f s = Inr ((), s\<lparr>cell := h3\<rparr>)"
    using val o_in
    by (auto simp: insertFreeBlock_def bnd_def field_defs rd_def wr_def ret_run get_head_def set_head_def mem_heap_lo_def
        linkable_def h1_def h2_def h3_def)
  have neq: "g + 8 \<noteq> f + 8 \<and> g + 8 \<noteq> f + 16 \<and> g + 16 \<noteq> f + 8 \<and> g + 16 \<noteq> f + 16" if "g \<in> set fs" for g
    using spaced_neq [OF sp, of g f] that f by auto
  have "dl h3 (Some f) ?o fs 0"
  proof (cases fs)
    case (Cons g gs)
    then have g: "?o = g" "g \<noteq> 0" "dl ?h (Some g) (?h (g + 8)) gs 0" using dl lo [of g] by auto
    have "dl h3 (Some g) (?h (g + 8)) gs 0"
    proof (rule dl_cong [OF _ g(3)])
      fix k assume k: "k \<in> set gs"
      then have "k \<noteq> g" using dist Cons by auto
      then show "h3 (k + 8) = ?h (k + 8) \<and> h3 (k + 16) = ?h (k + 16)"
        using k Cons neq [of k] spaced_neq [OF sp, of k g] lo [of k] g by (auto simp: h3_def h2_def h1_def)
    qed
    moreover have "h3 (g + 8) = ?h (g + 8)" "h3 (g + 16) = f"
      using Cons neq [of g] lo [of g] g by (auto simp: h3_def h2_def h1_def)
    ultimately show ?thesis using Cons g by simp
  qed (use dl in simp)
  moreover have "h3 (f + 8) = ?o" using lo [of f] neq o_in by (auto simp: h3_def h2_def h1_def)
  moreover have "h3 ?lo = f" by (simp add: h3_def)
  ultimately have "dl h3 None (h3 ?lo) (f # fs) 0" by simp
  moreover have "relinked ?lo (insert f (set fs)) ?h h3"
    using o_in by (auto simp: relinked_def links_def h3_def h2_def h1_def)
  ultimately show ?thesis using run by blast
qed

section \<open>Blocks in memory\<close>

type_synonym blocks = "(nat \<times> bool) list"

abbreviation sizes :: "blocks \<Rightarrow> nat" where
  "sizes bs \<equiv> sum_list (map fst bs)"

definition last_used :: "bool \<Rightarrow> blocks \<Rightarrow> bool" where
  "last_used pu bs = (if bs = [] then pu else snd (last bs))"

text \<open>The end of the heap looks like a used block of size zero.\<close>

definition front :: "blocks \<Rightarrow> nat \<times> bool" where
  "front bs = (case bs of [] \<Rightarrow> (0, True) | b # _ \<Rightarrow> b)"

definition sized :: "blocks \<Rightarrow> bool" where
  "sized bs \<longleftrightarrow> (\<forall>(sz, u) \<in> set bs. 8 dvd sz \<and> 32 \<le> sz)"

fun seg :: "(nat \<Rightarrow> nat) \<Rightarrow> nat \<Rightarrow> bool \<Rightarrow> blocks \<Rightarrow> bool" where
  "seg h a pu [] = True"
| "seg h a pu ((sz, u) # bs) =
     (h a = header sz pu u \<and> (u \<or> SIZE (h (a + sz - 8)) = sz) \<and> seg h (a + sz) u bs)"

fun free_at :: "nat \<Rightarrow> blocks \<Rightarrow> nat set" where
  "free_at a [] = {}"
| "free_at a ((sz, u) # bs) = (if u then {} else {a}) \<union> free_at (a + sz) bs"

fun used_at :: "nat \<Rightarrow> blocks \<Rightarrow> (nat \<times> nat) set" where
  "used_at a [] = {}"
| "used_at a ((sz, u) # bs) = (if u then {(a, sz)} else {}) \<union> used_at (a + sz) bs"

definition payload :: "nat \<Rightarrow> blocks \<Rightarrow> nat set" where
  "payload a bs = (\<Union>(b, sz) \<in> used_at a bs. {b + 8..<b + sz})"

lemma last_used_simps [simp]:
  "last_used pu [] = pu" "last_used pu (bs @ [b]) = snd b" "last_used pu (xs @ b # bs) = last_used (snd b) bs"
  "last_used pu (b # bs) = last_used (snd b) bs"
  by (auto simp: last_used_def)

lemma last_used_append: "last_used pu (xs @ ys) = last_used (last_used pu xs) ys"
  by (auto simp: last_used_def)

lemma front_simps [simp]: "front [] = (0, True)" "front (b # bs) = b"
  by (simp_all add: front_def)

lemma sized_simps [simp]: "sized []" "sized ((sz, u) # bs) \<longleftrightarrow> 8 dvd sz \<and> 32 \<le> sz \<and> sized bs"
  "sized (xs @ ys) \<longleftrightarrow> sized xs \<and> sized ys"
  by (auto simp: sized_def)

lemma sizes_dvd: "sized bs \<Longrightarrow> 8 dvd sizes bs"
  by (induction bs) auto

lemma sizes_length: "sized bs \<Longrightarrow> 32 * length bs \<le> sizes bs"
  by (induction bs) auto

lemma seg_append: "seg h a pu (xs @ ys) \<longleftrightarrow> seg h a pu xs \<and> seg h (a + sizes xs) (last_used pu xs) ys"
  by (induction xs arbitrary: a pu) (auto simp: add.assoc)

lemma free_at_append: "free_at a (xs @ ys) = free_at a xs \<union> free_at (a + sizes xs) ys"
  by (induction xs arbitrary: a) (auto simp: add.assoc)

lemma used_at_append: "used_at a (xs @ ys) = used_at a xs \<union> used_at (a + sizes xs) ys"
  by (induction xs arbitrary: a) (auto simp: add.assoc)

lemma payload_append: "payload a (xs @ ys) = payload a xs \<union> payload (a + sizes xs) ys"
  by (simp add: payload_def used_at_append)

lemma payload_Cons: "payload a ((sz, u) # bs) = (if u then {a + 8..<a + sz} else {}) \<union> payload (a + sz) bs"
  by (auto simp: payload_def)

lemma payload_Nil [simp]: "payload a [] = {}"
  by (simp add: payload_def)

lemma free_at_bounds: "sized bs \<Longrightarrow> f \<in> free_at a bs \<Longrightarrow> a \<le> f \<and> f + 32 \<le> a + sizes bs"
proof (induction bs arbitrary: a)
  case (Cons b bs)
  obtain sz u where b: "b = (sz, u)" by (cases b)
  then show ?case using Cons.IH [of "a + sz"] Cons.prems by (auto split: if_splits)
qed simp

lemma free_at_dvd: "sized bs \<Longrightarrow> 8 dvd a \<Longrightarrow> f \<in> free_at a bs \<Longrightarrow> 8 dvd f"
proof (induction bs arbitrary: a)
  case (Cons b bs)
  obtain sz u where b: "b = (sz, u)" by (cases b)
  then show ?case using Cons.IH [of "a + sz"] Cons.prems by (auto split: if_splits)
qed simp

lemma free_at_spaced: "sized bs \<Longrightarrow> f \<in> free_at a bs \<Longrightarrow> g \<in> free_at a bs \<Longrightarrow> f < g \<Longrightarrow> f + 32 \<le> g"
proof (induction bs arbitrary: a)
  case (Cons b bs)
  obtain sz u where b: "b = (sz, u)" by (cases b)
  have "a + sz \<le> k" if "k \<in> free_at (a + sz) bs" for k using free_at_bounds [OF _ that] Cons.prems b by simp
  then show ?case using Cons b by (fastforce split: if_splits)
qed simp

lemma payload_bounds: "sized bs \<Longrightarrow> x \<in> payload a bs \<Longrightarrow> a + 8 \<le> x \<and> x < a + sizes bs"
proof (induction bs arbitrary: a)
  case (Cons b bs)
  obtain sz u where b: "b = (sz, u)" by (cases b)
  then show ?case using Cons.IH [of "a + sz"] Cons.prems by (auto simp: payload_Cons split: if_splits)
qed simp

lemma payload_links: "sized bs \<Longrightarrow> x \<in> payload a bs \<Longrightarrow> x \<notin> links (free_at a bs)"
proof (induction bs arbitrary: a)
  case (Cons b bs)
  obtain sz u where b: "b = (sz, u)" by (cases b)
  have sz: "32 \<le> sz" "sized bs" using Cons.prems b by auto
  have far: "a + sz + 8 \<le> y" if "y \<in> links (free_at (a + sz) bs)" for y
    using that free_at_bounds [OF sz(2)] by (fastforce simp: links_def)
  show ?case
  proof (cases "x \<in> payload (a + sz) bs")
    case True
    then have "x \<notin> links (free_at (a + sz) bs)" "a + sz + 8 \<le> x"
      using Cons.IH payload_bounds sz by auto
    then show ?thesis using b sz by (auto simp: links_def)
  next
    case False
    then have "u" "x < a + sz" using Cons.prems b by (auto simp: payload_Cons split: if_splits)
    then show ?thesis using b far [of x] by auto
  qed
qed simp

text \<open>Whatever is written into the links of the free blocks, the blocks stay as they are.\<close>

lemma seg_frame: "sized bs \<Longrightarrow> seg h a pu bs \<Longrightarrow>
  (\<And>x. a \<le> x \<Longrightarrow> x < a + sizes bs \<Longrightarrow> x \<notin> links (free_at a bs) \<Longrightarrow> h' x = h x) \<Longrightarrow> seg h' a pu bs"
proof (induction bs arbitrary: a pu)
  case (Cons b bs)
  obtain sz u where b: "b = (sz, u)" by (cases b)
  have sz: "32 \<le> sz" "sized bs" using Cons.prems b by auto
  have far: "a + sz + 8 \<le> y" if "y \<in> links (free_at (a + sz) bs)" for y
    using that free_at_bounds [OF sz(2)] by (fastforce simp: links_def)
  have links: "y \<in> links (free_at a (b # bs)) \<longleftrightarrow> (\<not> u \<and> (y = a + 8 \<or> y = a + 16)) \<or> y \<in> links (free_at (a + sz) bs)" for y
    using b by (auto simp: links_def)
  have "h' a = h a" using Cons.prems(3) [of a] far [of a] sz b unfolding links by auto
  moreover have "h' (a + sz - 8) = h (a + sz - 8)"
  proof (rule Cons.prems(3))
    have "a + sz - 8 \<noteq> a + 8" "a + sz - 8 \<noteq> a + 16" using sz by linarith+
    then show "a + sz - 8 \<notin> links (free_at a (b # bs))" using far [of "a + sz - 8"] sz unfolding links by auto
  qed (use sz b in auto)
  moreover have "seg h' (a + sz) u bs"
  proof (rule Cons.IH [OF sz(2)])
    show "seg h (a + sz) u bs" using Cons.prems(2) b by simp
    fix x assume x: "a + sz \<le> x" "x < a + sz + sizes bs" "x \<notin> links (free_at (a + sz) bs)"
    then show "h' x = h x" using Cons.prems(3) [of x] sz b unfolding links by auto
  qed
  ultimately show ?case using Cons.prems(2) b by simp
qed simp

section \<open>The invariant\<close>

text \<open>
  \<open>mm_loose\<close>: the blocks are laid out and the free list links some of the free blocks; \<open>mm_inv\<close>: it
  links all of them.  User space addresses are far below \<open>2 ^ 63\<close>.
\<close>

definition mm_loose :: "mm_state \<Rightarrow> blocks \<Rightarrow> nat list \<Rightarrow> bool" where
  "mm_loose s bs fs \<longleftrightarrow>
     8 dvd mem_start_brk s \<and> 0 < mem_start_brk s \<and> sized bs \<and>
     mem_brk s = mem_start_brk s + 16 + sizes bs \<and> mem_brk s \<le> mem_max_addr s \<and> mem_max_addr s < 2 ^ 63 \<and>
     seg (cell s) (mem_start_brk s + 8) True bs \<and>
     cell s (mem_start_brk s + 8 + sizes bs) = header 0 (last_used True bs) True \<and>
     dl (cell s) None (cell s (mem_start_brk s)) fs 0 \<and> distinct fs \<and>
     set fs \<subseteq> free_at (mem_start_brk s + 8) bs"

definition mm_inv :: "mm_state \<Rightarrow> blocks \<Rightarrow> nat list \<Rightarrow> bool" where
  "mm_inv s bs fs \<longleftrightarrow> mm_loose s bs fs \<and> set fs = free_at (mem_start_brk s + 8) bs"

abbreviation block0 :: "mm_state \<Rightarrow> nat" where
  "block0 s \<equiv> mem_start_brk s + 8"

lemma mm_looseD:
  assumes "mm_loose s bs fs"
  shows "8 dvd mem_start_brk s" "0 < mem_start_brk s" "sized bs" "mem_brk s = mem_start_brk s + 16 + sizes bs"
    "mem_brk s < 2 ^ 63" "seg (cell s) (block0 s) True bs"
    "cell s (block0 s + sizes bs) = header 0 (last_used True bs) True"
    "dl (cell s) None (cell s (mem_start_brk s)) fs 0" "distinct fs" "set fs \<subseteq> free_at (block0 s) bs"
    "mem_brk s \<le> mem_max_addr s" "mem_max_addr s < 2 ^ 63"
  using assms unfolding mm_loose_def by auto

lemma mm_inv_loose: "mm_inv s bs fs \<Longrightarrow> mm_loose s bs fs"
  by (simp add: mm_inv_def)

lemma mm_inv_free: "mm_inv s bs fs \<Longrightarrow> set fs = free_at (block0 s) bs"
  by (simp add: mm_inv_def)

lemma loose_spaced: "mm_loose s bs fs \<Longrightarrow> spaced (mem_start_brk s) (free_at (block0 s) bs)"
  unfolding spaced_def using free_at_bounds free_at_spaced mm_looseD(3) by blast

lemma loose_valid:
  assumes "mm_loose s bs fs" and "8 dvd x" and "mem_start_brk s \<le> x" and "x \<le> block0 s + sizes bs"
  shows "valid_word s x"
  using mm_looseD(4) [OF assms(1)] assms by (simp add: valid_word_def dvd_imp_mod_0)

lemma loose_linkable: "mm_loose s bs fs \<Longrightarrow> linkable s (free_at (block0 s) bs)"
proof -
  assume l: "mm_loose s bs fs"
  note D = mm_looseD [OF l]
  have "valid_word s (f + 8) \<and> valid_word s (f + 16)" if f: "f \<in> free_at (block0 s) bs" for f
  proof -
    have "8 dvd f" using free_at_dvd [OF D(3) _ f] D(1) by simp
    then have "8 dvd f + 8" "8 dvd f + 16" by simp_all
    then show ?thesis using free_at_bounds [OF D(3) f] loose_valid [OF l] by auto
  qed
  moreover have "valid_word s (mem_start_brk s)" using loose_valid [OF l D(1)] by simp
  ultimately show ?thesis by (simp add: linkable_def)
qed

lemma linkable_mono: "linkable s F \<Longrightarrow> G \<subseteq> F \<Longrightarrow> linkable s G"
  unfolding linkable_def by blast

lemma relinked_mono: "relinked lo F h h' \<Longrightarrow> F \<subseteq> G \<Longrightarrow> relinked lo G h h'"
  unfolding relinked_def using links_mono by blast

lemma relinked_trans: "relinked lo F h h' \<Longrightarrow> relinked lo F h' h'' \<Longrightarrow> relinked lo F h h''"
  unfolding relinked_def by simp

lemma relinked_refl: "relinked lo F h h"
  unfolding relinked_def by simp

text \<open>After relinking, the blocks and the payload of the used ones are as before.\<close>

lemma loose_relink:
  assumes l: "mm_loose s bs fs" and r: "relinked (mem_start_brk s) (free_at (block0 s) bs) (cell s) h"
    and dl: "dl h None (h (mem_start_brk s)) fs' 0" "distinct fs'" "set fs' \<subseteq> free_at (block0 s) bs"
  shows "mm_loose (s\<lparr>cell := h\<rparr>) bs fs'"
proof -
  note D = mm_looseD [OF l]
  have same: "h x = cell s x" if "mem_start_brk s < x" "x \<notin> links (free_at (block0 s) bs)" for x
    using r that by (simp add: relinked_def)
  have "seg h (block0 s) True bs" by (rule seg_frame [OF D(3) D(6)]) (simp add: same)
  moreover have "block0 s + sizes bs \<notin> links (free_at (block0 s) bs)"
    using free_at_bounds [OF D(3)] by (fastforce simp: links_def)
  ultimately show ?thesis using l dl by (simp add: mm_loose_def same)
qed

lemma relinked_payload:
  assumes "mm_loose s bs fs" and "relinked (mem_start_brk s) (free_at (block0 s) bs) (cell s) h" and "x \<in> payload (block0 s) bs"
  shows "h x = cell s x"
proof -
  note sz = mm_looseD(3) [OF assms(1)]
  have "x \<notin> links (free_at (block0 s) bs)" "mem_start_brk s < x"
    using payload_links [OF sz assms(3)] payload_bounds [OF sz assms(3)] by simp_all
  then show ?thesis using assms(2) by (simp add: relinked_def)
qed

lemma remove_loose:
  assumes l: "mm_loose s bs fs" and f: "f \<in> set fs"
  shows "\<exists>h. removeFreeBlock f s = Inr ((), s\<lparr>cell := h\<rparr>) \<and> mm_loose (s\<lparr>cell := h\<rparr>) bs (remove1 f fs)
     \<and> relinked (mem_start_brk s) (free_at (block0 s) bs) (cell s) h"
proof -
  note D = mm_looseD [OF l]
  obtain h where h: "removeFreeBlock f s = Inr ((), s\<lparr>cell := h\<rparr>)" "dl h None (h (mem_start_brk s)) (remove1 f fs) 0"
    "relinked (mem_start_brk s) (set fs) (cell s) h"
    using removeFreeBlock_run [OF spaced_mono [OF loose_spaced [OF l] D(10)] D(9) f D(8) linkable_mono [OF loose_linkable [OF l] D(10)]]
    by blast
  have r: "relinked (mem_start_brk s) (free_at (block0 s) bs) (cell s) h" using relinked_mono [OF h(3) D(10)] .
  have "mm_loose (s\<lparr>cell := h\<rparr>) bs (remove1 f fs)"
    by (rule loose_relink [OF l r h(2)]) (use D(9,10) set_remove1_subset in auto)
  then show ?thesis using h(1) r by blast
qed

lemma insert_loose:
  assumes l: "mm_loose s bs fs" and f: "f \<in> free_at (block0 s) bs" "f \<notin> set fs"
  shows "\<exists>h. insertFreeBlock f s = Inr ((), s\<lparr>cell := h\<rparr>) \<and> mm_loose (s\<lparr>cell := h\<rparr>) bs (f # fs)
     \<and> relinked (mem_start_brk s) (free_at (block0 s) bs) (cell s) h"
proof -
  note D = mm_looseD [OF l]
  have F: "insert f (set fs) \<subseteq> free_at (block0 s) bs" using f D(10) by auto
  obtain h where h: "insertFreeBlock f s = Inr ((), s\<lparr>cell := h\<rparr>)" "dl h None (h (mem_start_brk s)) (f # fs) 0"
    "relinked (mem_start_brk s) (insert f (set fs)) (cell s) h"
    using insertFreeBlock_run [OF spaced_mono [OF loose_spaced [OF l] F] f(2) D(9) D(8) linkable_mono [OF loose_linkable [OF l] F]]
    by blast
  have r: "relinked (mem_start_brk s) (free_at (block0 s) bs) (cell s) h" using relinked_mono [OF h(3) F] .
  have "mm_loose (s\<lparr>cell := h\<rparr>) bs (f # fs)"
    by (rule loose_relink [OF l r h(2)]) (use D(9) F f in auto)
  then show ?thesis using h(1) r by blast
qed

text \<open>Reading the header at a block boundary, the end of the heap included.\<close>

lemma header_at:
  assumes "mm_loose s (xs @ ys) fs"
  shows "rd (block0 s + sizes xs) s = Inr (header (fst (front ys)) (last_used True xs) (snd (front ys)), s)"
    and "8 dvd fst (front ys)" and "fst (front ys) < 2 ^ 63"
proof -
  note D = mm_looseD [OF assms]
  have "valid_word s (block0 s + sizes xs)"
    by (rule loose_valid [OF assms]) (use D sizes_dvd [of xs] in auto)
  moreover have "cell s (block0 s + sizes xs) = header (fst (front ys)) (last_used True xs) (snd (front ys))"
    using D(6,7) by (cases ys) (auto simp: seg_append)
  ultimately show "rd (block0 s + sizes xs) s = Inr (header (fst (front ys)) (last_used True xs) (snd (front ys)), s)"
    by (simp add: rd_def)
  show "8 dvd fst (front ys)" "fst (front ys) < 2 ^ 63" using D(3,4,5) by (cases ys; auto)+
qed

section \<open>Coalescing\<close>

lemma pointer_small:
  "a + b < 2 ^ 64 \<Longrightarrow> POINTER_ADD a b = a + b" "b \<le> a \<Longrightarrow> a < 2 ^ 64 \<Longrightarrow> POINTER_SUB a b = a - b"
  by (simp_all add: POINTER_ADD_def POINTER_SUB_def)

lemma coalesce_following_run:
  "mm_loose s (pre @ R @ post) fs \<Longrightarrow> (\<forall>b \<in> set R. \<not> snd b) \<Longrightarrow> snd (front post) \<Longrightarrow> length R < k \<Longrightarrow>
   free_at (block0 s + sizes pre) R \<subseteq> set fs \<Longrightarrow> n + sizes R < 2 ^ 64 \<Longrightarrow>
   \<exists>h fs'. coalesce_following k (block0 s + sizes pre) n s =
       Inr ((block0 s + sizes pre + sizes R, n + sizes R), s\<lparr>cell := h\<rparr>)
     \<and> mm_loose (s\<lparr>cell := h\<rparr>) (pre @ R @ post) fs' \<and> set fs' = set fs - free_at (block0 s + sizes pre) R
     \<and> relinked (mem_start_brk s) (free_at (block0 s) (pre @ R @ post)) (cell s) h"
proof (induction R arbitrary: pre s fs n k)
  case Nil
  then obtain k' where "k = Suc k'" by (cases k) auto
  then have "coalesce_following k (block0 s + sizes pre) n s = Inr ((block0 s + sizes pre, n), s\<lparr>cell := cell s\<rparr>)"
    using header_at [of s pre post fs] Nil by (simp add: bnd_def ret_run)
  then show ?case using Nil relinked_refl [of "mem_start_brk s"]
    by (intro exI [of _ "cell s"] exI [of _ fs]) simp
next
  case (Cons b R)
  obtain z where b: "b = (z, False)" using Cons.prems(2) by (cases b) auto
  obtain k' where k: "k = Suc k'" using Cons.prems(4) by (cases k) auto
  let ?c = "block0 s + sizes pre"
  have l: "mm_loose s (pre @ (z, False) # R @ post) fs" using Cons.prems(1) b by simp
  note D = mm_looseD [OF l]
  have rd: "rd ?c s = Inr (header z (last_used True pre) False, s)" and z: "8 dvd z" "z < 2 ^ 63"
    using header_at [OF l] by simp_all
  have "?c \<in> set fs" using Cons.prems(5) b by simp
  then obtain h1 where h1: "removeFreeBlock ?c s = Inr ((), s\<lparr>cell := h1\<rparr>)" "mm_loose (s\<lparr>cell := h1\<rparr>) (pre @ b # R @ post) (remove1 ?c fs)"
    "relinked (mem_start_brk s) (free_at (block0 s) (pre @ b # R @ post)) (cell s) h1"
    using remove_loose [OF l] b by auto
  define s1 where "s1 = s\<lparr>cell := h1\<rparr>"
  have c: "block0 s1 + sizes (pre @ [b]) = ?c + z" by (simp add: s1_def b)
  have fin: "free_at (?c + z) R \<subseteq> set (remove1 ?c fs)"
  proof
    fix f assume f: "f \<in> free_at (?c + z) R"
    then have "?c + z \<le> f" using free_at_bounds [OF _ f] D(3) by simp
    moreover have "32 \<le> z" using D(3) by simp
    moreover have "f \<in> set fs" using f Cons.prems(5) b by auto
    ultimately show "f \<in> set (remove1 ?c fs)" using D(9) by auto
  qed
  obtain h fs' where h: "coalesce_following k' (?c + z) (n + z) s1 = Inr ((?c + z + sizes R, n + z + sizes R), s1\<lparr>cell := h\<rparr>)"
    "mm_loose (s1\<lparr>cell := h\<rparr>) (pre @ b # R @ post) fs'" "set fs' = set (remove1 ?c fs) - free_at (?c + z) R"
    "relinked (mem_start_brk s) (free_at (block0 s) (pre @ b # R @ post)) h1 h"
    using Cons.IH [of s1 "pre @ [b]" "remove1 ?c fs" k' "n + z"] Cons.prems(2,3,4,6) h1(2) fin k
    unfolding c by (auto simp: s1_def b)
  have "POINTER_ADD ?c z = ?c + z" using D(4,5) by (intro pointer_small) auto
  moreover have "add64 n z = n + z" using Cons.prems(6) b by simp
  ultimately have "coalesce_following k ?c n s = Inr ((?c + sizes (b # R), n + sizes (b # R)), s\<lparr>cell := h\<rparr>)"
    using rd z h1(1) h(1) k b by (simp add: bnd_def s1_def Let_def add.assoc)
  moreover have "set fs' = set fs - free_at ?c (b # R)" using h(3) D(9) b by auto
  moreover have "relinked (mem_start_brk s) (free_at (block0 s) (pre @ (b # R) @ post)) (cell s) h"
    using relinked_trans [OF h1(3) h(4)] by simp
  ultimately show ?case using h(2) by (intro exI [of _ h] exI [of _ fs']) (simp add: s1_def)
qed

lemma coalesce_preceding_run:
  "mm_loose s (pre @ L @ rest) fs \<Longrightarrow> (\<forall>b \<in> set L. \<not> snd b) \<Longrightarrow> last_used True pre \<Longrightarrow> length L < k \<Longrightarrow>
   free_at (block0 s + sizes pre) L \<subseteq> set fs \<Longrightarrow> n + sizes L < 2 ^ 64 \<Longrightarrow>
   \<exists>h fs'. coalesce_preceding k (block0 s + sizes (pre @ L)) n s =
       Inr ((block0 s + sizes pre, n + sizes L), s\<lparr>cell := h\<rparr>)
     \<and> mm_loose (s\<lparr>cell := h\<rparr>) (pre @ L @ rest) fs' \<and> set fs' = set fs - free_at (block0 s + sizes pre) L
     \<and> relinked (mem_start_brk s) (free_at (block0 s) (pre @ L @ rest)) (cell s) h"
proof (induction L arbitrary: rest s fs n k rule: rev_induct)
  case Nil
  then obtain k' where "k = Suc k'" by (cases k) auto
  then have "coalesce_preceding k (block0 s + sizes pre) n s = Inr ((block0 s + sizes pre, n), s\<lparr>cell := cell s\<rparr>)"
    using header_at [of s pre rest fs] Nil by (simp add: bnd_def ret_run)
  then show ?case using Nil relinked_refl [of "mem_start_brk s"]
    by (intro exI [of _ "cell s"] exI [of _ fs]) simp
next
  case (snoc b L)
  obtain z where b: "b = (z, False)" using snoc.prems(2) by (cases b) auto
  obtain k' where k: "k = Suc k'" using snoc.prems(4) by (cases k) auto
  let ?f = "block0 s + sizes (pre @ L)"
  let ?c = "?f + z"
  have l: "mm_loose s ((pre @ L @ [b]) @ rest) fs" using snoc.prems(1) by simp
  note D = mm_looseD [OF l]
  have z: "8 dvd z" "32 \<le> z" "z < 2 ^ 63" using D(3,4,5) b by auto
  have rd: "rd ?c s = Inr (header (fst (front rest)) False (snd (front rest)), s)" "8 dvd fst (front rest)"
    using header_at [OF l] b by (simp_all add: last_used_append add.assoc)
  have bd: "POINTER_SUB ?c WORD_SIZE = ?c - 8" "POINTER_SUB ?c z = ?f"
    using D(4,5) z b pointer_small(2) [of 8 ?c] pointer_small(2) [of z ?c] by (simp_all add: WORD_SIZE_def)
  have "valid_word s (?c - 8)"
  proof (rule loose_valid [OF l])
    show "8 dvd ?c - 8" using D(1,3) z sizes_dvd [of pre] sizes_dvd [of L] by auto
  qed (use z b in auto)
  then have tag: "\<exists>t. rd (?c - 8) s = Inr (t, s) \<and> SIZE t = z"
    using D(6) b by (simp add: seg_append rd_def add.assoc)
  have "?f \<in> set fs" using snoc.prems(5) b by (simp add: free_at_append add.assoc)
  then obtain h1 where h1: "removeFreeBlock ?f s = Inr ((), s\<lparr>cell := h1\<rparr>)" "mm_loose (s\<lparr>cell := h1\<rparr>) (pre @ L @ b # rest) (remove1 ?f fs)"
    "relinked (mem_start_brk s) (free_at (block0 s) (pre @ L @ b # rest)) (cell s) h1"
    using remove_loose [OF l] by auto
  define s1 where "s1 = s\<lparr>cell := h1\<rparr>"
  have fin: "free_at (block0 s + sizes pre) L \<subseteq> set (remove1 ?f fs)"
  proof
    fix f assume f: "f \<in> free_at (block0 s + sizes pre) L"
    then have "f + 32 \<le> ?f" using free_at_bounds [OF _ f] D(3) by (simp add: add.assoc)
    moreover have "f \<in> set fs" using f snoc.prems(5) b by (auto simp: free_at_append)
    ultimately show "f \<in> set (remove1 ?f fs)" using D(9) by auto
  qed
  obtain h fs' where h: "coalesce_preceding k' ?f (n + z) s1 = Inr ((block0 s + sizes pre, n + z + sizes L), s1\<lparr>cell := h\<rparr>)"
    "mm_loose (s1\<lparr>cell := h\<rparr>) (pre @ L @ b # rest) fs'" "set fs' = set (remove1 ?f fs) - free_at (block0 s + sizes pre) L"
    "relinked (mem_start_brk s) (free_at (block0 s) (pre @ L @ b # rest)) h1 h"
    using snoc.IH [of s1 "b # rest" "remove1 ?f fs" k' "n + z"] snoc.prems(2,3,4,6) h1(2) fin k
    by (auto simp: s1_def b)
  have "add64 n z = n + z" using snoc.prems(6) b by simp
  then have "coalesce_preceding k ?c n s = Inr ((block0 s + sizes pre, n + sizes (L @ [b])), s\<lparr>cell := h\<rparr>)"
    using rd tag bd h1(1) h(1) k b by (auto simp: bnd_def s1_def Let_def add_ac)
  moreover have "set fs' = set fs - free_at (block0 s + sizes pre) (L @ [b])"
    using h(3) D(9) b by (auto simp: free_at_append add.assoc)
  moreover have "relinked (mem_start_brk s) (free_at (block0 s) (pre @ (L @ [b]) @ rest)) (cell s) h"
    using relinked_trans [OF h1(3) h(4)] by simp
  moreover have "block0 s + sizes (pre @ L @ [b]) = ?c" using b by simp
  ultimately show ?case using h(2) by (intro exI [of _ h] exI [of _ fs']) (simp add: s1_def add.assoc)
qed

text \<open>
  Rewriting a stretch of blocks: the words outside it stay, except the header of the block that
  follows, which may change its tag for the preceding block.
\<close>

lemma seg_new_tag:
  assumes "sized bs" and "seg h a pu bs" and "h' a = header (fst (front bs)) pu' (snd (front bs))"
    and "\<And>x. a < x \<Longrightarrow> h' x = h x"
  shows "seg h' a pu' bs"
proof (cases bs)
  case (Cons b bs')
  obtain sz u where b: "b = (sz, u)" by (cases b)
  have sz: "32 \<le> sz" "sized bs'" using assms(1) Cons b by auto
  have "seg h' (a + sz) u bs'"
    by (rule seg_frame [OF sz(2)]) (use assms sz Cons b in auto)
  then show ?thesis using assms sz Cons b by auto
qed simp

lemma replace_blocks:
  assumes l: "mm_loose s (pre @ M @ post) fs" and M': "sized M'" "sizes M' = sizes M"
    and fs: "set fs \<subseteq> free_at (block0 s) pre \<union> free_at (block0 s + sizes pre + sizes M) post"
    and out: "\<And>x. x < block0 s + sizes pre \<Longrightarrow> h x = cell s x" "\<And>x. block0 s + sizes pre + sizes M < x \<Longrightarrow> h x = cell s x"
    and seg: "seg h (block0 s + sizes pre) (last_used True pre) M'"
    and tag: "h (block0 s + sizes pre + sizes M) = header (fst (front post)) (last_used True (pre @ M')) (snd (front post))"
  shows "mm_loose (s\<lparr>cell := h\<rparr>) (pre @ M' @ post) fs"
    and "x \<in> payload (block0 s) pre \<union> payload (block0 s + sizes pre + sizes M) post \<Longrightarrow> h x = cell s x"
proof -
  note D = mm_looseD [OF l]
  let ?A = "block0 s + sizes pre" and ?E = "block0 s + sizes pre + sizes M"
  have sz: "sized pre" "sized post" using D(3) by auto
  have segs: "seg (cell s) (block0 s) True pre" "seg (cell s) ?E (last_used True (pre @ M)) post"
    using D(6) by (auto simp: seg_append last_used_append add.assoc)
  have "seg h (block0 s) True pre" by (rule seg_frame [OF sz(1) segs(1)]) (simp add: out)
  moreover have "seg h ?E (last_used True (pre @ M')) post" by (rule seg_new_tag [OF sz(2) segs(2) tag out(2)])
  ultimately have "seg h (block0 s) True (pre @ M' @ post)"
    using seg M'(2) by (simp add: seg_append last_used_append add.assoc)
  moreover have "h (block0 s + sizes (pre @ M' @ post)) = header 0 (last_used True (pre @ M' @ post)) True"
  proof (cases post)
    case Nil
    then show ?thesis using tag M'(2) by (simp add: add.assoc)
  next
    case (Cons b post')
    then have "0 < sizes post" using sz(2) by (cases b) auto
    then show ?thesis using D(7) out(2) [of "?E + sizes post"] M'(2) Cons by (simp add: last_used_append add.assoc)
  qed
  moreover have "dl h None (h (mem_start_brk s)) fs 0"
  proof -
    have "h (f + 8) = cell s (f + 8) \<and> h (f + 16) = cell s (f + 16)" if "f \<in> set fs" for f
    proof -
      have "f + 32 \<le> ?A \<or> ?E \<le> f" using that fs free_at_bounds [OF sz(1)] free_at_bounds [OF sz(2)] by blast
      then show ?thesis using out by auto
    qed
    then show ?thesis using dl_cong [OF _ D(8)] out(1) [of "mem_start_brk s"] by simp
  qed
  moreover have "free_at (block0 s) pre \<union> free_at ?E post \<subseteq> free_at (block0 s) (pre @ M' @ post)"
    using M'(2) by (auto simp: free_at_append add.assoc)
  moreover from this have "set fs \<subseteq> free_at (block0 s) (pre @ M' @ post)" using fs by (rule order_trans [rotated])
  ultimately show "mm_loose (s\<lparr>cell := h\<rparr>) (pre @ M' @ post) fs"
    using l M' by (simp add: mm_loose_def)
  assume "x \<in> payload (block0 s) pre \<union> payload ?E post"
  then have "x < ?A \<or> ?E < x" using payload_bounds [OF sz(1)] payload_bounds [OF sz(2)] by fastforce
  then show "h x = cell s x" using out by blast
qed

lemma words_enough: "mm_loose s bs fs \<Longrightarrow> length bs \<le> heap_words s"
proof -
  assume l: "mm_loose s bs fs"
  note D = mm_looseD [OF l]
  have "32 * length bs \<le> sizes bs" by (rule sizes_length [OF D(3)])
  then show ?thesis using D(4) by (simp add: heap_words_def)
qed

lemma heap_words_cell [simp]: "heap_words (s\<lparr>cell := h\<rparr>) = heap_words s"
  by (simp add: heap_words_def)

lemma free_at_all_free: "\<forall>b \<in> set L. \<not> snd b \<Longrightarrow> payload a L = {}"
proof (induction L arbitrary: a)
  case (Cons b L)
  then show ?case by (cases b) (simp add: payload_Cons)
qed simp

lemma coalesceFreeBlock_run:
  assumes inv: "mm_inv s (pre @ L @ (old, False) # R @ post) fs"
    and L: "\<forall>b \<in> set L. \<not> snd b" and R: "\<forall>b \<in> set R. \<not> snd b"
    and pre: "last_used True pre" and post: "snd (front post)"
  shows "\<exists>h fs'. coalesceFreeBlock (block0 s + sizes (pre @ L)) s = Inr ((), s\<lparr>cell := h\<rparr>)
     \<and> mm_inv (s\<lparr>cell := h\<rparr>) (pre @ (sizes L + old + sizes R, False) # post) fs'
     \<and> (\<forall>x \<in> payload (block0 s) (pre @ L @ (old, False) # R @ post). h x = cell s x)"
proof -
  let ?bs = "pre @ L @ (old, False) # R @ post"
  let ?A = "block0 s + sizes pre" and ?O = "block0 s + sizes (pre @ L)"
  let ?N = "sizes L + old + sizes R"
  let ?E = "?A + ?N"
  have l: "mm_loose s ?bs fs" using mm_inv_loose [OF inv] .
  note D = mm_looseD [OF l]
  have sz: "sized pre" "sized L" "sized R" "sized post" "8 dvd old" "32 \<le> old" using D(3) by auto
  have bnd: "?E \<le> mem_brk s" "mem_brk s < 2 ^ 63" using D(4,5) by auto
  have free: "set fs = free_at (block0 s) pre \<union> free_at ?A L \<union> {?O} \<union> free_at (?O + old) R \<union> free_at ?E post"
    using mm_inv_free [OF inv] by (auto simp: free_at_append add.assoc)
  have rd: "rd ?O s = Inr (header old (last_used True (pre @ L)) False, s)" "old < 2 ^ 63"
    using header_at [of s "pre @ L" "(old, False) # R @ post" fs] l by simp_all
  have w: "length ?bs \<le> heap_words s" using words_enough [OF l] .
  obtain h1 fs1 where c1: "coalesce_preceding (Suc (heap_words s)) ?O old s = Inr ((?A, old + sizes L), s\<lparr>cell := h1\<rparr>)"
    "mm_loose (s\<lparr>cell := h1\<rparr>) ?bs fs1" "set fs1 = set fs - free_at ?A L"
    "relinked (mem_start_brk s) (free_at (block0 s) ?bs) (cell s) h1"
    using coalesce_preceding_run [OF l L pre, of "Suc (heap_words s)" old] w bnd free by auto
  define s1 where "s1 = s\<lparr>cell := h1\<rparr>"
  have R_in: "free_at (?O + old) R \<subseteq> set fs1"
  proof
    fix f assume f: "f \<in> free_at (?O + old) R"
    have "g + 32 \<le> ?O" if "g \<in> free_at ?A L" for g using free_at_bounds [OF sz(2) that] by (simp add: add.assoc)
    then have "f \<notin> free_at ?A L" using free_at_bounds [OF sz(3) f] sz(6) by fastforce
    then show "f \<in> set fs1" using c1(3) free f by auto
  qed
  have "mm_loose s1 ((pre @ L @ [(old, False)]) @ R @ post) fs1" using c1(2) by (simp add: s1_def)
  from coalesce_following_run [OF this R post, of "Suc (heap_words s)" "old + sizes L"] w bnd R_in
  obtain h2 fs2 where c2: "coalesce_following (Suc (heap_words s)) (?O + old) (old + sizes L) s1 =
      Inr ((?E, old + sizes L + sizes R), s1\<lparr>cell := h2\<rparr>)"
    "mm_loose (s1\<lparr>cell := h2\<rparr>) ?bs fs2" "set fs2 = set fs1 - free_at (?O + old) R"
    "relinked (mem_start_brk s) (free_at (block0 s) ?bs) h1 h2"
    by (auto simp: s1_def add_ac)
  define s2 where "s2 = s\<lparr>cell := h2\<rparr>"
  have l2: "mm_loose s2 ?bs fs2" using c2(2) by (simp add: s1_def s2_def)
  have r2: "relinked (mem_start_brk s) (free_at (block0 s) ?bs) (cell s) h2" using relinked_trans [OF c1(4) c2(4)] .
  have PA: "POINTER_ADD ?O old = ?O + old" using bnd by (intro pointer_small) auto
  have S: "SIZE (header old (last_used True (pre @ L)) False) = old" using rd(2) sz(5) by simp
  have c2': "coalesce_following (Suc (heap_words s)) (?O + old) (old + sizes L) (s\<lparr>cell := h1\<rparr>) =
      Inr ((?E, old + sizes L + sizes R), s2)" using c2(1) by (simp only: s1_def s2_def) simp
  have run: "coalesceFreeBlock ?O s =
      (if old + sizes L + sizes R \<noteq> old then
         bnd (removeFreeBlock ?O) (\<lambda>_.
         bnd (set_tags ?A ((old + sizes L + sizes R) OR TAG_PRECEDING_USED)) (\<lambda>_.
         bnd (wr (POINTER_SUB ?E WORD_SIZE) ((old + sizes L + sizes R) OR TAG_PRECEDING_USED)) (\<lambda>_.
         insertFreeBlock ?A)))
       else ret ()) s2"
    unfolding coalesceFreeBlock_def bnd_Inr [of "rd ?O", OF rd(1)] Let_def S
      bnd_Inr [of "coalesce_preceding (Suc (heap_words s)) ?O old", OF c1(1)] prod.case PA
      bnd_Inr [of "coalesce_following (Suc (heap_words s)) (?O + old) (old + sizes L)", OF c2'] ..
  show ?thesis
  proof (cases "L = [] \<and> R = []")
    case True
    then have "coalesceFreeBlock ?O s = Inr ((), s\<lparr>cell := h2\<rparr>)" using run by (simp add: ret_run s2_def)
    moreover have "set fs2 = set fs" using c1(3) c2(3) True by simp
    then have "mm_inv s2 (pre @ (?N, False) # post) fs2" using l2 True mm_inv_free [OF inv] by (simp add: mm_inv_def s2_def)
    ultimately show ?thesis using relinked_payload [OF l r2] by (auto simp: s2_def)
  next
    case False
    then have "0 < length L \<or> 0 < length R" by auto
    then have grew: "old + sizes L + sizes R \<noteq> old" using sizes_length [OF sz(2)] sizes_length [OF sz(3)] by linarith
    have N: "8 dvd ?N" "32 \<le> ?N" "?N < 2 ^ 63" using sz sizes_dvd bnd by auto
    have eN: "old + sizes L + sizes R = ?N" by simp
    have far_L: "f + 32 \<le> ?O" if "f \<in> free_at ?A L" for f using free_at_bounds [OF sz(2) that] by (simp add: add.assoc)
    have far_R: "?O + old \<le> f" "f + 32 \<le> ?E" if "f \<in> free_at (?O + old) R" for f
      using free_at_bounds [OF sz(3) that] by (simp_all add: add.assoc)
    have far_pre: "f + 32 \<le> ?A" if "f \<in> free_at (block0 s) pre" for f using free_at_bounds [OF sz(1) that] by simp
    have far_post: "?E \<le> f" if "f \<in> free_at ?E post" for f using free_at_bounds [OF sz(4) that] by simp
    have "?O \<in> set fs2" using c1(3) c2(3) free far_L [of ?O] far_R [of ?O] sz(6) by fastforce
    from remove_loose [OF l2 this] obtain h3 where h3: "removeFreeBlock ?O s2 = Inr ((), s2\<lparr>cell := h3\<rparr>)"
      "mm_loose (s2\<lparr>cell := h3\<rparr>) ?bs (remove1 ?O fs2)"
      "relinked (mem_start_brk s) (free_at (block0 s) ?bs) h2 h3" by (auto simp: s2_def)
    define s3 fs3 where "s3 = s\<lparr>cell := h3\<rparr>" and "fs3 = remove1 ?O fs2"
    have l3: "mm_loose s3 (pre @ (L @ (old, False) # R) @ post) fs3" using h3(2) by (simp add: s3_def s2_def fs3_def)
    have fs3: "set fs3 = free_at (block0 s) pre \<union> free_at ?E post"
    proof -
      have "set fs3 = set fs - free_at ?A L - free_at (?O + old) R - {?O}"
        using c1(3) c2(3) mm_looseD(9) [OF l2] by (auto simp: fs3_def)
      moreover have "f \<notin> free_at ?A L \<and> f \<notin> free_at (?O + old) R \<and> f \<noteq> ?O" if "f \<in> free_at (block0 s) pre" for f
        using far_pre [OF that] free_at_bounds [OF sz(2), of f ?A] far_R(1) [of f] by fastforce
      moreover have "f \<notin> free_at ?A L \<and> f \<notin> free_at (?O + old) R \<and> f \<noteq> ?O" if "f \<in> free_at ?E post" for f
        using far_post [OF that] far_L [of f] far_R(2) [of f] sz(6) by fastforce
      ultimately show ?thesis using free by blast
    qed
    let ?H = "header ?N True False"
    define h5 where "h5 = h3(?A := ?H, ?E - 8 := ?H)"
    have mid: "sizes (L @ (old, False) # R) = ?N" by simp
    have tagE: "h3 ?E = header (fst (front post)) False (snd (front post))"
    proof -
      have "mm_loose s3 ((pre @ L @ (old, False) # R) @ post) fs3" using l3 by simp
      from header_at(1) [OF this] R show ?thesis
        by (cases R rule: rev_cases) (auto simp: rd_def s3_def last_used_append add_ac split: if_splits)
    qed
    let ?M = "L @ (old, False) # R" and ?M' = "[(?N, False)]"
    have rep: "sized ?M'" "sizes ?M' = sizes ?M" "set fs3 \<subseteq> free_at (block0 s3) pre \<union> free_at (block0 s3 + sizes pre + sizes ?M) post"
      using N fs3 by (simp_all add: s3_def add_ac)
    have out: "x < block0 s3 + sizes pre \<Longrightarrow> h5 x = cell s3 x" "block0 s3 + sizes pre + sizes ?M < x \<Longrightarrow> h5 x = cell s3 x" for x
      using N by (auto simp: h5_def s3_def)
    have seg': "seg h5 (block0 s3 + sizes pre) (last_used True pre) ?M'" using N pre by (simp add: h5_def s3_def)
    have tag': "h5 (block0 s3 + sizes pre + sizes ?M) = header (fst (front post)) (last_used True (pre @ ?M')) (snd (front post))"
      using tagE N sz(6) by (simp add: h5_def s3_def add_ac)
    note rb = replace_blocks [OF l3 rep out seg' tag']
    define s5 where "s5 = s\<lparr>cell := h5\<rparr>"
    have l5: "mm_loose s5 (pre @ (?N, False) # post) fs3" using rb(1) by (simp add: s5_def s3_def)
    have "?A \<in> free_at (block0 s5) (pre @ (?N, False) # post)" by (simp add: free_at_append s5_def)
    moreover have "?A \<notin> set fs3" using fs3 far_pre [of ?A] far_post [of ?A] sz(6) by auto
    ultimately obtain h6 where h6: "insertFreeBlock ?A s5 = Inr ((), s5\<lparr>cell := h6\<rparr>)"
      "mm_loose (s5\<lparr>cell := h6\<rparr>) (pre @ (?N, False) # post) (?A # fs3)"
      "relinked (mem_start_brk s) (free_at (block0 s) (pre @ (?N, False) # post)) h5 h6"
      using insert_loose [OF l5] by (auto simp: s5_def)
    have "mm_inv (s\<lparr>cell := h6\<rparr>) (pre @ (?N, False) # post) (?A # fs3)"
      using h6(2) fs3 by (auto simp: mm_inv_def s5_def free_at_append add_ac)
    moreover have "coalesceFreeBlock ?O s = Inr ((), s\<lparr>cell := h6\<rparr>)"
    proof -
      have v: "valid_word s ?A" "valid_word s (?E - 8)"
        using loose_valid [OF l, of ?A] loose_valid [OF l, of "?E - 8"] D(1) N sizes_dvd [OF sz(1)] sizes_dvd [OF sz(2)] sizes_dvd [OF sz(3)] sz(5,6) by auto
      have tags: "wr ?A (?N OR TAG_PRECEDING_USED) (s2\<lparr>cell := h3\<rparr>) = Inr ((), s\<lparr>cell := h3(?A := ?H)\<rparr>)"
        using v N by (simp add: wr_def s2_def plain_tags)
      have bt: "wr (POINTER_SUB ?E WORD_SIZE) (?N OR TAG_PRECEDING_USED) (s\<lparr>cell := h3(?A := ?H)\<rparr>) = Inr ((), s5)"
        using v N bnd pointer_small(2) [of 8 ?E] by (simp add: wr_def s5_def h5_def WORD_SIZE_def plain_tags)
      show ?thesis
        unfolding run if_P [OF grew] unfolding eN bnd_Inr [of "removeFreeBlock ?O", OF h3(1)]
          bnd_Inr [of "wr ?A (?N OR TAG_PRECEDING_USED)", OF tags]
          bnd_Inr [of "wr (POINTER_SUB ?E WORD_SIZE) (?N OR TAG_PRECEDING_USED)", OF bt]
        using h6(1) by (simp add: s5_def)
    qed
    moreover have "h6 x = cell s x" if x: "x \<in> payload (block0 s) ?bs" for x
    proof -
      have split: "payload (block0 s) ?bs = payload (block0 s) pre \<union> payload ?E post"
        using free_at_all_free [OF L] free_at_all_free [OF R] by (simp add: payload_append payload_Cons add_ac)
      have x': "x \<in> payload (block0 s) pre \<union> payload ?E post" using x unfolding split .
      have "h2 x = cell s x" by (rule relinked_payload [OF l r2 x])
      moreover have "h3 x = h2 x"
        using relinked_payload [OF l2, of h3 x] h3(3) x by (simp add: s2_def)
      moreover have "h5 x = h3 x" using rb(2) [of x] x' by (simp add: s3_def add_ac)
      moreover have "h6 x = h5 x"
        using relinked_payload [OF l5, of h6 x] h6(3) x' by (simp add: s5_def payload_append payload_Cons add_ac)
      ultimately show ?thesis by simp
    qed
    ultimately show ?thesis by blast
  qed
qed

section \<open>Freeing a block\<close>

lemma used_at_split: "(a, sz) \<in> used_at b bs \<Longrightarrow> \<exists>xs ys. bs = xs @ (sz, True) # ys \<and> a = b + sizes xs"
proof (induction bs arbitrary: b)
  case (Cons c bs)
  obtain z u where c: "c = (z, u)" by (cases c)
  show ?case
  proof (cases "u \<and> a = b \<and> sz = z")
    case True
    then show ?thesis using c by (intro exI [of _ "[]"] exI [of _ bs]) simp
  next
    case False
    then have "(a, sz) \<in> used_at (b + z) bs" using Cons.prems c by (auto split: if_splits)
    then obtain xs ys where "bs = xs @ (sz, True) # ys" "a = b + z + sizes xs" using Cons.IH by blast
    then show ?thesis using c by (intro exI [of _ "c # xs"] exI [of _ ys]) simp
  qed
qed simp

lemma free_at_split: "a \<in> free_at b bs \<Longrightarrow> \<exists>xs sz ys. bs = xs @ (sz, False) # ys \<and> a = b + sizes xs"
proof (induction bs arbitrary: b)
  case (Cons c bs)
  obtain z u where c: "c = (z, u)" by (cases c)
  show ?case
  proof (cases "\<not> u \<and> a = b")
    case True
    then show ?thesis using c by (intro exI [of _ "[]"] exI [of _ z] exI [of _ bs]) simp
  next
    case False
    then have "a \<in> free_at (b + z) bs" using Cons.prems c by (auto split: if_splits)
    then obtain xs sz ys where "bs = xs @ (sz, False) # ys" "a = b + z + sizes xs" using Cons.IH by blast
    then show ?thesis using c by (intro exI [of _ "c # xs"] exI [of _ sz] exI [of _ ys]) simp
  qed
qed simp

lemma free_suffix: "\<exists>pre L. xs = pre @ L \<and> (\<forall>b \<in> set L. \<not> snd b) \<and> last_used True pre"
proof (induction xs rule: rev_induct)
  case (snoc b xs)
  then obtain pre L where "xs = pre @ L" "\<forall>b \<in> set L. \<not> snd b" "last_used True pre" by blast
  then have "xs @ [b] = pre @ (L @ [b]) \<and> (\<forall>c \<in> set (L @ [b]). \<not> snd c) \<and> last_used True pre" if "\<not> snd b"
    using that by auto
  moreover have "xs @ [b] = (xs @ [b]) @ [] \<and> (\<forall>c \<in> set []. \<not> snd (c :: nat \<times> bool)) \<and> last_used True (xs @ [b])" if "snd b"
    using that by simp
  ultimately show ?case by blast
qed auto

lemma free_prefix: "\<exists>R post. ys = R @ post \<and> (\<forall>b \<in> set R. \<not> snd b) \<and> snd (front post)"
proof (induction ys)
  case (Cons b ys)
  then obtain R post where "ys = R @ post" "\<forall>b \<in> set R. \<not> snd b" "snd (front post)" by blast
  then have "b # ys = (b # R) @ post \<and> (\<forall>c \<in> set (b # R). \<not> snd c) \<and> snd (front post)" if "\<not> snd b"
    using that by auto
  moreover have "b # ys = [] @ (b # ys) \<and> (\<forall>c \<in> set []. \<not> snd (c :: nat \<times> bool)) \<and> snd (front (b # ys))" if "snd b"
    using that by simp
  ultimately show ?case by blast
qed auto

lemma used_at_all_free: "\<forall>b \<in> set L. \<not> snd b \<Longrightarrow> used_at a L = {}"
proof (induction L arbitrary: a)
  case (Cons b L)
  then show ?case by (cases b) simp
qed simp

lemma used_at_bounds: "sized bs \<Longrightarrow> (b, z) \<in> used_at a bs \<Longrightarrow> a \<le> b \<and> b + z \<le> a + sizes bs \<and> 32 \<le> z"
proof (induction bs arbitrary: a)
  case (Cons c bs)
  obtain k u where c: "c = (k, u)" by (cases c)
  then show ?case using Cons.IH [of "a + k"] Cons.prems by (auto split: if_splits)
qed simp

text \<open>A used block in the middle: the other used blocks lie below and above it.\<close>

lemma used_at_middle:
  assumes "sized (xs @ (sz, u) # ys)"
  shows "used_at a (xs @ (sz, True) # ys) = insert (a + sizes xs, sz) (used_at a (xs @ (sz, False) # ys))"
    and "(a + sizes xs, sz) \<notin> used_at a (xs @ (sz, False) # ys)"
    and "(b, z) \<in> used_at a (xs @ (sz, False) # ys) \<Longrightarrow> b + z \<le> a + sizes xs \<or> a + sizes xs + sz \<le> b"
proof -
  have sz: "sized xs" "sized ys" "32 \<le> sz" using assms by auto
  show "used_at a (xs @ (sz, True) # ys) = insert (a + sizes xs, sz) (used_at a (xs @ (sz, False) # ys))"
    by (auto simp: used_at_append)
  show *: "b + z \<le> a + sizes xs \<or> a + sizes xs + sz \<le> b" if "(b, z) \<in> used_at a (xs @ (sz, False) # ys)" for b z
    using that used_at_bounds [OF sz(1), of b z a] used_at_bounds [OF sz(2), of b z "a + sizes xs + sz"]
    by (auto simp: used_at_append)
  show "(a + sizes xs, sz) \<notin> used_at a (xs @ (sz, False) # ys)"
    using * [of "a + sizes xs" sz] sz(3) by auto
qed

text \<open>Coalescing around a free block, whatever its neighbours.\<close>

lemma coalesce_inv:
  assumes inv: "mm_inv s (xs @ (sz, False) # ys) fs"
  shows "\<exists>h bs' fs'. coalesceFreeBlock (block0 s + sizes xs) s = Inr ((), s\<lparr>cell := h\<rparr>)
     \<and> mm_inv (s\<lparr>cell := h\<rparr>) bs' fs' \<and> used_at (block0 s) bs' = used_at (block0 s) (xs @ (sz, False) # ys)
     \<and> (\<exists>a \<in> free_at (block0 s) bs'. sz \<le> SIZE (h a))
     \<and> (\<forall>x \<in> payload (block0 s) (xs @ (sz, False) # ys). h x = cell s x)"
proof -
  obtain pre L where xs: "xs = pre @ L" "\<forall>b \<in> set L. \<not> snd b" "last_used True pre" using free_suffix by blast
  obtain R post where ys: "ys = R @ post" "\<forall>b \<in> set R. \<not> snd b" "snd (front post)" using free_prefix by blast
  let ?N = "sizes L + sz + sizes R"
  obtain h fs' where h: "coalesceFreeBlock (block0 s + sizes xs) s = Inr ((), s\<lparr>cell := h\<rparr>)"
    "mm_inv (s\<lparr>cell := h\<rparr>) (pre @ (?N, False) # post) fs'"
    "\<forall>x \<in> payload (block0 s) (xs @ (sz, False) # ys). h x = cell s x"
    using coalesceFreeBlock_run [of s pre L sz R post fs] inv xs ys by auto
  have "used_at (block0 s) (pre @ (?N, False) # post) = used_at (block0 s) (xs @ (sz, False) # ys)"
    using xs ys used_at_all_free by (simp add: used_at_append add_ac)
  moreover have "block0 s + sizes pre \<in> free_at (block0 s) (pre @ (?N, False) # post)" by (simp add: free_at_append)
  moreover have "sz \<le> SIZE (h (block0 s + sizes pre))"
  proof -
    note D = mm_looseD [OF mm_inv_loose [OF h(2)]]
    have "h (block0 s + sizes pre) = header ?N True False" using D(6) xs(3) by (simp add: seg_append)
    moreover have "8 dvd ?N" "?N < 2 ^ 63" using D(3,4,5) by auto
    ultimately show ?thesis by simp
  qed
  ultimately show ?thesis using h by blast
qed

lemma mm_free_run:
  assumes inv: "mm_inv s (xs @ (sz, True) # ys) fs"
  shows "\<exists>h bs' fs'. mm_free (block0 s + sizes xs + 8) s = Inr ((), s\<lparr>cell := h\<rparr>)
     \<and> mm_inv (s\<lparr>cell := h\<rparr>) bs' fs' \<and> used_at (block0 s) bs' = used_at (block0 s) (xs @ (sz, False) # ys)
     \<and> (\<forall>x \<in> payload (block0 s) (xs @ (sz, False) # ys). h x = cell s x)"
proof -
  let ?a = "block0 s + sizes xs" and ?pu = "last_used True xs"
  let ?E = "?a + sz" and ?H = "header sz (last_used True xs) False"
  have l: "mm_loose s (xs @ [(sz, True)] @ ys) fs" using mm_inv_loose [OF inv] by simp
  note D = mm_looseD [OF l]
  have sz: "sized xs" "sized ys" "8 dvd sz" "32 \<le> sz" "sz < 2 ^ 63" "?E + 8 \<le> mem_brk s" "mem_brk s < 2 ^ 63" using D(3,4,5) by auto
  have rd1: "rd ?a s = Inr (header sz ?pu True, s)" using header_at(1) [of s xs "[(sz, True)] @ ys" fs] l by simp
  have l': "mm_loose s ((xs @ [(sz, True)]) @ ys) fs" using l by simp
  have rd2: "rd ?E s = Inr (header (fst (front ys)) True (snd (front ys)), s)" "8 dvd fst (front ys)" "fst (front ys) < 2 ^ 63"
    using header_at [OF l'] by (simp_all add: add_ac)
  have v: "valid_word s ?a" "valid_word s ?E" using rd1 rd2(1) by (auto simp: rd_def split: if_splits)
  have ca: "cell s ?a = header sz ?pu True" using rd1 by (auto simp: rd_def split: if_splits)
  have ve: "valid_word s (?E - 8)" using loose_valid [OF l, of "?E - 8"] D(1) sizes_dvd [OF sz(1)] sz by auto
  let ?F = "header (fst (front ys)) False (snd (front ys))"
  define h where "h = (cell s)(?E := ?F, ?a := ?H, ?E - 8 := ?H)"
  have rep: "mm_loose (s\<lparr>cell := h\<rparr>) (xs @ [(sz, False)] @ ys) fs"
    "\<And>x. x \<in> payload (block0 s) xs \<union> payload (?a + sizes [(sz, True)]) ys \<Longrightarrow> h x = cell s x"
  proof -
    have fs: "set fs \<subseteq> free_at (block0 s) xs \<union> free_at (?a + sizes [(sz, True)]) ys"
      using D(10) by (auto simp: free_at_append)
    note rb = replace_blocks [OF l, of "[(sz, False)]", OF _ _ fs, of h]
    show "mm_loose (s\<lparr>cell := h\<rparr>) (xs @ [(sz, False)] @ ys) fs" by (rule rb(1)) (use sz in \<open>auto simp: h_def\<close>)
    show "h x = cell s x" if "x \<in> payload (block0 s) xs \<union> payload (?a + sizes [(sz, True)]) ys" for x
      by (rule rb(2) [OF _ _ _ _ _ _ that]) (use sz in \<open>auto simp: h_def\<close>)
  qed
  define s1 where "s1 = s\<lparr>cell := h\<rparr>"
  have l1: "mm_loose s1 (xs @ (sz, False) # ys) fs" using rep(1) by (simp add: s1_def)
  have free: "set fs = free_at (block0 s) xs \<union> free_at ?E ys" using mm_inv_free [OF inv] by (simp add: free_at_append add_ac)
  have "?a \<notin> set fs" using free free_at_bounds [OF sz(1), of ?a "block0 s"] free_at_bounds [OF sz(2), of ?a ?E] sz(4) by auto
  then obtain h2 where h2: "insertFreeBlock ?a s1 = Inr ((), s1\<lparr>cell := h2\<rparr>)" "mm_loose (s1\<lparr>cell := h2\<rparr>) (xs @ (sz, False) # ys) (?a # fs)"
    "relinked (mem_start_brk s) (free_at (block0 s) (xs @ (sz, False) # ys)) h h2"
    using insert_loose [OF l1, of ?a] by (auto simp: s1_def free_at_append)
  define s2 where "s2 = s\<lparr>cell := h2\<rparr>"
  have "mm_inv s2 (xs @ (sz, False) # ys) (?a # fs)"
    using h2(2) free by (auto simp: mm_inv_def s2_def s1_def free_at_append add_ac)
  from coalesce_inv [OF this] obtain h3 bs' fs' where h3: "coalesceFreeBlock ?a s2 = Inr ((), s\<lparr>cell := h3\<rparr>)"
     "mm_inv (s\<lparr>cell := h3\<rparr>) bs' fs'" "used_at (block0 s) bs' = used_at (block0 s) (xs @ (sz, False) # ys)"
     "\<forall>x \<in> payload (block0 s) (xs @ (sz, False) # ys). h3 x = h2 x" by (auto simp: s2_def)
  have ptr: "POINTER_SUB (?a + 8) WORD_SIZE = ?a" "POINTER_ADD ?a sz = ?E" "POINTER_ADD ?a (sub64 sz WORD_SIZE) = ?E - 8"
    using sz pointer_small(1) [of ?a sz] pointer_small(1) [of ?a "sz - 8"] pointer_small(2) [of 8 "?a + 8"]
    by (simp_all add: WORD_SIZE_def)
  have "mm_free (?a + 8) s = bnd (insertFreeBlock ?a) (\<lambda>_. coalesceFreeBlock ?a) s1"
    unfolding mm_free_def ptr Let_def bnd_Inr [of "rd ?a" s, OF rd1] SIZE_header [OF sz(3,5)] ptr
      bnd_Inr [of "rd ?E" s, OF rd2(1)]
    using v ve sz rd2(2,3) header_tags header_mask_out
    by (simp add: bnd_def wr_def rd_def s1_def h_def ca)
  then have "mm_free (?a + 8) s = Inr ((), s\<lparr>cell := h3\<rparr>)"
    using h2(1) h3(1) by (simp add: bnd_def s1_def s2_def)
  moreover have "h3 x = cell s x" if x: "x \<in> payload (block0 s) (xs @ (sz, False) # ys)" for x
  proof -
    have "h x = cell s x" using rep(2) [of x] x by (simp add: payload_append payload_Cons add_ac)
    moreover have "h2 x = h x" using relinked_payload [OF l1, of h2 x] h2(3) x by (simp add: s1_def)
    ultimately show ?thesis using h3(4) x by simp
  qed
  ultimately show ?thesis using h3(2,3) by blast
qed

section \<open>Allocating a block\<close>

lemma search_loop_run:
  "dl (cell s) pr p fs 0 \<Longrightarrow> 0 \<notin> set fs \<Longrightarrow> \<forall>f \<in> set fs. valid_word s f \<and> valid_word s (f + 8) \<Longrightarrow> length fs < k \<Longrightarrow>
   \<exists>f. searchFreeList_loop k req p s = Inr (f, s) \<and>
     (f = 0 \<and> (\<forall>g \<in> set fs. SIZE (cell s g) < req) \<or> f \<in> set fs \<and> req \<le> SIZE (cell s f))"
proof (induction fs arbitrary: pr p k)
  case Nil
  then obtain k' where "k = Suc k'" by (cases k) auto
  then show ?case using Nil by (simp add: ret_run)
next
  case (Cons f fs)
  obtain k' where k: "k = Suc k'" using Cons.prems(4) by (cases k) auto
  have p: "p = f" "f \<noteq> 0" "dl (cell s) (Some f) (cell s (f + 8)) fs 0" "valid_word s f" "valid_word s (f + 8)"
    using Cons.prems by auto
  show ?case
  proof (cases "req \<le> SIZE (cell s f)")
    case True
    then show ?thesis using p k by (simp add: bnd_def rd_def ret_run)
  next
    case False
    obtain g where g: "searchFreeList_loop k' req (cell s (f + 8)) s = Inr (g, s)"
      "g = 0 \<and> (\<forall>g \<in> set fs. SIZE (cell s g) < req) \<or> g \<in> set fs \<and> req \<le> SIZE (cell s g)"
      using Cons.IH [OF p(3), of k'] Cons.prems k by auto
    have "searchFreeList_loop k req p s = Inr (g, s)" using p k False g(1) by (simp add: bnd_def rd_def get_next_def)
    then show ?thesis using g(2) False by auto
  qed
qed

lemma free_header:
  assumes "mm_loose s bs fs" and "f \<in> free_at (block0 s) bs"
  obtains xs sz ys where "bs = xs @ (sz, False) # ys" "f = block0 s + sizes xs"
    "cell s f = header sz (last_used True xs) False" "valid_word s f" "SIZE (cell s f) = sz"
proof -
  obtain xs sz ys where b: "bs = xs @ (sz, False) # ys" "f = block0 s + sizes xs" using free_at_split [OF assms(2)] by blast
  have "rd f s = Inr (header sz (last_used True xs) False, s)" "8 dvd sz" "sz < 2 ^ 63"
    using header_at [of s xs "(sz, False) # ys" fs] assms(1) b by simp_all
  then have "cell s f = header sz (last_used True xs) False" "valid_word s f" "SIZE (cell s f) = sz"
    by (auto simp: rd_def split: if_splits)
  then show thesis using that b by blast
qed

lemma finite_free_at: "finite (free_at a bs)"
  by (induction bs arbitrary: a) auto

lemma searchFreeList_run:
  assumes inv: "mm_inv s bs fs"
  shows "\<exists>f. searchFreeList req s = Inr (f, s) \<and>
     (f = 0 \<and> (\<forall>g \<in> set fs. SIZE (cell s g) < req) \<or> f \<in> set fs \<and> req \<le> SIZE (cell s f))"
proof -
  have l: "mm_loose s bs fs" using mm_inv_loose [OF inv] .
  note D = mm_looseD [OF l]
  have v: "\<forall>f \<in> set fs. valid_word s f \<and> valid_word s (f + 8)"
    using free_header [OF l] loose_linkable [OF l] D(10) unfolding linkable_def by (metis subsetD)
  have "0 \<notin> set fs" using D(10) free_at_bounds [OF D(3)] by fastforce
  moreover have "length fs < Suc (heap_words s)"
  proof -
    have "card (free_at a bs) \<le> length bs" for a
    proof (induction bs arbitrary: a)
      case (Cons b bs)
      have "card (free_at a (b # bs)) \<le> 1 + card (free_at (a + fst b) bs)"
        using finite_free_at [of "a + fst b" bs] by (cases b) (auto simp: card_insert_if)
      then show ?case using Cons.IH [of "a + fst b"] by simp
    qed simp
    then have "length fs \<le> length bs"
      using distinct_card [OF D(9)] mm_inv_free [OF inv] by metis
    then show ?thesis using words_enough [OF l] by simp
  qed
  moreover have "valid_word s (mem_start_brk s)" using loose_linkable [OF l] by (simp add: linkable_def)
  ultimately show ?thesis
    using search_loop_run [OF D(8) _ v, of "Suc (heap_words s)" req]
    by (simp add: searchFreeList_def bnd_def get_head_def rd_def mem_heap_lo_def)
qed

lemma malloc_take_run:
  assumes inv: "mm_inv s (xs @ (B, False) # ys) fs" and req: "8 dvd req" "32 \<le> req" "req \<le> B"
  defines "a \<equiv> block0 s + sizes xs"
  shows "\<exists>h bs' fs' sz. mm_malloc_take req a s = Inr (a + 8, s\<lparr>cell := h\<rparr>) \<and> mm_inv (s\<lparr>cell := h\<rparr>) bs' fs'
     \<and> req \<le> sz \<and> used_at (block0 s) bs' = insert (a, sz) (used_at (block0 s) (xs @ (B, False) # ys))
     \<and> (a, sz) \<notin> used_at (block0 s) (xs @ (B, False) # ys)
     \<and> (\<forall>(b, z) \<in> used_at (block0 s) (xs @ (B, False) # ys). b + z \<le> a \<or> a + sz \<le> b)
     \<and> (\<forall>x \<in> payload (block0 s) (xs @ (B, False) # ys). h x = cell s x)"
proof -
  let ?bs = "xs @ (B, False) # ys" and ?pu = "last_used True xs"
  let ?E = "a + B"
  have l: "mm_loose s ?bs fs" using mm_inv_loose [OF inv] .
  note D = mm_looseD [OF l]
  have sz: "sized xs" "sized ys" "8 dvd B" "32 \<le> B" "B < 2 ^ 63" "?E + 8 \<le> mem_brk s" "mem_brk s < 2 ^ 63" "8 dvd a"
    using D(1,3,4,5) sizes_dvd [of xs] by (auto simp: a_def)
  have free: "set fs = free_at (block0 s) xs \<union> {a} \<union> free_at ?E ys" using mm_inv_free [OF inv] by (auto simp: free_at_append a_def add_ac)
  obtain h1 where h1: "removeFreeBlock a s = Inr ((), s\<lparr>cell := h1\<rparr>)" "mm_loose (s\<lparr>cell := h1\<rparr>) ?bs (remove1 a fs)"
    "relinked (mem_start_brk s) (free_at (block0 s) ?bs) (cell s) h1"
    using remove_loose [OF l, of a] free by auto
  define s1 fs1 where "s1 = s\<lparr>cell := h1\<rparr>" and "fs1 = remove1 a fs"
  have l1: "mm_loose s1 (xs @ [(B, False)] @ ys) fs1" using h1(2) by (simp add: s1_def fs1_def)
  have apart: "a \<notin> free_at (block0 s) xs" "a \<notin> free_at ?E ys"
    using free_at_bounds [OF sz(1), of a "block0 s"] free_at_bounds [OF sz(2), of a ?E] sz(4) by (auto simp: a_def)
  have fs1: "set fs1 = free_at (block0 s) xs \<union> free_at ?E ys" using free apart D(9) by (auto simp: fs1_def)
  have v: "valid_word s x" if "8 dvd x" "a \<le> x" "x \<le> ?E" for x
    by (rule loose_valid [OF l that(1)]) (use that in \<open>auto simp: a_def\<close>)
  have rd0: "rd a s = Inr (header B ?pu False, s)" using header_at(1) [of s xs "(B, False) # ys" fs] l by (simp add: a_def)
  have c1: "h1 a = header B ?pu False"
    using header_at(1) [of s1 xs "[(B, False)] @ ys" fs1] l1 by (auto simp: rd_def s1_def a_def split: if_splits)
  have l1': "mm_loose s1 ((xs @ [(B, False)]) @ ys) fs1" using l1 by simp
  have cE: "h1 ?E = header (fst (front ys)) False (snd (front ys))" "8 dvd fst (front ys)"
    using header_at [OF l1'] by (auto simp: rd_def s1_def a_def add_ac split: if_splits)
  have fs': "set fs1 \<subseteq> free_at (block0 s1) xs \<union> free_at (block0 s1 + sizes xs + sizes [(B, False)]) ys"
    using fs1 by (simp add: s1_def a_def)
  have E: "sizes [(B, False)] = B" "block0 s1 + sizes xs = a"
    by (simp_all add: s1_def a_def)
  have pay: "payload (block0 s) ?bs = payload (block0 s) xs \<union> payload ?E ys"
    by (simp add: payload_append payload_Cons a_def)
  have pay1: "h1 x = cell s x" if "x \<in> payload (block0 s) ?bs" for x by (rule relinked_payload [OF l h1(3) that])
  have used: "used_at (block0 s) ?bs = used_at (block0 s) xs \<union> used_at ?E ys" by (simp add: used_at_append a_def)
  have disj: "b + z \<le> a \<or> ?E \<le> b" if "(b, z) \<in> used_at (block0 s) ?bs" for b z
    using that used_at_bounds [OF sz(1), of b z "block0 s"] used_at_bounds [OF sz(2), of b z ?E] unfolding used a_def by auto
  have take: "mm_malloc_take req a s =
     bnd (if sub64 B req \<ge> MIN_BLOCK_SIZE then
            bnd (set_tags a (req OR 2 * of_bool ?pu)) (\<lambda>_.
            bnd (get_tags a) (\<lambda>t.
            bnd (set_tags a (t OR TAG_USED)) (\<lambda>_.
            bnd (wr (POINTER_ADD a req) (sub64 B req OR TAG_PRECEDING_USED)) (\<lambda>_.
            bnd (wr (POINTER_ADD a (sub64 B WORD_SIZE)) (sub64 B req OR TAG_PRECEDING_USED)) (\<lambda>_.
            insertFreeBlock (POINTER_ADD a req))))))
          else
            (let nextBlock = POINTER_ADD a B in
             bnd (get_tags nextBlock) (\<lambda>n.
             bnd (set_tags nextBlock (n OR TAG_PRECEDING_USED)) (\<lambda>_.
             bnd (get_tags a) (\<lambda>t.
             set_tags a (t OR TAG_USED)))))) (\<lambda>_.
     ret (POINTER_ADD a WORD_SIZE)) s1"
    unfolding mm_malloc_take_def bnd_Inr [of "rd a" s, OF rd0] Let_def SIZE_header [OF sz(3,5)] header_tags(1) [OF sz(3)]
      bnd_Inr [of "removeFreeBlock a" s, OF h1(1)] s1_def ..
  have ptr: "POINTER_ADD a WORD_SIZE = a + 8" "POINTER_ADD a req = a + req" "POINTER_ADD a B = ?E"
    "POINTER_ADD a (sub64 B WORD_SIZE) = ?E - 8" "sub64 B req = B - req" "MIN_BLOCK_SIZE = 32"
    using sz req pointer_small(1) [of a 8] pointer_small(1) [of a req] pointer_small(1) [of a B] pointer_small(1) [of a "B - 8"]
    by (simp_all add: WORD_SIZE_def MIN_BLOCK_SIZE_def sizeof_BlockInfo_def)
  show ?thesis
  proof (cases "32 \<le> B - req")
    case True
    let ?R = "header (B - req) True False"
    define h2 where "h2 = h1(a := header req ?pu True, a + req := ?R, ?E - 8 := ?R)"
    define s2 where "s2 = s\<lparr>cell := h2\<rparr>"
    have r: "8 dvd B - req" "B - req < 2 ^ 63" using sz req by auto
    have order: "a < a + req" "a + req < ?E - 8" "?E - 8 < ?E" using req True by auto
    have M': "sized [(req, True), (B - req, False)]" "sizes [(req, True), (B - req, False)] = sizes [(B, False)]"
      using req True r by simp_all
    have out: "x < a \<Longrightarrow> h2 x = cell s1 x" "?E < x \<Longrightarrow> h2 x = cell s1 x" for x
      using order by (simp_all add: h2_def s1_def)
    have "h2 a = header req ?pu True" "h2 (a + req) = ?R" "h2 (a + req + (B - req) - 8) = ?R"
      using order req by (simp_all add: h2_def)
    then have seg: "seg h2 a ?pu [(req, True), (B - req, False)]" using r by simp
    have tag: "h2 ?E = header (fst (front ys)) (last_used True (xs @ [(req, True), (B - req, False)])) (snd (front ys))"
      using order cE by (simp add: h2_def)
    note rb = replace_blocks [OF l1 M' fs', of h2, unfolded E, OF out seg tag]
    have l2: "mm_loose s2 (xs @ (req, True) # (B - req, False) # ys) fs1" using rb(1) by (simp add: s2_def s1_def)
    have pay2: "h2 x = h1 x" if "x \<in> payload (block0 s) ?bs" for x
      using rb(2) [of x] that unfolding pay by (simp add: s1_def)
    let ?n = "a + req"
    have "?n \<notin> set fs1"
      using fs1 free_at_bounds [OF sz(1), of ?n "block0 s"] free_at_bounds [OF sz(2), of ?n ?E] req True by (auto simp: a_def)
    then obtain h3 where h3: "insertFreeBlock ?n s2 = Inr ((), s2\<lparr>cell := h3\<rparr>)"
      "mm_loose (s2\<lparr>cell := h3\<rparr>) (xs @ (req, True) # (B - req, False) # ys) (?n # fs1)"
      "relinked (mem_start_brk s) (free_at (block0 s) (xs @ (req, True) # (B - req, False) # ys)) h2 h3"
      using insert_loose [OF l2, of ?n] by (auto simp: s2_def free_at_append a_def)
    have "mm_inv (s\<lparr>cell := h3\<rparr>) (xs @ (req, True) # (B - req, False) # ys) (?n # fs1)"
      using h3(2) fs1 req by (auto simp: mm_inv_def s2_def free_at_append a_def add.assoc)
    moreover have "mm_malloc_take req a s = Inr (a + 8, s\<lparr>cell := h3\<rparr>)"
    proof -
      have va: "valid_word s a" "valid_word s ?n" "valid_word s (?E - 8)" using sz req v True by auto
      have steps: "wr a (req OR 2 * of_bool ?pu) s1 = Inr ((), s\<lparr>cell := h1(a := header req ?pu False)\<rparr>)"
        "rd a (s\<lparr>cell := h1(a := header req ?pu False)\<rparr>) = Inr (header req ?pu False, s\<lparr>cell := h1(a := header req ?pu False)\<rparr>)"
        "wr a (header req ?pu False OR TAG_USED) (s\<lparr>cell := h1(a := header req ?pu False)\<rparr>) = Inr ((), s\<lparr>cell := h1(a := header req ?pu True)\<rparr>)"
        "wr ?n ((B - req) OR TAG_PRECEDING_USED) (s\<lparr>cell := h1(a := header req ?pu True)\<rparr>) = Inr ((), s\<lparr>cell := h1(a := header req ?pu True, ?n := ?R)\<rparr>)"
        "wr (?E - 8) ((B - req) OR TAG_PRECEDING_USED) (s\<lparr>cell := h1(a := header req ?pu True, ?n := ?R)\<rparr>) = Inr ((), s2)"
        using va req r by (simp_all add: wr_def rd_def s1_def s2_def h2_def plain_tags)
      show ?thesis
        unfolding take ptr if_P [OF True] using steps h3(1) by (simp add: bnd_def ret_run s2_def)
    qed
    moreover have "used_at (block0 s) (xs @ (req, True) # (B - req, False) # ys) = insert (a, req) (used_at (block0 s) ?bs)"
      using req by (auto simp: used_at_append a_def add.assoc)
    moreover have "h3 x = cell s x" if x: "x \<in> payload (block0 s) ?bs" for x
    proof -
      have "x \<in> payload (block0 s) (xs @ (req, True) # (B - req, False) # ys)"
        using x req unfolding pay by (auto simp: payload_append payload_Cons a_def add.assoc)
      then have "h3 x = h2 x" using relinked_payload [OF l2, of h3 x] h3(3) by (simp add: s2_def)
      then show ?thesis using pay1 [OF x] pay2 [OF x] by simp
    qed
    moreover have "\<forall>(b, z) \<in> used_at (block0 s) ?bs. b + z \<le> a \<or> a + req \<le> b" using disj req by fastforce
    moreover have "(a, req) \<notin> used_at (block0 s) ?bs" using disj [of a req] req sz by auto
    ultimately show ?thesis using req(1) by (intro exI [of _ h3] exI [of _ "xs @ (req, True) # (B - req, False) # ys"] exI [of _ "?n # fs1"] exI [of _ req]) simp
  next
    case False
    let ?F = "header (fst (front ys)) True (snd (front ys))"
    define h2 where "h2 = h1(?E := ?F, a := header B ?pu True)"
    define s2 where "s2 = s\<lparr>cell := h2\<rparr>"
    have M': "sized [(B, True)]" "sizes [(B, True)] = sizes [(B, False)]" using sz by simp_all
    have out: "x < a \<Longrightarrow> h2 x = cell s1 x" "?E < x \<Longrightarrow> h2 x = cell s1 x" for x
      using sz(4) by (simp_all add: h2_def s1_def)
    have seg: "seg h2 a ?pu [(B, True)]" by (simp add: h2_def)
    have tag: "h2 ?E = header (fst (front ys)) (last_used True (xs @ [(B, True)])) (snd (front ys))"
      using sz(4) by (simp add: h2_def)
    note rb = replace_blocks [OF l1 M' fs', of h2, unfolded E, OF out seg tag]
    have l2: "mm_loose s2 (xs @ (B, True) # ys) fs1" using rb(1) by (simp add: s2_def s1_def)
    have pay2: "h2 x = cell s x" if x: "x \<in> payload (block0 s) ?bs" for x
      using rb(2) [of x] pay1 [OF x] x unfolding pay by (simp add: s1_def)
    have "mm_inv (s\<lparr>cell := h2\<rparr>) (xs @ (B, True) # ys) fs1"
      using l2 fs1 by (auto simp: mm_inv_def s2_def free_at_append a_def)
    moreover have "mm_malloc_take req a s = Inr (a + 8, s\<lparr>cell := h2\<rparr>)"
    proof -
      have va: "valid_word s a" "valid_word s ?E" using sz v by auto
      have steps: "rd ?E s1 = Inr (header (fst (front ys)) False (snd (front ys)), s1)"
        "wr ?E (header (fst (front ys)) False (snd (front ys)) OR TAG_PRECEDING_USED) s1 = Inr ((), s\<lparr>cell := h1(?E := ?F)\<rparr>)"
        "rd a (s\<lparr>cell := h1(?E := ?F)\<rparr>) = Inr (header B ?pu False, s\<lparr>cell := h1(?E := ?F)\<rparr>)"
        "wr a (header B ?pu False OR TAG_USED) (s\<lparr>cell := h1(?E := ?F)\<rparr>) = Inr ((), s\<lparr>cell := h2\<rparr>)"
        using va sz c1 cE by (simp_all add: wr_def rd_def s1_def h2_def)
      show ?thesis
        unfolding take ptr if_not_P [OF False] Let_def using steps by (simp add: bnd_def ret_run)
    qed
    moreover have "used_at (block0 s) (xs @ (B, True) # ys) = insert (a, B) (used_at (block0 s) ?bs)"
      by (auto simp: used_at_append a_def)
    moreover have "\<forall>(b, z) \<in> used_at (block0 s) ?bs. b + z \<le> a \<or> a + B \<le> b" using disj by fastforce
    moreover have "(a, B) \<notin> used_at (block0 s) ?bs" using disj [of a B] sz by auto
    ultimately show ?thesis using req(3) pay2 by (intro exI [of _ h2] exI [of _ "xs @ (B, True) # ys"] exI [of _ fs1] exI [of _ B]) simp
  qed
qed

lemma request_size_small:
  assumes "n < 2 ^ 62"
  shows "request_size n = (if n + 8 \<le> 32 then 32 else 8 * ((n + 15) div 8))"
  using assms by (simp add: request_size_def Let_def WORD_SIZE_def MIN_BLOCK_SIZE_def sizeof_BlockInfo_def ALIGNMENT_def mult64_def add.commute)

lemma request_size_bounds:
  assumes "n < 2 ^ 62"
  shows "8 dvd request_size n" "32 \<le> request_size n" "n + 8 \<le> request_size n" "request_size n \<le> n + 40"
  by (auto simp: request_size_small [OF assms] split: if_splits)

lemma request_size_tight: "n < 2 ^ 62 \<Longrightarrow> 8 dvd z \<Longrightarrow> 32 \<le> z \<Longrightarrow> z < request_size n \<Longrightarrow> z < n + 8"
  unfolding request_size_small by (auto split: if_splits)

text \<open>The page size of the system: a power of two of at least 4 KB.\<close>

definition page_size :: "nat \<Rightarrow> bool" where
  "page_size p \<longleftrightarrow> (\<exists>k. 12 \<le> k \<and> k \<le> 30 \<and> p = 2 ^ k)"

lemma page_size_bounds: "page_size p \<Longrightarrow> 8 dvd p \<and> 32 \<le> p \<and> p \<le> 2 ^ 30"
proof -
  assume "page_size p"
  then obtain k where k: "12 \<le> k" "k \<le> 30" "p = 2 ^ k" by (auto simp: page_size_def)
  have "2 ^ 3 dvd (2 :: nat) ^ k" using k by (intro le_imp_power_dvd) simp
  moreover have "(2 :: nat) ^ 5 \<le> 2 ^ k" using k by (intro power_increasing) simp_all
  moreover have "(2 :: nat) ^ k \<le> 2 ^ 30" using k by (intro power_increasing) simp_all
  ultimately show ?thesis using k by simp
qed

definition pages_for :: "nat \<Rightarrow> nat \<Rightarrow> nat" where
  "pages_for p req = (req + p - 1) div p * p"

lemma pages_for_bounds:
  assumes "8 dvd p" "32 \<le> p" "32 \<le> req"
  shows "req \<le> pages_for p req" "pages_for p req < req + p" "8 dvd pages_for p req" "32 \<le> pages_for p req"
proof -
  let ?x = "req + p - 1"
  obtain r where "pages_for p req + r = ?x" "r < p"
    using assms(2) by (intro that [of "?x mod p"]) (simp_all add: pages_for_def)
  then show "req \<le> pages_for p req" "pages_for p req < req + p" using assms by linarith+
  then show "32 \<le> pages_for p req" using assms(3) by simp
  show "8 dvd pages_for p req" using assms(1) by (simp add: pages_for_def)
qed

lemma requestMoreSpace_run:
  assumes inv: "mm_inv s bs fs" and p: "8 dvd p" "32 \<le> p" "p \<le> 2 ^ 30" and req: "8 dvd req" "32 \<le> req" "req < 2 ^ 62 + 2 ^ 61"
  defines "T \<equiv> pages_for p req"
  shows "mem_max_addr s < mem_brk s + T \<Longrightarrow> requestMoreSpace p req s = Inl (Exit 0)"
    and "mem_brk s + T \<le> mem_max_addr s \<Longrightarrow>
      \<exists>t bs' fs'. requestMoreSpace p req s = Inr ((), t) \<and> mm_inv t bs' fs' \<and> mem_start_brk t = mem_start_brk s
        \<and> mem_max_addr t = mem_max_addr s \<and> mem_brk t = mem_brk s + T
        \<and> used_at (block0 s) bs' = used_at (block0 s) bs \<and> (\<forall>x \<in> payload (block0 s) bs. cell t x = cell s x)
        \<and> (\<exists>f \<in> set fs'. req \<le> SIZE (cell t f))"
proof -
  have l: "mm_loose s bs fs" using mm_inv_loose [OF inv] .
  note D = mm_looseD [OF l]
  note T = pages_for_bounds [OF p(1,2) req(2), folded T_def]
  have T64: "T < 2 ^ 63" using T(2) p req by simp
  have calc: "mult64 (sub64 (add64 req p) 1 div p) p = T"
    using p req T64 by (simp add: T_def pages_for_def mult64_def)
  have brk: "mem_brk s \<noteq> 2 ^ 64 - 1" "add64 (mem_brk s) T = mem_brk s + T" using D(5) T64 by auto
  show "requestMoreSpace p req s = Inl (Exit 0)" if "mem_max_addr s < mem_brk s + T"
    unfolding requestMoreSpace_def Let_def calc using that brk by (simp add: bnd_def mem_sbrk_def fail_run)
  assume room: "mem_brk s + T \<le> mem_max_addr s"
  let ?e = "block0 s + sizes bs" and ?pu = "last_used True bs"
  let ?H = "header T (last_used True bs) False"
  define s1 where "s1 = s\<lparr>mem_brk := mem_brk s + T\<rparr>"
  have e: "?e + 8 = mem_brk s" "8 dvd ?e" using D(1,4) sizes_dvd [OF D(3)] by simp_all
  have bound: "mem_brk s + T < 2 ^ 63" using room D(12) by simp
  define h where "h = (cell s)(?e := ?H, ?e + T - 8 := ?H, ?e + T := 1)"
  define s2 where "s2 = s1\<lparr>cell := h\<rparr>"
  have v: "valid_word s1 ?e" "valid_word s1 (?e + T - 8)" "valid_word s1 (?e + T)"
  proof -
    have "8 dvd ?e + T" "?e + T - 8 + 8 = ?e + T" using e(2) T by auto
    then have "8 dvd ?e + T - 8" by (metis dvd_add_triv_right_iff)
    with e \<open>8 dvd ?e + T\<close> T show "valid_word s1 ?e" "valid_word s1 (?e + T - 8)" "valid_word s1 (?e + T)"
      by (auto simp: valid_word_def s1_def mod_eq_0_iff_dvd)
  qed
  have ptr: "POINTER_SUB (mem_brk s) WORD_SIZE = ?e" "POINTER_ADD ?e (sub64 T WORD_SIZE) = ?e + T - 8" "POINTER_ADD ?e T = ?e + T"
    using e bound T T64 pointer_small(2) [of 8 "mem_brk s"] pointer_small(1) [of ?e "T - 8"] pointer_small(1) [of ?e T]
    by (simp_all add: WORD_SIZE_def)
  have sbrk: "mem_sbrk T s = Inr (mem_brk s, s1)" using room brk by (simp add: mem_sbrk_def s1_def)
  have order: "?e < ?e + T - 8" "?e + T - 8 < ?e + T" using T(4) by auto
  have frame: "h x = cell s x" if "x < ?e" for x using that order by (simp add: h_def)
  have l2: "mm_loose s2 (bs @ [(T, False)]) fs"
  proof -
    have "seg h (block0 s) True bs" by (rule seg_frame [OF D(3,6)]) (simp add: frame)
    moreover have "h ?e = ?H" "h (?e + T - 8) = ?H" "h (?e + T) = header 0 False True"
      using order by (simp_all add: h_def header_def)
    moreover have "dl h None (h (mem_start_brk s)) fs 0"
    proof -
      have "h (f + 8) = cell s (f + 8) \<and> h (f + 16) = cell s (f + 16)" if "f \<in> set fs" for f
        using that D(10) free_at_bounds [OF D(3), of f "block0 s"] frame by auto
      then show ?thesis using dl_cong [OF _ D(8)] frame [of "mem_start_brk s"] by simp
    qed
    ultimately show ?thesis
      using D T T64 room by (auto simp: mm_loose_def s2_def s1_def seg_append free_at_append add.assoc)
  qed
  have "?e \<notin> set fs" using D(10) free_at_bounds [OF D(3), of ?e "block0 s"] by auto
  then obtain h3 where h3: "insertFreeBlock ?e s2 = Inr ((), s2\<lparr>cell := h3\<rparr>)" "mm_loose (s2\<lparr>cell := h3\<rparr>) (bs @ [(T, False)]) (?e # fs)"
    "relinked (mem_start_brk s) (free_at (block0 s) (bs @ [(T, False)])) h h3"
    using insert_loose [OF l2, of ?e] by (auto simp: s2_def s1_def free_at_append)
  define s3 where "s3 = s2\<lparr>cell := h3\<rparr>"
  have inv3: "mm_inv s3 (bs @ [(T, False)]) (?e # fs)"
    using h3(2) mm_inv_free [OF inv] by (auto simp: mm_inv_def s3_def s2_def s1_def free_at_append)
  have b3: "block0 s3 = block0 s" by (simp add: s3_def s2_def s1_def)
  obtain h4 bs' fs' where h4: "coalesceFreeBlock ?e s3 = Inr ((), s3\<lparr>cell := h4\<rparr>)" "mm_inv (s3\<lparr>cell := h4\<rparr>) bs' fs'"
    "used_at (block0 s) bs' = used_at (block0 s) bs" "\<exists>a \<in> free_at (block0 s) bs'. T \<le> SIZE (h4 a)"
    "\<forall>x \<in> payload (block0 s) bs. h4 x = h3 x"
    using coalesce_inv [OF inv3] unfolding b3 by (auto simp: used_at_append payload_append payload_Cons s3_def)
  have run: "requestMoreSpace p req s = Inr ((), s3\<lparr>cell := h4\<rparr>)"
  proof -
    have "cell s ?e = header 0 ?pu True" using D(7) .
    then have mask: "cell s ?e AND TAG_PRECEDING_USED = 2 * of_bool ?pu" by simp
    have steps: "rd ?e s1 = Inr (cell s ?e, s1)"
      "wr ?e (T OR 2 * of_bool ?pu) s1 = Inr ((), s1\<lparr>cell := (cell s)(?e := ?H)\<rparr>)"
      "wr (?e + T - 8) (T OR 2 * of_bool ?pu) (s1\<lparr>cell := (cell s)(?e := ?H)\<rparr>) = Inr ((), s1\<lparr>cell := (cell s)(?e := ?H, ?e + T - 8 := ?H)\<rparr>)"
      "wr (?e + T) TAG_USED (s1\<lparr>cell := (cell s)(?e := ?H, ?e + T - 8 := ?H)\<rparr>) = Inr ((), s2)"
      using v T by (simp_all add: rd_def wr_def plain_tags s2_def h_def TAG_USED_def) (simp_all add: s1_def)
    show ?thesis
      unfolding requestMoreSpace_def Let_def calc bnd_Inr [of "mem_sbrk T" s, OF sbrk] if_not_P [OF brk(1)] ptr
        bnd_Inr [of "rd ?e" s1, OF steps(1)] mask
      using steps h3(1) h4(1) by (simp add: bnd_def s3_def)
  qed
  have pay: "h4 x = cell s x" if x: "x \<in> payload (block0 s) bs" for x
  proof -
    have "h3 x = h x"
      using relinked_payload [OF l2, of h3 x] h3(3) x by (simp add: s2_def s1_def payload_append)
    moreover have "h x = cell s x" using frame payload_bounds [OF D(3) x] by simp
    ultimately show ?thesis using h4(5) x by simp
  qed
  have fits: "\<exists>f \<in> set fs'. req \<le> SIZE (h4 f)"
  proof -
    obtain a where "a \<in> free_at (block0 s) bs'" "T \<le> SIZE (h4 a)" using h4(4) by blast
    then show ?thesis using mm_inv_free [OF h4(2)] b3 T(1) by (intro bexI [of _ a]) auto
  qed
  show "\<exists>t bs' fs'. requestMoreSpace p req s = Inr ((), t) \<and> mm_inv t bs' fs' \<and> mem_start_brk t = mem_start_brk s
        \<and> mem_max_addr t = mem_max_addr s \<and> mem_brk t = mem_brk s + T
        \<and> used_at (block0 s) bs' = used_at (block0 s) bs \<and> (\<forall>x \<in> payload (block0 s) bs. cell t x = cell s x)
        \<and> (\<exists>f \<in> set fs'. req \<le> SIZE (cell t f))"
    using run h4(2,3) pay fits by (intro exI [of _ "s3\<lparr>cell := h4\<rparr>"] exI [of _ bs'] exI [of _ fs']) (simp add: s3_def s2_def s1_def)
qed

section \<open>Reading the heap back\<close>

fun lines_of :: "(nat \<Rightarrow> nat) \<Rightarrow> nat \<Rightarrow> bool \<Rightarrow> blocks \<Rightarrow> heap_line list" where
  "lines_of h a pu [] = []"
| "lines_of h a pu ((sz, u) # bs) =
     (if u then ALLOCATED a sz (2 * of_bool pu) 1 else FREE a sz (2 * of_bool pu) 0 (h (a + 8)) (h (a + 16)))
     # lines_of h (a + sz) u bs"

lemma examine_heap_loop_run:
  "mm_loose s (xs @ ys) fs \<Longrightarrow> length ys < k \<Longrightarrow>
   examine_heap_loop k (block0 s + sizes xs) s = Inr (lines_of (cell s) (block0 s + sizes xs) (last_used True xs) ys, s)"
proof (induction ys arbitrary: xs k)
  case Nil
  then obtain k' where "k = Suc k'" by (cases k) auto
  moreover have "SIZE (header 0 (last_used True xs) True) = 0" by simp
  ultimately show ?case using header_at(1) [of s xs "[]" fs] Nil by (simp add: bnd_def ret_run)
next
  case (Cons b ys)
  obtain sz u where b: "b = (sz, u)" by (cases b)
  obtain k' where k: "k = Suc k'" using Cons.prems(2) by (cases k) auto
  let ?a = "block0 s + sizes xs"
  have l: "mm_loose s (xs @ (sz, u) # ys) fs" using Cons.prems(1) b by simp
  note D = mm_looseD [OF l]
  have rd: "rd ?a s = Inr (header sz (last_used True xs) u, s)" "8 dvd sz" "sz < 2 ^ 63" using header_at [OF l] by simp_all
  have sz: "32 \<le> sz" "?a + sz < mem_brk s" "mem_brk s < 2 ^ 63" using D(3,4,5) by auto
  have hi: "?a < mem_heap_hi s" "POINTER_ADD ?a sz = ?a + sz" using sz by (auto simp: mem_heap_hi_def intro!: pointer_small)
  have rest: "examine_heap_loop k' (?a + sz) s = Inr (lines_of (cell s) (?a + sz) u ys, s)"
    using Cons.IH [of "xs @ [b]" k'] Cons.prems k b by (simp add: add.assoc)
  have link: "rd (?a + 8) s = Inr (cell s (?a + 8), s) \<and> rd (?a + 16) s = Inr (cell s (?a + 16), s)" if "\<not> u"
    using loose_linkable [OF l] that by (auto simp: linkable_def free_at_append rd_def)
  show ?case
    using rd hi sz(1) rest link k b by (auto simp: bnd_def ret_run get_next_def get_prev_def)
qed

definition used_blocks :: "mm_state \<Rightarrow> (nat \<times> nat) set" where
  "used_blocks s = (case examine_heap s of Inl _ \<Rightarrow> {} | Inr ((_, ls), _) \<Rightarrow> {(b, sz). \<exists>p u. ALLOCATED b sz p u \<in> set ls})"

lemma lines_of_used: "(\<exists>p u. ALLOCATED b sz p u \<in> set (lines_of h a pu bs)) \<longleftrightarrow> (b, sz) \<in> used_at a bs"
proof (induction bs arbitrary: a pu)
  case (Cons c bs)
  obtain k u where c: "c = (k, u)" by (cases c)
  show ?case using Cons.IH [of "a + k" u] c by (simp add: ex_disj_distrib)
qed simp

lemma examine_heap_run:
  assumes "mm_inv s bs fs"
  shows "examine_heap s = Inr ((cell s (mem_start_brk s), lines_of (cell s) (block0 s) True bs), s)" and "used_blocks s = used_at (block0 s) bs"
proof -
  have l: "mm_loose s ([] @ bs) fs" using mm_inv_loose [OF assms] by simp
  have "POINTER_ADD (mem_heap_lo s) WORD_SIZE = block0 s"
    using mm_looseD(4,5) [OF l] pointer_small(1) [of "mem_start_brk s" 8] by (simp add: WORD_SIZE_def mem_heap_lo_def)
  then show e: "examine_heap s = Inr ((cell s (mem_start_brk s), lines_of (cell s) (block0 s) True bs), s)"
    using examine_heap_loop_run [OF l, of "Suc (heap_words s)"] words_enough [OF l] loose_linkable [OF l]
    by (simp add: examine_heap_def bnd_def ret_run get_head_def rd_def linkable_def mem_heap_lo_def)
  show "used_blocks s = used_at (block0 s) bs" unfolding used_blocks_def e by (simp add: lines_of_used)
qed

section \<open>The interface\<close>

text \<open>
  What a client relies on: \<open>live s\<close> holds the address and size of the blocks in use, header included.
  Allocating adds one block, apart from all others and large enough, or fails for lack of memory;
  releasing removes one; neither changes a word of another live block.
\<close>

definition live_words :: "(nat \<times> nat) set \<Rightarrow> nat set" where
  "live_words B = (\<Union>(b, sz) \<in> B. {b + 8..<b + sz})"

lemma live_words_mem: "x \<in> live_words B \<longleftrightarrow> (\<exists>b z. (b, z) \<in> B \<and> b + 8 \<le> x \<and> x < b + z)"
  unfolding live_words_def by force

locale heap_allocator =
  fixes good :: "'s \<Rightarrow> bool"
    and live :: "'s \<Rightarrow> (nat \<times> nat) set"
    and contents :: "'s \<Rightarrow> nat \<Rightarrow> nat"
    and alloc :: "nat \<Rightarrow> ('s, nat) cmd"
    and release :: "nat \<Rightarrow> ('s, unit) cmd"
    and limit :: nat
  assumes alloc_law: "good s \<Longrightarrow> 0 < n \<Longrightarrow> n < limit \<Longrightarrow>
      (case alloc n s of
         Inl e \<Rightarrow> e = Exit 0
       | Inr (p, t) \<Rightarrow> good t \<and> 8 \<le> p \<and> (\<exists>sz. n + 8 \<le> sz \<and> live t = insert (p - 8, sz) (live s) \<and>
           (\<forall>(b, z) \<in> live s. b + z \<le> p - 8 \<or> p - 8 + sz \<le> b)) \<and>
           (\<forall>x \<in> live_words (live s). contents t x = contents s x))"
    and release_law: "good s \<Longrightarrow> (b, sz) \<in> live s \<Longrightarrow>
      \<exists>t. release (b + 8) s = Inr ((), t) \<and> good t \<and> live t = live s - {(b, sz)} \<and>
        (\<forall>x \<in> live_words (live s - {(b, sz)}). contents t x = contents s x)"
begin

lemma alloc_then_release:
  assumes "good s" and "0 < n" and "n < limit" and "alloc n s = Inr (p, t)"
  shows "\<exists>u. release p t = Inr ((), u) \<and> good u \<and> live u = live s \<and> (\<forall>x \<in> live_words (live s). contents u x = contents s x)"
proof -
  obtain sz where t: "good t" "8 \<le> p" "n + 8 \<le> sz" "live t = insert (p - 8, sz) (live s)"
    "\<forall>(b, z) \<in> live s. b + z \<le> p - 8 \<or> p - 8 + sz \<le> b" "\<forall>x \<in> live_words (live s). contents t x = contents s x"
    using alloc_law [OF assms(1-3)] assms(4) by auto
  have "(p - 8, sz) \<notin> live s"
  proof
    assume "(p - 8, sz) \<in> live s"
    then have "p - 8 + sz \<le> p - 8 \<or> p - 8 + sz \<le> p - 8" using t(5) by blast
    then show False using t(3) by simp
  qed
  then have rest: "live t - {(p - 8, sz)} = live s" using t(4) by auto
  have "(p - 8, sz) \<in> live t" using t(4) by simp
  from release_law [OF t(1) this] obtain u where "release (p - 8 + 8) t = Inr ((), u)" "good u" "live u = live s"
    "\<forall>x \<in> live_words (live s). contents u x = contents t x" unfolding rest by blast
  then show ?thesis using t(2,6) by auto
qed

lemma allocs_apart:
  assumes "good s" and "0 < n" and "n < limit" and "alloc n s = Inr (p, t)"
    and "0 < k" and "k < limit" and "alloc k t = Inr (q, u)"
  shows "p + n \<le> q \<or> q + k \<le> p"
proof -
  obtain sz where t: "good t" "8 \<le> p" "n + 8 \<le> sz" "live t = insert (p - 8, sz) (live s)"
    using alloc_law [OF assms(1-3)] assms(4) by auto
  obtain z where u: "8 \<le> q" "k + 8 \<le> z" "\<forall>(b, y) \<in> live t. b + y \<le> q - 8 \<or> q - 8 + z \<le> b"
    using alloc_law [OF t(1) assms(5,6)] assms(7) by auto
  have "p - 8 + sz \<le> q - 8 \<or> q - 8 + z \<le> p - 8" using u(3) t(4) by blast
  then show ?thesis using t(2,3) u(1,2) by linarith
qed

end

definition mm_good :: "mm_state \<Rightarrow> bool" where
  "mm_good s \<longleftrightarrow> (\<exists>bs fs. mm_inv s bs fs)"

lemma payload_live: "payload a bs = live_words (used_at a bs)"
  by (simp add: payload_def live_words_def)

lemma mm_malloc_run:
  assumes inv: "mm_inv s bs fs" and n: "0 < n" "n < 2 ^ 62" and page: "page_size pg"
  shows "case mm_malloc pg n s of
      Inl e \<Rightarrow> e = Exit 0 \<and> (\<forall>f \<in> set fs. SIZE (cell s f) < request_size n) \<and> mem_max_addr s < mem_brk s + pages_for pg (request_size n)
    | Inr (p, t) \<Rightarrow> (\<exists>bs' fs' sz. mm_inv t bs' fs' \<and> mem_start_brk t = mem_start_brk s \<and> 16 \<le> p \<and> 8 dvd p \<and> n + 8 \<le> sz
        \<and> used_at (block0 s) bs' = insert (p - 8, sz) (used_at (block0 s) bs)
        \<and> (\<forall>(b, z) \<in> used_at (block0 s) bs. b + z \<le> p - 8 \<or> p - 8 + sz \<le> b)
        \<and> (\<forall>x \<in> payload (block0 s) bs. cell t x = cell s x))"
proof -
  let ?r = "request_size n"
  note r = request_size_bounds [OF n(2)] and pg = page_size_bounds [OF page]
  have take: "\<exists>bs' fs' sz t. mm_malloc_take ?r f u = Inr (f + 8, t) \<and> mm_inv t bs' fs' \<and> mem_start_brk t = mem_start_brk u
      \<and> 16 \<le> f + 8 \<and> 8 dvd f + 8 \<and> n + 8 \<le> sz \<and> used_at (block0 u) bs' = insert (f, sz) (used_at (block0 u) bs)
      \<and> (\<forall>(b, z) \<in> used_at (block0 u) bs. b + z \<le> f \<or> f + sz \<le> b) \<and> (\<forall>x \<in> payload (block0 u) bs. cell t x = cell u x)"
    if u: "mm_inv u bs fs" "f \<in> set fs" "?r \<le> SIZE (cell u f)" for u f bs fs
  proof -
    have l: "mm_loose u bs fs" using mm_inv_loose [OF u(1)] .
    note D = mm_looseD [OF l]
    have f: "f \<in> free_at (block0 u) bs" using u(2) D(10) by blast
    obtain xs B ys where b: "bs = xs @ (B, False) # ys" "f = block0 u + sizes xs" "SIZE (cell u f) = B"
      using free_header [OF l f] by metis
    have "8 dvd f" "8 \<le> f" using free_at_dvd [OF D(3) _ f] D(1) b(2) by auto
    moreover obtain h bs' fs' sz where "mm_malloc_take ?r f u = Inr (f + 8, u\<lparr>cell := h\<rparr>)" "mm_inv (u\<lparr>cell := h\<rparr>) bs' fs'"
      "?r \<le> sz" "used_at (block0 u) bs' = insert (f, sz) (used_at (block0 u) bs)"
      "\<forall>(b, z) \<in> used_at (block0 u) bs. b + z \<le> f \<or> f + sz \<le> b" "\<forall>x \<in> payload (block0 u) bs. h x = cell u x"
      using malloc_take_run [of u xs B ys fs ?r] u(1,3) r b by auto
    ultimately show ?thesis using r(3) by (intro exI [of _ bs'] exI [of _ fs'] exI [of _ sz] exI [of _ "u\<lparr>cell := h\<rparr>"]) simp
  qed
  obtain f where f: "searchFreeList ?r s = Inr (f, s)"
    "f = 0 \<and> (\<forall>g \<in> set fs. SIZE (cell s g) < ?r) \<or> f \<in> set fs \<and> ?r \<le> SIZE (cell s f)"
    using searchFreeList_run [OF inv] by blast
  have "0 \<notin> set fs"
    using mm_looseD(10) [OF mm_inv_loose [OF inv]] free_at_bounds [OF mm_looseD(3) [OF mm_inv_loose [OF inv]], of 0 "block0 s"] by auto
  then have f0: "f = 0 \<longleftrightarrow> \<not> (f \<in> set fs \<and> ?r \<le> SIZE (cell s f))" using f(2) by metis
  show ?thesis
  proof (cases "f = 0")
    case False
    then have "mm_malloc pg n s = mm_malloc_take ?r f s" using f(1) n by (simp add: mm_malloc_def Let_def bnd_def ret_run)
    moreover have "f \<in> set fs" "?r \<le> SIZE (cell s f)" using f0 False by auto
    from take [OF inv this] obtain bs' fs' sz t where "mm_malloc_take ?r f s = Inr (f + 8, t)" "mm_inv t bs' fs'"
      "mem_start_brk t = mem_start_brk s" "16 \<le> f + 8" "8 dvd f + 8" "n + 8 \<le> sz"
      "used_at (block0 s) bs' = insert (f, sz) (used_at (block0 s) bs)"
      "\<forall>(b, z) \<in> used_at (block0 s) bs. b + z \<le> f \<or> f + sz \<le> b" "\<forall>x \<in> payload (block0 s) bs. cell t x = cell s x" by blast
    ultimately show ?thesis by simp blast
  next
    case True
    then have small: "\<forall>g \<in> set fs. SIZE (cell s g) < ?r" using f(2) \<open>0 \<notin> set fs\<close> by auto
    have run: "mm_malloc pg n s =
        bnd (requestMoreSpace pg ?r) (\<lambda>_. bnd (searchFreeList ?r) (mm_malloc_take ?r)) s"
      using f(1) n True by (simp add: mm_malloc_def Let_def bnd_def split: sum.split prod.split)
    note more = requestMoreSpace_run [OF inv _ _ _ r(1,2), of pg]
    show ?thesis
    proof (cases "mem_max_addr s < mem_brk s + pages_for pg ?r")
      case True
      then show ?thesis using more(1) pg r(4) n small run by (simp add: bnd_def)
    next
      case False
      then obtain t bs1 fs1 where t: "requestMoreSpace pg ?r s = Inr ((), t)" "mm_inv t bs1 fs1" "mem_start_brk t = mem_start_brk s"
        "used_at (block0 s) bs1 = used_at (block0 s) bs" "\<forall>x \<in> payload (block0 s) bs. cell t x = cell s x"
        "\<exists>f \<in> set fs1. ?r \<le> SIZE (cell t f)"
        using more(2) pg r(4) n by auto
      obtain g where g: "searchFreeList ?r t = Inr (g, t)" "g \<in> set fs1" "?r \<le> SIZE (cell t g)"
        using searchFreeList_run [OF t(2), of ?r] t(6) by (metis linorder_not_less)
      from take [OF t(2) g(2,3)] obtain bs' fs' sz u where u: "mm_malloc_take ?r g t = Inr (g + 8, u)" "mm_inv u bs' fs'"
        "mem_start_brk u = mem_start_brk s" "16 \<le> g + 8" "8 dvd g + 8" "n + 8 \<le> sz"
        "used_at (block0 s) bs' = insert (g, sz) (used_at (block0 s) bs)"
        "\<forall>(b, z) \<in> used_at (block0 s) bs. b + z \<le> g \<or> g + sz \<le> b" "\<forall>x \<in> payload (block0 s) bs. cell u x = cell t x"
        unfolding t(3) t(4) payload_live by (elim exE conjE)
      have m: "mm_malloc pg n s = Inr (g + 8, u)" using run t(1) g(1) u(1) by (simp add: bnd_def)
      have "\<forall>x \<in> payload (block0 s) bs. cell u x = cell s x" using u(9) t(5) by simp
      then show ?thesis using u(2-8) unfolding m
        by (simp only: sum.case prod.case) (intro exI [of _ bs'] exI [of _ fs'] exI [of _ sz], simp)
    qed
  qed
qed

end
