(* ===== verification/MmSpec.thy ===== *)
theory MmSpec
  imports MmHeap
begin

text \<open>
  What the allocator of uw\_cse351/lab5 promises its callers: \<open>mm_init\<close>, \<open>mm_malloc\<close>, \<open>mm_realloc\<close> and \<open>mm_free\<close> on every
  well-formed heap, the interface \<open>heap_allocator\<close> they implement, and every heap that a sequence of calls can reach.
\<close>

section \<open>Initialising the heap\<close>

definition fresh_heap :: "mm_state \<Rightarrow> bool" where
  "fresh_heap s \<longleftrightarrow> 8 dvd mem_start_brk s \<and> 0 < mem_start_brk s \<and> mem_brk s = mem_start_brk s \<and>
     mem_start_brk s + 48 \<le> mem_max_addr s \<and> mem_max_addr s < 2 ^ 63"

lemma mm_init_run:
  assumes "fresh_heap s"
  shows "\<exists>t. mm_init s = Inr (0, t) \<and> mm_inv t [(32, False)] [block0 s] \<and> mem_start_brk t = mem_start_brk s \<and> mem_brk t = mem_start_brk s + 48
    \<and> mem_max_addr t = mem_max_addr s"
proof -
  let ?lo = "mem_start_brk s"
  have f: "8 dvd ?lo" "0 < ?lo" "mem_brk s = ?lo" "?lo + 48 \<le> mem_max_addr s" "mem_max_addr s < 2 ^ 63"
    using assms by (auto simp: fresh_heap_def)
  define s1 where "s1 = s\<lparr>mem_brk := ?lo + 48\<rparr>"
  let ?H = "header 32 True False"
  define h where "h = (cell s)(?lo + 8 := ?H, ?lo + 16 := 0, ?lo + 24 := 0, ?lo + 32 := ?H, ?lo + 40 := header 0 False True, ?lo := ?lo + 8)"
  have sb: "mem_sbrk (WORD_SIZE + MIN_BLOCK_SIZE + WORD_SIZE) s = Inr (?lo, s1)"
    using f by (simp add: mem_sbrk_def Let_def s1_def WORD_SIZE_def MIN_BLOCK_SIZE_def sizeof_BlockInfo_def add64_def)
  have v: "valid_word s1 x" if "8 dvd x" "?lo \<le> x" "x < ?lo + 48" for x
  proof -
    have "x + 8 \<le> ?lo + 48" using that f(1) by presburger
    then show ?thesis using that by (auto simp: valid_word_def s1_def)
  qed
  have ptr: "POINTER_ADD (mem_heap_lo s1) 8 = ?lo + 8" "POINTER_ADD (?lo + 8) 24 = ?lo + 32"
    "POINTER_SUB (mem_heap_hi s1) 7 = ?lo + 40"
    using f pointer_small(1) [of ?lo 8] pointer_small(1) [of "?lo + 8" 24] pointer_small(2) [of 7 "47 + ?lo"]
    by (simp_all add: mem_heap_lo_def mem_heap_hi_def s1_def)
  have tags: "32 OR TAG_PRECEDING_USED = ?H" "TAG_USED = header 0 False True" by (simp_all add: plain_tags header_def TAG_USED_def)
  have lo: "mem_heap_lo (s1\<lparr>cell := g\<rparr>) = ?lo" "cell s1 = cell s" for g by (simp_all add: mem_heap_lo_def s1_def)
  have run: "mm_init s = Inr (0, s1\<lparr>cell := h\<rparr>)"
    unfolding mm_init_def Let_def bnd_Inr [of "mem_sbrk _" s, OF sb]
    using f v by (simp add: WORD_SIZE_def MIN_BLOCK_SIZE_def sizeof_BlockInfo_def ptr tags lo bnd_def ret_run wr_def set_next_def set_prev_def set_head_def h_def add.commute)
  have "mm_inv (s1\<lparr>cell := h\<rparr>) [(32, False)] [?lo + 8]"
    using f by (simp add: mm_inv_def mm_loose_def s1_def h_def)
  then show ?thesis using run by (intro exI [of _ "s1\<lparr>cell := h\<rparr>"]) (simp add: s1_def)
qed

section \<open>The allocator implements the interface\<close>

lemma mm_good_blocks: "mm_inv s bs fs \<Longrightarrow> mm_good s \<and> used_blocks s = used_at (block0 s) bs"
  using examine_heap_run(2) by (auto simp: mm_good_def)

lemma mm_free_blocks:
  assumes inv: "mm_inv s bs fs" and b: "(b, sz) \<in> used_at (block0 s) bs"
  shows "\<exists>t bs' fs'. mm_free (b + 8) s = Inr ((), t) \<and> mm_inv t bs' fs' \<and> mem_start_brk t = mem_start_brk s
    \<and> used_at (block0 s) bs' = used_at (block0 s) bs - {(b, sz)}
    \<and> (\<forall>x \<in> live_words (used_at (block0 s) bs - {(b, sz)}). cell t x = cell s x)"
proof -
  obtain xs ys where bs: "bs = xs @ (sz, True) # ys" "b = block0 s + sizes xs" using used_at_split [OF b] by blast
  obtain h bs' fs' where h: "mm_free (b + 8) s = Inr ((), s\<lparr>cell := h\<rparr>)" "mm_inv (s\<lparr>cell := h\<rparr>) bs' fs'"
    "used_at (block0 s) bs' = used_at (block0 s) (xs @ (sz, False) # ys)"
    "\<forall>x \<in> live_words (used_at (block0 s) (xs @ (sz, False) # ys)). h x = cell s x"
    using mm_free_run [of s xs sz ys fs] inv bs by (auto simp: payload_live)
  have "sized bs" using mm_looseD(3) [OF mm_inv_loose [OF inv]] .
  then have "used_at (block0 s) (xs @ (sz, False) # ys) = used_at (block0 s) bs - {(b, sz)}"
    using used_at_middle(1,2) [of xs sz True ys "block0 s"] bs by auto
  then show ?thesis using h by (intro exI [of _ "s\<lparr>cell := h\<rparr>"] exI [of _ bs'] exI [of _ fs']) simp
qed

lemma mm_allocates:
  assumes "mm_good s" and "0 < n" "n < 2 ^ 62" and "page_size pg"
  shows "case mm_malloc pg n s of
      Inl e \<Rightarrow> e = Exit 0
    | Inr (p, t) \<Rightarrow> mm_good t \<and> 8 \<le> p \<and> (\<exists>sz. n + 8 \<le> sz \<and> used_blocks t = insert (p - 8, sz) (used_blocks s) \<and>
        (\<forall>(b, z) \<in> used_blocks s. b + z \<le> p - 8 \<or> p - 8 + sz \<le> b)) \<and>
        (\<forall>x \<in> live_words (used_blocks s). cell t x = cell s x)"
proof -
  obtain bs fs where inv: "mm_inv s bs fs" using assms(1) by (auto simp: mm_good_def)
  note u = mm_good_blocks [OF inv] and run = mm_malloc_run [OF inv assms(2-4)]
  show ?thesis
  proof (cases "mm_malloc pg n s")
    case (Inl e)
    then show ?thesis using run by simp
  next
    case (Inr r)
    obtain p t where r: "r = (p, t)" by (cases r)
    obtain bs' fs' sz where t: "mm_inv t bs' fs'" "mem_start_brk t = mem_start_brk s" "16 \<le> p" "n + 8 \<le> sz"
      "used_at (block0 s) bs' = insert (p - 8, sz) (used_at (block0 s) bs)"
      "\<forall>(b, z) \<in> used_at (block0 s) bs. b + z \<le> p - 8 \<or> p - 8 + sz \<le> b"
      "\<forall>x \<in> payload (block0 s) bs. cell t x = cell s x"
      using run Inr r by auto
    have ub: "used_blocks t = insert (p - 8, sz) (used_blocks s)" "mm_good t" using mm_good_blocks [OF t(1)] t(2,5) u by simp_all
    have "\<forall>(b, z) \<in> used_blocks s. b + z \<le> p - 8 \<or> p - 8 + sz \<le> b" using t(6) u by simp
    moreover have "\<forall>x \<in> live_words (used_blocks s). cell t x = cell s x" using t(7) u by (simp add: payload_live)
    ultimately show ?thesis using ub t(3,4) Inr r by (simp add: exI [of _ sz])
  qed
qed

lemma mm_releases:
  assumes "mm_good s" and "(b, sz) \<in> used_blocks s"
  shows "\<exists>t. mm_free (b + 8) s = Inr ((), t) \<and> mm_good t \<and> used_blocks t = used_blocks s - {(b, sz)} \<and>
        (\<forall>x \<in> live_words (used_blocks s - {(b, sz)}). cell t x = cell s x)"
proof -
  obtain bs fs where inv: "mm_inv s bs fs" using assms(1) by (auto simp: mm_good_def)
  note u = mm_good_blocks [OF inv]
  obtain t bs' fs' where t: "mm_free (b + 8) s = Inr ((), t)" "mm_inv t bs' fs'" "mem_start_brk t = mem_start_brk s"
    "used_at (block0 s) bs' = used_at (block0 s) bs - {(b, sz)}"
    "\<forall>x \<in> live_words (used_at (block0 s) bs - {(b, sz)}). cell t x = cell s x"
    using mm_free_blocks [OF inv] assms(2) u by metis
  then show ?thesis using mm_good_blocks [OF t(2)] u by (intro exI [of _ t]) simp
qed

lemma mm_heap_allocator: "page_size pg \<Longrightarrow> heap_allocator mm_good used_blocks cell (mm_malloc pg) mm_free (2 ^ 62)"
  by unfold_locales (use mm_allocates mm_releases in blast)+

end
