(* ===== verification/MmRealloc.thy ===== *)
theory MmRealloc
  imports MmSpec
begin

text \<open>
  \<open>mm_realloc\<close> of uw\_cse351/lab5/mm.c: taking in the free block that follows, giving back the end of a block, and moving
  to a new block.
\<close>

section \<open>Taking in the following block\<close>

lemma realloc_combine_run:
  assumes inv: "mm_inv s (xs @ (B, True) # (C, False) # ys) fs" and req: "B < req" "req \<le> B + C"
  defines "a \<equiv> block0 s + sizes xs"
  shows "\<exists>h fs'. mm_realloc_combine a B req (2 * of_bool (last_used True xs)) s = Inr (B + C, s\<lparr>cell := h\<rparr>)
     \<and> mm_inv (s\<lparr>cell := h\<rparr>) (xs @ (B + C, True) # ys) fs'
     \<and> (\<forall>x \<in> payload (block0 s) (xs @ (B, True) # (C, False) # ys). h x = cell s x)"
proof -
  let ?bs = "xs @ (B, True) # (C, False) # ys" and ?pu = "last_used True xs" and ?n = "a + B"
  let ?E = "a + B + C"
  have l: "mm_loose s ?bs fs" using mm_inv_loose [OF inv] .
  note D = mm_looseD [OF l]
  have sz: "sized xs" "sized ys" "8 dvd B" "32 \<le> B" "8 dvd C" "32 \<le> C" "B + C < 2 ^ 63" "?E + 8 \<le> mem_brk s" "mem_brk s < 2 ^ 63" "8 dvd a"
    using D(1,3,4,5) sizes_dvd [of xs] by (auto simp: a_def)
  have free: "set fs = free_at (block0 s) xs \<union> {?n} \<union> free_at ?E ys" using mm_inv_free [OF inv] by (auto simp: free_at_append a_def add_ac)
  obtain h1 where h1: "removeFreeBlock ?n s = Inr ((), s\<lparr>cell := h1\<rparr>)" "mm_loose (s\<lparr>cell := h1\<rparr>) ?bs (remove1 ?n fs)"
    "relinked (mem_start_brk s) (free_at (block0 s) ?bs) (cell s) h1"
    using remove_loose [OF l, of ?n] free by auto
  define s1 fs1 where "s1 = s\<lparr>cell := h1\<rparr>" and "fs1 = remove1 ?n fs"
  have l1: "mm_loose s1 (xs @ [(B, True), (C, False)] @ ys) fs1" using h1(2) by (simp add: s1_def fs1_def)
  have "?n \<notin> free_at (block0 s) xs" "?n \<notin> free_at ?E ys"
    using free_at_bounds [OF sz(1), of ?n "block0 s"] free_at_bounds [OF sz(2), of ?n ?E] sz by (auto simp: a_def)
  then have fs1: "set fs1 = free_at (block0 s) xs \<union> free_at ?E ys" using free D(9) by (auto simp: fs1_def)
  have v: "valid_word s x" if "8 dvd x" "a \<le> x" "x \<le> ?E" for x
    by (rule loose_valid [OF l that(1)]) (use that in \<open>auto simp: a_def\<close>)
  have l0: "mm_loose s ((xs @ [(B, True)]) @ (C, False) # ys) fs" using l by simp
  have rdn: "rd ?n s = Inr (header C True False, s)" using header_at(1) [OF l0] by (simp add: a_def add_ac)
  have l1': "mm_loose s1 ((xs @ [(B, True), (C, False)]) @ ys) fs1" using l1 by simp
  let ?F = "\<lambda>p. header (fst (front ys)) p (snd (front ys))"
  have cE: "h1 ?E = ?F False" "8 dvd fst (front ys)"
    using header_at [OF l1'] by (auto simp: rd_def s1_def a_def add_ac split: if_splits)
  define h2 where "h2 = h1(a := header (B + C) ?pu True, ?n := 0, ?E := ?F True)"
  have E: "sizes [(B, True), (C, False)] = B + C" "block0 s1 + sizes xs = a" by (simp_all add: s1_def a_def)
  have fs': "set fs1 \<subseteq> free_at (block0 s1) xs \<union> free_at (block0 s1 + sizes xs + sizes [(B, True), (C, False)]) ys"
    using fs1 by (simp add: s1_def a_def add_ac)
  have M': "sized [(B + C, True)]" "sizes [(B + C, True)] = sizes [(B, True), (C, False)]" using sz by simp_all
  have out: "x < a \<Longrightarrow> h2 x = cell s1 x" "a + (B + C) < x \<Longrightarrow> h2 x = cell s1 x" for x
    using sz by (simp_all add: h2_def s1_def)
  have seg: "seg h2 a ?pu [(B + C, True)]" using sz by (simp add: h2_def)
  have tag: "h2 (a + (B + C)) = header (fst (front ys)) (last_used True (xs @ [(B + C, True)])) (snd (front ys))"
    by (simp add: h2_def add.assoc)
  note rb = replace_blocks [OF l1 M' fs', of h2, unfolded E, OF out seg tag]
  have l2: "mm_loose (s\<lparr>cell := h2\<rparr>) (xs @ (B + C, True) # ys) fs1" using rb(1) by (simp add: s1_def)
  then have "mm_inv (s\<lparr>cell := h2\<rparr>) (xs @ (B + C, True) # ys) fs1"
    using fs1 by (auto simp: mm_inv_def free_at_append a_def add_ac)
  moreover have "h2 x = cell s x" if x: "x \<in> payload (block0 s) ?bs" for x
  proof -
    have "h2 x = h1 x"
    proof (cases "x \<in> {a + 8..<a + B}")
      case True
      then show ?thesis by (auto simp: h2_def)
    next
      case False
      then have "x \<in> payload (block0 s) xs \<union> payload ?E ys" using x by (auto simp: payload_append payload_Cons a_def)
      then show ?thesis using rb(2) [of x] by (simp add: s1_def add.assoc)
    qed
    then show ?thesis using relinked_payload [OF l h1(3) x] by simp
  qed
  moreover have "mm_realloc_combine a B req (2 * of_bool ?pu) s = Inr (B + C, s\<lparr>cell := h2\<rparr>)"
  proof -
    have va: "valid_word s a" "valid_word s ?n" "valid_word s ?E" using sz v by auto
    have ptr: "POINTER_ADD a B = ?n" "POINTER_ADD a (B + C) = ?E" "add64 B C = B + C"
      using sz pointer_small(1) [of a B] pointer_small(1) [of a "B + C"] by (simp_all add: add.assoc)
    have steps: "wr a ((B + C) OR 2 * of_bool ?pu) s1 = Inr ((), s\<lparr>cell := h1(a := header (B + C) ?pu False)\<rparr>)"
      "rd a (s\<lparr>cell := h1(a := header (B + C) ?pu False)\<rparr>) = Inr (header (B + C) ?pu False, s\<lparr>cell := h1(a := header (B + C) ?pu False)\<rparr>)"
      "wr a (header (B + C) ?pu False OR TAG_USED) (s\<lparr>cell := h1(a := header (B + C) ?pu False)\<rparr>) = Inr ((), s\<lparr>cell := h1(a := header (B + C) ?pu True)\<rparr>)"
      "wr ?n 0 (s\<lparr>cell := h1(a := header (B + C) ?pu True)\<rparr>) = Inr ((), s\<lparr>cell := h1(a := header (B + C) ?pu True, ?n := 0)\<rparr>)"
      "rd ?E (s\<lparr>cell := h1(a := header (B + C) ?pu True, ?n := 0)\<rparr>) = Inr (?F False, s\<lparr>cell := h1(a := header (B + C) ?pu True, ?n := 0)\<rparr>)"
      "wr ?E (?F False OR TAG_PRECEDING_USED) (s\<lparr>cell := h1(a := header (B + C) ?pu True, ?n := 0)\<rparr>) = Inr ((), s\<lparr>cell := h2\<rparr>)"
      using va sz cE by (simp_all add: wr_def rd_def s1_def h2_def plain_tags)
    have C: "8 dvd C" "C < 2 ^ 63" using sz by auto
    show ?thesis
      unfolding mm_realloc_combine_def if_P [OF req(1)] Let_def ptr bnd_Inr [of "rd ?n" s, OF rdn]
      unfolding SIZE_header [OF C] header_tags(2) [OF C(1)] ptr
      using req(2) steps h1(1) by (simp add: bnd_def ret_run s1_def ptr)
  qed
  ultimately show ?thesis by blast
qed

section \<open>Giving back the end of a block\<close>

text \<open>\<open>insertFreeBlock\<close> runs before the tag of the block that follows is cleared: it does not read that tag.\<close>

lemma insert_before_tag:
  assumes l: "mm_loose (s\<lparr>cell := h(E := w)\<rparr>) bs fs" and f: "f \<in> free_at (block0 s) bs" "f \<notin> set fs"
    and E: "mem_start_brk s < E" "E \<notin> links (free_at (block0 s) bs)"
  shows "\<exists>g. insertFreeBlock f (s\<lparr>cell := h\<rparr>) = Inr ((), s\<lparr>cell := g\<rparr>) \<and> g E = h E
     \<and> mm_loose (s\<lparr>cell := g(E := w)\<rparr>) bs (f # fs)
     \<and> relinked (mem_start_brk s) (free_at (block0 s) bs) (h(E := w)) (g(E := w))"
proof -
  note D = mm_looseD [OF l]
  have F: "insert f (set fs) \<subseteq> free_at (block0 s) bs" using f D(10) by simp
  have sp: "spaced (mem_start_brk s) (insert f (set fs))" using spaced_mono [OF loose_spaced [OF l], of "insert f (set fs)"] F by simp
  have "linkable (s\<lparr>cell := h(E := w)\<rparr>) (insert f (set fs))"
    using linkable_mono [OF loose_linkable [OF l], of "insert f (set fs)"] F by simp
  then have li: "linkable (s\<lparr>cell := h\<rparr>) (insert f (set fs))" by (simp add: linkable_def valid_word_def)
  have apart: "k + 8 \<noteq> E \<and> k + 16 \<noteq> E" if "k \<in> insert f (set fs)" for k
    using that F E(2) unfolding links_def by blast
  have "dl h None (h (mem_start_brk s)) fs 0"
    using dl_cong [of fs h "h(E := w)"] apart D(8) E(1) by simp
  then obtain g where g: "insertFreeBlock f (s\<lparr>cell := h\<rparr>) = Inr ((), s\<lparr>cell := g\<rparr>)" "dl g None (g (mem_start_brk s)) (f # fs) 0"
    "relinked (mem_start_brk s) (insert f (set fs)) h g"
    using insertFreeBlock_run [of "s\<lparr>cell := h\<rparr>" f fs] sp li f(2) D(9) by auto
  have rl: "relinked (mem_start_brk s) (free_at (block0 s) bs) h g" using relinked_mono [OF g(3) F] .
  have "g E = h E" using rl E by (simp add: relinked_def)
  moreover have rl': "relinked (mem_start_brk s) (free_at (block0 s) bs) (h(E := w)) (g(E := w))" using rl by (simp add: relinked_def)
  moreover have "dl (g(E := w)) None (g (mem_start_brk s)) (f # fs) 0" by (rule dl_cong [OF _ g(2)]) (use apart in auto)
  then have "mm_loose (s\<lparr>cell := g(E := w)\<rparr>) bs (f # fs)"
    using loose_relink [OF l, of "g(E := w)" "f # fs"] rl' D(9) E(1) F f by simp
  ultimately show ?thesis using g(1) by blast
qed

lemma boundary_not_link:
  assumes "sized (xs @ ys)"
  shows "a + sizes xs \<notin> links (free_at a (xs @ ys))"
proof -
  have sz: "sized xs" "sized ys" using assms by auto
  have "f + 8 \<noteq> a + sizes xs \<and> f + 16 \<noteq> a + sizes xs" if "f \<in> free_at a (xs @ ys)" for f
    using that free_at_bounds [OF sz(1), of f a] free_at_bounds [OF sz(2), of f "a + sizes xs"] unfolding free_at_append by auto
  then show ?thesis unfolding links_def by fastforce
qed

lemma realloc_split_run:
  assumes inv: "mm_inv s (xs @ (B, True) # ys) fs" and req: "8 dvd req" "32 \<le> req" "req \<le> B"
  defines "a \<equiv> block0 s + sizes xs"
  shows "\<exists>h bs' fs' sz. mm_realloc_split a B req (2 * of_bool (last_used True xs)) s = Inr ((), s\<lparr>cell := h\<rparr>)
     \<and> mm_inv (s\<lparr>cell := h\<rparr>) bs' fs' \<and> req \<le> sz \<and> sz \<le> B
     \<and> used_at (block0 s) bs' = insert (a, sz) (used_at (block0 s) (xs @ (B, False) # ys))
     \<and> (\<forall>x \<in> payload (block0 s) (xs @ (B, False) # ys) \<union> {a + 8..<a + req}. h x = cell s x)"
proof -
  let ?bs = "xs @ (B, True) # ys" and ?pu = "last_used True xs"
  let ?E = "a + B" and ?n = "a + req"
  have l: "mm_loose s (xs @ [(B, True)] @ ys) fs" using mm_inv_loose [OF inv] by simp
  note D = mm_looseD [OF l]
  have sz: "sized xs" "sized ys" "8 dvd B" "32 \<le> B" "B < 2 ^ 63" "?E + 8 \<le> mem_brk s" "mem_brk s < 2 ^ 63" "8 dvd a"
    using D(1,3,4,5) sizes_dvd [of xs] by (auto simp: a_def)
  have free: "set fs = free_at (block0 s) xs \<union> free_at ?E ys" using mm_inv_free [OF inv] by (auto simp: free_at_append a_def add_ac)
  have ptr: "POINTER_ADD a req = ?n" "POINTER_ADD a B = ?E" "POINTER_ADD a (sub64 B WORD_SIZE) = ?E - 8" "sub64 B req = B - req" "MIN_BLOCK_SIZE = 32"
    using sz req pointer_small(1) [of a req] pointer_small(1) [of a B] pointer_small(1) [of a "B - 8"]
    by (simp_all add: WORD_SIZE_def MIN_BLOCK_SIZE_def sizeof_BlockInfo_def)
  have used: "used_at (block0 s) ?bs = insert (a, B) (used_at (block0 s) (xs @ (B, False) # ys))"
    by (auto simp: used_at_append a_def)
  show ?thesis
  proof (cases "32 \<le> B - req")
    case False
    then have "mm_realloc_split a B req (2 * of_bool ?pu) s = Inr ((), s)" unfolding mm_realloc_split_def ptr by (simp add: ret_run)
    then show ?thesis using inv used req by (intro exI [of _ "cell s"] exI [of _ ?bs] exI [of _ fs] exI [of _ B]) simp
  next
    case True
    let ?R = "header (B - req) True False" and ?bs' = "xs @ (req, True) # (B - req, False) # ys"
    let ?F = "\<lambda>p. header (fst (front ys)) p (snd (front ys))"
    define h where "h = (cell s)(a := header req ?pu True, ?n := ?R, ?E - 8 := ?R)"
    have r: "8 dvd B - req" "B - req < 2 ^ 63" using sz req by auto
    have order: "a < ?n" "?n < ?E - 8" "?E - 8 < ?E" using req True by auto
    have l': "mm_loose s ((xs @ [(B, True)]) @ ys) fs" using l by simp
    have cE: "cell s ?E = ?F True" "8 dvd fst (front ys)" "fst (front ys) < 2 ^ 63"
      using header_at [OF l'] by (auto simp: rd_def a_def add_ac split: if_splits)
    let ?h = "h(?E := ?F False)"
    have E: "sizes [(B, True)] = B" by simp
    have fs': "set fs \<subseteq> free_at (block0 s) xs \<union> free_at (block0 s + sizes xs + sizes [(B, True)]) ys"
      using free by (simp add: a_def)
    have M': "sized [(req, True), (B - req, False)]" "sizes [(req, True), (B - req, False)] = sizes [(B, True)]"
      using req True r by simp_all
    have out: "x < a \<Longrightarrow> ?h x = cell s x" "?E < x \<Longrightarrow> ?h x = cell s x" for x
      using order by (simp_all add: h_def)
    have "?h a = header req ?pu True" "?h ?n = ?R" "?h (?n + (B - req) - 8) = ?R" using order req by (auto simp: h_def)
    then have seg: "seg ?h a ?pu [(req, True), (B - req, False)]" using r by simp
    have tag: "?h ?E = header (fst (front ys)) (last_used True (xs @ [(req, True), (B - req, False)])) (snd (front ys))"
      by simp
    note rb = replace_blocks [OF l M' fs', of ?h, folded a_def, unfolded E, OF out seg tag]
    have l2: "mm_loose (s\<lparr>cell := ?h\<rparr>) ?bs' fs" using rb(1) by simp
    have nf: "?n \<in> free_at (block0 s) ?bs'" "?n \<notin> set fs"
      using free free_at_bounds [OF sz(1), of ?n "block0 s"] free_at_bounds [OF sz(2), of ?n ?E] req True by (auto simp: free_at_append a_def)
    have "sized ((xs @ [(req, True), (B - req, False)]) @ ys)" using mm_looseD(3) [OF l2] by simp
    from boundary_not_link [OF this, of "block0 s"] have nE: "?E \<notin> links (free_at (block0 s) ?bs')" using req by (simp add: a_def add_ac)
    obtain g where g: "insertFreeBlock ?n (s\<lparr>cell := h\<rparr>) = Inr ((), s\<lparr>cell := g\<rparr>)" "g ?E = h ?E"
      "mm_loose (s\<lparr>cell := g(?E := ?F False)\<rparr>) ?bs' (?n # fs)"
      "relinked (mem_start_brk s) (free_at (block0 s) ?bs') ?h (g(?E := ?F False))"
      using insert_before_tag [OF l2 nf _ nE] by (auto simp: a_def)
    let ?g = "g(?E := ?F False)"
    have "mm_inv (s\<lparr>cell := ?g\<rparr>) ?bs' (?n # fs)"
      using g(3) free req by (auto simp: mm_inv_def free_at_append a_def add.assoc)
    moreover have "mm_realloc_split a B req (2 * of_bool ?pu) s = Inr ((), s\<lparr>cell := ?g\<rparr>)"
    proof -
      have "8 dvd ?n" "8 dvd ?E - 8" "8 dvd ?E" using sz req by auto
      then have va: "valid_word s a" "valid_word s ?n" "valid_word s (?E - 8)" "valid_word s ?E"
        using sz order loose_valid [OF l, of a] loose_valid [OF l, of ?n] loose_valid [OF l, of "?E - 8"] loose_valid [OF l, of ?E]
        by (simp_all add: a_def)
      have gE: "g ?E = ?F True" using g(2) cE(1) order by (simp add: h_def)
      have steps: "wr a (req OR 2 * of_bool ?pu) s = Inr ((), s\<lparr>cell := (cell s)(a := header req ?pu False)\<rparr>)"
        "rd a (s\<lparr>cell := (cell s)(a := header req ?pu False)\<rparr>) = Inr (header req ?pu False, s\<lparr>cell := (cell s)(a := header req ?pu False)\<rparr>)"
        "wr a (header req ?pu False OR TAG_USED) (s\<lparr>cell := (cell s)(a := header req ?pu False)\<rparr>) = Inr ((), s\<lparr>cell := (cell s)(a := header req ?pu True)\<rparr>)"
        "wr ?n ((B - req) OR TAG_PRECEDING_USED) (s\<lparr>cell := (cell s)(a := header req ?pu True)\<rparr>) = Inr ((), s\<lparr>cell := (cell s)(a := header req ?pu True, ?n := ?R)\<rparr>)"
        "wr (?E - 8) ((B - req) OR TAG_PRECEDING_USED) (s\<lparr>cell := (cell s)(a := header req ?pu True, ?n := ?R)\<rparr>) = Inr ((), s\<lparr>cell := h\<rparr>)"
        "rd ?E (s\<lparr>cell := g\<rparr>) = Inr (?F True, s\<lparr>cell := g\<rparr>)"
        "wr ?E (?F True AND mask_out TAG_PRECEDING_USED) (s\<lparr>cell := g\<rparr>) = Inr ((), s\<lparr>cell := ?g\<rparr>)"
        using va req r cE gE by (simp_all add: wr_def rd_def h_def plain_tags)
      show ?thesis
        unfolding mm_realloc_split_def ptr if_P [OF True] Let_def using steps g(1) by (simp add: bnd_def)
    qed
    moreover have "used_at (block0 s) ?bs' = insert (a, req) (used_at (block0 s) (xs @ (B, False) # ys))"
      using req by (auto simp: used_at_append a_def add.assoc)
    moreover have "?g x = cell s x" if x: "x \<in> payload (block0 s) (xs @ (B, False) # ys) \<union> {a + 8..<?n}" for x
    proof -
      have "x \<in> payload (block0 s) ?bs'" using x req by (auto simp: payload_append payload_Cons a_def add.assoc)
      then have "?g x = ?h x" using relinked_payload [OF l2, of ?g x] g(4) by simp
      also have "?h x = cell s x"
      proof (cases "x \<in> {a + 8..<?n}")
        case True
        then show ?thesis using order by (auto simp: h_def)
      next
        case False
        then show ?thesis using x rb(2) [of x] by (auto simp: payload_append payload_Cons a_def)
      qed
      finally show ?thesis .
    qed
    ultimately show ?thesis using req by (intro exI [of _ ?g] exI [of _ ?bs'] exI [of _ "?n # fs"] exI [of _ req]) blast
  qed
qed

section \<open>Moving to a new block\<close>

definition copied :: "nat \<Rightarrow> nat \<Rightarrow> nat \<Rightarrow> (nat \<Rightarrow> nat) \<Rightarrow> nat \<Rightarrow> nat" where
  "copied n d p h x = (if \<exists>i < n. x = d + 8 * i then h (p + (x - d)) else h x)"

lemma copied_Suc:
  assumes "d + 8 * Suc n \<le> p \<or> p + 8 * Suc n \<le> d"
  shows "copied n (d + 8) (p + 8) (h(d := h p)) = copied (Suc n) d p h"
proof
  fix x
  have split: "(\<exists>i < Suc n. x = d + 8 * i) \<longleftrightarrow> x = d \<or> (\<exists>i < n. x = d + 8 + 8 * i)"
    by (auto simp: less_Suc_eq_0_disj)
  show "copied n (d + 8) (p + 8) (h(d := h p)) x = copied (Suc n) d p h x"
  proof (cases "\<exists>i < n. x = d + 8 + 8 * i")
    case True
    then obtain i where "i < n" "x = d + 8 + 8 * i" by blast
    moreover from this have "p + 8 + 8 * i \<noteq> d" using assms by auto
    ultimately show ?thesis using split by (auto simp: copied_def add_ac)
  next
    case False
    then show ?thesis using split by (auto simp: copied_def)
  qed
qed

lemma memcpy_words_run:
  "\<forall>i < n. valid_word s (d + 8 * i) \<and> valid_word s (p + 8 * i) \<Longrightarrow> d + 8 * n \<le> p \<or> p + 8 * n \<le> d \<Longrightarrow>
   memcpy_words n d p s = Inr ((), s\<lparr>cell := copied n d p (cell s)\<rparr>)"
proof (induction n arbitrary: d p s)
  case 0
  show ?case by (simp add: ret_run copied_def [abs_def])
next
  case (Suc n)
  define s1 where "s1 = s\<lparr>cell := (cell s)(d := cell s p)\<rparr>"
  have v: "valid_word s d" "valid_word s p" using Suc.prems(1) [rule_format, of 0] by simp_all
  have v1: "\<forall>i < n. valid_word s1 (d + 8 + 8 * i) \<and> valid_word s1 (p + 8 + 8 * i)"
  proof (intro allI impI)
    fix i assume "i < n"
    then show "valid_word s1 (d + 8 + 8 * i) \<and> valid_word s1 (p + 8 + 8 * i)"
      using Suc.prems(1) [rule_format, of "Suc i"] by (simp add: s1_def valid_word_def add_ac)
  qed
  have "memcpy_words (Suc n) d p s = memcpy_words n (d + 8) (p + 8) s1" using v by (simp add: bnd_def rd_def wr_def s1_def)
  also have "\<dots> = Inr ((), s1\<lparr>cell := copied n (d + 8) (p + 8) (cell s1)\<rparr>)" using Suc.IH [OF v1] Suc.prems(2) by auto
  finally show ?case using copied_Suc [OF Suc.prems(2), of "cell s"] by (simp add: s1_def)
qed

text \<open>A program may write the payload of its blocks as it likes.\<close>

lemma seg_payload:
  "sized bs \<Longrightarrow> seg h a pu bs \<Longrightarrow> \<forall>x. a \<le> x \<longrightarrow> x \<notin> payload a bs \<longrightarrow> h' x = h x \<Longrightarrow> seg h' a pu bs"
proof (induction bs arbitrary: a pu)
  case (Cons b bs)
  obtain sz u where b: "b = (sz, u)" by (cases b)
  have sz: "32 \<le> sz" "sized bs" using Cons.prems(1) b by auto
  have "a \<notin> payload (a + sz) bs" "a + sz - 8 \<notin> payload (a + sz) bs" using payload_bounds [OF sz(2), of _ "a + sz"] sz(1) by fastforce+
  then have "h' a = h a" "u \<or> h' (a + sz - 8) = h (a + sz - 8)"
    using Cons.prems(3) [rule_format, of a] Cons.prems(3) [rule_format, of "a + sz - 8"] b sz(1) by (cases u; simp add: payload_Cons)+
  moreover have "seg h' (a + sz) u bs"
    by (rule Cons.IH) (use Cons.prems b in \<open>auto simp: payload_Cons\<close>)
  ultimately show ?case using Cons.prems(2) b by auto
qed simp

lemma inv_payload_write:
  assumes inv: "mm_inv s bs fs" and h: "\<And>x. x \<notin> payload (block0 s) bs \<Longrightarrow> h x = cell s x"
  shows "mm_inv (s\<lparr>cell := h\<rparr>) bs fs"
proof -
  note D = mm_looseD [OF mm_inv_loose [OF inv]]
  have "seg h (block0 s) True bs" using seg_payload [OF D(3,6)] h by blast
  moreover have "h (block0 s + sizes bs) = cell s (block0 s + sizes bs)" "h (mem_start_brk s) = cell s (mem_start_brk s)"
    using h payload_bounds [OF D(3), of _ "block0 s"] by fastforce+
  moreover have "dl h None (cell s (mem_start_brk s)) fs 0"
  proof (rule dl_cong [OF _ D(8)])
    fix f assume "f \<in> set fs"
    then have "f + 8 \<in> links (free_at (block0 s) bs)" "f + 16 \<in> links (free_at (block0 s) bs)" using D(10) by (auto simp: links_def)
    then show "h (f + 8) = cell s (f + 8) \<and> h (f + 16) = cell s (f + 16)" using h payload_links [OF D(3)] by blast
  qed
  ultimately show ?thesis using inv by (simp add: mm_inv_def mm_loose_def)
qed

lemma used_apart:
  assumes "sized bs" and "(b, z) \<in> used_at a bs" and "(c, y) \<in> used_at a bs" and "(b, z) \<noteq> (c, y)"
  shows "b + z \<le> c \<or> c + y \<le> b"
proof -
  obtain xs ys where "bs = xs @ (z, True) # ys" "b = a + sizes xs" using used_at_split [OF assms(2)] by blast
  then show ?thesis using used_at_middle(1) [of xs z True ys a] used_at_middle(3) [where a = a and b = c and z = y and sz = z and xs = xs and u = True and ys = ys] assms by auto
qed

lemma used_valid:
  assumes inv: "mm_inv s bs fs" and b: "(b, z) \<in> used_at (block0 s) bs"
  shows "8 dvd b" "8 dvd z" "32 \<le> z" "block0 s \<le> b" "b + z < mem_brk s" "mem_brk s < 2 ^ 63"
    and "b + 8 * i < b + z \<Longrightarrow> valid_word s (b + 8 * i)"
proof -
  obtain xs ys where bs: "bs = xs @ (z, True) # ys" "b = block0 s + sizes xs" using used_at_split [OF b] by blast
  note D = mm_looseD [OF mm_inv_loose [OF inv]]
  show *: "8 dvd b" "8 dvd z" "32 \<le> z" "block0 s \<le> b" "b + z < mem_brk s" "mem_brk s < 2 ^ 63"
    using D(1,3,4,5) sizes_dvd [of xs] unfolding bs by auto
  show "valid_word s (b + 8 * i)" if "b + 8 * i < b + z"
    by (rule loose_valid [OF mm_inv_loose [OF inv]]) (use that * D(4) bs in auto)
qed

section \<open>Reallocating\<close>

text \<open>
  The outcome of resizing the block \<open>(b, z)\<close> to \<open>n\<close> bytes: \<open>p\<close> is the payload of a block that replaces it, large enough and
  apart from the others, and the first \<open>n\<close> bytes of the payload are kept, in whole words.
\<close>

definition resized :: "mm_state \<Rightarrow> nat \<Rightarrow> nat \<Rightarrow> nat \<Rightarrow> nat \<Rightarrow> mm_state \<Rightarrow> bool" where
  "resized s b z n p t \<longleftrightarrow> mm_good t \<and> 8 \<le> p \<and>
     (\<exists>sz. n + 8 \<le> sz \<and> used_blocks t = insert (p - 8, sz) (used_blocks s - {(b, z)}) \<and>
       (\<forall>(c, y) \<in> used_blocks s - {(b, z)}. c + y \<le> p - 8 \<or> p - 8 + sz \<le> c)) \<and>
     (\<forall>x \<in> live_words (used_blocks s - {(b, z)}). cell t x = cell s x) \<and>
     (\<forall>i. 8 * i < min (z - 8) n \<longrightarrow> cell t (p + 8 * i) = cell s (b + 8 + 8 * i))"

lemma resized_in_place:
  assumes inv: "mm_inv s bs fs" "(b, z) \<in> used_at (block0 s) bs"
    and t: "mm_inv t bs' fs'" "mem_start_brk t = mem_start_brk s" "8 dvd req" "n + 8 \<le> req" "req \<le> sz"
    "used_at (block0 s) bs' = insert (b, sz) (used_at (block0 s) bs - {(b, z)})"
    "\<forall>x \<in> live_words (used_at (block0 s) bs - {(b, z)}) \<union> {b + 8..<b + min z req}. cell t x = cell s x"
  shows "resized s b z n (b + 8) t"
proof -
  note us = mm_good_blocks [OF inv(1)] and ut = mm_good_blocks [OF t(1), unfolded t(2)]
  have sb: "sized bs" "sized bs'" using mm_looseD(3) [OF mm_inv_loose] inv(1) t(1) by blast+
  note v = used_valid [OF inv]
  have "c + y \<le> b \<or> b + sz \<le> c" if c: "(c, y) \<in> used_at (block0 s) bs - {(b, z)}" for c y
  proof (rule used_apart [OF sb(2)])
    show "(c, y) \<noteq> (b, sz)" using used_apart [OF sb(1) _ inv(2), of c y] c v(3) used_at_bounds [OF sb(1), of c y "block0 s"] by auto
  qed (use c t(6) in auto)
  moreover have "cell t (b + 8 + 8 * i) = cell s (b + 8 + 8 * i)" if i: "8 * i < min (z - 8) n" for i
  proof -
    have "8 + 8 * i < min z req" using i v(3) t(4) by auto
    then have "b + 8 + 8 * i \<in> {b + 8..<b + min z req}" by simp
    then show ?thesis using t(7) by blast
  qed
  ultimately show ?thesis
    using us ut t(4-7) by (simp add: resized_def) (intro exI [of _ sz] conjI; auto)
qed

lemma combine_skip:
  assumes l: "mm_loose s (xs @ (B, True) # ys) fs" and no: "\<nexists>C zs. ys = (C, False) # zs \<and> B < req \<and> req \<le> B + C"
  shows "mm_realloc_combine (block0 s + sizes xs) B req t s = Inr (B, s)"
proof (cases "B < req")
  case True
  note D = mm_looseD [OF l]
  let ?a = "block0 s + sizes xs"
  have l': "mm_loose s ((xs @ [(B, True)]) @ ys) fs" using l by simp
  have h: "rd (?a + B) s = Inr (header (fst (front ys)) True (snd (front ys)), s)" "8 dvd fst (front ys)" "fst (front ys) < 2 ^ 63"
    using header_at [OF l'] by (simp_all add: add_ac)
  have B: "B < 2 ^ 63" "POINTER_ADD ?a B = ?a + B" using D(4,5) pointer_small(1) [of ?a B] by auto
  have "snd (front ys) \<or> B + fst (front ys) < req" using no True by (cases ys) (auto simp: front_def not_le)
  moreover have "add64 B (fst (front ys)) = B + fst (front ys)" using B h(3) by simp
  ultimately show ?thesis using True h B(2) by (auto simp: mm_realloc_combine_def Let_def bnd_Inr ret_run)
qed (simp add: mm_realloc_combine_def ret_run)

lemma realloc_move:
  assumes inv: "mm_inv s bs fs" and b: "(b, z) \<in> used_at (block0 s) bs" and n: "0 < n" "n < 2 ^ 62" "z \<le> n + 8" and page: "page_size pg"
    and m: "mm_malloc pg n s = Inr (p, t)"
  shows "\<exists>u. bnd (mm_memcpy p (b + 8) (z - 8)) (\<lambda>_. mm_free (b + 8)) t = Inr ((), u) \<and> resized s b z n p u"
proof -
  let ?U = "used_blocks s"
  note us = mm_good_blocks [OF inv]
  have bU: "(b, z) \<in> ?U" using us b by simp
  obtain sz where t: "mm_good t" "8 \<le> p" "n + 8 \<le> sz" "used_blocks t = insert (p - 8, sz) ?U"
    "\<forall>(c, y) \<in> ?U. c + y \<le> p - 8 \<or> p - 8 + sz \<le> c" "\<forall>x \<in> live_words ?U. cell t x = cell s x"
    using mm_allocates [OF _ n(1,2) page, of s] us m by auto
  obtain bs' fs' where inv': "mm_inv t bs' fs'" using t(1) by (auto simp: mm_good_def)
  note ut = mm_good_blocks [OF inv']
  have in': "(b, z) \<in> used_at (block0 t) bs'" "(p - 8, sz) \<in> used_at (block0 t) bs'" using ut t(4) bU by auto
  note vb = used_valid [OF inv' in'(1)] and vp = used_valid [OF inv' in'(2)]
  define k where "k = (z - 8) div 8"
  have z: "z = 8 + 8 * k" "(z - 8) mod 8 = 0" using vb(2,3) by (auto simp: k_def)
  have apart: "b + z \<le> p - 8 \<or> p - 8 + sz \<le> b" using t(5) bU by blast
  have "\<forall>i < k. valid_word t (p + 8 * i) \<and> valid_word t (b + 8 + 8 * i)"
  proof (intro allI impI)
    fix i assume "i < k"
    then have "8 * Suc i < z" "8 * Suc i < sz" using z(1) n(3) t(3) by auto
    then show "valid_word t (p + 8 * i) \<and> valid_word t (b + 8 + 8 * i)"
      using vb(7) [of "Suc i"] vp(7) [of "Suc i"] t(2) by (simp add: add_ac)
  qed
  moreover have "p + 8 * k \<le> b + 8 \<or> b + 8 + 8 * k \<le> p" using apart z n(3) t(2,3) by linarith
  ultimately have cp: "memcpy_words k p (b + 8) t = Inr ((), t\<lparr>cell := copied k p (b + 8) (cell t)\<rparr>)"
    by (rule memcpy_words_run)
  define v where "v = t\<lparr>cell := copied k p (b + 8) (cell t)\<rparr>"
  have in_p: "x \<in> {p..<p - 8 + sz}" if "i < k" "x = p + 8 * i" for x i
    using that z n(3) t(2,3) by auto
  have out: "copied k p (b + 8) (cell t) x = cell t x" if "x \<notin> {p..<p - 8 + sz}" for x
  proof -
    have "\<not> (\<exists>i < k. x = p + 8 * i)" using that in_p by blast
    then show ?thesis unfolding copied_def by (rule if_not_P)
  qed
  have "mm_inv v bs' fs'" unfolding v_def
  proof (rule inv_payload_write [OF inv'])
    fix x assume "x \<notin> payload (block0 t) bs'"
    then have "x \<notin> {p..<p - 8 + sz}" using in'(2) t(2) unfolding payload_def by fastforce
    then show "copied k p (b + 8) (cell t) x = cell t x" by (rule out)
  qed
  then have v: "mm_good v" "used_blocks v = insert (p - 8, sz) ?U" using mm_good_blocks t(4) ut by (auto simp: v_def)
  have "(p - 8, sz) \<noteq> (b, z)" using apart vb(3) vp(3) by auto
  then have rest: "used_blocks v - {(b, z)} = insert (p - 8, sz) (?U - {(b, z)})" using v(2) by auto
  obtain u where u: "mm_free (b + 8) v = Inr ((), u)" "mm_good u" "used_blocks u = insert (p - 8, sz) (?U - {(b, z)})"
    "\<forall>x \<in> live_words (insert (p - 8, sz) (?U - {(b, z)})). cell u x = cell v x"
    using mm_releases [OF v(1), of b z] v(2) bU unfolding rest by blast
  have others: "cell u x = cell s x" if x: "x \<in> live_words (?U - {(b, z)})" for x
  proof -
    obtain c y where c: "(c, y) \<in> ?U - {(b, z)}" "x \<in> {c + 8..<c + y}" using x unfolding live_words_def by blast
    then have "x \<notin> {p..<p - 8 + sz}" using t(2,5) by fastforce
    then have "cell v x = cell t x" using out by (simp add: v_def)
    moreover have "cell u x = cell v x" using u(4) x by (auto simp: live_words_def)
    moreover have "cell t x = cell s x" using t(6) c by (auto simp: live_words_def)
    ultimately show ?thesis by simp
  qed
  have kept: "cell u (p + 8 * i) = cell s (b + 8 + 8 * i)" if i: "8 * i < min (z - 8) n" for i
  proof -
    have k: "i < k" using i z by linarith
    have "cell u (p + 8 * i) = cell v (p + 8 * i)" using u(4) in_p [OF k refl] t(2) by (auto simp: live_words_def)
    also have "\<dots> = cell t (b + 8 + 8 * i)" using k by (auto simp: v_def copied_def)
    also have "\<dots> = cell s (b + 8 + 8 * i)" using t(6) bU i by (auto simp: live_words_def)
    finally show ?thesis .
  qed
  have "mm_memcpy p (b + 8) (z - 8) t = Inr ((), v)" using cp z(2) by (simp add: mm_memcpy_def bnd_def v_def ret_run flip: k_def)
  then have "bnd (mm_memcpy p (b + 8) (z - 8)) (\<lambda>_. mm_free (b + 8)) t = Inr ((), u)" using u(1) by (simp add: bnd_def)
  moreover have "resized s b z n p u" using u(2,3) t(2,3,5) others kept by (auto simp: resized_def)
  ultimately show ?thesis by blast
qed

lemma mm_realloc_run:
  assumes "mm_good s" and "(b, z) \<in> used_blocks s" and n: "0 < n" "n < 2 ^ 62" and page: "page_size pg"
  shows "case mm_realloc pg (b + 8) n s of Inl e \<Rightarrow> e = Exit 0 | Inr (p, t) \<Rightarrow> resized s b z n p t"
proof -
  let ?r = "request_size n"
  obtain bs fs where inv: "mm_inv s bs fs" using assms(1) by (auto simp: mm_good_def)
  note us = mm_good_blocks [OF inv]
  have b: "(b, z) \<in> used_at (block0 s) bs" using us assms(2) by simp
  obtain xs ys where bs: "bs = xs @ (z, True) # ys" "b = block0 s + sizes xs" using used_at_split [OF b] by blast
  note v = used_valid [OF inv b] and r = request_size_bounds [OF n(2)]
  have l: "mm_loose s (xs @ (z, True) # ys) fs" using mm_inv_loose [OF inv] bs by simp
  have sz: "sized bs" using mm_looseD(3) [OF l] bs by simp
  define tg :: nat where "tg = 2 * of_bool (last_used True xs)"
  have rd: "rd b s = Inr (header z (last_used True xs) True, s)" using header_at(1) [OF l] bs by simp
  have z: "8 dvd z" "z < 2 ^ 63" using v by auto
  have tg: "header z (last_used True xs) True AND TAG_PRECEDING_USED = tg" using z by (simp add: tg_def)
  have ptr: "POINTER_SUB (b + 8) WORD_SIZE = b" "sub64 z WORD_SIZE = z - 8" "b + 8 \<noteq> NULL"
    using v pointer_small(2) [of 8 "b + 8"] by (simp_all add: WORD_SIZE_def)
  have start: "mm_realloc pg (b + 8) n s = (if ?r = z then ret (b + 8) s else
      bnd (mm_realloc_combine b z ?r tg) (\<lambda>old_size.
        if ?r \<le> old_size then bnd (mm_realloc_split b old_size ?r tg) (\<lambda>_. ret (b + 8))
        else bnd (mm_malloc pg n) (\<lambda>new_ptr.
          if new_ptr = NULL then ret NULL
          else bnd (mm_memcpy new_ptr (b + 8) (if n < z - 8 then n else z - 8)) (\<lambda>_. bnd (mm_free (b + 8)) (\<lambda>_. ret new_ptr)))) s)"
    unfolding mm_realloc_def Let_def ptr bnd_Inr [of "rd b" s, OF rd] SIZE_header [OF z] ptr
    using n(1) ptr(3) by (simp add: bnd_Inr [of "rd b" s, OF rd] tg del: header_tags cong: if_cong)
  have others: "used_at (block0 s) (xs @ (z, False) # ys) = used_at (block0 s) bs - {(b, z)}"
    using used_at_middle(1,2) [of xs z True ys "block0 s"] sz bs by auto
  consider (same) "?r = z" | (combine) C zs where "ys = (C, False) # zs" "z < ?r" "?r \<le> z + C"
    | (shrink) "?r < z" | (move) "z < ?r" "\<nexists>C zs. ys = (C, False) # zs \<and> z < ?r \<and> ?r \<le> z + C" using linorder_cases [of "?r" z] by blast
  then show ?thesis
  proof cases
    case same
    have "used_at (block0 s) bs = insert (b, z) (used_at (block0 s) bs - {(b, z)})" using b by auto
    then have "resized s b z n (b + 8) s" using resized_in_place [OF inv b inv refl r(1,3), of z] same by simp
    then show ?thesis using start same by (simp add: ret_run)
  next
    case (combine C zs)
    have i0: "mm_inv s (xs @ (z, True) # (C, False) # zs) fs" using inv bs combine by simp
    obtain h fs1 where h: "mm_realloc_combine b z ?r tg s = Inr (z + C, s\<lparr>cell := h\<rparr>)" "mm_inv (s\<lparr>cell := h\<rparr>) (xs @ (z + C, True) # zs) fs1"
      "\<forall>x \<in> payload (block0 s) bs. h x = cell s x"
      using realloc_combine_run [OF i0 combine(2,3)] bs combine(1) by (auto simp: tg_def)
    obtain g bs' fs' k where g: "mm_realloc_split b (z + C) ?r tg (s\<lparr>cell := h\<rparr>) = Inr ((), s\<lparr>cell := g\<rparr>)"
      "mm_inv (s\<lparr>cell := g\<rparr>) bs' fs'" "?r \<le> k" "used_at (block0 s) bs' = insert (b, k) (used_at (block0 s) (xs @ (z + C, False) # zs))"
      "\<forall>x \<in> payload (block0 s) (xs @ (z + C, False) # zs) \<union> {b + 8..<b + ?r}. g x = h x"
      using realloc_split_run [OF h(2) r(1,2) combine(3)] bs by (auto simp: tg_def)
    have same: "used_at (block0 s) (xs @ (z + C, False) # zs) = used_at (block0 s) bs - {(b, z)}"
      using others combine(1) by (simp add: used_at_append add.assoc)
    have "g x = cell s x" if "x \<in> live_words (used_at (block0 s) bs - {(b, z)}) \<union> {b + 8..<b + min z ?r}" for x
    proof -
      have "x \<in> live_words (used_at (block0 s) bs)" using that b by (fastforce simp: live_words_mem)
      moreover have "x \<in> live_words (used_at (block0 s) bs - {(b, z)}) \<union> {b + 8..<b + ?r}" using that by auto
      ultimately show ?thesis using h(3) g(5) unfolding payload_live same by simp
    qed
    then have "resized s b z n (b + 8) (s\<lparr>cell := g\<rparr>)"
      using resized_in_place [OF inv b g(2) _ r(1,3) g(3)] g(4) unfolding same by simp
    then show ?thesis using start combine(2,3) h(1) g(1) by (simp add: bnd_def ret_run)
  next
    case shrink
    have i0: "mm_inv s (xs @ (z, True) # ys) fs" using inv bs by simp
    have c: "mm_realloc_combine b z ?r tg s = Inr (z, s)" using combine_skip [OF l, of ?r] shrink bs by simp
    obtain g bs' fs' k where g: "mm_realloc_split b z ?r tg s = Inr ((), s\<lparr>cell := g\<rparr>)"
      "mm_inv (s\<lparr>cell := g\<rparr>) bs' fs'" "?r \<le> k" "used_at (block0 s) bs' = insert (b, k) (used_at (block0 s) bs - {(b, z)})"
      "\<forall>x \<in> live_words (used_at (block0 s) bs - {(b, z)}) \<union> {b + 8..<b + ?r}. g x = cell s x"
      using realloc_split_run [OF i0 r(1,2)] shrink unfolding bs(2) [symmetric] others payload_live by (auto simp: tg_def)
    have "\<forall>x \<in> live_words (used_at (block0 s) bs - {(b, z)}) \<union> {b + 8..<b + min z ?r}. g x = cell s x" using g(5) shrink by simp
    then have "resized s b z n (b + 8) (s\<lparr>cell := g\<rparr>)"
      using resized_in_place [OF inv b g(2) _ r(1,3) g(3)] g(4) by simp
    then show ?thesis using start shrink c g(1) by (simp add: bnd_def ret_run)
  next
    case move
    have c: "mm_realloc_combine b z ?r tg s = Inr (z, s)" using combine_skip [OF l move(2)] bs by simp
    have zn: "z \<le> n + 8" "\<not> n < z - 8" using request_size_tight [OF n(2) v(2,3) move(1)] by auto
    show ?thesis
    proof (cases "mm_malloc pg n s")
      case (Inl e)
      then have "e = Exit 0" using mm_allocates [OF assms(1) n page] by simp
      then show ?thesis using start move(1) c Inl by (simp add: bnd_def)
    next
      case (Inr pt)
      obtain p t where pt: "pt = (p, t)" by (cases pt)
      have "p \<noteq> 0" using mm_allocates [OF assms(1) n page] Inr pt by auto
      moreover obtain u where "bnd (mm_memcpy p (b + 8) (z - 8)) (\<lambda>_. mm_free (b + 8)) t = Inr ((), u)" "resized s b z n p u"
        using realloc_move [OF inv b n zn(1) page] Inr pt by blast
      ultimately show ?thesis using start move(1) c Inr pt zn by (auto simp: bnd_def ret_run split: sum.splits)
    qed
  qed
qed

section \<open>The interface with resizing\<close>

locale resizing_allocator = heap_allocator good live contents alloc release limit
  for good :: "'s \<Rightarrow> bool" and live :: "'s \<Rightarrow> (nat \<times> nat) set" and contents :: "'s \<Rightarrow> nat \<Rightarrow> nat"
    and alloc :: "nat \<Rightarrow> ('s, nat) cmd" and release :: "nat \<Rightarrow> ('s, unit) cmd" and limit :: nat +
  fixes resize :: "nat \<Rightarrow> nat \<Rightarrow> ('s, nat) cmd"
  assumes resize_law: "good s \<Longrightarrow> (b, z) \<in> live s \<Longrightarrow> 0 < n \<Longrightarrow> n < limit \<Longrightarrow>
      (case resize (b + 8) n s of
         Inl e \<Rightarrow> e = Exit 0
       | Inr (p, t) \<Rightarrow> good t \<and> 8 \<le> p \<and>
           (\<exists>sz. n + 8 \<le> sz \<and> live t = insert (p - 8, sz) (live s - {(b, z)}) \<and>
             (\<forall>(c, y) \<in> live s - {(b, z)}. c + y \<le> p - 8 \<or> p - 8 + sz \<le> c)) \<and>
           (\<forall>x \<in> live_words (live s - {(b, z)}). contents t x = contents s x) \<and>
           (\<forall>i. 8 * i < min (z - 8) n \<longrightarrow> contents t (p + 8 * i) = contents s (b + 8 + 8 * i)))"
begin

lemma resize_then_release:
  assumes "good s" and "(b, z) \<in> live s" and "0 < n" and "n < limit" and "resize (b + 8) n s = Inr (p, t)"
  shows "\<exists>u. release p t = Inr ((), u) \<and> good u \<and> live u = live s - {(b, z)} \<and>
    (\<forall>x \<in> live_words (live s - {(b, z)}). contents u x = contents s x)"
proof -
  let ?L = "live s - {(b, z)}"
  obtain sz where t: "good t" "8 \<le> p" "n + 8 \<le> sz" "live t = insert (p - 8, sz) ?L"
    "\<forall>(c, y) \<in> ?L. c + y \<le> p - 8 \<or> p - 8 + sz \<le> c" "\<forall>x \<in> live_words ?L. contents t x = contents s x"
    using resize_law [OF assms(1-4)] assms(5) by auto
  have "(p - 8, sz) \<notin> ?L"
  proof
    assume "(p - 8, sz) \<in> ?L"
    then have "p - 8 + sz \<le> p - 8 \<or> p - 8 + sz \<le> p - 8" using t(5) by blast
    then show False using t(3) by simp
  qed
  then have rest: "live t - {(p - 8, sz)} = ?L" using t(4) by auto
  have "(p - 8, sz) \<in> live t" using t(4) by simp
  from release_law [OF t(1) this] obtain u where "release (p - 8 + 8) t = Inr ((), u)" "good u" "live u = ?L"
    "\<forall>x \<in> live_words ?L. contents u x = contents t x" unfolding rest by blast
  then show ?thesis using t(2,6) by auto
qed

end

lemma mm_resizing_allocator:
  assumes "page_size pg"
  shows "resizing_allocator mm_good used_blocks cell (mm_malloc pg) mm_free (2 ^ 62) (mm_realloc pg)"
proof (intro resizing_allocator.intro resizing_allocator_axioms.intro mm_heap_allocator assms)
  fix s b z and n :: nat
  assume "mm_good s" "(b, z) \<in> used_blocks s" "0 < n" "n < 2 ^ 62"
  from mm_realloc_run [OF this assms] show "case mm_realloc pg (b + 8) n s of
         Inl e \<Rightarrow> e = Exit 0
       | Inr (p, t) \<Rightarrow> mm_good t \<and> 8 \<le> p \<and>
           (\<exists>sz. n + 8 \<le> sz \<and> used_blocks t = insert (p - 8, sz) (used_blocks s - {(b, z)}) \<and>
             (\<forall>(c, y) \<in> used_blocks s - {(b, z)}. c + y \<le> p - 8 \<or> p - 8 + sz \<le> c)) \<and>
           (\<forall>x \<in> live_words (used_blocks s - {(b, z)}). cell t x = cell s x) \<and>
           (\<forall>i. 8 * i < min (z - 8) n \<longrightarrow> cell t (p + 8 * i) = cell s (b + 8 + 8 * i))"
    unfolding resized_def .
qed

lemma page_size_4096: "page_size 4096"
  unfolding page_size_def by (intro exI [of _ 12]) simp

interpretation mm: resizing_allocator mm_good used_blocks cell "mm_malloc 4096" mm_free "2 ^ 62" "mm_realloc 4096"
  by (rule mm_resizing_allocator [OF page_size_4096])

section \<open>Every heap the calls can reach\<close>

text \<open>
  A program initialises the heap, then calls the allocator with pointers it owns and writes into its blocks.
\<close>

inductive mm_reach :: "nat \<Rightarrow> mm_state \<Rightarrow> bool" for pg where
  init: "fresh_heap s \<Longrightarrow> mm_init s = Inr (r, t) \<Longrightarrow> mm_reach pg t"
| malloc: "mm_reach pg s \<Longrightarrow> n < 2 ^ 62 \<Longrightarrow> mm_malloc pg n s = Inr (p, t) \<Longrightarrow> mm_reach pg t"
| free: "mm_reach pg s \<Longrightarrow> (b, z) \<in> used_blocks s \<Longrightarrow> mm_free (b + 8) s = Inr ((), t) \<Longrightarrow> mm_reach pg t"
| realloc: "mm_reach pg s \<Longrightarrow> (b, z) \<in> used_blocks s \<Longrightarrow> n < 2 ^ 62 \<Longrightarrow> mm_realloc pg (b + 8) n s = Inr (p, t) \<Longrightarrow> mm_reach pg t"
| store: "mm_reach pg s \<Longrightarrow> x \<in> live_words (used_blocks s) \<Longrightarrow> mm_reach pg (s\<lparr>cell := (cell s)(x := v)\<rparr>)"

lemma mm_realloc_zero:
  assumes "mm_good s" and "(b, z) \<in> used_blocks s"
  shows "mm_realloc pg (b + 8) 0 s = bnd (mm_free (b + 8)) (\<lambda>_. ret NULL) s"
proof -
  obtain bs fs where inv: "mm_inv s bs fs" using assms(1) by (auto simp: mm_good_def)
  have b: "(b, z) \<in> used_at (block0 s) bs" using mm_good_blocks [OF inv] assms(2) by simp
  note v = used_valid [OF inv b]
  have "POINTER_SUB (b + 8) WORD_SIZE = b" using v pointer_small(2) [of 8 "b + 8"] by (simp add: WORD_SIZE_def)
  moreover have "rd b s = Inr (cell s b, s)" using v(3) v(7) [of 0] by (simp add: rd_def)
  ultimately show ?thesis by (simp add: mm_realloc_def Let_def bnd_Inr)
qed

lemma mm_reach_good: "mm_reach pg s \<Longrightarrow> page_size pg \<Longrightarrow> mm_good s"
proof (induction rule: mm_reach.induct)
  case (init s r t)
  then show ?case using mm_init_run [of s] by (auto simp: mm_good_def)
next
  case (malloc s n p t)
  then show ?case using mm_allocates [of s n pg] by (cases "n = 0") (auto simp: mm_malloc_def ret_run)
next
  case (free s b z t)
  then show ?case using mm_releases [of s b z] by auto
next
  case (realloc s b z n p t)
  show ?case
  proof (cases "n = 0")
    case True
    then show ?thesis using mm_realloc_zero [of s b z pg] mm_releases [of s b z] realloc by (auto simp: bnd_def ret_run)
  next
    case False
    then show ?thesis using mm_realloc_run [of s b z n pg] realloc by (auto simp: resized_def)
  qed
next
  case (store s x v)
  obtain bs fs where inv: "mm_inv s bs fs" using store by (auto simp: mm_good_def)
  have "mm_inv (s\<lparr>cell := (cell s)(x := v)\<rparr>) bs fs"
    by (rule inv_payload_write [OF inv]) (use store mm_good_blocks [OF inv] in \<open>auto simp: payload_live\<close>)
  then show ?case by (auto simp: mm_good_def)
qed

section \<open>Properties\<close>

text \<open>Two small heaps: one free block of 32 bytes, and the same block in use.\<close>

definition free_heap :: mm_state where
  "free_heap = \<lparr>cell = (\<lambda>_. 0)(4096 := 4104, 4104 := 34, 4136 := 1, 4128 := 34), mem_start_brk = 4096, mem_brk = 4144, mem_max_addr = 2 ^ 20\<rparr>"

definition used_heap :: mm_state where
  "used_heap = \<lparr>cell = (\<lambda>_. 0)(4104 := 35, 4136 := 3), mem_start_brk = 4096, mem_brk = 4144, mem_max_addr = 2 ^ 20\<rparr>"

lemma free_heap_inv: "mm_inv free_heap [(32, False)] [4104]"
  using SIZE_header [of 32 True False] by (simp add: mm_inv_def mm_loose_def free_heap_def header_def)

lemma used_heap_inv: "mm_inv used_heap [(32, True)] []"
  by (simp add: mm_inv_def mm_loose_def used_heap_def header_def)

lemma used_heap_good: "mm_good used_heap" "used_blocks used_heap = {(4104, 32)}"
  using mm_good_blocks [OF used_heap_inv] by (simp_all add: used_heap_def)

lemma free_heap_reach: "mm_reach 4096 free_heap"
proof (rule mm_reach.init)
  let ?s = "\<lparr>cell = \<lambda>_. 0, mem_start_brk = 4096, mem_brk = 4096, mem_max_addr = 2 ^ 20\<rparr>"
  show "fresh_heap ?s" by (simp add: fresh_heap_def)
  show "mm_init ?s = Inr (0, free_heap)"
    by (simp add: mm_init_def Let_def mem_sbrk_def bnd_def ret_run wr_def valid_word_def set_next_def set_prev_def set_head_def mem_heap_lo_def
        mem_heap_hi_def POINTER_ADD_def POINTER_SUB_def plain_tags TAG_USED_def header_def WORD_SIZE_def MIN_BLOCK_SIZE_def sizeof_BlockInfo_def free_heap_def fun_eq_iff)
qed

text \<open>
  C18: \<open>mm_malloc\<close> on a well-formed heap either exits with status 0, and then no free block is large enough and the memory
  left is too small for the pages it asks for; or it returns an aligned pointer to a block of its own: the heap stays well formed,
  the block is new, has room for the request, overlaps no block in use, and the payload of every block in use is unchanged.
\<close>

theorem mm_malloc_correct:
  assumes "mm_inv s bs fs" and "0 < n" "n < 2 ^ 62" and "page_size pg"
  shows "case mm_malloc pg n s of
      Inl e \<Rightarrow> e = Exit 0 \<and> (\<forall>f \<in> set fs. SIZE (cell s f) < request_size n) \<and> mem_max_addr s < mem_brk s + pages_for pg (request_size n)
    | Inr (p, t) \<Rightarrow> (\<exists>bs' fs' sz. mm_inv t bs' fs' \<and> mem_start_brk t = mem_start_brk s \<and> 16 \<le> p \<and> 8 dvd p \<and> n + 8 \<le> sz
        \<and> used_at (block0 s) bs' = insert (p - 8, sz) (used_at (block0 s) bs)
        \<and> (\<forall>(b, z) \<in> used_at (block0 s) bs. b + z \<le> p - 8 \<or> p - 8 + sz \<le> b)
        \<and> (\<forall>x \<in> payload (block0 s) bs. cell t x = cell s x))"
  by (rule mm_malloc_run [OF assms])

theorem mm_malloc_correct_witness:
  "case mm_malloc 4096 20 used_heap of Inl e \<Rightarrow> e = Exit 0 | Inr (p, t) \<Rightarrow> 8 dvd p \<and> cell t 4112 = 0"
  using mm_malloc_correct [OF used_heap_inv, of 20 4096] page_size_4096
  by (auto simp: payload_def used_heap_def split: sum.splits)

text \<open>
  C19: \<open>mm_realloc\<close> of a block in use to a size greater than 0 either exits for lack of memory or returns a block that replaces
  it: the heap stays well formed, the new block has room for the request and overlaps no other block in use, the words of the
  payload up to the smaller of the two sizes are kept, and the payload of the other blocks is unchanged.
\<close>

theorem mm_realloc_correct:
  assumes "mm_good s" and "(b, z) \<in> used_blocks s" and "0 < n" "n < 2 ^ 62" and "page_size pg"
  shows "case mm_realloc pg (b + 8) n s of
      Inl e \<Rightarrow> e = Exit 0
    | Inr (p, t) \<Rightarrow> mm_good t \<and> 8 \<le> p \<and>
        (\<exists>sz. n + 8 \<le> sz \<and> used_blocks t = insert (p - 8, sz) (used_blocks s - {(b, z)}) \<and>
          (\<forall>(c, y) \<in> used_blocks s - {(b, z)}. c + y \<le> p - 8 \<or> p - 8 + sz \<le> c)) \<and>
        (\<forall>x \<in> live_words (used_blocks s - {(b, z)}). cell t x = cell s x) \<and>
        (\<forall>i. 8 * i < min (z - 8) n \<longrightarrow> cell t (p + 8 * i) = cell s (b + 8 + 8 * i))"
  using mm_realloc_run [OF assms] unfolding resized_def .

theorem mm_realloc_correct_witness:
  "case mm_realloc 4096 4112 100 used_heap of Inl e \<Rightarrow> e = Exit 0
   | Inr (p, t) \<Rightarrow> cell t p = 0 \<and> (\<exists>sz. 108 \<le> sz \<and> used_blocks t = {(p - 8, sz)})"
  using mm_realloc_correct [OF used_heap_good(1), of 4104 32 100 4096] page_size_4096 used_heap_good(2)
  by (auto simp: used_heap_def split: sum.splits dest!: spec [of _ 0])

text \<open>
  C17: in every heap that a program can reach by initialising it, calling \<open>mm_malloc\<close>, \<open>mm_realloc\<close> and \<open>mm_free\<close> on blocks it
  owns and writing into their payload, the heap is well formed, \<open>mm_free\<close> of a block in use succeeds, and \<open>mm_malloc\<close> and
  \<open>mm_realloc\<close> fail only by exiting for lack of memory: no access outside the heap and no endless walk along the list.
\<close>

theorem mm_never_faults:
  assumes "mm_reach pg s" and "page_size pg"
  shows "mm_good s \<and> (\<forall>n < 2 ^ 62. mm_malloc pg n s \<in> insert (Inl (Exit 0)) (range Inr)) \<and>
    (\<forall>(b, z) \<in> used_blocks s. mm_free (b + 8) s \<in> range Inr \<and>
       (\<forall>n < 2 ^ 62. mm_realloc pg (b + 8) n s \<in> insert (Inl (Exit 0)) (range Inr)))"
proof -
  have g: "mm_good s" by (rule mm_reach_good [OF assms])
  have "mm_malloc pg n s \<in> insert (Inl (Exit 0)) (range Inr)" if "n < 2 ^ 62" for n
  proof (cases "n = 0")
    case False
    then show ?thesis using mm_allocates [OF g _ that assms(2)] by (auto split: sum.splits)
  qed (simp add: mm_malloc_def ret_run)
  moreover have fr: "mm_free (b + 8) s \<in> range Inr" if "(b, z) \<in> used_blocks s" for b z
    using mm_releases [OF g that] by auto
  moreover have "mm_realloc pg (b + 8) n s \<in> insert (Inl (Exit 0)) (range Inr)" if b: "(b, z) \<in> used_blocks s" and n: "n < 2 ^ 62" for b z n
  proof (cases "n = 0")
    case True
    then show ?thesis using mm_realloc_zero [OF g b] fr [OF b] by (auto simp: bnd_def ret_run)
  next
    case False
    then show ?thesis using mm_realloc_run [OF g b _ n assms(2)] by (auto split: sum.splits)
  qed
  ultimately show ?thesis using g by blast
qed

theorem mm_never_faults_witness: "mm_good free_heap \<and> mm_malloc 4096 100 free_heap \<in> insert (Inl (Exit 0)) (range Inr)"
  using mm_never_faults [OF free_heap_reach page_size_4096] by (elim conjE allE [of _ 100]) simp

text \<open>
  C20: freeing what \<open>mm_malloc\<close> just returned succeeds and leaves exactly the blocks in use that were there before, with the
  same contents.
\<close>

theorem mm_malloc_free_roundtrip:
  assumes "mm_good s" and "0 < n" "n < 2 ^ 62" and "mm_malloc 4096 n s = Inr (p, t)"
  shows "\<exists>u. mm_free p t = Inr ((), u) \<and> mm_good u \<and> used_blocks u = used_blocks s \<and>
    (\<forall>x \<in> live_words (used_blocks s). cell u x = cell s x)"
  by (rule mm.alloc_then_release [OF assms])

theorem mm_malloc_free_roundtrip_witness:
  "\<exists>p t u. mm_malloc 4096 24 free_heap = Inr (p, t) \<and> mm_free p t = Inr ((), u) \<and> used_blocks u = {}"
proof -
  have good: "mm_good free_heap" "used_blocks free_heap = {}" using mm_good_blocks [OF free_heap_inv] by simp_all
  have "SIZE (cell free_heap 4104) = 32" using SIZE_header [of 32 True False] by (simp add: free_heap_def header_def)
  then obtain p t where m: "mm_malloc 4096 24 free_heap = Inr (p, t)"
    using mm_malloc_run [OF free_heap_inv _ _ page_size_4096, of 24] by (auto simp: request_size_small split: sum.splits)
  then show ?thesis using mm_malloc_free_roundtrip [OF good(1) _ _ m] good(2) by auto
qed

text \<open>
  C21: on the memory that \<open>mem_init\<close> sets up, \<open>mm_init\<close> returns 0 and the heap is one free block of the minimal size.
\<close>

theorem mm_init_correct:
  assumes "8 dvd p" "0 < p" "p + MAX_HEAP < 2 ^ 63"
  shows "\<exists>t. bnd (mem_init p) (\<lambda>_. mm_init) s = Inr (0, t) \<and> mm_inv t [(32, False)] [p + 8]
    \<and> mem_start_brk t = p \<and> mem_brk t = p + 48 \<and> mem_max_addr t = p + MAX_HEAP"
proof -
  let ?s = "s\<lparr>mem_start_brk := p, mem_max_addr := p + MAX_HEAP, mem_brk := p\<rparr>"
  have "mem_init p s = Inr ((), ?s)" using assms by (simp add: mem_init_def)
  moreover have "fresh_heap ?s" using assms by (simp add: fresh_heap_def MAX_HEAP_def)
  ultimately show ?thesis using mm_init_run [of ?s] by (simp add: bnd_Inr)
qed

theorem mm_init_correct_witness: "\<exists>t. bnd (mem_init 4096) (\<lambda>_. mm_init) used_heap = Inr (0, t) \<and> mm_inv t [(32, False)] [4104]"
  using mm_init_correct [of 4096 used_heap] by (auto simp: MAX_HEAP_def)

text \<open>
  adding the header to a request wraps around: a request for one of the last eight sizes is served as a request for 24 bytes,
  and for the seven sizes below them the block size becomes 0.  \<open>mm_realloc\<close> reads the header before it tests for NULL, so it
  faults on NULL.
\<close>

theorem mm_requests_wrap:
  "(2 ^ 64 - 8 \<le> n \<and> n < 2 ^ 64 \<longrightarrow> mm_malloc pg n s = mm_malloc pg 24 s) \<and>
   (2 ^ 64 - 15 \<le> n \<and> n < 2 ^ 64 - 8 \<longrightarrow> request_size n = 0) \<and>
   (mem_brk s < 2 ^ 64 \<longrightarrow> mm_realloc pg NULL n s = Inl MemFault)"
proof (intro conjI impI)
  assume n: "2 ^ 64 - 8 \<le> n \<and> n < 2 ^ 64"
  define k where "k = n - (2 ^ 64 - 8)"
  have "n = 2 ^ 64 - 8 + k" "k < 8" using n by (auto simp: k_def)
  then have "request_size n = request_size 24"
    by (simp add: request_size_def WORD_SIZE_def MIN_BLOCK_SIZE_def sizeof_BlockInfo_def add64_def)
  then show "mm_malloc pg n s = mm_malloc pg 24 s" using n by (simp add: mm_malloc_def)
next
  assume n: "2 ^ 64 - 15 \<le> n \<and> n < 2 ^ 64 - 8"
  define k where "k = n - (2 ^ 64 - 15)"
  have k: "n = 2 ^ 64 - 15 + k" "k < 7" using n by (auto simp: k_def)
  have "n + 8 + 8 = 2 ^ 64 + (1 + k)" using k(1) by simp
  then have "add64 (n + 8) 8 = 1 + k" using k(2) unfolding add64_def by (simp only: mod_add_self1) simp
  moreover have "add64 n 8 = n + 8" "sub64 (1 + k) 1 = k" "k div 8 = 0" "32 < n + 8" using n k(2) by auto
  ultimately show "request_size n = 0"
    by (simp add: request_size_def Let_def WORD_SIZE_def MIN_BLOCK_SIZE_def sizeof_BlockInfo_def ALIGNMENT_def mult64_def)
next
  assume "mem_brk s < 2 ^ 64"
  then show "mm_realloc pg NULL n s = Inl MemFault"
    by (simp add: mm_realloc_def Let_def POINTER_SUB_def sub64_def WORD_SIZE_def rd_def valid_word_def bnd_def)
qed

theorem mm_requests_wrap_witness:
  "mm_malloc 4096 (2 ^ 64 - 1) used_heap = mm_malloc 4096 24 used_heap \<and> request_size (2 ^ 64 - 9) = 0 \<and> mm_realloc 4096 NULL 1 used_heap = Inl MemFault"
  using mm_requests_wrap [of "2 ^ 64 - 1" 4096 used_heap] mm_requests_wrap [of "2 ^ 64 - 9" 4096 used_heap] mm_requests_wrap [of 1 4096 used_heap]
  by (simp add: used_heap_def)

end
