(* ===== verification/Shell.thy ===== *)
theory Shell
  imports Prelude
begin

text \<open>
  The command parser of the shell mit6.828/homework/shell/sh.c.

  The parse functions move a pointer along the zero-terminated input line; the model passes the rest
  of the line instead, so that the pointer comparison \<open>s < es\<close> is \<open>s \<noteq> []\<close> and the byte at \<open>es\<close> is
  zero.  The command structures live in an explicit store, because \<open>parseexec\<close> goes on filling the
  argument vector of a command that redirections already point to.  \<open>malloc\<close> may fail; only \<open>mkcopy\<close>
  checks it, elsewhere the access through NULL is a \<open>MemFault\<close>.  \<open>exit(-1)\<close> after a message on stderr
  is \<open>Exit (-1)\<close>.

  The loops and the recursion take the number of rounds as their first argument and fail with
  \<open>OutOfFuel\<close> beyond it; \<open>parsecmd\<close> passes more than the length of the line.
\<close>

section \<open>The commands\<close>

definition MAXARGS :: nat where
  "MAXARGS = 10"

datatype open_mode = O_RDONLY | O_WRONLY_O_CREAT_O_TRUNC

datatype struct_cmd =
    EXECCMD "string option list"
  | REDIRCMD char nat string open_mode nat
  | PIPECMD nat nat
  | COMMANDCMD nat nat

record sh_state = malloc_state +
  cmds :: "nat \<rightharpoonup> struct_cmd"

type_synonym 'a sh_cmd = "(sh_state, 'a) cmd"

definition new_cmd :: "struct_cmd \<Rightarrow> nat sh_cmd" where
  "new_cmd c = bnd malloc (\<lambda>p. if p = NULL then fail MemFault else (\<lambda>s. Inr (p, s\<lparr>cmds := (cmds s)(p \<mapsto> c)\<rparr>)))"

definition execcmd :: "nat sh_cmd" where
  "execcmd = new_cmd (EXECCMD (replicate MAXARGS None))"

definition redir_node :: "char \<Rightarrow> nat \<Rightarrow> string \<Rightarrow> struct_cmd" where
  "redir_node type subcmd file =
     REDIRCMD type subcmd file (if type = CHR ''<'' then O_RDONLY else O_WRONLY_O_CREAT_O_TRUNC) (if type = CHR ''<'' then 0 else 1)"

definition redircmd :: "nat \<Rightarrow> string \<Rightarrow> char \<Rightarrow> nat sh_cmd" where
  "redircmd subcmd file type = new_cmd (redir_node type subcmd file)"

definition pipecmd :: "nat \<Rightarrow> nat \<Rightarrow> nat sh_cmd" where
  "pipecmd left right = new_cmd (PIPECMD left right)"

definition commandcmd :: "nat \<Rightarrow> nat \<Rightarrow> nat sh_cmd" where
  "commandcmd left right = new_cmd (COMMANDCMD left right)"

text \<open>\<open>cmd->argv[i] = x\<close>\<close>

definition set_argv :: "nat \<Rightarrow> nat \<Rightarrow> string option \<Rightarrow> unit sh_cmd" where
  "set_argv cmd i x s =
     (case cmds s cmd of
        Some (EXECCMD argv) \<Rightarrow>
          if i < length argv then Inr ((), s\<lparr>cmds := (cmds s)(cmd \<mapsto> EXECCMD (argv[i := x]))\<rparr>) else Inl MemFault
      | _ \<Rightarrow> Inl MemFault)"

section \<open>Tokens\<close>

definition whitespace :: string where
  "whitespace = [CHR '' '', CHR 0x09, CHR 0x0D, CHR 0x0A, CHR 0x0B]"

definition symbols :: string where
  "symbols = ''<|>;''"

text \<open>\<open>strchr(s, c)\<close> is not NULL: the terminating zero counts.\<close>

definition in_string :: "string \<Rightarrow> char \<Rightarrow> bool" where
  "in_string s c \<longleftrightarrow> c = CHR 0x00 \<or> c \<in> set s"

definition skip_white :: "string \<Rightarrow> string" where
  "skip_white s = dropWhile (in_string whitespace) s"

definition deref :: "string \<Rightarrow> char" where
  "deref s = (case s of [] \<Rightarrow> CHR 0x00 | c # _ \<Rightarrow> c)"

definition word_char :: "char \<Rightarrow> bool" where
  "word_char c \<longleftrightarrow> \<not> in_string whitespace c \<and> \<not> in_string symbols c"

text \<open>\<open>gettoken\<close> returns the token, the text from \<open>q\<close> to \<open>eq\<close> and the rest of the line.\<close>

definition gettoken :: "string \<Rightarrow> char \<times> string \<times> string" where
  "gettoken s =
     (let s = skip_white s; c = deref s;
          (r, q, s) =
            (if c = CHR 0x00 then (c, [], s)
             else if c = CHR ''<'' \<or> c = CHR ''|'' \<or> c = CHR '';'' \<or> c = CHR ''>'' then (c, [c], tl s)
             else (CHR ''a'', takeWhile word_char s, dropWhile word_char s))
      in (r, q, skip_white s))"

definition peek :: "string \<Rightarrow> string \<Rightarrow> bool \<times> string" where
  "peek s toks = (let s = skip_white s in (deref s \<noteq> CHR 0x00 \<and> in_string toks (deref s), s))"

definition mkcopy :: "string \<Rightarrow> string sh_cmd" where
  "mkcopy t = bnd malloc (\<lambda>c. bnd (Verify333 (c \<noteq> NULL)) (\<lambda>_. ret t))"

section \<open>The parser\<close>

fun parseredirs :: "nat \<Rightarrow> nat \<Rightarrow> string \<Rightarrow> (nat \<times> string) sh_cmd" where
  "parseredirs 0 cmd s = fail OutOfFuel"
| "parseredirs (Suc k) cmd s =
     (let (more, s) = peek s ''<>'' in
      if more then
        (let (tok, _, s) = gettoken s; (t, q, s) = gettoken s in
         if t \<noteq> CHR ''a'' then fail (Exit (- 1))
         else
           bnd (if tok = CHR ''<'' then bnd (mkcopy q) (\<lambda>f. redircmd cmd f CHR ''<'')
                else if tok = CHR ''>'' then bnd (mkcopy q) (\<lambda>f. redircmd cmd f CHR ''>'')
                else ret cmd) (\<lambda>cmd.
           parseredirs k cmd s))
      else ret (cmd, s))"

fun parseexec_loop :: "nat \<Rightarrow> nat \<Rightarrow> nat \<Rightarrow> nat \<Rightarrow> string \<Rightarrow> (nat \<times> nat \<times> string) sh_cmd" where
  "parseexec_loop 0 cmd argc r s = fail OutOfFuel"
| "parseexec_loop (Suc k) cmd argc r s =
     (let (stop, s) = peek s ''|;'' in
      if stop then ret (r, argc, s)
      else
        (let (tok, q, s) = gettoken s in
         if tok = CHR 0x00 then ret (r, argc, s)
         else if tok \<noteq> CHR ''a'' then fail (Exit (- 1))
         else
           bnd (mkcopy q) (\<lambda>a.
           bnd (set_argv cmd argc (Some a)) (\<lambda>_.
           let argc = argc + 1 in
           if argc \<ge> MAXARGS then fail (Exit (- 1))
           else bnd (parseredirs k r s) (\<lambda>(r, s). parseexec_loop k cmd argc r s)))))"

definition parseexec :: "nat \<Rightarrow> string \<Rightarrow> (nat \<times> string) sh_cmd" where
  "parseexec k s =
     bnd execcmd (\<lambda>cmd.
     bnd (parseredirs k cmd s) (\<lambda>(r, s).
     bnd (parseexec_loop k cmd 0 r s) (\<lambda>(r, argc, s).
     bnd (set_argv cmd argc None) (\<lambda>_.
     ret (r, s)))))"

fun parsepipe :: "nat \<Rightarrow> string \<Rightarrow> (nat \<times> string) sh_cmd" where
  "parsepipe 0 s = fail OutOfFuel"
| "parsepipe (Suc k) s =
     bnd (parseexec k s) (\<lambda>(cmd, s).
     let (more, s) = peek s ''|'' in
     if more then
       (let (_, _, s) = gettoken s in
        bnd (parsepipe k s) (\<lambda>(right, s).
        bnd (pipecmd cmd right) (\<lambda>cmd.
        ret (cmd, s))))
     else ret (cmd, s))"

fun parsecomd :: "nat \<Rightarrow> string \<Rightarrow> (nat \<times> string) sh_cmd" where
  "parsecomd 0 s = fail OutOfFuel"
| "parsecomd (Suc k) s =
     bnd (parsepipe k s) (\<lambda>(cmd, s).
     let (more, s) = peek s '';'' in
     if more then
       (let (_, _, s) = gettoken s in
        bnd (parsecomd k s) (\<lambda>(right, s).
        bnd (commandcmd cmd right) (\<lambda>cmd.
        ret (cmd, s))))
     else ret (cmd, s))"

definition parseline :: "nat \<Rightarrow> string \<Rightarrow> (nat \<times> string) sh_cmd" where
  "parseline k s = parsecomd k s"

text \<open>The line ends at its first zero byte.\<close>

definition parsecmd :: "string \<Rightarrow> nat sh_cmd" where
  "parsecmd buf =
     (let s = takeWhile (\<lambda>c. c \<noteq> CHR 0x00) buf in
      bnd (parseline (length s + 4) s) (\<lambda>(cmd, s).
      let (_, s) = peek s '''' in
      if s \<noteq> [] then fail (Exit (- 1)) else ret cmd))"

section \<open>Specification: tokens, then a grammar\<close>

datatype token = Sym char | Word string

function tokens :: "string \<Rightarrow> token list" where
  "tokens s =
     (case skip_white s of
        [] \<Rightarrow> []
      | c # r \<Rightarrow>
          if c \<in> set symbols then Sym c # tokens r
          else Word (c # takeWhile word_char r) # tokens (dropWhile word_char r))"
  by auto
termination
proof (relation "measure length")
  fix s :: string and c r
  assume s: "skip_white s = c # r"
  have "length (skip_white s) \<le> length s" unfolding skip_white_def by (rule length_dropWhile_le)
  then have "length r < length s" using s by simp
  then show "(r, s) \<in> measure length" by simp
  have "length (dropWhile word_char r) \<le> length r" by (rule length_dropWhile_le)
  then show "(dropWhile word_char r, s) \<in> measure length" using \<open>length r < length s\<close> by simp
qed simp

declare tokens.simps [simp del]

datatype command = Exec "string list" | Redir command char string | Pipe command command | Seq command command

text \<open>
  A simple command: words and redirections in any order, up to the end, a bar or a semicolon.  The
  redirections wrap the command from the inside out.
\<close>

fun simple :: "nat \<Rightarrow> token list \<Rightarrow> (string list \<times> (char \<times> string) list \<times> token list) option" where
  "simple n [] = Some ([], [], [])"
| "simple n (Word w # ts) =
     (if Suc n \<ge> MAXARGS then None
      else case simple (Suc n) ts of None \<Rightarrow> None | Some (ws, rs, ts) \<Rightarrow> Some (w # ws, rs, ts))"
| "simple n (Sym c # ts) =
     (if c = CHR ''|'' \<or> c = CHR '';'' then Some ([], [], Sym c # ts)
      else case ts of
        Word f # ts \<Rightarrow> (case simple n ts of None \<Rightarrow> None | Some (ws, rs, ts) \<Rightarrow> Some (ws, (c, f) # rs, ts))
      | _ \<Rightarrow> None)"

lemma simple_length: "simple n ts = Some (ws, rs, us) \<Longrightarrow> length us \<le> length ts"
  by (induction n ts arbitrary: ws rs rule: simple.induct) (fastforce split: if_splits option.splits list.splits token.splits prod.splits)+

definition redirect :: "command \<Rightarrow> char \<times> string \<Rightarrow> command" where
  "redirect c r = Redir c (fst r) (snd r)"

definition simple_command :: "token list \<Rightarrow> (command \<times> token list) option" where
  "simple_command ts = (case simple 0 ts of None \<Rightarrow> None | Some (ws, rs, us) \<Rightarrow> Some (foldl redirect (Exec ws) rs, us))"

lemma simple_command_length: "simple_command ts = Some (c, us) \<Longrightarrow> length us \<le> length ts"
  by (auto simp: simple_command_def split: option.splits dest: simple_length)

function pipeline :: "token list \<Rightarrow> (command \<times> token list) option" where
  "pipeline ts =
     (case simple_command ts of
        None \<Rightarrow> None
      | Some (c, us) \<Rightarrow>
          (case us of
            Sym k # vs \<Rightarrow>
              if k = CHR ''|'' then (case pipeline vs of None \<Rightarrow> None | Some (d, r) \<Rightarrow> Some (Pipe c d, r))
              else Some (c, us)
          | _ \<Rightarrow> Some (c, us)))"
  by pat_completeness auto
termination
  by (relation "measure length") (auto dest: simple_command_length)

declare pipeline.simps [simp del]

lemma pipeline_length: "pipeline ts = Some (c, us) \<Longrightarrow> length us \<le> length ts"
proof (induction ts arbitrary: c us rule: pipeline.induct)
  case (1 ts)
  show ?case
  proof (cases "simple_command ts")
    case None
    then show ?thesis using "1.prems" by (subst (asm) pipeline.simps) simp
  next
    case (Some x)
    obtain d vs where x: "x = (d, vs)" by (cases x)
    note IH = "1.IH" [OF Some x [symmetric]]
    have "length vs \<le> length ts" using simple_command_length Some x by blast
    then show ?thesis using "1.prems" Some x IH
      by (subst (asm) pipeline.simps) (fastforce split: list.splits token.splits if_splits option.splits)
  qed
qed

function sequence :: "token list \<Rightarrow> (command \<times> token list) option" where
  "sequence ts =
     (case pipeline ts of
        None \<Rightarrow> None
      | Some (c, us) \<Rightarrow>
          (case us of
            Sym k # vs \<Rightarrow>
              if k = CHR '';'' then (case sequence vs of None \<Rightarrow> None | Some (d, r) \<Rightarrow> Some (Seq c d, r))
              else Some (c, us)
          | _ \<Rightarrow> Some (c, us)))"
  by pat_completeness auto
termination
  by (relation "measure length") (auto dest: pipeline_length)

declare sequence.simps [simp del]

definition command_line :: "string \<Rightarrow> command option" where
  "command_line s = (case sequence (tokens s) of Some (c, []) \<Rightarrow> Some c | _ \<Rightarrow> None)"

text \<open>The tree that a structure in the store stands for.\<close>

fun repr :: "(nat \<rightharpoonup> struct_cmd) \<Rightarrow> nat \<Rightarrow> command \<Rightarrow> bool" where
  "repr h p (Exec ws) = (h p = Some (EXECCMD (map Some ws @ replicate (MAXARGS - length ws) None)))"
| "repr h p (Redir c k f) =
     (\<exists>q. h p = Some (redir_node k q f) \<and> repr h q c)"
| "repr h p (Pipe c d) = (\<exists>q r. h p = Some (PIPECMD q r) \<and> repr h q c \<and> repr h r d)"
| "repr h p (Seq c d) = (\<exists>q r. h p = Some (COMMANDCMD q r) \<and> repr h q c \<and> repr h r d)"

section \<open>The scanner reads tokens\<close>

definition clean :: "string \<Rightarrow> bool" where
  "clean s \<longleftrightarrow> CHR 0x00 \<notin> set s"

lemma skip_white_idem [simp]: "skip_white (skip_white s) = skip_white s"
  unfolding skip_white_def by (rule dropWhile_idem)

lemma skip_white_Nil [simp]: "skip_white [] = []"
  by (simp add: skip_white_def)

lemma skip_white_length: "length (skip_white s) \<le> length s"
  unfolding skip_white_def by (rule length_dropWhile_le)

lemma skip_white_clean [simp]: "clean s \<Longrightarrow> clean (skip_white s)"
  unfolding skip_white_def clean_def by (metis set_dropWhileD)

lemma dropWhile_clean [simp]: "clean s \<Longrightarrow> clean (dropWhile P s)"
  unfolding clean_def by (metis set_dropWhileD)

lemma clean_Cons [simp]: "clean (c # s) \<longleftrightarrow> c \<noteq> CHR 0x00 \<and> clean s" "clean []"
  unfolding clean_def by auto

lemma skip_white_hd: "skip_white s = c # r \<Longrightarrow> \<not> in_string whitespace c"
  unfolding skip_white_def by (metis hd_dropWhile list.discI list.sel(1))

lemma tokens_skip [simp]: "tokens (skip_white s) = tokens s"
  by (subst (1 2) tokens.simps) simp

lemma tokens_Nil: "tokens s = [] \<longleftrightarrow> skip_white s = []"
  by (subst tokens.simps) (simp split: list.split)

lemma symbols_cases: "c \<in> set symbols \<longleftrightarrow> c = CHR ''<'' \<or> c = CHR ''|'' \<or> c = CHR ''>'' \<or> c = CHR '';''"
  by (auto simp: symbols_def)

lemma peek_tokens:
  assumes "clean s" and "set cs \<subseteq> set symbols"
  shows "peek s cs = (case tokens s of Sym c # _ \<Rightarrow> c \<in> set cs | _ \<Rightarrow> False, skip_white s)"
proof (cases "skip_white s")
  case Nil
  then show ?thesis using tokens_Nil [of s] by (simp add: peek_def deref_def)
next
  case (Cons c r)
  have "c \<noteq> CHR 0x00" using skip_white_clean [OF assms(1)] Cons by simp
  then show ?thesis using Cons assms(2) by (subst tokens.simps) (auto simp: peek_def deref_def in_string_def)
qed

lemma gettoken_tokens:
  assumes "clean s"
  shows "case tokens s of
      [] \<Rightarrow> gettoken s = (CHR 0x00, [], [])
    | Sym c # ts \<Rightarrow> c \<in> set symbols \<and> (\<exists>r. gettoken s = (c, [c], r) \<and> tokens r = ts \<and> clean r \<and> length r < length s)
    | Word w # ts \<Rightarrow> (\<exists>r. gettoken s = (CHR ''a'', w, r) \<and> tokens r = ts \<and> clean r \<and> length r < length s)"
proof (cases "skip_white s")
  case Nil
  then show ?thesis using tokens_Nil [of s] by (simp add: gettoken_def Let_def deref_def)
next
  case (Cons c r)
  have c: "c \<noteq> CHR 0x00" "clean r" using skip_white_clean [OF assms] Cons by simp_all
  have len: "length r < length s" using skip_white_length [of s] Cons by simp
  show ?thesis
  proof (cases "c \<in> set symbols")
    case True
    have "tokens s = Sym c # tokens r" using Cons True by (subst tokens.simps) simp
    moreover have "gettoken s = (c, [c], skip_white r)"
      using True c Cons by (auto simp: gettoken_def Let_def deref_def symbols_cases)
    moreover have "length (skip_white r) < length s" using skip_white_length [of r] len by simp
    ultimately show ?thesis using True c by simp
  next
    case False
    have w: "word_char c" using skip_white_hd [OF Cons] False c by (simp add: word_char_def in_string_def)
    let ?d = "dropWhile word_char r"
    have "tokens s = Word (c # takeWhile word_char r) # tokens ?d" using Cons False by (subst tokens.simps) simp
    moreover have "gettoken s = (CHR ''a'', c # takeWhile word_char r, skip_white ?d)"
      using False c Cons w by (auto simp: gettoken_def Let_def deref_def symbols_cases)
    moreover have "length (skip_white ?d) < length s"
      using skip_white_length [of ?d] length_dropWhile_le [of word_char r] len by simp
    ultimately show ?thesis using c by simp
  qed
qed

section \<open>The store\<close>

definition sh_ok :: "sh_state \<Rightarrow> bool" where
  "sh_ok st \<longleftrightarrow> no_failures st \<and> (\<forall>a \<ge> brk st. cmds st a = None)"

lemma new_cmd_run:
  assumes "sh_ok st"
  shows "\<exists>p st'. new_cmd c st = Inr (p, st') \<and> sh_ok st' \<and> cmds st p = None \<and> cmds st' = (cmds st)(p \<mapsto> c)"
  using assms by (auto simp: new_cmd_def sh_ok_def no_failures_def malloc_def bnd_def)

lemma mkcopy_run:
  assumes "sh_ok st"
  shows "\<exists>st'. mkcopy t st = Inr (t, st') \<and> sh_ok st' \<and> cmds st' = cmds st"
  using assms by (auto simp: mkcopy_def sh_ok_def no_failures_def malloc_def bnd_def ret_run)

lemma map_le_fresh: "h p = None \<Longrightarrow> h \<subseteq>\<^sub>m h(p \<mapsto> c)"
  by (simp add: map_le_def) blast

lemma map_leI_some: "h \<subseteq>\<^sub>m h' \<Longrightarrow> h p = Some c \<Longrightarrow> h' p = Some c"
  by (metis domI map_le_def)

lemma repr_mono: "repr h p t \<Longrightarrow> h \<subseteq>\<^sub>m h' \<Longrightarrow> repr h' p t"
  by (induction t arbitrary: p) (auto dest: map_leI_some)

text \<open>A chain of redirections from the command \<open>p\<close> out to \<open>p'\<close>.\<close>

fun wraps :: "(nat \<rightharpoonup> struct_cmd) \<Rightarrow> nat \<Rightarrow> (char \<times> string) list \<Rightarrow> nat \<Rightarrow> bool" where
  "wraps h p [] p' = (p' = p)"
| "wraps h p ((k, f) # rs) p' =
     (\<exists>q. h q = Some (redir_node k p f) \<and> wraps h q rs p')"

lemma wraps_append: "wraps h p (rs @ rs') p' \<longleftrightarrow> (\<exists>q. wraps h p rs q \<and> wraps h q rs' p')"
  by (induction rs arbitrary: p) (auto, blast+)

lemma wraps_repr: "wraps h p rs p' \<Longrightarrow> repr h p c \<Longrightarrow> repr h p' (foldl redirect c rs)"
proof (induction rs arbitrary: p c)
  case (Cons r rs)
  obtain k f where r: "r = (k, f)" by (cases r)
  then obtain q where q: "repr h q (redirect c r)" "wraps h q rs p'" using Cons.prems by (auto simp: redirect_def)
  show ?case using Cons.IH [OF q(2,1)] by simp
qed simp

text \<open>The chain does not depend on the argument vector of a command.\<close>

lemma wraps_mono:
  "wraps h p rs p' \<Longrightarrow> (\<And>q k r f. h q = Some (redir_node k r f) \<Longrightarrow> h' q = h q) \<Longrightarrow> wraps h' p rs p'"
proof (induction rs arbitrary: p)
  case (Cons r rs)
  obtain k f where r: "r = (k, f)" by (cases r)
  then obtain q where q: "h q = Some (redir_node k p f)"
    "wraps h q rs p'" using Cons.prems(1) by auto
  have "wraps h' q rs p'" by (rule Cons.IH [OF q(2) Cons.prems(2)])
  moreover have "h' q = h q" by (rule Cons.prems(2) [OF q(1)])
  ultimately show ?case using q(1) r by auto
qed simp

section \<open>The parser follows the grammar\<close>

fun redirs :: "token list \<Rightarrow> ((char \<times> string) list \<times> token list) option" where
  "redirs (Sym c # ts) =
     (if c = CHR ''|'' \<or> c = CHR '';'' then Some ([], Sym c # ts)
      else case ts of
        Word f # ts \<Rightarrow> (case redirs ts of None \<Rightarrow> None | Some (rs, ts) \<Rightarrow> Some ((c, f) # rs, ts))
      | _ \<Rightarrow> None)"
| "redirs ts = Some ([], ts)"

lemma simple_redirs:
  "simple n ts = (case redirs ts of None \<Rightarrow> None | Some (rs, us) \<Rightarrow>
     (case simple n us of None \<Rightarrow> None | Some (ws, rs', vs) \<Rightarrow> Some (ws, rs @ rs', vs)))"
proof (induction ts rule: redirs.induct)
  case (1 c ts)
  show ?case
  proof (cases "c = CHR ''|'' \<or> c = CHR '';''")
    case False
    show ?thesis
    proof (cases ts)
      case (Cons t us)
      then show ?thesis using False "1.IH" [OF False Cons]
        by (cases t) (auto split: option.splits prod.splits)
    qed (use False in simp)
  qed auto
qed (auto split: option.splits)

lemma redirs_stop: "redirs ts = Some (rs, us) \<Longrightarrow> us = Sym c # vs \<Longrightarrow> c = CHR ''|'' \<or> c = CHR '';''"
  by (induction ts arbitrary: rs rule: redirs.induct) (auto split: if_splits list.splits token.splits option.splits)

lemma parseredirs_run:
  "clean s \<Longrightarrow> length s < k \<Longrightarrow> sh_ok st \<Longrightarrow>
   case redirs (tokens s) of
     None \<Rightarrow> parseredirs k p s st = Inl (Exit (- 1))
   | Some (rs, ts) \<Rightarrow> \<exists>p' s' st'. parseredirs k p s st = Inr ((p', s'), st') \<and> tokens s' = ts \<and> clean s' \<and> length s' \<le> length s
       \<and> sh_ok st' \<and> wraps (cmds st') p rs p' \<and> cmds st \<subseteq>\<^sub>m cmds st'"
proof (induction k arbitrary: s p st)
  case (Suc k)
  let ?s = "skip_white s"
  have pk: "peek s ''<>'' = (case tokens s of Sym c # _ \<Rightarrow> c \<in> set ''<>'' | _ \<Rightarrow> False, ?s)"
    by (rule peek_tokens [OF Suc.prems(1)]) (simp add: symbols_def)
  have cs: "clean ?s" "length ?s \<le> length s" using Suc.prems(1) skip_white_length by auto
  show ?case
  proof (cases "\<exists>c ts. tokens s = Sym c # ts \<and> c \<noteq> CHR ''|'' \<and> c \<noteq> CHR '';''")
    case False
    have "redirs (tokens s) = Some ([], tokens s)"
      using False by (cases "tokens s" rule: redirs.cases) auto
    moreover have "parseredirs (Suc k) p s st = Inr ((p, ?s), st)"
      using False pk by (auto simp: ret_run split: list.split token.split)
    ultimately show ?thesis using cs Suc.prems by simp
  next
    case True
    then obtain c ts where t: "tokens s = Sym c # ts" "c \<noteq> CHR ''|''" "c \<noteq> CHR '';''" by blast
    have "tokens ?s = Sym c # ts" using t by simp
    with gettoken_tokens [OF cs(1)] obtain r where r: "gettoken ?s = (c, [c], r)" "tokens r = ts" "clean r" "length r < length s" "c \<in> set symbols"
      using cs(2) by auto
    have c: "c = CHR ''<'' \<or> c = CHR ''>''" using r(5) t by (auto simp: symbols_def)
    have run: "parseredirs (Suc k) p s st = (let (t, q, s) = gettoken r in
         if t \<noteq> CHR ''a'' then fail (Exit (- 1)) else bnd (bnd (mkcopy q) (\<lambda>f. redircmd p f c)) (\<lambda>cmd. parseredirs k cmd s)) st"
      using pk t(1) c r(1) by (auto simp: Let_def split: prod.split)
    show ?thesis
    proof (cases "\<exists>f us. ts = Word f # us")
      case False
      have "fst (gettoken r) \<noteq> CHR ''a''"
        using gettoken_tokens [OF r(3)] False r(2) by (auto simp: symbols_def split: list.splits token.splits)
      then have "parseredirs (Suc k) p s st = Inl (Exit (- 1))" using run by (simp add: Let_def fail_run split: prod.splits)
      moreover have "redirs (tokens s) = None" using t False by (auto split: list.splits token.splits)
      ultimately show ?thesis by simp
    next
      case True
      then obtain f us where f: "ts = Word f # us" by blast
      with gettoken_tokens [OF r(3)] r(2) obtain u where u: "gettoken r = (CHR ''a'', f, u)" "tokens u = us" "clean u" "length u < length r" by auto
      obtain st1 where st1: "mkcopy f st = Inr (f, st1)" "sh_ok st1" "cmds st1 = cmds st" using mkcopy_run [OF Suc.prems(3)] by blast
      obtain q st2 where st2: "redircmd p f c st1 = Inr (q, st2)" "sh_ok st2" "cmds st1 q = None"
        "cmds st2 = (cmds st1)(q \<mapsto> redir_node c p f)"
        using new_cmd_run [OF st1(2)] unfolding redircmd_def by blast
      have go: "parseredirs (Suc k) p s st = parseredirs k q u st2"
        using run u(1) st1(1) st2(1) by (simp add: bnd_def)
      have le: "cmds st \<subseteq>\<^sub>m cmds st2" using map_le_fresh st1(3) st2(3,4) by metis
      have lu: "length u < k" using u(4) r(4) Suc.prems(2) by simp
      have here: "cmds st2 q = Some (redir_node c p f)"
        using st2(4) by simp
      note IH = Suc.IH [OF u(3) lu st2(2), of q]
      show ?thesis
      proof (cases "redirs us")
        case None
        then show ?thesis using IH go t f u(2) by simp
      next
        case (Some x)
        obtain rs vs where x: "x = (rs, vs)" by (cases x)
        then obtain p' s' st' where "parseredirs k q u st2 = Inr ((p', s'), st')" "tokens s' = vs" "clean s'" "length s' \<le> length u"
          "sh_ok st'" "wraps (cmds st') q rs p'" "cmds st2 \<subseteq>\<^sub>m cmds st'"
          using IH Some u(2) by auto
        moreover from this have "cmds st \<subseteq>\<^sub>m cmds st'" "length s' \<le> length s" using map_le_trans [OF le] u(4) r(4) by auto
        moreover have "cmds st' q = Some (redir_node c p f)" by (rule map_leI_some [OF calculation(7) here])
        then have "wraps (cmds st') p ((c, f) # rs) p'" using calculation(6) by auto
        ultimately show ?thesis using go Some x t f by simp
      qed
    qed
  qed
qed simp

definition exec_node :: "string list \<Rightarrow> struct_cmd" where
  "exec_node ws = EXECCMD (map Some ws @ replicate (MAXARGS - length ws) None)"

lemma set_argv_next:
  assumes "cmds st p = Some (exec_node ws)" and "length ws < MAXARGS"
  shows "set_argv p (length ws) (Some w) st = Inr ((), st\<lparr>cmds := (cmds st)(p \<mapsto> exec_node (ws @ [w]))\<rparr>)"
    and "set_argv p (length ws) None st = Inr ((), st)"
proof -
  obtain n where n: "MAXARGS - length ws = Suc n" using assms(2) by (metis Suc_diff_Suc)
  let ?v = "map Some ws @ None # replicate n None"
  have v: "exec_node ws = EXECCMD ?v" "exec_node (ws @ [w]) = EXECCMD (?v[length ws := Some w])" "?v[length ws := None] = ?v" "length ws < length ?v"
    using n by (simp_all add: exec_node_def list_update_append)
  have c: "cmds st p = Some (EXECCMD ?v)" using assms(1) v(1) by simp
  show "set_argv p (length ws) (Some w) st = Inr ((), st\<lparr>cmds := (cmds st)(p \<mapsto> exec_node (ws @ [w]))\<rparr>)"
    unfolding set_argv_def c v(2) using v(4) by simp
  have "set_argv p (length ws) None st = Inr ((), st\<lparr>cmds := (cmds st)(p \<mapsto> EXECCMD (?v[length ws := None]))\<rparr>)"
    unfolding set_argv_def c using v(4) by simp
  also have "\<dots> = Inr ((), st)" unfolding v(3) fun_upd_idem [of "cmds st" p, OF c] by simp
  finally show "set_argv p (length ws) None st = Inr ((), st)" .
qed

text \<open>\<open>ws\<close> are the arguments so far; the chain of redirections \<open>rs\<close> leads from the command to \<open>r\<close>.\<close>

lemma parseexec_loop_run:
  "clean s \<Longrightarrow> length s < k \<Longrightarrow> sh_ok st \<Longrightarrow> cmds st p = Some (exec_node ws) \<Longrightarrow> length ws < MAXARGS \<Longrightarrow> wraps (cmds st) p rs r \<Longrightarrow>
   \<forall>c ts. tokens s = Sym c # ts \<longrightarrow> c = CHR ''|'' \<or> c = CHR '';'' \<Longrightarrow>
   case simple (length ws) (tokens s) of
     None \<Rightarrow> parseexec_loop k p (length ws) r s st = Inl (Exit (- 1))
   | Some (vs, qs, ts) \<Rightarrow> \<exists>r' s' st'. parseexec_loop k p (length ws) r s st = Inr ((r', length ws + length vs, s'), st')
       \<and> length ws + length vs < MAXARGS \<and> tokens s' = ts \<and> clean s' \<and> length s' \<le> length s \<and> sh_ok st'
       \<and> cmds st' p = Some (exec_node (ws @ vs)) \<and> wraps (cmds st') p (rs @ qs) r' \<and> (cmds st)(p := None) \<subseteq>\<^sub>m cmds st'"
proof (induction k arbitrary: s ws rs r st)
  case (Suc k)
  let ?s = "skip_white s"
  have pk: "peek s ''|;'' = (case tokens s of Sym c # _ \<Rightarrow> c \<in> set ''|;'' | _ \<Rightarrow> False, ?s)"
    by (rule peek_tokens [OF Suc.prems(1)]) (simp add: symbols_def)
  have cs: "clean ?s" "length ?s \<le> length s" using Suc.prems(1) skip_white_length by auto
  note gt = gettoken_tokens [OF cs(1), unfolded tokens_skip]
  have le0: "(cmds st)(p := None) \<subseteq>\<^sub>m cmds st" by (simp add: map_le_def)
  consider (stop) c ts where "tokens s = Sym c # ts" | (eol) "tokens s = []" | (word) w ts where "tokens s = Word w # ts"
    by (metis list.exhaust token.exhaust)
  then show ?case
  proof cases
    case stop
    then have "simple (length ws) (tokens s) = Some ([], [], tokens s)" using Suc.prems(7) by auto
    moreover have "parseexec_loop (Suc k) p (length ws) r s st = Inr ((r, length ws, ?s), st)"
      using pk stop Suc.prems(7) by (auto simp: ret_run)
    ultimately show ?thesis using cs le0 Suc.prems by simp
  next
    case eol
    have "parseexec_loop (Suc k) p (length ws) r s st = Inr ((r, length ws, []), st)"
      using pk eol gt by (simp add: ret_run)
    moreover have "tokens [] = []" by (simp add: tokens_Nil)
    ultimately show ?thesis using eol le0 Suc.prems by simp
  next
    case word
    then obtain u where u: "gettoken ?s = (CHR ''a'', w, u)" "tokens u = ts" "clean u" "length u < length s" using gt cs(2) by auto
    obtain st1 where st1: "mkcopy w st = Inr (w, st1)" "sh_ok st1" "cmds st1 = cmds st" using mkcopy_run [OF Suc.prems(3)] by blast
    have p1: "cmds st1 p = Some (exec_node ws)" using st1(3) Suc.prems(4) by simp
    define st2 where "st2 = st1\<lparr>cmds := (cmds st)(p \<mapsto> exec_node (ws @ [w]))\<rparr>"
    have arg: "set_argv p (length ws) (Some w) st1 = Inr ((), st2)"
      using set_argv_next(1) [OF p1 Suc.prems(5), of w] st1(3) by (simp add: st2_def)
    have "p < brk st1" using p1 st1(2) by (metis linorder_not_less option.distinct(1) sh_ok_def)
    then have ok2: "sh_ok st2" using st1(2,3) by (auto simp: sh_ok_def st2_def no_failures_def)
    have run: "parseexec_loop (Suc k) p (length ws) r s st =
        (if Suc (length ws) \<ge> MAXARGS then fail (Exit (- 1))
         else bnd (parseredirs k r u) (\<lambda>(r, s). parseexec_loop k p (Suc (length ws)) r s)) st2"
      using pk word u(1) st1(1) arg by (simp add: bnd_def Let_def)
    show ?thesis
    proof (cases "Suc (length ws) \<ge> MAXARGS")
      case True
      then show ?thesis using run word by (simp add: fail_run)
    next
      case False
      have lu: "length u < k" using u(4) Suc.prems(2) by simp
      note rd = parseredirs_run [OF u(3) lu ok2, of r]
      show ?thesis
      proof (cases "redirs ts")
        case None
        then show ?thesis using rd u(2) run False word simple_redirs [of "Suc (length ws)" ts] by (simp add: bnd_def)
      next
        case (Some x)
        obtain rs1 us where x: "x = (rs1, us)" by (cases x)
        obtain r1 s1 st3 where s1: "parseredirs k r u st2 = Inr ((r1, s1), st3)" "tokens s1 = us" "clean s1" "length s1 \<le> length u"
          "sh_ok st3" "wraps (cmds st3) r rs1 r1" "cmds st2 \<subseteq>\<^sub>m cmds st3"
          using rd Some x u(2) by auto
        have "cmds st2 p = Some (exec_node (ws @ [w]))" by (simp add: st2_def)
        then have p3: "cmds st3 p = Some (exec_node (ws @ [w]))" using map_leI_some [OF s1(7)] by simp
        have "wraps (cmds st3) p rs r"
        proof (rule wraps_mono [OF Suc.prems(6)])
          fix q k' r' f
          assume q: "cmds st q = Some (redir_node k' r' f)"
          then have "q \<noteq> p" using Suc.prems(4) by (auto simp: exec_node_def redir_node_def)
          then have "cmds st2 q = cmds st q" by (simp add: st2_def)
          then show "cmds st3 q = cmds st q" using q map_leI_some [OF s1(7)] by metis
        qed
        then have w3: "wraps (cmds st3) p (rs @ rs1) r1" using s1(6) wraps_append by blast
        have len: "length (ws @ [w]) < MAXARGS" using False by simp
        have stop: "\<forall>c vs. tokens s1 = Sym c # vs \<longrightarrow> c = CHR ''|'' \<or> c = CHR '';''"
          using redirs_stop [of ts rs1 us] Some x s1(2) by simp
        have ls: "length s1 < k" using s1(4) lu by simp
        note IH = Suc.IH [OF s1(3) ls s1(5) p3 len w3 stop]
        have go: "parseexec_loop (Suc k) p (length ws) r s st = parseexec_loop k p (length (ws @ [w])) r1 s1 st3"
          using run False s1(1) by (simp add: bnd_def)
        have sim: "simple (length ws) (tokens s) = (case simple (length (ws @ [w])) us of None \<Rightarrow> None
            | Some (vs, qs, ts) \<Rightarrow> Some (w # vs, rs1 @ qs, ts))"
          using word False Some x simple_redirs [of "Suc (length ws)" ts] by (simp split: option.split)
        have le: "(cmds st)(p := None) \<subseteq>\<^sub>m (cmds st3)(p := None)"
          using s1(7) by (auto simp: map_le_def st2_def dom_def split: if_splits)
        show ?thesis
        proof (cases "simple (length (ws @ [w])) us")
          case None
          then show ?thesis using IH s1(2) go sim by simp
        next
          case (Some y)
          obtain vs qs zs where y: "y = (vs, qs, zs)" by (cases y)
          then obtain r' s' st' where "parseexec_loop k p (length (ws @ [w])) r1 s1 st3 = Inr ((r', length (ws @ [w]) + length vs, s'), st')"
            "length (ws @ [w]) + length vs < MAXARGS" "tokens s' = zs" "clean s'" "length s' \<le> length s1" "sh_ok st'"
            "cmds st' p = Some (exec_node ((ws @ [w]) @ vs))" "wraps (cmds st') p ((rs @ rs1) @ qs) r'" "(cmds st3)(p := None) \<subseteq>\<^sub>m cmds st'"
            using IH Some s1(2) by auto
          then show ?thesis using go sim Some y map_le_trans [OF le] s1(4) u(4) by simp
        qed
      qed
    qed
  qed
qed simp

text \<open>What a parse function does when the grammar gives \<open>g\<close> on the tokens of the line.\<close>

definition follows :: "(command \<times> token list) option \<Rightarrow> fault + (nat \<times> string) \<times> sh_state \<Rightarrow> string \<Rightarrow> sh_state \<Rightarrow> bool" where
  "follows g res s st \<longleftrightarrow>
     (case g of
        None \<Rightarrow> res = Inl (Exit (- 1))
      | Some (c, ts) \<Rightarrow> \<exists>r s' st'. res = Inr ((r, s'), st') \<and> tokens s' = ts \<and> clean s' \<and> length s' \<le> length s
          \<and> sh_ok st' \<and> repr (cmds st') r c \<and> cmds st \<subseteq>\<^sub>m cmds st')"

lemma parseexec_run:
  assumes "clean s" and "length s < k" and "sh_ok st"
  shows "follows (simple_command (tokens s)) (parseexec k s st) s st"
proof -
  obtain p st1 where st1: "execcmd st = Inr (p, st1)" "sh_ok st1" "cmds st p = None" "cmds st1 = (cmds st)(p \<mapsto> exec_node [])"
    using new_cmd_run [OF assms(3), of "exec_node []"] by (auto simp: execcmd_def exec_node_def)
  have p1: "cmds st1 p = Some (exec_node [])" using st1(4) by simp
  have le1: "cmds st \<subseteq>\<^sub>m cmds st1" using map_le_fresh [of "cmds st" p] st1(3,4) by simp
  note rd = parseredirs_run [OF assms(1,2) st1(2), of p]
  show ?thesis
  proof (cases "redirs (tokens s)")
    case None
    then show ?thesis using rd st1(1) simple_redirs [of 0 "tokens s"] by (simp add: parseexec_def bnd_def follows_def simple_command_def)
  next
    case (Some x)
    obtain rs us where x: "x = (rs, us)" by (cases x)
    obtain r s1 st2 where s1: "parseredirs k p s st1 = Inr ((r, s1), st2)" "tokens s1 = us" "clean s1" "length s1 \<le> length s"
      "sh_ok st2" "wraps (cmds st2) p rs r" "cmds st1 \<subseteq>\<^sub>m cmds st2"
      using rd Some x by auto
    have p2: "cmds st2 p = Some (exec_node [])" by (rule map_leI_some [OF s1(7) p1])
    have stop: "\<forall>c vs. tokens s1 = Sym c # vs \<longrightarrow> c = CHR ''|'' \<or> c = CHR '';''"
      using redirs_stop [of "tokens s" rs us] Some x s1(2) by simp
    have ls: "length s1 < k" using s1(4) assms(2) by simp
    have loop: "case simple 0 us of
       None \<Rightarrow> parseexec_loop k p 0 r s1 st2 = Inl (Exit (- 1))
     | Some (vs, qs, ts) \<Rightarrow> \<exists>r' s' st'. parseexec_loop k p 0 r s1 st2 = Inr ((r', length vs, s'), st')
         \<and> length vs < MAXARGS \<and> tokens s' = ts \<and> clean s' \<and> length s' \<le> length s1 \<and> sh_ok st'
         \<and> cmds st' p = Some (exec_node vs) \<and> wraps (cmds st') p (rs @ qs) r' \<and> (cmds st2)(p := None) \<subseteq>\<^sub>m cmds st'"
      by (rule parseexec_loop_run [OF s1(3) ls s1(5) p2 _ s1(6) stop, unfolded list.size(3) add_0 append_Nil s1(2)]) (simp add: MAXARGS_def)
    have sim: "simple 0 (tokens s) = (case simple 0 us of None \<Rightarrow> None | Some (ws, qs, ts) \<Rightarrow> Some (ws, rs @ qs, ts))"
      using Some x simple_redirs [of 0 "tokens s"] by simp
    show ?thesis
    proof (cases "simple 0 us")
      case None
      then show ?thesis using loop sim st1(1) s1(1) by (simp add: parseexec_def bnd_def follows_def simple_command_def)
    next
      case (Some y)
      obtain vs qs ts where y: "y = (vs, qs, ts)" by (cases y)
      then obtain r' s' st' where l: "parseexec_loop k p 0 r s1 st2 = Inr ((r', length vs, s'), st')" "length vs < MAXARGS"
        "tokens s' = ts" "clean s'" "length s' \<le> length s1" "sh_ok st'" "cmds st' p = Some (exec_node vs)"
        "wraps (cmds st') p (rs @ qs) r'" "(cmds st2)(p := None) \<subseteq>\<^sub>m cmds st'"
        using loop Some by auto
      have "parseexec k s st = Inr ((r', s'), st')"
        using st1(1) s1(1) l(1) set_argv_next(2) [OF l(7,2)] by (simp add: parseexec_def bnd_def ret_run)
      moreover have "repr (cmds st') r' (foldl redirect (Exec vs) (rs @ qs))"
        by (rule wraps_repr [OF l(8)]) (use l(7) in \<open>simp add: exec_node_def\<close>)
      moreover have "cmds st \<subseteq>\<^sub>m (cmds st2)(p := None)"
        using map_le_trans [OF le1 s1(7)] st1(3) by (auto simp: map_le_def)
      then have "cmds st \<subseteq>\<^sub>m cmds st'" using map_le_trans l(9) by blast
      ultimately show ?thesis using sim Some y l(3-6) s1(4) by (simp add: follows_def simple_command_def)
    qed
  qed
qed

text \<open>Items separated by a symbol, parsed to the right: pipelines and lists of commands.\<close>

locale separated =
  fixes parse item :: "nat \<Rightarrow> string \<Rightarrow> (nat \<times> string) sh_cmd"
    and grammar item_grammar :: "token list \<Rightarrow> (command \<times> token list) option"
    and sep :: char and node :: "nat \<Rightarrow> nat \<Rightarrow> struct_cmd" and join :: "command \<Rightarrow> command \<Rightarrow> command" and fuel :: nat
  assumes sep: "sep \<in> set symbols"
    and parse_Suc: "parse (Suc k) s =
     bnd (item k s) (\<lambda>(cmd, s).
     let (more, s) = peek s [sep] in
     if more then
       (let (_, _, s) = gettoken s in
        bnd (parse k s) (\<lambda>(right, s).
        bnd (new_cmd (node cmd right)) (\<lambda>cmd.
        ret (cmd, s))))
     else ret (cmd, s))"
    and grammar_eq: "grammar ts =
     (case item_grammar ts of
        None \<Rightarrow> None
      | Some (c, us) \<Rightarrow>
          (case us of
            Sym k # vs \<Rightarrow>
              if k = sep then (case grammar vs of None \<Rightarrow> None | Some (d, r) \<Rightarrow> Some (join c d, r))
              else Some (c, us)
          | _ \<Rightarrow> Some (c, us)))"
    and item_follows: "clean s \<Longrightarrow> length s + fuel < k \<Longrightarrow> sh_ok st \<Longrightarrow> follows (item_grammar (tokens s)) (item k s st) s st"
    and repr_join: "h p = Some (node q r) \<Longrightarrow> repr h q c \<Longrightarrow> repr h r d \<Longrightarrow> repr h p (join c d)"
begin

lemma parse_follows:
  "clean s \<Longrightarrow> length s + Suc fuel < k \<Longrightarrow> sh_ok st \<Longrightarrow> follows (grammar (tokens s)) (parse k s st) s st"
proof (induction k arbitrary: s st)
  case (Suc k)
  have "length s + fuel < k" using Suc.prems(2) by simp
  note ex = item_follows [OF Suc.prems(1) this Suc.prems(3)]
  show ?case
  proof (cases "item_grammar (tokens s)")
    case None
    then show ?thesis using ex unfolding parse_Suc by (subst grammar_eq) (simp add: bnd_def follows_def)
  next
    case (Some x)
    obtain c us where x: "x = (c, us)" by (cases x)
    obtain r s1 st1 where s1: "item k s st = Inr ((r, s1), st1)" "tokens s1 = us" "clean s1" "length s1 \<le> length s" "sh_ok st1"
      "repr (cmds st1) r c" "cmds st \<subseteq>\<^sub>m cmds st1" using ex Some x by (auto simp: follows_def)
    have pk: "peek s1 [sep] = (case us of Sym c # _ \<Rightarrow> c \<in> set [sep] | _ \<Rightarrow> False, skip_white s1)"
      using peek_tokens [OF s1(3), of "[sep]"] s1(2) sep by simp
    have cs: "clean (skip_white s1)" "length (skip_white s1) \<le> length s1" using s1(3) skip_white_length by auto
    show ?thesis
    proof (cases "\<exists>vs. us = Sym sep # vs")
      case False
      have "grammar (tokens s) = Some (c, us)"
        using Some x False by (subst grammar_eq) (auto split: list.split token.split)
      moreover have "parse (Suc k) s st = Inr ((r, skip_white s1), st1)"
        unfolding parse_Suc using s1(1) pk False by (auto simp: bnd_def ret_run split: list.split token.split)
      ultimately show ?thesis using s1 cs by (simp add: follows_def)
    next
      case True
      then obtain vs where vs: "us = Sym sep # vs" by blast
      then obtain u where u: "gettoken (skip_white s1) = (sep, [sep], u)" "tokens u = vs" "clean u" "length u < length s1"
        using gettoken_tokens [OF cs(1)] s1(2) cs(2) by auto
      have pl: "grammar (tokens s) = (case grammar vs of None \<Rightarrow> None | Some (d, r) \<Rightarrow> Some (join c d, r))"
        using Some x vs by (subst grammar_eq) simp
      have go: "parse (Suc k) s st = bnd (parse k u) (\<lambda>(right, s). bnd (new_cmd (node r right)) (\<lambda>cmd. ret (cmd, s))) st1"
        unfolding parse_Suc using s1(1) pk vs u(1) by (simp add: bnd_def)
      have "length u + Suc fuel < k" using u(4) s1(4) Suc.prems(2) by simp
      note IH = Suc.IH [OF u(3) this s1(5)]
      show ?thesis
      proof (cases "grammar vs")
        case None
        then show ?thesis using IH u(2) pl go by (simp add: bnd_def follows_def)
      next
        case (Some y)
        obtain d ts where y: "y = (d, ts)" by (cases y)
        then obtain r2 s2 st2 where s2: "parse k u st1 = Inr ((r2, s2), st2)" "tokens s2 = ts" "clean s2" "length s2 \<le> length u" "sh_ok st2"
          "repr (cmds st2) r2 d" "cmds st1 \<subseteq>\<^sub>m cmds st2" using IH Some u(2) by (auto simp: follows_def)
        obtain p st3 where st3: "new_cmd (node r r2) st2 = Inr (p, st3)" "sh_ok st3" "cmds st2 p = None" "cmds st3 = (cmds st2)(p \<mapsto> node r r2)"
          using new_cmd_run [OF s2(5)] by blast
        have le: "cmds st2 \<subseteq>\<^sub>m cmds st3" using map_le_fresh [of "cmds st2" p] st3(3,4) by simp
        have "repr (cmds st3) r c" "repr (cmds st3) r2 d"
          using repr_mono s1(6) s2(6,7) le map_le_trans by blast+
        then have "repr (cmds st3) p (join c d)" using st3(4) by (intro repr_join) auto
        moreover have "cmds st \<subseteq>\<^sub>m cmds st3" using s1(7) s2(7) le map_le_trans by blast
        moreover have "parse (Suc k) s st = Inr ((p, s2), st3)" using go s2(1) st3(1) by (simp add: bnd_def ret_run)
        ultimately show ?thesis using pl Some y s2(2-4) st3(2) u(4) s1(4) by (simp add: follows_def)
      qed
    qed
  qed
qed simp

end

interpretation pipes: separated parsepipe parseexec pipeline simple_command "CHR ''|''" PIPECMD Pipe 0
proof
  show "CHR ''|'' \<in> set symbols" by (simp add: symbols_def)
  show "follows (simple_command (tokens s)) (parseexec k s st) s st" if "clean s" "length s + 0 < k" "sh_ok st" for s k st
    using parseexec_run that by simp
qed (simp_all add: pipecmd_def pipeline.simps cong: if_cong option.case_cong list.case_cong)

interpretation lists: separated parsecomd parsepipe sequence pipeline "CHR '';''" COMMANDCMD Seq 1
proof
  show "CHR '';'' \<in> set symbols" by (simp add: symbols_def)
  show "follows (pipeline (tokens s)) (parsepipe k s st) s st" if "clean s" "length s + 1 < k" "sh_ok st" for s k st
    using pipes.parse_follows that by simp
qed (simp_all add: commandcmd_def sequence.simps cong: if_cong option.case_cong list.case_cong)

lemma simple_rest: "simple n ts = Some (ws, rs, us) \<Longrightarrow> us = [] \<or> (\<exists>c vs. us = Sym c # vs \<and> (c = CHR ''|'' \<or> c = CHR '';''))"
  by (induction n ts arbitrary: ws rs rule: simple.induct) (auto split: if_splits option.splits list.splits token.splits)

lemma pipeline_rest: "pipeline ts = Some (c, us) \<Longrightarrow> us = [] \<or> (\<exists>vs. us = Sym CHR '';'' # vs)"
proof (induction ts arbitrary: c us rule: pipeline.induct)
  case (1 ts)
  obtain d vs where d: "simple_command ts = Some (d, vs)" using "1.prems" by (subst (asm) pipeline.simps) (auto split: option.splits)
  have vs: "vs = [] \<or> (\<exists>c ws. vs = Sym c # ws \<and> (c = CHR ''|'' \<or> c = CHR '';''))"
    using d by (auto simp: simple_command_def split: option.splits dest: simple_rest)
  then show ?case using "1.prems" "1.IH" [OF d refl] d
    by (subst (asm) pipeline.simps) (fastforce split: if_splits option.splits)
qed

lemma sequence_rest: "sequence ts = Some (c, us) \<Longrightarrow> us = []"
proof (induction ts arbitrary: c us rule: sequence.induct)
  case (1 ts)
  obtain d vs where d: "pipeline ts = Some (d, vs)" using "1.prems" by (subst (asm) sequence.simps) (auto split: option.splits)
  show ?case using pipeline_rest [OF d] "1.prems" "1.IH" [OF d refl] d
    by (subst (asm) sequence.simps) (fastforce split: if_splits option.splits)
qed

lemma parsecmd_run:
  assumes "sh_ok st" and "clean s"
  shows "case command_line s of
     None \<Rightarrow> parsecmd s st = Inl (Exit (- 1))
   | Some c \<Rightarrow> \<exists>r st'. parsecmd s st = Inr (r, st') \<and> sh_ok st' \<and> repr (cmds st') r c \<and> cmds st \<subseteq>\<^sub>m cmds st'"
proof -
  have tw: "takeWhile (\<lambda>c. c \<noteq> CHR 0x00) s = s" using assms(2) by (auto simp: clean_def takeWhile_eq_all_conv)
  have "length s + Suc 1 < length s + 4" by simp
  note f = lists.parse_follows [OF assms(2) this assms(1)]
  show ?thesis
  proof (cases "sequence (tokens s)")
    case None
    then show ?thesis using f unfolding parsecmd_def tw by (simp add: follows_def command_line_def parseline_def bnd_def Let_def)
  next
    case (Some x)
    obtain c us where x: "x = (c, us)" by (cases x)
    have us: "us = []" using sequence_rest Some x by blast
    then obtain r s' st' where r: "parsecomd (length s + 4) s st = Inr ((r, s'), st')" "tokens s' = []" "sh_ok st'" "repr (cmds st') r c" "cmds st \<subseteq>\<^sub>m cmds st'"
      using f Some x by (auto simp: follows_def)
    have "skip_white s' = []" using r(2) by (simp add: tokens_Nil)
    then have "parsecmd s st = Inr (r, st')" unfolding parsecmd_def tw using r(1) by (simp add: parseline_def bnd_def Let_def peek_def ret_run)
    then show ?thesis using Some x us r by (simp add: command_line_def)
  qed
qed

section \<open>Printing commands\<close>

definition word :: "string \<Rightarrow> bool" where
  "word w \<longleftrightarrow> w \<noteq> [] \<and> (\<forall>c \<in> set w. word_char c)"

fun print :: "command \<Rightarrow> string" where
  "print (Exec ws) = concat (map (\<lambda>w. w @ '' '') ws)"
| "print (Redir c k f) = print c @ [k] @ f @ '' ''"
| "print (Pipe c d) = print c @ ''| '' @ print d"
| "print (Seq c d) = print c @ ''; '' @ print d"

fun is_simple :: "command \<Rightarrow> bool" where
  "is_simple (Exec ws) = (length ws < MAXARGS \<and> (\<forall>w \<in> set ws. word w))"
| "is_simple (Redir c k f) = (is_simple c \<and> (k = CHR ''<'' \<or> k = CHR ''>'') \<and> word f)"
| "is_simple _ = False"

fun is_pipeline :: "command \<Rightarrow> bool" where
  "is_pipeline (Pipe c d) = (is_simple c \<and> is_pipeline d)"
| "is_pipeline c = is_simple c"

fun is_command :: "command \<Rightarrow> bool" where
  "is_command (Seq c d) = (is_pipeline c \<and> is_command d)"
| "is_command c = is_pipeline c"

lemma word_char_zero: "word_char c \<Longrightarrow> c \<noteq> CHR 0x00"
  by (auto simp: word_char_def in_string_def)

lemma tokens_white: "in_string whitespace c \<Longrightarrow> tokens (c # s) = tokens s"
  by (subst (1 2) tokens.simps) (simp add: skip_white_def)

lemma tokens_word:
  assumes "word w" and "in_string whitespace c"
  shows "tokens (w @ c # s) = Word w # tokens s"
proof -
  obtain a v where w: "w = a # v" using assms(1) by (cases w) (auto simp: word_def)
  have wc: "word_char a" "\<forall>x \<in> set v. word_char x" using assms(1) w by (auto simp: word_def)
  have c: "\<not> word_char c" using assms(2) by (simp add: word_char_def)
  have "takeWhile word_char (v @ c # s) = v" "dropWhile word_char (v @ c # s) = c # s"
    using wc(2) c by (simp_all add: takeWhile_append dropWhile_append)
  moreover have "skip_white (w @ c # s) = a # v @ c # s" using wc(1) w by (simp add: skip_white_def word_char_def)
  moreover have "a \<notin> set symbols" using wc(1) by (simp add: word_char_def in_string_def)
  ultimately have "tokens (w @ c # s) = Word w # tokens (c # s)" using w by (subst tokens.simps) simp
  then show ?thesis using tokens_white [OF assms(2)] by simp
qed

lemma tokens_symbol: "c \<in> set symbols \<Longrightarrow> tokens (c # s) = Sym c # tokens s"
  by (subst tokens.simps) (auto simp: skip_white_def in_string_def symbols_def whitespace_def)

fun toks :: "command \<Rightarrow> token list" where
  "toks (Exec ws) = map Word ws"
| "toks (Redir c k f) = toks c @ [Sym k, Word f]"
| "toks (Pipe c d) = toks c @ Sym CHR ''|'' # toks d"
| "toks (Seq c d) = toks c @ Sym CHR '';'' # toks d"

lemma space_white: "in_string whitespace CHR '' ''"
  by (simp add: in_string_def whitespace_def)

lemma tokens_words: "\<forall>w \<in> set ws. word w \<Longrightarrow> tokens (concat (map (\<lambda>w. w @ '' '') ws) @ s) = map Word ws @ tokens s"
  by (induction ws) (simp_all add: tokens_word [OF _ space_white])

lemma simple_tokens: "is_simple c \<Longrightarrow> tokens (print c @ s) = toks c @ tokens s"
proof (induction c arbitrary: s)
  case (Redir c k f)
  have "k \<in> set symbols" using Redir.prems by (auto simp: symbols_def)
  then show ?case using Redir by (simp add: tokens_symbol tokens_word [OF _ space_white])
qed (simp_all add: tokens_words)

lemma symbol_tokens: "c = CHR ''|'' \<or> c = CHR '';'' \<Longrightarrow> tokens (c # CHR '' '' # s) = Sym c # tokens s"
  using tokens_symbol [of c] tokens_white [OF space_white] by (auto simp: symbols_def)

lemma pipeline_tokens: "is_pipeline c \<Longrightarrow> tokens (print c @ s) = toks c @ tokens s"
proof (induction c arbitrary: s)
  case (Pipe c d)
  then show ?case by (simp add: simple_tokens symbol_tokens)
next
  case (Exec ws)
  then show ?case using simple_tokens [of "Exec ws"] by simp
next
  case (Redir c k f)
  then show ?case using simple_tokens [of "Redir c k f"] by simp
qed simp

lemma command_tokens: "is_command c \<Longrightarrow> tokens (print c @ s) = toks c @ tokens s"
proof (induction c arbitrary: s)
  case (Seq c d)
  then show ?case by (simp add: pipeline_tokens symbol_tokens)
next
  case (Exec ws)
  then show ?case using simple_tokens [of "Exec ws"] by simp
next
  case (Redir c k f)
  then show ?case using simple_tokens [of "Redir c k f"] by simp
next
  case (Pipe c d)
  then show ?case using pipeline_tokens [of "Pipe c d"] by simp
qed

lemma simple_toks:
  assumes "is_simple c"
  shows "\<exists>ws rs. c = foldl redirect (Exec ws) rs \<and> length ws < MAXARGS \<and> toks c = map Word ws @ concat (map (\<lambda>r. [Sym (fst r), Word (snd r)]) rs)
    \<and> (\<forall>r \<in> set rs. fst r = CHR ''<'' \<or> fst r = CHR ''>'')"
  using assms
proof (induction c)
  case (Exec ws)
  then show ?case by (intro exI [of _ ws] exI [of _ "[]"]) simp
next
  case (Redir c k f)
  then obtain ws rs where "c = foldl redirect (Exec ws) rs" "length ws < MAXARGS"
    "toks c = map Word ws @ concat (map (\<lambda>r. [Sym (fst r), Word (snd r)]) rs)" "\<forall>r \<in> set rs. fst r = CHR ''<'' \<or> fst r = CHR ''>''" by auto
  moreover have "redirect c (k, f) = Redir c k f" by (simp add: redirect_def)
  ultimately show ?case using Redir.prems by (intro exI [of _ ws] exI [of _ "rs @ [(k, f)]"]) auto
qed simp_all

definition ends_simple :: "token list \<Rightarrow> bool" where
  "ends_simple us \<longleftrightarrow> us = [] \<or> (\<exists>c vs. us = Sym c # vs \<and> (c = CHR ''|'' \<or> c = CHR '';''))"

lemma simple_of_toks:
  "n + length ws < MAXARGS \<Longrightarrow> \<forall>r \<in> set rs. fst r = CHR ''<'' \<or> fst r = CHR ''>'' \<Longrightarrow> ends_simple us \<Longrightarrow>
   simple n (map Word ws @ concat (map (\<lambda>r. [Sym (fst r), Word (snd r)]) rs) @ us) = Some (ws, rs, us)"
proof (induction ws arbitrary: n)
  case Nil
  then show ?case by (induction rs) (auto simp: ends_simple_def)
qed simp

lemma simple_command_toks: "is_simple c \<Longrightarrow> ends_simple us \<Longrightarrow> simple_command (toks c @ us) = Some (c, us)"
  using simple_toks [of c] simple_of_toks [of 0 _ _ us] by (auto simp: simple_command_def)

lemma pipeline_toks: "is_pipeline c \<Longrightarrow> us = [] \<or> (\<exists>vs. us = Sym CHR '';'' # vs) \<Longrightarrow> pipeline (toks c @ us) = Some (c, us)"
proof (induction c arbitrary: us)
  case (Pipe c d)
  have "simple_command (toks c @ Sym CHR ''|'' # toks d @ us) = Some (c, Sym CHR ''|'' # toks d @ us)"
    using simple_command_toks Pipe.prems(1) by (simp add: ends_simple_def)
  then show ?case using Pipe.IH(2) [of us] Pipe.prems by (subst pipeline.simps) simp
next
  case (Exec ws)
  then have "simple_command (toks (Exec ws) @ us) = Some (Exec ws, us)" by (intro simple_command_toks) (auto simp: ends_simple_def)
  then show ?case using Exec.prems(2) by (subst pipeline.simps) auto
next
  case (Redir c k f)
  then have "simple_command (toks (Redir c k f) @ us) = Some (Redir c k f, us)" by (intro simple_command_toks) (auto simp: ends_simple_def)
  then show ?case using Redir.prems(2) by (subst pipeline.simps) auto
qed simp

lemma sequence_toks: "is_command c \<Longrightarrow> sequence (toks c) = Some (c, [])"
proof (induction c)
  case (Seq c d)
  have "pipeline (toks c @ Sym CHR '';'' # toks d) = Some (c, Sym CHR '';'' # toks d)" using pipeline_toks Seq.prems by simp
  then show ?case using Seq by (subst sequence.simps) simp
next
  case (Exec ws)
  then show ?case using pipeline_toks [of "Exec ws" "[]"] by (subst sequence.simps) simp
next
  case (Redir c k f)
  then show ?case using pipeline_toks [of "Redir c k f" "[]"] by (subst sequence.simps) simp
next
  case (Pipe c d)
  then show ?case using pipeline_toks [of "Pipe c d" "[]"] by (subst sequence.simps) simp
qed

lemma command_line_print: "is_command c \<Longrightarrow> command_line (print c) = Some c"
  using command_tokens [of c "[]"] sequence_toks [of c] tokens_Nil [of "[]"] by (simp add: command_line_def)

lemma clean_append [simp]: "clean (s @ t) \<longleftrightarrow> clean s \<and> clean t"
  by (auto simp: clean_def)

lemma word_clean: "word w \<Longrightarrow> clean w"
  using word_char_zero by (auto simp: word_def clean_def)

lemma simple_clean: "is_simple c \<Longrightarrow> clean (print c)"
proof (induction c)
  case (Exec ws)
  then show ?case by (induction ws) (auto simp: word_clean)
qed (auto simp: word_clean)

lemma print_clean: "is_command c \<Longrightarrow> clean (print c)"
proof -
  have p: "is_pipeline c \<Longrightarrow> clean (print c)" for c
  proof (induction c)
    case (Exec ws)
    then show ?case using simple_clean [of "Exec ws"] by simp
  next
    case (Redir c k f)
    then show ?case using simple_clean [of "Redir c k f"] by simp
  qed (auto simp: simple_clean)
  show "is_command c \<Longrightarrow> clean (print c)"
  proof (induction c)
    case (Exec ws)
    then show ?case using p [of "Exec ws"] by simp
  next
    case (Redir c k f)
    then show ?case using p [of "Redir c k f"] by simp
  next
    case (Pipe c d)
    then show ?case using p [of "Pipe c d"] by simp
  qed (simp add: p)
qed

section \<open>Properties\<close>

definition sh_start :: sh_state where
  "sh_start = \<lparr>brk = 1, outcomes = [], cmds = Map.empty\<rparr>"

definition sh_example :: command where
  "sh_example = Pipe (Exec [''ls'', ''-l'']) (Redir (Exec [''wc'']) CHR ''>'' ''out'')"

lemma sh_start_ok: "sh_ok sh_start"
  by (simp add: sh_ok_def sh_start_def no_failures_def)

lemma sh_example_command: "is_command sh_example"
  by (simp add: sh_example_def MAXARGS_def word_def word_char_def in_string_def whitespace_def symbols_def)

text \<open>
  C22: \<open>parsecmd\<close>, which scans while it parses and fills argument vectors that are already linked into the result, builds exactly
  the tree that the grammar gives for the tokens of the line, and exits with status -1 exactly when the grammar has none: a
  redirection without a file name or ten or more arguments.  It never runs out of its loop bound, never writes outside the
  argument vector, never reports leftovers, and leaves every structure that was in the store before as it was.
\<close>

theorem parsecmd_follows_grammar:
  assumes "sh_ok st" and "clean s"
  shows "case command_line s of
     None \<Rightarrow> parsecmd s st = Inl (Exit (- 1))
   | Some c \<Rightarrow> \<exists>r st'. parsecmd s st = Inr (r, st') \<and> sh_ok st' \<and> repr (cmds st') r c \<and> cmds st \<subseteq>\<^sub>m cmds st'"
  by (rule parsecmd_run [OF assms])

theorem parsecmd_follows_grammar_witness:
  "\<exists>r st'. parsecmd ''ls -l | wc >out '' sh_start = Inr (r, st') \<and> repr (cmds st') r (Pipe (Exec [''ls'', ''-l'']) (Redir (Exec [''wc'']) CHR ''>'' ''out''))"
proof -
  have "print sh_example = ''ls -l | wc >out ''" by (simp add: sh_example_def)
  then show ?thesis
    using parsecmd_follows_grammar [OF sh_start_ok print_clean [OF sh_example_command]] command_line_print [OF sh_example_command]
    by (auto simp: sh_example_def)
qed

text \<open>
  C23: parsing what is printed for a command gives the command back: pipes and semicolons group to the right, a pipe binds
  tighter, redirections belong to the simple command before them, and up to nine arguments are kept in order.
\<close>

theorem parsecmd_print_roundtrip:
  assumes "sh_ok st" and "is_command c"
  shows "\<exists>r st'. parsecmd (print c) st = Inr (r, st') \<and> repr (cmds st') r c"
  using parsecmd_run [OF assms(1) print_clean [OF assms(2)]] command_line_print [OF assms(2)] by auto

theorem parsecmd_print_roundtrip_witness: "\<exists>r st'. parsecmd (print sh_example) sh_start = Inr (r, st') \<and> repr (cmds st') r sh_example"
  by (rule parsecmd_print_roundtrip [OF sh_start_ok sh_example_command])

end
