(* ===== verification/Trie.thy ===== *)
theory Trie
  imports Prelude
begin

text \<open>
  The T9 dictionary of uw\_cse374/hw4: trie.c, lib.c and t9.c.

  Trie nodes and the copies of the words live in an explicit store.  \<open>guarded_malloc\<close> and
  \<open>guarded_free\<close> exit with status 1 on failure.  An index outside \<open>child\<close>, an access through NULL or
  to freed memory is a \<open>MemFault\<close>.  A \<open>char\<close> is signed.  Loops along pointers take the number of
  rounds as their first argument; the callers pass the number of addresses handed out so far, which
  bounds every path in the store.
\<close>

section \<open>lib.c\<close>

record trie_node =
  isEnd :: bool
  nword :: nat
  child :: "nat list"

record trie_state = malloc_state +
  nodes :: "nat \<rightharpoonup> trie_node"
  strs :: "nat \<rightharpoonup> string"

type_synonym 'a trie_cmd = "(trie_state, 'a) cmd"

definition guarded_malloc :: "nat trie_cmd" where
  "guarded_malloc = bnd malloc (\<lambda>p. if p = NULL then fail (Exit 1) else ret p)"

definition guarded_free_node :: "nat \<Rightarrow> unit trie_cmd" where
  "guarded_free_node ptr s =
     (if ptr = NULL then Inl (Exit 1)
      else if nodes s ptr = None then Inl MemFault
      else Inr ((), s\<lparr>nodes := (nodes s)(ptr := None)\<rparr>))"

definition guarded_free_word :: "nat \<Rightarrow> unit trie_cmd" where
  "guarded_free_word ptr s =
     (if ptr = NULL then Inl (Exit 1)
      else if strs s ptr = None then Inl MemFault
      else Inr ((), s\<lparr>strs := (strs s)(ptr := None)\<rparr>))"

section \<open>trie.c\<close>

definition rd_trie_node :: "nat \<Rightarrow> trie_node trie_cmd" where
  "rd_trie_node p s = (case nodes s p of None \<Rightarrow> Inl MemFault | Some n \<Rightarrow> Inr (n, s))"

definition wr_node :: "nat \<Rightarrow> trie_node \<Rightarrow> unit trie_cmd" where
  "wr_node p n s = Inr ((), s\<lparr>nodes := (nodes s)(p \<mapsto> n)\<rparr>)"

definition rd_word :: "nat \<Rightarrow> string trie_cmd" where
  "rd_word p s = (case strs s p of None \<Rightarrow> Inl MemFault | Some w \<Rightarrow> Inr (w, s))"

definition child_at :: "trie_node \<Rightarrow> int \<Rightarrow> nat trie_cmd" where
  "child_at n i = (if 0 \<le> i \<and> nat i < length (child n) then ret (child n ! nat i) else fail MemFault)"

definition copy_word :: "string \<Rightarrow> nat trie_cmd" where
  "copy_word w = bnd guarded_malloc (\<lambda>p s. Inr (p, s\<lparr>strs := (strs s)(p \<mapsto> w)\<rparr>))"

definition create_trie_node :: "bool \<Rightarrow> string option \<Rightarrow> nat trie_cmd" where
  "create_trie_node is_end w =
     bnd guarded_malloc (\<lambda>node.
     bnd (if is_end then (case w of None \<Rightarrow> fail MemFault | Some w \<Rightarrow> copy_word w) else ret NULL) (\<lambda>p.
     bnd (wr_node node \<lparr>isEnd = is_end, nword = p, child = replicate 9 NULL\<rparr>) (\<lambda>_.
     ret node)))"

definition create_empty_trie :: "nat trie_cmd" where
  "create_empty_trie = create_trie_node False None"

definition char_int :: "char \<Rightarrow> int" where
  "char_int c = (let n = int (of_char c) in if n < 128 then n else n - 256)"

text \<open>The descent of \<open>insert_word\<close>: None after the message about an invalid number.\<close>

fun insert_walk :: "nat \<Rightarrow> string \<Rightarrow> nat option trie_cmd" where
  "insert_walk cur [] = ret (Some cur)"
| "insert_walk cur (c # nums) =
     (let num = char_int c - char_int CHR ''2'' in
      if num < 0 \<or> num > 7 then ret None
      else
        bnd (rd_trie_node cur) (\<lambda>n.
        bnd (child_at n num) (\<lambda>p.
        bnd (if p = NULL then
               bnd (create_trie_node False None) (\<lambda>q.
               bnd (rd_trie_node cur) (\<lambda>n.
               bnd (wr_node cur (n\<lparr>child := (child n)[nat num := q]\<rparr>)) (\<lambda>_.
               ret q)))
             else ret p) (\<lambda>next_node.
        insert_walk next_node nums))))"

fun last_same :: "nat \<Rightarrow> nat \<Rightarrow> nat trie_cmd" where
  "last_same 0 cur = fail OutOfFuel"
| "last_same (Suc k) cur =
     bnd (rd_trie_node cur) (\<lambda>n.
     bnd (child_at n 8) (\<lambda>p.
     if p \<noteq> NULL then last_same k p else ret cur))"

definition insert_word :: "nat \<Rightarrow> string \<Rightarrow> string \<Rightarrow> unit trie_cmd" where
  "insert_word root nums w =
     (if root = NULL then ret ()
      else
        bnd (insert_walk root nums) (\<lambda>r.
        case r of
          None \<Rightarrow> ret ()
        | Some cur \<Rightarrow>
            bnd (rd_trie_node cur) (\<lambda>n.
            if \<not> isEnd n then
              bnd (copy_word w) (\<lambda>p. wr_node cur (n\<lparr>isEnd := True, nword := p\<rparr>))
            else
              bnd (\<lambda>s. last_same (brk s) cur s) (\<lambda>cur.
              bnd (create_trie_node True (Some w)) (\<lambda>q.
              bnd (rd_trie_node cur) (\<lambda>n.
              wr_node cur (n\<lparr>child := (child n)[8 := q]\<rparr>)))))))"

text \<open>\<open>print_trie\<close> writes one line per word or inner node; the model returns the lines.\<close>

definition indent :: "nat \<Rightarrow> string" where
  "indent cnt = concat (replicate cnt ''  '')"

fun print_same :: "nat \<Rightarrow> nat \<Rightarrow> nat \<Rightarrow> string list trie_cmd" where
  "print_same 0 cnt same = fail OutOfFuel"
| "print_same (Suc k) cnt same =
     (if same = NULL then ret []
      else
        bnd (rd_trie_node same) (\<lambda>n.
        bnd (rd_word (nword n)) (\<lambda>w.
        bnd (child_at n 8) (\<lambda>p.
        bnd (print_same k cnt p) (\<lambda>ls.
        ret ((indent cnt @ ''node sameword: '' @ w) # ls))))))"

text \<open>Running a command for every child pointer that is not NULL, in order, collecting the results.\<close>

fun each_child :: "(nat \<Rightarrow> 'a list trie_cmd) \<Rightarrow> nat list \<Rightarrow> 'a list trie_cmd" where
  "each_child f [] = ret []"
| "each_child f (p # ps) =
     bnd (if p \<noteq> NULL then f p else ret []) (\<lambda>xs.
     bnd (each_child f ps) (\<lambda>ys. ret (xs @ ys)))"

fun print_trie_helper :: "nat \<Rightarrow> nat \<Rightarrow> nat \<Rightarrow> string list trie_cmd" where
  "print_trie_helper 0 cnt root = fail OutOfFuel"
| "print_trie_helper (Suc k) cnt root =
     (if root = NULL then ret []
      else
        bnd (rd_trie_node root) (\<lambda>n.
        bnd (if isEnd n then bnd (rd_word (nword n)) (\<lambda>w. ret (indent cnt @ ''node word: '' @ w))
             else ret (indent cnt @ ''node, not end'')) (\<lambda>line.
        bnd (child_at n 8) (\<lambda>same.
        bnd (print_same k cnt same) (\<lambda>ls.
        bnd (each_child (print_trie_helper k (cnt + 1)) (take 8 (child n))) (\<lambda>rest.
        ret (line # ls @ rest)))))))"

definition print_trie :: "nat \<Rightarrow> string list trie_cmd" where
  "print_trie root s = print_trie_helper (brk s) 0 root s"

fun search_trie :: "nat \<Rightarrow> string \<Rightarrow> nat trie_cmd" where
  "search_trie cur [] = ret cur"
| "search_trie cur (c # nums) =
     (if cur \<noteq> NULL then
        (let ind = (if c = CHR ''#'' then 8 else char_int c - char_int CHR ''2'') in
         bnd (rd_trie_node cur) (\<lambda>n.
         bnd (child_at n ind) (\<lambda>p.
         search_trie p nums)))
      else ret cur)"

fun delete_children :: "(nat \<Rightarrow> unit trie_cmd) \<Rightarrow> nat list \<Rightarrow> unit trie_cmd" where
  "delete_children f [] = ret ()"
| "delete_children f (p # ps) = bnd (if p \<noteq> NULL then f p else ret ()) (\<lambda>_. delete_children f ps)"

fun delete_trie :: "nat \<Rightarrow> nat \<Rightarrow> unit trie_cmd" where
  "delete_trie 0 trie = fail OutOfFuel"
| "delete_trie (Suc k) trie =
     (if trie = NULL then ret ()
      else
        bnd (rd_trie_node trie) (\<lambda>n.
        bnd (if nword n \<noteq> NULL then guarded_free_word (nword n) else ret ()) (\<lambda>_.
        bnd (delete_children (delete_trie k) (child n)) (\<lambda>_.
        guarded_free_node trie))))"

section \<open>t9.c\<close>

definition convert :: "char \<Rightarrow> char" where
  "convert c =
     (let dist = char_int c - char_int CHR ''a'' in
      if dist \<le> 2 then CHR ''2''
      else if dist \<le> 5 then CHR ''3''
      else if dist \<le> 8 then CHR ''4''
      else if dist \<le> 11 then CHR ''5''
      else if dist \<le> 14 then CHR ''6''
      else if dist \<le> 18 then CHR ''7''
      else if dist \<le> 21 then CHR ''8''
      else CHR ''9'')"

definition MAX_LINELEN :: nat where
  "MAX_LINELEN = 500"

text \<open>What \<open>fgets\<close> takes from the rest of a file: up to a newline, at most \<open>MAX_LINELEN - 1\<close> bytes.\<close>

fun fgets :: "nat \<Rightarrow> string \<Rightarrow> string \<times> string" where
  "fgets 0 cs = ([], cs)"
| "fgets (Suc n) [] = ([], [])"
| "fgets (Suc n) (c # cs) = (if c = CHR 0x0A then ([c], cs) else let (l, r) = fgets n cs in (c # l, r))"

text \<open>
  The loop of \<open>read_data\<close> on the contents of the file.  The string in the buffer ends at its first zero
  byte, and the newline is cut off.
\<close>

fun read_data_loop :: "nat \<Rightarrow> nat \<Rightarrow> string \<Rightarrow> unit trie_cmd" where
  "read_data_loop 0 trie cs = fail OutOfFuel"
| "read_data_loop (Suc k) trie cs =
     (if cs = [] then ret ()
      else
        (let (l, rest) = fgets (MAX_LINELEN - 1) cs;
             buffer = takeWhile (\<lambda>c. c \<noteq> CHR 0x0A) (takeWhile (\<lambda>c. c \<noteq> CHR 0x00) l) in
         bnd (copy_word (map convert buffer)) (\<lambda>numbuf.
         bnd (insert_word trie (map convert buffer) buffer) (\<lambda>_.
         bnd (guarded_free_word numbuf) (\<lambda>_.
         read_data_loop k trie rest)))))"

text \<open>\<open>None\<close> stands for a file that cannot be opened, the flag for a read error at the end.\<close>

definition read_data :: "(string \<times> bool) option \<Rightarrow> nat \<Rightarrow> bool trie_cmd" where
  "read_data file trie =
     (case file of
        None \<Rightarrow> ret False
      | Some (cs, error) \<Rightarrow> bnd (read_data_loop (Suc (length cs)) trie cs) (\<lambda>_. ret (\<not> error)))"

text \<open>
  One round of the dialogue of \<open>main\<close>: the word read by \<open>fscanf\<close>, the current node, and what is printed.
  \<open>None\<close> ends the dialogue.
\<close>

definition no_more :: string where
  "no_more = ''There are no more T9onyms''"

definition t9_round :: "nat \<Rightarrow> nat \<Rightarrow> string \<Rightarrow> (nat \<times> string) option trie_cmd" where
  "t9_round trie cur buf =
     (if length buf \<ge> MAX_LINELEN then fail MemFault
      else if take 4 buf = ''exit'' then ret None
      else if take 1 buf = ''#'' then
        (if cur = NULL then ret (Some (cur, no_more))
         else
           bnd (search_trie cur ''#'') (\<lambda>cur.
           if cur = NULL then ret (Some (cur, no_more))
           else bnd (rd_trie_node cur) (\<lambda>n. bnd (rd_word (nword n)) (\<lambda>w. ret (Some (cur, w))))))
      else
        bnd (search_trie trie buf) (\<lambda>cur.
        if cur \<noteq> NULL then
          bnd (rd_trie_node cur) (\<lambda>n.
          if isEnd n then bnd (rd_word (nword n)) (\<lambda>w. ret (Some (cur, w)))
          else ret (Some (cur, no_more)))
        else ret (Some (cur, no_more))))"

text \<open>
  When the input ends without the word exit, \<open>fscanf\<close> leaves the buffer as it is and the dialogue goes
  on for ever.
\<close>

fun t9_dialogue :: "nat \<Rightarrow> nat \<Rightarrow> string list \<Rightarrow> string list trie_cmd" where
  "t9_dialogue trie cur [] = fail OutOfFuel"
| "t9_dialogue trie cur (buf # bufs) =
     bnd (t9_round trie cur buf) (\<lambda>r.
     case r of
       None \<Rightarrow> ret []
     | Some (cur, out) \<Rightarrow> bnd (t9_dialogue trie cur bufs) (\<lambda>outs. ret (out # outs)))"

text \<open>The whole program: the dictionary file, the words typed in, and what is printed for them.\<close>

definition t9_main :: "(string \<times> bool) option \<Rightarrow> string list \<Rightarrow> string list trie_cmd" where
  "t9_main file bufs =
     bnd create_empty_trie (\<lambda>trie.
     bnd (read_data file trie) (\<lambda>ok.
     bnd (if ok then t9_dialogue trie NULL bufs else ret []) (\<lambda>outs.
     bnd (\<lambda>s. delete_trie (brk s) trie s) (\<lambda>_.
     ret outs))))"

section \<open>Paths\<close>

text \<open>The node at the end of a path of child indices, NULL when the path leaves the trie.\<close>

fun walk :: "(nat \<rightharpoonup> trie_node) \<Rightarrow> nat \<Rightarrow> nat list \<Rightarrow> nat" where
  "walk h p [] = p"
| "walk h p (i # x) = (if p = NULL then NULL else case h p of None \<Rightarrow> NULL | Some n \<Rightarrow> walk h (child n ! i) x)"

definition step :: "(nat \<rightharpoonup> trie_node) \<Rightarrow> nat \<Rightarrow> nat \<Rightarrow> nat" where
  "step h p i = (if p = NULL then NULL else case h p of None \<Rightarrow> NULL | Some n \<Rightarrow> child n ! i)"

lemma walk_NULL [simp]: "walk h NULL x = NULL"
  by (induction x) auto

lemma walk_append: "walk h p (x @ y) = walk h (walk h p x) y"
  by (induction x arbitrary: p) (auto split: option.split)

lemma walk_snoc: "walk h p (x @ [i]) = step h (walk h p x) i"
  by (simp add: walk_append step_def split: option.split)

definition keys :: "nat list set" where
  "keys = lists {..8}"

lemma keys_simps [simp]: "[] \<in> keys" "i # x \<in> keys \<longleftrightarrow> i \<le> 8 \<and> x \<in> keys" "x @ y \<in> keys \<longleftrightarrow> x \<in> keys \<and> y \<in> keys"
  by (auto simp: keys_def)

definition leaf :: "bool \<Rightarrow> nat \<Rightarrow> trie_node" where
  "leaf e w = \<lparr>isEnd = e, nword = w, child = replicate 9 NULL\<rparr>"

lemma walk_prefix: "walk h p (x @ y) \<noteq> NULL \<Longrightarrow> walk h p x \<noteq> NULL"
  by (metis walk_append walk_NULL)

text \<open>Linking a new leaf below one node changes one path only, when no two paths share a node.\<close>

lemma walk_add_leaf:
  assumes p: "p = walk h r x" "p \<noteq> NULL" "h p = Some n" "length (child n) = 9" "i \<le> 8" and free: "walk h r (x @ [i]) = NULL"
    and q: "h q = None" "q \<noteq> NULL"
    and inj: "\<And>y. y \<in> keys \<Longrightarrow> walk h r y = p \<Longrightarrow> y = x"
    and dom: "\<And>y. y \<in> keys \<Longrightarrow> walk h r y \<noteq> NULL \<Longrightarrow> h (walk h r y) \<noteq> None"
    and r: "r \<noteq> NULL"
    and h': "h' = h(q \<mapsto> leaf e w, p \<mapsto> n\<lparr>child := (child n)[i := q]\<rparr>)"
  shows "y \<in> keys \<Longrightarrow> walk h' r y = (if y = x @ [i] then q else walk h r y)"
proof (induction y rule: rev_induct)
  case (snoc c y)
  have y: "y \<in> keys" "c \<le> 8" using snoc.prems by auto
  have pq: "p \<noteq> q" using p(3) q(1) by auto
  note IH = snoc.IH [OF y(1)]
  show ?case
  proof (cases "y = x @ [i]")
    case True
    have "walk h' r y = q" using IH True by simp
    then have "walk h' r (y @ [c]) = step h' q c" by (simp only: walk_snoc)
    also have "\<dots> = NULL" using pq q(2) y(2) by (simp add: step_def h' leaf_def nth_replicate)
    also have "NULL = walk h r (y @ [c])" using True free walk_snoc [of h r y c] by (simp add: step_def)
    finally show ?thesis using True by simp
  next
    case False
    let ?a = "walk h r y"
    have w: "walk h' r (y @ [c]) = step h' ?a c" using IH False by (simp add: walk_snoc)
    show ?thesis
    proof (cases "?a = p")
      case True
      then have "y = x" using inj y(1) by blast
      moreover have "walk h r (y @ [c]) = child n ! c" unfolding walk_snoc True using p(2,3) by (simp add: step_def)
      moreover have "walk h' r (y @ [c]) = (child n)[i := q] ! c" unfolding w True using p(2) by (simp add: step_def h')
      ultimately show ?thesis using p(4,5) y(2) by (simp add: nth_list_update)
    next
      case False
      then have "y \<noteq> x" using p(1) by blast
      have "?a \<noteq> q" using dom [OF y(1)] q by metis
      then have "step h' ?a c = step h ?a c" using False by (simp add: step_def h')
      then show ?thesis using w \<open>y \<noteq> x\<close> walk_snoc [of h r y c] by simp
    qed
  qed
qed simp

lemma walk_same_children:
  assumes "\<And>a. map_option child (h' a) = map_option child (h a)"
  shows "walk h' p x = walk h p x"
proof (induction x arbitrary: p)
  case (Cons i x)
  show ?case using Cons.IH assms [of p] by (auto split: option.split)
qed simp

section \<open>The invariant\<close>

text \<open>
  \<open>X\<close> holds the strings that do not belong to the trie.  Every node and every word is reached on exactly
  one path; a word is stored where a node ends one; the links with index 8 lead from word to word.
\<close>

definition node_at :: "trie_state \<Rightarrow> nat \<Rightarrow> nat list \<Rightarrow> trie_node option" where
  "node_at st r x = (if walk (nodes st) r x = NULL then None else nodes st (walk (nodes st) r x))"

definition trie_wf :: "nat set \<Rightarrow> trie_state \<Rightarrow> nat \<Rightarrow> bool" where
  "trie_wf X st r \<longleftrightarrow> no_failures st \<and> r \<noteq> NULL \<and>
     (\<forall>x \<in> keys. walk (nodes st) r x \<noteq> NULL \<longrightarrow>
       (\<exists>n. node_at st r x = Some n \<and> length (child n) = 9 \<and> (if isEnd n then nword n \<noteq> NULL \<and> strs st (nword n) \<noteq> None \<and> nword n \<notin> X else nword n = NULL))) \<and>
     (\<forall>x \<in> keys. \<forall>y \<in> keys. walk (nodes st) r x = walk (nodes st) r y \<longrightarrow> walk (nodes st) r x \<noteq> NULL \<longrightarrow> x = y) \<and>
     (\<forall>a. nodes st a \<noteq> None \<longrightarrow> a < brk st \<and> (\<exists>x \<in> keys. walk (nodes st) r x = a \<and> a \<noteq> NULL)) \<and>
     (\<forall>x \<in> keys. \<forall>y \<in> keys. \<forall>n m. node_at st r x = Some n \<longrightarrow> node_at st r y = Some m \<longrightarrow> nword n = nword m \<longrightarrow> isEnd n \<longrightarrow> x = y) \<and>
     (\<forall>a. strs st a \<noteq> None \<longrightarrow> a < brk st \<and> (a \<in> X \<or> (\<exists>x \<in> keys. \<exists>n. node_at st r x = Some n \<and> isEnd n \<and> nword n = a))) \<and>
     (\<forall>x \<in> keys. walk (nodes st) r (x @ [8]) \<noteq> NULL \<longrightarrow>
       (\<exists>n m. node_at st r x = Some n \<and> isEnd n \<and> node_at st r (x @ [8]) = Some m \<and> isEnd m))"

lemma trie_wfD:
  assumes "trie_wf X st r"
  shows "no_failures st" "r \<noteq> NULL"
    and "x \<in> keys \<Longrightarrow> walk (nodes st) r x \<noteq> NULL \<Longrightarrow>
       \<exists>n. node_at st r x = Some n \<and> length (child n) = 9 \<and> (if isEnd n then nword n \<noteq> NULL \<and> strs st (nword n) \<noteq> None \<and> nword n \<notin> X else nword n = NULL)"
    and "x \<in> keys \<Longrightarrow> y \<in> keys \<Longrightarrow> walk (nodes st) r x = walk (nodes st) r y \<Longrightarrow> walk (nodes st) r x \<noteq> NULL \<Longrightarrow> x = y"
    and "nodes st a \<noteq> None \<Longrightarrow> a < brk st \<and> (\<exists>x \<in> keys. walk (nodes st) r x = a \<and> a \<noteq> NULL)"
    and "x \<in> keys \<Longrightarrow> y \<in> keys \<Longrightarrow> node_at st r x = Some n \<Longrightarrow> node_at st r y = Some m \<Longrightarrow> nword n = nword m \<Longrightarrow> isEnd n \<Longrightarrow> x = y"
    and "strs st a \<noteq> None \<Longrightarrow> a < brk st \<and> (a \<in> X \<or> (\<exists>x \<in> keys. \<exists>n. node_at st r x = Some n \<and> isEnd n \<and> nword n = a))"
    and "x \<in> keys \<Longrightarrow> walk (nodes st) r (x @ [8]) \<noteq> NULL \<Longrightarrow>
       \<exists>n m. node_at st r x = Some n \<and> isEnd n \<and> node_at st r (x @ [8]) = Some m \<and> isEnd m"
  using assms unfolding trie_wf_def by blast+

text \<open>The word stored at a path.\<close>

definition entry :: "trie_state \<Rightarrow> nat \<Rightarrow> nat list \<Rightarrow> string option" where
  "entry st r x = (case node_at st r x of None \<Rightarrow> None | Some n \<Rightarrow> if isEnd n then strs st (nword n) else None)"

lemma node_at_walk: "node_at st r x = Some n \<Longrightarrow> walk (nodes st) r x \<noteq> NULL \<and> nodes st (walk (nodes st) r x) = Some n"
  by (auto simp: node_at_def split: if_splits)

text \<open>Linking a new leaf, with or without a word.\<close>

lemma add_leaf:
  assumes wf: "trie_wf X st r" and x: "x \<in> keys" "i \<le> 8" and n: "node_at st r x = Some n" and free: "walk (nodes st) r (x @ [i]) = NULL"
    and q: "q \<noteq> NULL" "brk st \<le> q" "q < b" and w: "if e then w \<noteq> NULL \<and> brk st \<le> w \<and> w < b \<and> w \<notin> X else w = NULL" "i = 8 \<Longrightarrow> e \<and> isEnd n"
    and st': "st' = st\<lparr>brk := b, nodes := (nodes st)(q \<mapsto> leaf e w, walk (nodes st) r x \<mapsto> n\<lparr>child := (child n)[i := q]\<rparr>),
      strs := (if e then (strs st)(w \<mapsto> s) else strs st)\<rparr>"
  shows "trie_wf X st' r" and "y \<in> keys \<Longrightarrow> entry st' r y = (if y = x @ [i] \<and> e then Some s else entry st r y)"
    and "y \<in> keys \<Longrightarrow> walk (nodes st') r y = (if y = x @ [i] then q else walk (nodes st) r y)"
proof -
  note D = trie_wfD [OF wf]
  let ?h = "nodes st" and ?h' = "nodes st'" and ?p = "walk (nodes st) r x" and ?n = "n\<lparr>child := (child n)[i := q]\<rparr>"
  have p: "?p \<noteq> NULL" "?h ?p = Some n" using node_at_walk [OF n] by simp_all
  have n9: "length (child n) = 9" "if isEnd n then nword n \<noteq> NULL \<and> strs st (nword n) \<noteq> None \<and> nword n \<notin> X else nword n = NULL"
    using D(3) [OF x(1) p(1)] n by simp_all
  have xi: "x @ [i] \<in> keys" using x by simp
  have fresh: "?h q = None" using D(5) [of q] q(2) by (metis leD)
  have sfresh: "e \<Longrightarrow> strs st w = None" using D(7) [of w] w(1) by (metis leD)
  have h': "?h' = ?h(q \<mapsto> leaf e w, ?p \<mapsto> ?n)" "brk st' = b" "outcomes st' = outcomes st" using st' by simp_all
  have ss: "strs st' = (if e then (strs st)(w \<mapsto> s) else strs st)" using st' by simp
  have dom: "?h (walk ?h r z) \<noteq> None" if "z \<in> keys" "walk ?h r z \<noteq> NULL" for z
    using D(3) [OF that] node_at_walk by fastforce
  have inj: "y = x" if "y \<in> keys" "walk ?h r y = ?p" for y
    using D(4) [OF that(1) x(1) that(2)] that(2) p(1) by simp
  have W: "walk ?h' r y = (if y = x @ [i] then q else walk ?h r y)" if "y \<in> keys" for y
    by (rule walk_add_leaf [OF refl p n9(1) x(2) free fresh q(1) inj dom D(2) h'(1) that])
  then show "y \<in> keys \<Longrightarrow> walk ?h' r y = (if y = x @ [i] then q else walk ?h r y)" by blast
  have pq: "?p \<noteq> q" using p(2) fresh by auto
  have xn: "x \<noteq> x @ [i]" by simp
  have N: "node_at st' r y = (if y = x @ [i] then Some (leaf e w) else if y = x then Some ?n else node_at st r y)" if y: "y \<in> keys" for y
  proof (cases "y = x @ [i]")
    case True
    then show ?thesis using W [OF y] q(1) pq h'(1) by (simp add: node_at_def)
  next
    case False
    note Wy = W [OF y, unfolded if_not_P [OF False]]
    show ?thesis
    proof (cases "y = x")
      case True
      then show ?thesis using Wy p(1) h'(1) False by (simp add: node_at_def)
    next
      case False
      have "walk ?h r y \<noteq> ?p" if "walk ?h r y \<noteq> NULL" using D(4) [OF y x(1)] that False by blast
      moreover have "walk ?h r y \<noteq> q" if "walk ?h r y \<noteq> NULL" using dom [OF y that] fresh by metis
      ultimately show ?thesis using Wy False \<open>y \<noteq> x @ [i]\<close> h'(1) by (simp add: node_at_def)
    qed
  qed
  have bb: "brk st \<le> b" using q by simp
  have none: "node_at st r (x @ [i]) = None" using free by (simp add: node_at_def)
  have O: "\<exists>m'. node_at st' r y = Some m' \<and> isEnd m' = isEnd m \<and> nword m' = nword m \<and> length (child m') = length (child m)"
    if "node_at st r y = Some m" "y \<in> keys" for y m
    using N [OF that(2)] that(1) none n by (cases "y = x") auto
  have C: "y = x @ [i] \<and> m' = leaf e w \<or> y \<noteq> x @ [i] \<and> (\<exists>m. node_at st r y = Some m \<and> isEnd m' = isEnd m \<and> nword m' = nword m \<and> length (child m') = length (child m))"
    if "node_at st' r y = Some m'" "y \<in> keys" for y m'
    using N [OF that(2)] that(1) n by (auto split: if_splits) (metis that(1))
  have old: "if isEnd m then nword m \<noteq> NULL \<and> strs st (nword m) \<noteq> None \<and> nword m \<notin> X \<and> nword m < brk st else nword m = NULL"
    and len: "length (child m) = 9" if "node_at st r y = Some m" "y \<in> keys" for y m
    using D(3) [OF that(2)] D(7) [of "nword m"] node_at_walk [OF that(1)] that(1) by (auto split: if_splits)
  have same: "strs st' (nword m) = strs st (nword m)" if "node_at st r y = Some m" "y \<in> keys" "isEnd m" for y m
    using old [OF that(1,2)] that(3) w(1) unfolding ss by (auto split: if_splits)
  show "entry st' r y = (if y = x @ [i] \<and> e then Some s else entry st r y)" if y: "y \<in> keys" for y
  proof (cases "node_at st' r y")
    case None
    then have "y \<noteq> x @ [i]" "node_at st r y = None" using N [OF y] O [OF _ y] by (auto split: if_splits)
    then show ?thesis using None by (simp add: entry_def)
  next
    case (Some m')
    from C [OF Some y] show ?thesis
    proof (elim disjE conjE exE)
      assume "y = x @ [i]" "m' = leaf e w"
      then show ?thesis using Some none by (simp add: entry_def leaf_def ss)
    next
      fix m assume "y \<noteq> x @ [i]" "node_at st r y = Some m" "isEnd m' = isEnd m" "nword m' = nword m"
      then show ?thesis using Some same [OF _ y] by (simp add: entry_def)
    qed
  qed
  have c1: "no_failures st' \<and> r \<noteq> NULL" using D(1,2) h' q by (simp add: no_failures_def)
  have c2: "\<exists>m. node_at st' r y = Some m \<and> length (child m) = 9 \<and> (if isEnd m then nword m \<noteq> NULL \<and> strs st' (nword m) \<noteq> None \<and> nword m \<notin> X else nword m = NULL)"
    if y: "y \<in> keys" "walk ?h' r y \<noteq> NULL" for y
  proof (cases "y = x @ [i]")
    case True
    then show ?thesis using N [OF y(1)] w(1) by (auto simp: leaf_def ss split: if_splits)
  next
    case False
    then obtain m where m: "node_at st r y = Some m" using D(3) [OF y(1)] W [OF y(1)] y(2) by auto
    obtain m' where "node_at st' r y = Some m'" "isEnd m' = isEnd m" "nword m' = nword m" "length (child m') = length (child m)"
      using O [OF m y(1)] by blast
    then show ?thesis using old [OF m y(1)] len [OF m y(1)] same [OF m y(1)] by auto
  qed
  have c3: "y = z" if "y \<in> keys" "z \<in> keys" "walk ?h' r y = walk ?h' r z" "walk ?h' r y \<noteq> NULL" for y z
  proof -
    have ne: "walk ?h r u \<noteq> q" if "u \<in> keys" for u using dom [OF that] fresh q(1) by metis
    show ?thesis using W [OF that(1)] W [OF that(2)] that(3,4) ne [OF that(1)] ne [OF that(2)] D(4) [OF that(1,2)] by (auto split: if_splits)
  qed
  have c4: "a < b \<and> (\<exists>y \<in> keys. walk ?h' r y = a \<and> a \<noteq> NULL)" if a: "?h' a \<noteq> None" for a
  proof (cases "a = q")
    case True
    then show ?thesis using q W [OF xi] by (intro conjI bexI [OF _ xi]) auto
  next
    case False
    then have "?h a \<noteq> None" using a h'(1) p(2) by (auto split: if_splits)
    then obtain y where y: "y \<in> keys" "walk ?h r y = a" "a \<noteq> NULL" "a < brk st" using D(5) by blast
    then have "y \<noteq> x @ [i]" using free by auto
    then show ?thesis using W [OF y(1)] y bb by (intro conjI bexI [OF _ y(1)]) auto
  qed
  have c5: "y = z" if "y \<in> keys" "z \<in> keys" "node_at st' r y = Some m" "node_at st' r z = Some m'" "nword m = nword m'" "isEnd m" for y z m m'
  proof -
    have "nword k \<noteq> w" if "node_at st r u = Some k" "u \<in> keys" "e \<or> isEnd k" for u k
      using old [OF that(1,2)] that(3) w(1) by (auto split: if_splits)
    then show ?thesis
      using C [OF that(3,1)] C [OF that(4,2)] that D(6) [OF that(1,2)] by (auto simp: leaf_def) blast+
  qed
  have c6: "a < b \<and> (a \<in> X \<or> (\<exists>y \<in> keys. \<exists>m. node_at st' r y = Some m \<and> isEnd m \<and> nword m = a))" if a: "strs st' a \<noteq> None" for a
  proof (cases "e \<and> a = w")
    case True
    then show ?thesis using w(1) N [OF xi] by (intro conjI disjI2 bexI [OF _ xi]) (auto simp: leaf_def)
  next
    case False
    then have "strs st a \<noteq> None" using a ss by (auto split: if_splits)
    then show ?thesis using D(7) [of a] bb O by fastforce
  qed
  have c7: "\<exists>m m'. node_at st' r y = Some m \<and> isEnd m \<and> node_at st' r (y @ [8]) = Some m' \<and> isEnd m'"
    if y: "y \<in> keys" "walk ?h' r (y @ [8]) \<noteq> NULL" for y
  proof (cases "y @ [8] = x @ [i]")
    case True
    then show ?thesis using w(2) N [OF xi] N [OF x(1)] by (auto simp: leaf_def)
  next
    case False
    have y8: "y @ [8] \<in> keys" using y(1) by simp
    then obtain m m' where "node_at st r y = Some m" "isEnd m" "node_at st r (y @ [8]) = Some m'" "isEnd m'"
      using D(8) [OF y(1)] W [OF y8] y(2) False by auto
    then show ?thesis using O [OF _ y(1)] O [OF _ y8] by metis
  qed
  show "trie_wf X st' r"
    unfolding trie_wf_def h'(2) using c1 c2 c3 c4 c5 c6 c7 by blast
qed

text \<open>Turning a node without a word into one with a word.\<close>

lemma set_word:
  assumes wf: "trie_wf X st r" and x: "x \<in> keys" and n: "node_at st r x = Some n" "\<not> isEnd n"
    and w: "w \<noteq> NULL" "brk st \<le> w" "w < b" "w \<notin> X"
    and st': "st' = st\<lparr>brk := b, nodes := (nodes st)(walk (nodes st) r x \<mapsto> n\<lparr>isEnd := True, nword := w\<rparr>), strs := (strs st)(w \<mapsto> s)\<rparr>"
  shows "trie_wf X st' r" and "y \<in> keys \<Longrightarrow> entry st' r y = (if y = x then Some s else entry st r y)"
    and "walk (nodes st') r y = walk (nodes st) r y"
proof -
  note D = trie_wfD [OF wf]
  let ?h = "nodes st" and ?h' = "nodes st'" and ?p = "walk (nodes st) r x" and ?n = "n\<lparr>isEnd := True, nword := w\<rparr>"
  have p: "?p \<noteq> NULL" "?h ?p = Some n" using node_at_walk [OF n(1)] by simp_all
  have n9: "length (child n) = 9" "nword n = NULL" using D(3) [OF x p(1)] n by simp_all
  have h': "?h' = ?h(?p \<mapsto> ?n)" "brk st' = b" "outcomes st' = outcomes st" "strs st' = (strs st)(w \<mapsto> s)" using st' by simp_all
  have W: "walk ?h' r y = walk ?h r y" for y by (rule walk_same_children) (use p(2) h'(1) in auto)
  then show "walk ?h' r y = walk ?h r y" .
  have N: "node_at st' r y = (if y = x then Some ?n else node_at st r y)" if y: "y \<in> keys" for y
  proof (cases "walk ?h r y = ?p")
    case True
    then have "y = x" using D(4) [OF y x] p(1) by simp
    moreover have "?h' ?p = Some ?n" using h'(1) by simp
    ultimately show ?thesis using p(1) by (simp add: node_at_def W)
  next
    case False
    then have "?h' (walk ?h r y) = ?h (walk ?h r y)" "y \<noteq> x" using h'(1) by auto
    then show ?thesis by (simp add: node_at_def W)
  qed
  have sw: "strs st w = None" using D(7) [of w] w(2) by (metis leD)
  have old: "if isEnd m then nword m \<noteq> NULL \<and> strs st (nword m) \<noteq> None \<and> nword m \<notin> X \<and> nword m \<noteq> w else nword m = NULL"
    and len: "length (child m) = 9" if "node_at st r y = Some m" "y \<in> keys" for y m
    using D(3) [OF that(2)] node_at_walk [OF that(1)] that(1) sw by (auto split: if_splits)
  show "entry st' r y = (if y = x then Some s else entry st r y)" if y: "y \<in> keys" for y
    using N [OF y] old [OF _ y] h'(4) by (auto simp: entry_def split: option.split if_splits)
  have c2: "\<exists>m. node_at st' r y = Some m \<and> length (child m) = 9 \<and> (if isEnd m then nword m \<noteq> NULL \<and> strs st' (nword m) \<noteq> None \<and> nword m \<notin> X else nword m = NULL)"
    if y: "y \<in> keys" "walk ?h' r y \<noteq> NULL" for y
  proof (cases "y = x")
    case True
    then show ?thesis using N [OF y(1)] w n9 h'(4) by simp
  next
    case False
    then obtain m where m: "node_at st r y = Some m" using D(3) [OF y(1)] y(2) by (auto simp: W)
    then show ?thesis using N [OF y(1)] False old [OF m y(1)] len [OF m y(1)] h'(4) by simp
  qed
  have c4: "a < b \<and> (\<exists>y \<in> keys. walk ?h' r y = a \<and> a \<noteq> NULL)" if "?h' a \<noteq> None" for a
  proof -
    have "?h a \<noteq> None" using that h'(1) p(2) by (auto split: if_splits)
    from D(5) [OF this] show ?thesis unfolding W using w(2,3) by auto
  qed
  have c5: "y = z" if "y \<in> keys" "z \<in> keys" "node_at st' r y = Some m" "node_at st' r z = Some m'" "nword m = nword m'" "isEnd m" for y z m m'
  proof -
    have ne: "nword k \<noteq> w" if "node_at st r u = Some k" "u \<in> keys" for u k
      using old [OF that] w(1) by (auto split: if_splits)
    show ?thesis
      using that(3) [unfolded N [OF that(1)]] that(4) [unfolded N [OF that(2)]] that(5,6) D(6) [OF that(1,2)] ne [OF _ that(1)] ne [OF _ that(2)]
      by (auto split: if_splits)
  qed
  have c6: "a < b \<and> (a \<in> X \<or> (\<exists>y \<in> keys. \<exists>m. node_at st' r y = Some m \<and> isEnd m \<and> nword m = a))" if a: "strs st' a \<noteq> None" for a
  proof (cases "a = w")
    case True
    then show ?thesis using w(3) N [OF x] by (intro conjI disjI2 bexI [OF _ x]) auto
  next
    case False
    then have o: "strs st a \<noteq> None" using a h'(4) by simp
    have "a < b" using D(7) [OF o] w(2,3) by simp
    moreover have "a \<in> X \<or> (\<exists>y \<in> keys. \<exists>m. node_at st' r y = Some m \<and> isEnd m \<and> nword m = a)"
    proof (cases "a \<in> X")
      case False
      then obtain y m where y: "y \<in> keys" "node_at st r y = Some m" "isEnd m" "nword m = a" using D(7) [OF o] by blast
      then have "node_at st' r y = Some m" using N [OF y(1)] n by auto
      then show ?thesis using y by blast
    qed simp
    ultimately show ?thesis by simp
  qed
  have c7: "\<exists>m m'. node_at st' r y = Some m \<and> isEnd m \<and> node_at st' r (y @ [8]) = Some m' \<and> isEnd m'"
    if y: "y \<in> keys" "walk ?h' r (y @ [8]) \<noteq> NULL" for y
    using D(8) [OF y(1)] y N [OF y(1)] N [of "y @ [8]"] by (auto simp: W)
  have c1: "no_failures st' \<and> r \<noteq> NULL" using D(1,2) h' w by (simp add: no_failures_def)
  have c3: "y = z" if "y \<in> keys" "z \<in> keys" "walk ?h' r y = walk ?h' r z" "walk ?h' r y \<noteq> NULL" for y z
    using D(4) [OF that(1,2)] that(3,4) by (simp add: W)
  show "trie_wf X st' r"
    unfolding trie_wf_def h'(2) using c1 c2 c3 c4 c5 c6 c7 by blast
qed

section \<open>Inserting a word\<close>

lemma guarded_malloc_run: "no_failures st \<Longrightarrow> guarded_malloc st = Inr (brk st, st\<lparr>brk := Suc (brk st)\<rparr>)"
  by (simp add: guarded_malloc_def bnd_def malloc_def no_failures_def ret_run)

lemma copy_word_run: "no_failures st \<Longrightarrow> copy_word w st = Inr (brk st, st\<lparr>brk := Suc (brk st), strs := (strs st)(brk st \<mapsto> w)\<rparr>)"
  by (simp add: copy_word_def bnd_def guarded_malloc_run)

lemma create_trie_node_run:
  assumes "no_failures st"
  shows "create_trie_node False None st = Inr (brk st, st\<lparr>brk := Suc (brk st), nodes := (nodes st)(brk st \<mapsto> leaf False NULL)\<rparr>)"
    and "create_trie_node True (Some w) st = Inr (brk st, st\<lparr>brk := Suc (Suc (brk st)), nodes := (nodes st)(brk st \<mapsto> leaf True (Suc (brk st))),
      strs := (strs st)(Suc (brk st) \<mapsto> w)\<rparr>)"
proof -
  have "no_failures (st\<lparr>brk := Suc (brk st)\<rparr>)" using assms by (simp add: no_failures_def)
  then show "create_trie_node False None st = Inr (brk st, st\<lparr>brk := Suc (brk st), nodes := (nodes st)(brk st \<mapsto> leaf False NULL)\<rparr>)"
    "create_trie_node True (Some w) st = Inr (brk st, st\<lparr>brk := Suc (Suc (brk st)), nodes := (nodes st)(brk st \<mapsto> leaf True (Suc (brk st))),
      strs := (strs st)(Suc (brk st) \<mapsto> w)\<rparr>)"
    using assms by (simp_all add: create_trie_node_def bnd_def guarded_malloc_run copy_word_run wr_node_def ret_run leaf_def)
qed

definition digit :: "char \<Rightarrow> nat" where
  "digit c = nat (char_int c - char_int CHR ''2'')"

definition is_digit :: "char \<Rightarrow> bool" where
  "is_digit c \<longleftrightarrow> c \<in> set ''23456789''"

lemma is_digit_range: "is_digit c \<Longrightarrow> 0 \<le> char_int c - char_int CHR ''2'' \<and> char_int c - char_int CHR ''2'' \<le> 7 \<and> digit c \<le> 7"
  by (auto simp: is_digit_def digit_def char_int_def Let_def)

lemma walk_step_node: "node_at st r x = Some n \<Longrightarrow> walk (nodes st) r (x @ [i]) = child n ! i"
  using node_at_walk [of st r x n] by (simp add: walk_snoc step_def)

lemma rd_node_at: "node_at st r x = Some n \<Longrightarrow> rd_trie_node (walk (nodes st) r x) st = Inr (n, st)"
  using node_at_walk by (simp add: rd_trie_node_def)

lemma child_at_run: "length (child n) = 9 \<Longrightarrow> 0 \<le> i \<Longrightarrow> i \<le> 8 \<Longrightarrow> child_at n i = ret (child n ! nat i)"
  by (auto simp: child_at_def)

lemma insert_walk_run:
  "trie_wf X st r \<Longrightarrow> x \<in> keys \<Longrightarrow> walk (nodes st) r x \<noteq> NULL \<Longrightarrow> \<forall>c \<in> set nums. is_digit c \<Longrightarrow>
   \<exists>st'. insert_walk (walk (nodes st) r x) nums st = Inr (Some (walk (nodes st') r (x @ map digit nums)), st')
     \<and> trie_wf X st' r \<and> walk (nodes st') r (x @ map digit nums) \<noteq> NULL \<and> (\<forall>y \<in> keys. entry st' r y = entry st r y)
     \<and> strs st' = strs st \<and> brk st \<le> brk st'"
proof (induction nums arbitrary: st x)
  case Nil
  then show ?case by (simp add: ret_run)
next
  case (Cons c nums)
  note D = trie_wfD [OF Cons.prems(1)]
  obtain n where n: "node_at st r x = Some n" "length (child n) = 9" using D(3) Cons.prems(2,3) by blast
  have c: "0 \<le> char_int c - char_int CHR ''2''" "char_int c - char_int CHR ''2'' \<le> 7" "digit c \<le> 7" using is_digit_range Cons.prems(4) by auto
  let ?p = "walk (nodes st) r x" and ?i = "digit c"
  have xi: "x @ [?i] \<in> keys" using Cons.prems(2) c by simp
  have ch: "child_at n (char_int c - char_int CHR ''2'') = ret (walk (nodes st) r (x @ [?i]))"
    using child_at_run [OF n(2) c(1)] c(2) walk_step_node [OF n(1), of ?i] by (simp add: digit_def)
  show ?case
  proof (cases "walk (nodes st) r (x @ [?i]) = NULL")
    case False
    have "insert_walk ?p (c # nums) st = insert_walk (walk (nodes st) r (x @ [?i])) nums st"
      using c ch False rd_node_at [OF n(1)] by (simp add: bnd_def ret_run Let_def)
    then show ?thesis using Cons.IH [OF Cons.prems(1) xi False] Cons.prems(4) by simp
  next
    case True
    let ?q = "brk st"
    define st1 where "st1 = st\<lparr>brk := Suc ?q, nodes := (nodes st)(?q \<mapsto> leaf False NULL)\<rparr>"
    define st2 where "st2 = st1\<lparr>nodes := (nodes st1)(?p \<mapsto> n\<lparr>child := (child n)[?i := ?q]\<rparr>)\<rparr>"
    have q: "?q \<noteq> NULL" using D(1) by (simp add: no_failures_def)
    have pq: "?p \<noteq> ?q" using D(5) [of ?p] node_at_walk [OF n(1)] by auto
    have rd1: "rd_trie_node ?p st1 = Inr (n, st1)" using node_at_walk [OF n(1)] pq by (simp add: rd_trie_node_def st1_def)
    have al: "trie_wf X st2 r" "\<forall>y \<in> keys. entry st2 r y = entry st r y" "walk (nodes st2) r (x @ [?i]) = ?q"
      using add_leaf [OF Cons.prems(1,2) _ n(1) True q, where e = False and w = NULL and st' = st2 and b = "Suc ?q"] c xi
      by (simp_all add: st2_def st1_def)
    have "insert_walk ?p (c # nums) st = insert_walk ?q nums st2"
      using c ch True rd_node_at [OF n(1)] create_trie_node_run(1) [OF D(1), folded st1_def] rd1
      by (simp add: bnd_def ret_run Let_def wr_node_def st2_def digit_def)
    moreover have "strs st2 = strs st" "brk st \<le> brk st2" by (simp_all add: st2_def st1_def)
    ultimately show ?thesis using Cons.IH [OF al(1) xi] al q Cons.prems(4) by fastforce
  qed
qed

text \<open>A path is shorter than the number of addresses handed out.\<close>

lemma take_keys: "y \<in> keys \<Longrightarrow> take j y \<in> keys"
  by (metis append_take_drop_id keys_simps(3))

lemma path_length:
  assumes wf: "trie_wf X st r" and y: "y \<in> keys" "walk (nodes st) r y \<noteq> NULL"
  shows "length y < brk st"
proof -
  note D = trie_wfD [OF wf]
  let ?f = "\<lambda>j. walk (nodes st) r (take j y)"
  have nn: "?f j \<noteq> NULL" for j using walk_prefix [of "nodes st" r "take j y" "drop j y"] y(2) by simp
  have "inj_on ?f {..length y}"
  proof (rule inj_onI)
    fix i j assume "i \<in> {..length y}" "j \<in> {..length y}" "?f i = ?f j"
    moreover from this have "take i y = take j y" using D(4) take_keys [OF y(1)] nn by metis
    ultimately show "i = j" by (metis atMost_iff length_take min.absorb2)
  qed
  moreover have "?f ` {..length y} \<subseteq> {..<brk st}"
  proof
    fix a assume "a \<in> ?f ` {..length y}"
    then obtain j where a: "a = ?f j" by blast
    have "nodes st a \<noteq> None" using D(3) [OF take_keys [OF y(1)] nn] node_at_walk a by fastforce
    then show "a \<in> {..<brk st}" using D(5) by blast
  qed
  ultimately have "card {..length y} \<le> card {..<brk st}" by (rule card_inj_on_le) simp
  then show ?thesis by simp
qed

lemma last_same_run:
  "trie_wf X st r \<Longrightarrow> y \<in> keys \<Longrightarrow> walk (nodes st) r y \<noteq> NULL \<Longrightarrow> brk st \<le> length y + k \<Longrightarrow>
   \<exists>m. last_same k (walk (nodes st) r y) st = Inr (walk (nodes st) r (y @ replicate m 8), st)
     \<and> walk (nodes st) r (y @ replicate m 8) \<noteq> NULL \<and> walk (nodes st) r (y @ replicate (Suc m) 8) = NULL"
proof (induction k arbitrary: y)
  case 0
  then show ?case using path_length [OF 0(1,2,3)] by simp
next
  case (Suc k)
  obtain n where n: "node_at st r y = Some n" "length (child n) = 9" using trie_wfD(3) [OF Suc.prems(1-3)] by blast
  let ?q = "walk (nodes st) r (y @ [8])"
  have step: "last_same (Suc k) (walk (nodes st) r y) st = (if ?q \<noteq> NULL then last_same k ?q st else Inr (walk (nodes st) r y, st))"
    using rd_node_at [OF n(1)] child_at_run [OF n(2), of 8] walk_step_node [OF n(1), of 8] by (simp add: bnd_def ret_run)
  show ?case
  proof (cases "?q = NULL")
    case True
    then show ?thesis using step Suc.prems(3) by (intro exI [of _ 0]) simp
  next
    case False
    have "y @ [8] \<in> keys" using Suc.prems(2) by simp
    from Suc.IH [OF Suc.prems(1) this False] Suc.prems(4) obtain m where
      "last_same k ?q st = Inr (walk (nodes st) r ((y @ [8]) @ replicate m 8), st)"
      "walk (nodes st) r ((y @ [8]) @ replicate m 8) \<noteq> NULL" "walk (nodes st) r ((y @ [8]) @ replicate (Suc m) 8) = NULL" by auto
    then show ?thesis using step False by (intro exI [of _ "Suc m"]) simp
  qed
qed

lemma entry_same: "trie_wf X st r \<Longrightarrow> x \<in> keys \<Longrightarrow> walk (nodes st) r (x @ replicate (Suc m) 8) \<noteq> NULL \<Longrightarrow> j \<le> Suc m \<Longrightarrow> entry st r (x @ replicate j 8) \<noteq> None"
proof -
  assume wf: "trie_wf X st r" and x: "x \<in> keys" and ne: "walk (nodes st) r (x @ replicate (Suc m) 8) \<noteq> NULL" and j: "j \<le> Suc m"
  have rep: "replicate k 8 \<in> keys" for k by (induction k) auto
  have pre: "walk (nodes st) r (x @ replicate k 8) \<noteq> NULL" if "k \<le> Suc m" for k
  proof -
    have "x @ replicate (Suc m) 8 = (x @ replicate k 8) @ replicate (Suc m - k) 8" using that by (simp flip: replicate_add)
    then show ?thesis using ne walk_prefix by metis
  qed
  have "\<exists>n. node_at st r (x @ replicate j 8) = Some n \<and> isEnd n"
  proof (cases j)
    case 0
    have "walk (nodes st) r (x @ [8]) \<noteq> NULL" using pre [of 1] by simp
    then show ?thesis using trie_wfD(8) [OF wf x] 0 by auto
  next
    case (Suc i)
    have k: "x @ replicate i 8 \<in> keys" using x rep by simp
    have e: "(x @ replicate i 8) @ [8] = x @ replicate j 8" by (simp add: Suc replicate_append_same)
    then have "walk (nodes st) r ((x @ replicate i 8) @ [8]) \<noteq> NULL" using pre [OF j] by simp
    from trie_wfD(8) [OF wf k this] show ?thesis unfolding e by blast
  qed
  moreover have "x @ replicate j 8 \<in> keys" using x rep by simp
  ultimately show ?thesis using trie_wfD(3) [OF wf, of "x @ replicate j 8"] pre [OF j] by (auto simp: entry_def split: if_splits)
qed

lemma replicate_keys [simp]: "replicate k 8 \<in> keys"
  by (induction k) auto

lemma digit_keys [simp]: "\<forall>c \<in> set nums. is_digit c \<Longrightarrow> map digit nums \<in> keys"
  using is_digit_range by (induction nums) fastforce+

text \<open>\<open>insert_word\<close> stores the word at the first free place of its key.\<close>

lemma insert_word_run:
  assumes wf: "trie_wf X st r" and d: "\<forall>c \<in> set nums. is_digit c" and X: "\<forall>a \<in> X. a < brk st"
  shows "\<exists>st' j. insert_word r nums w st = Inr ((), st') \<and> trie_wf X st' r \<and> (\<forall>a \<in> X. a < brk st' \<and> strs st' a = strs st a)
    \<and> (\<forall>i < j. entry st r (map digit nums @ replicate i 8) \<noteq> None) \<and> entry st r (map digit nums @ replicate j 8) = None
    \<and> (\<forall>y \<in> keys. entry st' r y = (if y = map digit nums @ replicate j 8 then Some w else entry st r y))"
proof -
  let ?d = "map digit nums"
  note D = trie_wfD [OF wf]
  have "walk (nodes st) r [] \<noteq> NULL" using D(2) by simp
  from insert_walk_run [OF wf _ this d] obtain st1 where st1: "insert_walk r nums st = Inr (Some (walk (nodes st1) r ?d), st1)"
    "trie_wf X st1 r" "walk (nodes st1) r ?d \<noteq> NULL" "\<forall>y \<in> keys. entry st1 r y = entry st r y" "strs st1 = strs st" "brk st \<le> brk st1" by auto
  note D1 = trie_wfD [OF st1(2)]
  have dk: "?d \<in> keys" using d by simp
  have X1: "\<forall>a \<in> X. a < brk st1" using X st1(6) by auto
  then have fresh: "brk st1 \<notin> X" "Suc (brk st1) \<notin> X" by auto
  have b0: "brk st1 \<noteq> NULL" using D1(1) by (simp add: no_failures_def)
  obtain n where n: "node_at st1 r ?d = Some n" "length (child n) = 9" using D1(3) [OF dk st1(3)] by blast
  have go: "insert_word r nums w st = (if \<not> isEnd n then bnd (copy_word w) (\<lambda>p. wr_node (walk (nodes st1) r ?d) (n\<lparr>isEnd := True, nword := p\<rparr>))
      else bnd (\<lambda>s. last_same (brk s) (walk (nodes st1) r ?d) s) (\<lambda>cur. bnd (create_trie_node True (Some w)) (\<lambda>q. bnd (rd_trie_node cur) (\<lambda>n. wr_node cur (n\<lparr>child := (child n)[8 := q]\<rparr>))))) st1"
    using D(2) st1(1) rd_node_at [OF n(1)] by (simp add: insert_word_def bnd_def)
  show ?thesis
  proof (cases "isEnd n")
    case False
    define st2 where "st2 = st1\<lparr>brk := Suc (brk st1), nodes := (nodes st1)(walk (nodes st1) r ?d \<mapsto> n\<lparr>isEnd := True, nword := brk st1\<rparr>),
      strs := (strs st1)(brk st1 \<mapsto> w)\<rparr>"
    have run: "insert_word r nums w st = Inr ((), st2)"
      using go False copy_word_run [OF D1(1)] by (simp add: bnd_def wr_node_def st2_def)
    note sw = set_word [OF st1(2) dk n(1) False b0 order_refl lessI fresh(1) st2_def]
    have "entry st1 r ?d = None" using n(1) False by (simp add: entry_def)
    then have "entry st r ?d = None" using st1(4) dk by simp
    moreover have "\<forall>a \<in> X. a < brk st2 \<and> strs st2 a = strs st a" using X1 fresh st1(5) by (auto simp: st2_def less_Suc_eq)
    ultimately show ?thesis using run sw(1,2) st1(4) by (intro exI [of _ st2] exI [of _ 0]) simp
  next
    case True
    obtain m where m: "last_same (brk st1) (walk (nodes st1) r ?d) st1 = Inr (walk (nodes st1) r (?d @ replicate m 8), st1)"
      "walk (nodes st1) r (?d @ replicate m 8) \<noteq> NULL" "walk (nodes st1) r (?d @ replicate (Suc m) 8) = NULL"
      using last_same_run [OF st1(2) dk st1(3), of "brk st1"] by auto
    let ?x = "?d @ replicate m 8"
    have x: "?x \<in> keys" "?x @ [8] = ?d @ replicate (Suc m) 8" using dk by (simp_all add: replicate_append_same)
    obtain l where l: "node_at st1 r ?x = Some l" "length (child l) = 9" using D1(3) [OF x(1) m(2)] by blast
    have ends: "entry st1 r (?d @ replicate j 8) \<noteq> None" if "j \<le> m" for j
    proof (cases m)
      case 0
      then show ?thesis using that n(1) True D1(3) [OF dk st1(3)] by (auto simp: entry_def)
    next
      case (Suc k)
      then show ?thesis using entry_same [OF st1(2) dk, of k j] m(2) that by simp
    qed
    then have "isEnd l" using ends [of m] l(1) by (auto simp: entry_def split: if_splits)
    define q where "q = brk st1"
    define st2 where "st2 = st1\<lparr>brk := Suc (Suc q), nodes := (nodes st1)(q \<mapsto> leaf True (Suc q)), strs := (strs st1)(Suc q \<mapsto> w)\<rparr>"
    define st3 where "st3 = st2\<lparr>nodes := (nodes st2)(walk (nodes st1) r ?x \<mapsto> l\<lparr>child := (child l)[8 := q]\<rparr>)\<rparr>"
    have "walk (nodes st1) r ?x \<noteq> q" using D1(5) [of "walk (nodes st1) r ?x"] node_at_walk [OF l(1)] by (auto simp: q_def)
    then have rd: "rd_trie_node (walk (nodes st1) r ?x) st2 = Inr (l, st2)" using node_at_walk [OF l(1)] by (simp add: rd_trie_node_def st2_def)
    have run: "insert_word r nums w st = Inr ((), st3)"
      using go True m(1) create_trie_node_run(2) [OF D1(1), of w, folded q_def, folded st2_def] rd by (simp add: bnd_def wr_node_def st3_def)
    have al: "trie_wf X st3 r" "\<And>y. y \<in> keys \<Longrightarrow> entry st3 r y = (if y = ?x @ [8] then Some w else entry st1 r y)"
      using add_leaf [OF st1(2) x(1) _ l(1), where i = 8 and q = q and b = "Suc (Suc q)" and e = True and w = "Suc q" and s = w and st' = st3]
        m(3) b0 fresh(2) \<open>isEnd l\<close> x(2) by (simp_all add: st3_def st2_def q_def)
    have none: "entry st r (?d @ replicate (Suc m) 8) = None"
    proof -
      have k: "?d @ replicate (Suc m) 8 \<in> keys" using dk by simp
      have "entry st1 r (?d @ replicate (Suc m) 8) = None" using m(3) by (simp add: entry_def node_at_def)
      then show ?thesis using st1(4) k by metis
    qed
    have before: "entry st r (?d @ replicate i 8) \<noteq> None" if "i < Suc m" for i
    proof -
      have k: "?d @ replicate i 8 \<in> keys" using dk by simp
      show ?thesis using ends [of i] that st1(4) [rule_format, OF k] by simp
    qed
    have "\<forall>a \<in> X. a < brk st3 \<and> strs st3 a = strs st a" using X1 fresh st1(5) by (auto simp: st3_def st2_def q_def less_Suc_eq)
    then show ?thesis using run al before none x(2) st1(4) by (intro exI [of _ st3] exI [of _ "Suc m"]) simp
  qed
qed

section \<open>The dictionary\<close>

text \<open>
  \<open>onyms ws d\<close> are the words of \<open>ws\<close> with the digits \<open>d\<close>, in order.  The trie of \<open>ws\<close> stores the \<open>j\<close>-th of
  them after \<open>j\<close> links with index 8.
\<close>

definition word_key :: "string \<Rightarrow> nat list" where
  "word_key w = map digit (map convert w)"

definition onyms :: "string list \<Rightarrow> nat list \<Rightarrow> string list" where
  "onyms ws d = filter (\<lambda>w. word_key w = d) ws"

definition holds :: "trie_state \<Rightarrow> nat \<Rightarrow> string list \<Rightarrow> bool" where
  "holds st r ws \<longleftrightarrow> (\<forall>d \<in> lists {..7}. \<forall>j. entry st r (d @ replicate j 8) = (if j < length (onyms ws d) then Some (onyms ws d ! j) else None))"

lemma convert_digit: "is_digit (convert c)"
  by (simp add: convert_def Let_def is_digit_def)

lemma digits_7: "\<forall>c \<in> set nums. is_digit c \<Longrightarrow> map digit nums \<in> lists {..7}"
  using is_digit_range by (induction nums) auto

lemma word_key_7: "word_key w \<in> lists {..7}"
  unfolding word_key_def by (rule digits_7) (simp add: convert_digit)

lemma lists_7_keys: "d \<in> lists {..7} \<Longrightarrow> d \<in> keys"
  by (auto simp: keys_def)

lemma key_unique:
  assumes "d \<in> lists {..7}" "e \<in> lists {..7}" "d @ replicate i 8 = e @ replicate j (8 :: nat)"
  shows "d = e \<and> i = j"
proof -
  have tw: "takeWhile (\<lambda>k. k \<noteq> 8) (d @ replicate i 8) = d" if "d \<in> lists {..7}" for d :: "nat list" and i
  proof -
    have "\<forall>k \<in> set d. k \<noteq> 8" using that by fastforce
    then show ?thesis by (cases i) (simp_all add: takeWhile_append)
  qed
  have "d = e" using tw [OF assms(1), of i] tw [OF assms(2), of j] assms(3) by simp
  then show ?thesis using assms(3) by (metis append_eq_append_conv length_replicate)
qed

lemma insert_holds:
  assumes wf: "trie_wf X st r" and h: "holds st r ws" and X: "\<forall>a \<in> X. a < brk st"
  shows "\<exists>st'. insert_word r (map convert w) w st = Inr ((), st') \<and> trie_wf X st' r \<and> holds st' r (ws @ [w])
    \<and> (\<forall>a \<in> X. a < brk st' \<and> strs st' a = strs st a)"
proof -
  have d: "\<forall>c \<in> set (map convert w). is_digit c" by (simp add: convert_digit)
  let ?d = "word_key w"
  have d7: "?d \<in> lists {..7}" by (rule word_key_7)
  obtain st' j where st': "insert_word r (map convert w) w st = Inr ((), st')" "trie_wf X st' r" "\<forall>a \<in> X. a < brk st' \<and> strs st' a = strs st a"
    "\<forall>i < j. entry st r (?d @ replicate i 8) \<noteq> None" "entry st r (?d @ replicate j 8) = None"
    "\<forall>y \<in> keys. entry st' r y = (if y = ?d @ replicate j 8 then Some w else entry st r y)"
    using insert_word_run [OF wf d X, of w] unfolding word_key_def [symmetric] by blast
  have j: "j = length (onyms ws ?d)"
  proof (rule antisym)
    show "j \<le> length (onyms ws ?d)"
    proof (rule ccontr)
      assume "\<not> j \<le> length (onyms ws ?d)"
      then have "entry st r (?d @ replicate (length (onyms ws ?d)) 8) \<noteq> None" using st'(4) by simp
      then show False using h d7 by (simp add: holds_def)
    qed
    show "length (onyms ws ?d) \<le> j" using st'(5) h d7 by (metis holds_def linorder_not_less option.distinct(1))
  qed
  have "holds st' r (ws @ [w])"
    unfolding holds_def
  proof (intro ballI allI)
    fix e :: "nat list" and i
    assume e: "e \<in> lists {..7}"
    have k: "e @ replicate i 8 \<in> keys" using lists_7_keys [OF e] by simp
    have old: "entry st r (e @ replicate i 8) = (if i < length (onyms ws e) then Some (onyms ws e ! i) else None)" using h e by (simp add: holds_def)
    have new: "onyms (ws @ [w]) e = onyms ws e @ (if e = ?d then [w] else [])" by (auto simp: onyms_def)
    show "entry st' r (e @ replicate i 8) = (if i < length (onyms (ws @ [w]) e) then Some (onyms (ws @ [w]) e ! i) else None)"
    proof (cases "e = ?d")
      case True
      have "entry st' r (e @ replicate i 8) = (if i = j then Some w else entry st r (e @ replicate i 8))"
        using st'(6) k True key_unique [OF d7 d7, of i j] by auto
      then show ?thesis using old new True j by (auto simp: nth_append)
    next
      case False
      then have "e @ replicate i 8 \<noteq> ?d @ replicate j 8" using key_unique [OF e d7] by blast
      then show ?thesis using st'(6) k old new False by simp
    qed
  qed
  then show ?thesis using st' by blast
qed

section \<open>Searching and the dialogue\<close>

lemma search_trie_run:
  "trie_wf X st r \<Longrightarrow> x \<in> keys \<Longrightarrow> \<forall>c \<in> set nums. is_digit c \<Longrightarrow>
   search_trie (walk (nodes st) r x) nums st = Inr (walk (nodes st) r (x @ map digit nums), st)"
proof (induction nums arbitrary: x)
  case Nil
  then show ?case by (simp add: ret_run)
next
  case (Cons c nums)
  have c: "0 \<le> char_int c - char_int CHR ''2''" "char_int c - char_int CHR ''2'' \<le> 7" "digit c \<le> 7" "c \<noteq> CHR ''#''"
    using is_digit_range Cons.prems(3) by (auto simp: is_digit_def)
  show ?case
  proof (cases "walk (nodes st) r x = NULL")
    case True
    then show ?thesis using walk_append [of "nodes st" r x] by (simp add: ret_run)
  next
    case False
    obtain n where n: "node_at st r x = Some n" "length (child n) = 9" using trie_wfD(3) [OF Cons.prems(1,2) False] by blast
    have "child_at n (char_int c - char_int CHR ''2'') = ret (walk (nodes st) r (x @ [digit c]))"
      using child_at_run [OF n(2) c(1)] c(2) walk_step_node [OF n(1), of "digit c"] by (simp add: digit_def)
    then have "search_trie (walk (nodes st) r x) (c # nums) st = search_trie (walk (nodes st) r (x @ [digit c])) nums st"
      using False c(4) rd_node_at [OF n(1)] by (simp add: bnd_def ret_run)
    moreover have "x @ [digit c] \<in> keys" using Cons.prems(2) c(3) by simp
    ultimately show ?thesis using Cons.IH [OF Cons.prems(1), of "x @ [digit c]"] Cons.prems(3) by simp
  qed
qed

lemma search_hash_run:
  assumes "trie_wf X st r" "x \<in> keys" "walk (nodes st) r x \<noteq> NULL"
  shows "search_trie (walk (nodes st) r x) ''#'' st = Inr (walk (nodes st) r (x @ [8]), st)"
proof -
  obtain n where n: "node_at st r x = Some n" "length (child n) = 9" using trie_wfD(3) [OF assms] by blast
  then show ?thesis using assms(3) rd_node_at [OF n(1)] child_at_run [OF n(2), of 8] walk_step_node [OF n(1), of 8]
    by (simp add: bnd_def ret_run)
qed

text \<open>What the dialogue prints for the \<open>j\<close>-th word of a key.\<close>

definition answer :: "string list \<Rightarrow> nat \<Rightarrow> string" where
  "answer ws j = (if j < length ws then ws ! j else no_more)"

definition t9_cur :: "trie_state \<Rightarrow> nat \<Rightarrow> nat list \<Rightarrow> nat \<Rightarrow> nat" where
  "t9_cur st r d j = walk (nodes st) r (d @ replicate j 8)"

lemma show_word:
  assumes "trie_wf X st r" "x \<in> keys" "entry st r x = Some w"
  shows "walk (nodes st) r x \<noteq> NULL" and "\<exists>n. rd_trie_node (walk (nodes st) r x) st = Inr (n, st) \<and> isEnd n \<and> rd_word (nword n) st = Inr (w, st)"
proof -
  obtain n where n: "node_at st r x = Some n" "isEnd n" "strs st (nword n) = Some w"
    using assms(3) by (auto simp: entry_def split: option.splits if_splits)
  then show "walk (nodes st) r x \<noteq> NULL" "\<exists>n. rd_trie_node (walk (nodes st) r x) st = Inr (n, st) \<and> isEnd n \<and> rd_word (nword n) st = Inr (w, st)"
    using node_at_walk rd_node_at by (auto simp: rd_word_def)
qed

lemma round_digits:
  assumes wf: "trie_wf X st r" "holds st r ws" and buf: "\<forall>c \<in> set buf. is_digit c" "length buf < MAX_LINELEN" "buf \<noteq> []"
  shows "t9_round r cur buf st = Inr (Some (t9_cur st r (map digit buf) 0, answer (onyms ws (map digit buf)) 0), st)"
proof -
  let ?d = "map digit buf"
  have d: "?d \<in> lists {..7}" "?d \<in> keys" using digits_7 buf(1) by auto
  obtain c cs where b: "buf = c # cs" using buf(3) by (cases buf) auto
  then have c: "c \<noteq> CHR ''e''" "c \<noteq> CHR ''#''" using buf(1) by (auto simp: is_digit_def)
  then have ne: "take 4 buf \<noteq> ''exit''" "take 1 buf \<noteq> ''#''" using b by auto
  have s: "search_trie r buf st = Inr (walk (nodes st) r ?d, st)"
    using search_trie_run [OF wf(1), of "[]" buf] buf(1) by simp
  have go: "t9_round r cur buf st = (if walk (nodes st) r ?d \<noteq> NULL then
          bnd (rd_trie_node (walk (nodes st) r ?d)) (\<lambda>n. if isEnd n then bnd (rd_word (nword n)) (\<lambda>w. ret (Some (walk (nodes st) r ?d, w)))
          else ret (Some (walk (nodes st) r ?d, no_more)))
        else ret (Some (walk (nodes st) r ?d, no_more))) st"
    using ne buf(2) by (simp add: t9_round_def bnd_Inr [of "search_trie r buf" st, OF s])
  have e: "entry st r ?d = (if 0 < length (onyms ws ?d) then Some (onyms ws ?d ! 0) else None)"
    using wf(2) d(1) unfolding holds_def by (metis append_Nil2 replicate_0)
  show ?thesis
  proof (cases "onyms ws ?d = []")
    case False
    then have "entry st r ?d = Some (onyms ws ?d ! 0)" using e by simp
    from show_word [OF wf(1) d(2) this] show ?thesis using go False by (auto simp: bnd_def ret_run t9_cur_def answer_def)
  next
    case True
    then have "entry st r ?d = None" using e by simp
    moreover have "\<exists>n. node_at st r ?d = Some n \<and> \<not> isEnd n" if "walk (nodes st) r ?d \<noteq> NULL"
      using trie_wfD(3) [OF wf(1) d(2) that] calculation by (auto simp: entry_def split: if_splits)
    ultimately show ?thesis using go True rd_node_at by (auto simp: bnd_def ret_run t9_cur_def answer_def)
  qed
qed

lemma round_hash:
  assumes wf: "trie_wf X st r" "holds st r ws" and d: "d \<in> lists {..7}"
  shows "t9_round r (t9_cur st r d j) ''#'' st = Inr (Some (t9_cur st r d (Suc j), answer (onyms ws d) (Suc j)), st)"
proof -
  let ?x = "d @ replicate j 8"
  have x: "?x \<in> keys" "?x @ [8] = d @ replicate (Suc j) 8" "d @ replicate (Suc j) 8 \<in> keys"
    using lists_7_keys [OF d] by (simp_all add: replicate_append_same)
  have e: "entry st r (d @ replicate (Suc j) 8) = (if Suc j < length (onyms ws d) then Some (onyms ws d ! Suc j) else None)"
    using wf(2) d unfolding holds_def by blast
  have m: "\<not> MAX_LINELEN \<le> 1" by (simp add: MAX_LINELEN_def)
  show ?thesis
  proof (cases "t9_cur st r d j = NULL")
    case True
    then have w: "walk (nodes st) r (d @ replicate (Suc j) 8) = NULL" unfolding x(2) [symmetric] t9_cur_def by (simp add: walk_append)
    then have "entry st r (d @ replicate (Suc j) 8) = None" by (simp add: entry_def node_at_def)
    then have "\<not> Suc j < length (onyms ws d)" using e by (auto split: if_splits)
    moreover have "t9_round r (t9_cur st r d j) ''#'' st = Inr (Some (NULL, no_more), st)"
      using True m by (simp add: t9_round_def ret_run)
    ultimately show ?thesis using w by (simp add: t9_cur_def answer_def)
  next
    case False
    have s: "search_trie (t9_cur st r d j) ''#'' st = Inr (t9_cur st r d (Suc j), st)"
      using search_hash_run [OF wf(1) x(1)] False unfolding t9_cur_def x(2) by simp
    have go: "t9_round r (t9_cur st r d j) ''#'' st = (if t9_cur st r d (Suc j) = NULL then ret (Some (t9_cur st r d (Suc j), no_more))
        else bnd (rd_trie_node (t9_cur st r d (Suc j))) (\<lambda>n. bnd (rd_word (nword n)) (\<lambda>w. ret (Some (t9_cur st r d (Suc j), w))))) st"
      using False s m by (simp add: t9_round_def bnd_def)
    show ?thesis
    proof (cases "t9_cur st r d (Suc j) = NULL")
      case True
      then have "entry st r (d @ replicate (Suc j) 8) = None" by (simp add: entry_def node_at_def t9_cur_def)
      then have "\<not> Suc j < length (onyms ws d)" using e by (auto split: if_splits)
      then show ?thesis using go True by (simp add: ret_run answer_def)
    next
      case False
      have "\<exists>w. entry st r (d @ replicate (Suc j) 8) = Some w"
        using entry_same [OF wf(1) lists_7_keys [OF d], of j "Suc j"] False by (auto simp: t9_cur_def)
      then have l: "Suc j < length (onyms ws d)" "entry st r (d @ replicate (Suc j) 8) = Some (onyms ws d ! Suc j)" using e by (auto split: if_splits)
      from show_word(2) [OF wf(1) x(3) l(2)] show ?thesis using go False l(1) by (auto simp: bnd_def ret_run answer_def t9_cur_def)
    qed
  qed
qed

section \<open>Releasing the trie\<close>

definition sub_nodes :: "trie_state \<Rightarrow> nat \<Rightarrow> nat list \<Rightarrow> nat set" where
  "sub_nodes s0 r x = {walk (nodes s0) r (x @ y) |y. y \<in> keys \<and> walk (nodes s0) r (x @ y) \<noteq> NULL}"

definition sub_words :: "trie_state \<Rightarrow> nat \<Rightarrow> nat list \<Rightarrow> nat set" where
  "sub_words s0 r x = {nword n |y n. y \<in> keys \<and> node_at s0 r (x @ y) = Some n \<and> isEnd n}"

definition agree :: "trie_state \<Rightarrow> nat \<Rightarrow> trie_state \<Rightarrow> nat list \<Rightarrow> bool" where
  "agree s0 r st x \<longleftrightarrow> (\<forall>a \<in> sub_nodes s0 r x. nodes st a = nodes s0 a) \<and> (\<forall>a \<in> sub_words s0 r x. strs st a = strs s0 a)"

definition without :: "nat set \<Rightarrow> nat set \<Rightarrow> trie_state \<Rightarrow> trie_state" where
  "without A B st = st\<lparr>nodes := nodes st |` (- A), strs := strs st |` (- B)\<rparr>"

lemma keys_cases: "y \<in> keys \<longleftrightarrow> y = [] \<or> (\<exists>i z. i \<le> 8 \<and> y = i # z \<and> z \<in> keys)"
  by (cases y) auto

lemma sub_split:
  assumes "trie_wf X s0 r" "x \<in> keys" "node_at s0 r x = Some n"
  shows "sub_nodes s0 r x = insert (walk (nodes s0) r x) (\<Union>i \<in> {..8}. sub_nodes s0 r (x @ [i]))"
    and "sub_words s0 r x = (if isEnd n then {nword n} else {}) \<union> (\<Union>i \<in> {..8}. sub_words s0 r (x @ [i]))"
proof -
  have ne: "walk (nodes s0) r x \<noteq> NULL" using node_at_walk [OF assms(3)] by simp
  show "sub_nodes s0 r x = insert (walk (nodes s0) r x) (\<Union>i \<in> {..8}. sub_nodes s0 r (x @ [i]))"
    unfolding sub_nodes_def
  proof (intro set_eqI iffI)
    fix a assume "a \<in> {walk (nodes s0) r (x @ y) |y. y \<in> keys \<and> walk (nodes s0) r (x @ y) \<noteq> NULL}"
    then obtain y where "a = walk (nodes s0) r (x @ y)" "y \<in> keys" "walk (nodes s0) r (x @ y) \<noteq> NULL" by blast
    then show "a \<in> insert (walk (nodes s0) r x) (\<Union>i \<in> {..8}. {walk (nodes s0) r ((x @ [i]) @ y) |y. y \<in> keys \<and> walk (nodes s0) r ((x @ [i]) @ y) \<noteq> NULL})"
      by (cases y) auto
  next
    fix a assume "a \<in> insert (walk (nodes s0) r x) (\<Union>i \<in> {..8}. {walk (nodes s0) r ((x @ [i]) @ y) |y. y \<in> keys \<and> walk (nodes s0) r ((x @ [i]) @ y) \<noteq> NULL})"
    then consider "a = walk (nodes s0) r (x @ [])" | i y where "i \<le> 8" "y \<in> keys" "a = walk (nodes s0) r (x @ i # y)" "a \<noteq> NULL" by auto
    then show "a \<in> {walk (nodes s0) r (x @ y) |y. y \<in> keys \<and> walk (nodes s0) r (x @ y) \<noteq> NULL}"
    proof cases
      case 1
      then show ?thesis using ne by (intro CollectI exI [of _ "[]"]) simp
    next
      case (2 i y)
      then show ?thesis by (intro CollectI exI [of _ "i # y"]) simp
    qed
  qed
  show "sub_words s0 r x = (if isEnd n then {nword n} else {}) \<union> (\<Union>i \<in> {..8}. sub_words s0 r (x @ [i]))"
    unfolding sub_words_def
  proof (intro set_eqI iffI)
    fix a assume "a \<in> {nword n |y n. y \<in> keys \<and> node_at s0 r (x @ y) = Some n \<and> isEnd n}"
    then obtain y m where "a = nword m" "y \<in> keys" "node_at s0 r (x @ y) = Some m" "isEnd m" by blast
    then show "a \<in> (if isEnd n then {nword n} else {}) \<union> (\<Union>i \<in> {..8}. {nword n |y n. y \<in> keys \<and> node_at s0 r ((x @ [i]) @ y) = Some n \<and> isEnd n})"
      using assms(3) by (cases y) auto
  next
    fix a assume "a \<in> (if isEnd n then {nword n} else {}) \<union> (\<Union>i \<in> {..8}. {nword n |y n. y \<in> keys \<and> node_at s0 r ((x @ [i]) @ y) = Some n \<and> isEnd n})"
    then consider "a = nword n" "isEnd n" | i y m where "i \<le> 8" "y \<in> keys" "node_at s0 r (x @ i # y) = Some m" "isEnd m" "a = nword m"
      by (auto split: if_splits)
    then show "a \<in> {nword n |y n. y \<in> keys \<and> node_at s0 r (x @ y) = Some n \<and> isEnd n}"
    proof cases
      case 1
      then show ?thesis using assms(3) by (intro CollectI exI [of _ "[]"] exI [of _ n]) simp
    next
      case (2 i y m)
      then show ?thesis by (intro CollectI exI [of _ "i # y"] exI [of _ m]) simp
    qed
  qed
qed

lemma sub_disjoint:
  assumes "trie_wf X s0 r" "x \<in> keys" "i \<le> 8" "j \<le> 8" "i \<noteq> j"
  shows "sub_nodes s0 r (x @ [i]) \<inter> sub_nodes s0 r (x @ [j]) = {}" and "sub_words s0 r (x @ [i]) \<inter> sub_words s0 r (x @ [j]) = {}"
proof -
  note D = trie_wfD [OF assms(1)]
  have ne: "(x @ [i]) @ y \<noteq> (x @ [j]) @ z" for y z using assms(5) by simp
  have k: "(x @ [l]) @ y \<in> keys" if "l \<le> 8" "y \<in> keys" for l y using assms(2) that by simp
  show "sub_nodes s0 r (x @ [i]) \<inter> sub_nodes s0 r (x @ [j]) = {}"
    unfolding sub_nodes_def using D(4) [OF k [OF assms(3)] k [OF assms(4)]] ne by blast
  show "sub_words s0 r (x @ [i]) \<inter> sub_words s0 r (x @ [j]) = {}"
    unfolding sub_words_def using D(6) [OF k [OF assms(3)] k [OF assms(4)]] ne by blast
qed

lemma sub_root:
  assumes "trie_wf X s0 r" "x \<in> keys" "i \<le> 8" "node_at s0 r x = Some n"
  shows "walk (nodes s0) r x \<notin> sub_nodes s0 r (x @ [i])" and "isEnd n \<Longrightarrow> nword n \<notin> sub_words s0 r (x @ [i])"
proof -
  note D = trie_wfD [OF assms(1)]
  have ne: "x \<noteq> (x @ [i]) @ y" for y by simp
  have k: "(x @ [i]) @ y \<in> keys" if "y \<in> keys" for y using assms(2,3) that by simp
  have w: "walk (nodes s0) r x \<noteq> NULL" using node_at_walk [OF assms(4)] by simp
  show "walk (nodes s0) r x \<notin> sub_nodes s0 r (x @ [i])"
    unfolding sub_nodes_def using D(4) [OF assms(2) k] ne w by blast
  show "nword n \<notin> sub_words s0 r (x @ [i])" if "isEnd n"
    unfolding sub_words_def using D(6) [OF assms(2) k assms(4)] ne that by blast
qed

lemma restrict_UNIV [simp]: "m |` UNIV = m"
  by (auto simp: restrict_map_def)

lemma without_without: "without A B (without C D st) = without (C \<union> A) (D \<union> B) st"
  by (simp add: without_def Int_commute)

lemma agree_without: "agree s0 r st x \<Longrightarrow> sub_nodes s0 r x \<inter> A = {} \<Longrightarrow> sub_words s0 r x \<inter> B = {} \<Longrightarrow> agree s0 r (without A B st) x"
  by (auto simp: agree_def without_def restrict_map_def)

lemma sub_NULL: "walk (nodes s0) r x = NULL \<Longrightarrow> sub_nodes s0 r x = {} \<and> sub_words s0 r x = {}"
  by (auto simp: sub_nodes_def sub_words_def node_at_def walk_append)

lemma delete_children_run:
  assumes wf: "trie_wf X s0 r" and x: "x \<in> keys"
    and del: "\<And>i st. i \<le> 8 \<Longrightarrow> walk (nodes s0) r (x @ [i]) \<noteq> NULL \<Longrightarrow> agree s0 r st (x @ [i]) \<Longrightarrow>
      f (walk (nodes s0) r (x @ [i])) st = Inr ((), without (sub_nodes s0 r (x @ [i])) (sub_words s0 r (x @ [i])) st)"
  shows "distinct ks \<Longrightarrow> \<forall>i \<in> set ks. i \<le> 8 \<and> agree s0 r st (x @ [i]) \<Longrightarrow>
    delete_children f (map (\<lambda>i. walk (nodes s0) r (x @ [i])) ks) st =
      Inr ((), without (\<Union>i \<in> set ks. sub_nodes s0 r (x @ [i])) (\<Union>i \<in> set ks. sub_words s0 r (x @ [i])) st)"
proof (induction ks arbitrary: st)
  case Nil
  then show ?case by (simp add: ret_run without_def)
next
  case (Cons i ks)
  let ?A = "sub_nodes s0 r (x @ [i])" and ?B = "sub_words s0 r (x @ [i])"
  let ?st = "without ?A ?B st"
  have i: "i \<le> 8" "agree s0 r st (x @ [i])" using Cons.prems(2) by auto
  have first: "(if walk (nodes s0) r (x @ [i]) \<noteq> NULL then f (walk (nodes s0) r (x @ [i])) else ret ()) st = Inr ((), ?st)"
    using del [OF i(1) _ i(2)] sub_NULL [of s0 r "x @ [i]"] by (auto simp: ret_run without_def)
  have "agree s0 r ?st (x @ [j])" if j: "j \<in> set ks" for j
  proof -
    have "j \<le> 8" "j \<noteq> i" "agree s0 r st (x @ [j])" using Cons.prems j by auto
    then show ?thesis using agree_without sub_disjoint [OF wf x, of j i] i(1) by blast
  qed
  then have "delete_children f (map (\<lambda>i. walk (nodes s0) r (x @ [i])) ks) ?st =
      Inr ((), without (\<Union>i \<in> set ks. sub_nodes s0 r (x @ [i])) (\<Union>i \<in> set ks. sub_words s0 r (x @ [i])) ?st)"
    using Cons.IH [of ?st] Cons.prems by auto
  then show ?case using first by (simp add: bnd_Inr without_without)
qed

lemma free_node_without:
  "p \<noteq> NULL \<Longrightarrow> nodes st p = Some n \<Longrightarrow> p \<notin> A \<Longrightarrow> guarded_free_node p (without A B st) = Inr ((), without (insert p A) B st)"
proof -
  assume "p \<noteq> NULL" "nodes st p = Some n" "p \<notin> A"
  moreover have "(nodes st |` (- A))(p := None) = nodes st |` (- insert p A)" by (auto simp: restrict_map_def fun_eq_iff)
  ultimately show ?thesis by (simp add: guarded_free_node_def without_def)
qed

lemma delete_trie_run:
  assumes wf: "trie_wf X s0 r"
  shows "x \<in> keys \<Longrightarrow> walk (nodes s0) r x \<noteq> NULL \<Longrightarrow> brk s0 \<le> length x + k \<Longrightarrow> agree s0 r st x \<Longrightarrow>
    delete_trie k (walk (nodes s0) r x) st = Inr ((), without (sub_nodes s0 r x) (sub_words s0 r x) st)"
proof (induction k arbitrary: x st)
  case 0
  then show ?case using path_length [OF wf 0(1,2)] by simp
next
  case (Suc k)
  let ?p = "walk (nodes s0) r x"
  note D = trie_wfD [OF wf]
  obtain n where n: "node_at s0 r x = Some n" "length (child n) = 9" "if isEnd n then nword n \<noteq> NULL \<and> strs s0 (nword n) \<noteq> None else nword n = NULL"
    using D(3) [OF Suc.prems(1,2)] by (auto split: if_splits)
  note split = sub_split [OF wf Suc.prems(1) n(1)]
  have np: "nodes st ?p = Some n" using Suc.prems(4) split(1) node_at_walk [OF n(1)] by (auto simp: agree_def)
  define B where "B = (if isEnd n then {nword n} else {})"
  define st1 where "st1 = without {} B st"
  have word: "(if nword n \<noteq> NULL then guarded_free_word (nword n) else ret ()) st = Inr ((), st1)"
  proof (cases "isEnd n")
    case True
    then have "strs st (nword n) \<noteq> None" using Suc.prems(4) split(2) n(3) by (auto simp: agree_def)
    moreover have "(strs st)(nword n := None) = strs st |` (- {nword n})" by (auto simp: restrict_map_def)
    ultimately show ?thesis using True n(3) by (simp add: guarded_free_word_def st1_def without_def B_def)
  next
    case False
    then show ?thesis using n(3) by (simp add: ret_run st1_def without_def B_def)
  qed
  have ch: "child n = map (\<lambda>i. walk (nodes s0) r (x @ [i])) [0..<9]"
    using walk_step_node [OF n(1)] n(2) by (intro nth_equalityI) simp_all
  have ag: "agree s0 r st1 (x @ [i])" if "i \<le> 8" for i
  proof -
    have "agree s0 r st (x @ [i])" using Suc.prems(4) split that by (auto simp: agree_def)
    then show ?thesis unfolding st1_def by (rule agree_without) (use sub_root(2) [OF wf Suc.prems(1) that n(1)] in \<open>auto simp: B_def\<close>)
  qed
  let ?A = "\<Union>i \<in> {..8}. sub_nodes s0 r (x @ [i])" and ?B = "\<Union>i \<in> {..8}. sub_words s0 r (x @ [i])"
  have up: "{0..<9} = {..8 :: nat}" by auto
  have children: "delete_children (delete_trie k) (child n) st1 = Inr ((), without ?A ?B st1)"
  proof -
    have "delete_trie k (walk (nodes s0) r (x @ [i])) st' = Inr ((), without (sub_nodes s0 r (x @ [i])) (sub_words s0 r (x @ [i])) st')"
      if "i \<le> 8" "walk (nodes s0) r (x @ [i]) \<noteq> NULL" "agree s0 r st' (x @ [i])" for i st'
      using Suc.IH [OF _ that(2) _ that(3)] that(1) Suc.prems(1,3) by simp
    from delete_children_run [OF wf Suc.prems(1) this, of "[0..<9]" st1] ag show ?thesis unfolding ch by (simp add: up)
  qed
  have "?p \<notin> ?A" using sub_root(1) [OF wf Suc.prems(1) _ n(1)] by auto
  then have "guarded_free_node ?p (without ?A (B \<union> ?B) st) = Inr ((), without (insert ?p ?A) (B \<union> ?B) st)"
    using free_node_without [OF Suc.prems(2) np, of ?A "B \<union> ?B"] by simp
  moreover have "without ?A ?B st1 = without ?A (B \<union> ?B) st" unfolding st1_def without_without by simp
  ultimately have "guarded_free_node ?p (without ?A ?B st1) = Inr ((), without (sub_nodes s0 r x) (sub_words s0 r x) st)"
    unfolding split B_def by simp
  then show ?case using Suc.prems(2) np word children by (simp add: rd_trie_node_def bnd_def)
qed

lemma delete_trie_all:
  assumes wf: "trie_wf {} st r"
  shows "\<exists>st'. delete_trie (brk st) r st = Inr ((), st') \<and> nodes st' = Map.empty \<and> strs st' = Map.empty"
proof -
  note D = trie_wfD [OF wf]
  have "delete_trie (brk st) r st = Inr ((), without (sub_nodes st r []) (sub_words st r []) st)"
    using delete_trie_run [OF wf, of "[]" "brk st" st] D(2) by (simp add: agree_def)
  moreover have "a \<in> sub_nodes st r []" if "nodes st a \<noteq> None" for a
    using D(5) [OF that] by (auto simp: sub_nodes_def)
  then have "nodes (without (sub_nodes st r []) (sub_words st r []) st) a = None" for a
    by (cases "nodes st a = None") (auto simp: without_def restrict_map_def)
  moreover have "a \<in> sub_words st r []" if "strs st a \<noteq> None" for a
    using D(7) [OF that] by (auto simp: sub_words_def)
  then have "strs (without (sub_nodes st r []) (sub_words st r []) st) a = None" for a
    by (cases "strs st a = None") (auto simp: without_def restrict_map_def)
  ultimately show ?thesis by (auto simp: fun_eq_iff)
qed

section \<open>Reading the dictionary\<close>

lemma node_at_cong: "nodes st' = nodes st \<Longrightarrow> node_at st' r x = node_at st r x"
  by (simp add: node_at_def)

lemma add_string:
  assumes wf: "trie_wf {} st r" and h: "holds st r ws" and st': "st' = st\<lparr>brk := Suc (brk st), strs := (strs st)(brk st \<mapsto> s)\<rparr>"
  shows "trie_wf {brk st} st' r" and "holds st' r ws"
proof -
  note D = trie_wfD [OF wf]
  have eq: "nodes st' = nodes st" "node_at st' r x = node_at st r x" for x using st' by (simp_all add: node_at_def)
  have w: "nword n \<noteq> brk st" if "x \<in> keys" "node_at st r x = Some n" "isEnd n" for x n
    using D(3) [OF that(1)] node_at_walk [OF that(2)] that(2,3) D(7) [of "nword n"] by auto
  have c: "no_failures st'" "brk st' = Suc (brk st)" "strs st' = (strs st)(brk st \<mapsto> s)" using D(1) st' by (simp_all add: no_failures_def)
  have c3: "\<exists>n. node_at st r x = Some n \<and> length (child n) = 9 \<and>
      (if isEnd n then nword n \<noteq> NULL \<and> strs st' (nword n) \<noteq> None \<and> nword n \<notin> {brk st} else nword n = NULL)"
    if k: "x \<in> keys" "walk (nodes st) r x \<noteq> NULL" for x
  proof -
    obtain n where n: "node_at st r x = Some n" "length (child n) = 9"
        "if isEnd n then nword n \<noteq> NULL \<and> strs st (nword n) \<noteq> None \<and> nword n \<notin> {} else nword n = NULL"
      using D(3) [OF k] by blast
    have "isEnd n \<Longrightarrow> nword n \<noteq> brk st" using w [OF k(1) n(1)] by blast
    then show ?thesis using n c(3) by (intro exI [of _ n]) (simp split: if_splits)
  qed
  have c5: "a < Suc (brk st) \<and> (\<exists>x \<in> keys. walk (nodes st) r x = a \<and> a \<noteq> NULL)" if "nodes st a \<noteq> None" for a
    using D(5) [OF that] by auto
  have c7: "a < Suc (brk st) \<and> (a \<in> {brk st} \<or> (\<exists>x \<in> keys. \<exists>n. node_at st r x = Some n \<and> isEnd n \<and> nword n = a))" if "strs st' a \<noteq> None" for a
    using D(7) [of a] that c(3) by (auto split: if_splits)
  show "trie_wf {brk st} st' r"
    unfolding trie_wf_def eq c(2) using c(1) D(2) c3 D(4) c5 D(6) c7 D(8) by blast
  have "entry st' r x = entry st r x" if "x \<in> keys" for x
    using w [OF that] c(3) by (auto simp: entry_def eq split: option.split)
  then show "holds st' r ws" using h lists_7_keys by (simp add: holds_def)
qed

lemma drop_string:
  assumes wf: "trie_wf {a} st r" and h: "holds st r ws" and st': "st' = st\<lparr>strs := (strs st)(a := None)\<rparr>"
  shows "trie_wf {} st' r" and "holds st' r ws"
proof -
  note D = trie_wfD [OF wf]
  have eq: "nodes st' = nodes st" "node_at st' r x = node_at st r x" "brk st' = brk st" for x using st' by (simp_all add: node_at_def)
  have w: "nword n \<noteq> a" if "x \<in> keys" "node_at st r x = Some n" "isEnd n" for x n
    using D(3) [OF that(1)] node_at_walk [OF that(2)] that(2,3) by auto
  have c: "no_failures st'" "strs st' = (strs st)(a := None)" using D(1) st' by (simp_all add: no_failures_def)
  have c3: "\<exists>n. node_at st r x = Some n \<and> length (child n) = 9 \<and>
      (if isEnd n then nword n \<noteq> NULL \<and> strs st' (nword n) \<noteq> None \<and> nword n \<notin> {} else nword n = NULL)"
    if k: "x \<in> keys" "walk (nodes st) r x \<noteq> NULL" for x
  proof -
    obtain n where n: "node_at st r x = Some n" "length (child n) = 9"
        "if isEnd n then nword n \<noteq> NULL \<and> strs st (nword n) \<noteq> None \<and> nword n \<notin> {a} else nword n = NULL"
      using D(3) [OF k] by blast
    then show ?thesis using c(2) by (intro exI [of _ n]) (simp split: if_splits)
  qed
  have c7: "b < brk st \<and> (b \<in> {} \<or> (\<exists>x \<in> keys. \<exists>n. node_at st r x = Some n \<and> isEnd n \<and> nword n = b))" if "strs st' b \<noteq> None" for b
    using D(7) [of b] that c(2) by (auto split: if_splits)
  show "trie_wf {} st' r"
    unfolding trie_wf_def eq using c(1) D(2) c3 D(4) D(5) D(6) c7 D(8) by blast
  have "entry st' r x = entry st r x" if "x \<in> keys" for x
    using w [OF that] c(2) by (auto simp: entry_def eq split: option.split)
  then show "holds st' r ws" using h lists_7_keys by (simp add: holds_def)
qed

definition line_ok :: "string \<Rightarrow> bool" where
  "line_ok w \<longleftrightarrow> length w < MAX_LINELEN - 1 \<and> CHR 0x0A \<notin> set w \<and> CHR 0x00 \<notin> set w"

lemma fgets_line: "length w < n \<Longrightarrow> CHR 0x0A \<notin> set w \<Longrightarrow> fgets n (w @ CHR 0x0A # cs) = (w @ [CHR 0x0A], cs)"
proof (induction w arbitrary: n)
  case Nil
  then show ?case by (cases n) auto
next
  case (Cons c w)
  then show ?case by (cases n) auto
qed

lemma read_data_loop_run:
  "trie_wf {} st r \<Longrightarrow> holds st r us \<Longrightarrow> \<forall>w \<in> set ws. line_ok w \<Longrightarrow> length ws < k \<Longrightarrow>
   \<exists>st'. read_data_loop k r (concat (map (\<lambda>w. w @ [CHR 0x0A]) ws)) st = Inr ((), st') \<and> trie_wf {} st' r \<and> holds st' r (us @ ws)"
proof (induction ws arbitrary: st us k)
  case Nil
  then show ?case by (cases k) (simp_all add: ret_run)
next
  case (Cons w ws)
  obtain k' where k: "k = Suc k'" using Cons.prems(4) by (cases k) auto
  let ?rest = "concat (map (\<lambda>w. w @ [CHR 0x0A]) ws)"
  have ok: "length w < MAX_LINELEN - 1" "CHR 0x0A \<notin> set w" "CHR 0x00 \<notin> set w" using Cons.prems(3) by (auto simp: line_ok_def)
  have l: "fgets (MAX_LINELEN - 1) (w @ CHR 0x0A # ?rest) = (w @ [CHR 0x0A], ?rest)" using fgets_line ok by blast
  have "takeWhile (\<lambda>c. c \<noteq> CHR 0x00) (w @ [CHR 0x0A]) = w @ [CHR 0x0A]" using ok(3) by (auto simp: takeWhile_eq_all_conv)
  moreover have "takeWhile (\<lambda>c. c \<noteq> CHR 0x0A) (w @ [CHR 0x0A]) = w" using ok(2) by (auto simp: takeWhile_append takeWhile_eq_all_conv)
  ultimately have buf: "takeWhile (\<lambda>c. c \<noteq> CHR 0x0A) (takeWhile (\<lambda>c. c \<noteq> CHR 0x00) (w @ [CHR 0x0A])) = w" by simp
  let ?a = "brk st"
  define st1 where "st1 = st\<lparr>brk := Suc ?a, strs := (strs st)(?a \<mapsto> map convert w)\<rparr>"
  have c1: "copy_word (map convert w) st = Inr (?a, st1)" using copy_word_run trie_wfD(1) [OF Cons.prems(1)] by (simp add: st1_def)
  note a1 = add_string [OF Cons.prems(1,2) st1_def]
  obtain st2 where st2: "insert_word r (map convert w) w st1 = Inr ((), st2)" "trie_wf {?a} st2 r" "holds st2 r (us @ [w])" "strs st2 ?a = strs st1 ?a"
    using insert_holds [OF a1, of w] by (auto simp: st1_def)
  define st3 where "st3 = st2\<lparr>strs := (strs st2)(?a := None)\<rparr>"
  note a3 = drop_string [OF st2(2,3) st3_def]
  have "?a \<noteq> NULL" using trie_wfD(1) [OF Cons.prems(1)] by (simp add: no_failures_def)
  moreover have "strs st2 ?a \<noteq> None" using st2(4) by (simp add: st1_def)
  ultimately have f: "guarded_free_word ?a st2 = Inr ((), st3)" by (simp add: guarded_free_word_def st3_def)
  have "read_data_loop k r (concat (map (\<lambda>w. w @ [CHR 0x0A]) (w # ws))) st = read_data_loop k' r ?rest st3"
    using k l buf c1 st2(1) f by (simp add: bnd_def)
  moreover obtain st' where "read_data_loop k' r ?rest st3 = Inr ((), st')" "trie_wf {} st' r" "holds st' r ((us @ [w]) @ ws)"
    using Cons.IH [OF a3, of k'] Cons.prems(3,4) k by auto
  ultimately show ?case by auto
qed

text \<open>
  What the dialogue should print, stated on the word list alone: the position is the key searched last
  and the number of words shown for it since.
\<close>

fun spec_dialogue :: "string list \<Rightarrow> (nat list \<times> nat) option \<Rightarrow> string list \<Rightarrow> string list" where
  "spec_dialogue ws pos [] = []"
| "spec_dialogue ws pos (q # qs) =
     (if q = ''#'' then
        (case pos of
           None \<Rightarrow> no_more # spec_dialogue ws None qs
         | Some (d, j) \<Rightarrow> answer (onyms ws d) (Suc j) # spec_dialogue ws (Some (d, Suc j)) qs)
      else answer (onyms ws (map digit q)) 0 # spec_dialogue ws (Some (map digit q, 0)) qs)"

definition query_ok :: "string \<Rightarrow> bool" where
  "query_ok q \<longleftrightarrow> q = ''#'' \<or> q \<noteq> [] \<and> length q < MAX_LINELEN \<and> list_all is_digit q"

definition pos_ok :: "trie_state \<Rightarrow> nat \<Rightarrow> (nat list \<times> nat) option \<Rightarrow> nat \<Rightarrow> bool" where
  "pos_ok st r pos cur \<longleftrightarrow> (case pos of None \<Rightarrow> cur = NULL | Some (d, j) \<Rightarrow> d \<in> lists {..7} \<and> cur = t9_cur st r d j)"

lemma dialogue_run:
  "trie_wf {} st r \<Longrightarrow> holds st r ws \<Longrightarrow> pos_ok st r pos cur \<Longrightarrow> \<forall>q \<in> set qs. query_ok q \<Longrightarrow>
   t9_dialogue r cur (qs @ ''exit'' # rest) st = Inr (spec_dialogue ws pos qs, st)"
proof (induction qs arbitrary: pos cur)
  case Nil
  then show ?case by (simp add: t9_round_def MAX_LINELEN_def bnd_def ret_run)
next
  case (Cons q qs)
  note wf = Cons.prems(1,2)
  have go: ?case if "t9_round r cur q st = Inr (Some (cur', out), st)" "pos_ok st r pos' cur'"
      "spec_dialogue ws pos (q # qs) = out # spec_dialogue ws pos' qs" for cur' out pos'
    using that Cons.IH [OF wf that(2)] Cons.prems(4) by (simp add: bnd_def ret_run)
  show ?case
  proof (cases "q = ''#''")
    case q: True
    show ?thesis
    proof (cases pos)
      case None
      then show ?thesis using Cons.prems(3) q by (intro go [of NULL no_more None]) (simp_all add: t9_round_def MAX_LINELEN_def ret_run pos_ok_def)
    next
      case (Some p)
      obtain d j where p: "pos = Some (d, j)" using Some by (cases p) auto
      have d: "d \<in> lists {..7}" "cur = t9_cur st r d j" using Cons.prems(3) p by (simp_all add: pos_ok_def)
      have "t9_round r cur q st = Inr (Some (t9_cur st r d (Suc j), answer (onyms ws d) (Suc j)), st)"
        using round_hash [OF wf d(1), of j] d(2) q by simp
      then show ?thesis by (rule go [where pos' = "Some (d, Suc j)"]) (use p d q in \<open>simp_all add: pos_ok_def\<close>)
    qed
  next
    case q: False
    then have ok: "\<forall>c \<in> set q. is_digit c" "length q < MAX_LINELEN" "q \<noteq> []" using Cons.prems(4) by (auto simp: query_ok_def list_all_iff)
    from round_digits [OF wf ok, of cur] show ?thesis
      by (rule go [where pos' = "Some (map digit q, 0)"]) (use q digits_7 [OF ok(1)] in \<open>simp_all add: pos_ok_def\<close>)
  qed
qed

section \<open>The whole program\<close>

definition no_memory :: "nat \<Rightarrow> trie_state" where
  "no_memory b = \<lparr>brk = b, outcomes = [], nodes = Map.empty, strs = Map.empty\<rparr>"

lemma empty_trie_holds:
  assumes "0 < b"
  shows "\<exists>st. create_empty_trie (no_memory b) = Inr (b, st) \<and> trie_wf {} st b \<and> holds st b []"
proof -
  define st where "st = (no_memory b)\<lparr>brk := Suc b, nodes := [b \<mapsto> leaf False NULL]\<rparr>"
  have run: "create_empty_trie (no_memory b) = Inr (b, st)"
    using create_trie_node_run(1) [of "no_memory b"] assms by (simp add: create_empty_trie_def no_failures_def no_memory_def st_def)
  have walk: "walk (nodes st) b x = (if x = [] then b else NULL)" if "x \<in> keys" for x
  proof (cases x)
    case (Cons i y)
    then have "replicate 9 NULL ! i = NULL" using that by (simp add: nth_replicate del: replicate.simps)
    then show ?thesis using Cons assms by (simp add: st_def leaf_def del: replicate.simps)
  qed simp
  have node: "node_at st b x = (if x = [] then Some (leaf False NULL) else None)" if "x \<in> keys" for x
    using assms walk [OF that] by (simp add: node_at_def st_def)
  have "trie_wf {} st b"
    unfolding trie_wf_def
  proof (intro conjI)
    show "no_failures st" "b \<noteq> NULL" using assms by (simp_all add: no_failures_def st_def no_memory_def)
  next
    show "\<forall>a. nodes st a \<noteq> None \<longrightarrow> a < brk st \<and> (\<exists>x \<in> keys. walk (nodes st) b x = a \<and> a \<noteq> NULL)"
      using assms walk [of "[]"] by (auto simp: st_def intro!: bexI [of _ "[]"])
  next
    show "\<forall>a. strs st a \<noteq> None \<longrightarrow> a < brk st \<and> (a \<in> {} \<or> (\<exists>x \<in> keys. \<exists>n. node_at st b x = Some n \<and> isEnd n \<and> nword n = a))"
      by (simp add: st_def no_memory_def)
  qed (use walk node in \<open>simp_all add: leaf_def split: if_splits\<close>)
  moreover have "holds st b []"
    using node lists_7_keys by (simp add: holds_def entry_def onyms_def leaf_def)
  ultimately show ?thesis using run by blast
qed

definition dictionary :: "string list \<Rightarrow> string" where
  "dictionary ws = concat (map (\<lambda>w. w @ [CHR 0x0A]) ws)"

lemma dictionary_length: "length ws \<le> length (dictionary ws)"
  by (induction ws) (simp_all add: dictionary_def)

lemma read_data_run:
  assumes "trie_wf {} st r" "holds st r []" "\<forall>w \<in> set ws. line_ok w"
  shows "\<exists>st'. read_data (Some (dictionary ws, False)) r st = Inr (True, st') \<and> trie_wf {} st' r \<and> holds st' r ws"
proof -
  obtain st' where "read_data_loop (Suc (length (dictionary ws))) r (dictionary ws) st = Inr ((), st')" "trie_wf {} st' r" "holds st' r ([] @ ws)"
    using read_data_loop_run [OF assms, of "Suc (length (dictionary ws))"] dictionary_length [of ws] unfolding dictionary_def [symmetric] by auto
  then show ?thesis by (simp add: read_data_def bnd_def ret_run)
qed

lemma loaded_trie:
  assumes "0 < b" "\<forall>w \<in> set ws. line_ok w"
  obtains st where "trie_wf {} st b" "holds st b ws"
    "\<And>bufs. t9_main (Some (dictionary ws, False)) bufs (no_memory b) =
       bnd (t9_dialogue b NULL bufs) (\<lambda>outs. bnd (\<lambda>s. delete_trie (brk s) b s) (\<lambda>_. ret outs)) st"
proof -
  obtain s1 where s1: "create_empty_trie (no_memory b) = Inr (b, s1)" "trie_wf {} s1 b" "holds s1 b []"
    using empty_trie_holds [OF assms(1)] by blast
  obtain s2 where s2: "read_data (Some (dictionary ws, False)) b s1 = Inr (True, s2)" "trie_wf {} s2 b" "holds s2 b ws"
    using read_data_run [OF s1(2,3) assms(2)] by blast
  have "t9_main (Some (dictionary ws, False)) bufs (no_memory b) =
       bnd (t9_dialogue b NULL bufs) (\<lambda>outs. bnd (\<lambda>s. delete_trie (brk s) b s) (\<lambda>_. ret outs)) s2" for bufs
    unfolding t9_main_def bnd_Inr [of create_empty_trie "no_memory b", OF s1(1)] bnd_Inr [of "read_data (Some (dictionary ws, False)) b" s1, OF s2(1)]
    by simp
  then show ?thesis using that s2 by blast
qed

text \<open>
  C24: The whole T9 program against its specification on the word list: on a dictionary file with one
  word per line, for every sequence of key sequences and \<open>#\<close> requests that ends with exit, the program
  prints the words of the last key in dictionary order, one per request, and the message that there are
  no more when they run out.  At the end every node and every string has been released.
\<close>

theorem t9_refines_word_list:
  assumes "0 < b" "\<forall>w \<in> set ws. line_ok w" "\<forall>q \<in> set qs. query_ok q"
  shows "\<exists>st. t9_main (Some (dictionary ws, False)) (qs @ ''exit'' # rest) (no_memory b) = Inr (spec_dialogue ws None qs, st)
    \<and> nodes st = Map.empty \<and> strs st = Map.empty"
proof -
  obtain st where st: "trie_wf {} st b" "holds st b ws"
    and run: "\<And>bufs. t9_main (Some (dictionary ws, False)) bufs (no_memory b) =
       bnd (t9_dialogue b NULL bufs) (\<lambda>outs. bnd (\<lambda>s. delete_trie (brk s) b s) (\<lambda>_. ret outs)) st"
    by (rule loaded_trie [OF assms(1,2)]) blast
  have "t9_dialogue b NULL (qs @ ''exit'' # rest) st = Inr (spec_dialogue ws None qs, st)"
    using dialogue_run [OF st, of None NULL qs] assms(3) by (simp add: pos_ok_def)
  moreover obtain st' where "delete_trie (brk st) b st = Inr ((), st')" "nodes st' = Map.empty" "strs st' = Map.empty"
    using delete_trie_all [OF st(1)] by blast
  ultimately show ?thesis unfolding run by (simp add: bnd_def ret_run)
qed

theorem t9_refines_word_list_witness:
  "\<exists>st. t9_main (Some (dictionary [''act'', ''bat'', ''cat'', ''dog''], False)) [''228'', ''#'', ''#'', ''#'', ''364'', ''exit''] (no_memory 1)
     = Inr ([''act'', ''bat'', ''cat'', no_more, ''dog''], st) \<and> nodes st = Map.empty \<and> strs st = Map.empty"
proof -
  have "spec_dialogue [''act'', ''bat'', ''cat'', ''dog''] None [''228'', ''#'', ''#'', ''#'', ''364''] = [''act'', ''bat'', ''cat'', no_more, ''dog'']"
    by code_simp
  moreover have "\<forall>w \<in> set [''act'', ''bat'', ''cat'', ''dog'']. line_ok w" by (simp add: line_ok_def MAX_LINELEN_def)
  moreover have "\<forall>q \<in> set [''228'', ''#'', ''#'', ''#'', ''364'']. query_ok q" by (simp add: query_ok_def MAX_LINELEN_def is_digit_def)
  ultimately show ?thesis
    using t9_refines_word_list [of 1 "[''act'', ''bat'', ''cat'', ''dog'']" "[''228'', ''#'', ''#'', ''#'', ''364'']" "[]"] by simp
qed

text \<open>
  \<open>search_trie\<close> does not check its keys: whatever the dictionary, a request whose first character is
  neither \<open>#\<close> nor in the range from 2 to the character after 9 indexes \<open>child\<close> outside its nine entries.
\<close>

theorem t9_bad_key_faults:
  assumes "0 < b" "\<forall>w \<in> set ws. line_ok w" "length (c # q) < MAX_LINELEN" "take 4 (c # q) \<noteq> ''exit''" "c \<noteq> CHR ''#''"
    and "char_int c < char_int CHR ''2'' \<or> char_int CHR ''2'' + 8 < char_int c"
  shows "t9_main (Some (dictionary ws, False)) ((c # q) # rest) (no_memory b) = Inl MemFault"
proof -
  obtain st where st: "trie_wf {} st b" "holds st b ws"
    and run: "\<And>bufs. t9_main (Some (dictionary ws, False)) bufs (no_memory b) =
       bnd (t9_dialogue b NULL bufs) (\<lambda>outs. bnd (\<lambda>s. delete_trie (brk s) b s) (\<lambda>_. ret outs)) st"
    by (rule loaded_trie [OF assms(1,2)]) blast
  obtain n where n: "node_at st b [] = Some n" "length (child n) = 9" using trie_wfD(3) [OF st(1), of "[]"] trie_wfD(2) [OF st(1)] by auto
  have "child_at n (char_int c - char_int CHR ''2'') = fail MemFault" using assms(6) n(2) by (auto simp: child_at_def)
  then have "search_trie b (c # q) st = Inl MemFault"
    using assms(5) rd_node_at [OF n(1)] trie_wfD(2) [OF st(1)] by (simp add: bnd_def fail_def)
  moreover have ne: "take 1 (c # q) \<noteq> ''#''" "\<not> MAX_LINELEN \<le> length (c # q)" using assms(3,5) by simp_all
  ultimately have "t9_round b NULL (c # q) st = Inl MemFault"
    unfolding t9_round_def if_not_P [OF assms(4)] if_not_P [OF ne(1)] if_not_P [OF ne(2)] bnd_def by simp
  then show ?thesis unfolding run by (simp add: bnd_def)
qed

theorem t9_bad_key_faults_witness:
  "t9_main (Some (dictionary [''cat''], False)) [''102'', ''exit''] (no_memory 1) = Inl MemFault"
  by (rule t9_bad_key_faults) (simp_all add: line_ok_def MAX_LINELEN_def char_int_def)

end
