(* ===== verification/Spec2Isabelle.thy ===== *)
theory Spec2Isabelle
  imports SearchShell QueryProcessor Bits Monitor Kdebug MmRealloc Shell Trie
begin

text \<open>
  A verification of the C and C++ programs of a repository of course work.

  \<^bold>\<open>The programs.\<close>  The repository holds independent programs, each in its directory under src/.

  \<^item> uw\_cse333/hw is a search engine in three layers.  hw1 is a library with a doubly linked list and a
    chained hash table that is built on it.  hw2 uses the table for the document table, the word indexer and the
    inverted index with ranked queries; its crawler enters a directory tree into them and its shell answers the
    lines of the input.  hw3 writes the tables of hw2 to an index file with a checksum, and answers queries from
    such files through readers, without the tables in memory.
  \<^item> uw\_cse351/lab1 holds the bit and pointer puzzles, uw\_cse351/lab5 an explicit free list allocator
    on a simulated memory.
  \<^item> uw\_cse374/hw4 is the T9 dictionary: a trie over telephone keys and the program that queries it.
  \<^item> mit6.828/lab is the JOS kernel of the first lab: boot page tables, string library, formatted output, the
    console with display, serial port and keyboard, the line editor, the search in the symbol table, and the
    monitor that reads commands with these.  mit6.828/homework/shell is the shell sh.c.

  \<^bold>\<open>The theories.\<close>  \<open>Prelude\<close> has what they share: a C function that touches memory is a command, a
  function from a state to a fault or a result with the next state; faults are failed assertions,
  invalid memory accesses, process exits and exhausted loop bounds; the weakest precondition calculus
  \<open>wp\<close> with its collection of rules; the system allocator, whose calls can fail in any pattern.

  The search engine:

  \<^item> \<open>LinkedList\<close> (hw1/LinkedList.c, LinkedList\_priv.h): nodes, list records and iterators in a store,
    with every pointer assignment of the source.  The chain predicate relates a record to its elements;
    the lemmas give the effect of every operation, and the properties cover both ends, the iterator
    operations, sorting (a sorted permutation, and termination of the bubble sort) and releasing.
    Locale \<open>deque\<close> is the contract of the two ends, \<open>sort_order\<close> what the comparator has to satisfy.
  \<^item> \<open>HashTable\<close> (hw1/HashTable.c): the table as its array of chains, FNV hashing on 64-bit words,
    growing, iterators.  The properties relate every operation to the finite map the table stands for;
    locale \<open>finite_map_table\<close> is that contract, interpreted by the table.
  \<^item> \<open>DocTable\<close>, \<open>FileParser\<close>, \<open>MemIndex\<close> (hw2): clients of the table.  The document table is a bijection
    of names and identifiers; the parser builds the table of the words of a text with their positions;
    a query returns exactly the documents with all words, ranked by the number of positions.
  \<^item> \<open>FileCrawler\<close> (hw2/filecrawler.c, ReadFile of fileparser.c): the walk of a directory tree against
    the answers of the operating system, which are an argument.  The invariant \<open>crawled\<close> relates tables and
    index to the list of the documents entered so far.
  \<^item> \<open>SearchShell\<close> (hw2/searchshell.c): the program as a whole.  Its property composes the
    crawler, the index and the document table, and mentions only the tree and the lines.
  \<^item> \<open>Crc32\<close> (hw3/fileindexutil.cc): the checksum class with its static table, against a bit-serial register.
  \<^item> \<open>IndexLayout\<close> (hw3/filelayout.h, fileindexutil.h): the packed structures, byte order, and files as lists
    of bytes on which every call of the C library can fail.
  \<^item> \<open>IndexWriter\<close> (hw3/fileindexwriter.cc): the writer.  A relation says that a table is stored at an offset.
    Locale \<open>element_layout\<close> is what the stored form of an element has to satisfy for the stored form of a
    table to be preserved by writes elsewhere, \<open>element_writer\<close> the contract between WriteHashTable and the function
    it is passed.  The contract is interpreted for the three functions of the code; that for a set of documents
    rests on a nested table, that is, on the interpretation for positions.
  \<^item> \<open>IndexReader\<close> (hw3/HashTableReader.cc, DocTableReader.cc, DocIDTableReader.cc, IndexTableReader.cc,
    FileIndexReader.cc): the readers, and the round trip with the writer.
  \<^item> \<open>QueryProcessor\<close> (hw3/QueryProcessor.cc): queries against several files, their results, and that they
    agree with those of the index in memory.

  The labs:

  \<^item> \<open>Bits\<close> (lab1/bits.c, tests.c, pointer.c): the puzzles on 32-bit words against the reference
    functions of the grader and against arithmetic on integers.
  \<^item> \<open>Mm\<close>, \<open>MmHeap\<close>, \<open>MmSpec\<close>, \<open>MmRealloc\<close> (lab5/mm.c, memlib.c): the allocator on 64-bit words of
    memory, with boundary tags and the links of the free list stored in the heap.  \<open>MmHeap\<close> has the
    invariant and the correctness of coalescing, freeing and allocating, \<open>MmSpec\<close> that of
    initialisation, \<open>MmRealloc\<close> that of resizing.  Locales \<open>heap_allocator\<close> and
    \<open>resizing_allocator\<close> are the contract with a client, \<open>mm_reach\<close> the heaps a client can produce.
  \<^item> \<open>Trie\<close> (hw4/trie.c, lib.c, t9.c): nodes and words in a store, the dictionary reader and the
    dialogue.  The specification is a function on the word list alone.
  \<^item> \<open>Shell\<close> (sh.c): the scanner, the recursive descent parser with its store of command nodes, and the
    printer used to state the round trip.  Locale \<open>separated\<close> is the pattern that pipes and lists share.

  The kernel:

  \<^item> \<open>Paging\<close> (inc/mmu.h, inc/types.h, kern/entrypgdir.c): the address macros and the two tables
    entry by entry, read by the two-level walk of the processor.
  \<^item> \<open>JosString\<close> (lib/string.c): byte and string functions on a partial memory, the string
    instructions of memset and memmove four bytes at a time, strtol.
  \<^item> \<open>Printfmt\<close> (lib/printfmt.c): the format interpreter for any output function.  What a format means is a
    function to strings; locale \<open>sink\<close> is what an output function has to satisfy for the interpreter to
    put that string out, interpreted by the buffer of snprintf here and by the console in \<open>ConsoleScreen\<close>.
  \<^item> \<open>Console\<close> (kern/console.c, kern/printf.c, lib/readline.c): the operations against an arbitrary sequence of
    values read from the ports.  \<open>ConsoleScreen\<close> shows that output refines a terminal of rows with a cursor.
    \<open>ConsoleInput\<close> has the input: locale \<open>fifo\<close> is the contract of the circular buffer, \<open>input_device\<close> that of a
    device polled by cons\_intr (interpreted by the serial port and the keyboard), \<open>line_source\<close> what the line
    editor relies on.
  \<^item> \<open>Kdebug\<close> (kern/kdebug.c, inc/stab.h): the binary search over entries of mixed types and the report.
  \<^item> \<open>Monitor\<close> (kern/monitor.c, kern/init.c): command line, commands, panic and kernel entry, on the console,
    the line editor and the formatted output above.

  \<^bold>\<open>Bounds.\<close>  Machine integers are words, or natural numbers with the wrap-around written out (\<open>add64\<close>
  in \<open>Mm\<close>).  A loop along pointers takes a number of rounds and faults with \<open>OutOfFuel\<close> when it is used
  up; the entry points pass the number of addresses handed out, the number of elements, or the length
  of the input, and the properties state results without a fault, so that the bound was enough.  The
  allocator takes the number of rounds from the size of its heap in words, the string functions of the kernel
  and the waits for a key from an argument that the properties bound from below, the crawler its depth from the
  depth of the tree, the validation of an index file the number of bytes, since each useful read takes one at least.

  \<^bold>\<open>Not modelled.\<close>  Output to the terminal is left out unless the function exists to produce it.
  The running of parsed commands in the shell, the main functions of hw3 and its file checker, the web servers
  (hw4, cmu\_15-441), the test drivers with their timing code, the boot loader and the assembly of the kernel, the
  exercises under uw\_cse333/exs, the binary labs of uw\_cse351, the unit tests, and the programs in other languages are
  outside the model.  uw\_cse333/hw/projdocs (bash 4.2 among it) and uw\_cse333/hw/gtest are vendored.
\<close>

end
